(* ===== verification/Rmdb_Prelude.thy ===== *)
theory Rmdb_Prelude
  imports Main "HOL-Library.Word"
begin

text \<open>
  The prelude of the development: the types the components share (bytes, page
  identifiers, record identifiers), the errors the program throws
  (\<^verbatim>\<open>src/src/errors.h\<close>), the outcome of a call, and the generic lemmas on lists,
  maps and machine integers that the component proofs use.

  An operation that can throw returns a value of \<open>'a outcome\<close>: \<open>Ret\<close> a result,
  \<open>Throw\<close> an exception, \<open>Wait\<close> a call that is blocked on a condition variable
  (the caller retries it, as the \<open>for (;;)\<close> loops of the program do).
\<close>

unbundle bit_operations_syntax

named_theorems bpm_defs \<open>definitions of the buffer pool that its proofs unfold together\<close>
named_theorems heap_defs \<open>definitions of the heap file that its proofs unfold together\<close>

type_synonym byte = "8 word"
type_synonym lsn_t = int
type_synonym txn_id_t = int
type_synonym timestamp_t = int
type_synonym frame_id_t = nat

abbreviation INVALID_LSN :: lsn_t where "INVALID_LSN \<equiv> - 1"
abbreviation INVALID_PAGE_ID :: int where "INVALID_PAGE_ID \<equiv> - 1"
abbreviation INVALID_TXN_ID :: txn_id_t where "INVALID_TXN_ID \<equiv> - 1"
abbreviation INVALID_TS :: timestamp_t where "INVALID_TS \<equiv> - 1"

definition PAGE_SIZE :: nat where "PAGE_SIZE = 4096"

definition LOG_BUFFER_SIZE :: nat where "LOG_BUFFER_SIZE = 1024 * PAGE_SIZE"

text \<open>The exceptions of \<^verbatim>\<open>errors.h\<close> that the modelled code throws; \<open>StdOutOfRange\<close> is thrown by the \<open>at\<close> of a standard container. The last
  two are not exceptions: \<open>AssertionFailed\<close> is a failed \<open>assert\<close>, \<open>MemoryFault\<close> an access outside a buffer or through a null pointer. The query executors are
  proved free of both.\<close>

datatype db_error =
    InternalError string
  | UnixError
  | FileNotOpenError int
  | FileNotClosedError string
  | FileExistsError string
  | FileNotFoundError string
  | RecordNotFoundError int int
  | InvalidRecordSizeError int
  | PageNotExistError int
  | IndexEntryNotFoundError
  | DuplicateKeyError
  | InvalidColLengthError int
  | TransactionAbortException
  | RMDBError string
  | TableNotFoundError string
  | ColumnNotFoundError string
  | AmbiguousColumnError string
  | InvalidValueCountError
  | StringOverflowError
  | IncompatibleTypeError string string
  | StdOutOfRange
  | AssertionFailed
  | MemoryFault

datatype 'a outcome = Ret 'a | Throw db_error | Wait

primrec is_Ret :: "'a outcome \<Rightarrow> bool" where
  "is_Ret (Ret x) = True"
| "is_Ret (Throw e) = False"
| "is_Ret Wait = False"

text \<open>Sequencing of calls that thread a state and may throw or block.\<close>

definition obind :: "('s \<Rightarrow> 'a outcome \<times> 's) \<Rightarrow> ('a \<Rightarrow> 's \<Rightarrow> 'b outcome \<times> 's) \<Rightarrow> 's \<Rightarrow> 'b outcome \<times> 's" where
  "obind m f s = (case m s of (Ret x, s1) \<Rightarrow> f x s1 | (Throw e, s1) \<Rightarrow> (Throw e, s1) | (Wait, s1) \<Rightarrow> (Wait, s1))"

lemma obind_simps [simp]:
  "m s = (Ret x, s1) \<Longrightarrow> obind m f s = f x s1"
  "m s = (Throw e, s1) \<Longrightarrow> obind m f s = (Throw e, s1)"
  "m s = (Wait, s1) \<Longrightarrow> obind m f s = (Wait, s1)"
  by (simp_all add: obind_def)

lemma obind_cong [fundef_cong]:
  "m s = m' s' \<Longrightarrow> (\<And>x s1. m' s' = (Ret x, s1) \<Longrightarrow> f x s1 = f' x s1) \<Longrightarrow> obind m f s = obind m' f' s'"
  by (auto simp: obind_def split: outcome.splits prod.splits)

record page_id =
  fd :: int
  page_no :: int

record rid =
  rid_page :: int
  rid_slot :: int

subsection \<open>Two's complement 32-bit integers\<close>

text \<open>\<open>i32 x\<close> is the value an \<open>int32_t\<close> holds after \<open>x\<close> was stored in it.\<close>

definition i32 :: "int \<Rightarrow> int" where
  "i32 x = (x + 2 ^ 31) mod 2 ^ 32 - 2 ^ 31"

lemma i32_id [simp]: "- (2 ^ 31) \<le> x \<Longrightarrow> x < 2 ^ 31 \<Longrightarrow> i32 x = x"
  by (simp add: i32_def)

lemma i32_range: "- (2 ^ 31) \<le> i32 x \<and> i32 x < 2 ^ 31"
proof -
  have "0 \<le> (x + 2 ^ 31) mod 2 ^ 32" and "(x + 2 ^ 31) mod 2 ^ 32 < (2 ^ 32 :: int)"
    by simp_all
  then show ?thesis by (simp add: i32_def)
qed

subsection \<open>Lists\<close>

lemma filter_neq_remove1: "distinct xs \<Longrightarrow> filter (\<lambda>y. y \<noteq> x) xs = remove1 x xs"
  by (induction xs) (auto simp: filter_id_conv)

lemma length_filter_remove1:
  "x \<in> set xs \<Longrightarrow> P x \<Longrightarrow> length (filter P (remove1 x xs)) = length (filter P xs) - 1"
  by (simp add: filter_remove1 length_remove1)

lemma take_drop_append_id: "take n xs @ take m (drop n xs) @ drop (n + m) xs = xs"
  by (metis append_take_drop_id drop_drop add.commute)

end
