(* ===== verification/Rmdb_Bitmap.thy ===== *)
theory Rmdb_Bitmap
  imports Rmdb_Prelude
begin

text \<open>
  The slot bitmap of a heap page (\<^verbatim>\<open>src/src/record/bitmap.h\<close>, class \<open>Bitmap\<close>). A
  bitmap is the list of its bytes. A position beyond the last byte is out of range in
  the program (it would touch the slots behind the bitmap); the lemmas ask for
  positions below eight times the number of bytes.
\<close>

definition BITMAP_WIDTH :: nat where "BITMAP_WIDTH = 8"

definition BITMAP_HIGHEST_BIT :: "32 word" where "BITMAP_HIGHEST_BIT = 0x80"

definition get_bucket :: "nat \<Rightarrow> nat" where
  "get_bucket pos = pos div BITMAP_WIDTH"

definition get_bit :: "nat \<Rightarrow> byte" where
  "get_bit pos = ucast (drop_bit (pos mod BITMAP_WIDTH) BITMAP_HIGHEST_BIT)"

definition bm_init :: "byte list \<Rightarrow> nat \<Rightarrow> byte list" where
  "bm_init bm n = replicate n 0 @ drop n bm"

definition bm_set :: "byte list \<Rightarrow> nat \<Rightarrow> byte list" where
  "bm_set bm pos = bm[get_bucket pos := bm ! get_bucket pos OR get_bit pos]"

definition bm_reset :: "byte list \<Rightarrow> nat \<Rightarrow> byte list" where
  "bm_reset bm pos = bm[get_bucket pos := bm ! get_bucket pos AND NOT (get_bit pos)]"

definition is_set :: "byte list \<Rightarrow> nat \<Rightarrow> bool" where
  "is_set bm pos = (bm ! get_bucket pos AND get_bit pos \<noteq> 0)"

function next_bit_from :: "bool \<Rightarrow> byte list \<Rightarrow> nat \<Rightarrow> nat \<Rightarrow> nat" where
  "next_bit_from b bm max_n i =
     (if i < max_n then (if is_set bm i = b then i else next_bit_from b bm max_n (Suc i))
      else max_n)"
  by pat_completeness auto
termination
  by (relation "measure (\<lambda>(b, bm, max_n, i). max_n - i)") auto

declare next_bit_from.simps [simp del]

text \<open>\<open>cur\<close> is an \<open>int\<close>: the scan starts with \<open>cur = -1\<close>.\<close>

definition next_bit :: "bool \<Rightarrow> byte list \<Rightarrow> nat \<Rightarrow> int \<Rightarrow> nat" where
  "next_bit b bm max_n cur = next_bit_from b bm max_n (nat (cur + 1))"

definition first_bit :: "bool \<Rightarrow> byte list \<Rightarrow> nat \<Rightarrow> nat" where
  "first_bit b bm max_n = next_bit b bm max_n (- 1)"

subsection \<open>Single bits\<close>

lemma bit_get_bit: "bit (get_bit pos) n \<longleftrightarrow> n = 7 - pos mod 8"
proof -
  have e: "BITMAP_HIGHEST_BIT = 2 ^ 7" by (simp add: BITMAP_HIGHEST_BIT_def)
  have h: "bit BITMAP_HIGHEST_BIT k \<longleftrightarrow> k = 7" for k unfolding e bit_exp_iff by auto
  have "bit (get_bit pos) n \<longleftrightarrow> n < 8 \<and> pos mod 8 + n = 7"
    unfolding get_bit_def BITMAP_WIDTH_def by (auto simp: bit_simps h)
  then show ?thesis by auto
qed

lemma is_set_bit: "is_set bm pos \<longleftrightarrow> bit (bm ! (pos div 8)) (7 - pos mod 8)"
proof -
  have "(w AND get_bit pos \<noteq> 0) \<longleftrightarrow> bit w (7 - pos mod 8)" for w :: byte
    by (auto simp: bit_eq_iff [of "w AND get_bit pos" 0] bit_and_iff bit_get_bit)
  then show ?thesis by (simp add: is_set_def get_bucket_def BITMAP_WIDTH_def)
qed

lemma pos_eq_iff: "pos div 8 = q div 8 \<Longrightarrow> 7 - pos mod 8 = 7 - q mod (8::nat) \<longleftrightarrow> pos = q"
proof -
  assume h: "pos div 8 = q div 8"
  have "pos mod 8 < 8" "q mod 8 < 8" by simp_all
  then have "7 - pos mod 8 = 7 - q mod 8 \<longleftrightarrow> pos mod 8 = q mod 8" by arith
  also have "\<dots> \<longleftrightarrow> pos = q" using h by (metis div_mult_mod_eq)
  finally show ?thesis .
qed

lemma length_bm_set [simp]: "length (bm_set bm pos) = length bm"
  by (simp add: bm_set_def)

lemma length_bm_reset [simp]: "length (bm_reset bm pos) = length bm"
  by (simp add: bm_reset_def)

lemma bit_pos_lt: "pos < 8 * length bm \<Longrightarrow> pos div 8 < length (bm :: byte list)"
  by (simp add: less_mult_imp_div_less mult.commute)

lemma is_set_bm_set [simp]:
  assumes "pos < 8 * length bm" "q < 8 * length bm"
  shows "is_set (bm_set bm pos) q \<longleftrightarrow> q = pos \<or> is_set bm q"
proof (cases "pos div 8 = q div 8")
  case True
  then show ?thesis using assms pos_eq_iff [OF True]
    by (auto simp: is_set_bit bm_set_def get_bucket_def BITMAP_WIDTH_def bit_or_iff bit_get_bit bit_pos_lt)
next
  case False
  then show ?thesis
    by (auto simp: is_set_bit bm_set_def get_bucket_def BITMAP_WIDTH_def)
qed

lemma is_set_bm_reset [simp]:
  assumes "pos < 8 * length bm" "q < 8 * length bm"
  shows "is_set (bm_reset bm pos) q \<longleftrightarrow> q \<noteq> pos \<and> is_set bm q"
proof (cases "pos div 8 = q div 8")
  case True
  have "7 - q mod 8 < (8::nat)" by simp
  then show ?thesis using assms True pos_eq_iff [OF True]
    by (auto simp: is_set_bit bm_reset_def get_bucket_def BITMAP_WIDTH_def bit_and_iff bit_not_iff
        bit_get_bit bit_pos_lt)
next
  case False
  then show ?thesis
    by (auto simp: is_set_bit bm_reset_def get_bucket_def BITMAP_WIDTH_def)
qed

lemma is_set_bm_init: "pos < 8 * n \<Longrightarrow> \<not> is_set (bm_init bm n) pos"
  by (simp add: is_set_bit bm_init_def nth_append bit_pos_lt less_mult_imp_div_less mult.commute)

subsection \<open>Searching\<close>

lemma next_bit_from_cases:
  "i \<le> max_n \<Longrightarrow>
   i \<le> next_bit_from b bm max_n i \<and> next_bit_from b bm max_n i \<le> max_n \<and>
   (\<forall>j. i \<le> j \<and> j < next_bit_from b bm max_n i \<longrightarrow> is_set bm j \<noteq> b) \<and>
   (next_bit_from b bm max_n i < max_n \<longrightarrow> is_set bm (next_bit_from b bm max_n i) = b)"
proof (induction b bm max_n i rule: next_bit_from.induct)
  case (1 b bm max_n i)
  show ?case
  proof (cases "i < max_n \<and> is_set bm i \<noteq> b")
    case True
    then have eq: "next_bit_from b bm max_n i = next_bit_from b bm max_n (Suc i)"
      by (simp add: next_bit_from.simps [of b bm max_n i])
    from True "1.IH" have ih:
      "Suc i \<le> next_bit_from b bm max_n (Suc i) \<and> next_bit_from b bm max_n (Suc i) \<le> max_n \<and>
       (\<forall>j. Suc i \<le> j \<and> j < next_bit_from b bm max_n (Suc i) \<longrightarrow> is_set bm j \<noteq> b) \<and>
       (next_bit_from b bm max_n (Suc i) < max_n \<longrightarrow> is_set bm (next_bit_from b bm max_n (Suc i)) = b)"
      by simp
    then show ?thesis unfolding eq using True by (metis Suc_leD le_antisym not_less_eq_eq)
  next
    case False
    with "1.prems" show ?thesis by (auto simp: next_bit_from.simps [of b bm max_n i])
  qed
qed

text \<open>
  C1. \<open>Bitmap::next_bit\<close> returns the least position in \<open>[cur+1, max_n)\<close> whose bit has
  the wanted value, and \<open>max_n\<close> when there is none: nothing before the result has that
  value, and a result below \<open>max_n\<close> has it.
\<close>

theorem next_bit_least:
  assumes "- 1 \<le> cur" and "nat (cur + 1) \<le> max_n"
  shows "nat (cur + 1) \<le> next_bit b bm max_n cur \<and> next_bit b bm max_n cur \<le> max_n
    \<and> (\<forall>j. cur < int j \<and> j < next_bit b bm max_n cur \<longrightarrow> is_set bm j \<noteq> b)
    \<and> (next_bit b bm max_n cur < max_n \<longrightarrow> is_set bm (next_bit b bm max_n cur) = b)"
proof -
  have "nat (cur + 1) \<le> j \<longleftrightarrow> cur < int j" for j using assms(1) by auto
  with next_bit_from_cases [OF assms(2), of b bm] show ?thesis
    by (simp add: next_bit_def)
qed

theorem next_bit_least_witness:
  "next_bit True [0x08, 0x81] 16 4 = 8
   \<and> \<not> is_set [0x08, 0x81] 5 \<and> \<not> is_set [0x08, 0x81] 7 \<and> is_set [0x08, 0x81] 8"
proof -
  have e: "next_bit True [0x08, 0x81] 16 4 = 8" by code_simp
  show ?thesis using e next_bit_least [of 4 16 True "[0x08, 0x81]"] by simp
qed

end
