(* ===== verification/Rmdb_Replacer.thy ===== *)
theory Rmdb_Replacer
  imports Rmdb_Prelude
begin

text \<open>
  The page replacement policy: \<^verbatim>\<open>src/src/replacer/lru_replacer.cpp\<close>, class
  \<open>LRUReplacer\<close>. The program keeps a doubly linked list of frames and a hash table from
  a frame to the list node that holds it. The model keeps that structure: a list of
  nodes, each a node address and a frame, front first, and a map from frames to node
  addresses; erasing through an iterator removes the node with that address.
  The locale \<open>replacer\<close> is the interface of \<^verbatim>\<open>replacer.h\<close> as the buffer pool relies on
  it: a queue of evictable frames, the most recently unpinned first.
\<close>

record lru_replacer =
  LRUlist :: "(nat \<times> frame_id_t) list"
  LRUhash :: "frame_id_t \<rightharpoonup> nat"
  next_node :: nat
  max_size :: nat

definition LRUReplacer_new :: "nat \<Rightarrow> lru_replacer" where
  "LRUReplacer_new num_pages =
     \<lparr>LRUlist = [], LRUhash = Map.empty, next_node = 0, max_size = num_pages\<rparr>"

definition erase_node :: "nat \<Rightarrow> (nat \<times> frame_id_t) list \<Rightarrow> (nat \<times> frame_id_t) list" where
  "erase_node n xs = filter (\<lambda>x. fst x \<noteq> n) xs"

definition victim :: "lru_replacer \<Rightarrow> frame_id_t option \<times> lru_replacer" where
  "victim r =
     (if LRUlist r = [] then (None, r)
      else let f = snd (last (LRUlist r)) in
        (Some f, r\<lparr>LRUlist := butlast (LRUlist r), LRUhash := (LRUhash r)(f := None)\<rparr>))"

fun victim_scan :: "(frame_id_t \<Rightarrow> bool) \<Rightarrow> nat \<Rightarrow> (nat \<times> frame_id_t) list \<Rightarrow> (nat \<times> frame_id_t) option" where
  "victim_scan predicate max_scan [] = None"
| "victim_scan predicate 0 (it # its) = None"
| "victim_scan predicate (Suc left) (it # its) =
     (if predicate (snd it) then Some it else victim_scan predicate left its)"

definition victim_if :: "lru_replacer \<Rightarrow> (frame_id_t \<Rightarrow> bool) \<Rightarrow> nat \<Rightarrow> frame_id_t option \<times> lru_replacer" where
  "victim_if r predicate max_scan =
     (if max_scan = 0 then (None, r)
      else case victim_scan predicate max_scan (rev (LRUlist r)) of
        None \<Rightarrow> (None, r)
      | Some (n, f) \<Rightarrow>
          (Some f, r\<lparr>LRUlist := erase_node n (LRUlist r), LRUhash := (LRUhash r)(f := None)\<rparr>))"

definition cold_candidates :: "lru_replacer \<Rightarrow> nat \<Rightarrow> frame_id_t list" where
  "cold_candidates r max_count =
     (if max_count = 0 then [] else map snd (take max_count (rev (LRUlist r))))"

definition pin :: "lru_replacer \<Rightarrow> frame_id_t \<Rightarrow> lru_replacer" where
  "pin r f =
     (case LRUhash r f of
        None \<Rightarrow> r
      | Some n \<Rightarrow> r\<lparr>LRUlist := erase_node n (LRUlist r), LRUhash := (LRUhash r)(f := None)\<rparr>)"

definition unpin :: "lru_replacer \<Rightarrow> frame_id_t \<Rightarrow> lru_replacer" where
  "unpin r f =
     (if LRUhash r f \<noteq> None then r
      else r\<lparr>LRUlist := (next_node r, f) # LRUlist r,
             LRUhash := (LRUhash r)(f \<mapsto> next_node r),
             next_node := Suc (next_node r)\<rparr>)"

definition unpin_cold :: "lru_replacer \<Rightarrow> frame_id_t \<Rightarrow> lru_replacer" where
  "unpin_cold r f =
     (if LRUhash r f \<noteq> None then r
      else r\<lparr>LRUlist := LRUlist r @ [(next_node r, f)],
             LRUhash := (LRUhash r)(f \<mapsto> next_node r),
             next_node := Suc (next_node r)\<rparr>)"

definition replacer_Size :: "lru_replacer \<Rightarrow> nat" where
  "replacer_Size r = length (LRUlist r)"

subsection \<open>The interface\<close>

text \<open>The abstract queue is a list of distinct frames; its last element is the coldest.\<close>

definition abs_victim_if :: "frame_id_t list \<Rightarrow> (frame_id_t \<Rightarrow> bool) \<Rightarrow> nat \<Rightarrow> frame_id_t option" where
  "abs_victim_if q P k = find P (take k (rev q))"

text \<open>\<open>evict_n vict n r\<close> calls \<open>vict\<close> \<open>n\<close> times and collects the victims.\<close>

primrec evict_n :: "('r \<Rightarrow> frame_id_t option \<times> 'r) \<Rightarrow> nat \<Rightarrow> 'r \<Rightarrow> frame_id_t option list \<times> 'r" where
  "evict_n v 0 r = ([], r)"
| "evict_n v (Suc n) r = (let (x, r') = v r; (xs, r'') = evict_n v n r' in (x # xs, r''))"

lemma find_SomeD: "find P xs = Some x \<Longrightarrow> P x \<and> x \<in> set xs"
  by (induction xs) (auto split: if_splits)

locale replacer =
  fixes vict :: "'r \<Rightarrow> frame_id_t option \<times> 'r"
    and vict_if :: "'r \<Rightarrow> (frame_id_t \<Rightarrow> bool) \<Rightarrow> nat \<Rightarrow> frame_id_t option \<times> 'r"
    and cold :: "'r \<Rightarrow> nat \<Rightarrow> frame_id_t list"
    and pn :: "'r \<Rightarrow> frame_id_t \<Rightarrow> 'r"
    and unpn :: "'r \<Rightarrow> frame_id_t \<Rightarrow> 'r"
    and unpn_cold :: "'r \<Rightarrow> frame_id_t \<Rightarrow> 'r"
    and queue :: "'r \<Rightarrow> frame_id_t list"
    and invar :: "'r \<Rightarrow> bool"
  assumes invar_distinct: "invar r \<Longrightarrow> distinct (queue r)"
    and vict_empty: "invar r \<Longrightarrow> queue r = [] \<Longrightarrow> vict r = (None, r)"
    and vict_last: "invar r \<Longrightarrow> queue r \<noteq> [] \<Longrightarrow>
      fst (vict r) = Some (last (queue r)) \<and> queue (snd (vict r)) = butlast (queue r) \<and> invar (snd (vict r))"
    and vict_if_None: "invar r \<Longrightarrow> abs_victim_if (queue r) P k = None \<Longrightarrow> vict_if r P k = (None, r)"
    and vict_if_Some: "invar r \<Longrightarrow> abs_victim_if (queue r) P k = Some f \<Longrightarrow>
      fst (vict_if r P k) = Some f \<and> queue (snd (vict_if r P k)) = remove1 f (queue r) \<and> invar (snd (vict_if r P k))"
    and cold_take: "invar r \<Longrightarrow> cold r k = take k (rev (queue r))"
    and pn_queue: "invar r \<Longrightarrow> queue (pn r f) = remove1 f (queue r) \<and> invar (pn r f)"
    and unpn_queue: "invar r \<Longrightarrow>
      queue (unpn r f) = (if f \<in> set (queue r) then queue r else f # queue r) \<and> invar (unpn r f)"
    and unpn_cold_queue: "invar r \<Longrightarrow>
      queue (unpn_cold r f) = (if f \<in> set (queue r) then queue r else queue r @ [f]) \<and> invar (unpn_cold r f)"
begin

lemma evict_n_order:
  "invar r \<Longrightarrow> n \<le> length (queue r) \<Longrightarrow>
   fst (evict_n vict n r) = map Some (take n (rev (queue r))) \<and>
   queue (snd (evict_n vict n r)) = take (length (queue r) - n) (queue r) \<and> invar (snd (evict_n vict n r))"
proof (induction n arbitrary: r)
  case 0
  then show ?case by simp
next
  case (Suc n)
  then have ne: "queue r \<noteq> []" by auto
  obtain r' where v: "vict r = (Some (last (queue r)), r')" "queue r' = butlast (queue r)" "invar r'"
    using vict_last [OF Suc.prems(1) ne] by (cases "vict r") auto
  have len: "n \<le> length (queue r')" using v Suc.prems by auto
  from Suc.IH [OF v(3) len] v ne show ?case
    by (auto simp: Let_def take_butlast split: prod.splits)
       (metis append_butlast_last_id rev_eq_Cons_iff rev_rev_ident take_Suc_Cons list.map(2))+
qed

lemma vict_if_sound:
  "invar r \<Longrightarrow> fst (vict_if r P k) = Some f \<Longrightarrow> P f \<and> f \<in> set (queue r)"
proof (cases "abs_victim_if (queue r) P k")
  case None
  moreover assume "invar r" "fst (vict_if r P k) = Some f"
  ultimately show ?thesis using vict_if_None by simp
next
  case (Some g)
  assume a: "invar r" "fst (vict_if r P k) = Some f"
  then have "g = f" using vict_if_Some [OF a(1) Some] by simp
  with Some show ?thesis
    by (auto simp: abs_victim_if_def dest!: find_SomeD dest: in_set_takeD)
qed

lemma pinned_not_victim:
  "invar r \<Longrightarrow> fst (vict (pn r f)) \<noteq> Some f"
proof (cases "queue (pn r f) = []")
  case True
  assume "invar r"
  then show ?thesis using vict_empty [OF _ True] pn_queue by simp
next
  case False
  assume i: "invar r"
  then have "f \<notin> set (queue (pn r f))" using pn_queue invar_distinct by simp
  moreover have "fst (vict (pn r f)) = Some (last (queue (pn r f)))"
    using vict_last False i pn_queue by blast
  ultimately show ?thesis using False by (metis last_in_set option.inject)
qed

end

subsection \<open>The LRU list and its hash table implement the interface\<close>

definition lru_inv :: "lru_replacer \<Rightarrow> bool" where
  "lru_inv r \<longleftrightarrow>
     distinct (map fst (LRUlist r)) \<and> distinct (map snd (LRUlist r)) \<and>
     (\<forall>f n. LRUhash r f = Some n \<longleftrightarrow> (n, f) \<in> set (LRUlist r)) \<and>
     (\<forall>x \<in> set (LRUlist r). fst x < next_node r)"

definition frames :: "lru_replacer \<Rightarrow> frame_id_t list" where
  "frames r = map snd (LRUlist r)"

lemma lru_inv_new [simp]: "lru_inv (LRUReplacer_new n)" "frames (LRUReplacer_new n) = []"
  by (simp_all add: lru_inv_def frames_def LRUReplacer_new_def)

lemma lru_hash_None: "lru_inv r \<Longrightarrow> LRUhash r f = None \<longleftrightarrow> f \<notin> set (frames r)"
  unfolding lru_inv_def frames_def by (cases "LRUhash r f") force+

lemma map_snd_erase_node:
  "distinct (map fst xs) \<Longrightarrow> distinct (map snd xs) \<Longrightarrow> (n, f) \<in> set xs \<Longrightarrow>
   map snd (erase_node n xs) = remove1 f (map snd xs)"
proof (induction xs)
  case (Cons x xs)
  show ?case
  proof (cases "fst x = n")
    case True
    with Cons.prems have "x = (n, f)" by (auto simp: rev_image_eqI)
    moreover have "filter (\<lambda>x. fst x \<noteq> n) xs = xs"
      using Cons.prems True by (intro filter_True) (auto simp: rev_image_eqI)
    ultimately show ?thesis by (simp add: erase_node_def)
  next
    case False
    with Cons.prems have "(n, f) \<in> set xs" by auto
    moreover from this Cons.prems have "snd x \<noteq> f" by (auto simp: rev_image_eqI)
    ultimately show ?thesis using Cons False by (simp add: erase_node_def)
  qed
qed simp

lemma distinct_pair_iff:
  "distinct (map fst xs) \<Longrightarrow> distinct (map snd xs) \<Longrightarrow> (n, f) \<in> set xs \<Longrightarrow> (m, g) \<in> set xs \<Longrightarrow>
   m = n \<longleftrightarrow> g = f"
  by (metis eq_key_imp_eq_value distinct_map fst_conv inj_onD snd_conv)

lemma lru_inv_erase:
  assumes "lru_inv r" and "(n, f) \<in> set (LRUlist r)"
  shows "lru_inv (r\<lparr>LRUlist := erase_node n (LRUlist r), LRUhash := (LRUhash r)(f := None)\<rparr>)"
proof -
  have "(m, g) \<in> set (LRUlist r) \<Longrightarrow> m = n \<longleftrightarrow> g = f" for m g
    using assms distinct_pair_iff [of "LRUlist r" n f m g] unfolding lru_inv_def by blast
  then show ?thesis using assms
    unfolding lru_inv_def erase_node_def by (auto simp: distinct_map_filter)
qed

lemma victim_scan_find:
  "victim_scan P k xs = find (\<lambda>x. P (snd x)) (take k xs)"
  by (induction P k xs rule: victim_scan.induct) auto

lemma find_map_snd: "map_option snd (find (\<lambda>x. P (snd x)) xs) = find P (map snd xs)"
  by (induction xs) auto

lemma abs_victim_if_scan:
  "abs_victim_if (frames r) P k = map_option snd (victim_scan P k (rev (LRUlist r)))"
  by (simp add: abs_victim_if_def frames_def victim_scan_find find_map_snd take_map rev_map)

lemma victim_scan_mem: "victim_scan P k xs = Some x \<Longrightarrow> x \<in> set xs"
  by (induction P k xs rule: victim_scan.induct) (auto split: if_splits)

lemma victim_queue:
  assumes "lru_inv r" and "frames r \<noteq> []"
  shows "fst (victim r) = Some (last (frames r)) \<and> frames (snd (victim r)) = butlast (frames r)
    \<and> lru_inv (snd (victim r))"
proof -
  obtain ys n f where l: "LRUlist r = ys @ [(n, f)]"
    using assms(2) by (cases "LRUlist r" rule: rev_cases) (auto simp: frames_def)
  then have "erase_node n (LRUlist r) = ys"
    using assms(1) by (auto simp: lru_inv_def erase_node_def rev_image_eqI intro!: filter_True)
  with l lru_inv_erase [OF assms(1), of n f] show ?thesis
    by (auto simp: victim_def frames_def Let_def map_butlast)
qed

lemma victim_if_queue:
  assumes "lru_inv r" and "abs_victim_if (frames r) P k = Some f"
  shows "fst (victim_if r P k) = Some f \<and> frames (snd (victim_if r P k)) = remove1 f (frames r)
    \<and> lru_inv (snd (victim_if r P k))"
proof -
  obtain n where v: "victim_scan P k (rev (LRUlist r)) = Some (n, f)"
    using assms(2) by (auto simp: abs_victim_if_scan)
  then have m: "(n, f) \<in> set (LRUlist r)" by (auto dest: victim_scan_mem)
  have "k \<noteq> 0" using v by (cases k) (auto simp: victim_scan_find)
  with v m assms(1) lru_inv_erase [OF assms(1) m] map_snd_erase_node [of "LRUlist r" n f] show ?thesis
    by (simp add: victim_if_def frames_def lru_inv_def)
qed

lemma victim_if_none:
  "abs_victim_if (frames r) P k = None \<Longrightarrow> victim_if r P k = (None, r)"
  by (simp add: abs_victim_if_scan victim_if_def)

lemma pin_queue:
  assumes "lru_inv r"
  shows "frames (pin r f) = remove1 f (frames r) \<and> lru_inv (pin r f)"
proof (cases "LRUhash r f")
  case None
  then have "f \<notin> set (frames r)" using lru_hash_None [OF assms] by simp
  with None assms show ?thesis by (simp add: pin_def remove1_idem)
next
  case (Some n)
  then have m: "(n, f) \<in> set (LRUlist r)" using assms by (simp add: lru_inv_def)
  then have "map snd (erase_node n (LRUlist r)) = remove1 f (frames r)"
    using assms map_snd_erase_node [of "LRUlist r" n f] by (simp add: frames_def lru_inv_def)
  with Some lru_inv_erase [OF assms m] show ?thesis by (simp add: pin_def frames_def)
qed

lemma lru_inv_push:
  assumes "lru_inv r" and "f \<notin> set (frames r)" and "set xs = insert (next_node r, f) (set (LRUlist r))"
    and "distinct (map fst xs)" and "distinct (map snd xs)"
  shows "lru_inv (r\<lparr>LRUlist := xs, LRUhash := (LRUhash r)(f \<mapsto> next_node r), next_node := Suc (next_node r)\<rparr>)"
proof -
  have "(n, f) \<notin> set (LRUlist r)" for n using assms(2) by (auto simp: frames_def rev_image_eqI)
  then show ?thesis using assms(1,3-5) unfolding lru_inv_def by (auto simp: less_Suc_eq)
qed

lemma unpin_queue:
  assumes "lru_inv r"
  shows "frames (unpin r f) = (if f \<in> set (frames r) then frames r else f # frames r) \<and> lru_inv (unpin r f)"
proof (cases "f \<in> set (frames r)")
  case True
  with assms show ?thesis using lru_hash_None [OF assms, of f] by (auto simp: unpin_def)
next
  case False
  then have h: "LRUhash r f = None" using lru_hash_None [OF assms] by simp
  have "lru_inv (unpin r f)" unfolding unpin_def using h assms False
    by (auto intro!: lru_inv_push simp: frames_def lru_inv_def rev_image_eqI)
  with False h show ?thesis by (simp add: unpin_def frames_def)
qed

lemma unpin_cold_queue:
  assumes "lru_inv r"
  shows "frames (unpin_cold r f) = (if f \<in> set (frames r) then frames r else frames r @ [f])
    \<and> lru_inv (unpin_cold r f)"
proof (cases "f \<in> set (frames r)")
  case True
  with assms show ?thesis using lru_hash_None [OF assms, of f] by (auto simp: unpin_cold_def)
next
  case False
  then have h: "LRUhash r f = None" using lru_hash_None [OF assms] by simp
  have "lru_inv (unpin_cold r f)" unfolding unpin_cold_def using h assms False
    by (auto intro!: lru_inv_push simp: frames_def lru_inv_def rev_image_eqI)
  with False h show ?thesis by (simp add: unpin_cold_def frames_def)
qed

interpretation lru: replacer victim victim_if cold_candidates pin unpin unpin_cold frames lru_inv
proof
  show "lru_inv r \<Longrightarrow> distinct (frames r)" for r by (simp add: lru_inv_def frames_def)
  show "lru_inv r \<Longrightarrow> frames r = [] \<Longrightarrow> victim r = (None, r)" for r by (simp add: frames_def victim_def)
  show "lru_inv r \<Longrightarrow> cold_candidates r k = take k (rev (frames r))" for r k
    by (simp add: cold_candidates_def frames_def take_map rev_map)
qed (simp_all add: victim_queue victim_if_queue victim_if_none pin_queue unpin_queue unpin_cold_queue)

text \<open>
  C2. Refinement of the evictable queue: on a replacer whose hash table and list agree,
  every operation of \<open>LRUReplacer\<close> acts on the queue of evictable frames as specified and
  keeps the agreement. \<open>victim\<close> takes the coldest frame, \<open>victim_if\<close> the coldest one
  of the \<open>k\<close> coldest that satisfies the predicate, \<open>pin\<close> removes its frame wherever it
  is, \<open>unpin\<close> adds it at the hot end and \<open>unpin_cold\<close> at the cold end unless it is
  already there.
\<close>

theorem lru_refines_queue:
  assumes "lru_inv r"
  shows "distinct (frames r) \<and> replacer_Size r = length (frames r)
    \<and> fst (victim r) = (if frames r = [] then None else Some (last (frames r)))
    \<and> frames (snd (victim r)) = butlast (frames r) \<and> lru_inv (snd (victim r))
    \<and> fst (victim_if r P k) = find P (take k (rev (frames r)))
    \<and> frames (snd (victim_if r P k)) =
        (case find P (take k (rev (frames r))) of None \<Rightarrow> frames r | Some g \<Rightarrow> remove1 g (frames r))
    \<and> lru_inv (snd (victim_if r P k))
    \<and> cold_candidates r k = take k (rev (frames r))
    \<and> frames (pin r f) = remove1 f (frames r) \<and> lru_inv (pin r f)
    \<and> frames (unpin r f) = (if f \<in> set (frames r) then frames r else f # frames r) \<and> lru_inv (unpin r f)
    \<and> frames (unpin_cold r f) = (if f \<in> set (frames r) then frames r else frames r @ [f])
    \<and> lru_inv (unpin_cold r f)"
proof -
  have "fst (victim_if r P k) = find P (take k (rev (frames r)))
    \<and> frames (snd (victim_if r P k)) =
        (case find P (take k (rev (frames r))) of None \<Rightarrow> frames r | Some g \<Rightarrow> remove1 g (frames r))
    \<and> lru_inv (snd (victim_if r P k))"
    using assms victim_if_none [of r P k] victim_if_queue [of r P k]
    by (cases "find P (take k (rev (frames r)))") (auto simp: abs_victim_if_def)
  moreover have "replacer_Size r = length (frames r)" by (simp add: replacer_Size_def frames_def)
  moreover have "fst (victim r) = (if frames r = [] then None else Some (last (frames r)))
    \<and> frames (snd (victim r)) = butlast (frames r) \<and> lru_inv (snd (victim r))"
    using lru.vict_empty [OF assms] lru.vict_last [OF assms] assms by (cases "frames r = []") auto
  ultimately show ?thesis
    using lru.invar_distinct [OF assms] lru.cold_take [OF assms] lru.pn_queue [OF assms]
      lru.unpn_queue [OF assms] lru.unpn_cold_queue [OF assms] by blast
qed

theorem lru_refines_queue_witness:
  "lru_inv (unpin (unpin (LRUReplacer_new 4) 3) 1)
   \<and> frames (pin (unpin (unpin (LRUReplacer_new 4) 3) 1) 3) = remove1 3 [1, 3]"
proof -
  have i: "lru_inv (unpin (unpin (LRUReplacer_new 4) 3) 1)"
    by (simp add: unpin_queue)
  have f: "frames (unpin (unpin (LRUReplacer_new 4) 3) 1) = [1, 3]"
    by (simp add: unpin_queue)
  from lru_refines_queue [OF i, of "\<lambda>_. True" 1 3] i f show ?thesis by simp
qed

text \<open>
  Least recently used order: \<open>n\<close> successive calls of \<open>victim\<close> return the \<open>n\<close> frames
  that were unpinned longest ago, the oldest first, and leave the rest in order.
\<close>

lemma lru_victims_in_order:
  assumes "lru_inv r" and "n \<le> length (frames r)"
  shows "fst (evict_n victim n r) = map Some (take n (rev (frames r)))
    \<and> frames (snd (evict_n victim n r)) = take (length (frames r) - n) (frames r)
    \<and> lru_inv (snd (evict_n victim n r))"
  using assms by (rule lru.evict_n_order)

lemma lru_victims_in_order_example:
  "fst (evict_n victim 2 (unpin (unpin (unpin (LRUReplacer_new 4) 3) 1) 2)) = [Some 3, Some 1]"
proof -
  have i: "lru_inv (unpin (unpin (unpin (LRUReplacer_new 4) 3) 1) 2)"
    by (simp add: unpin_queue)
  have f: "frames (unpin (unpin (unpin (LRUReplacer_new 4) 3) 1) 2) = [2, 1, 3]"
    by (simp add: unpin_queue)
  from lru_victims_in_order [OF i, of 2] f show ?thesis by simp
qed

end
