(* ===== verification/Rmdb_Disk.thy ===== *)
theory Rmdb_Disk
  imports Rmdb_Prelude
begin

text \<open>
  The disk manager: \<^verbatim>\<open>src/src/storage/disk_manager.cpp\<close> and \<^verbatim>\<open>disk_manager.h\<close>, class
  \<open>DiskManager\<close>, over a model of the POSIX calls it makes. The operating system state
  holds the regular files (path to bytes), the open descriptors (each the path it was
  opened on), the number of descriptors a process may open, and a fault map that says how
  many bytes a \<open>pwrite\<close> at a descriptor and offset accepts when it does not accept all.
  The calls that start a shell (\<open>create_dir\<close>, \<open>destroy_dir\<close>) and \<open>is_dir\<close> are not
  modelled.
\<close>

record os_state =
  os_files :: "string \<rightharpoonup> byte list"
  os_fds :: "int \<rightharpoonup> string"
  os_max_fd :: nat
  os_short :: "int \<Rightarrow> nat \<Rightarrow> nat option"

definition os_content :: "os_state \<Rightarrow> int \<Rightarrow> byte list option" where
  "os_content os f = (case os_fds os f of None \<Rightarrow> None | Some p \<Rightarrow> os_files os p)"

text \<open>Overwriting at an offset; a write behind the end leaves a hole of zeros.\<close>

definition splice_at :: "byte list \<Rightarrow> nat \<Rightarrow> byte list \<Rightarrow> byte list" where
  "splice_at content off data =
     take off (content @ replicate (off - length content) 0) @ data @ drop (off + length data) content"

definition os_pwrite :: "os_state \<Rightarrow> int \<Rightarrow> byte list \<Rightarrow> int \<Rightarrow> int \<times> os_state" where
  "os_pwrite os f data off =
     (case os_fds os f of
        None \<Rightarrow> (- 1, os)
      | Some p \<Rightarrow>
          (case os_files os p of
             None \<Rightarrow> (- 1, os)
           | Some content \<Rightarrow>
               if off < 0 then (- 1, os)
               else let k = (case os_short os f (nat off) of None \<Rightarrow> length data | Some k \<Rightarrow> min k (length data))
                 in (int k, os\<lparr>os_files := (os_files os)(p \<mapsto> splice_at content (nat off) (take k data))\<rparr>)))"

definition os_pread :: "os_state \<Rightarrow> int \<Rightarrow> nat \<Rightarrow> int \<Rightarrow> byte list option" where
  "os_pread os f n off =
     (case os_content os f of
        None \<Rightarrow> None
      | Some content \<Rightarrow> if off < 0 then None else Some (take n (drop (nat off) content)))"

text \<open>\<open>open\<close> returns the lowest descriptor that is not in use (0 to 2 are the standard streams).\<close>

definition os_alloc_fd :: "os_state \<Rightarrow> int option" where
  "os_alloc_fd os = find (\<lambda>f. os_fds os f = None) (map int [3..<os_max_fd os])"

record disk =
  os :: os_state
  path2fd :: "string \<rightharpoonup> int"
  fd2path :: "int \<rightharpoonup> string"
  log_fd :: int
  fd2pageno :: "int \<Rightarrow> int"

definition MAX_FD :: int where "MAX_FD = 8192"

definition LOG_FILE_NAME :: string where "LOG_FILE_NAME = ''db.log''"

definition DiskManager_new :: "os_state \<Rightarrow> disk" where
  "DiskManager_new o0 =
     \<lparr>os = o0, path2fd = Map.empty, fd2path = Map.empty, log_fd = - 1, fd2pageno = (\<lambda>_. 0)\<rparr>"

definition write_page :: "disk \<Rightarrow> int \<Rightarrow> int \<Rightarrow> byte list \<Rightarrow> unit outcome \<times> disk" where
  "write_page d f pno data =
     (let file_offset = pno * int PAGE_SIZE;
          (bytes_written, os') = os_pwrite (os d) f data file_offset
      in if bytes_written \<noteq> int (length data)
         then (Throw (InternalError ''DiskManager::write_page Error''), d\<lparr>os := os'\<rparr>)
         else (Ret (), d\<lparr>os := os'\<rparr>))"

definition read_page :: "disk \<Rightarrow> int \<Rightarrow> int \<Rightarrow> nat \<Rightarrow> byte list outcome" where
  "read_page d f pno num_bytes =
     (case os_pread (os d) f num_bytes (pno * int PAGE_SIZE) of
        None \<Rightarrow> Throw (InternalError ''DiskManager::read_page Error'')
      | Some bytes \<Rightarrow> Ret (bytes @ replicate (num_bytes - length bytes) 0))"

text \<open>The counter is an \<open>atomic<int32_t>\<close>: it wraps. The assertion on \<open>fd\<close> is a precondition.\<close>

definition allocate_page :: "disk \<Rightarrow> int \<Rightarrow> int \<times> disk" where
  "allocate_page d f = (fd2pageno d f, d\<lparr>fd2pageno := (fd2pageno d)(f := i32 (fd2pageno d f + 1))\<rparr>)"

definition set_fd2pageno :: "disk \<Rightarrow> int \<Rightarrow> int \<Rightarrow> disk" where
  "set_fd2pageno d f start = d\<lparr>fd2pageno := (fd2pageno d)(f := start)\<rparr>"

definition get_fd2pageno :: "disk \<Rightarrow> int \<Rightarrow> int" where
  "get_fd2pageno d f = fd2pageno d f"

definition is_file :: "disk \<Rightarrow> string \<Rightarrow> bool" where
  "is_file d path = (os_files (os d) path \<noteq> None)"

text \<open>
  \<open>create_file\<close> opens with \<open>O_CREAT\<close> and closes at once; \<open>open\<close> fails when no descriptor
  is left.
\<close>

definition create_file :: "disk \<Rightarrow> string \<Rightarrow> unit outcome \<times> disk" where
  "create_file d path =
     (if is_file d path then (Throw (FileExistsError path), d)
      else case os_alloc_fd (os d) of
        None \<Rightarrow> (Throw UnixError, d)
      | Some f \<Rightarrow> (Ret (), d\<lparr>os := (os d)\<lparr>os_files := (os_files (os d))(path \<mapsto> [])\<rparr>\<rparr>))"

definition destroy_file :: "disk \<Rightarrow> string \<Rightarrow> unit outcome \<times> disk" where
  "destroy_file d path =
     (if path2fd d path \<noteq> None then (Throw (FileNotClosedError path), d)
      else if \<not> is_file d path then (Throw (FileNotFoundError path), d)
      else (Ret (), d\<lparr>os := (os d)\<lparr>os_files := (os_files (os d))(path := None)\<rparr>\<rparr>))"

definition open_file :: "disk \<Rightarrow> string \<Rightarrow> int outcome \<times> disk" where
  "open_file d path =
     (if \<not> is_file d path then (Throw (FileNotFoundError path), d)
      else case path2fd d path of
        Some f \<Rightarrow> (Ret f, d)
      | None \<Rightarrow>
          (case os_alloc_fd (os d) of
             None \<Rightarrow> (Throw UnixError, d)
           | Some f \<Rightarrow>
               (Ret f, d\<lparr>os := (os d)\<lparr>os_fds := (os_fds (os d))(f \<mapsto> path)\<rparr>,
                         path2fd := (path2fd d)(path \<mapsto> f), fd2path := (fd2path d)(f \<mapsto> path)\<rparr>)))"

definition close_file :: "disk \<Rightarrow> int \<Rightarrow> unit outcome \<times> disk" where
  "close_file d f =
     (case fd2path d f of
        None \<Rightarrow> (Throw (FileNotOpenError f), d)
      | Some path \<Rightarrow>
          (let d' = d\<lparr>fd2path := (fd2path d)(f := None), path2fd := (path2fd d)(path := None)\<rparr>
           in if os_fds (os d) f = None then (Throw UnixError, d')
              else (Ret (), d'\<lparr>os := (os d)\<lparr>os_fds := (os_fds (os d))(f := None)\<rparr>\<rparr>)))"

definition get_file_size :: "disk \<Rightarrow> string \<Rightarrow> int" where
  "get_file_size d path = (case os_files (os d) path of None \<Rightarrow> - 1 | Some content \<Rightarrow> int (length content))"

definition get_file_name :: "disk \<Rightarrow> int \<Rightarrow> string outcome" where
  "get_file_name d f = (case fd2path d f of None \<Rightarrow> Throw (FileNotOpenError f) | Some path \<Rightarrow> Ret path)"

definition get_file_fd :: "disk \<Rightarrow> string \<Rightarrow> int outcome \<times> disk" where
  "get_file_fd d path = (case path2fd d path of None \<Rightarrow> open_file d path | Some f \<Rightarrow> (Ret f, d))"

text \<open>The log file is opened on the first access.\<close>

definition ensure_log_fd :: "disk \<Rightarrow> unit outcome \<times> disk" where
  "ensure_log_fd d =
     (if log_fd d = - 1
      then (case open_file d LOG_FILE_NAME of
              (Ret f, d') \<Rightarrow> (Ret (), d'\<lparr>log_fd := f\<rparr>)
            | (Throw e, d') \<Rightarrow> (Throw e, d')
            | (Wait, d') \<Rightarrow> (Wait, d'))
      else (Ret (), d))"

text \<open>
  \<open>read_log\<close>: \<open>Ret None\<close> is the return value \<open>-1\<close>; otherwise the bytes read. The
  assertion that the file system delivers every byte below the end of file holds in the
  model. The callers pass offsets that are not negative; for a negative one the \<open>lseek\<close> of the program
  fails without notice, which the model shows as an error.
\<close>

definition read_log :: "disk \<Rightarrow> nat \<Rightarrow> int \<Rightarrow> byte list option outcome \<times> disk" where
  "read_log d n offset =
     (case ensure_log_fd d of
           (Throw e, d1) \<Rightarrow> (Throw e, d1)
         | (Wait, d1) \<Rightarrow> (Wait, d1)
         | (Ret _, d1) \<Rightarrow>
             (let file_size = get_file_size d1 LOG_FILE_NAME
              in if offset > file_size then (Ret None, d1)
                 else let n' = min (int n) (file_size - offset)
                   in if n' = 0 then (Ret (Some []), d1)
                      else case os_pread (os d1) (log_fd d1) (nat n') offset of
                        None \<Rightarrow> (Throw UnixError, d1)
                      | Some bytes \<Rightarrow> (Ret (Some bytes), d1)))"

definition write_log :: "disk \<Rightarrow> byte list \<Rightarrow> int \<Rightarrow> unit outcome \<times> disk" where
  "write_log d data file_offset =
     (case ensure_log_fd d of
           (Throw e, d1) \<Rightarrow> (Throw e, d1)
         | (Wait, d1) \<Rightarrow> (Wait, d1)
         | (Ret _, d1) \<Rightarrow>
             (let off = (if file_offset < 0
                         then (case os_content (os d1) (log_fd d1) of None \<Rightarrow> 0 | Some c \<Rightarrow> int (length c))
                         else file_offset);
                  (bytes_write, os') = os_pwrite (os d1) (log_fd d1) data off
              in if bytes_write \<noteq> int (length data) then (Throw UnixError, d1\<lparr>os := os'\<rparr>)
                 else (Ret (), d1\<lparr>os := os'\<rparr>)))"

subsection \<open>The open files\<close>

text \<open>
  The two maps of the disk manager are inverse to each other and agree with the
  descriptors of the operating system; every open path is a file.
\<close>

definition disk_inv :: "disk \<Rightarrow> bool" where
  "disk_inv d \<longleftrightarrow>
     (\<forall>p f. path2fd d p = Some f \<longleftrightarrow> fd2path d f = Some p) \<and>
     fd2path d = os_fds (os d) \<and>
     (\<forall>p f. path2fd d p = Some f \<longrightarrow> os_files (os d) p \<noteq> None)"

lemma os_alloc_fd_fresh: "os_alloc_fd o0 = Some f \<Longrightarrow> os_fds o0 f = None \<and> 3 \<le> f"
proof -
  have *: "find P xs = Some x \<Longrightarrow> P x \<and> x \<in> set xs" for P xs and x :: int
    by (induction xs) (auto split: if_splits)
  assume "os_alloc_fd o0 = Some f"
  then show ?thesis unfolding os_alloc_fd_def by (auto dest!: *)
qed

lemma disk_inv_new: "os_fds o0 = Map.empty \<Longrightarrow> disk_inv (DiskManager_new o0)"
  by (simp add: disk_inv_def DiskManager_new_def)

lemma disk_inv_inj:
  "disk_inv d \<Longrightarrow> os_fds (os d) f = Some p \<Longrightarrow> os_fds (os d) g = Some p \<Longrightarrow> f = g"
  unfolding disk_inv_def by (metis option.inject)

lemma disk_inv_open: "disk_inv d \<Longrightarrow> disk_inv (snd (open_file d path))"
  unfolding disk_inv_def open_file_def is_file_def
  by (auto split: option.splits dest: os_alloc_fd_fresh) (metis option.distinct(1))

lemma disk_inv_close: "disk_inv d \<Longrightarrow> disk_inv (snd (close_file d f))"
  unfolding disk_inv_def close_file_def by (auto simp: Let_def split: option.splits) (metis option.inject)

lemma disk_inv_create: "disk_inv d \<Longrightarrow> disk_inv (snd (create_file d path))"
  unfolding disk_inv_def create_file_def is_file_def by (auto split: option.splits)

lemma disk_inv_destroy: "disk_inv d \<Longrightarrow> disk_inv (snd (destroy_file d path))"
  unfolding disk_inv_def destroy_file_def is_file_def by (auto split: option.splits)

lemma os_pwrite_frame:
  "os_fds (snd (os_pwrite o0 f data off)) = os_fds o0 \<and> dom (os_files (snd (os_pwrite o0 f data off))) = dom (os_files o0)"
  unfolding os_pwrite_def by (auto simp: Let_def split: option.splits)

lemma disk_inv_os_files:
  "disk_inv d \<Longrightarrow> os_fds o1 = os_fds (os d) \<Longrightarrow> dom (os_files o1) = dom (os_files (os d)) \<Longrightarrow> disk_inv (d\<lparr>os := o1\<rparr>)"
  unfolding disk_inv_def by (auto simp: dom_def set_eq_iff)

lemma disk_inv_write_page: "disk_inv d \<Longrightarrow> disk_inv (snd (write_page d f pno data))"
  using os_pwrite_frame [of "os d" f data "pno * int PAGE_SIZE"]
  by (auto simp: write_page_def Let_def split: prod.splits intro: disk_inv_os_files)

subsection \<open>Pages on disk\<close>

text \<open>\<open>byte_at c i\<close> reads a file with zeros behind its end, as \<open>read_page\<close> pads.\<close>

definition byte_at :: "byte list \<Rightarrow> nat \<Rightarrow> byte" where
  "byte_at c i = (if i < length c then c ! i else 0)"

lemma length_splice_at: "length (splice_at c off data) = max (off + length data) (length c)"
  by (simp add: splice_at_def)

lemma byte_at_splice_at:
  "byte_at (splice_at c off data) i = (if off \<le> i \<and> i < off + length data then data ! (i - off) else byte_at c i)"
proof -
  obtain h where h: "splice_at c off data = h @ data @ drop (off + length data) c" "length h = off" "\<And>j. j < off \<Longrightarrow> h ! j = byte_at c j"
  proof (rule that [of "take off (c @ replicate (off - length c) 0)"])
    fix j assume "j < off"
    then show "take off (c @ replicate (off - length c) 0) ! j = byte_at c j" by (simp add: byte_at_def nth_append)
  qed (auto simp: splice_at_def)
  consider "i < off" | "off \<le> i" "i < off + length data" | "off + length data \<le> i" by linarith
  then show ?thesis
    by cases (use h(3) [of i] in \<open>auto simp: h(1,2) byte_at_def nth_append\<close>)
qed

lemma pad_read: "take n (drop off c) @ replicate (n - length (take n (drop off c))) 0 = map (byte_at c) [off..<off + n]"
  by (rule nth_equalityI) (auto simp: byte_at_def nth_append)

definition page_bytes :: "byte list \<Rightarrow> nat \<Rightarrow> byte list" where
  "page_bytes c pno = map (byte_at c) [pno * PAGE_SIZE..<pno * PAGE_SIZE + PAGE_SIZE]"

lemma length_page_bytes [simp]: "length (page_bytes c pno) = PAGE_SIZE"
  by (simp add: page_bytes_def)

lemma page_bytes_splice_same:
  "length data = PAGE_SIZE \<Longrightarrow> page_bytes (splice_at c (pno * PAGE_SIZE) data) pno = data"
  by (rule nth_equalityI) (auto simp: page_bytes_def byte_at_splice_at)

lemma page_disjoint:
  "i < PAGE_SIZE \<Longrightarrow> p \<noteq> q \<Longrightarrow> p * PAGE_SIZE + i < q * PAGE_SIZE \<or> q * PAGE_SIZE + PAGE_SIZE \<le> p * PAGE_SIZE + i"
proof (cases "p < q")
  case True
  assume "i < PAGE_SIZE"
  moreover have "Suc p * PAGE_SIZE \<le> q * PAGE_SIZE" using True by (intro mult_le_mono1) simp
  ultimately show ?thesis by simp
next
  case False
  assume "p \<noteq> q"
  with False have "Suc q * PAGE_SIZE \<le> p * PAGE_SIZE" by (intro mult_le_mono1) simp
  then show ?thesis by simp
qed

lemma page_bytes_splice_other:
  "length data \<le> PAGE_SIZE \<Longrightarrow> p \<noteq> q \<Longrightarrow> page_bytes (splice_at c (q * PAGE_SIZE) data) p = page_bytes c p"
  unfolding page_bytes_def
  by (rule nth_equalityI) (auto simp: byte_at_splice_at dest: page_disjoint [where p = p and q = q])

text \<open>The content of a page as the program can read it; \<open>None\<close> when its file is not open.\<close>

definition disk_page :: "disk \<Rightarrow> page_id \<Rightarrow> byte list option" where
  "disk_page d pid =
     (if page_no pid < 0 then None
      else map_option (\<lambda>c. page_bytes c (nat (page_no pid))) (os_content (os d) (fd pid)))"

lemma read_page_disk_page:
  "read_page d (fd pid) (page_no pid) PAGE_SIZE =
     (case disk_page d pid of
        None \<Rightarrow> Throw (InternalError ''DiskManager::read_page Error'')
      | Some bytes \<Rightarrow> Ret bytes)"
proof -
  have "0 < int PAGE_SIZE" by (simp add: PAGE_SIZE_def)
  then have "page_no pid * int PAGE_SIZE < 0 \<longleftrightarrow> page_no pid < 0"
    by (auto simp: mult_less_0_iff)
  moreover have "0 \<le> page_no pid \<Longrightarrow> nat (page_no pid * int PAGE_SIZE) = nat (page_no pid) * PAGE_SIZE"
    by (simp add: nat_mult_distrib)
  ultimately show ?thesis
    by (auto simp: read_page_def disk_page_def os_pread_def page_bytes_def pad_read [unfolded length_take length_drop]
        split: option.splits)
qed

lemma write_page_ok:
  assumes "disk_inv d" and "length data = PAGE_SIZE" and "fst (write_page d (fd pid) (page_no pid) data) = Ret ()"
  shows "disk_page (snd (write_page d (fd pid) (page_no pid) data)) q =
    (if q = pid then Some data else disk_page d q)"
proof -
  let ?off = "page_no pid * int PAGE_SIZE"
  obtain p c where p: "os_fds (os d) (fd pid) = Some p" "os_files (os d) p = Some c" "0 \<le> ?off"
    and k: "fst (os_pwrite (os d) (fd pid) data ?off) = int (length data)"
    using assms(3) by (auto simp: write_page_def os_pwrite_def Let_def split: prod.splits option.splits if_splits)
  have pn: "0 \<le> page_no pid" using p(3) by (auto simp: zero_le_mult_iff PAGE_SIZE_def)
  have off: "nat ?off = nat (page_no pid) * PAGE_SIZE" using pn by (simp add: nat_mult_distrib)
  have os': "os (snd (write_page d (fd pid) (page_no pid) data))
    = (os d)\<lparr>os_files := (os_files (os d))(p \<mapsto> splice_at c (nat (page_no pid) * PAGE_SIZE) data)\<rparr>"
    using p k off by (auto simp: write_page_def os_pwrite_def Let_def split: option.splits)
  have inj: "os_fds (os d) (fd q) = Some p \<longleftrightarrow> fd q = fd pid"
    using disk_inv_inj [OF assms(1)] p(1) by metis
  show ?thesis
  proof (cases "fd q = fd pid")
    case True
    then have "q = pid \<longleftrightarrow> page_no q = page_no pid" by (metis (full_types) page_id.equality unit.exhaust)
    with True p pn assms(2) show ?thesis
      by (auto simp: disk_page_def os' os_content_def page_bytes_splice_same page_bytes_splice_other)
  next
    case False
    then have "q \<noteq> pid" by auto
    with False inj show ?thesis
      by (auto simp: disk_page_def os' os_content_def split: option.splits)
  qed
qed

lemma write_page_other:
  assumes "disk_inv d" and "length data \<le> PAGE_SIZE" and "q \<noteq> pid"
  shows "disk_page (snd (write_page d (fd pid) (page_no pid) data)) q = disk_page d q"
proof (cases "os_fds (os d) (fd pid) = None \<or> page_no pid < 0 \<or> os_content (os d) (fd pid) = None")
  case True
  then have "os (snd (write_page d (fd pid) (page_no pid) data)) = os d"
    by (auto simp: write_page_def os_pwrite_def os_content_def Let_def mult_less_0_iff PAGE_SIZE_def
        split: option.splits prod.splits)
  then show ?thesis by (simp add: disk_page_def)
next
  case False
  then obtain p c where p: "os_fds (os d) (fd pid) = Some p" "os_files (os d) p = Some c" "0 \<le> page_no pid"
    by (auto simp: os_content_def)
  let ?off = "nat (page_no pid) * PAGE_SIZE"
  let ?k = "case os_short (os d) (fd pid) ?off of None \<Rightarrow> length data | Some k \<Rightarrow> min k (length data)"
  have nn: "\<not> page_no pid * int PAGE_SIZE < 0" "nat (page_no pid * int PAGE_SIZE) = ?off"
    using p(3) by (simp_all add: mult_less_0_iff nat_mult_distrib)
  have os': "os (snd (write_page d (fd pid) (page_no pid) data))
    = (os d)\<lparr>os_files := (os_files (os d))(p \<mapsto> splice_at c ?off (take ?k data))\<rparr>"
    using p nn by (simp add: write_page_def os_pwrite_def Let_def)
  have inj: "os_fds (os d) (fd q) = Some p \<longleftrightarrow> fd q = fd pid"
    using disk_inv_inj [OF assms(1)] p(1) by metis
  have "fd q = fd pid \<Longrightarrow> page_no q \<noteq> page_no pid"
    using assms(3) by (metis (full_types) page_id.equality unit.exhaust)
  with p assms(2) inj show ?thesis
    by (auto simp: disk_page_def os' os_content_def page_bytes_splice_other split: option.splits)
qed

text \<open>
  The interface of the disk manager towards the buffer pool: a store of whole pages.
\<close>

locale page_store =
  fixes rd :: "'d \<Rightarrow> page_id \<Rightarrow> byte list option"
    and wr :: "'d \<Rightarrow> page_id \<Rightarrow> byte list \<Rightarrow> unit outcome \<times> 'd"
    and store_inv :: "'d \<Rightarrow> bool"
  assumes wr_inv: "store_inv d \<Longrightarrow> store_inv (snd (wr d p x))"
    and rd_wr_same: "store_inv d \<Longrightarrow> length x = PAGE_SIZE \<Longrightarrow> fst (wr d p x) = Ret () \<Longrightarrow> rd (snd (wr d p x)) p = Some x"
    and rd_wr_other: "store_inv d \<Longrightarrow> length x = PAGE_SIZE \<Longrightarrow> q \<noteq> p \<Longrightarrow> rd (snd (wr d p x)) q = rd d q"
begin

text \<open>Rewriting a page with the content it has changes nothing that can be read.\<close>

lemma rd_rewrite:
  "store_inv d \<Longrightarrow> length x = PAGE_SIZE \<Longrightarrow> rd d p = Some x \<Longrightarrow> fst (wr d p x) = Ret () \<Longrightarrow> rd (snd (wr d p x)) q = rd d q"
  by (cases "q = p") (simp_all add: rd_wr_same rd_wr_other)

lemma rd_wr:
  "store_inv d \<Longrightarrow> length x = PAGE_SIZE \<Longrightarrow> fst (wr d p x) = Ret () \<Longrightarrow>
   rd (snd (wr d p x)) = (rd d)(p \<mapsto> x)"
  by (rule ext) (simp add: rd_wr_same rd_wr_other)

end

interpretation dm: page_store disk_page "\<lambda>d p x. write_page d (fd p) (page_no p) x" disk_inv
  by unfold_locales (simp_all add: disk_inv_write_page write_page_ok write_page_other)

text \<open>
  C4. Pages on disk do not interfere: after \<open>write_page\<close> of a whole page has returned,
  \<open>read_page\<close> of that page returns the bytes written, and every other page, of this file or
  of another, reads as before; a write that throws also leaves every other page as it was.
\<close>

theorem disk_page_roundtrip:
  fixes pid :: page_id
  assumes "disk_inv d" and "length data = PAGE_SIZE"
    and "w = write_page d (fd pid) (page_no pid) data"
  shows "(fst w = Ret () \<longrightarrow> read_page (snd w) (fd pid) (page_no pid) PAGE_SIZE = Ret data)
    \<and> (\<forall>q. q \<noteq> pid \<longrightarrow> read_page (snd w) (fd q) (page_no q) PAGE_SIZE = read_page d (fd q) (page_no q) PAGE_SIZE)
    \<and> disk_inv (snd w)"
  using dm.rd_wr_same [OF assms(1,2), of pid] dm.rd_wr_other [OF assms(1,2)] dm.wr_inv [OF assms(1)]
  by (simp add: assms(3) read_page_disk_page)

definition os_ex :: os_state where
  "os_ex = \<lparr>os_files = [''t'' \<mapsto> []], os_fds = Map.empty, os_max_fd = 5, os_short = (\<lambda>_ _. None)\<rparr>"

lemma open_ex: "open_file (DiskManager_new os_ex) ''t'' =
  (Ret 3, \<lparr>os = os_ex\<lparr>os_fds := [3 \<mapsto> ''t'']\<rparr>, path2fd = [''t'' \<mapsto> 3], fd2path = [3 \<mapsto> ''t''],
     log_fd = - 1, fd2pageno = (\<lambda>_. 0)\<rparr>)"
  by (simp add: open_file_def DiskManager_new_def os_ex_def is_file_def os_alloc_fd_def upt_rec)

theorem disk_page_roundtrip_witness:
  "read_page (snd (write_page (snd (open_file (DiskManager_new os_ex) ''t'')) 3 1 (replicate PAGE_SIZE 7))) 3 1 PAGE_SIZE
   = Ret (replicate PAGE_SIZE 7)"
proof -
  let ?d = "snd (open_file (DiskManager_new os_ex) ''t'')"
  let ?p = "\<lparr>fd = 3, page_no = 1\<rparr>"
  have i: "disk_inv ?d" by (intro disk_inv_open disk_inv_new) (simp add: os_ex_def)
  have w: "fst (write_page ?d 3 1 (replicate PAGE_SIZE 7)) = Ret ()"
    unfolding open_ex by (simp add: write_page_def os_pwrite_def os_ex_def Let_def)
  show ?thesis
    using disk_page_roundtrip [OF i _ refl, of "replicate PAGE_SIZE 7" ?p] w by simp
qed



end
