(* ===== verification/Rmdb_Log_Record.thy ===== *)
theory Rmdb_Log_Record
  imports Rmdb_Prelude "HOL-Library.Monad_Syntax"
begin

text \<open>
  The log records and their byte format: \<^verbatim>\<open>src/src/recovery/log_defs.h\<close>,
  \<^verbatim>\<open>log_manager.h\<close> (classes \<open>LogRecord\<close> to \<open>UpdateLogRecord\<close>) and
  \<open>DeserializeLogRecord\<close> of \<^verbatim>\<open>log_manager.cpp\<close>. Integers are copied with \<open>memcpy\<close> on a
  little endian machine. A reader takes the source buffer and an offset and returns the value
  and the offset behind it, or \<open>None\<close> when it would read past the end of the buffer, which the
  program does not check (\<open>OutOfBounds\<close> below: undefined behaviour of the program).
\<close>

subsection \<open>Little endian integers\<close>

fun le_enc :: "nat \<Rightarrow> int \<Rightarrow> byte list" where
  "le_enc 0 x = []"
| "le_enc (Suc n) x = word_of_int x # le_enc n (x div 256)"

fun le_dec :: "byte list \<Rightarrow> int" where
  "le_dec [] = 0"
| "le_dec (b # bs) = uint b + 256 * le_dec bs"

text \<open>Two's complement reading of \<open>n\<close> bytes.\<close>

definition le_dec_signed :: "byte list \<Rightarrow> int" where
  "le_dec_signed bs =
     (let v = le_dec bs; m = 256 ^ length bs in if 2 * v < m then v else v - m)"

lemma length_le_enc [simp]: "length (le_enc n x) = n"
  by (induction n x rule: le_enc.induct) auto

lemma le_dec_enc: "le_dec (le_enc n x) = x mod 256 ^ n"
proof (induction n x rule: le_enc.induct)
  case (2 n x)
  have u: "uint (word_of_int x :: byte) = x mod 256"
    by (simp add: uint_word_of_int)
  have "x mod (256 * 256 ^ n) = 256 * (x div 256 mod 256 ^ n) + x mod 256"
    by (simp add: zmod_zmult2_eq)
  then show ?case using 2 u by simp
qed simp

definition in_i :: "nat \<Rightarrow> int \<Rightarrow> bool" where
  "in_i n x \<longleftrightarrow> - (256 ^ n) \<le> 2 * x \<and> 2 * x < 256 ^ n"

definition in_u :: "nat \<Rightarrow> int \<Rightarrow> bool" where
  "in_u n x \<longleftrightarrow> 0 \<le> x \<and> x < 256 ^ n"

lemma le_dec_enc_u: "in_u n x \<Longrightarrow> le_dec (le_enc n x) = x"
  by (simp add: le_dec_enc in_u_def)

lemma le_dec_enc_i:
  assumes "in_i n x"
  shows "le_dec_signed (le_enc n x) = x"
proof (cases "0 \<le> x")
  case True
  with assms have "x mod 256 ^ n = x" by (simp add: in_i_def)
  with True assms show ?thesis by (simp add: le_dec_signed_def le_dec_enc in_i_def)
next
  case False
  with assms have "(x + 256 ^ n) mod 256 ^ n = x + 256 ^ n"
    by (intro mod_pos_pos_trivial) (auto simp: in_i_def)
  then have "x mod 256 ^ n = x + 256 ^ n" by simp
  with False assms show ?thesis by (simp add: le_dec_signed_def le_dec_enc in_i_def Let_def)
qed

subsection \<open>The records\<close>

datatype log_type = UPDATE | INSERT | DELETE | Lbegin | Lcommit | ABORT | CHECKPOINT

definition log_type_code :: "log_type \<Rightarrow> int" where
  "log_type_code t = (case t of UPDATE \<Rightarrow> 0 | INSERT \<Rightarrow> 1 | DELETE \<Rightarrow> 2 | Lbegin \<Rightarrow> 3
     | Lcommit \<Rightarrow> 4 | ABORT \<Rightarrow> 5 | CHECKPOINT \<Rightarrow> 6)"

definition OFFSET_LOG_TYPE :: nat where "OFFSET_LOG_TYPE = 0"
definition OFFSET_LSN :: nat where "OFFSET_LSN = 4"
definition OFFSET_LOG_TOT_LEN :: nat where "OFFSET_LOG_TOT_LEN = OFFSET_LSN + 4"
definition OFFSET_LOG_TID :: nat where "OFFSET_LOG_TID = OFFSET_LOG_TOT_LEN + 4"
definition OFFSET_PREV_LSN :: nat where "OFFSET_PREV_LSN = OFFSET_LOG_TID + 8"
definition OFFSET_LOG_DATA :: nat where "OFFSET_LOG_DATA = OFFSET_PREV_LSN + 4"
definition LOG_HEADER_SIZE :: nat where "LOG_HEADER_SIZE = OFFSET_LOG_DATA"

lemmas log_offsets = OFFSET_LOG_TYPE_def OFFSET_LSN_def OFFSET_LOG_TOT_LEN_def OFFSET_LOG_TID_def
  OFFSET_PREV_LSN_def OFFSET_LOG_DATA_def LOG_HEADER_SIZE_def

text \<open>The virtual part of a record; an \<open>RmRecord\<close> is the list of its bytes.\<close>

datatype log_data =
    BeginLog
  | CommitLog (commit_ts: timestamp_t)
  | AbortLog
  | CheckpointLog (next_txn_id: txn_id_t) (next_timestamp: timestamp_t) (last_commit_ts: timestamp_t)
      (durable_lsn: lsn_t)
  | InsertLog (insert_value: "byte list") (ins_rid: rid) (ins_table: string)
  | DeleteLog (delete_value: "byte list") (del_rid: rid) (del_table: string)
  | UpdateLog (old_value: "byte list") (new_value: "byte list") (upd_rid: rid) (upd_table: string)

record log_record =
  lsn :: lsn_t
  log_tot_len :: int
  log_tid :: txn_id_t
  prev_lsn :: lsn_t
  log_data :: log_data

fun data_type :: "log_data \<Rightarrow> log_type" where
  "data_type BeginLog = Lbegin"
| "data_type (CommitLog ts) = Lcommit"
| "data_type AbortLog = ABORT"
| "data_type (CheckpointLog a b c d) = CHECKPOINT"
| "data_type (InsertLog v r t) = INSERT"
| "data_type (DeleteLog v r t) = DELETE"
| "data_type (UpdateLog v w r t) = UPDATE"

abbreviation rec_type :: "log_record \<Rightarrow> log_type" where
  "rec_type r \<equiv> data_type (log_data r)"

text \<open>The constructors; \<open>data_len\<close> is what each adds to \<open>LOG_HEADER_SIZE\<close>.\<close>

fun data_len :: "log_data \<Rightarrow> nat" where
  "data_len BeginLog = 0"
| "data_len (CommitLog ts) = 8"
| "data_len AbortLog = 0"
| "data_len (CheckpointLog a b c d) = 8 + 8 + 8 + 4"
| "data_len (InsertLog v r t) = 4 + length v + 8 + 4 + length t"
| "data_len (DeleteLog v r t) = 4 + length v + 8 + 4 + length t"
| "data_len (UpdateLog v w r t) = 4 + length v + 4 + length w + 8 + 4 + length t"

definition new_log_record :: "txn_id_t \<Rightarrow> log_data \<Rightarrow> log_record" where
  "new_log_record txn b =
     \<lparr>lsn = INVALID_LSN, log_tot_len = int (LOG_HEADER_SIZE + data_len b), log_tid = txn,
      prev_lsn = INVALID_LSN, log_data = b\<rparr>"

definition BeginLogRecord :: "txn_id_t \<Rightarrow> log_record" where
  "BeginLogRecord txn = new_log_record txn BeginLog"

definition CommitLogRecord :: "txn_id_t \<Rightarrow> timestamp_t \<Rightarrow> log_record" where
  "CommitLogRecord txn ts = new_log_record txn (CommitLog ts)"

definition AbortLogRecord :: "txn_id_t \<Rightarrow> log_record" where
  "AbortLogRecord txn = new_log_record txn AbortLog"

definition CheckpointLogRecord :: "txn_id_t \<Rightarrow> timestamp_t \<Rightarrow> timestamp_t \<Rightarrow> lsn_t \<Rightarrow> log_record" where
  "CheckpointLogRecord ntid nts lts dl = new_log_record INVALID_TXN_ID (CheckpointLog ntid nts lts dl)"

definition InsertLogRecord :: "txn_id_t \<Rightarrow> byte list \<Rightarrow> rid \<Rightarrow> string \<Rightarrow> log_record" where
  "InsertLogRecord txn v r t = new_log_record txn (InsertLog v r t)"

definition DeleteLogRecord :: "txn_id_t \<Rightarrow> byte list \<Rightarrow> rid \<Rightarrow> string \<Rightarrow> log_record" where
  "DeleteLogRecord txn v r t = new_log_record txn (DeleteLog v r t)"

definition UpdateLogRecord :: "txn_id_t \<Rightarrow> byte list \<Rightarrow> byte list \<Rightarrow> rid \<Rightarrow> string \<Rightarrow> log_record" where
  "UpdateLogRecord txn v w r t = new_log_record txn (UpdateLog v w r t)"

subsection \<open>Serialisation\<close>

definition char_byte :: "char \<Rightarrow> byte" where
  "char_byte c = of_char c"

definition byte_char :: "byte \<Rightarrow> char" where
  "byte_char b = char_of (unat b)"

definition WriteString :: "string \<Rightarrow> byte list" where
  "WriteString s = le_enc 4 (int (length s)) @ map char_byte s"

definition WriteRecord :: "byte list \<Rightarrow> byte list" where
  "WriteRecord v = le_enc 4 (int (length v)) @ v"

definition WriteRid :: "rid \<Rightarrow> byte list" where
  "WriteRid r = le_enc 4 (rid_page r) @ le_enc 4 (rid_slot r)"

definition serialize_header :: "log_record \<Rightarrow> byte list" where
  "serialize_header r =
     le_enc 4 (log_type_code (rec_type r)) @ le_enc 4 (lsn r) @ le_enc 4 (log_tot_len r) @
     le_enc 8 (log_tid r) @ le_enc 4 (prev_lsn r)"

fun serialize_data :: "log_data \<Rightarrow> byte list" where
  "serialize_data BeginLog = []"
| "serialize_data (CommitLog ts) = le_enc 8 ts"
| "serialize_data AbortLog = []"
| "serialize_data (CheckpointLog a b c d) = le_enc 8 a @ le_enc 8 b @ le_enc 8 c @ le_enc 4 d"
| "serialize_data (InsertLog v r t) = WriteRecord v @ WriteRid r @ WriteString t"
| "serialize_data (DeleteLog v r t) = WriteRecord v @ WriteRid r @ WriteString t"
| "serialize_data (UpdateLog v w r t) = WriteRecord v @ WriteRecord w @ WriteRid r @ WriteString t"

definition serialize :: "log_record \<Rightarrow> byte list" where
  "serialize r = serialize_header r @ serialize_data (log_data r)"

subsection \<open>Deserialisation\<close>

type_synonym 'a reader = "byte list \<Rightarrow> nat \<Rightarrow> ('a \<times> nat) option"

definition ReadBytes :: "nat \<Rightarrow> byte list reader" where
  "ReadBytes n src off = (if off + n \<le> length src then Some (take n (drop off src), off + n) else None)"

definition ReadInt :: "nat \<Rightarrow> int reader" where
  "ReadInt n src off = do { (bs, o1) \<leftarrow> ReadBytes n src off; Some (le_dec_signed bs, o1) }"

definition ReadUInt :: "nat \<Rightarrow> int reader" where
  "ReadUInt n src off = do { (bs, o1) \<leftarrow> ReadBytes n src off; Some (le_dec bs, o1) }"

definition ReadString :: "string reader" where
  "ReadString src off =
     do { (n, o1) \<leftarrow> ReadUInt 4 src off; (bs, o2) \<leftarrow> ReadBytes (nat n) src o1; Some (map byte_char bs, o2) }"

text \<open>A negative size makes the program copy a huge block: undefined, like a read past the end.\<close>

definition ReadRecord :: "byte list reader" where
  "ReadRecord src off =
     do { (n, o1) \<leftarrow> ReadInt 4 src off; if n < 0 then None else ReadBytes (nat n) src o1 }"

definition ReadRid :: "rid reader" where
  "ReadRid src off =
     do { (p, o1) \<leftarrow> ReadInt 4 src off; (s, o2) \<leftarrow> ReadInt 4 src o1; Some (\<lparr>rid_page = p, rid_slot = s\<rparr>, o2) }"

fun read_data :: "log_type \<Rightarrow> byte list \<Rightarrow> log_data option" where
  "read_data Lbegin src = Some BeginLog"
| "read_data Lcommit src =
     do { (ts, o1) \<leftarrow> ReadInt 8 src OFFSET_LOG_DATA; Some (CommitLog ts) }"
| "read_data ABORT src = Some AbortLog"
| "read_data CHECKPOINT src =
     do { (a, o1) \<leftarrow> ReadInt 8 src OFFSET_LOG_DATA; (b, o2) \<leftarrow> ReadInt 8 src o1; (c, o3) \<leftarrow> ReadInt 8 src o2;
          (d, o4) \<leftarrow> ReadInt 4 src o3; Some (CheckpointLog a b c d) }"
| "read_data INSERT src =
     do { (v, o1) \<leftarrow> ReadRecord src OFFSET_LOG_DATA; (r, o2) \<leftarrow> ReadRid src o1; (t, o3) \<leftarrow> ReadString src o2;
          Some (InsertLog v r t) }"
| "read_data DELETE src =
     do { (v, o1) \<leftarrow> ReadRecord src OFFSET_LOG_DATA; (r, o2) \<leftarrow> ReadRid src o1; (t, o3) \<leftarrow> ReadString src o2;
          Some (DeleteLog v r t) }"
| "read_data UPDATE src =
     do { (v, o1) \<leftarrow> ReadRecord src OFFSET_LOG_DATA; (w, o2) \<leftarrow> ReadRecord src o1; (r, o3) \<leftarrow> ReadRid src o2;
          (t, o4) \<leftarrow> ReadString src o3; Some (UpdateLog v w r t) }"

definition read_log_type :: "int \<Rightarrow> log_type option" where
  "read_log_type c = (if c = 3 then Some Lbegin else if c = 4 then Some Lcommit else if c = 5 then Some ABORT
     else if c = 6 then Some CHECKPOINT else if c = 1 then Some INSERT else if c = 2 then Some DELETE
     else if c = 0 then Some UPDATE else None)"

definition read_header_int :: "nat \<Rightarrow> nat \<Rightarrow> byte list \<Rightarrow> int" where
  "read_header_int off n src = le_dec_signed (take n (drop off src))"

definition read_tot_len :: "byte list \<Rightarrow> int" where
  "read_tot_len src = le_dec (take 4 (drop OFFSET_LOG_TOT_LEN src))"

datatype parse = Null | OutOfBounds | Parsed log_record

definition DeserializeLogRecord :: "byte list \<Rightarrow> parse" where
  "DeserializeLogRecord src =
     (if length src < LOG_HEADER_SIZE then Null
      else let total_len = read_tot_len src
        in if total_len < int LOG_HEADER_SIZE \<or> total_len > int (length src) then Null
           else case read_log_type (read_header_int OFFSET_LOG_TYPE 4 src) of
             None \<Rightarrow> Null
           | Some t \<Rightarrow>
               (case read_data t src of
                  None \<Rightarrow> OutOfBounds
                | Some b \<Rightarrow> Parsed \<lparr>lsn = read_header_int OFFSET_LSN 4 src, log_tot_len = total_len,
                    log_tid = read_header_int OFFSET_LOG_TID 8 src, prev_lsn = read_header_int OFFSET_PREV_LSN 4 src,
                    log_data = b\<rparr>))"

subsection \<open>Reading back what was written\<close>

text \<open>\<open>at src off s\<close>: the bytes of \<open>src\<close> from offset \<open>off\<close> on are \<open>s\<close>.\<close>

definition at :: "byte list \<Rightarrow> nat \<Rightarrow> byte list \<Rightarrow> bool" where
  "at src off s \<longleftrightarrow> off \<le> length src \<and> drop off src = s"

lemma at_advance: "at src off (bs @ s) \<Longrightarrow> length bs = n \<Longrightarrow> at src (off + n) s"
  unfolding at_def by (metis add.commute append_eq_conv_conj drop_drop le_add2 length_append length_drop
      le_diff_conv2 add_le_cancel_left nat_le_iff_add)

lemma ReadBytes_at: "at src off (bs @ s) \<Longrightarrow> length bs = n \<Longrightarrow> ReadBytes n src off = Some (bs, off + n)"
proof -
  assume a: "at src off (bs @ s)" "length bs = n"
  then have "at src (off + n) s" by (rule at_advance)
  with a show ?thesis by (auto simp: ReadBytes_def at_def)
qed

lemma ReadInt_at: "at src off (le_enc n x @ s) \<Longrightarrow> in_i n x \<Longrightarrow> ReadInt n src off = Some (x, off + n)"
  by (simp add: ReadInt_def ReadBytes_at le_dec_enc_i)

lemma ReadUInt_at: "at src off (le_enc n x @ s) \<Longrightarrow> in_u n x \<Longrightarrow> ReadUInt n src off = Some (x, off + n)"
  by (simp add: ReadUInt_def ReadBytes_at le_dec_enc_u)

lemma byte_char_inverse [simp]: "byte_char (char_byte c) = c"
proof -
  have "unat (of_char c :: byte) = of_char c"
    by (simp add: of_nat_of_char [symmetric, where 'a = byte] unat_of_nat del: of_nat_of_char)
  then show ?thesis by (simp add: byte_char_def char_byte_def)
qed

lemma ReadString_at:
  assumes "at src off (WriteString t @ s)" and "in_u 4 (int (length t))"
  shows "ReadString src off = Some (t, off + (4 + length t))"
proof -
  have a: "at src off (le_enc 4 (int (length t)) @ map char_byte t @ s)"
    using assms(1) by (simp add: WriteString_def)
  have b: "at src (off + 4) (map char_byte t @ s)" using at_advance [OF a] by simp
  show ?thesis using assms(2)
    by (simp add: ReadString_def ReadUInt_at [OF a] ReadBytes_at [OF b] comp_def)
qed

lemma ReadRecord_at:
  assumes "at src off (WriteRecord v @ s)" and "in_i 4 (int (length v))"
  shows "ReadRecord src off = Some (v, off + (4 + length v))"
proof -
  have a: "at src off (le_enc 4 (int (length v)) @ v @ s)"
    using assms(1) by (simp add: WriteRecord_def)
  have b: "at src (off + 4) (v @ s)" using at_advance [OF a] by simp
  show ?thesis using assms(2)
    by (simp add: ReadRecord_def ReadInt_at [OF a] ReadBytes_at [OF b])
qed

lemma ReadRid_at:
  assumes "at src off (WriteRid r @ s)" and "in_i 4 (rid_page r)" and "in_i 4 (rid_slot r)"
  shows "ReadRid src off = Some (r, off + 8)"
proof -
  have a: "at src off (le_enc 4 (rid_page r) @ le_enc 4 (rid_slot r) @ s)"
    using assms(1) by (simp add: WriteRid_def)
  have b: "at src (off + 4) (le_enc 4 (rid_slot r) @ s)" using at_advance [OF a] by simp
  show ?thesis using assms(2,3)
    by (simp add: ReadRid_def ReadInt_at [OF a] ReadInt_at [OF b])
qed

text \<open>Values that fit the fields of the format.\<close>

fun wf_data :: "log_data \<Rightarrow> bool" where
  "wf_data BeginLog = True"
| "wf_data (CommitLog ts) = in_i 8 ts"
| "wf_data AbortLog = True"
| "wf_data (CheckpointLog a b c d) = (in_i 8 a \<and> in_i 8 b \<and> in_i 8 c \<and> in_i 4 d)"
| "wf_data (InsertLog v r t) = (in_i 4 (int (length v)) \<and> in_i 4 (rid_page r) \<and> in_i 4 (rid_slot r))"
| "wf_data (DeleteLog v r t) = (in_i 4 (int (length v)) \<and> in_i 4 (rid_page r) \<and> in_i 4 (rid_slot r))"
| "wf_data (UpdateLog v w r t) = (in_i 4 (int (length v)) \<and> in_i 4 (int (length w))
     \<and> in_i 4 (rid_page r) \<and> in_i 4 (rid_slot r))"

definition wf_log_record :: "log_record \<Rightarrow> bool" where
  "wf_log_record r \<longleftrightarrow> in_i 4 (lsn r) \<and> in_i 8 (log_tid r) \<and> in_i 4 (prev_lsn r) \<and> wf_data (log_data r)
     \<and> log_tot_len r = int (LOG_HEADER_SIZE + data_len (log_data r)) \<and> in_u 4 (log_tot_len r)"

lemma length_WriteString [simp]: "length (WriteString t) = 4 + length t"
  by (simp add: WriteString_def)

lemma length_WriteRecord [simp]: "length (WriteRecord v) = 4 + length v"
  by (simp add: WriteRecord_def)

lemma length_WriteRid [simp]: "length (WriteRid r) = 8"
  by (simp add: WriteRid_def)

lemma length_serialize_data: "length (serialize_data b) = data_len b"
  by (cases b) simp_all

lemma length_serialize_header: "length (serialize_header r) = LOG_HEADER_SIZE"
  by (simp add: serialize_header_def log_offsets)

lemma length_serialize: "wf_log_record r \<Longrightarrow> int (length (serialize r)) = log_tot_len r"
  by (simp add: serialize_def length_serialize_data length_serialize_header wf_log_record_def)

lemma read_data_insert_like:
  assumes "at src off (WriteRecord v @ WriteRid r @ WriteString t @ s)"
    and "in_i 4 (int (length v))" "in_i 4 (rid_page r)" "in_i 4 (rid_slot r)" "in_u 4 (int (length t))"
  shows "do { (v, o1) \<leftarrow> ReadRecord src off; (r, o2) \<leftarrow> ReadRid src o1; (t, o3) \<leftarrow> ReadString src o2; Some (f v r t) }
    = Some (f v r t)"
proof -
  have b: "at src (off + (4 + length v)) (WriteRid r @ WriteString t @ s)"
    using at_advance [OF assms(1)] by simp
  have c: "at src (off + (4 + length v) + 8) (WriteString t @ s)" using at_advance [OF b] by simp
  show ?thesis using assms(2-)
    by (simp only: ReadRecord_at [OF assms(1)] ReadRid_at [OF b] ReadString_at [OF c] bind.bind_lunit prod.case)
qed

lemma read_data_at:
  assumes "at src OFFSET_LOG_DATA (serialize_data b @ s)" and "wf_data b"
    and "in_u 4 (int (LOG_HEADER_SIZE + data_len b))"
  shows "read_data (data_type b) src = Some b"
proof (cases b)
  case (CommitLog ts)
  with assms show ?thesis using ReadInt_at [of src OFFSET_LOG_DATA 8 ts s] by simp
next
  case (CheckpointLog x y z w)
  have a: "at src OFFSET_LOG_DATA (le_enc 8 x @ le_enc 8 y @ le_enc 8 z @ le_enc 4 w @ s)"
    using assms(1) CheckpointLog by simp
  note b = at_advance [OF a length_le_enc]
  note c = at_advance [OF b length_le_enc]
  note d = at_advance [OF c length_le_enc]
  show ?thesis using assms(2) CheckpointLog
    by (simp add: ReadInt_at [OF a] ReadInt_at [OF b] ReadInt_at [OF c, simplified]
        ReadInt_at [OF d, simplified])
next
  case (InsertLog v r t)
  with assms read_data_insert_like [of src OFFSET_LOG_DATA v r t s InsertLog] show ?thesis
    by (simp add: in_u_def)
next
  case (DeleteLog v r t)
  with assms read_data_insert_like [of src OFFSET_LOG_DATA v r t s DeleteLog] show ?thesis
    by (simp add: in_u_def)
next
  case (UpdateLog v w r t)
  have a: "at src OFFSET_LOG_DATA (WriteRecord v @ WriteRecord w @ WriteRid r @ WriteString t @ s)"
    using assms(1) UpdateLog by simp
  note b = at_advance [OF a length_WriteRecord]
  show ?thesis using assms UpdateLog read_data_insert_like [OF b, of "UpdateLog v"]
    by (simp add: ReadRecord_at [OF a] in_u_def)
qed simp_all

lemma read_log_type_code [simp]: "read_log_type (log_type_code t) = Some t"
  by (cases t) (simp_all add: read_log_type_def log_type_code_def)

lemma header_fields:
  assumes "wf_log_record r" and "src = serialize r @ junk"
  shows "read_header_int OFFSET_LOG_TYPE 4 src = log_type_code (rec_type r)"
    and "read_header_int OFFSET_LSN 4 src = lsn r"
    and "read_tot_len src = log_tot_len r"
    and "read_header_int OFFSET_LOG_TID 8 src = log_tid r"
    and "read_header_int OFFSET_PREV_LSN 4 src = prev_lsn r"
proof -
  have t: "in_i 4 (log_type_code (rec_type r))"
    by (cases "rec_type r") (simp_all add: in_i_def log_type_code_def)
  have f: "in_i 4 (lsn r)" "in_i 8 (log_tid r)" "in_i 4 (prev_lsn r)" "in_u 4 (log_tot_len r)"
    using assms(1) unfolding wf_log_record_def by blast+
  show "read_header_int OFFSET_LOG_TYPE 4 src = log_type_code (rec_type r)"
    "read_header_int OFFSET_LSN 4 src = lsn r" "read_tot_len src = log_tot_len r"
    "read_header_int OFFSET_LOG_TID 8 src = log_tid r" "read_header_int OFFSET_PREV_LSN 4 src = prev_lsn r"
    using f t
    by (simp_all add: assms(2) read_header_int_def read_tot_len_def serialize_def serialize_header_def log_offsets
        le_dec_enc_i le_dec_enc_u)
qed

lemma deserialize_serialize:
  assumes "wf_log_record r"
  shows "DeserializeLogRecord (serialize r @ junk) = Parsed r \<and> int (length (serialize r)) = log_tot_len r"
proof -
  let ?src = "serialize r @ junk"
  note hf = header_fields [OF assms refl, of junk]
  have len: "int (length (serialize r)) = log_tot_len r" using length_serialize [OF assms] .
  have "at ?src OFFSET_LOG_DATA (serialize_data (log_data r) @ junk)"
    using length_serialize_header [of r] by (simp add: at_def serialize_def LOG_HEADER_SIZE_def)
  then have d: "read_data (rec_type r) ?src = Some (log_data r)"
    using assms by (intro read_data_at) (auto simp: wf_log_record_def)
  have "LOG_HEADER_SIZE \<le> length ?src" "int LOG_HEADER_SIZE \<le> log_tot_len r" "log_tot_len r \<le> int (length ?src)"
    using len assms by (auto simp: serialize_def length_serialize_header wf_log_record_def)
  then have "DeserializeLogRecord ?src = Parsed r"
    using d by (simp add: DeserializeLogRecord_def hf Let_def)
  with len show ?thesis by blast
qed

text \<open>
  C6. Round trip of the write-ahead log format: every record whose fields fit the format is
  read back by \<open>DeserializeLogRecord\<close> exactly as it was serialised, whatever bytes follow it,
  and \<open>log_tot_len_\<close> is the number of bytes it takes.
\<close>

theorem log_record_roundtrip:
  assumes "wf_log_record r"
  shows "DeserializeLogRecord (serialize r @ junk) = Parsed r \<and> int (length (serialize r)) = log_tot_len r"
  using assms by (rule deserialize_serialize)

lemma wf_ex: "wf_log_record ((UpdateLogRecord 7 [1, 2] [3] \<lparr>rid_page = 1, rid_slot = 0\<rparr> ''t'')\<lparr>lsn := 48, prev_lsn := 24\<rparr>)"
  by (simp add: wf_log_record_def UpdateLogRecord_def new_log_record_def log_offsets in_i_def in_u_def)

theorem log_record_roundtrip_witness:
  "DeserializeLogRecord (serialize ((UpdateLogRecord 7 [1, 2] [3] \<lparr>rid_page = 1, rid_slot = 0\<rparr> ''t'')\<lparr>lsn := 48, prev_lsn := 24\<rparr>) @ [9, 9])
   = Parsed ((UpdateLogRecord 7 [1, 2] [3] \<lparr>rid_page = 1, rid_slot = 0\<rparr> ''t'')\<lparr>lsn := 48, prev_lsn := 24\<rparr>)"
  using log_record_roundtrip [OF wf_ex, of "[9, 9]"] by blast


end
