(* ===== verification/Rmdb_Log_Manager.thy ===== *)
theory Rmdb_Log_Manager
  imports Rmdb_Log_Record Rmdb_Disk
begin

text \<open>
  The write-ahead log: \<^verbatim>\<open>src/src/recovery/log_manager.cpp\<close> and \<^verbatim>\<open>log_manager.h\<close>, classes
  \<open>LogBuffer\<close> and \<open>LogManager\<close>. A log sequence number is the byte offset of a record in the
  log file. A buffer is the list of the bytes appended to it (its \<open>offset_\<close> is their number)
  and the file offset of its first byte. The flush thread is modelled by its three steps:
  it swaps the buffers under the latch, writes the batch without it, and publishes the new
  durable end under it; \<open>flush_pc\<close> is where it stands, with its local variables. A call that waits for
  the thread returns \<open>Wait\<close>.
\<close>

record log_buffer =
  buffer :: "byte list"
  base_offset :: lsn_t

definition lb_offset :: "log_buffer \<Rightarrow> int" where
  "lb_offset b = int (length (buffer b))"

definition lb_reset :: "lsn_t \<Rightarrow> log_buffer" where
  "lb_reset base = \<lparr>buffer = [], base_offset = base\<rparr>"

definition is_full :: "log_buffer \<Rightarrow> int \<Rightarrow> bool" where
  "is_full b append_size = (lb_offset b + append_size > int LOG_BUFFER_SIZE)"

datatype flush_pc = FIdle | FSwapped lsn_t lsn_t | FWritten lsn_t lsn_t

record log_manager =
  global_lsn :: lsn_t
  persist_lsn :: lsn_t
  active_buffer :: log_buffer
  flush_buffer :: log_buffer
  record_end_offsets :: "lsn_t \<rightharpoonup> lsn_t"
  durable_prefix_lsn :: lsn_t
  flush_thread_started :: bool
  stop_flush_thread :: bool
  flush_pc :: flush_pc

definition LogManager_new :: log_manager where
  "LogManager_new = \<lparr>global_lsn = 0, persist_lsn = 0, active_buffer = lb_reset 0, flush_buffer = lb_reset 0,
     record_end_offsets = Map.empty, durable_prefix_lsn = 0, flush_thread_started = False,
     stop_flush_thread = False, flush_pc = FIdle\<rparr>"

subsection \<open>Appending and flushing\<close>

definition FlushTo :: "log_manager \<Rightarrow> disk \<Rightarrow> lsn_t \<Rightarrow> unit outcome \<times> log_manager \<times> disk" where
  "FlushTo lm d exclusive_end_offset =
     (if exclusive_end_offset \<le> persist_lsn lm then (Ret (), lm, d)
      else if exclusive_end_offset > global_lsn lm
      then (Throw (InternalError ''LogManager flush target exceeds appended log end''), lm, d)
      else if lb_offset (active_buffer lm) > 0
      then (let batch_start = base_offset (active_buffer lm);
                batch_end = i32 (batch_start + lb_offset (active_buffer lm))
            in case write_log d (buffer (active_buffer lm)) batch_start of
                 (Ret _, d') \<Rightarrow> (Ret (), lm\<lparr>active_buffer := lb_reset batch_end, flush_buffer := lb_reset batch_end,
                                        persist_lsn := batch_end\<rparr>, d')
               | (Throw e, d') \<Rightarrow> (Throw e, lm, d')
               | (Wait, d') \<Rightarrow> (Wait, lm, d'))
      else (Ret (), lm, d))"

text \<open>The loop that makes room in the active buffer; \<open>Wait\<close> when it would go on.\<close>

fun make_room :: "nat \<Rightarrow> log_manager \<Rightarrow> disk \<Rightarrow> int \<Rightarrow> unit outcome \<times> log_manager \<times> disk" where
  "make_room 0 lm d append_size = (if is_full (active_buffer lm) append_size then (Wait, lm, d) else (Ret (), lm, d))"
| "make_room (Suc n) lm d append_size =
     (if is_full (active_buffer lm) append_size
      then if flush_thread_started lm then (Wait, lm, d)
        else (case FlushTo lm d (global_lsn lm) of
                (Ret _, lm', d') \<Rightarrow> make_room n lm' d' append_size
              | (Throw e, lm', d') \<Rightarrow> (Throw e, lm', d')
              | (Wait, lm', d') \<Rightarrow> (Wait, lm', d'))
      else (Ret (), lm, d))"

definition add_log_to_buffer :: "log_manager \<Rightarrow> disk \<Rightarrow> log_record \<Rightarrow> lsn_t outcome \<times> log_manager \<times> disk" where
  "add_log_to_buffer lm d r =
     (if log_tot_len r > int LOG_BUFFER_SIZE
      then (Throw (InternalError ''Single log record exceeds log buffer size''), lm, d)
      else case make_room 1 lm d (log_tot_len r) of
        (Throw e, lm1, d1) \<Rightarrow> (Throw e, lm1, d1)
      | (Wait, lm1, d1) \<Rightarrow> (Wait, lm1, d1)
      | (Ret _, lm1, d1) \<Rightarrow>
          (let start_lsn = global_lsn lm1;
               end_offset = i32 (start_lsn + log_tot_len r)
           in if record_end_offsets lm1 start_lsn \<noteq> None
              then (Throw (InternalError ''Duplicate WAL record start LSN''), lm1, d1)
              else (Ret start_lsn,
                    lm1\<lparr>record_end_offsets := (record_end_offsets lm1)(start_lsn \<mapsto> end_offset),
                        active_buffer := (active_buffer lm1)\<lparr>buffer := buffer (active_buffer lm1) @ serialize (r\<lparr>lsn := start_lsn\<rparr>)\<rparr>,
                        global_lsn := end_offset\<rparr>, d1)))"

definition RequestFlushAndWait :: "log_manager \<Rightarrow> disk \<Rightarrow> lsn_t \<Rightarrow> unit outcome \<times> log_manager \<times> disk" where
  "RequestFlushAndWait lm d exclusive_end_offset =
     (if exclusive_end_offset \<le> persist_lsn lm then (Ret (), lm, d)
      else if \<not> flush_thread_started lm then FlushTo lm d exclusive_end_offset
      else (Wait, lm, d))"

definition flush_log_to_disk :: "log_manager \<Rightarrow> disk \<Rightarrow> unit outcome \<times> log_manager \<times> disk" where
  "flush_log_to_disk lm d = RequestFlushAndWait lm d (global_lsn lm)"

definition get_record_end_offset :: "log_manager \<Rightarrow> lsn_t \<Rightarrow> lsn_t outcome" where
  "get_record_end_offset lm l = (case record_end_offsets lm l of
     None \<Rightarrow> Throw (InternalError ''Unknown WAL record lsn'') | Some e \<Rightarrow> Ret e)"

definition has_record_lsn :: "log_manager \<Rightarrow> lsn_t \<Rightarrow> bool" where
  "has_record_lsn lm l = (if l \<noteq> INVALID_LSN \<and> l < durable_prefix_lsn lm then True
     else record_end_offsets lm l \<noteq> None)"

definition FlushUpTo :: "log_manager \<Rightarrow> disk \<Rightarrow> lsn_t \<Rightarrow> unit outcome \<times> log_manager \<times> disk" where
  "FlushUpTo lm d l =
     (if l = INVALID_LSN then (Ret (), lm, d)
      else if l < durable_prefix_lsn lm then (Ret (), lm, d)
      else case record_end_offsets lm l of
        None \<Rightarrow> (Throw (InternalError ''Unknown WAL record lsn''), lm, d)
      | Some target_lsn \<Rightarrow> RequestFlushAndWait lm d target_lsn)"

text \<open>The loop over the page LSNs: the largest end offset, or the LSN that is unknown.\<close>

fun page_lsns_target :: "log_manager \<Rightarrow> lsn_t list \<Rightarrow> lsn_t \<Rightarrow> lsn_t outcome" where
  "page_lsns_target lm [] target_end = Ret target_end"
| "page_lsns_target lm (l # ls) target_end =
     (if l = INVALID_LSN then page_lsns_target lm ls target_end
      else if l < durable_prefix_lsn lm then page_lsns_target lm ls target_end
      else case record_end_offsets lm l of
        None \<Rightarrow> Throw (InternalError ''Unknown WAL record lsn'')
      | Some e \<Rightarrow> page_lsns_target lm ls (max target_end e))"

definition FlushPageLsns :: "log_manager \<Rightarrow> disk \<Rightarrow> lsn_t list \<Rightarrow> unit outcome \<times> log_manager \<times> disk" where
  "FlushPageLsns lm d ls =
     (case page_lsns_target lm ls 0 of
        Throw e \<Rightarrow> (Throw e, lm, d)
      | Wait \<Rightarrow> (Wait, lm, d)
      | Ret target_end \<Rightarrow> if target_end > 0 then RequestFlushAndWait lm d target_end else (Ret (), lm, d))"

definition AppendCheckpointRecord ::
  "log_manager \<Rightarrow> disk \<Rightarrow> txn_id_t \<Rightarrow> timestamp_t \<Rightarrow> timestamp_t \<Rightarrow> lsn_t \<Rightarrow> lsn_t outcome \<times> log_manager \<times> disk" where
  "AppendCheckpointRecord lm d ntid nts lts redo_start_lsn =
     (let redo = (if redo_start_lsn = INVALID_LSN then global_lsn lm else redo_start_lsn)
      in case add_log_to_buffer lm d (CheckpointLogRecord ntid nts lts redo) of
           (Ret checkpoint_lsn, lm1, d1) \<Rightarrow>
             (case FlushUpTo lm1 d1 checkpoint_lsn of
                (Ret _, lm2, d2) \<Rightarrow> (Ret checkpoint_lsn, lm2, d2)
              | (Throw e, lm2, d2) \<Rightarrow> (Throw e, lm2, d2)
              | (Wait, lm2, d2) \<Rightarrow> (Wait, lm2, d2))
         | (Throw e, lm1, d1) \<Rightarrow> (Throw e, lm1, d1)
         | (Wait, lm1, d1) \<Rightarrow> (Wait, lm1, d1))"

definition MarkDurablePrefix :: "log_manager \<Rightarrow> lsn_t \<Rightarrow> log_manager" where
  "MarkDurablePrefix lm checkpoint_lsn =
     (if checkpoint_lsn \<noteq> INVALID_LSN \<and> checkpoint_lsn > durable_prefix_lsn lm
      then lm\<lparr>durable_prefix_lsn := checkpoint_lsn,
              record_end_offsets := (\<lambda>l. if l < checkpoint_lsn then None else record_end_offsets lm l)\<rparr>
      else lm)"

subsection \<open>The flush thread\<close>

definition StartFlushThread :: "log_manager \<Rightarrow> log_manager" where
  "StartFlushThread lm = (if flush_thread_started lm then lm
     else lm\<lparr>flush_thread_started := True, stop_flush_thread := False\<rparr>)"

text \<open>
  \<open>StopFlushThread\<close> joins the thread, which exits only when the active buffer is empty;
  \<open>Wait\<close> while the join blocks.
\<close>

definition StopFlushThread :: "log_manager \<Rightarrow> unit outcome \<times> log_manager" where
  "StopFlushThread lm =
     (if \<not> flush_thread_started lm then (Ret (), lm)
      else if flush_pc lm = FIdle \<and> lb_offset (active_buffer lm) = 0
      then (Ret (), lm\<lparr>flush_thread_started := False, stop_flush_thread := False\<rparr>)
      else (Wait, lm\<lparr>stop_flush_thread := True\<rparr>))"

text \<open>One turn of \<open>FlushThreadMain\<close>: \<open>None\<close> while it has nothing to do.\<close>

definition flush_thread_swap :: "log_manager \<Rightarrow> log_manager option" where
  "flush_thread_swap lm =
     (if \<not> flush_thread_started lm \<or> flush_pc lm \<noteq> FIdle \<or> lb_offset (active_buffer lm) = 0 then None
      else let batch_start = base_offset (active_buffer lm);
               batch_end = i32 (batch_start + lb_offset (active_buffer lm))
        in Some (lm\<lparr>active_buffer := lb_reset batch_end, flush_buffer := active_buffer lm,
                    flush_pc := FSwapped batch_start batch_end\<rparr>))"

definition flush_thread_write :: "log_manager \<Rightarrow> disk \<Rightarrow> unit outcome \<times> log_manager \<times> disk" where
  "flush_thread_write lm d =
     (case flush_pc lm of
        FSwapped batch_start batch_end \<Rightarrow>
          (case write_log d (buffer (flush_buffer lm)) batch_start of
             (Ret _, d') \<Rightarrow> (Ret (), lm\<lparr>flush_pc := FWritten batch_start batch_end\<rparr>, d')
           | (Throw e, d') \<Rightarrow> (Throw e, lm, d')
           | (Wait, d') \<Rightarrow> (Wait, lm, d'))
      | _ \<Rightarrow> (Wait, lm, d))"

definition flush_thread_finish :: "log_manager \<Rightarrow> log_manager option" where
  "flush_thread_finish lm =
     (case flush_pc lm of
        FWritten batch_start batch_end \<Rightarrow>
          Some (lm\<lparr>persist_lsn := batch_end, flush_buffer := lb_reset batch_end, flush_pc := FIdle\<rparr>)
      | _ \<Rightarrow> None)"

subsection \<open>The log file\<close>

definition log_file :: "disk \<Rightarrow> byte list" where
  "log_file d = (case os_files (os d) LOG_FILE_NAME of None \<Rightarrow> [] | Some c \<Rightarrow> c)"

definition log_disk_ok :: "disk \<Rightarrow> bool" where
  "log_disk_ok d \<longleftrightarrow> disk_inv d \<and> is_file d LOG_FILE_NAME \<and>
     (log_fd d \<noteq> - 1 \<longrightarrow> os_fds (os d) (log_fd d) = Some LOG_FILE_NAME)"

text \<open>
  A write to the log, whether it succeeds or not, splices a prefix of the data into the
  log file at its offset and touches no other file; after success all of the data is there.
\<close>

lemma open_file_frame:
  "os_files (os (snd (open_file d p))) = os_files (os d) \<and>
   (fst (open_file d p) = Ret f \<longrightarrow> disk_inv d \<longrightarrow> os_fds (os (snd (open_file d p))) f = Some p) \<and>
   (os_fds (os d) g \<noteq> None \<longrightarrow> os_fds (os (snd (open_file d p))) g = os_fds (os d) g)"
  by (auto simp: open_file_def disk_inv_def split: option.splits dest: os_alloc_fd_fresh)

lemma open_file_no_Wait: "fst (open_file d p) \<noteq> Wait"
  by (auto simp: open_file_def split: option.splits)

lemma disk_inv_log_fd [simp]: "disk_inv (d\<lparr>log_fd := f\<rparr>) = disk_inv d"
  by (simp add: disk_inv_def)

lemma ensure_log_fd_ok:
  assumes "log_disk_ok d" and "ensure_log_fd d = (r, d1)"
  shows "log_disk_ok d1 \<and> r \<noteq> Wait \<and> os_files (os d1) = os_files (os d)
    \<and> (\<forall>g. os_fds (os d) g \<noteq> None \<longrightarrow> os_fds (os d1) g = os_fds (os d) g)
    \<and> (r = Ret () \<longrightarrow> os_fds (os d1) (log_fd d1) = Some LOG_FILE_NAME)"
proof (cases "log_fd d = - 1")
  case False
  with assms show ?thesis by (auto simp: ensure_log_fd_def log_disk_ok_def)
next
  case True
  have i: "disk_inv d" "is_file d LOG_FILE_NAME" using assms(1) by (simp_all add: log_disk_ok_def)
  obtain q d' where o: "open_file d LOG_FILE_NAME = (q, d')" by (cases "open_file d LOG_FILE_NAME")
  have j: "disk_inv d'" using disk_inv_open [OF i(1), of LOG_FILE_NAME] o by simp
  have l: "log_fd d' = log_fd d" using o by (auto simp: open_file_def split: if_splits option.splits)
  note fr = open_file_frame [of d LOG_FILE_NAME, unfolded o, simplified]
  have f: "is_file d' LOG_FILE_NAME" using fr i(2) by (simp add: is_file_def)
  have nw: "q \<noteq> Wait" using open_file_no_Wait [of d LOG_FILE_NAME] o by simp
  show ?thesis
  proof (cases q)
    case (Ret g)
    then have "os_fds (os d') g = Some LOG_FILE_NAME" using fr i(1) by blast
    then show ?thesis using True assms(2) o Ret j f fr
      by (auto simp: ensure_log_fd_def log_disk_ok_def is_file_def)
  next
    case (Throw e)
    then show ?thesis using True assms(2) o j f fr l by (auto simp: ensure_log_fd_def log_disk_ok_def)
  qed (use nw in simp)
qed

lemma write_log_effect:
  assumes "log_disk_ok d" and "0 \<le> off" and "write_log d data off = (r, d1)"
  shows "log_disk_ok d1 \<and> r \<noteq> Wait
    \<and> (\<forall>g. os_fds (os d) g \<noteq> None \<longrightarrow> os_fds (os d1) g = os_fds (os d) g)
    \<and> (\<forall>p. p \<noteq> LOG_FILE_NAME \<longrightarrow> os_files (os d1) p = os_files (os d) p)
    \<and> (\<exists>k. log_file d1 = log_file d \<or> log_file d1 = splice_at (log_file d) (nat off) (take k data))
    \<and> (r = Ret () \<longrightarrow> log_file d1 = splice_at (log_file d) (nat off) data)"
proof -
  obtain q d2 where e: "ensure_log_fd d = (q, d2)" by (cases "ensure_log_fd d")
  note ok = ensure_log_fd_ok [OF assms(1) e]
  have same: "log_file d2 = log_file d" using ok by (simp add: log_file_def)
  show ?thesis
  proof (cases q)
    case (Ret u)
    with ok have fd2: "os_fds (os d2) (log_fd d2) = Some LOG_FILE_NAME" by simp
    obtain c where c: "os_files (os d2) LOG_FILE_NAME = Some c"
      using ok by (auto simp: log_disk_ok_def is_file_def)
    then have lf: "log_file d = c" using same by (simp add: log_file_def)
    define k where "k = (case os_short (os d2) (log_fd d2) (nat off) of None \<Rightarrow> length data | Some k \<Rightarrow> min k (length data))"
    define o2 where "o2 = (os d2)\<lparr>os_files := (os_files (os d2))(LOG_FILE_NAME \<mapsto> splice_at c (nat off) (take k data))\<rparr>"
    have pw: "os_pwrite (os d2) (log_fd d2) data off = (int k, o2)"
      using fd2 c assms(2) by (simp add: os_pwrite_def k_def o2_def Let_def)
    have w: "d1 = d2\<lparr>os := o2\<rparr>" and r: "r = (if int k \<noteq> int (length data) then Throw UnixError else Ret ())"
      using assms(2,3) Ret e pw by (auto simp: write_log_def split: if_splits)
    have di: "disk_inv d1"
      unfolding w using ok c by (intro disk_inv_os_files) (auto simp: log_disk_ok_def o2_def)
    have ex: "log_file d1 = splice_at (log_file d) (nat off) (take k data)"
      by (simp add: log_file_def w o2_def lf [unfolded log_file_def])
    have "r = Ret () \<longrightarrow> log_file d1 = splice_at (log_file d) (nat off) data" using ex r by auto
    moreover have "log_disk_ok d1" using ok di fd2 by (auto simp: log_disk_ok_def w o2_def is_file_def)
    moreover have "os_fds (os d1) = os_fds (os d2)" "\<forall>p. p \<noteq> LOG_FILE_NAME \<longrightarrow> os_files (os d1) p = os_files (os d2) p"
      by (simp_all add: w o2_def)
    moreover have "r \<noteq> Wait" using r by simp
    ultimately show ?thesis using ok ex by auto
  next
    case (Throw x)
    then have "d1 = d2" "r = Throw x" using assms(3) e by (auto simp: write_log_def)
    then show ?thesis using ok same by simp
  qed (use ok in simp)
qed

subsection \<open>The invariant of the log\<close>

text \<open>
  \<open>batch_bytes\<close> is the batch the flush thread is writing; \<open>log_image\<close> is the log as a
  sequence of bytes: the durable prefix of the file, the batch, the active buffer.
\<close>

definition batch_bytes :: "log_manager \<Rightarrow> byte list" where
  "batch_bytes lm = (if flush_pc lm = FIdle then [] else buffer (flush_buffer lm))"

definition log_image :: "log_manager \<Rightarrow> disk \<Rightarrow> byte list" where
  "log_image lm d = take (nat (persist_lsn lm)) (log_file d) @ batch_bytes lm @ buffer (active_buffer lm)"

definition batch_ok :: "log_manager \<Rightarrow> disk \<Rightarrow> bool" where
  "batch_ok lm d =
     (case flush_pc lm of
        FIdle \<Rightarrow> base_offset (active_buffer lm) = persist_lsn lm
      | FSwapped s e \<Rightarrow> flush_thread_started lm \<and> s = persist_lsn lm \<and> e = s + lb_offset (flush_buffer lm)
          \<and> base_offset (active_buffer lm) = e
      | FWritten s e \<Rightarrow> flush_thread_started lm \<and> s = persist_lsn lm \<and> e = s + lb_offset (flush_buffer lm)
          \<and> base_offset (active_buffer lm) = e
          \<and> take (nat e) (log_file d) = take (nat s) (log_file d) @ buffer (flush_buffer lm))"

definition ends_ok :: "(lsn_t \<rightharpoonup> lsn_t) \<Rightarrow> lsn_t \<Rightarrow> lsn_t \<Rightarrow> bool" where
  "ends_ok m p g \<longleftrightarrow> (\<forall>s e. m s = Some e \<longrightarrow> 0 \<le> s \<and> p \<le> s \<and> s < e \<and> e \<le> g) \<and>
     (\<forall>s e s'. m s = Some e \<longrightarrow> m s' \<noteq> None \<longrightarrow> s < s' \<longrightarrow> e \<le> s')"

definition log_inv :: "log_manager \<Rightarrow> disk \<Rightarrow> bool" where
  "log_inv lm d \<longleftrightarrow>
     log_disk_ok d \<and> 0 \<le> persist_lsn lm \<and> persist_lsn lm \<le> int (length (log_file d)) \<and> global_lsn lm < 2 ^ 31 \<and>
     batch_ok lm d \<and>
     global_lsn lm = base_offset (active_buffer lm) + lb_offset (active_buffer lm) \<and>
     lb_offset (active_buffer lm) \<le> int LOG_BUFFER_SIZE \<and>
     ends_ok (record_end_offsets lm) (durable_prefix_lsn lm) (global_lsn lm) \<and>
     durable_prefix_lsn lm \<le> persist_lsn lm"

lemma lb_offset_nonneg [simp]: "0 \<le> lb_offset b"
  by (simp add: lb_offset_def)

lemma log_inv_base:
  assumes "log_inv lm d"
  shows "base_offset (active_buffer lm) = persist_lsn lm + int (length (batch_bytes lm))"
    and "persist_lsn lm \<le> global_lsn lm" and "base_offset (active_buffer lm) < 2 ^ 31"
  using assms unfolding log_inv_def batch_ok_def batch_bytes_def lb_offset_def
  by (auto split: flush_pc.splits)

lemma log_inv_ends: "log_inv lm d \<Longrightarrow> ends_ok (record_end_offsets lm) (durable_prefix_lsn lm) (global_lsn lm)"
  unfolding log_inv_def by blast

lemma log_inv_bounds:
  assumes "log_inv lm d"
  shows "0 \<le> persist_lsn lm" "0 \<le> global_lsn lm" "persist_lsn lm \<le> int (length (log_file d))" "global_lsn lm < 2 ^ 31"
    "durable_prefix_lsn lm \<le> persist_lsn lm" "log_disk_ok d" "batch_ok lm d"
  using assms log_inv_base(2) [OF assms] unfolding log_inv_def by linarith+

lemma log_inv_prefix: "log_inv lm d \<Longrightarrow> durable_prefix_lsn lm \<le> global_lsn lm"
  using log_inv_bounds(5) log_inv_base(2) by (meson order_trans)

lemma length_log_image: "log_inv lm d \<Longrightarrow> int (length (log_image lm d)) = global_lsn lm"
  using log_inv_base(1) [of lm d] unfolding log_image_def log_inv_def lb_offset_def by auto

lemma take_splice_at: "n \<le> off \<Longrightarrow> n \<le> length c \<Longrightarrow> take n (splice_at c off data) = take n c"
  by (simp add: splice_at_def)

lemma take_splice_at_end:
  "off \<le> length c \<Longrightarrow> take (off + length data) (splice_at c off data) = take off c @ data"
  by (simp add: splice_at_def)

text \<open>What a call of the log manager may do, whatever its outcome.\<close>

definition log_step_ok :: "log_manager \<Rightarrow> disk \<Rightarrow> log_manager \<Rightarrow> disk \<Rightarrow> bool" where
  "log_step_ok lm d lm' d' \<longleftrightarrow>
     log_inv lm' d' \<and> persist_lsn lm \<le> persist_lsn lm' \<and> global_lsn lm \<le> global_lsn lm' \<and>
     take (nat (global_lsn lm)) (log_image lm' d') = log_image lm d \<and>
     (\<forall>p. p \<noteq> LOG_FILE_NAME \<longrightarrow> os_files (os d') p = os_files (os d) p) \<and>
     (\<forall>g. os_fds (os d) g \<noteq> None \<longrightarrow> os_fds (os d') g = os_fds (os d) g)"

lemma log_step_ok_refl: "log_inv lm d \<Longrightarrow> log_step_ok lm d lm d"
  using length_log_image [of lm d] by (auto simp: log_step_ok_def)

lemma log_step_ok_trans:
  assumes "log_step_ok lm d lm1 d1" and "log_step_ok lm1 d1 lm2 d2"
  shows "log_step_ok lm d lm2 d2"
proof -
  have t: "take (nat (global_lsn lm1)) (log_image lm2 d2) = log_image lm1 d1"
    "take (nat (global_lsn lm)) (log_image lm1 d1) = log_image lm d" and le: "global_lsn lm \<le> global_lsn lm1"
    using assms by (simp_all add: log_step_ok_def)
  have "take (nat (global_lsn lm)) (log_image lm2 d2) = take (nat (global_lsn lm)) (take (nat (global_lsn lm1)) (log_image lm2 d2))"
    using le by (simp add: min_absorb1)
  also have "\<dots> = log_image lm d" by (simp only: t)
  finally show ?thesis using assms unfolding log_step_ok_def by (metis order_trans)
qed

lemma log_write_cases:
  assumes i: "log_inv lm d" and w: "write_log d data (persist_lsn lm) = (r, d1)"
  shows "log_disk_ok d1" "r \<noteq> Wait" "take (nat (persist_lsn lm)) (log_file d1) = take (nat (persist_lsn lm)) (log_file d)"
    "persist_lsn lm \<le> int (length (log_file d1))"
    "r = Ret () \<Longrightarrow> take (nat (persist_lsn lm) + length data) (log_file d1) = take (nat (persist_lsn lm)) (log_file d) @ data"
    "r = Ret () \<Longrightarrow> persist_lsn lm + int (length data) \<le> int (length (log_file d1))"
    "\<forall>p. p \<noteq> LOG_FILE_NAME \<longrightarrow> os_files (os d1) p = os_files (os d) p"
    "\<forall>g. os_fds (os d) g \<noteq> None \<longrightarrow> os_fds (os d1) g = os_fds (os d) g"
proof -
  have p: "0 \<le> persist_lsn lm" "nat (persist_lsn lm) \<le> length (log_file d)" "log_disk_ok d"
    using i by (auto simp: log_inv_def)
  note e = write_log_effect [OF p(3) p(1) w]
  show "log_disk_ok d1" "r \<noteq> Wait" "\<forall>p. p \<noteq> LOG_FILE_NAME \<longrightarrow> os_files (os d1) p = os_files (os d) p"
    "\<forall>g. os_fds (os d) g \<noteq> None \<longrightarrow> os_fds (os d1) g = os_fds (os d) g" using e by blast+
  show "take (nat (persist_lsn lm)) (log_file d1) = take (nat (persist_lsn lm)) (log_file d)"
    using e p(2) by (auto simp: take_splice_at)
  show "persist_lsn lm \<le> int (length (log_file d1))"
    using e p(2) by (auto simp: length_splice_at)
  assume "r = Ret ()"
  then have l: "log_file d1 = splice_at (log_file d) (nat (persist_lsn lm)) data" using e by blast
  show "take (nat (persist_lsn lm) + length data) (log_file d1) = take (nat (persist_lsn lm)) (log_file d) @ data"
    "persist_lsn lm + int (length data) \<le> int (length (log_file d1))"
    using p by (auto simp: l take_splice_at_end length_splice_at)
qed

lemma FlushTo_ok:
  assumes i: "log_inv lm d" and n: "\<not> flush_thread_started lm" and f: "FlushTo lm d t = (r, lm1, d1)"
  shows "log_step_ok lm d lm1 d1 \<and> r \<noteq> Wait \<and> (r = Ret () \<longrightarrow> t \<le> persist_lsn lm1)
    \<and> record_end_offsets lm1 = record_end_offsets lm \<and> global_lsn lm1 = global_lsn lm
    \<and> durable_prefix_lsn lm1 = durable_prefix_lsn lm \<and> flush_thread_started lm1 = flush_thread_started lm
    \<and> (r = Ret () \<and> t = global_lsn lm \<and> persist_lsn lm < t \<longrightarrow> buffer (active_buffer lm1) = [])"
proof (cases "t \<le> persist_lsn lm \<or> t > global_lsn lm")
  case True
  with f i log_step_ok_refl [OF i] show ?thesis by (auto simp: FlushTo_def split: if_splits)
next
  case False
  have pc: "flush_pc lm = FIdle" and base: "base_offset (active_buffer lm) = persist_lsn lm"
    using i n by (auto simp: log_inv_def batch_ok_def split: flush_pc.splits)
  have glob: "global_lsn lm = persist_lsn lm + lb_offset (active_buffer lm)" "0 \<le> persist_lsn lm" "global_lsn lm < 2 ^ 31"
    using i base by (auto simp: log_inv_def)
  with False have pos: "lb_offset (active_buffer lm) > 0" by linarith
  have be: "i32 (persist_lsn lm + lb_offset (active_buffer lm)) = global_lsn lm"
    unfolding glob(1) using glob lb_offset_nonneg [of "active_buffer lm"] by (intro i32_id) linarith+
  obtain q d2 where w: "write_log d (buffer (active_buffer lm)) (persist_lsn lm) = (q, d2)" by fastforce
  note wc = log_write_cases [OF i w]
  show ?thesis
  proof (cases q)
    case (Ret u)
    then have st: "lm1 = lm\<lparr>active_buffer := lb_reset (global_lsn lm), flush_buffer := lb_reset (global_lsn lm), persist_lsn := global_lsn lm\<rparr>"
      "d1 = d2" "r = Ret ()"
      using f False pos w base be by (auto simp: FlushTo_def Let_def split: if_splits)
    have g: "nat (global_lsn lm) = nat (persist_lsn lm) + length (buffer (active_buffer lm))"
      using glob by (simp add: lb_offset_def)
    have im: "log_image lm1 d1 = log_image lm d"
      using wc(5) Ret pc by (simp add: log_image_def batch_bytes_def st lb_reset_def g)
    have len: "global_lsn lm \<le> int (length (log_file d2))"
      using wc(6) Ret glob by (simp add: lb_offset_def)
    have a: "log_disk_ok d2" "durable_prefix_lsn lm \<le> global_lsn lm"
      "ends_ok (record_end_offsets lm) (durable_prefix_lsn lm) (global_lsn lm)"
      using i wc(1) log_inv_base(2) [OF i] unfolding log_inv_def by auto
    have b: "0 \<le> global_lsn lm" using glob pos by linarith
    have "log_inv lm1 d1"
      unfolding log_inv_def st batch_ok_def using len a b glob(3) pc by (simp add: lb_reset_def lb_offset_def)
    moreover have "take (nat (global_lsn lm)) (log_image lm d) = log_image lm d"
      using length_log_image [OF i] by simp
    ultimately show ?thesis unfolding log_step_ok_def using im wc(7,8) False log_inv_base(2) [OF i]
      by (simp add: st lb_reset_def)
  next
    case (Throw e)
    then have st: "lm1 = lm" "d1 = d2" "r = Throw e"
      using f False pos w base by (auto simp: FlushTo_def Let_def split: if_splits)
    have im: "log_image lm1 d1 = log_image lm d" using wc(3) by (simp add: log_image_def st)
    have "log_inv lm1 d1" using i wc(1,4) pc by (auto simp: log_inv_def batch_ok_def st)
    then show ?thesis using im wc(7,8) st length_log_image [OF i] by (auto simp: log_step_ok_def)
  qed (use wc in simp)
qed

text \<open>Appending: the room is made first, then the record's bytes extend the image of the log.\<close>

definition same_ends :: "log_manager \<Rightarrow> log_manager \<Rightarrow> bool" where
  "same_ends lm lm' \<longleftrightarrow> record_end_offsets lm' = record_end_offsets lm \<and> global_lsn lm' = global_lsn lm
     \<and> durable_prefix_lsn lm' = durable_prefix_lsn lm"

lemma make_room_ok:
  assumes i: "log_inv lm d" and n: "0 \<le> n" "n \<le> int LOG_BUFFER_SIZE" and m: "make_room 1 lm d n = (r, lm1, d1)"
  shows "log_step_ok lm d lm1 d1 \<and> same_ends lm lm1 \<and> (r = Ret () \<longrightarrow> \<not> is_full (active_buffer lm1) n)
    \<and> (r = Wait \<longrightarrow> flush_thread_started lm) \<and> log_image lm1 d1 = log_image lm d"
proof (cases "is_full (active_buffer lm) n \<and> \<not> flush_thread_started lm")
  case False
  with m log_step_ok_refl [OF i] show ?thesis by (auto simp: same_ends_def split: if_splits)
next
  case True
  obtain q lm2 d2 where F: "FlushTo lm d (global_lsn lm) = (q, lm2, d2)" by (metis prod_cases3)
  note ok = FlushTo_ok [OF i _ F]
  have step: "log_step_ok lm d lm2 d2" "q \<noteq> Wait" "same_ends lm lm2"
    using ok True by (auto simp: same_ends_def)
  have img: "log_image lm2 d2 = log_image lm d"
  proof -
    have g: "int (length (log_image lm2 d2)) = global_lsn lm"
      using step length_log_image [of lm2 d2] by (auto simp: log_step_ok_def same_ends_def)
    then show ?thesis using step by (simp add: log_step_ok_def)
  qed
  have pos: "persist_lsn lm < global_lsn lm"
  proof -
    have "lb_offset (active_buffer lm) > 0" using True n by (auto simp: is_full_def)
    then show ?thesis using i log_inv_base(1) [OF i] by (simp add: log_inv_def)
  qed
  have e: "q = Ret () \<longrightarrow> buffer (active_buffer lm2) = []" using ok True pos by simp
  show ?thesis
  proof (cases q)
    case (Ret u)
    with e have "\<not> is_full (active_buffer lm2) n" using n(2) by (simp add: is_full_def lb_offset_def)
    with Ret True F m have "r = Ret ()" "lm1 = lm2" "d1 = d2" by (auto split: if_splits)
    with step img \<open>\<not> is_full (active_buffer lm2) n\<close> show ?thesis by simp
  next
    case (Throw x)
    with True F m have "r = Throw x" "lm1 = lm2" "d1 = d2" by (auto split: if_splits)
    with step img show ?thesis by simp
  qed (use step in simp)
qed

lemma ends_ok_append:
  assumes "ends_ok m p g" and "0 \<le> g" and "0 < n" and "p \<le> g"
  shows "ends_ok (m(g \<mapsto> g + n)) p (g + n)" and "m g = None"
proof -
  show "m g = None"
  proof (rule ccontr)
    assume "m g \<noteq> None"
    then obtain e where "m g = Some e" by blast
    then have "g < e" "e \<le> g" using assms(1) unfolding ends_ok_def by blast+
    then show False by linarith
  qed
  have a: "\<And>s e. m s = Some e \<Longrightarrow> 0 \<le> s \<and> p \<le> s \<and> s < e \<and> e \<le> g" and b: "\<And>s e s'. m s = Some e \<Longrightarrow> m s' \<noteq> None \<Longrightarrow> s < s' \<Longrightarrow> e \<le> s'"
    using assms(1) unfolding ends_ok_def by blast+
  show "ends_ok (m(g \<mapsto> g + n)) p (g + n)"
    unfolding ends_ok_def using assms(2-) a b by (force split: if_splits)
qed

lemma log_inv_append:
  assumes i: "log_inv lm d" and s: "int (length s) = n" "0 < n" and room: "\<not> is_full (active_buffer lm) n"
    and fits: "global_lsn lm + n < 2 ^ 31"
    and lm1: "lm1 = lm\<lparr>record_end_offsets := (record_end_offsets lm)(global_lsn lm \<mapsto> global_lsn lm + n),
       active_buffer := (active_buffer lm)\<lparr>buffer := buffer (active_buffer lm) @ s\<rparr>, global_lsn := global_lsn lm + n\<rparr>"
  shows "log_inv lm1 d \<and> log_image lm1 d = log_image lm d @ s"
proof -
  note e = ends_ok_append(1) [OF log_inv_ends [OF i] log_inv_bounds(2) [OF i] s(2) log_inv_prefix [OF i]]
  have lo: "lb_offset (active_buffer lm1) = lb_offset (active_buffer lm) + n"
    using s(1) by (simp add: lm1 lb_offset_def)
  have "batch_ok lm d" using i by (simp add: log_inv_def)
  then have bo: "batch_ok lm1 d" by (simp add: batch_ok_def lm1 split: flush_pc.splits)
  have "lb_offset (active_buffer lm) + n \<le> int LOG_BUFFER_SIZE" using room by (simp add: is_full_def)
  with i e bo lo fits have "log_inv lm1 d" unfolding log_inv_def by (simp add: lm1)
  moreover have "batch_bytes lm1 = batch_bytes lm" by (simp add: batch_bytes_def lm1)
  then have "log_image lm1 d = log_image lm d @ s" by (simp add: log_image_def lm1)
  ultimately show ?thesis by blast
qed

text \<open>The three ways \<open>add_log_to_buffer\<close> ends: nothing done, no room, appended.\<close>

definition append_bytes :: "log_manager \<Rightarrow> log_record \<Rightarrow> log_manager" where
  "append_bytes lm r = lm\<lparr>record_end_offsets := (record_end_offsets lm)(global_lsn lm \<mapsto> global_lsn lm + log_tot_len r),
     active_buffer := (active_buffer lm)\<lparr>buffer := buffer (active_buffer lm) @ serialize (r\<lparr>lsn := global_lsn lm\<rparr>)\<rparr>,
     global_lsn := global_lsn lm + log_tot_len r\<rparr>"

lemma add_log_cases:
  assumes i: "log_inv lm d" and len: "0 < log_tot_len r" and fits: "global_lsn lm + log_tot_len r < 2 ^ 31"
    and add: "add_log_to_buffer lm d r = (q, lm1, d1)"
  obtains (big) "lm1 = lm" "d1 = d" "\<exists>e. q = Throw e"
    | (stuck) "log_step_ok lm d lm1 d1" "same_ends lm lm1" "\<not> is_Ret q" "q = Wait \<longrightarrow> flush_thread_started lm"
    | (appended) lm2 where "log_step_ok lm d lm2 d1" "same_ends lm lm2" "log_image lm2 d1 = log_image lm d"
        "\<not> is_full (active_buffer lm2) (log_tot_len r)" "lm1 = append_bytes lm2 r" "q = Ret (global_lsn lm)"
proof (cases "log_tot_len r > int LOG_BUFFER_SIZE")
  case True
  with add show ?thesis by (intro big) (auto simp: add_log_to_buffer_def)
next
  case nb: False
  obtain m lm2 d2 where M: "make_room 1 lm d (log_tot_len r) = (m, lm2, d2)" by (metis prod_cases3)
  have ok: "log_step_ok lm d lm2 d2" "same_ends lm lm2" "m = Ret () \<Longrightarrow> \<not> is_full (active_buffer lm2) (log_tot_len r)"
    "m = Wait \<Longrightarrow> flush_thread_started lm" "log_image lm2 d2 = log_image lm d"
    using make_room_ok [OF i _ _ M] len nb by auto
  show ?thesis
  proof (cases m)
    case (Ret u)
    have inv2: "log_inv lm2 d2" and g: "global_lsn lm2 = global_lsn lm" "0 \<le> global_lsn lm2"
      using ok(1,2) i log_inv_base(2) [OF i] by (auto simp: log_step_ok_def same_ends_def log_inv_def)
    have "record_end_offsets lm2 (global_lsn lm2) = None"
      using ends_ok_append(2) [OF log_inv_ends [OF inv2] g(2) len log_inv_prefix [OF inv2]] .
    moreover have "i32 (global_lsn lm2 + log_tot_len r) = global_lsn lm2 + log_tot_len r"
      using g fits len by (intro i32_id) linarith+
    ultimately have "lm1 = append_bytes lm2 r \<and> d1 = d2 \<and> q = Ret (global_lsn lm)"
      using add nb M Ret g by (simp add: add_log_to_buffer_def Let_def append_bytes_def)
    then show ?thesis using Ret ok appended by simp
  qed (use add nb M ok stuck in \<open>auto simp: add_log_to_buffer_def\<close>)
qed

lemma add_log_ok:
  assumes i: "log_inv lm d" and len: "\<And>l. int (length (serialize (r\<lparr>lsn := l\<rparr>))) = log_tot_len r" "0 < log_tot_len r"
    and fits: "global_lsn lm + log_tot_len r < 2 ^ 31"
    and add: "add_log_to_buffer lm d r = (q, lm1, d1)"
  shows "log_step_ok lm d lm1 d1 \<and> durable_prefix_lsn lm1 = durable_prefix_lsn lm
    \<and> (\<forall>s e. record_end_offsets lm s = Some e \<longrightarrow> record_end_offsets lm1 s = Some e)
    \<and> (q = Wait \<longrightarrow> flush_thread_started lm)
    \<and> (\<forall>l. q = Ret l \<longrightarrow> l = global_lsn lm \<and> record_end_offsets lm1 l = Some (l + log_tot_len r)
        \<and> log_image lm1 d1 = log_image lm d @ serialize (r\<lparr>lsn := l\<rparr>))"
  using i len(2) fits add
proof (cases rule: add_log_cases)
  case big
  then show ?thesis using log_step_ok_refl [OF i] by auto
next
  case stuck
  then show ?thesis by (auto simp: same_ends_def)
next
  case (appended lm2)
  have inv2: "log_inv lm2 d1" and g: "global_lsn lm2 = global_lsn lm"
    and re: "record_end_offsets lm2 = record_end_offsets lm" and dp: "durable_prefix_lsn lm2 = durable_prefix_lsn lm"
    using appended(1,2) by (auto simp: log_step_ok_def same_ends_def)
  have ap: "log_inv lm1 d1 \<and> log_image lm1 d1 = log_image lm2 d1 @ serialize (r\<lparr>lsn := global_lsn lm2\<rparr>)"
    by (rule log_inv_append [OF inv2 len(1) len(2) appended(4) _ appended(5) [unfolded append_bytes_def]])
      (use g fits in simp)
  have fields: "persist_lsn lm1 = persist_lsn lm2" "global_lsn lm1 = global_lsn lm + log_tot_len r"
    "durable_prefix_lsn lm1 = durable_prefix_lsn lm"
    "record_end_offsets lm1 = (record_end_offsets lm)(global_lsn lm \<mapsto> global_lsn lm + log_tot_len r)"
    using appended(5) g re dp by (simp_all add: append_bytes_def)
  have im: "log_image lm1 d1 = log_image lm d @ serialize (r\<lparr>lsn := global_lsn lm\<rparr>)"
    using ap appended(3) g by simp
  have "take (nat (global_lsn lm)) (log_image lm1 d1) = log_image lm d"
    using im length_log_image [OF i] by simp
  then have "log_step_ok lm d lm1 d1"
    using appended(1) ap len(2) fields(1,2) unfolding log_step_ok_def by simp
  moreover have "record_end_offsets lm (global_lsn lm) = None"
    using ends_ok_append(2) [OF log_inv_ends [OF i] log_inv_bounds(2) [OF i] len(2) log_inv_prefix [OF i]] .
  ultimately show ?thesis using appended(6) im fields by auto
qed

lemma RequestFlushAndWait_ok:
  assumes i: "log_inv lm d" and q: "RequestFlushAndWait lm d t = (r, lm1, d1)"
  shows "log_step_ok lm d lm1 d1 \<and> same_ends lm lm1 \<and> (r = Ret () \<longrightarrow> t \<le> persist_lsn lm1)
    \<and> (r = Wait \<longrightarrow> flush_thread_started lm)"
proof (cases "t \<le> persist_lsn lm \<or> flush_thread_started lm")
  case True
  with q log_step_ok_refl [OF i] show ?thesis by (auto simp: RequestFlushAndWait_def same_ends_def split: if_splits)
next
  case False
  then have "FlushTo lm d t = (r, lm1, d1)" using q by (simp add: RequestFlushAndWait_def)
  from FlushTo_ok [OF i _ this] False show ?thesis by (auto simp: same_ends_def)
qed

lemma FlushUpTo_ok:
  assumes i: "log_inv lm d" and q: "FlushUpTo lm d l = (r, lm1, d1)"
  shows "log_step_ok lm d lm1 d1 \<and> same_ends lm lm1
    \<and> (r = Ret () \<longrightarrow> l = INVALID_LSN \<or> l < durable_prefix_lsn lm \<or> (\<exists>e. record_end_offsets lm l = Some e \<and> e \<le> persist_lsn lm1))"
proof (cases "l = INVALID_LSN \<or> l < durable_prefix_lsn lm \<or> record_end_offsets lm l = None")
  case True
  with q log_step_ok_refl [OF i] show ?thesis by (auto simp: FlushUpTo_def same_ends_def split: if_splits)
next
  case False
  then obtain t where t: "record_end_offsets lm l = Some t" "RequestFlushAndWait lm d t = (r, lm1, d1)"
    using q by (auto simp: FlushUpTo_def)
  from RequestFlushAndWait_ok [OF i t(2)] t(1) show ?thesis by auto
qed

lemma page_lsns_target_bound:
  "page_lsns_target lm ls t0 = Ret t \<Longrightarrow>
     t0 \<le> t \<and> (\<forall>l \<in> set ls. l = INVALID_LSN \<or> l < durable_prefix_lsn lm \<or> (\<exists>e. record_end_offsets lm l = Some e \<and> e \<le> t))"
  by (induction lm ls t0 rule: page_lsns_target.induct) (auto split: if_splits option.splits)

lemma FlushPageLsns_ok:
  assumes i: "log_inv lm d" and q: "FlushPageLsns lm d ls = (r, lm1, d1)"
  shows "log_step_ok lm d lm1 d1 \<and> same_ends lm lm1
    \<and> (r = Ret () \<longrightarrow> (\<forall>l \<in> set ls. l = INVALID_LSN \<or> l < durable_prefix_lsn lm \<or>
         (\<exists>e. record_end_offsets lm l = Some e \<and> e \<le> persist_lsn lm1)))"
proof (cases "page_lsns_target lm ls 0")
  case (Ret t)
  note b = page_lsns_target_bound [OF Ret]
  show ?thesis
  proof (cases "t > 0")
    case True
    then have "RequestFlushAndWait lm d t = (r, lm1, d1)" using q Ret by (simp add: FlushPageLsns_def)
    from RequestFlushAndWait_ok [OF i this] b show ?thesis by (meson order_trans)
  next
    case False
    then have "r = Ret ()" "lm1 = lm" "d1 = d" using q Ret by (simp_all add: FlushPageLsns_def)
    moreover have "t \<le> persist_lsn lm" using False log_inv_bounds(1) [OF i] by linarith
    ultimately show ?thesis using b log_step_ok_refl [OF i] unfolding same_ends_def by (meson order_trans)
  qed
qed (use q log_step_ok_refl [OF i] in \<open>auto simp: FlushPageLsns_def same_ends_def\<close>)

lemma MarkDurablePrefix_inv:
  assumes i: "log_inv lm d" and c: "c \<le> persist_lsn lm"
  shows "log_step_ok lm d (MarkDurablePrefix lm c) d"
proof (cases "c \<noteq> INVALID_LSN \<and> c > durable_prefix_lsn lm")
  case False
  then have "MarkDurablePrefix lm c = lm" unfolding MarkDurablePrefix_def by (rule if_not_P)
  with log_step_ok_refl [OF i] show ?thesis by simp
next
  case True
  let ?lm = "MarkDurablePrefix lm c"
  have m: "?lm = lm\<lparr>durable_prefix_lsn := c, record_end_offsets := (\<lambda>l. if l < c then None else record_end_offsets lm l)\<rparr>"
    using True by (simp add: MarkDurablePrefix_def)
  have "ends_ok (record_end_offsets ?lm) (durable_prefix_lsn ?lm) (global_lsn ?lm)"
    using log_inv_ends [OF i] unfolding m ends_ok_def by simp
  moreover have "batch_ok ?lm d" using log_inv_bounds(7) [OF i] by (simp add: m batch_ok_def split: flush_pc.splits)
  moreover have im: "log_image ?lm d = log_image lm d" by (simp add: m log_image_def batch_bytes_def)
  ultimately have "log_inv ?lm d" using i c unfolding log_inv_def by (simp add: m)
  then show ?thesis using length_log_image [OF i] unfolding log_step_ok_def im by (simp add: m)
qed

text \<open>The turns of the flush thread move bytes along the image and never change it.\<close>

lemma flush_thread_swap_ok:
  assumes i: "log_inv lm d" and s: "flush_thread_swap lm = Some lm1"
  shows "log_step_ok lm d lm1 d \<and> same_ends lm lm1"
proof -
  have pc: "flush_pc lm = FIdle" "flush_thread_started lm" using s by (auto simp: flush_thread_swap_def split: if_splits)
  have base: "base_offset (active_buffer lm) = persist_lsn lm"
    using log_inv_bounds(7) [OF i] pc by (simp add: batch_ok_def)
  have g: "global_lsn lm = persist_lsn lm + lb_offset (active_buffer lm)" using i base by (simp add: log_inv_def)
  have "i32 (persist_lsn lm + lb_offset (active_buffer lm)) = global_lsn lm"
    unfolding g [symmetric] using log_inv_bounds [OF i] by (intro i32_id) linarith+
  with s base have l1: "lm1 = lm\<lparr>active_buffer := lb_reset (global_lsn lm), flush_buffer := active_buffer lm,
       flush_pc := FSwapped (persist_lsn lm) (global_lsn lm)\<rparr>"
    by (auto simp: flush_thread_swap_def Let_def split: if_splits)
  have bo: "batch_ok lm1 d" using g pc by (simp add: l1 batch_ok_def lb_reset_def)
  have im: "log_image lm1 d = log_image lm d" using pc by (simp add: l1 log_image_def batch_bytes_def lb_reset_def)
  have "log_inv lm1 d" using log_inv_bounds [OF i] log_inv_ends [OF i] bo unfolding log_inv_def
    by (simp add: l1 lb_reset_def lb_offset_def)
  then show ?thesis using length_log_image [OF i] unfolding log_step_ok_def im by (simp add: l1 same_ends_def)
qed

lemma flush_thread_write_ok:
  assumes i: "log_inv lm d" and w: "flush_thread_write lm d = (r, lm1, d1)"
  shows "log_step_ok lm d lm1 d1 \<and> same_ends lm lm1"
proof (cases "flush_pc lm")
  case (FSwapped s e)
  have b: "flush_thread_started lm" "s = persist_lsn lm" "e = s + lb_offset (flush_buffer lm)" "base_offset (active_buffer lm) = e"
    using log_inv_bounds(7) [OF i] FSwapped by (simp_all add: batch_ok_def)
  obtain q d2 where W: "write_log d (buffer (flush_buffer lm)) (persist_lsn lm) = (q, d2)" by fastforce
  note wc = log_write_cases [OF i W]
  have e: "nat e = nat (persist_lsn lm) + length (buffer (flush_buffer lm))"
    using b log_inv_bounds(1) [OF i] by (simp add: lb_offset_def nat_add_distrib)
  have d1: "d1 = d2" and l1: "lm1 = (if q = Ret () then lm\<lparr>flush_pc := FWritten s e\<rparr> else lm)"
    using w W FSwapped b(2) wc(2) by (auto simp: flush_thread_write_def split: outcome.splits)
  have bo: "batch_ok lm1 d1"
  proof (cases "q = Ret ()")
    case True
    then show ?thesis using b wc(3,5) e d1 l1 by (simp add: batch_ok_def)
  next
    case False
    then show ?thesis using b FSwapped l1 by (simp add: batch_ok_def)
  qed
  have im: "log_image lm1 d1 = log_image lm d" using wc(3) FSwapped d1 by (simp add: l1 log_image_def batch_bytes_def)
  have "global_lsn lm = base_offset (active_buffer lm) + lb_offset (active_buffer lm)"
    "lb_offset (active_buffer lm) \<le> int LOG_BUFFER_SIZE" using i unfolding log_inv_def by blast+
  then have "log_inv lm1 d1" using log_inv_bounds [OF i] log_inv_ends [OF i] wc(1,4) bo d1 unfolding log_inv_def l1 by auto
  then show ?thesis using length_log_image [OF i] wc(7,8) d1 unfolding log_step_ok_def im by (simp add: l1 same_ends_def)
qed (use w log_step_ok_refl [OF i] in \<open>auto simp: flush_thread_write_def same_ends_def\<close>)

lemma flush_thread_finish_ok:
  assumes i: "log_inv lm d" and s: "flush_thread_finish lm = Some lm1"
  shows "log_step_ok lm d lm1 d \<and> same_ends lm lm1"
proof -
  obtain s e where pc: "flush_pc lm = FWritten s e" using s by (auto simp: flush_thread_finish_def split: flush_pc.splits)
  then have l1: "lm1 = lm\<lparr>persist_lsn := e, flush_buffer := lb_reset e, flush_pc := FIdle\<rparr>"
    using s by (simp add: flush_thread_finish_def)
  have "s = persist_lsn lm \<and> e = s + lb_offset (flush_buffer lm) \<and> base_offset (active_buffer lm) = e
    \<and> take (nat e) (log_file d) = take (nat s) (log_file d) @ buffer (flush_buffer lm)"
    using log_inv_bounds(7) [OF i] unfolding batch_ok_def pc flush_pc.case by blast
  then have b: "s = persist_lsn lm" "e = s + lb_offset (flush_buffer lm)" "base_offset (active_buffer lm) = e"
    "take (nat e) (log_file d) = take (nat s) (log_file d) @ buffer (flush_buffer lm)" by blast+
  have le: "persist_lsn lm \<le> e" "0 \<le> e" using b lb_offset_nonneg [of "flush_buffer lm"] log_inv_bounds(1) [OF i] by linarith+
  have "length (take (nat e) (log_file d)) = nat (persist_lsn lm) + length (buffer (flush_buffer lm))"
    unfolding b(4) using b(1) log_inv_bounds(1,3) [OF i] by simp
  then have len: "e \<le> int (length (log_file d))" using b(1,2) by (simp add: lb_offset_def)
  have im: "log_image lm1 d = log_image lm d"
    using b(1,4) pc by (simp add: l1 log_image_def batch_bytes_def)
  have bo: "batch_ok lm1 d" using b by (simp add: l1 batch_ok_def)
  have "global_lsn lm = base_offset (active_buffer lm) + lb_offset (active_buffer lm)"
    "lb_offset (active_buffer lm) \<le> int LOG_BUFFER_SIZE" using i unfolding log_inv_def by blast+
  then have "log_inv lm1 d" using log_inv_bounds [OF i] log_inv_ends [OF i] len le bo unfolding log_inv_def l1 by auto
  then show ?thesis using length_log_image [OF i] le unfolding log_step_ok_def im by (simp add: l1 same_ends_def)
qed

subsection \<open>All interleavings\<close>

text \<open>
  The steps of the system: the calls of foreground threads, the turns of the flush thread, and
  page writes by the buffer pool. A record is appended while the log stays below \<open>2 ^ 31\<close> bytes
  (the range of \<open>lsn_t\<close>), and the durable prefix is set to the start of a known record that
  has been written, as the checkpoint does.
\<close>

inductive wal_step :: "log_manager \<times> disk \<Rightarrow> log_manager \<times> disk \<Rightarrow> bool" where
  append: "add_log_to_buffer lm d r = (q, s') \<Longrightarrow> wf_log_record r \<Longrightarrow> global_lsn lm + log_tot_len r < 2 ^ 31 \<Longrightarrow>
     wal_step (lm, d) s'"
| flush: "RequestFlushAndWait lm d t = (q, s') \<Longrightarrow> wal_step (lm, d) s'"
| flush_up_to: "FlushUpTo lm d l = (q, s') \<Longrightarrow> wal_step (lm, d) s'"
| flush_pages: "FlushPageLsns lm d ls = (q, s') \<Longrightarrow> wal_step (lm, d) s'"
| mark: "record_end_offsets lm c \<noteq> None \<Longrightarrow> c \<le> persist_lsn lm \<Longrightarrow> wal_step (lm, d) (MarkDurablePrefix lm c, d)"
| start: "wal_step (lm, d) (StartFlushThread lm, d)"
| stop: "wal_step (lm, d) (snd (StopFlushThread lm), d)"
| swap: "flush_thread_swap lm = Some lm' \<Longrightarrow> wal_step (lm, d) (lm', d)"
| thread_write: "flush_thread_write lm d = (q, s') \<Longrightarrow> wal_step (lm, d) s'"
| finish: "flush_thread_finish lm = Some lm' \<Longrightarrow> wal_step (lm, d) (lm', d)"
| page_write: "write_page d f p data = (q, d') \<Longrightarrow> os_fds (os d) f \<noteq> Some LOG_FILE_NAME \<Longrightarrow> wal_step (lm, d) (lm, d')"

text \<open>\<open>recorded lm d l bs\<close>: the log holds the record with bytes \<open>bs\<close> at \<open>l\<close>, and still knows where it ends.\<close>

definition recorded :: "log_manager \<Rightarrow> disk \<Rightarrow> lsn_t \<Rightarrow> byte list \<Rightarrow> bool" where
  "recorded lm d l bs \<longleftrightarrow> 0 \<le> l \<and> l + int (length bs) \<le> global_lsn lm \<and>
     take (length bs) (drop (nat l) (log_image lm d)) = bs \<and>
     (record_end_offsets lm l = Some (l + int (length bs)) \<or> l + int (length bs) \<le> durable_prefix_lsn lm)"

lemma length_serialize_lsn: "wf_log_record r \<Longrightarrow> int (length (serialize (r\<lparr>lsn := l\<rparr>))) = log_tot_len r"
  by (simp add: serialize_def length_serialize_data length_serialize_header wf_log_record_def)

lemma log_tot_len_pos: "wf_log_record r \<Longrightarrow> 0 < log_tot_len r"
  by (simp add: wf_log_record_def log_offsets)

lemmas add_log_wf = add_log_ok [OF _ length_serialize_lsn log_tot_len_pos]

lemma start_stop_ok:
  assumes "log_inv lm d" and "lm' = StartFlushThread lm \<or> lm' = snd (StopFlushThread lm)"
  shows "log_step_ok lm d lm' d \<and> same_ends lm lm'"
proof -
  define f g where "f = flush_thread_started lm'" and "g = stop_flush_thread lm'"
  have idle: "\<not> flush_thread_started lm \<Longrightarrow> flush_pc lm = FIdle"
    using log_inv_bounds(7) [OF assms(1)] by (auto simp: batch_ok_def split: flush_pc.splits)
  have e: "lm' = lm\<lparr>flush_thread_started := f, stop_flush_thread := g\<rparr>"
    using assms(2) by (elim disjE) (simp_all add: f_def g_def StartFlushThread_def StopFlushThread_def)
  have f: "flush_pc lm = FIdle \<or> f = flush_thread_started lm"
    using assms(2) idle by (elim disjE) (simp_all add: f_def StartFlushThread_def StopFlushThread_def)
  have bo: "batch_ok lm' d" using log_inv_bounds(7) [OF assms(1)] f by (auto simp: e batch_ok_def split: flush_pc.splits)
  have im: "log_image lm' d = log_image lm d" by (simp add: e log_image_def batch_bytes_def)
  have "log_inv lm' d" using assms(1) bo unfolding log_inv_def e by auto
  then show ?thesis using length_log_image [OF assms(1)] unfolding log_step_ok_def im by (simp add: e same_ends_def)
qed

lemma recorded_kept:
  assumes "recorded lm d l bs" and "global_lsn lm \<le> global_lsn lm'"
    and "take (nat (global_lsn lm)) (log_image lm' d') = log_image lm d"
    and "record_end_offsets lm l = Some (l + int (length bs)) \<longrightarrow>
      record_end_offsets lm' l = Some (l + int (length bs)) \<or> l + int (length bs) \<le> durable_prefix_lsn lm'"
    and "durable_prefix_lsn lm \<le> durable_prefix_lsn lm'"
  shows "recorded lm' d' l bs"
proof -
  have b: "0 \<le> l" "l + int (length bs) \<le> global_lsn lm" using assms(1) by (simp_all add: recorded_def)
  then have n: "length bs \<le> nat (global_lsn lm) - nat l" by linarith
  have "bs = take (length bs) (drop (nat l) (take (nat (global_lsn lm)) (log_image lm' d')))"
    using assms(1,3) by (simp add: recorded_def)
  also have "\<dots> = take (length bs) (drop (nat l) (log_image lm' d'))" using n by (simp add: drop_take min_absorb1)
  finally show ?thesis using assms b unfolding recorded_def by auto
qed

lemma recorded_same_ends:
  assumes "log_step_ok lm d lm' d' \<and> same_ends lm lm'"
  shows "log_inv lm' d' \<and> (recorded lm d l bs \<longrightarrow> recorded lm' d' l bs)"
  using assms recorded_kept [of lm d l bs lm' d'] unfolding log_step_ok_def same_ends_def by simp

lemma recorded_mark:
  assumes i: "log_inv lm d" and c: "record_end_offsets lm c \<noteq> None" "c \<le> persist_lsn lm" and r: "recorded lm d l bs"
  shows "recorded (MarkDurablePrefix lm c) d l bs"
proof (rule recorded_kept [OF r])
  let ?lm = "MarkDurablePrefix lm c"
  note ok = MarkDurablePrefix_inv [OF i c(2)]
  show "global_lsn lm \<le> global_lsn ?lm" "take (nat (global_lsn lm)) (log_image ?lm d) = log_image lm d"
    using ok by (simp_all add: log_step_ok_def)
  show "durable_prefix_lsn lm \<le> durable_prefix_lsn ?lm" by (simp add: MarkDurablePrefix_def)
  have "l < c \<Longrightarrow> record_end_offsets lm l = Some e \<Longrightarrow> e \<le> c" for e
    using log_inv_ends [OF i] c(1) unfolding ends_ok_def by blast
  then show "record_end_offsets lm l = Some (l + int (length bs)) \<longrightarrow>
      record_end_offsets ?lm l = Some (l + int (length bs)) \<or> l + int (length bs) \<le> durable_prefix_lsn ?lm"
    by (auto simp: MarkDurablePrefix_def)
qed

lemma write_page_log_file:
  assumes "log_disk_ok d" and "write_page d f p data = (q, d')" and "os_fds (os d) f \<noteq> Some LOG_FILE_NAME"
  shows "log_disk_ok d' \<and> log_file d' = log_file d"
proof -
  have "disk_inv d'" using disk_inv_write_page [of d f p data] assms(1,2) by (simp add: log_disk_ok_def)
  moreover have "os_fds (os d') = os_fds (os d)" "os_files (os d') LOG_FILE_NAME = os_files (os d) LOG_FILE_NAME" "log_fd d' = log_fd d"
    using assms(2,3) by (auto simp: write_page_def os_pwrite_def Let_def split: if_splits option.splits)
  ultimately show ?thesis using assms(1) by (simp add: log_disk_ok_def log_file_def is_file_def)
qed

lemma log_inv_same_log:
  assumes "log_inv lm d" and "log_disk_ok d'" and "log_file d' = log_file d"
  shows "log_inv lm d' \<and> log_image lm d' = log_image lm d"
proof -
  have "batch_ok lm d' = batch_ok lm d" unfolding batch_ok_def assms(3) by (rule refl)
  then show ?thesis using assms unfolding log_inv_def log_image_def by auto
qed

lemma wal_step_ok:
  assumes "wal_step s s'" and "log_inv (fst s) (snd s)"
  shows "log_inv (fst s') (snd s') \<and> (recorded (fst s) (snd s) l bs \<longrightarrow> recorded (fst s') (snd s') l bs)"
  using assms
proof (induction rule: wal_step.induct)
  case (append lm d r q s')
  obtain lm1 d1 where s': "s' = (lm1, d1)" by fastforce
  have i: "log_inv lm d" using append.prems by simp
  have ok: "log_step_ok lm d lm1 d1" "durable_prefix_lsn lm1 = durable_prefix_lsn lm"
    "\<forall>s e. record_end_offsets lm s = Some e \<longrightarrow> record_end_offsets lm1 s = Some e"
    using add_log_wf [OF i append.hyps(2,2,3)] append.hyps(1) s' by blast+
  then have "recorded lm d l bs \<Longrightarrow> recorded lm1 d1 l bs"
    by (intro recorded_kept [of lm d l bs lm1 d1]) (simp_all add: log_step_ok_def)
  then show ?case using ok(1) s' by (simp add: log_step_ok_def)
next
  case (mark lm c d)
  have i: "log_inv lm d" using mark.prems by simp
  show ?case using MarkDurablePrefix_inv [OF i mark.hyps(2)] recorded_mark [OF i mark.hyps]
    by (simp add: log_step_ok_def)
next
  case (page_write d f p data q d' lm)
  have i: "log_inv lm d" using page_write.prems by simp
  note w = write_page_log_file [OF log_inv_bounds(6) [OF i] page_write.hyps]
  have "log_inv lm d' \<and> log_image lm d' = log_image lm d" using log_inv_same_log [OF i] w by blast
  then show ?case by (simp add: recorded_def)
next
  case (flush lm d t q s')
  then have i: "log_inv lm d" by simp
  obtain lm1 d1 where s': "s' = (lm1, d1)" by fastforce
  have "log_step_ok lm d lm1 d1 \<and> same_ends lm lm1" using RequestFlushAndWait_ok [OF i] flush.hyps s' by blast
  then show ?case unfolding s' fst_conv snd_conv by (rule recorded_same_ends)
next
  case (flush_up_to lm d t q s')
  then have i: "log_inv lm d" by simp
  obtain lm1 d1 where s': "s' = (lm1, d1)" by fastforce
  have "log_step_ok lm d lm1 d1 \<and> same_ends lm lm1" using FlushUpTo_ok [OF i] flush_up_to.hyps s' by blast
  then show ?case unfolding s' fst_conv snd_conv by (rule recorded_same_ends)
next
  case (flush_pages lm d t q s')
  then have i: "log_inv lm d" by simp
  obtain lm1 d1 where s': "s' = (lm1, d1)" by fastforce
  have "log_step_ok lm d lm1 d1 \<and> same_ends lm lm1" using FlushPageLsns_ok [OF i] flush_pages.hyps s' by blast
  then show ?case unfolding s' fst_conv snd_conv by (rule recorded_same_ends)
next
  case (thread_write lm d q s')
  then have i: "log_inv lm d" by simp
  obtain lm1 d1 where s': "s' = (lm1, d1)" by fastforce
  have "log_step_ok lm d lm1 d1 \<and> same_ends lm lm1" using flush_thread_write_ok [OF i] thread_write.hyps s' by blast
  then show ?case unfolding s' fst_conv snd_conv by (rule recorded_same_ends)
next
  case (swap lm lm' d)
  then show ?case unfolding fst_conv snd_conv
    by (intro recorded_same_ends flush_thread_swap_ok [of lm d lm']) simp_all
next
  case (finish lm lm' d)
  then show ?case unfolding fst_conv snd_conv
    by (intro recorded_same_ends flush_thread_finish_ok [of lm d lm']) simp_all
next
  case (start lm d)
  then show ?case unfolding fst_conv snd_conv
    by (intro recorded_same_ends start_stop_ok [of lm d "StartFlushThread lm"]) simp_all
next
  case (stop lm d)
  then show ?case unfolding fst_conv snd_conv
    by (intro recorded_same_ends start_stop_ok [of lm d "snd (StopFlushThread lm)"]) simp_all
qed

lemma wal_steps_ok:
  assumes "wal_step\<^sup>*\<^sup>* s s'" and "log_inv (fst s) (snd s)"
  shows "log_inv (fst s') (snd s') \<and> (recorded (fst s) (snd s) l bs \<longrightarrow> recorded (fst s') (snd s') l bs)"
  using assms by (induction rule: rtranclp_induct) (auto dest: wal_step_ok)

lemma log_inv_new: "log_disk_ok d \<Longrightarrow> log_inv LogManager_new d"
  by (simp add: log_inv_def LogManager_new_def batch_ok_def lb_reset_def lb_offset_def ends_ok_def)

text \<open>Bytes of the image below the durable end are bytes of the file.\<close>

lemma recorded_durable:
  assumes i: "log_inv lm d" and r: "recorded lm d l bs" and p: "l + int (length bs) \<le> persist_lsn lm"
  shows "\<exists>rest. drop (nat l) (log_file d) = bs @ rest"
proof -
  let ?t = "take (nat (persist_lsn lm)) (log_file d)"
  have l0: "0 \<le> l" using r by (simp add: recorded_def)
  have len: "length ?t = nat (persist_lsn lm)" using log_inv_bounds(3) [OF i] by simp
  have n: "nat l + length bs \<le> nat (persist_lsn lm)" using p l0 by linarith
  have "bs = take (length bs) (drop (nat l) (log_image lm d))" using r by (simp add: recorded_def)
  also have "\<dots> = take (length bs) (drop (nat l) ?t)"
    unfolding log_image_def using len n by simp
  also have "\<dots> = take (length bs) (drop (nat l) (log_file d))" using n by (simp add: drop_take min_absorb1)
  finally show ?thesis by (metis append_take_drop_id)
qed

text \<open>
  C8. Durability of the write-ahead log. Append a record, let any interleaving of appends,
  flushes, flush-thread turns, checkpoints and page writes happen, and call \<open>FlushUpTo\<close> with
  the LSN of the record: if that call returns, the log file holds the record at that offset and
  it deserialises to exactly the record that was appended (with its LSN).
\<close>

theorem flushed_record_is_durable:
  assumes "log_inv lm d" and "wf_log_record r" and "global_lsn lm + log_tot_len r < 2 ^ 31"
    and "add_log_to_buffer lm d r = (Ret l, lm1, d1)" and "wal_step\<^sup>*\<^sup>* (lm1, d1) (lm2, d2)"
    and "FlushUpTo lm2 d2 l = (Ret u, lm3, d3)"
  shows "l + log_tot_len r \<le> persist_lsn lm3 \<and>
    DeserializeLogRecord (drop (nat l) (log_file d3)) = Parsed (r\<lparr>lsn := l\<rparr>)"
proof -
  let ?r = "r\<lparr>lsn := l\<rparr>" and ?n = "log_tot_len r"
  note add = add_log_wf [OF assms(1,2,2,3,4)]
  have l: "l = global_lsn lm" "record_end_offsets lm1 l = Some (l + ?n)" "log_image lm1 d1 = log_image lm d @ serialize ?r"
    and i1: "log_inv lm1 d1" using add by (auto simp: log_step_ok_def)
  have n: "int (length (serialize ?r)) = ?n" using length_serialize_lsn [OF assms(2)] .
  have g1: "global_lsn lm1 = l + ?n" using length_log_image [OF i1] length_log_image [OF assms(1)] l n by simp
  have l0: "0 \<le> l" "l < 2 ^ 31" using log_inv_bounds [OF assms(1)] l(1) by simp_all
  have "recorded lm1 d1 l (serialize ?r)"
    using l n g1 l0 length_log_image [OF assms(1)] by (auto simp: recorded_def)
  with wal_steps_ok [OF assms(5)] i1 have i2: "log_inv lm2 d2" and r2: "recorded lm2 d2 l (serialize ?r)" by simp_all
  note fl = FlushUpTo_ok [OF i2 assms(6)]
  then have i3: "log_inv lm3 d3" and r3: "recorded lm3 d3 l (serialize ?r)"
    using recorded_same_ends [of lm2 d2 lm3 d3] r2 by blast+
  have p: "l + ?n \<le> persist_lsn lm3"
  proof (cases "l + ?n \<le> durable_prefix_lsn lm3")
    case True
    then show ?thesis using log_inv_bounds(5) [OF i3] by linarith
  next
    case False
    then have "record_end_offsets lm2 l = Some (l + ?n)" using r2 n fl by (auto simp: recorded_def same_ends_def)
    moreover have "\<not> l < durable_prefix_lsn lm2"
      using log_inv_ends [OF i2] calculation unfolding ends_ok_def by fastforce
    ultimately show ?thesis using fl l0 by auto
  qed
  obtain rest where "drop (nat l) (log_file d3) = serialize ?r @ rest"
    using recorded_durable [OF i3 r3] p n by auto
  moreover have "wf_log_record ?r" using assms(2) l0 by (auto simp: wf_log_record_def in_i_def)
  ultimately show ?thesis using p deserialize_serialize by simp
qed

text \<open>An example: one record, written by the flush thread while the client waits.\<close>

definition os_log_ex :: os_state where
  "os_log_ex = \<lparr>os_files = [LOG_FILE_NAME \<mapsto> []], os_fds = Map.empty, os_max_fd = 5, os_short = (\<lambda>_ _. None)\<rparr>"

definition wal_ex :: "log_manager \<times> disk" where
  "wal_ex = snd (add_log_to_buffer LogManager_new (DiskManager_new os_log_ex) (BeginLogRecord 7))"

definition wal_ex_swapped :: log_manager where
  "wal_ex_swapped = the (flush_thread_swap (StartFlushThread (fst wal_ex)))"

definition wal_ex_written :: "log_manager \<times> disk" where
  "wal_ex_written = snd (flush_thread_write wal_ex_swapped (snd wal_ex))"

definition wal_ex_done :: "log_manager \<times> disk" where
  "wal_ex_done = (the (flush_thread_finish (fst wal_ex_written)), snd wal_ex_written)"

lemma log_disk_ok_ex: "log_disk_ok (DiskManager_new os_log_ex)"
  by (simp add: log_disk_ok_def disk_inv_def DiskManager_new_def os_log_ex_def is_file_def)

definition begin_ex :: "byte list" where
  "begin_ex = serialize ((BeginLogRecord 7)\<lparr>lsn := 0\<rparr>)"

lemma length_begin_ex: "length begin_ex = 24"
  by (simp add: begin_ex_def serialize_def length_serialize_header BeginLogRecord_def new_log_record_def log_offsets)

lemma wal_ex_append:
  "add_log_to_buffer LogManager_new (DiskManager_new os_log_ex) (BeginLogRecord 7) = (Ret 0, wal_ex)"
  "wal_ex = (\<lparr>global_lsn = 24, persist_lsn = 0, active_buffer = \<lparr>buffer = begin_ex, base_offset = 0\<rparr>,
     flush_buffer = lb_reset 0, record_end_offsets = [0 \<mapsto> 24], durable_prefix_lsn = 0, flush_thread_started = False,
     stop_flush_thread = False, flush_pc = FIdle\<rparr>, DiskManager_new os_log_ex)"
  by (simp_all add: wal_ex_def add_log_to_buffer_def LogManager_new_def BeginLogRecord_def new_log_record_def log_offsets
      is_full_def lb_reset_def lb_offset_def Let_def LOG_BUFFER_SIZE_def PAGE_SIZE_def begin_ex_def)

lemma write_log_ex: "\<exists>d. write_log (DiskManager_new os_log_ex) begin_ex 0 = (Ret (), d)"
  by (simp add: write_log_def ensure_log_fd_def open_file_def DiskManager_new_def os_log_ex_def is_file_def
      os_alloc_fd_def upt_rec os_pwrite_def Let_def length_begin_ex)

lemma wal_ex_eqs:
  "flush_thread_swap (StartFlushThread (fst wal_ex)) = Some wal_ex_swapped"
  "flush_thread_finish (fst wal_ex_written) = Some (fst wal_ex_done)"
  "fst (FlushUpTo (fst wal_ex_done) (snd wal_ex_done) 0) = Ret ()"
proof -
  show sw: "flush_thread_swap (StartFlushThread (fst wal_ex)) = Some wal_ex_swapped"
    by (simp add: wal_ex_swapped_def wal_ex_append flush_thread_swap_def StartFlushThread_def lb_offset_def length_begin_ex)
  obtain d where d: "write_log (DiskManager_new os_log_ex) begin_ex 0 = (Ret (), d)" using write_log_ex by blast
  have wr: "fst wal_ex_written = wal_ex_swapped\<lparr>flush_pc := FWritten 0 24\<rparr>"
    using d by (simp add: wal_ex_written_def wal_ex_swapped_def wal_ex_append flush_thread_swap_def StartFlushThread_def
        flush_thread_write_def lb_offset_def length_begin_ex Let_def)
  then show fin: "flush_thread_finish (fst wal_ex_written) = Some (fst wal_ex_done)"
    by (simp add: wal_ex_done_def flush_thread_finish_def)
  have "durable_prefix_lsn (fst wal_ex_done) = 0" "record_end_offsets (fst wal_ex_done) 0 = Some 24"
    "persist_lsn (fst wal_ex_done) = 24"
    using wr by (simp_all add: wal_ex_done_def wal_ex_swapped_def flush_thread_finish_def flush_thread_swap_def
        StartFlushThread_def wal_ex_append lb_offset_def length_begin_ex Let_def)
  then show "fst (FlushUpTo (fst wal_ex_done) (snd wal_ex_done) 0) = Ret ()"
    by (simp add: FlushUpTo_def RequestFlushAndWait_def)
qed

lemma wal_ex_steps: "wal_step\<^sup>*\<^sup>* wal_ex wal_ex_done"
proof -
  obtain lm d where w: "wal_ex = (lm, d)" by fastforce
  have "wal_step wal_ex (StartFlushThread lm, d)" unfolding w by (rule wal_step.start)
  moreover have "flush_thread_swap (StartFlushThread lm) = Some wal_ex_swapped"
    using wal_ex_eqs(1) by (simp add: w)
  then have "wal_step (StartFlushThread lm, d) (wal_ex_swapped, d)" by (rule wal_step.swap)
  moreover have "wal_step (wal_ex_swapped, d) wal_ex_written"
    by (rule wal_step.thread_write [of _ _ "fst (flush_thread_write wal_ex_swapped d)"]) (simp add: wal_ex_written_def w)
  moreover have "flush_thread_finish (fst wal_ex_written) = Some (fst wal_ex_done)"
    by (rule wal_ex_eqs(2))
  then have "wal_step (fst wal_ex_written, snd wal_ex_written) (fst wal_ex_done, snd wal_ex_written)" by (rule wal_step.finish)
  then have "wal_step wal_ex_written wal_ex_done" by (simp add: wal_ex_done_def)
  ultimately show ?thesis by (meson converse_rtranclp_into_rtranclp rtranclp.rtrancl_refl)
qed

theorem flushed_record_is_durable_witness:
  "DeserializeLogRecord (drop 0 (log_file (snd (snd (FlushUpTo (fst wal_ex_done) (snd wal_ex_done) 0)))))
   = Parsed ((BeginLogRecord 7)\<lparr>lsn := 0\<rparr>)"
proof -
  obtain lm3 d3 where f: "FlushUpTo (fst wal_ex_done) (snd wal_ex_done) 0 = (Ret (), lm3, d3)"
    using wal_ex_eqs(3) by (metis prod.collapse)
  have wf: "wf_log_record (BeginLogRecord 7)"
    by (simp add: wf_log_record_def BeginLogRecord_def new_log_record_def log_offsets in_i_def in_u_def)
  have fits: "global_lsn LogManager_new + log_tot_len (BeginLogRecord 7) < 2 ^ 31"
    by (simp add: LogManager_new_def BeginLogRecord_def new_log_record_def log_offsets)
  have add: "add_log_to_buffer LogManager_new (DiskManager_new os_log_ex) (BeginLogRecord 7) = (Ret 0, fst wal_ex, snd wal_ex)"
    using wal_ex_append(1) by simp
  have st: "wal_step\<^sup>*\<^sup>* (fst wal_ex, snd wal_ex) (fst wal_ex_done, snd wal_ex_done)" using wal_ex_steps by simp
  show ?thesis
    using flushed_record_is_durable [OF log_inv_new [OF log_disk_ok_ex] wf fits add st f] f by simp
qed

end
