(* ===== verification/Rmdb_Log_Scan.thy ===== *)
theory Rmdb_Log_Scan
  imports Rmdb_Log_Manager
begin

text \<open>
  Reading the log back at start-up: the restart file (\<open>WriteRestartFile\<close>, \<open>TryReadRestartFile\<close> of
  \<^verbatim>\<open>src/src/recovery/log_manager.cpp\<close> and \<open>ReadRestartCheckpoint\<close> of
  \<^verbatim>\<open>log_recovery.cpp\<close>), \<open>LogManager::init_from_disk\<close> and \<open>RecoveryManager::analyze\<close>.
  Sums of offsets are mathematical integers. A record whose
  length field is at least \<open>2 ^ 31\<close> becomes negative in \<open>static_cast<int>(total_len)\<close>; what the
  scan does then (it moves backwards) is not modelled, the scans end with an error there.
\<close>

subsection \<open>The restart file\<close>

definition RESTART_FILE_NAME :: string where "RESTART_FILE_NAME = ''db.restart''"

definition RESTART_TMP_NAME :: string where "RESTART_TMP_NAME = RESTART_FILE_NAME @ ''.tmp''"

definition digit :: "nat \<Rightarrow> char" where
  "digit n = char_of (48 + n)"

fun dec_digits :: "nat \<Rightarrow> string" where
  "dec_digits n = (if n < 10 then [digit n] else dec_digits (n div 10) @ [digit (n mod 10)])"

declare dec_digits.simps [simp del]

definition to_string :: "int \<Rightarrow> string" where
  "to_string x = (if x < 0 then CHR ''-'' # dec_digits (nat (- x)) else dec_digits (nat x))"

definition is_digit :: "char \<Rightarrow> bool" where
  "is_digit c \<longleftrightarrow> (48::nat) \<le> of_char c \<and> of_char c \<le> (57::nat)"

definition dec_val :: "string \<Rightarrow> nat" where
  "dec_val = foldl (\<lambda>v c. 10 * v + (of_char c - 48)) 0"

text \<open>\<open>std::stoll\<close> on a string of digits; it throws above the range of \<open>long long\<close>.\<close>

definition stoll :: "string \<Rightarrow> int option" where
  "stoll s = (if int (dec_val s) < 2 ^ 63 then Some (int (dec_val s)) else None)"

definition restart_line :: "disk \<Rightarrow> string option" where
  "restart_line d = (case os_files (os d) RESTART_FILE_NAME of
     None \<Rightarrow> None
   | Some c \<Rightarrow> (let line = takeWhile (\<lambda>ch. ch \<noteq> char_of (10::nat)) (map byte_char c);
                   value = (if take 15 line = ''checkpoint_lsn='' then drop 15 line else line)
               in if value = [] \<or> (\<exists>ch \<in> set value. \<not> is_digit ch) then None else Some value))"

definition TryReadRestartFile :: "disk \<Rightarrow> lsn_t option" where
  "TryReadRestartFile d = do { value \<leftarrow> restart_line d; parsed \<leftarrow> stoll value;
     if parsed < 0 \<or> parsed > 2 ^ 31 - 1 then None else Some parsed }"

definition ReadRestartFile :: "disk \<Rightarrow> lsn_t option" where
  "ReadRestartFile d = TryReadRestartFile d"

definition ReadRestartCheckpoint :: "disk \<Rightarrow> lsn_t option" where
  "ReadRestartCheckpoint d = do { value \<leftarrow> restart_line d; parsed \<leftarrow> stoll value;
     if i32 parsed \<ge> 0 then Some (i32 parsed) else None }"

text \<open>The loop of \<open>write\<close> calls; \<open>False\<close> when one of them accepts nothing.\<close>

function write_loop :: "os_state \<Rightarrow> int \<Rightarrow> byte list \<Rightarrow> nat \<Rightarrow> bool \<times> os_state" where
  "write_loop o0 f payload total_written =
     (if total_written < length payload
      then let (written, o1) = os_pwrite o0 f (drop total_written payload) (int total_written)
        in if written \<le> 0 then (False, o1) else write_loop o1 f payload (total_written + nat written)
      else (True, o0))"
  by pat_completeness auto

termination
  by (relation "measure (\<lambda>(o0, f, payload, t). length payload - t)") auto

declare write_loop.simps [simp del]

definition WriteRestartFile :: "disk \<Rightarrow> lsn_t \<Rightarrow> unit outcome \<times> disk" where
  "WriteRestartFile d checkpoint_lsn =
     (let payload = map char_byte (to_string checkpoint_lsn @ [char_of (10::nat)])
      in case os_alloc_fd (os d) of
           None \<Rightarrow> (Throw UnixError, d)
         | Some f \<Rightarrow>
             (let o1 = (os d)\<lparr>os_files := (os_files (os d))(RESTART_TMP_NAME \<mapsto> []),
                              os_fds := (os_fds (os d))(f \<mapsto> RESTART_TMP_NAME)\<rparr>;
                  (ok, o2) = write_loop o1 f payload 0;
                  o3 = o2\<lparr>os_fds := (os_fds o2)(f := None)\<rparr>
              in if \<not> ok then (Throw UnixError, d\<lparr>os := o3\<rparr>)
                 else (Ret (), d\<lparr>os := o3\<lparr>os_files := (os_files o3)(RESTART_FILE_NAME := os_files o3 RESTART_TMP_NAME,
                                                        RESTART_TMP_NAME := None)\<rparr>\<rparr>)))"

lemma write_loop_spec:
  assumes "os_fds o0 f = Some p" and "os_files o0 p = Some (take t payload)" and "t \<le> length payload"
    and "write_loop o0 f payload t = (ok, o1)"
  shows "os_fds o1 = os_fds o0 \<and> (\<forall>q. q \<noteq> p \<longrightarrow> os_files o1 q = os_files o0 q) \<and> (ok \<longrightarrow> os_files o1 p = Some payload)"
  using assms
proof (induction o0 f payload t rule: write_loop.induct)
  case (1 o0 f payload t)
  show ?case
  proof (cases "t < length payload")
    case False
    then show ?thesis using 1(2-) by (simp add: write_loop.simps [of o0])
  next
    case True
    define k where "k = (case os_short o0 f t of None \<Rightarrow> length (drop t payload) | Some k \<Rightarrow> min k (length (drop t payload)))"
    define o2 where "o2 = o0\<lparr>os_files := (os_files o0)(p \<mapsto> take (t + k) payload)\<rparr>"
    have "splice_at (take t payload) t (take k (drop t payload)) = take (t + k) payload"
      using True by (simp add: splice_at_def take_add)
    then have w: "os_pwrite o0 f (drop t payload) (int t) = (int k, o2)"
      using 1(2,3) by (simp add: os_pwrite_def k_def o2_def Let_def)
    have k: "t + k \<le> length payload" using True by (auto simp: k_def min_def split: option.splits)
    show ?thesis
    proof (cases "k = 0")
      case True
      then show ?thesis using 1(5) w \<open>t < length payload\<close> by (auto simp: write_loop.simps [of o0] o2_def)
    next
      case False
      have "write_loop o2 f payload (t + k) = (ok, o1)"
        using 1(5) w True False by (simp add: write_loop.simps [of o0])
      then have "os_fds o1 = os_fds o2 \<and> (\<forall>q. q \<noteq> p \<longrightarrow> os_files o1 q = os_files o2 q) \<and> (ok \<longrightarrow> os_files o1 p = Some payload)"
        using 1(1) [OF True w [symmetric] refl] False 1(2) k by (simp add: o2_def)
      then show ?thesis by (simp add: o2_def)
    qed
  qed
qed

lemma dec_digits_all: "c \<in> set (dec_digits n) \<Longrightarrow> is_digit c"
proof (induction n rule: dec_digits.induct)
  case (1 n)
  have d: "k < 10 \<Longrightarrow> is_digit (digit k)" for k
    by (simp add: is_digit_def digit_def)
  show ?case
  proof (cases "n < 10")
    case True
    then show ?thesis using 1(2) d by (simp add: dec_digits.simps [of n])
  next
    case False
    then show ?thesis using 1 d [of "n mod 10"] by (auto simp: dec_digits.simps [of n])
  qed
qed

lemma dec_val_digits: "dec_val (dec_digits n) = n"
proof (induction n rule: dec_digits.induct)
  case (1 n)
  then show ?case by (simp add: dec_val_def dec_digits.simps [of n] digit_def)
qed

lemma dec_digits_nonempty: "dec_digits n \<noteq> []"
  by (simp add: dec_digits.simps [of n])

lemma takeWhile_digits:
  "takeWhile (\<lambda>ch. ch \<noteq> char_of (10::nat)) (dec_digits n @ [char_of (10::nat)]) = dec_digits n"
proof -
  have "\<forall>c \<in> set (dec_digits n). c \<noteq> char_of (10::nat)"
    using dec_digits_all by (force simp: is_digit_def)
  then show ?thesis by (simp add: takeWhile_append2)
qed

lemma dec_digits_no_prefix: "take 15 (dec_digits n) \<noteq> ''checkpoint_lsn=''"
proof
  assume "take 15 (dec_digits n) = ''checkpoint_lsn=''"
  then have "CHR ''c'' \<in> set (dec_digits n)" by (metis in_set_takeD list.set_intros(1))
  then have "is_digit CHR ''c''" by (rule dec_digits_all)
  then show False by (simp add: is_digit_def of_char_def)
qed

lemma restart_line_written:
  assumes "os_files (os d) RESTART_FILE_NAME = Some (map char_byte (dec_digits n @ [char_of (10::nat)]))"
  shows "restart_line d = Some (dec_digits n)"
proof -
  have "map byte_char (map char_byte (dec_digits n @ [char_of (10::nat)])) = dec_digits n @ [char_of (10::nat)]"
    by (simp add: comp_def)
  then show ?thesis unfolding restart_line_def assms option.case Let_def
    using dec_digits_all dec_digits_nonempty dec_digits_no_prefix
    by (simp only: takeWhile_digits) auto
qed



subsection \<open>Scanning the log\<close>

definition neg_len_error :: db_error where
  "neg_len_error = InternalError ''total_len is negative as an int''"

text \<open>The checkpoint record the restart file names, if it is one: the same code in both scans.\<close>

definition checkpoint_at :: "int \<Rightarrow> lsn_t \<Rightarrow> disk \<Rightarrow> log_record option outcome \<times> disk" where
  "checkpoint_at file_size restart_lsn d =
     (if restart_lsn < 0 \<or> restart_lsn + int LOG_HEADER_SIZE > file_size then (Ret None, d)
      else obind (\<lambda>d. read_log d LOG_HEADER_SIZE restart_lsn) (\<lambda>header d.
        case header of
          None \<Rightarrow> (Ret None, d)
        | Some h \<Rightarrow>
            if length h \<noteq> LOG_HEADER_SIZE \<or> read_tot_len h < int LOG_HEADER_SIZE then (Ret None, d)
            else if read_tot_len h \<ge> 2 ^ 31 then (Throw neg_len_error, d)
            else if restart_lsn + read_tot_len h > file_size then (Ret None, d)
            else obind (\<lambda>d. read_log d (nat (read_tot_len h)) restart_lsn) (\<lambda>raw d.
              case raw of
                None \<Rightarrow> (Ret None, d)
              | Some bs \<Rightarrow>
                  (case DeserializeLogRecord bs of
                     Null \<Rightarrow> (Ret None, d)
                   | OutOfBounds \<Rightarrow> (Throw (InternalError ''out of bounds read''), d)
                   | Parsed r \<Rightarrow>
                       if int (length bs) = read_tot_len h \<and> lsn r = restart_lsn \<and> rec_type r = CHECKPOINT
                       then (Ret (Some r), d) else (Ret None, d))) d) d)"

text \<open>The loop of \<open>init_from_disk\<close>: it follows the length fields and records where each record ends.\<close>

function scan_ends :: "int \<Rightarrow> int \<Rightarrow> (lsn_t \<rightharpoonup> lsn_t) \<Rightarrow> disk \<Rightarrow> (int \<times> (lsn_t \<rightharpoonup> lsn_t)) outcome \<times> disk" where
  "scan_ends file_size offset ends d =
     (if offset + int LOG_HEADER_SIZE > file_size then (Ret (offset, ends), d)
      else obind (\<lambda>d. read_log d LOG_HEADER_SIZE offset) (\<lambda>header d.
        case header of
          None \<Rightarrow> (Ret (offset, ends), d)
        | Some h \<Rightarrow>
            if length h \<noteq> LOG_HEADER_SIZE \<or> read_tot_len h < int LOG_HEADER_SIZE then (Ret (offset, ends), d)
            else if read_tot_len h \<ge> 2 ^ 31 then (Throw neg_len_error, d)
            else if offset + read_tot_len h > file_size then (Ret (offset, ends), d)
            else scan_ends file_size (offset + read_tot_len h) (ends(offset \<mapsto> offset + read_tot_len h)) d) d)"
  by pat_completeness auto

termination
  by (relation "measure (\<lambda>(file_size, offset, ends, d). nat (file_size - offset))") (auto simp: log_offsets)

declare scan_ends.simps [simp del]

definition reset_log :: "log_manager \<Rightarrow> lsn_t \<Rightarrow> log_manager" where
  "reset_log lm offset = lm\<lparr>global_lsn := offset, persist_lsn := offset, active_buffer := lb_reset offset,
     flush_buffer := lb_reset offset\<rparr>"

definition init_from_disk :: "log_manager \<Rightarrow> disk \<Rightarrow> log_manager outcome \<times> disk" where
  "init_from_disk lm d =
     (let lm0 = lm\<lparr>record_end_offsets := Map.empty, durable_prefix_lsn := 0\<rparr>;
          file_size = get_file_size d LOG_FILE_NAME
      in if file_size < 0 then (Ret (reset_log lm0 0), d)
         else obind (\<lambda>d. case TryReadRestartFile d of None \<Rightarrow> (Ret None, d) | Some l \<Rightarrow> checkpoint_at file_size l d)
           (\<lambda>cp d. let start = (case cp of None \<Rightarrow> 0 | Some r \<Rightarrow> lsn r)
              in obind (scan_ends file_size start Map.empty)
                   (\<lambda>res d. (Ret (reset_log (lm0\<lparr>durable_prefix_lsn := start, record_end_offsets := snd res\<rparr>) (fst res)), d)) d) d)"

text \<open>What \<open>analyze\<close> computes; \<open>analyze_record\<close> is the body of its loop after a record was read.\<close>

record analysis =
  logs :: "log_record list"
  logs_by_txn :: "txn_id_t \<Rightarrow> log_record list"
  committed_txns :: "txn_id_t \<rightharpoonup> timestamp_t"
  max_txn_id :: txn_id_t
  max_commit_ts :: timestamp_t
  max_next_timestamp :: timestamp_t
  scan_start_lsn :: lsn_t
  restart_checkpoint_valid :: bool

definition analysis_empty :: analysis where
  "analysis_empty = \<lparr>logs = [], logs_by_txn = (\<lambda>_. []), committed_txns = Map.empty, max_txn_id = INVALID_TXN_ID,
     max_commit_ts = 0, max_next_timestamp = 1, scan_start_lsn = 0, restart_checkpoint_valid = False\<rparr>"

definition analyze_counters :: "analysis \<Rightarrow> log_record \<Rightarrow> analysis" where
  "analyze_counters a r =
     (let a = a\<lparr>max_txn_id := max (max_txn_id a) (log_tid r)\<rparr>
      in case log_data r of
           CheckpointLog ntid nts lts dl \<Rightarrow>
             a\<lparr>max_txn_id := max (max_txn_id a) (ntid - 1), max_commit_ts := max (max_commit_ts a) lts,
               max_next_timestamp := max (max_next_timestamp a) nts\<rparr>
         | CommitLog ts \<Rightarrow>
             a\<lparr>committed_txns := (committed_txns a)(log_tid r \<mapsto> ts), max_commit_ts := max (max_commit_ts a) ts,
               max_next_timestamp := max (max_next_timestamp a) (ts + 1)\<rparr>
         | _ \<Rightarrow> a)"

definition analyze_record :: "analysis \<Rightarrow> log_record \<Rightarrow> analysis" where
  "analyze_record a r =
     (let a = analyze_counters a r;
          a = (if log_tid r \<noteq> INVALID_TXN_ID
               then a\<lparr>logs_by_txn := (logs_by_txn a)(log_tid r := logs_by_txn a (log_tid r) @ [r])\<rparr> else a)
      in a\<lparr>logs := logs a @ [r]\<rparr>)"

function analyze_loop :: "int \<Rightarrow> int \<Rightarrow> analysis \<Rightarrow> disk \<Rightarrow> analysis outcome \<times> disk" where
  "analyze_loop file_size offset a d =
     (if offset + int LOG_HEADER_SIZE > file_size then (Ret a, d)
      else obind (\<lambda>d. read_log d LOG_HEADER_SIZE offset) (\<lambda>header d.
        case header of
          None \<Rightarrow> (Ret a, d)
        | Some h \<Rightarrow>
            if length h \<noteq> LOG_HEADER_SIZE \<or> read_tot_len h < int LOG_HEADER_SIZE then (Ret a, d)
            else if read_tot_len h \<ge> 2 ^ 31 then (Throw neg_len_error, d)
            else if offset + read_tot_len h > file_size then (Ret a, d)
            else obind (\<lambda>d. read_log d (nat (read_tot_len h)) offset) (\<lambda>raw d.
              case raw of
                None \<Rightarrow> (Ret a, d)
              | Some bs \<Rightarrow>
                  if int (length bs) \<noteq> read_tot_len h then (Ret a, d)
                  else (case DeserializeLogRecord bs of
                     Null \<Rightarrow> (Ret a, d)
                   | OutOfBounds \<Rightarrow> (Throw (InternalError ''out of bounds read''), d)
                   | Parsed r \<Rightarrow>
                       if lsn r \<noteq> offset then (Ret a, d)
                       else analyze_loop file_size (offset + read_tot_len h) (analyze_record a r) d)) d) d)"
  by pat_completeness auto

termination
  by (relation "measure (\<lambda>(file_size, offset, a, d). nat (file_size - offset))") (auto simp: log_offsets)

declare analyze_loop.simps [simp del]

definition analyze :: "disk \<Rightarrow> analysis outcome \<times> disk" where
  "analyze d =
     (let file_size = get_file_size d LOG_FILE_NAME
      in if file_size \<le> 0 then (Ret analysis_empty, d)
         else obind (\<lambda>d. case ReadRestartCheckpoint d of None \<Rightarrow> (Ret None, d) | Some l \<Rightarrow> checkpoint_at file_size l d)
           (\<lambda>cp d. let a = (case cp of
                       None \<Rightarrow> analysis_empty
                     | Some r \<Rightarrow> (let s = durable_lsn (log_data r);
                                     start = (if s < 0 \<or> s > lsn r \<or> s + int LOG_HEADER_SIZE > file_size then lsn r else s)
                                 in analysis_empty\<lparr>scan_start_lsn := start, restart_checkpoint_valid := True\<rparr>))
              in analyze_loop file_size (scan_start_lsn a) a d) d)"

subsection \<open>What the scans find\<close>

lemma read_log_ok:
  assumes "log_disk_ok d" and "0 \<le> off" and "off < int (length (log_file d))" and "read_log d n off = (r, d1)"
  shows "log_disk_ok d1 \<and> log_file d1 = log_file d \<and> r \<noteq> Wait
    \<and> (is_Ret r \<longrightarrow> r = Ret (Some (take n (drop (nat off) (log_file d)))))
    \<and> (log_fd d \<noteq> - 1 \<longrightarrow> d1 = d \<and> is_Ret r)"
proof -
  obtain q d2 where e: "ensure_log_fd d = (q, d2)" by (cases "ensure_log_fd d")
  note ok = ensure_log_fd_ok [OF assms(1) e]
  have same: "log_file d2 = log_file d" using ok by (simp add: log_file_def)
  have opened: "log_fd d \<noteq> - 1 \<Longrightarrow> d2 = d \<and> q = Ret ()" using e by (simp add: ensure_log_fd_def)
  show ?thesis
  proof (cases q)
    case (Ret u)
    obtain c where c: "os_files (os d2) LOG_FILE_NAME = Some c" using ok by (auto simp: log_disk_ok_def is_file_def)
    then have lf: "log_file d = c" using same by (simp add: log_file_def)
    have pr: "os_pread (os d2) (log_fd d2) m off = Some (take m (drop (nat off) c))" for m
      using ok Ret c assms(2) by (simp add: os_pread_def os_content_def)
    have gs: "get_file_size d2 LOG_FILE_NAME = int (length c)" using c by (simp add: get_file_size_def)
    have mn: "take (nat (min (int n) (int (length c) - off))) (drop (nat off) c) = take n (drop (nat off) c)"
      using assms(2,3) lf by (auto simp: min_def nat_diff_distrib)
    have "r = Ret (Some (take n (drop (nat off) c))) \<and> d1 = d2"
      using assms(2-4) e Ret gs lf mn by (auto simp: read_log_def Let_def pr split: if_splits)
    then show ?thesis using ok same lf opened by simp
  next
    case (Throw x)
    then have "d1 = d2" "r = Throw x" using assms(4) e by (auto simp: read_log_def)
    then show ?thesis using ok same opened Throw by auto
  qed (use ok in simp)
qed

lemma scan_ends_ok:
  assumes "log_disk_ok d" and "file_size = int (length (log_file d))" and "0 \<le> offset" "offset \<le> file_size"
    and "ends_ok ends p offset" and "p \<le> offset" and "scan_ends file_size offset ends d = (Ret res, d')"
  shows "log_disk_ok d' \<and> log_file d' = log_file d \<and> offset \<le> fst res \<and> fst res \<le> file_size \<and> ends_ok (snd res) p (fst res)"
  using assms
proof (induction file_size offset ends d rule: scan_ends.induct)
  case (1 file_size offset ends d)
  show ?case
  proof (cases "offset + int LOG_HEADER_SIZE > file_size")
    case True
    then have "scan_ends file_size offset ends d = (Ret (offset, ends), d)" by (simp add: scan_ends.simps [of file_size])
    then show ?thesis using 1(2-) by auto
  next
    case False
    obtain r d1 where rd: "read_log d LOG_HEADER_SIZE offset = (r, d1)" by fastforce
    have lt: "offset < file_size" using False by (simp add: log_offsets)
    note ok = read_log_ok [OF 1(2) 1(4) _ rd]
    have "is_Ret r"
    proof (rule ccontr)
      assume "\<not> is_Ret r"
      then show False
        using 1(8) rd unfolding scan_ends.simps [of file_size offset ends d] if_not_P [OF False] by (cases r) simp_all
    qed
    then have r: "r = Ret (Some (take LOG_HEADER_SIZE (drop (nat offset) (log_file d))))" "log_disk_ok d1" "log_file d1 = log_file d"
      using ok lt 1(3) by simp_all
    let ?h = "take LOG_HEADER_SIZE (drop (nat offset) (log_file d))" and ?n = "read_tot_len (take LOG_HEADER_SIZE (drop (nat offset) (log_file d)))"
    have eq: "scan_ends file_size offset ends d =
       (if length ?h \<noteq> LOG_HEADER_SIZE \<or> ?n < int LOG_HEADER_SIZE then (Ret (offset, ends), d1)
        else if ?n \<ge> 2 ^ 31 then (Throw neg_len_error, d1)
        else if offset + ?n > file_size then (Ret (offset, ends), d1)
        else scan_ends file_size (offset + ?n) (ends(offset \<mapsto> offset + ?n)) d1)"
      unfolding scan_ends.simps [of file_size offset ends d] if_not_P [OF False] using rd r(1) by simp
    show ?thesis
    proof (cases "length ?h \<noteq> LOG_HEADER_SIZE \<or> ?n < int LOG_HEADER_SIZE \<or> ?n \<ge> 2 ^ 31 \<or> offset + ?n > file_size")
      case True
      then show ?thesis using eq r(2,3) 1(4-8) by (auto split: if_splits)
    next
      case go: False
      have pos: "0 < ?n" using go by (simp add: log_offsets)
      have e: "ends_ok (ends(offset \<mapsto> offset + ?n)) p (offset + ?n)"
        using ends_ok_append(1) [OF 1(6) 1(4) pos 1(7)] .
      have "scan_ends file_size (offset + ?n) (ends(offset \<mapsto> offset + ?n)) d1 = (Ret res, d')"
        using go eq 1(8) by (auto split: if_splits)
      then have "log_disk_ok d' \<and> log_file d' = log_file d1 \<and> offset + ?n \<le> fst res \<and> fst res \<le> file_size \<and> ends_ok (snd res) p (fst res)"
        using 1(1) [OF False, of "Some ?h" d1 ?h] rd r go 1(3,4) 1(7) pos e by (simp del: fun_upd_apply)
      then show ?thesis using r(3) pos by simp
    qed
  qed
qed

lemma checkpoint_at_lsn:
  assumes "log_disk_ok d" and "file_size = int (length (log_file d))" and "checkpoint_at file_size l d = (Ret cp, d')"
  shows "log_disk_ok d' \<and> log_file d' = log_file d \<and> (\<forall>r. cp = Some r \<longrightarrow> lsn r = l \<and> 0 \<le> l \<and> l \<le> file_size)"
proof (cases "l < 0 \<or> l + int LOG_HEADER_SIZE > file_size")
  case True
  then show ?thesis using assms by (auto simp: checkpoint_at_def)
next
  case False
  obtain r d1 where rd: "read_log d LOG_HEADER_SIZE l = (r, d1)" by fastforce
  have lt: "l < file_size" "0 \<le> l" using False by (auto simp: log_offsets)
  note ok = read_log_ok [OF assms(1) lt(2) _ rd]
  obtain h where r: "r = Ret (Some h)" and d1: "log_disk_ok d1" "log_file d1 = log_file d"
    using ok lt(1) assms(2,3) rd False by (cases r) (auto simp: checkpoint_at_def)
  show ?thesis
  proof (cases "length h \<noteq> LOG_HEADER_SIZE \<or> read_tot_len h < int LOG_HEADER_SIZE \<or> read_tot_len h \<ge> 2 ^ 31 \<or> l + read_tot_len h > file_size")
    case True
    then show ?thesis using assms(3) False rd r d1 by (auto simp: checkpoint_at_def split: if_splits)
  next
    case go: False
    obtain r2 d2 where rd2: "read_log d1 (nat (read_tot_len h)) l = (r2, d2)" by fastforce
    note ok2 = read_log_ok [OF d1(1) lt(2) _ rd2]
    have d2: "log_disk_ok d2" "log_file d2 = log_file d1" using ok2 lt(1) assms(2) d1(2) by simp_all
    have "checkpoint_at file_size l d = obind (\<lambda>d. read_log d (nat (read_tot_len h)) l) (\<lambda>raw d.
              case raw of
                None \<Rightarrow> (Ret None, d)
              | Some bs \<Rightarrow>
                  (case DeserializeLogRecord bs of
                     Null \<Rightarrow> (Ret None, d)
                   | OutOfBounds \<Rightarrow> (Throw (InternalError ''out of bounds read''), d)
                   | Parsed r \<Rightarrow>
                       if int (length bs) = read_tot_len h \<and> lsn r = l \<and> rec_type r = CHECKPOINT
                       then (Ret (Some r), d) else (Ret None, d))) d1"
      using False go rd r by (simp add: checkpoint_at_def)
    then show ?thesis using assms(3) rd2 d1(2) d2 lt
      by (cases r2) (auto split: option.splits parse.splits if_splits)
  qed
qed


definition disk_log_ex :: "byte list \<Rightarrow> disk" where
  "disk_log_ex bs = \<lparr>os = \<lparr>os_files = [LOG_FILE_NAME \<mapsto> bs], os_fds = [3 \<mapsto> LOG_FILE_NAME], os_max_fd = 5, os_short = (\<lambda>_ _. None)\<rparr>,
     path2fd = [LOG_FILE_NAME \<mapsto> 3], fd2path = [3 \<mapsto> LOG_FILE_NAME], log_fd = 3, fd2pageno = (\<lambda>_. 0)\<rparr>"

lemma disk_log_ex_ok: "log_disk_ok (disk_log_ex bs)" "log_fd (disk_log_ex bs) \<noteq> - 1" "log_file (disk_log_ex bs) = bs"
    "restart_line (disk_log_ex bs) = None"
  by (auto simp: log_disk_ok_def disk_inv_def disk_log_ex_def is_file_def log_file_def restart_line_def
      LOG_FILE_NAME_def RESTART_FILE_NAME_def)


text \<open>A log of complete records \<open>rs\<close> from an offset on, and a torn last record.\<close>

fun log_at :: "int \<Rightarrow> log_record list \<Rightarrow> bool" where
  "log_at off [] = True"
| "log_at off (r # rs) = (wf_log_record r \<and> lsn r = off \<and> log_at (off + log_tot_len r) rs)"

definition log_bytes :: "log_record list \<Rightarrow> byte list" where
  "log_bytes rs = concat (map serialize rs)"

definition torn :: "byte list \<Rightarrow> bool" where
  "torn t \<longleftrightarrow> (\<exists>r k. wf_log_record r \<and> log_tot_len r < 2 ^ 31 \<and> k < length (serialize r) \<and> t = take k (serialize r))"

lemma log_bytes_simps [simp]: "log_bytes [] = []" "log_bytes (r # rs) = serialize r @ log_bytes rs"
  "log_bytes (rs @ ss) = log_bytes rs @ log_bytes ss"
  by (simp_all add: log_bytes_def)

lemma log_at_append: "log_at off (rs @ ss) \<longleftrightarrow> log_at off rs \<and> log_at (off + int (length (log_bytes rs))) ss"
  by (induction rs arbitrary: off) (auto simp: length_serialize add.assoc)

lemma read_tot_len_take: "LOG_HEADER_SIZE \<le> k \<Longrightarrow> read_tot_len (take k src) = read_tot_len src"
  by (simp add: read_tot_len_def log_offsets drop_take min_absorb1)

lemma serialize_header_len: "wf_log_record r \<Longrightarrow> int LOG_HEADER_SIZE \<le> log_tot_len r \<and> LOG_HEADER_SIZE \<le> length (serialize r)"
  by (simp add: wf_log_record_def serialize_def length_serialize_header)

abbreviation log_open :: "disk \<Rightarrow> bool" where
  "log_open d \<equiv> log_disk_ok d \<and> log_fd d \<noteq> - 1"

lemma read_log_open:
  assumes "log_open d" and "0 \<le> off" and "off < int (length (log_file d))"
  shows "read_log d n off = (Ret (Some (take n (drop (nat off) (log_file d)))), d)"
proof -
  obtain r d1 where "read_log d n off = (r, d1)" by fastforce
  with read_log_ok [OF _ assms(2,3) this] assms(1) show ?thesis by (cases r) auto
qed

lemma read_record_at:
  assumes "log_open d" and "0 \<le> off" and "drop (nat off) (log_file d) = serialize r @ rest" and "wf_log_record r"
  shows "\<exists>h. read_log d LOG_HEADER_SIZE off = (Ret (Some h), d) \<and> length h = LOG_HEADER_SIZE \<and> read_tot_len h = log_tot_len r"
    and "read_log d (nat (log_tot_len r)) off = (Ret (Some (serialize r)), d)"
    and "off + log_tot_len r \<le> int (length (log_file d))"
proof -
  note l = length_serialize [OF assms(4)] serialize_header_len [OF assms(4)]
  have "length (serialize r) \<le> length (log_file d) - nat off"
    using arg_cong [OF assms(3), of length] by simp
  then show le: "off + log_tot_len r \<le> int (length (log_file d))"
    using l assms(2) by (auto simp: log_offsets)
  then have lt: "off < int (length (log_file d))" using l by (auto simp: log_offsets)
  have "take LOG_HEADER_SIZE (drop (nat off) (log_file d)) = take LOG_HEADER_SIZE (serialize r)"
    using l assms(3) by simp
  moreover have "read_tot_len (take LOG_HEADER_SIZE (serialize r)) = log_tot_len r"
    using read_tot_len_take [of LOG_HEADER_SIZE "serialize r"] header_fields(3) [OF assms(4), of "serialize r" "[]"] by simp
  ultimately show "\<exists>h. read_log d LOG_HEADER_SIZE off = (Ret (Some h), d) \<and> length h = LOG_HEADER_SIZE \<and> read_tot_len h = log_tot_len r"
    using read_log_open [OF assms(1,2) lt] l by simp
  have "take (nat (log_tot_len r)) (drop (nat off) (log_file d)) = serialize r"
    using l(1) assms(3) by (simp flip: l(1))
  then show "read_log d (nat (log_tot_len r)) off = (Ret (Some (serialize r)), d)"
    using read_log_open [OF assms(1,2) lt] by simp
qed

lemma analyze_loop_torn:
  assumes "log_open d" and "0 \<le> off" and "off \<le> int (length (log_file d))" and "drop (nat off) (log_file d) = t" and "torn t"
  shows "analyze_loop (int (length (log_file d))) off a d = (Ret a, d)"
proof (cases "off + int LOG_HEADER_SIZE > int (length (log_file d))")
  case True
  then show ?thesis by (simp add: analyze_loop.simps)
next
  case False
  obtain r k where t: "wf_log_record r" "log_tot_len r < 2 ^ 31" "k < length (serialize r)" "t = take k (serialize r)"
    using assms(5) by (auto simp: torn_def)
  have len: "length t = length (log_file d) - nat off" using assms(4) by auto
  have k: "LOG_HEADER_SIZE \<le> k" "length t = k" using False len t(3,4) assms(2) by auto
  have lt: "off < int (length (log_file d))" using False by (simp add: log_offsets)
  define h where "h = take LOG_HEADER_SIZE t"
  have h: "read_log d LOG_HEADER_SIZE off = (Ret (Some h), d)"
    using read_log_open [OF assms(1,2) lt] assms(4) by (simp add: h_def)
  have tl: "read_tot_len h = log_tot_len r"
    using k t(4) read_tot_len_take [of k "serialize r"] read_tot_len_take [of LOG_HEADER_SIZE "take k (serialize r)"]
      header_fields(3) [OF t(1), of "serialize r" "[]"] by (simp add: h_def)
  have lh: "length h = LOG_HEADER_SIZE" using k by (simp add: h_def)
  have "off + log_tot_len r > int (length (log_file d))"
    using len k t(3) length_serialize [OF t(1)] assms(2,3) by linarith
  then show ?thesis using False h tl lh t(2) serialize_header_len [OF t(1)]
    unfolding analyze_loop.simps [of _ off] by simp
qed

lemma analyze_loop_records:
  assumes "log_open d" and "0 \<le> off" and "length (log_file d) < 2 ^ 31" and "off \<le> int (length (log_file d))"
    and "drop (nat off) (log_file d) = log_bytes rs @ t" and "torn t" and "log_at off rs"
  shows "analyze_loop (int (length (log_file d))) off a d = (Ret (foldl analyze_record a rs), d)"
  using assms(2,4,5,7)
proof (induction rs arbitrary: off a)
  case Nil
  then show ?case using analyze_loop_torn [OF assms(1)] assms(6) by simp
next
  case (Cons r rs)
  have wf: "wf_log_record r" "lsn r = off" "log_at (off + log_tot_len r) rs" using Cons.prems(4) by simp_all
  have dr: "drop (nat off) (log_file d) = serialize r @ (log_bytes rs @ t)" using Cons.prems(3) by simp
  note rd = read_record_at [OF assms(1) Cons.prems(1) dr wf(1)]
  note l = length_serialize [OF wf(1)] serialize_header_len [OF wf(1)]
  obtain h where h: "read_log d LOG_HEADER_SIZE off = (Ret (Some h), d)" "length h = LOG_HEADER_SIZE" "read_tot_len h = log_tot_len r"
    using rd(1) by blast
  have parsed: "DeserializeLogRecord (serialize r) = Parsed r" using deserialize_serialize [OF wf(1), of "[]"] by simp
  have "drop (nat (off + log_tot_len r)) (log_file d) = drop (length (serialize r)) (drop (nat off) (log_file d))"
    using Cons.prems(1) l(1) by (simp add: nat_add_distrib add.commute flip: l(1))
  then have nxt: "drop (nat (off + log_tot_len r)) (log_file d) = log_bytes rs @ t" using dr by simp
  have "analyze_loop (int (length (log_file d))) (off + log_tot_len r) (analyze_record a r) d
      = (Ret (foldl analyze_record (analyze_record a r) rs), d)"
    using Cons.IH [OF _ rd(3) nxt wf(3)] Cons.prems(1) l by simp
  moreover have "\<not> off + int LOG_HEADER_SIZE > int (length (log_file d))" "\<not> log_tot_len r \<ge> 2 ^ 31"
    "\<not> off + log_tot_len r > int (length (log_file d))"
    using rd(3) l Cons.prems(1) assms(3) by auto
  ultimately show ?case using h rd(2) parsed wf(2) l
    unfolding analyze_loop.simps [of _ off a d] by simp
qed

lemma foldl_analyze_logs: "logs (foldl analyze_record a rs) = logs a @ rs"
proof (induction rs arbitrary: a)
  case (Cons r rs)
  have "logs (analyze_record a r) = logs a @ [r]"
    by (simp add: analyze_record_def analyze_counters_def Let_def split: log_data.splits)
  with Cons show ?case by simp
qed simp

lemma analyze_record_committed:
  "committed_txns (analyze_record a r) t \<noteq> None \<longleftrightarrow> committed_txns a t \<noteq> None \<or> (rec_type r = Lcommit \<and> log_tid r = t)"
  by (auto simp: analyze_record_def analyze_counters_def Let_def split: log_data.splits)

lemma foldl_analyze_committed:
  "committed_txns (foldl analyze_record a rs) t \<noteq> None \<longleftrightarrow>
     committed_txns a t \<noteq> None \<or> (\<exists>r \<in> set rs. rec_type r = Lcommit \<and> log_tid r = t)"
proof (induction rs arbitrary: a)
  case (Cons r rs)
  then show ?case using analyze_record_committed [of a r t] by auto
qed simp

lemma analyze_record_counters:
  "max_txn_id a \<le> max_txn_id (analyze_record a r) \<and> log_tid r \<le> max_txn_id (analyze_record a r) \<and>
   max_next_timestamp a \<le> max_next_timestamp (analyze_record a r) \<and>
   (\<forall>ts. log_data r = CommitLog ts \<longrightarrow> ts < max_next_timestamp (analyze_record a r))"
  by (auto simp: analyze_record_def analyze_counters_def Let_def split: log_data.splits)

lemma foldl_analyze_counters:
  "max_txn_id a \<le> max_txn_id (foldl analyze_record a rs) \<and> max_next_timestamp a \<le> max_next_timestamp (foldl analyze_record a rs) \<and>
   (\<forall>r \<in> set rs. log_tid r \<le> max_txn_id (foldl analyze_record a rs) \<and>
     (\<forall>ts. log_data r = CommitLog ts \<longrightarrow> ts < max_next_timestamp (foldl analyze_record a rs)))"
proof (induction rs arbitrary: a)
  case (Cons r rs)
  from Cons [of "analyze_record a r"] analyze_record_counters [of a r] show ?case by fastforce
qed simp

lemma checkpoint_at_record:
  assumes "log_open d" and "length (log_file d) < 2 ^ 31" and "0 \<le> lsn c"
    and "drop (nat (lsn c)) (log_file d) = serialize c @ rest" and "wf_log_record c" and "rec_type c = CHECKPOINT"
  shows "checkpoint_at (int (length (log_file d))) (lsn c) d = (Ret (Some c), d)"
proof -
  note rd = read_record_at [OF assms(1,3,4,5)]
  note l = length_serialize [OF assms(5)] serialize_header_len [OF assms(5)]
  obtain h where h: "read_log d LOG_HEADER_SIZE (lsn c) = (Ret (Some h), d)" "length h = LOG_HEADER_SIZE" "read_tot_len h = log_tot_len c"
    using rd(1) by blast
  have parsed: "DeserializeLogRecord (serialize c) = Parsed c" using deserialize_serialize [OF assms(5), of "[]"] by simp
  have g: "\<not> lsn c + int LOG_HEADER_SIZE > int (length (log_file d))" "\<not> log_tot_len c \<ge> 2 ^ 31"
    "\<not> lsn c + log_tot_len c > int (length (log_file d))"
    using rd(3) l assms(2,3) by auto
  show ?thesis using g h rd(2) parsed l assms(3,6) unfolding checkpoint_at_def by simp
qed

lemma log_at_member:
  assumes "log_at off rs" and "c \<in> set rs" and "0 \<le> off"
  shows "off \<le> lsn c \<and> wf_log_record c \<and> (\<exists>rest. drop (nat (lsn c - off)) (log_bytes rs) = serialize c @ rest)"
proof -
  obtain xs ys where rs: "rs = xs @ c # ys" using assms(2) by (meson split_list)
  have "lsn c = off + int (length (log_bytes xs))" "wf_log_record c" using assms(1) by (simp_all add: rs log_at_append)
  then show ?thesis by (simp add: rs)
qed

text \<open>
  C11. Recovery reads back exactly the complete records of the log. The log file holds the records
  \<open>rs0 @ rs\<close> followed by a torn record (a proper prefix of one, as a crash in the middle of a write leaves it; possibly empty).
  Without a restart file \<open>rs0\<close> is empty; with one it names a checkpoint record of \<open>rs\<close> whose
  redo point is the start of \<open>rs\<close>. Then \<open>analyze\<close> returns, its list of records is \<open>rs\<close>, the
  transactions it calls committed are those with a commit record in \<open>rs\<close>, and the
  counters it hands on are above every transaction id and every commit timestamp in \<open>rs\<close>.
\<close>

theorem analyze_reads_complete_records:
  assumes "log_open d" and "length (log_file d) < 2 ^ 31"
    and "log_file d = log_bytes (rs0 @ rs) @ t" and "torn t" and "log_at 0 (rs0 @ rs)" and "log_file d \<noteq> []"
    and "case ReadRestartCheckpoint d of None \<Rightarrow> rs0 = []
         | Some l \<Rightarrow> \<exists>c \<in> set rs. lsn c = l \<and> rec_type c = CHECKPOINT \<and> durable_lsn (log_data c) = int (length (log_bytes rs0))"
  shows "\<exists>a. analyze d = (Ret a, d) \<and> logs a = rs
    \<and> (\<forall>x. committed_txns a x \<noteq> None \<longleftrightarrow> (\<exists>r \<in> set rs. rec_type r = Lcommit \<and> log_tid r = x))
    \<and> (\<forall>r \<in> set rs. log_tid r \<le> max_txn_id a \<and> (\<forall>ts. log_data r = CommitLog ts \<longrightarrow> ts < max_next_timestamp a))"
proof -
  let ?fs = "int (length (log_file d))" and ?s = "int (length (log_bytes rs0))"
  have fs: "get_file_size d LOG_FILE_NAME = ?fs"
    using assms(1) by (auto simp: get_file_size_def log_file_def log_disk_ok_def is_file_def)
  have fs0: "\<not> ?fs \<le> 0" using assms(6) by simp
  have at: "log_at ?s rs" using assms(5) by (simp add: log_at_append)
  have dr: "drop (nat ?s) (log_file d) = log_bytes rs @ t" using assms(3) by simp
  define st where "st = (if rs0 = [] \<and> ReadRestartCheckpoint d = None then analysis_empty
    else analysis_empty\<lparr>scan_start_lsn := ?s, restart_checkpoint_valid := True\<rparr>)"
  have sc: "scan_start_lsn st = ?s" by (auto simp: st_def analysis_empty_def)
  have an: "analyze d = analyze_loop ?fs ?s st d"
  proof (cases "ReadRestartCheckpoint d")
    case None
    then show ?thesis using assms(7) fs fs0 by (simp add: analyze_def Let_def st_def analysis_empty_def)
  next
    case (Some l)
    then obtain c where c: "c \<in> set rs" "lsn c = l" "rec_type c = CHECKPOINT" "durable_lsn (log_data c) = ?s"
      using assms(7) by auto
    obtain rest where m: "?s \<le> lsn c" "wf_log_record c" "drop (nat (lsn c - ?s)) (log_bytes rs) = serialize c @ rest"
      using log_at_member [OF at c(1)] by auto
    have "nat (lsn c - ?s) \<le> length (log_bytes rs)"
      using m(3) serialize_header_len [OF m(2)] by (cases "nat (lsn c - ?s) \<le> length (log_bytes rs)") (auto simp: log_offsets)
    moreover have "drop (nat (lsn c)) (log_file d) = drop (nat (lsn c - ?s)) (log_bytes rs @ t)"
      unfolding dr [symmetric] using m(1) by (simp add: nat_diff_distrib)
    ultimately have dc: "drop (nat (lsn c)) (log_file d) = serialize c @ (rest @ t)" using m(3) by simp
    have l0: "0 \<le> lsn c" using m(1) by simp
    note cp = checkpoint_at_record [OF assms(1,2) l0 dc m(2) c(3)]
    have "lsn c + log_tot_len c \<le> ?fs" using read_record_at(3) [OF assms(1) l0 dc m(2)] .
    then have nb: "\<not> (?s < 0 \<or> ?s > lsn c \<or> ?s + int LOG_HEADER_SIZE > ?fs)"
      using m(1) serialize_header_len [OF m(2)] by linarith
    show ?thesis using fs fs0 Some cp c nb by (simp add: analyze_def Let_def st_def analysis_empty_def)
  qed
  have "analyze d = (Ret (foldl analyze_record st rs), d)"
    unfolding an by (rule analyze_loop_records [OF assms(1) _ assms(2) _ dr assms(4) at]) (use assms(3) in simp_all)
  moreover have "logs st = []" "committed_txns st = Map.empty" by (simp_all add: st_def analysis_empty_def)
  ultimately show ?thesis
    using foldl_analyze_logs [of st rs] foldl_analyze_committed [of st rs] foldl_analyze_counters [of st rs] by auto
qed

definition commit_ex :: log_record where
  "commit_ex = (CommitLogRecord 7 3)\<lparr>lsn := 24, prev_lsn := 0\<rparr>"

theorem analyze_reads_complete_records_witness:
  "\<exists>a. analyze (disk_log_ex (log_bytes [(BeginLogRecord 7)\<lparr>lsn := 0\<rparr>, commit_ex] @ take 10 begin_ex)) =
       (Ret a, disk_log_ex (log_bytes [(BeginLogRecord 7)\<lparr>lsn := 0\<rparr>, commit_ex] @ take 10 begin_ex))
     \<and> logs a = [(BeginLogRecord 7)\<lparr>lsn := 0\<rparr>, commit_ex]"
proof -
  let ?rs = "[(BeginLogRecord 7)\<lparr>lsn := 0\<rparr>, commit_ex]"
  let ?d = "disk_log_ex (log_bytes ?rs @ take 10 begin_ex)"
  have wf: "wf_log_record ((BeginLogRecord 7)\<lparr>lsn := 0\<rparr>)" "wf_log_record commit_ex"
    by (simp_all add: wf_log_record_def BeginLogRecord_def CommitLogRecord_def commit_ex_def new_log_record_def log_offsets in_i_def in_u_def)
  have tl: "log_tot_len ((BeginLogRecord 7)\<lparr>lsn := 0\<rparr>) = 24" "log_tot_len commit_ex = 32"
    by (simp_all add: BeginLogRecord_def CommitLogRecord_def commit_ex_def new_log_record_def log_offsets)
  have len: "length (serialize ((BeginLogRecord 7)\<lparr>lsn := 0\<rparr>)) = 24" "length (serialize commit_ex) = 32"
    using length_serialize [OF wf(1)] length_serialize [OF wf(2)] tl by simp_all
  have at: "log_at 0 ([] @ ?rs)" using wf tl(1) by (simp add: commit_ex_def)
  have tn: "torn (take 10 begin_ex)"
    unfolding torn_def begin_ex_def using wf(1) tl(1) len(1) by (intro exI [of _ "(BeginLogRecord 7)\<lparr>lsn := 0\<rparr>"] exI [of _ 10]) simp
  have lf: "log_file ?d = log_bytes ([] @ ?rs) @ take 10 begin_ex" by (simp add: disk_log_ex_ok)
  have ln: "length (log_file ?d) < 2 ^ 31" "log_file ?d \<noteq> []"
    using len length_begin_ex by (auto simp: disk_log_ex_ok(3))
  have "ReadRestartCheckpoint ?d = None" by (simp add: ReadRestartCheckpoint_def disk_log_ex_ok)
  then show ?thesis
    using analyze_reads_complete_records [OF _ ln(1) lf tn at ln(2)] disk_log_ex_ok(1,2) by fastforce
qed

end
