(* ===== verification/Rmdb_Page.thy ===== *)
theory Rmdb_Page
  imports Rmdb_Prelude
begin

text \<open>
  Pages of the buffer pool: \<^verbatim>\<open>src/src/storage/page.h\<close>, \<open>PageId\<close>, \<open>PageIdHash\<close> and class \<open>Page\<close>.
  The page latch protects the data and the two fields of the write-ahead log side
  car; an update of data and side car under it is one step of the model.
\<close>

datatype wal_dirty_state = kClean | kWalBacked | kWalFree | kUnknown

record page =
  pg_id :: page_id
  data :: "byte list"
  is_dirty :: bool
  wal_state :: wal_dirty_state
  is_evictable :: bool
  page_lsn :: lsn_t
  pin_count :: int
  resident_pin_count :: int
  dirty_generation :: nat

definition page_id_less :: "page_id \<Rightarrow> page_id \<Rightarrow> bool" where
  "page_id_less x y = (if fd x \<noteq> fd y then fd x < fd y else page_no x < page_no y)"

text \<open>The hash is computed on 32-bit integers and converted, with its sign, to \<open>size_t\<close>.\<close>

definition PageIdHash :: "page_id \<Rightarrow> 64 word" where
  "PageIdHash x = signed (push_bit 16 (word_of_int (fd x)) OR word_of_int (page_no x) :: 32 word)"

definition reset_memory :: "page \<Rightarrow> page" where
  "reset_memory p = p\<lparr>data := replicate PAGE_SIZE 0, wal_state := kClean, page_lsn := INVALID_LSN\<rparr>"

definition Page_new :: page where
  "Page_new = \<lparr>pg_id = \<lparr>fd = 0, page_no = INVALID_PAGE_ID\<rparr>, data = replicate PAGE_SIZE 0, is_dirty = False,
     wal_state = kClean, is_evictable = False, page_lsn = INVALID_LSN, pin_count = 0, resident_pin_count = 0,
     dirty_generation = 0\<rparr>"

definition set_page_lsn :: "lsn_t \<Rightarrow> page \<Rightarrow> page" where
  "set_page_lsn l p =
     (if l = INVALID_LSN then p
      else p\<lparr>wal_state := (if wal_state p \<noteq> kUnknown \<and> wal_state p \<noteq> kWalBacked then kWalBacked else wal_state p),
             page_lsn := (if page_lsn p = INVALID_LSN \<or> l > page_lsn p then l else page_lsn p)\<rparr>)"

definition mark_wal_free_dirty :: "page \<Rightarrow> page" where
  "mark_wal_free_dirty p = p\<lparr>wal_state := (if wal_state p = kClean then kWalFree else wal_state p)\<rparr>"

text \<open>
  A page whose side car is trusted: a page that is backed by the log carries the LSN of the last
  change, and a page whose changes were never declared stays unknown.
\<close>

definition sidecar_ok :: "page \<Rightarrow> bool" where
  "sidecar_ok p \<longleftrightarrow> (wal_state p = kWalBacked \<longrightarrow> page_lsn p \<noteq> INVALID_LSN)"

lemma set_page_lsn_sidecar: "sidecar_ok p \<Longrightarrow> sidecar_ok (set_page_lsn l p)"
  by (auto simp: sidecar_ok_def set_page_lsn_def)

lemma mark_wal_free_sidecar: "sidecar_ok p \<Longrightarrow> sidecar_ok (mark_wal_free_dirty p)"
  by (auto simp: sidecar_ok_def mark_wal_free_dirty_def)

text \<open>A sequence of declared changes, each with its LSN or declared free of the log.\<close>

datatype change = Logged lsn_t | LogFree

fun declare_change :: "change \<Rightarrow> page \<Rightarrow> page" where
  "declare_change (Logged l) p = set_page_lsn l p"
| "declare_change LogFree p = mark_wal_free_dirty p"

lemma foldl_change_lsn:
  assumes "\<forall>c \<in> set cs. \<forall>l. c = Logged l \<longrightarrow> 0 \<le> l" and "page_lsn p = INVALID_LSN \<or> 0 \<le> page_lsn p"
  shows "(page_lsn (foldl (\<lambda>p c. declare_change c p) p cs) = INVALID_LSN \<or> 0 \<le> page_lsn (foldl (\<lambda>p c. declare_change c p) p cs))
    \<and> page_lsn p \<le> page_lsn (foldl (\<lambda>p c. declare_change c p) p cs)
    \<and> (\<forall>l. Logged l \<in> set cs \<longrightarrow> l \<le> page_lsn (foldl (\<lambda>p c. declare_change c p) p cs))"
  using assms
proof (induction cs arbitrary: p)
  case (Cons c cs)
  have a: "\<forall>l. c = Logged l \<longrightarrow> 0 \<le> l" using Cons.prems by simp
  have q: "page_lsn (declare_change c p) = INVALID_LSN \<or> 0 \<le> page_lsn (declare_change c p)"
    "page_lsn p \<le> page_lsn (declare_change c p)" "\<forall>l. c = Logged l \<longrightarrow> l \<le> page_lsn (declare_change c p)"
    using a Cons.prems(2) by (cases c; auto simp: set_page_lsn_def mark_wal_free_dirty_def)+
  from Cons.IH [of "declare_change c p"] Cons.prems(1) q show ?case by fastforce
qed simp

lemma foldl_change_unknown:
  "wal_state p = kUnknown \<Longrightarrow> wal_state (foldl (\<lambda>p c. declare_change c p) p cs) = kUnknown"
proof (induction cs arbitrary: p)
  case (Cons c cs)
  have "wal_state (declare_change c p) = kUnknown"
    using Cons.prems by (cases c) (auto simp: set_page_lsn_def mark_wal_free_dirty_def)
  then show ?case using Cons.IH by simp
qed simp

lemma foldl_change_backed:
  assumes "\<forall>c \<in> set cs. \<forall>l. c = Logged l \<longrightarrow> 0 \<le> l" and "wal_state p \<noteq> kUnknown"
  shows "wal_state (foldl (\<lambda>p c. declare_change c p) p cs) \<noteq> kUnknown
    \<and> (wal_state p = kWalBacked \<or> (\<exists>l. Logged l \<in> set cs) \<longrightarrow> wal_state (foldl (\<lambda>p c. declare_change c p) p cs) = kWalBacked)"
  using assms
proof (induction cs arbitrary: p)
  case (Cons c cs)
  have a: "\<forall>l. c = Logged l \<longrightarrow> l \<noteq> INVALID_LSN" using Cons.prems(1) by auto
  have q: "wal_state (declare_change c p) \<noteq> kUnknown"
    "wal_state p = kWalBacked \<or> (\<exists>l. c = Logged l) \<longrightarrow> wal_state (declare_change c p) = kWalBacked"
    using Cons.prems(2) a by (cases c; auto simp: set_page_lsn_def mark_wal_free_dirty_def)+
  from Cons.IH [of "declare_change c p"] Cons.prems(1) q show ?case by auto
qed simp

text \<open>
  The side car of a page never loses a log dependency: after any sequence of declared
  changes, in any order of their LSNs, the page LSN is at least the LSN of every logged change, the page counts as
  backed by the log as soon as one change was logged, and a page of unknown provenance stays
  unknown, whatever is declared afterwards.
\<close>

lemma page_sidecar_monotone:
  assumes "\<forall>c \<in> set cs. \<forall>l. c = Logged l \<longrightarrow> 0 \<le> l" and "page_lsn p = INVALID_LSN \<or> 0 \<le> page_lsn p"
  shows "(\<forall>l. Logged l \<in> set cs \<longrightarrow> l \<le> page_lsn (foldl (\<lambda>p c. declare_change c p) p cs))
    \<and> page_lsn p \<le> page_lsn (foldl (\<lambda>p c. declare_change c p) p cs)
    \<and> (wal_state p \<noteq> kUnknown \<and> (\<exists>l. Logged l \<in> set cs) \<longrightarrow> wal_state (foldl (\<lambda>p c. declare_change c p) p cs) = kWalBacked)
    \<and> (wal_state p = kUnknown \<longrightarrow> wal_state (foldl (\<lambda>p c. declare_change c p) p cs) = kUnknown)"
  using foldl_change_lsn [OF assms] foldl_change_backed [OF assms(1)] foldl_change_unknown [of p cs] by blast

lemma page_sidecar_monotone_example:
  "40 \<le> page_lsn (foldl (\<lambda>p c. declare_change c p) Page_new [LogFree, Logged 40, Logged 8])"
  using page_sidecar_monotone [of "[LogFree, Logged 40, Logged 8]" Page_new] by (simp add: Page_new_def)

end
