(* ===== verification/Rmdb_Buffer_Pool.thy ===== *)
theory Rmdb_Buffer_Pool
  imports Rmdb_Page Rmdb_Replacer Rmdb_Log_Manager "HOL-Library.AList" "HOL-Library.Product_Lexorder"
begin

text \<open>
  The buffer pool: \<^verbatim>\<open>src/src/storage/buffer_pool_manager.h\<close> and \<^verbatim>\<open>buffer_pool_manager.cpp\<close>, class
  \<open>BufferPoolManager\<close>, over the disk manager, the replacer and the log manager. A \<open>Page *\<close> is the
  index of its frame. The page table is an association list and the dirty set a list:
  their orders stand for the unspecified orders of the hash containers. The callbacks
  of \<open>set_wal_barrier\<close> are the functions of the log manager that \<^verbatim>\<open>rmdb.cpp\<close> installs;
  \<open>wal_barrier_set\<close> and \<open>batch_barrier_set\<close> say which are installed.

  An operation that gives up the partition latch around disk input and output is the composition of the parts between
  the latch operations (\<open>fetch_begin\<close>, \<open>evict_writeback\<close>, \<open>install_page\<close>, \<open>fetch_rollback\<close>); a wait on a
  condition variable is the outcome \<open>Wait\<close>.
\<close>

record partition =
  page_table :: "(page_id \<times> frame_id_t) list"
  dirty_pages :: "page_id list"
  inflight_page_loads :: "page_id list"
  free_list :: "frame_id_t list"
  part_replacer :: lru_replacer
  frame_begin :: frame_id_t
  frame_end :: frame_id_t
  dirty_count :: nat
  clean_available_count :: nat
  dirty_high_watermark :: nat
  dirty_low_watermark :: nat
  clean_reserve :: nat
  clean_target :: nat

record writeback_task =
  partition_idx :: nat
  task_frame :: frame_id_t
  task_page_id :: page_id
  task_generation :: nat
  was_dirty :: bool
  task_lsn :: lsn_t
  task_wal_state :: wal_dirty_state
  task_data :: "byte list"

record bpm =
  pool_size :: nat
  pages :: "frame_id_t \<Rightarrow> page"
  partitions :: "nat \<Rightarrow> partition"
  num_partitions :: nat
  flush_round_robin_cursor :: nat
  frame_io_in_progress :: "frame_id_t \<Rightarrow> bool"
  frame_writeback_in_progress :: "frame_id_t \<Rightarrow> bool"
  frame_writeback_snapshot_ready :: "frame_id_t \<Rightarrow> bool"
  dirty_page_count :: nat
  urgent_partition_mask :: "64 word"
  dirty_pressure_mask :: "64 word"
  page_cleaner_started :: bool
  stop_page_cleaner :: bool
  page_cleaner_batch_pages :: nat
  page_cleaner_dirty_threshold :: nat
  adaptive_cleaner_enabled :: bool
  sync_dirty_evictions :: nat
  cleaner_pages_written :: nat
  cleaner_pages_cleaned :: nat
  cleaner_wal_batches :: nat
  cleaner_pressure_wakeups :: nat
  wal_barrier_set :: bool
  batch_barrier_set :: bool

record storage =
  bp :: bpm
  wal :: log_manager
  dsk :: disk

definition upd_page :: "bpm \<Rightarrow> frame_id_t \<Rightarrow> (page \<Rightarrow> page) \<Rightarrow> bpm" where
  "upd_page b f g = b\<lparr>pages := (pages b)(f := g (pages b f))\<rparr>"

definition upd_part :: "bpm \<Rightarrow> nat \<Rightarrow> (partition \<Rightarrow> partition) \<Rightarrow> bpm" where
  "upd_part b i g = b\<lparr>partitions := (partitions b)(i := g (partitions b i))\<rparr>"

subsection \<open>Construction\<close>

function fp2_loop :: "nat \<Rightarrow> nat \<Rightarrow> nat" where
  "fp2_loop v pw = (if 0 < pw \<and> 2 * pw \<le> v then fp2_loop v (2 * pw) else pw)"
  by pat_completeness auto

termination
  by (relation "measure (\<lambda>(v, pw). v - pw)") auto

declare fp2_loop.simps [simp del]

definition floor_power_of_two :: "nat \<Rightarrow> nat" where
  "floor_power_of_two v = (if v = 0 then 0 else fp2_loop v 1)"

definition BPM_PARTITION_COUNT :: nat where "BPM_PARTITION_COUNT = 16"

definition kMinFramesPerPartition :: nat where "kMinFramesPerPartition = 8"

fun shrink_partitions :: "nat \<Rightarrow> nat \<Rightarrow> nat" where
  "shrink_partitions psize n =
     (if 1 < n \<and> psize div n < kMinFramesPerPartition then shrink_partitions psize (n div 2) else n)"

declare shrink_partitions.simps [simp del]

definition partition_count :: "nat \<Rightarrow> nat" where
  "partition_count psize =
     (let n = shrink_partitions psize (floor_power_of_two (min psize BPM_PARTITION_COUNT))
      in if n = 0 then 1 else n)"

definition part_frames :: "nat \<Rightarrow> nat \<Rightarrow> nat" where
  "part_frames psize i =
     (let n = partition_count psize in psize div n + (if i < psize mod n then 1 else 0))"

definition part_begin :: "nat \<Rightarrow> nat \<Rightarrow> nat" where
  "part_begin psize i = sum_list (map (part_frames psize) [0..<i])"

definition new_partition :: "nat \<Rightarrow> nat \<Rightarrow> partition" where
  "new_partition psize i =
     (let pf = part_frames psize i; fb = part_begin psize i; cr = max 1 (pf div 64)
      in \<lparr>page_table = [], dirty_pages = [], inflight_page_loads = [], free_list = [fb..<fb + pf],
          part_replacer = LRUReplacer_new pf, frame_begin = fb, frame_end = fb + pf, dirty_count = 0,
          clean_available_count = pf, dirty_high_watermark = min (max 2 (pf * 3 div 4)) (if pf > 1 then pf - 1 else 1),
          dirty_low_watermark = pf div 2, clean_reserve = cr, clean_target = min pf (max cr (cr * 2))\<rparr>)"

definition BufferPoolManager_new :: "nat \<Rightarrow> bpm" where
  "BufferPoolManager_new psize =
     \<lparr>pool_size = psize, pages = (\<lambda>_. Page_new), partitions = new_partition psize, num_partitions = partition_count psize,
      flush_round_robin_cursor = 0, frame_io_in_progress = (\<lambda>_. False), frame_writeback_in_progress = (\<lambda>_. False),
      frame_writeback_snapshot_ready = (\<lambda>_. False), dirty_page_count = 0, urgent_partition_mask = 0, dirty_pressure_mask = 0,
      page_cleaner_started = False, stop_page_cleaner = False, page_cleaner_batch_pages = 0, page_cleaner_dirty_threshold = 0,
      adaptive_cleaner_enabled = True, sync_dirty_evictions = 0, cleaner_pages_written = 0, cleaner_pages_cleaned = 0,
      cleaner_wal_batches = 0, cleaner_pressure_wakeups = 0, wal_barrier_set = False, batch_barrier_set = False\<rparr>"

definition set_wal_barrier :: "bpm \<Rightarrow> bool \<Rightarrow> bpm" where
  "set_wal_barrier b batch = b\<lparr>wal_barrier_set := True, batch_barrier_set := batch\<rparr>"

definition partition_of :: "bpm \<Rightarrow> page_id \<Rightarrow> nat" where
  "partition_of b pid = unat (PageIdHash pid AND of_nat (num_partitions b - 1))"

subsection \<open>Pressure masks\<close>

definition mask_bit :: "nat \<Rightarrow> 64 word" where
  "mask_bit i = push_bit i 1"

definition notify_partition_pressure :: "bpm \<Rightarrow> nat \<Rightarrow> bpm" where
  "notify_partition_pressure b i =
     (if i \<ge> 64 then b
      else b\<lparr>urgent_partition_mask := urgent_partition_mask b OR mask_bit i,
             cleaner_pressure_wakeups := Suc (cleaner_pressure_wakeups b)\<rparr>)"

definition partition_needs_cleaning :: "bpm \<Rightarrow> nat \<Rightarrow> bool" where
  "partition_needs_cleaning b i =
     (if i \<ge> num_partitions b then False
      else if (urgent_partition_mask b OR dirty_pressure_mask b) AND mask_bit i \<noteq> 0 then True
      else if \<not> adaptive_cleaner_enabled b then False
      else let part = partitions b i
        in dirty_count part > dirty_high_watermark part \<or>
           (dirty_count part > 0 \<and> clean_available_count part < clean_reserve part))"

subsection \<open>Frames\<close>

definition find_victim_page :: "bpm \<Rightarrow> nat \<Rightarrow> frame_id_t option \<times> bpm" where
  "find_victim_page b i =
     (let part = partitions b i
      in case free_list part of
           f # fs \<Rightarrow>
             (Some f, upd_part b i (\<lambda>p. p\<lparr>free_list := fs, clean_available_count := clean_available_count p - 1\<rparr>))
         | [] \<Rightarrow>
             (case victim_if (part_replacer part)
                     (\<lambda>c. \<not> is_dirty (pages b c) \<and> \<not> frame_io_in_progress b c \<and> \<not> frame_writeback_in_progress b c) 64 of
                (Some f, r) \<Rightarrow>
                  (Some f, upd_page (upd_part b i (\<lambda>p. p\<lparr>part_replacer := r, clean_available_count := clean_available_count p - 1\<rparr>))
                             f (\<lambda>pg. pg\<lparr>is_evictable := False\<rparr>))
              | (None, r1) \<Rightarrow>
                  (case victim r1 of
                     (None, r) \<Rightarrow> (None, upd_part b i (\<lambda>p. p\<lparr>part_replacer := r\<rparr>))
                   | (Some f, r) \<Rightarrow>
                       (let b1 = upd_page (upd_part b i (\<lambda>p. p\<lparr>part_replacer := r\<rparr>)) f (\<lambda>pg. pg\<lparr>is_evictable := False\<rparr>)
                        in if \<not> is_dirty (pages b f)
                           then (Some f, upd_part b1 i (\<lambda>p. p\<lparr>clean_available_count := clean_available_count p - 1\<rparr>))
                           else (Some f, notify_partition_pressure (b1\<lparr>sync_dirty_evictions := Suc (sync_dirty_evictions b1)\<rparr>) i)))))"

definition mark_frame_pinned :: "bpm \<Rightarrow> nat \<Rightarrow> frame_id_t \<Rightarrow> bpm" where
  "mark_frame_pinned b i f =
     (if is_evictable (pages b f)
      then let b1 = upd_page (upd_part b i (\<lambda>p. p\<lparr>part_replacer := pin (part_replacer p) f\<rparr>)) f (\<lambda>pg. pg\<lparr>is_evictable := False\<rparr>)
        in if \<not> is_dirty (pages b f)
           then let b2 = upd_part b1 i (\<lambda>p. p\<lparr>clean_available_count := clean_available_count p - 1\<rparr>);
                    part = partitions b2 i
             in if clean_available_count part < clean_reserve part \<and> dirty_count part > 0 \<and> page_no (pg_id (pages b f)) \<noteq> INVALID_PAGE_ID
                then notify_partition_pressure b2 (partition_of b (pg_id (pages b f))) else b2
           else b1
      else b)"

definition mark_frame_evictable :: "bpm \<Rightarrow> nat \<Rightarrow> frame_id_t \<Rightarrow> bool \<Rightarrow> bpm" where
  "mark_frame_evictable b i f keep_cold =
     (if pin_count (pages b f) \<noteq> 0 \<or> is_evictable (pages b f) \<or> frame_io_in_progress b f \<or> frame_writeback_in_progress b f then b
      else let b1 = upd_page (upd_part b i (\<lambda>p. p\<lparr>part_replacer := (if keep_cold then unpin_cold (part_replacer p) f else unpin (part_replacer p) f)\<rparr>))
                      f (\<lambda>pg. pg\<lparr>is_evictable := True\<rparr>)
        in if \<not> is_dirty (pages b f)
           then let b2 = upd_part b1 i (\<lambda>p. p\<lparr>clean_available_count := Suc (clean_available_count p)\<rparr>)
             in if clean_available_count (partitions b2 i) \<ge> clean_target (partitions b2 i) \<and> page_no (pg_id (pages b f)) \<noteq> INVALID_PAGE_ID
                then b2\<lparr>urgent_partition_mask := urgent_partition_mask b2 AND NOT (mask_bit (partition_of b (pg_id (pages b f))))\<rparr>
                else b2
           else b1)"

definition return_free_frame :: "bpm \<Rightarrow> nat \<Rightarrow> frame_id_t \<Rightarrow> bpm" where
  "return_free_frame b i f =
     upd_part (upd_page b f (\<lambda>pg. pg\<lparr>is_evictable := False\<rparr>)) i
       (\<lambda>p. p\<lparr>free_list := free_list p @ [f], clean_available_count := Suc (clean_available_count p)\<rparr>)"

text \<open>The assertion that the insertion into the dirty set is new is a fact of the invariant.\<close>

definition register_dirty_page :: "bpm \<Rightarrow> nat \<Rightarrow> frame_id_t \<Rightarrow> bpm" where
  "register_dirty_page b i f =
     (let pg = pages b f
      in if page_no (pg_id pg) = INVALID_PAGE_ID then b
         else let b1 = upd_page b f (\<lambda>pg. pg\<lparr>is_dirty := True,
                          wal_state := (if wal_state pg = kClean then kUnknown else wal_state pg),
                          dirty_generation := Suc (dirty_generation pg)\<rparr>)
           in if is_dirty pg then b1
              else if pg_id pg \<in> set (dirty_pages (partitions b i)) then b1
              else let b2 = (upd_part b1 i (\<lambda>p. p\<lparr>dirty_pages := pg_id pg # dirty_pages p, dirty_count := Suc (dirty_count p)\<rparr>))
                              \<lparr>dirty_page_count := Suc (dirty_page_count b1)\<rparr>
                in if dirty_count (partitions b2 i) > dirty_high_watermark (partitions b2 i)
                   then b2\<lparr>dirty_pressure_mask := dirty_pressure_mask b2 OR mask_bit (partition_of b (pg_id pg))\<rparr> else b2)"

definition erase_dirty_page :: "bpm \<Rightarrow> nat \<Rightarrow> page_id \<Rightarrow> bool \<times> bpm" where
  "erase_dirty_page b i pid =
     (if pid \<notin> set (dirty_pages (partitions b i)) then (False, b)
      else let b1 = (upd_part b i (\<lambda>p. p\<lparr>dirty_pages := remove1 pid (dirty_pages p), dirty_count := dirty_count p - 1\<rparr>))
                      \<lparr>dirty_page_count := dirty_page_count b - 1\<rparr>;
               part = partitions b1 i;
               b2 = (if dirty_count part \<le> dirty_low_watermark part
                     then b1\<lparr>dirty_pressure_mask := dirty_pressure_mask b1 AND NOT (mask_bit (partition_of b pid))\<rparr> else b1);
               b3 = (if dirty_count part = 0
                     then b2\<lparr>urgent_partition_mask := urgent_partition_mask b2 AND NOT (mask_bit (partition_of b pid))\<rparr> else b2)
        in (True, b3))"

definition update_page :: "bpm \<Rightarrow> nat \<Rightarrow> page_id \<Rightarrow> frame_id_t \<Rightarrow> bpm" where
  "update_page b i new_page_id f =
     (let old = pg_id (pages b f);
          b1 = (if page_no old \<noteq> INVALID_PAGE_ID
                then upd_part (snd (erase_dirty_page b i old)) i (\<lambda>p. p\<lparr>page_table := AList.delete old (page_table p)\<rparr>) else b);
          b2 = upd_page b1 f (\<lambda>pg. (reset_memory pg)\<lparr>pg_id := new_page_id, is_dirty := False, is_evictable := False,
                 pin_count := 0, resident_pin_count := 0, dirty_generation := 0\<rparr>)
      in if page_no new_page_id \<noteq> INVALID_PAGE_ID
         then upd_part b2 i (\<lambda>p. p\<lparr>page_table := AList.update new_page_id f (page_table p)\<rparr>) else b2)"

subsection \<open>Writing pages back\<close>

definition prepare_writeback_locked :: "bpm \<Rightarrow> nat \<Rightarrow> frame_id_t \<Rightarrow> bool \<Rightarrow> bool \<Rightarrow> writeback_task option \<times> bpm" where
  "prepare_writeback_locked b i f require_dirty require_unpinned =
     (let pg = pages b f
      in if i \<ge> num_partitions b \<or> f \<ge> pool_size b then (None, b)
         else if page_no (pg_id pg) = INVALID_PAGE_ID \<or> frame_io_in_progress b f \<or> frame_writeback_in_progress b f \<or>
                 (require_dirty \<and> \<not> is_dirty pg) \<or> (require_unpinned \<and> pin_count pg \<noteq> resident_pin_count pg) then (None, b)
         else let b1 = mark_frame_pinned (upd_page b f (\<lambda>pg. pg\<lparr>pin_count := pin_count pg + 1\<rparr>)) i f;
                  b2 = b1\<lparr>frame_writeback_in_progress := (frame_writeback_in_progress b1)(f := True),
                          frame_writeback_snapshot_ready := (frame_writeback_snapshot_ready b1)(f := False)\<rparr>
           in (Some \<lparr>partition_idx = i, task_frame = f, task_page_id = pg_id pg, task_generation = dirty_generation pg,
                      was_dirty = is_dirty pg, task_lsn = INVALID_LSN, task_wal_state = kClean, task_data = []\<rparr>, b2))"

definition mark_snapshot_ready :: "bpm \<Rightarrow> writeback_task \<Rightarrow> bpm" where
  "mark_snapshot_ready b t =
     (if frame_writeback_in_progress b (task_frame t) \<and> pg_id (pages b (task_frame t)) = task_page_id t
      then b\<lparr>frame_writeback_snapshot_ready := (frame_writeback_snapshot_ready b)(task_frame t := True)\<rparr> else b)"

definition snapshot_task :: "bpm \<Rightarrow> writeback_task \<Rightarrow> writeback_task" where
  "snapshot_task b t = (let pg = pages b (task_frame t)
     in t\<lparr>task_lsn := page_lsn pg, task_wal_state := wal_state pg, task_data := data pg\<rparr>)"

definition capture_writeback_snapshot :: "bpm \<Rightarrow> writeback_task \<Rightarrow> writeback_task outcome \<times> bpm" where
  "capture_writeback_snapshot b t =
     (if task_frame t \<ge> pool_size b then (Throw (InternalError ''Invalid writeback task''), b)
      else (Ret (snapshot_task b t), mark_snapshot_ready b t))"

definition finish_writeback :: "bpm \<Rightarrow> writeback_task \<Rightarrow> bool \<Rightarrow> bool \<times> bpm" where
  "finish_writeback b t write_succeeded =
     (let f = task_frame t; i = partition_idx t; pg = pages b f
      in if i \<ge> num_partitions b \<or> f \<ge> pool_size b \<or> \<not> frame_writeback_in_progress b f then (False, b)
         else let cleaned = (write_succeeded \<and> was_dirty t \<and> pg_id pg = task_page_id t \<and> is_dirty pg \<and>
                             dirty_generation pg = task_generation t \<and> pin_count pg = resident_pin_count pg + 1);
                  b1 = (if cleaned
                        then snd (erase_dirty_page (upd_page b f (\<lambda>pg. pg\<lparr>is_dirty := False, wal_state := kClean, page_lsn := INVALID_LSN\<rparr>)) i (pg_id pg))
                        else b);
                  b2 = upd_page b1 f (\<lambda>pg. pg\<lparr>pin_count := (if pin_count pg > 0 then pin_count pg - 1 else pin_count pg)\<rparr>);
                  b3 = b2\<lparr>frame_writeback_in_progress := (frame_writeback_in_progress b2)(f := False),
                          frame_writeback_snapshot_ready := (frame_writeback_snapshot_ready b2)(f := False)\<rparr>
           in (cleaned, mark_frame_evictable b3 i f cleaned))"

fun validate_writeback_tasks :: "writeback_task list \<Rightarrow> lsn_t list outcome" where
  "validate_writeback_tasks [] = Ret []"
| "validate_writeback_tasks (t # ts) =
     (if \<not> was_dirty t \<and> task_wal_state t = kClean then validate_writeback_tasks ts
      else if task_wal_state t = kUnknown \<or> task_wal_state t = kClean
      then Throw (InternalError ''Dirty page has undeclared WAL provenance'')
      else if task_wal_state t = kWalBacked
      then if task_lsn t = INVALID_LSN then Throw (InternalError ''WAL-backed dirty page has no page_lsn'')
           else (case validate_writeback_tasks ts of Ret ls \<Rightarrow> Ret (task_lsn t # ls) | Throw e \<Rightarrow> Throw e | Wait \<Rightarrow> Wait)
      else validate_writeback_tasks ts)"

text \<open>The fallback when only the single-record callbacks are installed.\<close>

fun max_known_lsn :: "log_manager \<Rightarrow> lsn_t list \<Rightarrow> lsn_t \<Rightarrow> lsn_t outcome" where
  "max_known_lsn lm [] max_lsn = Ret max_lsn"
| "max_known_lsn lm (l # ls) max_lsn =
     (if \<not> has_record_lsn lm l then Throw (InternalError ''Unknown WAL page_lsn'')
      else max_known_lsn lm ls (if max_lsn = INVALID_LSN then l else max max_lsn l))"

definition on_wal :: "(log_manager \<Rightarrow> disk \<Rightarrow> 'a outcome \<times> log_manager \<times> disk) \<Rightarrow> storage \<Rightarrow> 'a outcome \<times> storage" where
  "on_wal op st = (case op (wal st) (dsk st) of (r, lm, d) \<Rightarrow> (r, st\<lparr>wal := lm, dsk := d\<rparr>))"

definition flush_wal_for_tasks :: "writeback_task list \<Rightarrow> storage \<Rightarrow> unit outcome \<times> storage" where
  "flush_wal_for_tasks ts st =
     (case validate_writeback_tasks ts of
        Throw e \<Rightarrow> (Throw e, st)
      | Wait \<Rightarrow> (Wait, st)
      | Ret ls \<Rightarrow>
          if ls = [] then (Ret (), st)
          else if batch_barrier_set (bp st) then on_wal (\<lambda>lm d. FlushPageLsns lm d ls) st
          else if \<not> wal_barrier_set (bp st) then (Throw (InternalError ''WAL barrier is not configured''), st)
          else (case max_known_lsn (wal st) ls INVALID_LSN of
                  Throw e \<Rightarrow> (Throw e, st)
                | Wait \<Rightarrow> (Wait, st)
                | Ret m \<Rightarrow> on_wal (\<lambda>lm d. FlushUpTo lm d m) st))"

definition flush_log_up_to_lsn :: "lsn_t \<Rightarrow> storage \<Rightarrow> unit outcome \<times> storage" where
  "flush_log_up_to_lsn l st =
     (if l = INVALID_LSN \<or> \<not> wal_barrier_set (bp st) then (Ret (), st)
      else if \<not> has_record_lsn (wal st) l then (Throw (InternalError ''Unknown WAL page_lsn''), st)
      else on_wal (\<lambda>lm d. FlushUpTo lm d l) st)"

definition disk_write :: "page_id \<Rightarrow> byte list \<Rightarrow> storage \<Rightarrow> unit outcome \<times> storage" where
  "disk_write pid bs st = (case write_page (dsk st) (fd pid) (page_no pid) bs of (r, d) \<Rightarrow> (r, st\<lparr>dsk := d\<rparr>))"

definition finish_all :: "bpm \<Rightarrow> writeback_task list \<Rightarrow> bpm" where
  "finish_all b ts = foldl (\<lambda>b t. snd (finish_writeback b t False)) b ts"

fun capture_all :: "bpm \<Rightarrow> writeback_task list \<Rightarrow> writeback_task list outcome \<times> bpm" where
  "capture_all b [] = (Ret [], b)"
| "capture_all b (t # ts) =
     (case capture_writeback_snapshot b t of
        (Ret t', b1) \<Rightarrow>
          (case capture_all b1 ts of
             (Ret ts', b2) \<Rightarrow> (Ret (t' # ts'), b2)
           | (Throw e, b2) \<Rightarrow> (Throw e, b2)
           | (Wait, b2) \<Rightarrow> (Wait, b2))
      | (Throw e, b1) \<Rightarrow> (Throw e, b1)
      | (Wait, b1) \<Rightarrow> (Wait, b1))"

fun write_tasks :: "writeback_task list \<Rightarrow> nat \<Rightarrow> nat \<Rightarrow> storage \<Rightarrow> (nat \<times> nat) outcome \<times> storage" where
  "write_tasks [] written cleaned st = (Ret (written, cleaned), st)"
| "write_tasks (t # ts) written cleaned st =
     (case disk_write (task_page_id t) (task_data t) st of
        (Ret _, st1) \<Rightarrow>
          (let (c, b) = finish_writeback (bp st1) t True
           in write_tasks ts (Suc written) (if c then Suc cleaned else cleaned) (st1\<lparr>bp := b\<rparr>))
      | (Throw e, st1) \<Rightarrow> (Throw e, st1\<lparr>bp := finish_all (bp st1) (t # ts)\<rparr>)
      | (Wait, st1) \<Rightarrow> (Wait, st1))"

definition task_key :: "writeback_task \<Rightarrow> int \<times> int" where
  "task_key t = (fd (task_page_id t), page_no (task_page_id t))"

text \<open>The result is the number of pages written and the number of pages cleaned.\<close>

definition perform_writeback_batch :: "writeback_task list \<Rightarrow> bool \<Rightarrow> storage \<Rightarrow> (nat \<times> nat) outcome \<times> storage" where
  "perform_writeback_batch ts skip_wal_barrier st =
     (if ts = [] then (Ret (0, 0), st)
      else case capture_all (bp st) ts of
        (Throw e, b) \<Rightarrow> (Throw e, st\<lparr>bp := finish_all b ts\<rparr>)
      | (Wait, b) \<Rightarrow> (Wait, st\<lparr>bp := b\<rparr>)
      | (Ret ts1, b) \<Rightarrow>
          (let st1 = st\<lparr>bp := b\<rparr>;
               (r, st2) = (if \<not> skip_wal_barrier
                           then (case flush_wal_for_tasks ts1 st1 of
                                   (Ret _, s) \<Rightarrow> (Ret (), s\<lparr>bp := (bp s)\<lparr>cleaner_wal_batches := Suc (cleaner_wal_batches (bp s))\<rparr>\<rparr>)
                                 | (Throw e, s) \<Rightarrow> (Throw e, s)
                                 | (Wait, s) \<Rightarrow> (Wait, s))
                           else (case validate_writeback_tasks ts1 of
                                   Ret _ \<Rightarrow> (Ret (), st1)
                                 | Throw e \<Rightarrow> (Throw e, st1)
                                 | Wait \<Rightarrow> (Wait, st1)))
           in case r of
                Throw e \<Rightarrow> (Throw e, st2\<lparr>bp := finish_all (bp st2) ts1\<rparr>)
              | Wait \<Rightarrow> (Wait, st2)
              | Ret _ \<Rightarrow> write_tasks (sort_key task_key ts1) 0 0 st2))"

definition perform_writeback :: "writeback_task \<Rightarrow> bool \<Rightarrow> storage \<Rightarrow> bool outcome \<times> storage" where
  "perform_writeback t skip_wal_barrier =
     obind (perform_writeback_batch [t] skip_wal_barrier) (\<lambda>res st. (Ret (snd res = 1), st))"

definition writeback_page :: "page_id \<Rightarrow> bool \<Rightarrow> bool \<Rightarrow> storage \<Rightarrow> bool outcome \<times> storage" where
  "writeback_page pid require_dirty skip_wal_barrier st =
     (let b = bp st; i = partition_of b pid; part = partitions b i
      in case map_of (page_table part) pid of
           None \<Rightarrow> if pid \<in> set (inflight_page_loads part) then (Wait, st) else (Ret False, st)
         | Some f \<Rightarrow>
             if frame_io_in_progress b f \<or> frame_writeback_in_progress b f then (Wait, st)
             else (case prepare_writeback_locked b i f require_dirty False of
                     (None, b1) \<Rightarrow> (Ret (\<not> require_dirty), st\<lparr>bp := b1\<rparr>)
                   | (Some t, b1) \<Rightarrow> obind (perform_writeback t skip_wal_barrier) (\<lambda>_ st. (Ret True, st)) (st\<lparr>bp := b1\<rparr>)))"

subsection \<open>Fetching and creating pages\<close>

datatype fetch_choice = FHit frame_id_t | FWait | FNoFrame | FMiss frame_id_t page_id bool

definition start_load :: "bpm \<Rightarrow> nat \<Rightarrow> page_id \<Rightarrow> fetch_choice \<times> bpm" where
  "start_load b i pid =
     (case find_victim_page b i of
        (None, b1) \<Rightarrow> (FNoFrame, b1)
      | (Some f, b1) \<Rightarrow>
          (let vid = pg_id (pages b1 f); b2 = b1\<lparr>frame_io_in_progress := (frame_io_in_progress b1)(f := True)\<rparr>
           in (FMiss f vid (page_no vid \<noteq> INVALID_PAGE_ID \<and> is_dirty (pages b1 f)),
               upd_part b2 i (\<lambda>p. p\<lparr>inflight_page_loads := pid # inflight_page_loads p\<rparr>))))"

definition fetch_begin :: "bpm \<Rightarrow> page_id \<Rightarrow> fetch_choice \<times> bpm" where
  "fetch_begin b pid =
     (let i = partition_of b pid; part = partitions b i
      in case map_of (page_table part) pid of
           Some f \<Rightarrow>
             if frame_io_in_progress b f then (FWait, b)
             else if frame_writeback_in_progress b f \<and> \<not> frame_writeback_snapshot_ready b f then (FWait, b)
             else (FHit f, mark_frame_pinned (upd_page b f (\<lambda>pg. pg\<lparr>pin_count := pin_count pg + 1\<rparr>)) i f)
         | None \<Rightarrow>
             if pid \<in> set (inflight_page_loads part) then (FWait, b) else start_load b i pid)"

text \<open>The victim is written back, when it is dirty, behind the write-ahead log barrier.\<close>

definition evict_writeback :: "nat \<Rightarrow> frame_id_t \<Rightarrow> page_id \<Rightarrow> bool \<Rightarrow> storage \<Rightarrow> unit outcome \<times> storage" where
  "evict_writeback i f vid dirty st =
     (if dirty
      then let t = snapshot_task (bp st) \<lparr>partition_idx = i, task_frame = f, task_page_id = vid, task_generation = 0,
                     was_dirty = True, task_lsn = INVALID_LSN, task_wal_state = kClean, task_data = []\<rparr>
        in obind (flush_wal_for_tasks [t]) (\<lambda>_. disk_write (task_page_id t) (task_data t)) st
      else (Ret (), st))"

definition fetch_rollback :: "bpm \<Rightarrow> nat \<Rightarrow> frame_id_t \<Rightarrow> page_id \<Rightarrow> page_id \<Rightarrow> bpm" where
  "fetch_rollback b i f vid pid =
     (let b1 = upd_part b i (\<lambda>p. p\<lparr>inflight_page_loads := removeAll pid (inflight_page_loads p)\<rparr>);
          b2 = b1\<lparr>frame_io_in_progress := (frame_io_in_progress b1)(f := False)\<rparr>
      in if page_no vid = INVALID_PAGE_ID then return_free_frame b2 i f else mark_frame_evictable b2 i f False)"

definition install_page :: "bpm \<Rightarrow> nat \<Rightarrow> frame_id_t \<Rightarrow> page_id \<Rightarrow> page_id \<Rightarrow> byte list \<Rightarrow> bpm" where
  "install_page b i f vid pid bs =
     (let b1 = (if page_no vid \<noteq> INVALID_PAGE_ID
                then let b0 = (if is_dirty (pages b f)
                               then snd (erase_dirty_page (upd_page b f (\<lambda>pg. pg\<lparr>is_dirty := False\<rparr>)) i vid) else b)
                  in upd_part b0 i (\<lambda>p. p\<lparr>page_table := AList.delete vid (page_table p)\<rparr>)
                else b);
          b2 = upd_page b1 f (\<lambda>pg. (reset_memory pg)\<lparr>pg_id := pid, data := bs, is_dirty := False, is_evictable := False,
                 pin_count := 1, resident_pin_count := 0, dirty_generation := 0\<rparr>);
          b3 = upd_part b2 i (\<lambda>p. p\<lparr>page_table := AList.update pid f (page_table p),
                 inflight_page_loads := removeAll pid (inflight_page_loads p)\<rparr>)
      in b3\<lparr>frame_io_in_progress := (frame_io_in_progress b3)(f := False)\<rparr>)"

text \<open>\<open>Ret None\<close> is the null pointer.\<close>

definition fetch_page :: "page_id \<Rightarrow> storage \<Rightarrow> frame_id_t option outcome \<times> storage" where
  "fetch_page pid st =
     (let i = partition_of (bp st) pid
      in case fetch_begin (bp st) pid of
           (FHit f, b) \<Rightarrow> (Ret (Some f), st\<lparr>bp := b\<rparr>)
         | (FWait, b) \<Rightarrow> (Wait, st\<lparr>bp := b\<rparr>)
         | (FNoFrame, b) \<Rightarrow> (Ret None, st\<lparr>bp := b\<rparr>)
         | (FMiss f vid dirty, b) \<Rightarrow>
             (case evict_writeback i f vid dirty (st\<lparr>bp := b\<rparr>) of
                (Throw e, st1) \<Rightarrow> (Throw e, st1\<lparr>bp := fetch_rollback (bp st1) i f vid pid\<rparr>)
              | (Wait, st1) \<Rightarrow> (Wait, st1)
              | (Ret _, st1) \<Rightarrow>
                  (case read_page (dsk st1) (fd pid) (page_no pid) PAGE_SIZE of
                     Throw e \<Rightarrow> (Throw e, st1\<lparr>bp := fetch_rollback (bp st1) i f vid pid\<rparr>)
                   | Wait \<Rightarrow> (Wait, st1)
                   | Ret bs \<Rightarrow> (Ret (Some f), st1\<lparr>bp := install_page (bp st1) i f vid pid bs\<rparr>))))"

definition unpin_frame :: "bpm \<Rightarrow> nat \<Rightarrow> frame_id_t \<Rightarrow> bool \<Rightarrow> bpm" where
  "unpin_frame b i f dirty =
     (let b1 = upd_page b f (\<lambda>pg. pg\<lparr>pin_count := pin_count pg - 1\<rparr>);
          b2 = (if dirty then register_dirty_page b1 i f else b1)
      in mark_frame_evictable b2 i f False)"

definition unpin_page_id :: "page_id \<Rightarrow> bool \<Rightarrow> bpm \<Rightarrow> bool \<times> bpm" where
  "unpin_page_id pid dirty b =
     (let i = partition_of b pid
      in case map_of (page_table (partitions b i)) pid of
           None \<Rightarrow> (False, b)
         | Some f \<Rightarrow>
             if pin_count (pages b f) \<le> resident_pin_count (pages b f) then (False, b)
             else (True, unpin_frame b i f dirty))"

definition unpin_page_impl :: "frame_id_t \<Rightarrow> bool \<Rightarrow> bool \<Rightarrow> bpm \<Rightarrow> bool \<times> bpm" where
  "unpin_page_impl f dirty release_resident_pin b =
     (let pg = pages b f; i = partition_of b (pg_id pg); part = partitions b i
      in if f \<ge> pool_size b \<or> page_no (pg_id pg) = INVALID_PAGE_ID then (False, b)
         else if f < frame_begin part \<or> f \<ge> frame_end part \<or> pin_count pg \<le> 0 then (False, b)
         else if release_resident_pin
         then if resident_pin_count pg \<le> 0 then (False, b)
              else (True, unpin_frame (upd_page b f (\<lambda>pg. pg\<lparr>resident_pin_count := resident_pin_count pg - 1\<rparr>)) i f dirty)
         else if pin_count pg \<le> resident_pin_count pg then (False, b)
         else (True, unpin_frame b i f dirty))"

definition unpin_page :: "frame_id_t \<Rightarrow> bool \<Rightarrow> bpm \<Rightarrow> bool \<times> bpm" where
  "unpin_page f dirty b = unpin_page_impl f dirty False b"

definition release_resident_page :: "frame_id_t \<Rightarrow> bool \<Rightarrow> bpm \<Rightarrow> bool \<times> bpm" where
  "release_resident_page f dirty b = unpin_page_impl f dirty True b"

definition fetch_resident_page :: "page_id \<Rightarrow> storage \<Rightarrow> frame_id_t option outcome \<times> storage" where
  "fetch_resident_page pid =
     obind (fetch_page pid) (\<lambda>r st.
       case r of
         None \<Rightarrow> (Ret None, st)
       | Some f \<Rightarrow>
           (let pg = pages (bp st) f
            in if pg_id pg = pid \<and> pin_count pg > resident_pin_count pg
               then (Ret (Some f), st\<lparr>bp := upd_page (bp st) f (\<lambda>pg. pg\<lparr>resident_pin_count := resident_pin_count pg + 1\<rparr>)\<rparr>)
               else (Ret None, st\<lparr>bp := snd (unpin_page_id pid False (bp st))\<rparr>)))"

definition flush_page :: "page_id \<Rightarrow> storage \<Rightarrow> bool outcome \<times> storage" where
  "flush_page pid = writeback_page pid False False"

text \<open>\<open>Ret (Some (f, pid))\<close> is the new page and its identifier; every attempt takes a new page number.\<close>

fun new_page_loop :: "nat \<Rightarrow> int \<Rightarrow> storage \<Rightarrow> (frame_id_t \<times> page_id) option outcome \<times> storage" where
  "new_page_loop 0 file st = (Ret None, st)"
| "new_page_loop (Suc n) file st =
     (case allocate_page (dsk st) file of (pno, d) \<Rightarrow>
       (let st0 = st\<lparr>dsk := d\<rparr>; pid = \<lparr>fd = file, page_no = pno\<rparr>; i = partition_of (bp st0) pid
        in case start_load (bp st0) i pid of
             (FMiss f vid dirty, b) \<Rightarrow>
               (case evict_writeback i f vid dirty (st0\<lparr>bp := b\<rparr>) of
                  (Throw e, st1) \<Rightarrow> (Throw e, st1\<lparr>bp := fetch_rollback (bp st1) i f vid pid\<rparr>)
                | (Wait, st1) \<Rightarrow> (Wait, st1)
                | (Ret _, st1) \<Rightarrow> (Ret (Some (f, pid)), st1\<lparr>bp := install_page (bp st1) i f vid pid (replicate PAGE_SIZE 0)\<rparr>))
           | (_, b) \<Rightarrow> new_page_loop n file (st0\<lparr>bp := b\<rparr>)))"

definition new_page :: "int \<Rightarrow> storage \<Rightarrow> (frame_id_t \<times> page_id) option outcome \<times> storage" where
  "new_page file st = new_page_loop (num_partitions (bp st)) file st"

text \<open>
  The loop of \<open>delete_page\<close> starts again after it wrote the page back. The model runs the call without
  interference: the second round finds the page clean, so that \<open>Wait\<close> after two rounds stands for a page some other thread keeps dirtying.
\<close>

fun delete_page_loop :: "nat \<Rightarrow> page_id \<Rightarrow> storage \<Rightarrow> bool outcome \<times> storage" where
  "delete_page_loop 0 pid st = (Wait, st)"
| "delete_page_loop (Suc n) pid st =
     (let b = bp st; i = partition_of b pid; part = partitions b i
      in case map_of (page_table part) pid of
           None \<Rightarrow> if pid \<in> set (inflight_page_loads part) then (Wait, st) else (Ret True, st)
         | Some f \<Rightarrow>
             if frame_io_in_progress b f \<or> frame_writeback_in_progress b f then (Wait, st)
             else if pin_count (pages b f) \<noteq> 0 then (Ret False, st)
             else if is_dirty (pages b f) then obind (writeback_page pid True False) (\<lambda>_. delete_page_loop n pid) st
             else (Ret True, st\<lparr>bp := return_free_frame
                     (update_page (mark_frame_pinned b i f) i \<lparr>fd = fd pid, page_no = INVALID_PAGE_ID\<rparr> f) i f\<rparr>))"

definition delete_page :: "page_id \<Rightarrow> storage \<Rightarrow> bool outcome \<times> storage" where
  "delete_page pid = delete_page_loop 2 pid"

subsection \<open>Flushing many pages\<close>

definition all_parts :: "bpm \<Rightarrow> partition list" where
  "all_parts b = map (partitions b) [0..<num_partitions b]"

fun writeback_pages :: "page_id list \<Rightarrow> bool \<Rightarrow> bool \<Rightarrow> storage \<Rightarrow> unit outcome \<times> storage" where
  "writeback_pages [] require_dirty skip st = (Ret (), st)"
| "writeback_pages (pid # pids) require_dirty skip st =
     obind (writeback_page pid require_dirty skip) (\<lambda>_. writeback_pages pids require_dirty skip) st"

definition cached_pages :: "bpm \<Rightarrow> int \<Rightarrow> page_id list" where
  "cached_pages b file = filter (\<lambda>pid. fd pid = file) (concat (map (\<lambda>part. map fst (page_table part)) (all_parts b)))"

definition flush_all_pages :: "int \<Rightarrow> storage \<Rightarrow> unit outcome \<times> storage" where
  "flush_all_pages file st = writeback_pages (cached_pages (bp st) file) False False st"

definition flush_dirty_pages :: "int \<Rightarrow> storage \<Rightarrow> unit outcome \<times> storage" where
  "flush_dirty_pages file st =
     writeback_pages (filter (\<lambda>pid. fd pid = file) (concat (map dirty_pages (all_parts (bp st))))) True False st"

definition flush_all_dirty_pages :: "storage \<Rightarrow> unit outcome \<times> storage" where
  "flush_all_dirty_pages st = writeback_pages (concat (map dirty_pages (all_parts (bp st)))) True True st"

fun delete_pages :: "page_id list \<Rightarrow> storage \<Rightarrow> bool outcome \<times> storage" where
  "delete_pages [] st = (Ret True, st)"
| "delete_pages (pid # pids) st =
     obind (delete_page pid) (\<lambda>ok. if ok then delete_pages pids else (\<lambda>st. (Ret False, st))) st"

definition discard_all_pages :: "int \<Rightarrow> storage \<Rightarrow> bool outcome \<times> storage" where
  "discard_all_pages file st =
     (let b = bp st
      in if \<exists>part \<in> set (all_parts b). \<exists>e \<in> set (page_table part). fd (fst e) = file \<and> pin_count (pages b (snd e)) \<noteq> 0
         then (Ret False, st) else delete_pages (cached_pages b file) st)"

fun prepare_cold :: "bpm \<Rightarrow> nat \<Rightarrow> page_id list \<Rightarrow> frame_id_t list \<Rightarrow> writeback_task option \<times> bpm" where
  "prepare_cold b i attempted [] = (None, b)"
| "prepare_cold b i attempted (f # fs) =
     (if \<not> is_dirty (pages b f) \<or> pg_id (pages b f) \<in> set attempted then prepare_cold b i attempted fs
      else case prepare_writeback_locked b i f True True of
        (Some t, b1) \<Rightarrow> (Some t, b1)
      | (None, b1) \<Rightarrow> prepare_cold b1 i attempted fs)"

fun prepare_listed :: "bpm \<Rightarrow> nat \<Rightarrow> page_id list \<Rightarrow> page_id list \<Rightarrow> writeback_task option \<times> bpm" where
  "prepare_listed b i attempted [] = (None, b)"
| "prepare_listed b i attempted (pid # pids) =
     (if pid \<in> set attempted then prepare_listed b i attempted pids
      else case map_of (page_table (partitions b i)) pid of
        None \<Rightarrow> prepare_listed (snd (erase_dirty_page b i pid)) i attempted pids
      | Some f \<Rightarrow>
          if \<not> is_dirty (pages b f) then prepare_listed (snd (erase_dirty_page b i pid)) i attempted pids
          else (case prepare_writeback_locked b i f True True of
                  (Some t, b1) \<Rightarrow> (Some t, b1)
                | (None, b1) \<Rightarrow> prepare_listed b1 i attempted pids))"

definition prepare_one_dirty_page :: "bpm \<Rightarrow> nat \<Rightarrow> page_id list \<Rightarrow> writeback_task option \<times> bpm" where
  "prepare_one_dirty_page b i attempted =
     (if i \<ge> num_partitions b then (None, b)
      else case prepare_cold b i attempted (cold_candidates (part_replacer (partitions b i)) 128) of
        (Some t, b1) \<Rightarrow> (Some t, b1)
      | (None, b1) \<Rightarrow> prepare_listed b1 i attempted (dirty_pages (partitions b1 i)))"

text \<open>One round over the partitions; then rounds while they add tasks, at most \<open>max_pages\<close> of them.\<close>

fun batch_round :: "nat \<Rightarrow> bool \<Rightarrow> nat list \<Rightarrow> bpm \<Rightarrow> writeback_task list \<Rightarrow> writeback_task list \<times> bpm" where
  "batch_round max_pages pressure_only [] b tasks = (tasks, b)"
| "batch_round max_pages pressure_only (idx # idxs) b tasks =
     (if length tasks \<ge> max_pages then (tasks, b)
      else if pressure_only \<and> \<not> partition_needs_cleaning b idx then batch_round max_pages pressure_only idxs b tasks
      else case prepare_one_dirty_page b idx (map task_page_id tasks) of
        (Some t, b1) \<Rightarrow> batch_round max_pages pressure_only idxs b1 (tasks @ [t])
      | (None, b1) \<Rightarrow> batch_round max_pages pressure_only idxs b1 tasks)"

fun batch_rounds :: "nat \<Rightarrow> nat \<Rightarrow> bool \<Rightarrow> nat \<Rightarrow> bpm \<Rightarrow> writeback_task list \<Rightarrow> writeback_task list \<times> bpm" where
  "batch_rounds 0 max_pages pressure_only start b tasks = (tasks, b)"
| "batch_rounds (Suc n) max_pages pressure_only start b tasks =
     (if length tasks \<ge> max_pages then (tasks, b)
      else case batch_round max_pages pressure_only (map (\<lambda>k. (start + k) mod num_partitions b) [0..<num_partitions b]) b tasks of
        (tasks1, b1) \<Rightarrow>
          if length tasks1 = length tasks then (tasks1, b1)
          else batch_rounds n max_pages pressure_only ((start + 1) mod num_partitions b) b1 tasks1)"

definition relax_masks :: "bpm \<Rightarrow> nat \<Rightarrow> bpm" where
  "relax_masks b i =
     (let part = partitions b i;
          b1 = (if dirty_count part \<le> dirty_low_watermark part
                then b\<lparr>dirty_pressure_mask := dirty_pressure_mask b AND NOT (mask_bit i)\<rparr> else b)
      in if dirty_count part = 0 \<or> clean_available_count part \<ge> clean_target part
         then b1\<lparr>urgent_partition_mask := urgent_partition_mask b1 AND NOT (mask_bit i)\<rparr> else b1)"

definition flush_dirty_batch :: "nat \<Rightarrow> nat \<Rightarrow> bool \<Rightarrow> bool \<Rightarrow> storage \<Rightarrow> (nat \<times> nat) outcome \<times> storage" where
  "flush_dirty_batch max_pages dirty_threshold skip_wal_barrier pressure_only st =
     (let b = bp st
      in if max_pages = 0 \<or> num_partitions b = 0 then (Ret (0, 0), st)
         else if \<not> pressure_only \<and> dirty_page_count b \<le> dirty_threshold then (Ret (0, 0), st)
         else let start = flush_round_robin_cursor b mod num_partitions b;
                  (tasks, b1) = batch_rounds max_pages max_pages pressure_only start
                                  (b\<lparr>flush_round_robin_cursor := Suc (flush_round_robin_cursor b)\<rparr>) []
           in if tasks = [] then (Ret (0, 0), st\<lparr>bp := b1\<rparr>)
              else obind (perform_writeback_batch tasks skip_wal_barrier)
                     (\<lambda>res s. (Ret res, s\<lparr>bp := foldl relax_masks (bp s) [0..<num_partitions (bp s)]\<rparr>)) (st\<lparr>bp := b1\<rparr>))"

definition flush_some_dirty_pages_impl :: "nat \<Rightarrow> nat \<Rightarrow> bool \<Rightarrow> storage \<Rightarrow> nat outcome \<times> storage" where
  "flush_some_dirty_pages_impl max_pages dirty_threshold skip_wal_barrier =
     obind (flush_dirty_batch max_pages dirty_threshold skip_wal_barrier False) (\<lambda>res st. (Ret (fst res), st))"

definition flush_some_dirty_pages_after_wal :: "nat \<Rightarrow> nat \<Rightarrow> storage \<Rightarrow> nat outcome \<times> storage" where
  "flush_some_dirty_pages_after_wal max_pages dirty_threshold = flush_some_dirty_pages_impl max_pages dirty_threshold True"

definition flush_some_dirty_pages :: "nat \<Rightarrow> nat \<Rightarrow> storage \<Rightarrow> nat outcome \<times> storage" where
  "flush_some_dirty_pages max_pages dirty_threshold = flush_some_dirty_pages_impl max_pages dirty_threshold False"

subsection \<open>The page cleaner\<close>

definition cleaner_pressure :: "bpm \<Rightarrow> bool" where
  "cleaner_pressure b \<longleftrightarrow> dirty_page_count b > page_cleaner_dirty_threshold b \<or>
     (adaptive_cleaner_enabled b \<and> (\<exists>i \<in> set [0..<num_partitions b]. partition_needs_cleaning b i))"

definition StartPageCleaner :: "nat \<Rightarrow> nat \<Rightarrow> bool \<Rightarrow> bpm \<Rightarrow> bpm" where
  "StartPageCleaner batch_pages dirty_threshold adaptive b =
     (if page_cleaner_started b then b
      else b\<lparr>page_cleaner_started := True, stop_page_cleaner := False, page_cleaner_batch_pages := batch_pages,
             page_cleaner_dirty_threshold := dirty_threshold, adaptive_cleaner_enabled := adaptive\<rparr>)"

text \<open>Whether the cleaner is notified.\<close>

definition NudgePageCleaner :: "bpm \<Rightarrow> bool" where
  "NudgePageCleaner b \<longleftrightarrow> page_cleaner_started b \<and> cleaner_pressure b"

definition StopPageCleaner :: "bpm \<Rightarrow> bpm" where
  "StopPageCleaner b = (if page_cleaner_started b then b\<lparr>page_cleaner_started := False, stop_page_cleaner := False\<rparr> else b)"

text \<open>
  One turn of \<open>PageCleanerMain\<close>: it waits for pressure, cleans a batch, and swallows exceptions.
\<close>

definition page_cleaner_turn :: "storage \<Rightarrow> unit outcome \<times> storage" where
  "page_cleaner_turn st =
     (let b = bp st
      in if \<not> page_cleaner_started b \<or> stop_page_cleaner b \<or> \<not> cleaner_pressure b then (Wait, st)
         else case flush_dirty_batch (page_cleaner_batch_pages b) (page_cleaner_dirty_threshold b) False
                     (dirty_page_count b \<le> page_cleaner_dirty_threshold b) st of
           (Ret (written, cleaned), s) \<Rightarrow>
             (Ret (), s\<lparr>bp := (bp s)\<lparr>cleaner_pages_written := cleaner_pages_written (bp s) + written,
                                     cleaner_pages_cleaned := cleaner_pages_cleaned (bp s) + cleaned\<rparr>\<rparr>)
         | (Throw e, s) \<Rightarrow> (Ret (), s)
         | (Wait, s) \<Rightarrow> (Wait, s))"

text \<open>The oldest LSN a dirty page depends on: \<open>Inl\<close> is the early return of 0.\<close>

fun oldest_scan :: "bpm \<Rightarrow> nat \<Rightarrow> page_id list \<Rightarrow> lsn_t \<Rightarrow> page_id list \<Rightarrow> unit + lsn_t \<times> page_id list" where
  "oldest_scan b i [] oldest stale = Inr (oldest, stale)"
| "oldest_scan b i (pid # pids) oldest stale =
     (case map_of (page_table (partitions b i)) pid of
        None \<Rightarrow> oldest_scan b i pids oldest (stale @ [pid])
      | Some f \<Rightarrow>
          (let pg = pages b f
           in if \<not> is_dirty pg then oldest_scan b i pids oldest (stale @ [pid])
              else if wal_state pg \<noteq> kWalBacked \<or> page_lsn pg = INVALID_LSN then Inl ()
              else oldest_scan b i pids (if oldest = INVALID_LSN \<or> page_lsn pg < oldest then page_lsn pg else oldest) stale))"

fun oldest_loop :: "nat list \<Rightarrow> lsn_t \<Rightarrow> bpm \<Rightarrow> lsn_t \<times> bpm" where
  "oldest_loop [] oldest b = (oldest, b)"
| "oldest_loop (i # is) oldest b =
     (case oldest_scan b i (dirty_pages (partitions b i)) oldest [] of
        Inl _ \<Rightarrow> (0, b)
      | Inr (oldest1, stale) \<Rightarrow> oldest_loop is oldest1 (foldl (\<lambda>b pid. snd (erase_dirty_page b i pid)) b stale))"

definition oldest_dirty_lsn :: "bpm \<Rightarrow> lsn_t \<times> bpm" where
  "oldest_dirty_lsn b = oldest_loop [0..<num_partitions b] INVALID_LSN b"

end
