(* ===== verification/Rmdb_Buffer_Inv.thy ===== *)
theory Rmdb_Buffer_Inv
  imports Rmdb_Buffer_Pool
begin

text \<open>
  The structural invariant of the buffer pool and its preservation by every part of every operation between two
  latch boundaries. The invariant describes states in which frames are being
  loaded (\<open>frame_io_in_progress\<close>) or written back (\<open>frame_writeback_in_progress\<close>), so it
  holds at every point where another thread can take a partition latch.
\<close>

abbreviation valid :: "page \<Rightarrow> bool" where
  "valid p \<equiv> page_no (pg_id p) \<noteq> INVALID_PAGE_ID"

abbreviation own :: "bpm \<Rightarrow> nat \<Rightarrow> frame_id_t set" where
  "own b i \<equiv> {frame_begin (partitions b i)..<frame_end (partitions b i)}"

text \<open>One frame: its page and the two flags.\<close>

definition frame_ok :: "page \<Rightarrow> bool \<Rightarrow> bool \<Rightarrow> bool" where
  "frame_ok p io wb \<longleftrightarrow>
     length (data p) = PAGE_SIZE \<and> sidecar_ok p \<and> 0 \<le> resident_pin_count p \<and> resident_pin_count p \<le> pin_count p \<and>
     (is_evictable p \<longleftrightarrow> valid p \<and> pin_count p = 0 \<and> \<not> io) \<and>
     (is_dirty p \<longrightarrow> valid p \<and> wal_state p \<noteq> kClean) \<and>
     (wb \<longrightarrow> valid p \<and> resident_pin_count p < pin_count p \<and> \<not> io) \<and>
     (io \<longrightarrow> pin_count p = 0) \<and> (\<not> valid p \<longrightarrow> pin_count p = 0)"

text \<open>
  One partition: its frames \<open>S\<close>, the pages \<open>V\<close>, the page table, the dirty set, the free list and
  the queue of the replacer describe each other.
\<close>

definition part_ok :: "nat set \<Rightarrow> (nat \<Rightarrow> page) \<Rightarrow> (nat \<Rightarrow> bool) \<Rightarrow> (page_id \<times> nat) list \<Rightarrow> page_id list \<Rightarrow> nat list \<Rightarrow> nat list \<Rightarrow> bool" where
  "part_ok S V io pt D F Q \<longleftrightarrow>
     distinct (map fst pt) \<and> distinct D \<and> distinct F \<and> distinct Q \<and>
     (\<forall>pid g. map_of pt pid = Some g \<longleftrightarrow> g \<in> S \<and> pg_id (V g) = pid \<and> valid (V g)) \<and>
     (\<forall>g. g \<in> set Q \<longleftrightarrow> g \<in> S \<and> is_evictable (V g)) \<and>
     (\<forall>g. g \<in> set F \<longleftrightarrow> g \<in> S \<and> \<not> valid (V g) \<and> \<not> io g) \<and>
     (\<forall>pid. pid \<in> set D \<longleftrightarrow> (\<exists>g \<in> S. is_dirty (V g) \<and> pg_id (V g) = pid))"

definition bpm_part_inv :: "bpm \<Rightarrow> nat \<Rightarrow> bool" where
  "bpm_part_inv b i \<longleftrightarrow> (let p = partitions b i in
     part_ok (own b i) (pages b) (frame_io_in_progress b) (page_table p) (dirty_pages p) (free_list p) (frames (part_replacer p)) \<and>
     lru_inv (part_replacer p) \<and> dirty_count p = length (dirty_pages p) \<and>
     clean_available_count p = length (free_list p) + length (filter (\<lambda>g. \<not> is_dirty (pages b g)) (frames (part_replacer p))) \<and>
     (\<forall>g \<in> own b i. valid (pages b g) \<longrightarrow> partition_of b (pg_id (pages b g)) = i) \<and>
     distinct (inflight_page_loads p) \<and>
     (\<forall>pid \<in> set (inflight_page_loads p). map_of (page_table p) pid = None \<and> partition_of b pid = i \<and> page_no pid \<noteq> INVALID_PAGE_ID) \<and>
     frame_end p \<le> pool_size b)"

definition bpm_inv :: "bpm \<Rightarrow> bool" where
  "bpm_inv b \<longleftrightarrow>
     0 < num_partitions b \<and> (\<forall>i < num_partitions b. bpm_part_inv b i) \<and>
     (\<forall>i < num_partitions b. \<forall>j < num_partitions b. i \<noteq> j \<longrightarrow> own b i \<inter> own b j = {}) \<and>
     (\<forall>i < num_partitions b. \<forall>f \<in> own b i. frame_ok (pages b f) (frame_io_in_progress b f) (frame_writeback_in_progress b f)) \<and>
     dirty_page_count b = (\<Sum>i < num_partitions b. dirty_count (partitions b i))"

text \<open>The general step on one frame \<open>f\<close>, whose page becomes \<open>p'\<close>.\<close>

lemma part_ok_step:
  assumes ok: "part_ok S V io pt D F Q" and f: "f \<in> S" and io: "\<And>g. g \<noteq> f \<Longrightarrow> io' g = io g"
    and dv: "\<And>g. g \<in> S \<Longrightarrow> is_dirty (V g) \<Longrightarrow> valid (V g)" and dv': "is_dirty p' \<Longrightarrow> valid p'"
    and pt: "distinct (map fst pt')"
      "\<And>pid. map_of pt' pid = (if valid p' \<and> pid = pg_id p' then Some f
         else if valid (V f) \<and> pid = pg_id (V f) then None else map_of pt pid)"
      "valid p' \<Longrightarrow> map_of pt (pg_id p') = None \<or> map_of pt (pg_id p') = Some f"
    and D: "distinct D'" "set D' = (set D - (if is_dirty (V f) then {pg_id (V f)} else {})) \<union> (if is_dirty p' then {pg_id p'} else {})"
    and F: "distinct F'" "set F' = (if \<not> valid p' \<and> \<not> io' f then insert f (set F) else set F - {f})"
    and Q: "distinct Q'" "set Q' = (if is_evictable p' then insert f (set Q) else set Q - {f})"
  shows "part_ok S (V(f := p')) io' pt' D' F' Q'"
proof -
  let ?V = "V(f := p')"
  have P: "\<And>pid g. map_of pt pid = Some g \<longleftrightarrow> g \<in> S \<and> pg_id (V g) = pid \<and> valid (V g)"
    and QQ: "\<And>g. g \<in> set Q \<longleftrightarrow> g \<in> S \<and> is_evictable (V g)"
    and FF: "\<And>g. g \<in> set F \<longleftrightarrow> g \<in> S \<and> \<not> valid (V g) \<and> \<not> io g"
    and DD: "\<And>pid. pid \<in> set D \<longleftrightarrow> (\<exists>g \<in> S. is_dirty (V g) \<and> pg_id (V g) = pid)"
    using ok unfolding part_ok_def by blast+
  have uniq: "g \<in> S \<Longrightarrow> valid (V g) \<Longrightarrow> valid (V f) \<Longrightarrow> pg_id (V g) = pg_id (V f) \<Longrightarrow> g = f" for g
    using P [of "pg_id (V f)" g] P [of "pg_id (V f)" f] f by simp
  have fresh: "g \<in> S \<Longrightarrow> g \<noteq> f \<Longrightarrow> valid (V g) \<Longrightarrow> valid p' \<Longrightarrow> pg_id (V g) \<noteq> pg_id p'" for g
    using pt(3) P [of "pg_id p'" g] by auto
  have p1: "map_of pt' pid = Some g \<longleftrightarrow> g \<in> S \<and> pg_id (?V g) = pid \<and> valid (?V g)" for pid g
  proof (cases "g = f")
    case True
    then show ?thesis using pt(2) P [of pid f] f by auto
  next
    case False
    show ?thesis using pt(2) [of pid] P [of pid g] uniq [of g] fresh [of g] False by auto
  qed
  have d1: "pid \<in> set D' \<longleftrightarrow> (\<exists>g \<in> S. is_dirty (?V g) \<and> pg_id (?V g) = pid)" for pid
  proof
    assume "pid \<in> set D'"
    then consider "is_dirty p'" "pid = pg_id p'" | "pid \<in> set D" "is_dirty (V f) \<longrightarrow> pid \<noteq> pg_id (V f)"
      using D(2) by (auto split: if_splits)
    then show "\<exists>g \<in> S. is_dirty (?V g) \<and> pg_id (?V g) = pid"
    proof cases
      case 1
      then show ?thesis using f by auto
    next
      case 2
      then obtain g where g: "g \<in> S" "is_dirty (V g)" "pg_id (V g) = pid" using DD by blast
      then have "g \<noteq> f" using 2(2) by auto
      then show ?thesis using g by auto
    qed
  next
    assume "\<exists>g \<in> S. is_dirty (?V g) \<and> pg_id (?V g) = pid"
    then obtain g where g: "g \<in> S" "is_dirty (?V g)" "pg_id (?V g) = pid" by blast
    show "pid \<in> set D'"
    proof (cases "g = f")
      case True
      then show ?thesis using g D(2) by auto
    next
      case False
      then have m: "pid \<in> set D" "valid (V g)" using g DD dv by auto
      moreover have "is_dirty (V f) \<Longrightarrow> pid \<noteq> pg_id (V f)" using uniq [of g] m g False dv [OF f] by auto
      ultimately show ?thesis using D(2) by auto
    qed
  qed
  have q1: "g \<in> set Q' \<longleftrightarrow> g \<in> S \<and> is_evictable (?V g)" for g using Q(2) QQ [of g] f by auto
  have f1: "g \<in> set F' \<longleftrightarrow> g \<in> S \<and> \<not> valid (?V g) \<and> \<not> io' g" for g
    using F(2) FF [of g] f io [of g] by (cases "g = f") auto
  show ?thesis unfolding part_ok_def using p1 q1 f1 d1 pt(1) D(1) F(1) Q(1) by blast
qed

lemma part_ok_frame:
  assumes "part_ok S V io pt D F Q" and "\<And>g. g \<in> S \<Longrightarrow> V' g = V g" and "\<And>g. g \<in> S \<Longrightarrow> io' g = io g"
  shows "part_ok S V' io' pt D F Q"
proof -
  have "(\<exists>g \<in> S. is_dirty (V' g) \<and> pg_id (V' g) = pid) \<longleftrightarrow> (\<exists>g \<in> S. is_dirty (V g) \<and> pg_id (V g) = pid)" for pid
    using assms(2) by auto
  then show ?thesis using assms unfolding part_ok_def by (simp cong: conj_cong)
qed

text \<open>The step on the whole pool: frame \<open>f\<close> of partition \<open>i\<close> changes, and partition \<open>i\<close>.\<close>

lemma bpm_inv_step:
  assumes inv: "bpm_inv b" and i: "i < num_partitions b" and f: "f \<in> own b i"
    and st: "pool_size b' = pool_size b" "num_partitions b' = num_partitions b"
      "\<And>j. j \<noteq> i \<Longrightarrow> partitions b' j = partitions b j"
      "frame_begin (partitions b' i) = frame_begin (partitions b i)" "frame_end (partitions b' i) = frame_end (partitions b i)"
    and pg: "pages b' = (pages b)(f := p')"
    and fl: "\<And>g. g \<noteq> f \<Longrightarrow> frame_io_in_progress b' g = frame_io_in_progress b g"
      "\<And>g. g \<noteq> f \<Longrightarrow> frame_writeback_in_progress b' g = frame_writeback_in_progress b g"
    and fok: "frame_ok p' (frame_io_in_progress b' f) (frame_writeback_in_progress b' f)"
    and lru: "lru_inv (part_replacer (partitions b' i))"
    and pok: "part_ok (own b i) (pages b') (frame_io_in_progress b') (page_table (partitions b' i)) (dirty_pages (partitions b' i))
       (free_list (partitions b' i)) (frames (part_replacer (partitions b' i)))"
    and cnt: "dirty_count (partitions b' i) = length (dirty_pages (partitions b' i))"
      "clean_available_count (partitions b' i) = length (free_list (partitions b' i)) +
         length (filter (\<lambda>g. \<not> is_dirty (pages b' g)) (frames (part_replacer (partitions b' i))))"
      "dirty_page_count b' + dirty_count (partitions b i) = dirty_page_count b + dirty_count (partitions b' i)"
    and pid: "valid p' \<Longrightarrow> partition_of b (pg_id p') = i"
    and infl: "distinct (inflight_page_loads (partitions b' i))"
      "\<And>q. q \<in> set (inflight_page_loads (partitions b' i)) \<Longrightarrow>
         map_of (page_table (partitions b' i)) q = None \<and> partition_of b q = i \<and> page_no q \<noteq> INVALID_PAGE_ID"
  shows "bpm_inv b'"
proof -
  let ?n = "num_partitions b"
  have po: "partition_of b' q = partition_of b q" for q using st(2) by (simp add: partition_of_def)
  have ow: "own b' j = own b j" for j using st(3-5) by (cases "j = i") auto
  have disj: "j < ?n \<Longrightarrow> j \<noteq> i \<Longrightarrow> f \<notin> own b j" for j using inv i f unfolding bpm_inv_def by blast
  have old: "j < ?n \<Longrightarrow> bpm_part_inv b j" for j using inv unfolding bpm_inv_def by blast
  have pi: "bpm_part_inv b' i"
  proof -
    have "\<forall>g \<in> own b i. valid (pages b' g) \<longrightarrow> partition_of b (pg_id (pages b' g)) = i"
      using old [OF i] pid unfolding bpm_part_inv_def Let_def pg by auto
    moreover have "frame_end (partitions b' i) \<le> pool_size b'" using old [OF i] st unfolding bpm_part_inv_def Let_def by simp
    ultimately show ?thesis using lru pok cnt infl unfolding bpm_part_inv_def Let_def ow po by blast
  qed
  have pj: "bpm_part_inv b' j" if j: "j < ?n" "j \<noteq> i" for j
  proof -
    have pgs: "\<And>g. g \<in> own b j \<Longrightarrow> pages b' g = pages b g" using disj [OF j] pg by auto
    have ios: "\<And>g. g \<in> own b j \<Longrightarrow> frame_io_in_progress b' g = frame_io_in_progress b g"
      using disj [OF j] fl(1) by (metis (full_types))
    let ?p = "partitions b j"
    have o: "part_ok (own b j) (pages b) (frame_io_in_progress b) (page_table ?p) (dirty_pages ?p) (free_list ?p) (frames (part_replacer ?p))"
      using old [OF j(1)] unfolding bpm_part_inv_def Let_def by blast
    have n: "part_ok (own b j) (pages b') (frame_io_in_progress b') (page_table ?p) (dirty_pages ?p) (free_list ?p) (frames (part_replacer ?p))"
      using part_ok_frame [OF o] pgs ios by blast
    have "set (frames (part_replacer ?p)) \<subseteq> own b j" using o unfolding part_ok_def by auto
    then have fe: "filter (\<lambda>g. \<not> is_dirty (pages b' g)) (frames (part_replacer ?p)) = filter (\<lambda>g. \<not> is_dirty (pages b g)) (frames (part_replacer ?p))"
      using pgs by (intro filter_cong) auto
    have "\<forall>g \<in> own b j. valid (pages b' g) \<longrightarrow> partition_of b (pg_id (pages b' g)) = j"
      using old [OF j(1)] pgs unfolding bpm_part_inv_def Let_def by simp
    then show ?thesis using old [OF j(1)] n unfolding bpm_part_inv_def Let_def ow po st(1) st(3) [OF j(2)] fe by blast
  qed
  have "(\<Sum>j < ?n. dirty_count (partitions b' j)) + dirty_count (partitions b i)
     = (\<Sum>j < ?n. dirty_count (partitions b j)) + dirty_count (partitions b' i)"
  proof -
    have "(\<Sum>j \<in> {..<?n} - {i}. dirty_count (partitions b' j)) = (\<Sum>j \<in> {..<?n} - {i}. dirty_count (partitions b j))"
      using st(3) by (intro sum.cong) auto
    then show ?thesis using i by (simp add: sum.remove [of "{..<?n}" i])
  qed
  then have dc: "dirty_page_count b' = (\<Sum>j < ?n. dirty_count (partitions b' j))"
    using cnt(3) inv unfolding bpm_inv_def by linarith
  have fo: "\<forall>j < ?n. \<forall>g \<in> own b j. frame_ok (pages b' g) (frame_io_in_progress b' g) (frame_writeback_in_progress b' g)"
  proof (intro allI impI ballI)
    fix j g assume "j < ?n" "g \<in> own b j"
    then show "frame_ok (pages b' g) (frame_io_in_progress b' g) (frame_writeback_in_progress b' g)"
      using inv fok fl pg unfolding bpm_inv_def by (cases "g = f") (auto simp del: atLeastLessThan_iff)
  qed
  have all: "\<forall>j < ?n. bpm_part_inv b' j" using pi pj by blast
  show ?thesis using inv all dc fo unfolding bpm_inv_def ow st(2) by blast
qed

end
