(* ===== verification/Rmdb_Buffer_Ops.thy ===== *)
theory Rmdb_Buffer_Ops
  imports Rmdb_Buffer_Inv
begin

text \<open>
  Preservation of the structural invariant by the operations of the buffer pool, one lemma for each
  section between two latch operations.
\<close>

subsection \<open>What the helper operations change\<close>

lemma upd_sel [simp]:
  "pages (upd_page b f g) = (pages b)(f := g (pages b f))" "partitions (upd_page b f g) = partitions b"
  "pool_size (upd_page b f g) = pool_size b" "num_partitions (upd_page b f g) = num_partitions b"
  "frame_io_in_progress (upd_page b f g) = frame_io_in_progress b"
  "frame_writeback_in_progress (upd_page b f g) = frame_writeback_in_progress b"
  "frame_writeback_snapshot_ready (upd_page b f g) = frame_writeback_snapshot_ready b"
  "dirty_page_count (upd_page b f g) = dirty_page_count b"
  "wal_barrier_set (upd_page b f g) = wal_barrier_set b" "batch_barrier_set (upd_page b f g) = batch_barrier_set b"
  "pages (upd_part b i h) = pages b" "partitions (upd_part b i h) = (partitions b)(i := h (partitions b i))"
  "pool_size (upd_part b i h) = pool_size b" "num_partitions (upd_part b i h) = num_partitions b"
  "frame_io_in_progress (upd_part b i h) = frame_io_in_progress b"
  "frame_writeback_in_progress (upd_part b i h) = frame_writeback_in_progress b"
  "frame_writeback_snapshot_ready (upd_part b i h) = frame_writeback_snapshot_ready b"
  "dirty_page_count (upd_part b i h) = dirty_page_count b"
  "wal_barrier_set (upd_part b i h) = wal_barrier_set b" "batch_barrier_set (upd_part b i h) = batch_barrier_set b"
  by (simp_all add: upd_page_def upd_part_def)

lemma notify_sel [simp]:
  "pages (notify_partition_pressure b i) = pages b" "partitions (notify_partition_pressure b i) = partitions b"
  "pool_size (notify_partition_pressure b i) = pool_size b" "num_partitions (notify_partition_pressure b i) = num_partitions b"
  "frame_io_in_progress (notify_partition_pressure b i) = frame_io_in_progress b"
  "frame_writeback_in_progress (notify_partition_pressure b i) = frame_writeback_in_progress b"
  "frame_writeback_snapshot_ready (notify_partition_pressure b i) = frame_writeback_snapshot_ready b"
  "dirty_page_count (notify_partition_pressure b i) = dirty_page_count b"
  "wal_barrier_set (notify_partition_pressure b i) = wal_barrier_set b" "batch_barrier_set (notify_partition_pressure b i) = batch_barrier_set b"
  by (simp_all add: notify_partition_pressure_def)

text \<open>The fields of the pool that no helper touches but through \<open>upd_page\<close> and \<open>upd_part\<close>.\<close>

definition same_static :: "bpm \<Rightarrow> bpm \<Rightarrow> bool" where
  "same_static b b' \<longleftrightarrow> pool_size b' = pool_size b \<and> num_partitions b' = num_partitions b \<and>
     wal_barrier_set b' = wal_barrier_set b \<and> batch_barrier_set b' = batch_barrier_set b"

lemma mark_frame_pinned_eff:
  "pages (mark_frame_pinned b i f) = (pages b)(f := (pages b f)\<lparr>is_evictable := False\<rparr>)"
  "partitions (mark_frame_pinned b i f) = (partitions b)(i := (partitions b i)
     \<lparr>part_replacer := (if is_evictable (pages b f) then pin (part_replacer (partitions b i)) f else part_replacer (partitions b i)),
      clean_available_count := (if is_evictable (pages b f) \<and> \<not> is_dirty (pages b f) then clean_available_count (partitions b i) - 1
                                else clean_available_count (partitions b i))\<rparr>)"
  "frame_io_in_progress (mark_frame_pinned b i f) = frame_io_in_progress b"
  "frame_writeback_in_progress (mark_frame_pinned b i f) = frame_writeback_in_progress b"
  "frame_writeback_snapshot_ready (mark_frame_pinned b i f) = frame_writeback_snapshot_ready b"
  "dirty_page_count (mark_frame_pinned b i f) = dirty_page_count b"
  "same_static b (mark_frame_pinned b i f)"
  by (auto simp: mark_frame_pinned_def Let_def same_static_def fun_eq_iff)

lemma mark_frame_evictable_eff:
  assumes "pin_count (pages b f) = 0" "\<not> is_evictable (pages b f)" "\<not> frame_io_in_progress b f" "\<not> frame_writeback_in_progress b f"
  shows
  "pages (mark_frame_evictable b i f c) = (pages b)(f := (pages b f)\<lparr>is_evictable := True\<rparr>)"
  "partitions (mark_frame_evictable b i f c) = (partitions b)(i := (partitions b i)
     \<lparr>part_replacer := (if c then unpin_cold (part_replacer (partitions b i)) f else unpin (part_replacer (partitions b i)) f),
      clean_available_count := (if \<not> is_dirty (pages b f) then Suc (clean_available_count (partitions b i))
                                else clean_available_count (partitions b i))\<rparr>)"
  "frame_io_in_progress (mark_frame_evictable b i f c) = frame_io_in_progress b"
  "frame_writeback_in_progress (mark_frame_evictable b i f c) = frame_writeback_in_progress b"
  "frame_writeback_snapshot_ready (mark_frame_evictable b i f c) = frame_writeback_snapshot_ready b"
  "dirty_page_count (mark_frame_evictable b i f c) = dirty_page_count b"
  "same_static b (mark_frame_evictable b i f c)"
  using assms by (auto simp: mark_frame_evictable_def Let_def same_static_def)

lemma mark_frame_evictable_pinned:
  "pin_count (pages b f) \<noteq> 0 \<Longrightarrow> mark_frame_evictable b i f c = b"
  by (simp add: mark_frame_evictable_def)

lemma erase_dirty_page_eff:
  assumes "pid \<in> set (dirty_pages (partitions b i))"
  shows
  "pages (snd (erase_dirty_page b i pid)) = pages b"
  "partitions (snd (erase_dirty_page b i pid)) = (partitions b)(i := (partitions b i)
     \<lparr>dirty_pages := remove1 pid (dirty_pages (partitions b i)), dirty_count := dirty_count (partitions b i) - 1\<rparr>)"
  "frame_io_in_progress (snd (erase_dirty_page b i pid)) = frame_io_in_progress b"
  "frame_writeback_in_progress (snd (erase_dirty_page b i pid)) = frame_writeback_in_progress b"
  "frame_writeback_snapshot_ready (snd (erase_dirty_page b i pid)) = frame_writeback_snapshot_ready b"
  "dirty_page_count (snd (erase_dirty_page b i pid)) = dirty_page_count b - 1"
  "same_static b (snd (erase_dirty_page b i pid))"
  using assms by (auto simp: erase_dirty_page_def Let_def same_static_def)

lemma register_dirty_page_eff:
  assumes "valid (pages b f)" and "is_dirty (pages b f) \<or> pg_id (pages b f) \<notin> set (dirty_pages (partitions b i))"
  shows
  "pages (register_dirty_page b i f) = (pages b)(f := (pages b f)\<lparr>is_dirty := True,
     wal_state := (if wal_state (pages b f) = kClean then kUnknown else wal_state (pages b f)),
     dirty_generation := Suc (dirty_generation (pages b f))\<rparr>)"
  "partitions (register_dirty_page b i f) = (if is_dirty (pages b f) then partitions b else (partitions b)(i := (partitions b i)
     \<lparr>dirty_pages := pg_id (pages b f) # dirty_pages (partitions b i), dirty_count := Suc (dirty_count (partitions b i))\<rparr>))"
  "frame_io_in_progress (register_dirty_page b i f) = frame_io_in_progress b"
  "frame_writeback_in_progress (register_dirty_page b i f) = frame_writeback_in_progress b"
  "frame_writeback_snapshot_ready (register_dirty_page b i f) = frame_writeback_snapshot_ready b"
  "dirty_page_count (register_dirty_page b i f) = (if is_dirty (pages b f) then dirty_page_count b else Suc (dirty_page_count b))"
  "same_static b (register_dirty_page b i f)"
  using assms by (auto simp: register_dirty_page_def Let_def same_static_def)

subsection \<open>Consequences of the invariant\<close>

lemma partition_of_less: "0 < num_partitions b \<Longrightarrow> partition_of b pid < num_partitions b"
proof -
  assume n: "0 < num_partitions b"
  have "PageIdHash pid AND of_nat (num_partitions b - 1) \<le> of_nat (num_partitions b - 1)"
    by (rule word_and_le1)
  then have "partition_of b pid \<le> unat (of_nat (num_partitions b - 1) :: 64 word)"
    unfolding partition_of_def by (simp add: word_le_nat_alt)
  also have "\<dots> \<le> num_partitions b - 1" by (simp add: unat_of_nat)
  finally show ?thesis using n by simp
qed

lemma bpm_invD:
  assumes "bpm_inv b" and "i < num_partitions b"
  shows "part_ok (own b i) (pages b) (frame_io_in_progress b) (page_table (partitions b i)) (dirty_pages (partitions b i))
      (free_list (partitions b i)) (frames (part_replacer (partitions b i)))"
    and "lru_inv (part_replacer (partitions b i))" and "dirty_count (partitions b i) = length (dirty_pages (partitions b i))"
    and "clean_available_count (partitions b i) = length (free_list (partitions b i)) +
      length (filter (\<lambda>g. \<not> is_dirty (pages b g)) (frames (part_replacer (partitions b i))))"
    and "distinct (inflight_page_loads (partitions b i))"
    and "\<And>q. q \<in> set (inflight_page_loads (partitions b i)) \<Longrightarrow>
      map_of (page_table (partitions b i)) q = None \<and> partition_of b q = i \<and> page_no q \<noteq> INVALID_PAGE_ID"
    and "\<And>f. f \<in> own b i \<Longrightarrow> frame_ok (pages b f) (frame_io_in_progress b f) (frame_writeback_in_progress b f)"
    and "\<And>f. f \<in> own b i \<Longrightarrow> valid (pages b f) \<Longrightarrow> partition_of b (pg_id (pages b f)) = i"
    and "frame_end (partitions b i) \<le> pool_size b"
  using assms unfolding bpm_inv_def bpm_part_inv_def Let_def by blast+

lemma bpm_inv_dirty_valid:
  assumes "bpm_inv b" and "i < num_partitions b" and "g \<in> own b i" and "is_dirty (pages b g)"
  shows "valid (pages b g)"
  using bpm_invD(7) [OF assms(1,2,3)] assms(4) unfolding frame_ok_def by blast

lemma table_frame:
  assumes "bpm_inv b" and "map_of (page_table (partitions b i)) pid = Some f" and "i < num_partitions b"
  shows "f \<in> own b i" "pg_id (pages b f) = pid" "valid (pages b f)" "partition_of b pid = i"
proof -
  have "f \<in> own b i \<and> pg_id (pages b f) = pid \<and> valid (pages b f)"
    using bpm_invD(1) [OF assms(1,3)] assms(2) unfolding part_ok_def by blast
  then show "f \<in> own b i" "pg_id (pages b f) = pid" "valid (pages b f)" "partition_of b pid = i"
    using bpm_invD(8) [OF assms(1,3)] by blast+
qed

lemma owned_table:
  assumes "bpm_inv b" and "i < num_partitions b" and "f \<in> own b i" and "valid (pages b f)"
  shows "map_of (page_table (partitions b i)) (pg_id (pages b f)) = Some f"
  using bpm_invD(1) [OF assms(1,2)] assms(3,4) unfolding part_ok_def by blast

lemma dirty_listed:
  assumes "bpm_inv b" and "i < num_partitions b" and "f \<in> own b i" and "valid (pages b f)"
  shows "pg_id (pages b f) \<in> set (dirty_pages (partitions b i)) \<longleftrightarrow> is_dirty (pages b f)"
proof
  assume "pg_id (pages b f) \<in> set (dirty_pages (partitions b i))"
  then obtain g where g: "g \<in> own b i" "is_dirty (pages b g)" "pg_id (pages b g) = pg_id (pages b f)"
    using bpm_invD(1) [OF assms(1,2)] unfolding part_ok_def by blast
  then have "map_of (page_table (partitions b i)) (pg_id (pages b f)) = Some g"
    using owned_table [OF assms(1,2) g(1) bpm_inv_dirty_valid [OF assms(1,2) g(1,2)]] by simp
  then have "g = f" using owned_table [OF assms] by simp
  then show "is_dirty (pages b f)" using g(2) by simp
next
  assume "is_dirty (pages b f)"
  then show "pg_id (pages b f) \<in> set (dirty_pages (partitions b i))"
    using bpm_invD(1) [OF assms(1,2)] assms(3) unfolding part_ok_def by blast
qed

lemma queued_iff:
  assumes "bpm_inv b" and "i < num_partitions b"
  shows "f \<in> set (frames (part_replacer (partitions b i))) \<longleftrightarrow> f \<in> own b i \<and> is_evictable (pages b f)"
  using bpm_invD(1) [OF assms] unfolding part_ok_def by blast

lemma free_iff:
  assumes "bpm_inv b" and "i < num_partitions b"
  shows "f \<in> set (free_list (partitions b i)) \<longleftrightarrow> f \<in> own b i \<and> \<not> valid (pages b f) \<and> \<not> frame_io_in_progress b f"
  using bpm_invD(1) [OF assms] unfolding part_ok_def by blast

lemma queue_distinct: "bpm_inv b \<Longrightarrow> i < num_partitions b \<Longrightarrow> distinct (frames (part_replacer (partitions b i)))"
  using bpm_invD(1) unfolding part_ok_def by blast

lemma filter_upd_other:
  "f \<notin> set xs \<Longrightarrow> filter (\<lambda>g. P (((h :: nat \<Rightarrow> 'a)(f := v)) g)) xs = filter (\<lambda>g. P (h g)) xs"
  by (rule filter_cong) auto

text \<open>
  A step that keeps the identity of the page, its dirty flag and the containers, up to the queue of the replacer.
\<close>

lemma part_ok_same_page:
  assumes inv: "bpm_inv b" and i: "i < num_partitions b" and f: "f \<in> own b i"
    and p: "pg_id p' = pg_id (pages b f)" "is_dirty p' = is_dirty (pages b f)"
    and io: "\<And>g. g \<noteq> f \<Longrightarrow> io' g = frame_io_in_progress b g"
    and F: "valid (pages b f)"
    and Q: "distinct Q'" "set Q' = (if is_evictable p' then insert f (set (frames (part_replacer (partitions b i))))
       else set (frames (part_replacer (partitions b i))) - {f})"
  shows "part_ok (own b i) ((pages b)(f := p')) io' (page_table (partitions b i)) (dirty_pages (partitions b i))
     (free_list (partitions b i)) Q'"
proof (rule part_ok_step [OF bpm_invD(1) [OF inv i] f io])
  note ok = bpm_invD(1) [OF inv i, unfolded part_ok_def]
  show "is_dirty (pages b g) \<Longrightarrow> valid (pages b g)" if "g \<in> own b i" for g
    using bpm_inv_dirty_valid [OF inv i that] .
  show "is_dirty p' \<Longrightarrow> valid p'" using p F by simp
  show "distinct (map fst (page_table (partitions b i)))" "distinct (dirty_pages (partitions b i))"
    "distinct (free_list (partitions b i))" using ok by blast+
  show "map_of (page_table (partitions b i)) pid = (if valid p' \<and> pid = pg_id p' then Some f
      else if valid (pages b f) \<and> pid = pg_id (pages b f) then None else map_of (page_table (partitions b i)) pid)" for pid
    using owned_table [OF inv i f F] p F by auto
  show "map_of (page_table (partitions b i)) (pg_id p') = None \<or> map_of (page_table (partitions b i)) (pg_id p') = Some f"
    using owned_table [OF inv i f F] p by simp
  show "set (dirty_pages (partitions b i)) = set (dirty_pages (partitions b i)) - (if is_dirty (pages b f) then {pg_id (pages b f)} else {})
      \<union> (if is_dirty p' then {pg_id p'} else {})"
    using dirty_listed [OF inv i f F] p by auto
  show "set (free_list (partitions b i)) = (if \<not> valid p' \<and> \<not> io' f then insert f (set (free_list (partitions b i)))
      else set (free_list (partitions b i)) - {f})"
    using ok F p by auto
qed (use Q in simp_all)

subsection \<open>Pinning a cached page\<close>

lemma pin_frame_inv:
  assumes inv: "bpm_inv b" and i: "i < num_partitions b" and f: "f \<in> own b i" and v: "valid (pages b f)"
    and io: "\<not> frame_io_in_progress b f"
    and b': "b' = mark_frame_pinned (upd_page b f (\<lambda>pg. pg\<lparr>pin_count := pin_count pg + 1\<rparr>)) i f"
    and b'': "b'' = b'\<lparr>frame_writeback_in_progress := (frame_writeback_in_progress b)(f := w)\<rparr>"
    and w: "w \<or> \<not> frame_writeback_in_progress b f"
  shows "bpm_inv b'' \<and> pages b'' = (pages b)(f := (pages b f)\<lparr>pin_count := pin_count (pages b f) + 1, is_evictable := False\<rparr>)"
proof -
  let ?p = "(pages b f)\<lparr>pin_count := pin_count (pages b f) + 1, is_evictable := False\<rparr>"
  let ?r = "part_replacer (partitions b i)"
  note eff = mark_frame_pinned_eff [of "upd_page b f (\<lambda>pg. pg\<lparr>pin_count := pin_count pg + 1\<rparr>)" i f, folded b']
  have pg: "pages b'' = (pages b)(f := ?p)" by (simp add: b'' eff)
  have fo: "frame_ok (pages b f) False (frame_writeback_in_progress b f)" using bpm_invD(7) [OF inv i f] io by simp
  have q: "frames (part_replacer (partitions b'' i)) = remove1 f (frames ?r)" "lru_inv (part_replacer (partitions b'' i))"
    using lru.pn_queue [OF bpm_invD(2) [OF inv i], of f] queued_iff [OF inv i, of f] bpm_invD(2) [OF inv i]
    by (auto simp: b'' eff remove1_idem)
  have d: "distinct (frames ?r)" using queue_distinct [OF inv i] .
  have c: "clean_available_count (partitions b'' i) = length (free_list (partitions b'' i)) +
      length (filter (\<lambda>g. \<not> is_dirty (pages b'' g)) (frames (part_replacer (partitions b'' i))))"
  proof -
    have "filter (\<lambda>g. \<not> is_dirty (pages b'' g)) (remove1 f (frames ?r)) = filter (\<lambda>g. \<not> is_dirty (pages b g)) (remove1 f (frames ?r))"
      unfolding pg using d by (intro filter_cong) auto
    moreover have "length (filter (\<lambda>g. \<not> is_dirty (pages b g)) (remove1 f (frames ?r))) =
        length (filter (\<lambda>g. \<not> is_dirty (pages b g)) (frames ?r)) - (if is_evictable (pages b f) \<and> \<not> is_dirty (pages b f) then 1 else 0)"
      using queued_iff [OF inv i, of f] f by (auto simp: filter_remove1 length_remove1 remove1_idem)
    moreover have "is_evictable (pages b f) \<and> \<not> is_dirty (pages b f) \<Longrightarrow> 0 < length (filter (\<lambda>g. \<not> is_dirty (pages b g)) (frames ?r))"
      using queued_iff [OF inv i, of f] f by (auto simp: filter_empty_conv)
    ultimately show ?thesis using bpm_invD(4) [OF inv i] unfolding q(1)
      by (simp add: b'' eff del: length_greater_0_conv) linarith
  qed
  have po: "part_ok (own b i) (pages b'') (frame_io_in_progress b'') (page_table (partitions b'' i)) (dirty_pages (partitions b'' i))
       (free_list (partitions b'' i)) (frames (part_replacer (partitions b'' i)))"
    using part_ok_same_page [OF inv i f _ _ _ v, of ?p "frame_io_in_progress b" "remove1 f (frames ?r)"] d
    unfolding pg q(1) by (simp add: b'' eff set_remove1_eq)
  have fok: "frame_ok ?p (frame_io_in_progress b'' f) (frame_writeback_in_progress b'' f)"
    using fo w v io by (simp add: b'' eff frame_ok_def sidecar_ok_def)
  have fld: "pool_size b'' = pool_size b" "num_partitions b'' = num_partitions b" "\<And>j. j \<noteq> i \<Longrightarrow> partitions b'' j = partitions b j"
    "frame_begin (partitions b'' i) = frame_begin (partitions b i)" "frame_end (partitions b'' i) = frame_end (partitions b i)"
    "\<And>g. g \<noteq> f \<Longrightarrow> frame_io_in_progress b'' g = frame_io_in_progress b g"
    "\<And>g. g \<noteq> f \<Longrightarrow> frame_writeback_in_progress b'' g = frame_writeback_in_progress b g"
    "dirty_count (partitions b'' i) = dirty_count (partitions b i)" "dirty_pages (partitions b'' i) = dirty_pages (partitions b i)"
    "dirty_page_count b'' = dirty_page_count b" "page_table (partitions b'' i) = page_table (partitions b i)"
    "inflight_page_loads (partitions b'' i) = inflight_page_loads (partitions b i)"
    using eff(7) by (simp_all add: b'' eff same_static_def)
  have "bpm_inv b''"
    by (rule bpm_inv_step [OF inv i f fld(1-5) pg fld(6,7) fok q(2) po _ c])
      (simp_all add: fld bpm_invD(3,5,6) [OF inv i] bpm_invD(8) [OF inv i f v])
  then show ?thesis using pg by blast
qed

subsection \<open>Making a frame evictable\<close>

text \<open>
  \<open>settle\<close>: the last step of every operation that gives up a pin. Frame \<open>f\<close> of the state \<open>b1\<close> has its new page,
  its flags are down, and the queue does not hold it yet.
\<close>

definition unsettled :: "bpm \<Rightarrow> nat \<Rightarrow> frame_id_t \<Rightarrow> bpm \<Rightarrow> bool" where
  "unsettled b i f b1 \<longleftrightarrow> same_static b b1 \<and> (\<forall>j. j \<noteq> i \<longrightarrow> partitions b1 j = partitions b j) \<and>
     frame_begin (partitions b1 i) = frame_begin (partitions b i) \<and> frame_end (partitions b1 i) = frame_end (partitions b i) \<and>
     (\<forall>g. g \<noteq> f \<longrightarrow> pages b1 g = pages b g \<and> frame_io_in_progress b1 g = frame_io_in_progress b g \<and>
        frame_writeback_in_progress b1 g = frame_writeback_in_progress b g) \<and>
     \<not> frame_io_in_progress b1 f \<and> \<not> is_evictable (pages b1 f) \<and>
     frame_ok ((pages b1 f)\<lparr>is_evictable := (pin_count (pages b1 f) = 0)\<rparr>) False (frame_writeback_in_progress b1 f) \<and> valid (pages b1 f) \<and>
     partition_of b (pg_id (pages b1 f)) = i \<and> part_replacer (partitions b1 i) = part_replacer (partitions b i) \<and>
     part_ok (own b i) (pages b1) (frame_io_in_progress b1) (page_table (partitions b1 i)) (dirty_pages (partitions b1 i))
       (free_list (partitions b1 i)) (frames (part_replacer (partitions b1 i))) \<and>
     dirty_count (partitions b1 i) = length (dirty_pages (partitions b1 i)) \<and>
     clean_available_count (partitions b1 i) = clean_available_count (partitions b i) \<and> free_list (partitions b1 i) = free_list (partitions b i) \<and>
     dirty_page_count b1 + dirty_count (partitions b i) = dirty_page_count b + dirty_count (partitions b1 i) \<and>
     distinct (inflight_page_loads (partitions b1 i)) \<and>
     (\<forall>q \<in> set (inflight_page_loads (partitions b1 i)).
        map_of (page_table (partitions b1 i)) q = None \<and> partition_of b q = i \<and> page_no q \<noteq> INVALID_PAGE_ID)"

lemma settle_inv:
  assumes inv: "bpm_inv b" and i: "i < num_partitions b" and f: "f \<in> own b i" and u: "unsettled b i f b1"
    and ne: "\<not> is_evictable (pages b f)" and b': "b' = mark_frame_evictable b1 i f c"
  shows "bpm_inv b' \<and> pages b' = (pages b1)(f := (pages b1 f)\<lparr>is_evictable := (pin_count (pages b1 f) = 0)\<rparr>)
    \<and> same_static b b' \<and> frame_io_in_progress b' = frame_io_in_progress b1
    \<and> frame_writeback_in_progress b' = frame_writeback_in_progress b1"
proof -
  let ?p = "(pages b1 f)\<lparr>is_evictable := (pin_count (pages b1 f) = 0)\<rparr>"
  let ?r = "part_replacer (partitions b i)"
  note u1 = u [unfolded unsettled_def]
  have nq: "f \<notin> set (frames ?r)" using queued_iff [OF inv i] ne by simp
  have dq: "distinct (frames ?r)" using queue_distinct [OF inv i] .
  have st: "same_static b b1" and oth: "\<forall>j. j \<noteq> i \<longrightarrow> partitions b1 j = partitions b j"
    and fb: "frame_begin (partitions b1 i) = frame_begin (partitions b i)" "frame_end (partitions b1 i) = frame_end (partitions b i)"
    and fr: "\<forall>g. g \<noteq> f \<longrightarrow> pages b1 g = pages b g \<and> frame_io_in_progress b1 g = frame_io_in_progress b g \<and>
        frame_writeback_in_progress b1 g = frame_writeback_in_progress b g"
    and fl: "\<not> frame_io_in_progress b1 f" "\<not> is_evictable (pages b1 f)"
    and fo: "frame_ok ?p False (frame_writeback_in_progress b1 f)" and va: "valid (pages b1 f)" and pa: "partition_of b (pg_id (pages b1 f)) = i"
    and re: "part_replacer (partitions b1 i) = ?r"
    and ok: "part_ok (own b i) (pages b1) (frame_io_in_progress b1) (page_table (partitions b1 i)) (dirty_pages (partitions b1 i))
       (free_list (partitions b1 i)) (frames (part_replacer (partitions b1 i)))"
    and dc: "dirty_count (partitions b1 i) = length (dirty_pages (partitions b1 i))"
    and ca: "clean_available_count (partitions b1 i) = clean_available_count (partitions b i)"
    and fe: "free_list (partitions b1 i) = free_list (partitions b i)"
    and dpc: "dirty_page_count b1 + dirty_count (partitions b i) = dirty_page_count b + dirty_count (partitions b1 i)"
    and inf: "distinct (inflight_page_loads (partitions b1 i))"
       "\<forall>q \<in> set (inflight_page_loads (partitions b1 i)).
        map_of (page_table (partitions b1 i)) q = None \<and> partition_of b q = i \<and> page_no q \<noteq> INVALID_PAGE_ID"
    using u1 by - (elim conjE, assumption)+
  note ok = ok [unfolded re]
  define Q where "Q = (if pin_count (pages b1 f) \<noteq> 0 then frames ?r else if c then frames ?r @ [f] else f # frames ?r)"
  have wb: "pin_count (pages b1 f) = 0 \<Longrightarrow> \<not> frame_writeback_in_progress b1 f" using fo by (auto simp: frame_ok_def)
  note me = mark_frame_evictable_eff [of b1 f i c, OF _ fl(2,1) wb, folded b'] and mp = mark_frame_evictable_pinned [of b1 f i c, folded b']
  have pg: "pages b' = (pages b1)(f := ?p)"
    using me mp fl(2) by (cases "pin_count (pages b1 f) = 0") (auto simp: fun_eq_iff)
  have io: "frame_io_in_progress b' = frame_io_in_progress b1" "frame_writeback_in_progress b' = frame_writeback_in_progress b1"
    "same_static b1 b'" "dirty_page_count b' = dirty_page_count b1"
    using me mp by (cases "pin_count (pages b1 f) = 0"; simp add: same_static_def)+
  have q: "frames (part_replacer (partitions b' i)) = Q" "lru_inv (part_replacer (partitions b' i))"
    using me(2) mp lru.unpn_queue [OF bpm_invD(2) [OF inv i], of f] lru.unpn_cold_queue [OF bpm_invD(2) [OF inv i], of f] nq re bpm_invD(2) [OF inv i]
    by (cases "pin_count (pages b1 f) = 0"; simp add: Q_def)+
  have pt: "page_table (partitions b' i) = page_table (partitions b1 i)" "dirty_pages (partitions b' i) = dirty_pages (partitions b1 i)"
    "free_list (partitions b' i) = free_list (partitions b1 i)" "inflight_page_loads (partitions b' i) = inflight_page_loads (partitions b1 i)"
    "dirty_count (partitions b' i) = dirty_count (partitions b1 i)" "frame_begin (partitions b' i) = frame_begin (partitions b1 i)"
    "frame_end (partitions b' i) = frame_end (partitions b1 i)" "\<And>j. j \<noteq> i \<Longrightarrow> partitions b' j = partitions b1 j"
    using me(2) mp by (cases "pin_count (pages b1 f) = 0"; simp)+
  have fq: "filter (\<lambda>g. \<not> is_dirty (pages b' g)) (frames ?r) = filter (\<lambda>g. \<not> is_dirty (pages b g)) (frames ?r)"
    unfolding pg using nq fr by (intro filter_cong) auto
  have c: "clean_available_count (partitions b' i) = length (free_list (partitions b' i)) + length (filter (\<lambda>g. \<not> is_dirty (pages b' g)) Q)"
  proof (cases "pin_count (pages b1 f) = 0")
    case True
    have "clean_available_count (partitions b' i) = clean_available_count (partitions b i) + (if is_dirty (pages b1 f) then 0 else 1)"
      using me(2) True ca by simp
    moreover have "length (filter (\<lambda>g. \<not> is_dirty (pages b' g)) Q)
        = length (filter (\<lambda>g. \<not> is_dirty (pages b g)) (frames ?r)) + (if is_dirty (pages b1 f) then 0 else 1)"
      using fq True by (simp add: Q_def pg)
    ultimately show ?thesis using bpm_invD(4) [OF inv i] pt(3) fe by simp
  next
    case False
    then show ?thesis using mp ca fq bpm_invD(4) [OF inv i] fe by (simp add: Q_def)
  qed
  have po: "part_ok (own b i) (pages b') (frame_io_in_progress b') (page_table (partitions b' i)) (dirty_pages (partitions b' i))
       (free_list (partitions b' i)) Q"
  proof -
    have "\<forall>g. g \<in> set Q \<longleftrightarrow> g \<in> own b i \<and> is_evictable (pages b' g)"
      using ok f nq fl(2) unfolding part_ok_def pg Q_def by (auto simp del: atLeastLessThan_iff)
    moreover have "distinct Q" using dq nq by (simp add: Q_def)
    moreover have "pg_id (pages b' g) = pg_id (pages b1 g)" "is_dirty (pages b' g) = is_dirty (pages b1 g)" for g by (simp_all add: pg)
    ultimately show ?thesis using ok unfolding part_ok_def pt io by simp
  qed
  have "bpm_inv b'"
  proof (rule bpm_inv_step [OF inv i f, of b' ?p])
    show "pages b' = (pages b)(f := ?p)" using pg fr by (auto simp: fun_eq_iff)
    show "part_ok (own b i) (pages b') (frame_io_in_progress b') (page_table (partitions b' i)) (dirty_pages (partitions b' i))
       (free_list (partitions b' i)) (frames (part_replacer (partitions b' i)))" unfolding q(1) by (rule po)
  qed (use st oth fb fr fl fo va pa dc dpc inf io q pt c in \<open>simp_all add: same_static_def\<close>)
  then show ?thesis using pg io st by (simp add: same_static_def)
qed

subsection \<open>Giving up a pin\<close>

lemma part_ok_dirty_step:
  assumes inv: "bpm_inv b" and i: "i < num_partitions b" and f: "f \<in> own b i" and v: "valid (pages b f)"
    and p: "pg_id p' = pg_id (pages b f)" "\<not> is_evictable p'" "\<not> is_evictable (pages b f)"
    and D: "distinct D'" "set D' = (if is_dirty p' then insert (pg_id (pages b f)) (set (dirty_pages (partitions b i)))
        else set (dirty_pages (partitions b i)) - {pg_id (pages b f)})"
    and io: "\<And>g. g \<noteq> f \<Longrightarrow> io' g = frame_io_in_progress b g"
  shows "part_ok (own b i) ((pages b)(f := p')) io' (page_table (partitions b i)) D'
     (free_list (partitions b i)) (frames (part_replacer (partitions b i)))"
proof (rule part_ok_step [OF bpm_invD(1) [OF inv i] f io])
  note ok = bpm_invD(1) [OF inv i, unfolded part_ok_def]
  show "is_dirty (pages b g) \<Longrightarrow> valid (pages b g)" if "g \<in> own b i" for g
    using bpm_inv_dirty_valid [OF inv i that] .
  show "is_dirty p' \<Longrightarrow> valid p'" using p v by simp
  show "distinct (map fst (page_table (partitions b i)))" "distinct (free_list (partitions b i))"
    "distinct (frames (part_replacer (partitions b i)))" using ok by blast+
  show "map_of (page_table (partitions b i)) pid = (if valid p' \<and> pid = pg_id p' then Some f
      else if valid (pages b f) \<and> pid = pg_id (pages b f) then None else map_of (page_table (partitions b i)) pid)" for pid
    using owned_table [OF inv i f v] p v by auto
  show "map_of (page_table (partitions b i)) (pg_id p') = None \<or> map_of (page_table (partitions b i)) (pg_id p') = Some f"
    using owned_table [OF inv i f v] p by simp
  show "set D' = set (dirty_pages (partitions b i)) - (if is_dirty (pages b f) then {pg_id (pages b f)} else {})
      \<union> (if is_dirty p' then {pg_id p'} else {})"
    using dirty_listed [OF inv i f v] p D(2) by auto
  show "set (free_list (partitions b i)) = (if \<not> valid p' \<and> \<not> io' f then insert f (set (free_list (partitions b i)))
      else set (free_list (partitions b i)) - {f})"
    using free_iff [OF inv i, of f] v p by auto
  show "set (frames (part_replacer (partitions b i))) = (if is_evictable p' then insert f (set (frames (part_replacer (partitions b i))))
       else set (frames (part_replacer (partitions b i))) - {f})"
    using queued_iff [OF inv i, of f] p by auto
qed (simp_all add: D(1))

lemma unsettled_intro:
  assumes inv: "bpm_inv b" and i: "i < num_partitions b" and f: "f \<in> own b i" and v: "valid (pages b f)" and ne: "\<not> is_evictable (pages b f)"
    and st: "same_static b b1" and pg: "pages b1 = (pages b)(f := p1)" and pa: "partitions b1 = (partitions b)(i := q1)"
    and q1: "q1 = (partitions b i)\<lparr>dirty_pages := D', dirty_count := length D'\<rparr>"
    and io: "\<And>g. g \<noteq> f \<Longrightarrow> frame_io_in_progress b1 g = frame_io_in_progress b g"
      "\<And>g. g \<noteq> f \<Longrightarrow> frame_writeback_in_progress b1 g = frame_writeback_in_progress b g" "\<not> frame_io_in_progress b1 f"
    and p1: "pg_id p1 = pg_id (pages b f)" "\<not> is_evictable p1" "frame_ok (p1\<lparr>is_evictable := (pin_count p1 = 0)\<rparr>) False (frame_writeback_in_progress b1 f)"
    and D: "distinct D'" "set D' = (if is_dirty p1 then insert (pg_id (pages b f)) (set (dirty_pages (partitions b i)))
        else set (dirty_pages (partitions b i)) - {pg_id (pages b f)})"
    and dc: "dirty_page_count b1 + dirty_count (partitions b i) = dirty_page_count b + length D'"
  shows "unsettled b i f b1"
proof -
  have po: "part_ok (own b i) (pages b1) (frame_io_in_progress b1) (page_table (partitions b i)) D'
     (free_list (partitions b i)) (frames (part_replacer (partitions b i)))"
    unfolding pg using part_ok_dirty_step [OF inv i f v p1(1,2) ne D io(1)] .
  then show ?thesis
    using st io p1 v dc bpm_invD(5,6) [OF inv i] bpm_invD(8) [OF inv i f v]
    unfolding unsettled_def pg pa q1 by simp
qed

lemma unpin_frame_inv:
  assumes inv: "bpm_inv b" and i: "i < num_partitions b" and f: "f \<in> own b i" and v: "valid (pages b f)"
    and pn: "0 \<le> r'" "r' < pin_count (pages b f)" "r' \<le> pin_count (pages b f) - 1"
    and wb: "frame_writeback_in_progress b f \<Longrightarrow> r' < pin_count (pages b f) - 1"
    and b': "b' = unpin_frame (upd_page b f (\<lambda>pg. pg\<lparr>resident_pin_count := r'\<rparr>)) i f dirty"
  shows "bpm_inv b' \<and> same_static b b' \<and> frame_io_in_progress b' = frame_io_in_progress b
    \<and> frame_writeback_in_progress b' = frame_writeback_in_progress b
    \<and> (\<exists>p'. pages b' = (pages b)(f := p') \<and> data p' = data (pages b f) \<and> pg_id p' = pg_id (pages b f)
        \<and> pin_count p' = pin_count (pages b f) - 1 \<and> is_dirty p' = (dirty \<or> is_dirty (pages b f))
        \<and> resident_pin_count p' = r' \<and> page_lsn p' = page_lsn (pages b f)
        \<and> wal_state p' = (if dirty \<and> wal_state (pages b f) = kClean then kUnknown else wal_state (pages b f)))"
proof -
  have fo: "frame_ok (pages b f) (frame_io_in_progress b f) (frame_writeback_in_progress b f)" using bpm_invD(7) [OF inv i f] .
  have ne: "\<not> is_evictable (pages b f)" and io: "\<not> frame_io_in_progress b f" using fo pn by (auto simp: frame_ok_def)
  let ?p0 = "(pages b f)\<lparr>resident_pin_count := r', pin_count := pin_count (pages b f) - 1\<rparr>"
  define b0 where "b0 = upd_page b f (\<lambda>_. ?p0)"
  note b0s = upd_sel(1-10) [of b f "\<lambda>_. ?p0", folded b0_def]
  define b1 where "b1 = (if dirty then register_dirty_page b0 i f else b0)"
  have bb: "b' = mark_frame_evictable b1 i f False"
    by (simp add: b' unpin_frame_def b1_def b0_def upd_page_def Let_def)
  have nd: "is_dirty (pages b0 f) \<or> pg_id (pages b0 f) \<notin> set (dirty_pages (partitions b0 i))"
    using dirty_listed [OF inv i f v] by (simp add: b0_def)
  have v0: "valid (pages b0 f)" using v by (simp add: b0_def)
  note reg = register_dirty_page_eff [OF v0 nd]
  define p1 where "p1 = pages b1 f"
  define D' where "D' = dirty_pages (partitions b1 i)"
  have p1: "pages b1 = (pages b)(f := p1)" "data p1 = data (pages b f)" "pg_id p1 = pg_id (pages b f)" "\<not> is_evictable p1"
     "pin_count p1 = pin_count (pages b f) - 1" "is_dirty p1 = (dirty \<or> is_dirty (pages b f))" "resident_pin_count p1 = r'"
     "page_lsn p1 = page_lsn (pages b f)"
     "wal_state p1 = (if dirty \<and> wal_state (pages b f) = kClean then kUnknown else wal_state (pages b f))"
    using ne by (simp_all add: p1_def b1_def reg b0s)
  have ds: "distinct (dirty_pages (partitions b i))" using bpm_invD(1) [OF inv i] unfolding part_ok_def by blast
  have D: "D' = (if dirty \<and> \<not> is_dirty (pages b f) then pg_id (pages b f) # dirty_pages (partitions b i) else dirty_pages (partitions b i))"
    by (simp add: D'_def b1_def reg b0s)
  have D2: "distinct D'" "set D' = (if is_dirty p1 then insert (pg_id (pages b f)) (set (dirty_pages (partitions b i)))
        else set (dirty_pages (partitions b i)) - {pg_id (pages b f)})"
    using dirty_listed [OF inv i f v] ds by (auto simp: D p1(6))
  have "unsettled b i f b1"
  proof (rule unsettled_intro [OF inv i f v ne _ p1(1) _ _ _ _ _ p1(3,4) _ D2])
    show "same_static b b1" using reg(7) by (simp add: b1_def b0s same_static_def)
    show "partitions b1 = (partitions b)(i := (partitions b i)\<lparr>dirty_pages := D', dirty_count := length D'\<rparr>)"
      using bpm_invD(3) [OF inv i] by (auto simp: b1_def reg b0s D fun_eq_iff)
    show "frame_ok (p1\<lparr>is_evictable := (pin_count p1 = 0)\<rparr>) False (frame_writeback_in_progress b1 f)"
      using fo pn wb v io by (auto simp: frame_ok_def sidecar_ok_def p1 b1_def reg b0s)
    show "dirty_page_count b1 + dirty_count (partitions b i) = dirty_page_count b + length D'"
      using bpm_invD(3) [OF inv i] by (simp add: b1_def reg b0s D)
  qed (use io in \<open>simp_all add: b1_def reg b0s\<close>)
  from settle_inv [OF inv i f this ne bb] have s: "bpm_inv b'" "pages b' = (pages b1)(f := (pages b1 f)\<lparr>is_evictable := (pin_count (pages b1 f) = 0)\<rparr>)"
    "same_static b b'" "frame_io_in_progress b' = frame_io_in_progress b1" "frame_writeback_in_progress b' = frame_writeback_in_progress b1" by blast+
  have fl: "frame_io_in_progress b1 = frame_io_in_progress b" "frame_writeback_in_progress b1 = frame_writeback_in_progress b"
    by (simp_all add: b1_def reg b0s)
  have "pages b' = (pages b)(f := p1\<lparr>is_evictable := (pin_count p1 = 0)\<rparr>)" using s(2) p1(1) by simp
  then show ?thesis using s fl p1 by (intro conjI exI [of _ "p1\<lparr>is_evictable := (pin_count p1 = 0)\<rparr>"]) simp_all
qed

subsection \<open>The end of a write-back\<close>

definition writeback_cleans :: "page \<Rightarrow> writeback_task \<Rightarrow> bool \<Rightarrow> bool" where
  "writeback_cleans pg t ok \<longleftrightarrow> ok \<and> was_dirty t \<and> pg_id pg = task_page_id t \<and> is_dirty pg \<and>
     dirty_generation pg = task_generation t \<and> pin_count pg = resident_pin_count pg + 1"

lemma finish_writeback_inv:
  assumes inv: "bpm_inv b" and i: "i < num_partitions b" and f: "f \<in> own b i" and w: "frame_writeback_in_progress b f"
    and t: "partition_idx t = i" "task_frame t = f" and fin: "finish_writeback b t ok = (c, b')"
  shows "bpm_inv b' \<and> same_static b b' \<and> frame_io_in_progress b' = frame_io_in_progress b
    \<and> frame_writeback_in_progress b' = (frame_writeback_in_progress b)(f := False)
    \<and> c = writeback_cleans (pages b f) t ok
    \<and> (\<exists>p'. pages b' = (pages b)(f := p') \<and> data p' = data (pages b f) \<and> pg_id p' = pg_id (pages b f)
        \<and> pin_count p' = pin_count (pages b f) - 1 \<and> resident_pin_count p' = resident_pin_count (pages b f)
        \<and> is_dirty p' = (is_dirty (pages b f) \<and> \<not> c) \<and> wal_state p' = (if c then kClean else wal_state (pages b f))
        \<and> page_lsn p' = (if c then INVALID_LSN else page_lsn (pages b f)))"
proof -
  have fo: "frame_ok (pages b f) (frame_io_in_progress b f) True" using bpm_invD(7) [OF inv i f] w by simp
  have ne: "\<not> is_evictable (pages b f)" and io: "\<not> frame_io_in_progress b f" and v: "valid (pages b f)"
    and pn: "resident_pin_count (pages b f) < pin_count (pages b f)" "0 \<le> resident_pin_count (pages b f)"
    using fo by (auto simp: frame_ok_def)
  have lt: "f < pool_size b" using bpm_invD(9) [OF inv i] f by simp
  define cl where "cl = writeback_cleans (pages b f) t ok"
  define p0 where "p0 = (if cl then (pages b f)\<lparr>is_dirty := False, wal_state := kClean, page_lsn := INVALID_LSN\<rparr> else pages b f)"
  define p1 where "p1 = p0\<lparr>pin_count := pin_count (pages b f) - 1\<rparr>"
  define b0 where "b0 = upd_page b f (\<lambda>_. p0)"
  note b0s = upd_sel(1-10) [of b f "\<lambda>_. p0", folded b0_def]
  define b1 where "b1 = (if cl then snd (erase_dirty_page b0 i (pg_id (pages b f))) else b0)"
  define b2 where "b2 = upd_page b1 f (\<lambda>_. p1)"
  define b3 where "b3 = b2\<lparr>frame_writeback_in_progress := (frame_writeback_in_progress b2)(f := False),
     frame_writeback_snapshot_ready := (frame_writeback_snapshot_ready b2)(f := False)\<rparr>"
  have dl: "cl \<Longrightarrow> pg_id (pages b f) \<in> set (dirty_pages (partitions b0 i))"
    using dirty_listed [OF inv i f v] by (simp add: b0s cl_def writeback_cleans_def)
  note er = erase_dirty_page_eff [OF dl]
  have b1s: "pages b1 = (pages b)(f := p0)" "same_static b b1" "frame_io_in_progress b1 = frame_io_in_progress b"
    "frame_writeback_in_progress b1 = frame_writeback_in_progress b"
    "dirty_page_count b1 = dirty_page_count b - (if cl then 1 else 0)"
    "partitions b1 = (partitions b)(i := (partitions b i)\<lparr>dirty_pages := (if cl then remove1 (pg_id (pages b f)) (dirty_pages (partitions b i))
        else dirty_pages (partitions b i)), dirty_count := dirty_count (partitions b i) - (if cl then 1 else 0)\<rparr>)"
    using er by (simp_all add: b1_def b0s same_static_def)
  have u0: "upd_page b f (\<lambda>pg. pg\<lparr>is_dirty := False, wal_state := kClean, page_lsn := INVALID_LSN\<rparr>) = b0" if cl
    using that by (simp add: b0_def p0_def upd_page_def)
  have n0: "b0 = b" if "\<not> cl" using that by (simp add: b0_def p0_def upd_page_def)
  have b3e: "c = cl \<and> b' = mark_frame_evictable b3 i f cl"
  proof -
    have pos: "pin_count (pages b1 f) > 0" using pn by (simp add: b1s p0_def)
    have "upd_page b1 f (\<lambda>pg. pg\<lparr>pin_count := (if pin_count pg > 0 then pin_count pg - 1 else pin_count pg)\<rparr>) = b2"
      using pos by (simp add: b2_def upd_page_def b1s p1_def p0_def)
    moreover have "b1 = (if cl then snd (erase_dirty_page (upd_page b f (\<lambda>pg. pg\<lparr>is_dirty := False, wal_state := kClean, page_lsn := INVALID_LSN\<rparr>)) i (pg_id (pages b f))) else b)"
      using u0 n0 by (simp add: b1_def)
    ultimately show ?thesis
      using fin w i lt unfolding finish_writeback_def Let_def t cl_def [unfolded writeback_cleans_def, symmetric] b3_def by auto
  qed
  define D' where "D' = (if cl then remove1 (pg_id (pages b f)) (dirty_pages (partitions b i)) else dirty_pages (partitions b i))"
  have ds: "distinct (dirty_pages (partitions b i))" using bpm_invD(1) [OF inv i] unfolding part_ok_def by blast
  have dirty1: "is_dirty p1 = (is_dirty (pages b f) \<and> \<not> cl)" by (auto simp: p1_def p0_def)
  have D2: "distinct D'" "set D' = (if is_dirty p1 then insert (pg_id (pages b f)) (set (dirty_pages (partitions b i)))
        else set (dirty_pages (partitions b i)) - {pg_id (pages b f)})"
    using dirty_listed [OF inv i f v] ds unfolding dirty1 by (auto simp: D'_def cl_def writeback_cleans_def)
  have ln: "length D' = dirty_count (partitions b i) - (if cl then 1 else 0)" "cl \<Longrightarrow> 0 < dirty_count (partitions b i)"
    using bpm_invD(3) [OF inv i] dirty_listed [OF inv i f v] by (auto simp: D'_def length_remove1 cl_def writeback_cleans_def length_pos_if_in_set)
  have dpc: "dirty_count (partitions b i) \<le> dirty_page_count b"
    using inv i member_le_sum [of i "{..<num_partitions b}" "\<lambda>j. dirty_count (partitions b j)"] unfolding bpm_inv_def by simp
  have "unsettled b i f b3"
  proof (rule unsettled_intro [OF inv i f v ne, of b3 p1 _ D'])
    show "same_static b b3" using b1s(2) by (simp add: b3_def b2_def same_static_def)
    show "pages b3 = (pages b)(f := p1)" by (simp add: b3_def b2_def b1s)
    show "partitions b3 = (partitions b)(i := (partitions b i)\<lparr>dirty_pages := D', dirty_count := length D'\<rparr>)"
      by (simp add: b3_def b2_def b1s D'_def [symmetric] ln(1))
    show "frame_ok (p1\<lparr>is_evictable := (pin_count p1 = 0)\<rparr>) False (frame_writeback_in_progress b3 f)"
      using fo pn v by (auto simp: frame_ok_def sidecar_ok_def p1_def p0_def b3_def)
    show "dirty_page_count b3 + dirty_count (partitions b i) = dirty_page_count b + length D'"
      using ln dpc by (auto simp: b3_def b2_def b1s)
    show "pg_id p1 = pg_id (pages b f)" "\<not> is_evictable p1" using ne by (simp_all add: p1_def p0_def)
  qed (use io D2 in \<open>simp_all add: b3_def b2_def b1s\<close>)
  from settle_inv [OF inv i f this ne] b3e have s: "bpm_inv b'" "same_static b b'" "frame_io_in_progress b' = frame_io_in_progress b3"
    "frame_writeback_in_progress b' = frame_writeback_in_progress b3" "pages b' = (pages b3)(f := (pages b3 f)\<lparr>is_evictable := (pin_count (pages b3 f) = 0)\<rparr>)"
    by blast+
  have p3: "pages b' = (pages b)(f := p1\<lparr>is_evictable := (pin_count p1 = 0)\<rparr>)" using s(5) by (simp add: b3_def b2_def b1s)
  have f3: "frame_io_in_progress b3 = frame_io_in_progress b" "frame_writeback_in_progress b3 = (frame_writeback_in_progress b)(f := False)"
    by (simp_all add: b3_def b2_def b1s)
  show ?thesis using s p3 f3 b3e dirty1
    by (intro conjI exI [of _ "p1\<lparr>is_evictable := (pin_count p1 = 0)\<rparr>"]) (simp_all add: cl_def [symmetric] p1_def p0_def)
qed

subsection \<open>Choosing a victim\<close>

text \<open>The partition of a victim: out of the free list or out of the queue, and the clean count follows.\<close>

definition took_frame :: "bpm \<Rightarrow> nat \<Rightarrow> frame_id_t \<Rightarrow> bpm \<Rightarrow> bool" where
  "took_frame b i f b1 \<longleftrightarrow> same_static b b1 \<and> pages b1 = (pages b)(f := (pages b f)\<lparr>is_evictable := False\<rparr>) \<and>
     frame_io_in_progress b1 = frame_io_in_progress b \<and> frame_writeback_in_progress b1 = frame_writeback_in_progress b \<and>
     dirty_page_count b1 = dirty_page_count b \<and>
     (\<exists>r. partitions b1 = (partitions b)(i := (partitions b i)\<lparr>free_list := remove1 f (free_list (partitions b i)), part_replacer := r,
         clean_available_count := clean_available_count (partitions b i) - (if is_dirty (pages b f) then 0 else 1)\<rparr>) \<and>
       lru_inv r \<and> frames r = remove1 f (frames (part_replacer (partitions b i))))"

lemma find_victim_Some:
  assumes inv: "bpm_inv b" and i: "i < num_partitions b" and fv: "find_victim_page b i = (Some f, b1)"
  shows "took_frame b i f b1 \<and> (f \<in> set (free_list (partitions b i)) \<or> f \<in> set (frames (part_replacer (partitions b i))))"
proof -
  let ?p = "partitions b i" and ?r = "part_replacer (partitions b i)"
  let ?P = "\<lambda>c. \<not> is_dirty (pages b c) \<and> \<not> frame_io_in_progress b c \<and> \<not> frame_writeback_in_progress b c"
  have l: "lru_inv ?r" using bpm_invD(2) [OF inv i] .
  show ?thesis
  proof (cases "free_list ?p")
    case (Cons g gs)
    then have g: "g = f" "b1 = upd_part b i (\<lambda>p. p\<lparr>free_list := gs, clean_available_count := clean_available_count p - 1\<rparr>)"
      using fv by (auto simp: find_victim_page_def Let_def)
    have nv: "\<not> valid (pages b f)" "f \<in> own b i" using free_iff [OF inv i, of f] Cons g by auto
    have nd: "\<not> is_dirty (pages b f)" "\<not> is_evictable (pages b f)"
      using bpm_invD(7) [OF inv i nv(2)] nv by (auto simp: frame_ok_def)
    then have "f \<notin> set (frames ?r)" using queued_iff [OF inv i] by simp
    then have rf: "remove1 f (frames ?r) = frames ?r" by (simp add: remove1_idem)
    have pgs: "(pages b)(f := (pages b f)\<lparr>is_evictable := False\<rparr>) = pages b" using nd by (auto simp: fun_eq_iff)
    have "took_frame b i f b1"
      unfolding took_frame_def pgs using l rf nd Cons by (auto simp: g same_static_def intro!: exI [of _ ?r])
    then show ?thesis using Cons g by simp
  next
    case Nil
    show ?thesis
    proof (cases "abs_victim_if (frames ?r) ?P 64")
      case (Some g)
      obtain r where v: "victim_if ?r ?P 64 = (Some g, r)" "frames r = remove1 g (frames ?r)" "lru_inv r"
        using lru.vict_if_Some [OF l Some] by (cases "victim_if ?r ?P 64") auto
      have m: "?P g \<and> g \<in> set (frames ?r)" using lru.vict_if_sound [OF l, of ?P 64 g] v(1) by simp
      have g: "g = f" "b1 = upd_page (upd_part b i (\<lambda>p. p\<lparr>part_replacer := r, clean_available_count := clean_available_count p - 1\<rparr>))
                             f (\<lambda>pg. pg\<lparr>is_evictable := False\<rparr>)"
        using fv Nil v(1) by (auto simp: find_victim_page_def Let_def)
      have "took_frame b i f b1"
        unfolding took_frame_def using m v Nil by (auto simp: g same_static_def intro!: exI [of _ r])
      then show ?thesis using m g by simp
    next
      case None
      have vn: "victim_if ?r ?P 64 = (None, ?r)" using lru.vict_if_None [OF l None] .
      have ne: "frames ?r \<noteq> []"
        using fv Nil vn lru.vict_empty [OF l] by (auto simp: find_victim_page_def Let_def)
      obtain r where v: "victim ?r = (Some (last (frames ?r)), r)" "frames r = butlast (frames ?r)" "lru_inv r"
        using lru.vict_last [OF l ne] by (cases "victim ?r") auto
      have lf: "f = last (frames ?r)" using fv Nil vn v(1) by (auto simp: find_victim_page_def Let_def split: if_splits)
      have rb: "frames r = remove1 f (frames ?r)"
        using v(2) ne lf lru.invar_distinct [OF l] by (metis append_butlast_last_id butlast_snoc distinct_butlast remove1_append
            remove1.simps(2) distinct.simps(2) distinct_append not_distinct_conv_prefix append_Nil2 remove1_idem rotate1.simps(2) distinct1_rotate)
      have "took_frame b i f b1"
        unfolding took_frame_def using fv Nil vn v rb lf
        by (auto simp: find_victim_page_def Let_def same_static_def split: if_splits intro!: exI [of _ r])
      then show ?thesis using ne lf by simp
    qed
  qed
qed

lemma find_victim_None:
  assumes inv: "bpm_inv b" and i: "i < num_partitions b" and fv: "find_victim_page b i = (None, b1)"
  shows "b1 = b \<and> free_list (partitions b i) = [] \<and> frames (part_replacer (partitions b i)) = []"
proof -
  let ?p = "partitions b i" and ?r = "part_replacer (partitions b i)"
  let ?P = "\<lambda>c. \<not> is_dirty (pages b c) \<and> \<not> frame_io_in_progress b c \<and> \<not> frame_writeback_in_progress b c"
  have l: "lru_inv ?r" using bpm_invD(2) [OF inv i] .
  have n: "free_list ?p = []" using fv by (auto simp: find_victim_page_def Let_def split: list.splits)
  have "abs_victim_if (frames ?r) ?P 64 = None"
  proof (rule ccontr)
    assume "abs_victim_if (frames ?r) ?P 64 \<noteq> None"
    then obtain g where "abs_victim_if (frames ?r) ?P 64 = Some g" by auto
    then have "fst (victim_if ?r ?P 64) = Some g" using lru.vict_if_Some [OF l] by blast
    then show False using fv n by (cases "victim_if ?r ?P 64") (auto simp: find_victim_page_def Let_def)
  qed
  then have vn: "victim_if ?r ?P 64 = (None, ?r)" using lru.vict_if_None [OF l] by blast
  have e: "frames ?r = []"
  proof (rule ccontr)
    assume "frames ?r \<noteq> []"
    then have "fst (victim ?r) \<noteq> None" using lru.vict_last [OF l] by simp
    then show False using fv n vn by (cases "victim ?r") (auto simp: find_victim_page_def Let_def split: if_splits)
  qed
  have "victim ?r = (None, ?r)" using lru.vict_empty [OF l e] .
  then have "b1 = upd_part b i (\<lambda>p. p\<lparr>part_replacer := ?r\<rparr>)" using fv n vn by (auto simp: find_victim_page_def Let_def)
  then have "b1 = b" by (simp add: upd_part_def)
  then show ?thesis using n e by blast
qed

end
