(* ===== verification/Rmdb_Buffer_Load.thy ===== *)
theory Rmdb_Buffer_Load
  imports Rmdb_Buffer_Ops
begin

text \<open>
  Loading a page into a frame: the choice of a frame, the installation of the page, the rollback
  when input or output failed, and the removal of a page; each keeps the invariant.
\<close>

lemma start_load_inv:
  assumes inv: "bpm_inv b" and i: "i < num_partitions b" and pid: "partition_of b pid = i" "page_no pid \<noteq> INVALID_PAGE_ID"
      "map_of (page_table (partitions b i)) pid = None" "pid \<notin> set (inflight_page_loads (partitions b i))"
    and fv: "find_victim_page b i = (Some f, b1)"
    and b': "b' = upd_part (b1\<lparr>frame_io_in_progress := (frame_io_in_progress b1)(f := True)\<rparr>) i
       (\<lambda>p. p\<lparr>inflight_page_loads := pid # inflight_page_loads p\<rparr>)"
  shows "bpm_inv b' \<and> f \<in> own b i \<and> \<not> frame_io_in_progress b f \<and> \<not> frame_writeback_in_progress b f \<and> pin_count (pages b f) = 0
    \<and> pages b' = (pages b)(f := (pages b f)\<lparr>is_evictable := False\<rparr>) \<and> same_static b b'
    \<and> frame_io_in_progress b' = (frame_io_in_progress b)(f := True) \<and> frame_writeback_in_progress b' = frame_writeback_in_progress b
    \<and> page_table (partitions b' i) = page_table (partitions b i) \<and> (\<forall>j. j \<noteq> i \<longrightarrow> partitions b' j = partitions b j)
    \<and> inflight_page_loads (partitions b' i) = pid # inflight_page_loads (partitions b i) \<and> own b' i = own b i"
proof -
  let ?p = "(pages b f)\<lparr>is_evictable := False\<rparr>" and ?q = "partitions b i"
  let ?r0 = "frames (part_replacer (partitions b i))"
  obtain r where tk: "same_static b b1" "pages b1 = (pages b)(f := ?p)" "frame_io_in_progress b1 = frame_io_in_progress b"
      "frame_writeback_in_progress b1 = frame_writeback_in_progress b" "dirty_page_count b1 = dirty_page_count b"
      "partitions b1 = (partitions b)(i := ?q\<lparr>free_list := remove1 f (free_list ?q), part_replacer := r,
         clean_available_count := clean_available_count ?q - (if is_dirty (pages b f) then 0 else 1)\<rparr>)"
      "lru_inv r" "frames r = remove1 f ?r0"
    and src: "f \<in> set (free_list ?q) \<or> f \<in> set ?r0"
    using find_victim_Some [OF inv i fv] unfolding took_frame_def by blast
  have f: "f \<in> own b i" using src free_iff [OF inv i, of f] queued_iff [OF inv i, of f] by blast
  have fo: "frame_ok (pages b f) (frame_io_in_progress b f) (frame_writeback_in_progress b f)" using bpm_invD(7) [OF inv i f] .
  have st: "\<not> frame_io_in_progress b f" "\<not> frame_writeback_in_progress b f" "pin_count (pages b f) = 0"
    using src free_iff [OF inv i, of f] queued_iff [OF inv i, of f] fo by (auto simp: frame_ok_def)
  have pg: "pages b' = (pages b)(f := ?p)" by (simp add: b' tk)
  have fl: "frame_io_in_progress b' = (frame_io_in_progress b)(f := True)" "frame_writeback_in_progress b' = frame_writeback_in_progress b"
    by (simp_all add: b' tk)
  have pt: "page_table (partitions b' i) = page_table ?q" "dirty_pages (partitions b' i) = dirty_pages ?q" "dirty_count (partitions b' i) = dirty_count ?q"
    "free_list (partitions b' i) = remove1 f (free_list ?q)" "part_replacer (partitions b' i) = r"
    "inflight_page_loads (partitions b' i) = pid # inflight_page_loads ?q" "\<And>j. j \<noteq> i \<Longrightarrow> partitions b' j = partitions b j"
    "frame_begin (partitions b' i) = frame_begin ?q" "frame_end (partitions b' i) = frame_end ?q"
    "clean_available_count (partitions b' i) = clean_available_count ?q - (if is_dirty (pages b f) then 0 else 1)"
    by (simp_all add: b' tk(3-6))
  have ss: "same_static b b'" "dirty_page_count b' = dirty_page_count b" using tk(1,5) by (simp_all add: b' same_static_def)
  note ok = bpm_invD(1) [OF inv i, unfolded part_ok_def]
  have po: "part_ok (own b i) (pages b') (frame_io_in_progress b') (page_table (partitions b' i)) (dirty_pages (partitions b' i))
       (free_list (partitions b' i)) (frames (part_replacer (partitions b' i)))"
    unfolding pg pt tk(8)
  proof (rule part_ok_step [OF bpm_invD(1) [OF inv i] f])
    show "frame_io_in_progress b' g = frame_io_in_progress b g" if "g \<noteq> f" for g using that fl by simp
    show "is_dirty (pages b g) \<Longrightarrow> valid (pages b g)" if "g \<in> own b i" for g using bpm_inv_dirty_valid [OF inv i that] .
    show "is_dirty ?p \<Longrightarrow> valid ?p" using fo by (simp add: frame_ok_def)
    show "distinct (map fst (page_table ?q))" "distinct (dirty_pages ?q)" using ok by blast+
    show "distinct (remove1 f (free_list ?q))" "distinct (remove1 f ?r0)" using ok by (simp_all add: distinct_remove1)
    show "map_of (page_table ?q) x = (if valid ?p \<and> x = pg_id ?p then Some f
        else if valid (pages b f) \<and> x = pg_id (pages b f) then None else map_of (page_table ?q) x)" for x
      using owned_table [OF inv i f] by auto
    show "valid ?p \<Longrightarrow> map_of (page_table ?q) (pg_id ?p) = None \<or> map_of (page_table ?q) (pg_id ?p) = Some f"
      using owned_table [OF inv i f] by auto
    show "set (dirty_pages ?q) = set (dirty_pages ?q) - (if is_dirty (pages b f) then {pg_id (pages b f)} else {})
        \<union> (if is_dirty ?p then {pg_id ?p} else {})"
      using dirty_listed [OF inv i f] bpm_inv_dirty_valid [OF inv i f] by auto
    show "set (remove1 f (free_list ?q)) = (if \<not> valid ?p \<and> \<not> frame_io_in_progress b' f then insert f (set (free_list ?q)) else set (free_list ?q) - {f})"
      using ok fl by simp
    show "set (remove1 f ?r0) = (if is_evictable ?p then insert f (set ?r0) else set ?r0 - {f})" using ok by simp
  qed
  have cl: "clean_available_count (partitions b' i) = length (free_list (partitions b' i)) +
         length (filter (\<lambda>g. \<not> is_dirty (pages b' g)) (frames (part_replacer (partitions b' i))))"
  proof -
    have fe: "filter (\<lambda>g. \<not> is_dirty (pages b' g)) (remove1 f ?r0) = filter (\<lambda>g. \<not> is_dirty (pages b g)) (remove1 f ?r0)"
      unfolding pg by (intro filter_cong) auto
    show ?thesis
    proof (cases "f \<in> set (free_list ?q)")
      case True
      then have "\<not> is_evictable (pages b f)" "\<not> is_dirty (pages b f)"
        using free_iff [OF inv i, of f] fo by (auto simp: frame_ok_def)
      moreover from this have "remove1 f ?r0 = ?r0" using queued_iff [OF inv i] by (simp add: remove1_idem)
      ultimately show ?thesis using bpm_invD(4) [OF inv i] fe True length_pos_if_in_set [OF True]
        by (simp add: pt tk(8) length_remove1 del: length_greater_0_conv)
    next
      case False
      then have q: "f \<in> set ?r0" using src by simp
      show ?thesis
      proof (cases "is_dirty (pages b f)")
        case True
        then have "filter (\<lambda>g. \<not> is_dirty (pages b g)) (remove1 f ?r0) = filter (\<lambda>g. \<not> is_dirty (pages b g)) ?r0"
          by (simp add: filter_remove1 remove1_idem)
        then show ?thesis using bpm_invD(4) [OF inv i] False True by (simp add: pt tk(8) fe remove1_idem)
      next
        case nd: False
        then have "f \<in> set (filter (\<lambda>g. \<not> is_dirty (pages b g)) ?r0)" using q by simp
        note pos = length_pos_if_in_set [OF this]
        have "length (filter (\<lambda>g. \<not> is_dirty (pages b g)) (remove1 f ?r0)) = length (filter (\<lambda>g. \<not> is_dirty (pages b g)) ?r0) - 1"
          using nd q by (rule length_filter_remove1 [rotated])
        then show ?thesis using bpm_invD(4) [OF inv i] False nd pos
          by (simp add: pt tk(8) fe remove1_idem del: length_greater_0_conv)
      qed
    qed
  qed
  have "bpm_inv b'"
  proof (rule bpm_inv_step [OF inv i f _ _ _ _ _ pg _ _ _ _ po _ cl])
    show "frame_ok ?p (frame_io_in_progress b' f) (frame_writeback_in_progress b' f)"
      using fo st by (simp add: frame_ok_def sidecar_ok_def fl)
  qed (use ss tk(7) pid bpm_invD(3,5,6) [OF inv i] bpm_invD(8) [OF inv i f] in \<open>auto simp: pt fl same_static_def\<close>)
  then show ?thesis using f st pg fl pt ss by simp
qed

text \<open>
  Frame \<open>f\<close> while it is being loaded with page \<open>pid\<close>: both threads' views meet here.
\<close>

definition loading :: "bpm \<Rightarrow> nat \<Rightarrow> frame_id_t \<Rightarrow> page_id \<Rightarrow> page_id \<Rightarrow> bool" where
  "loading b i f vid pid \<longleftrightarrow> bpm_inv b \<and> i < num_partitions b \<and> f \<in> own b i \<and> frame_io_in_progress b f \<and>
     pg_id (pages b f) = vid \<and> partition_of b pid = i \<and> page_no pid \<noteq> INVALID_PAGE_ID \<and>
     pid \<in> set (inflight_page_loads (partitions b i))"

lemma loading_frame:
  assumes "loading b i f vid pid"
  shows "\<not> frame_writeback_in_progress b f" "pin_count (pages b f) = 0" "resident_pin_count (pages b f) = 0"
    "\<not> is_evictable (pages b f)" "length (data (pages b f)) = PAGE_SIZE" "sidecar_ok (pages b f)"
    "is_dirty (pages b f) \<Longrightarrow> valid (pages b f)" "map_of (page_table (partitions b i)) pid = None"
    "f \<notin> set (frames (part_replacer (partitions b i)))" "f \<notin> set (free_list (partitions b i))" "vid \<noteq> pid"
proof -
  have l: "bpm_inv b" "i < num_partitions b" "f \<in> own b i" "frame_io_in_progress b f" "pg_id (pages b f) = vid"
    "page_no pid \<noteq> INVALID_PAGE_ID" "pid \<in> set (inflight_page_loads (partitions b i))"
    using assms unfolding loading_def by blast+
  have fo: "frame_ok (pages b f) True (frame_writeback_in_progress b f)" using bpm_invD(7) [OF l(1,2,3)] l(4) by simp
  show "\<not> frame_writeback_in_progress b f" "pin_count (pages b f) = 0" "resident_pin_count (pages b f) = 0"
    and ne: "\<not> is_evictable (pages b f)" and "length (data (pages b f)) = PAGE_SIZE" "sidecar_ok (pages b f)"
    "is_dirty (pages b f) \<Longrightarrow> valid (pages b f)"
    using fo by (auto simp: frame_ok_def)
  show n: "map_of (page_table (partitions b i)) pid = None" using bpm_invD(6) [OF l(1,2,7)] by blast
  show "f \<notin> set (frames (part_replacer (partitions b i)))" using ne queued_iff [OF l(1,2)] by simp
  show "f \<notin> set (free_list (partitions b i))" using l(4) free_iff [OF l(1,2)] by simp
  show "vid \<noteq> pid" using n owned_table [OF l(1,2,3)] l(5,6) by auto
qed

lemma fetch_rollback_inv:
  assumes ld: "loading b i f vid pid" and b': "b' = fetch_rollback b i f vid pid"
  shows "bpm_inv b' \<and> pages b' = (pages b)(f := (pages b f)\<lparr>is_evictable := valid (pages b f)\<rparr>) \<and> same_static b b'
    \<and> frame_io_in_progress b' = (frame_io_in_progress b)(f := False) \<and> frame_writeback_in_progress b' = frame_writeback_in_progress b
    \<and> inflight_page_loads (partitions b' i) = removeAll pid (inflight_page_loads (partitions b i))
    \<and> page_table (partitions b' i) = page_table (partitions b i)"
proof -
  let ?q = "partitions b i" and ?p = "(pages b f)\<lparr>is_evictable := valid (pages b f)\<rparr>"
  let ?r0 = "frames (part_replacer (partitions b i))"
  have l: "bpm_inv b" "i < num_partitions b" "f \<in> own b i" "frame_io_in_progress b f" "pg_id (pages b f) = vid" "partition_of b pid = i"
    using ld unfolding loading_def by blast+
  note lf = loading_frame [OF ld]
  define b2 where "b2 = (upd_part b i (\<lambda>p. p\<lparr>inflight_page_loads := removeAll pid (inflight_page_loads p)\<rparr>))
      \<lparr>frame_io_in_progress := (frame_io_in_progress b)(f := False)\<rparr>"
  have bb: "b' = (if \<not> valid (pages b f) then return_free_frame b2 i f else mark_frame_evictable b2 i f False)"
    using l(5) by (simp add: b' fetch_rollback_def Let_def b2_def)
  have b2s: "pages b2 = pages b" "frame_io_in_progress b2 = (frame_io_in_progress b)(f := False)" "frame_writeback_in_progress b2 = frame_writeback_in_progress b"
    "partitions b2 = (partitions b)(i := ?q\<lparr>inflight_page_loads := removeAll pid (inflight_page_loads ?q)\<rparr>)" "same_static b b2"
    "dirty_page_count b2 = dirty_page_count b"
    by (simp_all add: b2_def same_static_def)
  have me: "mark_frame_evictable b2 i f False = b' \<Longrightarrow> valid (pages b f) \<Longrightarrow>
      pages b' = (pages b)(f := (pages b f)\<lparr>is_evictable := True\<rparr>) \<and>
      partitions b' = (partitions b)(i := ?q\<lparr>inflight_page_loads := removeAll pid (inflight_page_loads ?q), part_replacer := unpin (part_replacer ?q) f,
         clean_available_count := clean_available_count ?q + (if is_dirty (pages b f) then 0 else 1)\<rparr>) \<and>
      frame_io_in_progress b' = (frame_io_in_progress b)(f := False) \<and> frame_writeback_in_progress b' = frame_writeback_in_progress b \<and>
      dirty_page_count b' = dirty_page_count b \<and> same_static b b'"
    using mark_frame_evictable_eff [of b2 f i False] lf b2s by (auto simp: same_static_def)
  define F' where "F' = (if valid (pages b f) then free_list ?q else free_list ?q @ [f])"
  define r' where "r' = (if valid (pages b f) then unpin (part_replacer ?q) f else part_replacer ?q)"
  have r': "lru_inv r'" "frames r' = (if valid (pages b f) then f # ?r0 else ?r0)"
    using bpm_invD(2) [OF l(1,2)] lru.unpn_queue [OF bpm_invD(2) [OF l(1,2)], of f] lf(9) by (simp_all add: r'_def)
  have st: "pages b' = (pages b)(f := ?p)" "frame_io_in_progress b' = (frame_io_in_progress b)(f := False)"
      "frame_writeback_in_progress b' = frame_writeback_in_progress b" "dirty_page_count b' = dirty_page_count b" "same_static b b'"
      "partitions b' = (partitions b)(i := ?q\<lparr>inflight_page_loads := removeAll pid (inflight_page_loads ?q), free_list := F', part_replacer := r',
         clean_available_count := clean_available_count ?q + (if is_dirty (pages b f) then 0 else 1)\<rparr>)"
  proof -
    have "pages b' = (pages b)(f := ?p) \<and> frame_io_in_progress b' = (frame_io_in_progress b)(f := False) \<and>
      frame_writeback_in_progress b' = frame_writeback_in_progress b \<and> dirty_page_count b' = dirty_page_count b \<and> same_static b b' \<and>
      partitions b' = (partitions b)(i := ?q\<lparr>inflight_page_loads := removeAll pid (inflight_page_loads ?q), free_list := F', part_replacer := r',
         clean_available_count := clean_available_count ?q + (if is_dirty (pages b f) then 0 else 1)\<rparr>)"
    proof (cases "valid (pages b f)")
      case True
      then show ?thesis using me [OF _ True] bb by (simp add: F'_def r'_def)
    next
      case False
      then have "\<not> is_dirty (pages b f)" using lf(7) by blast
      then show ?thesis using False b2s(5) by (simp add: bb F'_def r'_def return_free_frame_def b2s same_static_def)
    qed
    then show "pages b' = (pages b)(f := ?p)" "frame_io_in_progress b' = (frame_io_in_progress b)(f := False)"
      "frame_writeback_in_progress b' = frame_writeback_in_progress b" "dirty_page_count b' = dirty_page_count b" "same_static b b'"
      "partitions b' = (partitions b)(i := ?q\<lparr>inflight_page_loads := removeAll pid (inflight_page_loads ?q), free_list := F', part_replacer := r',
         clean_available_count := clean_available_count ?q + (if is_dirty (pages b f) then 0 else 1)\<rparr>)"
      by blast+
  qed
  have pt: "page_table (partitions b' i) = page_table ?q" "dirty_pages (partitions b' i) = dirty_pages ?q" "free_list (partitions b' i) = F'"
    "part_replacer (partitions b' i) = r'" by (simp_all add: st(6))
  note ok = bpm_invD(1) [OF l(1,2), unfolded part_ok_def]
  have po: "part_ok (own b i) (pages b') (frame_io_in_progress b') (page_table (partitions b' i)) (dirty_pages (partitions b' i))
       (free_list (partitions b' i)) (frames (part_replacer (partitions b' i)))"
    unfolding st(1,2) pt
  proof (rule part_ok_step [OF bpm_invD(1) [OF l(1,2)] l(3)])
    show "((frame_io_in_progress b)(f := False)) g = frame_io_in_progress b g" if "g \<noteq> f" for g using that by simp
    show "is_dirty (pages b g) \<Longrightarrow> valid (pages b g)" if "g \<in> own b i" for g using bpm_inv_dirty_valid [OF l(1,2) that] .
    show "is_dirty ?p \<Longrightarrow> valid ?p" using lf(7) by simp
    show "distinct (map fst (page_table ?q))" "distinct (dirty_pages ?q)" using ok by blast+
    show "distinct F'" using ok lf(10) by (simp add: F'_def)
    show "distinct (frames r')" using ok lf(9) by (simp add: r')
    show "map_of (page_table ?q) x = (if valid ?p \<and> x = pg_id ?p then Some f
        else if valid (pages b f) \<and> x = pg_id (pages b f) then None else map_of (page_table ?q) x)" for x
      using owned_table [OF l(1,2,3)] by auto
    show "valid ?p \<Longrightarrow> map_of (page_table ?q) (pg_id ?p) = None \<or> map_of (page_table ?q) (pg_id ?p) = Some f"
      using owned_table [OF l(1,2,3)] by auto
    show "set (dirty_pages ?q) = set (dirty_pages ?q) - (if is_dirty (pages b f) then {pg_id (pages b f)} else {})
        \<union> (if is_dirty ?p then {pg_id ?p} else {})"
      using dirty_listed [OF l(1,2,3)] lf(7) by auto
    show "set F' = (if \<not> valid ?p \<and> \<not> ((frame_io_in_progress b)(f := False)) f then insert f (set (free_list ?q)) else set (free_list ?q) - {f})"
      using lf(10) by (auto simp: F'_def)
    show "set (frames r') = (if is_evictable ?p then insert f (set ?r0) else set ?r0 - {f})"
      using lf(9) by (auto simp: r')
  qed
  have fe: "filter (\<lambda>g. \<not> is_dirty (pages b' g)) ?r0 = filter (\<lambda>g. \<not> is_dirty (pages b g)) ?r0"
    unfolding st using lf(9) by (intro filter_cong) auto
  have cl: "clean_available_count (partitions b' i) = length (free_list (partitions b' i)) +
         length (filter (\<lambda>g. \<not> is_dirty (pages b' g)) (frames (part_replacer (partitions b' i))))"
    using bpm_invD(4) [OF l(1,2)] fe lf(7) by (auto simp: st(6) r' F'_def) (auto simp: st(1))
  have "bpm_inv b'"
  proof (rule bpm_inv_step [OF l(1,2,3) _ _ _ _ _ st(1) _ _ _ _ po _ cl])
    show "frame_ok ?p (frame_io_in_progress b' f) (frame_writeback_in_progress b' f)"
      using bpm_invD(7) [OF l(1,2,3)] lf by (auto simp: st frame_ok_def sidecar_ok_def)
  qed (use st(5) r'(1) bpm_invD(3,5,6) [OF l(1,2)] bpm_invD(8) [OF l(1,2,3)] in \<open>auto simp: st(2-6) same_static_def distinct_removeAll\<close>)
  then show ?thesis using st by simp
qed

lemma install_page_inv:
  assumes ld: "loading b i f vid pid" and bs: "length bs = PAGE_SIZE" and b': "b' = install_page b i f vid pid bs"
  shows "bpm_inv b' \<and> same_static b b' \<and> frame_io_in_progress b' = (frame_io_in_progress b)(f := False)
    \<and> frame_writeback_in_progress b' = frame_writeback_in_progress b
    \<and> (\<exists>p'. pages b' = (pages b)(f := p') \<and> pg_id p' = pid \<and> data p' = bs \<and> pin_count p' = 1 \<and> resident_pin_count p' = 0
        \<and> \<not> is_dirty p' \<and> wal_state p' = kClean)
    \<and> map_of (page_table (partitions b' i)) = (\<lambda>x. if x = pid then Some f else if x = vid then None else map_of (page_table (partitions b i)) x)
    \<and> (\<forall>j. j \<noteq> i \<longrightarrow> partitions b' j = partitions b j)
    \<and> inflight_page_loads (partitions b' i) = removeAll pid (inflight_page_loads (partitions b i))"
proof -
  let ?q = "partitions b i" and ?r0 = "frames (part_replacer (partitions b i))"
  have l: "bpm_inv b" "i < num_partitions b" "f \<in> own b i" "frame_io_in_progress b f" "pg_id (pages b f) = vid" "partition_of b pid = i"
    "page_no pid \<noteq> INVALID_PAGE_ID"
    using ld unfolding loading_def by blast+
  note lf = loading_frame [OF ld] and ok = bpm_invD(1) [OF l(1,2), unfolded part_ok_def]
  define p' where "p' = (reset_memory (pages b f))\<lparr>pg_id := pid, data := bs, is_dirty := False, is_evictable := False,
                 pin_count := 1, resident_pin_count := 0, dirty_generation := 0\<rparr>"
  define D' where "D' = (if is_dirty (pages b f) then remove1 vid (dirty_pages ?q) else dirty_pages ?q)"
  define pt' where "pt' = AList.update pid f (if valid (pages b f) then AList.delete vid (page_table ?q) else page_table ?q)"
  have dl: "is_dirty (pages b f) \<Longrightarrow> vid \<in> set (dirty_pages ?q)" using dirty_listed [OF l(1,2,3) lf(7)] l(5) by simp
  define b0 where "b0 = (if is_dirty (pages b f) then snd (erase_dirty_page (upd_page b f (\<lambda>pg. pg\<lparr>is_dirty := False\<rparr>)) i vid) else b)"
  have b0s: "pages b0 = (pages b)(f := (pages b f)\<lparr>is_dirty := False\<rparr>)" "frame_io_in_progress b0 = frame_io_in_progress b"
    "frame_writeback_in_progress b0 = frame_writeback_in_progress b" "same_static b b0"
    "partitions b0 = (partitions b)(i := ?q\<lparr>dirty_pages := D', dirty_count := dirty_count ?q - (if is_dirty (pages b f) then 1 else 0)\<rparr>)"
    "dirty_page_count b0 = dirty_page_count b - (if is_dirty (pages b f) then 1 else 0)"
    using erase_dirty_page_eff [of vid "upd_page b f (\<lambda>pg. pg\<lparr>is_dirty := False\<rparr>)" i] dl
    by (cases "is_dirty (pages b f)"; auto simp: b0_def D'_def same_static_def fun_eq_iff)+
  have bb: "b' = (upd_part (upd_page (if valid (pages b f) then upd_part b0 i (\<lambda>p. p\<lparr>page_table := AList.delete vid (page_table p)\<rparr>) else b0) f
        (\<lambda>pg. (reset_memory pg)\<lparr>pg_id := pid, data := bs, is_dirty := False, is_evictable := False,
                 pin_count := 1, resident_pin_count := 0, dirty_generation := 0\<rparr>)) i
        (\<lambda>p. p\<lparr>page_table := AList.update pid f (page_table p), inflight_page_loads := removeAll pid (inflight_page_loads p)\<rparr>))
        \<lparr>frame_io_in_progress := (frame_io_in_progress b)(f := False)\<rparr>"
    using l(5) lf(7) b0s(2) by (auto simp: b' install_page_def Let_def b0_def)
  have st: "pages b' = (pages b)(f := p')" "frame_io_in_progress b' = (frame_io_in_progress b)(f := False)"
    "frame_writeback_in_progress b' = frame_writeback_in_progress b" "same_static b b'"
    "dirty_page_count b' = dirty_page_count b - (if is_dirty (pages b f) then 1 else 0)"
    "partitions b' = (partitions b)(i := ?q\<lparr>dirty_pages := D', dirty_count := dirty_count ?q - (if is_dirty (pages b f) then 1 else 0),
        page_table := pt', inflight_page_loads := removeAll pid (inflight_page_loads ?q)\<rparr>)"
    using b0s(4) by (simp_all add: bb b0s same_static_def p'_def reset_memory_def pt'_def)
  have mp: "map_of pt' x = (if x = pid then Some f else if valid (pages b f) \<and> x = vid then None else map_of (page_table ?q) x)" for x
    by (simp add: pt'_def update_conv' delete_conv')
  have pt: "page_table (partitions b' i) = pt'" "dirty_pages (partitions b' i) = D'" "free_list (partitions b' i) = free_list ?q"
    "part_replacer (partitions b' i) = part_replacer ?q" "inflight_page_loads (partitions b' i) = removeAll pid (inflight_page_loads ?q)"
    "dirty_count (partitions b' i) = dirty_count ?q - (if is_dirty (pages b f) then 1 else 0)"
    "clean_available_count (partitions b' i) = clean_available_count ?q"
    by (simp_all add: st(6))
  have pp: "pg_id p' = pid" "\<not> is_dirty p'" "\<not> is_evictable p'" by (simp_all add: p'_def)
  have po: "part_ok (own b i) (pages b') (frame_io_in_progress b') (page_table (partitions b' i)) (dirty_pages (partitions b' i))
       (free_list (partitions b' i)) (frames (part_replacer (partitions b' i)))"
    unfolding st(1,2) pt
  proof (rule part_ok_step [OF bpm_invD(1) [OF l(1,2)] l(3)])
    show "((frame_io_in_progress b)(f := False)) g = frame_io_in_progress b g" if "g \<noteq> f" for g using that by simp
    show "is_dirty (pages b g) \<Longrightarrow> valid (pages b g)" if "g \<in> own b i" for g using bpm_inv_dirty_valid [OF l(1,2) that] .
    show "distinct (map fst pt')" using ok by (simp add: pt'_def distinct_update distinct_delete)
    show "distinct D'" "distinct (free_list ?q)" "distinct ?r0" using ok by (simp_all add: D'_def distinct_remove1)
    show "map_of pt' x = (if valid p' \<and> x = pg_id p' then Some f
        else if valid (pages b f) \<and> x = pg_id (pages b f) then None else map_of (page_table ?q) x)" for x
      using mp l(5,7) pp(1) by simp
    show "set D' = set (dirty_pages ?q) - (if is_dirty (pages b f) then {pg_id (pages b f)} else {}) \<union> (if is_dirty p' then {pg_id p'} else {})"
      using ok l(5) pp(2) by (simp add: D'_def)
    show "set (free_list ?q) = (if \<not> valid p' \<and> \<not> ((frame_io_in_progress b)(f := False)) f then insert f (set (free_list ?q)) else set (free_list ?q) - {f})"
      using lf(10) pp(1) l(7) by auto
  qed (use pp lf(8,9) l(7) in auto)
  have dc: "dirty_count (partitions b' i) = length (dirty_pages (partitions b' i))"
    using bpm_invD(3) [OF l(1,2)] dl by (simp add: pt D'_def length_remove1)
  have dpc: "dirty_count ?q \<le> dirty_page_count b" "is_dirty (pages b f) \<Longrightarrow> 0 < dirty_count ?q"
    using l(1,2) member_le_sum [of i "{..<num_partitions b}" "\<lambda>j. dirty_count (partitions b j)"] bpm_invD(3) [OF l(1,2)] dl
    unfolding bpm_inv_def by (auto simp: length_pos_if_in_set)
  have "filter (\<lambda>g. \<not> is_dirty (pages b' g)) ?r0 = filter (\<lambda>g. \<not> is_dirty (pages b g)) ?r0"
    unfolding st using lf(9) by (intro filter_cong) auto
  then have cl: "clean_available_count (partitions b' i) = length (free_list (partitions b' i)) +
         length (filter (\<lambda>g. \<not> is_dirty (pages b' g)) (frames (part_replacer (partitions b' i))))"
    using bpm_invD(4) [OF l(1,2)] by (simp add: pt)
  have fok: "frame_ok p' (frame_io_in_progress b' f) (frame_writeback_in_progress b' f)"
    using lf bs l(7) by (simp add: st frame_ok_def sidecar_ok_def p'_def reset_memory_def)
  have infl: "\<And>q. q \<in> set (inflight_page_loads (partitions b' i)) \<Longrightarrow>
      map_of (page_table (partitions b' i)) q = None \<and> partition_of b q = i \<and> page_no q \<noteq> INVALID_PAGE_ID"
    using bpm_invD(6) [OF l(1,2)] by (auto simp: pt mp)
  have dpc': "dirty_page_count b' + dirty_count ?q = dirty_page_count b + dirty_count (partitions b' i)" using dpc by (auto simp: st(5) pt)
  have "bpm_inv b'"
    by (rule bpm_inv_step [OF l(1,2,3) _ _ _ _ _ st(1) _ _ fok _ po dc cl dpc' _ _ infl])
      (use st(4) l(6) pp(1) bpm_invD(2,5) [OF l(1,2)] in \<open>auto simp: st(2,3,6) same_static_def distinct_removeAll\<close>)
  moreover have "\<not> valid (pages b f) \<Longrightarrow> map_of (page_table ?q) vid = None"
    using table_frame(2,3) [OF l(1) _ l(2), of vid] l(5) by (cases "map_of (page_table ?q) vid") auto
  then have "map_of (page_table (partitions b' i)) = (\<lambda>x. if x = pid then Some f else if x = vid then None else map_of (page_table ?q) x)"
    by (auto simp: pt mp fun_eq_iff)
  moreover have "pg_id p' = pid \<and> data p' = bs \<and> pin_count p' = 1 \<and> resident_pin_count p' = 0 \<and> \<not> is_dirty p' \<and> wal_state p' = kClean"
    by (simp add: p'_def reset_memory_def)
  ultimately show ?thesis using st pt(5) by auto
qed

lemma remove_page_inv:
  assumes inv: "bpm_inv b" and i: "i < num_partitions b" and f: "f \<in> own b i" and v: "valid (pages b f)"
    and nd: "\<not> is_dirty (pages b f)" "pin_count (pages b f) = 0" "\<not> frame_io_in_progress b f"
    and n: "page_no n = INVALID_PAGE_ID"
    and b': "b' = return_free_frame (update_page (mark_frame_pinned b i f) i n f) i f"
  shows "bpm_inv b' \<and> same_static b b' \<and> frame_io_in_progress b' = frame_io_in_progress b
    \<and> frame_writeback_in_progress b' = frame_writeback_in_progress b
    \<and> map_of (page_table (partitions b' i)) = (map_of (page_table (partitions b i)))(pg_id (pages b f) := None)
    \<and> (\<forall>g. g \<noteq> f \<longrightarrow> pages b' g = pages b g) \<and> (\<forall>j. j \<noteq> i \<longrightarrow> partitions b' j = partitions b j)
    \<and> inflight_page_loads (partitions b' i) = inflight_page_loads (partitions b i)"
proof -
  let ?q = "partitions b i" and ?r0 = "frames (part_replacer (partitions b i))" and ?vid = "pg_id (pages b f)"
  note ok = bpm_invD(1) [OF inv i, unfolded part_ok_def]
  have fo: "frame_ok (pages b f) False (frame_writeback_in_progress b f)" using bpm_invD(7) [OF inv i f] nd(3) by simp
  have ev: "is_evictable (pages b f)" "\<not> frame_writeback_in_progress b f" using fo v nd by (auto simp: frame_ok_def)
  have q: "f \<in> set ?r0" "f \<notin> set (free_list ?q)" using queued_iff [OF inv i] free_iff [OF inv i] ev v f by blast+
  have nl: "?vid \<notin> set (dirty_pages ?q)" using dirty_listed [OF inv i f v] nd by simp
  define r' where "r' = pin (part_replacer ?q) f"
  have r': "lru_inv r'" "frames r' = remove1 f ?r0" using lru.pn_queue [OF bpm_invD(2) [OF inv i], of f] by (simp_all add: r'_def)
  define p' where "p' = (reset_memory (pages b f))\<lparr>pg_id := n, is_dirty := False,
      pin_count := 0, resident_pin_count := 0, dirty_generation := 0, is_evictable := False\<rparr>"
  define pt' where "pt' = AList.delete ?vid (page_table ?q)"
  define b1 where "b1 = mark_frame_pinned b i f"
  note b1s = mark_frame_pinned_eff [of b i f, folded b1_def]
  have er: "snd (erase_dirty_page b1 i ?vid) = b1" using nl by (simp add: erase_dirty_page_def b1s)
  have up: "update_page b1 i n f = upd_page (upd_part b1 i (\<lambda>p. p\<lparr>page_table := AList.delete ?vid (page_table p)\<rparr>)) f
      (\<lambda>pg. (reset_memory pg)\<lparr>pg_id := n, is_dirty := False, is_evictable := False,
                 pin_count := 0, resident_pin_count := 0, dirty_generation := 0\<rparr>)"
    using n v er by (simp add: update_page_def b1s Let_def)
  have st: "pages b' = (pages b)(f := p')" "frame_io_in_progress b' = frame_io_in_progress b"
    "frame_writeback_in_progress b' = frame_writeback_in_progress b" "same_static b b'" "dirty_page_count b' = dirty_page_count b"
    "page_table (partitions b' i) = pt'" "dirty_pages (partitions b' i) = dirty_pages ?q" "free_list (partitions b' i) = free_list ?q @ [f]"
    "part_replacer (partitions b' i) = r'" "inflight_page_loads (partitions b' i) = inflight_page_loads ?q"
    "dirty_count (partitions b' i) = dirty_count ?q" "clean_available_count (partitions b' i) = Suc (clean_available_count ?q - 1)"
    "frame_begin (partitions b' i) = frame_begin ?q" "frame_end (partitions b' i) = frame_end ?q"
    "\<And>j. j \<noteq> i \<Longrightarrow> partitions b' j = partitions b j"
    using b1s(7) ev nd by (simp_all add: b' return_free_frame_def b1_def [symmetric] up b1s same_static_def p'_def reset_memory_def pt'_def r'_def)
  have pp: "pg_id p' = n" "\<not> is_dirty p'" "\<not> is_evictable p'" by (simp_all add: p'_def)
  have po: "part_ok (own b i) (pages b') (frame_io_in_progress b') (page_table (partitions b' i)) (dirty_pages (partitions b' i))
       (free_list (partitions b' i)) (frames (part_replacer (partitions b' i)))"
    unfolding st(1,2,6-9) r'(2)
  proof (rule part_ok_step [OF bpm_invD(1) [OF inv i] f])
    show "is_dirty (pages b g) \<Longrightarrow> valid (pages b g)" if "g \<in> own b i" for g using bpm_inv_dirty_valid [OF inv i that] .
    show "distinct (map fst pt')" using ok by (simp add: pt'_def distinct_delete)
    show "distinct (dirty_pages ?q)" using ok by blast
    show "distinct (free_list ?q @ [f])" "distinct (remove1 f ?r0)" using ok q(2) by (simp_all add: distinct_remove1)
    show "map_of pt' x = (if valid p' \<and> x = pg_id p' then Some f
        else if valid (pages b f) \<and> x = ?vid then None else map_of (page_table ?q) x)" for x
      using pp n v by (simp add: pt'_def delete_conv')
    show "set (free_list ?q @ [f]) = (if \<not> valid p' \<and> \<not> frame_io_in_progress b f then insert f (set (free_list ?q)) else set (free_list ?q) - {f})"
      using pp n nd by auto
    show "set (remove1 f ?r0) = (if is_evictable p' then insert f (set ?r0) else set ?r0 - {f})" using ok pp by simp
  qed (use pp n nd in auto)
  have cl: "clean_available_count (partitions b' i) = length (free_list (partitions b' i)) +
         length (filter (\<lambda>g. \<not> is_dirty (pages b' g)) (frames (part_replacer (partitions b' i))))"
  proof -
    have "filter (\<lambda>g. \<not> is_dirty (pages b' g)) (remove1 f ?r0) = filter (\<lambda>g. \<not> is_dirty (pages b g)) (remove1 f ?r0)"
      unfolding st using ok by (intro filter_cong) auto
    moreover have "length (filter (\<lambda>g. \<not> is_dirty (pages b g)) (remove1 f ?r0)) = length (filter (\<lambda>g. \<not> is_dirty (pages b g)) ?r0) - 1"
      using q(1) nd(1) by (rule length_filter_remove1)
    moreover have "f \<in> set (filter (\<lambda>g. \<not> is_dirty (pages b g)) ?r0)" using q nd by simp
    from length_pos_if_in_set [OF this] have "0 < length (filter (\<lambda>g. \<not> is_dirty (pages b g)) ?r0)" .
    ultimately show ?thesis using bpm_invD(4) [OF inv i] by (simp add: st r' del: length_greater_0_conv)
  qed
  have fok: "frame_ok p' (frame_io_in_progress b' f) (frame_writeback_in_progress b' f)"
    using n ev nd by (simp add: st frame_ok_def sidecar_ok_def p'_def reset_memory_def)
  have infl: "\<And>q. q \<in> set (inflight_page_loads (partitions b' i)) \<Longrightarrow>
      map_of (page_table (partitions b' i)) q = None \<and> partition_of b q = i \<and> page_no q \<noteq> INVALID_PAGE_ID"
    using bpm_invD(6) [OF inv i] by (auto simp: st pt'_def delete_conv')
  have "bpm_inv b'"
    by (rule bpm_inv_step [OF inv i f _ _ _ _ _ st(1) _ _ fok _ po _ cl _ _ _ infl])
      (use st(4) pp(1) n r'(1) bpm_invD(3,5) [OF inv i] in \<open>auto simp: st same_static_def\<close>)
  then show ?thesis using st by (auto simp: pt'_def delete_conv')
qed

end
