(* ===== verification/Rmdb_Buffer_Props.thy ===== *)
theory Rmdb_Buffer_Props
  imports Rmdb_Buffer_Load
begin

text \<open>
  The properties of the buffer pool: the layout the constructor builds, the invariant in every
  reachable state of the concurrent pool, the coherence of cached pages with the disk, and the write-ahead rule.
\<close>

subsection \<open>The layout\<close>

lemma part_begin_Suc: "part_begin psize (Suc i) = part_begin psize i + part_frames psize i"
  by (simp add: part_begin_def)

lemma part_begin_mono: "i \<le> j \<Longrightarrow> part_begin psize i \<le> part_begin psize j"
  by (induction j) (auto simp: part_begin_Suc le_Suc_eq)

lemma part_begin_closed:
  "i \<le> partition_count psize \<Longrightarrow> part_begin psize i = i * (psize div partition_count psize) + min i (psize mod partition_count psize)"
proof (induction i)
  case 0
  then show ?case by (simp add: part_begin_def)
next
  case (Suc i)
  then show ?case by (auto simp: part_begin_Suc part_frames_def Let_def min_def)
qed

lemma partition_count_pos: "0 < partition_count psize"
  by (simp add: partition_count_def Let_def)

lemma part_begin_end: "part_begin psize (partition_count psize) = psize"
  using part_begin_closed [of "partition_count psize" psize] partition_count_pos [of psize]
  by (simp add: min_absorb2 mod_le_divisor less_imp_le)

lemma fp2_loop_bound: "0 < pw \<Longrightarrow> pw \<le> v \<Longrightarrow> fp2_loop v pw \<le> v \<and> v < 2 * fp2_loop v pw \<and> (\<exists>k. fp2_loop v pw = pw * 2 ^ k)"
proof (induction v pw rule: fp2_loop.induct)
  case (1 v pw)
  show ?case
  proof (cases "2 * pw \<le> v")
    case True
    then have e: "fp2_loop v pw = fp2_loop v (2 * pw)" using 1(2) by (simp add: fp2_loop.simps [of v pw])
    obtain k where k: "fp2_loop v (2 * pw) \<le> v" "v < 2 * fp2_loop v (2 * pw)" "fp2_loop v (2 * pw) = 2 * pw * 2 ^ k"
      using 1(1) 1(2) True by auto
    moreover have "2 * pw * 2 ^ k = pw * 2 ^ Suc k" by simp
    ultimately show ?thesis unfolding e by metis
  next
    case False
    then have e: "fp2_loop v pw = pw" by (simp add: fp2_loop.simps [of v pw])
    have "pw = pw * 2 ^ 0" by simp
    then show ?thesis unfolding e using 1(3) False by (metis not_le)
  qed
qed

lemma shrink_power: "\<exists>k. n = 2 ^ k \<Longrightarrow> (\<exists>k. shrink_partitions psize n = 2 ^ k) \<and> shrink_partitions psize n \<le> n
    \<and> (1 < shrink_partitions psize n \<longrightarrow> kMinFramesPerPartition \<le> psize div shrink_partitions psize n)"
proof (induction psize n rule: shrink_partitions.induct)
  case (1 psize n)
  show ?case
  proof (cases "1 < n \<and> psize div n < kMinFramesPerPartition")
    case True
    then have e: "shrink_partitions psize n = shrink_partitions psize (n div 2)" by (simp add: shrink_partitions.simps [of psize n])
    obtain k where k: "n = 2 ^ k" using 1(2) by blast
    with True obtain j where "k = Suc j" by (cases k) auto
    then have h: "\<exists>k. n div 2 = 2 ^ k" using k by auto
    have "shrink_partitions psize (n div 2) \<le> n div 2" using 1(1) [OF True h] by blast
    then show ?thesis using 1(1) [OF True h] unfolding e by (meson div_le_dividend order_trans)
  next
    case False
    then have "shrink_partitions psize n = n" unfolding shrink_partitions.simps [of psize n] by (rule if_not_P)
    then show ?thesis using 1(2) False by auto
  qed
qed

text \<open>
  The constructor splits the frames into partitions correctly for every pool size: the number
  of partitions is a power of two and at most the configured 16 (so the hash mask selects a partition), each
  partition has at least 8 frames unless there is only one, and the partitions are
  consecutive, disjoint intervals that cover the frames \<open>0\<close> to \<open>pool_size - 1\<close>.
\<close>

lemma partition_layout:
  "(\<exists>k. partition_count n = 2 ^ k) \<and> partition_count n \<le> BPM_PARTITION_COUNT
   \<and> (1 < partition_count n \<longrightarrow> kMinFramesPerPartition \<le> n div partition_count n)
   \<and> (\<forall>i < partition_count n. frame_begin (new_partition n i) = part_begin n i \<and> frame_end (new_partition n i) = part_begin n (Suc i))
   \<and> part_begin n 0 = 0 \<and> part_begin n (partition_count n) = n
   \<and> partition_of (BufferPoolManager_new n) pid < partition_count n"
proof -
  let ?f = "floor_power_of_two (min n BPM_PARTITION_COUNT)"
  have c: "(\<exists>k. partition_count n = 2 ^ k) \<and> partition_count n \<le> BPM_PARTITION_COUNT
     \<and> (1 < partition_count n \<longrightarrow> kMinFramesPerPartition \<le> n div partition_count n)"
  proof (cases "n = 0")
    case True
    then have "partition_count n = 2 ^ 0"
      by (simp add: partition_count_def floor_power_of_two_def shrink_partitions.simps [of 0 0])
    then show ?thesis by (metis BPM_PARTITION_COUNT_def one_le_numeral power_0 less_irrefl)
  next
    case False
    then have m: "0 < min n BPM_PARTITION_COUNT" by (simp add: BPM_PARTITION_COUNT_def)
    then have f: "\<exists>k. ?f = 2 ^ k" "?f \<le> min n BPM_PARTITION_COUNT"
      using fp2_loop_bound [of 1 "min n BPM_PARTITION_COUNT"] by (auto simp: floor_power_of_two_def)
    note s = shrink_power [OF f(1), of n]
    then have "partition_count n = shrink_partitions n ?f" by (auto simp: partition_count_def Let_def)
    then show ?thesis using s f(2) by (metis min.bounded_iff order_trans)
  qed
  have "partition_of (BufferPoolManager_new n) pid < partition_count n"
    using partition_of_less [of "BufferPoolManager_new n" pid] partition_count_pos by (simp add: BufferPoolManager_new_def)
  then show ?thesis using c part_begin_end
    by (simp add: new_partition_def Let_def part_begin_Suc) (simp add: part_begin_def)
qed

lemma partition_layout_example:
  "partition_count 100 = 8 \<and> kMinFramesPerPartition \<le> 100 div partition_count 100 \<and> frame_end (new_partition 100 7) = part_begin 100 8"
proof -
  have "partition_count 100 = 8"
    by (simp add: partition_count_def floor_power_of_two_def BPM_PARTITION_COUNT_def fp2_loop.simps shrink_partitions.simps kMinFramesPerPartition_def)
  with partition_layout [of 100] show ?thesis by (simp del: One_nat_def add: eval_nat_numeral(3) [symmetric])
qed

lemma bpm_inv_new: "bpm_inv (BufferPoolManager_new n)"
proof -
  let ?b = "BufferPoolManager_new n"
  have ow: "own ?b i = {part_begin n i..<part_begin n (Suc i)}" for i
    by (simp add: BufferPoolManager_new_def new_partition_def Let_def part_begin_Suc)
  have disj: "own ?b i \<inter> own ?b j = {}" if "i \<noteq> j" for i j
  proof -
    have "Suc i \<le> j \<or> Suc j \<le> i" using that by linarith
    then have "part_begin n (Suc i) \<le> part_begin n j \<or> part_begin n (Suc j) \<le> part_begin n i"
      using part_begin_mono by blast
    then show ?thesis unfolding ow by auto
  qed
  have le: "i < partition_count n \<Longrightarrow> part_begin n (Suc i) \<le> n" for i
    using part_begin_mono [of "Suc i" "partition_count n" n] part_begin_end by simp
  have pi: "bpm_part_inv ?b i" if "i < partition_count n" for i
    using le [OF that]
    by (simp add: bpm_part_inv_def Let_def part_ok_def BufferPoolManager_new_def new_partition_def Page_new_def part_begin_Suc)
  have fo: "frame_ok Page_new False False" by (simp add: frame_ok_def Page_new_def sidecar_ok_def)
  have s: "num_partitions ?b = partition_count n" "pages ?b = (\<lambda>_. Page_new)" "frame_io_in_progress ?b = (\<lambda>_. False)"
    "frame_writeback_in_progress ?b = (\<lambda>_. False)" "dirty_page_count ?b = 0" "\<And>i. dirty_count (partitions ?b i) = 0"
    by (simp_all add: BufferPoolManager_new_def new_partition_def Let_def)
  show ?thesis unfolding bpm_inv_def s using pi disj fo partition_count_pos by simp
qed

subsection \<open>All interleavings\<close>

text \<open>
  The steps threads make under a partition latch, and the changes a client makes to a page it has
  pinned. Thread-local state is not tracked: a load may be finished or rolled
  back for any page that is in flight, and a write-back may be finished by any task on its frame, so
  the relation has more behaviours than the program. A client unpins only pages it has pinned (while a page is written back its pin is
  not the only one above the resident pins).
\<close>

definition client_pin :: "bpm \<Rightarrow> frame_id_t \<Rightarrow> bool" where
  "client_pin b f \<longleftrightarrow> (frame_writeback_in_progress b f \<longrightarrow> pin_count (pages b f) > resident_pin_count (pages b f) + 1)"

inductive bpm_step :: "bpm \<Rightarrow> bpm \<Rightarrow> bool" where
  fetch: "page_no pid \<noteq> INVALID_PAGE_ID \<Longrightarrow> fetch_begin b pid = (ch, b') \<Longrightarrow> bpm_step b b'"
| create: "page_no pid \<noteq> INVALID_PAGE_ID \<Longrightarrow> partition_of b pid = i \<Longrightarrow> map_of (page_table (partitions b i)) pid = None \<Longrightarrow>
     pid \<notin> set (inflight_page_loads (partitions b i)) \<Longrightarrow> start_load b i pid = (ch, b') \<Longrightarrow> bpm_step b b'"
| rollback: "loading b i f vid pid \<Longrightarrow> bpm_step b (fetch_rollback b i f vid pid)"
| install: "loading b i f vid pid \<Longrightarrow> length bs = PAGE_SIZE \<Longrightarrow> bpm_step b (install_page b i f vid pid bs)"
| unpin_id: "unpin_page_id pid dirty b = (r, b') \<Longrightarrow>
     (\<And>f. map_of (page_table (partitions b (partition_of b pid))) pid = Some f \<Longrightarrow> client_pin b f) \<Longrightarrow> bpm_step b b'"
| unpin: "unpin_page f dirty b = (r, b') \<Longrightarrow> client_pin b f \<Longrightarrow> bpm_step b b'"
| resident: "i < num_partitions b \<Longrightarrow> f \<in> own b i \<Longrightarrow> pin_count (pages b f) > resident_pin_count (pages b f) \<Longrightarrow> client_pin b f \<Longrightarrow>
     bpm_step b (upd_page b f (\<lambda>pg. pg\<lparr>resident_pin_count := resident_pin_count pg + 1\<rparr>))"
| release: "release_resident_page f dirty b = (r, b') \<Longrightarrow> bpm_step b b'"
| prepare: "f \<in> own b i \<Longrightarrow> prepare_writeback_locked b i f rd ru = (t, b') \<Longrightarrow> bpm_step b b'"
| snapshot: "bpm_step b (mark_snapshot_ready b t)"
| finish: "i < num_partitions b \<Longrightarrow> f \<in> own b i \<Longrightarrow> partition_idx t = i \<Longrightarrow> task_frame t = f \<Longrightarrow>
     finish_writeback b t ok = (c, b') \<Longrightarrow> bpm_step b b'"
| remove: "i < num_partitions b \<Longrightarrow> f \<in> own b i \<Longrightarrow> valid (pages b f) \<Longrightarrow> \<not> is_dirty (pages b f) \<Longrightarrow> pin_count (pages b f) = 0 \<Longrightarrow>
     \<not> frame_io_in_progress b f \<Longrightarrow> page_no n = INVALID_PAGE_ID \<Longrightarrow>
     bpm_step b (return_free_frame (update_page (mark_frame_pinned b i f) i n f) i f)"
| change: "i < num_partitions b \<Longrightarrow> f \<in> own b i \<Longrightarrow> valid (pages b f) \<Longrightarrow> length bs = PAGE_SIZE \<Longrightarrow>
     bpm_step b (upd_page b f (\<lambda>pg. declare_change c (pg\<lparr>data := bs\<rparr>)))"

text \<open>The fields the invariant does not read.\<close>

lemma snapshot_ready_inv: "bpm_inv (b\<lparr>frame_writeback_snapshot_ready := h\<rparr>) = bpm_inv b"
  by (simp add: bpm_inv_def bpm_part_inv_def partition_of_def Let_def)

lemma part_ok_same_fields:
  assumes ok: "part_ok S V io pt D F Q"
    and eq: "\<And>g. pg_id (V' g) = pg_id (V g)" "\<And>g. is_dirty (V' g) = is_dirty (V g)" "\<And>g. is_evictable (V' g) = is_evictable (V g)"
  shows "part_ok S V' io pt D F Q"
  using ok unfolding part_ok_def eq .

text \<open>A step that changes a page without its identity, flags and pins changes nothing else.\<close>

lemma upd_page_inv:
  assumes inv: "bpm_inv b" and i: "i < num_partitions b" and f: "f \<in> own b i"
    and p: "pg_id p' = pg_id (pages b f)" "is_dirty p' = is_dirty (pages b f)" "is_evictable p' = is_evictable (pages b f)"
    and fok: "frame_ok p' (frame_io_in_progress b f) (frame_writeback_in_progress b f)"
  shows "bpm_inv (upd_page b f (\<lambda>_. p'))"
proof -
  let ?q = "partitions b i" and ?r0 = "frames (part_replacer (partitions b i))"
  have po: "part_ok (own b i) ((pages b)(f := p')) (frame_io_in_progress b) (page_table ?q) (dirty_pages ?q) (free_list ?q) ?r0"
    using part_ok_same_fields [OF bpm_invD(1) [OF inv i], of "(pages b)(f := p')"] p by simp
  have cl: "filter (\<lambda>g. \<not> is_dirty (((pages b)(f := p')) g)) ?r0 = filter (\<lambda>g. \<not> is_dirty (pages b g)) ?r0"
    using p by (intro filter_cong) auto
  show ?thesis
    by (rule bpm_inv_step [OF inv i f, of _ p'])
      (use po cl fok bpm_invD(2,3,4,5,6) [OF inv i] bpm_invD(8) [OF inv i f] p(1) in \<open>simp_all\<close>)
qed

lemma unpin_page_impl_inv:
  assumes inv: "bpm_inv b" and u: "unpin_page_impl f dirty rel b = (r, b')" and cp: "\<not> rel \<Longrightarrow> client_pin b f"
  shows "bpm_inv b'"
proof (cases r)
  case False
  then show ?thesis using u inv by (auto simp: unpin_page_impl_def Let_def split: if_splits)
next
  case True
  let ?pg = "pages b f" and ?i = "partition_of b (pg_id (pages b f))"
  have n: "0 < num_partitions b" using inv by (simp add: bpm_inv_def)
  have i: "?i < num_partitions b" using partition_of_less [OF n] .
  have c: "valid ?pg" "f \<in> own b ?i" "pin_count ?pg > 0" "rel \<Longrightarrow> resident_pin_count ?pg > 0"
    "\<not> rel \<Longrightarrow> resident_pin_count ?pg < pin_count ?pg"
    using u True by (auto simp: unpin_page_impl_def Let_def split: if_splits)
  define r' where "r' = (if rel then resident_pin_count ?pg - 1 else resident_pin_count ?pg)"
  have fo: "frame_ok ?pg (frame_io_in_progress b f) (frame_writeback_in_progress b f)" using bpm_invD(7) [OF inv i c(2)] .
  have bb: "b' = unpin_frame (upd_page b f (\<lambda>pg. pg\<lparr>resident_pin_count := r'\<rparr>)) ?i f dirty"
    using u True by (auto simp: unpin_page_impl_def Let_def r'_def upd_page_def split: if_splits)
  have res: "0 \<le> r'" "r' < pin_count ?pg" "r' \<le> pin_count ?pg - 1"
    "frame_writeback_in_progress b f \<Longrightarrow> r' < pin_count ?pg - 1"
    using fo c(3-5) cp by (cases rel; simp add: r'_def frame_ok_def client_pin_def)+
  show ?thesis using unpin_frame_inv [OF inv i c(2,1) res bb] by blast
qed

lemma start_load_any_inv:
  assumes inv: "bpm_inv b" and i: "partition_of b pid = i" and pid: "page_no pid \<noteq> INVALID_PAGE_ID"
    and n: "map_of (page_table (partitions b i)) pid = None" "pid \<notin> set (inflight_page_loads (partitions b i))"
    and sl: "start_load b i pid = (ch, b')"
  shows "bpm_inv b'"
proof -
  have i': "i < num_partitions b" using partition_of_less [of b pid] inv i by (simp add: bpm_inv_def)
  obtain v b1 where fv: "find_victim_page b i = (v, b1)" by (cases "find_victim_page b i")
  show ?thesis
  proof (cases v)
    case None
    then show ?thesis using sl fv find_victim_None [OF inv i'] inv by (auto simp: start_load_def)
  next
    case (Some f)
    then have "b' = upd_part (b1\<lparr>frame_io_in_progress := (frame_io_in_progress b1)(f := True)\<rparr>) i
         (\<lambda>p. p\<lparr>inflight_page_loads := pid # inflight_page_loads p\<rparr>)"
      using sl fv by (auto simp: start_load_def Let_def)
    from start_load_inv [OF inv i' i pid n fv [unfolded Some] this] show ?thesis by blast
  qed
qed

lemma prepare_writeback_inv:
  assumes inv: "bpm_inv b" and f: "f \<in> own b i" and p: "prepare_writeback_locked b i f rd ru = (t, b')"
  shows "bpm_inv b'"
proof (cases t)
  case None
  then show ?thesis using p inv by (auto simp: prepare_writeback_locked_def Let_def split: if_splits)
next
  case (Some a)
  let ?m = "mark_frame_pinned (upd_page b f (\<lambda>pg. pg\<lparr>pin_count := pin_count pg + 1\<rparr>)) i f"
  let ?w = "?m\<lparr>frame_writeback_in_progress := (frame_writeback_in_progress b)(f := True)\<rparr>"
  have c: "i < num_partitions b" "valid (pages b f)" "\<not> frame_io_in_progress b f"
    and b': "b' = ?w\<lparr>frame_writeback_snapshot_ready := (frame_writeback_snapshot_ready b)(f := False)\<rparr>"
    using p Some by (auto simp: prepare_writeback_locked_def Let_def mark_frame_pinned_eff split: if_splits)
  have w: "bpm_inv ?w" using pin_frame_inv [OF inv c(1) f c(2,3) refl refl, of True] by blast
  show ?thesis unfolding b' using w by (simp add: snapshot_ready_inv)
qed

lemma fetch_begin_inv:
  assumes inv: "bpm_inv b" and pid: "page_no pid \<noteq> INVALID_PAGE_ID" and fb: "fetch_begin b pid = (ch, b')"
  shows "bpm_inv b'"
proof -
  let ?i = "partition_of b pid"
  have i: "?i < num_partitions b" using partition_of_less inv by (simp add: bpm_inv_def)
  show ?thesis
  proof (cases "map_of (page_table (partitions b ?i)) pid")
    case (Some f)
    note t = table_frame [OF inv Some i]
    show ?thesis
    proof (cases "frame_io_in_progress b f \<or> (frame_writeback_in_progress b f \<and> \<not> frame_writeback_snapshot_ready b f)")
      case True
      then show ?thesis using fb inv Some by (auto simp: fetch_begin_def Let_def split: if_splits)
    next
      case False
      then have b': "b' = mark_frame_pinned (upd_page b f (\<lambda>pg. pg\<lparr>pin_count := pin_count pg + 1\<rparr>)) ?i f"
        using fb Some by (auto simp: fetch_begin_def Let_def split: if_splits)
      have w: "frame_writeback_in_progress b' = frame_writeback_in_progress b" by (simp add: b' mark_frame_pinned_eff)
      have "b' = b'\<lparr>frame_writeback_in_progress := (frame_writeback_in_progress b)(f := frame_writeback_in_progress b f)\<rparr>"
        unfolding w [symmetric] by simp
      from pin_frame_inv [OF inv i t(1,3) _ b' this] False show ?thesis by blast
    qed
  next
    case None
    show ?thesis
    proof (cases "pid \<in> set (inflight_page_loads (partitions b ?i))")
      case True
      then show ?thesis using fb inv None by (auto simp: fetch_begin_def Let_def)
    next
      case False
      then have "start_load b ?i pid = (ch, b')" using fb None by (simp add: fetch_begin_def Let_def)
      from start_load_any_inv [OF inv refl pid None False this] show ?thesis .
    qed
  qed
qed

lemma change_page_inv:
  assumes inv: "bpm_inv b" and i: "i < num_partitions b" and f: "f \<in> own b i" and v: "valid (pages b f)" and bs: "length bs = PAGE_SIZE"
  shows "bpm_inv (upd_page b f (\<lambda>pg. declare_change c (pg\<lparr>data := bs\<rparr>)))"
proof -
  let ?p = "declare_change c ((pages b f)\<lparr>data := bs\<rparr>)"
  have s: "pg_id ?p = pg_id (pages b f)" "is_dirty ?p = is_dirty (pages b f)" "is_evictable ?p = is_evictable (pages b f)"
    "data ?p = bs" "pin_count ?p = pin_count (pages b f)" "resident_pin_count ?p = resident_pin_count (pages b f)"
    "wal_state (pages b f) \<noteq> kClean \<Longrightarrow> wal_state ?p \<noteq> kClean"
    by (cases c; simp add: set_page_lsn_def mark_wal_free_dirty_def)+
  have fo: "frame_ok (pages b f) (frame_io_in_progress b f) (frame_writeback_in_progress b f)" using bpm_invD(7) [OF inv i f] .
  have "sidecar_ok ((pages b f)\<lparr>data := bs\<rparr>)" using fo by (simp add: frame_ok_def sidecar_ok_def)
  then have sc: "sidecar_ok ?p" by (cases c) (simp_all add: set_page_lsn_sidecar mark_wal_free_sidecar)
  have "frame_ok ?p (frame_io_in_progress b f) (frame_writeback_in_progress b f)"
    using fo s sc bs by (simp add: frame_ok_def)
  from upd_page_inv [OF inv i f s(1,2,3) this] show ?thesis by (simp add: upd_page_def)
qed

lemma unpin_page_id_inv:
  assumes inv: "bpm_inv b" and u: "unpin_page_id pid dirty b = (r, b')"
    and cp: "\<And>f. map_of (page_table (partitions b (partition_of b pid))) pid = Some f \<Longrightarrow> client_pin b f"
  shows "bpm_inv b'"
proof (cases r)
  case False
  then show ?thesis using u inv by (auto simp: unpin_page_id_def Let_def split: if_splits option.splits)
next
  case True
  then obtain f where f: "map_of (page_table (partitions b (partition_of b pid))) pid = Some f"
    and pn: "resident_pin_count (pages b f) < pin_count (pages b f)" and b': "b' = unpin_frame b (partition_of b pid) f dirty"
    using u by (auto simp: unpin_page_id_def Let_def split: if_splits option.splits)
  have i: "partition_of b pid < num_partitions b" using partition_of_less inv by (simp add: bpm_inv_def)
  note t = table_frame [OF inv f i]
  have fo: "frame_ok (pages b f) (frame_io_in_progress b f) (frame_writeback_in_progress b f)" using bpm_invD(7) [OF inv i t(1)] .
  have same: "b' = unpin_frame (upd_page b f (\<lambda>pg. pg\<lparr>resident_pin_count := resident_pin_count (pages b f)\<rparr>)) (partition_of b pid) f dirty"
    unfolding b' by (simp add: upd_page_def)
  have c: "0 \<le> resident_pin_count (pages b f)" "resident_pin_count (pages b f) \<le> pin_count (pages b f) - 1"
    "frame_writeback_in_progress b f \<Longrightarrow> resident_pin_count (pages b f) < pin_count (pages b f) - 1"
    using fo pn cp [OF f] by (auto simp: frame_ok_def client_pin_def)
  show ?thesis using unpin_frame_inv [OF inv i t(1,3) c(1) pn c(2,3) same] by blast
qed

lemma resident_pin_inv:
  assumes inv: "bpm_inv b" and i: "i < num_partitions b" and f: "f \<in> own b i"
    and pn: "pin_count (pages b f) > resident_pin_count (pages b f)" and cp: "client_pin b f"
  shows "bpm_inv (upd_page b f (\<lambda>pg. pg\<lparr>resident_pin_count := resident_pin_count pg + 1\<rparr>))"
proof -
  let ?p = "(pages b f)\<lparr>resident_pin_count := resident_pin_count (pages b f) + 1\<rparr>"
  have "frame_ok ?p (frame_io_in_progress b f) (frame_writeback_in_progress b f)"
    using bpm_invD(7) [OF inv i f] pn cp by (auto simp: frame_ok_def client_pin_def sidecar_ok_def)
  from upd_page_inv [OF inv i f _ _ _ this] show ?thesis by (simp add: upd_page_def)
qed

lemma bpm_step_inv: "bpm_step b b' \<Longrightarrow> bpm_inv b \<Longrightarrow> bpm_inv b'"
proof (induction rule: bpm_step.induct)
  case (fetch pid b ch b')
  then show ?case using fetch_begin_inv by blast
next
  case (create pid b i ch b')
  then show ?case using start_load_any_inv by blast
next
  case (rollback b i f vid pid)
  then show ?case using fetch_rollback_inv by blast
next
  case (install b i f vid pid bs)
  then show ?case using install_page_inv by blast
next
  case (unpin_id pid dirty b r b')
  then show ?case using unpin_page_id_inv by blast
next
  case (unpin f dirty b r b')
  then show ?case using unpin_page_impl_inv unfolding unpin_page_def by blast
next
  case (resident i b f)
  then show ?case using resident_pin_inv by blast
next
  case (release f dirty b r b')
  then show ?case using unpin_page_impl_inv unfolding release_resident_page_def by blast
next
  case (prepare f b i rd ru t b')
  then show ?case using prepare_writeback_inv by blast
next
  case (snapshot b t)
  then show ?case by (simp add: mark_snapshot_ready_def snapshot_ready_inv)
next
  case (finish i b f t ok c b')
  show ?case
  proof (cases "frame_writeback_in_progress b f")
    case True
    show ?thesis using finish_writeback_inv [OF finish.prems finish.hyps(1,2) True finish.hyps(3,4,5)] by blast
  next
    case False
    then show ?thesis using finish by (auto simp: finish_writeback_def Let_def split: if_splits)
  qed
next
  case (remove i b f n)
  then show ?case using remove_page_inv by blast
next
  case (change i b f bs c)
  then show ?case using change_page_inv by blast
qed

lemma bpm_reachable_inv: "bpm_step\<^sup>*\<^sup>* (BufferPoolManager_new n) b \<Longrightarrow> bpm_inv b"
  by (induction rule: rtranclp_induct) (auto intro: bpm_inv_new bpm_step_inv)

subsection \<open>The counters are exact\<close>

lemma dirty_count_exact:
  assumes inv: "bpm_inv b" and i: "i < num_partitions b"
  shows "dirty_count (partitions b i) = card {f \<in> own b i. is_dirty (pages b f)}"
proof -
  let ?D = "dirty_pages (partitions b i)" and ?S = "{f \<in> own b i. is_dirty (pages b f)}"
  have d: "distinct ?D" and s: "\<And>pid. pid \<in> set ?D \<longleftrightarrow> (\<exists>g \<in> own b i. is_dirty (pages b g) \<and> pg_id (pages b g) = pid)"
    using bpm_invD(1) [OF inv i] unfolding part_ok_def by blast+
  have im: "set ?D = (\<lambda>f. pg_id (pages b f)) ` ?S" by (rule set_eqI) (unfold s, blast)
  have inj: "inj_on (\<lambda>f. pg_id (pages b f)) ?S"
  proof (rule inj_onI)
    fix x y assume h: "x \<in> ?S" "y \<in> ?S" "pg_id (pages b x) = pg_id (pages b y)"
    have o: "g \<in> ?S \<Longrightarrow> g \<in> own b i \<and> is_dirty (pages b g)" for g by blast
    have t: "map_of (page_table (partitions b i)) (pg_id (pages b g)) = Some g" if "g \<in> ?S" for g
      using owned_table [OF inv i] bpm_inv_dirty_valid [OF inv i] o [OF that] by presburger
    have "Some x = Some y" unfolding t [OF h(1), symmetric] t [OF h(2), symmetric] h(3) ..
    then show "x = y" by (rule option.inject [THEN iffD1])
  qed
  have "length ?D = card ?S" using distinct_card [OF d] card_image [OF inj] im by simp
  then show ?thesis using bpm_invD(3) [OF inv i] by simp
qed

lemma clean_available_exact:
  assumes inv: "bpm_inv b" and i: "i < num_partitions b"
  shows "clean_available_count (partitions b i)
     = card {f \<in> own b i. pin_count (pages b f) = 0 \<and> \<not> is_dirty (pages b f) \<and> \<not> frame_io_in_progress b f}"
proof -
  let ?F = "free_list (partitions b i)" and ?Q = "filter (\<lambda>g. \<not> is_dirty (pages b g)) (frames (part_replacer (partitions b i)))"
  have fo: "frame_ok (pages b f) (frame_io_in_progress b f) (frame_writeback_in_progress b f)" if "f \<in> own b i" for f
    using bpm_invD(7) [OF inv i that] .
  have d: "distinct ?F" "distinct ?Q" using bpm_invD(1) [OF inv i] queue_distinct [OF inv i] unfolding part_ok_def by auto
  have "f \<in> set (?F @ ?Q) \<longleftrightarrow> f \<in> own b i \<and> pin_count (pages b f) = 0 \<and> \<not> is_dirty (pages b f) \<and> \<not> frame_io_in_progress b f" for f
    using free_iff [OF inv i, of f] queued_iff [OF inv i, of f] fo [of f] by (auto simp: frame_ok_def)
  then have s: "set (?F @ ?Q) = {f \<in> own b i. pin_count (pages b f) = 0 \<and> \<not> is_dirty (pages b f) \<and> \<not> frame_io_in_progress b f}"
    by blast
  have "set ?F \<inter> set ?Q = {}" using free_iff [OF inv i] queued_iff [OF inv i] fo by (auto simp: frame_ok_def)
  then have "distinct (?F @ ?Q)" using d by simp
  from distinct_card [OF this] show ?thesis using bpm_invD(4) [OF inv i] unfolding s [symmetric] by simp
qed

lemma page_in_one_frame:
  assumes inv: "bpm_inv b" and "i < num_partitions b" "j < num_partitions b" "f \<in> own b i" "g \<in> own b j" "valid (pages b f)"
    and eq: "pg_id (pages b f) = pg_id (pages b g)"
  shows "f = g"
proof -
  have "i = partition_of b (pg_id (pages b f))" "j = partition_of b (pg_id (pages b f))"
    using bpm_invD(8) [OF inv assms(2,4,6)] bpm_invD(8) [OF inv assms(3,5)] assms(6) eq by simp_all
  then show ?thesis using owned_table [OF inv] assms by (metis option.inject)
qed

lemma victim_unused:
  assumes inv: "bpm_inv b" and i: "i < num_partitions b" and fv: "find_victim_page b i = (Some f, b1)"
  shows "f \<in> own b i \<and> pin_count (pages b f) = 0 \<and> \<not> frame_io_in_progress b f \<and> \<not> frame_writeback_in_progress b f"
proof -
  have "f \<in> set (free_list (partitions b i)) \<or> f \<in> set (frames (part_replacer (partitions b i)))"
    using find_victim_Some [OF inv i fv] by blast
  then have o: "f \<in> own b i" and "\<not> frame_io_in_progress b f \<and> \<not> valid (pages b f) \<or> is_evictable (pages b f)"
    using free_iff [OF inv i, of f] queued_iff [OF inv i, of f] by blast+
  then show ?thesis using bpm_invD(7) [OF inv i o] by (auto simp: frame_ok_def)
qed

text \<open>
  C14. In every state the buffer pool can reach, under every interleaving of fetches, loads, roll
  backs, unpins, write-backs, deletions and changes of page contents by its clients: a page is in at most one
  frame; the page table of a page's partition maps it to exactly the frame that
  holds it; the frame chosen as a victim has no pins and is neither being loaded nor written back; and
  the counters of the partitions, on which the pressure decisions rest, are the exact
  numbers of dirty frames and of frames that can be reused without a write.
\<close>

theorem buffer_pool_invariant:
  assumes "bpm_step\<^sup>*\<^sup>* (BufferPoolManager_new n) b"
  shows "(\<forall>i < num_partitions b. \<forall>j < num_partitions b. \<forall>f \<in> own b i. \<forall>g \<in> own b j.
      valid (pages b f) \<and> pg_id (pages b f) = pg_id (pages b g) \<longrightarrow> f = g)
    \<and> (\<forall>pid f. page_no pid \<noteq> INVALID_PAGE_ID \<longrightarrow>
      (map_of (page_table (partitions b (partition_of b pid))) pid = Some f
       \<longleftrightarrow> (\<exists>i < num_partitions b. f \<in> own b i \<and> pg_id (pages b f) = pid)))
    \<and> (\<forall>i < num_partitions b. \<forall>f b1. find_victim_page b i = (Some f, b1) \<longrightarrow>
      f \<in> own b i \<and> pin_count (pages b f) = 0 \<and> \<not> frame_io_in_progress b f \<and> \<not> frame_writeback_in_progress b f)
    \<and> (\<forall>i < num_partitions b. dirty_count (partitions b i) = card {f \<in> own b i. is_dirty (pages b f)}
      \<and> clean_available_count (partitions b i)
        = card {f \<in> own b i. pin_count (pages b f) = 0 \<and> \<not> is_dirty (pages b f) \<and> \<not> frame_io_in_progress b f})"
proof -
  have inv: "bpm_inv b" using bpm_reachable_inv [OF assms] .
  have n: "0 < num_partitions b" using inv by (simp add: bpm_inv_def)
  have tab: "map_of (page_table (partitions b (partition_of b pid))) pid = Some f
       \<longleftrightarrow> (\<exists>i < num_partitions b. f \<in> own b i \<and> pg_id (pages b f) = pid)" (is "?L \<longleftrightarrow> ?R")
    if p: "page_no pid \<noteq> INVALID_PAGE_ID" for pid f
  proof
    assume ?L
    then show ?R using table_frame(1,2) [OF inv _ partition_of_less [OF n]] partition_of_less [OF n] by blast
  next
    assume ?R
    then obtain i where "i < num_partitions b" "f \<in> own b i" "pg_id (pages b f) = pid" by blast
    moreover from this p have "partition_of b pid = i" using bpm_invD(8) [OF inv] by blast
    ultimately show ?L using owned_table [OF inv] p by blast
  qed
  have one: "\<forall>i < num_partitions b. \<forall>j < num_partitions b. \<forall>f \<in> own b i. \<forall>g \<in> own b j.
      valid (pages b f) \<and> pg_id (pages b f) = pg_id (pages b g) \<longrightarrow> f = g"
    using page_in_one_frame [OF inv] by blast
  show ?thesis using one tab victim_unused [OF inv] dirty_count_exact [OF inv] clean_available_exact [OF inv] by blast
qed

theorem buffer_pool_invariant_witness:
  "let b = snd (fetch_begin (BufferPoolManager_new 4) \<lparr>fd = 3, page_no = 7\<rparr>)
   in num_partitions b = 1 \<and> clean_available_count (partitions b 0)
        = card {f \<in> own b 0. pin_count (pages b f) = 0 \<and> \<not> is_dirty (pages b f) \<and> \<not> frame_io_in_progress b f}"
proof -
  let ?new = "BufferPoolManager_new 4" and ?pid = "\<lparr>fd = 3, page_no = 7\<rparr> :: page_id"
  let ?b = "snd (fetch_begin ?new ?pid)"
  have c: "partition_count 4 = 1"
    by (simp add: partition_count_def floor_power_of_two_def BPM_PARTITION_COUNT_def fp2_loop.simps shrink_partitions.simps kMinFramesPerPartition_def)
  have p: "partition_of ?new ?pid = 0" by (simp add: partition_of_def BufferPoolManager_new_def c)
  have f: "part_frames 4 0 = 4" by (simp add: part_frames_def c)
  have n: "num_partitions ?b = 1"
    unfolding fetch_begin_def p Let_def
    by (simp add: BufferPoolManager_new_def new_partition_def Let_def f c part_begin_def start_load_def find_victim_page_def
        upt_conv_Cons)
  have "bpm_step ?new ?b" by (rule bpm_step.fetch [where pid = ?pid and ch = "fst (fetch_begin ?new ?pid)"]) simp_all
  from buffer_pool_invariant [OF r_into_rtranclp [of bpm_step, OF this]] n show ?thesis unfolding Let_def by simp
qed

end
