(* ===== verification/Rmdb_Wal_Protocol.thy ===== *)
theory Rmdb_Wal_Protocol
  imports Rmdb_Buffer_Pool
begin

text \<open>
  The write-ahead protocol between the buffer pool and the log manager: the interface of the
  barrier that \<^verbatim>\<open>rmdb.cpp\<close> installs with \<open>set_wal_barrier\<close>, what follows when a page write
  comes after the barrier, and the two barriers of the program as instances of the interface: the batch
  callback (\<open>FlushPageLsns\<close>) and the pair of single-record callbacks (\<open>has_record_lsn\<close> and \<open>FlushUpTo\<close>).
\<close>

text \<open>
  \<open>dur\<close> says that the record at an LSN is durable; \<open>user\<close> says that a page is of a data file, which the barrier does not touch.
\<close>

locale wal_barrier =
  fixes flush :: "'l \<Rightarrow> 'd \<Rightarrow> lsn_t list \<Rightarrow> unit outcome \<times> 'l \<times> 'd"
    and winv :: "'l \<Rightarrow> 'd \<Rightarrow> bool"
    and dur :: "'l \<Rightarrow> lsn_t \<Rightarrow> bool"
    and rd :: "'d \<Rightarrow> page_id \<Rightarrow> byte list option"
    and user :: "'d \<Rightarrow> page_id \<Rightarrow> bool"
  assumes flush_inv: "winv l d \<Longrightarrow> flush l d ls = (r, l1, d1) \<Longrightarrow> winv l1 d1"
    and flush_dur: "winv l d \<Longrightarrow> flush l d ls = (Ret u, l1, d1) \<Longrightarrow> x \<in> set ls \<Longrightarrow> x = INVALID_LSN \<or> dur l1 x"
    and flush_pages: "winv l d \<Longrightarrow> flush l d ls = (r, l1, d1) \<Longrightarrow> user d p \<Longrightarrow> user d1 p \<and> rd d1 p = rd d p"

locale wal_protocol = wal_barrier flush winv dur rd user + page_store rd wr store_inv
  for flush :: "'l \<Rightarrow> 'd \<Rightarrow> lsn_t list \<Rightarrow> unit outcome \<times> 'l \<times> 'd"
    and winv and dur and rd :: "'d \<Rightarrow> page_id \<Rightarrow> byte list option" and user and wr and store_inv +
  assumes winv_store: "winv l d \<Longrightarrow> store_inv d"
    and wr_winv: "winv l d \<Longrightarrow> user d p \<Longrightarrow> winv l (snd (wr d p x))"
    and wr_user: "user (snd (wr d p x)) q = user d q"
begin

lemma guarded_write:
  assumes "winv l d" and "user d p" and "length x = PAGE_SIZE" and "flush l d ls = (Ret u, l1, d1)" and "wr d1 p x = (r, d2)"
  shows "winv l1 d2 \<and> (\<forall>y \<in> set ls. y = INVALID_LSN \<or> dur l1 y)
    \<and> (\<forall>q. user d q \<longrightarrow> user d2 q \<and> (q \<noteq> p \<longrightarrow> rd d2 q = rd d q)) \<and> (r = Ret () \<longrightarrow> rd d2 p = Some x)"
proof -
  have i1: "winv l1 d1" using flush_inv [OF assms(1,4)] .
  have k: "user d q \<Longrightarrow> user d1 q \<and> rd d1 q = rd d q" for q using flush_pages [OF assms(1,4)] .
  have d2: "d2 = snd (wr d1 p x)" "r = fst (wr d1 p x)" using assms(5) by simp_all
  have "user d q \<Longrightarrow> q \<noteq> p \<Longrightarrow> rd d2 q = rd d q" for q
    unfolding d2 using rd_wr_other [OF winv_store [OF i1] assms(3)] k by simp
  moreover have "user d q \<Longrightarrow> user d2 q" for q unfolding d2 wr_user using k by simp
  moreover have "r = Ret () \<Longrightarrow> rd d2 p = Some x" unfolding d2 using rd_wr_same [OF winv_store [OF i1] assms(3)] by simp
  moreover have "winv l1 d2" unfolding d2 using wr_winv [OF i1] k [OF assms(2)] by simp
  ultimately show ?thesis using flush_dur [OF assms(1,4)] by blast
qed

end

subsection \<open>The barriers of the program\<close>

definition lsn_durable :: "log_manager \<Rightarrow> lsn_t \<Rightarrow> bool" where
  "lsn_durable lm l = (l < durable_prefix_lsn lm \<or>
     (case record_end_offsets lm l of None \<Rightarrow> False | Some e \<Rightarrow> e \<le> persist_lsn lm))"

definition data_page :: "disk \<Rightarrow> page_id \<Rightarrow> bool" where
  "data_page d p = (case os_fds (os d) (fd p) of None \<Rightarrow> False | Some path \<Rightarrow> path \<noteq> LOG_FILE_NAME)"

definition single_barrier :: "log_manager \<Rightarrow> disk \<Rightarrow> lsn_t list \<Rightarrow> unit outcome \<times> log_manager \<times> disk" where
  "single_barrier lm d ls =
     (case max_known_lsn lm ls INVALID_LSN of
        Throw e \<Rightarrow> (Throw e, lm, d) | Wait \<Rightarrow> (Wait, lm, d) | Ret m \<Rightarrow> FlushUpTo lm d m)"

lemma log_step_pages:
  assumes "log_step_ok lm d lm1 d1" and "data_page d p"
  shows "data_page d1 p \<and> disk_page d1 p = disk_page d p"
proof -
  obtain path where path: "os_fds (os d) (fd p) = Some path" "path \<noteq> LOG_FILE_NAME"
    using assms(2) by (auto simp: data_page_def split: option.splits)
  then have "os_fds (os d1) (fd p) = Some path" "os_files (os d1) path = os_files (os d) path"
    using assms(1) by (auto simp: log_step_ok_def)
  then show ?thesis using path by (simp add: data_page_def disk_page_def os_content_def)
qed

lemma page_write_log_inv:
  assumes "log_inv lm d" and "data_page d p"
  shows "log_inv lm (snd (write_page d (fd p) (page_no p) x))"
proof -
  have "os_fds (os d) (fd p) \<noteq> Some LOG_FILE_NAME" using assms(2) by (auto simp: data_page_def)
  from write_page_log_file [OF log_inv_bounds(6) [OF assms(1)] prod.collapse [symmetric] this]
  show ?thesis using log_inv_same_log [OF assms(1)] by blast
qed

lemma page_write_data_page: "data_page (snd (write_page d f n x)) q = data_page d q"
proof -
  have "os_fds (os (snd (write_page d f n x))) = os_fds (os d)"
    using os_pwrite_frame [of "os d" f x "n * int PAGE_SIZE"] by (auto simp: write_page_def Let_def split: prod.splits)
  then show ?thesis by (simp add: data_page_def)
qed

lemma max_known_lsn_bound:
  assumes "max_known_lsn lm ls m0 = Ret m"
  shows "(m0 \<le> m \<or> m0 < 0) \<and> (\<forall>l \<in> set ls. has_record_lsn lm l \<and> (l \<le> m \<or> l < 0))"
  using assms
proof (induction lm ls m0 rule: max_known_lsn.induct)
  case (2 lm l ls m0)
  have k: "has_record_lsn lm l" using 2(2) by (auto split: if_splits)
  let ?m = "if m0 = INVALID_LSN then l else max m0 l"
  have "(?m \<le> m \<or> ?m < 0) \<and> (\<forall>l \<in> set ls. has_record_lsn lm l \<and> (l \<le> m \<or> l < 0))" using 2 k by simp
  then show ?case using k by (auto split: if_splits)
qed simp

lemma has_record_lsn_nonneg: "log_inv lm d \<Longrightarrow> has_record_lsn lm l \<Longrightarrow> \<not> l < durable_prefix_lsn lm \<Longrightarrow> 0 \<le> l"
  using log_inv_ends [of lm d] unfolding ends_ok_def has_record_lsn_def by (auto split: if_splits)

lemma single_barrier_ok:
  assumes i: "log_inv lm d" and q: "single_barrier lm d ls = (r, lm1, d1)"
  shows "log_step_ok lm d lm1 d1 \<and> (r = Ret () \<longrightarrow> (\<forall>l \<in> set ls. lsn_durable lm1 l))"
proof (cases "max_known_lsn lm ls INVALID_LSN")
  case (Ret m)
  then have f: "FlushUpTo lm d m = (r, lm1, d1)" using q by (simp add: single_barrier_def)
  note ok = FlushUpTo_ok [OF i f] and b = max_known_lsn_bound [OF Ret]
  have "lsn_durable lm1 l" if r: "r = Ret ()" and l: "l \<in> set ls" for l
  proof (cases "l < durable_prefix_lsn lm")
    case True
    then show ?thesis using ok by (simp add: lsn_durable_def same_ends_def)
  next
    case False
    have h: "has_record_lsn lm l" using b l by blast
    then obtain e where e: "record_end_offsets lm l = Some e" using False by (auto simp: has_record_lsn_def split: if_splits)
    have le: "l \<le> m" using b l has_record_lsn_nonneg [OF i h False] by fastforce
    then obtain em where em: "record_end_offsets lm m = Some em" "em \<le> persist_lsn lm1"
      using ok r False has_record_lsn_nonneg [OF i h False] by force
    have en: "ends_ok (record_end_offsets lm) (durable_prefix_lsn lm) (global_lsn lm)" using log_inv_ends [OF i] .
    have "e \<le> em"
    proof (cases "l = m")
      case False
      then have "e \<le> m" using en e em(1) le unfolding ends_ok_def by fastforce
      moreover have "m < em" using en em(1) unfolding ends_ok_def by blast
      ultimately show ?thesis by linarith
    qed (use e em in simp)
    then show ?thesis using e em(2) ok by (simp add: lsn_durable_def same_ends_def)
  qed
  then show ?thesis using ok by blast
qed (use q log_step_ok_refl [OF i] in \<open>auto simp: single_barrier_def\<close>)

lemma batch_barrier_ok:
  assumes i: "log_inv lm d" and q: "FlushPageLsns lm d ls = (r, lm1, d1)"
  shows "log_step_ok lm d lm1 d1 \<and> (r = Ret () \<longrightarrow> (\<forall>l \<in> set ls. l = INVALID_LSN \<or> lsn_durable lm1 l))"
  using FlushPageLsns_ok [OF i q] by (fastforce simp: lsn_durable_def same_ends_def)

lemma page_writes_keep_log:
  "log_inv lm d \<Longrightarrow> disk_inv d"
  using log_inv_bounds(6) by (simp add: log_disk_ok_def)

interpretation batch: wal_protocol FlushPageLsns log_inv lsn_durable disk_page data_page
  "\<lambda>d p x. write_page d (fd p) (page_no p) x" disk_inv
proof unfold_locales
  fix l d ls r l1 d1 u and x :: lsn_t and p :: page_id
  assume i: "log_inv l d"
  show "FlushPageLsns l d ls = (r, l1, d1) \<Longrightarrow> log_inv l1 d1"
    using batch_barrier_ok [OF i] by (auto simp: log_step_ok_def)
  show "FlushPageLsns l d ls = (Ret u, l1, d1) \<Longrightarrow> x \<in> set ls \<Longrightarrow> x = INVALID_LSN \<or> lsn_durable l1 x"
    using batch_barrier_ok [OF i] by (cases u) blast
  show "FlushPageLsns l d ls = (r, l1, d1) \<Longrightarrow> data_page d p \<Longrightarrow> data_page d1 p \<and> disk_page d1 p = disk_page d p"
    using batch_barrier_ok [OF i] log_step_pages by blast
qed (simp_all add: page_writes_keep_log page_write_log_inv page_write_data_page)

interpretation single: wal_protocol single_barrier log_inv lsn_durable disk_page data_page
  "\<lambda>d p x. write_page d (fd p) (page_no p) x" disk_inv
proof unfold_locales
  fix l d ls r l1 d1 u and x :: lsn_t and p :: page_id
  assume i: "log_inv l d"
  show "single_barrier l d ls = (r, l1, d1) \<Longrightarrow> log_inv l1 d1"
    using single_barrier_ok [OF i] by (auto simp: log_step_ok_def)
  show "single_barrier l d ls = (Ret u, l1, d1) \<Longrightarrow> x \<in> set ls \<Longrightarrow> x = INVALID_LSN \<or> lsn_durable l1 x"
    using single_barrier_ok [OF i] by (cases u) blast
  show "single_barrier l d ls = (r, l1, d1) \<Longrightarrow> data_page d p \<Longrightarrow> data_page d1 p \<and> disk_page d1 p = disk_page d p"
    using single_barrier_ok [OF i] log_step_pages by blast
qed (simp_all add: page_writes_keep_log page_write_log_inv page_write_data_page)

text \<open>The barrier of the buffer pool is one of the two (with no LSN, the batch callback has nothing to do), or it throws.\<close>

lemma flush_wal_cases:
  assumes "flush_wal_for_tasks ts st = (r, st')"
  obtains (invalid) "st' = st" "r \<noteq> Ret ()"
    | (batch) ls where "validate_writeback_tasks ts = Ret ls"
        "FlushPageLsns (wal st) (dsk st) ls = (r, wal st', dsk st')" "bp st' = bp st"
    | (single) ls where "validate_writeback_tasks ts = Ret ls"
        "single_barrier (wal st) (dsk st) ls = (r, wal st', dsk st')" "bp st' = bp st"
proof (cases "validate_writeback_tasks ts")
  case (Ret ls)
  show ?thesis
  proof (cases "ls = []")
    case True
    then show ?thesis using assms Ret batch by (simp add: flush_wal_for_tasks_def FlushPageLsns_def)
  next
    case ne: False
    show ?thesis
    proof (cases "batch_barrier_set (bp st)")
      case True
      then show ?thesis using assms Ret ne batch by (auto simp: flush_wal_for_tasks_def on_wal_def split: prod.splits)
    next
      case nb: False
      show ?thesis
      proof (cases "wal_barrier_set (bp st)")
        case True
        then have e: "(case max_known_lsn (wal st) ls INVALID_LSN of Throw e \<Rightarrow> (Throw e, st) | Wait \<Rightarrow> (Wait, st)
                | Ret m \<Rightarrow> on_wal (\<lambda>lm d. FlushUpTo lm d m) st) = (r, st')"
          using assms Ret ne nb by (simp add: flush_wal_for_tasks_def)
        have "single_barrier (wal st) (dsk st) ls = (r, wal st', dsk st') \<and> bp st' = bp st"
          using e by (cases "max_known_lsn (wal st) ls INVALID_LSN") (auto simp: single_barrier_def on_wal_def split: prod.splits)
        then show ?thesis using single Ret by blast
      next
        case False
        then show ?thesis using assms Ret ne nb invalid by (auto simp: flush_wal_for_tasks_def)
      qed
    qed
  qed
qed (use assms invalid in \<open>auto simp: flush_wal_for_tasks_def\<close>)

text \<open>What the validation guarantees of each task, and which LSNs it collects.\<close>

lemma validate_tasks_Ret:
  assumes "validate_writeback_tasks ts = Ret ls" and "t \<in> set ts" and "was_dirty t \<or> task_wal_state t \<noteq> kClean"
  shows "task_wal_state t = kWalFree \<or> (task_wal_state t = kWalBacked \<and> task_lsn t \<noteq> INVALID_LSN \<and> task_lsn t \<in> set ls)"
  using assms
proof (induction ts arbitrary: ls)
  case (Cons a ts)
  show ?case
  proof (cases "validate_writeback_tasks ts")
    case (Ret ls')
    show ?thesis
    proof (cases "t \<in> set ts")
      case True
      have "set ls' \<subseteq> set ls" using Cons.prems(1) Ret by (auto split: if_splits)
      then show ?thesis using Cons.IH [OF Ret True Cons.prems(3)] by blast
    next
      case False
      then have "t = a" using Cons.prems(2) by simp
      then show ?thesis using Cons.prems(1,3) Ret by (cases "task_wal_state a") (auto split: if_splits)
    qed
  qed (use Cons in \<open>auto split: if_splits\<close>)
qed simp

lemma flush_wal_ok:
  assumes i: "log_inv (wal st) (dsk st)" and q: "flush_wal_for_tasks ts st = (r, st')"
  shows "bp st' = bp st \<and> log_inv (wal st') (dsk st')
    \<and> (\<forall>p. data_page (dsk st) p \<longrightarrow> data_page (dsk st') p \<and> disk_page (dsk st') p = disk_page (dsk st) p)
    \<and> (r = Ret () \<longrightarrow> (\<forall>t \<in> set ts. was_dirty t \<or> task_wal_state t \<noteq> kClean \<longrightarrow> task_wal_state t = kWalFree \<or>
         (task_wal_state t = kWalBacked \<and> lsn_durable (wal st') (task_lsn t))))"
  using q
proof (cases rule: flush_wal_cases)
  case (batch ls)
  have "r = Ret () \<Longrightarrow> l \<in> set ls \<Longrightarrow> l = INVALID_LSN \<or> lsn_durable (wal st') l" for l
    using batch.flush_dur [OF i, of ls "()"] batch(2) by simp
  then show ?thesis
    using batch(3) batch.flush_inv [OF i batch(2)] batch.flush_pages [OF i batch(2)] validate_tasks_Ret [OF batch(1)] by blast
next
  case (single ls)
  have "r = Ret () \<Longrightarrow> l \<in> set ls \<Longrightarrow> l = INVALID_LSN \<or> lsn_durable (wal st') l" for l
    using single.flush_dur [OF i, of ls "()"] single(2) by simp
  then show ?thesis
    using single(3) single.flush_inv [OF i single(2)] single.flush_pages [OF i single(2)] validate_tasks_Ret [OF single(1)] by blast
qed (use i in simp)

subsection \<open>The write-ahead rule\<close>

text \<open>The pages a write-back may put on disk: the log of every change they carry is durable.\<close>

definition wal_covered :: "log_manager \<Rightarrow> page \<Rightarrow> bool" where
  "wal_covered lm pg \<longleftrightarrow> wal_state pg = kWalFree \<or> (wal_state pg = kWalBacked \<and> lsn_durable lm (page_lsn pg))"

lemma evict_writeback_ok:
  assumes i: "log_inv (wal st) (dsk st)" and q: "evict_writeback k f vid dirty st = (r, st')"
    and dp: "dirty \<longrightarrow> data_page (dsk st) vid" and len: "length (data (pages (bp st) f)) = PAGE_SIZE"
  shows "bp st' = bp st \<and> log_inv (wal st') (dsk st')
    \<and> (\<forall>p. data_page (dsk st) p \<longrightarrow> data_page (dsk st') p \<and> (p \<noteq> vid \<or> \<not> dirty \<longrightarrow> disk_page (dsk st') p = disk_page (dsk st) p))
    \<and> (r = Ret () \<and> dirty \<longrightarrow> disk_page (dsk st') vid = Some (data (pages (bp st) f)))
    \<and> (dirty \<and> disk_page (dsk st') vid \<noteq> disk_page (dsk st) vid \<longrightarrow> wal_covered (wal st') (pages (bp st) f))"
proof (cases dirty)
  case False
  then show ?thesis using q i by (auto simp: evict_writeback_def)
next
  case True
  define t where "t = snapshot_task (bp st) \<lparr>partition_idx = k, task_frame = f, task_page_id = vid, task_generation = 0,
                     was_dirty = True, task_lsn = INVALID_LSN, task_wal_state = kClean, task_data = []\<rparr>"
  have t: "task_page_id t = vid" "task_data t = data (pages (bp st) f)" "was_dirty t" "task_lsn t = page_lsn (pages (bp st) f)"
    "task_wal_state t = wal_state (pages (bp st) f)"
    by (simp_all add: t_def snapshot_task_def Let_def)
  have e: "obind (flush_wal_for_tasks [t]) (\<lambda>_. disk_write vid (task_data t)) st = (r, st')"
    using q True t(1) by (simp add: evict_writeback_def t_def Let_def)
  obtain r1 st1 where f1: "flush_wal_for_tasks [t] st = (r1, st1)" by fastforce
  note ok = flush_wal_ok [OF i f1]
  show ?thesis
  proof (cases r1)
    case (Ret u)
    obtain d where w: "write_page (dsk st1) (fd vid) (page_no vid) (task_data t) = (r, d)" and st': "st' = st1\<lparr>dsk := d\<rparr>"
      using e f1 Ret by (auto simp: obind_def disk_write_def split: prod.splits)
    have cov: "wal_covered (wal st1) (pages (bp st) f)" using ok Ret t by (auto simp: wal_covered_def)
    have "log_inv (wal st1) d \<and> (\<forall>p. data_page (dsk st) p \<longrightarrow> data_page d p \<and> (p \<noteq> vid \<longrightarrow> disk_page d p = disk_page (dsk st) p))
        \<and> (r = Ret () \<longrightarrow> disk_page d vid = Some (task_data t))"
      using f1
    proof (cases rule: flush_wal_cases)
      case (batch ls)
      then show ?thesis using batch.guarded_write [OF i _ _ _ w, of ls u] Ret dp True len t(2) by simp
    next
      case (single ls)
      then show ?thesis using single.guarded_write [OF i _ _ _ w, of ls u] Ret dp True len t(2) by simp
    qed (use Ret in simp)
    then show ?thesis using ok cov t True st' by auto
  qed (use e f1 ok dp True in \<open>auto simp: obind_def\<close>)
qed

lemma capture_all_Ret:
  "capture_all b ts = (Ret ts1, b1) \<Longrightarrow> ts1 = map (snapshot_task b) ts"
proof (induction ts arbitrary: b ts1 b1)
  case (Cons t ts)
  have p: "pages (mark_snapshot_ready b t) = pages b" by (simp add: mark_snapshot_ready_def)
  have s: "snapshot_task (mark_snapshot_ready b t) = snapshot_task b" by (rule ext) (simp add: snapshot_task_def p)
  obtain ts2 where c: "capture_all (mark_snapshot_ready b t) ts = (Ret ts2, b1)" "ts1 = snapshot_task b t # ts2"
    using Cons.prems by (auto simp: capture_writeback_snapshot_def split: if_splits outcome.splits prod.splits)
  show ?case using Cons.IH [OF c(1)] c(2) by (simp add: s)
qed simp

lemma write_tasks_pages:
  assumes "log_inv (wal st) (dsk st)" and "write_tasks ts w c st = (r, st')"
    and "\<forall>t \<in> set ts. data_page (dsk st) (task_page_id t) \<and> length (task_data t) = PAGE_SIZE"
  shows "wal st' = wal st \<and> log_inv (wal st') (dsk st')
    \<and> (\<forall>q. data_page (dsk st') q = data_page (dsk st) q)
    \<and> (\<forall>q. disk_page (dsk st') q \<noteq> disk_page (dsk st) q \<longrightarrow> q \<in> task_page_id ` set ts)"
  using assms
proof (induction ts arbitrary: w c st)
  case (Cons t ts)
  have i: "log_inv (wal st) (dsk st)" and dp: "data_page (dsk st) (task_page_id t)" and len: "length (task_data t) = PAGE_SIZE"
    using Cons.prems by simp_all
  obtain r1 st1 where dw: "disk_write (task_page_id t) (task_data t) st = (r1, st1)" by fastforce
  then have st1: "wal st1 = wal st" "dsk st1 = snd (write_page (dsk st) (fd (task_page_id t)) (page_no (task_page_id t)) (task_data t))"
    by (auto simp: disk_write_def split: prod.splits)
  have i1: "log_inv (wal st1) (dsk st1)" using page_write_log_inv [OF i dp] st1 by simp
  have d1: "data_page (dsk st1) q = data_page (dsk st) q" for q using st1 page_write_data_page by simp
  have o1: "q \<noteq> task_page_id t \<Longrightarrow> disk_page (dsk st1) q = disk_page (dsk st) q" for q
    using write_page_other [OF page_writes_keep_log [OF i]] len st1 by simp
  show ?case
  proof (cases r1)
    case (Ret u)
    obtain c' b where "finish_writeback (bp st1) t True = (c', b)" by fastforce
    then have e: "write_tasks ts (Suc w) (if c' then Suc c else c) (st1\<lparr>bp := b\<rparr>) = (r, st')"
      using Cons.prems(2) dw Ret by simp
    have "wal st' = wal st1 \<and> log_inv (wal st') (dsk st') \<and> (\<forall>q. data_page (dsk st') q = data_page (dsk st1) q)
       \<and> (\<forall>q. disk_page (dsk st') q \<noteq> disk_page (dsk st1) q \<longrightarrow> q \<in> task_page_id ` set ts)"
      using Cons.IH [OF _ e] i1 Cons.prems(3) d1 by auto
    then show ?thesis using st1(1) d1 o1 by (metis image_insert insert_iff list.simps(15))
  next
    case (Throw e)
    then have "wal st' = wal st1" "dsk st' = dsk st1" using Cons.prems(2) dw by auto
    then show ?thesis using st1(1) i1 d1 o1 by auto
  next
    case Wait
    then show ?thesis using Cons.prems(2) dw st1 i1 d1 o1 by auto
  qed
qed simp

lemma batch_barrier_result:
  assumes "perform_writeback_batch ts False st = (r, st')"
  shows "(wal st' = wal st \<and> dsk st' = dsk st) \<or>
    (\<exists>b r1 st1. capture_all (bp st) ts = (Ret (map (snapshot_task (bp st)) ts), b)
       \<and> flush_wal_for_tasks (map (snapshot_task (bp st)) ts) (st\<lparr>bp := b\<rparr>) = (r1, st1)
       \<and> (r1 \<noteq> Ret () \<and> wal st' = wal st1 \<and> dsk st' = dsk st1 \<or>
          r1 = Ret () \<and> (\<exists>b1. write_tasks (sort_key task_key (map (snapshot_task (bp st)) ts)) 0 0 (st1\<lparr>bp := b1\<rparr>) = (r, st'))))"
proof (cases "ts = []")
  case True
  then show ?thesis using assms by (simp add: perform_writeback_batch_def)
next
  case ne: False
  obtain o1 b where c: "capture_all (bp st) ts = (o1, b)" by fastforce
  show ?thesis
  proof (cases o1)
    case (Ret ts1)
    have ts1: "ts1 = map (snapshot_task (bp st)) ts" using capture_all_Ret c Ret by blast
    obtain r1 st1 where f: "flush_wal_for_tasks ts1 (st\<lparr>bp := b\<rparr>) = (r1, st1)" by fastforce
    show ?thesis
      using assms ne c Ret f ts1 by (cases r1) (auto simp: perform_writeback_batch_def Let_def)
  qed (use assms ne c in \<open>auto simp: perform_writeback_batch_def\<close>)
qed

lemma batch_write_ahead:
  assumes i: "log_inv (wal st) (dsk st)"
    and ts: "\<forall>t \<in> set ts. data_page (dsk st) (task_page_id t) \<and> length (data (pages (bp st) (task_frame t))) = PAGE_SIZE"
    and q: "perform_writeback_batch ts False st = (r, st')"
    and p: "data_page (dsk st) p" "disk_page (dsk st') p \<noteq> disk_page (dsk st) p"
  shows "\<exists>t \<in> set ts. task_page_id t = p \<and> (wal_covered (wal st') (pages (bp st) (task_frame t))
    \<or> \<not> was_dirty t \<and> wal_state (pages (bp st) (task_frame t)) = kClean)"
proof -
  let ?ts = "map (snapshot_task (bp st)) ts"
  have sn: "task_page_id (snapshot_task (bp st) t) = task_page_id t" "task_data (snapshot_task (bp st) t) = data (pages (bp st) (task_frame t))"
    "was_dirty (snapshot_task (bp st) t) = was_dirty t" "task_wal_state (snapshot_task (bp st) t) = wal_state (pages (bp st) (task_frame t))"
    "task_lsn (snapshot_task (bp st) t) = page_lsn (pages (bp st) (task_frame t))" for t
    by (simp_all add: snapshot_task_def Let_def)
  obtain b r1 st1 where f: "flush_wal_for_tasks ?ts (st\<lparr>bp := b\<rparr>) = (r1, st1)"
    and e: "r1 \<noteq> Ret () \<and> wal st' = wal st1 \<and> dsk st' = dsk st1 \<or>
      r1 = Ret () \<and> (\<exists>b1. write_tasks (sort_key task_key ?ts) 0 0 (st1\<lparr>bp := b1\<rparr>) = (r, st'))"
    using batch_barrier_result [OF q] p(2) by auto
  have "log_inv (wal (st\<lparr>bp := b\<rparr>)) (dsk (st\<lparr>bp := b\<rparr>))" using i by simp
  from flush_wal_ok [OF this f] have ok: "log_inv (wal st1) (dsk st1)"
    "\<And>p. data_page (dsk st) p \<Longrightarrow> data_page (dsk st1) p \<and> disk_page (dsk st1) p = disk_page (dsk st) p"
    "r1 = Ret () \<Longrightarrow> t \<in> set ts \<Longrightarrow> was_dirty t \<or> wal_state (pages (bp st) (task_frame t)) \<noteq> kClean \<Longrightarrow>
       wal_covered (wal st1) (pages (bp st) (task_frame t))" for t
    by (auto simp: sn wal_covered_def)
  from e p ok(2) obtain b1 where r1: "r1 = Ret ()" and w: "write_tasks (sort_key task_key ?ts) 0 0 (st1\<lparr>bp := b1\<rparr>) = (r, st')" by auto
  have "\<forall>t \<in> set (sort_key task_key ?ts). data_page (dsk (st1\<lparr>bp := b1\<rparr>)) (task_page_id t) \<and> length (task_data t) = PAGE_SIZE"
    using ts ok(2) sn by auto
  from write_tasks_pages [OF _ w this] ok(1) have wt: "wal st' = wal st1"
    "\<And>q. disk_page (dsk st') q \<noteq> disk_page (dsk st1) q \<Longrightarrow> q \<in> task_page_id ` set (sort_key task_key ?ts)"
    by auto
  from wt(2) [of p] p ok(2) obtain t where "t \<in> set ts" "task_page_id t = p" by (auto simp: sn)
  then show ?thesis using ok(3) [OF r1] wt(1) by auto
qed


definition disk_ex :: disk where
  "disk_ex = \<lparr>os = \<lparr>os_files = [''t'' \<mapsto> [], LOG_FILE_NAME \<mapsto> []], os_fds = [3 \<mapsto> ''t''], os_max_fd = 9, os_short = (\<lambda>_ _. None)\<rparr>,
     path2fd = [''t'' \<mapsto> 3], fd2path = [3 \<mapsto> ''t''], log_fd = - 1, fd2pageno = (\<lambda>_. 0)\<rparr>"

definition page_ex :: page_id where "page_ex = \<lparr>fd = 3, page_no = 0\<rparr>"

definition dirty_page_ex :: page where
  "dirty_page_ex = Page_new\<lparr>pg_id := page_ex, data := replicate PAGE_SIZE 7, is_dirty := True, wal_state := kWalFree\<rparr>"

definition storage_ex :: storage where
  "storage_ex = \<lparr>bp = (BufferPoolManager_new 1)\<lparr>pages := (\<lambda>_. dirty_page_ex)\<rparr>, wal = LogManager_new, dsk = disk_ex\<rparr>"

lemma log_inv_ex: "log_inv LogManager_new disk_ex"
  by (rule log_inv_new) (simp add: log_disk_ok_def disk_inv_def disk_ex_def is_file_def LOG_FILE_NAME_def)

lemma storage_ex_sel [simp]: "wal storage_ex = LogManager_new" "dsk storage_ex = disk_ex" "pages (bp storage_ex) f = dirty_page_ex"
  by (simp_all add: storage_ex_def)


end
