(* ===== verification/Rmdb_Buffer_Coherence.thy ===== *)
theory Rmdb_Buffer_Coherence
  imports Rmdb_Buffer_Props Rmdb_Wal_Protocol
begin

text \<open>
  The buffer pool as a cache: what its clients see is a map from pages to contents (\<open>view\<close>),
  whichever pages happen to be cached. Here operations run to the end one after the other, from states in which no
  frame is being loaded or written back (\<open>quiet\<close>); the interleavings of their parts are the
  subject of the invariant.
\<close>

definition lookup :: "bpm \<Rightarrow> page_id \<Rightarrow> frame_id_t option" where
  "lookup b pid = map_of (page_table (partitions b (partition_of b pid))) pid"

definition view :: "storage \<Rightarrow> page_id \<Rightarrow> byte list option" where
  "view st pid = (case lookup (bp st) pid of Some f \<Rightarrow> Some (data (pages (bp st) f)) | None \<Rightarrow> disk_page (dsk st) pid)"

definition quiet :: "bpm \<Rightarrow> bool" where
  "quiet b \<longleftrightarrow> (\<forall>f. \<not> frame_io_in_progress b f \<and> \<not> frame_writeback_in_progress b f) \<and>
     (\<forall>i < num_partitions b. inflight_page_loads (partitions b i) = [])"

text \<open>A page nobody has pinned is clean only when the disk has its content.\<close>

definition clean_on_disk :: "bpm \<Rightarrow> disk \<Rightarrow> bool" where
  "clean_on_disk b d \<longleftrightarrow> (\<forall>i < num_partitions b. \<forall>f \<in> own b i. is_evictable (pages b f) \<and> \<not> is_dirty (pages b f) \<longrightarrow>
     disk_page d (pg_id (pages b f)) = Some (data (pages b f)))"

definition data_frames :: "bpm \<Rightarrow> disk \<Rightarrow> bool" where
  "data_frames b d \<longleftrightarrow> (\<forall>i < num_partitions b. \<forall>f \<in> own b i. valid (pages b f) \<longrightarrow> data_page d (pg_id (pages b f)))"

definition cache_ok :: "storage \<Rightarrow> bool" where
  "cache_ok st \<longleftrightarrow> bpm_inv (bp st) \<and> log_inv (wal st) (dsk st) \<and> quiet (bp st) \<and> clean_on_disk (bp st) (dsk st) \<and> data_frames (bp st) (dsk st)"

lemma cache_okD:
  assumes "cache_ok st"
  shows "bpm_inv (bp st)" "log_inv (wal st) (dsk st)" "quiet (bp st)" "clean_on_disk (bp st) (dsk st)" "data_frames (bp st) (dsk st)"
  using assms unfolding cache_ok_def by blast+

lemma lookup_iff:
  assumes "bpm_inv b"
  shows "lookup b pid = Some f \<longleftrightarrow> page_no pid \<noteq> INVALID_PAGE_ID \<and> (\<exists>i < num_partitions b. f \<in> own b i \<and> pg_id (pages b f) = pid)"
proof
  have n: "partition_of b pid < num_partitions b" using partition_of_less assms by (simp add: bpm_inv_def)
  assume "lookup b pid = Some f"
  then show "page_no pid \<noteq> INVALID_PAGE_ID \<and> (\<exists>i < num_partitions b. f \<in> own b i \<and> pg_id (pages b f) = pid)"
    using table_frame(1,2,3) [OF assms _ n] n unfolding lookup_def by blast
next
  assume r: "page_no pid \<noteq> INVALID_PAGE_ID \<and> (\<exists>i < num_partitions b. f \<in> own b i \<and> pg_id (pages b f) = pid)"
  then obtain i where i: "i < num_partitions b" "f \<in> own b i" "pg_id (pages b f) = pid" by blast
  then have "partition_of b pid = i" using bpm_invD(8) [OF assms i(1,2)] r by blast
  then show "lookup b pid = Some f" using owned_table [OF assms i(1,2)] i(3) r unfolding lookup_def by blast
qed

lemma lookup_same:
  assumes "bpm_inv b" and "bpm_inv b'" and "num_partitions b' = num_partitions b" and "\<And>i. own b' i = own b i"
    and "\<And>f. pg_id (pages b' f) = pg_id (pages b f)"
  shows "lookup b' = lookup b"
proof
  fix pid
  have "lookup b' pid = Some f \<longleftrightarrow> lookup b pid = Some f" for f
    unfolding lookup_iff [OF assms(1)] lookup_iff [OF assms(2)] assms(3,4,5) ..
  then show "lookup b' pid = lookup b pid" by (metis not_None_eq)
qed

lemma pin_hit:
  assumes inv: "bpm_inv b" and f: "lookup b pid = Some f" and q: "quiet b"
    and b': "b' = mark_frame_pinned (upd_page b f (\<lambda>pg. pg\<lparr>pin_count := pin_count pg + 1\<rparr>)) (partition_of b pid) f"
  shows "bpm_inv b' \<and> lookup b' = lookup b \<and> same_static b b' \<and> quiet b'
    \<and> pages b' = (pages b)(f := (pages b f)\<lparr>pin_count := pin_count (pages b f) + 1, is_evictable := False\<rparr>)
    \<and> (\<forall>i. own b' i = own b i) \<and> pg_id (pages b f) = pid"
proof -
  let ?i = "partition_of b pid"
  have i: "?i < num_partitions b" using partition_of_less inv by (simp add: bpm_inv_def)
  note t = table_frame [OF inv f [unfolded lookup_def] i]
  note eff = mark_frame_pinned_eff [of "upd_page b f (\<lambda>pg. pg\<lparr>pin_count := pin_count pg + 1\<rparr>)" ?i f, folded b']
  have w: "b' = b'\<lparr>frame_writeback_in_progress := (frame_writeback_in_progress b)(f := False)\<rparr>"
    using eff(4) q by (simp add: quiet_def fun_upd_idem)
  have p: "bpm_inv b' \<and> pages b' = (pages b)(f := (pages b f)\<lparr>pin_count := pin_count (pages b f) + 1, is_evictable := False\<rparr>)"
    using pin_frame_inv [OF inv i t(1,3) _ b' w] q by (simp add: quiet_def)
  have ow: "own b' i = own b i" for i using eff(2) by simp
  have ss: "same_static b b'" using eff(7) by (simp add: same_static_def)
  have "lookup b' = lookup b"
    by (rule lookup_same [OF inv]) (use p ow ss in \<open>auto simp: same_static_def\<close>)
  moreover have "quiet b'" using q eff(2,3,4) ss by (simp add: quiet_def same_static_def)
  ultimately show ?thesis using p ow ss t(2) by blast
qed

text \<open>Starting a load and finishing it, with respect to \<open>lookup\<close>.\<close>

lemma quietD: "quiet b \<Longrightarrow> \<not> frame_io_in_progress b f" "quiet b \<Longrightarrow> \<not> frame_writeback_in_progress b f"
  "quiet b \<Longrightarrow> i < num_partitions b \<Longrightarrow> inflight_page_loads (partitions b i) = []"
  by (simp_all add: quiet_def)

lemma start_load_miss:
  assumes inv: "bpm_inv b" and q: "quiet b" and i: "partition_of b pid = i" and pid: "page_no pid \<noteq> INVALID_PAGE_ID"
    and n: "lookup b pid = None" and sl: "start_load b i pid = (FMiss f vid dirty, b')"
  shows "loading b' i f vid pid \<and> f \<in> own b i \<and> i < num_partitions b \<and> pin_count (pages b f) = 0 \<and> vid = pg_id (pages b f)
    \<and> dirty = is_dirty (pages b f) \<and> pages b' = (pages b)(f := (pages b f)\<lparr>is_evictable := False\<rparr>) \<and> same_static b b'
    \<and> frame_io_in_progress b' = (frame_io_in_progress b)(f := True) \<and> frame_writeback_in_progress b' = frame_writeback_in_progress b
    \<and> lookup b' = lookup b \<and> inflight_page_loads (partitions b' i) = [pid] \<and> (\<forall>j. own b' j = own b j)
    \<and> (\<forall>j. j \<noteq> i \<longrightarrow> partitions b' j = partitions b j)"
proof -
  have i': "i < num_partitions b" using partition_of_less [of b pid] inv i by (simp add: bpm_inv_def)
  obtain b1 where fv: "find_victim_page b i = (Some f, b1)" and vid: "vid = pg_id (pages b1 f)"
    and dirty: "dirty = (page_no vid \<noteq> INVALID_PAGE_ID \<and> is_dirty (pages b1 f))"
    and b': "b' = upd_part (b1\<lparr>frame_io_in_progress := (frame_io_in_progress b1)(f := True)\<rparr>) i
       (\<lambda>p. p\<lparr>inflight_page_loads := pid # inflight_page_loads p\<rparr>)"
    using sl by (auto simp: start_load_def Let_def split: prod.splits option.splits)
  note s = start_load_inv [OF inv i' i pid _ _ fv b']
  have s': "bpm_inv b'" "f \<in> own b i" "pin_count (pages b f) = 0" "pages b' = (pages b)(f := (pages b f)\<lparr>is_evictable := False\<rparr>)"
    "same_static b b'" "frame_io_in_progress b' = (frame_io_in_progress b)(f := True)"
    "frame_writeback_in_progress b' = frame_writeback_in_progress b" "\<And>j. j \<noteq> i \<Longrightarrow> partitions b' j = partitions b j"
    "inflight_page_loads (partitions b' i) = [pid]" "own b' i = own b i"
    using s n i quietD(3) [OF q i'] unfolding lookup_def by simp_all
  have ow: "own b' j = own b j" for j using s'(8,10) by (cases "j = i") simp_all
  have same: "pages b1 = pages b'" using b' by simp
  have v: "vid = pg_id (pages b f)" using vid s'(4) same by simp
  have d: "dirty = is_dirty (pages b f)"
    using dirty v s'(4) same bpm_inv_dirty_valid [OF inv i' s'(2)] by auto
  have "lookup b' = lookup b" by (rule lookup_same [OF inv s'(1)]) (use s' ow in \<open>auto simp: same_static_def\<close>)
  moreover have "loading b' i f vid pid"
    using s' i' i pid v ow by (simp add: loading_def same_static_def partition_of_def)
  ultimately show ?thesis using s' ow i' v d by blast
qed

lemma erase_dirty_page_frames:
  "frame_begin (partitions (snd (erase_dirty_page b i pid)) j) = frame_begin (partitions b j)"
  "frame_end (partitions (snd (erase_dirty_page b i pid)) j) = frame_end (partitions b j)"
  by (simp_all add: erase_dirty_page_def Let_def)

lemma install_page_frames: "own (install_page b i f vid pid bs) j = own b j"
  by (simp add: install_page_def Let_def erase_dirty_page_frames)

lemma fetch_rollback_frames: "own (fetch_rollback b i f vid pid) j = own b j"
  by (simp add: fetch_rollback_def Let_def return_free_frame_def mark_frame_evictable_def)

lemma install_lookup:
  assumes ld: "loading b i f vid pid" and bs: "length bs = PAGE_SIZE" and b': "b' = install_page b i f vid pid bs"
  shows "lookup b' q = (if q = pid then Some f else if q = vid then None else lookup b q)"
proof -
  note ins = install_page_inv [OF ld bs b']
  have l: "bpm_inv b" "i < num_partitions b" "f \<in> own b i" "pg_id (pages b f) = vid" "partition_of b pid = i"
    using ld unfolding loading_def by blast+
  have po: "partition_of b' q = partition_of b q" using ins by (simp add: partition_of_def same_static_def)
  have mi: "map_of (page_table (partitions b' i)) = (\<lambda>x. if x = pid then Some f else if x = vid then None else map_of (page_table (partitions b i)) x)"
    and mj: "\<And>j. j \<noteq> i \<Longrightarrow> partitions b' j = partitions b j" using ins by blast+
  show ?thesis
  proof (cases "partition_of b q = i")
    case True
    then show ?thesis unfolding lookup_def po by (simp add: mi)
  next
    case False
    have "lookup b q = None" if "q = vid"
    proof (cases "valid (pages b f)")
      case True
      then show ?thesis using bpm_invD(8) [OF l(1,2,3)] l(4) that False by simp
    next
      case nv: False
      then show ?thesis using lookup_iff [OF l(1), of q] that l(4) by (cases "lookup b q") auto
    qed
    then show ?thesis using False l(5) mj [OF False] unfolding lookup_def po by auto
  qed
qed

lemma loaded_cache_ok:
  assumes ok: "cache_ok st" and sl: "start_load (bp st) i pid = (FMiss f vid dirty, b1)" and i: "partition_of (bp st) pid = i"
    and pid: "page_no pid \<noteq> INVALID_PAGE_ID" "lookup (bp st) pid = None" "data_page (dsk st) pid" and bs: "length bs = PAGE_SIZE"
    and l1: "log_inv lm d" and dd: "\<And>p. data_page (dsk st) p \<Longrightarrow> data_page d p \<and> (p \<noteq> vid \<or> \<not> dirty \<longrightarrow> disk_page d p = disk_page (dsk st) p)"
    and dv: "dirty \<Longrightarrow> disk_page d vid = Some (data (pages (bp st) f))"
    and st': "st' = \<lparr>bp = install_page b1 i f vid pid bs, wal = lm, dsk = d\<rparr>"
  shows "cache_ok st' \<and> lookup (bp st') pid = Some f \<and> data (pages (bp st') f) = bs \<and> pin_count (pages (bp st') f) = 1
    \<and> pg_id (pages (bp st') f) = pid
    \<and> (\<forall>q. q \<noteq> pid \<and> data_page (dsk st) q \<longrightarrow> view st' q = view st q)"
proof -
  let ?b = "bp st" and ?b2 = "install_page b1 i f vid pid bs"
  note c = cache_okD [OF ok]
  note s = start_load_miss [OF c(1,3) i pid(1,2) sl]
  have s': "loading b1 i f vid pid" "f \<in> own ?b i" "i < num_partitions ?b" "pin_count (pages ?b f) = 0" "vid = pg_id (pages ?b f)"
    "dirty = is_dirty (pages ?b f)" "pages b1 = (pages ?b)(f := (pages ?b f)\<lparr>is_evictable := False\<rparr>)" "same_static ?b b1"
    "frame_io_in_progress b1 = (frame_io_in_progress ?b)(f := True)" "frame_writeback_in_progress b1 = frame_writeback_in_progress ?b"
    "lookup b1 = lookup ?b" "inflight_page_loads (partitions b1 i) = [pid]" "\<And>j. own b1 j = own ?b j"
    "\<And>j. j \<noteq> i \<Longrightarrow> partitions b1 j = partitions ?b j"
    using s by blast+
  note ins = install_page_inv [OF s'(1) bs refl]
  obtain p' where p': "pages ?b2 = (pages b1)(f := p')" "pg_id p' = pid" "data p' = bs" "pin_count p' = 1" using ins by blast
  have n2: "num_partitions ?b2 = num_partitions ?b" using ins s'(8) by (simp add: same_static_def)
  have inv2: "bpm_inv ?b2" using ins by blast
  have fr: "own ?b2 j = own ?b j" for j
    using install_page_frames s'(13) by simp
  have ne: "\<not> is_evictable p'" using bpm_invD(7) [OF inv2, of i f] n2 fr s'(2,3) p'(1,4) by (auto simp: frame_ok_def)
  have lk: "lookup ?b2 q = (if q = pid then Some f else if q = vid then None else lookup ?b q)" for q
    using install_lookup [OF s'(1) bs refl] s'(11) by simp
  have q2: "quiet ?b2"
  proof -
    have "inflight_page_loads (partitions ?b2 j) = []" if "j < num_partitions ?b2" for j
      using ins s'(12,14) quietD(3) [OF c(3)] that n2 by (cases "j = i") auto
    moreover have "frame_io_in_progress ?b2 = (frame_io_in_progress b1)(f := False)" "frame_writeback_in_progress ?b2 = frame_writeback_in_progress b1"
      using ins by blast+
    ultimately show ?thesis using c(3) s'(9,10) by (simp add: quiet_def)
  qed
  have other: "j < num_partitions ?b \<Longrightarrow> g \<in> own ?b j \<Longrightarrow> g \<noteq> f \<Longrightarrow> valid (pages ?b g) \<Longrightarrow> pg_id (pages ?b g) \<noteq> vid" for j g
    using page_in_one_frame [OF c(1) _ s'(3) _ s'(2)] s'(5) by metis
  have cl: "clean_on_disk ?b2 d"
    unfolding clean_on_disk_def n2 fr
  proof (intro allI ballI impI)
    fix j g assume j: "j < num_partitions ?b" "g \<in> own ?b j" and e: "is_evictable (pages ?b2 g) \<and> \<not> is_dirty (pages ?b2 g)"
    then have gf: "g \<noteq> f" using ne p'(1) by auto
    then have pg: "pages ?b2 g = pages ?b g" using p'(1) s'(7) by simp
    have "valid (pages ?b g)" using bpm_invD(7) [OF c(1) j] e pg by (auto simp: frame_ok_def)
    then show "disk_page d (pg_id (pages ?b2 g)) = Some (data (pages ?b2 g))"
      using c(4,5) j e gf other dd unfolding pg clean_on_disk_def data_frames_def by metis
  qed
  have df: "data_frames ?b2 d"
    unfolding data_frames_def n2 fr
  proof (intro allI ballI impI)
    fix j g assume j: "j < num_partitions ?b" "g \<in> own ?b j" and v: "valid (pages ?b2 g)"
    show "data_page d (pg_id (pages ?b2 g))"
      using c(5) j v dd pid(3) p'(1,2) s'(7) unfolding data_frames_def by (cases "g = f") auto
  qed
  have vw: "view st' q = view st q" if q: "q \<noteq> pid" "data_page (dsk st) q" for q
  proof (cases "q = vid")
    case True
    have lv: "lookup ?b2 q = None" using lk True q by simp
    show ?thesis
    proof (cases "valid (pages ?b f)")
      case v: True
      then have "lookup ?b q = Some f" using lookup_iff [OF c(1)] s'(2,3,5) True by auto
      moreover have "\<not> dirty \<Longrightarrow> disk_page d vid = Some (data (pages ?b f))"
      proof -
        assume nd: "\<not> dirty"
        have "is_evictable (pages ?b f)" using bpm_invD(7) [OF c(1) s'(3,2)] v s'(4) quietD(1) [OF c(3)] by (auto simp: frame_ok_def)
        then show ?thesis using c(4) nd s'(2,3,5,6) dd q True unfolding clean_on_disk_def by metis
      qed
      ultimately show ?thesis using lv dv True st' by (auto simp: view_def)
    next
      case nv: False
      then have "lookup ?b q = None" using lookup_iff [OF c(1), of q] s'(5) True by (cases "lookup ?b q") auto
      moreover have "\<not> dirty" using nv s'(6) bpm_inv_dirty_valid [OF c(1) s'(3,2)] by blast
      ultimately show ?thesis using lv st' dd q by (simp add: view_def)
    qed
  next
    case False
    then have l: "lookup ?b2 q = lookup ?b q" using lk q by simp
    show ?thesis
    proof (cases "lookup ?b q")
      case None
      then show ?thesis using l st' dd [OF q(2)] False by (simp add: view_def)
    next
      case (Some g)
      then have "g \<noteq> f" using lookup_iff [OF c(1)] s'(5) False by auto
      then show ?thesis using l Some st' p'(1) s'(7) by (simp add: view_def)
    qed
  qed
  have "cache_ok st'" using inv2 l1 q2 cl df st' by (simp add: cache_ok_def)
  then show ?thesis using vw lk [of pid] p' st' by simp
qed

lemma rolled_back_cache_ok:
  assumes ok: "cache_ok st" and sl: "start_load (bp st) i pid = (FMiss f vid dirty, b1)" and i: "partition_of (bp st) pid = i"
    and pid: "page_no pid \<noteq> INVALID_PAGE_ID" "lookup (bp st) pid = None"
    and l1: "log_inv lm d" and dd: "\<And>p. data_page (dsk st) p \<Longrightarrow> data_page d p \<and> (p \<noteq> vid \<or> \<not> dirty \<longrightarrow> disk_page d p = disk_page (dsk st) p)"
    and st': "st' = \<lparr>bp = fetch_rollback b1 i f vid pid, wal = lm, dsk = d\<rparr>"
  shows "cache_ok st' \<and> lookup (bp st') = lookup (bp st) \<and> (\<forall>q. data_page (dsk st) q \<longrightarrow> view st' q = view st q)"
proof -
  let ?b = "bp st" and ?b2 = "fetch_rollback b1 i f vid pid"
  note c = cache_okD [OF ok]
  note s = start_load_miss [OF c(1,3) i pid sl]
  have s': "loading b1 i f vid pid" "f \<in> own ?b i" "i < num_partitions ?b" "pin_count (pages ?b f) = 0" "vid = pg_id (pages ?b f)"
    "dirty = is_dirty (pages ?b f)" "pages b1 = (pages ?b)(f := (pages ?b f)\<lparr>is_evictable := False\<rparr>)" "same_static ?b b1"
    "frame_io_in_progress b1 = (frame_io_in_progress ?b)(f := True)" "frame_writeback_in_progress b1 = frame_writeback_in_progress ?b"
    "lookup b1 = lookup ?b" "inflight_page_loads (partitions b1 i) = [pid]" "\<And>j. own b1 j = own ?b j"
    "\<And>j. j \<noteq> i \<Longrightarrow> partitions b1 j = partitions ?b j"
    using s by blast+
  note rb = fetch_rollback_inv [OF s'(1) refl]
  have inv2: "bpm_inv ?b2" and n2: "num_partitions ?b2 = num_partitions ?b" using rb s'(8) by (auto simp: same_static_def)
  have fr: "own ?b2 j = own ?b j" for j using fetch_rollback_frames s'(13) by simp
  have ev: "is_evictable (pages ?b f) = valid (pages ?b f)"
    using bpm_invD(7) [OF c(1) s'(3,2)] s'(4) quietD(1) [OF c(3)] by (auto simp: frame_ok_def)
  have pg: "pages ?b2 = pages ?b" using rb s'(7) ev by (auto simp: fun_eq_iff)
  have lk: "lookup ?b2 = lookup ?b" by (rule lookup_same [OF c(1) inv2 n2 fr]) (simp add: pg)
  have oth: "inflight_page_loads (partitions ?b2 j) = inflight_page_loads (partitions b1 j)" if "j \<noteq> i" for j
    using that by (simp add: fetch_rollback_def Let_def return_free_frame_def mark_frame_evictable_def)
  have q2: "quiet ?b2"
  proof -
    have "inflight_page_loads (partitions ?b2 j) = []" if "j < num_partitions ?b2" for j
      using rb s'(12,14) quietD(3) [OF c(3)] that n2 oth by (cases "j = i") auto
    then show ?thesis using c(3) s'(9,10) rb by (auto simp: quiet_def)
  qed
  have cl: "clean_on_disk ?b2 d"
    unfolding clean_on_disk_def n2 fr pg
  proof (intro allI ballI impI)
    fix j g assume j: "j < num_partitions ?b" "g \<in> own ?b j" and e: "is_evictable (pages ?b g) \<and> \<not> is_dirty (pages ?b g)"
    have v: "valid (pages ?b g)" using bpm_invD(7) [OF c(1) j] e by (auto simp: frame_ok_def)
    have "pg_id (pages ?b g) \<noteq> vid \<or> \<not> dirty" using page_in_one_frame [OF c(1) j(1) s'(3) j(2) s'(2) v] e s'(5,6) by blast
    then show "disk_page d (pg_id (pages ?b g)) = Some (data (pages ?b g))"
      using c(4,5) j e v dd unfolding clean_on_disk_def data_frames_def by metis
  qed
  have df: "data_frames ?b2 d" using c(5) dd unfolding data_frames_def n2 fr pg by blast
  have "view st' q = view st q" if "data_page (dsk st) q" for q
  proof (cases "lookup ?b q")
    case None
    have "q \<noteq> vid \<or> \<not> dirty"
      using lookup_iff [OF c(1), of q f] None s'(2,3,5,6) bpm_inv_dirty_valid [OF c(1) s'(3,2)] by auto
    then show ?thesis using None dd [OF that] st' lk by (simp add: view_def)
  qed (simp add: view_def st' lk pg)
  moreover have "cache_ok st'" using inv2 l1 q2 cl df st' by (simp add: cache_ok_def)
  ultimately show ?thesis using lk st' by simp
qed

subsection \<open>When an operation waits\<close>

lemma page_lsns_target_no_Wait: "page_lsns_target lm ls t \<noteq> Wait"
  by (induction lm ls t rule: page_lsns_target.induct) (auto split: option.splits)

lemma max_known_no_Wait: "max_known_lsn lm ls m \<noteq> Wait"
  by (induction lm ls m rule: max_known_lsn.induct) auto

lemma validate_no_Wait: "validate_writeback_tasks ts \<noteq> Wait"
  by (induction ts rule: validate_writeback_tasks.induct) (auto split: outcome.splits)

lemma barrier_Wait:
  assumes "log_inv lm d"
  shows "FlushPageLsns lm d ls = (Wait, s) \<Longrightarrow> flush_thread_started lm"
    and "single_barrier lm d ls = (Wait, s) \<Longrightarrow> flush_thread_started lm"
    and "FlushUpTo lm d l = (Wait, s) \<Longrightarrow> flush_thread_started lm"
  using RequestFlushAndWait_ok [OF assms] page_lsns_target_no_Wait [of lm ls 0] max_known_no_Wait [of lm ls INVALID_LSN]
  by (cases s; fastforce simp: FlushPageLsns_def single_barrier_def FlushUpTo_def split: outcome.splits if_splits option.splits)+

lemma evict_Wait:
  assumes i: "log_inv (wal st) (dsk st)" and w: "evict_writeback k f vid dirty st = (Wait, st')"
  shows "flush_thread_started (wal st)"
proof -
  obtain ts where "flush_wal_for_tasks ts st = (Wait, st')"
  proof -
    have nw: "fst (disk_write p x s) \<noteq> Wait" for p x s
      by (auto simp: disk_write_def write_page_def Let_def split: prod.splits if_splits)
    show thesis
      using w that nw by (auto simp: evict_writeback_def Let_def obind_def split: if_splits outcome.splits prod.splits)
        (metis fst_conv)
  qed
  then show ?thesis
  proof (cases rule: flush_wal_cases)
    case invalid
    then show ?thesis using \<open>flush_wal_for_tasks ts st = (Wait, st')\<close> validate_no_Wait [of ts] max_known_no_Wait [of "wal st"] barrier_Wait [OF i]
      by (auto simp: flush_wal_for_tasks_def on_wal_def split: outcome.splits if_splits prod.splits)
  qed (use barrier_Wait [OF i] in blast)+
qed

subsection \<open>Fetching a page\<close>

lemma quiet_fetch_begin:
  assumes inv: "bpm_inv b" and q: "quiet b" and fb: "fetch_begin b pid = (ch, b1)"
  shows "(case lookup b pid of
       Some f \<Rightarrow> ch = FHit f \<and> b1 = mark_frame_pinned (upd_page b f (\<lambda>pg. pg\<lparr>pin_count := pin_count pg + 1\<rparr>)) (partition_of b pid) f
     | None \<Rightarrow> start_load b (partition_of b pid) pid = (ch, b1))"
proof -
  have i: "partition_of b pid < num_partitions b" using partition_of_less inv by (simp add: bpm_inv_def)
  show ?thesis using fb quietD(1,2) [OF q] quietD(3) [OF q i]
    by (auto simp: fetch_begin_def Let_def lookup_def split: option.splits)
qed

lemma hit_cache_ok:
  assumes ok: "cache_ok st" and f: "lookup (bp st) pid = Some f"
    and st': "st' = st\<lparr>bp := mark_frame_pinned (upd_page (bp st) f (\<lambda>pg. pg\<lparr>pin_count := pin_count pg + 1\<rparr>)) (partition_of (bp st) pid) f\<rparr>"
  shows "cache_ok st' \<and> lookup (bp st') = lookup (bp st) \<and> view st' = view st \<and> 0 < pin_count (pages (bp st') f)
    \<and> pg_id (pages (bp st') f) = pid"
proof -
  note c = cache_okD [OF ok]
  note p = pin_hit [OF c(1) f c(3) refl]
  have pg: "pages (bp st') = (pages (bp st))(f := (pages (bp st) f)\<lparr>pin_count := pin_count (pages (bp st) f) + 1, is_evictable := False\<rparr>)"
    and ow: "\<And>i. own (bp st') i = own (bp st) i" and n: "num_partitions (bp st') = num_partitions (bp st)"
    using p st' by (simp_all add: same_static_def)
  have "clean_on_disk (bp st') (dsk st)" "data_frames (bp st') (dsk st)"
    using c(4,5) unfolding clean_on_disk_def data_frames_def ow n pg by (auto simp del: atLeastLessThan_iff)
  moreover obtain i where "i < num_partitions (bp st)" "f \<in> own (bp st) i" using lookup_iff [OF c(1)] f by blast
  then have "0 \<le> pin_count (pages (bp st) f)" using bpm_invD(7) [OF c(1)] by (fastforce simp: frame_ok_def)
  moreover have "view st' = view st" using p pg st' by (auto simp: view_def fun_eq_iff split: option.splits)
  ultimately show ?thesis using p c(2) st' pg by (simp add: cache_ok_def)
qed

definition fetch_result :: "storage \<Rightarrow> page_id \<Rightarrow> frame_id_t option outcome \<Rightarrow> storage \<Rightarrow> bool" where
  "fetch_result st pid r st' \<longleftrightarrow> (r \<noteq> Wait \<longrightarrow> cache_ok st' \<and> (\<forall>q. data_page (dsk st) q \<longrightarrow> view st' q = view st q))
     \<and> (\<forall>g. r = Ret (Some g) \<longrightarrow> lookup (bp st') pid = Some g \<and> pg_id (pages (bp st') g) = pid
          \<and> view st pid = Some (data (pages (bp st') g)) \<and> 0 < pin_count (pages (bp st') g))
     \<and> (r = Ret None \<longrightarrow> st' = st \<and> (\<forall>g \<in> own (bp st) (partition_of (bp st) pid). 0 < pin_count (pages (bp st) g)))
     \<and> (\<forall>e. r = Throw e \<longrightarrow> lookup (bp st') = lookup (bp st))
     \<and> (r = Wait \<longrightarrow> flush_thread_started (wal st))"

lemma fetch_miss_result:
  assumes ok: "cache_ok st" and pid: "page_no pid \<noteq> INVALID_PAGE_ID" and dp: "data_page (dsk st) pid"
    and None: "lookup (bp st) pid = None" and f: "fetch_page pid st = (r, st')"
    and fb: "fetch_begin (bp st) pid = (FMiss g vid dirty, b1)"
    and sl: "start_load (bp st) (partition_of (bp st) pid) pid = (FMiss g vid dirty, b1)"
  shows "fetch_result st pid r st'"
proof -
  let ?b = "bp st" and ?i = "partition_of (bp st) pid"
  note c = cache_okD [OF ok]
  have i: "?i < num_partitions ?b" using partition_of_less c(1) by (simp add: bpm_inv_def)
  note s = start_load_miss [OF c(1,3) refl pid None sl]
  obtain r1 st1 where ev: "evict_writeback ?i g vid dirty (st\<lparr>bp := b1\<rparr>) = (r1, st1)" by fastforce
  have len: "length (data (pages ?b g)) = PAGE_SIZE" "data (pages b1 g) = data (pages ?b g)"
    using bpm_invD(7) [OF c(1) i] s by (simp_all add: frame_ok_def)
  have dv: "dirty \<longrightarrow> data_page (dsk st) vid"
    using c(5) s i bpm_inv_dirty_valid [OF c(1) i] unfolding data_frames_def by blast
  from evict_writeback_ok [OF _ ev] have eo: "bp st1 = b1" "log_inv (wal st1) (dsk st1)"
    "\<And>p. data_page (dsk st) p \<Longrightarrow> data_page (dsk st1) p \<and> (p \<noteq> vid \<or> \<not> dirty \<longrightarrow> disk_page (dsk st1) p = disk_page (dsk st) p)"
    "r1 = Ret () \<Longrightarrow> dirty \<Longrightarrow> disk_page (dsk st1) vid = Some (data (pages ?b g))"
    using c(2) dv len by auto
  have st1: "st1\<lparr>bp := x\<rparr> = \<lparr>bp = x, wal = wal st1, dsk = dsk st1\<rparr>" for x by simp
  note rb = rolled_back_cache_ok [OF ok sl refl pid None eo(2,3) refl]
  show ?thesis
  proof (cases r1)
    case (Throw e)
    then have "r = Throw e" "st' = \<lparr>bp = fetch_rollback b1 ?i g vid pid, wal = wal st1, dsk = dsk st1\<rparr>"
      using f fb ev eo(1) by (auto simp: st1 fetch_page_def Let_def)
    then show ?thesis using rb by (simp add: fetch_result_def)
  next
    case Wait
    then have "r = Wait" using f fb ev by (simp add: fetch_page_def Let_def)
    then show ?thesis using evict_Wait [OF _ ev [unfolded Wait]] c(2) by (simp add: fetch_result_def)
  next
    case (Ret u)
    show ?thesis
    proof (cases "disk_page (dsk st1) pid")
      case nd: None
      then have "\<exists>e. r = Throw e" "st' = \<lparr>bp = fetch_rollback b1 ?i g vid pid, wal = wal st1, dsk = dsk st1\<rparr>"
        using f fb ev eo(1) Ret by (auto simp: st1 fetch_page_def Let_def read_page_disk_page)
      then show ?thesis using rb by (auto simp: fetch_result_def)
    next
      case (Some bs)
      have e: "r = Ret (Some g)" "st' = \<lparr>bp = install_page b1 ?i g vid pid bs, wal = wal st1, dsk = dsk st1\<rparr>"
        using f fb ev eo(1) Ret Some by (auto simp: st1 fetch_page_def Let_def read_page_disk_page)
      have bl: "length bs = PAGE_SIZE" using Some by (auto simp: disk_page_def split: if_splits)
      have "vid \<noteq> pid" using s loading_frame(11) by blast
      then have vp: "view st pid = Some bs" using None Some eo(3) [OF dp] by (simp add: view_def)
      note ld = loaded_cache_ok [OF ok sl refl pid None dp bl eo(2,3) eo(4) e(2)]
      then have l: "cache_ok st'" "lookup (bp st') pid = Some g" "data (pages (bp st') g) = bs" "pin_count (pages (bp st') g) = 1"
        "pg_id (pages (bp st') g) = pid" "\<forall>q. q \<noteq> pid \<and> data_page (dsk st) q \<longrightarrow> view st' q = view st q" using Ret by simp_all
      have "view st' pid = view st pid" using l(2,3) vp by (simp add: view_def)
      then have "\<forall>q. data_page (dsk st) q \<longrightarrow> view st' q = view st q" using l(6) by metis
      then show ?thesis using e(1) l(1-5) vp by (simp add: fetch_result_def)
    qed
  qed
qed

text \<open>
  C16. Fetching a page from a pool at rest (in which pages may be dirty, pinned, or
  waiting for eviction) is transparent: whether the page is cached or not, whether a dirty victim has to be written
  back, and also when the write or the read throws and the load is rolled back,
  every page of every data file keeps the content clients see. On success the frame returned holds the page, pinned, with that content; the
  null pointer is returned only when each frame of the page's partition is pinned, and then nothing
  has changed; and the call waits only for the flush thread of the log.
\<close>

theorem fetch_page_transparent:
  assumes ok: "cache_ok st" and pid: "page_no pid \<noteq> INVALID_PAGE_ID" and dp: "data_page (dsk st) pid"
    and f: "fetch_page pid st = (r, st')"
  shows "(r \<noteq> Wait \<longrightarrow> cache_ok st' \<and> (\<forall>q. data_page (dsk st) q \<longrightarrow> view st' q = view st q))
    \<and> (\<forall>g. r = Ret (Some g) \<longrightarrow> lookup (bp st') pid = Some g \<and> pg_id (pages (bp st') g) = pid
         \<and> view st pid = Some (data (pages (bp st') g)) \<and> 0 < pin_count (pages (bp st') g))
    \<and> (r = Ret None \<longrightarrow> st' = st \<and> (\<forall>g \<in> own (bp st) (partition_of (bp st) pid). 0 < pin_count (pages (bp st) g)))
    \<and> (\<forall>e. r = Throw e \<longrightarrow> lookup (bp st') = lookup (bp st))
    \<and> (r = Wait \<longrightarrow> flush_thread_started (wal st))"
proof -
  let ?b = "bp st" and ?i = "partition_of (bp st) pid"
  note c = cache_okD [OF ok]
  have i: "?i < num_partitions ?b" using partition_of_less c(1) by (simp add: bpm_inv_def)
  obtain ch b1 where fb: "fetch_begin ?b pid = (ch, b1)" by fastforce
  note qf = quiet_fetch_begin [OF c(1,3) fb]
  show ?thesis
  proof (cases "lookup ?b pid")
    case (Some g)
    then have e: "r = Ret (Some g)" "st' = st\<lparr>bp := mark_frame_pinned (upd_page ?b g (\<lambda>pg. pg\<lparr>pin_count := pin_count pg + 1\<rparr>)) ?i g\<rparr>"
      using qf f fb by (simp_all add: fetch_page_def Let_def)
    note h = hit_cache_ok [OF ok Some e(2)]
    then have "view st pid = Some (data (pages (bp st') g))" using Some by (metis option.simps(5) view_def)
    then show ?thesis using h e(1) Some by simp
  next
    case None
    then have sl: "start_load ?b ?i pid = (ch, b1)" using qf by simp
    show ?thesis
    proof (cases ch)
      case FNoFrame
      obtain b2 where fv: "find_victim_page ?b ?i = (None, b2)" "b1 = b2"
        using sl FNoFrame by (auto simp: start_load_def Let_def split: prod.splits option.splits)
      note nv = find_victim_None [OF c(1) i fv(1)]
      have e: "r = Ret None" "st' = st" using f fb FNoFrame fv(2) nv by (simp_all add: fetch_page_def Let_def)
      have "0 < pin_count (pages ?b g)" if g: "g \<in> own ?b ?i" for g
        using nv free_iff [OF c(1) i, of g] queued_iff [OF c(1) i, of g] g bpm_invD(7) [OF c(1) i g] quietD(1) [OF c(3)]
        by (auto simp: frame_ok_def)
      then show ?thesis using e ok by simp
    next
      case (FMiss g vid dirty)
      show ?thesis using fetch_miss_result [OF ok pid dp None f] fb sl FMiss unfolding fetch_result_def by simp
    next
      case (FHit g)
      then show ?thesis using sl by (auto simp: start_load_def Let_def split: prod.splits option.splits)
    next
      case FWait
      then show ?thesis using sl by (auto simp: start_load_def Let_def split: prod.splits option.splits)
    qed
  qed
qed

definition storage0_ex :: storage where
  "storage0_ex = \<lparr>bp = BufferPoolManager_new 1, wal = LogManager_new, dsk = disk_ex\<rparr>"

lemma cache_ok_new:
  assumes "log_inv lm d"
  shows "cache_ok \<lparr>bp = BufferPoolManager_new n, wal = lm, dsk = d\<rparr>"
proof -
  let ?b = "BufferPoolManager_new n"
  have s: "pages ?b = (\<lambda>_. Page_new)" "frame_io_in_progress ?b = (\<lambda>_. False)" "frame_writeback_in_progress ?b = (\<lambda>_. False)"
    "\<And>i. inflight_page_loads (partitions ?b i) = []"
    by (simp_all add: BufferPoolManager_new_def new_partition_def Let_def)
  have p: "\<not> is_evictable Page_new" "\<not> valid Page_new" by (simp_all add: Page_new_def)
  show ?thesis using assms bpm_inv_new p by (simp add: cache_ok_def quiet_def clean_on_disk_def data_frames_def s)
qed

theorem fetch_page_transparent_witness:
  "\<exists>g. fst (fetch_page page_ex storage0_ex) = Ret (Some g)
     \<and> view storage0_ex page_ex = Some (data (pages (bp (snd (fetch_page page_ex storage0_ex))) g))"
proof -
  have ok: "cache_ok storage0_ex" unfolding storage0_ex_def by (rule cache_ok_new [OF log_inv_ex])
  have dp: "page_no page_ex \<noteq> INVALID_PAGE_ID" "data_page (dsk storage0_ex) page_ex"
    by (simp_all add: storage0_ex_def data_page_def disk_ex_def page_ex_def LOG_FILE_NAME_def)
  have c: "partition_count 1 = 1"
    by (simp add: partition_count_def floor_power_of_two_def BPM_PARTITION_COUNT_def fp2_loop.simps shrink_partitions.simps)
  have p: "partition_of (BufferPoolManager_new 1) page_ex = 0"
    using partition_of_less [of "BufferPoolManager_new 1" page_ex] c by (simp add: BufferPoolManager_new_def)
  have fr: "part_frames 1 0 = 1" using c by (simp add: part_frames_def)
  have fv: "find_victim_page (BufferPoolManager_new 1) 0 = (Some 0, upd_part (BufferPoolManager_new 1) 0
      (\<lambda>p. p\<lparr>free_list := [], clean_available_count := clean_available_count p - 1\<rparr>))"
    using fr by (simp add: find_victim_page_def BufferPoolManager_new_def new_partition_def part_begin_def Let_def)
  have pt: "page_table (partitions (BufferPoolManager_new 1) 0) = []" "inflight_page_loads (partitions (BufferPoolManager_new 1) 0) = []"
    "pages (BufferPoolManager_new 1) 0 = Page_new"
    by (simp_all add: BufferPoolManager_new_def new_partition_def Let_def)
  have vid: "page_no (pg_id Page_new) = INVALID_PAGE_ID" by (simp add: Page_new_def)
  have rd: "\<exists>bs. read_page disk_ex (fd page_ex) (page_no page_ex) PAGE_SIZE = Ret bs"
    by (simp add: read_page_def os_pread_def os_content_def disk_ex_def page_ex_def)
  have "fst (fetch_page page_ex storage0_ex) = Ret (Some 0)"
    using rd by (auto simp: fetch_page_def storage0_ex_def Let_def p fetch_begin_def pt start_load_def fv vid evict_writeback_def simp del: One_nat_def)
  moreover from this fetch_page_transparent [OF ok dp prod.collapse [symmetric]]
  have "view storage0_ex page_ex = Some (data (pages (bp (snd (fetch_page page_ex storage0_ex))) 0))" by simp
  ultimately show ?thesis by blast
qed

end
