(* ===== verification/Rmdb_Heap_Page.thy ===== *)
theory Rmdb_Heap_Page
  imports Rmdb_Bitmap Rmdb_Log_Record
begin

text \<open>
  The layout of a heap page: \<^verbatim>\<open>src/src/record/rm_defs.h\<close> (\<open>RmFileHdr\<close>, \<open>RmPageHdr\<close>), the pointers of
  \<open>RmPageHandle\<close> in \<^verbatim>\<open>rm_file_handle.h\<close>, and the sizes \<open>RmManager::create_file\<close> computes in \<^verbatim>\<open>rm_manager.h\<close>. A page is
  its bytes: four unused bytes, the page header, the bitmap, the slots. The bitmap
  pointer addresses everything up to the end of the page, as in the program.
\<close>

record rm_file_hdr =
  record_size :: nat
  num_pages :: int
  num_records_per_page :: nat
  first_free_page_no :: int
  bitmap_size :: nat

abbreviation RM_NO_PAGE :: int where "RM_NO_PAGE \<equiv> - 1"

definition RM_FILE_HDR_PAGE :: int where "RM_FILE_HDR_PAGE = 0"
definition RM_FIRST_RECORD_PAGE :: int where "RM_FIRST_RECORD_PAGE = 1"
definition RM_MAX_RECORD_SIZE :: int where "RM_MAX_RECORD_SIZE = 512"
definition OFFSET_PAGE_HDR :: nat where "OFFSET_PAGE_HDR = 4"
definition sizeof_RmPageHdr :: nat where "sizeof_RmPageHdr = 8"

definition OFFSET_BITMAP :: nat where "OFFSET_BITMAP = OFFSET_PAGE_HDR + sizeof_RmPageHdr"

subsection \<open>Reading and writing bytes of a page\<close>

definition get_bytes :: "byte list \<Rightarrow> nat \<Rightarrow> nat \<Rightarrow> byte list" where
  "get_bytes pg off n = take n (drop off pg)"

definition put_bytes :: "byte list \<Rightarrow> nat \<Rightarrow> byte list \<Rightarrow> byte list" where
  "put_bytes pg off bs = take off pg @ bs @ drop (off + length bs) pg"

definition next_free_page_no :: "byte list \<Rightarrow> int" where
  "next_free_page_no pg = le_dec_signed (get_bytes pg OFFSET_PAGE_HDR 4)"

definition num_records :: "byte list \<Rightarrow> int" where
  "num_records pg = le_dec_signed (get_bytes pg (OFFSET_PAGE_HDR + 4) 4)"

definition set_next_free :: "int \<Rightarrow> byte list \<Rightarrow> byte list" where
  "set_next_free n pg = put_bytes pg OFFSET_PAGE_HDR (le_enc 4 n)"

definition set_num_records :: "int \<Rightarrow> byte list \<Rightarrow> byte list" where
  "set_num_records n pg = put_bytes pg (OFFSET_PAGE_HDR + 4) (le_enc 4 n)"

definition slot_is_set :: "byte list \<Rightarrow> nat \<Rightarrow> bool" where
  "slot_is_set pg k = is_set (drop OFFSET_BITMAP pg) k"

definition set_slot_bit :: "nat \<Rightarrow> byte list \<Rightarrow> byte list" where
  "set_slot_bit k pg = take OFFSET_BITMAP pg @ bm_set (drop OFFSET_BITMAP pg) k"

definition reset_slot_bit :: "nat \<Rightarrow> byte list \<Rightarrow> byte list" where
  "reset_slot_bit k pg = take OFFSET_BITMAP pg @ bm_reset (drop OFFSET_BITMAP pg) k"

definition init_bitmap :: "rm_file_hdr \<Rightarrow> byte list \<Rightarrow> byte list" where
  "init_bitmap h pg = take OFFSET_BITMAP pg @ bm_init (drop OFFSET_BITMAP pg) (bitmap_size h)"

definition slot_offset :: "rm_file_hdr \<Rightarrow> nat \<Rightarrow> nat" where
  "slot_offset h k = OFFSET_BITMAP + bitmap_size h + k * record_size h"

definition get_slot :: "rm_file_hdr \<Rightarrow> byte list \<Rightarrow> nat \<Rightarrow> byte list" where
  "get_slot h pg k = get_bytes pg (slot_offset h k) (record_size h)"

definition put_slot :: "rm_file_hdr \<Rightarrow> nat \<Rightarrow> byte list \<Rightarrow> byte list \<Rightarrow> byte list" where
  "put_slot h k buf pg = put_bytes pg (slot_offset h k) (take (record_size h) buf)"

text \<open>The header of a new file, \<open>RmManager::create_file\<close>.\<close>

definition new_file_hdr :: "int \<Rightarrow> rm_file_hdr outcome" where
  "new_file_hdr rsize =
     (if rsize < 1 \<or> rsize > RM_MAX_RECORD_SIZE then Throw (InvalidRecordSizeError rsize)
      else let page_capacity = PAGE_SIZE - OFFSET_PAGE_HDR - sizeof_RmPageHdr;
               n = (BITMAP_WIDTH * (page_capacity - 1) + 1) div (1 + nat rsize * BITMAP_WIDTH)
        in Ret \<lparr>record_size = nat rsize, num_pages = 1, num_records_per_page = n, first_free_page_no = RM_NO_PAGE,
                bitmap_size = (n + BITMAP_WIDTH - 1) div BITMAP_WIDTH\<rparr>)"

subsection \<open>The layout fits\<close>

definition page_fits :: "rm_file_hdr \<Rightarrow> bool" where
  "page_fits h \<longleftrightarrow> slot_offset h (num_records_per_page h) \<le> PAGE_SIZE \<and> num_records_per_page h \<le> 8 * bitmap_size h
     \<and> 0 < record_size h"

lemma new_file_hdr_fits:
  assumes "new_file_hdr rsize = Ret h"
  shows "page_fits h \<and> 7 \<le> num_records_per_page h \<and> first_free_page_no h = RM_NO_PAGE \<and> num_pages h = 1
    \<and> 8 * bitmap_size h < num_records_per_page h + 8"
proof -
  define r n where "r = nat rsize" and "n = 32665 div (1 + r * 8)"
  have r: "1 \<le> r" "r \<le> 512" using assms by (auto simp: new_file_hdr_def RM_MAX_RECORD_SIZE_def r_def split: if_splits)
  have h: "h = \<lparr>record_size = r, num_pages = 1, num_records_per_page = n, first_free_page_no = RM_NO_PAGE, bitmap_size = (n + 7) div 8\<rparr>"
    using assms by (auto simp: new_file_hdr_def Let_def PAGE_SIZE_def OFFSET_PAGE_HDR_def sizeof_RmPageHdr_def BITMAP_WIDTH_def r_def n_def split: if_splits)
  have "n * (1 + r * 8) \<le> 32665" unfolding n_def by (rule div_times_less_eq_dividend)
  then have m: "n + 8 * (n * r) \<le> 32665" by (simp add: algebra_simps)
  have d: "8 * ((n + 7) div 8) \<le> n + 7" by simp
  have "12 + (n + 7) div 8 + n * r \<le> 4096" using m d by linarith
  moreover have "n \<le> 8 * ((n + 7) div 8)" "8 * ((n + 7) div 8) < n + 8" by linarith+
  moreover have "7 \<le> n"
  proof -
    have "7 * (1 + r * 8) \<le> 32665" using r by simp
    then show ?thesis unfolding n_def by (subst less_eq_div_iff_mult_less_eq) simp_all
  qed
  ultimately show ?thesis using r
    by (simp add: h page_fits_def slot_offset_def OFFSET_BITMAP_def OFFSET_PAGE_HDR_def sizeof_RmPageHdr_def PAGE_SIZE_def)
qed

subsection \<open>Fields do not overlap\<close>

lemma length_put_bytes [simp]: "off + length bs \<le> length pg \<Longrightarrow> length (put_bytes pg off bs) = length pg"
  by (simp add: put_bytes_def)

lemma get_put_same: "off \<le> length pg \<Longrightarrow> n = length bs \<Longrightarrow> get_bytes (put_bytes pg off bs) off n = bs"
  by (simp add: get_bytes_def put_bytes_def)

lemma nth_put_bytes:
  "off + length bs \<le> length pg \<Longrightarrow> i < length pg \<Longrightarrow>
   put_bytes pg off bs ! i = (if off \<le> i \<and> i < off + length bs then bs ! (i - off) else pg ! i)"
  by (auto simp: put_bytes_def nth_append)

lemma get_put_other:
  assumes "off + length bs \<le> length pg" and "o1 + n \<le> off \<or> off + length bs \<le> o1"
  shows "get_bytes (put_bytes pg off bs) o1 n = get_bytes pg o1 n"
  unfolding get_bytes_def
proof (rule nth_equalityI)
  show "length (take n (drop o1 (put_bytes pg off bs))) = length (take n (drop o1 pg))" using assms(1) by simp
  fix i assume "i < length (take n (drop o1 (put_bytes pg off bs)))"
  then show "take n (drop o1 (put_bytes pg off bs)) ! i = take n (drop o1 pg) ! i"
    using assms by (auto simp: nth_put_bytes)
qed

lemma slot_is_set_get: "OFFSET_BITMAP + k div 8 < length pg \<Longrightarrow>
    slot_is_set pg k \<longleftrightarrow> bit (hd (get_bytes pg (OFFSET_BITMAP + k div 8) 1)) (7 - k mod 8)"
  by (simp add: slot_is_set_def is_set_bit get_bytes_def hd_conv_nth)

lemma set_slot_bit_put: "OFFSET_BITMAP + k div 8 < length pg \<Longrightarrow>
    set_slot_bit k pg = put_bytes pg (OFFSET_BITMAP + k div 8) [pg ! (OFFSET_BITMAP + k div 8) OR get_bit k]"
  by (rule nth_equalityI)
    (auto simp: set_slot_bit_def bm_set_def get_bucket_def BITMAP_WIDTH_def nth_put_bytes nth_append nth_list_update put_bytes_def)

lemma reset_slot_bit_put: "OFFSET_BITMAP + k div 8 < length pg \<Longrightarrow>
    reset_slot_bit k pg = put_bytes pg (OFFSET_BITMAP + k div 8) [pg ! (OFFSET_BITMAP + k div 8) AND NOT (get_bit k)]"
  by (rule nth_equalityI)
    (auto simp: reset_slot_bit_def bm_reset_def get_bucket_def BITMAP_WIDTH_def nth_put_bytes nth_append nth_list_update put_bytes_def)

text \<open>Where the fields of a page of a file with header \<open>h\<close> are.\<close>

lemma page_offsets: "OFFSET_PAGE_HDR = 4" "OFFSET_BITMAP = 12"
  by (simp_all add: OFFSET_PAGE_HDR_def OFFSET_BITMAP_def sizeof_RmPageHdr_def)

lemma slot_bounds:
  assumes "page_fits h" and "k < num_records_per_page h"
  shows "12 + k div 8 < 12 + bitmap_size h" "12 + bitmap_size h \<le> slot_offset h k" "slot_offset h k + record_size h \<le> PAGE_SIZE"
proof -
  have "Suc k * record_size h \<le> num_records_per_page h * record_size h" using assms(2) by (intro mult_le_mono1) simp
  then show "slot_offset h k + record_size h \<le> PAGE_SIZE" using assms(1) by (simp add: page_fits_def slot_offset_def)
  show "12 + k div 8 < 12 + bitmap_size h" using assms by (simp add: page_fits_def less_mult_imp_div_less mult.commute)
qed (simp add: slot_offset_def page_offsets)

lemma slot_disjoint:
  "k \<noteq> j \<Longrightarrow> slot_offset h j + record_size h \<le> slot_offset h k \<or> slot_offset h k + record_size h \<le> slot_offset h j"
proof (cases "j < k")
  case True
  then have "Suc j * record_size h \<le> k * record_size h" by (intro mult_le_mono1) simp
  then show ?thesis by (simp add: slot_offset_def)
next
  case False
  assume "k \<noteq> j"
  with False have "Suc k * record_size h \<le> j * record_size h" by (intro mult_le_mono1) simp
  then show ?thesis by (simp add: slot_offset_def)
qed

text \<open>
  Reading one field after writing another: the facts under the name \<open>page_fields\<close> are rewrite rules for a page
  of the right size and slots that exist.
\<close>

lemma page_len:
  assumes "page_fits h" and "length pg = PAGE_SIZE" and "k < num_records_per_page h"
  shows "length (set_next_free n pg) = PAGE_SIZE" "length (set_num_records n pg) = PAGE_SIZE" "length (set_slot_bit k pg) = PAGE_SIZE"
    "length (reset_slot_bit k pg) = PAGE_SIZE" "length buf = record_size h \<Longrightarrow> length (put_slot h k buf pg) = PAGE_SIZE"
  using assms slot_bounds [OF assms(1,3)]
  by (simp_all add: set_next_free_def set_num_records_def set_slot_bit_def reset_slot_bit_def put_slot_def page_offsets PAGE_SIZE_def)

lemma header_get_put:
  assumes "length pg = PAGE_SIZE"
  shows "in_i 4 n \<Longrightarrow> next_free_page_no (set_next_free n pg) = n" "in_i 4 n \<Longrightarrow> num_records (set_num_records n pg) = n"
    "num_records (set_next_free n pg) = num_records pg" "next_free_page_no (set_num_records n pg) = next_free_page_no pg"
  using assms
  by (simp_all add: next_free_page_no_def num_records_def set_next_free_def set_num_records_def page_offsets PAGE_SIZE_def
      get_put_same get_put_other le_dec_enc_i)

lemma header_other:
  assumes "page_fits h" and "length pg = PAGE_SIZE" and "k < num_records_per_page h"
  shows "length buf = record_size h \<Longrightarrow> next_free_page_no (put_slot h k buf pg) = next_free_page_no pg"
    "length buf = record_size h \<Longrightarrow> num_records (put_slot h k buf pg) = num_records pg"
    "next_free_page_no (set_slot_bit k pg) = next_free_page_no pg" "num_records (set_slot_bit k pg) = num_records pg"
    "next_free_page_no (reset_slot_bit k pg) = next_free_page_no pg" "num_records (reset_slot_bit k pg) = num_records pg"
  using assms slot_bounds [OF assms(1,3)]
  by (simp_all add: next_free_page_no_def num_records_def put_slot_def set_slot_bit_put reset_slot_bit_put page_offsets get_put_other)

lemma slots_other:
  assumes "page_fits h" and "length pg = PAGE_SIZE" and "k < num_records_per_page h" and "j < num_records_per_page h"
  shows "get_slot h (set_next_free n pg) j = get_slot h pg j" "get_slot h (set_num_records n pg) j = get_slot h pg j"
    "get_slot h (set_slot_bit k pg) j = get_slot h pg j" "get_slot h (reset_slot_bit k pg) j = get_slot h pg j"
    "length buf = record_size h \<Longrightarrow> get_slot h (put_slot h k buf pg) j = (if j = k then buf else get_slot h pg j)"
proof -
  note b = slot_bounds [OF assms(1,3)] slot_bounds [OF assms(1,4)]
  show "get_slot h (set_next_free n pg) j = get_slot h pg j" "get_slot h (set_num_records n pg) j = get_slot h pg j"
    "get_slot h (set_slot_bit k pg) j = get_slot h pg j" "get_slot h (reset_slot_bit k pg) j = get_slot h pg j"
    using assms(2) b
    by (simp_all add: get_slot_def set_next_free_def set_num_records_def set_slot_bit_put reset_slot_bit_put page_offsets get_put_other)
  show "length buf = record_size h \<Longrightarrow> get_slot h (put_slot h k buf pg) j = (if j = k then buf else get_slot h pg j)"
    using assms(2) b slot_disjoint [of k j h] by (simp add: get_slot_def put_slot_def get_put_same get_put_other)
qed

lemma bits_other:
  assumes "page_fits h" and "length pg = PAGE_SIZE" and "k < num_records_per_page h" and "j < num_records_per_page h"
  shows "slot_is_set (set_next_free n pg) j = slot_is_set pg j" "slot_is_set (set_num_records n pg) j = slot_is_set pg j"
    "length buf = record_size h \<Longrightarrow> slot_is_set (put_slot h k buf pg) j = slot_is_set pg j"
    "slot_is_set (set_slot_bit k pg) j \<longleftrightarrow> j = k \<or> slot_is_set pg j"
    "slot_is_set (reset_slot_bit k pg) j \<longleftrightarrow> j \<noteq> k \<and> slot_is_set pg j"
proof -
  note b = slot_bounds [OF assms(1,3)] slot_bounds [OF assms(1,4)]
  show "slot_is_set (set_next_free n pg) j = slot_is_set pg j" "slot_is_set (set_num_records n pg) j = slot_is_set pg j"
    "length buf = record_size h \<Longrightarrow> slot_is_set (put_slot h k buf pg) j = slot_is_set pg j"
    using assms(2) b
    by (simp_all add: slot_is_set_get set_next_free_def set_num_records_def put_slot_def page_offsets get_put_other)
  have "q < 8 * length (drop OFFSET_BITMAP pg)" if "q < num_records_per_page h" for q
    using slot_bounds [OF assms(1) that] assms(2) by (simp add: page_offsets dividend_less_times_div)
  then show "slot_is_set (set_slot_bit k pg) j \<longleftrightarrow> j = k \<or> slot_is_set pg j"
    "slot_is_set (reset_slot_bit k pg) j \<longleftrightarrow> j \<noteq> k \<and> slot_is_set pg j"
    using assms by (simp_all add: slot_is_set_def set_slot_bit_def reset_slot_bit_def page_offsets min_absorb2 PAGE_SIZE_def)
qed

lemmas page_fields = page_len header_get_put header_other slots_other bits_other

text \<open>A page after its initialisation has no records.\<close>

lemma init_bitmap_fields:
  assumes "page_fits h" and "length pg = PAGE_SIZE"
  shows "length (init_bitmap h pg) = PAGE_SIZE" "next_free_page_no (init_bitmap h pg) = next_free_page_no pg"
    "num_records (init_bitmap h pg) = num_records pg" "j < num_records_per_page h \<Longrightarrow> \<not> slot_is_set (init_bitmap h pg) j"
proof -
  have f: "12 + bitmap_size h \<le> length pg" using assms by (simp add: page_fits_def slot_offset_def page_offsets)
  have e: "init_bitmap h pg = put_bytes pg 12 (replicate (bitmap_size h) 0)"
    by (simp add: init_bitmap_def put_bytes_def bm_init_def page_offsets add.commute)
  show "length (init_bitmap h pg) = PAGE_SIZE" "next_free_page_no (init_bitmap h pg) = next_free_page_no pg"
    "num_records (init_bitmap h pg) = num_records pg"
    using f assms(2) by (simp_all add: e next_free_page_no_def num_records_def page_offsets get_put_other)
  show "j < num_records_per_page h \<Longrightarrow> \<not> slot_is_set (init_bitmap h pg) j"
    using assms by (simp add: slot_is_set_def init_bitmap_def page_offsets min_absorb2 PAGE_SIZE_def page_fits_def is_set_bm_init)
qed

end
