(* ===== verification/Rmdb_Heap.thy ===== *)
theory Rmdb_Heap
  imports Rmdb_Heap_Page Rmdb_Page Rmdb_Log_Manager
begin

text \<open>
  The heap file: \<^verbatim>\<open>src/src/record/rm_file_handle.h\<close> and \<^verbatim>\<open>rm_file_handle.cpp\<close>, class \<open>RmFileHandle\<close>, and the
  sequential scan of \<^verbatim>\<open>rm_scan.cpp\<close>. The pages of the file are a map from page numbers to pages: the view of the
  buffer pool. \<open>unpin_page (page, true)\<close> sets the dirty flag and turns a page whose change was not
  declared into one of unknown provenance, as \<open>register_dirty_page\<close> does; pins are the subject of the buffer pool. \<open>pool_full\<close>
  says for which page numbers the buffer pool has no frame. The state also holds the log the file
  appends to (the texts of the errors leave out the numbers the code puts into them) and \<open>prev_lsn_\<close> of the running transaction; a call with no transaction, no log manager or an empty table name
  does not log.
\<close>

record heap_file =
  file_hdr :: rm_file_hdr
  num_pages_snapshot :: int
  has_mvcc_state :: bool
  quarantined_slots :: "int \<Rightarrow> nat list"
  reserved_slots :: "int \<Rightarrow> nat list"
  active_insert_pages :: "int list"
  active_insert_cursor :: nat
  reserved_slot_count :: nat
  hp_pages :: "int \<Rightarrow> page"
  hp_next_page :: int
  hp_partitions :: nat
  pool_full :: "int \<Rightarrow> bool"
  hp_wal :: log_manager
  hp_disk :: disk
  txn_prev_lsn :: lsn_t

type_synonym 'a heap_op = "heap_file \<Rightarrow> 'a outcome \<times> heap_file"

abbreviation slots_per_page :: "heap_file \<Rightarrow> nat" where
  "slots_per_page s \<equiv> num_records_per_page (file_hdr s)"

definition hret :: "'a \<Rightarrow> 'a heap_op" where "hret x s = (Ret x, s)"

definition hthrow :: "db_error \<Rightarrow> 'a heap_op" where "hthrow e s = (Throw e, s)"

definition upd_hp :: "int \<Rightarrow> (page \<Rightarrow> page) \<Rightarrow> heap_file \<Rightarrow> heap_file" where
  "upd_hp n g s = s\<lparr>hp_pages := (hp_pages s)(n := g (hp_pages s n))\<rparr>"

definition upd_data :: "(byte list \<Rightarrow> byte list) \<Rightarrow> page \<Rightarrow> page" where
  "upd_data g p = p\<lparr>data := g (data p)\<rparr>"

definition unpin_dirty :: "page \<Rightarrow> page" where
  "unpin_dirty p = p\<lparr>is_dirty := True, wal_state := (if wal_state p = kClean then kUnknown else wal_state p),
     dirty_generation := Suc (dirty_generation p)\<rparr>"

definition MarkPageWalState :: "lsn_t \<Rightarrow> page \<Rightarrow> page" where
  "MarkPageWalState l p = (if l \<noteq> INVALID_LSN then set_page_lsn l p else mark_wal_free_dirty p)"

text \<open>The page is unpinned as dirty whatever the outcome of the call before.\<close>

definition finally_dirty :: "int \<Rightarrow> 'a outcome \<times> heap_file \<Rightarrow> 'a outcome \<times> heap_file" where
  "finally_dirty n res = (fst res, upd_hp n unpin_dirty (snd res))"

text \<open>
  The constructor: the header is what \<open>read_page\<close> returned for page 0, and the next page number of the file is set
  behind its last page.
\<close>

definition RmFileHandle_new :: "rm_file_hdr \<Rightarrow> (int \<Rightarrow> page) \<Rightarrow> (int \<Rightarrow> bool) \<Rightarrow> nat \<Rightarrow> log_manager \<Rightarrow> disk \<Rightarrow> heap_file" where
  "RmFileHandle_new h pages full partitions lm d =
     \<lparr>file_hdr = h, num_pages_snapshot = num_pages h, has_mvcc_state = False, quarantined_slots = (\<lambda>_. []), reserved_slots = (\<lambda>_. []),
      active_insert_pages = [], active_insert_cursor = 0, reserved_slot_count = 0, hp_pages = pages, hp_next_page = num_pages h,
      hp_partitions = partitions, pool_full = full, hp_wal = lm, hp_disk = d, txn_prev_lsn = INVALID_LSN\<rparr>"

definition fetch_page_handle :: "int \<Rightarrow> page heap_op" where
  "fetch_page_handle n s =
     (if n < 0 \<or> n \<ge> num_pages_snapshot s then (Throw (PageNotExistError n), s)
      else if pool_full s n then (Throw (InternalError ''Buffer pool exhausted, cannot fetch page''), s)
      else (Ret (hp_pages s n), s))"

definition first_available_slot :: "heap_file \<Rightarrow> int \<Rightarrow> page \<Rightarrow> nat" where
  "first_available_slot s n p =
     (case find (\<lambda>k. \<not> slot_is_set (data p) k \<and> k \<notin> set (quarantined_slots s n) \<and> k \<notin> set (reserved_slots s n)) [0..<slots_per_page s] of
        Some k \<Rightarrow> k | None \<Rightarrow> slots_per_page s)"

definition page_has_available_slot :: "heap_file \<Rightarrow> int \<Rightarrow> bool" where
  "page_has_available_slot s n \<longleftrightarrow> first_available_slot s n (hp_pages s n) < slots_per_page s"

text \<open>\<open>context\<close> is the transaction, when there is one and a log manager.\<close>

definition append_heap_log :: "log_record \<Rightarrow> lsn_t heap_op" where
  "append_heap_log r s =
     (case add_log_to_buffer (hp_wal s) (hp_disk s) (r\<lparr>prev_lsn := txn_prev_lsn s\<rparr>) of
        (Ret l, lm, d) \<Rightarrow> (Ret l, s\<lparr>hp_wal := lm, hp_disk := d, txn_prev_lsn := l\<rparr>)
      | (Throw e, lm, d) \<Rightarrow> (Throw e, s\<lparr>hp_wal := lm, hp_disk := d\<rparr>)
      | (Wait, lm, d) \<Rightarrow> (Wait, s\<lparr>hp_wal := lm, hp_disk := d\<rparr>))"

definition log_if :: "txn_id_t option \<Rightarrow> string \<Rightarrow> (txn_id_t \<Rightarrow> log_record) \<Rightarrow> lsn_t heap_op" where
  "log_if ctx table_name mk = (case ctx of None \<Rightarrow> hret INVALID_LSN
     | Some txn \<Rightarrow> if table_name = [] then hret INVALID_LSN else append_heap_log (mk txn))"

subsection \<open>The free list\<close>

text \<open>
  The walk that unlinks a page follows the chain of free pages; \<open>Wait\<close> when the chain has more pages than the file.
\<close>

fun unlink_walk :: "nat \<Rightarrow> int \<Rightarrow> lsn_t \<Rightarrow> int \<Rightarrow> unit heap_op" where
  "unlink_walk 0 target plsn prev_no s = (if prev_no = RM_NO_PAGE then (Ret (), s) else (Wait, s))"
| "unlink_walk (Suc fuel) target plsn prev_no s =
     (if prev_no = RM_NO_PAGE then (Ret (), s)
      else obind (fetch_page_handle prev_no) (\<lambda>p s.
        let next_no = next_free_page_no (data p)
        in if next_no = target
           then (Ret (), upd_hp prev_no unpin_dirty (upd_hp prev_no (MarkPageWalState plsn)
                   (upd_hp target (upd_data (set_next_free RM_NO_PAGE))
                     (upd_hp prev_no (upd_data (set_next_free (next_free_page_no (data (hp_pages s target))))) s))))
           else unlink_walk fuel target plsn next_no s) s)"

definition unlink_free_page_if_needed :: "int \<Rightarrow> lsn_t \<Rightarrow> unit heap_op" where
  "unlink_free_page_if_needed target plsn s =
     (if first_free_page_no (file_hdr s) = target
      then (Ret (), upd_hp target (upd_data (set_next_free RM_NO_PAGE))
             (s\<lparr>file_hdr := (file_hdr s)\<lparr>first_free_page_no := next_free_page_no (data (hp_pages s target))\<rparr>\<rparr>))
      else unlink_walk (nat (num_pages (file_hdr s))) target plsn (first_free_page_no (file_hdr s)) s)"

definition release_page_handle :: "int \<Rightarrow> heap_file \<Rightarrow> heap_file" where
  "release_page_handle n s =
     (upd_hp n (upd_data (set_next_free (first_free_page_no (file_hdr s)))) s)
       \<lparr>file_hdr := (file_hdr s)\<lparr>first_free_page_no := n\<rparr>\<rparr>"

text \<open>
  \<open>BufferPoolManager::new_page\<close> takes a new page number in each attempt and gives up after as many attempts as there are
  partitions; the assertion that it found a frame is an error here.
\<close>

fun alloc_page :: "nat \<Rightarrow> heap_file \<Rightarrow> int option \<times> heap_file" where
  "alloc_page 0 s = (None, s)"
| "alloc_page (Suc m) s =
     (let n = hp_next_page s; s1 = s\<lparr>hp_next_page := i32 (n + 1)\<rparr>
      in if pool_full s n then alloc_page m s1 else (Some n, s1))"

definition create_new_page_handle :: "int heap_op" where
  "create_new_page_handle s =
     (case alloc_page (hp_partitions s) s of
        (None, s1) \<Rightarrow> (Throw (InternalError ''assertion page != nullptr''), s1)
      | (Some n, s1) \<Rightarrow>
          (let h = file_hdr s1;
               d = set_next_free (first_free_page_no h) (init_bitmap h (set_next_free RM_NO_PAGE (set_num_records 0 (replicate PAGE_SIZE 0))));
               p = mark_wal_free_dirty (Page_new\<lparr>pg_id := (pg_id Page_new)\<lparr>page_no := n\<rparr>, data := d\<rparr>);
               h1 = h\<lparr>first_free_page_no := n, num_pages := num_pages h + 1\<rparr>
           in (Ret n, s1\<lparr>hp_pages := (hp_pages s1)(n := p), file_hdr := h1, num_pages_snapshot := num_pages h1\<rparr>)))"

text \<open>The loop unlinks full pages from the head of the free list.\<close>

fun create_page_loop :: "nat \<Rightarrow> int heap_op" where
  "create_page_loop 0 s = (if first_free_page_no (file_hdr s) = RM_NO_PAGE then create_new_page_handle s else (Wait, s))"
| "create_page_loop (Suc fuel) s =
     (let n = first_free_page_no (file_hdr s)
      in if n = RM_NO_PAGE then create_new_page_handle s
         else obind (fetch_page_handle n) (\<lambda>p s.
           if page_has_available_slot s n then (Ret n, s)
           else create_page_loop fuel (upd_hp n unpin_dirty (snd (unlink_free_page_if_needed n INVALID_LSN (upd_hp n mark_wal_free_dirty s))))) s)"

definition create_page_handle :: "int heap_op" where
  "create_page_handle s = create_page_loop (nat (num_pages (file_hdr s))) s"

subsection \<open>Records\<close>

definition is_record :: "rid \<Rightarrow> bool heap_op" where
  "is_record r = obind (fetch_page_handle (rid_page r)) (\<lambda>p. hret (slot_is_set (data p) (nat (rid_slot r))))"

definition get_record :: "rid \<Rightarrow> byte list heap_op" where
  "get_record r = obind (fetch_page_handle (rid_page r)) (\<lambda>p s.
     if \<not> slot_is_set (data p) (nat (rid_slot r)) then (Throw (RecordNotFoundError (rid_page r) (rid_slot r)), s)
     else (Ret (get_slot (file_hdr s) (data p) (nat (rid_slot r))), s))"

fun prepare_rid_loop :: "nat \<Rightarrow> int \<Rightarrow> rid heap_op" where
  "prepare_rid_loop 0 n s = (if n = RM_NO_PAGE then (Ret \<lparr>rid_page = num_pages (file_hdr s), rid_slot = 0\<rparr>, s) else (Wait, s))"
| "prepare_rid_loop (Suc fuel) n s =
     (if n = RM_NO_PAGE then (Ret \<lparr>rid_page = num_pages (file_hdr s), rid_slot = 0\<rparr>, s)
      else obind (fetch_page_handle n) (\<lambda>p s.
        let k = first_available_slot s n p
        in if k < slots_per_page s then (Ret \<lparr>rid_page = n, rid_slot = int k\<rparr>, s)
           else prepare_rid_loop fuel (next_free_page_no (data p)) s) s)"

definition prepare_insert_rid :: "rid heap_op" where
  "prepare_insert_rid s = prepare_rid_loop (nat (num_pages (file_hdr s))) (first_free_page_no (file_hdr s)) s"

text \<open>Writing the record and its bit, the part the insertions share.\<close>

definition publish_slot :: "int \<Rightarrow> nat \<Rightarrow> byte list \<Rightarrow> heap_file \<Rightarrow> heap_file" where
  "publish_slot n k buf s =
     upd_hp n (upd_data (\<lambda>pg. let pg1 = set_slot_bit k (put_slot (file_hdr s) k buf pg) in set_num_records (num_records pg1 + 1) pg1)) s"

definition unlink_if_full :: "int \<Rightarrow> lsn_t \<Rightarrow> unit heap_op" where
  "unlink_if_full n plsn s = (if \<not> page_has_available_slot s n then unlink_free_page_if_needed n plsn s else (Ret (), s))"

definition insert_record :: "byte list \<Rightarrow> txn_id_t option \<Rightarrow> string \<Rightarrow> rid heap_op" where
  "insert_record buf ctx table_name =
     obind create_page_handle (\<lambda>n s.
       let k = first_available_slot s n (hp_pages s n); r = \<lparr>rid_page = n, rid_slot = int k\<rparr>
       in if k \<ge> slots_per_page s then (Throw (InternalError ''assertion slot_no < num_records_per_page''), s)
          else obind (log_if ctx table_name (\<lambda>txn. InsertLogRecord txn buf r table_name)) (\<lambda>plsn s.
            finally_dirty n (obind (unlink_if_full n plsn) (\<lambda>_. hret r)
              (upd_hp n (MarkPageWalState plsn) (publish_slot n k buf s)))) s)"

fun extend_to :: "nat \<Rightarrow> int \<Rightarrow> lsn_t \<Rightarrow> unit heap_op" where
  "extend_to 0 pno plsn s = (if pno < num_pages (file_hdr s) then (Ret (), s) else (Wait, s))"
| "extend_to (Suc fuel) pno plsn s =
     (if pno < num_pages (file_hdr s) then (Ret (), s)
      else obind create_new_page_handle (\<lambda>n s. extend_to fuel pno plsn (upd_hp n unpin_dirty (upd_hp n (MarkPageWalState plsn) s))) s)"

definition insert_record_at :: "rid \<Rightarrow> byte list \<Rightarrow> lsn_t \<Rightarrow> unit heap_op" where
  "insert_record_at r buf plsn s =
     (let n = rid_page r; k = nat (rid_slot r)
      in obind (extend_to (nat (n + 1 - num_pages (file_hdr s))) n plsn) (\<lambda>_.
           obind (fetch_page_handle n) (\<lambda>p s.
             if slot_is_set (data p) k then (Throw (InternalError ''Slot already occupied''), s)
             else finally_dirty n (unlink_if_full n plsn
                    (upd_hp n (MarkPageWalState plsn)
                      ((publish_slot n k buf s)\<lparr>quarantined_slots := (quarantined_slots s)(n := removeAll k (quarantined_slots s n))\<rparr>))))) s)"

definition insert_record_logged :: "rid \<Rightarrow> byte list \<Rightarrow> txn_id_t \<Rightarrow> string \<Rightarrow> lsn_t heap_op" where
  "insert_record_logged r buf txn table_name =
     obind (append_heap_log (InsertLogRecord txn buf r table_name)) (\<lambda>plsn.
       obind (insert_record_at r buf plsn) (\<lambda>_. hret plsn))"

definition delete_record :: "rid \<Rightarrow> txn_id_t option \<Rightarrow> string \<Rightarrow> unit heap_op" where
  "delete_record r ctx table_name =
     (let n = rid_page r; k = nat (rid_slot r)
      in obind (fetch_page_handle n) (\<lambda>p s.
        if \<not> slot_is_set (data p) k then (Throw (RecordNotFoundError n (rid_slot r)), s)
        else let was_full = (num_records (data p) = int (slots_per_page s))
          in obind (log_if ctx table_name (\<lambda>txn. DeleteLogRecord txn (get_slot (file_hdr s) (data p) k) r table_name)) (\<lambda>plsn s.
               let s1 = upd_hp n (MarkPageWalState plsn)
                          (upd_hp n (upd_data (\<lambda>pg. let pg1 = reset_slot_bit k pg in set_num_records (num_records pg1 - 1) pg1)) s);
                   s2 = (if was_full then release_page_handle n s1 else s1)
               in (Ret (), upd_hp n unpin_dirty s2)) s))"

definition delete_record_quarantine :: "rid \<Rightarrow> lsn_t \<Rightarrow> unit heap_op" where
  "delete_record_quarantine r plsn s =
     (let n = rid_page r; k = nat (rid_slot r)
      in if n < 0 \<or> n \<ge> num_pages (file_hdr s) then (Ret (), s)
         else obind (fetch_page_handle n) (\<lambda>p s.
           if \<not> slot_is_set (data p) k then (Ret (), s)
           else (Ret (), upd_hp n unpin_dirty (upd_hp n (MarkPageWalState plsn)
                  ((upd_hp n (upd_data (\<lambda>pg. let pg1 = reset_slot_bit k pg in set_num_records (num_records pg1 - 1) pg1)) s)
                     \<lparr>quarantined_slots := (quarantined_slots s)(n := List.insert k (quarantined_slots s n))\<rparr>)))) s)"

definition log_change :: "rid \<Rightarrow> txn_id_t option \<Rightarrow> string \<Rightarrow> (txn_id_t \<Rightarrow> log_record) \<Rightarrow> lsn_t heap_op" where
  "log_change r ctx table_name mk =
     (case ctx of None \<Rightarrow> hret INVALID_LSN
      | Some txn \<Rightarrow>
          if table_name = [] then hret INVALID_LSN
          else obind (fetch_page_handle (rid_page r)) (\<lambda>p s.
            if \<not> slot_is_set (data p) (nat (rid_slot r)) then (Throw (RecordNotFoundError (rid_page r) (rid_slot r)), s)
            else append_heap_log (mk txn) s))"

definition log_delete_record :: "rid \<Rightarrow> byte list \<Rightarrow> txn_id_t option \<Rightarrow> string \<Rightarrow> lsn_t heap_op" where
  "log_delete_record r old ctx table_name = log_change r ctx table_name (\<lambda>txn. DeleteLogRecord txn old r table_name)"

definition log_update_record :: "rid \<Rightarrow> byte list \<Rightarrow> byte list \<Rightarrow> txn_id_t option \<Rightarrow> string \<Rightarrow> lsn_t heap_op" where
  "log_update_record r old new ctx table_name = log_change r ctx table_name (\<lambda>txn. UpdateLogRecord txn old new r table_name)"

definition update_record :: "rid \<Rightarrow> byte list \<Rightarrow> txn_id_t option \<Rightarrow> string \<Rightarrow> byte list option \<Rightarrow> lsn_t \<Rightarrow> unit heap_op" where
  "update_record r buf ctx table_name old plsn =
     (let n = rid_page r; k = nat (rid_slot r)
      in obind (fetch_page_handle n) (\<lambda>p s.
        if \<not> slot_is_set (data p) k then (Throw (RecordNotFoundError n (rid_slot r)), s)
        else let old_image = (case old of None \<Rightarrow> get_slot (file_hdr s) (data p) k | Some v \<Rightarrow> v)
          in obind (if plsn = INVALID_LSN then log_if ctx table_name (\<lambda>txn. UpdateLogRecord txn old_image buf r table_name) else hret plsn)
               (\<lambda>l s. (Ret (), upd_hp n unpin_dirty (upd_hp n (MarkPageWalState l) (upd_hp n (upd_data (put_slot (file_hdr s) k buf)) s)))) s))"

subsection \<open>Reserved insertions\<close>

definition kMaxActiveInsertPages :: nat where "kMaxActiveInsertPages = 16"

definition add_active_insert_page :: "int \<Rightarrow> heap_file \<Rightarrow> heap_file" where
  "add_active_insert_page n s =
     (if n \<in> set (active_insert_pages s) then s else s\<lparr>active_insert_pages := active_insert_pages s @ [n]\<rparr>)"

definition remove_active_insert_page :: "int \<Rightarrow> heap_file \<Rightarrow> heap_file" where
  "remove_active_insert_page n s =
     (let ps = removeAll n (active_insert_pages s)
      in s\<lparr>active_insert_pages := ps,
           active_insert_cursor := (if ps = [] then 0 else active_insert_cursor s mod length ps)\<rparr>)"

text \<open>The walk over the free list stops at a page it has visited.\<close>

fun collect_active :: "nat \<Rightarrow> nat \<Rightarrow> int \<Rightarrow> int list \<Rightarrow> unit heap_op" where
  "collect_active 0 desired n visited s =
     (if n = RM_NO_PAGE \<or> length (active_insert_pages s) \<ge> desired \<or> n \<in> set visited then (Ret (), s) else (Wait, s))"
| "collect_active (Suc fuel) desired n visited s =
     (if n = RM_NO_PAGE \<or> length (active_insert_pages s) \<ge> desired \<or> n \<in> set visited then (Ret (), s)
      else obind (fetch_page_handle n) (\<lambda>p s.
        collect_active fuel desired (next_free_page_no (data p)) (n # visited)
          (if page_has_available_slot s n then add_active_insert_page n s else s)) s)"

fun create_active :: "nat \<Rightarrow> nat \<Rightarrow> unit heap_op" where
  "create_active 0 desired s = (if length (active_insert_pages s) < desired then (Wait, s) else (Ret (), s))"
| "create_active (Suc fuel) desired s =
     (if length (active_insert_pages s) < desired
      then obind create_new_page_handle (\<lambda>n s. create_active fuel desired (upd_hp n unpin_dirty (add_active_insert_page n s))) s
      else (Ret (), s))"

definition ensure_active_insert_pages :: "nat \<Rightarrow> unit heap_op" where
  "ensure_active_insert_pages desired0 s =
     (let desired = max 1 (min desired0 kMaxActiveInsertPages)
      in obind (collect_active (Suc (nat (num_pages (file_hdr s)))) desired (first_free_page_no (file_hdr s)) [])
           (\<lambda>_. create_active desired desired) s)"

text \<open>One round over the active pages, from the cursor on.\<close>

fun try_active :: "nat list \<Rightarrow> rid option heap_op" where
  "try_active [] s = (Ret None, s)"
| "try_active (index # idxs) s =
     (let n = active_insert_pages s ! index
      in obind (fetch_page_handle n) (\<lambda>p s.
        let k = first_available_slot s n p
        in if k \<ge> slots_per_page s then try_active idxs s
           else (Ret (Some \<lparr>rid_page = n, rid_slot = int k\<rparr>),
                 s\<lparr>reserved_slots := (reserved_slots s)(n := List.insert k (reserved_slots s n)),
                   reserved_slot_count := Suc (reserved_slot_count s),
                   active_insert_cursor := (index + 1) mod length (active_insert_pages s)\<rparr>)) s)"

fun reserve_loop :: "nat \<Rightarrow> rid heap_op" where
  "reserve_loop 0 s = (Wait, s)"
| "reserve_loop (Suc fuel) s =
     (let count = length (active_insert_pages s)
      in obind (try_active (map (\<lambda>a. (active_insert_cursor s + a) mod count) [0..<count])) (\<lambda>res s.
        case res of
          Some r \<Rightarrow> (Ret r, s)
        | None \<Rightarrow> obind create_new_page_handle
            (\<lambda>n s. reserve_loop fuel (upd_hp n unpin_dirty (add_active_insert_page n s))) s) s)"

definition reserve_insert_slot :: "rid heap_op" where
  "reserve_insert_slot = obind (ensure_active_insert_pages kMaxActiveInsertPages) (\<lambda>_. reserve_loop 2)"

definition cancel_insert_reservation :: "rid \<Rightarrow> heap_file \<Rightarrow> heap_file" where
  "cancel_insert_reservation r s =
     (let n = rid_page r; k = nat (rid_slot r); rs = reserved_slots s n
      in add_active_insert_page n
           (s\<lparr>reserved_slots := (reserved_slots s)(n := removeAll k rs),
              reserved_slot_count := (if k \<in> set rs then reserved_slot_count s - 1 else reserved_slot_count s)\<rparr>))"

definition complete_insert_reservation :: "rid \<Rightarrow> bool \<Rightarrow> lsn_t \<Rightarrow> unit heap_op" where
  "complete_insert_reservation r page_became_full plsn s =
     (let n = rid_page r; k = nat (rid_slot r)
      in if k \<notin> set (reserved_slots s n) then (Throw (InternalError ''Heap insert reservation was lost before publication''), s)
         else let s1 = s\<lparr>reserved_slots := (reserved_slots s)(n := removeAll k (reserved_slots s n)),
                         reserved_slot_count := reserved_slot_count s - 1\<rparr>
           in if page_became_full
              then obind (fetch_page_handle n) (\<lambda>p s.
                     obind (\<lambda>s. finally_dirty n (unlink_free_page_if_needed n plsn (upd_hp n (MarkPageWalState plsn) s)))
                       (\<lambda>_ s. (Ret (), remove_active_insert_page n s)) s) s1
              else (Ret (), s1))"

text \<open>
  An insertion into a reserved slot publishes the record under the page latch, and completes the reservation
  under the heap latch: \<open>insert_reserved_publish\<close> is the part before. Its result says whether the page became full.
\<close>

definition insert_reserved_publish :: "rid \<Rightarrow> byte list \<Rightarrow> txn_id_t \<Rightarrow> string \<Rightarrow> (lsn_t \<times> bool) heap_op" where
  "insert_reserved_publish r buf txn table_name =
     obind (append_heap_log (InsertLogRecord txn buf r table_name)) (\<lambda>plsn.
       obind (fetch_page_handle (rid_page r)) (\<lambda>p s.
         let n = rid_page r; k = nat (rid_slot r)
         in if slot_is_set (data p) k then (Throw (InternalError ''Reserved heap slot already occupied''), s)
            else let s1 = upd_hp n (set_page_lsn plsn) (publish_slot n k buf s)
              in (Ret (plsn, num_records (data (hp_pages s1 n)) = int (slots_per_page s)), upd_hp n unpin_dirty s1)))"

definition insert_record_reserved :: "rid \<Rightarrow> byte list \<Rightarrow> txn_id_t \<Rightarrow> string \<Rightarrow> lsn_t heap_op" where
  "insert_record_reserved r buf txn table_name =
     obind (insert_reserved_publish r buf txn table_name) (\<lambda>res.
       obind (complete_insert_reservation r (snd res) (fst res)) (\<lambda>_. hret (fst res)))"

subsection \<open>Bulk loading\<close>

text \<open>
  The callback that fills records is the list of the records it produces and the error it raises after them, when it
  raises one; \<open>cur\<close> is the pinned page and its next slot. \<open>find_next_slot\<close> skips quarantined slots.
\<close>

definition find_next_slot :: "heap_file \<Rightarrow> int \<Rightarrow> nat \<Rightarrow> nat" where
  "find_next_slot s n k =
     (case find (\<lambda>j. \<not> slot_is_set (data (hp_pages s n)) j \<and> j \<notin> set (quarantined_slots s n)) [Suc k..<slots_per_page s] of
        Some j \<Rightarrow> j | None \<Rightarrow> slots_per_page s)"

definition release_bulk_page :: "int \<Rightarrow> heap_file \<Rightarrow> heap_file" where
  "release_bulk_page n s = upd_hp n unpin_dirty (upd_hp n mark_wal_free_dirty s)"

definition bulk_put :: "int \<Rightarrow> nat \<Rightarrow> byte list \<Rightarrow> (int \<times> nat) option heap_op" where
  "bulk_put n k buf s =
     (if k \<ge> slots_per_page s then (Throw (InternalError ''assertion next_slot < num_records_per_page''), release_bulk_page n s)
      else let s1 = publish_slot n k buf s; k1 = find_next_slot s1 n k
        in if k1 \<ge> slots_per_page s
           then (case unlink_free_page_if_needed n INVALID_LSN s1 of
                   (Ret _, s2) \<Rightarrow> (Ret None, release_bulk_page n s2)
                 | (Throw e, s2) \<Rightarrow> (Throw e, release_bulk_page n s2)
                 | (Wait, s2) \<Rightarrow> (Wait, s2))
           else (Ret (Some (n, k1)), s1))"

fun bulk_loop :: "db_error option \<Rightarrow> byte list list \<Rightarrow> (int \<times> nat) option \<Rightarrow> nat \<Rightarrow> nat heap_op" where
  "bulk_loop err [] cur inserted s =
     (case err of None \<Rightarrow> Ret inserted | Some e \<Rightarrow> Throw e, case cur of None \<Rightarrow> s | Some (n, k) \<Rightarrow> release_bulk_page n s)"
| "bulk_loop err (r # rs) cur inserted s =
     (case cur of
        None \<Rightarrow> obind create_page_handle (\<lambda>n s.
            obind (bulk_put n (first_available_slot s n (hp_pages s n)) r) (\<lambda>cur. bulk_loop err rs cur (Suc inserted)) s) s
      | Some (n, k) \<Rightarrow> obind (bulk_put n k r) (\<lambda>cur. bulk_loop err rs cur (Suc inserted)) s)"

definition bulk_insert_records :: "byte list list \<Rightarrow> db_error option \<Rightarrow> nat heap_op" where
  "bulk_insert_records rs err = bulk_loop err rs None 0"

subsection \<open>The scan\<close>

record rm_scan =
  scan_rid :: rid
  scan_num_pages :: int

definition scan_end :: rid where "scan_end = \<lparr>rid_page = RM_NO_PAGE, rid_slot = - 1\<rparr>"

function scan_from :: "int \<Rightarrow> int \<Rightarrow> rid \<Rightarrow> rid heap_op" where
  "scan_from snap n r s =
     (if n \<ge> snap then (Ret scan_end, s)
      else obind (fetch_page_handle n) (\<lambda>p s.
        let k = next_bit True (drop OFFSET_BITMAP (data p)) (slots_per_page s) (if n = rid_page r then rid_slot r else - 1)
        in if k < slots_per_page s then (Ret \<lparr>rid_page = n, rid_slot = int k\<rparr>, s) else scan_from snap (n + 1) r s) s)"
  by pat_completeness auto

termination
  by (relation "measure (\<lambda>(snap, n, r, s). nat (snap - n))") auto

declare scan_from.simps [simp del]

definition scan_next :: "rm_scan \<Rightarrow> rm_scan heap_op" where
  "scan_next sc = obind (scan_from (scan_num_pages sc) (rid_page (scan_rid sc)) (scan_rid sc)) (\<lambda>r. hret (sc\<lparr>scan_rid := r\<rparr>))"

definition RmScan_new :: "rm_scan heap_op" where
  "RmScan_new s = scan_next \<lparr>scan_rid = \<lparr>rid_page = RM_FIRST_RECORD_PAGE, rid_slot = - 1\<rparr>, scan_num_pages = num_pages_snapshot s\<rparr> s"

definition scan_is_end :: "rm_scan \<Rightarrow> bool" where
  "scan_is_end sc \<longleftrightarrow> rid_page (scan_rid sc) = RM_NO_PAGE"

end
