(* ===== verification/Rmdb_Heap_Inv.thy ===== *)
theory Rmdb_Heap_Inv
  imports Rmdb_Heap
begin

text \<open>
  The invariant of the heap file (record counts, free list) and what its helpers change: the
  chain of free pages, the bits and slots of a page, the log.
\<close>

subsection \<open>What clients see\<close>

definition contents :: "heap_file \<Rightarrow> rid \<Rightarrow> byte list option" where
  "contents s r =
     (let n = rid_page r; k = nat (rid_slot r)
      in if RM_FIRST_RECORD_PAGE \<le> n \<and> n < num_pages (file_hdr s) \<and> 0 \<le> rid_slot r \<and> k < slots_per_page s \<and> slot_is_set (data (hp_pages s n)) k
         then Some (get_slot (file_hdr s) (data (hp_pages s n)) k) else None)"

definition page_ok :: "rm_file_hdr \<Rightarrow> page \<Rightarrow> bool" where
  "page_ok h p \<longleftrightarrow> length (data p) = PAGE_SIZE \<and>
     num_records (data p) = int (card {k. k < num_records_per_page h \<and> slot_is_set (data p) k})"

text \<open>The free pages from page \<open>n\<close> on are exactly \<open>xs\<close>.\<close>

fun chain :: "(int \<Rightarrow> page) \<Rightarrow> int \<Rightarrow> int list \<Rightarrow> bool" where
  "chain P n [] \<longleftrightarrow> n = RM_NO_PAGE"
| "chain P n (x # xs) \<longleftrightarrow> n = x \<and> x \<noteq> RM_NO_PAGE \<and> chain P (next_free_page_no (data (P x))) xs"

definition free_ok :: "heap_file \<Rightarrow> int list \<Rightarrow> bool" where
  "free_ok s xs \<longleftrightarrow> chain (hp_pages s) (first_free_page_no (file_hdr s)) xs \<and> distinct xs \<and>
     set xs \<subseteq> {RM_FIRST_RECORD_PAGE..<num_pages (file_hdr s)} \<and>
     (\<forall>n \<in> set xs. num_records (data (hp_pages s n)) < int (slots_per_page s))"

text \<open>While a record is published, its page may be full and still be in the free list.\<close>

definition free_but :: "int \<Rightarrow> heap_file \<Rightarrow> int list \<Rightarrow> bool" where
  "free_but t s xs \<longleftrightarrow> chain (hp_pages s) (first_free_page_no (file_hdr s)) xs \<and> distinct xs \<and>
     set xs \<subseteq> {RM_FIRST_RECORD_PAGE..<num_pages (file_hdr s)} \<and>
     (\<forall>n \<in> set xs. n \<noteq> t \<longrightarrow> num_records (data (hp_pages s n)) < int (slots_per_page s))"

lemma free_ok_but: "free_ok s xs \<Longrightarrow> free_but t s xs"
  by (simp add: free_ok_def free_but_def)

text \<open>The last conjuncts: the buffer pool has a frame for each new page, and pages that do not exist have no reserved or quarantined slots.\<close>

definition heap_ok :: "heap_file \<Rightarrow> bool" where
  "heap_ok s \<longleftrightarrow> page_fits (file_hdr s) \<and> 0 < slots_per_page s \<and>
     num_pages_snapshot s = num_pages (file_hdr s) \<and> hp_next_page s = num_pages (file_hdr s) \<and>
     RM_FIRST_RECORD_PAGE \<le> num_pages (file_hdr s) \<and> num_pages (file_hdr s) < 2 ^ 31 \<and>
     (\<forall>n. RM_FIRST_RECORD_PAGE \<le> n \<and> n < num_pages (file_hdr s) \<longrightarrow> page_ok (file_hdr s) (hp_pages s n)) \<and>
     0 < hp_partitions s \<and> (\<forall>n \<ge> num_pages (file_hdr s). \<not> pool_full s n \<and> quarantined_slots s n = [] \<and> reserved_slots s n = [])"

definition heap_inv :: "heap_file \<Rightarrow> bool" where
  "heap_inv s \<longleftrightarrow> heap_ok s \<and> (\<exists>xs. free_ok s xs)"

lemma first_page [simp]: "RM_FIRST_RECORD_PAGE = 1"
  by (simp add: RM_FIRST_RECORD_PAGE_def)

lemma heap_okD:
  assumes "heap_ok s"
  shows "page_fits (file_hdr s)" "0 < slots_per_page s" "num_pages_snapshot s = num_pages (file_hdr s)"
    "hp_next_page s = num_pages (file_hdr s)" "1 \<le> num_pages (file_hdr s)" "num_pages (file_hdr s) < 2 ^ 31"
    "\<And>n. 1 \<le> n \<Longrightarrow> n < num_pages (file_hdr s) \<Longrightarrow> page_ok (file_hdr s) (hp_pages s n)"
    "0 < hp_partitions s" "\<And>n. num_pages (file_hdr s) \<le> n \<Longrightarrow> \<not> pool_full s n \<and> quarantined_slots s n = [] \<and> reserved_slots s n = []"
  using assms unfolding heap_ok_def first_page by blast+

lemma slots_per_page_bound: "page_fits h \<Longrightarrow> num_records_per_page h \<le> PAGE_SIZE"
proof -
  assume "page_fits h"
  then have "num_records_per_page h * record_size h \<le> PAGE_SIZE" "1 \<le> record_size h" by (simp_all add: page_fits_def slot_offset_def)
  moreover have "num_records_per_page h * 1 \<le> num_records_per_page h * record_size h" using calculation(2) by (intro mult_le_mono2)
  ultimately show ?thesis by linarith
qed

lemma page_ok_bounds:
  assumes "page_fits h" and "page_ok h p"
  shows "0 \<le> num_records (data p)" "num_records (data p) \<le> int (num_records_per_page h)" "num_records (data p) \<le> int PAGE_SIZE"
proof -
  have "card {k. k < num_records_per_page h \<and> slot_is_set (data p) k} \<le> card {..<num_records_per_page h}"
    by (rule card_mono) auto
  then show "0 \<le> num_records (data p)" "num_records (data p) \<le> int (num_records_per_page h)" "num_records (data p) \<le> int PAGE_SIZE"
    using assms(2) slots_per_page_bound [OF assms(1)] by (auto simp: page_ok_def)
qed

text \<open>A page of which only the links and the log state changed.\<close>

definition same_rec :: "rm_file_hdr \<Rightarrow> page \<Rightarrow> page \<Rightarrow> bool" where
  "same_rec h p p' \<longleftrightarrow> length (data p') = length (data p) \<and> num_records (data p') = num_records (data p) \<and>
     (\<forall>k < num_records_per_page h. slot_is_set (data p') k = slot_is_set (data p) k \<and> get_slot h (data p') k = get_slot h (data p) k)"

lemma same_rec_refl [simp]: "same_rec h p p"
  by (simp add: same_rec_def)

lemma same_rec_trans: "same_rec h p q \<Longrightarrow> same_rec h q r \<Longrightarrow> same_rec h p r"
  by (simp add: same_rec_def)

lemma same_data: "data p' = data p \<Longrightarrow> same_rec h p p'"
  by (simp add: same_rec_def)

lemma same_rec_page_ok: "same_rec h p p' \<Longrightarrow> page_ok h p \<Longrightarrow> page_ok h p'"
  unfolding same_rec_def page_ok_def by (simp cong: conj_cong)

lemma same_rec_next:
  assumes "page_fits h" and "length (data p) = PAGE_SIZE" and "0 < num_records_per_page h"
  shows "same_rec h p (upd_data (set_next_free n) p)"
  using assms page_len(1) [OF assms(1,2,3)] header_get_put(3) [OF assms(2)] slots_other(1) [OF assms(1,2,3)] bits_other(1) [OF assms(1,2,3)]
  by (simp add: same_rec_def upd_data_def)

lemma data_mark [simp]:
  "data (MarkPageWalState l p) = data p" "data (unpin_dirty p) = data p" "data (mark_wal_free_dirty p) = data p"
  "data (set_page_lsn l p) = data p" "data (upd_data g p) = g (data p)"
  by (simp_all add: MarkPageWalState_def unpin_dirty_def mark_wal_free_dirty_def set_page_lsn_def upd_data_def)

lemma upd_hp_sel [simp]:
  "hp_pages (upd_hp n g s) = (hp_pages s)(n := g (hp_pages s n))" "file_hdr (upd_hp n g s) = file_hdr s"
  "num_pages_snapshot (upd_hp n g s) = num_pages_snapshot s" "hp_next_page (upd_hp n g s) = hp_next_page s"
  "quarantined_slots (upd_hp n g s) = quarantined_slots s" "reserved_slots (upd_hp n g s) = reserved_slots s"
  "pool_full (upd_hp n g s) = pool_full s" "hp_partitions (upd_hp n g s) = hp_partitions s"
  "hp_wal (upd_hp n g s) = hp_wal s" "hp_disk (upd_hp n g s) = hp_disk s" "active_insert_pages (upd_hp n g s) = active_insert_pages s"
  "txn_prev_lsn (upd_hp n g s) = txn_prev_lsn s"
  by (simp_all add: upd_hp_def)

subsection \<open>The chain of free pages\<close>

lemma chain_cong: "(\<And>x. x \<in> set xs \<Longrightarrow> next_free_page_no (data (P' x)) = next_free_page_no (data (P x))) \<Longrightarrow> chain P' n xs = chain P n xs"
  by (induction xs arbitrary: n) auto

lemma chain_upd_other: "n \<notin> set xs \<Longrightarrow> chain (P(n := p)) m xs = chain P m xs"
  by (rule chain_cong) auto

lemma chain_unique: "chain P n xs \<Longrightarrow> chain P n ys \<Longrightarrow> xs = ys"
proof (induction xs arbitrary: n ys)
  case Nil
  then show ?case by (cases ys) auto
next
  case (Cons x xs)
  then obtain zs where "ys = x # zs" "chain P (next_free_page_no (data (P x))) zs" by (cases ys) auto
  then show ?case using Cons by auto
qed

lemma free_length: "free_but t s xs \<Longrightarrow> length xs < nat (num_pages (file_hdr s)) \<or> num_pages (file_hdr s) \<le> 1 \<and> xs = []"
proof -
  assume f: "free_but t s xs"
  have "length xs = card (set xs)" using f distinct_card [of xs] by (simp add: free_but_def)
  also have "\<dots> \<le> card {1..<num_pages (file_hdr s)}" using f by (intro card_mono) (simp_all add: free_but_def)
  finally show ?thesis by (cases "num_pages (file_hdr s) \<le> 1") auto
qed

subsection \<open>Steps that change only links\<close>

definition links_only :: "heap_file \<Rightarrow> heap_file \<Rightarrow> bool" where
  "links_only s s' \<longleftrightarrow> s'\<lparr>hp_pages := hp_pages s, file_hdr := file_hdr s\<rparr> = s \<and>
     file_hdr s' = (file_hdr s)\<lparr>first_free_page_no := first_free_page_no (file_hdr s')\<rparr> \<and>
     (\<forall>n. 1 \<le> n \<and> n < num_pages (file_hdr s) \<longrightarrow> same_rec (file_hdr s) (hp_pages s n) (hp_pages s' n))"

lemma links_only_fields:
  assumes "links_only s s'"
  shows "num_pages (file_hdr s') = num_pages (file_hdr s)" "record_size (file_hdr s') = record_size (file_hdr s)"
    "slots_per_page s' = slots_per_page s" "bitmap_size (file_hdr s') = bitmap_size (file_hdr s)"
    "num_pages_snapshot s' = num_pages_snapshot s" "hp_next_page s' = hp_next_page s"
    "quarantined_slots s' = quarantined_slots s" "reserved_slots s' = reserved_slots s" "pool_full s' = pool_full s"
    "hp_partitions s' = hp_partitions s" "hp_wal s' = hp_wal s" "hp_disk s' = hp_disk s" "active_insert_pages s' = active_insert_pages s"
    "txn_prev_lsn s' = txn_prev_lsn s" "has_mvcc_state s' = has_mvcc_state s"
proof -
  have e: "s'\<lparr>hp_pages := hp_pages s, file_hdr := file_hdr s\<rparr> = s"
    and h: "file_hdr s' = (file_hdr s)\<lparr>first_free_page_no := first_free_page_no (file_hdr s')\<rparr>"
    using assms by (simp_all add: links_only_def)
  show "num_pages (file_hdr s') = num_pages (file_hdr s)" "record_size (file_hdr s') = record_size (file_hdr s)"
    "slots_per_page s' = slots_per_page s" "bitmap_size (file_hdr s') = bitmap_size (file_hdr s)"
    by (subst h, simp)+
  show "num_pages_snapshot s' = num_pages_snapshot s" using arg_cong [OF e, of num_pages_snapshot] by simp
  show "hp_next_page s' = hp_next_page s" using arg_cong [OF e, of hp_next_page] by simp
  show "quarantined_slots s' = quarantined_slots s" using arg_cong [OF e, of quarantined_slots] by simp
  show "reserved_slots s' = reserved_slots s" using arg_cong [OF e, of reserved_slots] by simp
  show "pool_full s' = pool_full s" using arg_cong [OF e, of pool_full] by simp
  show "hp_partitions s' = hp_partitions s" using arg_cong [OF e, of hp_partitions] by simp
  show "hp_wal s' = hp_wal s" using arg_cong [OF e, of hp_wal] by simp
  show "hp_disk s' = hp_disk s" using arg_cong [OF e, of hp_disk] by simp
  show "active_insert_pages s' = active_insert_pages s" using arg_cong [OF e, of active_insert_pages] by simp
  show "txn_prev_lsn s' = txn_prev_lsn s" using arg_cong [OF e, of txn_prev_lsn] by simp
  show "has_mvcc_state s' = has_mvcc_state s" using arg_cong [OF e, of has_mvcc_state] by simp
qed

lemma same_sizes:
  assumes "record_size h' = record_size h" "num_records_per_page h' = num_records_per_page h" "bitmap_size h' = bitmap_size h"
  shows "page_fits h' = page_fits h" "get_slot h' = get_slot h" "put_slot h' = put_slot h" "page_ok h' = page_ok h" "same_rec h' = same_rec h"
    "init_bitmap h' = init_bitmap h"
proof -
  have s: "slot_offset h' = slot_offset h" by (rule ext) (simp add: slot_offset_def assms)
  show "page_fits h' = page_fits h" by (simp add: page_fits_def s assms)
  show g: "get_slot h' = get_slot h" by (intro ext) (simp add: get_slot_def s assms)
  show "put_slot h' = put_slot h" by (intro ext) (simp add: put_slot_def s assms)
  show "page_ok h' = page_ok h" by (intro ext) (simp add: page_ok_def assms)
  show "same_rec h' = same_rec h" by (intro ext) (simp add: same_rec_def g assms)
  show "init_bitmap h' = init_bitmap h" by (intro ext) (simp add: init_bitmap_def assms)
qed

lemma links_only_refl [simp]: "links_only s s"
  by (simp add: links_only_def)

lemma links_only_ok:
  assumes l: "links_only s s'" and o: "heap_ok s"
  shows "heap_ok s'" "contents s' = contents s"
proof -
  note f = links_only_fields [OF l]
  note z = same_sizes [OF f(2,3,4)]
  have r: "1 \<le> n \<Longrightarrow> n < num_pages (file_hdr s) \<Longrightarrow> same_rec (file_hdr s) (hp_pages s n) (hp_pages s' n)" for n
    using l by (simp add: links_only_def)
  show "heap_ok s'" using o r same_rec_page_ok unfolding heap_ok_def first_page z f by blast
  show "contents s' = contents s"
  proof
    fix q
    show "contents s' q = contents s q"
      using r [of "rid_page q"] unfolding contents_def Let_def first_page z f by (auto simp: same_rec_def)
  qed
qed

lemma links_only_trans:
  assumes a: "links_only s s1" and b: "links_only s1 s2"
  shows "links_only s s2"
proof -
  note f = links_only_fields [OF a]
  have "s2\<lparr>hp_pages := hp_pages s, file_hdr := file_hdr s\<rparr>
      = s2\<lparr>hp_pages := hp_pages s1, file_hdr := file_hdr s1\<rparr>\<lparr>hp_pages := hp_pages s, file_hdr := file_hdr s\<rparr>" by simp
  also have "\<dots> = s1\<lparr>hp_pages := hp_pages s, file_hdr := file_hdr s\<rparr>" using b unfolding links_only_def by presburger
  also have "\<dots> = s" using a unfolding links_only_def by blast
  finally have e: "s2\<lparr>hp_pages := hp_pages s, file_hdr := file_hdr s\<rparr> = s" .
  have h1: "file_hdr s1 = (file_hdr s)\<lparr>first_free_page_no := first_free_page_no (file_hdr s1)\<rparr>"
    "file_hdr s2 = (file_hdr s1)\<lparr>first_free_page_no := first_free_page_no (file_hdr s2)\<rparr>"
    using a b unfolding links_only_def by blast+
  have h2: "file_hdr s2 = (file_hdr s)\<lparr>first_free_page_no := first_free_page_no (file_hdr s2)\<rparr>"
    by (subst h1(2), subst h1(1)) simp
  have "same_rec (file_hdr s1) = same_rec (file_hdr s)" using same_sizes(5) [OF f(2,3,4)] .
  then show ?thesis using a b e h2 f(1) same_rec_trans unfolding links_only_def by metis
qed

text \<open>Changing one page without its records.\<close>

lemma links_only_upd: "1 \<le> n \<and> n < num_pages (file_hdr s) \<longrightarrow> same_rec (file_hdr s) (hp_pages s n) (g (hp_pages s n)) \<Longrightarrow> links_only s (upd_hp n g s)"
  unfolding links_only_def by (simp add: upd_hp_def)

lemma in_i_page: "- 1 \<le> n \<Longrightarrow> n < 2 ^ 31 \<Longrightarrow> in_i 4 n"
  by (simp add: in_i_def)

lemma links_only_next:
  assumes "heap_ok s" "1 \<le> n" "n < num_pages (file_hdr s)"
  shows "links_only s (upd_hp n (upd_data (set_next_free m)) s)"
  by (rule links_only_upd) (use same_rec_next heap_okD [OF assms(1)] assms in \<open>simp add: page_ok_def\<close>)

lemma fetch_page_handle_ok:
  assumes "heap_ok s" "1 \<le> n" "n < num_pages (file_hdr s)"
  shows "fetch_page_handle n s = (if pool_full s n then (Throw (InternalError ''Buffer pool exhausted, cannot fetch page''), s)
     else (Ret (hp_pages s n), s))"
  using heap_okD(3) [OF assms(1)] assms(2,3) by (simp add: fetch_page_handle_def)

lemma chain_hd: "chain P n zs \<Longrightarrow> set zs \<subseteq> {1..<m} \<Longrightarrow> n = - 1 \<or> 1 \<le> n \<and> n < m"
  by (cases zs) auto

lemma unlink_walk_ok:
  assumes "heap_ok s" "chain (hp_pages s) n zs" "distinct zs" "set zs \<subseteq> {1..<num_pages (file_hdr s)}"
    "1 \<le> target" "target < num_pages (file_hdr s)" "n \<noteq> target" "length zs \<le> fuel" "unlink_walk fuel target l n s = (r, s')"
  shows "r \<noteq> Wait \<and> links_only s s' \<and> file_hdr s' = file_hdr s \<and> (r = Ret () \<longrightarrow> chain (hp_pages s') n (removeAll target zs))
    \<and> ((\<exists>e. r = Throw e) \<longrightarrow> s' = s) \<and> ((\<forall>m. \<not> pool_full s m) \<longrightarrow> r = Ret ())
    \<and> (\<forall>m. m \<notin> set zs \<and> m \<noteq> target \<longrightarrow> hp_pages s' m = hp_pages s m)"
  using assms
proof (induction zs arbitrary: n fuel)
  case Nil
  then show ?case by (cases fuel) auto
next
  case (Cons x zs)
  have x: "n = x" "x \<noteq> - 1" "1 \<le> x" "x < num_pages (file_hdr s)" "x \<notin> set zs" "distinct zs" and ch: "chain (hp_pages s) (next_free_page_no (data (hp_pages s x))) zs"
    using Cons.prems(2,3,4) by auto
  obtain fuel' where fuel: "fuel = Suc fuel'" "length zs \<le> fuel'" using Cons.prems(8) by (cases fuel) auto
  let ?m = "next_free_page_no (data (hp_pages s x))"
  note fp = fetch_page_handle_ok [OF Cons.prems(1) x(3,4)]
  show ?case
  proof (cases "pool_full s x")
    case True
    then have "unlink_walk fuel target l n s = (Throw (InternalError ''Buffer pool exhausted, cannot fetch page''), s)"
      using x fuel fp by simp
    then show ?thesis using Cons.prems(9) True by auto
  next
    case np: False
    show ?thesis
    proof (cases "?m = target")
      case False
      then have w: "unlink_walk fuel' target l ?m s = (r, s')" using Cons.prems(9) x fuel fp np by (simp add: Let_def)
      have "set zs \<subseteq> {1..<num_pages (file_hdr s)}" using Cons.prems(4) by simp
      note ih = Cons.IH [OF Cons.prems(1) ch x(6) this Cons.prems(5,6) False fuel(2) w]
      have "x \<noteq> target" using x Cons.prems(7) by simp
      then have "hp_pages s' x = hp_pages s x" using ih x(5) by blast
      then show ?thesis using ih x \<open>x \<noteq> target\<close> by simp
    next
      case True
      let ?t = "next_free_page_no (data (hp_pages s target))"
      define s1 where "s1 = upd_hp x (upd_data (set_next_free ?t)) s"
      define s2 where "s2 = upd_hp target (upd_data (set_next_free RM_NO_PAGE)) s1"
      have s': "r = Ret ()" "s' = upd_hp x unpin_dirty (upd_hp x (MarkPageWalState l) s2)"
        using Cons.prems(9) x fuel fp np True by (simp_all add: Let_def s1_def s2_def)
      have xt: "x \<noteq> target" using x Cons.prems(7) by simp
      obtain ws where ws: "zs = target # ws" "chain (hp_pages s) ?t ws" using ch True Cons.prems(5) by (cases zs) auto
      have l1: "links_only s s1" unfolding s1_def by (rule links_only_next [OF Cons.prems(1) x(3,4)])
      have n1: "num_pages (file_hdr s1) = num_pages (file_hdr s)" by (simp add: s1_def)
      have l2: "links_only s1 s2" unfolding s2_def
        by (rule links_only_next [OF links_only_ok(1) [OF l1 Cons.prems(1)]]) (use Cons.prems(5,6) n1 in simp_all)
      have "links_only s2 (upd_hp x (MarkPageWalState l) s2)" "links_only (upd_hp x (MarkPageWalState l) s2) s'"
        unfolding s' by (intro links_only_upd impI same_data; simp)+
      then have lo: "links_only s s'" using l1 l2 links_only_trans by blast
      have dt: "data (hp_pages s' x) = set_next_free ?t (data (hp_pages s x))" "\<And>m. m \<noteq> x \<Longrightarrow> m \<noteq> target \<Longrightarrow> hp_pages s' m = hp_pages s m"
        using xt by (simp_all add: s' s2_def s1_def)
      have "set ws \<subseteq> {1..<num_pages (file_hdr s)}" using Cons.prems(4) ws(1) by simp
      from chain_hd [OF ws(2) this] have "in_i 4 ?t" using heap_okD(6) [OF Cons.prems(1)] by (intro in_i_page) auto
      moreover have "length (data (hp_pages s x)) = PAGE_SIZE" using heap_okD(7) [OF Cons.prems(1) x(3,4)] by (simp add: page_ok_def)
      ultimately have nx: "next_free_page_no (data (hp_pages s' x)) = ?t" unfolding dt(1) by (intro header_get_put(1))
      have wn: "x \<notin> set ws" "target \<notin> set ws" using Cons.prems(3) ws(1) by auto
      then have "chain (hp_pages s') ?t ws" using ws(2) chain_cong [of ws "hp_pages s'" "hp_pages s"] dt(2) by metis
      then have "chain (hp_pages s') n (removeAll target (x # zs))" using x xt nx ws(1) wn by simp
      moreover have "file_hdr s' = file_hdr s" by (simp add: s' s2_def s1_def)
      ultimately show ?thesis using s'(1) lo dt(2) by auto
    qed
  qed
qed

lemma unlink_ok:
  assumes o: "heap_ok s" and xs: "free_but target s xs" and t: "1 \<le> target" "target < num_pages (file_hdr s)"
    and u: "unlink_free_page_if_needed target l s = (r, s')"
  shows "r \<noteq> Wait \<and> links_only s s' \<and> (r = Ret () \<longrightarrow> free_ok s' (removeAll target xs))
    \<and> ((\<exists>e. r = Throw e) \<longrightarrow> s' = s) \<and> ((\<forall>m. \<not> pool_full s m) \<longrightarrow> r = Ret ())"
proof -
  have ch: "chain (hp_pages s) (first_free_page_no (file_hdr s)) xs" "distinct xs" "set xs \<subseteq> {1..<num_pages (file_hdr s)}"
    "\<forall>n \<in> set xs. n \<noteq> target \<longrightarrow> num_records (data (hp_pages s n)) < int (slots_per_page s)" using xs by (simp_all add: free_but_def)
  have main: "r \<noteq> Wait \<and> links_only s s' \<and> (r = Ret () \<longrightarrow> chain (hp_pages s') (first_free_page_no (file_hdr s')) (removeAll target xs))
    \<and> ((\<exists>e. r = Throw e) \<longrightarrow> s' = s) \<and> ((\<forall>m. \<not> pool_full s m) \<longrightarrow> r = Ret ())"
  proof (cases "first_free_page_no (file_hdr s) = target")
    case True
    then obtain ys where ys: "xs = target # ys" "chain (hp_pages s) (next_free_page_no (data (hp_pages s target))) ys"
      using ch(1) t by (cases xs) auto
    have s': "r = Ret ()" "s' = upd_hp target (upd_data (set_next_free RM_NO_PAGE))
             (s\<lparr>file_hdr := (file_hdr s)\<lparr>first_free_page_no := next_free_page_no (data (hp_pages s target))\<rparr>\<rparr>)"
      using u True by (simp_all add: unlink_free_page_if_needed_def)
    have tn: "target \<notin> set ys" using ch(2) ys(1) by simp
    have "links_only s (upd_hp target (upd_data (set_next_free RM_NO_PAGE)) s)" by (rule links_only_next [OF o t])
    moreover have "links_only (upd_hp target (upd_data (set_next_free RM_NO_PAGE)) s) s'" by (simp add: s' links_only_def upd_hp_def)
    ultimately have lo: "links_only s s'" by (rule links_only_trans)
    have eq: "m \<noteq> target \<Longrightarrow> hp_pages s' m = hp_pages s m" for m by (simp add: s')
    have "x \<in> set ys \<Longrightarrow> next_free_page_no (data (hp_pages s' x)) = next_free_page_no (data (hp_pages s x))" for x
      using eq [of x] tn by (cases "x = target") simp_all
    then have "chain (hp_pages s') (next_free_page_no (data (hp_pages s target))) ys"
      using ys(2) chain_cong [of ys "hp_pages s'" "hp_pages s"] by simp
    then show ?thesis using s' lo ys(1) tn by simp
  next
    case False
    have "length xs \<le> nat (num_pages (file_hdr s))" using free_length [OF xs] by auto
    moreover have "unlink_walk (nat (num_pages (file_hdr s))) target l (first_free_page_no (file_hdr s)) s = (r, s')"
      using u False by (simp add: unlink_free_page_if_needed_def)
    ultimately show ?thesis using unlink_walk_ok [OF o ch(1,2,3) t False] by metis
  qed
  have "r = Ret () \<Longrightarrow> n \<in> set (removeAll target xs) \<Longrightarrow> num_records (data (hp_pages s' n)) < int (slots_per_page s')" for n
    using main ch(3,4) links_only_fields(3) [of s s'] by (auto simp: links_only_def same_rec_def)
  then show ?thesis using main ch(2,3) links_only_fields(1) [of s s'] by (auto simp: free_ok_def distinct_removeAll)
qed

subsection \<open>Publishing and removing a record in a page\<close>

lemma publish_data:
  assumes f: "page_fits h" and p: "page_ok h p" and k: "k < num_records_per_page h" and ns: "\<not> slot_is_set (data p) k"
    and b: "length buf = record_size h"
    and d: "d = (let pg1 = set_slot_bit k (put_slot h k buf (data p)) in set_num_records (num_records pg1 + 1) pg1)"
  shows "page_ok h (p\<lparr>data := d\<rparr>)" "next_free_page_no d = next_free_page_no (data p)" "num_records d = num_records (data p) + 1"
    "j < num_records_per_page h \<Longrightarrow> slot_is_set d j \<longleftrightarrow> j = k \<or> slot_is_set (data p) j"
    "j < num_records_per_page h \<Longrightarrow> get_slot h d j = (if j = k then buf else get_slot h (data p) j)"
proof -
  let ?a = "put_slot h k buf (data p)" and ?b = "set_slot_bit k (put_slot h k buf (data p))"
  have l: "length (data p) = PAGE_SIZE" using p by (simp add: page_ok_def)
  have la: "length ?a = PAGE_SIZE" using page_len(5) [OF f l k b] .
  have lb: "length ?b = PAGE_SIZE" using page_len(3) [OF f la k] .
  have nb: "num_records ?b = num_records (data p)" using header_other(4) [OF f la k] header_other(2) [OF f l k b] by simp
  have d': "d = set_num_records (num_records (data p) + 1) ?b" by (simp add: d Let_def nb)
  have rng: "in_i 4 (num_records (data p) + 1)" using page_ok_bounds [OF f p] by (intro in_i_page) (simp_all add: PAGE_SIZE_def)
  show nd: "num_records d = num_records (data p) + 1" unfolding d' using header_get_put(2) [OF lb rng] .
  show "next_free_page_no d = next_free_page_no (data p)"
    unfolding d' using header_get_put(4) [OF lb] header_other(3) [OF f la k] header_other(1) [OF f l k b] by simp
  have bits: "slot_is_set d j \<longleftrightarrow> j = k \<or> slot_is_set (data p) j" if "j < num_records_per_page h" for j
    unfolding d' using bits_other(2) [OF f lb k that] bits_other(4) [OF f la k that] bits_other(3) [OF f l k that b] by simp
  then show "j < num_records_per_page h \<Longrightarrow> slot_is_set d j \<longleftrightarrow> j = k \<or> slot_is_set (data p) j" .
  show "j < num_records_per_page h \<Longrightarrow> get_slot h d j = (if j = k then buf else get_slot h (data p) j)"
    unfolding d' using slots_other(2) [OF f lb k] slots_other(3) [OF f la k] slots_other(5) [OF f l k _ b] by simp
  have "{j. j < num_records_per_page h \<and> slot_is_set d j} = insert k {j. j < num_records_per_page h \<and> slot_is_set (data p) j}"
    using bits k by auto
  then have "card {j. j < num_records_per_page h \<and> slot_is_set d j} = Suc (card {j. j < num_records_per_page h \<and> slot_is_set (data p) j})"
    using ns by simp
  then show "page_ok h (p\<lparr>data := d\<rparr>)" using nd p page_len(2) [OF f lb k] by (simp add: page_ok_def d')
qed

lemma remove_data:
  assumes f: "page_fits h" and p: "page_ok h p" and k: "k < num_records_per_page h" and ns: "slot_is_set (data p) k"
    and d: "d = (let pg1 = reset_slot_bit k (data p) in set_num_records (num_records pg1 - 1) pg1)"
  shows "page_ok h (p\<lparr>data := d\<rparr>)" "next_free_page_no d = next_free_page_no (data p)" "num_records d = num_records (data p) - 1"
    "j < num_records_per_page h \<Longrightarrow> slot_is_set d j \<longleftrightarrow> j \<noteq> k \<and> slot_is_set (data p) j"
    "j < num_records_per_page h \<Longrightarrow> get_slot h d j = get_slot h (data p) j"
proof -
  let ?b = "reset_slot_bit k (data p)"
  have l: "length (data p) = PAGE_SIZE" using p by (simp add: page_ok_def)
  have lb: "length ?b = PAGE_SIZE" using page_len(4) [OF f l k] .
  have d': "d = set_num_records (num_records (data p) - 1) ?b" by (simp add: d Let_def header_other(6) [OF f l k])
  have rng: "in_i 4 (num_records (data p) - 1)" using page_ok_bounds [OF f p] by (intro in_i_page) (simp_all add: PAGE_SIZE_def)
  show nd: "num_records d = num_records (data p) - 1" unfolding d' using header_get_put(2) [OF lb rng] .
  show "next_free_page_no d = next_free_page_no (data p)" unfolding d' using header_get_put(4) [OF lb] header_other(5) [OF f l k] by simp
  have bits: "slot_is_set d j \<longleftrightarrow> j \<noteq> k \<and> slot_is_set (data p) j" if "j < num_records_per_page h" for j
    unfolding d' using bits_other(2) [OF f lb k that] bits_other(5) [OF f l k that] by simp
  then show "j < num_records_per_page h \<Longrightarrow> slot_is_set d j \<longleftrightarrow> j \<noteq> k \<and> slot_is_set (data p) j" .
  show "j < num_records_per_page h \<Longrightarrow> get_slot h d j = get_slot h (data p) j"
    unfolding d' using slots_other(2) [OF f lb k] slots_other(4) [OF f l k] by simp
  let ?S = "{j. j < num_records_per_page h \<and> slot_is_set (data p) j}"
  have "{j. j < num_records_per_page h \<and> slot_is_set d j} = ?S - {k}" using bits by auto
  moreover have "finite ?S" "k \<in> ?S" using k ns by auto
  then have "int (card (?S - {k})) = int (card ?S) - 1" using card_gt_0_iff [of ?S] by (auto simp: card_Diff_singleton)
  ultimately show "page_ok h (p\<lparr>data := d\<rparr>)" using nd p page_len(2) [OF f lb k] by (simp add: page_ok_def d')
qed

text \<open>A step that replaces the data of one page.\<close>

definition data_step :: "heap_file \<Rightarrow> int \<Rightarrow> byte list \<Rightarrow> heap_file \<Rightarrow> bool" where
  "data_step s n d s' \<longleftrightarrow> s'\<lparr>hp_pages := hp_pages s, quarantined_slots := quarantined_slots s\<rparr> = s \<and>
     data (hp_pages s' n) = d \<and> (\<forall>m. m \<noteq> n \<longrightarrow> hp_pages s' m = hp_pages s m \<and> quarantined_slots s' m = quarantined_slots s m)"

lemma data_step_fields:
  assumes "data_step s n d s'"
  shows "file_hdr s' = file_hdr s" "num_pages_snapshot s' = num_pages_snapshot s" "hp_next_page s' = hp_next_page s"
    "reserved_slots s' = reserved_slots s" "pool_full s' = pool_full s" "hp_partitions s' = hp_partitions s"
    "hp_wal s' = hp_wal s" "hp_disk s' = hp_disk s"
proof -
  have e: "s'\<lparr>hp_pages := hp_pages s, quarantined_slots := quarantined_slots s\<rparr> = s" using assms by (simp add: data_step_def)
  show "file_hdr s' = file_hdr s" using arg_cong [OF e, of file_hdr] by simp
  show "num_pages_snapshot s' = num_pages_snapshot s" using arg_cong [OF e, of num_pages_snapshot] by simp
  show "hp_next_page s' = hp_next_page s" using arg_cong [OF e, of hp_next_page] by simp
  show "reserved_slots s' = reserved_slots s" using arg_cong [OF e, of reserved_slots] by simp
  show "pool_full s' = pool_full s" using arg_cong [OF e, of pool_full] by simp
  show "hp_partitions s' = hp_partitions s" using arg_cong [OF e, of hp_partitions] by simp
  show "hp_wal s' = hp_wal s" using arg_cong [OF e, of hp_wal] by simp
  show "hp_disk s' = hp_disk s" using arg_cong [OF e, of hp_disk] by simp
qed

lemma data_step_ok:
  assumes st: "data_step s n d s'" and o: "heap_ok s" and n: "1 \<le> n" "n < num_pages (file_hdr s)"
    and d: "page_ok (file_hdr s) ((hp_pages s n)\<lparr>data := d\<rparr>)" "next_free_page_no d = next_free_page_no (data (hp_pages s n))"
  shows "heap_ok s'" "chain (hp_pages s') m xs = chain (hp_pages s) m xs"
proof -
  note f = data_step_fields [OF st]
  have p: "data (hp_pages s' n) = d" "\<And>m. m \<noteq> n \<Longrightarrow> hp_pages s' m = hp_pages s m" using st by (simp_all add: data_step_def)
  have "page_ok (file_hdr s) (hp_pages s' m)" if "1 \<le> m" "m < num_pages (file_hdr s)" for m
    using heap_okD(7) [OF o that] p d(1) by (cases "m = n") (simp_all add: page_ok_def)
  moreover have "m \<ge> num_pages (file_hdr s) \<Longrightarrow> quarantined_slots s' m = quarantined_slots s m" for m
    using st n unfolding data_step_def by (metis not_le)
  ultimately show "heap_ok s'" using o unfolding heap_ok_def f first_page by metis
  show "chain (hp_pages s') m xs = chain (hp_pages s) m xs"
    by (rule chain_cong) (use p d(2) in metis)
qed

lemma data_step_contents:
  assumes st: "data_step s n d s'" and r: "rid_page r = n" "0 \<le> rid_slot r" "nat (rid_slot r) < slots_per_page s"
    and n: "1 \<le> n" "n < num_pages (file_hdr s)"
    and oth: "\<And>j. j < slots_per_page s \<Longrightarrow> j \<noteq> nat (rid_slot r) \<Longrightarrow> slot_is_set d j = slot_is_set (data (hp_pages s n)) j
       \<and> get_slot (file_hdr s) d j = get_slot (file_hdr s) (data (hp_pages s n)) j"
  shows "contents s' = (contents s)(r := (if slot_is_set d (nat (rid_slot r)) then Some (get_slot (file_hdr s) d (nat (rid_slot r))) else None))"
proof
  fix q
  have p: "data (hp_pages s' n) = d" "\<And>m. m \<noteq> n \<Longrightarrow> hp_pages s' m = hp_pages s m" using st by (simp_all add: data_step_def)
  have ne: "q \<noteq> r \<Longrightarrow> rid_page q = n \<Longrightarrow> 0 \<le> rid_slot q \<Longrightarrow> nat (rid_slot q) \<noteq> nat (rid_slot r)"
    using r(1,2) by (metis (full_types) eq_nat_nat_iff rid.equality unit.exhaust)
  show "contents s' q = ((contents s)(r := (if slot_is_set d (nat (rid_slot r)) then Some (get_slot (file_hdr s) d (nat (rid_slot r))) else None))) q"
    using r n p ne oth [of "nat (rid_slot q)"] unfolding contents_def Let_def data_step_fields(1) [OF st] first_page
    by (cases "q = r"; cases "rid_page q = n") auto
qed

subsection \<open>New pages\<close>

lemma first_available_props:
  "first_available_slot s n p < slots_per_page s \<Longrightarrow>
     \<not> slot_is_set (data p) (first_available_slot s n p) \<and> first_available_slot s n p \<notin> set (quarantined_slots s n)
     \<and> first_available_slot s n p \<notin> set (reserved_slots s n)"
  "first_available_slot s n p \<ge> slots_per_page s \<Longrightarrow> k < slots_per_page s \<Longrightarrow>
     slot_is_set (data p) k \<or> k \<in> set (quarantined_slots s n) \<or> k \<in> set (reserved_slots s n)"
proof -
  let ?P = "\<lambda>k. \<not> slot_is_set (data p) k \<and> k \<notin> set (quarantined_slots s n) \<and> k \<notin> set (reserved_slots s n)"
  show "first_available_slot s n p < slots_per_page s \<Longrightarrow> ?P (first_available_slot s n p)"
  proof (cases "find ?P [0..<slots_per_page s]")
    case (Some j)
    then have "?P j" by (auto simp: find_Some_iff)
    then show ?thesis using Some by (simp add: first_available_slot_def)
  qed (simp add: first_available_slot_def)
  assume h: "first_available_slot s n p \<ge> slots_per_page s" "k < slots_per_page s"
  have "find ?P [0..<slots_per_page s] = None"
  proof (cases "find ?P [0..<slots_per_page s]")
    case (Some j)
    then have "j < slots_per_page s" by (auto simp: find_Some_iff)
    then show ?thesis using h(1) Some by (simp add: first_available_slot_def)
  qed simp
  then show "slot_is_set (data p) k \<or> k \<in> set (quarantined_slots s n) \<or> k \<in> set (reserved_slots s n)"
    using h(2) by (auto simp: find_None_iff)
qed

text \<open>Steps after which clients see the same records: the pages may be linked differently, and there may be more of them.\<close>

definition kept :: "heap_file \<Rightarrow> heap_file \<Rightarrow> bool" where
  "kept s s' \<longleftrightarrow> heap_inv s' \<and> contents s' = contents s \<and> record_size (file_hdr s') = record_size (file_hdr s)
     \<and> slots_per_page s' = slots_per_page s \<and> bitmap_size (file_hdr s') = bitmap_size (file_hdr s)
     \<and> quarantined_slots s' = quarantined_slots s \<and> reserved_slots s' = reserved_slots s \<and> pool_full s' = pool_full s
     \<and> num_pages (file_hdr s) \<le> num_pages (file_hdr s')"

lemma kept_refl: "heap_inv s \<Longrightarrow> kept s s"
  by (simp add: kept_def)

lemma kept_trans: "kept s s1 \<Longrightarrow> kept s1 s2 \<Longrightarrow> kept s s2"
  by (simp add: kept_def)

lemma kept_inv: "kept s s' \<Longrightarrow> heap_inv s'"
  by (simp add: kept_def)

lemma links_only_kept:
  assumes "links_only s s'" "heap_ok s" "free_ok s' xs"
  shows "kept s s'"
  using links_only_ok [OF assms(1,2)] links_only_fields [OF assms(1)] assms(3) by (auto simp: kept_def heap_inv_def)

lemma new_page_data:
  assumes "page_fits h" "0 < num_records_per_page h" "in_i 4 ff"
    and d: "d = set_next_free ff (init_bitmap h (set_next_free RM_NO_PAGE (set_num_records 0 (replicate PAGE_SIZE 0))))"
  shows "length d = PAGE_SIZE" "next_free_page_no d = ff" "num_records d = 0" "k < num_records_per_page h \<Longrightarrow> \<not> slot_is_set d k"
proof -
  let ?z = "replicate PAGE_SIZE 0 :: byte list"
  have z: "length ?z = PAGE_SIZE" by simp
  have a: "length (set_num_records 0 ?z) = PAGE_SIZE" using page_len(2) [OF assms(1) z assms(2)] .
  have b: "length (set_next_free RM_NO_PAGE (set_num_records 0 ?z)) = PAGE_SIZE" using page_len(1) [OF assms(1) a assms(2)] .
  note i = init_bitmap_fields [OF assms(1) b]
  show "length d = PAGE_SIZE" unfolding d using page_len(1) [OF assms(1) i(1) assms(2)] .
  show "next_free_page_no d = ff" unfolding d using header_get_put(1) [OF i(1) assms(3)] .
  show "num_records d = 0" unfolding d header_get_put(3) [OF i(1)] i(3) header_get_put(3) [OF a]
    using header_get_put(2) [OF z, of 0] by (simp add: in_i_def)
  show "k < num_records_per_page h \<Longrightarrow> \<not> slot_is_set d k"
    unfolding d using bits_other(1) [OF assms(1) i(1) assms(2)] i(4) by simp
qed

lemma create_new_page_ok:
  assumes o: "heap_ok s" and x: "free_ok s xs" and lim: "num_pages (file_hdr s) + 1 < 2 ^ 31"
    and c: "create_new_page_handle s = (r, s')"
  shows "r = Ret (num_pages (file_hdr s)) \<and> kept s s' \<and> heap_ok s' \<and> free_ok s' (num_pages (file_hdr s) # xs)
    \<and> num_pages (file_hdr s') = num_pages (file_hdr s) + 1 \<and> page_has_available_slot s' (num_pages (file_hdr s))
    \<and> (\<forall>m. m \<noteq> num_pages (file_hdr s) \<longrightarrow> hp_pages s' m = hp_pages s m)
    \<and> wal_state (hp_pages s' (num_pages (file_hdr s))) = kWalFree
    \<and> hp_wal s' = hp_wal s \<and> hp_disk s' = hp_disk s \<and> active_insert_pages s' = active_insert_pages s
    \<and> first_free_page_no (file_hdr s') = num_pages (file_hdr s)"
proof -
  let ?n = "num_pages (file_hdr s)" and ?h = "file_hdr s"
  note d = heap_okD [OF o]
  obtain m where m: "hp_partitions s = Suc m" using d(8) by (cases "hp_partitions s") auto
  have np: "\<not> pool_full s ?n" "quarantined_slots s ?n = []" "reserved_slots s ?n = []" using d(9) by simp_all
  have al: "alloc_page (hp_partitions s) s = (Some ?n, s\<lparr>hp_next_page := ?n + 1\<rparr>)"
    using m np(1) d(4,5) lim by (simp add: Let_def)
  define dt where "dt = set_next_free (first_free_page_no ?h) (init_bitmap ?h (set_next_free RM_NO_PAGE (set_num_records 0 (replicate PAGE_SIZE 0))))"
  define p where "p = mark_wal_free_dirty (Page_new\<lparr>pg_id := (pg_id Page_new)\<lparr>page_no := ?n\<rparr>, data := dt\<rparr>)"
  have s': "r = Ret ?n" "s' = s\<lparr>hp_next_page := ?n + 1, hp_pages := (hp_pages s)(?n := p),
      file_hdr := ?h\<lparr>first_free_page_no := ?n, num_pages := ?n + 1\<rparr>, num_pages_snapshot := ?n + 1\<rparr>"
    using c al by (simp_all add: create_new_page_handle_def Let_def dt_def p_def)
  have ch: "chain (hp_pages s) (first_free_page_no ?h) xs" "distinct xs" "set xs \<subseteq> {1..<?n}"
    "\<forall>n \<in> set xs. num_records (data (hp_pages s n)) < int (slots_per_page s)" using x by (simp_all add: free_ok_def)
  have "in_i 4 (first_free_page_no ?h)" using chain_hd [OF ch(1,3)] d(6) by (intro in_i_page) auto
  note pd = new_page_data [OF d(1,2) this dt_def]
  have dp: "data p = dt" "wal_state p = kWalFree" by (simp_all add: p_def mark_wal_free_dirty_def Page_new_def)
  have po: "page_ok ?h p" using pd dp by (auto simp: page_ok_def)
  have sz: "page_fits (?h\<lparr>first_free_page_no := a, num_pages := b\<rparr>) = page_fits ?h" "get_slot (?h\<lparr>first_free_page_no := a, num_pages := b\<rparr>) = get_slot ?h"
    "page_ok (?h\<lparr>first_free_page_no := a, num_pages := b\<rparr>) = page_ok ?h" for a b by (rule same_sizes; simp)+
  have ho: "heap_ok s'"
  proof -
    have "page_ok ?h (hp_pages s' m)" if "1 \<le> m" "m < ?n + 1" for m
      using d(7) [of m] that po by (cases "m = ?n") (simp_all add: s')
    then show ?thesis using o lim unfolding heap_ok_def first_page by (auto simp: s' sz)
  qed
  have ni: "?n \<notin> set xs" using ch(3) by auto
  have "chain (hp_pages s') (first_free_page_no ?h) xs"
    using ch(1) chain_upd_other [OF ni] by (simp add: s')
  then have fo: "free_ok s' (?n # xs)"
    using ch(2,3,4) ni pd(2,3) dp d(2,5) unfolding free_ok_def by (auto simp: s')
  have ct: "contents s' = contents s"
    using pd(4) dp by (auto simp: fun_eq_iff contents_def Let_def s' sz)
  have av: "page_has_available_slot s' ?n"
    using first_available_props(2) [of s' ?n p 0] d(2) np pd(4) [of 0] dp by (force simp: page_has_available_slot_def s')
  have "kept s s'" using ho fo ct by (auto simp: kept_def heap_inv_def s')
  then show ?thesis using s' ho fo av dp(2) by simp
qed

end
