(* ===== verification/Rmdb_Heap_Props.thy ===== *)
theory Rmdb_Heap_Props
  imports Rmdb_Heap_Inv
begin

text \<open>
  The properties of the heap file: its operations refine a map from record identifiers to records, they keep the invariant of
  the free list and the record counts, an insertion finds a slot whenever the buffer pool and the log let it, and
  no change reaches a page without its log state being declared.
\<close>

subsection \<open>Marking a page\<close>

lemma mark_step:
  assumes d: "\<And>p. data (g p) = data p"
  shows "links_only s (upd_hp n g s)" "free_ok (upd_hp n g s) xs = free_ok s xs" "free_but t (upd_hp n g s) xs = free_but t s xs"
    "page_has_available_slot (upd_hp n g s) m = page_has_available_slot s m"
proof -
  have e: "data (((hp_pages s)(n := g (hp_pages s n))) m) = data (hp_pages s m)" for m using d by simp
  show "links_only s (upd_hp n g s)" by (intro links_only_upd impI same_data) (rule d)
  have c: "chain ((hp_pages s)(n := g (hp_pages s n))) m xs = chain (hp_pages s) m xs" for m by (rule chain_cong) (simp only: e)
  show "free_ok (upd_hp n g s) xs = free_ok s xs" "free_but t (upd_hp n g s) xs = free_but t s xs"
    by (simp_all only: free_ok_def free_but_def upd_hp_sel c e)
  show "page_has_available_slot (upd_hp n g s) m = page_has_available_slot s m"
    by (simp only: page_has_available_slot_def first_available_slot_def upd_hp_sel e)
qed

lemmas mark_steps = mark_step [OF data_mark(1)] mark_step [OF data_mark(2)] mark_step [OF data_mark(3)]

lemma mark_kept:
  assumes "\<And>p. data (g p) = data p" and "heap_inv s"
  shows "kept s (upd_hp n g s)"
proof -
  obtain xs where "heap_ok s" "free_ok s xs" using assms(2) by (auto simp: heap_inv_def)
  then show ?thesis using links_only_kept mark_step [OF assms(1)] by blast
qed

lemma available_not_full:
  assumes "page_fits (file_hdr s)" "page_ok (file_hdr s) (hp_pages s n)" "page_has_available_slot s n"
  shows "num_records (data (hp_pages s n)) < int (slots_per_page s)"
proof -
  let ?k = "first_available_slot s n (hp_pages s n)"
  have k: "?k < slots_per_page s" "\<not> slot_is_set (data (hp_pages s n)) ?k"
    using assms(3) first_available_props(1) by (auto simp: page_has_available_slot_def)
  have "{j. j < slots_per_page s \<and> slot_is_set (data (hp_pages s n)) j} \<subset> {..<slots_per_page s}" using k by auto
  then have "card {j. j < slots_per_page s \<and> slot_is_set (data (hp_pages s n)) j} < card {..<slots_per_page s}"
    by (rule psubset_card_mono [OF finite_lessThan])
  then show ?thesis using assms(2) by (simp add: page_ok_def)
qed

subsection \<open>Finding a page with room\<close>

lemma create_page_loop_ok:
  assumes "heap_ok s" "free_ok s xs" "length xs \<le> fuel" "num_pages (file_hdr s) + 1 < 2 ^ 31" "create_page_loop fuel s = (r, s')"
  shows "r \<noteq> Wait \<and> kept s s' \<and> (\<forall>n. r = Ret n \<longrightarrow> 1 \<le> n \<and> n < num_pages (file_hdr s') \<and> page_has_available_slot s' n)
    \<and> ((\<forall>m. \<not> pool_full s m) \<longrightarrow> is_Ret r) \<and> hp_wal s' = hp_wal s \<and> hp_disk s' = hp_disk s"
  using assms
proof (induction fuel arbitrary: s xs)
  case (0 s xs)
  then have ff: "first_free_page_no (file_hdr s) = RM_NO_PAGE" by (simp add: free_ok_def)
  then have "create_new_page_handle s = (r, s')" using 0 by simp
  from create_new_page_ok [OF 0(1,2,4) this] show ?case using heap_okD(5) [OF 0(1)] by simp
next
  case (Suc fuel s xs)
  let ?n = "first_free_page_no (file_hdr s)"
  have inv: "heap_inv s" using Suc.prems by (auto simp: heap_inv_def)
  show ?case
  proof (cases "?n = RM_NO_PAGE")
    case True
    then have "create_new_page_handle s = (r, s')" using Suc.prems(5) by simp
    from create_new_page_ok [OF Suc.prems(1,2,4) this] show ?thesis using heap_okD(5) [OF Suc.prems(1)] by simp
  next
    case False
    then obtain ys where ys: "xs = ?n # ys" using Suc.prems(2) by (cases xs) (auto simp: free_ok_def)
    have n: "1 \<le> ?n" "?n < num_pages (file_hdr s)" using Suc.prems(2) ys by (auto simp: free_ok_def)
    note fp = fetch_page_handle_ok [OF Suc.prems(1) n]
    show ?thesis
    proof (cases "pool_full s ?n")
      case True
      then have "r = Throw (InternalError ''Buffer pool exhausted, cannot fetch page'')" "s' = s" using Suc.prems(5) False fp by (auto simp: Let_def)
      then show ?thesis using True kept_refl [OF inv] by auto
    next
      case np: False
      show ?thesis
      proof (cases "page_has_available_slot s ?n")
        case True
        then have "r = Ret ?n" "s' = s" using Suc.prems(5) False fp np by (auto simp: Let_def)
        then show ?thesis using True n kept_refl [OF inv] by simp
      next
        case na: False
        define s1 where "s1 = upd_hp ?n mark_wal_free_dirty s"
        obtain r2 s2 where u: "unlink_free_page_if_needed ?n INVALID_LSN s1 = (r2, s2)" by fastforce
        define s3 where "s3 = upd_hp ?n unpin_dirty s2"
        have e: "create_page_loop fuel s3 = (r, s')" using Suc.prems(5) False fp np na u by (simp add: Let_def s1_def s3_def)
        note m = mark_steps(9,10,11) [where s = s and n = ?n, folded s1_def]
        have o1: "heap_ok s1" using links_only_ok(1) [OF m(1) Suc.prems(1)] .
        have "free_ok s1 xs" using m(2) Suc.prems(2) by simp
        then have f1: "free_but ?n s1 xs" by (rule free_ok_but)
        have r2: "r2 = Ret ()" using u by (simp add: unlink_free_page_if_needed_def s1_def)
        have uo: "links_only s1 s2" "free_ok s2 (removeAll ?n xs)"
          using unlink_ok [OF o1 f1 n(1) _ u] n(2) r2 links_only_fields(1) [OF m(1)] by simp_all
        have o2: "heap_ok s2" using links_only_ok(1) [OF uo(1) o1] .
        note m3 = mark_steps(5,6) [where s = s2 and n = ?n, folded s3_def]
        have l3: "links_only s s3" using links_only_trans [OF links_only_trans [OF m(1) uo(1)] m3(1)] .
        have o3: "heap_ok s3" and f3: "free_ok s3 (removeAll ?n xs)" using links_only_ok(1) [OF m3(1) o2] m3(2) uo(2) by simp_all
        have "length (removeAll ?n xs) \<le> fuel" using Suc.prems(3) ys by (simp add: le_trans [OF length_removeAll_less_eq])
        from Suc.IH [OF o3 f3 this _ e] have ih: "r \<noteq> Wait" "kept s3 s'" "\<forall>n. r = Ret n \<longrightarrow> 1 \<le> n \<and> n < num_pages (file_hdr s') \<and> page_has_available_slot s' n"
          "(\<forall>m. \<not> pool_full s3 m) \<longrightarrow> is_Ret r" "hp_wal s' = hp_wal s3" "hp_disk s' = hp_disk s3"
          using Suc.prems(4) links_only_fields(1) [OF l3] by auto
        have "kept s s3" using links_only_kept [OF l3 Suc.prems(1) f3] .
        then show ?thesis using ih kept_trans links_only_fields(9,11,12) [OF l3] by auto
      qed
    qed
  qed
qed

lemma create_page_handle_ok:
  assumes inv: "heap_inv s" and lim: "num_pages (file_hdr s) + 1 < 2 ^ 31" and c: "create_page_handle s = (r, s')"
  shows "r \<noteq> Wait \<and> kept s s' \<and> (\<forall>n. r = Ret n \<longrightarrow> 1 \<le> n \<and> n < num_pages (file_hdr s') \<and> page_has_available_slot s' n)
    \<and> ((\<forall>m. \<not> pool_full s m) \<longrightarrow> is_Ret r) \<and> hp_wal s' = hp_wal s \<and> hp_disk s' = hp_disk s"
proof -
  obtain xs where xs: "heap_ok s" "free_ok s xs" using inv by (auto simp: heap_inv_def)
  have "length xs \<le> nat (num_pages (file_hdr s))" using free_length [OF free_ok_but [OF xs(2)]] by auto
  then show ?thesis using create_page_loop_ok [OF xs _ lim] c unfolding create_page_handle_def by blast
qed

subsection \<open>What a step changes\<close>

text \<open>The state after an operation: the contents are \<open>m\<close> and everything else a client relies on is as before.\<close>

definition stores :: "heap_file \<Rightarrow> heap_file \<Rightarrow> (rid \<Rightarrow> byte list option) \<Rightarrow> bool" where
  "stores s s' m \<longleftrightarrow> heap_inv s' \<and> contents s' = m \<and> record_size (file_hdr s') = record_size (file_hdr s)
     \<and> slots_per_page s' = slots_per_page s \<and> bitmap_size (file_hdr s') = bitmap_size (file_hdr s)
     \<and> reserved_slots s' = reserved_slots s \<and> pool_full s' = pool_full s \<and> num_pages (file_hdr s) \<le> num_pages (file_hdr s')"

lemma kept_stores: "kept s s' \<Longrightarrow> stores s s' (contents s)"
  by (simp add: kept_def stores_def)

lemma stores_trans: "stores s s1 m \<Longrightarrow> stores s1 s2 m' \<Longrightarrow> stores s s2 m'"
  by (simp add: stores_def)

subsection \<open>Logging\<close>

text \<open>Appending to the log changes only the log, its file and the last LSN of the transaction.\<close>

definition log_only :: "heap_file \<Rightarrow> heap_file \<Rightarrow> bool" where
  "log_only s s' \<longleftrightarrow> s' = s\<lparr>hp_wal := hp_wal s', hp_disk := hp_disk s', txn_prev_lsn := txn_prev_lsn s'\<rparr>"

lemma log_only_refl [simp]: "log_only s s"
  by (simp add: log_only_def)

lemma log_only_eq: "log_only s s' \<Longrightarrow> s' = s\<lparr>hp_wal := hp_wal s', hp_disk := hp_disk s', txn_prev_lsn := txn_prev_lsn s'\<rparr>"
  by (simp add: log_only_def)

lemma log_only_pages:
  assumes "log_only s s'"
  shows "hp_pages s' = hp_pages s" "file_hdr s' = file_hdr s"
  using arg_cong [OF log_only_eq [OF assms], of hp_pages] arg_cong [OF log_only_eq [OF assms], of file_hdr] by simp_all

lemma append_log_only: "log_only s (snd (append_heap_log r s))"
  by (simp add: append_heap_log_def log_only_def split: prod.splits outcome.splits)

lemma log_if_only: "log_only s (snd (log_if ctx t mk s))"
  by (simp add: log_if_def hret_def append_log_only split: option.splits)

lemma heap_log_inv [simp]:
  "heap_ok (s\<lparr>hp_wal := w, hp_disk := d, txn_prev_lsn := l\<rparr>) = heap_ok s"
  "free_ok (s\<lparr>hp_wal := w, hp_disk := d, txn_prev_lsn := l\<rparr>) xs = free_ok s xs"
  "contents (s\<lparr>hp_wal := w, hp_disk := d, txn_prev_lsn := l\<rparr>) = contents s"
  by (simp_all add: heap_ok_def free_ok_def contents_def fun_eq_iff Let_def)

lemma log_only_kept: "log_only s s' \<Longrightarrow> heap_inv s \<Longrightarrow> kept s s'"
  by (drule log_only_eq, erule ssubst) (simp add: kept_def heap_inv_def)

subsection \<open>Inserting\<close>

text \<open>Publishing a record in a page and unlinking the page when it is full.\<close>

lemma publish_step:
  assumes inv: "heap_inv s" and n: "1 \<le> n" "n < num_pages (file_hdr s)" and k: "k < slots_per_page s"
    and ns: "\<not> slot_is_set (data (hp_pages s n)) k" and b: "length buf = record_size (file_hdr s)"
    and q: "q = quarantined_slots s \<or> q = (quarantined_slots s)(n := z)"
    and s1: "s1 = upd_hp n (MarkPageWalState l) ((publish_slot n k buf s)\<lparr>quarantined_slots := q\<rparr>)"
    and u: "unlink_if_full n l s1 = (r, s2)" and s': "s' = upd_hp n unpin_dirty s2"
  shows "r \<noteq> Wait \<and> (r = Ret () \<longrightarrow> heap_inv s') \<and> contents s' = (contents s)(\<lparr>rid_page = n, rid_slot = int k\<rparr> \<mapsto> buf)
    \<and> ((\<forall>m. \<not> pool_full s m) \<longrightarrow> r = Ret ()) \<and> file_hdr s' = (file_hdr s)\<lparr>first_free_page_no := first_free_page_no (file_hdr s')\<rparr>
    \<and> quarantined_slots s' = q \<and> reserved_slots s' = reserved_slots s \<and> pool_full s' = pool_full s"
proof -
  let ?h = "file_hdr s" and ?p = "hp_pages s n"
  obtain xs where o: "heap_ok s" and x: "free_ok s xs" using inv by (auto simp: heap_inv_def)
  define d where "d = (let pg1 = set_slot_bit k (put_slot ?h k buf (data ?p)) in set_num_records (num_records pg1 + 1) pg1)"
  note pd = publish_data [OF heap_okD(1) [OF o] heap_okD(7) [OF o n] k ns b d_def]
  have ds: "data_step s n d s1" using q unfolding data_step_def s1 publish_slot_def upd_hp_def by (auto simp: d_def)
  note do = data_step_ok [OF ds o n pd(1,2)] and df = data_step_fields [OF ds]
  have c1: "contents s1 = (contents s)(\<lparr>rid_page = n, rid_slot = int k\<rparr> \<mapsto> buf)"
    using data_step_contents [OF ds, of "\<lparr>rid_page = n, rid_slot = int k\<rparr>"] n k pd(4,5) by simp
  have rec: "\<And>m. m \<noteq> n \<Longrightarrow> hp_pages s1 m = hp_pages s m" using ds by (simp add: data_step_def)
  have fb: "free_but n s1 xs" using x do(2) rec unfolding free_ok_def free_but_def df by auto
  have q1: "quarantined_slots s1 = q" by (simp add: s1)
  have main: "r \<noteq> Wait \<and> links_only s1 s2 \<and> (r = Ret () \<longrightarrow> (\<exists>ys. free_ok s2 ys)) \<and> ((\<forall>m. \<not> pool_full s m) \<longrightarrow> r = Ret ())"
  proof (cases "page_has_available_slot s1 n")
    case True
    then have e: "r = Ret ()" "s2 = s1" using u by (simp_all add: unlink_if_full_def)
    have "num_records (data (hp_pages s1 n)) < int (slots_per_page s1)"
      using available_not_full [OF _ _ True] heap_okD(1,7) [OF do(1)] n df(1) by simp
    then have "free_ok s1 xs" using fb unfolding free_ok_def free_but_def by auto
    then show ?thesis using e by auto
  next
    case False
    then have "unlink_free_page_if_needed n l s1 = (r, s2)" using u by (simp add: unlink_if_full_def)
    from unlink_ok [OF do(1) fb n(1) _ this] n(2) df(1,5) show ?thesis by auto
  qed
  note m = mark_steps(5,6) [where s = s2 and n = n, folded s']
  have l: "links_only s1 s'" using links_only_trans m(1) main by blast
  note lo = links_only_ok [OF l do(1)] and lf = links_only_fields [OF l]
  have "r = Ret () \<Longrightarrow> heap_inv s'" using main m(2) lo(1) by (auto simp: heap_inv_def)
  moreover have "file_hdr s' = (file_hdr s)\<lparr>first_free_page_no := first_free_page_no (file_hdr s')\<rparr>"
    using l df(1) by (simp add: links_only_def)
  ultimately show ?thesis using main lo(2) c1 lf(7,8,9) q1 df(4,5) by simp
qed

lemma publish_stores:
  assumes "heap_inv s'" "contents s' = m" "file_hdr s' = (file_hdr s)\<lparr>first_free_page_no := f\<rparr>" "reserved_slots s' = reserved_slots s" "pool_full s' = pool_full s"
  shows "stores s s' m"
  using assms by (simp add: stores_def)

lemma insert_record_ok:
  assumes inv: "heap_inv s" and lim: "num_pages (file_hdr s) + 1 < 2 ^ 31" and b: "length buf = record_size (file_hdr s)"
    and i: "insert_record buf ctx t s = (r, s')"
  shows "(\<forall>q. r = Ret q \<longrightarrow> contents s q = None \<and> stores s s' ((contents s)(q \<mapsto> buf))
      \<and> nat (rid_slot q) \<notin> set (reserved_slots s (rid_page q)) \<and> nat (rid_slot q) \<notin> set (quarantined_slots s (rid_page q))
      \<and> quarantined_slots s' = quarantined_slots s)
    \<and> ((\<forall>m. \<not> pool_full s m) \<and> \<not> is_Ret r \<longrightarrow> kept s s')
    \<and> ((\<forall>m. \<not> pool_full s m) \<and> (ctx = None \<or> t = []) \<longrightarrow> is_Ret r)"
proof -
  obtain r1 s1 where c: "create_page_handle s = (r1, s1)" by fastforce
  note cp = create_page_handle_ok [OF inv lim c]
  show ?thesis
  proof (cases r1)
    case (Ret n)
    have n: "1 \<le> n" "n < num_pages (file_hdr s1)" "page_has_available_slot s1 n" and kp: "kept s s1" using cp Ret by auto
    define k where "k = first_available_slot s1 n (hp_pages s1 n)"
    define q where "q = \<lparr>rid_page = n, rid_slot = int k\<rparr>"
    have k: "k < slots_per_page s1" "\<not> slot_is_set (data (hp_pages s1 n)) k" "k \<notin> set (quarantined_slots s1 n)" "k \<notin> set (reserved_slots s1 n)"
      using n(3) first_available_props(1) by (auto simp: page_has_available_slot_def k_def)
    obtain r2 s2 where lg: "log_if ctx t (\<lambda>txn. InsertLogRecord txn buf q t) s1 = (r2, s2)" by fastforce
    have l2: "log_only s1 s2" using log_if_only [of s1 ctx t "\<lambda>txn. InsertLogRecord txn buf q t"] lg by simp
    have k2: "kept s s2" using kept_trans [OF kp log_only_kept [OF l2 kept_inv [OF kp]]] .
    note hp = log_only_pages [OF l2]
    have nolog: "ctx = None \<or> t = [] \<Longrightarrow> is_Ret r2" using lg by (auto simp: log_if_def hret_def split: option.splits)
    show ?thesis
    proof (cases r2)
      case r2: (Ret l)
      define s3 where "s3 = upd_hp n (MarkPageWalState l) ((publish_slot n k buf s2)\<lparr>quarantined_slots := quarantined_slots s2\<rparr>)"
      obtain r4 s4 where u: "unlink_if_full n l s3 = (r4, s4)" by fastforce
      have q3: "(publish_slot n k buf s2)\<lparr>quarantined_slots := quarantined_slots s2\<rparr> = publish_slot n k buf s2"
        by (simp add: publish_slot_def upd_hp_def)
      have e: "s' = upd_hp n unpin_dirty s4" "r = (case r4 of Ret _ \<Rightarrow> Ret q | Throw e \<Rightarrow> Throw e | Wait \<Rightarrow> Wait)"
        using i c Ret lg r2 k(1) u q3
        by (auto simp: insert_record_def Let_def k_def [symmetric] q_def [symmetric] finally_dirty_def hret_def s3_def obind_def split: outcome.splits)
      have sz: "record_size (file_hdr s2) = record_size (file_hdr s)" "contents s2 = contents s" "quarantined_slots s2 = quarantined_slots s"
        "reserved_slots s2 = reserved_slots s" "pool_full s2 = pool_full s" "quarantined_slots s1 = quarantined_slots s" "reserved_slots s1 = reserved_slots s"
        using k2 kp by (simp_all add: kept_def)
      note ps = publish_step [OF kept_inv [OF k2] n(1) _ _ _ _ disjI1 [OF refl] s3_def u e(1)]
      have "r4 \<noteq> Wait \<and> (r4 = Ret () \<longrightarrow> stores s2 s' ((contents s)(q \<mapsto> buf))) \<and> ((\<forall>m. \<not> pool_full s m) \<longrightarrow> r4 = Ret ())
         \<and> quarantined_slots s' = quarantined_slots s"
        using ps n(2) k(1,2) b hp sz publish_stores [where s' = s' and m = "(contents s)(q \<mapsto> buf)" and s = s2] by (simp add: q_def) blast
      moreover have "contents s1 q = None" using k(2) by (simp add: contents_def q_def)
      moreover have "contents s1 = contents s" using kp by (simp add: kept_def)
      ultimately show ?thesis using e(2) sz k(3,4) stores_trans [OF kept_stores [OF k2]] by (cases r4) (simp_all add: q_def, blast)
    next
      case (Throw e)
      then have "r = Throw e" "s' = s2" using i c Ret lg k(1) by (auto simp: insert_record_def Let_def k_def [symmetric] q_def [symmetric])
      then show ?thesis using k2 nolog Throw by auto
    next
      case Wait
      then have "r = Wait" "s' = s2" using i c Ret lg k(1) by (auto simp: insert_record_def Let_def k_def [symmetric] q_def [symmetric])
      then show ?thesis using k2 nolog Wait by auto
    qed
  next
    case (Throw e)
    then have "r = Throw e" "s' = s1" using i c by (simp_all add: insert_record_def)
    then show ?thesis using cp Throw by auto
  next
    case Wait
    then show ?thesis using cp by simp
  qed
qed

subsection \<open>A new file\<close>

lemma RmFileHandle_new_inv:
  assumes "new_file_hdr rsize = Ret h" and "0 < partitions" and "\<And>n. \<not> full n"
  shows "heap_inv (RmFileHandle_new h pages full partitions lm d)" "contents (RmFileHandle_new h pages full partitions lm d) = Map.empty"
proof -
  note f = new_file_hdr_fits [OF assms(1)]
  have "free_ok (RmFileHandle_new h pages full partitions lm d) []" using f by (simp add: free_ok_def RmFileHandle_new_def)
  moreover have "heap_ok (RmFileHandle_new h pages full partitions lm d)" using f assms(2,3) by (auto simp: heap_ok_def RmFileHandle_new_def)
  ultimately show "heap_inv (RmFileHandle_new h pages full partitions lm d)" unfolding heap_inv_def by blast
  show "contents (RmFileHandle_new h pages full partitions lm d) = Map.empty"
    using f by (auto simp: fun_eq_iff contents_def Let_def RmFileHandle_new_def)
qed

subsection \<open>Operations on a stored record\<close>

lemma contentsD:
  assumes "contents s q = Some v"
  shows "1 \<le> rid_page q" "rid_page q < num_pages (file_hdr s)" "0 \<le> rid_slot q" "nat (rid_slot q) < slots_per_page s"
    "slot_is_set (data (hp_pages s (rid_page q))) (nat (rid_slot q))" "v = get_slot (file_hdr s) (data (hp_pages s (rid_page q))) (nat (rid_slot q))"
  using assms by (auto simp: contents_def Let_def split: if_splits)

lemma put_data:
  assumes f: "page_fits h" and p: "page_ok h p" and k: "k < num_records_per_page h" and b: "length buf = record_size h"
    and d: "d = put_slot h k buf (data p)"
  shows "page_ok h (p\<lparr>data := d\<rparr>)" "next_free_page_no d = next_free_page_no (data p)" "num_records d = num_records (data p)"
    "j < num_records_per_page h \<Longrightarrow> slot_is_set d j = slot_is_set (data p) j"
    "j < num_records_per_page h \<Longrightarrow> get_slot h d j = (if j = k then buf else get_slot h (data p) j)"
proof -
  have l: "length (data p) = PAGE_SIZE" using p by (simp add: page_ok_def)
  show bits: "\<And>j. j < num_records_per_page h \<Longrightarrow> slot_is_set d j = slot_is_set (data p) j" unfolding d using bits_other(3) [OF f l k _ b] .
  show nr: "num_records d = num_records (data p)" unfolding d using header_other(2) [OF f l k b] .
  show "next_free_page_no d = next_free_page_no (data p)" unfolding d using header_other(1) [OF f l k b] .
  show "j < num_records_per_page h \<Longrightarrow> get_slot h d j = (if j = k then buf else get_slot h (data p) j)"
    unfolding d using slots_other(5) [OF f l k _ b] .
  show "page_ok h (p\<lparr>data := d\<rparr>)" using p nr bits page_len(5) [OF f l k b] by (simp add: page_ok_def d cong: conj_cong)
qed

lemma data_step_mark: "data_step s n d s1 \<Longrightarrow> (\<And>p. data (g p) = data p) \<Longrightarrow> data_step s n d (upd_hp n g s1)"
  by (simp add: data_step_def upd_hp_def)

lemma data_step_upd: "data_step s n (g (data (hp_pages s n))) (upd_hp n (upd_data g) s)"
  by (simp add: data_step_def upd_hp_def)

lemma data_step_free:
  assumes st: "data_step s n d s'" and o: "heap_ok s" and x: "free_ok s xs" and n: "1 \<le> n" "n < num_pages (file_hdr s)"
    and d: "page_ok (file_hdr s) ((hp_pages s n)\<lparr>data := d\<rparr>)" "next_free_page_no d = next_free_page_no (data (hp_pages s n))"
    and lt: "n \<in> set xs \<Longrightarrow> num_records d < int (slots_per_page s)"
  shows "free_ok s' xs"
proof -
  have p: "data (hp_pages s' n) = d" "\<And>m. m \<noteq> n \<Longrightarrow> hp_pages s' m = hp_pages s m" using st by (simp_all add: data_step_def)
  have "num_records (data (hp_pages s' m)) < int (slots_per_page s)" if "m \<in> set xs" for m
    using x p lt that by (cases "m = n") (simp_all add: free_ok_def)
  then show ?thesis using x data_step_ok(2) [OF st o n d] unfolding free_ok_def data_step_fields [OF st] by blast
qed

lemma data_step_stores:
  assumes st: "data_step s n d s'" and fr: "free_ok s' xs" "heap_ok s'"
  shows "stores s s' (contents s')"
  using assms data_step_fields [OF st] by (auto simp: stores_def heap_inv_def)

lemma log_result_kept:
  assumes "log_if ctx t mk s = (r, s')" "heap_inv s"
  shows "log_only s s'" "kept s s'" "ctx = None \<or> t = [] \<Longrightarrow> is_Ret r"
  using log_if_only [of s ctx t mk] log_only_kept [OF _ assms(2)] assms(1)
  by (auto simp: log_if_def hret_def split: option.splits)

lemma get_record_ok:
  assumes "heap_inv s" "contents s q = Some v" "\<not> pool_full s (rid_page q)"
  shows "get_record q s = (Ret v, s)" "is_record q s = (Ret True, s)"
proof -
  have o: "heap_ok s" using assms(1) by (simp add: heap_inv_def)
  note c = contentsD [OF assms(2)]
  show "get_record q s = (Ret v, s)" "is_record q s = (Ret True, s)"
    using fetch_page_handle_ok [OF o c(1,2)] c(5,6) assms(3) by (simp_all add: get_record_def is_record_def obind_def hret_def)
qed

lemma absent_slot:
  assumes "contents s q = None" "1 \<le> rid_page q" "rid_page q < num_pages (file_hdr s)" "0 \<le> rid_slot q" "nat (rid_slot q) < slots_per_page s"
  shows "\<not> slot_is_set (data (hp_pages s (rid_page q))) (nat (rid_slot q))"
  using assms by (auto simp: contents_def Let_def split: if_splits)

lemma update_record_ok:
  assumes inv: "heap_inv s" and c: "contents s q = Some v" and b: "length buf = record_size (file_hdr s)" and np: "\<not> pool_full s (rid_page q)"
    and u: "update_record q buf ctx t old plsn s = (r, s')"
  shows "r = Ret () \<and> stores s s' ((contents s)(q \<mapsto> buf)) \<and> quarantined_slots s' = quarantined_slots s \<or> \<not> is_Ret r \<and> kept s s'"
    "plsn \<noteq> INVALID_LSN \<or> ctx = None \<or> t = [] \<Longrightarrow> r = Ret ()"
proof -
  have o: "heap_ok s" using inv by (simp add: heap_inv_def)
  let ?n = "rid_page q" and ?k = "nat (rid_slot q)"
  note d = contentsD [OF c]
  define old_image where "old_image = (case old of None \<Rightarrow> get_slot (file_hdr s) (data (hp_pages s ?n)) ?k | Some w \<Rightarrow> w)"
  obtain r1 s1 where l: "(if plsn = INVALID_LSN then log_if ctx t (\<lambda>txn. UpdateLogRecord txn old_image buf q t) else hret plsn) s = (r1, s1)" by fastforce
  have lo: "log_only s s1" "kept s s1" and nolog: "plsn \<noteq> INVALID_LSN \<or> ctx = None \<or> t = [] \<Longrightarrow> is_Ret r1"
    using l log_result_kept [of ctx t _ s r1 s1] inv kept_refl [OF inv] by (auto simp: hret_def split: if_splits)
  have e: "(r, s') = (case r1 of Ret l \<Rightarrow> (Ret (), upd_hp ?n unpin_dirty (upd_hp ?n (MarkPageWalState l) (upd_hp ?n (upd_data (put_slot (file_hdr s1) ?k buf)) s1)))
      | Throw e \<Rightarrow> (Throw e, s1) | Wait \<Rightarrow> (Wait, s1))"
    using u fetch_page_handle_ok [OF o d(1,2)] np d(5) l [unfolded old_image_def]
    by (simp add: update_record_def Let_def obind_def split: outcome.splits)
  show "plsn \<noteq> INVALID_LSN \<or> ctx = None \<or> t = [] \<Longrightarrow> r = Ret ()" using nolog e by (cases r1) auto
  show "r = Ret () \<and> stores s s' ((contents s)(q \<mapsto> buf)) \<and> quarantined_slots s' = quarantined_slots s \<or> \<not> is_Ret r \<and> kept s s'"
  proof (cases r1)
    case (Ret l)
    note hp = log_only_pages [OF lo(1)]
    obtain xs where o1: "heap_ok s1" and x1: "free_ok s1 xs" using kept_inv [OF lo(2)] by (auto simp: heap_inv_def)
    define dd where "dd = put_slot (file_hdr s1) ?k buf (data (hp_pages s1 ?n))"
    have ds: "data_step s1 ?n dd s'" using e Ret unfolding dd_def by (simp add: data_step_mark data_step_upd)
    have n1: "1 \<le> ?n" "?n < num_pages (file_hdr s1)" "?k < slots_per_page s1" "length buf = record_size (file_hdr s1)" using d b hp by simp_all
    note pd = put_data [OF heap_okD(1) [OF o1] heap_okD(7) [OF o1 n1(1,2)] n1(3,4) dd_def]
    have f: "free_ok s' xs" using data_step_free [OF ds o1 x1 n1(1,2) pd(1,2)] pd(3) x1 by (simp add: free_ok_def)
    have "contents s' = (contents s1)(q \<mapsto> buf)"
      using data_step_contents [OF ds refl d(3) n1(3) n1(1,2)] pd(4,5) n1(3) d(5) hp by simp
    then have "stores s1 s' ((contents s)(q \<mapsto> buf))"
      using data_step_stores [OF ds f data_step_ok(1) [OF ds o1 n1(1,2) pd(1,2)]] lo(2) by (simp add: kept_def)
    moreover have "quarantined_slots s' = quarantined_slots s" using e Ret lo(2) by (simp add: kept_def)
    ultimately show ?thesis using e Ret stores_trans [OF kept_stores [OF lo(2)]] by simp
  qed (use e lo(2) in auto)
qed

text \<open>The bit of a stored record cleared, its page relinked when it was full.\<close>

lemma release_ok:
  assumes o: "heap_ok s" and x: "free_ok s xs" and n: "1 \<le> n" "n < num_pages (file_hdr s)" "n \<notin> set xs"
    and nr: "num_records (data (hp_pages s n)) < int (slots_per_page s)"
  shows "links_only s (release_page_handle n s)" "free_ok (release_page_handle n s) (n # xs)"
proof -
  let ?s = "release_page_handle n s" and ?ff = "first_free_page_no (file_hdr s)"
  have ff: "?ff = - 1 \<or> 1 \<le> ?ff \<and> ?ff < num_pages (file_hdr s)" using x chain_hd by (auto simp: free_ok_def)
  have l: "length (data (hp_pages s n)) = PAGE_SIZE" using heap_okD(7) [OF o n(1,2)] by (simp add: page_ok_def)
  have i: "in_i 4 ?ff" using ff heap_okD(6) [OF o] by (intro in_i_page) auto
  have "links_only s (upd_hp n (upd_data (set_next_free ?ff)) s)" using links_only_next [OF o n(1,2)] .
  then show "links_only s ?s" by (simp add: links_only_def release_page_handle_def upd_hp_def)
  have "chain (hp_pages ?s) n (n # xs)" using x n header_get_put(1) [OF l i] chain_upd_other [OF n(3)]
    by (simp add: release_page_handle_def free_ok_def upd_hp_def upd_data_def)
  then show "free_ok ?s (n # xs)" using x n nr header_get_put(3) [OF l]
    by (simp add: release_page_handle_def free_ok_def upd_hp_def upd_data_def)
qed

lemma delete_record_ok:
  assumes inv: "heap_inv s" and c: "contents s q = Some v" and np: "\<not> pool_full s (rid_page q)"
    and u: "delete_record q ctx t s = (r, s')"
  shows "r = Ret () \<and> stores s s' ((contents s)(q := None)) \<and> quarantined_slots s' = quarantined_slots s \<or> \<not> is_Ret r \<and> kept s s'"
    "ctx = None \<or> t = [] \<Longrightarrow> r = Ret ()"
proof -
  have o: "heap_ok s" using inv by (simp add: heap_inv_def)
  let ?n = "rid_page q" and ?k = "nat (rid_slot q)" and ?g = "\<lambda>pg. let pg1 = reset_slot_bit (nat (rid_slot q)) pg in set_num_records (num_records pg1 - 1) pg1"
  note d = contentsD [OF c]
  define full where "full \<longleftrightarrow> num_records (data (hp_pages s ?n)) = int (slots_per_page s)"
  obtain r1 s1 where l: "log_if ctx t (\<lambda>txn. DeleteLogRecord txn (get_slot (file_hdr s) (data (hp_pages s ?n)) ?k) q t) s = (r1, s1)" by fastforce
  note lo = log_result_kept [OF l inv]
  define s2 where "s2 l = upd_hp ?n (MarkPageWalState l) (upd_hp ?n (upd_data ?g) s1)" for l
  have e: "(r, s') = (case r1 of Ret l \<Rightarrow> (Ret (), upd_hp ?n unpin_dirty (if full then release_page_handle ?n (s2 l) else s2 l))
      | Throw e \<Rightarrow> (Throw e, s1) | Wait \<Rightarrow> (Wait, s1))"
    using u fetch_page_handle_ok [OF o d(1,2)] np d(5) l
    by (cases r1) (auto simp: delete_record_def Let_def full_def s2_def obind_def)
  show "ctx = None \<or> t = [] \<Longrightarrow> r = Ret ()" using lo(3) e by (cases r1) auto
  show "r = Ret () \<and> stores s s' ((contents s)(q := None)) \<and> quarantined_slots s' = quarantined_slots s \<or> \<not> is_Ret r \<and> kept s s'"
  proof (cases r1)
    case (Ret l)
    note hp = log_only_pages [OF lo(1)]
    obtain xs where o1: "heap_ok s1" and x1: "free_ok s1 xs" using kept_inv [OF lo(2)] by (auto simp: heap_inv_def)
    define dd where "dd = ?g (data (hp_pages s1 ?n))"
    have ds: "data_step s1 ?n dd (s2 l)" unfolding dd_def s2_def by (intro data_step_mark data_step_upd) simp
    have n1: "1 \<le> ?n" "?n < num_pages (file_hdr s1)" "?k < slots_per_page s1" "slot_is_set (data (hp_pages s1 ?n)) ?k" using d hp by simp_all
    note pd = remove_data [OF heap_okD(1) [OF o1] heap_okD(7) [OF o1 n1(1,2)] n1(3,4) dd_def] and df = data_step_fields [OF ds]
    have o2: "heap_ok (s2 l)" using data_step_ok(1) [OF ds o1 n1(1,2) pd(1,2)] .
    have "?n \<in> set xs \<Longrightarrow> num_records dd < int (slots_per_page s1)" using pd(3) x1 by (auto simp: free_ok_def)
    then have f2: "free_ok (s2 l) xs" by (rule data_step_free [OF ds o1 x1 n1(1,2) pd(1,2)])
    have c2: "contents (s2 l) = (contents s1)(q := None)"
      using data_step_contents [OF ds refl d(3) n1(3) n1(1,2)] pd(4,5) n1(3) by simp
    define s3 where "s3 = (if full then release_page_handle ?n (s2 l) else s2 l)"
    have "\<exists>ys. links_only (s2 l) s3 \<and> free_ok s3 ys"
    proof (cases full)
      case True
      have "?n \<notin> set xs" using True x1 hp unfolding full_def free_ok_def by auto
      moreover have "num_records (data (hp_pages (s2 l) ?n)) < int (slots_per_page (s2 l))"
        using ds pd(3) True hp df(1) by (simp add: data_step_def full_def)
      ultimately show ?thesis using release_ok [OF o2 f2 n1(1)] n1(2) df(1) True unfolding s3_def by auto
    qed (use f2 s3_def in auto)
    then obtain ys where l3: "links_only (s2 l) s3" and f3: "free_ok s3 ys" by blast
    have "links_only (s2 l) s'" "free_ok s' ys" using links_only_trans [OF l3 mark_steps(5)] mark_steps(6) f3 e Ret unfolding s3_def by auto
    then have k: "kept (s2 l) s'" using links_only_kept o2 by blast
    have "stores s1 (s2 l) (contents (s2 l))" using data_step_stores [OF ds f2 o2] .
    then have "stores s s' ((contents s)(q := None))"
      using stores_trans [OF stores_trans [OF kept_stores [OF lo(2)]] kept_stores [OF k]] c2 lo(2) by (simp add: kept_def)
    moreover have "quarantined_slots s' = quarantined_slots s" using k lo(2) by (simp add: kept_def s2_def)
    ultimately show ?thesis using e Ret by simp
  qed (use e lo(2) in auto)
qed

text \<open>A quarantined deletion takes the record away and keeps its slot from being used again.\<close>

lemma delete_record_quarantine_ok:
  assumes inv: "heap_inv s" and c: "contents s q = Some v" and np: "\<not> pool_full s (rid_page q)"
    and u: "delete_record_quarantine q plsn s = (r, s')"
  shows "r = Ret () \<and> stores s s' ((contents s)(q := None))
    \<and> quarantined_slots s' = (quarantined_slots s)(rid_page q := List.insert (nat (rid_slot q)) (quarantined_slots s (rid_page q)))"
proof -
  obtain xs where o: "heap_ok s" and x: "free_ok s xs" using inv by (auto simp: heap_inv_def)
  let ?n = "rid_page q" and ?k = "nat (rid_slot q)" and ?g = "\<lambda>pg. let pg1 = reset_slot_bit (nat (rid_slot q)) pg in set_num_records (num_records pg1 - 1) pg1"
  note d = contentsD [OF c]
  define z where "z = (quarantined_slots s)(?n := List.insert ?k (quarantined_slots s ?n))"
  have e: "r = Ret ()" "s' = upd_hp ?n unpin_dirty (upd_hp ?n (MarkPageWalState plsn) ((upd_hp ?n (upd_data ?g) s)\<lparr>quarantined_slots := z\<rparr>))"
    using u fetch_page_handle_ok [OF o d(1,2)] np d(1,2,5) by (simp_all add: delete_record_quarantine_def Let_def z_def obind_def)
  define dd where "dd = ?g (data (hp_pages s ?n))"
  have "data_step s ?n dd ((upd_hp ?n (upd_data ?g) s)\<lparr>quarantined_slots := z\<rparr>)" by (simp add: data_step_def upd_hp_def z_def dd_def)
  then have ds: "data_step s ?n dd s'" unfolding e by (simp add: data_step_mark)
  note pd = remove_data [OF heap_okD(1) [OF o] heap_okD(7) [OF o d(1,2)] d(4,5) dd_def]
  have "?n \<in> set xs \<Longrightarrow> num_records dd < int (slots_per_page s)" using pd(3) x by (auto simp: free_ok_def)
  then have f: "free_ok s' xs" by (rule data_step_free [OF ds o x d(1,2) pd(1,2)])
  have "contents s' = (contents s)(q := None)"
    using data_step_contents [OF ds refl d(3,4) d(1,2)] pd(4,5) d(4) by simp
  then have "stores s s' ((contents s)(q := None))" using data_step_stores [OF ds f data_step_ok(1) [OF ds o d(1,2) pd(1,2)]] by simp
  moreover have "quarantined_slots s' = z" by (simp add: e)
  ultimately show ?thesis using e(1) z_def by simp
qed

lemma delete_record_quarantine_absent:
  assumes inv: "heap_inv s" and c: "contents s q = None" and np: "\<And>n. \<not> pool_full s n"
    and q: "1 \<le> rid_page q" "0 \<le> rid_slot q" "nat (rid_slot q) < slots_per_page s"
  shows "delete_record_quarantine q plsn s = (Ret (), s)"
proof -
  have o: "heap_ok s" using inv by (simp add: heap_inv_def)
  show ?thesis
  proof (cases "rid_page q < num_pages (file_hdr s)")
    case True
    then show ?thesis using fetch_page_handle_ok [OF o q(1) True] absent_slot [OF c q(1) True q(2,3)] np q(1)
      by (simp add: delete_record_quarantine_def Let_def obind_def)
  qed (use q in \<open>simp add: delete_record_quarantine_def Let_def\<close>)
qed

subsection \<open>Inserting at a given position\<close>

lemma extend_to_ok:
  assumes "heap_inv s" "n + 1 < 2 ^ 31" "n < num_pages (file_hdr s) + int fuel" "extend_to fuel n l s = (r, s')"
  shows "r = Ret () \<and> kept s s' \<and> n < num_pages (file_hdr s')"
  using assms
proof (induction fuel arbitrary: s)
  case (Suc fuel s)
  show ?case
  proof (cases "n < num_pages (file_hdr s)")
    case True
    then show ?thesis using Suc.prems kept_refl by simp
  next
    case False
    obtain xs where o: "heap_ok s" "free_ok s xs" using Suc.prems(1) by (auto simp: heap_inv_def)
    obtain r1 s1 where c: "create_new_page_handle s = (r1, s1)" by fastforce
    have lim: "num_pages (file_hdr s) + 1 < 2 ^ 31" using False Suc.prems(2) by simp
    note cn = create_new_page_ok [OF o lim c]
    let ?m = "num_pages (file_hdr s)"
    define s2 where "s2 = upd_hp ?m unpin_dirty (upd_hp ?m (MarkPageWalState l) s1)"
    have k: "kept s s2" unfolding s2_def using cn mark_kept kept_trans kept_inv by (metis data_mark(1,2))
    have e: "extend_to fuel n l s2 = (r, s')" using Suc.prems(4) False c cn by (simp add: s2_def)
    have "n < num_pages (file_hdr s2) + int fuel" using Suc.prems(3) cn by (simp add: s2_def)
    from Suc.IH [OF kept_inv [OF k] Suc.prems(2) this e] show ?thesis using k kept_trans by blast
  qed
qed (simp add: kept_refl)

lemma insert_record_at_ok:
  assumes inv: "heap_inv s" and c: "contents s q = None" and b: "length buf = record_size (file_hdr s)" and np: "\<And>n. \<not> pool_full s n"
    and q: "1 \<le> rid_page q" "rid_page q + 1 < 2 ^ 31" "0 \<le> rid_slot q" "nat (rid_slot q) < slots_per_page s"
    and u: "insert_record_at q buf plsn s = (r, s')"
  shows "r = Ret () \<and> stores s s' ((contents s)(q \<mapsto> buf)) \<and> nat (rid_slot q) \<notin> set (quarantined_slots s' (rid_page q))"
proof -
  let ?n = "rid_page q" and ?k = "nat (rid_slot q)"
  obtain r1 s1 where e: "extend_to (nat (?n + 1 - num_pages (file_hdr s))) ?n plsn s = (r1, s1)" by fastforce
  have x: "r1 = Ret ()" "kept s s1" "?n < num_pages (file_hdr s1)" using extend_to_ok [OF inv q(2) _ e] by simp_all
  note i1 = kept_inv [OF x(2)]
  have o1: "heap_ok s1" using i1 by (simp add: heap_inv_def)
  have sz: "contents s1 = contents s" "record_size (file_hdr s1) = record_size (file_hdr s)" "slots_per_page s1 = slots_per_page s" "pool_full s1 = pool_full s"
    using x(2) by (simp_all add: kept_def)
  have k: "?k < slots_per_page s1" "length buf = record_size (file_hdr s1)" using q(4) b sz by simp_all
  have ns: "\<not> slot_is_set (data (hp_pages s1 ?n)) ?k" using absent_slot [OF _ q(1) x(3) q(3) k(1)] c sz(1) by simp
  define w where "w = (quarantined_slots s1)(?n := removeAll ?k (quarantined_slots s1 ?n))"
  define s2 where "s2 = upd_hp ?n (MarkPageWalState plsn) ((publish_slot ?n ?k buf s1)\<lparr>quarantined_slots := w\<rparr>)"
  obtain r3 s3 where u3: "unlink_if_full ?n plsn s2 = (r3, s3)" by fastforce
  have r: "r = r3" "s' = upd_hp ?n unpin_dirty s3"
    using u e x(1) fetch_page_handle_ok [OF o1 q(1) x(3)] np sz(4) ns u3
    by (simp_all add: insert_record_at_def Let_def obind_def finally_dirty_def s2_def w_def)
  have wd: "w = quarantined_slots s1 \<or> w = (quarantined_slots s1)(?n := removeAll ?k (quarantined_slots s1 ?n))" by (simp add: w_def)
  have qq: "\<lparr>rid_page = ?n, rid_slot = int ?k\<rparr> = q" using q(3) by simp
  note ps = publish_step [OF i1 q(1) x(3) k(1) ns k(2) wd s2_def u3 r(2), unfolded qq]
  have "stores s1 s' ((contents s1)(q \<mapsto> buf))" "quarantined_slots s' = w" "r3 = Ret ()"
    using ps np sz(4) publish_stores [where s' = s' and m = "(contents s1)(q \<mapsto> buf)" and s = s1] by auto
  then show ?thesis using r(1) stores_trans [OF kept_stores [OF x(2)]] sz(1) by (simp add: w_def)
qed

subsection \<open>An example file\<close>

text \<open>A new file of records of 8 bytes, and its state after the first insertion.\<close>

definition ex_hdr :: rm_file_hdr where
  "ex_hdr = \<lparr>record_size = 8, num_pages = 1, num_records_per_page = 502, first_free_page_no = RM_NO_PAGE, bitmap_size = 63\<rparr>"

definition ex_disk :: disk where
  "ex_disk = DiskManager_new \<lparr>os_files = Map.empty, os_fds = Map.empty, os_max_fd = 8, os_short = (\<lambda>_ _. None)\<rparr>"

definition ex_heap :: heap_file where
  "ex_heap = RmFileHandle_new ex_hdr (\<lambda>_. Page_new) (\<lambda>_. False) 1 LogManager_new ex_disk"

definition ex_rid :: rid where "ex_rid = \<lparr>rid_page = 1, rid_slot = 0\<rparr>"

definition ex_rec :: "byte list" where "ex_rec = replicate 8 7"

definition ex_heap1 :: heap_file where "ex_heap1 = snd (insert_record ex_rec None [] ex_heap)"

lemma ex_hdr_new: "new_file_hdr 8 = Ret ex_hdr"
  by (simp add: new_file_hdr_def ex_hdr_def RM_MAX_RECORD_SIZE_def PAGE_SIZE_def OFFSET_PAGE_HDR_def sizeof_RmPageHdr_def BITMAP_WIDTH_def)

lemma ex_heap_inv: "heap_inv ex_heap" "contents ex_heap = Map.empty"
  unfolding ex_heap_def by (rule RmFileHandle_new_inv [OF ex_hdr_new]; simp)+

lemma ex_heap_fields [simp]: "file_hdr ex_heap = ex_hdr" "pool_full ex_heap n = False" "num_pages ex_hdr = 1" "record_size ex_hdr = 8"
    "num_records_per_page ex_hdr = 502" "first_free_page_no ex_hdr = RM_NO_PAGE" "quarantined_slots ex_heap n = []" "reserved_slots ex_heap n = []"
    "length ex_rec = 8" "rid_page ex_rid = 1" "rid_slot ex_rid = 0"
  by (simp_all add: ex_heap_def RmFileHandle_new_def ex_hdr_def ex_rec_def ex_rid_def)

lemma first_available_zero:
  assumes "\<not> slot_is_set (data p) 0" "quarantined_slots s n = []" "reserved_slots s n = []" "0 < slots_per_page s"
  shows "first_available_slot s n p = 0"
  using assms by (simp add: first_available_slot_def upt_conv_Cons)

lemma insert_first_rid:
  assumes inv: "heap_inv s" and c: "contents s = Map.empty" and n: "num_pages (file_hdr s) = 1" and ff: "first_free_page_no (file_hdr s) = RM_NO_PAGE"
    and i: "insert_record buf ctx t s = (Ret q, s')"
  shows "q = \<lparr>rid_page = 1, rid_slot = 0\<rparr>"
proof -
  obtain xs where o: "heap_ok s" "free_ok s xs" using inv by (auto simp: heap_inv_def)
  obtain r1 s1 where c1: "create_new_page_handle s = (r1, s1)" by fastforce
  note cn = create_new_page_ok [OF o _ c1, unfolded n]
  have r1: "r1 = Ret 1" "kept s s1" "num_pages (file_hdr s1) = 2" using cn by auto
  have cp: "create_page_handle s = (Ret 1, s1)" using c1 r1(1) ff by (simp add: create_page_handle_def n)
  have "\<not> slot_is_set (data (hp_pages s1 1)) 0"
    using absent_slot [of s1 "\<lparr>rid_page = 1, rid_slot = 0\<rparr>"] r1(2,3) heap_okD(2) [OF o(1)] c by (simp add: kept_def)
  then have "first_available_slot s1 1 (hp_pages s1 1) = 0"
    using r1(2) heap_okD(2,9) [OF o(1)] n by (intro first_available_zero) (simp_all add: kept_def)
  then show ?thesis using i cp by (auto simp: insert_record_def Let_def obind_def finally_dirty_def hret_def split: prod.splits outcome.splits if_splits)
qed

lemma ex_insert: "insert_record ex_rec None [] ex_heap = (Ret ex_rid, ex_heap1)" "heap_inv ex_heap1" "contents ex_heap1 = [ex_rid \<mapsto> ex_rec]"
    "pool_full ex_heap1 n = False" "record_size (file_hdr ex_heap1) = 8" "slots_per_page ex_heap1 = 502"
proof -
  obtain r where i: "insert_record ex_rec None [] ex_heap = (r, ex_heap1)" by (metis ex_heap1_def prod.collapse)
  note k = insert_record_ok [OF ex_heap_inv(1) _ _ i]
  have "is_Ret r" using k by simp
  then obtain q where q: "r = Ret q" by (cases r) auto
  have "q = ex_rid" using insert_first_rid [OF ex_heap_inv] i q by (simp add: ex_rid_def)
  then show "insert_record ex_rec None [] ex_heap = (Ret ex_rid, ex_heap1)" "heap_inv ex_heap1" "contents ex_heap1 = [ex_rid \<mapsto> ex_rec]"
    "pool_full ex_heap1 n = False" "record_size (file_hdr ex_heap1) = 8" "slots_per_page ex_heap1 = 502"
    using i q k ex_heap_inv(2) by (simp_all add: stores_def)
qed

subsection \<open>Properties\<close>

text \<open>
  C17. The header that \<open>RmManager::create_file\<close> computes for a record size it accepts describes a page that fits: all
  its slots, with the bitmap before them, lie within the 4096 bytes of a page; the bitmap has a bit for each slot and
  not a byte too many; and a page holds at least 7 records. Other record sizes raise \<open>InvalidRecordSizeError\<close>.
\<close>

theorem heap_page_layout:
  "(\<exists>h. new_file_hdr rsize = Ret h \<and> 1 \<le> rsize \<and> rsize \<le> RM_MAX_RECORD_SIZE \<and> record_size h = nat rsize
      \<and> slot_offset h (num_records_per_page h) \<le> PAGE_SIZE \<and> 7 \<le> num_records_per_page h
      \<and> num_records_per_page h \<le> 8 * bitmap_size h \<and> 8 * bitmap_size h < num_records_per_page h + 8)
   \<or> (rsize < 1 \<or> RM_MAX_RECORD_SIZE < rsize) \<and> new_file_hdr rsize = Throw (InvalidRecordSizeError rsize)"
proof (cases "rsize < 1 \<or> RM_MAX_RECORD_SIZE < rsize")
  case False
  then obtain h where h: "new_file_hdr rsize = Ret h" "record_size h = nat rsize" by (simp add: new_file_hdr_def Let_def)
  have "num_records_per_page h \<le> 8 * bitmap_size h" "slot_offset h (num_records_per_page h) \<le> PAGE_SIZE"
    using new_file_hdr_fits [OF h(1)] by (simp_all add: page_fits_def)
  then show ?thesis using new_file_hdr_fits [OF h(1)] h False by auto
qed (simp add: new_file_hdr_def)

text \<open>
  C18. Inserting a record refines the update of a map. When \<open>insert_record\<close> returns a position, no record was stored
  there, the slot was neither quarantined by a deletion nor reserved by another insertion, and the file holds what it
  held before and the new record at that position, with its invariant kept. When the buffer pool has frames, a call that
  does not return leaves the contents as they were (only the log can fail), and a call that does not log always returns a position.
\<close>

theorem heap_insert_refines_map:
  assumes "heap_inv s" and "num_pages (file_hdr s) + 1 < 2 ^ 31" and "length buf = record_size (file_hdr s)" and "\<forall>m. \<not> pool_full s m"
    and "insert_record buf ctx table_name s = (r, s')"
  shows "heap_inv s' \<and> (case r of
      Ret q \<Rightarrow> contents s q = None \<and> contents s' = (contents s)(q \<mapsto> buf)
        \<and> nat (rid_slot q) \<notin> set (reserved_slots s (rid_page q)) \<and> nat (rid_slot q) \<notin> set (quarantined_slots s (rid_page q))
    | _ \<Rightarrow> contents s' = contents s \<and> ctx \<noteq> None \<and> table_name \<noteq> [])"
  using insert_record_ok [OF assms(1,2,3,5)] assms(4) by (cases r) (auto simp: stores_def kept_def)

theorem heap_insert_refines_map_witness:
  "insert_record ex_rec None [] ex_heap = (Ret ex_rid, ex_heap1) \<and> contents ex_heap ex_rid = None
    \<and> contents ex_heap1 = [ex_rid \<mapsto> ex_rec] \<and> heap_inv ex_heap1"
  using heap_insert_refines_map [OF ex_heap_inv(1) _ _ _ ex_insert(1)] ex_insert(1) ex_heap_inv(2) by simp

text \<open>
  C19. A stored record is read back; updating it replaces it, deleting it removes it, in both cases nothing else changes and the
  invariant is kept: a page that was full is linked into the free list again. The only way not to succeed is
  a failing log append, and then nothing changes.
\<close>

theorem heap_record_operations:
  assumes "heap_inv s" and "contents s q = Some v" and "\<not> pool_full s (rid_page q)" and "length buf = record_size (file_hdr s)"
    and "update_record q buf ctx table_name old plsn s = (ru, su)" and "delete_record q ctx table_name s = (rd, sd)"
  shows "get_record q s = (Ret v, s)
    \<and> heap_inv su \<and> (ru = Ret () \<and> contents su = (contents s)(q \<mapsto> buf)
           \<or> \<not> is_Ret ru \<and> contents su = contents s \<and> plsn = INVALID_LSN \<and> ctx \<noteq> None \<and> table_name \<noteq> [])
    \<and> heap_inv sd \<and> (rd = Ret () \<and> contents sd = (contents s)(q := None)
           \<or> \<not> is_Ret rd \<and> contents sd = contents s \<and> ctx \<noteq> None \<and> table_name \<noteq> [])"
proof -
  have "get_record q s = (Ret v, s)" using get_record_ok(1) [OF assms(1-3)] .
  moreover have "heap_inv su \<and> (ru = Ret () \<and> contents su = (contents s)(q \<mapsto> buf)
           \<or> \<not> is_Ret ru \<and> contents su = contents s \<and> plsn = INVALID_LSN \<and> ctx \<noteq> None \<and> table_name \<noteq> [])"
    using update_record_ok [OF assms(1,2,4,3,5)] by (cases "plsn \<noteq> INVALID_LSN \<or> ctx = None \<or> table_name = []") (simp_all add: stores_def kept_def, blast)
  moreover have "heap_inv sd \<and> (rd = Ret () \<and> contents sd = (contents s)(q := None)
           \<or> \<not> is_Ret rd \<and> contents sd = contents s \<and> ctx \<noteq> None \<and> table_name \<noteq> [])"
    using delete_record_ok [OF assms(1,2,3,6)] by (cases "ctx = None \<or> table_name = []") (simp_all add: stores_def kept_def, blast)
  ultimately show ?thesis by simp
qed

theorem heap_record_operations_witness:
  "get_record ex_rid ex_heap1 = (Ret ex_rec, ex_heap1)
   \<and> contents (snd (update_record ex_rid (replicate 8 1) None [] None INVALID_LSN ex_heap1)) = [ex_rid \<mapsto> replicate 8 1]
   \<and> contents (snd (delete_record ex_rid None [] ex_heap1)) = Map.empty"
proof -
  obtain ru su rd sd where u: "update_record ex_rid (replicate 8 1) None [] None INVALID_LSN ex_heap1 = (ru, su)"
    and d: "delete_record ex_rid None [] ex_heap1 = (rd, sd)" by fastforce
  have "contents ex_heap1 ex_rid = Some ex_rec" by (simp add: ex_insert(3))
  from heap_record_operations [OF ex_insert(2) this _ _ u d] show ?thesis using u d by (simp add: ex_insert)
qed

text \<open>
  C20. Redo and undo of an insertion. A record deleted in quarantine is gone and its slot is not offered to
  any insertion that looks for room; repeating the deletion changes nothing; and \<open>insert_record_at\<close> puts a record back
  at exactly that position, creating the pages up to it, and lifts the quarantine.
\<close>

theorem heap_quarantine_roundtrip:
  assumes "heap_inv s" and "contents s q = Some v" and "\<forall>n. \<not> pool_full s n" and "length buf = record_size (file_hdr s)"
    and "delete_record_quarantine q l1 s = (r1, s1)" and "insert_record_at q buf l2 s1 = (r2, s2)" and "rid_page q + 1 < 2 ^ 31"
  shows "r1 = Ret () \<and> contents s1 = (contents s)(q := None) \<and> heap_inv s1
    \<and> (first_available_slot s1 (rid_page q) (hp_pages s1 (rid_page q)) \<noteq> nat (rid_slot q))
    \<and> delete_record_quarantine q l1 s1 = (Ret (), s1)
    \<and> r2 = Ret () \<and> contents s2 = (contents s)(q \<mapsto> buf) \<and> heap_inv s2
    \<and> nat (rid_slot q) \<notin> set (quarantined_slots s2 (rid_page q))"
proof -
  note c = contentsD [OF assms(2)]
  have d: "r1 = Ret ()" "stores s s1 ((contents s)(q := None))"
      "quarantined_slots s1 = (quarantined_slots s)(rid_page q := List.insert (nat (rid_slot q)) (quarantined_slots s (rid_page q)))"
    using delete_record_quarantine_ok [OF assms(1,2) _ assms(5)] assms(3) by auto
  have s1: "heap_inv s1" "contents s1 = (contents s)(q := None)" "slots_per_page s1 = slots_per_page s" "record_size (file_hdr s1) = record_size (file_hdr s)"
    "pool_full s1 = pool_full s" using d(2) by (simp_all add: stores_def)
  have "first_available_slot s1 (rid_page q) (hp_pages s1 (rid_page q)) \<noteq> nat (rid_slot q)"
    using first_available_props(1) [of s1 "rid_page q" "hp_pages s1 (rid_page q)"] d(3) c(4) s1(3) by auto
  moreover have "delete_record_quarantine q l1 s1 = (Ret (), s1)"
    by (rule delete_record_quarantine_absent [OF s1(1)]) (use s1 c assms(3) in simp_all)
  moreover have "r2 = Ret () \<and> stores s1 s2 ((contents s1)(q \<mapsto> buf)) \<and> nat (rid_slot q) \<notin> set (quarantined_slots s2 (rid_page q))"
    by (rule insert_record_at_ok [OF s1(1) _ _ _ c(1) _ c(3) _ assms(6)]) (use s1 c(2,4) assms(3,4,7) in simp_all)
  ultimately show ?thesis using d(1) s1 by (simp add: stores_def)
qed

theorem heap_quarantine_roundtrip_witness:
  "contents (snd (delete_record_quarantine ex_rid 7 ex_heap1)) = Map.empty
   \<and> contents (snd (insert_record_at ex_rid (replicate 8 2) 8 (snd (delete_record_quarantine ex_rid 7 ex_heap1)))) = [ex_rid \<mapsto> replicate 8 2]"
proof -
  obtain r1 s1 r2 s2 where d: "delete_record_quarantine ex_rid 7 ex_heap1 = (r1, s1)" "insert_record_at ex_rid (replicate 8 2) 8 s1 = (r2, s2)" by fastforce
  have c: "contents ex_heap1 ex_rid = Some ex_rec" by (simp add: ex_insert(3))
  from heap_quarantine_roundtrip [OF ex_insert(2) c _ _ d] show ?thesis using d by (simp add: ex_insert)
qed

end
