(* ===== verification/Rmdb_Heap_Scan.thy ===== *)
theory Rmdb_Heap_Scan
  imports Rmdb_Heap_Props
begin

text \<open>
  The sequential scan of a heap file, \<^verbatim>\<open>src/src/record/rm_scan.cpp\<close>, against its specification: the positions of all
  stored records in order. \<open>scan_collect\<close> is the loop every client of \<open>RmScan\<close> has.
\<close>

fun scan_collect :: "nat \<Rightarrow> rm_scan \<Rightarrow> rid list heap_op" where
  "scan_collect 0 sc s = (if scan_is_end sc then (Ret [], s) else (Wait, s))"
| "scan_collect (Suc fuel) sc s =
     (if scan_is_end sc then (Ret [], s)
      else obind (scan_next sc) (\<lambda>sc1. obind (scan_collect fuel sc1) (\<lambda>rs. hret (scan_rid sc # rs))) s)"

definition scan_all :: "nat \<Rightarrow> rid list heap_op" where
  "scan_all fuel = obind RmScan_new (scan_collect fuel)"

subsection \<open>The positions that remain\<close>

definition page_tail :: "heap_file \<Rightarrow> int \<Rightarrow> nat \<Rightarrow> rid list" where
  "page_tail s n j = map (\<lambda>k. \<lparr>rid_page = n, rid_slot = int k\<rparr>) (filter (slot_is_set (data (hp_pages s n))) [j..<slots_per_page s])"

function remaining :: "heap_file \<Rightarrow> int \<Rightarrow> int \<Rightarrow> nat \<Rightarrow> rid list" where
  "remaining s snap n j = (if n \<ge> snap then [] else page_tail s n j @ remaining s snap (n + 1) 0)"
  by pat_completeness auto
termination
  by (relation "measure (\<lambda>(s, snap, n, j). nat (snap - n))") auto

declare remaining.simps [simp del]

lemma filter_next_bit:
  "filter (is_set bm) [i..<m] =
     (if next_bit_from True bm m i < m then next_bit_from True bm m i # filter (is_set bm) [Suc (next_bit_from True bm m i)..<m] else [])"
proof (induction True bm m i rule: next_bit_from.induct)
  case (1 bm m i)
  then show ?case by (auto simp: next_bit_from.simps [of True bm m i] upt_conv_Cons)
qed

lemma page_tail_next:
  assumes "k = next_bit True (drop OFFSET_BITMAP (data (hp_pages s n))) (slots_per_page s) c" and "- 1 \<le> c"
  shows "page_tail s n (nat (c + 1)) =
    (if k < slots_per_page s then \<lparr>rid_page = n, rid_slot = int k\<rparr> # page_tail s n (Suc k) else [])"
proof -
  have e: "slot_is_set (data (hp_pages s n)) = is_set (drop OFFSET_BITMAP (data (hp_pages s n)))"
    by (intro ext) (simp add: slot_is_set_def)
  show ?thesis unfolding page_tail_def e assms(1) next_bit_def
    by (subst filter_next_bit) simp
qed

definition head_or_end :: "rid list \<Rightarrow> rid" where
  "head_or_end qs = (case qs of [] \<Rightarrow> scan_end | q # _ \<Rightarrow> q)"

lemma scan_from_remaining:
  assumes "heap_inv s" "\<And>n. \<not> pool_full s n" "snap \<le> num_pages (file_hdr s)" "1 \<le> n" "rid_page r \<le> n" "- 1 \<le> rid_slot r"
  shows "scan_from snap n r s = (Ret (head_or_end (remaining s snap n (if n = rid_page r then nat (rid_slot r + 1) else 0))), s)"
  using assms
proof (induction "nat (snap - n)" arbitrary: n rule: less_induct)
  case less
  have o: "heap_ok s" using less.prems(1) by (simp add: heap_inv_def)
  show ?case
  proof (cases "snap \<le> n")
    case True
    then show ?thesis by (simp add: scan_from.simps [of snap n] remaining.simps [of s snap n] head_or_end_def)
  next
    case False
    define c where "c = (if n = rid_page r then rid_slot r else - 1)"
    define k where "k = next_bit True (drop OFFSET_BITMAP (data (hp_pages s n))) (slots_per_page s) c"
    have c: "- 1 \<le> c" "nat (c + 1) = (if n = rid_page r then nat (rid_slot r + 1) else 0)" using less.prems(6) by (simp_all add: c_def)
    note pt = page_tail_next [OF k_def c(1), unfolded c(2)]
    have "fetch_page_handle n s = (Ret (hp_pages s n), s)" using fetch_page_handle_ok [OF o less.prems(4)] False less.prems(2,3) by simp
    then have e: "scan_from snap n r s = (if k < slots_per_page s then (Ret \<lparr>rid_page = n, rid_slot = int k\<rparr>, s) else scan_from snap (n + 1) r s)"
      using False by (simp add: scan_from.simps [of snap n] Let_def k_def c_def)
    have "scan_from snap (n + 1) r s = (Ret (head_or_end (remaining s snap (n + 1) 0)), s)"
      using less.hyps [of "n + 1"] less.prems False by simp
    then show ?thesis using e pt False by (simp add: remaining.simps [of s snap n] head_or_end_def)
  qed
qed

lemma remaining_Cons:
  assumes "remaining s snap n j = q # qs"
  shows "n \<le> rid_page q \<and> rid_page q < snap \<and> 0 \<le> rid_slot q \<and> qs = remaining s snap (rid_page q) (Suc (nat (rid_slot q)))"
  using assms
proof (induction s snap n j rule: remaining.induct)
  case (1 s snap n j)
  have n: "\<not> snap \<le> n" using "1.prems" by (auto simp: remaining.simps [of s snap n])
  then have r: "q # qs = page_tail s n j @ remaining s snap (n + 1) 0" using "1.prems" by (simp add: remaining.simps [of s snap n])
  show ?case
  proof (cases "page_tail s n j")
    case Nil
    then show ?thesis using "1.IH" [OF n] r by auto
  next
    case (Cons q1 ts)
    obtain k ks where k: "filter (slot_is_set (data (hp_pages s n))) [j..<slots_per_page s] = k # ks" "q1 = \<lparr>rid_page = n, rid_slot = int k\<rparr>"
      using Cons by (auto simp: page_tail_def)
    have "page_tail s n j = q1 # page_tail s n (Suc k)"
    proof -
      let ?bm = "drop OFFSET_BITMAP (data (hp_pages s n))"
      have e: "slot_is_set (data (hp_pages s n)) = is_set ?bm" by (intro ext) (simp add: slot_is_set_def)
      have "k = next_bit_from True ?bm (slots_per_page s) j" using k(1) filter_next_bit [of ?bm j "slots_per_page s"] by (simp add: e split: if_splits)
      then show ?thesis using filter_next_bit [of ?bm j "slots_per_page s"] k by (simp add: page_tail_def e split: if_splits)
    qed
    then show ?thesis using r n k(2) by (simp add: remaining.simps [of s snap n])
  qed
qed

lemma set_remaining:
  "q \<in> set (remaining s snap n j) \<longleftrightarrow> (rid_page q = n \<and> int j \<le> rid_slot q \<or> n < rid_page q) \<and> rid_page q < snap \<and> 0 \<le> rid_slot q
     \<and> nat (rid_slot q) < slots_per_page s \<and> slot_is_set (data (hp_pages s (rid_page q))) (nat (rid_slot q))"
proof (induction s snap n j rule: remaining.induct)
  case (1 s snap n j)
  have "q \<in> set (page_tail s n j) \<longleftrightarrow> rid_page q = n \<and> int j \<le> rid_slot q \<and> 0 \<le> rid_slot q \<and> nat (rid_slot q) < slots_per_page s
     \<and> slot_is_set (data (hp_pages s n)) (nat (rid_slot q))"
  proof (cases q)
    case (fields m k)
    then show ?thesis unfolding page_tail_def set_map set_filter image_iff by (auto intro!: exI [of _ "nat k"])
  qed
  then show ?case using 1 by (cases "snap \<le> n") (auto simp: remaining.simps [of s snap n])
qed

definition rid_less :: "rid \<Rightarrow> rid \<Rightarrow> bool" where
  "rid_less a b \<longleftrightarrow> rid_page a < rid_page b \<or> rid_page a = rid_page b \<and> rid_slot a < rid_slot b"

lemma remaining_sorted: "sorted_wrt rid_less (remaining s snap n j)"
proof (induction "length (remaining s snap n j)" arbitrary: n j)
  case (Suc m)
  then obtain q qs where q: "remaining s snap n j = q # qs" by (cases "remaining s snap n j") auto
  note c = remaining_Cons [OF q]
  have "sorted_wrt rid_less qs" using Suc.hyps(1) [of "rid_page q" "Suc (nat (rid_slot q))"] Suc.hyps(2) q c by simp
  moreover have "\<forall>p \<in> set qs. rid_less q p" using c set_remaining by (auto simp: rid_less_def)
  ultimately show ?case by (simp add: q)
qed simp

lemma remaining_length: "int (length (remaining s snap n j)) \<le> max 0 (snap - n) * int (slots_per_page s)"
proof (induction s snap n j rule: remaining.induct)
  case (1 s snap n j)
  show ?case
  proof (cases "snap \<le> n")
    case False
    have "length (page_tail s n j) \<le> slots_per_page s"
      unfolding page_tail_def length_map using le_trans [OF length_filter_le] by (metis diff_le_self length_upt)
    moreover have "max 0 (snap - n) * int (slots_per_page s) = max 0 (snap - (n + 1)) * int (slots_per_page s) + int (slots_per_page s)"
      using False by (simp add: algebra_simps max_def)
    ultimately show ?thesis using 1 [OF False] False by (simp add: remaining.simps [of s snap n])
  qed (simp add: remaining.simps [of s snap n])
qed

lemma scan_collect_remaining:
  assumes "heap_inv s" "\<And>n. \<not> pool_full s n" "scan_num_pages sc \<le> num_pages (file_hdr s)"
    and "scan_rid sc = head_or_end (remaining s (scan_num_pages sc) n j)" "1 \<le> n" "length (remaining s (scan_num_pages sc) n j) \<le> fuel"
  shows "scan_collect fuel sc s = (Ret (remaining s (scan_num_pages sc) n j), s)"
  using assms(3-)
proof (induction fuel arbitrary: sc n j)
  case 0
  then show ?case by (simp add: scan_is_end_def head_or_end_def scan_end_def)
next
  case (Suc fuel)
  let ?snap = "scan_num_pages sc"
  show ?case
  proof (cases "remaining s ?snap n j")
    case Nil
    then show ?thesis using Suc.prems by (simp add: scan_is_end_def head_or_end_def scan_end_def)
  next
    case (Cons q qs)
    note c = remaining_Cons [OF Cons]
    have q: "scan_rid sc = q" "\<not> scan_is_end sc" using Suc.prems(2,3) Cons c by (auto simp: head_or_end_def scan_is_end_def)
    have "0 \<le> rid_slot q" using c by blast
    then have j: "Suc (nat (rid_slot q)) = nat (rid_slot q + 1)" by simp
    have "scan_next sc s = (Ret (sc\<lparr>scan_rid := head_or_end qs\<rparr>), s)"
      using scan_from_remaining [OF assms(1,2) Suc.prems(1), of "rid_page q" q] c q(1) Suc.prems(3) j by (simp add: scan_next_def hret_def)
    moreover have "scan_collect fuel (sc\<lparr>scan_rid := head_or_end qs\<rparr>) s = (Ret qs, s)"
      using Suc.IH [of "sc\<lparr>scan_rid := head_or_end qs\<rparr>" "rid_page q" "Suc (nat (rid_slot q))"] c Suc.prems Cons by simp
    ultimately show ?thesis using q Cons by (simp add: hret_def)
  qed
qed

lemma RmScan_new_remaining:
  assumes "heap_inv s" "\<And>n. \<not> pool_full s n"
  shows "RmScan_new s = (Ret \<lparr>scan_rid = head_or_end (remaining s (num_pages (file_hdr s)) 1 0), scan_num_pages = num_pages (file_hdr s)\<rparr>, s)"
proof -
  have "num_pages_snapshot s = num_pages (file_hdr s)" using assms(1) by (simp add: heap_inv_def heap_okD(3))
  then show ?thesis
    using scan_from_remaining [OF assms order.refl, of 1 "\<lparr>rid_page = 1, rid_slot = - 1\<rparr>"] by (simp add: RmScan_new_def scan_next_def hret_def)
qed

subsection \<open>Property\<close>

text \<open>
  C21. A scan returns the positions of exactly the stored records, each once, in ascending order of page and slot, and it ends: as many steps as the
  file has slots are enough. The file is not changed.
\<close>

theorem heap_scan_enumerates:
  assumes "heap_inv s" and "\<forall>n. \<not> pool_full s n" and "nat (num_pages (file_hdr s)) * slots_per_page s \<le> fuel"
  shows "\<exists>qs. scan_all fuel s = (Ret qs, s) \<and> set qs = dom (contents s) \<and> sorted_wrt rid_less qs"
proof (intro exI conjI)
  let ?snap = "num_pages (file_hdr s)" and ?qs = "remaining s (num_pages (file_hdr s)) 1 0"
  have p: "1 \<le> ?snap" using assms(1) heap_okD(5) by (auto simp: heap_inv_def)
  have "int (length ?qs) \<le> (?snap - 1) * int (slots_per_page s)" using remaining_length [of s ?snap 1 0] p by simp
  also have "\<dots> \<le> ?snap * int (slots_per_page s)" by (intro mult_right_mono) simp_all
  also have "\<dots> = int (nat ?snap * slots_per_page s)" using p by simp
  finally have "length ?qs \<le> fuel" using assms(3) by linarith
  then show "scan_all fuel s = (Ret ?qs, s)"
    using RmScan_new_remaining assms(1,2) scan_collect_remaining [of s "\<lparr>scan_rid = head_or_end ?qs, scan_num_pages = ?snap\<rparr>" 1 0 fuel]
    by (simp add: scan_all_def)
  show "set ?qs = dom (contents s)"
    by (auto simp: set_remaining contents_def Let_def dom_def split: if_splits)
  show "sorted_wrt rid_less ?qs" by (rule remaining_sorted)
qed

theorem heap_scan_enumerates_witness:
  "\<exists>qs. scan_all (nat (num_pages (file_hdr ex_heap1)) * 502) ex_heap1 = (Ret qs, ex_heap1) \<and> set qs = {ex_rid} \<and> sorted_wrt rid_less qs"
  using heap_scan_enumerates [OF ex_insert(2), of "nat (num_pages (file_hdr ex_heap1)) * 502"] by (simp add: ex_insert)

end
