(* ===== verification/Rmdb_Heap_Reserve.thy ===== *)
theory Rmdb_Heap_Reserve
  imports Rmdb_Heap_Props
begin

text \<open>
  Reserved insertions of the heap file. A reservation gives a concurrent insertion its slot before it logs and publishes the record:
  the slots handed out are pairwise different, the search for a slot ends, and publishing a record into its slot
  removes the reservation.
\<close>

text \<open>The pages the reservations rotate over are pages of the file, each listed once.\<close>

definition active_ok :: "heap_file \<Rightarrow> bool" where
  "active_ok s \<longleftrightarrow> distinct (active_insert_pages s) \<and> set (active_insert_pages s) \<subseteq> {RM_FIRST_RECORD_PAGE..<num_pages (file_hdr s)}"

lemma active_irrelevant [simp]:
  "heap_ok (s\<lparr>active_insert_pages := as\<rparr>) = heap_ok s" "free_ok (s\<lparr>active_insert_pages := as\<rparr>) xs = free_ok s xs"
  "contents (s\<lparr>active_insert_pages := as\<rparr>) = contents s"
  "page_has_available_slot (s\<lparr>active_insert_pages := as\<rparr>) = page_has_available_slot s"
  by (simp_all add: heap_ok_def free_ok_def contents_def fun_eq_iff Let_def page_has_available_slot_def first_available_slot_def split: option.split)

lemma active_kept: "heap_inv s \<Longrightarrow> kept s (s\<lparr>active_insert_pages := as\<rparr>)"
  by (simp add: kept_def heap_inv_def)

lemma add_active_ok:
  assumes "active_ok s" "1 \<le> n" "n < num_pages (file_hdr s)"
  shows "active_ok (add_active_insert_page n s)" "n \<in> set (active_insert_pages (add_active_insert_page n s))"
    "n \<notin> set (active_insert_pages s) \<Longrightarrow> active_insert_pages (add_active_insert_page n s) = active_insert_pages s @ [n]"
    "add_active_insert_page n s = s\<lparr>active_insert_pages := active_insert_pages (add_active_insert_page n s)\<rparr>"
  using assms by (auto simp: add_active_insert_page_def active_ok_def)

subsection \<open>The active pages\<close>

lemma collect_active_ok:
  assumes "heap_ok s" "\<And>m. \<not> pool_full s m" "chain (hp_pages s) n ys" "set ys \<subseteq> {1..<num_pages (file_hdr s)}" "distinct ys"
    "set ys \<inter> set visited = {}" "length ys \<le> fuel" "active_ok s"
  shows "\<exists>as. collect_active fuel desired n visited s = (Ret (), s\<lparr>active_insert_pages := as\<rparr>) \<and> active_ok (s\<lparr>active_insert_pages := as\<rparr>)"
  using assms
proof (induction fuel arbitrary: s n ys visited)
  case 0
  then show ?case by (auto intro!: exI [of _ "active_insert_pages s"])
next
  case (Suc fuel)
  show ?case
  proof (cases "n = RM_NO_PAGE \<or> length (active_insert_pages s) \<ge> desired \<or> n \<in> set visited")
    case True
    then show ?thesis using Suc.prems(8) by (auto intro!: exI [of _ "active_insert_pages s"])
  next
    case False
    then obtain zs where z: "ys = n # zs" using Suc.prems(3) by (cases ys) auto
    have n: "1 \<le> n" "n < num_pages (file_hdr s)" using Suc.prems(4) z by auto
    define s1 where "s1 = (if page_has_available_slot s n then add_active_insert_page n s else s)"
    obtain bs where s1: "s1 = s\<lparr>active_insert_pages := bs\<rparr>" "active_ok s1"
      using add_active_ok(1,4) [OF Suc.prems(8) n] Suc.prems(8) that [of "active_insert_pages s1"] by (cases "page_has_available_slot s n") (auto simp: s1_def)
    have e: "collect_active (Suc fuel) desired n visited s = collect_active fuel desired (next_free_page_no (data (hp_pages s n))) (n # visited) s1"
      using False fetch_page_handle_ok [OF Suc.prems(1) n] Suc.prems(2) by (simp add: s1_def)
    have "\<exists>as. collect_active fuel desired (next_free_page_no (data (hp_pages s n))) (n # visited) s1 = (Ret (), s1\<lparr>active_insert_pages := as\<rparr>)
        \<and> active_ok (s1\<lparr>active_insert_pages := as\<rparr>)"
      using Suc.prems z s1(2) by (intro Suc.IH [of s1 _ zs]) (auto simp: s1(1))
    then show ?thesis unfolding e by (simp add: s1(1))
  qed
qed

lemma new_active_ok:
  assumes inv: "heap_inv s" and a: "active_ok s" and lim: "num_pages (file_hdr s) + 1 < 2 ^ 31"
    and c: "create_new_page_handle s = (r, s1)" and s2: "s2 = upd_hp n unpin_dirty (add_active_insert_page n s1)" and n: "n = num_pages (file_hdr s)"
  shows "r = Ret n \<and> kept s s2 \<and> active_ok s2 \<and> active_insert_pages s2 = active_insert_pages s @ [n]
    \<and> num_pages (file_hdr s2) = num_pages (file_hdr s) + 1 \<and> page_has_available_slot s2 n"
proof -
  obtain xs where o: "heap_ok s" "free_ok s xs" using inv by (auto simp: heap_inv_def)
  note cn = create_new_page_ok [OF o lim c, folded n]
  have p: "1 \<le> n" "n < num_pages (file_hdr s1)" "n \<notin> set (active_insert_pages s1)"
    using cn heap_okD(5) [OF o(1)] a n by (auto simp: active_ok_def)
  have a1: "active_ok s1" using a cn n by (auto simp: active_ok_def)
  note ad = add_active_ok [OF a1 p(1,2)]
  define s3 where "s3 = add_active_insert_page n s1"
  have s3: "s3 = s1\<lparr>active_insert_pages := active_insert_pages s1 @ [n]\<rparr>" using ad(3,4) p(3) by (simp add: s3_def)
  have av: "page_has_available_slot s2 n" unfolding s2 s3_def [symmetric] mark_steps(8) using cn by (simp add: s3)
  have "kept s s1" using cn by blast
  then have "kept s1 s3" unfolding s3 by (intro active_kept kept_inv)
  then have "kept s3 s2" unfolding s2 s3_def [symmetric] using mark_kept kept_inv by (metis data_mark(2))
  then have "kept s s2" using \<open>kept s1 s3\<close> cn kept_trans by blast
  moreover have "num_pages (file_hdr s1) = num_pages (file_hdr s) + 1" using create_new_page_ok [OF o lim c] by blast
  moreover have "active_ok s2" using ad(1) by (simp add: s2 active_ok_def)
  moreover have "active_insert_pages s2 = active_insert_pages s @ [n]" "file_hdr s2 = file_hdr s1" using cn by (simp_all add: s2 s3_def [symmetric] s3)
  ultimately show ?thesis using cn av by simp
qed

lemma create_active_ok:
  assumes "heap_inv s" "active_ok s" "num_pages (file_hdr s) + int fuel < 2 ^ 31" "desired \<le> length (active_insert_pages s) + fuel"
  shows "\<exists>s'. create_active fuel desired s = (Ret (), s') \<and> kept s s' \<and> active_ok s' \<and> num_pages (file_hdr s') \<le> num_pages (file_hdr s) + int fuel"
  using assms
proof (induction fuel arbitrary: s)
  case 0
  then show ?case by (simp add: kept_refl)
next
  case (Suc fuel)
  show ?case
  proof (cases "length (active_insert_pages s) < desired")
    case True
    let ?n = "num_pages (file_hdr s)"
    obtain r s1 where c: "create_new_page_handle s = (r, s1)" by fastforce
    define s2 where "s2 = upd_hp ?n unpin_dirty (add_active_insert_page ?n s1)"
    have lim: "?n + 1 < 2 ^ 31" using Suc.prems(3) by simp
    note na = new_active_ok [OF Suc.prems(1,2) lim c s2_def refl]
    have "\<exists>s'. create_active fuel desired s2 = (Ret (), s') \<and> kept s2 s' \<and> active_ok s' \<and> num_pages (file_hdr s') \<le> num_pages (file_hdr s2) + int fuel"
      using na Suc.prems(3,4) kept_inv by (intro Suc.IH) auto
    then show ?thesis using True c na kept_trans [of s s2] by (auto simp: s2_def [symmetric])
  qed (use Suc.prems kept_refl in auto)
qed

lemma ensure_active_ok:
  assumes inv: "heap_inv s" and a: "active_ok s" and np: "\<And>m. \<not> pool_full s m" and lim: "num_pages (file_hdr s) + 16 < 2 ^ 31"
  shows "\<exists>s'. ensure_active_insert_pages d s = (Ret (), s') \<and> kept s s' \<and> active_ok s' \<and> num_pages (file_hdr s') \<le> num_pages (file_hdr s) + 16"
proof -
  obtain xs where o: "heap_ok s" and x: "free_ok s xs" using inv by (auto simp: heap_inv_def)
  define desired where "desired = max 1 (min d kMaxActiveInsertPages)"
  have d: "desired \<le> 16" by (simp add: desired_def kMaxActiveInsertPages_def)
  define fuel where "fuel = Suc (nat (num_pages (file_hdr s)))"
  have "length xs \<le> fuel" using free_length [OF free_ok_but [OF x]] by (auto simp: fuel_def)
  then obtain as where c: "collect_active fuel desired (first_free_page_no (file_hdr s)) [] s = (Ret (), s\<lparr>active_insert_pages := as\<rparr>)"
      "active_ok (s\<lparr>active_insert_pages := as\<rparr>)"
    using collect_active_ok [OF o np, of "first_free_page_no (file_hdr s)" xs "[]" fuel desired] x a by (auto simp: free_ok_def)
  have k: "kept s (s\<lparr>active_insert_pages := as\<rparr>)" using active_kept [OF inv] .
  obtain s' where c2: "create_active desired desired (s\<lparr>active_insert_pages := as\<rparr>) = (Ret (), s')" "kept (s\<lparr>active_insert_pages := as\<rparr>) s'" "active_ok s'"
      "num_pages (file_hdr s') \<le> num_pages (file_hdr s) + int desired"
    using create_active_ok [OF kept_inv [OF k] c(2), of desired desired] lim d by auto
  have "ensure_active_insert_pages d s = (Ret (), s')"
    unfolding ensure_active_insert_pages_def desired_def [symmetric] fuel_def [symmetric] Let_def using c(1) c2(1) by (simp del: collect_active.simps)
  then show ?thesis using c2 kept_trans [OF k] d by auto
qed

subsection \<open>Reserving\<close>

definition free_slot :: "heap_file \<Rightarrow> rid \<Rightarrow> bool" where
  "free_slot s q \<longleftrightarrow> 1 \<le> rid_page q \<and> rid_page q < num_pages (file_hdr s) \<and> 0 \<le> rid_slot q \<and> nat (rid_slot q) < slots_per_page s
     \<and> \<not> slot_is_set (data (hp_pages s (rid_page q))) (nat (rid_slot q))
     \<and> nat (rid_slot q) \<notin> set (quarantined_slots s (rid_page q)) \<and> nat (rid_slot q) \<notin> set (reserved_slots s (rid_page q))"

lemma try_active_ok:
  assumes "heap_ok s" "\<And>m. \<not> pool_full s m" "active_ok s" "set idxs \<subseteq> {..<length (active_insert_pages s)}"
  shows "(\<exists>q c. try_active idxs s = (Ret (Some q), s\<lparr>reserved_slots := (reserved_slots s)(rid_page q := List.insert (nat (rid_slot q)) (reserved_slots s (rid_page q))),
              reserved_slot_count := Suc (reserved_slot_count s), active_insert_cursor := c\<rparr>) \<and> free_slot s q)
    \<or> try_active idxs s = (Ret None, s) \<and> (\<forall>i \<in> set idxs. \<not> page_has_available_slot s (active_insert_pages s ! i))"
  using assms(4)
proof (induction idxs)
  case (Cons i idxs)
  let ?n = "active_insert_pages s ! i" and ?k = "first_available_slot s (active_insert_pages s ! i) (hp_pages s (active_insert_pages s ! i))"
  have "?n \<in> set (active_insert_pages s)" using Cons.prems by simp
  then have n: "1 \<le> ?n" "?n < num_pages (file_hdr s)" using assms(3) by (auto simp: active_ok_def)
  note fp = fetch_page_handle_ok [OF assms(1) n]
  show ?case
  proof (cases "?k < slots_per_page s")
    case True
    then have "free_slot s \<lparr>rid_page = ?n, rid_slot = int ?k\<rparr>" using first_available_props(1) [OF True] n by (simp add: free_slot_def)
    moreover have "try_active (i # idxs) s = (Ret (Some \<lparr>rid_page = ?n, rid_slot = int ?k\<rparr>),
        s\<lparr>reserved_slots := (reserved_slots s)(?n := List.insert ?k (reserved_slots s ?n)), reserved_slot_count := Suc (reserved_slot_count s),
          active_insert_cursor := (i + 1) mod length (active_insert_pages s)\<rparr>)" using True fp assms(2) by (simp add: Let_def)
    ultimately show ?thesis by (intro disjI1 exI [of _ "\<lparr>rid_page = ?n, rid_slot = int ?k\<rparr>"] exI [of _ "(i + 1) mod length (active_insert_pages s)"]) (simp add: fun_upd_def del: try_active.simps)
  next
    case False
    then have "try_active (i # idxs) s = try_active idxs s" using fp assms(2) by (simp add: Let_def)
    then show ?thesis using Cons.IH Cons.prems False by (simp add: page_has_available_slot_def del: try_active.simps)
  qed
qed simp

lemma all_indices: "0 < count \<Longrightarrow> set (map (\<lambda>a. (cur + a) mod count) [0..<count]) = {..<(count::nat)}"
proof -
  assume c: "0 < count"
  have "i \<in> (\<lambda>a. (cur + a) mod count) ` {0..<count}" if i: "i < count" for i
  proof (rule image_eqI)
    let ?a = "(i + (count - cur mod count)) mod count"
    have "(cur + ?a) mod count = (cur mod count + (i + (count - cur mod count))) mod count" by (simp add: mod_simps)
    also have "cur mod count + (i + (count - cur mod count)) = i + count" using c less_imp_le [OF mod_less_divisor [OF c, of cur]] by linarith
    finally show "i = (cur + ?a) mod count" using i by simp
    show "?a \<in> {0..<count}" using c by simp
  qed
  then show ?thesis using c by auto
qed

text \<open>The state after a reservation of \<open>q\<close> from \<open>s\<close>.\<close>

definition reserved :: "heap_file \<Rightarrow> rid \<Rightarrow> heap_file \<Rightarrow> bool" where
  "reserved s q s' \<longleftrightarrow> heap_inv s' \<and> active_ok s' \<and> contents s' = contents s \<and> contents s q = None
     \<and> nat (rid_slot q) \<notin> set (reserved_slots s (rid_page q)) \<and> nat (rid_slot q) \<notin> set (quarantined_slots s (rid_page q))
     \<and> 1 \<le> rid_page q \<and> rid_page q < num_pages (file_hdr s') \<and> 0 \<le> rid_slot q \<and> nat (rid_slot q) < slots_per_page s'
     \<and> reserved_slots s' = (reserved_slots s)(rid_page q := List.insert (nat (rid_slot q)) (reserved_slots s (rid_page q)))
     \<and> quarantined_slots s' = quarantined_slots s \<and> pool_full s' = pool_full s \<and> record_size (file_hdr s') = record_size (file_hdr s)"

lemma reserve_slot_ok:
  assumes inv: "heap_inv s" and a: "active_ok s" and f: "free_slot s q"
    and s': "s' = s\<lparr>reserved_slots := (reserved_slots s)(rid_page q := List.insert (nat (rid_slot q)) (reserved_slots s (rid_page q))),
              reserved_slot_count := c1, active_insert_cursor := c2\<rparr>"
  shows "reserved s q s'"
proof -
  have q: "1 \<le> rid_page q" "rid_page q < num_pages (file_hdr s)" using f by (auto simp: free_slot_def)
  have "heap_ok s' = heap_ok s" using q by (auto simp: heap_ok_def s')
  moreover have "free_ok s' xs = free_ok s xs" for xs by (simp add: free_ok_def s')
  ultimately have "heap_inv s'" using inv by (simp add: heap_inv_def)
  moreover have "contents s' = contents s" by (simp add: s' contents_def fun_eq_iff Let_def)
  moreover have "contents s q = None" using f by (simp add: contents_def free_slot_def)
  ultimately show ?thesis using f a by (simp add: reserved_def s' free_slot_def active_ok_def)
qed

lemma kept_reserved:
  assumes k: "kept s s1" and r: "reserved s1 q s'"
  shows "reserved s q s'"
  using assms by (simp add: kept_def reserved_def)

lemma reserve_loop_ok:
  assumes inv: "heap_inv s" and a: "active_ok s" and np: "\<And>m. \<not> pool_full s m" and lim: "num_pages (file_hdr s) + 1 < 2 ^ 31"
  shows "\<exists>q s'. reserve_loop 2 s = (Ret q, s') \<and> reserved s q s' \<and> num_pages (file_hdr s') \<le> num_pages (file_hdr s) + 1"
proof -
  have step: "(\<exists>q s'. reserve_loop (Suc fuel) s = (Ret q, s') \<and> reserved s q s' \<and> num_pages (file_hdr s') = num_pages (file_hdr s))
      \<or> (\<forall>n \<in> set (active_insert_pages s). \<not> page_has_available_slot s n)
        \<and> reserve_loop (Suc fuel) s = obind create_new_page_handle (\<lambda>n s. reserve_loop fuel (upd_hp n unpin_dirty (add_active_insert_page n s))) s"
    if "heap_inv s" "active_ok s" "\<And>m. \<not> pool_full s m" for s fuel
  proof -
    let ?c = "length (active_insert_pages s)"
    let ?idxs = "map (\<lambda>a. (active_insert_cursor s + a) mod ?c) [0..<?c]"
    have ix: "set ?idxs = {..<?c}" using all_indices by (cases "?c = 0") auto
    have o: "heap_ok s" using that by (simp add: heap_inv_def)
    from try_active_ok [OF o that(3,2), of ?idxs] consider
        q c where "try_active ?idxs s = (Ret (Some q), s\<lparr>reserved_slots := (reserved_slots s)(rid_page q := List.insert (nat (rid_slot q)) (reserved_slots s (rid_page q))),
              reserved_slot_count := Suc (reserved_slot_count s), active_insert_cursor := c\<rparr>)" "free_slot s q"
      | "try_active ?idxs s = (Ret None, s)" "\<forall>i \<in> set ?idxs. \<not> page_has_available_slot s (active_insert_pages s ! i)"
      using ix by auto
    then show ?thesis
    proof cases
      case 1
      then show ?thesis using reserve_slot_ok [OF that(1,2) 1(2) refl] by (simp add: Let_def del: set_map)
    next
      case 2
      have "\<forall>n \<in> set (active_insert_pages s). \<not> page_has_available_slot s n" using 2(2) unfolding ix by (auto simp: in_set_conv_nth)
      then show ?thesis using 2(1) by (simp add: Let_def del: set_map)
    qed
  qed
  show ?thesis
  proof (rule disjE [OF step [OF inv a np, of 1]])
    assume "\<exists>q s'. reserve_loop (Suc 1) s = (Ret q, s') \<and> reserved s q s' \<and> num_pages (file_hdr s') = num_pages (file_hdr s)"
    then show ?thesis by (auto simp: numeral_2_eq_2 simp del: reserve_loop.simps)
  next
    assume n: "(\<forall>n \<in> set (active_insert_pages s). \<not> page_has_available_slot s n)
        \<and> reserve_loop (Suc 1) s = obind create_new_page_handle (\<lambda>n s. reserve_loop 1 (upd_hp n unpin_dirty (add_active_insert_page n s))) s"
    let ?n = "num_pages (file_hdr s)"
    obtain r s1 where c: "create_new_page_handle s = (r, s1)" by fastforce
    define s2 where "s2 = upd_hp ?n unpin_dirty (add_active_insert_page ?n s1)"
    note na = new_active_ok [OF inv a lim c s2_def refl]
    have k: "kept s s2" using na by blast
    have e: "reserve_loop 2 s = reserve_loop (Suc 0) s2" using n c na by (simp add: numeral_2_eq_2 s2_def [symmetric] del: reserve_loop.simps)
    have "\<And>m. \<not> pool_full s2 m" using k np by (simp add: kept_def)
    from step [OF kept_inv [OF k] _ this, of 0] na
    have "\<exists>q s'. reserve_loop (Suc 0) s2 = (Ret q, s') \<and> reserved s2 q s' \<and> num_pages (file_hdr s') = num_pages (file_hdr s2)" by auto
    then show ?thesis using e kept_reserved [OF k] na by auto
  qed
qed

lemma reserve_insert_slot_bound:
  assumes "heap_inv s" "active_ok s" "\<And>m. \<not> pool_full s m" "num_pages (file_hdr s) + 17 < 2 ^ 31"
  shows "\<exists>q s'. reserve_insert_slot s = (Ret q, s') \<and> reserved s q s' \<and> num_pages (file_hdr s') \<le> num_pages (file_hdr s) + 17"
proof -
  obtain s1 where e: "ensure_active_insert_pages kMaxActiveInsertPages s = (Ret (), s1)" "kept s s1" "active_ok s1" "num_pages (file_hdr s1) \<le> num_pages (file_hdr s) + 16"
    using ensure_active_ok [OF assms(1-3), of kMaxActiveInsertPages] assms(4) by auto
  have "\<And>m. \<not> pool_full s1 m" using e(2) assms(3) by (simp add: kept_def)
  then obtain q s' where "reserve_loop 2 s1 = (Ret q, s')" "reserved s1 q s'" "num_pages (file_hdr s') \<le> num_pages (file_hdr s1) + 1"
    using reserve_loop_ok [OF kept_inv [OF e(2)] e(3)] e(4) assms(4) by auto
  then show ?thesis using e(1,4) kept_reserved [OF e(2)] by (auto simp: reserve_insert_slot_def)
qed

subsection \<open>Inserting into a reserved slot\<close>

lemma unreserve_irrelevant:
  assumes "n < num_pages (file_hdr s)"
  shows "heap_ok (s\<lparr>reserved_slots := (reserved_slots s)(n := ks), reserved_slot_count := c\<rparr>) = heap_ok s"
    "free_ok (s\<lparr>reserved_slots := (reserved_slots s)(n := ks), reserved_slot_count := c\<rparr>) xs = free_ok s xs"
    "free_but t (s\<lparr>reserved_slots := (reserved_slots s)(n := ks), reserved_slot_count := c\<rparr>) xs = free_but t s xs"
    "contents (s\<lparr>reserved_slots := (reserved_slots s)(n := ks), reserved_slot_count := c\<rparr>) = contents s"
  using assms by (auto simp: heap_ok_def free_ok_def free_but_def contents_def fun_eq_iff Let_def)

lemma free_but_ok: "free_but n s xs \<Longrightarrow> num_records (data (hp_pages s n)) < int (slots_per_page s) \<Longrightarrow> free_ok s xs"
  unfolding free_but_def free_ok_def by metis

lemma remove_active_irrelevant:
  "heap_ok (remove_active_insert_page n s) = heap_ok s" "free_ok (remove_active_insert_page n s) xs = free_ok s xs"
  "contents (remove_active_insert_page n s) = contents s" "reserved_slots (remove_active_insert_page n s) = reserved_slots s"
  "active_ok s \<Longrightarrow> active_ok (remove_active_insert_page n s)"
  by (auto simp: remove_active_insert_page_def heap_ok_def free_ok_def contents_def fun_eq_iff Let_def active_ok_def distinct_removeAll)

text \<open>The record is published: the page may be full and still linked.\<close>

lemma reserved_publish_ok:
  assumes inv: "heap_inv s" and c: "contents s q = None" and b: "length buf = record_size (file_hdr s)" and np: "\<not> pool_full s (rid_page q)"
    and q: "1 \<le> rid_page q" "rid_page q < num_pages (file_hdr s)" "0 \<le> rid_slot q" "nat (rid_slot q) < slots_per_page s"
    and p: "insert_reserved_publish q buf txn t s = (r, s')"
  shows "(\<exists>l full xs. r = Ret (l, full) \<and> heap_ok s' \<and> free_but (rid_page q) s' xs \<and> (\<not> full \<longrightarrow> free_ok s' xs) \<and> contents s' = (contents s)(q \<mapsto> buf)
      \<and> reserved_slots s' = reserved_slots s \<and> active_insert_pages s' = active_insert_pages s \<and> pool_full s' = pool_full s \<and> num_pages (file_hdr s') = num_pages (file_hdr s))
    \<or> \<not> is_Ret r \<and> log_only s s'"
proof -
  let ?n = "rid_page q" and ?k = "nat (rid_slot q)"
  obtain r1 s1 where l: "append_heap_log (InsertLogRecord txn buf q t) s = (r1, s1)" by fastforce
  have lo: "log_only s s1" using append_log_only [of s "InsertLogRecord txn buf q t"] l by simp
  show ?thesis
  proof (cases r1)
    case (Ret lsn1)
    note k = log_only_kept [OF lo inv] and hp = log_only_pages [OF lo]
    obtain xs where o1: "heap_ok s1" and x1: "free_ok s1 xs" using kept_inv [OF k] by (auto simp: heap_inv_def)
    have n: "1 \<le> ?n" "?n < num_pages (file_hdr s1)" "?k < slots_per_page s1" "length buf = record_size (file_hdr s1)" using q b hp by simp_all
    have ns: "\<not> slot_is_set (data (hp_pages s1 ?n)) ?k" using absent_slot [OF c q] hp by simp
    define d where "d = (let pg1 = set_slot_bit ?k (put_slot (file_hdr s1) ?k buf (data (hp_pages s1 ?n))) in set_num_records (num_records pg1 + 1) pg1)"
    note pd = publish_data [OF heap_okD(1) [OF o1] heap_okD(7) [OF o1 n(1,2)] n(3) ns n(4) d_def]
    define s2 where "s2 = upd_hp ?n (set_page_lsn lsn1) (publish_slot ?n ?k buf s1)"
    define full where "full \<longleftrightarrow> num_records d = int (slots_per_page s1)"
    have d2: "data (hp_pages s2 ?n) = d" by (simp add: s2_def publish_slot_def d_def)
    have ds: "data_step s1 ?n d s2" unfolding s2_def publish_slot_def d_def by (intro data_step_mark data_step_upd) simp
    have e: "r = Ret (lsn1, full)" "s' = upd_hp ?n unpin_dirty s2"
      using p l Ret fetch_page_handle_ok [OF o1 n(1,2)] np k ns d2
      by (auto simp: insert_reserved_publish_def Let_def obind_def s2_def full_def kept_def)
    have ds': "data_step s1 ?n d s'" unfolding e(2) by (intro data_step_mark ds) simp
    note do = data_step_ok [OF ds' o1 n(1,2) pd(1,2)] and df = data_step_fields [OF ds']
    have rec: "\<And>m. m \<noteq> ?n \<Longrightarrow> hp_pages s' m = hp_pages s1 m" "data (hp_pages s' ?n) = d" using ds' by (simp_all add: data_step_def)
    have fb: "free_but ?n s' xs" using x1 do(2) rec unfolding free_ok_def free_but_def df by auto
    have "num_records d \<le> int (slots_per_page s1)" using page_ok_bounds(2) [OF heap_okD(1) [OF o1] pd(1)] by simp
    then have "\<not> full \<Longrightarrow> free_ok s' xs" using free_but_ok [OF fb] rec(2) df(1) by (simp add: full_def)
    moreover have "contents s' = (contents s)(q \<mapsto> buf)"
      using data_step_contents [OF ds' refl q(3) n(3) n(1,2)] pd(4,5) n(3) k by (simp add: kept_def)
    moreover have "active_insert_pages s' = active_insert_pages s" using log_only_eq [OF lo, THEN arg_cong, of active_insert_pages]
      by (simp add: e(2) s2_def publish_slot_def)
    ultimately show ?thesis using e(1) do(1) fb df k hp by (auto simp: kept_def)
  qed (use p l lo in \<open>auto simp: insert_reserved_publish_def\<close>)
qed

lemma complete_reservation_ok:
  assumes o: "heap_ok s" and fb: "free_but n s xs" and nf: "\<not> full \<Longrightarrow> free_ok s xs" and n: "1 \<le> n" "n < num_pages (file_hdr s)"
    and np: "\<And>m. \<not> pool_full s m" and k: "k \<in> set (reserved_slots s n)" and q: "n = rid_page q" "k = nat (rid_slot q)" and a: "active_ok s"
  shows "\<exists>s'. complete_insert_reservation q full l s = (Ret (), s') \<and> heap_inv s' \<and> contents s' = contents s \<and> active_ok s'
    \<and> reserved_slots s' = (reserved_slots s)(n := removeAll k (reserved_slots s n))"
proof -
  define s1 where "s1 = s\<lparr>reserved_slots := (reserved_slots s)(n := removeAll k (reserved_slots s n)), reserved_slot_count := reserved_slot_count s - 1\<rparr>"
  note ir = unreserve_irrelevant [OF n(2), where ks = "removeAll k (reserved_slots s n)" and c = "reserved_slot_count s - 1", folded s1_def]
  have a1: "active_ok s1" using a by (simp add: active_ok_def s1_def)
  show ?thesis
  proof (cases full)
    case False
    then have "heap_inv s1" using o nf ir(1,2) by (auto simp: heap_inv_def)
    then show ?thesis using k q False a1 ir(4) by (simp add: complete_insert_reservation_def Let_def s1_def)
  next
    case True
    have o1: "heap_ok s1" "free_but n s1 xs" "n < num_pages (file_hdr s1)" using o fb ir n by (simp_all add: s1_def)
    define s2 where "s2 = upd_hp n (MarkPageWalState l) s1"
    note m = mark_step [OF data_mark(1) [of l], where s = s1 and n = n, folded s2_def]
    have o2: "heap_ok s2" "free_but n s2 xs" "n < num_pages (file_hdr s2)" using links_only_ok(1) [OF m(1) o1(1)] m(3) o1 by (simp_all add: s2_def)
    obtain r3 s3 where u: "unlink_free_page_if_needed n l s2 = (r3, s3)" by fastforce
    have uo: "links_only s2 s3" "r3 = Ret ()" "free_ok s3 (removeAll n xs)"
      using unlink_ok [OF o2(1,2) n(1) o2(3) u] np by (simp_all add: s2_def s1_def)
    define s4 where "s4 = upd_hp n unpin_dirty s3"
    note m4 = mark_step [OF data_mark(2), where s = s3 and n = n, folded s4_def]
    have l: "links_only s1 s4" using links_only_trans [OF links_only_trans [OF m(1) uo(1)] m4(1)] .
    note lo = links_only_ok [OF l o1(1)] and lf = links_only_fields [OF l]
    have a4: "active_ok s4" using a1 lf(1,13) by (simp add: active_ok_def)
    have "complete_insert_reservation q full l s = obind (fetch_page_handle n) (\<lambda>p. obind (\<lambda>s. finally_dirty n (unlink_free_page_if_needed n l (upd_hp n (MarkPageWalState l) s)))
        (\<lambda>_ s. (Ret (), remove_active_insert_page n s))) s1"
      using k q True by (simp add: complete_insert_reservation_def Let_def s1_def)
    also have "\<dots> = (Ret (), remove_active_insert_page n s4)"
    proof -
      have "\<not> pool_full s1 n" using np by (simp add: s1_def)
      then show ?thesis using fetch_page_handle_ok [OF o1(1) n(1) o1(3)] u uo(2) by (simp add: obind_def finally_dirty_def s2_def [symmetric] s4_def [symmetric])
    qed
    finally have "complete_insert_reservation q full l s = (Ret (), remove_active_insert_page n s4)" .
    moreover have "heap_inv s4" using lo(1) m4(2) uo(3) by (auto simp: heap_inv_def)
    ultimately show ?thesis using lo(2) ir(4) a4 lf(8) remove_active_irrelevant [where n = n and s = s4] by (auto simp: heap_inv_def s1_def)
  qed
qed

lemma insert_record_reserved_ok:
  assumes inv: "heap_inv s" and a: "active_ok s" and c: "contents s q = None" and b: "length buf = record_size (file_hdr s)" and np: "\<And>n. \<not> pool_full s n"
    and q: "1 \<le> rid_page q" "rid_page q < num_pages (file_hdr s)" "0 \<le> rid_slot q" "nat (rid_slot q) < slots_per_page s"
    and k: "nat (rid_slot q) \<in> set (reserved_slots s (rid_page q))"
    and i: "insert_record_reserved q buf txn t s = (r, s')"
  shows "is_Ret r \<and> heap_inv s' \<and> active_ok s' \<and> contents s' = (contents s)(q \<mapsto> buf)
      \<and> reserved_slots s' = (reserved_slots s)(rid_page q := removeAll (nat (rid_slot q)) (reserved_slots s (rid_page q)))
    \<or> \<not> is_Ret r \<and> kept s s'"
proof -
  obtain r1 s1 where p: "insert_reserved_publish q buf txn t s = (r1, s1)" by fastforce
  from reserved_publish_ok [OF inv c b np q p] consider
      l full xs where "r1 = Ret (l, full)" "heap_ok s1" "free_but (rid_page q) s1 xs" "\<not> full \<longrightarrow> free_ok s1 xs" "contents s1 = (contents s)(q \<mapsto> buf)"
        "reserved_slots s1 = reserved_slots s" "active_insert_pages s1 = active_insert_pages s" "pool_full s1 = pool_full s" "num_pages (file_hdr s1) = num_pages (file_hdr s)"
    | "\<not> is_Ret r1" "log_only s s1" by auto
  then show ?thesis
  proof cases
    case 1
    have "active_ok s1" using a 1 by (simp add: active_ok_def)
    then obtain s2 where "complete_insert_reservation q full l s1 = (Ret (), s2)" "heap_inv s2" "contents s2 = contents s1" "active_ok s2"
        "reserved_slots s2 = (reserved_slots s1)(rid_page q := removeAll (nat (rid_slot q)) (reserved_slots s1 (rid_page q)))"
      using complete_reservation_ok [OF 1(2,3) _ q(1) _ _ _ refl refl, of full l] 1 np k q by auto
    then show ?thesis using i p 1 by (auto simp: insert_record_reserved_def hret_def)
  next
    case 2
    then have "\<not> is_Ret r" "s' = s1" using i p by (cases r1; auto simp: insert_record_reserved_def)+
    then show ?thesis using log_only_kept [OF 2(2) inv] by simp
  qed
qed

subsection \<open>Properties\<close>

text \<open>
  C22. Reserving a slot always succeeds while the buffer pool has frames: the loop ends after at most one new page. The slot handed out holds no
  record, is not quarantined and is not reserved by anybody else, and it stays reserved, so that concurrent insertions get different
  positions; the stored records do not change.
\<close>

theorem reservation_exclusive:
  assumes "heap_inv s" and "active_ok s" and "\<forall>m. \<not> pool_full s m" and "num_pages (file_hdr s) + 34 < 2 ^ 31"
  shows "\<exists>q1 q2 s1 s2. reserve_insert_slot s = (Ret q1, s1) \<and> reserve_insert_slot s1 = (Ret q2, s2) \<and> q1 \<noteq> q2
    \<and> contents s q1 = None \<and> contents s q2 = None \<and> contents s2 = contents s \<and> heap_inv s2 \<and> active_ok s2
    \<and> nat (rid_slot q1) \<notin> set (reserved_slots s (rid_page q1) @ quarantined_slots s (rid_page q1))
    \<and> nat (rid_slot q2) \<notin> set (reserved_slots s (rid_page q2) @ quarantined_slots s (rid_page q2))
    \<and> nat (rid_slot q1) \<in> set (reserved_slots s2 (rid_page q1)) \<and> nat (rid_slot q2) \<in> set (reserved_slots s2 (rid_page q2))"
proof -
  obtain q1 s1 where r1: "reserve_insert_slot s = (Ret q1, s1)" "reserved s q1 s1" "num_pages (file_hdr s1) \<le> num_pages (file_hdr s) + 17"
    using reserve_insert_slot_bound [OF assms(1,2)] assms(3,4) by auto
  then have i1: "heap_inv s1" "active_ok s1" "\<And>m. \<not> pool_full s1 m" using assms(3) by (simp_all add: reserved_def)
  obtain q2 s2 where r2: "reserve_insert_slot s1 = (Ret q2, s2)" "reserved s1 q2 s2"
    using reserve_insert_slot_bound [OF i1] r1(3) assms(4) by auto
  have "q1 \<noteq> q2" using r1(2) r2(2) by (auto simp: reserved_def)
  moreover have "nat (rid_slot q2) \<notin> set (reserved_slots s (rid_page q2))" using r1(2) r2(2) by (auto simp: reserved_def split: if_splits)
  ultimately show ?thesis using r1 r2 by (simp add: reserved_def)
qed

text \<open>
  C23. Publishing into a reserved slot. An insertion with a reservation either stores its record at exactly the reserved position, gives up the
  reservation and leaves everything else and the invariant of the file as they were (unlinking the page when it became full), or the log
  append failed and the file is unchanged, the slot still reserved.
\<close>

theorem reserved_insert_publishes:
  assumes "heap_inv s" and "active_ok s" and "\<forall>n. \<not> pool_full s n" and "num_pages (file_hdr s) + 17 < 2 ^ 31"
    and "reserve_insert_slot s = (Ret q, s1)" and "length buf = record_size (file_hdr s)" and "insert_record_reserved q buf txn table_name s1 = (r, s2)"
  shows "heap_inv s2 \<and> (if is_Ret r then contents s2 = (contents s)(q \<mapsto> buf)
        \<and> reserved_slots s2 = (reserved_slots s1)(rid_page q := removeAll (nat (rid_slot q)) (reserved_slots s1 (rid_page q)))
      else contents s2 = contents s \<and> reserved_slots s2 = reserved_slots s1)"
proof -
  have v: "reserved s q s1" using reserve_insert_slot_bound [OF assms(1,2)] assms(3,4,5) by auto
  then show ?thesis
    using insert_record_reserved_ok [of s1 q buf txn table_name r s2] assms(3,6,7) unfolding reserved_def kept_def by auto
qed

lemma ex_heap_active: "active_ok ex_heap"
  by (simp add: active_ok_def ex_heap_def RmFileHandle_new_def)

theorem reserved_insert_publishes_witness:
  "\<exists>q s1 r s2. reserve_insert_slot ex_heap = (Ret q, s1) \<and> insert_record_reserved q ex_rec 5 ''t'' s1 = (r, s2) \<and> heap_inv s2
    \<and> contents s2 = (if is_Ret r then [q \<mapsto> ex_rec] else Map.empty)"
proof -
  obtain q s1 where q: "reserve_insert_slot ex_heap = (Ret q, s1)" using reserve_insert_slot_bound [OF ex_heap_inv(1) ex_heap_active] by auto
  obtain r s2 where "insert_record_reserved q ex_rec 5 ''t'' s1 = (r, s2)" by fastforce
  with reserved_insert_publishes [OF ex_heap_inv(1) ex_heap_active _ _ q _ this] q ex_heap_inv(2) show ?thesis by (auto split: if_splits)
qed

subsection \<open>A lost page number\<close>


definition ex_heap2 :: heap_file where
  "ex_heap2 = RmFileHandle_new ex_hdr (\<lambda>_. Page_new) (\<lambda>_. False) 2 LogManager_new ex_disk"

lemma ex_lost_page: "fst (create_new_page_handle (ex_heap2\<lparr>pool_full := (\<lambda>m. m = 1)\<rparr>)) = Ret 2"
  by (simp add: ex_heap2_def create_new_page_handle_def RmFileHandle_new_def numeral_2_eq_2 Let_def)


theorem reservation_exclusive_witness:
  "\<exists>q1 q2 s1 s2. reserve_insert_slot ex_heap = (Ret q1, s1) \<and> reserve_insert_slot s1 = (Ret q2, s2) \<and> q1 \<noteq> q2"
  using reservation_exclusive [OF ex_heap_inv(1) ex_heap_active] by auto

end
