(* ===== verification/Rmdb_Recovery.thy ===== *)
theory Rmdb_Recovery
  imports Rmdb_Log_Scan Rmdb_Heap_Props
begin

text \<open>
  Redo and undo, \<^verbatim>\<open>src/src/recovery/log_recovery.cpp\<close>. The tables are the map \<open>fhs_\<close> of the system manager: a heap file and
  its descriptor for each table name. Recovery passes no context, so its changes are not logged; each
  page it changes carries the LSN of the record it applies. The rebuilding of the indexes and the final flush are not part of this theory.

  Recovery uses four operations of the heap file. The locale \<open>record_store\<close> states what it relies on; it is interpreted on
  the operations of the heap file, and the proofs about redo and undo rest on that interface alone.
\<close>

record table_file =
  tbl_fd :: int
  tbl_heap :: heap_file

type_synonym tables = "string \<rightharpoonup> table_file"

record txn_counters =
  tm_next_txn_id :: txn_id_t
  tm_next_timestamp :: timestamp_t
  tm_last_commit_ts :: timestamp_t

definition IsDml :: "log_type \<Rightarrow> bool" where
  "IsDml ty \<longleftrightarrow> ty = INSERT \<or> ty = DELETE \<or> ty = UPDATE"

definition HeapRidExists :: "rid \<Rightarrow> bool heap_op" where
  "HeapRidExists r s = (if rid_page r < 0 \<or> rid_page r \<ge> num_pages (file_hdr s) then (Ret False, s) else is_record r s)"

text \<open>A table that is not open is skipped.\<close>

definition on_table :: "string \<Rightarrow> unit heap_op \<Rightarrow> tables \<Rightarrow> unit outcome \<times> tables" where
  "on_table t f tabs =
     (case tabs t of None \<Rightarrow> (Ret (), tabs)
      | Some tf \<Rightarrow> (case f (tbl_heap tf) of (r, h) \<Rightarrow> (r, tabs(t \<mapsto> tf\<lparr>tbl_heap := h\<rparr>))))"

definition put_image :: "rid \<Rightarrow> byte list \<Rightarrow> lsn_t \<Rightarrow> unit heap_op" where
  "put_image r v l = obind (HeapRidExists r) (\<lambda>e. if e then update_record r v None [] None l else insert_record_at r v l)"

definition redo_record :: "(txn_id_t \<rightharpoonup> timestamp_t) \<Rightarrow> log_record \<Rightarrow> tables \<Rightarrow> unit outcome \<times> tables" where
  "redo_record committed r tabs =
     (if \<not> IsDml (rec_type r) \<or> committed (log_tid r) = None then (Ret (), tabs)
      else case log_data r of
        InsertLog v q t \<Rightarrow> on_table t (put_image q v (lsn r)) tabs
      | UpdateLog old new q t \<Rightarrow> on_table t (put_image q new (lsn r)) tabs
      | DeleteLog v q t \<Rightarrow> on_table t (delete_record_quarantine q (lsn r)) tabs
      | _ \<Rightarrow> (Ret (), tabs))"

fun redo_loop :: "(txn_id_t \<rightharpoonup> timestamp_t) \<Rightarrow> log_record list \<Rightarrow> tables \<Rightarrow> unit outcome \<times> tables" where
  "redo_loop committed [] tabs = (Ret (), tabs)"
| "redo_loop committed (r # rs) tabs = obind (redo_record committed r) (\<lambda>_. redo_loop committed rs) tabs"

definition redo :: "analysis \<Rightarrow> tables \<Rightarrow> unit outcome \<times> tables" where
  "redo a = redo_loop (committed_txns a) (logs a)"

definition log_tuple_key :: "tables \<Rightarrow> log_record \<Rightarrow> (int \<times> rid) option" where
  "log_tuple_key tabs r =
     (let key = (\<lambda>t q. map_option (\<lambda>tf. (tbl_fd tf, q)) (tabs t))
      in case log_data r of InsertLog v q t \<Rightarrow> key t q | UpdateLog old new q t \<Rightarrow> key t q | DeleteLog v q t \<Rightarrow> key t q | _ \<Rightarrow> None)"

fun latest_committed_write :: "(txn_id_t \<rightharpoonup> timestamp_t) \<Rightarrow> tables \<Rightarrow> log_record list \<Rightarrow> (int \<times> rid \<rightharpoonup> lsn_t) \<Rightarrow> (int \<times> rid \<rightharpoonup> lsn_t)" where
  "latest_committed_write committed tabs [] m = m"
| "latest_committed_write committed tabs (r # rs) m =
     latest_committed_write committed tabs rs
       (if \<not> IsDml (rec_type r) \<or> committed (log_tid r) = None then m
        else case log_tuple_key tabs r of None \<Rightarrow> m | Some k \<Rightarrow> m(k \<mapsto> lsn r))"

definition undo_record :: "(txn_id_t \<rightharpoonup> timestamp_t) \<Rightarrow> (int \<times> rid \<rightharpoonup> lsn_t) \<Rightarrow> log_record \<Rightarrow> tables \<Rightarrow> unit outcome \<times> tables" where
  "undo_record committed latest r tabs =
     (if \<not> IsDml (rec_type r) \<or> committed (log_tid r) \<noteq> None then (Ret (), tabs)
      else case log_tuple_key tabs r of
        None \<Rightarrow> (Ret (), tabs)
      | Some k \<Rightarrow>
          if (case latest k of None \<Rightarrow> False | Some l \<Rightarrow> l > lsn r) then (Ret (), tabs)
          else case log_data r of
            InsertLog v q t \<Rightarrow> on_table t (delete_record_quarantine q (lsn r)) tabs
          | UpdateLog old new q t \<Rightarrow> on_table t (put_image q old (lsn r)) tabs
          | DeleteLog v q t \<Rightarrow> on_table t (put_image q v (lsn r)) tabs
          | _ \<Rightarrow> (Ret (), tabs))"

fun undo_loop :: "(txn_id_t \<rightharpoonup> timestamp_t) \<Rightarrow> (int \<times> rid \<rightharpoonup> lsn_t) \<Rightarrow> log_record list \<Rightarrow> tables \<Rightarrow> unit outcome \<times> tables" where
  "undo_loop committed latest [] tabs = (Ret (), tabs)"
| "undo_loop committed latest (r # rs) tabs = obind (undo_record committed latest r) (\<lambda>_. undo_loop committed latest rs) tabs"

definition RecoveryAdvanceCounters :: "txn_id_t \<Rightarrow> timestamp_t \<Rightarrow> timestamp_t \<Rightarrow> txn_counters \<Rightarrow> txn_counters" where
  "RecoveryAdvanceCounters ntid nts lts c =
     c\<lparr>tm_next_txn_id := max (tm_next_txn_id c) ntid, tm_next_timestamp := max (tm_next_timestamp c) nts,
       tm_last_commit_ts := max (tm_last_commit_ts c) lts\<rparr>"

definition undo_heap :: "analysis \<Rightarrow> tables \<Rightarrow> unit outcome \<times> tables" where
  "undo_heap a tabs =
     undo_loop (committed_txns a) (latest_committed_write (committed_txns a) tabs (logs a) Map.empty) (rev (logs a)) tabs"

definition undo_counters :: "analysis \<Rightarrow> txn_counters \<Rightarrow> txn_counters" where
  "undo_counters a = RecoveryAdvanceCounters (max_txn_id a + 1) (max (max_next_timestamp a) (max_commit_ts a + 1)) (max_commit_ts a)"

subsection \<open>What recovery relies on\<close>

text \<open>
  A store of records, as recovery sees it: \<open>upd\<close> replaces a record that exists, \<open>ins\<close> puts a record where there is none, \<open>del\<close> takes one away
  and does nothing when there is none, \<open>ex\<close> tells whether there is one. \<open>shape\<close> is what never changes: which positions and values are legal.
\<close>

locale record_store =
  fixes inv :: "'s \<Rightarrow> bool" and val :: "'s \<Rightarrow> 'r \<Rightarrow> 'v option" and shape :: "'s \<Rightarrow> 'h" and legal :: "'h \<Rightarrow> 'r \<Rightarrow> bool" and good :: "'h \<Rightarrow> 'v \<Rightarrow> bool"
    and ex :: "'r \<Rightarrow> 's \<Rightarrow> bool outcome \<times> 's" and upd :: "'r \<Rightarrow> 'v \<Rightarrow> lsn_t \<Rightarrow> 's \<Rightarrow> unit outcome \<times> 's"
    and ins :: "'r \<Rightarrow> 'v \<Rightarrow> lsn_t \<Rightarrow> 's \<Rightarrow> unit outcome \<times> 's" and del :: "'r \<Rightarrow> lsn_t \<Rightarrow> 's \<Rightarrow> unit outcome \<times> 's"
  assumes ex_ok: "inv s \<Longrightarrow> legal (shape s) q \<Longrightarrow> ex q s = (Ret (val s q \<noteq> None), s)"
    and upd_ok: "inv s \<Longrightarrow> legal (shape s) q \<Longrightarrow> good (shape s) v \<Longrightarrow> val s q \<noteq> None \<Longrightarrow>
      \<exists>s'. upd q v l s = (Ret (), s') \<and> inv s' \<and> val s' = (val s)(q \<mapsto> v) \<and> shape s' = shape s"
    and ins_ok: "inv s \<Longrightarrow> legal (shape s) q \<Longrightarrow> good (shape s) v \<Longrightarrow> val s q = None \<Longrightarrow>
      \<exists>s'. ins q v l s = (Ret (), s') \<and> inv s' \<and> val s' = (val s)(q \<mapsto> v) \<and> shape s' = shape s"
    and del_ok: "inv s \<Longrightarrow> legal (shape s) q \<Longrightarrow> \<exists>s'. del q l s = (Ret (), s') \<and> inv s' \<and> val s' = (val s)(q := None) \<and> shape s' = shape s"
begin

lemma put_ok:
  assumes "inv s" "legal (shape s) q" "good (shape s) v"
  shows "\<exists>s'. obind (ex q) (\<lambda>e. if e then upd q v l else ins q v l) s = (Ret (), s') \<and> inv s' \<and> val s' = (val s)(q \<mapsto> v) \<and> shape s' = shape s"
  using ex_ok [OF assms(1,2)] upd_ok [OF assms] ins_ok [OF assms] by (cases "val s q") (auto simp: obind_def)

lemma image_ok:
  assumes "inv s" "legal (shape s) q" "\<And>v. w = Some v \<Longrightarrow> good (shape s) v"
  shows "\<exists>s'. (case w of None \<Rightarrow> del q l | Some v \<Rightarrow> obind (ex q) (\<lambda>e. if e then upd q v l else ins q v l)) s = (Ret (), s')
    \<and> inv s' \<and> val s' = (val s)(q := w) \<and> shape s' = shape s"
  using put_ok [OF assms(1,2)] del_ok [OF assms(1,2)] assms(3) by (cases w) auto

end

definition heap_ready :: "heap_file \<Rightarrow> bool" where
  "heap_ready s \<longleftrightarrow> heap_inv s \<and> (\<forall>n. \<not> pool_full s n)"

definition heap_shape :: "heap_file \<Rightarrow> nat \<times> nat" where
  "heap_shape s = (slots_per_page s, record_size (file_hdr s))"

definition rid_legal :: "nat \<times> nat \<Rightarrow> rid \<Rightarrow> bool" where
  "rid_legal h q \<longleftrightarrow> 1 \<le> rid_page q \<and> rid_page q + 1 < 2 ^ 31 \<and> 0 \<le> rid_slot q \<and> nat (rid_slot q) < fst h"

definition image_legal :: "nat \<times> nat \<Rightarrow> byte list \<Rightarrow> bool" where
  "image_legal h v \<longleftrightarrow> length v = snd h"

lemma stores_ready: "stores s s' m \<Longrightarrow> heap_ready s \<Longrightarrow> heap_ready s' \<and> contents s' = m \<and> heap_shape s' = heap_shape s"
  by (simp add: stores_def heap_ready_def heap_shape_def)

interpretation rec: record_store heap_ready contents heap_shape rid_legal image_legal HeapRidExists "\<lambda>q v l. update_record q v None [] None l" insert_record_at
  delete_record_quarantine
proof
  fix s q v l
  assume r: "heap_ready s" and q: "rid_legal (heap_shape s) q"
  have inv: "heap_inv s" "heap_ok s" and np: "\<And>n. \<not> pool_full s n" using r by (simp_all add: heap_ready_def heap_inv_def)
  have lq: "1 \<le> rid_page q" "rid_page q + 1 < 2 ^ 31" "0 \<le> rid_slot q" "nat (rid_slot q) < slots_per_page s"
    using q by (simp_all add: rid_legal_def heap_shape_def)
  show "HeapRidExists q s = (Ret (contents s q \<noteq> None), s)"
    using fetch_page_handle_ok [OF inv(2) lq(1)] np lq
    by (auto simp: HeapRidExists_def is_record_def obind_def hret_def contents_def Let_def)
  show "\<exists>s'. delete_record_quarantine q l s = (Ret (), s') \<and> heap_ready s' \<and> contents s' = (contents s)(q := None) \<and> heap_shape s' = heap_shape s"
  proof (cases "contents s q")
    case None
    have "(contents s)(q := None) = contents s" using None by (simp add: fun_upd_idem)
    then show ?thesis using delete_record_quarantine_absent [OF inv(1) None np lq(1,3,4)] r by auto
  next
    case (Some w)
    obtain r1 s1 where d: "delete_record_quarantine q l s = (r1, s1)" by fastforce
    show ?thesis using delete_record_quarantine_ok [OF inv(1) Some np d] stores_ready [OF _ r] d by auto
  qed
  assume g: "image_legal (heap_shape s) v"
  have b: "length v = record_size (file_hdr s)" using g by (simp add: image_legal_def heap_shape_def)
  show "\<exists>s'. update_record q v None [] None l s = (Ret (), s') \<and> heap_ready s' \<and> contents s' = (contents s)(q \<mapsto> v) \<and> heap_shape s' = heap_shape s"
    if c: "contents s q \<noteq> None"
  proof -
    obtain w where w: "contents s q = Some w" using c by auto
    obtain r1 s1 where u: "update_record q v None [] None l s = (r1, s1)" by fastforce
    show ?thesis using update_record_ok [OF inv(1) w b np u] stores_ready [OF _ r] u by auto
  qed
  show "\<exists>s'. insert_record_at q v l s = (Ret (), s') \<and> heap_ready s' \<and> contents s' = (contents s)(q \<mapsto> v) \<and> heap_shape s' = heap_shape s"
    if c: "contents s q = None"
  proof -
    obtain r1 s1 where u: "insert_record_at q v l s = (r1, s1)" by fastforce
    show ?thesis using insert_record_at_ok [OF inv(1) c b np lq u] stores_ready [OF _ r] u by auto
  qed
qed

subsection \<open>Redo and undo as updates of a map\<close>

text \<open>The position a record is about, and the images it carries: what redo installs and what undo restores.\<close>

definition rec_key :: "log_record \<Rightarrow> string \<times> rid" where
  "rec_key r = (case log_data r of InsertLog v q t \<Rightarrow> (t, q) | UpdateLog old new q t \<Rightarrow> (t, q) | DeleteLog v q t \<Rightarrow> (t, q) | _ \<Rightarrow> ([], \<lparr>rid_page = 0, rid_slot = 0\<rparr>))"

definition redo_image :: "log_record \<Rightarrow> byte list option" where
  "redo_image r = (case log_data r of InsertLog v q t \<Rightarrow> Some v | UpdateLog old new q t \<Rightarrow> Some new | _ \<Rightarrow> None)"

definition undo_image :: "log_record \<Rightarrow> byte list option" where
  "undo_image r = (case log_data r of UpdateLog old new q t \<Rightarrow> Some old | DeleteLog v q t \<Rightarrow> Some v | _ \<Rightarrow> None)"

definition dml :: "log_record \<Rightarrow> bool" where "dml r \<longleftrightarrow> IsDml (rec_type r)"

definition store_image :: "rid \<Rightarrow> byte list option \<Rightarrow> lsn_t \<Rightarrow> unit heap_op" where
  "store_image q w l = (case w of None \<Rightarrow> delete_record_quarantine q l | Some v \<Rightarrow> put_image q v l)"

lemmas image_defs = rec_key_def redo_image_def undo_image_def store_image_def log_tuple_key_def

lemma dml_cases:
  assumes "dml r"
  obtains v q t where "log_data r = InsertLog v q t" | old new q t where "log_data r = UpdateLog old new q t" | v q t where "log_data r = DeleteLog v q t"
  using assms by (cases "log_data r") (auto simp: dml_def IsDml_def)

lemma redo_record_image:
  "redo_record C r tabs = (if dml r \<and> C (log_tid r) \<noteq> None then on_table (fst (rec_key r)) (store_image (snd (rec_key r)) (redo_image r) (lsn r)) tabs else (Ret (), tabs))"
  by (cases "log_data r") (simp_all add: redo_record_def image_defs dml_def IsDml_def)

lemma undo_record_image:
  "undo_record C L r tabs =
     (case tabs (fst (rec_key r)) of None \<Rightarrow> (Ret (), tabs)
      | Some tf \<Rightarrow> if dml r \<and> C (log_tid r) = None \<and> (case L (tbl_fd tf, snd (rec_key r)) of None \<Rightarrow> True | Some l \<Rightarrow> l \<le> lsn r)
          then on_table (fst (rec_key r)) (store_image (snd (rec_key r)) (undo_image r) (lsn r)) tabs else (Ret (), tabs))"
proof (cases "dml r")
  case True
  then show ?thesis by (rule dml_cases; cases "tabs (fst (rec_key r))") (auto simp: undo_record_def image_defs dml_def split: option.splits)
qed (auto simp: undo_record_def dml_def split: option.split)

text \<open>What the open tables hold.\<close>

definition tcontents :: "tables \<Rightarrow> string \<times> rid \<Rightarrow> byte list option" where
  "tcontents tabs k = (case tabs (fst k) of None \<Rightarrow> None | Some tf \<Rightarrow> contents (tbl_heap tf) (snd k))"

definition tables_ready :: "tables \<Rightarrow> bool" where
  "tables_ready tabs \<longleftrightarrow> (\<forall>t tf. tabs t = Some tf \<longrightarrow> heap_ready (tbl_heap tf))
     \<and> (\<forall>t u tf uf. tabs t = Some tf \<and> tabs u = Some uf \<and> tbl_fd tf = tbl_fd uf \<longrightarrow> t = u)"

definition tshape :: "tables \<Rightarrow> string \<rightharpoonup> int \<times> nat \<times> nat" where
  "tshape tabs t = map_option (\<lambda>tf. (tbl_fd tf, heap_shape (tbl_heap tf))) (tabs t)"

definition rec_legal :: "(string \<rightharpoonup> int \<times> nat \<times> nat) \<Rightarrow> log_record \<Rightarrow> bool" where
  "rec_legal sh r \<longleftrightarrow> (case sh (fst (rec_key r)) of None \<Rightarrow> True
     | Some (f, h) \<Rightarrow> dml r \<longrightarrow> rid_legal h (snd (rec_key r)) \<and> (\<forall>v. redo_image r = Some v \<or> undo_image r = Some v \<longrightarrow> image_legal h v))"

lemma on_table_image:
  assumes tr: "tables_ready tabs" and d: "dml r" and lg: "rec_legal (tshape tabs) r" and w: "w = redo_image r \<or> w = undo_image r"
  shows "\<exists>tabs'. on_table (fst (rec_key r)) (store_image (snd (rec_key r)) w l) tabs = (Ret (), tabs') \<and> tables_ready tabs' \<and> tshape tabs' = tshape tabs
    \<and> tcontents tabs' = (if tabs (fst (rec_key r)) = None then tcontents tabs else (tcontents tabs)(rec_key r := w))"
proof (cases "tabs (fst (rec_key r))")
  case None
  then show ?thesis using tr by (simp add: on_table_def)
next
  case (Some tf)
  let ?t = "fst (rec_key r)" and ?q = "snd (rec_key r)" and ?h = "tbl_heap tf"
  have r: "heap_ready ?h" using tr Some by (simp add: tables_ready_def)
  have lq: "rid_legal (heap_shape ?h) ?q" "\<And>v. w = Some v \<Longrightarrow> image_legal (heap_shape ?h) v"
    using lg d w Some by (auto simp: rec_legal_def tshape_def)
  obtain h where h: "store_image ?q w l ?h = (Ret (), h)" "heap_ready h" "contents h = (contents ?h)(?q := w)" "heap_shape h = heap_shape ?h"
    using rec.image_ok [OF r lq, of w l] by (auto simp: store_image_def put_image_def cong: option.case_cong)
  let ?tabs = "tabs(?t \<mapsto> tf\<lparr>tbl_heap := h\<rparr>)"
  have "on_table ?t (store_image ?q w l) tabs = (Ret (), ?tabs)" using Some h(1) by (simp add: on_table_def)
  moreover have "tables_ready ?tabs" using tr Some h(2) unfolding tables_ready_def by (auto split: if_splits)
  moreover have "tshape ?tabs = tshape tabs" using Some h(4) by (simp add: tshape_def fun_eq_iff)
  moreover have "tcontents ?tabs = (tcontents tabs)(rec_key r := w)"
    using Some h(3) by (auto simp: tcontents_def fun_eq_iff prod_eq_iff)
  ultimately show ?thesis using Some by auto
qed

subsection \<open>The committed state\<close>

text \<open>The effect of the committed records, in the order of the log, on an earlier state.\<close>

definition comm :: "(txn_id_t \<rightharpoonup> timestamp_t) \<Rightarrow> log_record \<Rightarrow> bool" where
  "comm C r \<longleftrightarrow> dml r \<and> C (log_tid r) \<noteq> None"

fun committed_state :: "(txn_id_t \<rightharpoonup> timestamp_t) \<Rightarrow> log_record list \<Rightarrow> (string \<times> rid \<rightharpoonup> byte list) \<Rightarrow> (string \<times> rid \<rightharpoonup> byte list)" where
  "committed_state C [] m = m"
| "committed_state C (r # rs) m = committed_state C rs (if comm C r then m(rec_key r := redo_image r) else m)"

text \<open>
  Undo on maps: from the end of the log to its beginning, a record of a loser restores its old image unless a committed record on the same position
  follows.
\<close>

fun undone_state :: "(txn_id_t \<rightharpoonup> timestamp_t) \<Rightarrow> log_record list \<Rightarrow> (string \<times> rid \<rightharpoonup> byte list) \<Rightarrow> (string \<times> rid \<rightharpoonup> byte list)" where
  "undone_state C [] m = m"
| "undone_state C (r # rs) m =
     (if dml r \<and> C (log_tid r) = None \<and> \<not> (\<exists>r2 \<in> set rs. comm C r2 \<and> rec_key r2 = rec_key r) then (undone_state C rs m)(rec_key r := undo_image r)
      else undone_state C rs m)"

text \<open>
  A strict log: the old image of each record is the committed value of its position, changed by what the same transaction logged on it before.
  \<open>M\<close> is the committed state, \<open>P\<close> the pending change of a transaction that does not commit. Write-write conflicts are
  refused at run time, and an aborted transaction restores what it changed before another one gets to write.
\<close>

fun strict_log :: "(txn_id_t \<rightharpoonup> timestamp_t) \<Rightarrow> (string \<times> rid \<rightharpoonup> byte list) \<Rightarrow> (string \<times> rid \<rightharpoonup> txn_id_t \<times> byte list option) \<Rightarrow> log_record list \<Rightarrow> bool" where
  "strict_log C M P [] \<longleftrightarrow> True"
| "strict_log C M P (r # rs) \<longleftrightarrow>
     (if \<not> dml r then strict_log C M P rs
      else undo_image r = (case P (rec_key r) of None \<Rightarrow> M (rec_key r) | Some (t, x) \<Rightarrow> if t = log_tid r then x else M (rec_key r))
        \<and> (if C (log_tid r) \<noteq> None then strict_log C (M(rec_key r := redo_image r)) (P(rec_key r := None)) rs
           else strict_log C M (P(rec_key r \<mapsto> (log_tid r, redo_image r))) rs))"

lemma committed_state_local: "m k = m' k \<Longrightarrow> committed_state C rs m k = committed_state C rs m' k"
proof (induction rs arbitrary: m m')
  case (Cons r rs)
  have "committed_state C rs (m(rec_key r := redo_image r)) k = committed_state C rs (m'(rec_key r := redo_image r)) k"
    by (rule Cons.IH) (simp add: Cons.prems)
  then show ?case using Cons.IH [of m m'] Cons.prems by simp
qed simp

lemma committed_state_none: "\<not> (\<exists>r \<in> set rs. comm C r \<and> rec_key r = k) \<Longrightarrow> committed_state C rs m k = m k"
proof (induction rs arbitrary: m)
  case (Cons r rs)
  then have "\<not> (\<exists>r \<in> set rs. comm C r \<and> rec_key r = k)" "comm C r \<Longrightarrow> k \<noteq> rec_key r" by auto
  then show ?case using Cons.IH by (cases "comm C r") simp_all
qed simp

lemma strict_log_other:
  assumes "strict_log C M P (r # rs)" and "\<not> (dml r \<and> rec_key r = k) \<or> C (log_tid r) = None"
  obtains M' P' where "strict_log C M' P' rs" "M' k = M k" "\<not> (dml r \<and> rec_key r = k) \<Longrightarrow> P' k = P k"
proof (cases "dml r")
  case False
  then show ?thesis using that [of M P] assms(1) by simp
next
  case True
  show ?thesis
  proof (cases "C (log_tid r) = None")
    case t: True
    show ?thesis using that [of M "P(rec_key r \<mapsto> (log_tid r, redo_image r))"] assms(1) True t by auto
  next
    case f: False
    show ?thesis using that [of "M(rec_key r := redo_image r)" "P(rec_key r := None)"] assms True f by auto
  qed
qed

lemma undone_state_local: "m k = m' k \<Longrightarrow> undone_state C rs m k = undone_state C rs m' k"
  by (induction rs) auto

text \<open>Whatever the tables held at a position the log mentions, redo and undo leave the committed value there.\<close>

lemma undo_redo_committed:
  assumes "strict_log C M P rs"
  shows "P k = None \<Longrightarrow> (\<exists>r \<in> set rs. dml r \<and> rec_key r = k) \<or> x k = M k \<Longrightarrow> undone_state C rs (committed_state C rs x) k = committed_state C rs M k"
    and "\<exists>r \<in> set rs. comm C r \<and> rec_key r = k \<Longrightarrow> undone_state C rs (committed_state C rs x) k = committed_state C rs M k"
  using assms
proof (induction rs arbitrary: M P x)
  case (Cons r rs)
  {
    case 1
    show ?case
    proof (cases "dml r \<and> rec_key r = k")
      case False
      let ?x = "if comm C r then x(rec_key r := redo_image r) else x"
      obtain M' P' where s: "strict_log C M' P' rs" "P' k = P k" "M' k = M k" using strict_log_other [OF 1(3)] False by metis
      have "undone_state C (r # rs) (committed_state C (r # rs) x) k = undone_state C rs (committed_state C rs ?x) k" using False by (auto simp: comm_def)
      also have "\<dots> = committed_state C rs M' k"
      proof (rule Cons.IH(1) [OF _ _ s(1)])
        show "P' k = None" using s(2) 1(1) by simp
        show "(\<exists>r \<in> set rs. dml r \<and> rec_key r = k) \<or> ?x k = M' k" using 1(2) s(3) False by (auto simp: comm_def)
      qed
      also have "\<dots> = committed_state C (r # rs) M k" using False s(3) by (auto simp: comm_def intro!: committed_state_local)
      finally show ?thesis .
    next
      case True
      show ?thesis
      proof (cases "C (log_tid r) = None")
        case False
        then have s: "strict_log C (M(k := redo_image r)) (P(k := None)) rs" using 1(3) True by (auto split: if_splits)
        have "undone_state C rs (committed_state C rs (x(k := redo_image r))) k = committed_state C rs (M(k := redo_image r)) k"
          by (rule Cons.IH(1) [OF _ _ s]) simp_all
        then show ?thesis using True False by (auto simp: comm_def)
      next
        case l: True
        then have s: "strict_log C M (P(k \<mapsto> (log_tid r, redo_image r))) rs" "undo_image r = M k" using 1(1,3) True by auto
        show ?thesis
        proof (cases "\<exists>r2 \<in> set rs. comm C r2 \<and> rec_key r2 = k")
          case c: True
          show ?thesis using Cons.IH(2) [where x = x, OF c s(1)] c True l by (auto simp: comm_def)
        next
          case c: False
          show ?thesis using c True l s(2) committed_state_none [OF c] by (auto simp: comm_def)
        qed
      qed
    qed
  next
    case 2
    show ?case
    proof (cases "comm C r \<and> rec_key r = k")
      case True
      then have s: "strict_log C (M(k := redo_image r)) (P(k := None)) rs" using 2(2) by (auto simp: comm_def split: if_splits)
      have "undone_state C rs (committed_state C rs (x(k := redo_image r))) k = committed_state C rs (M(k := redo_image r)) k"
        by (rule Cons.IH(1) [OF _ _ s]) simp_all
      then show ?thesis using True by (auto simp: comm_def)
    next
      case False
      then have c: "\<exists>r2 \<in> set rs. comm C r2 \<and> rec_key r2 = k" using 2(1) by auto
      let ?x = "if comm C r then x(rec_key r := redo_image r) else x"
      obtain M' P' where s: "strict_log C M' P' rs" "M' k = M k" using strict_log_other [OF 2(2)] False unfolding comm_def by metis
      have "undone_state C (r # rs) (committed_state C (r # rs) x) k = undone_state C rs (committed_state C rs ?x) k" using False c by (auto simp: comm_def)
      also have "\<dots> = committed_state C rs M' k" using Cons.IH(2) [OF c s(1)] .
      also have "\<dots> = committed_state C (r # rs) M k" using False s(2) by (auto simp: comm_def intro!: committed_state_local)
      finally show ?thesis .
    qed
  }
qed auto

subsection \<open>Redo and undo implement them\<close>

lemma redo_loop_ok:
  assumes "tables_ready tabs" "\<forall>r \<in> set rs. rec_legal (tshape tabs) r"
  shows "\<exists>tabs'. redo_loop C rs tabs = (Ret (), tabs') \<and> tables_ready tabs' \<and> tshape tabs' = tshape tabs
    \<and> (\<forall>k. tabs (fst k) \<noteq> None \<longrightarrow> tcontents tabs' k = committed_state C rs (tcontents tabs) k)"
  using assms
proof (induction rs arbitrary: tabs)
  case (Cons r rs)
  have op: "tshape t1 = tshape t2 \<Longrightarrow> (t1 u = None) = (t2 u = None)" for t1 t2 u by (auto simp: tshape_def dest!: fun_cong [of _ _ u])
  obtain t1 where t1: "redo_record C r tabs = (Ret (), t1)" "tables_ready t1" "tshape t1 = tshape tabs"
      "tcontents t1 = (if comm C r \<and> tabs (fst (rec_key r)) \<noteq> None then (tcontents tabs)(rec_key r := redo_image r) else tcontents tabs)"
  proof (cases "comm C r")
    case True
    then show ?thesis using on_table_image [OF Cons.prems(1) _ _ disjI1 [OF refl], of r "lsn r"] Cons.prems(2) that
      by (auto simp: redo_record_image comm_def split: if_splits)
  qed (use Cons.prems(1) that in \<open>auto simp: redo_record_image comm_def\<close>)
  obtain t2 where t2: "redo_loop C rs t1 = (Ret (), t2)" "tables_ready t2" "tshape t2 = tshape t1"
      "\<forall>k. t1 (fst k) \<noteq> None \<longrightarrow> tcontents t2 k = committed_state C rs (tcontents t1) k"
    using Cons.IH [OF t1(2)] Cons.prems(2) t1(3) by auto
  have "tcontents t2 k = committed_state C (r # rs) (tcontents tabs) k" if "tabs (fst k) \<noteq> None" for k
  proof -
    have "t1 (fst k) \<noteq> None" using that op [OF t1(3), of "fst k"] by simp
    then have "tcontents t2 k = committed_state C rs (tcontents t1) k" using t2(4) by blast
    also have "\<dots> = committed_state C rs (if comm C r then (tcontents tabs)(rec_key r := redo_image r) else tcontents tabs) k"
      using that by (intro committed_state_local) (auto simp: t1(4))
    finally show ?thesis by simp
  qed
  then show ?case using t1 t2 by auto
qed simp

lemma latest_committed_write_props:
  assumes "\<forall>r \<in> set rs. \<forall>l. m k = Some l \<longrightarrow> l < lsn r" "sorted_wrt (<) (map lsn rs)"
  shows "(\<forall>r \<in> set rs. comm C r \<and> log_tuple_key tabs r = Some k \<longrightarrow> (\<exists>l \<ge> lsn r. latest_committed_write C tabs rs m k = Some l))
    \<and> (\<forall>l. latest_committed_write C tabs rs m k = Some l \<longrightarrow> m k = Some l \<or> (\<exists>r \<in> set rs. comm C r \<and> log_tuple_key tabs r = Some k \<and> lsn r = l))
    \<and> (\<forall>l. m k = Some l \<longrightarrow> (\<exists>l2 \<ge> l. latest_committed_write C tabs rs m k = Some l2))"
  using assms
proof (induction rs arbitrary: m)
  case (Cons r rs)
  let ?m = "if \<not> IsDml (rec_type r) \<or> C (log_tid r) = None then m else case log_tuple_key tabs r of None \<Rightarrow> m | Some k \<Rightarrow> m(k \<mapsto> lsn r)"
  have mk: "?m k = (if comm C r \<and> log_tuple_key tabs r = Some k then Some (lsn r) else m k)"
    by (auto simp: comm_def dml_def split: option.split)
  have h: "\<forall>r \<in> set rs. \<forall>l. ?m k = Some l \<longrightarrow> l < lsn r" using Cons.prems mk by auto
  have "sorted_wrt (<) (map lsn rs)" using Cons.prems(2) by simp
  note ih = Cons.IH [where m = ?m, OF h this]
  show ?case
  proof (cases "comm C r \<and> log_tuple_key tabs r = Some k")
    case True
    then have mr: "?m k = Some (lsn r)" using mk by simp
    have lt: "\<And>l. m k = Some l \<Longrightarrow> l < lsn r" using Cons.prems(1) by simp
    show ?thesis using ih mr lt True by (auto simp del: not_None_eq)
  next
    case False
    then have "?m k = m k" unfolding mk by auto
    then show ?thesis using ih False by auto
  qed
qed auto

lemma undo_loop_append: "undo_loop C L (rs @ qs) = obind (undo_loop C L rs) (\<lambda>_. undo_loop C L qs)"
  by (induction rs) (auto simp: fun_eq_iff obind_def split: prod.split outcome.split)

text \<open>\<open>latest_committed_write\<close> tells, by comparing LSNs, whether a committed record on the same position follows.\<close>

definition follows_known :: "(txn_id_t \<rightharpoonup> timestamp_t) \<Rightarrow> (int \<times> rid \<rightharpoonup> lsn_t) \<Rightarrow> (string \<rightharpoonup> int \<times> nat \<times> nat) \<Rightarrow> log_record list \<Rightarrow> bool" where
  "follows_known C L sh rs \<longleftrightarrow> (\<forall>ys r zs f h. rs = ys @ r # zs \<and> dml r \<and> sh (fst (rec_key r)) = Some (f, h) \<longrightarrow>
     ((\<exists>l. L (f, snd (rec_key r)) = Some l \<and> lsn r < l) \<longleftrightarrow> (\<exists>r2 \<in> set zs. comm C r2 \<and> rec_key r2 = rec_key r)))"

lemma follows_known_Cons:
  assumes "follows_known C L sh (r # rs)"
  shows "follows_known C L sh rs"
    "dml r \<Longrightarrow> sh (fst (rec_key r)) = Some (f, h) \<Longrightarrow> (\<exists>l. L (f, snd (rec_key r)) = Some l \<and> lsn r < l) \<longleftrightarrow> (\<exists>r2 \<in> set rs. comm C r2 \<and> rec_key r2 = rec_key r)"
proof -
  show "follows_known C L sh rs" unfolding follows_known_def
  proof (intro allI impI)
    fix ys r1 zs f h assume "rs = ys @ r1 # zs \<and> dml r1 \<and> sh (fst (rec_key r1)) = Some (f, h)"
    then show "(\<exists>l. L (f, snd (rec_key r1)) = Some l \<and> lsn r1 < l) \<longleftrightarrow> (\<exists>r2 \<in> set zs. comm C r2 \<and> rec_key r2 = rec_key r1)"
      using assms [unfolded follows_known_def, rule_format, of "r # ys" r1 zs f h] by simp
  qed
  show "dml r \<Longrightarrow> sh (fst (rec_key r)) = Some (f, h) \<Longrightarrow> (\<exists>l. L (f, snd (rec_key r)) = Some l \<and> lsn r < l) \<longleftrightarrow> (\<exists>r2 \<in> set rs. comm C r2 \<and> rec_key r2 = rec_key r)"
    using assms [unfolded follows_known_def, rule_format, of "[]" r rs f h] by simp
qed

lemma tuple_key_shape: "dml r \<Longrightarrow> log_tuple_key tabs r = map_option (\<lambda>x. (fst x, snd (rec_key r))) (tshape tabs (fst (rec_key r)))"
  by (erule dml_cases) (simp_all add: image_defs tshape_def option.map_comp o_def)

lemma same_tuple:
  assumes "tables_ready tabs" "dml r" "dml r2" "tshape tabs (fst (rec_key r)) = Some (f, h)"
  shows "log_tuple_key tabs r2 = Some (f, snd (rec_key r)) \<longleftrightarrow> rec_key r2 = rec_key r"
proof
  assume "log_tuple_key tabs r2 = Some (f, snd (rec_key r))"
  then obtain uf where u: "tabs (fst (rec_key r2)) = Some uf" "tbl_fd uf = f" "snd (rec_key r2) = snd (rec_key r)"
    using assms(3) by (auto simp: tuple_key_shape tshape_def)
  obtain tf where "tabs (fst (rec_key r)) = Some tf" "tbl_fd tf = f" using assms(4) by (auto simp: tshape_def)
  then have "fst (rec_key r2) = fst (rec_key r)" using assms(1) u unfolding tables_ready_def by blast
  then show "rec_key r2 = rec_key r" using u(3) by (simp add: prod_eq_iff)
qed (use assms in \<open>simp add: tuple_key_shape\<close>)

lemma latest_follows_known:
  assumes tr: "tables_ready tabs" and s: "sorted_wrt (<) (map lsn rs)"
  shows "follows_known C (latest_committed_write C tabs rs Map.empty) (tshape tabs) rs"
  unfolding follows_known_def
proof (intro allI impI)
  fix ys r zs f h
  assume a: "rs = ys @ r # zs \<and> dml r \<and> tshape tabs (fst (rec_key r)) = Some (f, h)"
  let ?k = "(f, snd (rec_key r))" and ?L = "latest_committed_write C tabs rs Map.empty"
  have lt: "\<And>y. y \<in> set ys \<Longrightarrow> lsn y < lsn r" "\<And>z. z \<in> set zs \<Longrightarrow> lsn r < lsn z" using s a by (auto simp: sorted_wrt_append)
  have p: "\<forall>r \<in> set rs. comm C r \<and> log_tuple_key tabs r = Some ?k \<longrightarrow> (\<exists>l \<ge> lsn r. ?L ?k = Some l)"
    "\<forall>l. ?L ?k = Some l \<longrightarrow> (\<exists>r \<in> set rs. comm C r \<and> log_tuple_key tabs r = Some ?k \<and> lsn r = l)"
    using latest_committed_write_props [OF _ s, of Map.empty ?k C tabs] by auto
  have sk: "comm C r2 \<Longrightarrow> log_tuple_key tabs r2 = Some ?k \<longleftrightarrow> rec_key r2 = rec_key r" for r2 using same_tuple [OF tr] a by (simp add: comm_def)
  show "(\<exists>l. ?L ?k = Some l \<and> lsn r < l) \<longleftrightarrow> (\<exists>r2 \<in> set zs. comm C r2 \<and> rec_key r2 = rec_key r)"
  proof
    assume "\<exists>l. ?L ?k = Some l \<and> lsn r < l"
    then obtain r2 where r2: "r2 \<in> set rs" "comm C r2" "rec_key r2 = rec_key r" "lsn r < lsn r2" using p(2) sk by blast
    then have "r2 \<in> set zs" using a lt(1) by (metis Un_iff less_asym list.set_intros(1) order_less_irrefl set_ConsD set_append)
    then show "\<exists>r2 \<in> set zs. comm C r2 \<and> rec_key r2 = rec_key r" using r2 by blast
  next
    assume "\<exists>r2 \<in> set zs. comm C r2 \<and> rec_key r2 = rec_key r"
    then obtain r2 where r2: "r2 \<in> set zs" "comm C r2" "rec_key r2 = rec_key r" by blast
    then obtain l where "lsn r2 \<le> l" "?L ?k = Some l" using p(1) a sk by auto
    then show "\<exists>l. ?L ?k = Some l \<and> lsn r < l" using lt(2) [OF r2(1)] by auto
  qed
qed

lemma undo_loop_ok:
  assumes "tables_ready tabs" "\<forall>r \<in> set rs. rec_legal (tshape tabs) r" "follows_known C L (tshape tabs) rs"
  shows "\<exists>tabs'. undo_loop C L (rev rs) tabs = (Ret (), tabs') \<and> tables_ready tabs' \<and> tshape tabs' = tshape tabs
    \<and> (\<forall>k. tabs (fst k) \<noteq> None \<longrightarrow> tcontents tabs' k = undone_state C rs (tcontents tabs) k)"
  using assms
proof (induction rs)
  case (Cons r rs)
  note fk = follows_known_Cons [OF Cons.prems(3)]
  obtain t1 where t1: "undo_loop C L (rev rs) tabs = (Ret (), t1)" "tables_ready t1" "tshape t1 = tshape tabs"
      "\<forall>k. tabs (fst k) \<noteq> None \<longrightarrow> tcontents t1 k = undone_state C rs (tcontents tabs) k"
    using Cons.IH [OF Cons.prems(1) _ fk(1)] Cons.prems(2) by auto
  have op: "t1 u = None \<longleftrightarrow> tabs u = None" for u using fun_cong [OF t1(3), of u] by (auto simp: tshape_def)
  let ?do = "dml r \<and> C (log_tid r) = None \<and> \<not> (\<exists>r2 \<in> set rs. comm C r2 \<and> rec_key r2 = rec_key r)"
  obtain t2 where t2: "undo_record C L r t1 = (Ret (), t2)" "tables_ready t2" "tshape t2 = tshape t1"
      "tcontents t2 = (if ?do \<and> tabs (fst (rec_key r)) \<noteq> None then (tcontents t1)(rec_key r := undo_image r) else tcontents t1)"
  proof (cases "t1 (fst (rec_key r))")
    case None
    then have "undo_record C L r t1 = (Ret (), t1)" by (simp add: undo_record_image)
    moreover have "tabs (fst (rec_key r)) = None" using None op [of "fst (rec_key r)"] by simp
    ultimately show ?thesis using that [of t1] t1(2) by simp
  next
    case (Some tf)
    have sh: "tshape tabs (fst (rec_key r)) = Some (tbl_fd tf, heap_shape (tbl_heap tf))" unfolding t1(3) [symmetric] by (simp add: tshape_def Some)
    have k: "dml r \<Longrightarrow> (case L (tbl_fd tf, snd (rec_key r)) of None \<Rightarrow> True | Some l \<Rightarrow> l \<le> lsn r)
        = (\<not> (\<exists>r2 \<in> set rs. comm C r2 \<and> rec_key r2 = rec_key r))"
      using fk(2) [OF _ sh] by (auto simp: not_less split: option.splits)
    show ?thesis
    proof (cases ?do)
      case True
      then have "undo_record C L r t1 = on_table (fst (rec_key r)) (store_image (snd (rec_key r)) (undo_image r) (lsn r)) t1"
        using Some k by (simp add: undo_record_image)
      then show ?thesis using on_table_image [OF t1(2) _ _ disjI2 [OF refl], of r "lsn r"] Cons.prems(2) t1(3) that True Some op [of "fst (rec_key r)"] by auto
    next
      case False
      then have "undo_record C L r t1 = (Ret (), t1)" using Some k by (auto simp: undo_record_image)
      then show ?thesis by (rule that [of t1]) (use t1(2) False in auto)
    qed
  qed
  have "tcontents t2 k = undone_state C (r # rs) (tcontents tabs) k" if "tabs (fst k) \<noteq> None" for k
  proof -
    have ih: "tcontents t1 k = undone_state C rs (tcontents tabs) k" using t1(4) that by blast
    show ?thesis
    proof (cases "?do \<and> k = rec_key r")
      case True
      then show ?thesis using t2(4) that by auto
    next
      case False
      have "tcontents t2 k = tcontents t1 k" using False t2(4) by auto
      moreover have "undone_state C (r # rs) (tcontents tabs) k = undone_state C rs (tcontents tabs) k" using False by auto
      ultimately show ?thesis using ih by simp
    qed
  qed
  moreover have "undo_loop C L (rev (r # rs)) tabs = (Ret (), t2)" using t1(1) t2(1) by (simp add: undo_loop_append)
  ultimately show ?case using t2 t1(3) by auto
qed simp

lemma undo_heap_ok:
  assumes "tables_ready tabs" "\<forall>r \<in> set (logs a). rec_legal (tshape tabs) r" "sorted_wrt (<) (map lsn (logs a))"
  shows "\<exists>tabs'. undo_heap a tabs = (Ret (), tabs') \<and> tables_ready tabs'
    \<and> (\<forall>k. tabs (fst k) \<noteq> None \<longrightarrow> tcontents tabs' k = undone_state (committed_txns a) (logs a) (tcontents tabs) k)"
  using undo_loop_ok [OF assms(1,2) latest_follows_known [OF assms(1,3)], of "committed_txns a"] unfolding undo_heap_def by blast

subsection \<open>Properties\<close>

text \<open>
  C25. Redo and undo refine updates of a map. On tables whose heap files are in order, with records that name legal positions and carry images of the right
  size, both passes run to their end without an error and keep the invariant of every heap file. Redo installs the images of the committed records in
  the order of the log; undo restores, from the end of the log to its beginning, the old image of each record of a transaction that did not commit, unless
  a committed record on the same position follows.
\<close>

theorem redo_undo_refine:
  assumes "tables_ready tabs" and "\<forall>r \<in> set (logs a). rec_legal (tshape tabs) r" and "sorted_wrt (<) (map lsn (logs a))"
  shows "\<exists>tabs1 tabs2. redo a tabs = (Ret (), tabs1) \<and> undo_heap a tabs1 = (Ret (), tabs2) \<and> tables_ready tabs1 \<and> tables_ready tabs2
    \<and> (\<forall>t q. tabs t \<noteq> None \<longrightarrow> tcontents tabs1 (t, q) = committed_state (committed_txns a) (logs a) (tcontents tabs) (t, q)
        \<and> tcontents tabs2 (t, q) = undone_state (committed_txns a) (logs a) (tcontents tabs1) (t, q))"
proof -
  let ?C = "committed_txns a" and ?rs = "logs a"
  obtain t1 where t1: "redo_loop ?C ?rs tabs = (Ret (), t1)" "tables_ready t1" "tshape t1 = tshape tabs"
      "\<forall>k. tabs (fst k) \<noteq> None \<longrightarrow> tcontents t1 k = committed_state ?C ?rs (tcontents tabs) k"
    using redo_loop_ok [OF assms(1,2), of "committed_txns a"] by blast
  have "\<forall>r \<in> set ?rs. rec_legal (tshape t1) r" using assms(2) t1(3) by simp
  then obtain t2 where t2: "undo_heap a t1 = (Ret (), t2)" "tables_ready t2" "\<forall>k. t1 (fst k) \<noteq> None \<longrightarrow> tcontents t2 k = undone_state ?C ?rs (tcontents t1) k"
    using undo_heap_ok [OF t1(2) _ assms(3)] by blast
  have op: "t1 t = None \<longleftrightarrow> tabs t = None" for t using fun_cong [OF t1(3), of t] by (auto simp: tshape_def)
  have "tabs t \<noteq> None \<Longrightarrow> tcontents t1 (t, q) = committed_state ?C ?rs (tcontents tabs) (t, q)
        \<and> tcontents t2 (t, q) = undone_state ?C ?rs (tcontents t1) (t, q)" for t q
    using t1(4) t2(3) op [of t] by (metis fst_conv)
  then show ?thesis using t1(1,2) t2(1,2) by (auto simp: redo_def)
qed


text \<open>An example: a committed insertion, then an update of the same record by a transaction that did not commit.\<close>

definition ex_tables :: tables where "ex_tables = [''t'' \<mapsto> \<lparr>tbl_fd = 3, tbl_heap = ex_heap1\<rparr>]"

definition ex_analysis :: analysis where
  "ex_analysis = analysis_empty\<lparr>logs := [(InsertLogRecord 1 ex_rec ex_rid ''t'')\<lparr>lsn := 0\<rparr>, (UpdateLogRecord 2 ex_rec (replicate 8 9) ex_rid ''t'')\<lparr>lsn := 100\<rparr>],
     committed_txns := [1 \<mapsto> 5]\<rparr>"

lemma ex_recovery:
  "tables_ready ex_tables" "\<forall>r \<in> set (logs ex_analysis). rec_legal (tshape ex_tables) r" "sorted_wrt (<) (map lsn (logs ex_analysis))"
  "strict_log (committed_txns ex_analysis) Map.empty Map.empty (logs ex_analysis)"
  "\<forall>k. (\<exists>r \<in> set (logs ex_analysis). dml r \<and> rec_key r = k) \<or> tcontents ex_tables k = Map.empty k"
  "committed_state (committed_txns ex_analysis) (logs ex_analysis) Map.empty = [(''t'', ex_rid) \<mapsto> ex_rec]"
proof -
  show "tables_ready ex_tables" by (simp add: tables_ready_def ex_tables_def heap_ready_def ex_insert)
  show "\<forall>r \<in> set (logs ex_analysis). rec_legal (tshape ex_tables) r"
    by (auto simp: ex_analysis_def ex_tables_def rec_legal_def tshape_def heap_shape_def rid_legal_def image_legal_def image_defs
        InsertLogRecord_def UpdateLogRecord_def new_log_record_def ex_insert)
  show "sorted_wrt (<) (map lsn (logs ex_analysis))" by (simp add: ex_analysis_def)
  show "strict_log (committed_txns ex_analysis) Map.empty Map.empty (logs ex_analysis)"
    "committed_state (committed_txns ex_analysis) (logs ex_analysis) Map.empty = [(''t'', ex_rid) \<mapsto> ex_rec]"
    by (simp_all add: ex_analysis_def analysis_empty_def dml_def IsDml_def comm_def image_defs InsertLogRecord_def UpdateLogRecord_def new_log_record_def)
  show "\<forall>k. (\<exists>r \<in> set (logs ex_analysis). dml r \<and> rec_key r = k) \<or> tcontents ex_tables k = Map.empty k"
    by (auto simp: ex_analysis_def ex_tables_def tcontents_def dml_def IsDml_def image_defs InsertLogRecord_def UpdateLogRecord_def new_log_record_def ex_insert)
qed

theorem redo_undo_refine_witness:
  "\<exists>tabs1 tabs2. redo ex_analysis ex_tables = (Ret (), tabs1) \<and> undo_heap ex_analysis tabs1 = (Ret (), tabs2) \<and> tables_ready tabs2"
  using redo_undo_refine [OF ex_recovery(1-3)] by blast


end
