(* ===== verification/Rmdb_Index_Key.thy ===== *)
theory Rmdb_Index_Key
  imports Rmdb_Log_Record
begin

text \<open>
  Keys of an index, \<^verbatim>\<open>ix_compare\<close> of \<^verbatim>\<open>src/src/index/ix_index_handle.h\<close>. A key is the concatenation of the bytes of the indexed columns and is compared column
  by column: integers and floating-point numbers by value, strings with \<open>memcmp\<close>. The order of IEEE 754 single-precision numbers is the
  order of their sign and magnitude; a comparison with a NaN is false, so that \<open>ix_compare\<close> calls a NaN equal to everything.

  \<open>key_ord\<close> maps a key to an integer such that the comparison of two keys is the comparison of these integers: without NaN, the keys
  of an index are linearly ordered. The proofs about the tree rest on \<open>key_ord\<close>.
\<close>

datatype col_type = TYPE_INT | TYPE_FLOAT | TYPE_STRING

type_synonym columns = "(col_type \<times> nat) list"

definition float_is_nan :: "byte list \<Rightarrow> bool" where
  "float_is_nan bs \<longleftrightarrow> le_dec (take 4 bs) mod 2 ^ 31 > 255 * 2 ^ 23"

definition float_ord :: "byte list \<Rightarrow> int" where
  "float_ord bs = (let u = le_dec (take 4 bs) in if u < 2 ^ 31 then u else 2 ^ 31 - u)"

definition float_less :: "byte list \<Rightarrow> byte list \<Rightarrow> bool" where
  "float_less a b \<longleftrightarrow> \<not> float_is_nan a \<and> \<not> float_is_nan b \<and> float_ord a < float_ord b"

fun memcmp :: "nat \<Rightarrow> byte list \<Rightarrow> byte list \<Rightarrow> int" where
  "memcmp (Suc n) (x # xs) (y # ys) = (if x = y then memcmp n xs ys else uint x - uint y)"
| "memcmp _ _ _ = 0"

fun ix_compare_col :: "byte list \<Rightarrow> byte list \<Rightarrow> col_type \<Rightarrow> nat \<Rightarrow> int" where
  "ix_compare_col a b TYPE_INT _ =
     (let ia = le_dec_signed (take 4 a); ib = le_dec_signed (take 4 b) in if ia < ib then - 1 else if ia > ib then 1 else 0)"
| "ix_compare_col a b TYPE_FLOAT _ = (if float_less a b then - 1 else if float_less b a then 1 else 0)"
| "ix_compare_col a b TYPE_STRING col_len = memcmp col_len a b"

fun ix_compare :: "columns \<Rightarrow> byte list \<Rightarrow> byte list \<Rightarrow> int" where
  "ix_compare [] a b = 0"
| "ix_compare ((ty, len) # cs) a b =
     (let res = ix_compare_col a b ty len in if res \<noteq> 0 then res else ix_compare cs (drop len a) (drop len b))"

subsection \<open>The order of keys\<close>

definition key_len :: "columns \<Rightarrow> nat" where
  "key_len cs = sum_list (map snd cs)"

definition cols_ok :: "columns \<Rightarrow> bool" where
  "cols_ok cs \<longleftrightarrow> (\<forall>(ty, len) \<in> set cs. ty \<noteq> TYPE_STRING \<longrightarrow> len = 4)"

fun no_nan :: "columns \<Rightarrow> byte list \<Rightarrow> bool" where
  "no_nan [] k = True"
| "no_nan ((ty, len) # cs) k = ((ty = TYPE_FLOAT \<longrightarrow> \<not> float_is_nan k) \<and> no_nan cs (drop len k))"

definition valid_key :: "columns \<Rightarrow> byte list \<Rightarrow> bool" where
  "valid_key cs k \<longleftrightarrow> length k = key_len cs \<and> no_nan cs k"

fun be_val :: "byte list \<Rightarrow> int" where
  "be_val [] = 0"
| "be_val (b # bs) = uint b * 256 ^ length bs + be_val bs"

fun col_ord :: "col_type \<Rightarrow> byte list \<Rightarrow> int" where
  "col_ord TYPE_INT bs = le_dec_signed bs + 2 ^ 31"
| "col_ord TYPE_FLOAT bs = float_ord bs + 2 ^ 31"
| "col_ord TYPE_STRING bs = be_val bs"

fun key_ord :: "columns \<Rightarrow> byte list \<Rightarrow> int" where
  "key_ord [] k = 0"
| "key_ord ((ty, len) # cs) k = col_ord ty (take len k) * 256 ^ key_len cs + key_ord cs (drop len k)"

lemma uint_byte: "0 \<le> uint (b :: byte)" "uint (b :: byte) \<le> 255"
  using uint_lt2p [of b] by simp_all

lemma be_val_bounds: "0 \<le> be_val bs \<and> be_val bs < 256 ^ length bs"
proof (induction bs)
  case (Cons b bs)
  have "(uint b + 1) * 256 ^ length bs \<le> 256 * 256 ^ length bs" using uint_byte(2) [of b] by (intro mult_right_mono) simp_all
  then have "uint b * 256 ^ length bs + be_val bs < 256 * 256 ^ length bs" using Cons unfolding distrib_right by linarith
  then show ?case using Cons uint_byte(1) [of b] by simp
qed simp

lemma lex_less:
  fixes x y u v m :: int
  assumes "0 \<le> u" "u < m" "0 \<le> v" "v < m"
  shows "x * m + u < y * m + v \<longleftrightarrow> x < y \<or> x = y \<and> u < v" "x * m + u = y * m + v \<longleftrightarrow> x = y \<and> u = v"
proof -
  have *: "a * m + u < b * m + v" if "a < b" for a b
  proof -
    have "(a + 1) * m \<le> b * m" using that assms by (intro mult_right_mono) simp_all
    then show ?thesis using assms by (simp add: algebra_simps)
  qed
  have **: "a * m + v < b * m + u" if "a < b" for a b
  proof -
    have "(a + 1) * m \<le> b * m" using that assms by (intro mult_right_mono) simp_all
    then show ?thesis using assms by (simp add: algebra_simps)
  qed
  show "x * m + u < y * m + v \<longleftrightarrow> x < y \<or> x = y \<and> u < v"
    using * [of x y] ** [of y x] by (cases x y rule: linorder_cases) auto
  show "x * m + u = y * m + v \<longleftrightarrow> x = y \<and> u = v"
    using * [of x y] ** [of y x] by (cases x y rule: linorder_cases) auto
qed

lemma memcmp_be_val:
  "length a = n \<Longrightarrow> length b = n \<Longrightarrow> (memcmp n a b < 0 \<longleftrightarrow> be_val a < be_val b) \<and> (memcmp n a b = 0 \<longleftrightarrow> be_val a = be_val b)"
proof (induction n a b rule: memcmp.induct)
  case (1 n x xs y ys)
  have l: "length xs = n" "length ys = n" using 1 by simp_all
  note b = be_val_bounds [of xs] be_val_bounds [of ys]
  have "(uint x - uint y = 0) = (x = y)" using word_uint_eq_iff [of x y] by simp
  then show ?case using 1 l lex_less [of "be_val xs" "256 ^ n" "be_val ys" "uint x" "uint y"] b by (auto simp: word_uint_eq_iff)
qed simp_all

lemma le_dec_bounds: "0 \<le> le_dec bs \<and> le_dec bs < 256 ^ length bs"
proof (induction bs)
  case (Cons b bs)
  then show ?case using uint_byte [of b] by (simp add: algebra_simps)
qed simp

lemma le_dec4: "length k = 4 \<Longrightarrow> 0 \<le> le_dec k \<and> le_dec k < 2 ^ 32"
  using le_dec_bounds [of k] by simp

lemma le_dec_signed4: "length k = 4 \<Longrightarrow> - (2 ^ 31) \<le> le_dec_signed k \<and> le_dec_signed k < 2 ^ 31"
  using le_dec4 [of k] by (auto simp: le_dec_signed_def Let_def)

lemma col_ord_bounds:
  assumes "length k = len" "ty \<noteq> TYPE_STRING \<longrightarrow> len = 4"
  shows "0 \<le> col_ord ty k \<and> col_ord ty k < 256 ^ len"
  using assms le_dec_signed4 [of k] le_dec4 [of k] be_val_bounds [of k] by (cases ty) (auto simp: float_ord_def Let_def)

lemma key_ord_bounds: "cols_ok cs \<Longrightarrow> length k = key_len cs \<Longrightarrow> 0 \<le> key_ord cs k \<and> key_ord cs k < 256 ^ key_len cs"
proof (induction cs k rule: key_ord.induct)
  case (2 ty len cs k)
  have c: "cols_ok cs" "ty \<noteq> TYPE_STRING \<longrightarrow> len = 4" "length (drop len k) = key_len cs" "length (take len k) = len" "key_len ((ty, len) # cs) = len + key_len cs"
    using "2.prems" by (auto simp: cols_ok_def key_len_def)
  note i = "2.IH" [OF c(1,3)]
  note b = col_ord_bounds [OF c(4,2)]
  have "(col_ord ty (take len k) + 1) * 256 ^ key_len cs \<le> 256 ^ len * 256 ^ key_len cs" using b by (intro mult_right_mono) simp_all
  then have "col_ord ty (take len k) * 256 ^ key_len cs + key_ord cs (drop len k) < 256 ^ len * 256 ^ key_len cs" using i by (simp add: algebra_simps)
  then show ?case using b i c(5) by (simp add: power_add)
qed (simp add: key_len_def)

lemma ix_compare_col_ord:
  assumes "ty \<noteq> TYPE_STRING \<longrightarrow> len = 4" "len \<le> length a" "len \<le> length b" "ty = TYPE_FLOAT \<longrightarrow> \<not> float_is_nan a \<and> \<not> float_is_nan b"
  shows "(ix_compare_col a b ty len < 0 \<longleftrightarrow> col_ord ty (take len a) < col_ord ty (take len b))
    \<and> (ix_compare_col a b ty len = 0 \<longleftrightarrow> col_ord ty (take len a) = col_ord ty (take len b))"
proof (cases ty)
  case TYPE_STRING
  have "memcmp n x y = memcmp n (take n x) (take n y)" for n x y by (induction n x y rule: memcmp.induct) auto
  then show ?thesis using TYPE_STRING assms memcmp_be_val [of "take len a" len "take len b"] by simp
qed (use assms in \<open>auto simp: Let_def float_less_def float_ord_def\<close>)

lemma ix_compare_ord:
  assumes "cols_ok cs" "valid_key cs a" "valid_key cs b"
  shows "(ix_compare cs a b < 0 \<longleftrightarrow> key_ord cs a < key_ord cs b) \<and> (ix_compare cs a b = 0 \<longleftrightarrow> key_ord cs a = key_ord cs b)"
  using assms
proof (induction cs a b rule: ix_compare.induct)
  case (2 ty len cs a b)
  have c: "cols_ok cs" "ty \<noteq> TYPE_STRING \<longrightarrow> len = 4" "key_len ((ty, len) # cs) = len + key_len cs"
    using "2.prems" by (auto simp: cols_ok_def key_len_def)
  have v: "length a = len + key_len cs" "length b = len + key_len cs" "valid_key cs (drop len a)" "valid_key cs (drop len b)"
      "ty = TYPE_FLOAT \<longrightarrow> \<not> float_is_nan a \<and> \<not> float_is_nan b"
    using "2.prems"(2,3) c(3) by (auto simp: valid_key_def)
  have "length (drop len a) = key_len cs" "length (drop len b) = key_len cs" using v(3,4) by (simp_all add: valid_key_def)
  note l = lex_less [where m = "256 ^ key_len cs" and u = "key_ord cs (drop len a)" and v = "key_ord cs (drop len b)"
      and x = "col_ord ty (take len a)" and y = "col_ord ty (take len b)"]
  have "(ix_compare_col a b ty len < 0 \<longleftrightarrow> col_ord ty (take len a) < col_ord ty (take len b))
    \<and> (ix_compare_col a b ty len = 0 \<longleftrightarrow> col_ord ty (take len a) = col_ord ty (take len b))"
    using ix_compare_col_ord c(2) v(1,2,5) by simp
  then show ?case
    using "2.IH" [OF refl _ c(1) v(3,4)] l key_ord_bounds [OF c(1), of "drop len a"] key_ord_bounds [OF c(1), of "drop len b"] v(1,2)
    by (auto simp: Let_def)
qed simp

subsection \<open>Property\<close>

text \<open>
  C28. Keys are linearly ordered. For keys of the right length without a NaN, \<open>ix_compare\<close> compares the integers \<open>key_ord\<close> assigns to the keys, column after column,
  whatever the types and widths of the columns: it is negative, zero or positive exactly when the first integer is below, equal to or above the second.
\<close>

theorem ix_compare_linear:
  assumes "cols_ok cs" and "valid_key cs a" and "valid_key cs b"
  shows "sgn (ix_compare cs a b) = sgn (key_ord cs a - key_ord cs b)"
  using ix_compare_ord [OF assms] by (cases "ix_compare cs a b" "0 :: int" rule: linorder_cases) auto

theorem ix_compare_linear_witness:
  "sgn (ix_compare [(TYPE_INT, 4), (TYPE_FLOAT, 4), (TYPE_STRING, 2)] [255, 255, 255, 255, 0, 0, 0, 128, 1, 2] [255, 255, 255, 255, 0, 0, 0, 0, 1, 3]) = - 1"
  using ix_compare_linear [of "[(TYPE_INT, 4), (TYPE_FLOAT, 4), (TYPE_STRING, 2)]" "[255, 255, 255, 255, 0, 0, 0, 128, 1, 2]" "[255, 255, 255, 255, 0, 0, 0, 0, 1, 3]"]
  by (simp add: cols_ok_def valid_key_def key_len_def float_is_nan_def float_ord_def le_dec_signed_def Let_def)

end
