(* ===== verification/Rmdb_Index_Node.thy ===== *)
theory Rmdb_Index_Node
  imports Rmdb_Index_Key Rmdb_Heap_Page
begin

text \<open>
  Nodes of the B+ tree: \<^verbatim>\<open>IxPageHdr\<close> of \<^verbatim>\<open>src/src/index/ix_defs.h\<close> and \<^verbatim>\<open>IxNodeHandle\<close> of \<^verbatim>\<open>ix_index_handle.h\<close> and
  \<^verbatim>\<open>ix_index_handle.cpp\<close>. A node handle is a view of the bytes of a page: a header of 24 bytes, an array of keys and an
  array of record identifiers. \<open>ix_node\<close> is what it shows: the fields of the header and the first \<open>num_key\<close> pairs; \<open>node_of\<close> reads
  it from the bytes. The operations that move bytes (\<open>page_insert_pairs\<close>, \<open>page_erase_pair\<close>, ...) are shown to
  implement the operations on \<open>ix_node\<close>, which the tree is built from.
\<close>

record ix_file_hdr =
  first_free_page :: int
  ix_num_pages :: int
  root_page :: int
  ix_cols :: columns
  col_tot_len :: nat
  btree_order :: nat
  keys_size :: nat
  first_leaf :: int
  last_leaf :: int

definition IX_NO_PAGE :: int where "IX_NO_PAGE = - 1"
definition IX_FILE_HDR_PAGE :: int where "IX_FILE_HDR_PAGE = 0"
definition IX_LEAF_HEADER_PAGE :: int where "IX_LEAF_HEADER_PAGE = 1"
definition IX_INIT_ROOT_PAGE :: int where "IX_INIT_ROOT_PAGE = 2"
definition IX_INIT_NUM_PAGES :: int where "IX_INIT_NUM_PAGES = 3"
definition IX_MAX_COL_LEN :: nat where "IX_MAX_COL_LEN = 512"
definition sizeof_IxPageHdr :: nat where "sizeof_IxPageHdr = 24"
definition sizeof_Rid :: nat where "sizeof_Rid = 8"

lemmas ix_consts = IX_NO_PAGE_def IX_FILE_HDR_PAGE_def IX_LEAF_HEADER_PAGE_def IX_INIT_ROOT_PAGE_def IX_INIT_NUM_PAGES_def

type_synonym ix_pair = "byte list \<times> rid"

record ix_node =
  nd_next_free :: int
  nd_parent :: int
  nd_is_leaf :: bool
  nd_prev_leaf :: int
  nd_next_leaf :: int
  nd_pairs :: "ix_pair list"

definition get_size :: "ix_node \<Rightarrow> nat" where "get_size nd = length (nd_pairs nd)"
definition get_max_size :: "ix_file_hdr \<Rightarrow> nat" where "get_max_size h = btree_order h + 1"
definition get_min_size :: "ix_file_hdr \<Rightarrow> nat" where "get_min_size h = get_max_size h div 2"
definition get_key :: "ix_node \<Rightarrow> nat \<Rightarrow> byte list" where "get_key nd i = fst (nd_pairs nd ! i)"
definition get_rid :: "ix_node \<Rightarrow> nat \<Rightarrow> rid" where "get_rid nd i = snd (nd_pairs nd ! i)"
definition value_at :: "ix_node \<Rightarrow> nat \<Rightarrow> int" where "value_at nd i = rid_page (get_rid nd i)"
definition is_root_page :: "ix_node \<Rightarrow> bool" where "is_root_page nd \<longleftrightarrow> nd_parent nd = INVALID_PAGE_ID"

subsection \<open>Search in a node\<close>

text \<open>The two binary searches differ in the comparison; \<open>key i\<close> is the key at index \<open>i\<close>.\<close>

function bsearch :: "(nat \<Rightarrow> bool) \<Rightarrow> nat \<Rightarrow> nat \<Rightarrow> nat" where
  "bsearch right lo hi =
     (if lo < hi then let mid = (lo + hi) div 2 in if right mid then bsearch right (mid + 1) hi else bsearch right lo mid else lo)"
  by pat_completeness auto
termination
  by (relation "measure (\<lambda>(right, lo, hi). hi - lo)") auto

declare bsearch.simps [simp del]

definition lower_bound :: "columns \<Rightarrow> byte list \<Rightarrow> ix_node \<Rightarrow> nat" where
  "lower_bound cs target nd = bsearch (\<lambda>mid. ix_compare cs (get_key nd mid) target < 0) 0 (get_size nd)"

definition upper_bound :: "columns \<Rightarrow> byte list \<Rightarrow> ix_node \<Rightarrow> nat" where
  "upper_bound cs target nd = bsearch (\<lambda>mid. ix_compare cs (get_key nd mid) target \<le> 0) 0 (get_size nd)"

definition leaf_lookup :: "columns \<Rightarrow> byte list \<Rightarrow> ix_node \<Rightarrow> rid option" where
  "leaf_lookup cs key nd =
     (let pos = lower_bound cs key nd
      in if pos < get_size nd \<and> ix_compare cs (get_key nd pos) key = 0 then Some (get_rid nd pos) else None)"

definition internal_lookup :: "columns \<Rightarrow> byte list \<Rightarrow> ix_node \<Rightarrow> int" where
  "internal_lookup cs key nd =
     (let pos = upper_bound cs key nd; pos = (if pos = 0 then 1 else pos) in rid_page (get_rid nd (pos - 1)))"

subsection \<open>Changes of a node\<close>

definition insert_pairs :: "nat \<Rightarrow> ix_pair list \<Rightarrow> ix_node \<Rightarrow> ix_node" where
  "insert_pairs pos kvs nd = nd\<lparr>nd_pairs := take pos (nd_pairs nd) @ kvs @ drop pos (nd_pairs nd)\<rparr>"

definition insert_pair :: "nat \<Rightarrow> byte list \<Rightarrow> rid \<Rightarrow> ix_node \<Rightarrow> ix_node" where
  "insert_pair pos key r = insert_pairs pos [(key, r)]"

definition erase_pair :: "nat \<Rightarrow> ix_node \<Rightarrow> ix_node" where
  "erase_pair pos nd = nd\<lparr>nd_pairs := take pos (nd_pairs nd) @ drop (Suc pos) (nd_pairs nd)\<rparr>"

definition set_size :: "nat \<Rightarrow> ix_node \<Rightarrow> ix_node" where
  "set_size n nd = nd\<lparr>nd_pairs := take n (nd_pairs nd)\<rparr>"

definition set_key :: "nat \<Rightarrow> byte list \<Rightarrow> ix_node \<Rightarrow> ix_node" where
  "set_key i key nd = nd\<lparr>nd_pairs := (nd_pairs nd)[i := (key, get_rid nd i)]\<rparr>"

definition node_insert :: "columns \<Rightarrow> byte list \<Rightarrow> rid \<Rightarrow> ix_node \<Rightarrow> db_error + ix_node" where
  "node_insert cs key v nd =
     (let pos = lower_bound cs key nd
      in if pos < get_size nd \<and> ix_compare cs (get_key nd pos) key = 0 then Inl DuplicateKeyError else Inr (insert_pair pos key v nd))"

definition node_remove :: "columns \<Rightarrow> byte list \<Rightarrow> ix_node \<Rightarrow> ix_node" where
  "node_remove cs key nd =
     (let pos = lower_bound cs key nd
      in if pos < get_size nd \<and> ix_compare cs (get_key nd pos) key = 0 then erase_pair pos nd else nd)"

definition find_child :: "int \<Rightarrow> ix_node \<Rightarrow> nat" where
  "find_child child nd = length (takeWhile (\<lambda>p. rid_page (snd p) \<noteq> child) (nd_pairs nd))"

definition remove_and_return_only_child :: "ix_node \<Rightarrow> int \<times> ix_node" where
  "remove_and_return_only_child nd = (value_at nd 0, erase_pair 0 nd)"

subsection \<open>The bytes of a node\<close>

definition page_num_key :: "byte list \<Rightarrow> int" where "page_num_key pg = le_dec_signed (get_bytes pg 8 4)"

definition set_page_num_key :: "int \<Rightarrow> byte list \<Rightarrow> byte list" where "set_page_num_key n pg = put_bytes pg 8 (le_enc 4 n)"

definition keys_off :: "ix_file_hdr \<Rightarrow> nat \<Rightarrow> nat" where "keys_off h i = sizeof_IxPageHdr + i * col_tot_len h"

definition rids_off :: "ix_file_hdr \<Rightarrow> nat \<Rightarrow> nat" where "rids_off h i = sizeof_IxPageHdr + keys_size h + i * sizeof_Rid"

definition page_key :: "ix_file_hdr \<Rightarrow> byte list \<Rightarrow> nat \<Rightarrow> byte list" where
  "page_key h pg i = get_bytes pg (keys_off h i) (col_tot_len h)"

definition rid_of_bytes :: "byte list \<Rightarrow> rid" where
  "rid_of_bytes bs = \<lparr>rid_page = le_dec_signed (take 4 bs), rid_slot = le_dec_signed (drop 4 bs)\<rparr>"

definition page_rid :: "ix_file_hdr \<Rightarrow> byte list \<Rightarrow> nat \<Rightarrow> rid" where
  "page_rid h pg i = rid_of_bytes (get_bytes pg (rids_off h i) sizeof_Rid)"

definition node_of :: "ix_file_hdr \<Rightarrow> byte list \<Rightarrow> ix_node" where
  "node_of h pg =
     \<lparr>nd_next_free = le_dec_signed (get_bytes pg 0 4), nd_parent = le_dec_signed (get_bytes pg 4 4), nd_is_leaf = (get_bytes pg 12 1 \<noteq> [0]),
      nd_prev_leaf = le_dec_signed (get_bytes pg 16 4), nd_next_leaf = le_dec_signed (get_bytes pg 20 4),
      nd_pairs = map (\<lambda>i. (page_key h pg i, page_rid h pg i)) [0..<nat (page_num_key pg)]\<rparr>"

definition memmove :: "nat \<Rightarrow> nat \<Rightarrow> nat \<Rightarrow> byte list \<Rightarrow> byte list" where
  "memmove dst src n pg = put_bytes pg dst (get_bytes pg src n)"

definition page_insert_pairs :: "ix_file_hdr \<Rightarrow> nat \<Rightarrow> ix_pair list \<Rightarrow> byte list \<Rightarrow> byte list" where
  "page_insert_pairs h pos kvs pg =
     (let key_size = col_tot_len h; num = nat (page_num_key pg); n = length kvs;
          pg1 = (if pos < num then memmove (keys_off h (pos + n)) (keys_off h pos) ((num - pos) * key_size) pg else pg);
          pg2 = (if pos < num then memmove (rids_off h (pos + n)) (rids_off h pos) ((num - pos) * sizeof_Rid) pg1 else pg1);
          pg3 = put_bytes pg2 (keys_off h pos) (concat (map fst kvs));
          pg4 = put_bytes pg3 (rids_off h pos) (concat (map (WriteRid \<circ> snd) kvs))
      in set_page_num_key (page_num_key pg + int n) pg4)"

definition page_erase_pair :: "ix_file_hdr \<Rightarrow> nat \<Rightarrow> byte list \<Rightarrow> byte list" where
  "page_erase_pair h pos pg =
     (let key_size = col_tot_len h; num = nat (page_num_key pg);
          pg1 = (if pos < num - 1 then memmove (keys_off h pos) (keys_off h (pos + 1)) ((num - pos - 1) * key_size) pg else pg);
          pg2 = (if pos < num - 1 then memmove (rids_off h pos) (rids_off h (pos + 1)) ((num - pos - 1) * sizeof_Rid) pg1 else pg1)
      in set_page_num_key (page_num_key pg - 1) pg2)"

definition page_set_key :: "ix_file_hdr \<Rightarrow> nat \<Rightarrow> byte list \<Rightarrow> byte list \<Rightarrow> byte list" where
  "page_set_key h i key pg = put_bytes pg (keys_off h i) key"

definition page_set_parent :: "int \<Rightarrow> byte list \<Rightarrow> byte list" where "page_set_parent p pg = put_bytes pg 4 (le_enc 4 p)"
definition page_set_prev_leaf :: "int \<Rightarrow> byte list \<Rightarrow> byte list" where "page_set_prev_leaf p pg = put_bytes pg 16 (le_enc 4 p)"
definition page_set_next_leaf :: "int \<Rightarrow> byte list \<Rightarrow> byte list" where "page_set_next_leaf p pg = put_bytes pg 20 (le_enc 4 p)"

subsection \<open>Arrays in a page\<close>

lemma get_put_inside: "j + n \<le> length bs \<Longrightarrow> off + length bs \<le> length pg \<Longrightarrow> get_bytes (put_bytes pg off bs) (off + j) n = get_bytes bs j n"
  by (simp add: get_bytes_def put_bytes_def)

lemma get_get: "j + n \<le> m \<Longrightarrow> get_bytes (get_bytes pg off m) j n = get_bytes pg (off + j) n"
  by (simp add: get_bytes_def drop_take min_def add.commute)

lemma length_get_bytes: "off + n \<le> length pg \<Longrightarrow> length (get_bytes pg off n) = n"
  by (simp add: get_bytes_def)

lemma put_bytes_commute:
  assumes "a + length x \<le> length pg" "b + length y \<le> length pg" "a + length x \<le> b \<or> b + length y \<le> a"
  shows "put_bytes (put_bytes pg a x) b y = put_bytes (put_bytes pg b y) a x"
  using assms by (intro nth_equalityI) (auto simp: nth_put_bytes)

lemma length_memmove [simp]: "dst + n \<le> length pg \<Longrightarrow> src + n \<le> length pg \<Longrightarrow> length (memmove dst src n pg) = length pg"
  by (simp add: memmove_def length_get_bytes)

lemma memmove_put_commute:
  assumes "dst + n \<le> length pg" "src + n \<le> length pg" "b + length y \<le> length pg"
    and "dst + n \<le> b \<or> b + length y \<le> dst" "src + n \<le> b \<or> b + length y \<le> src"
  shows "put_bytes (memmove dst src n pg) b y = memmove dst src n (put_bytes pg b y)"
  using assms by (simp add: memmove_def put_bytes_commute length_get_bytes get_put_other)

lemma get_concat: "\<forall>x \<in> set xs. length x = z \<Longrightarrow> j < length xs \<Longrightarrow> get_bytes (concat xs) (j * z) z = xs ! j"
proof (induction xs arbitrary: j)
  case (Cons x xs)
  then show ?case by (cases j) (simp_all add: get_bytes_def)
qed simp

lemma length_concat_same: "\<forall>x \<in> set xs. length x = z \<Longrightarrow> length (concat xs) = length xs * z"
  by (induction xs) auto

text \<open>Making room in an array of elements of \<open>z\<close> bytes at offset \<open>o1\<close> and filling it; and closing a gap.\<close>

definition splice :: "nat \<Rightarrow> nat \<Rightarrow> nat \<Rightarrow> nat \<Rightarrow> byte list list \<Rightarrow> byte list \<Rightarrow> byte list" where
  "splice o1 z pos num xs pg =
     put_bytes (if pos < num then memmove (o1 + (pos + length xs) * z) (o1 + pos * z) ((num - pos) * z) pg else pg) (o1 + pos * z) (concat xs)"

definition unsplice :: "nat \<Rightarrow> nat \<Rightarrow> nat \<Rightarrow> nat \<Rightarrow> byte list \<Rightarrow> byte list" where
  "unsplice o1 z pos num pg = (if pos < num - 1 then memmove (o1 + pos * z) (o1 + (pos + 1) * z) ((num - pos - 1) * z) pg else pg)"

lemma scale_split: "pos \<le> (num::nat) \<Longrightarrow> pos * z + (num - pos) * z = num * z"
  by (metis add_mult_distrib le_add_diff_inverse)

lemma splice_room:
  assumes "o1 + (num + length xs) * z \<le> length pg" "\<forall>x \<in> set xs. length x = z" "pos \<le> num"
  shows "o1 + pos * z + length xs * z \<le> length pg \<and> o1 + (pos + length xs) * z + (num - pos) * z \<le> length pg
    \<and> o1 + pos * z + (num - pos) * z \<le> length pg \<and> length (concat xs) = length xs * z"
proof -
  have "pos * z \<le> num * z" using assms(3) by simp
  then show ?thesis using assms(1) scale_split [OF assms(3), of z] length_concat_same [OF assms(2)] by (simp add: add_mult_distrib)
qed

lemma length_splice: "o1 + (num + length xs) * z \<le> length pg \<Longrightarrow> \<forall>x \<in> set xs. length x = z \<Longrightarrow> pos \<le> num \<Longrightarrow> length (splice o1 z pos num xs pg) = length pg"
  using splice_room [of o1 num xs z pg pos] by (cases "pos < num") (simp_all add: splice_def)

lemma get_memmove:
  assumes "dst + n \<le> length pg" "src + n \<le> length pg"
  shows "j + m \<le> n \<Longrightarrow> get_bytes (memmove dst src n pg) (dst + j) m = get_bytes pg (src + j) m"
    and "o1 + m \<le> dst \<or> dst + n \<le> o1 \<Longrightarrow> get_bytes (memmove dst src n pg) o1 m = get_bytes pg o1 m"
  using assms by (simp_all add: memmove_def get_put_inside get_get get_put_other length_get_bytes)

lemma scale_mono: "i < j \<Longrightarrow> i * z + z \<le> j * (z::nat)"
  using mult_le_mono1 [of "Suc i" j z] by simp

lemma get_splice:
  assumes "o1 + (num + length xs) * z \<le> length pg" "\<forall>x \<in> set xs. length x = z" "pos \<le> num" "i < num + length xs"
  shows "get_bytes (splice o1 z pos num xs pg) (o1 + i * z) z =
    (if i < pos then get_bytes pg (o1 + i * z) z else if i < pos + length xs then xs ! (i - pos) else get_bytes pg (o1 + (i - length xs) * z) z)"
proof -
  note r = splice_room [OF assms(1-3)]
  consider (before) "i < pos" | (inside) "pos \<le> i" "i < pos + length xs" | (after) "pos + length xs \<le> i" by linarith
  then show ?thesis
  proof cases
    case before
    have "i * z + z \<le> pos * z" "i * z + z \<le> (pos + length xs) * z" using before by (simp_all add: scale_mono)
    then show ?thesis using before r by (simp add: splice_def get_put_other get_memmove(2))
  next
    case inside
    have i: "(i - pos) * z + z \<le> length xs * z" "i * z = pos * z + (i - pos) * z" using inside scale_mono [of "i - pos" "length xs" z] scale_split [of pos i z] by simp_all
    have "get_bytes (put_bytes p (o1 + pos * z) (concat xs)) (o1 + i * z) z = xs ! (i - pos)" if "length p = length pg" for p
      using get_put_inside [of "(i - pos) * z" z "concat xs" "o1 + pos * z" p] get_concat [OF assms(2), of "i - pos"] i inside r that by (simp add: add.assoc)
    then show ?thesis using inside r by (simp add: splice_def)
  next
    case after
    define j where "j = i - (pos + length xs)"
    have j: "i = pos + length xs + j" "j < num - pos" "i - length xs = pos + j" using after assms(4) by (simp_all add: j_def)
    have m: "j * z + z \<le> (num - pos) * z" using j(2) by (rule scale_mono)
    have e: "o1 + i * z = o1 + (pos + length xs) * z + j * z" "o1 + (i - length xs) * z = o1 + pos * z + j * z" unfolding j(3) by (simp_all add: j(1) add_mult_distrib)
    have "get_bytes (memmove (o1 + (pos + length xs) * z) (o1 + pos * z) ((num - pos) * z) pg) (o1 + i * z) z = get_bytes pg (o1 + (i - length xs) * z) z"
      unfolding e using r m by (intro get_memmove(1)) simp_all
    moreover have "o1 + pos * z + length xs * z \<le> o1 + i * z" unfolding e by (simp add: add_mult_distrib)
    moreover have "pos < num" using j(2) by simp
    ultimately show ?thesis using after r by (simp add: splice_def get_put_other)
  qed
qed

lemma get_splice_other:
  assumes "o1 + (num + length xs) * z \<le> length pg" "\<forall>x \<in> set xs. length x = z" "pos \<le> num" "off + n \<le> o1 \<or> o1 + (num + length xs) * z \<le> off"
  shows "get_bytes (splice o1 z pos num xs pg) off n = get_bytes pg off n"
proof -
  note r = splice_room [OF assms(1-3)]
  have "o1 + pos * z + length xs * z \<le> o1 + (num + length xs) * z" "o1 + (pos + length xs) * z + (num - pos) * z = o1 + (num + length xs) * z"
    using assms(3) scale_split [OF assms(3), of z] by (simp_all add: add_mult_distrib)
  then show ?thesis using r assms(4) by (auto simp: splice_def get_put_other get_memmove(2))
qed

lemma get_unsplice:
  assumes "o1 + num * z \<le> length pg" "pos < num" "i < num - 1"
  shows "get_bytes (unsplice o1 z pos num pg) (o1 + i * z) z = get_bytes pg (o1 + (if i < pos then i else i + 1) * z) z"
proof (cases "i < pos")
  case True
  have "(pos + 1) * z + (num - pos - 1) * z = num * z" using scale_split [of "pos + 1" num z] assms(2) by simp
  moreover have "i * z + z \<le> pos * z" using True by (rule scale_mono)
  ultimately show ?thesis using True assms(1) by (simp add: unsplice_def get_memmove(2) add_mult_distrib)
next
  case False
  define j where "j = i - pos"
  have j: "i = pos + j" "j < num - pos - 1" using False assms(3) by (simp_all add: j_def)
  have s: "(pos + 1) * z + (num - pos - 1) * z = num * z" using scale_split [of "pos + 1" num z] assms(2) by simp
  have e: "o1 + i * z = o1 + pos * z + j * z" "o1 + (i + 1) * z = o1 + (pos + 1) * z + j * z" by (simp_all add: j(1) add_mult_distrib)
  have "get_bytes (memmove (o1 + pos * z) (o1 + (pos + 1) * z) ((num - pos - 1) * z) pg) (o1 + i * z) z = get_bytes pg (o1 + (i + 1) * z) z"
    unfolding e using s assms(1) scale_mono [OF j(2), of z] by (intro get_memmove(1)) (simp_all add: add_mult_distrib)
  moreover have "pos < num - 1" using j(2) by simp
  ultimately show ?thesis using False by (simp add: unsplice_def)
qed

lemma unsplice_other:
  assumes "o1 + num * z \<le> length pg" "pos < num"
  shows "length (unsplice o1 z pos num pg) = length pg" "off + n \<le> o1 \<or> o1 + num * z \<le> off \<Longrightarrow> get_bytes (unsplice o1 z pos num pg) off n = get_bytes pg off n"
proof -
  have "(pos + 1) * z + (num - pos - 1) * z = num * z" using scale_split [of "pos + 1" num z] assms(2) by simp
  then show "length (unsplice o1 z pos num pg) = length pg" "off + n \<le> o1 \<or> o1 + num * z \<le> off \<Longrightarrow> get_bytes (unsplice o1 z pos num pg) off n = get_bytes pg off n"
    using assms(1) by (auto simp: unsplice_def add_mult_distrib get_memmove(2))
qed

subsection \<open>The bytes implement the node\<close>

definition hdr_geometry :: "ix_file_hdr \<Rightarrow> bool" where
  "hdr_geometry h \<longleftrightarrow> keys_size h = (btree_order h + 1) * col_tot_len h \<and> sizeof_IxPageHdr + keys_size h + (btree_order h + 1) * sizeof_Rid \<le> PAGE_SIZE"

definition node_fits :: "ix_file_hdr \<Rightarrow> byte list \<Rightarrow> bool" where
  "node_fits h pg \<longleftrightarrow> length pg = PAGE_SIZE \<and> 0 \<le> page_num_key pg \<and> nat (page_num_key pg) \<le> get_max_size h"

definition pair_fits :: "ix_file_hdr \<Rightarrow> ix_pair \<Rightarrow> bool" where
  "pair_fits h kv \<longleftrightarrow> length (fst kv) = col_tot_len h \<and> in_i 4 (rid_page (snd kv)) \<and> in_i 4 (rid_slot (snd kv))"

lemma rid_bytes: "in_i 4 (rid_page r) \<Longrightarrow> in_i 4 (rid_slot r) \<Longrightarrow> rid_of_bytes (WriteRid r) = r"
  by (simp add: rid_of_bytes_def WriteRid_def le_dec_enc_i)

lemma num_key_bounds:
  assumes "hdr_geometry h" "n \<le> get_max_size h"
  shows "in_i 4 (int n)" "sizeof_IxPageHdr + n * col_tot_len h \<le> sizeof_IxPageHdr + keys_size h"
    "sizeof_IxPageHdr + keys_size h + n * sizeof_Rid \<le> PAGE_SIZE" "sizeof_IxPageHdr + keys_size h \<le> PAGE_SIZE"
proof -
  have m: "n * z \<le> (btree_order h + 1) * z" for z using assms(2) by (intro mult_le_mono1) (simp add: get_max_size_def)
  show k: "sizeof_IxPageHdr + n * col_tot_len h \<le> sizeof_IxPageHdr + keys_size h" using assms(1) m by (simp add: hdr_geometry_def)
  show r: "sizeof_IxPageHdr + keys_size h + n * sizeof_Rid \<le> PAGE_SIZE"
    using assms(1) m [of sizeof_Rid] unfolding hdr_geometry_def by linarith
  then show "sizeof_IxPageHdr + keys_size h \<le> PAGE_SIZE" by simp
  have "n \<le> 4096" using r by (simp add: sizeof_Rid_def PAGE_SIZE_def)
  then show "in_i 4 (int n)" by (simp add: in_i_def)
qed

lemma set_num_key_fields:
  assumes "length pg = PAGE_SIZE" "in_i 4 m"
  shows "page_num_key (set_page_num_key m pg) = m" "length (set_page_num_key m pg) = PAGE_SIZE"
    "off + n \<le> 8 \<or> 12 \<le> off \<Longrightarrow> get_bytes (set_page_num_key m pg) off n = get_bytes pg off n"
  using assms by (simp_all add: page_num_key_def set_page_num_key_def get_put_same get_put_other le_dec_enc_i PAGE_SIZE_def)

lemma node_of_set_pairs:
  assumes "length pg = PAGE_SIZE" "in_i 4 (int m)" "\<And>off n. off + n \<le> sizeof_IxPageHdr \<Longrightarrow> get_bytes pg1 off n = get_bytes pg off n" "length pg1 = PAGE_SIZE"
    and "\<And>i. i < m \<Longrightarrow> page_key h pg1 i = fst (ps ! i)" "\<And>i. i < m \<Longrightarrow> page_rid h pg1 i = snd (ps ! i)" "length ps = m"
  shows "node_of h (set_page_num_key (int m) pg1) = (node_of h pg)\<lparr>nd_pairs := ps\<rparr>"
proof -
  note f = set_num_key_fields [OF assms(4,2)]
  have "page_key h (set_page_num_key (int m) pg1) i = page_key h pg1 i" "page_rid h (set_page_num_key (int m) pg1) i = page_rid h pg1 i" for i
    by (simp_all add: page_key_def page_rid_def f(3) keys_off_def rids_off_def sizeof_IxPageHdr_def)
  then have "map (\<lambda>i. (page_key h (set_page_num_key (int m) pg1) i, page_rid h (set_page_num_key (int m) pg1) i)) [0..<m] = ps"
    using assms(5-7) by (intro nth_equalityI) (auto simp: prod_eq_iff)
  then show ?thesis using f assms(3) by (simp add: node_of_def sizeof_IxPageHdr_def)
qed

lemma page_insert_pairs_splice:
  assumes "hdr_geometry h" "node_fits h pg" "\<forall>kv \<in> set kvs. pair_fits h kv" "pos \<le> num" "num + length kvs \<le> get_max_size h" "num = nat (page_num_key pg)"
  shows "page_insert_pairs h pos kvs pg = set_page_num_key (int (num + length kvs))
    (splice (sizeof_IxPageHdr + keys_size h) sizeof_Rid pos num (map (WriteRid \<circ> snd) kvs) (splice sizeof_IxPageHdr (col_tot_len h) pos num (map fst kvs) pg))"
proof -
  note b = num_key_bounds [OF assms(1,5)]
  have len: "length pg = PAGE_SIZE" and nk: "page_num_key pg = int num" using assms(2,6) by (simp_all add: node_fits_def)
  have k: "\<forall>x \<in> set (map fst kvs). length x = col_tot_len h" and r: "\<forall>x \<in> set (map (WriteRid \<circ> snd) kvs). length x = sizeof_Rid"
    using assms(3) by (auto simp: pair_fits_def WriteRid_def sizeof_Rid_def)
  note rk = splice_room [of sizeof_IxPageHdr num "map fst kvs" "col_tot_len h" pg pos, OF _ k assms(4), simplified]
  note rr = splice_room [of "sizeof_IxPageHdr + keys_size h" num "map (WriteRid \<circ> snd) kvs" sizeof_Rid pg pos, OF _ r assms(4), simplified]
  have kk: "sizeof_IxPageHdr + pos * col_tot_len h + length kvs * col_tot_len h \<le> sizeof_IxPageHdr + keys_size h"
  proof -
    have "(pos + length kvs) * col_tot_len h \<le> (num + length kvs) * col_tot_len h" using assms(4) by (intro mult_le_mono1) simp
    then show ?thesis using b(2) unfolding add_mult_distrib by linarith
  qed
  define pg1 where "pg1 = (if pos < num then memmove (sizeof_IxPageHdr + (pos + length kvs) * col_tot_len h) (sizeof_IxPageHdr + pos * col_tot_len h) ((num - pos) * col_tot_len h) pg else pg)"
  have l1: "length pg1 = PAGE_SIZE" using rk b len by (auto simp: pg1_def)
  have "pos < num \<Longrightarrow> put_bytes (memmove (sizeof_IxPageHdr + keys_size h + (pos + length kvs) * sizeof_Rid) (sizeof_IxPageHdr + keys_size h + pos * sizeof_Rid) ((num - pos) * sizeof_Rid) pg1)
      (sizeof_IxPageHdr + pos * col_tot_len h) (concat (map fst kvs))
    = memmove (sizeof_IxPageHdr + keys_size h + (pos + length kvs) * sizeof_Rid) (sizeof_IxPageHdr + keys_size h + pos * sizeof_Rid) ((num - pos) * sizeof_Rid)
      (put_bytes pg1 (sizeof_IxPageHdr + pos * col_tot_len h) (concat (map fst kvs)))"
    using rr rk b kk l1 len by (intro memmove_put_commute) simp_all
  then show ?thesis
    by (cases "pos < num") (simp_all add: page_insert_pairs_def nk Let_def splice_def keys_off_def rids_off_def pg1_def)
qed

lemma page_insert_pairs_node:
  assumes "hdr_geometry h" "node_fits h pg" "\<forall>kv \<in> set kvs. pair_fits h kv" "pos \<le> nat (page_num_key pg)" "nat (page_num_key pg) + length kvs \<le> get_max_size h"
  shows "node_of h (page_insert_pairs h pos kvs pg) = insert_pairs pos kvs (node_of h pg) \<and> node_fits h (page_insert_pairs h pos kvs pg)"
proof -
  define num where "num = nat (page_num_key pg)"
  let ?K = "splice sizeof_IxPageHdr (col_tot_len h) pos num (map fst kvs)"
  let ?R = "splice (sizeof_IxPageHdr + keys_size h) sizeof_Rid pos num (map (WriteRid \<circ> snd) kvs)"
  let ?ps = "take pos (nd_pairs (node_of h pg)) @ kvs @ drop pos (nd_pairs (node_of h pg))"
  have a: "pos \<le> num" "num + length kvs \<le> get_max_size h" using assms(4,5) by (simp_all add: num_def)
  note b = num_key_bounds [OF assms(1) a(2)]
  have len: "length pg = PAGE_SIZE" using assms(2) by (simp add: node_fits_def)
  have k: "\<forall>x \<in> set (map fst kvs). length x = col_tot_len h" and r: "\<forall>x \<in> set (map (WriteRid \<circ> snd) kvs). length x = sizeof_Rid"
    using assms(3) by (auto simp: pair_fits_def WriteRid_def sizeof_Rid_def)
  have kr: "sizeof_IxPageHdr + (num + length (map fst kvs)) * col_tot_len h \<le> length pg" using b len by simp
  note lk = length_splice [OF kr k a(1)]
  have rr: "sizeof_IxPageHdr + keys_size h + (num + length (map (WriteRid \<circ> snd) kvs)) * sizeof_Rid \<le> length (?K pg)" using b len lk by simp
  have ps: "length ?ps = num + length kvs" "\<And>i. i < num \<Longrightarrow> nd_pairs (node_of h pg) ! i = (page_key h pg i, page_rid h pg i)"
    using a by (simp_all add: node_of_def num_def)
  have nth: "?ps ! i = (if i < pos then (page_key h pg i, page_rid h pg i) else if i < pos + length kvs then kvs ! (i - pos) else (page_key h pg (i - length kvs), page_rid h pg (i - length kvs)))"
    if "i < num + length kvs" for i
    using that a ps(2) by (auto simp: nth_append node_of_def num_def min_def)
  have eq: "page_insert_pairs h pos kvs pg = set_page_num_key (int (num + length kvs)) (?R (?K pg))"
    by (rule page_insert_pairs_splice [OF assms(1-3) a num_def])
  have key: "page_key h (?R (?K pg)) i = fst (?ps ! i)" if i: "i < num + length kvs" for i
  proof -
    have "keys_off h i + col_tot_len h \<le> sizeof_IxPageHdr + keys_size h" using scale_mono [OF i, of "col_tot_len h"] b(2) by (simp add: keys_off_def)
    then have "page_key h (?R (?K pg)) i = get_bytes (?K pg) (keys_off h i) (col_tot_len h)"
      unfolding page_key_def using get_splice_other [OF rr r a(1)] by simp
    then show ?thesis using get_splice [OF kr k a(1), of i] i by (simp add: keys_off_def nth [OF i] page_key_def)
  qed
  have rid: "page_rid h (?R (?K pg)) i = snd (?ps ! i)" if i: "i < num + length kvs" for i
  proof -
    have other: "get_bytes (?K pg) (rids_off h j) sizeof_Rid = get_bytes pg (rids_off h j) sizeof_Rid" for j
      using get_splice_other [OF kr k a(1)] b(2) by (simp add: rids_off_def)
    have "rid_of_bytes (WriteRid (snd (kvs ! j))) = snd (kvs ! j)" if "j < length kvs" for j
      using assms(3) nth_mem [OF that] by (auto simp: pair_fits_def intro!: rid_bytes)
    then show ?thesis using get_splice [OF rr r a(1), of i] i other by (simp add: rids_off_def nth [OF i] page_rid_def)
  qed
  have hd: "get_bytes (?R (?K pg)) off n = get_bytes pg off n" if "off + n \<le> sizeof_IxPageHdr" for off n
    using that get_splice_other [OF rr r a(1)] get_splice_other [OF kr k a(1)] by simp
  have l: "length (?R (?K pg)) = PAGE_SIZE" using length_splice [OF rr r a(1)] lk len by simp
  have "node_of h (page_insert_pairs h pos kvs pg) = (node_of h pg)\<lparr>nd_pairs := ?ps\<rparr>"
    unfolding eq by (rule node_of_set_pairs [OF len b(1) hd l key rid ps(1)])
  moreover have "node_fits h (page_insert_pairs h pos kvs pg)"
    using set_num_key_fields [OF l b(1)] a(2) unfolding eq node_fits_def by simp
  ultimately show ?thesis by (simp add: insert_pairs_def)
qed

lemma page_erase_pair_node:
  assumes "hdr_geometry h" "node_fits h pg" "pos < nat (page_num_key pg)"
  shows "node_of h (page_erase_pair h pos pg) = erase_pair pos (node_of h pg) \<and> node_fits h (page_erase_pair h pos pg)"
proof -
  define num where "num = nat (page_num_key pg)"
  let ?K = "unsplice sizeof_IxPageHdr (col_tot_len h) pos num" and ?R = "unsplice (sizeof_IxPageHdr + keys_size h) sizeof_Rid pos num"
  let ?ps = "take pos (nd_pairs (node_of h pg)) @ drop (Suc pos) (nd_pairs (node_of h pg))"
  have a: "pos < num" "num \<le> get_max_size h" "length pg = PAGE_SIZE" "page_num_key pg = int num" using assms(2,3) by (simp_all add: num_def node_fits_def)
  note b = num_key_bounds [OF assms(1) a(2)]
  have m: "in_i 4 (int (num - 1))" using num_key_bounds(1) [OF assms(1), of "num - 1"] a(2) by simp
  have kr: "sizeof_IxPageHdr + num * col_tot_len h \<le> length pg" using b a(3) by simp
  note lk = unsplice_other(1) [OF kr a(1)]
  have rr: "sizeof_IxPageHdr + keys_size h + num * sizeof_Rid \<le> length (?K pg)" using b a(3) lk by simp
  have ps: "length ?ps = num - 1" using a(1) by (simp add: node_of_def num_def)
  have nth: "?ps ! i = (let j = if i < pos then i else i + 1 in (page_key h pg j, page_rid h pg j))" if "i < num - 1" for i
    using that a(1) by (auto simp: nth_append node_of_def num_def)
  have i1: "int (num - 1) = page_num_key pg - 1" using a(1,4) by simp
  have eq: "page_erase_pair h pos pg = set_page_num_key (int (num - 1)) (?R (?K pg))"
    unfolding i1 by (simp add: page_erase_pair_def a(4) Let_def unsplice_def keys_off_def rids_off_def)
  have key: "page_key h (?R (?K pg)) i = fst (?ps ! i)" if i: "i < num - 1" for i
  proof -
    have "i < num" using i by simp
    then have "keys_off h i + col_tot_len h \<le> sizeof_IxPageHdr + keys_size h" using scale_mono [of i num "col_tot_len h"] b(2) by (simp add: keys_off_def)
    then have "page_key h (?R (?K pg)) i = get_bytes (?K pg) (keys_off h i) (col_tot_len h)"
      unfolding page_key_def using unsplice_other(2) [OF rr a(1)] by simp
    then show ?thesis using get_unsplice [OF kr a(1) i] by (simp add: keys_off_def nth [OF i] page_key_def Let_def)
  qed
  have rid: "page_rid h (?R (?K pg)) i = snd (?ps ! i)" if i: "i < num - 1" for i
  proof -
    have "get_bytes (?K pg) (rids_off h j) sizeof_Rid = get_bytes pg (rids_off h j) sizeof_Rid" for j
      using unsplice_other(2) [OF kr a(1)] b(2) by (simp add: rids_off_def)
    then show ?thesis using get_unsplice [OF rr a(1) i] by (simp add: rids_off_def nth [OF i] page_rid_def Let_def)
  qed
  have hd: "get_bytes (?R (?K pg)) off n = get_bytes pg off n" if "off + n \<le> sizeof_IxPageHdr" for off n
    using that unsplice_other(2) [OF rr a(1)] unsplice_other(2) [OF kr a(1)] by simp
  have l: "length (?R (?K pg)) = PAGE_SIZE" using unsplice_other(1) [OF rr a(1)] lk a(3) by simp
  have "node_of h (page_erase_pair h pos pg) = (node_of h pg)\<lparr>nd_pairs := ?ps\<rparr>"
    unfolding eq by (rule node_of_set_pairs [OF a(3) m hd l key rid ps])
  moreover have "node_fits h (page_erase_pair h pos pg)"
    using set_num_key_fields [OF l m] a(2) unfolding eq node_fits_def by simp
  ultimately show ?thesis by (simp add: erase_pair_def)
qed

lemma page_set_size_node:
  assumes "hdr_geometry h" "node_fits h pg" "n \<le> nat (page_num_key pg)"
  shows "node_of h (set_page_num_key (int n) pg) = set_size n (node_of h pg) \<and> node_fits h (set_page_num_key (int n) pg)"
proof -
  have a: "length pg = PAGE_SIZE" "n \<le> get_max_size h" using assms(2,3) by (simp_all add: node_fits_def)
  note b = num_key_bounds(1) [OF assms(1) a(2)]
  have "node_of h (set_page_num_key (int n) pg) = (node_of h pg)\<lparr>nd_pairs := take n (nd_pairs (node_of h pg))\<rparr>"
    using assms(3) by (intro node_of_set_pairs [OF a(1) b]) (simp_all add: a(1), simp_all add: node_of_def)
  then show ?thesis using set_num_key_fields [OF a(1) b] a(2) by (simp add: set_size_def node_fits_def)
qed

lemma page_set_key_node:
  assumes "hdr_geometry h" "node_fits h pg" "i < nat (page_num_key pg)" "length key = col_tot_len h"
  shows "node_of h (page_set_key h i key pg) = set_key i key (node_of h pg) \<and> node_fits h (page_set_key h i key pg)"
proof -
  have a: "length pg = PAGE_SIZE" "nat (page_num_key pg) \<le> get_max_size h" using assms(2) by (simp_all add: node_fits_def)
  note b = num_key_bounds [OF assms(1) a(2)]
  have k: "keys_off h j + col_tot_len h \<le> sizeof_IxPageHdr + keys_size h" if "j < nat (page_num_key pg)" for j
    using scale_mono [OF that, of "col_tot_len h"] b(2) by (simp add: keys_off_def)
  have p: "keys_off h i + length key \<le> length pg" using k [OF assms(3)] b(4) a(1) assms(4) by simp
  have hd: "get_bytes (page_set_key h i key pg) off n = get_bytes pg off n" if "off + n \<le> sizeof_IxPageHdr" for off n
    unfolding page_set_key_def using that by (intro get_put_other [OF p]) (simp add: keys_off_def)
  have rid: "page_rid h (page_set_key h i key pg) j = page_rid h pg j" for j
  proof -
    have "keys_off h i + length key \<le> rids_off h j" using k [OF assms(3)] assms(4) by (simp add: rids_off_def)
    then show ?thesis unfolding page_rid_def page_set_key_def by (simp add: get_put_other [OF p])
  qed
  have key: "page_key h (page_set_key h i key pg) j = (if j = i then key else page_key h pg j)" for j
  proof (cases "j = i")
    case True
    then show ?thesis using p assms(4) by (simp add: page_key_def page_set_key_def get_put_same)
  next
    case False
    then have "keys_off h j + col_tot_len h \<le> keys_off h i \<or> keys_off h i + length key \<le> keys_off h j"
      using scale_mono [of i j "col_tot_len h"] scale_mono [of j i "col_tot_len h"] assms(4) by (cases "i < j") (auto simp: keys_off_def)
    then show ?thesis using False unfolding page_key_def page_set_key_def by (simp add: get_put_other [OF p])
  qed
  have n: "page_num_key (page_set_key h i key pg) = page_num_key pg" using hd by (simp add: page_num_key_def sizeof_IxPageHdr_def)
  have "map (\<lambda>j. (if j = i then key else page_key h pg j, page_rid h pg j)) [0..<nat (page_num_key pg)]
    = (map (\<lambda>j. (page_key h pg j, page_rid h pg j)) [0..<nat (page_num_key pg)])[i := (key, page_rid h pg i)]"
    by (intro nth_equalityI) (auto simp: nth_list_update)
  then show ?thesis using assms(2,3) p n hd
    by (simp add: node_of_def set_key_def get_rid_def node_fits_def rid key sizeof_IxPageHdr_def) (simp add: page_set_key_def)
qed

lemma page_set_links_node:
  assumes "node_fits h pg" "in_i 4 p"
  shows "node_of h (page_set_parent p pg) = (node_of h pg)\<lparr>nd_parent := p\<rparr> \<and> node_of h (page_set_prev_leaf p pg) = (node_of h pg)\<lparr>nd_prev_leaf := p\<rparr>
    \<and> node_of h (page_set_next_leaf p pg) = (node_of h pg)\<lparr>nd_next_leaf := p\<rparr>"
  using assms
  by (simp add: node_fits_def node_of_def page_set_parent_def page_set_prev_leaf_def page_set_next_leaf_def page_num_key_def page_key_def page_rid_def
      keys_off_def rids_off_def sizeof_IxPageHdr_def get_put_same get_put_other le_dec_enc_i PAGE_SIZE_def)

subsection \<open>Search, insertion and removal in a sorted node\<close>

definition bs_result :: "nat \<Rightarrow> (nat \<Rightarrow> bool) \<Rightarrow> nat \<Rightarrow> nat \<Rightarrow> nat \<Rightarrow> bool" where
  "bs_result m right lo hi r \<longleftrightarrow> lo \<le> r \<and> r \<le> hi \<and> (\<forall>i. m \<le> i \<longrightarrow> lo \<le> i \<longrightarrow> i < r \<longrightarrow> right i) \<and> (\<forall>i. m \<le> i \<longrightarrow> r \<le> i \<longrightarrow> i < hi \<longrightarrow> \<not> right i)"

lemma bsearch_spec:
  assumes "lo \<le> hi" "m \<le> 1" "\<And>i j. m \<le> i \<Longrightarrow> lo \<le> i \<Longrightarrow> i \<le> j \<Longrightarrow> j < hi \<Longrightarrow> right j \<Longrightarrow> right i"
  shows "bs_result m right lo hi (bsearch right lo hi)"
  using assms
proof (induction right lo hi rule: bsearch.induct)
  case (1 right lo hi)
  show ?case
  proof (cases "lo < hi")
    case True
    define mid where "mid = (lo + hi) div 2"
    have mid: "lo \<le> mid" "mid < hi" using True by (simp_all add: mid_def)
    show ?thesis
    proof (cases "right mid")
      case r: True
      have e: "bsearch right lo hi = bsearch right (mid + 1) hi" using True r by (simp add: bsearch.simps [of right lo] mid_def Let_def)
      have "right i" if "m \<le> i" "lo \<le> i" "i \<le> mid" for i using "1.prems"(3) [of i mid] that mid(2) r by blast
      moreover have "bs_result m right (mid + 1) hi (bsearch right (mid + 1) hi)"
        by (rule "1.IH"(1) [OF True mid_def r]) (use mid "1.prems" in auto)
      ultimately show ?thesis using mid unfolding e bs_result_def
        by (intro conjI allI impI) (linarith, blast, metis Suc_eq_plus1 not_less_eq_eq, blast)
    next
      case l: False
      have e: "bsearch right lo hi = bsearch right lo mid" using True l by (simp add: bsearch.simps [of right lo] mid_def Let_def)
      have "\<not> right i" if "m \<le> i" "mid \<le> i" "i < hi" for i
      proof (cases "m \<le> mid")
        case True
        then show ?thesis using "1.prems"(3) [of mid i] that mid(1) l by blast
      next
        case False
        then have "mid = 0" using "1.prems"(2) by simp
        then have "hi = 1" using \<open>lo < hi\<close> by (simp add: mid_def div_eq_0_iff)
        then show ?thesis using that False \<open>mid = 0\<close> by simp
      qed
      moreover have "bs_result m right lo mid (bsearch right lo mid)"
        by (rule "1.IH"(2) [OF True mid_def l]) (use mid "1.prems" in auto)
      ultimately show ?thesis using mid unfolding e bs_result_def
        by (intro conjI allI impI) (blast, linarith, blast, metis linorder_not_le)
    qed
  next
    case False
    then have "lo = hi" "bsearch right lo hi = lo" using "1.prems"(1) bsearch.simps [of right lo hi] by simp_all
    then show ?thesis by (simp add: bs_result_def)
  qed
qed

definition node_sorted :: "columns \<Rightarrow> ix_pair list \<Rightarrow> bool" where
  "node_sorted cs ps \<longleftrightarrow> sorted_wrt (\<lambda>p q. key_ord cs (fst p) < key_ord cs (fst q)) ps"

definition keys_valid :: "columns \<Rightarrow> ix_pair list \<Rightarrow> bool" where
  "keys_valid cs ps \<longleftrightarrow> cols_ok cs \<and> (\<forall>p \<in> set ps. valid_key cs (fst p))"

lemma keys_valid_nth: "keys_valid cs (nd_pairs nd) \<Longrightarrow> i < get_size nd \<Longrightarrow> valid_key cs (get_key nd i)"
  by (simp add: keys_valid_def get_size_def get_key_def)

lemma compare_nth:
  assumes "keys_valid cs (nd_pairs nd)" "valid_key cs key" "i < get_size nd"
  shows "ix_compare cs (get_key nd i) key < 0 \<longleftrightarrow> key_ord cs (get_key nd i) < key_ord cs key"
    and "ix_compare cs (get_key nd i) key = 0 \<longleftrightarrow> key_ord cs (get_key nd i) = key_ord cs key"
    and "ix_compare cs (get_key nd i) key \<le> 0 \<longleftrightarrow> key_ord cs (get_key nd i) \<le> key_ord cs key"
  using ix_compare_ord [OF _ keys_valid_nth [OF assms(1,3)] assms(2)] assms(1) by (auto simp: keys_valid_def order.order_iff_strict)

lemma sorted_nth: "node_sorted cs (nd_pairs nd) \<Longrightarrow> i < j \<Longrightarrow> j < get_size nd \<Longrightarrow> key_ord cs (get_key nd i) < key_ord cs (get_key nd j)"
  by (auto simp: node_sorted_def get_size_def get_key_def dest: sorted_wrt_nth_less)

lemma lower_bound_spec:
  assumes "keys_valid cs (nd_pairs nd)" "valid_key cs key" "node_sorted cs (nd_pairs nd)"
  shows "lower_bound cs key nd = length (takeWhile (\<lambda>p. key_ord cs (fst p) < key_ord cs key) (nd_pairs nd))"
proof -
  let ?r = "lower_bound cs key nd" and ?P = "\<lambda>p. key_ord cs (fst p) < key_ord cs key"
  have m: "ix_compare cs (get_key nd i) key < 0" if "i \<le> j" "j < get_size nd" "ix_compare cs (get_key nd j) key < 0" for i j
    using that compare_nth(1) [OF assms(1,2)] sorted_nth [OF assms(3), of i j] by (cases "i = j") auto
  have "bs_result 0 (\<lambda>mid. ix_compare cs (get_key nd mid) key < 0) 0 (get_size nd) ?r"
    unfolding lower_bound_def by (rule bsearch_spec) (use m in auto)
  then have r: "?r \<le> length (nd_pairs nd)" "\<And>i. i < ?r \<Longrightarrow> ?P (nd_pairs nd ! i)" "?r < length (nd_pairs nd) \<Longrightarrow> \<not> ?P (nd_pairs nd ! ?r)"
    using compare_nth(1) [OF assms(1,2)] by (auto simp: get_size_def get_key_def bs_result_def)
  have "takeWhile ?P (nd_pairs nd) = take ?r (nd_pairs nd)"
    using r by (intro takeWhile_eq_take_P_nth) auto
  then show ?thesis using r(1) by simp
qed

definition pairs_insert :: "columns \<Rightarrow> byte list \<Rightarrow> rid \<Rightarrow> ix_pair list \<Rightarrow> ix_pair list" where
  "pairs_insert cs key v ps =
     takeWhile (\<lambda>p. key_ord cs (fst p) < key_ord cs key) ps @ (key, v) # dropWhile (\<lambda>p. key_ord cs (fst p) < key_ord cs key) ps"

definition has_key :: "columns \<Rightarrow> byte list \<Rightarrow> ix_pair list \<Rightarrow> bool" where
  "has_key cs key ps \<longleftrightarrow> (\<exists>p \<in> set ps. key_ord cs (fst p) = key_ord cs key)"

definition pairs_remove :: "columns \<Rightarrow> byte list \<Rightarrow> ix_pair list \<Rightarrow> ix_pair list" where
  "pairs_remove cs key ps = filter (\<lambda>p. key_ord cs (fst p) \<noteq> key_ord cs key) ps"

definition pairs_lookup :: "columns \<Rightarrow> byte list \<Rightarrow> ix_pair list \<Rightarrow> rid option" where
  "pairs_lookup cs key ps = map_option snd (List.find (\<lambda>p. key_ord cs (fst p) = key_ord cs key) ps)"

text \<open>In a sorted list the first pair that is not below the key is the only candidate.\<close>

lemma node_sorted_split:
  assumes "node_sorted cs ps" "xs = takeWhile (\<lambda>p. key_ord cs (fst p) < key_ord cs key) ps" "ys = dropWhile (\<lambda>p. key_ord cs (fst p) < key_ord cs key) ps"
  shows "ps = xs @ ys \<and> (\<forall>p \<in> set xs. key_ord cs (fst p) < key_ord cs key) \<and> (\<forall>p \<in> set ys. key_ord cs key \<le> key_ord cs (fst p))
    \<and> (\<forall>p \<in> set (tl ys). key_ord cs key < key_ord cs (fst p))"
proof -
  have e: "ps = xs @ ys" "\<forall>p \<in> set xs. key_ord cs (fst p) < key_ord cs key" using assms(2,3) set_takeWhileD by fastforce+
  show ?thesis
  proof (cases ys)
    case (Cons y zs)
    have "key_ord cs key \<le> key_ord cs (fst y)" using hd_dropWhile [of _ ps] Cons assms(3) by (metis list.distinct(1) list.sel(1) not_le)
    moreover have "\<forall>p \<in> set zs. key_ord cs (fst y) < key_ord cs (fst p)" using assms(1) e(1) Cons by (simp add: node_sorted_def sorted_wrt_append)
    ultimately show ?thesis using e Cons by fastforce
  qed (use e in simp)
qed

lemma candidate:
  assumes "keys_valid cs (nd_pairs nd)" "valid_key cs key" "node_sorted cs (nd_pairs nd)"
  shows "lower_bound cs key nd < get_size nd \<and> ix_compare cs (get_key nd (lower_bound cs key nd)) key = 0 \<longleftrightarrow> has_key cs key (nd_pairs nd)"
proof -
  define xs where "xs = takeWhile (\<lambda>p. key_ord cs (fst p) < key_ord cs key) (nd_pairs nd)"
  define ys where "ys = dropWhile (\<lambda>p. key_ord cs (fst p) < key_ord cs key) (nd_pairs nd)"
  note s = node_sorted_split [OF assms(3) xs_def ys_def]
  have r: "lower_bound cs key nd = length xs" using lower_bound_spec [OF assms] by (simp add: xs_def)
  show ?thesis
  proof (cases ys)
    case Nil
    then show ?thesis using s r by (auto simp: get_size_def has_key_def)
  next
    case (Cons y zs)
    have l: "length xs < get_size nd" "get_key nd (length xs) = fst y" using s Cons by (simp_all add: get_size_def get_key_def nth_append)
    have p: "nd_pairs nd = xs @ y # zs" using s Cons by simp
    have "has_key cs key (nd_pairs nd) \<longleftrightarrow> key_ord cs (fst y) = key_ord cs key" using s Cons unfolding p by (auto simp: has_key_def)
    then show ?thesis using compare_nth(2) [OF assms(1,2) l(1)] l r by simp
  qed
qed

lemma take_lower_bound:
  assumes "keys_valid cs (nd_pairs nd)" "valid_key cs key" "node_sorted cs (nd_pairs nd)"
  shows "take (lower_bound cs key nd) (nd_pairs nd) = takeWhile (\<lambda>p. key_ord cs (fst p) < key_ord cs key) (nd_pairs nd)"
    "drop (lower_bound cs key nd) (nd_pairs nd) = dropWhile (\<lambda>p. key_ord cs (fst p) < key_ord cs key) (nd_pairs nd)"
  unfolding lower_bound_spec [OF assms] by (metis takeWhile_eq_take) (metis dropWhile_eq_drop)

lemma node_insert_spec:
  assumes "keys_valid cs (nd_pairs nd)" "valid_key cs key" "node_sorted cs (nd_pairs nd)"
  shows "node_insert cs key v nd = (if has_key cs key (nd_pairs nd) then Inl DuplicateKeyError else Inr (nd\<lparr>nd_pairs := pairs_insert cs key v (nd_pairs nd)\<rparr>))"
  using candidate [OF assms] take_lower_bound [OF assms] by (simp add: node_insert_def Let_def insert_pair_def insert_pairs_def pairs_insert_def)

lemma node_remove_spec:
  assumes "keys_valid cs (nd_pairs nd)" "valid_key cs key" "node_sorted cs (nd_pairs nd)"
  shows "node_remove cs key nd = nd\<lparr>nd_pairs := pairs_remove cs key (nd_pairs nd)\<rparr>"
proof -
  define xs where "xs = takeWhile (\<lambda>p. key_ord cs (fst p) < key_ord cs key) (nd_pairs nd)"
  define ys where "ys = dropWhile (\<lambda>p. key_ord cs (fst p) < key_ord cs key) (nd_pairs nd)"
  note s = node_sorted_split [OF assms(3) xs_def ys_def]
  show ?thesis
  proof (cases "has_key cs key (nd_pairs nd)")
    case True
    then obtain y zs where y: "ys = y # zs" "key_ord cs (fst y) = key_ord cs key" using s by (cases ys) (auto simp: has_key_def)
    have "nd_pairs nd = xs @ y # zs" using s y by simp
    moreover have "filter (\<lambda>p. key_ord cs (fst p) \<noteq> key_ord cs key) (xs @ y # zs) = xs @ zs"
    proof -
      have "filter (\<lambda>p. key_ord cs (fst p) \<noteq> key_ord cs key) xs = xs" "filter (\<lambda>p. key_ord cs (fst p) \<noteq> key_ord cs key) zs = zs"
        using s y by (force simp: filter_id_conv)+
      then show ?thesis using y by simp
    qed
    moreover have "lower_bound cs key nd = length xs" using lower_bound_spec [OF assms] by (simp add: xs_def)
    ultimately show ?thesis using candidate [OF assms] True by (simp add: node_remove_def Let_def erase_pair_def pairs_remove_def)
  next
    case False
    then have "filter (\<lambda>p. key_ord cs (fst p) \<noteq> key_ord cs key) (nd_pairs nd) = nd_pairs nd" by (auto simp: has_key_def filter_id_conv)
    then show ?thesis using candidate [OF assms] False unfolding node_remove_def Let_def pairs_remove_def by (metis (no_types, lifting) ix_node.surjective ix_node.update_convs(6))
  qed
qed

lemma leaf_lookup_spec:
  assumes "keys_valid cs (nd_pairs nd)" "valid_key cs key" "node_sorted cs (nd_pairs nd)"
  shows "leaf_lookup cs key nd = pairs_lookup cs key (nd_pairs nd)"
proof -
  define xs where "xs = takeWhile (\<lambda>p. key_ord cs (fst p) < key_ord cs key) (nd_pairs nd)"
  define ys where "ys = dropWhile (\<lambda>p. key_ord cs (fst p) < key_ord cs key) (nd_pairs nd)"
  note s = node_sorted_split [OF assms(3) xs_def ys_def]
  have r: "lower_bound cs key nd = length xs" using lower_bound_spec [OF assms] by (simp add: xs_def)
  have "\<forall>p \<in> set xs. key_ord cs (fst p) < key_ord cs key" using s by blast
  then have x: "List.find (\<lambda>p. key_ord cs (fst p) = key_ord cs key) (xs @ zs) = List.find (\<lambda>p. key_ord cs (fst p) = key_ord cs key) zs" for zs
    by (induction xs) auto
  show ?thesis
  proof (cases "has_key cs key (nd_pairs nd)")
    case True
    then obtain y zs where y: "ys = y # zs" "key_ord cs (fst y) = key_ord cs key" using s by (cases ys) (auto simp: has_key_def)
    then have p: "nd_pairs nd = xs @ y # zs" using s by simp
    then have "pairs_lookup cs key (nd_pairs nd) = Some (snd y)" by (simp add: pairs_lookup_def x y(2))
    moreover have "get_rid nd (length xs) = snd y" by (simp add: get_rid_def p)
    ultimately show ?thesis using candidate [OF assms] True r by (simp add: leaf_lookup_def Let_def)
  next
    case False
    then have "List.find (\<lambda>p. key_ord cs (fst p) = key_ord cs key) (nd_pairs nd) = None" by (auto simp: find_None_iff has_key_def)
    then show ?thesis using candidate [OF assms] False by (simp add: leaf_lookup_def Let_def pairs_lookup_def)
  qed
qed

text \<open>In an internal node the first key does not matter: the descent ends in the last child whose key is not above the wanted one, or in the first.\<close>

lemma internal_lookup_spec:
  assumes "keys_valid cs (nd_pairs nd)" "valid_key cs key" "node_sorted cs (tl (nd_pairs nd))" "nd_pairs nd \<noteq> []"
  obtains xs p ys where "nd_pairs nd = xs @ p # ys" "internal_lookup cs key nd = rid_page (snd p)"
    "xs \<noteq> [] \<Longrightarrow> key_ord cs (fst p) \<le> key_ord cs key" "\<And>q. q \<in> set ys \<Longrightarrow> key_ord cs key < key_ord cs (fst q)"
proof -
  let ?r = "upper_bound cs key nd"
  define i where "i = (if ?r = 0 then 0 else ?r - 1)"
  have ord: "key_ord cs (get_key nd a) < key_ord cs (get_key nd b)" if "1 \<le> a" "a < b" "b < get_size nd" for a b
    using that assms(3) sorted_wrt_nth_less [of "\<lambda>p q. key_ord cs (fst p) < key_ord cs (fst q)" "tl (nd_pairs nd)" "a - 1" "b - 1"]
    by (simp add: node_sorted_def get_size_def get_key_def nth_tl)
  have m: "ix_compare cs (get_key nd i) key \<le> 0" if "1 \<le> i" "i \<le> j" "j < get_size nd" "ix_compare cs (get_key nd j) key \<le> 0" for i j
    using that compare_nth(3) [OF assms(1,2)] ord [of i j] by (cases "i = j") auto
  have "bs_result 1 (\<lambda>mid. ix_compare cs (get_key nd mid) key \<le> 0) 0 (get_size nd) ?r"
    unfolding upper_bound_def by (rule bsearch_spec) (use m in auto)
  then have r: "?r \<le> get_size nd" "\<And>i. 1 \<le> i \<Longrightarrow> i < ?r \<Longrightarrow> key_ord cs (get_key nd i) \<le> key_ord cs key"
      "\<And>i. 1 \<le> i \<Longrightarrow> ?r \<le> i \<Longrightarrow> i < get_size nd \<Longrightarrow> key_ord cs key < key_ord cs (get_key nd i)"
    using compare_nth(3) [OF assms(1,2)] by (auto simp: not_le bs_result_def)
  have i: "i < get_size nd" using r(1) assms(4) by (auto simp: i_def get_size_def)
  show ?thesis
  proof (rule that)
    show "nd_pairs nd = take i (nd_pairs nd) @ nd_pairs nd ! i # drop (Suc i) (nd_pairs nd)" using i by (intro id_take_nth_drop) (simp add: get_size_def)
    show "internal_lookup cs key nd = rid_page (snd (nd_pairs nd ! i))" by (auto simp: internal_lookup_def Let_def i_def get_rid_def)
    show "key_ord cs (fst (nd_pairs nd ! i)) \<le> key_ord cs key" if "take i (nd_pairs nd) \<noteq> []"
      using that r(2) [of i] by (auto simp: i_def get_key_def split: if_splits)
    show "key_ord cs key < key_ord cs (fst q)" if q: "q \<in> set (drop (Suc i) (nd_pairs nd))" for q
    proof -
      obtain j where j: "j < length (drop (Suc i) (nd_pairs nd))" "q = drop (Suc i) (nd_pairs nd) ! j" using q unfolding in_set_conv_nth by blast
      then have "Suc i + j < get_size nd" "q = nd_pairs nd ! (Suc i + j)" by (simp_all add: get_size_def)
      then show ?thesis using r(3) [of "Suc i + j"] by (auto simp: i_def get_key_def split: if_splits)
    qed
  qed
qed

subsection \<open>Properties\<close>

text \<open>
  C29. The bytes of a page implement the node. Moving the key and the identifier arrays with \<open>memmove\<close> and writing the new elements inserts, erases
  and cuts pairs exactly as the operations on the list of pairs say, at every position and for every key length; writing a separator or a link changes only that field.
  Nothing is written outside of the node as long as it holds at most \<open>btree_order + 1\<close> pairs.
\<close>

theorem node_bytes_refine:
  assumes "hdr_geometry h" and "node_fits h pg" and "num = get_size (node_of h pg)"
  shows "(\<forall>pos kvs. pos \<le> num \<and> num + length kvs \<le> get_max_size h \<and> (\<forall>kv \<in> set kvs. pair_fits h kv) \<longrightarrow>
        node_of h (page_insert_pairs h pos kvs pg) = insert_pairs pos kvs (node_of h pg) \<and> node_fits h (page_insert_pairs h pos kvs pg))
    \<and> (\<forall>pos. pos < num \<longrightarrow> node_of h (page_erase_pair h pos pg) = erase_pair pos (node_of h pg) \<and> node_fits h (page_erase_pair h pos pg))
    \<and> (\<forall>n. n \<le> num \<longrightarrow> node_of h (set_page_num_key (int n) pg) = set_size n (node_of h pg) \<and> node_fits h (set_page_num_key (int n) pg))
    \<and> (\<forall>i key. i < num \<and> length key = col_tot_len h \<longrightarrow> node_of h (page_set_key h i key pg) = set_key i key (node_of h pg) \<and> node_fits h (page_set_key h i key pg))
    \<and> (\<forall>p. in_i 4 p \<longrightarrow> node_of h (page_set_parent p pg) = (node_of h pg)\<lparr>nd_parent := p\<rparr> \<and> node_of h (page_set_prev_leaf p pg) = (node_of h pg)\<lparr>nd_prev_leaf := p\<rparr>
        \<and> node_of h (page_set_next_leaf p pg) = (node_of h pg)\<lparr>nd_next_leaf := p\<rparr>)"
proof -
  have num: "num = nat (page_num_key pg)" using assms(3) by (simp add: get_size_def node_of_def)
  show ?thesis unfolding num
    using page_insert_pairs_node [OF assms(1,2)] page_erase_pair_node [OF assms(1,2)] page_set_size_node [OF assms(1,2)]
      page_set_key_node [OF assms(1,2)] page_set_links_node [OF assms(2)] by blast
qed

text \<open>
  Operations on a sorted node. With keys in ascending order the binary search finds the pair with the wanted key and no other; an insertion
  keeps the order and rejects a key that is already there; a removal takes away the pair with that key, if there is one, and nothing else.
\<close>

lemma node_operations:
  assumes "keys_valid cs (nd_pairs nd)" and "valid_key cs key" and "node_sorted cs (nd_pairs nd)"
  shows "leaf_lookup cs key nd = pairs_lookup cs key (nd_pairs nd)
    \<and> node_insert cs key v nd = (if has_key cs key (nd_pairs nd) then Inl DuplicateKeyError else Inr (nd\<lparr>nd_pairs := pairs_insert cs key v (nd_pairs nd)\<rparr>))
    \<and> node_remove cs key nd = nd\<lparr>nd_pairs := pairs_remove cs key (nd_pairs nd)\<rparr>"
  using leaf_lookup_spec [OF assms] node_insert_spec [OF assms] node_remove_spec [OF assms] by blast

definition ex_cols :: columns where "ex_cols = [(TYPE_INT, 4)]"

definition ex_ix_hdr :: ix_file_hdr where
  "ex_ix_hdr = \<lparr>first_free_page = - 1, ix_num_pages = 3, root_page = 2, ix_cols = ex_cols, col_tot_len = 4, btree_order = 338, keys_size = 1356, first_leaf = 2, last_leaf = 2\<rparr>"

definition ex_node :: ix_node where
  "ex_node = \<lparr>nd_next_free = - 1, nd_parent = - 1, nd_is_leaf = True, nd_prev_leaf = 1, nd_next_leaf = 1,
     nd_pairs = [([1, 0, 0, 0], \<lparr>rid_page = 1, rid_slot = 0\<rparr>), ([7, 0, 0, 0], \<lparr>rid_page = 1, rid_slot = 1\<rparr>)]\<rparr>"

theorem node_bytes_refine_witness:
  "node_of ex_ix_hdr (page_insert_pairs ex_ix_hdr 0 [([7, 0, 0, 0], \<lparr>rid_page = 1, rid_slot = 1\<rparr>)] (replicate PAGE_SIZE 0)) =
   insert_pairs 0 [([7, 0, 0, 0], \<lparr>rid_page = 1, rid_slot = 1\<rparr>)] (node_of ex_ix_hdr (replicate PAGE_SIZE 0))"
proof -
  have n: "page_num_key (replicate PAGE_SIZE 0) = 0" by (simp add: page_num_key_def get_bytes_def PAGE_SIZE_def numeral_eq_Suc le_dec_signed_def)
  then have "get_size (node_of ex_ix_hdr (replicate PAGE_SIZE 0)) = 0" "node_fits ex_ix_hdr (replicate PAGE_SIZE 0)"
    by (simp_all add: get_size_def node_of_def node_fits_def)
  moreover have "hdr_geometry ex_ix_hdr" by (simp add: hdr_geometry_def ex_ix_hdr_def sizeof_IxPageHdr_def sizeof_Rid_def PAGE_SIZE_def)
  ultimately show ?thesis
    using node_bytes_refine [of ex_ix_hdr "replicate PAGE_SIZE 0" 0] by (simp add: get_max_size_def ex_ix_hdr_def pair_fits_def in_i_def)
qed

lemma node_operations_example:
  "leaf_lookup ex_cols [7, 0, 0, 0] ex_node = Some \<lparr>rid_page = 1, rid_slot = 1\<rparr> \<and> node_insert ex_cols [7, 0, 0, 0] \<lparr>rid_page = 4, rid_slot = 0\<rparr> ex_node = Inl DuplicateKeyError
    \<and> nd_pairs (node_remove ex_cols [1, 0, 0, 0] ex_node) = [([7, 0, 0, 0], \<lparr>rid_page = 1, rid_slot = 1\<rparr>)]"
  using node_operations [of ex_cols ex_node "[7, 0, 0, 0]" "\<lparr>rid_page = 4, rid_slot = 0\<rparr>"] node_operations [of ex_cols ex_node "[1, 0, 0, 0]"]
  by (simp add: ex_cols_def ex_node_def keys_valid_def cols_ok_def valid_key_def key_len_def node_sorted_def le_dec_signed_def Let_def has_key_def pairs_lookup_def pairs_remove_def)

end
