(* ===== verification/Rmdb_Index.thy ===== *)
theory Rmdb_Index
  imports Rmdb_Index_Node Rmdb_Page
begin

text \<open>
  The B+ tree, \<^verbatim>\<open>IxIndexHandle\<close> of \<^verbatim>\<open>src/src/index/ix_index_handle.cpp\<close> and the scan of \<^verbatim>\<open>ix_scan.cpp\<close>. The state holds the file header in memory and on
  disk, the nodes of the pages of the file as the buffer pool shows them (\<open>fetch_node\<close> is a look at the current content, since fetches are transparent),
  and the page objects with their dirty state and page LSN. Handles are page numbers: all handles of a page share its memory.

  The environment variables that switch variants of the code are fields of the state. The memory pin that keeps an internal root resident
  has no effect on the content and is left out; a null pointer from a buffer pool without frames is not checked by the code and not modelled.
  Loops that follow pointers have fuel: the descent, the way up after a split and after a merge. Running out of it is \<open>Wait\<close>; the number of pages is enough
  for a tree in order.
\<close>

record ix_index =
  ix_fd :: int
  ix_hdr :: ix_file_hdr
  ix_disk_hdr :: ix_file_hdr
  ix_nodes :: "int \<Rightarrow> ix_node"
  ix_page :: "int \<Rightarrow> page"
  ix_fd2pageno :: int
  structural_epoch :: nat
  ix_log_flushed :: "lsn_t list"
  concurrent_leaf_insert :: bool
  header_dirty_flush :: bool

record iid =
  iid_page :: int
  iid_slot :: nat

record ix_ticket =
  tk_owner :: int
  tk_leaf :: int
  tk_epoch :: nat
  tk_key :: "byte list"
  tk_valid :: bool

abbreviation cols :: "ix_index \<Rightarrow> columns" where "cols s \<equiv> ix_cols (ix_hdr s)"

definition fetch_node :: "int \<Rightarrow> ix_index \<Rightarrow> ix_node" where
  "fetch_node n s = ix_nodes s n"

definition upd_node :: "int \<Rightarrow> (ix_node \<Rightarrow> ix_node) \<Rightarrow> ix_index \<Rightarrow> ix_index" where
  "upd_node n f s = s\<lparr>ix_nodes := (ix_nodes s)(n := f (ix_nodes s n))\<rparr>"

definition upd_hdr :: "(ix_file_hdr \<Rightarrow> ix_file_hdr) \<Rightarrow> ix_index \<Rightarrow> ix_index" where
  "upd_hdr f s = s\<lparr>ix_hdr := f (ix_hdr s)\<rparr>"

definition BumpRoutingEpoch :: "ix_index \<Rightarrow> ix_index" where
  "BumpRoutingEpoch s = s\<lparr>structural_epoch := Suc (structural_epoch s)\<rparr>"

definition update_root_page_no :: "int \<Rightarrow> ix_index \<Rightarrow> ix_index" where
  "update_root_page_no r = upd_hdr (\<lambda>h. h\<lparr>root_page := r\<rparr>)"

definition mark_node_dirty :: "int \<Rightarrow> lsn_t \<Rightarrow> ix_index \<Rightarrow> ix_index" where
  "mark_node_dirty n l s = s\<lparr>ix_page := (ix_page s)(n := (if l \<noteq> INVALID_LSN then set_page_lsn l (ix_page s n) else mark_wal_free_dirty (ix_page s n)))\<rparr>"

definition child_rid :: "int \<Rightarrow> rid" where
  "child_rid n = \<lparr>rid_page = n, rid_slot = 0\<rparr>"

text \<open>A new page of the buffer pool is all zeroes.\<close>

definition zero_node :: ix_node where
  "zero_node = \<lparr>nd_next_free = 0, nd_parent = 0, nd_is_leaf = False, nd_prev_leaf = 0, nd_next_leaf = 0, nd_pairs = []\<rparr>"

definition create_node :: "ix_index \<Rightarrow> int \<times> ix_index" where
  "create_node s =
     (let f = first_free_page (ix_hdr s)
      in if f \<noteq> IX_NO_PAGE then (f, upd_hdr (\<lambda>h. h\<lparr>first_free_page := nd_next_free (fetch_node f s)\<rparr>) s)
         else let n = ix_fd2pageno s
              in (n, upd_node n (\<lambda>_. zero_node) (upd_hdr (\<lambda>h. h\<lparr>ix_num_pages := i32 (ix_num_pages h + 1)\<rparr>) (s\<lparr>ix_fd2pageno := i32 (n + 1)\<rparr>))))"

definition release_node_handle :: "int \<Rightarrow> ix_index \<Rightarrow> ix_index" where
  "release_node_handle n s =
     upd_hdr (\<lambda>h. h\<lparr>first_free_page := n\<rparr>) (upd_node n (\<lambda>nd. nd\<lparr>nd_next_free := first_free_page (ix_hdr s)\<rparr>) s)"

definition maintain_child :: "int \<Rightarrow> lsn_t \<Rightarrow> nat \<Rightarrow> ix_index \<Rightarrow> ix_index" where
  "maintain_child node l child_idx s =
     (if nd_is_leaf (fetch_node node s) then s
      else let child = value_at (fetch_node node s) child_idx
           in mark_node_dirty child l (upd_node child (\<lambda>nd. nd\<lparr>nd_parent := node\<rparr>) s))"

subsection \<open>Descent\<close>

fun find_leaf :: "nat \<Rightarrow> bool \<Rightarrow> byte list \<Rightarrow> int \<Rightarrow> ix_index \<Rightarrow> int outcome" where
  "find_leaf 0 find_first key n s = Wait"
| "find_leaf (Suc fuel) find_first key n s =
     (let nd = fetch_node n s
      in if nd_is_leaf nd then Ret n
         else find_leaf fuel find_first key (if find_first then value_at nd 0 else internal_lookup (cols s) key nd) s)"

definition find_leaf_page :: "byte list \<Rightarrow> bool \<Rightarrow> ix_index \<Rightarrow> int outcome" where
  "find_leaf_page key find_first s = find_leaf (nat (ix_num_pages (ix_hdr s))) find_first key (root_page (ix_hdr s)) s"

definition get_value :: "byte list \<Rightarrow> ix_index \<Rightarrow> (rid option \<times> ix_ticket) outcome" where
  "get_value key s =
     (case find_leaf_page key False s of
        Ret n \<Rightarrow> Ret (leaf_lookup (cols s) key (fetch_node n s), \<lparr>tk_owner = ix_fd s, tk_leaf = n, tk_epoch = structural_epoch s, tk_key = key, tk_valid = True\<rparr>)
      | Throw e \<Rightarrow> Throw e | Wait \<Rightarrow> Wait)"

subsection \<open>Insertion\<close>

definition split :: "int \<Rightarrow> lsn_t \<Rightarrow> ix_index \<Rightarrow> int \<times> ix_index" where
  "split node l s0 =
     (case create_node (BumpRoutingEpoch s0) of (new_node, s1) \<Rightarrow>
      let nd = fetch_node node s1;
          split_idx = get_size nd div 2;
          s2 = upd_node new_node (\<lambda>n. n\<lparr>nd_is_leaf := nd_is_leaf nd, nd_parent := nd_parent nd, nd_pairs := []\<rparr>) s1;
          s3 = upd_node new_node (insert_pairs 0 (drop split_idx (nd_pairs nd))) s2;
          s4 = upd_node node (set_size split_idx) s3
      in (new_node,
          if nd_is_leaf nd then
            let next_leaf = nd_next_leaf nd;
                s5 = upd_node new_node (\<lambda>n. n\<lparr>nd_next_leaf := next_leaf, nd_prev_leaf := node\<rparr>) s4;
                s6 = (if next_leaf \<noteq> IX_LEAF_HEADER_PAGE then mark_node_dirty next_leaf l (upd_node next_leaf (\<lambda>n. n\<lparr>nd_prev_leaf := new_node\<rparr>) s5)
                      else mark_node_dirty IX_LEAF_HEADER_PAGE l (upd_node IX_LEAF_HEADER_PAGE (\<lambda>n. n\<lparr>nd_prev_leaf := new_node\<rparr>) s5));
                s7 = upd_node node (\<lambda>n. n\<lparr>nd_next_leaf := new_node\<rparr>) s6
            in if last_leaf (ix_hdr s7) = node then upd_hdr (\<lambda>h. h\<lparr>last_leaf := new_node\<rparr>) s7 else s7
          else fold (maintain_child new_node l) [0..<get_size (fetch_node new_node s4)] s4))"

fun insert_into_parent :: "nat \<Rightarrow> int \<Rightarrow> byte list \<Rightarrow> int \<Rightarrow> lsn_t \<Rightarrow> ix_index \<Rightarrow> unit outcome \<times> ix_index" where
  "insert_into_parent 0 old_node key new_node l s = (Wait, s)"
| "insert_into_parent (Suc fuel) old_node key new_node l s0 =
     (let s = BumpRoutingEpoch s0
      in if is_root_page (fetch_node old_node s) then
           case create_node s of (new_root, s1) \<Rightarrow>
           let s2 = upd_node new_root (\<lambda>n. n\<lparr>nd_is_leaf := False, nd_parent := IX_NO_PAGE, nd_pairs := []\<rparr>) s1;
               s3 = upd_node new_root (insert_pair 0 (get_key (fetch_node old_node s2) 0) (child_rid old_node)) s2;
               s4 = upd_node new_root (insert_pair 1 key (child_rid new_node)) s3;
               s5 = upd_node new_node (\<lambda>n. n\<lparr>nd_parent := new_root\<rparr>) (upd_node old_node (\<lambda>n. n\<lparr>nd_parent := new_root\<rparr>) s4)
           in (Ret (), mark_node_dirty new_root l (update_root_page_no new_root s5))
         else
           let parent = nd_parent (fetch_node old_node s);
               idx = find_child old_node (fetch_node parent s);
               s1 = upd_node parent (insert_pair (idx + 1) key (child_rid new_node)) s;
               s2 = upd_node new_node (\<lambda>n. n\<lparr>nd_parent := parent\<rparr>) s1
           in if get_size (fetch_node parent s2) \<ge> get_max_size (ix_hdr s2) then
                case split parent l s2 of (new_parent, s3) \<Rightarrow>
                obind (insert_into_parent fuel parent (get_key (fetch_node new_parent s3) 0) new_parent l)
                  (\<lambda>_ s4. (Ret (), mark_node_dirty parent l (mark_node_dirty new_parent l s4))) s3
              else (Ret (), mark_node_dirty parent l s2))"

definition flush_file_hdr :: "ix_index \<Rightarrow> ix_index" where
  "flush_file_hdr s = s\<lparr>ix_disk_hdr := ix_hdr s\<rparr>"

definition flush_file_hdr_for_lsn :: "lsn_t \<Rightarrow> ix_index \<Rightarrow> ix_index" where
  "flush_file_hdr_for_lsn l s = (if l = INVALID_LSN then s else flush_file_hdr (s\<lparr>ix_log_flushed := l # ix_log_flushed s\<rparr>))"

text \<open>The fields of the header that operations change.\<close>

definition dynamic_header :: "ix_file_hdr \<Rightarrow> int \<times> int \<times> int \<times> int \<times> int" where
  "dynamic_header h = (first_free_page h, ix_num_pages h, root_page h, first_leaf h, last_leaf h)"

definition ticket_matches :: "ix_ticket option \<Rightarrow> byte list \<Rightarrow> ix_index \<Rightarrow> bool" where
  "ticket_matches tk key s =
     (case tk of None \<Rightarrow> False
      | Some t \<Rightarrow> tk_valid t \<and> tk_owner t = ix_fd s \<and> tk_epoch t = structural_epoch s \<and> length (tk_key t) = col_tot_len (ix_hdr s) \<and> tk_key t = key
          \<and> tk_leaf t \<ge> IX_INIT_ROOT_PAGE \<and> tk_leaf t < ix_num_pages (ix_hdr s))"

definition ticket_leaf :: "ix_ticket option \<Rightarrow> byte list \<Rightarrow> ix_index \<Rightarrow> int outcome" where
  "ticket_leaf tk key s = (if ticket_matches tk key s then Ret (tk_leaf (the tk)) else find_leaf_page key False s)"

definition insert_fast :: "byte list \<Rightarrow> rid \<Rightarrow> lsn_t \<Rightarrow> ix_ticket option \<Rightarrow> ix_index \<Rightarrow> int option outcome \<times> ix_index" where
  "insert_fast key v l tk s =
     (case ticket_leaf tk key s of
        Ret n \<Rightarrow>
          let nd = fetch_node n s
          in if nd_is_leaf nd \<and> get_size nd < get_max_size (ix_hdr s) - 1 then
               case node_insert (cols s) key v nd of
                 Inl e \<Rightarrow> (Throw e, s)
               | Inr nd1 \<Rightarrow> (Ret (Some n), mark_node_dirty n l (upd_node n (\<lambda>_. nd1) s))
             else (Ret None, s)
      | Throw e \<Rightarrow> (Throw e, s) | Wait \<Rightarrow> (Wait, s))"

definition insert_slow :: "byte list \<Rightarrow> rid \<Rightarrow> lsn_t \<Rightarrow> bool \<Rightarrow> ix_ticket option \<Rightarrow> ix_index \<Rightarrow> int outcome \<times> ix_index" where
  "insert_slow key v l flush_header tk s =
     (case (case ticket_leaf tk key s of Ret n \<Rightarrow> if nd_is_leaf (fetch_node n s) then Ret n else find_leaf_page key False s | e \<Rightarrow> e) of
        Ret leaf \<Rightarrow>
          (case node_insert (cols s) key v (fetch_node leaf s) of
             Inl e \<Rightarrow> (Throw e, s)
           | Inr nd1 \<Rightarrow>
               obind (\<lambda>s1. if get_size (fetch_node leaf s1) \<ge> get_max_size (ix_hdr s1) then
                             case split leaf l s1 of (new_node, s2) \<Rightarrow>
                             obind (insert_into_parent (nat (ix_num_pages (ix_hdr s2))) leaf (get_key (fetch_node new_node s2) 0) new_node l)
                               (\<lambda>_ s3. (Ret (), mark_node_dirty new_node l s3)) s2
                           else (Ret (), s1))
                 (\<lambda>_ s3. let s4 = mark_node_dirty leaf l s3;
                              header_changed = (dynamic_header (ix_hdr s) \<noteq> dynamic_header (ix_hdr s4))
                          in (Ret leaf, if flush_header \<and> (\<not> header_dirty_flush s4 \<or> header_changed) then flush_file_hdr_for_lsn l s4 else s4))
                 (upd_node leaf (\<lambda>_. nd1) s))
      | Throw e \<Rightarrow> (Throw e, s) | Wait \<Rightarrow> (Wait, s))"

text \<open>A ticket is used at most once: the exclusive path after a failed fast path descends from the root.\<close>

definition insert_entry :: "byte list \<Rightarrow> rid \<Rightarrow> lsn_t \<Rightarrow> bool \<Rightarrow> ix_ticket option \<Rightarrow> ix_index \<Rightarrow> int outcome \<times> ix_index" where
  "insert_entry key v l flush_header tk s =
     (if concurrent_leaf_insert s then
        obind (insert_fast key v l tk) (\<lambda>r s1. case r of
            Some n \<Rightarrow> (Ret n, if flush_header \<and> \<not> header_dirty_flush s1 then flush_file_hdr_for_lsn l s1 else s1)
          | None \<Rightarrow> insert_slow key v l flush_header None s1) s
      else insert_slow key v l flush_header tk s)"

subsection \<open>Deletion\<close>

fun maintain_parent_loop :: "nat \<Rightarrow> int \<Rightarrow> int \<Rightarrow> byte list \<Rightarrow> lsn_t \<Rightarrow> ix_index \<Rightarrow> unit outcome \<times> ix_index" where
  "maintain_parent_loop 0 child parent first_key l s = (Wait, s)"
| "maintain_parent_loop (Suc fuel) child parent first_key l s =
     (if parent = IX_NO_PAGE then (Ret (), s)
      else let nd = fetch_node parent s; rank = find_child child nd
           in if get_key nd rank = first_key then (Ret (), s)
              else let s1 = upd_node parent (set_key rank first_key) s;
                       s2 = mark_node_dirty parent l s1
                   in if rank = 0 then maintain_parent_loop fuel parent (nd_parent nd) (get_key (fetch_node parent s1) 0) l s2 else (Ret (), s2))"

definition maintain_parent :: "int \<Rightarrow> lsn_t \<Rightarrow> ix_index \<Rightarrow> unit outcome \<times> ix_index" where
  "maintain_parent node l s =
     maintain_parent_loop (Suc (nat (ix_num_pages (ix_hdr s)))) node (nd_parent (fetch_node node s)) (get_key (fetch_node node s) 0) l s"

definition erase_leaf :: "int \<Rightarrow> lsn_t \<Rightarrow> ix_index \<Rightarrow> ix_index" where
  "erase_leaf leaf l s =
     (let prev = nd_prev_leaf (fetch_node leaf s);
          s1 = mark_node_dirty prev l (upd_node prev (\<lambda>n. n\<lparr>nd_next_leaf := nd_next_leaf (fetch_node leaf s)\<rparr>) s);
          next_leaf = nd_next_leaf (fetch_node leaf s1)
      in mark_node_dirty next_leaf l (upd_node next_leaf (\<lambda>n. n\<lparr>nd_prev_leaf := nd_prev_leaf (fetch_node leaf s1)\<rparr>) s1))"

definition adjust_root :: "int \<Rightarrow> lsn_t \<Rightarrow> ix_index \<Rightarrow> bool \<times> ix_index" where
  "adjust_root old_root l s0 =
     (let s = BumpRoutingEpoch s0
      in if \<not> nd_is_leaf (fetch_node old_root s) \<and> get_size (fetch_node old_root s) = 1 then
           case remove_and_return_only_child (fetch_node old_root s) of (child, nd1) \<Rightarrow>
           let s1 = update_root_page_no child (upd_node old_root (\<lambda>_. nd1) s);
               s2 = mark_node_dirty child l (upd_node child (\<lambda>n. n\<lparr>nd_parent := IX_NO_PAGE\<rparr>) s1)
           in (True, release_node_handle old_root s2)
         else (False, s))"

definition redistribute :: "int \<Rightarrow> int \<Rightarrow> int \<Rightarrow> nat \<Rightarrow> lsn_t \<Rightarrow> ix_index \<Rightarrow> ix_index" where
  "redistribute neighbor node parent index l s0 =
     (let s = BumpRoutingEpoch s0
      in if index = 0 then
           let nb = fetch_node neighbor s;
               s1 = upd_node node (\<lambda>n. insert_pair (get_size n) (get_key nb 0) (get_rid nb 0) n) s;
               s2 = upd_node neighbor (erase_pair 0) s1;
               s3 = upd_node parent (\<lambda>n. set_key (find_child neighbor n) (get_key (fetch_node neighbor s2) 0) n) s2
           in if \<not> nd_is_leaf (fetch_node node s3) then maintain_child node l (get_size (fetch_node node s3) - 1) s3 else s3
         else
           let nb = fetch_node neighbor s; last = get_size nb - 1;
               s1 = upd_node node (insert_pair 0 (get_key nb last) (get_rid nb last)) s;
               s2 = upd_node neighbor (erase_pair last) s1;
               s3 = upd_node parent (\<lambda>n. set_key (find_child node n) (get_key (fetch_node node s2) 0) n) s2
           in if \<not> nd_is_leaf (fetch_node node s3) then maintain_child node l 0 s3 else s3)"

text \<open>The right node is merged into the left one and its page goes to the free list.\<close>

definition merge_nodes :: "int \<Rightarrow> int \<Rightarrow> int \<Rightarrow> lsn_t \<Rightarrow> ix_index \<Rightarrow> ix_index" where
  "merge_nodes left right parent l s =
     (let move_num = get_size (fetch_node right s);
          s1 = upd_node left (\<lambda>n. insert_pairs (get_size n) (nd_pairs (fetch_node right s)) n) s;
          s2 = (if nd_is_leaf (fetch_node right s1) then
                  let s' = erase_leaf right l s1
                  in if last_leaf (ix_hdr s') = right then upd_hdr (\<lambda>h. h\<lparr>last_leaf := left\<rparr>) s' else s'
                else fold (maintain_child left l) [get_size (fetch_node left s1) - move_num..<get_size (fetch_node left s1)] s1);
          s3 = upd_node parent (\<lambda>n. erase_pair (find_child right n) n) s2
      in release_node_handle right s3)"

fun coalesce_or_redistribute :: "nat \<Rightarrow> int \<Rightarrow> lsn_t \<Rightarrow> ix_index \<Rightarrow> bool outcome \<times> ix_index" where
  "coalesce_or_redistribute 0 node l s = (Wait, s)"
| "coalesce_or_redistribute (Suc fuel) node l s0 =
     (let s = BumpRoutingEpoch s0; nd = fetch_node node s
      in if is_root_page nd then (case adjust_root node l s of (b, s1) \<Rightarrow> (Ret b, s1))
         else if get_size nd \<ge> get_min_size (ix_hdr s) then obind (maintain_parent node l) (\<lambda>_ s1. (Ret False, s1)) s
         else
           let parent = nd_parent nd;
               idx = find_child node (fetch_node parent s);
               neighbor = value_at (fetch_node parent s) (if idx > 0 then idx - 1 else idx + 1)
           in if get_size nd + get_size (fetch_node neighbor s) \<ge> 2 * get_min_size (ix_hdr s) then
                (Ret False, mark_node_dirty parent l (mark_node_dirty neighbor l (redistribute neighbor node parent idx l s)))
              else
                let left = (if idx > 0 then neighbor else node); right = (if idx > 0 then node else neighbor);
                    s1 = mark_node_dirty neighbor l (merge_nodes left right parent l s)
                in obind (coalesce_or_redistribute fuel parent l) (\<lambda>_ s2. (Ret (right = node), mark_node_dirty parent l s2)) s1)"

definition delete_entry :: "byte list \<Rightarrow> lsn_t \<Rightarrow> bool \<Rightarrow> ix_index \<Rightarrow> bool outcome \<times> ix_index" where
  "delete_entry key l flush_header s =
     (case find_leaf_page key False s of
        Ret leaf \<Rightarrow>
          let nd = fetch_node leaf s; old_size = get_size nd;
              removes_first_key = (old_size > 0 \<and> ix_compare (cols s) (get_key nd 0) key = 0);
              s1 = upd_node leaf (node_remove (cols s) key) s;
              deleted = (get_size (fetch_node leaf s1) < old_size);
              s2 = (if deleted \<and> removes_first_key then BumpRoutingEpoch s1 else s1)
          in obind (if deleted then (\<lambda>s. obind (coalesce_or_redistribute (nat (ix_num_pages (ix_hdr s))) leaf l) (\<lambda>_ s. (Ret (), s)) s) else (\<lambda>s. (Ret (), s)))
               (\<lambda>_ s3. let s4 = mark_node_dirty leaf l s3;
                            header_changed = (dynamic_header (ix_hdr s) \<noteq> dynamic_header (ix_hdr s4))
                        in (Ret deleted, if deleted \<and> flush_header \<and> (\<not> header_dirty_flush s4 \<or> header_changed) then flush_file_hdr_for_lsn l s4 else s4)) s2
      | Throw e \<Rightarrow> (Throw e, s) | Wait \<Rightarrow> (Wait, s))"

subsection \<open>Positions and scans\<close>

definition bound_iid :: "(columns \<Rightarrow> byte list \<Rightarrow> ix_node \<Rightarrow> nat) \<Rightarrow> byte list \<Rightarrow> ix_index \<Rightarrow> iid outcome" where
  "bound_iid bound key s =
     (case find_leaf_page key False s of
        Ret leaf \<Rightarrow>
          let nd = fetch_node leaf s; slot = bound (cols s) key nd
          in if slot = get_size nd \<and> nd_next_leaf nd \<noteq> IX_LEAF_HEADER_PAGE then Ret \<lparr>iid_page = nd_next_leaf nd, iid_slot = 0\<rparr>
             else Ret \<lparr>iid_page = leaf, iid_slot = slot\<rparr>
      | Throw e \<Rightarrow> Throw e | Wait \<Rightarrow> Wait)"

definition lower_bound_locked :: "byte list \<Rightarrow> ix_index \<Rightarrow> iid outcome" where
  "lower_bound_locked = bound_iid lower_bound"

definition upper_bound_locked :: "byte list \<Rightarrow> ix_index \<Rightarrow> iid outcome" where
  "upper_bound_locked = bound_iid upper_bound"

definition ix_get_rid :: "iid \<Rightarrow> ix_index \<Rightarrow> rid outcome" where
  "ix_get_rid i s = (let nd = fetch_node (iid_page i) s in if iid_slot i \<ge> get_size nd then Throw IndexEntryNotFoundError else Ret (get_rid nd (iid_slot i)))"

definition get_bound_key :: "byte list \<Rightarrow> bool \<Rightarrow> ix_index \<Rightarrow> byte list option outcome" where
  "get_bound_key key strict_upper s =
     (case find_leaf_page key False s of
        Ret leaf \<Rightarrow>
          let nd = fetch_node leaf s; slot = (if strict_upper then upper_bound (cols s) key nd else lower_bound (cols s) key nd)
          in if slot < get_size nd then Ret (Some (get_key nd slot))
             else let next_leaf = nd_next_leaf nd
                  in if next_leaf \<noteq> IX_LEAF_HEADER_PAGE \<and> next_leaf \<noteq> IX_NO_PAGE then
                       let nn = fetch_node next_leaf s in Ret (if nd_is_leaf nn \<and> get_size nn > 0 then Some (get_key nn 0) else None)
                     else Ret None
      | Throw e \<Rightarrow> Throw e | Wait \<Rightarrow> Wait)"

definition leaf_end :: "ix_index \<Rightarrow> iid" where
  "leaf_end s = \<lparr>iid_page = last_leaf (ix_hdr s), iid_slot = get_size (fetch_node (last_leaf (ix_hdr s)) s)\<rparr>"

definition leaf_begin :: "ix_index \<Rightarrow> iid" where
  "leaf_begin s = \<lparr>iid_page = first_leaf (ix_hdr s), iid_slot = 0\<rparr>"

text \<open>A scan bounded by two keys. \<open>scan_node\<close> is the page of the leaf it holds, if any.\<close>

record ix_scan =
  ixs_iid :: iid
  ixs_upper :: "byte list"
  ixs_ended :: bool
  ixs_node :: "int option"

definition exceeds_upper :: "ix_index \<Rightarrow> ix_scan \<Rightarrow> bool" where
  "exceeds_upper s sc =
     (case ixs_node sc of None \<Rightarrow> False
      | Some n \<Rightarrow> ix_compare (cols s) (get_key (fetch_node n s) (iid_slot (ixs_iid sc))) (ixs_upper sc) > 0)"

definition stop_if_exceeded :: "ix_index \<Rightarrow> ix_scan \<Rightarrow> ix_scan" where
  "stop_if_exceeded s sc = (if exceeds_upper s sc then sc\<lparr>ixs_ended := True, ixs_node := None\<rparr> else sc)"

definition IxScan_new :: "byte list \<Rightarrow> byte list \<Rightarrow> ix_index \<Rightarrow> ix_scan outcome" where
  "IxScan_new lower upper s =
     (case lower_bound_locked lower s of
        Ret i \<Rightarrow>
          let sc = \<lparr>ixs_iid = i, ixs_upper = upper, ixs_ended = False, ixs_node = None\<rparr>; nd = fetch_node (iid_page i) s
          in if iid_page i = IX_LEAF_HEADER_PAGE \<or> iid_page i = IX_NO_PAGE then Ret (sc\<lparr>ixs_ended := True\<rparr>)
             else if \<not> nd_is_leaf nd \<or> iid_slot i \<ge> get_size nd then Ret (sc\<lparr>ixs_ended := True\<rparr>)
             else Ret (stop_if_exceeded s (sc\<lparr>ixs_node := Some (iid_page i)\<rparr>))
      | Throw e \<Rightarrow> Throw e | Wait \<Rightarrow> Wait)"

definition ixs_valid :: "ix_index \<Rightarrow> ix_scan \<Rightarrow> bool" where
  "ixs_valid s sc =
     (case ixs_node sc of None \<Rightarrow> False
      | Some n \<Rightarrow> \<not> ixs_ended sc \<and> nd_is_leaf (fetch_node n s) \<and> iid_page (ixs_iid sc) = n \<and> iid_slot (ixs_iid sc) < get_size (fetch_node n s))"

definition IxScan_next :: "ix_index \<Rightarrow> ix_scan \<Rightarrow> ix_scan outcome" where
  "IxScan_next s sc =
     (if \<not> ixs_valid s sc then Throw (InternalError ''Invalid B+ tree range scan position'')
      else let i = ixs_iid sc; nd = fetch_node (iid_page i) s; sc1 = sc\<lparr>ixs_iid := i\<lparr>iid_slot := Suc (iid_slot i)\<rparr>\<rparr>
           in if Suc (iid_slot i) = get_size nd then
                let next_leaf = nd_next_leaf nd
                in if next_leaf = IX_LEAF_HEADER_PAGE \<or> next_leaf = IX_NO_PAGE then Ret (sc1\<lparr>ixs_ended := True, ixs_node := None\<rparr>)
                   else let nn = fetch_node next_leaf s; sc2 = sc1\<lparr>ixs_iid := \<lparr>iid_page = next_leaf, iid_slot = 0\<rparr>, ixs_node := Some next_leaf\<rparr>
                        in if \<not> nd_is_leaf nn \<or> get_size nn = 0 then Throw (InternalError ''Invalid B+ tree leaf chain'')
                           else Ret (stop_if_exceeded s sc2)
              else Ret (stop_if_exceeded s sc1))"

definition IxScan_rid :: "ix_index \<Rightarrow> ix_scan \<Rightarrow> rid outcome" where
  "IxScan_rid s sc =
     (case ixs_node sc of
        Some n \<Rightarrow> if ixs_ended sc \<or> iid_page (ixs_iid sc) \<noteq> n \<or> iid_slot (ixs_iid sc) \<ge> get_size (fetch_node n s)
                  then Throw (InternalError ''Invalid B+ tree range scan position'') else Ret (get_rid (fetch_node n s) (iid_slot (ixs_iid sc)))
      | None \<Rightarrow> Throw (InternalError ''Invalid B+ tree range scan position''))"

subsection \<open>Opening and emptying the file\<close>

definition IxIndexHandle_new :: "int \<Rightarrow> ix_file_hdr \<Rightarrow> (int \<Rightarrow> ix_node) \<Rightarrow> bool \<Rightarrow> bool \<Rightarrow> ix_index" where
  "IxIndexHandle_new f h nodes concurrent dirty_flush =
     \<lparr>ix_fd = f, ix_hdr = h, ix_disk_hdr = h, ix_nodes = nodes, ix_page = (\<lambda>_. Page_new), ix_fd2pageno = ix_num_pages h, structural_epoch = 0, ix_log_flushed = [],
      concurrent_leaf_insert = concurrent, header_dirty_flush = dirty_flush\<rparr>"

definition empty_leaf :: "int \<Rightarrow> ix_node" where
  "empty_leaf n = \<lparr>nd_next_free = IX_NO_PAGE, nd_parent = IX_NO_PAGE, nd_is_leaf = True, nd_prev_leaf = n, nd_next_leaf = n, nd_pairs = []\<rparr>"

text \<open>\<open>pinned\<close> tells whether the buffer pool could not discard the old pages.\<close>

definition reset_to_empty :: "bool \<Rightarrow> ix_index \<Rightarrow> unit outcome \<times> ix_index" where
  "reset_to_empty pinned s0 =
     (let s = BumpRoutingEpoch s0
      in if pinned then (Throw (InternalError ''Pinned index page during recovery reset''), s)
         else let s1 = upd_hdr (\<lambda>h. h\<lparr>first_free_page := IX_NO_PAGE, ix_num_pages := IX_INIT_NUM_PAGES, root_page := IX_INIT_ROOT_PAGE,
                                      first_leaf := IX_INIT_ROOT_PAGE, last_leaf := IX_INIT_ROOT_PAGE\<rparr>) s;
                  s2 = flush_file_hdr s1;
                  s3 = upd_node IX_LEAF_HEADER_PAGE (\<lambda>_. empty_leaf IX_INIT_ROOT_PAGE) s2;
                  s4 = upd_node IX_INIT_ROOT_PAGE (\<lambda>_. empty_leaf IX_LEAF_HEADER_PAGE) s3
              in (Ret (), s4\<lparr>ix_page := (\<lambda>_. Page_new), ix_fd2pageno := ix_num_pages (ix_hdr s4)\<rparr>))"

end
