(* ===== verification/Rmdb_Index_Tree.thy ===== *)
theory Rmdb_Index_Tree
  imports Rmdb_Index "HOL-Library.Multiset"
begin

text \<open>
  The tree that the nodes of an index represent. \<open>bt\<close> is a B+ tree as a value, \<open>rep\<close> says that the nodes of the store form it (with the
  parent pointers), \<open>bwf\<close> that it is balanced, has nodes of the right size, and has its keys in order. The separator of a child is a lower bound of the keys
  below it and an upper bound of the keys to the left; when the child is an internal node, its own first key is exactly its separator. On the
  leftmost path the first keys are arbitrary: an insertion of a new smallest key does not update them.

  A position in a tree is a list of frames from the inside out, each with the siblings to the left and to the right (\<open>plug\<close> puts a subtree there): the
  operations climb from a leaf to the root along the parent pointers, so their proofs are inductions over the frames.
\<close>

datatype bt = BLeaf (bt_page: int) "ix_pair list" | BNode (bt_page: int) "(byte list \<times> bt) list"

fun tree_pages :: "bt \<Rightarrow> int list" where
  "tree_pages (BLeaf p es) = [p]"
| "tree_pages (BNode p ts) = p # concat (map (\<lambda>kt. tree_pages (snd kt)) ts)"

fun leaves :: "bt \<Rightarrow> (int \<times> ix_pair list) list" where
  "leaves (BLeaf p es) = [(p, es)]"
| "leaves (BNode p ts) = concat (map (\<lambda>kt. leaves (snd kt)) ts)"

definition entries :: "bt \<Rightarrow> ix_pair list" where
  "entries t = concat (map snd (leaves t))"

abbreviation kids_leaves :: "(byte list \<times> bt) list \<Rightarrow> (int \<times> ix_pair list) list" where
  "kids_leaves ts \<equiv> concat (map (\<lambda>kt. leaves (snd kt)) ts)"

abbreviation kids_pages :: "(byte list \<times> bt) list \<Rightarrow> int list" where
  "kids_pages ts \<equiv> concat (map (\<lambda>kt. tree_pages (snd kt)) ts)"

definition kid_pair :: "byte list \<times> bt \<Rightarrow> ix_pair" where
  "kid_pair kt = (fst kt, child_rid (bt_page (snd kt)))"

fun rep :: "(int \<Rightarrow> ix_node) \<Rightarrow> int \<Rightarrow> bt \<Rightarrow> bool" where
  "rep nd par (BLeaf p es) \<longleftrightarrow> nd_is_leaf (nd p) \<and> nd_parent (nd p) = par \<and> nd_pairs (nd p) = es"
| "rep nd par (BNode p ts) \<longleftrightarrow> \<not> nd_is_leaf (nd p) \<and> nd_parent (nd p) = par \<and> nd_pairs (nd p) = map kid_pair ts \<and> (\<forall>kt \<in> set ts. rep nd p (snd kt))"

subsection \<open>Well-formed trees\<close>

definition ge_lo :: "int option \<Rightarrow> int \<Rightarrow> bool" where
  "ge_lo lo x \<longleftrightarrow> (case lo of None \<Rightarrow> True | Some l \<Rightarrow> l \<le> x)"

definition lt_hi :: "int option \<Rightarrow> int \<Rightarrow> bool" where
  "lt_hi hi x \<longleftrightarrow> (case hi of None \<Rightarrow> True | Some h \<Rightarrow> x < h)"

abbreviation hord :: "ix_file_hdr \<Rightarrow> byte list \<Rightarrow> int" where "hord h \<equiv> key_ord (ix_cols h)"

text \<open>The children of a node, each between its separator and the next one.\<close>

fun kids :: "ix_file_hdr \<Rightarrow> (int option \<Rightarrow> int option \<Rightarrow> bt \<Rightarrow> bool) \<Rightarrow> int option \<Rightarrow> (byte list \<times> bt) list \<Rightarrow> int option \<Rightarrow> bool" where
  "kids h P lo [] hi \<longleftrightarrow> False"
| "kids h P lo [kt] hi \<longleftrightarrow> P lo hi (snd kt)"
| "kids h P lo (kt # kt' # ts) hi \<longleftrightarrow> P lo (Some (hord h (fst kt'))) (snd kt) \<and> kids h P (Some (hord h (fst kt'))) (kt' # ts) hi"

definition first_sep :: "ix_file_hdr \<Rightarrow> int option \<Rightarrow> byte list \<Rightarrow> bool" where
  "first_sep h lo k \<longleftrightarrow> (case lo of None \<Rightarrow> True | Some l \<Rightarrow> hord h k = l)"

definition seps_valid :: "ix_file_hdr \<Rightarrow> (byte list \<times> bt) list \<Rightarrow> bool" where
  "seps_valid h ts \<longleftrightarrow> (\<forall>kt \<in> set ts. valid_key (ix_cols h) (fst kt))"

definition leaf_wf :: "ix_file_hdr \<Rightarrow> nat \<Rightarrow> int option \<Rightarrow> int option \<Rightarrow> ix_pair list \<Rightarrow> bool" where
  "leaf_wf h m lo hi es \<longleftrightarrow> m \<le> length es \<and> length es \<le> btree_order h \<and> keys_valid (ix_cols h) es \<and> node_sorted (ix_cols h) es
     \<and> (\<forall>e \<in> set es. ge_lo lo (hord h (fst e)) \<and> lt_hi hi (hord h (fst e)))"

fun bwf :: "ix_file_hdr \<Rightarrow> nat \<Rightarrow> nat \<Rightarrow> int option \<Rightarrow> int option \<Rightarrow> bt \<Rightarrow> bool" where
  "bwf h 0 m lo hi t = (case t of BLeaf p es \<Rightarrow> leaf_wf h m lo hi es | BNode p ts \<Rightarrow> False)"
| "bwf h (Suc n) m lo hi t = (case t of BLeaf p es \<Rightarrow> False
     | BNode p ts \<Rightarrow> m \<le> length ts \<and> length ts \<le> btree_order h \<and> seps_valid h ts \<and> first_sep h lo (fst (hd ts)) \<and> kids h (\<lambda>lo hi t. bwf h n (get_min_size h) lo hi t) lo ts hi)"

definition root_min :: "nat \<Rightarrow> nat" where "root_min n = (if n = 0 then 0 else 2)"

definition hdr_ok :: "ix_file_hdr \<Rightarrow> bool" where
  "hdr_ok h \<longleftrightarrow> 3 \<le> btree_order h \<and> cols_ok (ix_cols h)"

abbreviation bwfk :: "ix_file_hdr \<Rightarrow> nat \<Rightarrow> int option \<Rightarrow> (byte list \<times> bt) list \<Rightarrow> int option \<Rightarrow> bool" where
  "bwfk h n \<equiv> kids h (\<lambda>lo hi t. bwf h n (get_min_size h) lo hi t)"

lemma kids_append:
  "xs \<noteq> [] \<Longrightarrow> ys \<noteq> [] \<Longrightarrow> kids h P lo (xs @ ys) hi \<longleftrightarrow> kids h P lo xs (Some (hord h (fst (hd ys)))) \<and> kids h P (Some (hord h (fst (hd ys)))) ys hi"
proof (induction h P lo xs hi rule: kids.induct)
  case (2 h P lo kt hi)
  then show ?case by (cases ys) auto
qed auto

lemma kids_mem: "kids h P lo ts hi \<Longrightarrow> kt \<in> set ts \<Longrightarrow> \<exists>lo hi. P lo hi (snd kt)"
  by (induction h P lo ts hi rule: kids.induct) auto

lemma kids_ne: "kids h P lo ts hi \<Longrightarrow> ts \<noteq> []"
  by (cases ts) auto

lemma kids_Cons: "ts \<noteq> [] \<Longrightarrow> kids h P lo (kt # ts) hi \<longleftrightarrow> P lo (Some (hord h (fst (hd ts)))) (snd kt) \<and> kids h P (Some (hord h (fst (hd ts)))) ts hi"
  using kids_append [of "[kt]" ts h P lo hi] by simp

lemma bwf_Suc: "bwf h (Suc n) m lo hi (BNode p ts) \<longleftrightarrow>
    m \<le> length ts \<and> length ts \<le> btree_order h \<and> seps_valid h ts \<and> first_sep h lo (fst (hd ts)) \<and> bwfk h n lo ts hi"
  by simp

lemma wf_pos_min: "3 \<le> btree_order h \<Longrightarrow> 2 \<le> get_min_size h"
  by (simp add: get_min_size_def get_max_size_def)

text \<open>A subtree of the required size has a key between its bounds, so the separators are in ascending order.\<close>

definition gap :: "int option \<Rightarrow> int option \<Rightarrow> bool" where
  "gap lo hi \<longleftrightarrow> (\<exists>x. ge_lo lo x \<and> lt_hi hi x)"

lemma gap_trans: "gap lo (Some x) \<Longrightarrow> gap (Some x) hi \<Longrightarrow> gap lo hi"
  by (force simp: gap_def ge_lo_def lt_hi_def split: option.splits)

lemma gap_less: "gap (Some x) (Some y) \<Longrightarrow> x < y"
  by (auto simp: gap_def ge_lo_def lt_hi_def)

lemma kids_gap:
  assumes "kids h P lo ts hi" "\<And>lo hi kt. kt \<in> set ts \<Longrightarrow> P lo hi (snd kt) \<Longrightarrow> gap lo hi"
  shows "gap lo hi \<and> sorted_wrt (<) (map (\<lambda>x. hord h (fst x)) (tl ts)) \<and> (\<forall>x \<in> set (tl ts). gap lo (Some (hord h (fst x))) \<and> gap (Some (hord h (fst x))) hi)"
  using assms
proof (induction h P lo ts hi rule: kids.induct)
  case (3 h P lo kt kt' ts hi)
  let ?x = "hord h (fst kt')"
  have 1: "gap lo (Some ?x)" using 3(3) [of kt lo "Some ?x"] 3(2) by simp
  have k: "kids h P (Some ?x) (kt' # ts) hi" using 3(2) by simp
  have "gap lo hi" if "kt1 \<in> set (kt' # ts)" "P lo hi (snd kt1)" for lo hi kt1 using that by (intro 3(3)) auto
  then have 2: "gap (Some ?x) hi \<and> sorted_wrt (<) (map (\<lambda>x. hord h (fst x)) ts) \<and> (\<forall>y \<in> set ts. gap (Some ?x) (Some (hord h (fst y))) \<and> gap (Some (hord h (fst y))) hi)"
    using 3(1) [OF k] by simp
  then have "\<forall>y \<in> set ts. ?x < hord h (fst y)" using gap_less by blast
  then show ?case using 1 2 gap_trans [OF 1] by auto
qed auto

lemma bwf_gap: "bwf h n m lo hi t \<Longrightarrow> hdr_ok h \<Longrightarrow> 0 < m \<Longrightarrow> gap lo hi"
proof (induction n arbitrary: m lo hi t)
  case 0
  then obtain p es where t: "t = BLeaf p es" "leaf_wf h m lo hi es" by (cases t) auto
  then obtain e where "e \<in> set es" using 0(3) by (cases es) (auto simp: leaf_wf_def)
  then show ?case using t(2) by (auto simp: leaf_wf_def gap_def)
next
  case (Suc n)
  then obtain p ts where t: "t = BNode p ts" "bwfk h n lo ts hi" by (cases t) auto
  have "0 < get_min_size h" using Suc.prems(2) wf_pos_min by (fastforce simp: hdr_ok_def)
  then show ?case using kids_gap [OF t(2)] Suc.IH Suc.prems(2) by blast
qed

lemma bwfk_gap:
  assumes "bwfk h n lo ts hi" "hdr_ok h"
  shows "gap lo hi" "sorted_wrt (<) (map (\<lambda>x. hord h (fst x)) (tl ts))" "x \<in> set (tl ts) \<Longrightarrow> gap lo (Some (hord h (fst x))) \<and> gap (Some (hord h (fst x))) hi"
proof -
  have "0 < get_min_size h" using assms(2) wf_pos_min by (fastforce simp: hdr_ok_def)
  then show "gap lo hi" "sorted_wrt (<) (map (\<lambda>x. hord h (fst x)) (tl ts))" "x \<in> set (tl ts) \<Longrightarrow> gap lo (Some (hord h (fst x))) \<and> gap (Some (hord h (fst x))) hi"
    using kids_gap [OF assms(1)] bwf_gap [OF _ assms(2)] by blast+
qed

subsection \<open>Positions in a tree\<close>

type_synonym frame = "int \<times> (byte list \<times> bt) list \<times> byte list \<times> (byte list \<times> bt) list"

fun plug :: "frame list \<Rightarrow> bt \<Rightarrow> bt" where
  "plug [] t = t"
| "plug ((p, L, k, R) # fs) t = plug fs (BNode p (L @ (k, t) # R))"

fun top_page :: "frame list \<Rightarrow> int" where
  "top_page [] = IX_NO_PAGE"
| "top_page ((p, L, k, R) # fs) = p"

fun ctx_pages :: "frame list \<Rightarrow> int list" where
  "ctx_pages [] = []"
| "ctx_pages ((p, L, k, R) # fs) = p # kids_pages L @ kids_pages R @ ctx_pages fs"

fun lefts :: "frame list \<Rightarrow> (int \<times> ix_pair list) list" where
  "lefts [] = []"
| "lefts ((p, L, k, R) # fs) = lefts fs @ kids_leaves L"

fun rights :: "frame list \<Rightarrow> (int \<times> ix_pair list) list" where
  "rights [] = []"
| "rights ((p, L, k, R) # fs) = kids_leaves R @ rights fs"

fun repc :: "(int \<Rightarrow> ix_node) \<Rightarrow> frame list \<Rightarrow> int \<Rightarrow> bool" where
  "repc nd [] q \<longleftrightarrow> True"
| "repc nd ((p, L, k, R) # fs) q \<longleftrightarrow> \<not> nd_is_leaf (nd p) \<and> nd_parent (nd p) = top_page fs \<and> nd_pairs (nd p) = map kid_pair L @ (k, child_rid q) # map kid_pair R
     \<and> (\<forall>kt \<in> set (L @ R). rep nd p (snd kt)) \<and> repc nd fs p"

lemma rep_plug: "rep nd IX_NO_PAGE (plug fs t) \<longleftrightarrow> repc nd fs (bt_page t) \<and> rep nd (top_page fs) t"
proof (induction fs t rule: plug.induct)
  case (2 p L k R fs t)
  then show ?case by (auto simp: kid_pair_def)
qed simp

lemma leaves_plug: "leaves (plug fs t) = lefts fs @ leaves t @ rights fs"
  by (induction fs t rule: plug.induct) auto

lemma mset_pages_plug: "mset (tree_pages (plug fs t)) = mset (tree_pages t @ ctx_pages fs)"
  by (induction fs t rule: plug.induct) (auto simp: ac_simps)

lemma bt_page_plug: "bt_page (plug fs t) = (if fs = [] then bt_page t else fst (last fs))"
  by (induction fs t rule: plug.induct) auto

text \<open>What a position expects of the subtree put there: its height, its least size and its bounds.\<close>

inductive hole :: "ix_file_hdr \<Rightarrow> frame list \<Rightarrow> nat \<Rightarrow> nat \<Rightarrow> int option \<Rightarrow> int option \<Rightarrow> bool" for h where
  Root: "hole h [] n (root_min n) None None"
| Down: "hole h fs (Suc n) m lo hi \<Longrightarrow> m \<le> Suc (length L + length R) \<Longrightarrow> Suc (length L + length R) \<le> btree_order h \<Longrightarrow>
     seps_valid h L \<Longrightarrow> seps_valid h R \<Longrightarrow> valid_key (ix_cols h) k \<Longrightarrow> first_sep h lo (if L = [] then k else fst (hd L)) \<Longrightarrow>
     (L \<noteq> [] \<Longrightarrow> bwfk h n lo L (Some (hord h k))) \<Longrightarrow> (R \<noteq> [] \<Longrightarrow> bwfk h n (Some (hord h (fst (hd R)))) R hi) \<Longrightarrow>
     lo' = (if L = [] then lo else Some (hord h k)) \<Longrightarrow> hi' = (if R = [] then hi else Some (hord h (fst (hd R)))) \<Longrightarrow>
     hole h ((p, L, k, R) # fs) n (get_min_size h) lo' hi'"

inductive_cases hole_ConsE: "hole h ((p, L, k, R) # fs) n m lo hi"
inductive_cases hole_NilE: "hole h [] n m lo hi"

lemma hole_ConsD:
  assumes "hole h ((p, L, k, R) # fs) n m lo hi"
  obtains m' lo' hi' where "hole h fs (Suc n) m' lo' hi'" "m' \<le> Suc (length L + length R)" "Suc (length L + length R) \<le> btree_order h"
    "seps_valid h L" "seps_valid h R" "valid_key (ix_cols h) k" "first_sep h lo' (if L = [] then k else fst (hd L))"
    "L \<noteq> [] \<Longrightarrow> bwfk h n lo' L (Some (hord h k))" "R \<noteq> [] \<Longrightarrow> bwfk h n (Some (hord h (fst (hd R)))) R hi'"
    "lo = (if L = [] then lo' else Some (hord h k))" "hi = (if R = [] then hi' else Some (hord h (fst (hd R))))" "m = get_min_size h"
  using assms by (rule hole_ConsE) blast

lemma bwfk_hole:
  assumes "L \<noteq> [] \<Longrightarrow> bwfk h n lo L (Some (hord h k))" "R \<noteq> [] \<Longrightarrow> bwfk h n (Some (hord h (fst (hd R)))) R hi"
  shows "bwfk h n lo (L @ (k, t) # R) hi \<longleftrightarrow>
    bwf h n (get_min_size h) (if L = [] then lo else Some (hord h k)) (if R = [] then hi else Some (hord h (fst (hd R)))) t"
  using assms by (cases "L = []"; cases "R = []") (auto simp: kids_append kids_Cons)

lemma bwf_plug_step:
  assumes "hole h ((p, L, k, R) # fs) n m lo hi" "bwf h n m lo hi t"
  obtains m' lo' hi' where "hole h fs (Suc n) m' lo' hi'" "bwf h (Suc n) m' lo' hi' (BNode p (L @ (k, t) # R))"
proof (rule hole_ConsD [OF assms(1)])
  fix m' lo' hi'
  assume 1: "hole h fs (Suc n) m' lo' hi'" "m' \<le> Suc (length L + length R)" "Suc (length L + length R) \<le> btree_order h"
    "seps_valid h L" "seps_valid h R" "valid_key (ix_cols h) k" "first_sep h lo' (if L = [] then k else fst (hd L))"
    "L \<noteq> [] \<Longrightarrow> bwfk h n lo' L (Some (hord h k))" "R \<noteq> [] \<Longrightarrow> bwfk h n (Some (hord h (fst (hd R)))) R hi'"
    "lo = (if L = [] then lo' else Some (hord h k))" "hi = (if R = [] then hi' else Some (hord h (fst (hd R))))" "m = get_min_size h"
  have "bwfk h n lo' (L @ (k, t) # R) hi'" using bwfk_hole [OF 1(8,9)] 1(10-) assms(2) by simp
  then have "bwf h (Suc n) m' lo' hi' (BNode p (L @ (k, t) # R))"
    unfolding bwf_Suc using 1 by (cases L) (auto simp: seps_valid_def)
  then show ?thesis using that 1(1) by blast
qed

lemma bwf_plug: "hole h fs n m lo hi \<Longrightarrow> bwf h n m lo hi t \<Longrightarrow> bwf h (n + length fs) (root_min (n + length fs)) None None (plug fs t)"
proof (induction fs t arbitrary: n m lo hi rule: plug.induct)
  case (1 t)
  then show ?case by (auto elim!: hole_NilE)
next
  case (2 p L k R fs t)
  obtain m' lo' hi' where "hole h fs (Suc n) m' lo' hi'" "bwf h (Suc n) m' lo' hi' (BNode p (L @ (k, t) # R))" by (rule bwf_plug_step [OF 2(2,3)])
  then show ?case using 2(1) [of "Suc n" m' lo' hi'] by simp
qed

lemma hole_min: "hole h fs n m lo hi \<Longrightarrow> m = (if fs = [] then root_min n else get_min_size h)"
  by (cases rule: hole.cases) auto

subsection \<open>Descent\<close>

lemma bwf_node_split:
  assumes "bwf h (Suc n) m lo hi (BNode p (L @ (k, t) # R))" "hole h fs (Suc n) m lo hi"
  shows "hole h ((p, L, k, R) # fs) n (get_min_size h) (if L = [] then lo else Some (hord h k)) (if R = [] then hi else Some (hord h (fst (hd R))))
    \<and> bwf h n (get_min_size h) (if L = [] then lo else Some (hord h k)) (if R = [] then hi else Some (hord h (fst (hd R)))) t"
proof -
  note w = assms(1) [unfolded bwf_Suc]
  have l: "bwfk h n lo L (Some (hord h k))" if "L \<noteq> []" using w that kids_append [OF that, of "(k, t) # R"] by simp
  have r: "bwfk h n (Some (hord h (fst (hd R)))) R hi" if "R \<noteq> []"
    using w that kids_append [of "L @ [(k, t)]" R h _ lo hi] by simp
  have "bwf h n (get_min_size h) (if L = [] then lo else Some (hord h k)) (if R = [] then hi else Some (hord h (fst (hd R)))) t"
    using bwfk_hole [OF l r] w by blast
  moreover have "hole h ((p, L, k, R) # fs) n (get_min_size h) (if L = [] then lo else Some (hord h k)) (if R = [] then hi else Some (hord h (fst (hd R))))"
    using w l r by (intro hole.Down [OF assms(2)]) (auto simp: seps_valid_def hd_append)
  ultimately show ?thesis by blast
qed

text \<open>The search for a key goes to the child whose bounds contain it.\<close>

lemma internal_lookup_child:
  assumes "bwf h (Suc n) m lo hi (BNode p ts)" "hdr_ok h" "rep nd par (BNode p ts)" "valid_key (ix_cols h) key" "ge_lo lo (hord h key)" "lt_hi hi (hord h key)"
  obtains L k t R where "ts = L @ (k, t) # R" "internal_lookup (ix_cols h) key (nd p) = bt_page t"
    "ge_lo (if L = [] then lo else Some (hord h k)) (hord h key)" "lt_hi (if R = [] then hi else Some (hord h (fst (hd R)))) (hord h key)"
proof -
  note w = assms(1) [unfolded bwf_Suc]
  have ps: "nd_pairs (nd p) = map kid_pair ts" using assms(3) by simp
  have "keys_valid (ix_cols h) (nd_pairs (nd p))" using w assms(2) by (auto simp: ps keys_valid_def seps_valid_def hdr_ok_def kid_pair_def)
  moreover have "node_sorted (ix_cols h) (tl (nd_pairs (nd p)))"
    using bwfk_gap(2) [of h n lo ts hi] w assms(2) by (simp add: ps node_sorted_def map_tl [symmetric] sorted_wrt_map kid_pair_def)
  moreover have "nd_pairs (nd p) \<noteq> []" using w kids_ne by (auto simp: ps)
  ultimately obtain xs q ys where s: "map kid_pair ts = xs @ q # ys" "internal_lookup (ix_cols h) key (nd p) = rid_page (snd q)"
    "xs \<noteq> [] \<Longrightarrow> hord h (fst q) \<le> hord h key" "\<And>q. q \<in> set ys \<Longrightarrow> hord h key < hord h (fst q)"
    using internal_lookup_spec [OF _ assms(4), of "nd p"] unfolding ps by metis
  obtain L R' where l: "ts = L @ R'" "map kid_pair L = xs" "map kid_pair R' = q # ys" using s(1) by (auto simp: map_eq_append_conv)
  then obtain kt R where r: "R' = kt # R" "kid_pair kt = q" "map kid_pair R = ys" by auto
  show ?thesis
  proof (rule that [of L "fst kt" "snd kt" R])
    show "ts = L @ (fst kt, snd kt) # R" using l r by simp
    show "internal_lookup (ix_cols h) key (nd p) = bt_page (snd kt)" using s(2) r(2) by (auto simp: kid_pair_def child_rid_def)
    show "ge_lo (if L = [] then lo else Some (hord h (fst kt))) (hord h key)"
      using s(3) l(2) r(2) assms(5) by (auto simp: ge_lo_def kid_pair_def)
    show "lt_hi (if R = [] then hi else Some (hord h (fst (hd R)))) (hord h key)"
    proof (cases R)
      case (Cons x R1)
      then have "kid_pair x \<in> set ys" using r(3) by auto
      then show ?thesis using s(4) Cons by (fastforce simp: lt_hi_def kid_pair_def)
    qed (simp add: assms(6))
  qed
qed

lemma find_leaf_descent:
  assumes "hdr_ok h" "ix_cols h = cols s" "valid_key (ix_cols h) key"
    and "hole h fs n m lo hi" "bwf h n m lo hi t" "rep (ix_nodes s) par t" "ge_lo lo (hord h key)" "lt_hi hi (hord h key)" "n < fuel"
  shows "\<exists>fs' p es m' lo' hi'. find_leaf fuel False key (bt_page t) s = Ret p \<and> plug fs t = plug fs' (BLeaf p es) \<and> length fs' = length fs + n
    \<and> hole h fs' 0 m' lo' hi' \<and> leaf_wf h m' lo' hi' es \<and> ge_lo lo' (hord h key) \<and> lt_hi hi' (hord h key)"
  using assms(4-)
proof (induction n arbitrary: fs m lo hi t par fuel)
  case 0
  obtain p es where t: "t = BLeaf p es" "leaf_wf h m lo hi es" using 0(2) by (cases t) auto
  obtain f where "fuel = Suc f" using 0(6) by (cases fuel) auto
  then have "find_leaf fuel False key (bt_page t) s = Ret p" using 0(3) t(1) by (simp add: fetch_node_def Let_def)
  then show ?case using 0 t by (intro exI [of _ fs] exI [of _ p] exI [of _ es] exI [of _ m] exI [of _ lo] exI [of _ hi]) simp
next
  case (Suc n)
  obtain p ts where t: "t = BNode p ts" using Suc.prems(2) by (cases t) auto
  obtain f where f: "fuel = Suc f" "n < f" using Suc.prems(6) by (cases fuel) auto
  obtain L k t1 R where c: "ts = L @ (k, t1) # R" "internal_lookup (ix_cols h) key (ix_nodes s p) = bt_page t1"
      "ge_lo (if L = [] then lo else Some (hord h k)) (hord h key)" "lt_hi (if R = [] then hi else Some (hord h (fst (hd R)))) (hord h key)"
    by (rule internal_lookup_child [OF Suc.prems(2) [unfolded t] assms(1) Suc.prems(3) [unfolded t] assms(3) Suc.prems(4,5)])
  note w = bwf_node_split [OF Suc.prems(2) [unfolded t c(1)] Suc.prems(1)]
  have r: "rep (ix_nodes s) p t1" using Suc.prems(3) t c(1) by auto
  have e: "find_leaf fuel False key (bt_page t) s = find_leaf f False key (bt_page t1) s"
    using Suc.prems(3) c(2) assms(2) by (simp add: f(1) t fetch_node_def Let_def)
  have pl: "plug ((p, L, k, R) # fs) t1 = plug fs t" by (simp add: t c(1))
  show ?case using Suc.IH [OF conjunct1 [OF w] conjunct2 [OF w] r c(3,4) f(2)] unfolding e pl by simp
qed

subsection \<open>What the nodes of a tree depend on\<close>

definition core :: "ix_node \<Rightarrow> bool \<times> int \<times> ix_pair list" where
  "core nd = (nd_is_leaf nd, nd_parent nd, nd_pairs nd)"

lemma rep_cong: "\<forall>p \<in> set (tree_pages t). core (nd' p) = core (nd p) \<Longrightarrow> rep nd' par t = rep nd par t"
proof (induction nd par t rule: rep.induct)
  case (2 nd par p ts)
  have "rep nd' p (snd kt) = rep nd p (snd kt)" if "kt \<in> set ts" for kt using 2(1) [OF that] 2(2) that by auto
  then show ?case using 2(2) by (auto simp: core_def)
qed (auto simp: core_def)

lemma bt_page_hd: "tree_pages t = bt_page t # tl (tree_pages t)"
  by (cases t) auto

lemma bt_page_in: "bt_page t \<in> set (tree_pages t)"
  by (cases t) auto

lemma rep_reparent:
  assumes "rep nd par t" "\<forall>p \<in> set (tl (tree_pages t)). core (nd' p) = core (nd p)"
    and "nd_is_leaf (nd' (bt_page t)) = nd_is_leaf (nd (bt_page t))" "nd_pairs (nd' (bt_page t)) = nd_pairs (nd (bt_page t))" "nd_parent (nd' (bt_page t)) = par'"
  shows "rep nd' par' t"
proof (cases t)
  case (BNode p ts)
  have "rep nd' p (snd kt)" if "kt \<in> set ts" for kt
    using rep_cong [of "snd kt" nd' nd p] assms(1,2) that BNode by auto
  then show ?thesis using assms BNode by simp
qed (use assms in auto)

lemma repc_cong: "\<forall>p \<in> set (ctx_pages fs). core (nd' p) = core (nd p) \<Longrightarrow> repc nd' fs q = repc nd fs q"
proof (induction nd fs q rule: repc.induct)
  case (2 nd p L k R fs q)
  have "rep nd' p (snd kt) = rep nd p (snd kt)" if "kt \<in> set (L @ R)" for kt using 2(2) that by (intro rep_cong) auto
  moreover have "repc nd' fs p = repc nd fs p" using 2 by simp
  ultimately show ?case using 2(2) by (auto simp: core_def)
qed simp

lemma bwf_height: "bwf h n m lo hi t \<Longrightarrow> n < length (tree_pages t)"
proof (induction n arbitrary: m lo hi t)
  case 0
  then show ?case by (cases t) auto
next
  case (Suc n)
  then obtain p ts where t: "t = BNode p ts" "bwfk h n lo ts hi" by (cases t) auto
  then obtain kt ts1 where "ts = kt # ts1" using kids_ne by (cases ts) blast+
  moreover from this obtain lo' hi' where "bwf h n (get_min_size h) lo' hi' (snd kt)" using kids_mem [OF t(2), of kt] by auto
  ultimately show ?case using Suc.IH t(1) by fastforce
qed

lemma leaf_pages_sub: "fst ` set (leaves t) \<subseteq> set (tree_pages t)"
  by (induction t rule: leaves.induct) auto

lemma leaves_ne: "bwf h n m lo hi t \<Longrightarrow> leaves t \<noteq> []"
proof (induction n arbitrary: m lo hi t)
  case 0
  then show ?case by (cases t) auto
next
  case (Suc n)
  then obtain p ts where t: "t = BNode p ts" "bwfk h n lo ts hi" by (cases t) auto
  then obtain kt ts1 where "ts = kt # ts1" using kids_ne by (cases ts) blast+
  moreover from this obtain lo' hi' where "bwf h n (get_min_size h) lo' hi' (snd kt)" using kids_mem [OF t(2), of kt] by auto
  ultimately show ?case using Suc.IH t(1) by fastforce
qed

subsection \<open>The state\<close>

lemma ix_upd_simps [simp]:
  "ix_nodes (upd_node n f s) = (ix_nodes s)(n := f (ix_nodes s n))" "ix_hdr (upd_node n f s) = ix_hdr s" "ix_fd2pageno (upd_node n f s) = ix_fd2pageno s"
  "ix_nodes (upd_hdr g s) = ix_nodes s" "ix_hdr (upd_hdr g s) = g (ix_hdr s)" "ix_fd2pageno (upd_hdr g s) = ix_fd2pageno s"
  "ix_nodes (mark_node_dirty n l s) = ix_nodes s" "ix_hdr (mark_node_dirty n l s) = ix_hdr s" "ix_fd2pageno (mark_node_dirty n l s) = ix_fd2pageno s"
  "ix_nodes (BumpRoutingEpoch s) = ix_nodes s" "ix_hdr (BumpRoutingEpoch s) = ix_hdr s" "ix_fd2pageno (BumpRoutingEpoch s) = ix_fd2pageno s"
  by (simp_all add: upd_node_def upd_hdr_def mark_node_dirty_def BumpRoutingEpoch_def)

definition hstat :: "ix_file_hdr \<Rightarrow> columns \<times> nat" where "hstat h = (ix_cols h, btree_order h)"

lemma hstatD: "hstat h = hstat h' \<Longrightarrow> ix_cols h = ix_cols h' \<and> btree_order h = btree_order h' \<and> get_max_size h = get_max_size h' \<and> get_min_size h = get_min_size h'"
  by (simp add: hstat_def get_max_size_def get_min_size_def)

fun free_chain :: "(int \<Rightarrow> ix_node) \<Rightarrow> int \<Rightarrow> int list \<Rightarrow> bool" where
  "free_chain nd f [] \<longleftrightarrow> f = IX_NO_PAGE"
| "free_chain nd f (x # xs) \<longleftrightarrow> f = x \<and> free_chain nd (nd_next_free (nd x)) xs"

lemma free_chain_cong: "\<forall>x \<in> set fl. nd_next_free (nd' x) = nd_next_free (nd x) \<Longrightarrow> free_chain nd' f fl = free_chain nd f fl"
  by (induction nd f fl rule: free_chain.induct) auto

text \<open>\<open>used\<close> are the pages of the tree and of the leaf list; the free pages are others.\<close>

definition alloc_ok :: "ix_index \<Rightarrow> int set \<Rightarrow> int list \<Rightarrow> bool" where
  "alloc_ok s used fl \<longleftrightarrow> free_chain (ix_nodes s) (first_free_page (ix_hdr s)) fl \<and> distinct fl \<and> set fl \<inter> used = {}
     \<and> set fl \<subseteq> {2..<ix_num_pages (ix_hdr s)} \<and> used \<subseteq> {1..<ix_num_pages (ix_hdr s)} \<and> ix_fd2pageno s = ix_num_pages (ix_hdr s) \<and> 3 \<le> ix_num_pages (ix_hdr s)"

lemma alloc_frame:
  assumes "alloc_ok s used fl" "\<forall>x \<in> set fl. nd_next_free (ix_nodes s' x) = nd_next_free (ix_nodes s x)"
    and "first_free_page (ix_hdr s') = first_free_page (ix_hdr s)" "ix_num_pages (ix_hdr s') = ix_num_pages (ix_hdr s)" "ix_fd2pageno s' = ix_fd2pageno s"
  shows "alloc_ok s' used fl"
  using assms free_chain_cong [OF assms(2)] by (simp add: alloc_ok_def)

definition hdr_rest :: "ix_file_hdr \<Rightarrow> columns \<times> nat \<times> nat \<times> nat \<times> int \<times> int \<times> int" where
  "hdr_rest h = (ix_cols h, btree_order h, col_tot_len h, keys_size h, root_page h, first_leaf h, last_leaf h)"

lemma create_node_ok:
  assumes "alloc_ok s used fl" "ix_num_pages (ix_hdr s) + 1 < 2 ^ 31" "create_node s = (q, s1)"
  shows "\<exists>fl'. alloc_ok s1 (insert q used) fl' \<and> q \<notin> used \<and> 2 \<le> q \<and> (\<forall>x. x \<noteq> q \<longrightarrow> ix_nodes s1 x = ix_nodes s x) \<and> hdr_rest (ix_hdr s1) = hdr_rest (ix_hdr s)
    \<and> ix_num_pages (ix_hdr s) \<le> ix_num_pages (ix_hdr s1) \<and> ix_num_pages (ix_hdr s1) \<le> ix_num_pages (ix_hdr s) + 1"
proof (cases fl)
  case Nil
  let ?n = "ix_num_pages (ix_hdr s)"
  have a: "first_free_page (ix_hdr s) = IX_NO_PAGE" "ix_fd2pageno s = ?n" "3 \<le> ?n" "used \<subseteq> {1..<?n}" using assms(1) Nil by (simp_all add: alloc_ok_def)
  have "i32 (?n + 1) = ?n + 1" using a(3) assms(2) by simp
  then have e: "q = ?n" "s1 = upd_node ?n (\<lambda>_. zero_node) (upd_hdr (\<lambda>h. h\<lparr>ix_num_pages := ?n + 1\<rparr>) (s\<lparr>ix_fd2pageno := ?n + 1\<rparr>))"
    using assms(3) a by (auto simp: create_node_def Let_def upd_hdr_def)
  have "alloc_ok s1 (insert q used) []" using a e by (auto simp: alloc_ok_def)
  then show ?thesis using a e by (intro exI [of _ "[]"]) (auto simp: hdr_rest_def upd_hdr_def)
next
  case (Cons f fs)
  have a: "first_free_page (ix_hdr s) = f" "f \<noteq> IX_NO_PAGE" "2 \<le> f" "f \<notin> used" using assms(1) Cons by (auto simp: alloc_ok_def ix_consts)
  then have e: "q = f" "s1 = upd_hdr (\<lambda>h. h\<lparr>first_free_page := nd_next_free (ix_nodes s f)\<rparr>) s"
    using assms(3) by (auto simp: create_node_def Let_def fetch_node_def)
  have "alloc_ok s1 (insert q used) fs" using assms(1) Cons e by (auto simp: alloc_ok_def)
  then show ?thesis using a e by (intro exI [of _ fs]) (auto simp: hdr_rest_def)
qed

end
