(* ===== verification/Rmdb_Index_Insert.thy ===== *)
theory Rmdb_Index_Insert
  imports Rmdb_Index_Tree
begin

text \<open>
  Insertion into the B+ tree: the effect of \<open>split\<close> on the nodes, the climb of \<open>insert_into_parent\<close> along the frames of a position, and the refinement of
  \<open>insert_entry\<close> to an insertion into the sorted list of all entries.
\<close>

definition link :: "ix_node \<Rightarrow> int \<times> int" where
  "link nd = (nd_prev_leaf nd, nd_next_leaf nd)"

subsection \<open>Splitting a node\<close>

lemma maintain_children:
  assumes "\<not> nd_is_leaf (ix_nodes s q)" "\<forall>i \<in> set is. value_at (ix_nodes s q) i \<noteq> q"
  shows "ix_nodes (fold (maintain_child q l) is s) = (\<lambda>x. if x \<in> value_at (ix_nodes s q) ` set is then (ix_nodes s x)\<lparr>nd_parent := q\<rparr> else ix_nodes s x)
    \<and> ix_hdr (fold (maintain_child q l) is s) = ix_hdr s \<and> ix_fd2pageno (fold (maintain_child q l) is s) = ix_fd2pageno s"
  using assms
proof (induction "is" arbitrary: s)
  case (Cons i "is")
  let ?c = "value_at (ix_nodes s q) i"
  let ?s = "maintain_child q l i s"
  have m: "ix_nodes ?s = (ix_nodes s)(?c := (ix_nodes s ?c)\<lparr>nd_parent := q\<rparr>)" "ix_hdr ?s = ix_hdr s" "ix_fd2pageno ?s = ix_fd2pageno s"
    using Cons.prems(1) by (simp_all add: maintain_child_def fetch_node_def Let_def)
  have q: "ix_nodes ?s q = ix_nodes s q" using Cons.prems(2) m(1) by auto
  have "ix_nodes (fold (maintain_child q l) is ?s) = (\<lambda>x. if x \<in> value_at (ix_nodes s q) ` set is then (ix_nodes ?s x)\<lparr>nd_parent := q\<rparr> else ix_nodes ?s x)
    \<and> ix_hdr (fold (maintain_child q l) is ?s) = ix_hdr ?s \<and> ix_fd2pageno (fold (maintain_child q l) is ?s) = ix_fd2pageno ?s"
    using Cons.IH [of ?s] Cons.prems unfolding q by simp
  then show ?case using m by (auto simp: fun_eq_iff)
qed simp

lemma value_at_kids: "nd_pairs nd = map kid_pair ts \<Longrightarrow> i < length ts \<Longrightarrow> value_at nd i = bt_page (snd (ts ! i))"
  by (simp add: value_at_def get_rid_def kid_pair_def child_rid_def)

lemma value_at_image: "nd_pairs nd = map kid_pair ts \<Longrightarrow> value_at nd ` {0..<length ts} = bt_page ` snd ` set ts"
proof -
  assume a: "nd_pairs nd = map kid_pair ts"
  have "value_at nd ` {0..<length ts} = (\<lambda>i. bt_page (snd (ts ! i))) ` {0..<length ts}" using value_at_kids [OF a] by (intro image_cong) auto
  also have "\<dots> = bt_page ` snd ` nth ts ` {0..<length ts}" by (simp add: image_image)
  finally show ?thesis by (simp add: nth_image)
qed

text \<open>The children of an internal node, split in two.\<close>

lemma split_internal:
  assumes "alloc_ok s used fl" "ix_num_pages (ix_hdr s) + 1 < 2 ^ 31" "split p l s = (q, s')"
    and "p \<in> used" "\<not> nd_is_leaf (ix_nodes s p)" "nd_pairs (ix_nodes s p) = map kid_pair ts" "set (kids_pages ts) \<subseteq> used" "p \<notin> set (kids_pages ts)"
    and "ts1 = take (length ts div 2) ts" "ts2 = drop (length ts div 2) ts"
  shows "\<exists>fl'. alloc_ok s' (insert q used) fl' \<and> q \<notin> used \<and> 2 \<le> q
    \<and> core (ix_nodes s' q) = (False, nd_parent (ix_nodes s p), map kid_pair ts2) \<and> core (ix_nodes s' p) = (False, nd_parent (ix_nodes s p), map kid_pair ts1)
    \<and> (\<forall>x. x \<noteq> p \<and> x \<noteq> q \<longrightarrow> core (ix_nodes s' x) = (if x \<in> bt_page ` snd ` set ts2 then core ((ix_nodes s x)\<lparr>nd_parent := q\<rparr>) else core (ix_nodes s x)))
    \<and> (\<forall>x \<in> used. link (ix_nodes s' x) = link (ix_nodes s x)) \<and> hdr_rest (ix_hdr s') = hdr_rest (ix_hdr s)
    \<and> ix_num_pages (ix_hdr s) \<le> ix_num_pages (ix_hdr s') \<and> ix_num_pages (ix_hdr s') \<le> ix_num_pages (ix_hdr s) + 1"
proof -
  obtain q0 s1 where c: "create_node (BumpRoutingEpoch s) = (q0, s1)" by fastforce
  have a: "alloc_ok (BumpRoutingEpoch s) used fl" using assms(1) by (simp add: alloc_ok_def)
  obtain fl' where f: "alloc_ok s1 (insert q0 used) fl'" "q0 \<notin> used" "2 \<le> q0" "\<forall>x. x \<noteq> q0 \<longrightarrow> ix_nodes s1 x = ix_nodes s x" "hdr_rest (ix_hdr s1) = hdr_rest (ix_hdr s)"
      "ix_num_pages (ix_hdr s) \<le> ix_num_pages (ix_hdr s1)" "ix_num_pages (ix_hdr s1) \<le> ix_num_pages (ix_hdr s) + 1"
    using create_node_ok [OF a _ c] assms(2) by auto
  have pq: "p \<noteq> q0" using assms(4) f(2) by blast
  have n: "ix_nodes s1 p = ix_nodes s p" using f(4) pq by simp
  define s4 where "s4 = upd_node p (set_size (length ts div 2)) (upd_node q0 (insert_pairs 0 (map kid_pair ts2))
    (upd_node q0 (\<lambda>n. n\<lparr>nd_is_leaf := False, nd_parent := nd_parent (ix_nodes s p), nd_pairs := []\<rparr>) s1))"
  have e: "q = q0" "s' = fold (maintain_child q0 l) [0..<length ts2] s4"
    using assms(3,5,6) c n pq by (auto simp: split_def fetch_node_def Let_def s4_def get_size_def insert_pairs_def assms(10) drop_map)
  have q4: "nd_pairs (ix_nodes s4 q0) = map kid_pair ts2" "\<not> nd_is_leaf (ix_nodes s4 q0)" "nd_parent (ix_nodes s4 q0) = nd_parent (ix_nodes s p)"
    using pq by (simp_all add: s4_def insert_pairs_def)
  have kt: "bt_page (snd kt) \<in> set (kids_pages ts)" if "kt \<in> set ts2" for kt
    using that assms(10) bt_page_in by (fastforce dest: in_set_dropD)
  have im: "value_at (ix_nodes s4 q0) ` set [0..<length ts2] = bt_page ` snd ` set ts2" using value_at_image [OF q4(1)] by simp
  have nq: "q0 \<notin> bt_page ` snd ` set ts2" "p \<notin> bt_page ` snd ` set ts2" "bt_page ` snd ` set ts2 \<subseteq> used" using kt f(2) assms(7,8) by auto
  have "\<forall>i \<in> set [0..<length ts2]. value_at (ix_nodes s4 q0) i \<noteq> q0" using nq(1) im by (metis imageI)
  from maintain_children [OF q4(2) this, of l]
  have m: "ix_nodes s' = (\<lambda>x. if x \<in> bt_page ` snd ` set ts2 then (ix_nodes s4 x)\<lparr>nd_parent := q0\<rparr> else ix_nodes s4 x)" "ix_hdr s' = ix_hdr s1" "ix_fd2pageno s' = ix_fd2pageno s1"
    unfolding im e by (simp_all add: s4_def)
  have x4: "ix_nodes s4 x = ix_nodes s x" if "x \<noteq> p" "x \<noteq> q0" for x using that f(4) by (simp add: s4_def)
  have p4: "ix_nodes s4 p = set_size (length ts div 2) (ix_nodes s p)" using pq n by (simp add: s4_def)
  have "core (ix_nodes s' q) = (False, nd_parent (ix_nodes s p), map kid_pair ts2)" using m(1) nq(1) q4 by (simp add: e(1) core_def)
  moreover have "core (ix_nodes s' p) = (False, nd_parent (ix_nodes s p), map kid_pair ts1)"
    using m(1) nq(2) p4 assms(5,6,9) by (simp add: core_def set_size_def take_map)
  moreover have "\<forall>x. x \<noteq> p \<and> x \<noteq> q \<longrightarrow> core (ix_nodes s' x) = (if x \<in> bt_page ` snd ` set ts2 then core ((ix_nodes s x)\<lparr>nd_parent := q\<rparr>) else core (ix_nodes s x))"
    using m(1) x4 by (simp add: e(1))
  moreover have "\<forall>x \<in> used. link (ix_nodes s' x) = link (ix_nodes s x)"
  proof
    fix x assume "x \<in> used"
    then have "x \<noteq> q0" using f(2) by blast
    then show "link (ix_nodes s' x) = link (ix_nodes s x)" using m(1) x4 [of x] p4 by (cases "x = p") (simp_all add: link_def set_size_def)
  qed
  moreover have "alloc_ok s' (insert q used) fl'"
  proof (rule alloc_frame [OF f(1) [folded e(1)]])
    show "\<forall>x \<in> set fl'. nd_next_free (ix_nodes s' x) = nd_next_free (ix_nodes s1 x)"
    proof
      fix x assume "x \<in> set fl'"
      then have x: "x \<notin> used" "x \<noteq> q0" using f(1) by (auto simp: alloc_ok_def)
      then have "x \<noteq> p" using assms(4) by blast
      with x show "nd_next_free (ix_nodes s' x) = nd_next_free (ix_nodes s1 x)" using m(1) x4 f(4) nq(3) assms(4) by auto
    qed
  qed (simp_all add: m)
  ultimately show ?thesis using f e m by auto
qed


lemma split_leaf_eq:
  assumes sp: "split p l s = (q, s')" and c: "create_node (BumpRoutingEpoch s) = (q0, s1)" and n: "ix_nodes s1 p = ix_nodes s p" "ix_nodes s1 nx = ix_nodes s nx" and ne: "p \<noteq> q0" "nx \<noteq> q0"
    and lf: "nd_is_leaf (ix_nodes s p)" and es: "nd_pairs (ix_nodes s p) = es" and nx: "nx = nd_next_leaf (ix_nodes s p)" "nx \<noteq> p"
  shows "q = q0"
    "ix_nodes s' = (ix_nodes s1)(q0 := (ix_nodes s1 q0)\<lparr>nd_is_leaf := True, nd_parent := nd_parent (ix_nodes s p), nd_pairs := drop (length es div 2) es, nd_next_leaf := nx, nd_prev_leaf := p\<rparr>,
       nx := (ix_nodes s nx)\<lparr>nd_prev_leaf := q0\<rparr>, p := (ix_nodes s p)\<lparr>nd_pairs := take (length es div 2) es, nd_next_leaf := q0\<rparr>)"
    "ix_hdr s' = (if last_leaf (ix_hdr s1) = p then (ix_hdr s1)\<lparr>last_leaf := q0\<rparr> else ix_hdr s1)" "ix_fd2pageno s' = ix_fd2pageno s1"
proof -
  let ?k = "length es div 2"
  define s4 where "s4 = upd_node p (set_size ?k) (upd_node q0 (insert_pairs 0 (drop ?k es)) (upd_node q0 (\<lambda>n. n\<lparr>nd_is_leaf := True, nd_parent := nd_parent (ix_nodes s p), nd_pairs := []\<rparr>) s1))"
  define s7 where "s7 = upd_node p (\<lambda>n. n\<lparr>nd_next_leaf := q0\<rparr>) (mark_node_dirty nx l (upd_node nx (\<lambda>n. n\<lparr>nd_prev_leaf := q0\<rparr>) (upd_node q0 (\<lambda>n. n\<lparr>nd_next_leaf := nx, nd_prev_leaf := p\<rparr>) s4)))"
  have s7: "(q, s') = (q0, if last_leaf (ix_hdr s7) = p then upd_hdr (\<lambda>h. h\<lparr>last_leaf := q0\<rparr>) s7 else s7)"
    unfolding sp [symmetric] split_def s7_def s4_def by (simp only: c n(1) nx(1) [symmetric] lf es fetch_node_def Let_def get_size_def prod.case if_True) auto
  then show "q = q0" by simp
  have h: "ix_hdr s7 = ix_hdr s1" "ix_fd2pageno s7 = ix_fd2pageno s1" by (simp_all add: s7_def s4_def)
  then show "ix_hdr s' = (if last_leaf (ix_hdr s1) = p then (ix_hdr s1)\<lparr>last_leaf := q0\<rparr> else ix_hdr s1)" "ix_fd2pageno s' = ix_fd2pageno s1" using s7 by simp_all
  have "ix_nodes s7 x = ((ix_nodes s1)(q0 := (ix_nodes s1 q0)\<lparr>nd_is_leaf := True, nd_parent := nd_parent (ix_nodes s p), nd_pairs := drop ?k es, nd_next_leaf := nx, nd_prev_leaf := p\<rparr>,
       nx := (ix_nodes s nx)\<lparr>nd_prev_leaf := q0\<rparr>, p := (ix_nodes s p)\<lparr>nd_pairs := take ?k es, nd_next_leaf := q0\<rparr>)) x" for x
    using n ne ne [symmetric] nx(2) nx(2) [symmetric] es by (cases "x = p"; cases "x = nx"; cases "x = q0") (simp_all add: s7_def s4_def insert_pairs_def set_size_def)
  moreover have "ix_nodes s' = ix_nodes s7" using s7 by simp
  ultimately show "ix_nodes s' = (ix_nodes s1)(q0 := (ix_nodes s1 q0)\<lparr>nd_is_leaf := True, nd_parent := nd_parent (ix_nodes s p), nd_pairs := drop ?k es, nd_next_leaf := nx, nd_prev_leaf := p\<rparr>,
       nx := (ix_nodes s nx)\<lparr>nd_prev_leaf := q0\<rparr>, p := (ix_nodes s p)\<lparr>nd_pairs := take ?k es, nd_next_leaf := q0\<rparr>)" by presburger
qed

lemma split_leaf:
  assumes "alloc_ok s used fl" "ix_num_pages (ix_hdr s) + 1 < 2 ^ 31" "split p l s = (q, s')"
    and "p \<in> used" "nd_is_leaf (ix_nodes s p)" "nd_pairs (ix_nodes s p) = es" "nx = nd_next_leaf (ix_nodes s p)" "nx \<in> used" "nx \<noteq> p"
  shows "\<exists>fl'. alloc_ok s' (insert q used) fl' \<and> q \<notin> used \<and> 2 \<le> q
    \<and> core (ix_nodes s' q) = (True, nd_parent (ix_nodes s p), drop (length es div 2) es) \<and> core (ix_nodes s' p) = (True, nd_parent (ix_nodes s p), take (length es div 2) es)
    \<and> (\<forall>x. x \<noteq> p \<and> x \<noteq> q \<longrightarrow> core (ix_nodes s' x) = core (ix_nodes s x))
    \<and> link (ix_nodes s' q) = (p, nx) \<and> link (ix_nodes s' p) = (nd_prev_leaf (ix_nodes s p), q) \<and> link (ix_nodes s' nx) = (q, nd_next_leaf (ix_nodes s nx))
    \<and> (\<forall>x \<in> used. x \<noteq> p \<and> x \<noteq> nx \<longrightarrow> link (ix_nodes s' x) = link (ix_nodes s x))
    \<and> hdr_rest (ix_hdr s') = hdr_rest ((ix_hdr s)\<lparr>last_leaf := if last_leaf (ix_hdr s) = p then q else last_leaf (ix_hdr s)\<rparr>)
    \<and> ix_num_pages (ix_hdr s) \<le> ix_num_pages (ix_hdr s') \<and> ix_num_pages (ix_hdr s') \<le> ix_num_pages (ix_hdr s) + 1"
proof -
  obtain q0 s1 where c: "create_node (BumpRoutingEpoch s) = (q0, s1)" by fastforce
  have a: "alloc_ok (BumpRoutingEpoch s) used fl" using assms(1) by (simp add: alloc_ok_def)
  obtain fl' where f: "alloc_ok s1 (insert q0 used) fl'" "q0 \<notin> used" "2 \<le> q0" "\<forall>x. x \<noteq> q0 \<longrightarrow> ix_nodes s1 x = ix_nodes s x" "hdr_rest (ix_hdr s1) = hdr_rest (ix_hdr s)"
      "ix_num_pages (ix_hdr s) \<le> ix_num_pages (ix_hdr s1)" "ix_num_pages (ix_hdr s1) \<le> ix_num_pages (ix_hdr s) + 1"
    using create_node_ok [OF a _ c] assms(2) by auto
  have ne: "p \<noteq> q0" "nx \<noteq> q0" using assms(4,8) f(2) by blast+
  have n: "ix_nodes s1 p = ix_nodes s p" using f(4) ne by simp
  let ?k = "length es div 2"
  let ?q = "(ix_nodes s1 q0)\<lparr>nd_is_leaf := True, nd_parent := nd_parent (ix_nodes s p), nd_pairs := drop ?k es, nd_next_leaf := nx, nd_prev_leaf := p\<rparr>"
  have e: "q = q0"
    "ix_nodes s' = (ix_nodes s1)(q0 := ?q, nx := (ix_nodes s nx)\<lparr>nd_prev_leaf := q0\<rparr>, p := (ix_nodes s p)\<lparr>nd_pairs := take ?k es, nd_next_leaf := q0\<rparr>)"
    "ix_hdr s' = (if last_leaf (ix_hdr s1) = p then (ix_hdr s1)\<lparr>last_leaf := q0\<rparr> else ix_hdr s1)" "ix_fd2pageno s' = ix_fd2pageno s1"
    using split_leaf_eq [OF assms(3) c n _ ne assms(5-7,9)] f(4) ne(2) by simp_all
  have "last_leaf (ix_hdr s1) = last_leaf (ix_hdr s)" using f(5) by (simp add: hdr_rest_def)
  then have h: "hdr_rest (ix_hdr s') = hdr_rest ((ix_hdr s)\<lparr>last_leaf := if last_leaf (ix_hdr s) = p then q else last_leaf (ix_hdr s)\<rparr>)"
    using f(5) e(1,3) by (auto simp: hdr_rest_def)
  have "alloc_ok s' (insert q used) fl'"
  proof (rule alloc_frame [OF f(1) [folded e(1)]])
    show "\<forall>x \<in> set fl'. nd_next_free (ix_nodes s' x) = nd_next_free (ix_nodes s1 x)" using e(2) f(4) n ne by (auto simp: fun_upd_def)
  qed (simp_all add: e)
  moreover have "(\<forall>x. x \<noteq> p \<and> x \<noteq> q \<longrightarrow> core (ix_nodes s' x) = core (ix_nodes s x)) \<and> (\<forall>x \<in> used. x \<noteq> p \<and> x \<noteq> nx \<longrightarrow> link (ix_nodes s' x) = link (ix_nodes s x))"
    using e(1,2) f(2,4) by (auto simp: core_def link_def)
  ultimately show ?thesis using f e h ne assms(5,9) by (auto simp: core_def link_def)
qed

subsection \<open>The climb\<close>

lemma rep_move:
  assumes "rep nd par t" "distinct (tree_pages t)" "\<And>x. x \<in> set (tree_pages t) \<Longrightarrow> x \<noteq> bt_page t \<Longrightarrow> core (nd' x) = core (nd x)"
    and "core (nd' (bt_page t)) = core ((nd (bt_page t))\<lparr>nd_parent := par'\<rparr>)"
  shows "rep nd' par' t"
proof (rule rep_reparent [OF assms(1)])
  show "\<forall>p \<in> set (tl (tree_pages t)). core (nd' p) = core (nd p)"
    using assms(2,3) bt_page_hd [of t] by (metis distinct.simps(2) list.set_intros(2))
qed (use assms(4) in \<open>simp_all add: core_def\<close>)

lemma bwfk_two:
  assumes "L \<noteq> [] \<Longrightarrow> bwfk h n lo L (Some (hord h k0))" "R \<noteq> [] \<Longrightarrow> bwfk h n (Some (hord h (fst (hd R)))) R hi"
    and "bwf h n (get_min_size h) (if L = [] then lo else Some (hord h k0)) (Some (hord h k)) t1"
    and "bwf h n (get_min_size h) (Some (hord h k)) (if R = [] then hi else Some (hord h (fst (hd R)))) t2"
  shows "bwfk h n lo (L @ (k0, t1) # (k, t2) # R) hi"
proof -
  have "bwfk h n (Some (hord h k)) ((k, t2) # R) hi" using assms(2,4) by (cases R) simp_all
  then show ?thesis using assms(1,3) by (cases "L = []") (simp_all add: kids_append)
qed

lemma find_child_frame:
  assumes "nd_pairs nd = map kid_pair L @ (k0, child_rid p1) # ps" "p1 \<notin> bt_page ` snd ` set L"
  shows "find_child p1 nd = length L"
proof -
  have "takeWhile (\<lambda>p. rid_page (snd p) \<noteq> p1) (map kid_pair L @ (k0, child_rid p1) # ps) = map kid_pair L"
    using assms(2) by (subst takeWhile_append2) (force simp: kid_pair_def child_rid_def)+
  then show ?thesis by (simp add: find_child_def assms(1))
qed

lemma insert_after:
  assumes "nd_pairs nd = map kid_pair L @ (k0, child_rid (bt_page t1)) # map kid_pair R"
  shows "nd_pairs (insert_pair (length L + 1) k (child_rid (bt_page t2)) nd) = map kid_pair (L @ (k0, t1) # (k, t2) # R)"
  by (simp add: insert_pair_def insert_pairs_def assms kid_pair_def)

lemma first_key_valid:
  assumes "bwf h n m lo hi t" "0 < m" "rep nd par t"
  shows "valid_key (ix_cols h) (get_key (nd (bt_page t)) 0)"
proof (cases n)
  case 0
  then obtain p es where t: "t = BLeaf p es" "leaf_wf h m lo hi es" using assms(1) by (cases t) auto
  then show ?thesis using assms(2,3) by (cases es) (auto simp: leaf_wf_def get_key_def keys_valid_def)
next
  case (Suc n')
  then obtain p ts where t: "t = BNode p ts" "m \<le> length ts" "seps_valid h ts" using assms(1) by (cases t) auto
  then show ?thesis using assms(2,3) by (cases ts) (auto simp: get_key_def seps_valid_def kid_pair_def)
qed

definition hdr_fix :: "ix_file_hdr \<Rightarrow> columns \<times> nat \<times> nat \<times> nat \<times> int \<times> int" where
  "hdr_fix h = (ix_cols h, btree_order h, col_tot_len h, keys_size h, first_leaf h, last_leaf h)"

definition root_ok :: "ix_file_hdr \<Rightarrow> bt \<Rightarrow> bool" where
  "root_ok h t \<longleftrightarrow> (\<exists>N. bwf h N (root_min N) None None t)"

text \<open>A tree of the store, without the list of the leaves.\<close>

definition tree_at :: "ix_file_hdr \<Rightarrow> ix_index \<Rightarrow> bt \<Rightarrow> int list \<Rightarrow> bool" where
  "tree_at h s t fl \<longleftrightarrow> rep (ix_nodes s) IX_NO_PAGE t \<and> root_page (ix_hdr s) = bt_page t \<and> root_ok h t \<and> distinct (tree_pages t)
     \<and> 1 \<notin> set (tree_pages t) \<and> alloc_ok s (insert 1 (set (tree_pages t))) fl"

lemma insert_into_root:
  assumes "hdr_ok h" "rep (ix_nodes s) IX_NO_PAGE t1" "rep (ix_nodes s) par2 t2"
    and "bwf h n (get_min_size h) None (Some (hord h k)) t1" "bwf h n (get_min_size h) (Some (hord h k)) None t2" "valid_key (ix_cols h) k"
    and "distinct (tree_pages t1 @ tree_pages t2)" "1 \<notin> set (tree_pages t1 @ tree_pages t2)" "alloc_ok s (insert 1 (set (tree_pages t1 @ tree_pages t2))) fl"
    and "ix_num_pages (ix_hdr s) + 1 < 2 ^ 31"
  shows "\<exists>t' s' fl'. insert_into_parent (Suc fuel) (bt_page t1) k (bt_page t2) l s = (Ret (), s') \<and> tree_at h s' t' fl' \<and> leaves t' = leaves t1 @ leaves t2
    \<and> (\<forall>x \<in> insert 1 (set (tree_pages t1 @ tree_pages t2)). link (ix_nodes s' x) = link (ix_nodes s x)) \<and> hdr_fix (ix_hdr s') = hdr_fix (ix_hdr s)
    \<and> ix_num_pages (ix_hdr s') \<le> ix_num_pages (ix_hdr s) + 1"
proof -
  let ?u = "insert 1 (set (tree_pages t1 @ tree_pages t2))"
  let ?p1 = "bt_page t1" and ?p2 = "bt_page t2"
  obtain q s1 where c: "create_node (BumpRoutingEpoch s) = (q, s1)" by fastforce
  have "alloc_ok (BumpRoutingEpoch s) ?u fl" using assms(9) by (simp add: alloc_ok_def)
  then obtain fl' where f: "alloc_ok s1 (insert q ?u) fl'" "q \<notin> ?u" "2 \<le> q" "\<forall>x. x \<noteq> q \<longrightarrow> ix_nodes s1 x = ix_nodes s x" "hdr_rest (ix_hdr s1) = hdr_rest (ix_hdr s)"
      "ix_num_pages (ix_hdr s1) \<le> ix_num_pages (ix_hdr s) + 1"
    using create_node_ok [OF _ _ c, of ?u fl] assms(10) by auto
  have in12: "?p1 \<in> set (tree_pages t1)" "?p2 \<in> set (tree_pages t2)" by (rule bt_page_in)+
  then have ne: "?p1 \<noteq> q" "?p2 \<noteq> q" "?p1 \<noteq> ?p2" using f(2) assms(7) by auto
  let ?k0 = "get_key (ix_nodes s ?p1) 0"
  let ?q = "(ix_nodes s1 q)\<lparr>nd_is_leaf := False, nd_parent := IX_NO_PAGE, nd_pairs := [(?k0, child_rid ?p1), (k, child_rid ?p2)]\<rparr>"
  define s' where "s' = snd (insert_into_parent (Suc fuel) ?p1 k ?p2 l s)"
  have root: "is_root_page (ix_nodes s ?p1)" using assms(2) by (cases t1) (simp_all add: is_root_page_def IX_NO_PAGE_def)
  have e: "insert_into_parent (Suc fuel) ?p1 k ?p2 l s = (Ret (), s')"
    "ix_nodes s' = (ix_nodes s1)(q := ?q, ?p1 := (ix_nodes s ?p1)\<lparr>nd_parent := q\<rparr>, ?p2 := (ix_nodes s ?p2)\<lparr>nd_parent := q\<rparr>)"
    "ix_hdr s' = (ix_hdr s1)\<lparr>root_page := q\<rparr>" "ix_fd2pageno s' = ix_fd2pageno s1"
    using c root ne f(4) by (auto simp: s'_def Let_def fetch_node_def insert_pair_def insert_pairs_def update_root_page_no_def fun_eq_iff)
  have nodes: "ix_nodes s' x = ix_nodes s x" if "x \<noteq> q" "x \<noteq> ?p1" "x \<noteq> ?p2" for x using that e(2) f(4) by simp
  have dist: "distinct (tree_pages t1)" "distinct (tree_pages t2)" "set (tree_pages t1) \<inter> set (tree_pages t2) = {}" "q \<notin> set (tree_pages t1)" "q \<notin> set (tree_pages t2)"
    using assms(7) f(2) by auto
  have r1: "rep (ix_nodes s') q t1"
  proof (rule rep_move [OF assms(2) dist(1)])
    fix x assume "x \<in> set (tree_pages t1)" "x \<noteq> ?p1"
    then have "x \<noteq> q" "x \<noteq> ?p2" using dist(3,4) in12 by auto
    then show "core (ix_nodes s' x) = core (ix_nodes s x)" using nodes \<open>x \<noteq> ?p1\<close> by simp
  qed (use e(2) ne in \<open>simp add: core_def\<close>)
  have r2: "rep (ix_nodes s') q t2"
  proof (rule rep_move [OF assms(3) dist(2)])
    fix x assume "x \<in> set (tree_pages t2)" "x \<noteq> ?p2"
    then have "x \<noteq> q" "x \<noteq> ?p1" using dist(3,5) in12 by auto
    then show "core (ix_nodes s' x) = core (ix_nodes s x)" using nodes \<open>x \<noteq> ?p2\<close> by simp
  qed (use e(2) ne in \<open>simp add: core_def\<close>)
  let ?t = "BNode q [(?k0, t1), (k, t2)]"
  have mn: "2 \<le> get_min_size h" "3 \<le> btree_order h" using assms(1) wf_pos_min by (auto simp: hdr_ok_def)
  have "bwf h (Suc n) (root_min (Suc n)) None None ?t"
    using assms(4-6) mn first_key_valid [OF assms(4) _ assms(2)] by (simp add: root_min_def seps_valid_def first_sep_def)
  then have "root_ok h ?t" unfolding root_ok_def by blast
  moreover have "rep (ix_nodes s') IX_NO_PAGE ?t" using r1 r2 e(2) ne by (simp add: kid_pair_def)
  moreover have "alloc_ok s' (insert 1 (set (tree_pages ?t))) fl'"
  proof -
    have u: "insert 1 (set (tree_pages ?t)) = insert q ?u" by auto
    have "\<forall>x. nd_next_free (ix_nodes s' x) = nd_next_free (ix_nodes s1 x)" using f(4) ne by (simp add: e(2))
    then show ?thesis unfolding u by (intro alloc_frame [OF f(1)]) (simp_all add: e(3,4))
  qed
  ultimately have "tree_at h s' ?t fl'" using e(3) dist assms(8) f(3) unfolding tree_at_def by auto
  moreover have "\<forall>x \<in> ?u. link (ix_nodes s' x) = link (ix_nodes s x)" using e(2) f(2,4) by (auto simp: link_def)
  ultimately show ?thesis using e(1,3) f(5,6) by (intro exI [of _ ?t] exI [of _ s'] exI [of _ fl']) (auto simp: hdr_fix_def hdr_rest_def)
qed

text \<open>The parent of a frame after the pair of the new child was put behind the old one.\<close>

lemma parent_extended:
  assumes "hdr_ok h" "hole h ((p, L, k0, R) # fs) n m lo hi" "repc (ix_nodes s) ((p, L, k0, R) # fs) (bt_page t1)" "rep (ix_nodes s) p t1" "rep (ix_nodes s) par2 t2"
    and "bwf h n (get_min_size h) lo (Some (hord h k)) t1" "bwf h n (get_min_size h) (Some (hord h k)) hi t2" "valid_key (ix_cols h) k"
    and "distinct (tree_pages t1 @ tree_pages t2 @ ctx_pages ((p, L, k0, R) # fs))"
    and "s2 = upd_node (bt_page t2) (\<lambda>n. n\<lparr>nd_parent := p\<rparr>) (upd_node p (insert_pair (length L + 1) k (child_rid (bt_page t2))) s0)" "ix_nodes s0 = ix_nodes s"
    and "C = L @ (k0, t1) # (k, t2) # R"
  shows "\<exists>m' lo' hi'. hole h fs (Suc n) m' lo' hi' \<and> m' \<le> length C \<and> length C \<le> Suc (btree_order h) \<and> seps_valid h C \<and> first_sep h lo' (fst (hd C)) \<and> bwfk h n lo' C hi'"
    "repc (ix_nodes s2) fs p" "nd_pairs (ix_nodes s2 p) = map kid_pair C" "\<not> nd_is_leaf (ix_nodes s2 p)" "nd_parent (ix_nodes s2 p) = top_page fs"
    "\<And>kt. kt \<in> set C \<Longrightarrow> rep (ix_nodes s2) p (snd kt)" "\<And>x. link (ix_nodes s2 x) = link (ix_nodes s x)" "\<And>x. nd_next_free (ix_nodes s2 x) = nd_next_free (ix_nodes s x)"
proof -
  show "\<exists>m' lo' hi'. hole h fs (Suc n) m' lo' hi' \<and> m' \<le> length C \<and> length C \<le> Suc (btree_order h) \<and> seps_valid h C \<and> first_sep h lo' (fst (hd C)) \<and> bwfk h n lo' C hi'"
  proof (rule hole_ConsD [OF assms(2)])
    fix m' lo' hi'
    assume 1: "hole h fs (Suc n) m' lo' hi'" "m' \<le> Suc (length L + length R)" "Suc (length L + length R) \<le> btree_order h"
      "seps_valid h L" "seps_valid h R" "valid_key (ix_cols h) k0" "first_sep h lo' (if L = [] then k0 else fst (hd L))"
      "L \<noteq> [] \<Longrightarrow> bwfk h n lo' L (Some (hord h k0))" "R \<noteq> [] \<Longrightarrow> bwfk h n (Some (hord h (fst (hd R)))) R hi'"
      "lo = (if L = [] then lo' else Some (hord h k0))" "hi = (if R = [] then hi' else Some (hord h (fst (hd R))))" "m = get_min_size h"
    have "bwfk h n lo' C hi'" unfolding assms(12) by (rule bwfk_two) (use 1 assms(6,7) in auto)
    moreover have "seps_valid h C" using 1(4-6) assms(8) by (auto simp: assms(12) seps_valid_def)
    moreover have "first_sep h lo' (fst (hd C))" using 1(7) by (cases L) (auto simp: assms(12))
    ultimately show ?thesis using 1(1-3) by (intro exI [of _ m'] exI [of _ lo'] exI [of _ hi']) (simp add: assms(12))
  qed
  have d: "distinct (tree_pages t1)" "distinct (tree_pages t2)" "set (tree_pages t1) \<inter> set (tree_pages t2) = {}"
      "p \<notin> set (tree_pages t1)" "p \<notin> set (tree_pages t2)" "p \<notin> set (kids_pages L)" "p \<notin> set (kids_pages R)" "p \<notin> set (ctx_pages fs)"
      "set (tree_pages t2) \<inter> (set (kids_pages L) \<union> set (kids_pages R) \<union> set (ctx_pages fs)) = {}"
    using assms(9) by auto
  have in2: "bt_page t2 \<in> set (tree_pages t2)" by (rule bt_page_in)
  then have ne: "bt_page t2 \<noteq> p" using d(5) by blast
  note rc = assms(3) [unfolded repc.simps]
  have n2: "ix_nodes s2 = (ix_nodes s)(p := insert_pair (length L + 1) k (child_rid (bt_page t2)) (ix_nodes s p), bt_page t2 := (ix_nodes s (bt_page t2))\<lparr>nd_parent := p\<rparr>)"
    using ne by (simp add: assms(10,11) fun_upd_twist)
  have same: "ix_nodes s2 x = ix_nodes s x" if "x \<noteq> p" "x \<noteq> bt_page t2" for x using that n2 by simp
  show "repc (ix_nodes s2) fs p"
  proof -
    have "\<forall>x \<in> set (ctx_pages fs). core (ix_nodes s2 x) = core (ix_nodes s x)" using same d(8,9) in2 by (metis Int_iff UnCI empty_iff)
    then show ?thesis using rc repc_cong by blast
  qed
  show pp: "nd_pairs (ix_nodes s2 p) = map kid_pair C" using insert_after [of "ix_nodes s p" L k0 t1 R k t2] rc ne by (simp add: n2 assms(12))
  show "\<not> nd_is_leaf (ix_nodes s2 p)" "nd_parent (ix_nodes s2 p) = top_page fs" using rc ne by (simp_all add: n2 insert_pair_def insert_pairs_def)
  show "rep (ix_nodes s2) p (snd kt)" if "kt \<in> set C" for kt
  proof (cases "kt = (k, t2)")
    case True
    have "rep (ix_nodes s2) p t2"
      by (rule rep_move [OF assms(5) d(2)]) (use same d(5) n2 in \<open>auto simp: core_def\<close>)
    then show ?thesis using True by simp
  next
    case False
    then have k: "kt = (k0, t1) \<or> kt \<in> set (L @ R)" using that by (auto simp: assms(12))
    have "\<forall>x \<in> set (tree_pages (snd kt)). x \<noteq> p \<and> x \<noteq> bt_page t2" using k d in2 by auto
    then have "\<forall>x \<in> set (tree_pages (snd kt)). core (ix_nodes s2 x) = core (ix_nodes s x)" using same by simp
    moreover have "rep (ix_nodes s) p (snd kt)" using k rc assms(4) by auto
    ultimately show ?thesis using rep_cong by blast
  qed
  show "link (ix_nodes s2 x) = link (ix_nodes s x)" "nd_next_free (ix_nodes s2 x) = nd_next_free (ix_nodes s x)" for x
    by (simp_all add: n2 link_def insert_pair_def insert_pairs_def)
qed

lemma roots_sub: "bt_page ` snd ` set ts \<subseteq> set (kids_pages ts)"
proof
  fix x assume "x \<in> bt_page ` snd ` set ts"
  then obtain kt where "kt \<in> set ts" "x = bt_page (snd kt)" by auto
  then show "x \<in> set (kids_pages ts)" using bt_page_in [of "snd kt"] by auto
qed

lemma kid_roots:
  assumes "distinct (kids_pages ts)" "kt \<in> set ts" "kt' \<in> set ts" "bt_page (snd kt') \<in> set (tree_pages (snd kt))"
  shows "bt_page (snd kt') = bt_page (snd kt)"
proof (cases "tree_pages (snd kt) = tree_pages (snd kt')")
  case True
  then show ?thesis by (metis bt_page_hd list.inject)
next
  case False
  then show ?thesis using assms bt_page_in [of "snd kt'"] unfolding distinct_concat_iff by fastforce
qed

text \<open>The representation of the two halves of a split internal node.\<close>

lemma halves_rep:
  assumes "distinct (p # kids_pages (C1 @ C2))" "q \<noteq> p" "q \<notin> set (kids_pages (C1 @ C2))" "\<And>kt. kt \<in> set (C1 @ C2) \<Longrightarrow> rep nd p (snd kt)"
    and "core (nd' q) = (False, par, map kid_pair C2)" "core (nd' p) = (False, par, map kid_pair C1)"
    and "\<And>x. x \<noteq> p \<Longrightarrow> x \<noteq> q \<Longrightarrow> core (nd' x) = (if x \<in> bt_page ` snd ` set C2 then core ((nd x)\<lparr>nd_parent := q\<rparr>) else core (nd x))"
  shows "rep nd' par (BNode p C1)" "rep nd' par (BNode q C2)"
proof -
  have d: "distinct (kids_pages C2)" "set (kids_pages C1) \<inter> set (kids_pages C2) = {}" using assms(1) by auto
  have roots: "bt_page ` snd ` set C2 \<subseteq> set (kids_pages C2)" by (rule roots_sub)
  have "rep nd' p (snd kt)" if kt: "kt \<in> set C1" for kt
  proof -
    have "core (nd' x) = core (nd x)" if "x \<in> set (tree_pages (snd kt))" for x
    proof -
      have x: "x \<in> set (kids_pages C1)" using that kt by auto
      then have "x \<notin> bt_page ` snd ` set C2" using d(2) roots by blast
      moreover have "x \<noteq> p" "x \<noteq> q" using x assms(1,3) by auto
      ultimately show ?thesis using assms(7) by simp
    qed
    then show ?thesis using rep_cong assms(4) kt by (metis Un_iff set_append)
  qed
  then show "rep nd' par (BNode p C1)" using assms(6) by (simp add: core_def)
  have "rep nd' q (snd kt)" if kt: "kt \<in> set C2" for kt
  proof (rule rep_move)
    show "rep nd p (snd kt)" "distinct (tree_pages (snd kt))" using assms(4) kt d(1) by (auto simp: distinct_concat_iff)
    have in2: "x \<in> set (kids_pages C2)" if "x \<in> set (tree_pages (snd kt))" for x using that kt by auto
    show "core (nd' x) = core (nd x)" if x: "x \<in> set (tree_pages (snd kt))" "x \<noteq> bt_page (snd kt)" for x
    proof -
      have "x \<notin> bt_page ` snd ` set C2" using kid_roots [OF d(1) kt] x by blast
      moreover have "x \<noteq> p" "x \<noteq> q" using assms(1,3) in2 [OF x(1)] by auto
      ultimately show ?thesis using assms(7) by simp
    qed
    have "bt_page (snd kt) \<noteq> p" "bt_page (snd kt) \<noteq> q" using in2 [OF bt_page_in] assms(1,3) by auto
    then show "core (nd' (bt_page (snd kt))) = core ((nd (bt_page (snd kt)))\<lparr>nd_parent := q\<rparr>)" using assms(7) kt by auto
  qed
  then show "rep nd' par (BNode q C2)" using assms(5) by (simp add: core_def)
qed

lemma tree_at_mark [simp]: "tree_at h (mark_node_dirty n l s) t fl = tree_at h s t fl"
  by (simp add: tree_at_def alloc_ok_def)

lemma halves_wf:
  assumes "hdr_ok h" "seps_valid h C" "first_sep h lo (fst (hd C))" "bwfk h n lo C hi" "length C = get_max_size h" "C1 = take (length C div 2) C" "C2 = drop (length C div 2) C"
  shows "bwf h (Suc n) (get_min_size h) lo (Some (hord h (fst (hd C2)))) (BNode p C1)" "bwf h (Suc n) (get_min_size h) (Some (hord h (fst (hd C2)))) hi (BNode q C2)"
    "valid_key (ix_cols h) (fst (hd C2))" "C1 \<noteq> []" "C2 \<noteq> []"
proof -
  have len: "length C1 = get_min_size h" "length C2 = get_max_size h - get_min_size h" using assms(5) by (simp_all add: assms(6,7) get_min_size_def)
  have mn: "2 \<le> get_min_size h" "get_min_size h \<le> btree_order h" "get_min_size h \<le> get_max_size h - get_min_size h" "get_max_size h - get_min_size h \<le> btree_order h"
    using assms(1) by (auto simp: hdr_ok_def get_min_size_def get_max_size_def)
  show ne: "C1 \<noteq> []" "C2 \<noteq> []" using len mn by auto
  have C: "C1 @ C2 = C" by (simp add: assms(6,7))
  have k: "bwfk h n lo C1 (Some (hord h (fst (hd C2))))" "bwfk h n (Some (hord h (fst (hd C2)))) C2 hi" using kids_append [OF ne] assms(4) unfolding C [symmetric] by auto
  have v: "seps_valid h C1" "seps_valid h C2" using assms(2) unfolding C [symmetric] by (auto simp: seps_valid_def)
  have "hd C1 = hd C" using ne(1) C [symmetric] by simp
  then show "bwf h (Suc n) (get_min_size h) lo (Some (hord h (fst (hd C2)))) (BNode p C1)" using k(1) v(1) assms(3) len mn unfolding bwf_Suc by simp
  show "bwf h (Suc n) (get_min_size h) (Some (hord h (fst (hd C2)))) hi (BNode q C2)" using k(2) v(2) len mn unfolding bwf_Suc by (simp add: first_sep_def)
  show "valid_key (ix_cols h) (fst (hd C2))" using v(2) ne(2) by (auto simp: seps_valid_def)
qed

lemma insert_into_parent_step:
  assumes "\<not> is_root_page (ix_nodes s old)" "p = nd_parent (ix_nodes s old)" "idx = find_child old (ix_nodes s p)"
    and "s2 = upd_node new (\<lambda>n. n\<lparr>nd_parent := p\<rparr>) (upd_node p (insert_pair (idx + 1) k (child_rid new)) (BumpRoutingEpoch s))"
  shows "insert_into_parent (Suc f) old k new l s =
    (if get_size (ix_nodes s2 p) \<ge> get_max_size (ix_hdr s2) then
       case split p l s2 of (np, s3) \<Rightarrow>
         obind (insert_into_parent f p (get_key (ix_nodes s3 np) 0) np l) (\<lambda>_ s4. (Ret (), mark_node_dirty p l (mark_node_dirty np l s4))) s3
     else (Ret (), mark_node_dirty p l s2))"
  using assms(1) unfolding assms(2-4) insert_into_parent.simps Let_def fetch_node_def by simp

lemma insert_into_parent_ok:
  assumes "hdr_ok h"
    and "hole h fs n m lo hi" "repc (ix_nodes s) fs (bt_page t1)" "rep (ix_nodes s) (top_page fs) t1" "rep (ix_nodes s) par2 t2"
    and "bwf h n (get_min_size h) lo (Some (hord h k)) t1" "bwf h n (get_min_size h) (Some (hord h k)) hi t2" "valid_key (ix_cols h) k"
    and "distinct (tree_pages t1 @ tree_pages t2 @ ctx_pages fs)" "1 \<notin> set (tree_pages t1 @ tree_pages t2 @ ctx_pages fs)"
    and "alloc_ok s (insert 1 (set (tree_pages t1 @ tree_pages t2 @ ctx_pages fs))) fl" "hstat (ix_hdr s) = hstat h"
    and "root_page (ix_hdr s) = (if fs = [] then bt_page t1 else fst (last fs))"
    and "ix_num_pages (ix_hdr s) + int (length fs) + 1 < 2 ^ 31" "length fs < fuel"
  shows "\<exists>t' s' fl'. insert_into_parent fuel (bt_page t1) k (bt_page t2) l s = (Ret (), s') \<and> tree_at h s' t' fl'
    \<and> leaves t' = lefts fs @ leaves t1 @ leaves t2 @ rights fs
    \<and> (\<forall>x \<in> insert 1 (set (tree_pages t1 @ tree_pages t2 @ ctx_pages fs)). link (ix_nodes s' x) = link (ix_nodes s x)) \<and> hdr_fix (ix_hdr s') = hdr_fix (ix_hdr s)
    \<and> ix_num_pages (ix_hdr s') \<le> ix_num_pages (ix_hdr s) + int (length fs) + 1"
  using assms(2-)
proof (induction fs arbitrary: n m lo hi s t1 t2 par2 k fl fuel)
  case Nil
  obtain f where f: "fuel = Suc f" using Nil.prems(14) by (cases fuel) auto
  have "lo = None" "hi = None" using Nil.prems(1) by (auto elim: hole_NilE)
  then show ?case
    using insert_into_root [OF assms(1), of s t1 par2 t2 n k fl f l] Nil.prems by (simp add: f)
next
  case (Cons fr fs)
  obtain p L k0 R where fr: "fr = (p, L, k0, R)" by (cases fr) auto
  obtain f where f: "fuel = Suc f" "length fs < f" using Cons.prems(14) by (cases fuel) auto
  define C where "C = L @ (k0, t1) # (k, t2) # R"
  let ?u = "insert 1 (set (tree_pages t1 @ tree_pages t2 @ ctx_pages (fr # fs)))"
  let ?s0 = "BumpRoutingEpoch s"
  define s2 where "s2 = upd_node (bt_page t2) (\<lambda>n. n\<lparr>nd_parent := p\<rparr>) (upd_node p (insert_pair (length L + 1) k (child_rid (bt_page t2))) ?s0)"
  have r1: "rep (ix_nodes s) p t1" using Cons.prems(3) by (simp add: fr)
  note x = parent_extended [OF assms(1) Cons.prems(1) [unfolded fr] Cons.prems(2) [unfolded fr] r1 Cons.prems(4-7) Cons.prems(8) [unfolded fr] s2_def _ C_def, simplified]
  obtain m' lo' hi' where ho: "hole h fs (Suc n) m' lo' hi'" "m' \<le> length C" "length C \<le> Suc (btree_order h)" "seps_valid h C" "first_sep h lo' (fst (hd C))" "bwfk h n lo' C hi'"
    using x(1) by blast
  have pu: "p \<in> ?u" "p \<noteq> IX_NO_PAGE" using Cons.prems(10) by (auto simp: fr alloc_ok_def ix_consts)
  have notroot: "\<not> is_root_page (ix_nodes s (bt_page t1))" using r1 pu(2) by (cases t1) (auto simp: is_root_page_def ix_consts)
  have par: "nd_parent (ix_nodes s (bt_page t1)) = p" using r1 by (cases t1) auto
  have "bt_page t1 \<notin> set (kids_pages L)" using Cons.prems(8) bt_page_in [of t1] by (auto simp: fr)
  then have "bt_page t1 \<notin> bt_page ` snd ` set L" using roots_sub by blast
  then have idx: "find_child (bt_page t1) (ix_nodes s p) = length L"
    using find_child_frame [of "ix_nodes s p" L k0 "bt_page t1" "map kid_pair R"] Cons.prems(2) by (simp add: fr)
  have a2: "alloc_ok s2 ?u fl" by (rule alloc_frame [OF Cons.prems(10)]) (use x(8) in simp, simp_all add: s2_def)
  have h2: "ix_hdr s2 = ix_hdr s" by (simp add: s2_def)
  have mx: "get_max_size (ix_hdr s2) = Suc (btree_order h)" using hstatD [OF Cons.prems(11)] by (simp add: h2 get_max_size_def)
  have sz: "get_size (ix_nodes s2 p) = length C" using x(3) by (simp add: get_size_def)
  have lv: "kids_leaves C = kids_leaves L @ leaves t1 @ leaves t2 @ kids_leaves R" by (simp add: C_def)
  have pg: "set (tree_pages t1 @ tree_pages t2 @ ctx_pages (fr # fs)) = set (p # kids_pages C @ ctx_pages fs)" by (auto simp: C_def fr)
  have dC: "distinct (p # kids_pages C @ ctx_pages fs)" using Cons.prems(8) by (auto simp: C_def fr)
  have step: "insert_into_parent fuel (bt_page t1) k (bt_page t2) l s =
      (if length C \<ge> Suc (btree_order h) then
         case split p l s2 of (np, s3) \<Rightarrow>
           obind (insert_into_parent f p (get_key (ix_nodes s3 np) 0) np l) (\<lambda>_ s4. (Ret (), mark_node_dirty p l (mark_node_dirty np l s4))) s3
       else (Ret (), mark_node_dirty p l s2))"
    using insert_into_parent_step [OF notroot par [symmetric] idx [symmetric] s2_def, of f l] unfolding f(1) sz mx .
  show ?case
  proof (cases "length C \<ge> Suc (btree_order h)")
    case False
    let ?t = "plug fs (BNode p C)" and ?s = "mark_node_dirty p l s2"
    have "bwf h (Suc n) m' lo' hi' (BNode p C)" unfolding bwf_Suc using ho False by simp
    then have "root_ok h ?t" unfolding root_ok_def using bwf_plug [OF ho(1)] by blast
    moreover have "rep (ix_nodes ?s) IX_NO_PAGE ?t" unfolding rep_plug using x(2-6) by simp
    moreover have m: "mset (tree_pages ?t) = mset (p # kids_pages C @ ctx_pages fs)" using mset_pages_plug [of fs "BNode p C"] by simp
    then have "distinct (tree_pages ?t)" "set (tree_pages ?t) = set (p # kids_pages C @ ctx_pages fs)"
      using dC mset_eq_imp_distinct_iff [OF m] mset_eq_setD [OF m] by blast+
    moreover have "alloc_ok ?s (insert 1 (set (p # kids_pages C @ ctx_pages fs))) fl"
      using a2 unfolding pg by (rule alloc_frame) simp_all
    moreover have "root_page (ix_hdr ?s) = bt_page ?t" using Cons.prems(12) by (simp add: h2 bt_page_plug fr)
    ultimately have "tree_at h ?s ?t fl" using Cons.prems(9) unfolding tree_at_def pg by metis
    moreover have "leaves ?t = lefts (fr # fs) @ leaves t1 @ leaves t2 @ rights (fr # fs)" by (simp add: leaves_plug fr lv)
    ultimately show ?thesis using False step x(7) by (intro exI [of _ ?t] exI [of _ ?s] exI [of _ fl]) (simp add: h2)
  next
    case True
    then have lC: "length C = get_max_size h" using ho(3) by (simp add: get_max_size_def)
    obtain q s3 where sp: "split p l s2 = (q, s3)" by fastforce
    define C1 where "C1 = take (length C div 2) C"
    define C2 where "C2 = drop (length C div 2) C"
    have C: "C1 @ C2 = C" by (simp add: C1_def C2_def)
    note w = halves_wf [OF assms(1) ho(4-6) lC C1_def C2_def]
    have ku: "set (kids_pages C) \<subseteq> ?u" "p \<notin> set (kids_pages C)" using dC unfolding pg by auto
    obtain fl3 where z: "alloc_ok s3 (insert q ?u) fl3" "q \<notin> ?u" "2 \<le> q"
        "core (ix_nodes s3 q) = (False, top_page fs, map kid_pair C2)" "core (ix_nodes s3 p) = (False, top_page fs, map kid_pair C1)"
        "\<And>x. x \<noteq> p \<Longrightarrow> x \<noteq> q \<Longrightarrow> core (ix_nodes s3 x) = (if x \<in> bt_page ` snd ` set C2 then core ((ix_nodes s2 x)\<lparr>nd_parent := q\<rparr>) else core (ix_nodes s2 x))"
        "\<forall>x \<in> ?u. link (ix_nodes s3 x) = link (ix_nodes s2 x)" "hdr_rest (ix_hdr s3) = hdr_rest (ix_hdr s2)" "ix_num_pages (ix_hdr s3) \<le> ix_num_pages (ix_hdr s) + 1"
      using split_internal [OF a2 _ sp pu(1) x(4,3) ku C1_def C2_def] Cons.prems(13) unfolding x(5) h2 by auto
    have q: "q \<noteq> p" "q \<notin> set (kids_pages C)" "q \<notin> set (ctx_pages fs)" using z(2) unfolding pg by auto
    have dC': "distinct (p # kids_pages (C1 @ C2))" using dC unfolding C by auto
    note r = halves_rep [OF dC' q(1) q(2) [folded C] x(6) [folded C] z(4,5,6)]
    have rc: "repc (ix_nodes s3) fs (bt_page (BNode p C1))"
    proof -
      have "bt_page ` snd ` set C2 \<subseteq> set (kids_pages C)" using roots_sub [of C2] unfolding C [symmetric] by auto
      moreover have "set (kids_pages C) \<inter> set (ctx_pages fs) = {}" "p \<notin> set (ctx_pages fs)" using dC by auto
      ultimately have "x \<notin> bt_page ` snd ` set C2 \<and> x \<noteq> p \<and> x \<noteq> q" if "x \<in> set (ctx_pages fs)" for x using that q(3) by blast
      then have "core (ix_nodes s3 x) = core (ix_nodes s2 x)" if "x \<in> set (ctx_pages fs)" for x using that z(6) [of x] by simp
      then show ?thesis using x(2) repc_cong [of fs "ix_nodes s3" "ix_nodes s2" p] by simp
    qed
    let ?t1 = "BNode p C1" and ?t2 = "BNode q C2"
    have kp: "set (kids_pages C1) \<union> set (kids_pages C2) = set (kids_pages C)" unfolding C [symmetric] by simp
    have u': "insert 1 (set (tree_pages ?t1 @ tree_pages ?t2 @ ctx_pages fs)) = insert q ?u" unfolding pg using kp by auto
    have "\<exists>t' s' fl'. insert_into_parent f (bt_page ?t1) (fst (hd C2)) (bt_page ?t2) l s3 = (Ret (), s') \<and> tree_at h s' t' fl'
      \<and> leaves t' = lefts fs @ leaves ?t1 @ leaves ?t2 @ rights fs
      \<and> (\<forall>x \<in> insert 1 (set (tree_pages ?t1 @ tree_pages ?t2 @ ctx_pages fs)). link (ix_nodes s' x) = link (ix_nodes s3 x)) \<and> hdr_fix (ix_hdr s') = hdr_fix (ix_hdr s3)
      \<and> ix_num_pages (ix_hdr s') \<le> ix_num_pages (ix_hdr s3) + int (length fs) + 1"
    proof (rule Cons.IH [OF ho(1) rc r w(1-3)])
      show "distinct (tree_pages ?t1 @ tree_pages ?t2 @ ctx_pages fs)" using dC' dC q unfolding C [symmetric] by auto
      show "1 \<notin> set (tree_pages ?t1 @ tree_pages ?t2 @ ctx_pages fs)" using Cons.prems(9) z(3) kp unfolding pg by auto
      show "alloc_ok s3 (insert 1 (set (tree_pages ?t1 @ tree_pages ?t2 @ ctx_pages fs))) fl3" unfolding u' by (rule z(1))
      show "hstat (ix_hdr s3) = hstat h" "root_page (ix_hdr s3) = (if fs = [] then bt_page ?t1 else fst (last fs))"
        using z(8) Cons.prems(11,12) by (auto simp: hdr_rest_def hstat_def h2 fr)
      show "ix_num_pages (ix_hdr s3) + int (length fs) + 1 < 2 ^ 31" using z(9) Cons.prems(13) by simp
    qed (use f(2) in simp_all)
    then obtain t' s' fl' where g: "insert_into_parent f p (fst (hd C2)) q l s3 = (Ret (), s')" "tree_at h s' t' fl'" "leaves t' = lefts fs @ kids_leaves C @ rights fs"
        "\<forall>x \<in> insert q ?u. link (ix_nodes s' x) = link (ix_nodes s3 x)" "hdr_fix (ix_hdr s') = hdr_fix (ix_hdr s3)"
        "ix_num_pages (ix_hdr s') \<le> ix_num_pages (ix_hdr s3) + int (length fs) + 1"
      unfolding u' unfolding C [symmetric] by auto
    have "get_key (ix_nodes s3 q) 0 = fst (hd C2)" using z(4) w(5) by (cases C2) (auto simp: core_def get_key_def kid_pair_def)
    then have "insert_into_parent fuel (bt_page t1) k (bt_page t2) l s = (Ret (), mark_node_dirty p l (mark_node_dirty q l s'))"
      using step True sp g(1) by simp
    moreover have "\<forall>x \<in> ?u. link (ix_nodes s' x) = link (ix_nodes s x)" using g(4) z(7) x(7) by auto
    moreover have "leaves t' = lefts (fr # fs) @ leaves t1 @ leaves t2 @ rights (fr # fs)" using g(3) lv by (simp add: fr)
    ultimately show ?thesis using g(2,5,6) z(8,9)
      by (intro exI [of _ t'] exI [of _ "mark_node_dirty p l (mark_node_dirty q l s')"] exI [of _ fl']) (auto simp: hdr_fix_def hdr_rest_def h2)
  qed
qed

end
