(* ===== verification/Rmdb_Index_Ops.thy ===== *)
theory Rmdb_Index_Ops
  imports Rmdb_Index_Insert
begin

text \<open>
  The invariant of an index and its operations. \<open>ix_inv s t\<close> says that the nodes of the index form the tree \<open>t\<close>, that the leaves
  are linked in both directions through the header page, in the order of the tree, and that the free pages are a list apart. The abstraction of an index is the
  sorted list of the entries of its leaves; lookup and insertion refine operations on that list.
\<close>

fun linked :: "(int \<Rightarrow> ix_node) \<Rightarrow> int list \<Rightarrow> bool" where
  "linked nd (a # b # xs) \<longleftrightarrow> nd_next_leaf (nd a) = b \<and> nd_prev_leaf (nd b) = a \<and> linked nd (b # xs)"
| "linked nd xs \<longleftrightarrow> True"

definition chain_ok :: "ix_index \<Rightarrow> int list \<Rightarrow> bool" where
  "chain_ok s ps \<longleftrightarrow> linked (ix_nodes s) (1 # ps @ [1]) \<and> first_leaf (ix_hdr s) = hd ps \<and> last_leaf (ix_hdr s) = last ps"

definition ix_inv :: "ix_index \<Rightarrow> bt \<Rightarrow> bool" where
  "ix_inv s t \<longleftrightarrow> hdr_ok (ix_hdr s) \<and> (\<exists>fl. tree_at (ix_hdr s) s t fl) \<and> chain_ok s (map fst (leaves t))"

lemma linked_append: "linked nd (xs @ a # ys) \<longleftrightarrow> linked nd (xs @ [a]) \<and> linked nd (a # ys)"
proof (induction xs)
  case (Cons x xs)
  then show ?case by (cases xs) auto
qed simp

lemma linked_cong:
  "\<forall>x \<in> set (butlast xs). nd_next_leaf (nd' x) = nd_next_leaf (nd x) \<Longrightarrow> \<forall>x \<in> set (tl xs). nd_prev_leaf (nd' x) = nd_prev_leaf (nd x) \<Longrightarrow> linked nd' xs = linked nd xs"
  by (induction nd xs rule: linked.induct) (auto split: if_splits)

text \<open>The parts of the list up to \<open>p\<close> and from \<open>r\<close> on when only the pointers between them change.\<close>

lemma linked_sides:
  assumes "linked nd (xs @ [p])" "linked nd (r # ys)" "p \<notin> set xs" "p \<notin> set (butlast (r # ys))" "r \<notin> set (tl (xs @ [p]))" "r \<notin> set ys"
    and "\<And>x. x \<noteq> p \<Longrightarrow> x \<in> set (xs @ p # r # ys) \<Longrightarrow> nd_next_leaf (nd' x) = nd_next_leaf (nd x)"
    and "\<And>x. x \<noteq> r \<Longrightarrow> x \<in> set (xs @ p # r # ys) \<Longrightarrow> nd_prev_leaf (nd' x) = nd_prev_leaf (nd x)"
  shows "linked nd' (xs @ [p])" "linked nd' (r # ys)"
proof -
  show "linked nd' (xs @ [p])"
  proof (subst linked_cong [of _ nd' nd])
    show "\<forall>x \<in> set (butlast (xs @ [p])). nd_next_leaf (nd' x) = nd_next_leaf (nd x)"
    proof
      fix x assume "x \<in> set (butlast (xs @ [p]))"
      then have "x \<in> set xs" "x \<noteq> p" using assms(3) by auto
      then show "nd_next_leaf (nd' x) = nd_next_leaf (nd x)" by (intro assms(7)) auto
    qed
    show "\<forall>x \<in> set (tl (xs @ [p])). nd_prev_leaf (nd' x) = nd_prev_leaf (nd x)"
    proof
      fix x assume x: "x \<in> set (tl (xs @ [p]))"
      then have "x \<in> set (xs @ p # r # ys)" by (cases xs) auto
      moreover have "x \<noteq> r" using x assms(5) by blast
      ultimately show "nd_prev_leaf (nd' x) = nd_prev_leaf (nd x)" by (intro assms(8))
    qed
  qed (rule assms(1))
  show "linked nd' (r # ys)"
  proof (subst linked_cong [of _ nd' nd])
    show "\<forall>x \<in> set (butlast (r # ys)). nd_next_leaf (nd' x) = nd_next_leaf (nd x)" using assms(4,7) in_set_butlastD by fastforce
    show "\<forall>x \<in> set (tl (r # ys)). nd_prev_leaf (nd' x) = nd_prev_leaf (nd x)"
    proof
      fix x assume "x \<in> set (tl (r # ys))"
      then show "nd_prev_leaf (nd' x) = nd_prev_leaf (nd x)" using assms(6) by (intro assms(8)) auto
    qed
  qed (rule assms(2))
qed

text \<open>A new leaf behind \<open>p\<close>, and a leaf taken out behind \<open>p\<close>.\<close>

lemma linked_insert:
  assumes "linked nd (xs @ p # r # ys)" "distinct (xs @ [p])" "p \<notin> set (butlast (r # ys))" "r \<notin> set (tl (xs @ [p]))" "r \<notin> set ys" "q \<notin> set (xs @ p # r # ys)"
    and "link (nd' q) = (p, r)" "nd_next_leaf (nd' p) = q" "nd_prev_leaf (nd' r) = q"
    and "\<And>x. x \<noteq> p \<Longrightarrow> x \<in> set (xs @ p # r # ys) \<Longrightarrow> nd_next_leaf (nd' x) = nd_next_leaf (nd x)"
    and "\<And>x. x \<noteq> r \<Longrightarrow> x \<in> set (xs @ p # r # ys) \<Longrightarrow> nd_prev_leaf (nd' x) = nd_prev_leaf (nd x)"
  shows "linked nd' (xs @ p # q # r # ys)"
proof -
  have "linked nd (xs @ [p])" "linked nd (r # ys)" "p \<notin> set xs" using assms(1,2) linked_append [of nd xs p "r # ys"] by auto
  from linked_sides [OF this assms(3-5,10,11)] show ?thesis using assms(7-9) linked_append [of nd' xs p "q # r # ys"] by (simp add: link_def)
qed

lemma linked_remove:
  assumes "linked nd (xs @ p # q # r # ys)" "p \<notin> set xs" "p \<notin> set (butlast (r # ys))" "r \<notin> set (tl (xs @ [p]))" "r \<notin> set ys"
    and "nd_next_leaf (nd' p) = r" "nd_prev_leaf (nd' r) = p"
    and "\<And>x. x \<noteq> p \<Longrightarrow> x \<in> set (xs @ p # r # ys) \<Longrightarrow> nd_next_leaf (nd' x) = nd_next_leaf (nd x)"
    and "\<And>x. x \<noteq> r \<Longrightarrow> x \<in> set (xs @ p # r # ys) \<Longrightarrow> nd_prev_leaf (nd' x) = nd_prev_leaf (nd x)"
  shows "linked nd' (xs @ p # r # ys)"
proof -
  have "linked nd (xs @ [p])" "linked nd (r # ys)" using assms(1) linked_append [of nd xs p "q # r # ys"] by auto
  from linked_sides [OF this assms(2-5,8,9)] show ?thesis using assms(6,7) linked_append [of nd' xs p "r # ys"] by simp
qed

subsection \<open>Order of the entries\<close>

lemma entries_plug: "entries (plug fs (BLeaf p es)) = concat (map snd (lefts fs)) @ es @ concat (map snd (rights fs))"
  by (simp add: entries_def leaves_plug)

abbreviation kids_entries :: "(byte list \<times> bt) list \<Rightarrow> ix_pair list" where
  "kids_entries ts \<equiv> concat (map (\<lambda>kt. entries (snd kt)) ts)"

lemma entries_BNode: "entries (BNode p ts) = kids_entries ts" "concat (map snd (kids_leaves ts)) = kids_entries ts"
  by (induction ts) (simp_all add: entries_def)

definition in_bounds :: "ix_file_hdr \<Rightarrow> int option \<Rightarrow> int option \<Rightarrow> ix_pair list \<Rightarrow> bool" where
  "in_bounds h lo hi es \<longleftrightarrow> keys_valid (ix_cols h) es \<and> node_sorted (ix_cols h) es \<and> (\<forall>e \<in> set es. ge_lo lo (hord h (fst e)) \<and> lt_hi hi (hord h (fst e)))"

lemma in_bounds_append:
  assumes "in_bounds h lo (Some x) xs" "in_bounds h (Some x) hi ys" "gap lo (Some x)" "gap (Some x) hi"
  shows "in_bounds h lo hi (xs @ ys)"
proof -
  have "hord h (fst e) < x" "ge_lo lo (hord h (fst e))" if "e \<in> set xs" for e using assms(1) that by (auto simp: in_bounds_def lt_hi_def)
  moreover have "x \<le> hord h (fst e)" "lt_hi hi (hord h (fst e))" if "e \<in> set ys" for e using assms(2) that by (auto simp: in_bounds_def ge_lo_def)
  moreover have "lt_hi hi (hord h (fst e))" if "e \<in> set xs" for e
    using assms(4) calculation(1) [OF that] by (force simp: gap_def lt_hi_def ge_lo_def split: option.splits)
  moreover have "ge_lo lo (hord h (fst e))" if "e \<in> set ys" for e
    using assms(3) calculation(3) [OF that] by (force simp: gap_def lt_hi_def ge_lo_def split: option.splits)
  moreover have "hord h (fst a) < hord h (fst b)" if "a \<in> set xs" "b \<in> set ys" for a b using calculation(1) [OF that(1)] calculation(3) [OF that(2)] by simp
  ultimately show ?thesis using assms(1,2) unfolding in_bounds_def node_sorted_def keys_valid_def sorted_wrt_append by auto
qed

lemma kids_in_bounds:
  assumes "kids h P lo ts hi" "\<And>lo hi kt. kt \<in> set ts \<Longrightarrow> P lo hi (snd kt) \<Longrightarrow> gap lo hi" "\<And>lo hi kt. kt \<in> set ts \<Longrightarrow> P lo hi (snd kt) \<Longrightarrow> in_bounds h lo hi (entries (snd kt))"
  shows "in_bounds h lo hi (kids_entries ts)"
  using assms
proof (induction h P lo ts hi rule: kids.induct)
  case (3 h P lo kt kt' ts hi)
  let ?x = "hord h (fst kt')"
  have k: "P lo (Some ?x) (snd kt)" "kids h P (Some ?x) (kt' # ts) hi" using 3(2) by simp_all
  have g: "gap lo hi" if "kt1 \<in> set (kt' # ts)" "P lo hi (snd kt1)" for lo hi kt1 using that by (intro 3(3)) auto
  have b: "in_bounds h lo hi (entries (snd kt1))" if "kt1 \<in> set (kt' # ts)" "P lo hi (snd kt1)" for lo hi kt1 using that by (intro 3(4)) auto
  have "in_bounds h (Some ?x) hi (kids_entries (kt' # ts))" by (rule 3(1) [OF k(2) g b])
  moreover have "in_bounds h lo (Some ?x) (entries (snd kt))" "gap lo (Some ?x)" using k(1) by (auto intro!: 3(3,4) [of kt])
  moreover have "gap (Some ?x) hi" using kids_gap [OF k(2) g] by simp
  ultimately show ?case using in_bounds_append by simp
qed auto

lemma bwf_in_bounds: "bwf h n m lo hi t \<Longrightarrow> hdr_ok h \<Longrightarrow> in_bounds h lo hi (entries t)"
proof (induction n arbitrary: m lo hi t)
  case 0
  then show ?case by (cases t) (auto simp: leaf_wf_def in_bounds_def entries_def)
next
  case (Suc n)
  then obtain p ts where t: "t = BNode p ts" "bwfk h n lo ts hi" by (cases t) auto
  have "0 < get_min_size h" using Suc.prems(2) wf_pos_min by (fastforce simp: hdr_ok_def)
  then show ?case unfolding t(1) entries_BNode using kids_in_bounds [OF t(2)] Suc.IH bwf_gap Suc.prems(2) by blast
qed

text \<open>The entries beside a position are outside of its bounds.\<close>

lemma bwfk_in_bounds: "bwfk h n lo ts hi \<Longrightarrow> hdr_ok h \<Longrightarrow> in_bounds h lo hi (kids_entries ts)"
proof (rule kids_in_bounds)
  assume h: "hdr_ok h"
  have "0 < get_min_size h" using h wf_pos_min by (fastforce simp: hdr_ok_def)
  then show "gap lo hi" "in_bounds h lo hi (entries (snd kt))" if "bwf h n (get_min_size h) lo hi (snd kt)" for lo hi kt
    using that bwf_gap bwf_in_bounds h by blast+
qed

lemma hole_sides:
  assumes "hole h fs n m lo hi" "hdr_ok h"
  shows "(\<forall>e \<in> set (concat (map snd (lefts fs))). \<exists>l. lo = Some l \<and> hord h (fst e) < l) \<and> (\<forall>e \<in> set (concat (map snd (rights fs))). \<exists>u. hi = Some u \<and> u \<le> hord h (fst e))"
  using assms
proof (induction rule: hole.induct)
  case (Root n)
  then show ?case by simp
next
  case (Down fs n m lo hi L R k lo' hi' p)
  note ih = Down.IH [OF Down.prems]
  have "\<exists>l. lo' = Some l \<and> hord h (fst e) < l" if e: "e \<in> set (concat (map snd (lefts fs)) @ kids_entries L)" for e
  proof (cases "L = []")
    case True
    then show ?thesis using e ih Down.hyps(10) by auto
  next
    case False
    note w = Down.hyps(8) [OF False]
    have "hord h (fst e) < hord h k" if "e \<in> set (kids_entries L)" using bwfk_in_bounds [OF w Down.prems] that unfolding in_bounds_def lt_hi_def by auto
    moreover have "hord h (fst e) < hord h k" if "e \<in> set (concat (map snd (lefts fs)))"
    proof -
      obtain l where "lo = Some l" "hord h (fst e) < l" using ih \<open>e \<in> set (concat (map snd (lefts fs)))\<close> by blast
      then show ?thesis using bwfk_gap(1) [OF w Down.prems] gap_less [of l] by fastforce
    qed
    ultimately show ?thesis using e False Down.hyps(10) by auto
  qed
  moreover have "\<exists>u. hi' = Some u \<and> u \<le> hord h (fst e)" if e: "e \<in> set (kids_entries R @ concat (map snd (rights fs)))" for e
  proof (cases "R = []")
    case True
    then show ?thesis using e ih Down.hyps(11) by auto
  next
    case False
    note w = Down.hyps(9) [OF False]
    have "hord h (fst (hd R)) \<le> hord h (fst e)" if "e \<in> set (kids_entries R)" using bwfk_in_bounds [OF w Down.prems] that unfolding in_bounds_def ge_lo_def by auto
    moreover have "hord h (fst (hd R)) \<le> hord h (fst e)" if e1: "e \<in> set (concat (map snd (rights fs)))"
    proof -
      obtain u where "hi = Some u" "u \<le> hord h (fst e)" using bspec [OF conjunct2 [OF ih] e1] by auto
      then show ?thesis using bwfk_gap(1) [OF w Down.prems] gap_less [of _ u] by fastforce
    qed
    ultimately show ?thesis using e False Down.hyps(11) by auto
  qed
  ultimately show ?case by (simp add: entries_BNode)
qed

subsection \<open>The position of a key\<close>

lemma kids_hstat: "ix_cols h = ix_cols h' \<Longrightarrow> P = P' \<Longrightarrow> kids h P lo ts hi = kids h' P' lo ts hi"
  by (induction h P lo ts hi rule: kids.induct) auto

lemma bwf_hstat:
  assumes "hstat h = hstat h'"
  shows "bwf h n m lo hi t = bwf h' n m lo hi t"
proof (induction n arbitrary: m lo hi t)
  case 0
  then show ?case using hstatD [OF assms] by (cases t) (simp_all add: leaf_wf_def)
next
  case (Suc n)
  have "bwf h n = bwf h' n" by (intro ext) (rule Suc.IH)
  then show ?case using hstatD [OF assms] kids_hstat [of h h'] by (cases t; cases lo) (simp_all add: seps_valid_def first_sep_def)
qed

lemma root_ok_hstat: "hstat h = hstat h' \<Longrightarrow> root_ok h t = root_ok h' t"
  by (simp add: root_ok_def bwf_hstat [of h h'])

lemma tree_at_hstat: "hstat h = hstat h' \<Longrightarrow> tree_at h s t fl = tree_at h' s t fl"
  by (simp add: tree_at_def root_ok_hstat [of h h'])

lemma pages_bound:
  assumes "tree_at h s t fl"
  shows "int (length (tree_pages t)) + 2 \<le> ix_num_pages (ix_hdr s)" "3 \<le> ix_num_pages (ix_hdr s)"
proof -
  have t: "distinct (tree_pages t)" "1 \<notin> set (tree_pages t)" "set (tree_pages t) \<subseteq> {1..<ix_num_pages (ix_hdr s)}" "3 \<le> ix_num_pages (ix_hdr s)"
    using assms by (auto simp: tree_at_def alloc_ok_def)
  have "set (tree_pages t) \<subseteq> {2..<ix_num_pages (ix_hdr s)}"
  proof
    fix x assume "x \<in> set (tree_pages t)"
    then have "x \<noteq> 1" "1 \<le> x" "x < ix_num_pages (ix_hdr s)" using t(2,3) by auto
    then show "x \<in> {2..<ix_num_pages (ix_hdr s)}" by simp
  qed
  then have "card (set (tree_pages t)) \<le> card {2..<ix_num_pages (ix_hdr s)}" by (intro card_mono) auto
  then show "int (length (tree_pages t)) + 2 \<le> ix_num_pages (ix_hdr s)" "3 \<le> ix_num_pages (ix_hdr s)" using t(1,4) by (simp_all add: distinct_card)
qed

definition at_key :: "ix_index \<Rightarrow> bt \<Rightarrow> byte list \<Rightarrow> frame list \<Rightarrow> int \<Rightarrow> ix_pair list \<Rightarrow> nat \<Rightarrow> int option \<Rightarrow> int option \<Rightarrow> bool" where
  "at_key s t key fs p es m lo hi \<longleftrightarrow> find_leaf_page key False s = Ret p \<and> t = plug fs (BLeaf p es) \<and> hole (ix_hdr s) fs 0 m lo hi \<and> leaf_wf (ix_hdr s) m lo hi es
     \<and> ge_lo lo (key_ord (cols s) key) \<and> lt_hi hi (key_ord (cols s) key) \<and> int (length fs) + 3 \<le> ix_num_pages (ix_hdr s)"

lemma key_position:
  assumes "ix_inv s t" "valid_key (cols s) key"
  obtains fs p es m lo hi where "at_key s t key fs p es m lo hi"
proof -
  let ?h = "ix_hdr s"
  obtain fl where ta: "tree_at ?h s t fl" and ho: "hdr_ok ?h" using assms(1) by (auto simp: ix_inv_def)
  obtain N where N: "bwf ?h N (root_min N) None None t" using ta by (auto simp: tree_at_def root_ok_def)
  have "int N + 3 \<le> ix_num_pages ?h" using bwf_height [OF N] pages_bound(1) [OF ta] by linarith
  then have f: "N < nat (ix_num_pages ?h)" "int N + 3 \<le> ix_num_pages ?h" by simp_all
  have "rep (ix_nodes s) IX_NO_PAGE t" "root_page ?h = bt_page t" using ta by (simp_all add: tree_at_def)
  then obtain fs' p es m' lo' hi' where "find_leaf_page key False s = Ret p" "t = plug fs' (BLeaf p es)" "length fs' = N" "hole ?h fs' 0 m' lo' hi'"
      "leaf_wf ?h m' lo' hi' es" "ge_lo lo' (hord ?h key)" "lt_hi hi' (hord ?h key)"
    using find_leaf_descent [OF ho refl assms(2) hole.Root N _ _ _ f(1), of IX_NO_PAGE] by (auto simp: find_leaf_page_def ge_lo_def lt_hi_def)
  then show ?thesis using that f(2) unfolding at_key_def by blast
qed

lemma at_key_sides:
  assumes "at_key s t key fs p es m lo hi" "hdr_ok (ix_hdr s)"
  shows "\<And>e. e \<in> set (concat (map snd (lefts fs))) \<Longrightarrow> key_ord (cols s) (fst e) < key_ord (cols s) key"
    "\<And>e. e \<in> set (concat (map snd (rights fs))) \<Longrightarrow> key_ord (cols s) key < key_ord (cols s) (fst e)"
    "entries t = concat (map snd (lefts fs)) @ es @ concat (map snd (rights fs))"
  using hole_sides [of "ix_hdr s" fs 0 m lo hi] assms unfolding at_key_def
  by (auto simp: ge_lo_def lt_hi_def entries_plug dest!: bspec)

text \<open>Operations on the entries of the leaf are operations on all entries.\<close>

lemma sides_pairs:
  assumes "\<And>e. e \<in> set A \<Longrightarrow> key_ord cs (fst e) < key_ord cs key" "\<And>e. e \<in> set B \<Longrightarrow> key_ord cs key < key_ord cs (fst e)"
  shows "pairs_insert cs key v (A @ es @ B) = A @ pairs_insert cs key v es @ B" "has_key cs key (A @ es @ B) = has_key cs key es"
    "pairs_lookup cs key (A @ es @ B) = pairs_lookup cs key es" "pairs_remove cs key (A @ es @ B) = A @ pairs_remove cs key es @ B"
proof -
  let ?P = "\<lambda>p. key_ord cs (fst p) < key_ord cs key"
  have B: "takeWhile ?P B = []" "dropWhile ?P B = B" using assms(2) by (cases B; fastforce)+
  have tB: "takeWhile ?P (es @ B) = takeWhile ?P es" "dropWhile ?P (es @ B) = dropWhile ?P es @ B" by (induction es) (simp_all add: B)
  have "takeWhile ?P (A @ es @ B) = A @ takeWhile ?P es" "dropWhile ?P (A @ es @ B) = dropWhile ?P es @ B"
    using assms(1) tB by simp_all
  then show "pairs_insert cs key v (A @ es @ B) = A @ pairs_insert cs key v es @ B" by (simp add: pairs_insert_def)
  show "has_key cs key (A @ es @ B) = has_key cs key es" using assms by (fastforce simp: has_key_def)
  have "filter (\<lambda>p. key_ord cs (fst p) \<noteq> key_ord cs key) A = A" "filter (\<lambda>p. key_ord cs (fst p) \<noteq> key_ord cs key) B = B"
    using assms by (fastforce simp: filter_id_conv)+
  then show "pairs_remove cs key (A @ es @ B) = A @ pairs_remove cs key es @ B" by (simp add: pairs_remove_def)
  have "List.find (\<lambda>p. key_ord cs (fst p) = key_ord cs key) B = None" using assms(2) by (fastforce simp: find_None_iff)
  then have fB: "List.find (\<lambda>p. key_ord cs (fst p) = key_ord cs key) (es @ B) = List.find (\<lambda>p. key_ord cs (fst p) = key_ord cs key) es"
    by (induction es) auto
  have "List.find (\<lambda>p. key_ord cs (fst p) = key_ord cs key) (A @ es @ B) = List.find (\<lambda>p. key_ord cs (fst p) = key_ord cs key) (es @ B)"
    using assms(1) by (induction A) fastforce+
  then show "pairs_lookup cs key (A @ es @ B) = pairs_lookup cs key es" using fB by (simp add: pairs_lookup_def)
qed

lemma at_key_pairs:
  assumes "at_key s t key fs p es m lo hi" "hdr_ok (ix_hdr s)"
  shows "pairs_insert (cols s) key v (entries t) = concat (map snd (lefts fs)) @ pairs_insert (cols s) key v es @ concat (map snd (rights fs))"
    "has_key (cols s) key (entries t) = has_key (cols s) key es" "pairs_lookup (cols s) key (entries t) = pairs_lookup (cols s) key es"
    "pairs_remove (cols s) key (entries t) = concat (map snd (lefts fs)) @ pairs_remove (cols s) key es @ concat (map snd (rights fs))"
  unfolding at_key_sides(3) [OF assms] using sides_pairs [OF at_key_sides(1,2) [OF assms]] by blast+

subsection \<open>Changing one leaf\<close>

lemma ix_inv_cong: "ix_nodes s' = ix_nodes s \<Longrightarrow> ix_hdr s' = ix_hdr s \<Longrightarrow> ix_fd2pageno s' = ix_fd2pageno s \<Longrightarrow> ix_inv s' t = ix_inv s t"
  by (simp add: ix_inv_def tree_at_def alloc_ok_def chain_ok_def)

lemma kids_leaf_pages_sub: "fst ` set (kids_leaves ts) \<subseteq> set (kids_pages ts)"
proof (induction ts)
  case (Cons kt ts)
  have "fst ` set (kids_leaves (kt # ts)) = fst ` set (leaves (snd kt)) \<union> fst ` set (kids_leaves ts)" by (simp add: image_Un)
  also have "\<dots> \<subseteq> set (tree_pages (snd kt)) \<union> set (kids_pages ts)" using Cons leaf_pages_sub [of "snd kt"] by blast
  finally show ?case by simp
qed simp

lemma leaf_pages_distinct: "distinct (tree_pages t) \<Longrightarrow> distinct (map fst (leaves t))"
proof (induction t rule: leaves.induct)
  case (2 p ts)
  have "distinct (kids_pages ts)" using 2(2) by simp
  then have "distinct (map fst (kids_leaves ts))" using 2(1)
  proof (induction ts)
    case (Cons kt ts)
    have d: "distinct (tree_pages (snd kt))" "distinct (kids_pages ts)" "set (tree_pages (snd kt)) \<inter> set (kids_pages ts) = {}" using Cons.prems(1) by auto
    have "set (map fst (leaves (snd kt))) \<inter> set (map fst (kids_leaves ts)) = {}" using leaf_pages_sub [of "snd kt"] kids_leaf_pages_sub [of ts] d(3) unfolding set_map by blast
    moreover have "distinct (map fst (kids_leaves ts))" using Cons.IH [OF d(2)] Cons.prems(2) by simp
    moreover have "distinct (map fst (leaves (snd kt)))" using Cons.prems(2) [of kt] d(1) by simp
    ultimately show ?case unfolding list.map concat.simps map_append distinct_append by blast
  qed simp
  then show ?case by simp
qed simp

lemma pages_plug_leaf:
  "set (tree_pages (plug fs (BLeaf p es))) = insert p (set (ctx_pages fs))" "distinct (tree_pages (plug fs (BLeaf p es))) \<longleftrightarrow> p \<notin> set (ctx_pages fs) \<and> distinct (ctx_pages fs)"
proof -
  have m: "mset (tree_pages (plug fs (BLeaf p es))) = mset (p # ctx_pages fs)" using mset_pages_plug [of fs "BLeaf p es"] by simp
  show "set (tree_pages (plug fs (BLeaf p es))) = insert p (set (ctx_pages fs))" using mset_eq_setD [OF m] by simp
  show "distinct (tree_pages (plug fs (BLeaf p es))) \<longleftrightarrow> p \<notin> set (ctx_pages fs) \<and> distinct (ctx_pages fs)" using mset_eq_imp_distinct_iff [OF m] by simp
qed

lemma leaf_replace:
  assumes "ix_inv s (plug fs (BLeaf p es))" "hole (ix_hdr s) fs 0 m lo hi" "leaf_wf (ix_hdr s) m lo hi es'"
  shows "ix_inv (upd_node p (\<lambda>n. n\<lparr>nd_pairs := es'\<rparr>) s) (plug fs (BLeaf p es'))"
proof -
  let ?s = "upd_node p (\<lambda>n. n\<lparr>nd_pairs := es'\<rparr>) s" and ?t = "plug fs (BLeaf p es)" and ?t' = "plug fs (BLeaf p es')"
  obtain fl where ta: "tree_at (ix_hdr s) s ?t fl" and ho: "hdr_ok (ix_hdr s)" "chain_ok s (map fst (leaves ?t))" using assms(1) by (auto simp: ix_inv_def)
  have r: "repc (ix_nodes s) fs p" "rep (ix_nodes s) (top_page fs) (BLeaf p es)" "distinct (tree_pages ?t)"
    using ta rep_plug [of "ix_nodes s" fs "BLeaf p es"] by (auto simp: tree_at_def)
  have "repc (ix_nodes ?s) fs p" using r(1,3) repc_cong [of fs "ix_nodes ?s" "ix_nodes s" p] by (auto simp: pages_plug_leaf)
  moreover have "rep (ix_nodes ?s) (top_page fs) (BLeaf p es')" using r(2) by simp
  ultimately have "rep (ix_nodes ?s) IX_NO_PAGE ?t'" by (simp add: rep_plug)
  moreover have "root_ok (ix_hdr s) ?t'" unfolding root_ok_def using bwf_plug [OF assms(2), of "BLeaf p es'"] assms(3) by auto
  moreover have "alloc_ok ?s (insert 1 (set (tree_pages ?t'))) fl" using ta by (auto simp: tree_at_def pages_plug_leaf intro: alloc_frame)
  ultimately have "tree_at (ix_hdr ?s) ?s ?t' fl" using ta by (simp add: tree_at_def pages_plug_leaf bt_page_plug)
  moreover have "linked (ix_nodes ?s) xs = linked (ix_nodes s) xs" for xs by (rule linked_cong) auto
  ultimately show ?thesis using ho by (auto simp: ix_inv_def chain_ok_def leaves_plug)
qed

subsection \<open>A leaf that overflows\<close>

lemma leaf_halves:
  assumes "hdr_ok h" "in_bounds h lo hi es" "length es = get_max_size h" "es1 = take (length es div 2) es" "es2 = drop (length es div 2) es"
  shows "leaf_wf h (get_min_size h) lo (Some (hord h (fst (hd es2)))) es1" "leaf_wf h (get_min_size h) (Some (hord h (fst (hd es2)))) hi es2"
    "valid_key (ix_cols h) (fst (hd es2))" "es2 \<noteq> []"
proof -
  have len: "length es1 = get_min_size h" "length es2 = get_max_size h - get_min_size h" using assms(3) by (simp_all add: assms(4,5) get_min_size_def)
  have mn: "2 \<le> get_min_size h" "get_min_size h \<le> btree_order h" "get_min_size h \<le> get_max_size h - get_min_size h" "get_max_size h - get_min_size h \<le> btree_order h"
    using assms(1) by (auto simp: hdr_ok_def get_min_size_def get_max_size_def)
  show ne: "es2 \<noteq> []" using len mn by auto
  then obtain e zs where z: "es2 = e # zs" by (cases es2) auto
  have e: "es = es1 @ e # zs" using z by (metis assms(4,5) append_take_drop_id)
  have b: "keys_valid (ix_cols h) es" "node_sorted (ix_cols h) es" "\<forall>x \<in> set es. ge_lo lo (hord h (fst x)) \<and> lt_hi hi (hord h (fst x))" using assms(2) by (auto simp: in_bounds_def)
  then have s: "\<forall>x \<in> set es1. hord h (fst x) < hord h (fst e)" "\<forall>x \<in> set zs. hord h (fst e) < hord h (fst x)" "node_sorted (ix_cols h) es1" "node_sorted (ix_cols h) es2"
    unfolding e z node_sorted_def by (simp_all add: sorted_wrt_append)
  show "leaf_wf h (get_min_size h) lo (Some (hord h (fst (hd es2)))) es1" using b s len mn unfolding e z leaf_wf_def keys_valid_def by (auto simp: lt_hi_def)
  show "leaf_wf h (get_min_size h) (Some (hord h (fst (hd es2)))) hi es2" using b s len mn z unfolding e leaf_wf_def keys_valid_def by (auto simp: ge_lo_def)
  show "valid_key (ix_cols h) (fst (hd es2))" using b(1) unfolding e z keys_valid_def by simp
qed

text \<open>The neighbours of a leaf in the list.\<close>

lemma leaf_chain:
  assumes "ix_inv s (plug fs (BLeaf p es))" "A = map fst (lefts fs)" "B = map fst (rights fs)"
  obtains r ys where "B @ [1] = r # ys" "linked (ix_nodes s) ((1 # A) @ p # r # ys)" "nd_next_leaf (ix_nodes s p) = r" "r \<noteq> p"
    "distinct (1 # A @ p # B)" "r = 1 \<or> r \<in> set (ctx_pages fs)" "set A \<union> set B \<subseteq> set (ctx_pages fs)"
proof -
  let ?t = "plug fs (BLeaf p es)"
  obtain fl where ta: "tree_at (ix_hdr s) s ?t fl" and ch: "linked (ix_nodes s) (1 # map fst (leaves ?t) @ [1])" using assms(1) by (auto simp: ix_inv_def chain_ok_def)
  have lv: "map fst (leaves ?t) = A @ p # B" by (simp add: leaves_plug assms(2,3))
  obtain r ys where B: "B @ [1] = r # ys" by (cases "B @ [1]") auto
  have l: "linked (ix_nodes s) ((1 # A) @ p # r # ys)" using ch unfolding lv by (simp add: B)
  have sub: "fst ` set (leaves ?t) \<subseteq> set (tree_pages ?t)" by (rule leaf_pages_sub)
  have d: "distinct (A @ p # B)" "1 \<notin> set (A @ p # B)"
    using leaf_pages_distinct [of ?t] ta sub unfolding lv [symmetric] by (auto simp: tree_at_def)
  have sAB: "set A \<union> set B \<subseteq> set (ctx_pages fs)"
  proof
    fix x assume x: "x \<in> set A \<union> set B"
    then have "x \<in> set (map fst (leaves ?t))" "x \<noteq> p" unfolding lv using d(1) by auto
    then show "x \<in> set (ctx_pages fs)" using sub by (auto simp: pages_plug_leaf)
  qed
  have "r \<in> set (B @ [1])" by (simp add: B)
  then have r: "r \<noteq> p" "r = 1 \<or> r \<in> set (ctx_pages fs)" using d sAB by auto
  moreover have "nd_next_leaf (ix_nodes s p) = r" using l linked_append [of "ix_nodes s" "1 # A" p "r # ys"] by simp
  ultimately show ?thesis using that B l d sAB by auto
qed

lemma leaf_overflow:
  assumes inv: "ix_inv s (plug fs (BLeaf p es))" and ho: "hole (ix_hdr s) fs 0 m lo hi" and ib: "in_bounds (ix_hdr s) lo hi es'" and len: "length es' = get_max_size (ix_hdr s)"
    and room: "2 * ix_num_pages (ix_hdr s) + 2 < 2 ^ 31" and fsl: "int (length fs) + 3 \<le> ix_num_pages (ix_hdr s)"
    and sp: "split p l (upd_node p (\<lambda>n. n\<lparr>nd_pairs := es'\<rparr>) s) = (q, s2)"
  shows "\<exists>s3 t'. insert_into_parent (nat (ix_num_pages (ix_hdr s2))) p (get_key (ix_nodes s2 q) 0) q l s2 = (Ret (), s3) \<and> ix_inv s3 t' \<and> hstat (ix_hdr s3) = hstat (ix_hdr s)
    \<and> entries t' = concat (map snd (lefts fs)) @ es' @ concat (map snd (rights fs))"
proof -
  let ?h = "ix_hdr s" and ?t = "plug fs (BLeaf p es)"
  define s1 where "s1 = upd_node p (\<lambda>n. n\<lparr>nd_pairs := es'\<rparr>) s"
  define A where "A = map fst (lefts fs)"
  define B where "B = map fst (rights fs)"
  obtain fl where ta: "tree_at ?h s ?t fl" and hok: "hdr_ok ?h" and ch: "chain_ok s (map fst (leaves ?t))" using inv by (auto simp: ix_inv_def)
  have rp: "repc (ix_nodes s) fs p" "rep (ix_nodes s) (top_page fs) (BLeaf p es)" "p \<notin> set (ctx_pages fs)" "distinct (ctx_pages fs)"
    using ta rep_plug [of "ix_nodes s" fs "BLeaf p es"] by (auto simp: tree_at_def pages_plug_leaf)
  obtain r ys where c: "B @ [1] = r # ys" "linked (ix_nodes s) ((1 # A) @ p # r # ys)" "nd_next_leaf (ix_nodes s p) = r" "r \<noteq> p"
      "distinct (1 # A @ p # B)" "r = 1 \<or> r \<in> set (ctx_pages fs)" "set A \<union> set B \<subseteq> set (ctx_pages fs)"
    by (rule leaf_chain [OF inv A_def B_def])
  let ?u = "insert 1 (insert p (set (ctx_pages fs)))"
  have one: "1 \<notin> insert p (set (ctx_pages fs))" using ta by (simp add: tree_at_def pages_plug_leaf)
  have "alloc_ok s ?u fl" using ta by (simp add: tree_at_def pages_plug_leaf)
  then have a1: "alloc_ok s1 ?u fl" by (rule alloc_frame) (simp_all add: s1_def)
  have n1: "nd_is_leaf (ix_nodes s1 p)" "nd_pairs (ix_nodes s1 p) = es'" "nd_next_leaf (ix_nodes s1 p) = r" "nd_parent (ix_nodes s1 p) = top_page fs" "ix_hdr s1 = ?h"
    "\<And>x. x \<noteq> p \<Longrightarrow> ix_nodes s1 x = ix_nodes s x" "\<And>x. link (ix_nodes s1 x) = link (ix_nodes s x)"
    using rp(2) c(3) by (auto simp: s1_def link_def)
  have "ix_num_pages (ix_hdr s1) + 1 < 2 ^ 31" using room fsl n1(5) by simp
  then obtain fl2 where z: "alloc_ok s2 (insert q ?u) fl2" "q \<notin> ?u" "2 \<le> q"
      "core (ix_nodes s2 q) = (True, top_page fs, drop (length es' div 2) es')" "core (ix_nodes s2 p) = (True, top_page fs, take (length es' div 2) es')"
      "\<forall>x. x \<noteq> p \<and> x \<noteq> q \<longrightarrow> core (ix_nodes s2 x) = core (ix_nodes s1 x)"
      "link (ix_nodes s2 q) = (p, r)" "link (ix_nodes s2 p) = (nd_prev_leaf (ix_nodes s1 p), q)" "link (ix_nodes s2 r) = (q, nd_next_leaf (ix_nodes s1 r))"
      "\<forall>x \<in> ?u. x \<noteq> p \<and> x \<noteq> r \<longrightarrow> link (ix_nodes s2 x) = link (ix_nodes s1 x)"
      "hdr_rest (ix_hdr s2) = hdr_rest (?h\<lparr>last_leaf := if last_leaf ?h = p then q else last_leaf ?h\<rparr>)" "ix_num_pages ?h \<le> ix_num_pages (ix_hdr s2)" "ix_num_pages (ix_hdr s2) \<le> ix_num_pages ?h + 1"
    using split_leaf [OF a1 _ sp [folded s1_def] _ n1(1,2) n1(3) [symmetric] _ c(4)] c(6) unfolding n1(4,5) by auto
  define es1 where "es1 = take (length es' div 2) es'"
  define es2 where "es2 = drop (length es' div 2) es'"
  note w = leaf_halves [OF hok ib len es1_def es2_def]
  let ?t1 = "BLeaf p es1" and ?t2 = "BLeaf q es2"
  have hs: "hstat (ix_hdr s2) = hstat ?h" using z(11) by (simp add: hdr_rest_def hstat_def)
  have u': "insert 1 (set (tree_pages ?t1 @ tree_pages ?t2 @ ctx_pages fs)) = insert q ?u" by auto
  have "\<exists>t' s' fl'. insert_into_parent (nat (ix_num_pages (ix_hdr s2))) (bt_page ?t1) (fst (hd es2)) (bt_page ?t2) l s2 = (Ret (), s') \<and> tree_at ?h s' t' fl'
    \<and> leaves t' = lefts fs @ leaves ?t1 @ leaves ?t2 @ rights fs
    \<and> (\<forall>x \<in> insert 1 (set (tree_pages ?t1 @ tree_pages ?t2 @ ctx_pages fs)). link (ix_nodes s' x) = link (ix_nodes s2 x)) \<and> hdr_fix (ix_hdr s') = hdr_fix (ix_hdr s2)
    \<and> ix_num_pages (ix_hdr s') \<le> ix_num_pages (ix_hdr s2) + int (length fs) + 1"
  proof (rule insert_into_parent_ok [OF hok ho _ _ _ _ _ w(3)])
    have "core (ix_nodes s2 x) = core (ix_nodes s x)" if "x \<in> set (ctx_pages fs)" for x
    proof -
      have "x \<noteq> p" "x \<noteq> q" using that rp(3) z(2) by auto
      then show ?thesis using z(6) n1(6) by simp
    qed
    then show "repc (ix_nodes s2) fs (bt_page ?t1)" using rp(1) repc_cong [of fs "ix_nodes s2" "ix_nodes s" p] by simp
    show "rep (ix_nodes s2) (top_page fs) ?t1" "rep (ix_nodes s2) (top_page fs) ?t2" using z(4,5) by (simp_all add: core_def es1_def es2_def)
    show "bwf ?h 0 (get_min_size ?h) lo (Some (hord ?h (fst (hd es2)))) ?t1" "bwf ?h 0 (get_min_size ?h) (Some (hord ?h (fst (hd es2)))) hi ?t2" using w(1,2) by simp_all
    show "distinct (tree_pages ?t1 @ tree_pages ?t2 @ ctx_pages fs)" using rp(3,4) z(2) by simp
    show "1 \<notin> set (tree_pages ?t1 @ tree_pages ?t2 @ ctx_pages fs)" using one z(3) by auto
    show "alloc_ok s2 (insert 1 (set (tree_pages ?t1 @ tree_pages ?t2 @ ctx_pages fs))) fl2" unfolding u' by (rule z(1))
    show "hstat (ix_hdr s2) = hstat ?h" by (rule hs)
    have "root_page (ix_hdr s2) = root_page ?h" using z(11) by (simp add: hdr_rest_def)
    then show "root_page (ix_hdr s2) = (if fs = [] then bt_page ?t1 else fst (last fs))" using ta by (simp add: tree_at_def bt_page_plug)
    show "ix_num_pages (ix_hdr s2) + int (length fs) + 1 < 2 ^ 31" using z(13) room fsl by linarith
    show "length fs < nat (ix_num_pages (ix_hdr s2))" using z(12) fsl by linarith
  qed
  then obtain t' s3 fl3 where g: "insert_into_parent (nat (ix_num_pages (ix_hdr s2))) p (fst (hd es2)) q l s2 = (Ret (), s3)" "tree_at ?h s3 t' fl3"
      "leaves t' = lefts fs @ [(p, es1), (q, es2)] @ rights fs" "\<forall>x \<in> insert q ?u. link (ix_nodes s3 x) = link (ix_nodes s2 x)" "hdr_fix (ix_hdr s3) = hdr_fix (ix_hdr s2)"
    unfolding u' by auto
  have hs3: "hstat (ix_hdr s3) = hstat ?h" using g(5) hs by (simp add: hdr_fix_def hstat_def)
  have key: "get_key (ix_nodes s2 q) 0 = fst (hd es2)" using z(4) w(4) by (cases es2) (auto simp: core_def get_key_def es2_def [symmetric])
  have l2: "linked (ix_nodes s2) ((1 # A) @ p # q # r # ys)"
  proof (rule linked_insert [OF c(2)])
    have su: "set ((1 # A) @ p # r # ys) \<subseteq> ?u"
    proof -
      have "set (r # ys) = insert 1 (set B)" unfolding c(1) [symmetric] by simp
      then show ?thesis using c(7) by auto
    qed
    show "distinct ((1 # A) @ [p])" using c(5) by auto
    have bl: "butlast (r # ys) = B" unfolding c(1) [symmetric] by simp
    then show "p \<notin> set (butlast (r # ys))" using c(5) by auto
    have "set (r # ys) \<subseteq> insert 1 (set B)" "distinct (r # ys)" using c(5) unfolding c(1) [symmetric] by auto
    then show "r \<notin> set (tl ((1 # A) @ [p]))" "r \<notin> set ys" using c(4,5) by auto
    show "q \<notin> set ((1 # A) @ p # r # ys)" using su z(2) by blast
    show "link (ix_nodes s2 q) = (p, r)" "nd_next_leaf (ix_nodes s2 p) = q" "nd_prev_leaf (ix_nodes s2 r) = q" using z(7-9) by (simp_all add: link_def)
    show "nd_next_leaf (ix_nodes s2 x) = nd_next_leaf (ix_nodes s x)" if "x \<noteq> p" "x \<in> set ((1 # A) @ p # r # ys)" for x
    proof -
      have "x \<in> ?u" using that(2) su by blast
      then show ?thesis using that(1) z(9,10) n1(7) [of x] by (cases "x = r") (auto simp: link_def)
    qed
    show "nd_prev_leaf (ix_nodes s2 x) = nd_prev_leaf (ix_nodes s x)" if "x \<noteq> r" "x \<in> set ((1 # A) @ p # r # ys)" for x
    proof -
      have "x \<in> ?u" using that(2) su by blast
      then show ?thesis using that(1) z(8,10) n1(7) [of x] by (cases "x = p") (auto simp: link_def)
    qed
  qed
  have lv: "map fst (leaves t') = A @ p # q # B" using g(3) by (simp add: A_def B_def)
  have full: "1 # (A @ p # q # B) @ [1] = (1 # A) @ p # q # r # ys" using c(1) by simp
  have sub: "set (1 # (A @ p # q # B) @ [1]) \<subseteq> insert q ?u" using c(7) by auto
  have "linked (ix_nodes s3) (1 # (A @ p # q # B) @ [1])"
  proof (subst linked_cong [of _ "ix_nodes s3" "ix_nodes s2"])
    have lk: "link (ix_nodes s3 x) = link (ix_nodes s2 x)" if "x \<in> set (1 # (A @ p # q # B) @ [1])" for x using that sub g(4) by blast
    show "\<forall>x \<in> set (butlast (1 # (A @ p # q # B) @ [1])). nd_next_leaf (ix_nodes s3 x) = nd_next_leaf (ix_nodes s2 x)"
      using lk unfolding link_def by (blast dest: in_set_butlastD)
    show "\<forall>x \<in> set (tl (1 # (A @ p # q # B) @ [1])). nd_prev_leaf (ix_nodes s3 x) = nd_prev_leaf (ix_nodes s2 x)"
      using lk unfolding link_def by (simp del: set_append)
    show "linked (ix_nodes s2) (1 # (A @ p # q # B) @ [1])" unfolding full by (rule l2)
  qed
  moreover have "first_leaf (ix_hdr s3) = first_leaf ?h" "last_leaf (ix_hdr s3) = (if last_leaf ?h = p then q else last_leaf ?h)"
    using g(5) z(11) by (simp_all add: hdr_fix_def hdr_rest_def)
  moreover have "first_leaf ?h = hd (A @ [p])" "last_leaf ?h = last (p # B)" using ch by (simp_all add: chain_ok_def leaves_plug A_def B_def hd_append)
  moreover have "last B \<noteq> p" if "B \<noteq> []" using that c(5) last_in_set [of B] by auto
  ultimately have "chain_ok s3 (map fst (leaves t'))" unfolding lv chain_ok_def by (cases B) (auto simp: hd_append)
  moreover have "tree_at (ix_hdr s3) s3 t' fl3" using g(2) tree_at_hstat [OF hs3] by simp
  moreover have "hdr_ok (ix_hdr s3)" using hok hstatD [OF hs3] by (simp add: hdr_ok_def)
  ultimately have "ix_inv s3 t'" unfolding ix_inv_def by blast
  moreover have "entries t' = concat (map snd (lefts fs)) @ es' @ concat (map snd (rights fs))" using g(3) by (simp add: entries_def es1_def es2_def)
  ultimately show ?thesis using g(1) hs3 unfolding key by blast
qed

end
