(* ===== verification/Rmdb_Index_Delete.thy ===== *)
theory Rmdb_Index_Delete
  imports Rmdb_Index_Ops
begin

text \<open>
  Deletion from the B+ tree. The rebalancing of two neighbours is stated once for leaves and internal nodes: \<open>join\<close> puts the content of both into the left one,
  \<open>cut k\<close> gives the first \<open>k\<close> pairs to the left and the rest to the right, and both keep the order. A borrowed pair is a \<open>cut\<close> one place further left or right, a merge is a
  \<open>join\<close>. The climb of \<open>coalesce_or_redistribute\<close> and of \<open>maintain_parent\<close> is an induction over the frames of a position.
\<close>

subsection \<open>Bounds\<close>

definition le_hi :: "int option \<Rightarrow> int option \<Rightarrow> bool" where
  "le_hi hi hi' \<longleftrightarrow> (case hi' of None \<Rightarrow> True | Some y \<Rightarrow> (case hi of None \<Rightarrow> False | Some x \<Rightarrow> x \<le> y))"

lemma lt_hi_mono: "le_hi hi hi' \<Longrightarrow> lt_hi hi x \<Longrightarrow> lt_hi hi' x"
  by (auto simp: le_hi_def lt_hi_def split: option.splits)

lemma kids_mono:
  "kids h P lo ts hi \<Longrightarrow> (\<And>lo kt. kt \<in> set ts \<Longrightarrow> P lo hi (snd kt) \<Longrightarrow> P lo hi' (snd kt)) \<Longrightarrow> kids h P lo ts hi'"
  by (induction h P lo ts hi rule: kids.induct) auto

lemma bwf_hi_mono: "bwf h n m lo hi t \<Longrightarrow> le_hi hi hi' \<Longrightarrow> bwf h n m lo hi' t"
proof (induction n arbitrary: m lo t)
  case 0
  then show ?case using lt_hi_mono by (cases t) (auto simp: leaf_wf_def)
next
  case (Suc n)
  then obtain p ts where t: "t = BNode p ts" by (cases t) auto
  have "bwfk h n lo ts hi'" by (rule kids_mono [of _ _ _ _ hi]) (use Suc t in auto)
  then show ?case using Suc.prems(1) t by simp
qed

lemma bwf_min_mono: "bwf h n m lo hi t \<Longrightarrow> m' \<le> m \<Longrightarrow> bwf h n m' lo hi t"
  by (cases n; cases t) (auto simp: leaf_wf_def)

subsection \<open>The content of a node\<close>

fun bt_pairs :: "bt \<Rightarrow> ix_pair list" where
  "bt_pairs (BLeaf p es) = es"
| "bt_pairs (BNode p ts) = map kid_pair ts"

fun kids_of :: "bt \<Rightarrow> (byte list \<times> bt) list" where
  "kids_of (BLeaf p es) = []"
| "kids_of (BNode p ts) = ts"

fun is_bleaf :: "bt \<Rightarrow> bool" where
  "is_bleaf (BLeaf p es) = True"
| "is_bleaf (BNode p ts) = False"

abbreviation bt_size :: "bt \<Rightarrow> nat" where "bt_size t \<equiv> length (bt_pairs t)"

lemma tree_pages_kids: "tree_pages t = bt_page t # kids_pages (kids_of t)"
  by (cases t) auto

lemma rep_unfold: "rep nd par t \<longleftrightarrow> core (nd (bt_page t)) = (is_bleaf t, par, bt_pairs t) \<and> (\<forall>kt \<in> set (kids_of t). rep nd (bt_page t) (snd kt))"
  by (cases t) (auto simp: core_def)

text \<open>Order without the limits on the size.\<close>

fun ordered :: "ix_file_hdr \<Rightarrow> nat \<Rightarrow> int option \<Rightarrow> int option \<Rightarrow> bt \<Rightarrow> bool" where
  "ordered h n lo hi (BLeaf p es) \<longleftrightarrow> n = 0 \<and> in_bounds h lo hi es"
| "ordered h n lo hi (BNode p ts) \<longleftrightarrow> n > 0 \<and> seps_valid h ts \<and> first_sep h lo (fst (hd ts)) \<and> bwfk h (n - 1) lo ts hi"

lemma bwf_ordered: "bwf h n m lo hi t \<longleftrightarrow> m \<le> bt_size t \<and> bt_size t \<le> btree_order h \<and> ordered h n lo hi t"
  by (cases n; cases t) (auto simp: leaf_wf_def in_bounds_def)

fun join :: "bt \<Rightarrow> bt \<Rightarrow> bt" where
  "join (BLeaf p xs) (BLeaf q ys) = BLeaf p (xs @ ys)"
| "join (BNode p xs) (BNode q ys) = BNode p (xs @ ys)"
| "join t t' = t"

fun cut :: "nat \<Rightarrow> bt \<Rightarrow> bt \<Rightarrow> bt \<times> bt" where
  "cut k (BLeaf p xs) (BLeaf q ys) = (BLeaf p (take k (xs @ ys)), BLeaf q (drop k (xs @ ys)))"
| "cut k (BNode p xs) (BNode q ys) = (BNode p (take k (xs @ ys)), BNode q (drop k (xs @ ys)))"
| "cut k t t' = (t, t')"

lemma ordered_same: "ordered h n lo hi t1 \<Longrightarrow> ordered h n lo' hi' t2 \<Longrightarrow> is_bleaf t1 = is_bleaf t2"
  by (cases t1; cases t2) auto

lemma join_content:
  assumes "is_bleaf t1 = is_bleaf t2"
  shows "bt_page (join t1 t2) = bt_page t1" "bt_pairs (join t1 t2) = bt_pairs t1 @ bt_pairs t2" "kids_of (join t1 t2) = kids_of t1 @ kids_of t2" "is_bleaf (join t1 t2) = is_bleaf t1"
    "entries (join t1 t2) = entries t1 @ entries t2"
  using assms by (cases t1; cases t2; simp add: entries_def)+

lemma cut_content:
  assumes "is_bleaf t1 = is_bleaf t2" "cut k t1 t2 = (u1, u2)"
  shows "bt_page u1 = bt_page t1" "bt_page u2 = bt_page t2" "bt_pairs u1 = take k (bt_pairs t1 @ bt_pairs t2)" "bt_pairs u2 = drop k (bt_pairs t1 @ bt_pairs t2)"
    "kids_of u1 @ kids_of u2 = kids_of t1 @ kids_of t2" "is_bleaf u1 = is_bleaf t1" "is_bleaf u2 = is_bleaf t1" "entries u1 @ entries u2 = entries t1 @ entries t2"
    "map fst (leaves u1 @ leaves u2) = map fst (leaves t1 @ leaves t2)"
proof -
  have td: "take k (xs @ ys) @ drop k (xs @ ys) = xs @ ys" for xs ys :: "'a list" by (rule append_take_drop_id)
  show "bt_page u1 = bt_page t1" "bt_page u2 = bt_page t2" "bt_pairs u1 = take k (bt_pairs t1 @ bt_pairs t2)" "bt_pairs u2 = drop k (bt_pairs t1 @ bt_pairs t2)"
    "is_bleaf u1 = is_bleaf t1" "is_bleaf u2 = is_bleaf t1"
    using assms by (cases t1; cases t2; auto simp: take_map drop_map)+
  show k: "kids_of u1 @ kids_of u2 = kids_of t1 @ kids_of t2" using assms td by (cases t1; cases t2) (auto simp del: take_append drop_append)
  have l: "concat (map snd (leaves u1 @ leaves u2)) = concat (map snd (leaves t1 @ leaves t2)) \<and> map fst (leaves u1 @ leaves u2) = map fst (leaves t1 @ leaves t2)"
  proof (cases t1)
    case (BLeaf p xs)
    then show ?thesis using assms td by (cases t2) (auto simp del: take_append drop_append)
  next
    case (BNode p xs)
    then have "leaves u1 @ leaves u2 = kids_leaves (kids_of u1 @ kids_of u2)" "leaves t1 @ leaves t2 = kids_leaves (kids_of t1 @ kids_of t2)" using assms by (cases t2; auto)+
    then show ?thesis using k by simp
  qed
  show "map fst (leaves u1 @ leaves u2) = map fst (leaves t1 @ leaves t2)" by (rule conjunct2 [OF l])
  show "entries u1 @ entries u2 = entries t1 @ entries t2" using conjunct1 [OF l] by (simp add: entries_def)
qed

lemma ordered_join:
  assumes "ordered h n lo (Some x) t1" "ordered h n (Some x) hi t2" "gap lo (Some x)" "gap (Some x) hi"
  shows "ordered h n lo hi (join t1 t2)"
proof (cases t1)
  case (BLeaf p xs)
  then obtain q ys where "t2 = BLeaf q ys" using ordered_same [OF assms(1,2)] by (cases t2) auto
  then show ?thesis using assms in_bounds_append BLeaf by auto
next
  case (BNode p xs)
  then obtain q ys where t2: "t2 = BNode q ys" using ordered_same [OF assms(1,2)] by (cases t2) auto
  have k: "bwfk h (n - 1) lo xs (Some x)" "bwfk h (n - 1) (Some x) ys hi" "hord h (fst (hd ys)) = x" using assms(1,2) BNode t2 by (auto simp: first_sep_def)
  have "xs \<noteq> []" "ys \<noteq> []" using kids_ne k(1,2) by blast+
  then have "bwfk h (n - 1) lo (xs @ ys) hi" using k by (simp add: kids_append)
  then show ?thesis using assms(1,2) BNode t2 \<open>xs \<noteq> []\<close> by (auto simp: seps_valid_def)
qed

lemma in_bounds_cut:
  assumes "in_bounds h lo hi (xs @ e # ys)"
  shows "in_bounds h lo (Some (hord h (fst e))) xs" "in_bounds h (Some (hord h (fst e))) hi (e # ys)"
  using assms by (auto simp: in_bounds_def node_sorted_def keys_valid_def sorted_wrt_append ge_lo_def lt_hi_def)

lemma ordered_cut:
  assumes "ordered h n lo hi (join t1 t2)" "is_bleaf t1 = is_bleaf t2" "cut k t1 t2 = (u1, u2)" "0 < k" "k < bt_size t1 + bt_size t2" "b = fst (hd (bt_pairs u2))"
  shows "ordered h n lo (Some (hord h b)) u1" "ordered h n (Some (hord h b)) hi u2" "valid_key (ix_cols h) b"
proof -
  have "ordered h n lo (Some (hord h b)) u1 \<and> ordered h n (Some (hord h b)) hi u2 \<and> valid_key (ix_cols h) b"
  proof (cases t1)
    case (BLeaf p xs)
    then obtain q ys where t2: "t2 = BLeaf q ys" using assms(2) by (cases t2) auto
    have k: "k < length (xs @ ys)" using assms(5) BLeaf t2 by simp
    have e: "xs @ ys = take k (xs @ ys) @ (xs @ ys) ! k # drop (Suc k) (xs @ ys)" "drop k (xs @ ys) = (xs @ ys) ! k # drop (Suc k) (xs @ ys)"
      using k id_take_nth_drop Cons_nth_drop_Suc by metis+
    have u: "u1 = BLeaf p (take k (xs @ ys))" "u2 = BLeaf q (drop k (xs @ ys))" using assms(3) BLeaf t2 by auto
    then have b: "b = fst ((xs @ ys) ! k)" using assms(6) e(2) by simp
    have n: "n = 0" "in_bounds h lo hi (xs @ ys)" using assms(1) BLeaf t2 by auto
    have "in_bounds h lo hi (take k (xs @ ys) @ (xs @ ys) ! k # drop (Suc k) (xs @ ys))" using n(2) by (subst (asm) e(1))
    note c = in_bounds_cut [OF this]
    have "valid_key (ix_cols h) b" using c(2) unfolding b by (simp add: in_bounds_def keys_valid_def)
    then show ?thesis using c n(1) unfolding u e(2) ordered.simps b by simp
  next
    case (BNode p xs)
    then obtain q ys where t2: "t2 = BNode q ys" using assms(2) by (cases t2) auto
    have u: "u1 = BNode p (take k (xs @ ys))" "u2 = BNode q (drop k (xs @ ys))" using assms(3) BNode t2 by auto
    have ne: "take k (xs @ ys) \<noteq> []" "drop k (xs @ ys) \<noteq> []" using assms(4,5) BNode t2 by auto
    have b: "b = fst (hd (drop k (xs @ ys)))" using assms(6) ne(2) u(2) by (simp add: hd_map kid_pair_def del: drop_append)
    have n: "n > 0" "seps_valid h (xs @ ys)" "first_sep h lo (fst (hd (xs @ ys)))" "bwfk h (n - 1) lo (xs @ ys) hi" using assms(1) BNode t2 by auto
    have sv: "seps_valid h (take k (xs @ ys))" "seps_valid h (drop k (xs @ ys))" using n(2) unfolding seps_valid_def by (meson in_set_takeD in_set_dropD)+
    have "bwfk h (n - 1) lo (take k (xs @ ys)) (Some (hord h b)) \<and> bwfk h (n - 1) (Some (hord h b)) (drop k (xs @ ys)) hi"
      using kids_append [OF ne, of h "\<lambda>lo hi t. bwf h (n - 1) (get_min_size h) lo hi t" lo hi] n(4) unfolding append_take_drop_id b by blast
    moreover have "hd (take k (xs @ ys)) = hd (xs @ ys)" using assms(4) by (simp add: hd_take del: take_append)
    moreover have "valid_key (ix_cols h) b" using sv(2) hd_in_set [OF ne(2)] by (simp add: b seps_valid_def del: drop_append)
    ultimately show ?thesis using n(1,3) sv b unfolding u ordered.simps by (simp add: first_sep_def del: take_append drop_append)
  qed
  then show "ordered h n lo (Some (hord h b)) u1" "ordered h n (Some (hord h b)) hi u2" "valid_key (ix_cols h) b" by blast+
qed

text \<open>The first key of a node may replace the separator that leads to it.\<close>

definition raised :: "ix_file_hdr \<Rightarrow> int option \<Rightarrow> byte list \<Rightarrow> int option" where
  "raised h lo k = map_option (\<lambda>_. hord h k) lo"

lemma bwf_raised:
  assumes "bwf h n m lo hi t" "0 < bt_size t" "k = fst (hd (bt_pairs t))"
  shows "bwf h n m (raised h lo k) hi t" "ge_lo lo (hord h k)" "valid_key (ix_cols h) k"
proof -
  have "bwf h n m (raised h lo k) hi t \<and> ge_lo lo (hord h k) \<and> valid_key (ix_cols h) k"
  proof (cases t)
    case (BLeaf p es)
    then obtain e ys where es: "es = e # ys" using assms(2) by (cases es) auto
    have b: "n = 0" "in_bounds h lo hi ([] @ e # ys)" using assms(1) BLeaf es by (auto simp: bwf_ordered)
    have "in_bounds h (Some (hord h k)) hi (e # ys)" using in_bounds_cut(2) [OF b(2)] assms(3) BLeaf es by simp
    moreover have "raised h lo k = Some (hord h k) \<or> raised h lo k = lo" by (cases lo) (auto simp: raised_def)
    ultimately have "in_bounds h (raised h lo k) hi (e # ys)" using b(2) by auto
    then show ?thesis using assms(1,3) b BLeaf es by (auto simp: bwf_ordered in_bounds_def keys_valid_def)
  next
    case (BNode p ts)
    then obtain e ys where ts: "ts = e # ys" using assms(2) by (cases ts) auto
    then have k: "k = fst e" "first_sep h lo (fst e)" "seps_valid h ts" using assms(1,3) BNode by (auto simp: bwf_ordered kid_pair_def)
    then have "raised h lo k = lo" "ge_lo lo (hord h k)" by (auto simp: raised_def first_sep_def ge_lo_def split: option.splits)
    then show ?thesis using assms(1) k ts by (auto simp: seps_valid_def)
  qed
  then show "bwf h n m (raised h lo k) hi t" "ge_lo lo (hord h k)" "valid_key (ix_cols h) k" by blast+
qed

subsection \<open>A tree in the store\<close>

definition stored :: "ix_index \<Rightarrow> bt \<Rightarrow> bool" where
  "stored s t \<longleftrightarrow> rep (ix_nodes s) IX_NO_PAGE t \<and> root_page (ix_hdr s) = bt_page t \<and> distinct (tree_pages t) \<and> 1 \<notin> set (tree_pages t)
     \<and> (\<exists>fl. alloc_ok s (insert 1 (set (tree_pages t))) fl) \<and> chain_ok s (map fst (leaves t))"

lemma ix_inv_stored: "ix_inv s t \<longleftrightarrow> hdr_ok (ix_hdr s) \<and> root_ok (ix_hdr s) t \<and> stored s t"
  by (auto simp: ix_inv_def tree_at_def stored_def)

lemma plug_pages:
  "set (tree_pages (plug fs t)) = set (tree_pages t) \<union> set (ctx_pages fs)" "distinct (tree_pages (plug fs t)) = distinct (tree_pages t @ ctx_pages fs)"
  using mset_eq_setD [OF mset_pages_plug [of fs t]] mset_eq_imp_distinct_iff [OF mset_pages_plug [of fs t]] by simp_all

lemma stored_plug:
  "stored s (plug fs t) \<longleftrightarrow> repc (ix_nodes s) fs (bt_page t) \<and> rep (ix_nodes s) (top_page fs) t \<and> root_page (ix_hdr s) = bt_page (plug fs t)
     \<and> distinct (tree_pages t @ ctx_pages fs) \<and> 1 \<notin> set (tree_pages t @ ctx_pages fs) \<and> (\<exists>fl. alloc_ok s (insert 1 (set (tree_pages t @ ctx_pages fs))) fl)
     \<and> chain_ok s (map fst (lefts fs @ leaves t @ rights fs))"
  by (simp add: stored_def rep_plug plug_pages leaves_plug)

lemma chain_ok_link: "(\<And>x. x \<in> set ps \<union> {1} \<Longrightarrow> link (ix_nodes s' x) = link (ix_nodes s x)) \<Longrightarrow> first_leaf (ix_hdr s') = first_leaf (ix_hdr s) \<Longrightarrow> last_leaf (ix_hdr s') = last_leaf (ix_hdr s) \<Longrightarrow>
    chain_ok s ps \<Longrightarrow> chain_ok s' ps"
  unfolding chain_ok_def using linked_cong [of "1 # ps @ [1]" "ix_nodes s'" "ix_nodes s"] by (auto simp: link_def butlast_append)

text \<open>Changing the children of a node without a change of the pages below it.\<close>

lemma stored_replace:
  assumes "stored s (plug fs (BNode p C))" "core (ix_nodes s' p) = (False, top_page fs, map kid_pair C')" "\<And>kt. kt \<in> set C' \<Longrightarrow> rep (ix_nodes s') p (snd kt)"
    and "mset (kids_pages C') = mset (kids_pages C)" "map fst (kids_leaves C') = map fst (kids_leaves C)" "\<And>x. x \<in> set (ctx_pages fs) \<Longrightarrow> core (ix_nodes s' x) = core (ix_nodes s x)"
    and "\<And>x. link (ix_nodes s' x) = link (ix_nodes s x)" "\<And>x. nd_next_free (ix_nodes s' x) = nd_next_free (ix_nodes s x)" "ix_hdr s' = ix_hdr s" "ix_fd2pageno s' = ix_fd2pageno s"
  shows "stored s' (plug fs (BNode p C'))"
proof -
  have pg: "set (kids_pages C') = set (kids_pages C)" "distinct (kids_pages C') = distinct (kids_pages C)"
    using mset_eq_setD [OF assms(4)] mset_eq_imp_distinct_iff [OF assms(4)] by blast+
  have st: "repc (ix_nodes s) fs p" "root_page (ix_hdr s) = bt_page (plug fs (BNode p C))" "distinct (tree_pages (BNode p C) @ ctx_pages fs)" "1 \<notin> set (tree_pages (BNode p C) @ ctx_pages fs)"
      "chain_ok s (map fst (lefts fs @ leaves (BNode p C) @ rights fs))"
    using assms(1) unfolding stored_plug by simp_all
  obtain fl where "alloc_ok s (insert 1 (set (tree_pages (BNode p C) @ ctx_pages fs))) fl" using assms(1) unfolding stored_plug by blast
  then have "alloc_ok s' (insert 1 (set (tree_pages (BNode p C) @ ctx_pages fs))) fl" by (rule alloc_frame) (simp_all add: assms(8-10))
  then have a: "alloc_ok s' (insert 1 (set (tree_pages (BNode p C') @ ctx_pages fs))) fl" using pg(1) by simp
  have "chain_ok s' (map fst (lefts fs @ leaves (BNode p C) @ rights fs))" by (rule chain_ok_link [OF _ _ _ st(5)]) (simp_all add: assms(7,9))
  moreover have "map fst (leaves (BNode p C')) = map fst (leaves (BNode p C))" using assms(5) by simp
  ultimately have c: "chain_ok s' (map fst (lefts fs @ leaves (BNode p C') @ rights fs))" unfolding map_append by (simp del: leaves.simps)
  have "repc (ix_nodes s') fs p" using st(1) repc_cong assms(6) by blast
  moreover have "rep (ix_nodes s') (top_page fs) (BNode p C')" using assms(2,3) by (simp add: core_def)
  moreover have "distinct (tree_pages (BNode p C') @ ctx_pages fs)" "1 \<notin> set (tree_pages (BNode p C') @ ctx_pages fs)" using st(3,4) pg by simp_all
  moreover have "root_page (ix_hdr s') = bt_page (plug fs (BNode p C'))" using st(2) by (simp add: assms(9) bt_page_plug)
  ultimately show ?thesis using a c unfolding stored_plug by auto
qed

lemma stored_bound:
  assumes "stored s (plug fs t)"
  shows "int (length fs) + 2 \<le> ix_num_pages (ix_hdr s)"
proof -
  have d: "distinct (tree_pages t @ ctx_pages fs)" "1 \<notin> set (tree_pages t @ ctx_pages fs)" "set (tree_pages t @ ctx_pages fs) \<subseteq> {1..<ix_num_pages (ix_hdr s)}"
    using assms unfolding stored_plug alloc_ok_def by auto
  have "x \<in> {2..<ix_num_pages (ix_hdr s)}" if "x \<in> set (ctx_pages fs)" for x
  proof -
    have "x \<in> {1..<ix_num_pages (ix_hdr s)}" "x \<noteq> 1" using that d(2,3) by auto
    then show ?thesis by simp
  qed
  then have "set (ctx_pages fs) \<subseteq> {2..<ix_num_pages (ix_hdr s)}" by blast
  then have "card (set (ctx_pages fs)) \<le> card {2..<ix_num_pages (ix_hdr s)}" by (intro card_mono) auto
  moreover have "length fs \<le> length (ctx_pages fs)" by (induction fs rule: ctx_pages.induct) auto
  moreover have "3 \<le> ix_num_pages (ix_hdr s)" using assms unfolding stored_plug alloc_ok_def by auto
  ultimately show ?thesis using d(1) by (simp add: distinct_card)
qed

lemma find_child_kid:
  assumes "nd_pairs nd = map kid_pair (X @ (a, t) # Y)" "distinct (kids_pages (X @ (a, t) # Y))"
  shows "find_child (bt_page t) nd = length X"
proof (rule find_child_frame)
  show "nd_pairs nd = map kid_pair X @ (a, child_rid (bt_page t)) # map kid_pair Y" using assms(1) by (simp add: kid_pair_def)
  have "bt_page t \<notin> set (kids_pages X)" using assms(2) bt_page_in [of t] by auto
  then show "bt_page t \<notin> bt_page ` snd ` set X" using roots_sub by blast
qed

lemma set_key_kid:
  assumes "nd_pairs nd = map kid_pair (X @ (a, t) # Y)"
  shows "set_key (length X) k nd = nd\<lparr>nd_pairs := map kid_pair (X @ (k, t) # Y)\<rparr>"
proof -
  have "(map kid_pair X @ kid_pair (a, t) # map kid_pair Y) ! length X = kid_pair (a, t)" using nth_append_length [of "map kid_pair X"] by simp
  then have "get_rid nd (length X) = child_rid (bt_page t)" by (simp add: get_rid_def assms kid_pair_def)
  moreover have "(map kid_pair X @ kid_pair (a, t) # map kid_pair Y)[length X := z] = map kid_pair X @ z # map kid_pair Y" for z using list_update_length [of "map kid_pair X"] by simp
  ultimately show ?thesis by (simp add: set_key_def assms kid_pair_def)
qed

subsection \<open>Separators on the way up\<close>

lemma root_ok_plug: "hole h fs n m lo hi \<Longrightarrow> bwf h n m lo hi t \<Longrightarrow> root_ok h (plug fs t)"
  unfolding root_ok_def using bwf_plug by blast

lemma stored_set_key:
  assumes "stored s (plug ((p, L, k0, R) # fs) t)" "s' = mark_node_dirty p l (upd_node p (set_key (length L) k) s)"
  shows "stored s' (plug ((p, L, k, R) # fs) t)" "get_key (ix_nodes s' p) (length L) = k" "ix_hdr s' = ix_hdr s"
proof -
  let ?C = "L @ (k0, t) # R" and ?C' = "L @ (k, t) # R"
  have st: "stored s (plug fs (BNode p ?C))" using assms(1) by simp
  then have r: "rep (ix_nodes s) (top_page fs) (BNode p ?C)" "distinct (p # kids_pages ?C @ ctx_pages fs)" unfolding stored_plug by simp_all
  have sk: "set_key (length L) k (ix_nodes s p) = (ix_nodes s p)\<lparr>nd_pairs := map kid_pair ?C'\<rparr>" by (rule set_key_kid) (use r(1) in simp)
  have n: "ix_nodes s' = (ix_nodes s)(p := (ix_nodes s p)\<lparr>nd_pairs := map kid_pair ?C'\<rparr>)" by (simp add: assms(2) sk)
  have hd: "ix_hdr s' = ix_hdr s" "ix_fd2pageno s' = ix_fd2pageno s" by (simp_all add: assms(2))
  have "stored s' (plug fs (BNode p ?C'))"
  proof (rule stored_replace [OF st])
    show "core (ix_nodes s' p) = (False, top_page fs, map kid_pair ?C')" using r(1) by (simp add: n core_def)
    show "rep (ix_nodes s') p (snd kt)" if "kt \<in> set ?C'" for kt
    proof -
      have "kt = (k, t) \<or> kt \<in> set L \<or> kt \<in> set R" using \<open>kt \<in> set ?C'\<close> by auto
      then have "rep (ix_nodes s) p (snd kt)" "p \<notin> set (tree_pages (snd kt))" using r by auto
      then show ?thesis using rep_cong [of "snd kt" "ix_nodes s'" "ix_nodes s" p] by (simp add: n)
    qed
  qed (use r(2) hd in \<open>auto simp: n link_def\<close>)
  then show "stored s' (plug ((p, L, k, R) # fs) t)" by simp
  have "(map kid_pair L @ kid_pair (k, t) # map kid_pair R) ! length L = kid_pair (k, t)" using nth_append_length [of "map kid_pair L"] by simp
  then show "get_key (ix_nodes s' p) (length L) = k" by (simp add: n get_key_def kid_pair_def)
qed (simp add: assms(2))

lemma frame_rank:
  assumes "stored s (plug ((p, L, k0, R) # fs) t)"
  shows "find_child (bt_page t) (ix_nodes s p) = length L" "get_key (ix_nodes s p) (length L) = k0" "nd_parent (ix_nodes s p) = top_page fs" "p \<noteq> IX_NO_PAGE"
    "get_size (ix_nodes s p) = Suc (length L + length R)"
proof -
  let ?C = "L @ (k0, t) # R"
  have "stored s (plug fs (BNode p ?C))" using assms by simp
  then have r: "rep (ix_nodes s) (top_page fs) (BNode p ?C)" "distinct (p # kids_pages ?C @ ctx_pages fs)" "\<exists>fl. alloc_ok s (insert 1 (set (p # kids_pages ?C @ ctx_pages fs))) fl"
    unfolding stored_plug by simp_all
  then show "find_child (bt_page t) (ix_nodes s p) = length L" by (intro find_child_kid) auto
  have "(map kid_pair L @ kid_pair (k0, t) # map kid_pair R) ! length L = kid_pair (k0, t)" using nth_append_length [of "map kid_pair L"] by simp
  then show "get_key (ix_nodes s p) (length L) = k0" using r(1) by (simp add: get_key_def kid_pair_def)
  show "nd_parent (ix_nodes s p) = top_page fs" "get_size (ix_nodes s p) = Suc (length L + length R)" using r(1) by (simp_all add: get_size_def)
  show "p \<noteq> IX_NO_PAGE" using r(3) by (auto simp: alloc_ok_def ix_consts)
qed

lemma maintain_parent_loop_ok:
  assumes "hole h fs n m lo hi" "stored s (plug fs t)" "bwf h n m (raised h lo k) hi t" "ge_lo lo (hord h k)" "valid_key (ix_cols h) k" "length fs < fuel"
  shows "\<exists>s' t'. maintain_parent_loop fuel (bt_page t) (top_page fs) k l s = (Ret (), s') \<and> stored s' t' \<and> root_ok h t' \<and> entries t' = entries (plug fs t) \<and> ix_hdr s' = ix_hdr s"
  using assms
proof (induction fs arbitrary: n m lo hi t s fuel)
  case Nil
  obtain f where f: "fuel = Suc f" using Nil(6) by (cases fuel) auto
  have "lo = None" using Nil(1) by (auto elim: hole_NilE)
  then have "root_ok h (plug [] t)" using root_ok_plug [OF Nil(1)] Nil(3) by (simp add: raised_def)
  then show ?case using Nil(2) by (intro exI [of _ s] exI [of _ t]) (simp add: f)
next
  case (Cons fr fs)
  obtain p L k0 R where fr: "fr = (p, L, k0, R)" by (cases fr) auto
  obtain f where f: "fuel = Suc f" "length fs < f" using Cons.prems(6) by (cases fuel) auto
  note st = Cons.prems(2) [unfolded fr]
  note rk = frame_rank [OF st]
  define s2 where "s2 = mark_node_dirty p l (upd_node p (set_key (length L) k) s)"
  note sk = stored_set_key [OF st s2_def]
  have n2: "ix_nodes (upd_node p (set_key (length L) k) s) = ix_nodes s2" by (simp add: s2_def)
  have step: "maintain_parent_loop fuel (bt_page t) (top_page (fr # fs)) k l s =
      (if k0 = k then (Ret (), s) else if L = [] then maintain_parent_loop f p (top_page fs) k l s2 else (Ret (), s2))"
    unfolding f(1) fr top_page.simps maintain_parent_loop.simps fetch_node_def Let_def unfolding rk(1,2,3) n2 s2_def [symmetric] using rk(4) sk(2) by (cases L) simp_all
  show ?case
  proof (rule hole_ConsD [OF Cons.prems(1) [unfolded fr]])
    fix m' lo' hi'
    assume 1: "hole h fs (Suc n) m' lo' hi'" "m' \<le> Suc (length L + length R)" "Suc (length L + length R) \<le> btree_order h"
      "seps_valid h L" "seps_valid h R" "valid_key (ix_cols h) k0" "first_sep h lo' (if L = [] then k0 else fst (hd L))"
      "L \<noteq> [] \<Longrightarrow> bwfk h n lo' L (Some (hord h k0))" "R \<noteq> [] \<Longrightarrow> bwfk h n (Some (hord h (fst (hd R)))) R hi'"
      "lo = (if L = [] then lo' else Some (hord h k0))" "hi = (if R = [] then hi' else Some (hord h (fst (hd R))))" "m = get_min_size h"
    consider "k0 = k" | "k0 \<noteq> k" "L = []" | "k0 \<noteq> k" "L \<noteq> []" by blast
    then show ?thesis
    proof cases
      case 1
      have "raised h lo k = lo" using \<open>first_sep h lo' _\<close> \<open>lo = _\<close> \<open>k0 = k\<close> by (auto simp: raised_def first_sep_def split: option.splits if_splits)
      then have "root_ok h (plug (fr # fs) t)" using root_ok_plug [OF Cons.prems(1)] Cons.prems(3) by simp
      then show ?thesis using Cons.prems(2) step 1 by auto
    next
      case 2
      let ?t = "BNode p ((k, t) # R)"
      have lo: "lo = lo'" using 1(10) 2 by simp
      have "bwfk h n (raised h lo' k) ((k, t) # R) hi'" using bwfk_hole [of "[]" h n "raised h lo' k" k R hi' t] 1(9,11,12) Cons.prems(3) lo by simp
      moreover have "seps_valid h ((k, t) # R)" "first_sep h (raised h lo' k) k" using 1(5) Cons.prems(5) by (auto simp: seps_valid_def first_sep_def raised_def split: option.splits)
      ultimately have "bwf h (Suc n) m' (raised h lo' k) hi' ?t" using 1(2,3) 2 unfolding bwf_Suc by simp
      moreover have "stored s2 (plug fs ?t)" using sk(1) 2 by simp
      ultimately obtain s' t' where "maintain_parent_loop f p (top_page fs) k l s2 = (Ret (), s')" "stored s' t'" "root_ok h t'" "entries t' = entries (plug fs ?t)" "ix_hdr s' = ix_hdr s2"
        using Cons.IH [OF 1(1), of s2 ?t f] Cons.prems(4,5) f(2) lo by auto
      moreover have "entries (plug fs ?t) = entries (plug (fr # fs) t)" using 2 by (simp add: fr entries_def leaves_plug)
      ultimately show ?thesis using step 2 sk(3) by auto
    next
      case 3
      have le: "hord h k0 \<le> hord h k" and lo: "raised h lo k = Some (hord h k)" using Cons.prems(4) 1(10) 3 by (auto simp: ge_lo_def raised_def)
      have "bwfk h n lo' L (Some (hord h k))" using 1(8) [OF 3(2)] by (rule kids_mono) (use le bwf_hi_mono in \<open>fastforce simp: le_hi_def\<close>)
      then have "hole h ((p, L, k, R) # fs) n m (Some (hord h k)) hi" using 1 3 Cons.prems(5) unfolding 1(12) by (intro hole.Down [OF 1(1)]) simp_all
      then have "root_ok h (plug ((p, L, k, R) # fs) t)" using Cons.prems(3) unfolding lo by (rule root_ok_plug)
      moreover have "entries (plug ((p, L, k, R) # fs) t) = entries (plug (fr # fs) t)" by (simp add: fr entries_def leaves_plug)
      ultimately show ?thesis using step 3 sk(1,3) by (intro exI [of _ s2] exI [of _ "plug ((p, L, k, R) # fs) t"]) (simp del: plug.simps)
    qed
  qed
qed

lemma maintain_parent_ok:
  assumes "hole h fs n m lo hi" "stored s (plug fs t)" "bwf h n m lo hi t" "0 < bt_size t"
  shows "\<exists>s' t'. maintain_parent (bt_page t) l s = (Ret (), s') \<and> stored s' t' \<and> root_ok h t' \<and> entries t' = entries (plug fs t) \<and> ix_hdr s' = ix_hdr s"
proof -
  have r: "core (ix_nodes s (bt_page t)) = (is_bleaf t, top_page fs, bt_pairs t)" using assms(2) rep_unfold [THEN iffD1, of "ix_nodes s" "top_page fs" t] unfolding stored_plug by blast
  define k where "k = fst (hd (bt_pairs t))"
  have k: "get_key (ix_nodes s (bt_page t)) 0 = k" "nd_parent (ix_nodes s (bt_page t)) = top_page fs" using r assms(4) by (auto simp: core_def get_key_def k_def hd_conv_nth)
  have "length fs < Suc (nat (ix_num_pages (ix_hdr s)))" using stored_bound [OF assms(2)] by linarith
  then show ?thesis unfolding maintain_parent_def fetch_node_def k by (rule maintain_parent_loop_ok [OF assms(1,2) bwf_raised [OF assms(3,4) k_def]])
qed

subsection \<open>Rebalancing two neighbours\<close>

lemma kids_rep:
  assumes "\<And>kt. kt \<in> set K \<Longrightarrow> \<exists>par. rep nd par (snd kt)" "distinct (kids_pages K)" "kt \<in> set K" "core (nd' (bt_page (snd kt))) = core ((nd (bt_page (snd kt)))\<lparr>nd_parent := q\<rparr>)"
    and "\<And>x. x \<in> set (kids_pages K) \<Longrightarrow> x \<notin> bt_page ` snd ` set K \<Longrightarrow> core (nd' x) = core (nd x)"
  shows "rep nd' q (snd kt)"
proof -
  obtain par where r: "rep nd par (snd kt)" using assms(1,3) by blast
  have d: "distinct (tree_pages (snd kt))" using assms(2,3) by (auto simp: distinct_concat_iff)
  show ?thesis
  proof (rule rep_move [OF r d])
    show "core (nd' (bt_page (snd kt))) = core ((nd (bt_page (snd kt)))\<lparr>nd_parent := q\<rparr>)" by (rule assms(4))
    fix x assume x: "x \<in> set (tree_pages (snd kt))" "x \<noteq> bt_page (snd kt)"
    then have "x \<notin> bt_page ` snd ` set K" using kid_roots [OF assms(2,3)] by blast
    moreover have "x \<in> set (kids_pages K)" using x(1) assms(3) by auto
    ultimately show "core (nd' x) = core (nd x)" by (rule assms(5) [rotated])
  qed
qed

lemma mset_two: "mset (kids_pages (X @ (a, t1) # (b, t2) # Y)) = mset (bt_page t1 # bt_page t2 # kids_pages (kids_of t1 @ kids_of t2) @ kids_pages X @ kids_pages Y)"
  by (simp add: tree_pages_kids [of t1] tree_pages_kids [of t2])

text \<open>What two neighbours below a node look like in the store.\<close>

lemma neighbours:
  assumes "stored s (plug fs (BNode p (X @ (a, t1) # (b, t2) # Y)))" "K = kids_of t1 @ kids_of t2"
  shows "core (ix_nodes s p) = (False, top_page fs, map kid_pair (X @ (a, t1) # (b, t2) # Y))" "core (ix_nodes s (bt_page t1)) = (is_bleaf t1, p, bt_pairs t1)"
    "core (ix_nodes s (bt_page t2)) = (is_bleaf t2, p, bt_pairs t2)" "\<And>kt. kt \<in> set (kids_of t1) \<Longrightarrow> rep (ix_nodes s) (bt_page t1) (snd kt)"
    "\<And>kt. kt \<in> set (kids_of t2) \<Longrightarrow> rep (ix_nodes s) (bt_page t2) (snd kt)" "\<And>kt. kt \<in> set (X @ Y) \<Longrightarrow> rep (ix_nodes s) p (snd kt)"
    "distinct (p # bt_page t1 # bt_page t2 # kids_pages K @ kids_pages X @ kids_pages Y @ ctx_pages fs)"
    "\<And>kt. kt \<in> set K \<Longrightarrow> \<exists>par. rep (ix_nodes s) par (snd kt)"
proof -
  let ?t = "BNode p (X @ (a, t1) # (b, t2) # Y)"
  have r: "rep (ix_nodes s) (top_page fs) ?t" and d: "distinct (tree_pages ?t @ ctx_pages fs)" using assms(1) unfolding stored_plug by blast+
  show "core (ix_nodes s p) = (False, top_page fs, map kid_pair (X @ (a, t1) # (b, t2) # Y))" using r by (simp add: core_def)
  have r12: "rep (ix_nodes s) p t1" "rep (ix_nodes s) p t2" "\<And>kt. kt \<in> set (X @ Y) \<Longrightarrow> rep (ix_nodes s) p (snd kt)" using r by auto
  show "rep (ix_nodes s) p (snd kt)" if "kt \<in> set (X @ Y)" for kt using r12(3) [OF that] .
  show c: "core (ix_nodes s (bt_page t1)) = (is_bleaf t1, p, bt_pairs t1)" "core (ix_nodes s (bt_page t2)) = (is_bleaf t2, p, bt_pairs t2)" using rep_unfold [THEN iffD1] r12(1,2) by blast+
  show k: "rep (ix_nodes s) (bt_page t1) (snd kt)" if "kt \<in> set (kids_of t1)" for kt using rep_unfold [THEN iffD1, OF r12(1)] that by blast
  show k': "rep (ix_nodes s) (bt_page t2) (snd kt)" if "kt \<in> set (kids_of t2)" for kt using rep_unfold [THEN iffD1, OF r12(2)] that by blast
  show "\<exists>par. rep (ix_nodes s) par (snd kt)" if "kt \<in> set K" for kt using that k [of kt] k' [of kt] assms(2) by (metis Un_iff set_append)
  show "distinct (p # bt_page t1 # bt_page t2 # kids_pages K @ kids_pages X @ kids_pages Y @ ctx_pages fs)"
  proof -
    have "mset (tree_pages ?t @ ctx_pages fs) = mset (p # bt_page t1 # bt_page t2 # kids_pages K @ kids_pages X @ kids_pages Y @ ctx_pages fs)"
      using mset_two [of X a t1 b t2 Y] assms(2) by simp
    then show ?thesis using d mset_eq_imp_distinct_iff by blast
  qed
qed

lemma stored_cut:
  assumes st: "stored s (plug fs (BNode p (X @ (a, t1) # (b, t2) # Y)))" and lf: "is_bleaf t1 = is_bleaf t2" and cu: "cut k t1 t2 = (u1, u2)"
    and n1: "core (ix_nodes s' (bt_page t1)) = (is_bleaf t1, p, take k (bt_pairs t1 @ bt_pairs t2))" and n2: "core (ix_nodes s' (bt_page t2)) = (is_bleaf t1, p, drop k (bt_pairs t1 @ bt_pairs t2))"
    and np: "core (ix_nodes s' p) = (False, top_page fs, map kid_pair (X @ (a, t1) # (b', t2) # Y))"
    and k1: "\<And>kt. kt \<in> set (kids_of u1) \<Longrightarrow> core (ix_nodes s' (bt_page (snd kt))) = core ((ix_nodes s (bt_page (snd kt)))\<lparr>nd_parent := bt_page t1\<rparr>)"
    and k2: "\<And>kt. kt \<in> set (kids_of u2) \<Longrightarrow> core (ix_nodes s' (bt_page (snd kt))) = core ((ix_nodes s (bt_page (snd kt)))\<lparr>nd_parent := bt_page t2\<rparr>)"
    and ot: "\<And>x. x \<notin> {p, bt_page t1, bt_page t2} \<Longrightarrow> x \<notin> bt_page ` snd ` set (kids_of t1 @ kids_of t2) \<Longrightarrow> core (ix_nodes s' x) = core (ix_nodes s x)"
    and lk: "\<And>x. link (ix_nodes s' x) = link (ix_nodes s x)" "\<And>x. nd_next_free (ix_nodes s' x) = nd_next_free (ix_nodes s x)" "ix_hdr s' = ix_hdr s" "ix_fd2pageno s' = ix_fd2pageno s"
  shows "stored s' (plug fs (BNode p (X @ (a, u1) # (b', u2) # Y)))"
proof -
  define K where "K = kids_of t1 @ kids_of t2"
  note nb = neighbours [OF st K_def] and c = cut_content [OF lf cu]
  have K: "kids_of u1 @ kids_of u2 = K" using c(5) by (simp add: K_def)
  have roots: "bt_page ` snd ` set K \<subseteq> set (kids_pages K)" by (rule roots_sub)
  have inK: "core (ix_nodes s' x) = core (ix_nodes s x)" if "x \<in> set (kids_pages K)" "x \<notin> bt_page ` snd ` set K" for x
    using that nb(7) by (intro ot) (auto simp: K_def)
  have out: "core (ix_nodes s' x) = core (ix_nodes s x)" if "x \<in> set (kids_pages X) \<union> set (kids_pages Y) \<union> set (ctx_pages fs)" for x
  proof (rule ot)
    have "x \<notin> set (kids_pages K)" using that nb(7) by auto
    then show "x \<notin> bt_page ` snd ` set (kids_of t1 @ kids_of t2)" using roots unfolding K_def by blast
  qed (use that nb(7) in auto)
  have dK: "distinct (kids_pages K)" using nb(7) by simp
  have "rep (ix_nodes s') (bt_page u1) (snd kt)" if "kt \<in> set (kids_of u1)" for kt
    unfolding c(1) using that K by (intro kids_rep [OF nb(8) dK _ k1 [OF that] inK]) auto
  then have r1: "rep (ix_nodes s') p u1" using n1 c(1,3,6) by (intro rep_unfold [THEN iffD2]) auto
  have "rep (ix_nodes s') (bt_page u2) (snd kt)" if "kt \<in> set (kids_of u2)" for kt
    unfolding c(2) using that K by (intro kids_rep [OF nb(8) dK _ k2 [OF that] inK]) auto
  then have r2: "rep (ix_nodes s') p u2" using n2 c(2,4,7) by (intro rep_unfold [THEN iffD2]) auto
  show ?thesis
  proof (rule stored_replace [OF st])
    show "core (ix_nodes s' p) = (False, top_page fs, map kid_pair (X @ (a, u1) # (b', u2) # Y))" using np c(1,2) by (simp add: kid_pair_def)
    show "rep (ix_nodes s') p (snd kt)" if "kt \<in> set (X @ (a, u1) # (b', u2) # Y)" for kt
    proof -
      consider "snd kt = u1" | "snd kt = u2" | "kt \<in> set (X @ Y)" using \<open>kt \<in> _\<close> by auto
      then show ?thesis
      proof cases
        case 3
        then have "set (tree_pages (snd kt)) \<subseteq> set (kids_pages X) \<union> set (kids_pages Y)" by auto
        then have "\<forall>x \<in> set (tree_pages (snd kt)). core (ix_nodes s' x) = core (ix_nodes s x)" using out by blast
        then show ?thesis using rep_cong nb(6) [OF 3] by blast
      qed (use r1 r2 in simp_all)
    qed
    show "mset (kids_pages (X @ (a, u1) # (b', u2) # Y)) = mset (kids_pages (X @ (a, t1) # (b, t2) # Y))" unfolding mset_two c(1,2) c(5) ..
    show "map fst (kids_leaves (X @ (a, u1) # (b', u2) # Y)) = map fst (kids_leaves (X @ (a, t1) # (b, t2) # Y))" using c(9) by simp
    show "core (ix_nodes s' x) = core (ix_nodes s x)" if "x \<in> set (ctx_pages fs)" for x using out that by blast
  qed (rule lk)+
qed

lemma rep_parent: "rep nd par t \<Longrightarrow> core ((nd (bt_page t))\<lparr>nd_parent := par\<rparr>) = core (nd (bt_page t))"
  by (cases t) (auto simp: core_def)

lemma roots_apart:
  assumes "distinct (kids_pages (A @ m # B))" "kt \<in> set A \<union> set B"
  shows "bt_page (snd kt) \<noteq> bt_page (snd m)"
proof -
  have "bt_page (snd m) \<notin> set (kids_pages (A @ B))" using assms(1) bt_page_in [of "snd m"] by auto
  moreover have "bt_page (snd kt) \<in> set (kids_pages (A @ B))" using assms(2) roots_sub [of "A @ B"] by auto
  ultimately show ?thesis by metis
qed

text \<open>One pair has moved between the neighbours; a moved child gets its new parent.\<close>

definition moves :: "bt \<Rightarrow> bt \<Rightarrow> bt \<Rightarrow> bt \<Rightarrow> int \<Rightarrow> byte list \<times> bt \<Rightarrow> bool" where
  "moves t1 t2 u1 u2 q m \<longleftrightarrow> (q = bt_page t1 \<or> q = bt_page t2) \<and> m \<in> set (kids_of t1 @ kids_of t2)
     \<and> (\<forall>kt \<in> set (kids_of u1). kt \<in> set (kids_of t1) \<and> bt_page (snd kt) \<noteq> bt_page (snd m) \<or> kt = m \<and> q = bt_page t1)
     \<and> (\<forall>kt \<in> set (kids_of u2). kt \<in> set (kids_of t2) \<and> bt_page (snd kt) \<noteq> bt_page (snd m) \<or> kt = m \<and> q = bt_page t2)"

lemma stored_borrow:
  assumes st: "stored s (plug fs (BNode p (X @ (a, t1) # (b, t2) # Y)))" and lf: "is_bleaf t1 = is_bleaf t2" and cu: "cut k t1 t2 = (u1, u2)"
    and n3: "ix_nodes s3 = (ix_nodes s)(bt_page t1 := (ix_nodes s (bt_page t1))\<lparr>nd_pairs := take k (bt_pairs t1 @ bt_pairs t2)\<rparr>,
       bt_page t2 := (ix_nodes s (bt_page t2))\<lparr>nd_pairs := drop k (bt_pairs t1 @ bt_pairs t2)\<rparr>, p := (ix_nodes s p)\<lparr>nd_pairs := map kid_pair (X @ (a, t1) # (b', t2) # Y)\<rparr>)"
    and h3: "ix_hdr s3 = ix_hdr s" "ix_fd2pageno s3 = ix_fd2pageno s"
    and s': "s' = (if is_bleaf t1 then s3 else maintain_child q l i s3)"
    and mv: "\<not> is_bleaf t1 \<Longrightarrow> value_at (ix_nodes s3 q) i = bt_page (snd m) \<and> moves t1 t2 u1 u2 q m"
  shows "stored s' (plug fs (BNode p (X @ (a, u1) # (b', u2) # Y)))" "ix_hdr s' = ix_hdr s"
proof -
  define K where "K = kids_of t1 @ kids_of t2"
  note nb = neighbours [OF st K_def]
  have roots: "bt_page ` snd ` set K \<subseteq> set (kids_pages K)" by (rule roots_sub)
  have ne: "bt_page t1 \<noteq> bt_page t2" "p \<noteq> bt_page t1" "p \<noteq> bt_page t2" using nb(7) by auto
  have nk: "bt_page (snd kt) \<notin> {p, bt_page t1, bt_page t2}" if "kt \<in> set K" for kt
  proof -
    have "bt_page (snd kt) \<in> set (kids_pages K)" using roots that by blast
    then show ?thesis using nb(7) by auto
  qed
  let ?c = "bt_page (snd m)"
  have q: "(q = bt_page t1 \<or> q = bt_page t2) \<and> value_at (ix_nodes s3 q) i = ?c \<and> m \<in> set K" if "\<not> is_bleaf t1" using mv [OF that] by (simp add: moves_def K_def)
  have nu: "kids_of u1 = [] \<and> kids_of u2 = []" if "is_bleaf t1" using cut_content(6,7) [OF lf cu] that by (cases u1; cases u2) auto
  have k1: "kt \<in> set (kids_of t1) \<and> bt_page (snd kt) \<noteq> ?c \<or> kt = m \<and> q = bt_page t1" if "kt \<in> set (kids_of u1)" for kt
    using that mv nu by (cases "is_bleaf t1") (simp_all add: moves_def)
  have k2: "kt \<in> set (kids_of t2) \<and> bt_page (snd kt) \<noteq> ?c \<or> kt = m \<and> q = bt_page t2" if "kt \<in> set (kids_of u2)" for kt
    using that mv nu by (cases "is_bleaf t1") (simp_all add: moves_def)
  have n': "ix_nodes s' = (if is_bleaf t1 then ix_nodes s3 else (ix_nodes s3)(?c := (ix_nodes s3 ?c)\<lparr>nd_parent := q\<rparr>))" and h': "ix_hdr s' = ix_hdr s" "ix_fd2pageno s' = ix_fd2pageno s"
  proof -
    have "\<not> nd_is_leaf (ix_nodes s3 q)" if "\<not> is_bleaf t1" using q [OF that] nb(2,3) ne lf that by (auto simp: n3 core_def)
    then show "ix_nodes s' = (if is_bleaf t1 then ix_nodes s3 else (ix_nodes s3)(?c := (ix_nodes s3 ?c)\<lparr>nd_parent := q\<rparr>))" "ix_hdr s' = ix_hdr s" "ix_fd2pageno s' = ix_fd2pageno s"
      using q h3 by (auto simp: s' maintain_child_def fetch_node_def Let_def)
  qed
  have ck: "?c \<notin> {p, bt_page t1, bt_page t2}" if "\<not> is_bleaf t1" using nk q [OF that] by simp
  have nf: "kids_of t1 = [] \<and> kids_of t2 = []" if "is_bleaf t1" using that lf by (cases t1; cases t2) auto
  have cs: "ix_nodes s' x = ix_nodes s x" if "x \<notin> {p, bt_page t1, bt_page t2}" "is_bleaf t1 \<or> x \<noteq> ?c" for x using that by (auto simp: n' n3)
  have cm: "ix_nodes s' ?c = (ix_nodes s ?c)\<lparr>nd_parent := q\<rparr>" if "\<not> is_bleaf t1" using that ck [OF that] by (simp add: n' n3)
  have c: "core (ix_nodes s' (bt_page t1)) = (is_bleaf t1, p, take k (bt_pairs t1 @ bt_pairs t2))" "core (ix_nodes s' (bt_page t2)) = (is_bleaf t1, p, drop k (bt_pairs t1 @ bt_pairs t2))"
    "core (ix_nodes s' p) = (False, top_page fs, map kid_pair (X @ (a, t1) # (b', t2) # Y))"
    using nb(1-3) ne ck lf by (auto simp: n' n3 core_def)
  show "stored s' (plug fs (BNode p (X @ (a, u1) # (b', u2) # Y)))"
  proof (rule stored_cut [OF st lf cu c])
    have in12: "kt \<in> set K" if "kt \<in> set (kids_of u1) \<union> set (kids_of u2)" for kt
      using that cut_content(5) [OF lf cu] unfolding K_def by (metis set_append)
    show "core (ix_nodes s' (bt_page (snd kt))) = core ((ix_nodes s (bt_page (snd kt)))\<lparr>nd_parent := bt_page t1\<rparr>)" if kt: "kt \<in> set (kids_of u1)" for kt
    proof (cases "kt = m \<and> q = bt_page t1")
      case True
      have "kids_of t1 \<noteq> [] \<or> kids_of t2 \<noteq> []" using in12 [of kt] kt by (auto simp: K_def)
      then have "\<not> is_bleaf t1" using nf by blast
      then show ?thesis using cm True by simp
    next
      case False
      then have "kt \<in> set (kids_of t1)" "bt_page (snd kt) \<noteq> ?c" using k1 [OF kt] by auto
      then show ?thesis using cs [OF nk] in12 [of kt] kt rep_parent [OF nb(4)] by simp
    qed
    show "core (ix_nodes s' (bt_page (snd kt))) = core ((ix_nodes s (bt_page (snd kt)))\<lparr>nd_parent := bt_page t2\<rparr>)" if kt: "kt \<in> set (kids_of u2)" for kt
    proof (cases "kt = m \<and> q = bt_page t2")
      case True
      have "kids_of t1 \<noteq> [] \<or> kids_of t2 \<noteq> []" using in12 [of kt] kt by (auto simp: K_def)
      then have "\<not> is_bleaf t1" using nf by blast
      then show ?thesis using cm True by simp
    next
      case False
      then have "kt \<in> set (kids_of t2)" "bt_page (snd kt) \<noteq> ?c" using k2 [OF kt] by auto
      then show ?thesis using cs [OF nk] in12 [of kt] kt rep_parent [OF nb(5)] by simp
    qed
    show "core (ix_nodes s' x) = core (ix_nodes s x)" if "x \<notin> {p, bt_page t1, bt_page t2}" "x \<notin> bt_page ` snd ` set (kids_of t1 @ kids_of t2)" for x
    proof (rule arg_cong [where f = core], rule cs [OF that(1)])
      show "is_bleaf t1 \<or> x \<noteq> ?c" using that(2) q unfolding K_def by blast
    qed
  qed (auto simp: n' n3 link_def h')
  show "ix_hdr s' = ix_hdr s" by (rule h')
qed

lemma find_neighbour:
  assumes "stored s (plug fs (BNode p (X @ (a, t1) # (b, t2) # Y)))"
  shows "nd_pairs nd = map kid_pair (X @ (a, t1) # (b, t2) # Y) \<Longrightarrow> set_key (find_child (bt_page t2) nd) k nd = nd\<lparr>nd_pairs := map kid_pair (X @ (a, t1) # (k, t2) # Y)\<rparr>"
    "nd_pairs nd = map kid_pair (X @ (a, t1) # (b, t2) # Y) \<Longrightarrow> erase_pair (find_child (bt_page t2) nd) nd = nd\<lparr>nd_pairs := map kid_pair (X @ (a, t1) # Y)\<rparr>"
proof -
  have d: "distinct (kids_pages ((X @ [(a, t1)]) @ (b, t2) # Y))" using assms unfolding stored_plug by (simp, auto)
  assume n: "nd_pairs nd = map kid_pair (X @ (a, t1) # (b, t2) # Y)"
  then have n1: "nd_pairs nd = map kid_pair ((X @ [(a, t1)]) @ (b, t2) # Y)" by simp
  note f = find_child_kid [OF n1 d]
  show "set_key (find_child (bt_page t2) nd) k nd = nd\<lparr>nd_pairs := map kid_pair (X @ (a, t1) # (k, t2) # Y)\<rparr>" using set_key_kid [OF n1, of k] unfolding f by simp
  have "take (length (X @ [(a, t1)])) (nd_pairs nd) = map kid_pair (X @ [(a, t1)])" "drop (Suc (length (X @ [(a, t1)]))) (nd_pairs nd) = map kid_pair Y" unfolding n by simp_all
  then show "erase_pair (find_child (bt_page t2) nd) nd = nd\<lparr>nd_pairs := map kid_pair (X @ (a, t1) # Y)\<rparr>" unfolding f erase_pair_def by simp
qed

lemma borrow_from_left:
  assumes st: "stored s (plug fs (BNode p (X @ (a, t1) # (b, t2) # Y)))" and lf: "is_bleaf t1 = is_bleaf t2" and cu: "cut (bt_size t1 - 1) t1 t2 = (u1, u2)" and ne: "bt_pairs t1 \<noteq> []"
    and s': "s' = redistribute (bt_page t1) (bt_page t2) p (Suc i) l s"
  shows "stored s' (plug fs (BNode p (X @ (a, u1) # (fst (hd (bt_pairs u2)), u2) # Y)))" "ix_hdr s' = ix_hdr s"
proof -
  note nb = neighbours [OF st refl] and c = cut_content [OF lf cu]
  obtain ps e where ps: "bt_pairs t1 = ps @ [e]" using ne by (metis rev_exhaust)
  let ?p1 = "bt_page t1" and ?p2 = "bt_page t2" and ?k = "bt_size t1 - 1" and ?b = "fst (hd (bt_pairs u2))"
  have d: "?p1 \<noteq> ?p2" "p \<noteq> ?p1" "p \<noteq> ?p2" using nb(7) by auto
  have td: "take ?k (bt_pairs t1 @ bt_pairs t2) = ps" "drop ?k (bt_pairs t1 @ bt_pairs t2) = e # bt_pairs t2" using ps by simp_all
  have b: "?b = fst e" using c(4) td(2) by simp
  define s3 where "s3 = upd_node p (\<lambda>n. set_key (find_child ?p2 n) (fst e) n) (upd_node ?p1 (erase_pair (length ps)) (upd_node ?p2 (insert_pair 0 (fst e) (snd e)) (BumpRoutingEpoch s)))"
  have "get_key (ix_nodes s ?p1) (get_size (ix_nodes s ?p1) - 1) = fst e" "get_rid (ix_nodes s ?p1) (get_size (ix_nodes s ?p1) - 1) = snd e" "get_size (ix_nodes s ?p1) - 1 = length ps"
    using nb(2) ps by (simp_all add: core_def get_key_def get_rid_def get_size_def)
  moreover have "get_key (insert_pair 0 (fst e) (snd e) n) 0 = fst e" for n by (simp add: get_key_def insert_pair_def insert_pairs_def)
  moreover have lf3: "nd_is_leaf (ix_nodes s3 ?p2) = is_bleaf t1" using nb(3) d lf by (auto simp: s3_def core_def insert_pair_def insert_pairs_def)
  ultimately have sr: "s' = (if is_bleaf t1 then s3 else maintain_child ?p2 l 0 s3)"
    using d unfolding s' redistribute_def Let_def fetch_node_def by (simp add: s3_def fun_upd_def)
  have "nd_pairs (ix_nodes s p) = map kid_pair (X @ (a, t1) # (b, t2) # Y)" using nb(1) by (simp add: core_def)
  note sk = find_neighbour(1) [OF st this]
  have n3: "ix_nodes s3 = (ix_nodes s)(?p1 := (ix_nodes s ?p1)\<lparr>nd_pairs := take ?k (bt_pairs t1 @ bt_pairs t2)\<rparr>, ?p2 := (ix_nodes s ?p2)\<lparr>nd_pairs := drop ?k (bt_pairs t1 @ bt_pairs t2)\<rparr>,
      p := (ix_nodes s p)\<lparr>nd_pairs := map kid_pair (X @ (a, t1) # (?b, t2) # Y)\<rparr>)"
    using d nb(2,3) sk [of "fst e"] unfolding td b by (auto simp: s3_def core_def insert_pair_def insert_pairs_def erase_pair_def ps fun_eq_iff)
  have K: "\<exists>K. kids_of t1 = K @ [m] \<and> kids_of u1 = K \<and> kids_of u2 = m # kids_of t2 \<and> e = kid_pair m" if "\<not> is_bleaf t1" "m = last (kids_of t1)" for m
  proof -
    obtain P ts1 where t1: "t1 = BNode P ts1" using \<open>\<not> is_bleaf t1\<close> by (cases t1) auto
    moreover obtain Q ts2 where t2: "t2 = BNode Q ts2" using \<open>\<not> is_bleaf t1\<close> lf by (cases t2) auto
    moreover obtain K m' where K: "ts1 = K @ [m']" using ne t1 by (cases ts1 rule: rev_cases) auto
    ultimately have "m' = m" "u1 = BNode P K" "u2 = BNode Q (m' # ts2)" "e = kid_pair m'" using cu that(2) ps by auto
    then show ?thesis using t1 t2 K by auto
  qed
  let ?m = "last (kids_of t1)"
  have dk: "distinct (kids_pages (kids_of t1 @ kids_of t2))" using nb(7) by auto
  have mv: "value_at (ix_nodes s3 ?p2) 0 = bt_page (snd ?m) \<and> moves t1 t2 u1 u2 ?p2 ?m" if nl: "\<not> is_bleaf t1"
  proof -
    obtain K where K: "kids_of t1 = K @ [?m]" "kids_of u1 = K" "kids_of u2 = ?m # kids_of t2" "e = kid_pair ?m" using K [OF nl refl] by blast
    have "kids_of t1 @ kids_of t2 = K @ ?m # kids_of t2" using K(1) by simp
    note ra = roots_apart [OF dk [unfolded this]]
    have "value_at (ix_nodes s3 ?p2) 0 = bt_page (snd ?m)" using d K(4) unfolding n3 td by (simp add: value_at_def get_rid_def kid_pair_def child_rid_def)
    moreover have "?m \<in> set (kids_of t1)" "set K \<subseteq> set (kids_of t1)" using K(1) by (metis in_set_conv_decomp, metis Un_upper1 set_append)
    ultimately show ?thesis using ra unfolding moves_def K(2,3) by auto
  qed
  have h3: "ix_hdr s3 = ix_hdr s" "ix_fd2pageno s3 = ix_fd2pageno s" by (simp_all add: s3_def)
  show "stored s' (plug fs (BNode p (X @ (a, u1) # (?b, u2) # Y)))" "ix_hdr s' = ix_hdr s"
    by (rule stored_borrow [OF st lf cu n3 h3 sr mv], assumption)+
qed

lemma borrow_from_right:
  assumes st: "stored s (plug fs (BNode p (X @ (a, t1) # (b, t2) # Y)))" and lf: "is_bleaf t1 = is_bleaf t2" and cu: "cut (Suc (bt_size t1)) t1 t2 = (u1, u2)" and ne: "2 \<le> bt_size t2"
    and s': "s' = redistribute (bt_page t2) (bt_page t1) p 0 l s"
  shows "stored s' (plug fs (BNode p (X @ (a, u1) # (fst (hd (bt_pairs u2)), u2) # Y)))" "ix_hdr s' = ix_hdr s"
proof -
  note nb = neighbours [OF st refl] and c = cut_content [OF lf cu]
  obtain e e' ps where ps: "bt_pairs t2 = e # e' # ps" using ne by (metis One_nat_def Suc_1 Suc_le_length_iff)
  let ?p1 = "bt_page t1" and ?p2 = "bt_page t2" and ?k = "Suc (bt_size t1)" and ?b = "fst (hd (bt_pairs u2))"
  have d: "?p1 \<noteq> ?p2" "p \<noteq> ?p1" "p \<noteq> ?p2" using nb(7) by auto
  have td: "take ?k (bt_pairs t1 @ bt_pairs t2) = bt_pairs t1 @ [e]" "drop ?k (bt_pairs t1 @ bt_pairs t2) = e' # ps" using ps by simp_all
  have b: "?b = fst e'" using c(4) td(2) by simp
  define s3 where "s3 = upd_node p (\<lambda>n. set_key (find_child ?p2 n) (fst e') n) (upd_node ?p2 (erase_pair 0) (upd_node ?p1 (\<lambda>n. insert_pair (get_size n) (fst e) (snd e) n) (BumpRoutingEpoch s)))"
  have k0: "get_key (ix_nodes s ?p2) 0 = fst e" "get_rid (ix_nodes s ?p2) 0 = snd e" "get_key (erase_pair 0 (ix_nodes s ?p2)) 0 = fst e'"
    using nb(3) ps by (simp_all add: core_def get_key_def get_rid_def erase_pair_def)
  have lf3: "nd_is_leaf (ix_nodes s3 ?p1) = is_bleaf t1" "get_size (ix_nodes s3 ?p1) - 1 = bt_size t1"
    using nb(2) d by (auto simp: s3_def core_def insert_pair_def insert_pairs_def get_size_def)
  have sr: "s' = (if is_bleaf t1 then s3 else maintain_child ?p1 l (bt_size t1) s3)"
    using d k0 lf3 unfolding s' redistribute_def Let_def fetch_node_def by (simp add: s3_def fun_upd_def)
  have "nd_pairs (ix_nodes s p) = map kid_pair (X @ (a, t1) # (b, t2) # Y)" using nb(1) by (simp add: core_def)
  note sk = find_neighbour(1) [OF st this]
  have n3: "ix_nodes s3 = (ix_nodes s)(?p1 := (ix_nodes s ?p1)\<lparr>nd_pairs := take ?k (bt_pairs t1 @ bt_pairs t2)\<rparr>, ?p2 := (ix_nodes s ?p2)\<lparr>nd_pairs := drop ?k (bt_pairs t1 @ bt_pairs t2)\<rparr>,
      p := (ix_nodes s p)\<lparr>nd_pairs := map kid_pair (X @ (a, t1) # (?b, t2) # Y)\<rparr>)"
    using d nb(2,3) sk [of "fst e'"] unfolding td b by (auto simp: s3_def core_def insert_pair_def insert_pairs_def erase_pair_def get_size_def ps fun_eq_iff)
  let ?m = "hd (kids_of t2)"
  have dk: "distinct (kids_pages (kids_of t1 @ kids_of t2))" using nb(7) by auto
  have mv: "value_at (ix_nodes s3 ?p1) (bt_size t1) = bt_page (snd ?m) \<and> moves t1 t2 u1 u2 ?p1 ?m" if nl: "\<not> is_bleaf t1"
  proof -
    obtain P ts1 where t1: "t1 = BNode P ts1" using nl by (cases t1) auto
    obtain Q ts2 where t2: "t2 = BNode Q ts2" using nl lf by (cases t2) auto
    obtain m K where K: "ts2 = m # K" using ps t2 by (cases ts2) auto
    have m: "?m = m" "e = kid_pair m" "kids_of t2 = m # K" using ps t2 K by auto
    have u: "kids_of u1 = ts1 @ [m]" "kids_of u2 = K" using cu t1 t2 K by auto
    have "kids_of t1 @ kids_of t2 = ts1 @ m # K" using t1 m(3) by simp
    note ra = roots_apart [OF dk [unfolded this]]
    have "value_at (ix_nodes s3 ?p1) (bt_size t1) = bt_page (snd m)" using d m(2) unfolding n3 td by (simp add: value_at_def get_rid_def kid_pair_def child_rid_def)
    then show ?thesis using ra t1 m(3) unfolding moves_def u m(1) by auto
  qed
  have h3: "ix_hdr s3 = ix_hdr s" "ix_fd2pageno s3 = ix_fd2pageno s" by (simp_all add: s3_def)
  show "stored s' (plug fs (BNode p (X @ (a, u1) # (?b, u2) # Y)))" "ix_hdr s' = ix_hdr s"
    by (rule stored_borrow [OF st lf cu n3 h3 sr mv], assumption)+
qed

lemma alloc_release:
  assumes "alloc_ok s (insert 1 used) fl" "q \<in> used" "q \<noteq> 1" "used' \<subseteq> used" "q \<notin> used'"
    and "first_free_page (ix_hdr s') = q" "nd_next_free (ix_nodes s' q) = first_free_page (ix_hdr s)" "\<And>x. x \<noteq> q \<Longrightarrow> nd_next_free (ix_nodes s' x) = nd_next_free (ix_nodes s x)"
    and "ix_num_pages (ix_hdr s') = ix_num_pages (ix_hdr s)" "ix_fd2pageno s' = ix_fd2pageno s"
  shows "alloc_ok s' (insert 1 used') (q # fl)"
proof -
  have q: "q \<notin> set fl" "q \<in> {1..<ix_num_pages (ix_hdr s)}" using assms(1,2) by (auto simp: alloc_ok_def)
  have "\<forall>x \<in> set fl. nd_next_free (ix_nodes s' x) = nd_next_free (ix_nodes s x)"
  proof
    fix x assume "x \<in> set fl"
    then have "x \<noteq> q" using q(1) by blast
    then show "nd_next_free (ix_nodes s' x) = nd_next_free (ix_nodes s x)" by (rule assms(8))
  qed
  note fc = free_chain_cong [OF this]
  have "free_chain (ix_nodes s') (first_free_page (ix_hdr s)) fl" unfolding fc using assms(1) by (simp add: alloc_ok_def)
  then show ?thesis using assms q by (auto simp: alloc_ok_def)
qed

lemma mset_one: "mset (kids_pages (X @ (a, t) # Y)) = mset (bt_page t # kids_pages (kids_of t) @ kids_pages X @ kids_pages Y)"
  by (simp add: tree_pages_kids [of t])

lemma stored_join:
  assumes st: "stored s (plug fs (BNode p (X @ (a, t1) # (b, t2) # Y)))" and lf: "is_bleaf t1 = is_bleaf t2"
    and n1: "core (ix_nodes s' (bt_page t1)) = (is_bleaf t1, p, bt_pairs t1 @ bt_pairs t2)" and np: "core (ix_nodes s' p) = (False, top_page fs, map kid_pair (X @ (a, t1) # Y))"
    and k2: "\<And>kt. kt \<in> set (kids_of t2) \<Longrightarrow> core (ix_nodes s' (bt_page (snd kt))) = core ((ix_nodes s (bt_page (snd kt)))\<lparr>nd_parent := bt_page t1\<rparr>)"
    and ot: "\<And>x. x \<notin> {p, bt_page t1, bt_page t2} \<Longrightarrow> x \<notin> bt_page ` snd ` set (kids_of t2) \<Longrightarrow> core (ix_nodes s' x) = core (ix_nodes s x)"
    and fr: "first_free_page (ix_hdr s') = bt_page t2" "nd_next_free (ix_nodes s' (bt_page t2)) = first_free_page (ix_hdr s)"
      "\<And>x. x \<noteq> bt_page t2 \<Longrightarrow> nd_next_free (ix_nodes s' x) = nd_next_free (ix_nodes s x)"
    and h: "ix_num_pages (ix_hdr s') = ix_num_pages (ix_hdr s)" "ix_fd2pageno s' = ix_fd2pageno s" "root_page (ix_hdr s') = root_page (ix_hdr s)"
    and ch: "chain_ok s' (map fst (lefts fs @ (kids_leaves X @ leaves (join t1 t2) @ kids_leaves Y) @ rights fs))"
  shows "stored s' (plug fs (BNode p (X @ (a, join t1 t2) # Y)))"
proof -
  define K where "K = kids_of t1 @ kids_of t2"
  define u where "u = join t1 t2"
  define P where "P = kids_pages K @ kids_pages X @ kids_pages Y @ ctx_pages fs"
  note nb = neighbours [OF st K_def] and c = join_content [OF lf, folded u_def]
  have st': "repc (ix_nodes s) fs p" "root_page (ix_hdr s) = bt_page (plug fs (BNode p (X @ (a, t1) # (b, t2) # Y)))"
    using st unfolding stored_plug by simp_all
  have m2: "set (tree_pages (BNode p (X @ (a, t1) # (b, t2) # Y)) @ ctx_pages fs) = set (p # bt_page t1 # bt_page t2 # P)"
    using mset_eq_setD [OF mset_two [of X a t1 b t2 Y]] unfolding P_def K_def by auto
  have m1: "mset (tree_pages (BNode p (X @ (a, u) # Y)) @ ctx_pages fs) = mset (p # bt_page t1 # P)"
    using mset_one [of X a u Y] unfolding P_def K_def c(1,3) by simp
  then have m1s: "set (tree_pages (BNode p (X @ (a, u) # Y)) @ ctx_pages fs) = set (p # bt_page t1 # P)" by (rule mset_eq_setD)
  have dP: "distinct (p # bt_page t1 # bt_page t2 # P)" using nb(7) by (simp add: P_def)
  have roots: "bt_page ` snd ` set K \<subseteq> set (kids_pages K)" "bt_page ` snd ` set (kids_of t2) \<subseteq> bt_page ` snd ` set K" using roots_sub [of K] by (auto simp: K_def)
  have out: "core (ix_nodes s' x) = core (ix_nodes s x)" if "x \<in> set P" "x \<notin> bt_page ` snd ` set (kids_of t2)" for x
    using that dP by (intro ot) auto
  have dK: "distinct (kids_pages K)" using nb(7) by simp
  have "rep (ix_nodes s') (bt_page u) (snd kt)" if kt: "kt \<in> set K" for kt
    unfolding c(1)
  proof (rule kids_rep [OF nb(8) dK kt])
    show "core (ix_nodes s' (bt_page (snd kt))) = core ((ix_nodes s (bt_page (snd kt)))\<lparr>nd_parent := bt_page t1\<rparr>)"
    proof (cases "kt \<in> set (kids_of t2)")
      case False
      then have k1: "kt \<in> set (kids_of t1)" using kt by (simp add: K_def)
      have "bt_page (snd kt) \<in> set (kids_pages (kids_of t1))" using subsetD [OF roots_sub] k1 by blast
      moreover have "set (kids_pages (kids_of t1)) \<inter> set (kids_pages (kids_of t2)) = {}" using dK unfolding K_def map_append concat_append distinct_append by blast
      ultimately have "bt_page (snd kt) \<notin> bt_page ` snd ` set (kids_of t2)" "bt_page (snd kt) \<in> set P"
        using subsetD [OF roots_sub [of "kids_of t2"]] by (blast, simp add: P_def K_def)
      then show ?thesis using out rep_parent [OF nb(4) [OF k1]] by simp
    qed (rule k2)
    show "core (ix_nodes s' x) = core (ix_nodes s x)" if "x \<in> set (kids_pages K)" "x \<notin> bt_page ` snd ` set K" for x
      using that roots(2) by (intro out) (auto simp: P_def)
  qed
  then have ru: "rep (ix_nodes s') p u" using n1 c(1-4) by (intro rep_unfold [THEN iffD2]) (auto simp: K_def)
  have far: "core (ix_nodes s' x) = core (ix_nodes s x)" if "x \<in> set (kids_pages X) \<union> set (kids_pages Y) \<union> set (ctx_pages fs)" for x
  proof (rule out)
    have "x \<notin> set (kids_pages K)" using that nb(7) by auto
    then show "x \<notin> bt_page ` snd ` set (kids_of t2)" using roots by blast
  qed (use that in \<open>auto simp: P_def\<close>)
  have "rep (ix_nodes s') p (snd kt)" if kt: "kt \<in> set (X @ Y)" for kt
  proof -
    have "set (tree_pages (snd kt)) \<subseteq> set (kids_pages X) \<union> set (kids_pages Y)" using kt by auto
    then have "\<forall>x \<in> set (tree_pages (snd kt)). core (ix_nodes s' x) = core (ix_nodes s x)" using far by blast
    then show ?thesis using rep_cong nb(6) [OF kt] by blast
  qed
  then have "rep (ix_nodes s') (top_page fs) (BNode p (X @ (a, u) # Y))" using np ru c(1) by (auto simp: core_def kid_pair_def)
  moreover have "repc (ix_nodes s') fs p" using st'(1) repc_cong [of fs "ix_nodes s'" "ix_nodes s" p] far by blast
  moreover have "distinct (tree_pages (BNode p (X @ (a, u) # Y)) @ ctx_pages fs)" using mset_eq_imp_distinct_iff [OF m1] dP by simp
  moreover have one: "1 \<notin> set (p # bt_page t1 # bt_page t2 # P)" using st unfolding stored_plug m2 by blast
  moreover have "\<exists>fl. alloc_ok s' (insert 1 (set (p # bt_page t1 # P))) fl"
  proof -
    obtain fl where "alloc_ok s (insert 1 (set (p # bt_page t1 # bt_page t2 # P))) fl" using st unfolding stored_plug m2 by blast
    from alloc_release [OF this _ _ _ _ fr h(1,2), of "set (p # bt_page t1 # P)"] show ?thesis using one dP by auto
  qed
  ultimately show ?thesis unfolding u_def [symmetric] using st'(2) h(3) ch unfolding stored_plug m1s by (simp add: bt_page_plug u_def)
qed

end
