(* ===== verification/Rmdb_Index_Props.thy ===== *)
theory Rmdb_Index_Props
  imports Rmdb_Index_Ops
begin

text \<open>
  Lookup and insertion of the B+ tree refine the operations on the sorted list of entries, and a ticket that still matches leads to the leaf a new descent would find.
\<close>

lemma leaf_wf_in_bounds: "leaf_wf h m lo hi es \<longleftrightarrow> m \<le> length es \<and> length es \<le> btree_order h \<and> in_bounds h lo hi es"
  by (auto simp: leaf_wf_def in_bounds_def)

lemma in_bounds_insert:
  assumes "in_bounds h lo hi es" "valid_key (ix_cols h) key" "\<not> has_key (ix_cols h) key es" "ge_lo lo (hord h key)" "lt_hi hi (hord h key)"
  shows "in_bounds h lo hi (pairs_insert (ix_cols h) key v es)" "length (pairs_insert (ix_cols h) key v es) = Suc (length es)"
proof -
  let ?P = "\<lambda>p. hord h (fst p) < hord h key"
  define xs where "xs = takeWhile ?P es"
  define ys where "ys = dropWhile ?P es"
  have b: "keys_valid (ix_cols h) es" "node_sorted (ix_cols h) es" "\<forall>e \<in> set es. ge_lo lo (hord h (fst e)) \<and> lt_hi hi (hord h (fst e))" using assms(1) by (auto simp: in_bounds_def)
  note s = node_sorted_split [OF b(2) xs_def ys_def]
  have es: "es = xs @ ys" using s by blast
  have y: "\<forall>p \<in> set ys. hord h key < hord h (fst p)"
  proof
    fix p assume "p \<in> set ys"
    then have "hord h key \<le> hord h (fst p)" "hord h (fst p) \<noteq> hord h key" using s assms(3) by (auto simp: es has_key_def)
    then show "hord h key < hord h (fst p)" by simp
  qed
  have i: "pairs_insert (ix_cols h) key v es = xs @ (key, v) # ys" by (simp add: pairs_insert_def xs_def ys_def)
  have "node_sorted (ix_cols h) (xs @ (key, v) # ys)" using b(2) s y unfolding node_sorted_def es by (auto simp: sorted_wrt_append)
  then show "in_bounds h lo hi (pairs_insert (ix_cols h) key v es)" unfolding i using b assms(2,4,5) unfolding es by (auto simp: in_bounds_def keys_valid_def)
  show "length (pairs_insert (ix_cols h) key v es) = Suc (length es)" unfolding i using arg_cong [OF es, of length] by simp
qed

text \<open>Page marks, the log and the header on disk are not part of the tree.\<close>

definition tree_part :: "ix_index \<Rightarrow> (int \<Rightarrow> ix_node) \<times> ix_file_hdr \<times> int \<times> nat" where
  "tree_part s = (ix_nodes s, ix_hdr s, ix_fd2pageno s, structural_epoch s)"

lemma tree_part_simps [simp]:
  "tree_part (mark_node_dirty n l s) = tree_part s" "tree_part (flush_file_hdr_for_lsn l s) = tree_part s"
  by (simp_all add: tree_part_def mark_node_dirty_def flush_file_hdr_for_lsn_def flush_file_hdr_def)

lemma ix_inv_part: "tree_part s' = tree_part s \<Longrightarrow> ix_inv s' t = ix_inv s t"
  by (rule ix_inv_cong) (simp_all add: tree_part_def)

lemma at_key_leaf:
  assumes "ix_inv s t" "at_key s t key fs p es m lo hi"
  shows "nd_is_leaf (ix_nodes s p)" "nd_pairs (ix_nodes s p) = es" "keys_valid (cols s) es" "node_sorted (cols s) es"
proof -
  have t: "t = plug fs (BLeaf p es)" "leaf_wf (ix_hdr s) m lo hi es" using assms(2) by (auto simp: at_key_def)
  have "rep (ix_nodes s) IX_NO_PAGE (plug fs (BLeaf p es))" using assms(1) unfolding t(1) ix_inv_def by (auto simp: tree_at_def)
  then show "nd_is_leaf (ix_nodes s p)" "nd_pairs (ix_nodes s p) = es" by (simp_all add: rep_plug)
  show "keys_valid (cols s) es" "node_sorted (cols s) es" using t(2) by (auto simp: leaf_wf_def)
qed

text \<open>The result of an insertion on the exclusive path.\<close>

definition inserted :: "byte list \<Rightarrow> rid \<Rightarrow> ix_index \<Rightarrow> bt \<Rightarrow> ix_index \<Rightarrow> bool" where
  "inserted key v s t s' \<longleftrightarrow> (\<exists>t'. ix_inv s' t' \<and> hstat (ix_hdr s') = hstat (ix_hdr s) \<and> entries t' = pairs_insert (cols s) key v (entries t))"

lemma inserted_part: "tree_part s' = tree_part s1 \<Longrightarrow> inserted key v s t s' = inserted key v s t s1"
  unfolding inserted_def using ix_inv_part [of s' s1] by (simp add: tree_part_def)

lemma leaf_insert:
  assumes inv: "ix_inv s t" and pos: "at_key s t key fs p es m lo hi" and k: "valid_key (cols s) key"
  shows "node_insert (cols s) key v (ix_nodes s p) = (if has_key (cols s) key (entries t) then Inl DuplicateKeyError else Inr (ix_nodes s p\<lparr>nd_pairs := pairs_insert (cols s) key v es\<rparr>))"
    and "\<not> has_key (cols s) key (entries t) \<Longrightarrow> length es < btree_order (ix_hdr s) \<Longrightarrow> inserted key v s t (upd_node p (\<lambda>n. n\<lparr>nd_pairs := pairs_insert (cols s) key v es\<rparr>) s)"
proof -
  let ?h = "ix_hdr s"
  have hok: "hdr_ok ?h" using inv by (simp add: ix_inv_def)
  note lf = at_key_leaf [OF inv pos]
  have a: "t = plug fs (BLeaf p es)" "hole ?h fs 0 m lo hi" "leaf_wf ?h m lo hi es" "ge_lo lo (hord ?h key)" "lt_hi hi (hord ?h key)" using pos by (auto simp: at_key_def)
  show "node_insert (cols s) key v (ix_nodes s p) = (if has_key (cols s) key (entries t) then Inl DuplicateKeyError else Inr (ix_nodes s p\<lparr>nd_pairs := pairs_insert (cols s) key v es\<rparr>))"
    using node_insert_spec [of "cols s" "ix_nodes s p" key v] lf k at_key_pairs(2) [OF pos hok] by simp
  assume "\<not> has_key (cols s) key (entries t)" "length es < btree_order ?h"
  then have "leaf_wf ?h m lo hi (pairs_insert (cols s) key v es)"
    using in_bounds_insert [of ?h lo hi es key v] a k at_key_pairs(2) [OF pos hok] unfolding leaf_wf_in_bounds by simp
  then have "ix_inv (upd_node p (\<lambda>n. n\<lparr>nd_pairs := pairs_insert (cols s) key v es\<rparr>) s) (plug fs (BLeaf p (pairs_insert (cols s) key v es)))"
    by (rule leaf_replace [OF inv [unfolded a(1)] a(2)])
  then show "inserted key v s t (upd_node p (\<lambda>n. n\<lparr>nd_pairs := pairs_insert (cols s) key v es\<rparr>) s)"
    using at_key_pairs(1) [OF pos hok, of v] unfolding inserted_def by (intro exI [of _ "plug fs (BLeaf p (pairs_insert (cols s) key v es))"]) (simp add: entries_plug upd_node_def)
qed

lemma upd_node_self: "upd_node n (\<lambda>_. f (ix_nodes s n)) s = upd_node n f s"
  by (simp add: upd_node_def)

lemma insert_slow_ok:
  assumes inv: "ix_inv s t" and k: "valid_key (cols s) key" and room: "2 * ix_num_pages (ix_hdr s) + 2 < 2 ^ 31" and tk: "ticket_leaf tk key s = find_leaf_page key False s"
  shows "has_key (cols s) key (entries t) \<Longrightarrow> insert_slow key v l fh tk s = (Throw DuplicateKeyError, s)"
    and "\<not> has_key (cols s) key (entries t) \<Longrightarrow> \<exists>n s'. insert_slow key v l fh tk s = (Ret n, s') \<and> inserted key v s t s'"
proof -
  let ?h = "ix_hdr s"
  obtain fs p es m lo hi where pos: "at_key s t key fs p es m lo hi" by (rule key_position [OF inv k])
  have hok: "hdr_ok ?h" using inv by (simp add: ix_inv_def)
  note lf = at_key_leaf [OF inv pos] and li = leaf_insert [OF inv pos k]
  have a: "t = plug fs (BLeaf p es)" "hole ?h fs 0 m lo hi" "leaf_wf ?h m lo hi es" "ge_lo lo (hord ?h key)" "lt_hi hi (hord ?h key)"
      "find_leaf_page key False s = Ret p" "int (length fs) + 3 \<le> ix_num_pages ?h" using pos by (auto simp: at_key_def)
  show "insert_slow key v l fh tk s = (Throw DuplicateKeyError, s)" if "has_key (cols s) key (entries t)"
    using that li(1) lf(1) by (simp add: insert_slow_def tk a(6) fetch_node_def)
  assume nk: "\<not> has_key (cols s) key (entries t)"
  let ?es = "pairs_insert (cols s) key v es"
  let ?s1 = "upd_node p (\<lambda>n. n\<lparr>nd_pairs := ?es\<rparr>) s"
  let ?step = "\<lambda>s1. if get_size (fetch_node p s1) \<ge> get_max_size (ix_hdr s1) then
                   case split p l s1 of (new_node, s2) \<Rightarrow>
                   obind (insert_into_parent (nat (ix_num_pages (ix_hdr s2))) p (get_key (fetch_node new_node s2) 0) new_node l) (\<lambda>_ s3. (Ret (), mark_node_dirty new_node l s3)) s2
                 else (Ret (), s1)"
  have ib: "in_bounds ?h lo hi ?es" "length ?es = Suc (length es)" using in_bounds_insert [of ?h lo hi es key v] a(3-5) k nk at_key_pairs(2) [OF pos hok] unfolding leaf_wf_in_bounds by simp_all
  have "\<exists>s3. ?step ?s1 = (Ret (), s3) \<and> inserted key v s t s3"
  proof (cases "length es < btree_order ?h")
    case True
    then show ?thesis using li(2) [OF nk] ib(2) by (simp add: get_size_def fetch_node_def upd_node_def get_max_size_def)
  next
    case False
    then have len: "length ?es = get_max_size ?h" using ib(2) a(3) by (simp add: get_max_size_def leaf_wf_def)
    obtain q s2 where sp: "split p l ?s1 = (q, s2)" by fastforce
    obtain s3 t' where g: "insert_into_parent (nat (ix_num_pages (ix_hdr s2))) p (get_key (ix_nodes s2 q) 0) q l s2 = (Ret (), s3)" "ix_inv s3 t'" "hstat (ix_hdr s3) = hstat ?h"
        "entries t' = concat (map snd (lefts fs)) @ ?es @ concat (map snd (rights fs))"
      using leaf_overflow [OF inv [unfolded a(1)] a(2) ib(1) len room a(7) sp] by blast
    then have "inserted key v s t s3" unfolding inserted_def using at_key_pairs(1) [OF pos hok, of v] by auto
    then have "inserted key v s t (mark_node_dirty q l s3)" using inserted_part [of "mark_node_dirty q l s3" s3] by simp
    moreover have "?step ?s1 = (Ret (), mark_node_dirty q l s3)" using len g(1) sp by (simp add: get_size_def fetch_node_def upd_node_def)
    ultimately show ?thesis by blast
  qed
  then obtain s3 where s3: "?step ?s1 = (Ret (), s3)" "inserted key v s t s3" by blast
  have ni: "node_insert (cols s) key v (ix_nodes s p) = Inr (ix_nodes s p\<lparr>nd_pairs := ?es\<rparr>)" using li(1) nk by simp
  let ?s4 = "mark_node_dirty p l s3"
  let ?s5 = "if fh \<and> (\<not> header_dirty_flush ?s4 \<or> dynamic_header ?h \<noteq> dynamic_header (ix_hdr ?s4)) then flush_file_hdr_for_lsn l ?s4 else ?s4"
  have "insert_slow key v l fh tk s = (Ret p, ?s5)"
    unfolding insert_slow_def tk a(6) fetch_node_def outcome.case if_P [OF lf(1)] ni sum.case upd_node_self [of p "\<lambda>n. n\<lparr>nd_pairs := ?es\<rparr>"]
    using s3(1) unfolding fetch_node_def by (subst obind_simps(1)) (simp_all add: Let_def)
  moreover have "inserted key v s t ?s5" using s3(2) inserted_part [of ?s5 s3] by simp
  ultimately show "\<exists>n s'. insert_slow key v l fh tk s = (Ret n, s') \<and> inserted key v s t s'" by blast
qed

lemma insert_fast_ok:
  assumes inv: "ix_inv s t" and k: "valid_key (cols s) key" and tk: "ticket_leaf tk key s = find_leaf_page key False s"
  shows "insert_fast key v l tk s = (Ret None, s) \<or> has_key (cols s) key (entries t) \<and> insert_fast key v l tk s = (Throw DuplicateKeyError, s)
    \<or> (\<exists>n s'. \<not> has_key (cols s) key (entries t) \<and> insert_fast key v l tk s = (Ret (Some n), s') \<and> inserted key v s t s')"
proof -
  obtain fs p es m lo hi where pos: "at_key s t key fs p es m lo hi" by (rule key_position [OF inv k])
  note lf = at_key_leaf [OF inv pos] and li = leaf_insert [OF inv pos k]
  have a: "find_leaf_page key False s = Ret p" using pos by (auto simp: at_key_def)
  let ?s1 = "upd_node p (\<lambda>n. n\<lparr>nd_pairs := pairs_insert (cols s) key v es\<rparr>) s"
  have f: "insert_fast key v l tk s = (if length es < btree_order (ix_hdr s) then
      if has_key (cols s) key (entries t) then (Throw DuplicateKeyError, s) else (Ret (Some p), mark_node_dirty p l ?s1) else (Ret None, s))"
    using lf(1,2) li(1) upd_node_self [of p "\<lambda>n. n\<lparr>nd_pairs := pairs_insert (cols s) key v es\<rparr>" s]
    by (simp add: insert_fast_def tk a fetch_node_def get_size_def get_max_size_def Let_def)
  have "inserted key v s t (mark_node_dirty p l ?s1)" if "\<not> has_key (cols s) key (entries t)" "length es < btree_order (ix_hdr s)"
    using li(2) [OF that] inserted_part [of "mark_node_dirty p l ?s1" ?s1] by simp
  then show ?thesis unfolding f by (simp split: if_split)
qed

lemma insert_entry_ok:
  assumes inv: "ix_inv s t" and k: "valid_key (cols s) key" and room: "2 * ix_num_pages (ix_hdr s) + 2 < 2 ^ 31" and tk: "ticket_leaf tk key s = find_leaf_page key False s"
  shows "has_key (cols s) key (entries t) \<Longrightarrow> insert_entry key v l fh tk s = (Throw DuplicateKeyError, s)"
    and "\<not> has_key (cols s) key (entries t) \<Longrightarrow> \<exists>n s'. insert_entry key v l fh tk s = (Ret n, s') \<and> inserted key v s t s'"
proof -
  note slow = insert_slow_ok [OF inv k room]
  have tn: "ticket_leaf None key s = find_leaf_page key False s" by (simp add: ticket_leaf_def ticket_matches_def)
  show "insert_entry key v l fh tk s = (Throw DuplicateKeyError, s)" if "has_key (cols s) key (entries t)"
    using insert_fast_ok [OF inv k tk, of v l] slow(1) [OF _ that] tn tk that by (auto simp: insert_entry_def)
  assume nk: "\<not> has_key (cols s) key (entries t)"
  show "\<exists>n s'. insert_entry key v l fh tk s = (Ret n, s') \<and> inserted key v s t s'"
  proof (cases "concurrent_leaf_insert s")
    case True
    consider "insert_fast key v l tk s = (Ret None, s)" | n s' where "insert_fast key v l tk s = (Ret (Some n), s')" "inserted key v s t s'" using insert_fast_ok [OF inv k tk, of v l] nk by blast
    then show ?thesis
    proof cases
      case 1
      then have "insert_entry key v l fh tk s = insert_slow key v l fh None s" using True by (simp add: insert_entry_def)
      then show ?thesis using slow(2) [OF tn nk] by simp
    next
      case 2
      let ?s2 = "if fh \<and> \<not> header_dirty_flush s' then flush_file_hdr_for_lsn l s' else s'"
      have "insert_entry key v l fh tk s = (Ret n, ?s2)" using True 2(1) by (simp add: insert_entry_def)
      moreover have "inserted key v s t ?s2" using 2(2) inserted_part [of ?s2 s'] by simp
      ultimately show ?thesis by blast
    qed
  next
    case False
    then show ?thesis using slow(2) [OF tk nk] by (simp add: insert_entry_def)
  qed
qed

subsection \<open>Tickets\<close>

text \<open>The descent reads the internal nodes and the type of the leaf.\<close>

definition routing :: "ix_node \<Rightarrow> bool \<times> ix_pair list" where
  "routing nd = (nd_is_leaf nd, if nd_is_leaf nd then [] else nd_pairs nd)"

lemma find_leaf_routing:
  assumes "\<And>x. routing (ix_nodes s' x) = routing (ix_nodes s x)" "cols s' = cols s"
  shows "find_leaf f ff key n s' = find_leaf f ff key n s"
proof (induction f arbitrary: n)
  case (Suc f)
  have r: "nd_is_leaf (ix_nodes s' n) = nd_is_leaf (ix_nodes s n)" "\<not> nd_is_leaf (ix_nodes s n) \<Longrightarrow> nd_pairs (ix_nodes s' n) = nd_pairs (ix_nodes s n)"
    using assms(1) [of n] by (auto simp: routing_def split: if_splits)
  then show ?case using Suc assms(2)
    by (auto simp: fetch_node_def Let_def value_at_def get_rid_def internal_lookup_def upper_bound_def get_key_def get_size_def)
qed simp

text \<open>What an operation may do: raise the epoch, or leave the way to every leaf as it was.\<close>

definition routes_kept :: "ix_index \<Rightarrow> ix_index \<Rightarrow> bool" where
  "routes_kept s s' \<longleftrightarrow> ix_fd s' = ix_fd s \<and> structural_epoch s \<le> structural_epoch s' \<and>
     (structural_epoch s' = structural_epoch s \<longrightarrow> (\<forall>x. routing (ix_nodes s' x) = routing (ix_nodes s x)) \<and> ix_hdr s' = ix_hdr s)"

lemma routes_kept_refl: "routes_kept s s" by (simp add: routes_kept_def)

lemma routes_kept_trans: "routes_kept s s1 \<Longrightarrow> routes_kept s1 s2 \<Longrightarrow> routes_kept s s2"
  unfolding routes_kept_def by auto

lemma routes_kept_find: "routes_kept s s' \<Longrightarrow> structural_epoch s' = structural_epoch s \<Longrightarrow> find_leaf_page key ff s' = find_leaf_page key ff s"
  using find_leaf_routing [of s' s] by (simp add: routes_kept_def find_leaf_page_def)

definition stamp :: "ix_index \<Rightarrow> int \<times> nat" where
  "stamp s = (ix_fd s, structural_epoch s)"

lemma stamp_simps [simp]:
  "stamp (upd_node n f s) = stamp s" "stamp (upd_hdr g s) = stamp s" "stamp (mark_node_dirty n l s) = stamp s" "stamp (update_root_page_no n s) = stamp s"
  "stamp (flush_file_hdr_for_lsn l s) = stamp s" "stamp (release_node_handle n s) = stamp s" "stamp (erase_leaf n l s) = stamp s"
  "stamp (BumpRoutingEpoch s) = (fst (stamp s), Suc (snd (stamp s)))" "stamp (maintain_child n l i s) = stamp s"
  by (simp_all add: stamp_def upd_node_def upd_hdr_def mark_node_dirty_def update_root_page_no_def flush_file_hdr_for_lsn_def flush_file_hdr_def release_node_handle_def
      erase_leaf_def BumpRoutingEpoch_def maintain_child_def Let_def)

lemma stamp_fold [simp]: "stamp (fold (maintain_child n l) is s) = stamp s"
  by (induction "is" arbitrary: s) simp_all

lemma stamp_create [simp]: "stamp (snd (create_node s)) = stamp s"
  by (simp add: create_node_def Let_def stamp_def upd_node_def upd_hdr_def)

lemma stamp_split: "split p l s = (q, s') \<Longrightarrow> stamp s' = (fst (stamp s), Suc (snd (stamp s)))"
proof -
  assume sp: "split p l s = (q, s')"
  obtain n s1 where c: "create_node (BumpRoutingEpoch s) = (n, s1)" by fastforce
  then have "stamp s1 = (fst (stamp s), Suc (snd (stamp s)))" using stamp_create [of "BumpRoutingEpoch s"] by simp
  then show ?thesis using sp by (auto simp: split_def Let_def c split: if_splits)
qed

abbreviation later :: "ix_index \<Rightarrow> ix_index \<Rightarrow> bool" where
  "later s s' \<equiv> fst (stamp s') = fst (stamp s) \<and> snd (stamp s) \<le> snd (stamp s')"

lemma later_parent: "insert_into_parent f old key new l s = (r, s') \<Longrightarrow> later s s'"
proof (induction f arbitrary: old key new s r s')
  case (Suc f)
  let ?s = "BumpRoutingEpoch s"
  show ?case
  proof (cases "is_root_page (fetch_node old ?s)")
    case True
    obtain n s1 where "create_node ?s = (n, s1)" by fastforce
    then show ?thesis using Suc.prems True stamp_create [of ?s] by (auto simp: Let_def)
  next
    case False
    define par where "par = nd_parent (fetch_node old ?s)"
    define s2 where "s2 = upd_node new (\<lambda>n. n\<lparr>nd_parent := par\<rparr>) (upd_node par (insert_pair (find_child old (fetch_node par ?s) + 1) key (child_rid new)) ?s)"
    have s2: "stamp s2 = (fst (stamp s), Suc (snd (stamp s)))" by (simp add: s2_def)
    obtain q s3 where sp: "split par l s2 = (q, s3)" by fastforce
    obtain r4 s4 where r4: "insert_into_parent f par (get_key (fetch_node q s3) 0) q l s3 = (r4, s4)" by fastforce
    have "later s s4" using Suc.IH [OF r4] stamp_split [OF sp] s2 by simp
    moreover have "insert_into_parent (Suc f) old key new l s = (if get_size (fetch_node par s2) \<ge> get_max_size (ix_hdr s2) then
        obind (insert_into_parent f par (get_key (fetch_node q s3) 0) q l) (\<lambda>_ s4. (Ret (), mark_node_dirty par l (mark_node_dirty q l s4))) s3 else (Ret (), mark_node_dirty par l s2))"
      using False sp by (simp add: Let_def par_def s2_def)
    ultimately show ?thesis using Suc.prems s2 r4 by (cases r4) (auto split: if_splits)
  qed
qed simp

lemma find_leaf_is_leaf: "find_leaf f ff key n s = Ret p \<Longrightarrow> nd_is_leaf (ix_nodes s p)"
  by (induction f arbitrary: n) (auto simp: Let_def fetch_node_def split: if_splits)

lemma routes_kept_leaf: "nd_is_leaf (ix_nodes s p) \<Longrightarrow> nd_is_leaf nd \<Longrightarrow> routes_kept s (upd_node p (\<lambda>_. nd) s)"
  by (simp add: routes_kept_def upd_node_def routing_def)

lemma routes_kept_part: "tree_part s' = tree_part s1 \<Longrightarrow> ix_fd s' = ix_fd s1 \<Longrightarrow> routes_kept s s' = routes_kept s s1"
  by (simp add: routes_kept_def tree_part_def)

lemma ix_fd_simps [simp]: "ix_fd (mark_node_dirty n l s) = ix_fd s" "ix_fd (flush_file_hdr_for_lsn l s) = ix_fd s" "ix_fd (upd_node n f s) = ix_fd s"
  by (simp_all add: mark_node_dirty_def flush_file_hdr_for_lsn_def flush_file_hdr_def upd_node_def)

lemma routes_kept_mark [simp]:
  "routes_kept s (mark_node_dirty n l s1) = routes_kept s s1" "routes_kept s (flush_file_hdr_for_lsn l s1) = routes_kept s s1"
  by (rule routes_kept_part; simp)+

lemma routes_kept_later: "fst (stamp s') = fst (stamp s) \<Longrightarrow> snd (stamp s) < snd (stamp s') \<Longrightarrow> routes_kept s s'"
  by (simp add: routes_kept_def stamp_def)

lemma node_insert_leaf: "node_insert cs key v nd = Inr nd1 \<Longrightarrow> nd_is_leaf nd1 = nd_is_leaf nd"
  by (auto simp: node_insert_def insert_pair_def insert_pairs_def Let_def split: if_splits)

lemma node_remove_leaf: "nd_is_leaf (node_remove cs key nd) = nd_is_leaf nd"
  by (simp add: node_remove_def erase_pair_def Let_def)

lemma routes_insert_slow: "insert_slow key v l fh tk s = (r, s') \<Longrightarrow> routes_kept s s'"
proof -
  assume e: "insert_slow key v l fh tk s = (r, s')"
  define loc where "loc = (case ticket_leaf tk key s of Ret n \<Rightarrow> if nd_is_leaf (fetch_node n s) then Ret n else find_leaf_page key False s | e \<Rightarrow> e)"
  show ?thesis
  proof (cases "\<exists>p nd1. loc = Ret p \<and> node_insert (cols s) key v (fetch_node p s) = Inr nd1")
    case True
    then obtain p nd1 where p: "loc = Ret p" "node_insert (cols s) key v (fetch_node p s) = Inr nd1" by blast
    have lf: "nd_is_leaf (ix_nodes s p)" using p(1) find_leaf_is_leaf [of _ False key _ s p] unfolding loc_def
      by (auto simp: fetch_node_def find_leaf_page_def split: outcome.splits if_splits)
    define s1 where "s1 = upd_node p (\<lambda>_. nd1) s"
    have k: "routes_kept s s1" using routes_kept_leaf [OF lf] node_insert_leaf [OF p(2)] lf by (simp add: s1_def fetch_node_def)
    obtain q s2 where sp: "split p l s1 = (q, s2)" by fastforce
    obtain r3 s3 where ip: "insert_into_parent (nat (ix_num_pages (ix_hdr s2))) p (get_key (fetch_node q s2) 0) q l s2 = (r3, s3)" by fastforce
    have "fst (stamp s3) = fst (stamp s)" "snd (stamp s) < snd (stamp s3)" using later_parent [OF ip] stamp_split [OF sp] by (simp_all add: s1_def)
    then have k3: "routes_kept s s3" by (rule routes_kept_later)
    show ?thesis using e k k3 sp ip unfolding insert_slow_def loc_def [symmetric] p(1) outcome.case p(2) sum.case s1_def [symmetric]
      by (cases r3) (auto simp: obind_def Let_def split: if_splits)
  next
    case False
    then show ?thesis using e routes_kept_refl unfolding insert_slow_def loc_def [symmetric] by (auto split: outcome.splits sum.splits)
  qed
qed

lemma routes_insert: "insert_entry key v l fh tk s = (r, s') \<Longrightarrow> routes_kept s s'"
proof -
  assume e: "insert_entry key v l fh tk s = (r, s')"
  obtain r1 s1 where f: "insert_fast key v l tk s = (r1, s1)" by fastforce
  have "routes_kept s (upd_node p (\<lambda>_. nd1) s)" if "nd_is_leaf (ix_nodes s p)" "node_insert (cols s) key v (ix_nodes s p) = Inr nd1" for p nd1
    using that routes_kept_leaf node_insert_leaf by blast
  then have k1: "routes_kept s s1"
    using f routes_kept_refl [of s] by (auto simp: insert_fast_def Let_def fetch_node_def split: outcome.splits if_splits sum.splits)
  have "routes_kept s s'" if "insert_slow key v l fh None s1 = (r, s')" using routes_kept_trans [OF k1 routes_insert_slow [OF that]] .
  then show ?thesis using e f k1 routes_insert_slow [of key v l fh tk s r s'] unfolding insert_entry_def
    by (cases r1) (auto simp: obind_def split: if_splits option.splits)
qed

lemma stamp_maintain_parent: "maintain_parent_loop f c p k l s = (r, s') \<Longrightarrow> stamp s' = stamp s"
proof (induction f arbitrary: c p k s)
  case (Suc f)
  define s1 where "s1 = upd_node p (set_key (find_child c (fetch_node p s)) k) s"
  have "stamp s' = stamp s" if "maintain_parent_loop f p (nd_parent (fetch_node p s)) (get_key (fetch_node p s1) 0) l (mark_node_dirty p l s1) = (r, s')"
    using Suc.IH [OF that] by (simp add: s1_def)
  then show ?case using Suc.prems by (auto simp: Let_def s1_def split: if_splits)
qed simp

lemma stamp_delete_simps:
  "adjust_root n l s = (b, s') \<Longrightarrow> later s s'" "stamp (redistribute nb n p i l s) = (fst (stamp s), Suc (snd (stamp s)))" "stamp (merge_nodes x y p l s) = stamp s"
  by (auto simp: adjust_root_def redistribute_def merge_nodes_def Let_def split: if_splits prod.splits)

lemma later_coalesce: "coalesce_or_redistribute f n l s = (r, s') \<Longrightarrow> later s s' \<and> (snd (stamp s) = snd (stamp s') \<longrightarrow> s' = s)"
proof (induction f arbitrary: n s r s')
  case (Suc f)
  define s0 where "s0 = BumpRoutingEpoch s"
  define par where "par = nd_parent (fetch_node n s0)"
  define idx where "idx = find_child n (fetch_node par s0)"
  define nb where "nb = value_at (fetch_node par s0) (if idx > 0 then idx - 1 else idx + 1)"
  define s1 where "s1 = mark_node_dirty nb l (merge_nodes (if idx > 0 then nb else n) (if idx > 0 then n else nb) par l s0)"
  obtain b sa where ar: "adjust_root n l s0 = (b, sa)" by fastforce
  obtain rm sm where mp: "maintain_parent n l s0 = (rm, sm)" by fastforce
  obtain r2 s2 where co: "coalesce_or_redistribute f par l s1 = (r2, s2)" by fastforce
  have s0: "stamp s0 = (fst (stamp s), Suc (snd (stamp s)))" by (simp add: s0_def)
  have "later s0 sa" "stamp sm = stamp s0" "stamp s1 = stamp s0"
    using stamp_delete_simps(1) [OF ar] stamp_maintain_parent [OF mp [unfolded maintain_parent_def]] by (simp_all add: s1_def stamp_delete_simps(3))
  moreover have "later s1 s2" using Suc.IH [OF co] by simp
  moreover have "coalesce_or_redistribute (Suc f) n l s = (if is_root_page (fetch_node n s0) then (Ret b, sa)
      else if get_size (fetch_node n s0) \<ge> get_min_size (ix_hdr s0) then obind (maintain_parent n l) (\<lambda>_ s1. (Ret False, s1)) s0
      else if get_size (fetch_node n s0) + get_size (fetch_node nb s0) \<ge> 2 * get_min_size (ix_hdr s0) then (Ret False, mark_node_dirty par l (mark_node_dirty nb l (redistribute nb n par idx l s0)))
      else obind (coalesce_or_redistribute f par l) (\<lambda>_ s2. (Ret ((if idx > 0 then n else nb) = n), mark_node_dirty par l s2)) s1)"
    unfolding coalesce_or_redistribute.simps Let_def s0_def [symmetric] ar par_def [symmetric] idx_def [symmetric] nb_def [symmetric] s1_def [symmetric] by simp
  ultimately have "fst (stamp s') = fst (stamp s) \<and> snd (stamp s) < snd (stamp s')"
    using Suc.prems s0 mp co stamp_delete_simps(2) [of nb n par idx l s0] by (cases rm; cases r2) (auto simp: obind_def split: if_splits)
  then show ?case by auto
qed simp

lemma routes_delete: "delete_entry key l fh s = (r, s') \<Longrightarrow> routes_kept s s'"
proof -
  assume e: "delete_entry key l fh s = (r, s')"
  show ?thesis
  proof (cases "\<exists>p. find_leaf_page key False s = Ret p")
    case True
    then obtain p where p: "find_leaf_page key False s = Ret p" by blast
    define s1 where "s1 = upd_node p (node_remove (cols s) key) s"
    define rem where "rem \<longleftrightarrow> get_size (fetch_node p s1) < get_size (fetch_node p s)"
    define s2 where "s2 = (if rem \<and> get_size (fetch_node p s) > 0 \<and> ix_compare (cols s) (get_key (fetch_node p s) 0) key = 0 then BumpRoutingEpoch s1 else s1)"
    obtain r3 s3 where co: "coalesce_or_redistribute (nat (ix_num_pages (ix_hdr s2))) p l s2 = (r3, s3)" by fastforce
    have lf: "nd_is_leaf (ix_nodes s p)" using p find_leaf_is_leaf by (auto simp: find_leaf_page_def)
    have "routes_kept s s1" using routes_kept_leaf [OF lf, of "node_remove (cols s) key (ix_nodes s p)"] lf by (simp add: s1_def node_remove_leaf upd_node_self)
    then have k2: "routes_kept s s2" using routes_kept_later [of "BumpRoutingEpoch s1" s] by (simp add: s2_def s1_def)
    have "s3 = s2 \<or> snd (stamp s2) < snd (stamp s3)" "fst (stamp s3) = fst (stamp s2)" using later_coalesce [OF co] by auto
    then have k3: "routes_kept s s3" using routes_kept_trans [OF k2] routes_kept_later [of s3 s2] k2 by auto
    show ?thesis using e k2 k3 co unfolding delete_entry_def p outcome.case Let_def s1_def [symmetric] rem_def [symmetric] s2_def [symmetric]
      by (cases r3; cases rem) (auto simp: obind_def Let_def split: if_splits)
  next
    case False
    then show ?thesis using e routes_kept_refl by (cases "find_leaf_page key False s") (auto simp: delete_entry_def)
  qed
qed

subsection \<open>The empty index\<close>

lemma reset_inv:
  assumes "hdr_ok (ix_hdr s)"
  shows "\<exists>s'. reset_to_empty False s = (Ret (), s') \<and> ix_inv s' (BLeaf 2 []) \<and> hstat (ix_hdr s') = hstat (ix_hdr s) \<and> ix_num_pages (ix_hdr s') = 3 \<and> ix_disk_hdr s' = ix_hdr s'"
proof -
  obtain s' where s': "reset_to_empty False s = (Ret (), s')" by (simp add: reset_to_empty_def Let_def)
  have h: "ix_hdr s' = ix_hdr s\<lparr>first_free_page := - 1, ix_num_pages := 3, root_page := 2, first_leaf := 2, last_leaf := 2\<rparr>" "ix_disk_hdr s' = ix_hdr s'" "ix_fd2pageno s' = 3"
      "ix_nodes s' 1 = empty_leaf 2" "ix_nodes s' 2 = empty_leaf 1"
    using s' by (auto simp: reset_to_empty_def Let_def upd_hdr_def upd_node_def flush_file_hdr_def BumpRoutingEpoch_def ix_consts)
  have "bwf (ix_hdr s') 0 (root_min 0) None None (BLeaf 2 [])" using assms by (simp add: root_min_def leaf_wf_def h(1) keys_valid_def node_sorted_def hdr_ok_def)
  then have "root_ok (ix_hdr s') (BLeaf 2 [])" unfolding root_ok_def by blast
  then have "tree_at (ix_hdr s') s' (BLeaf 2 []) []" using h by (simp add: tree_at_def alloc_ok_def empty_leaf_def IX_NO_PAGE_def)
  then have "ix_inv s' (BLeaf 2 [])" using assms h by (auto simp: ix_inv_def chain_ok_def hdr_ok_def empty_leaf_def)
  then show ?thesis using s' h by (auto simp: hstat_def)
qed

lemma routes_reset: "reset_to_empty b s = (r, s') \<Longrightarrow> routes_kept s s'"
  by (rule routes_kept_later) (auto simp: reset_to_empty_def Let_def stamp_def upd_node_def upd_hdr_def flush_file_hdr_def BumpRoutingEpoch_def split: if_splits)

text \<open>What happens to an index between two operations of a transaction.\<close>

inductive ix_step :: "ix_index \<Rightarrow> ix_index \<Rightarrow> bool" where
  Insert: "insert_entry key v l fh tk s = (r, s') \<Longrightarrow> ix_step s s'"
| Delete: "delete_entry key l fh s = (r, s') \<Longrightarrow> ix_step s s'"
| Reset: "reset_to_empty pinned s = (r, s') \<Longrightarrow> ix_step s s'"

lemma ix_steps_routes: "ix_step\<^sup>*\<^sup>* s s' \<Longrightarrow> routes_kept s s'"
proof (induction rule: rtranclp_induct)
  case base
  show ?case by (rule routes_kept_refl)
next
  case (step s1 s2)
  have "routes_kept s1 s2" using step.hyps(2) by (rule ix_step.cases) (auto intro: routes_insert routes_delete routes_reset)
  then show ?case by (rule routes_kept_trans [OF step.IH])
qed

subsection \<open>Properties\<close>

definition ex_index :: ix_index where
  "ex_index = snd (reset_to_empty False (IxIndexHandle_new 5 ex_ix_hdr (\<lambda>_. zero_node) True True))"

lemma ex_index: "ix_inv ex_index (BLeaf 2 [])" "ix_hdr ex_index = ex_ix_hdr" "cols ex_index = ex_cols"
proof -
  let ?s = "IxIndexHandle_new 5 ex_ix_hdr (\<lambda>_. zero_node) True True"
  have "hdr_ok (ix_hdr ?s)" by (simp add: IxIndexHandle_new_def ex_ix_hdr_def hdr_ok_def ex_cols_def cols_ok_def)
  then show "ix_inv ex_index (BLeaf 2 [])" using reset_inv [of ?s] by (auto simp: ex_index_def)
  show "ix_hdr ex_index = ex_ix_hdr" by (simp add: ex_index_def reset_to_empty_def Let_def upd_hdr_def upd_node_def flush_file_hdr_def BumpRoutingEpoch_def IxIndexHandle_new_def ex_ix_hdr_def ix_consts)
  then show "cols ex_index = ex_cols" by (simp add: ex_ix_hdr_def)
qed

lemma ex_valid: "valid_key ex_cols [7, 0, 0, 0]"
  by (simp add: ex_cols_def valid_key_def key_len_def)

text \<open>
  C31. Insertion refines insertion into the sorted list. On an index in order, of any height, inserting a key that is present reports the duplicate and changes nothing;
  any other key is inserted, whatever splits and new roots that takes, and leaves an index in order whose entries are the old ones and the new one at its place. The ticket
  of an earlier lookup may shorten the descent as long as it leads to the right leaf.
\<close>

theorem insert_entry_refines:
  assumes "ix_inv s t" and "valid_key (cols s) key" and "2 * ix_num_pages (ix_hdr s) + 2 < 2 ^ 31" and "ticket_leaf tk key s = find_leaf_page key False s"
  shows "if has_key (cols s) key (entries t) then insert_entry key v l fh tk s = (Throw DuplicateKeyError, s)
    else \<exists>n s' t'. insert_entry key v l fh tk s = (Ret n, s') \<and> ix_inv s' t' \<and> cols s' = cols s \<and> entries t' = pairs_insert (cols s) key v (entries t)"
proof (cases "has_key (cols s) key (entries t)")
  case True
  then show ?thesis using insert_entry_ok(1) [OF assms True, of v l fh] by simp
next
  case False
  obtain n s' t' where r: "insert_entry key v l fh tk s = (Ret n, s')" "ix_inv s' t'" "hstat (ix_hdr s') = hstat (ix_hdr s)" "entries t' = pairs_insert (cols s) key v (entries t)"
    using insert_entry_ok(2) [OF assms False, of v l fh] by (auto simp: inserted_def)
  then show ?thesis using hstatD(1) [OF r(3)] False by auto
qed

theorem insert_entry_refines_witness:
  "\<exists>n s' t'. insert_entry [7, 0, 0, 0] \<lparr>rid_page = 1, rid_slot = 1\<rparr> 9 True None ex_index = (Ret n, s') \<and> ix_inv s' t' \<and> entries t' = [([7, 0, 0, 0], \<lparr>rid_page = 1, rid_slot = 1\<rparr>)]"
  using insert_entry_refines [OF ex_index(1), of "[7, 0, 0, 0]" None "\<lparr>rid_page = 1, rid_slot = 1\<rparr>" 9 True] ex_valid ex_index(2,3)
  by (auto simp: ticket_leaf_def ticket_matches_def ex_ix_hdr_def has_key_def entries_def pairs_insert_def)

text \<open>
  C32. Lookup. On an index in order \<open>get_value\<close> returns the record identifier stored under the key, and nothing when the key is absent, with a ticket for the leaf of the key.
\<close>

theorem get_value_refines:
  assumes "ix_inv s t" and "valid_key (cols s) key"
  shows "\<exists>n. find_leaf_page key False s = Ret n
    \<and> get_value key s = Ret (pairs_lookup (cols s) key (entries t), \<lparr>tk_owner = ix_fd s, tk_leaf = n, tk_epoch = structural_epoch s, tk_key = key, tk_valid = True\<rparr>)"
proof -
  obtain fs p es m lo hi where pos: "at_key s t key fs p es m lo hi" by (rule key_position [OF assms])
  note lf = at_key_leaf [OF assms(1) pos]
  have "leaf_lookup (cols s) key (ix_nodes s p) = pairs_lookup (cols s) key (entries t)"
    using leaf_lookup_spec [of "cols s" "ix_nodes s p" key] lf assms at_key_pairs(3) [OF pos] by (simp add: ix_inv_def)
  then show ?thesis using pos by (auto simp: get_value_def fetch_node_def at_key_def)
qed

theorem get_value_refines_witness: "\<exists>tk. get_value [7, 0, 0, 0] ex_index = Ret (None, tk)"
  using get_value_refines [OF ex_index(1), of "[7, 0, 0, 0]"] ex_valid ex_index(3) by (auto simp: entries_def pairs_lookup_def)

text \<open>
  C33. Tickets. Whatever insertions, deletions and resets happen after a lookup, its ticket is either refused, because the structural epoch has moved, or leads
  to the very leaf that a new descent from the root finds: every operation that changes the way to some leaf raises the epoch.
\<close>

theorem ticket_sound:
  assumes "get_value key s = Ret (r, tk)" and "ix_step\<^sup>*\<^sup>* s s'"
  shows "ticket_leaf (Some tk) key s' = find_leaf_page key False s'"
proof -
  obtain n where n: "find_leaf_page key False s = Ret n" "tk_leaf tk = n" "tk_epoch tk = structural_epoch s"
    using assms(1) by (auto simp: get_value_def split: outcome.splits)
  have "find_leaf_page key False s' = Ret n" if "structural_epoch s' = structural_epoch s" using routes_kept_find [OF ix_steps_routes [OF assms(2)] that] n(1) by simp
  then show ?thesis using n(2,3) by (auto simp: ticket_leaf_def ticket_matches_def)
qed

theorem ticket_sound_witness:
  "\<exists>r tk s'. get_value [7, 0, 0, 0] ex_index = Ret (r, tk) \<and> ix_step ex_index s' \<and> ticket_leaf (Some tk) [7, 0, 0, 0] s' = find_leaf_page [7, 0, 0, 0] False s'"
proof -
  obtain r tk where g: "get_value [7, 0, 0, 0] ex_index = Ret (r, tk)"
    by (auto simp: get_value_def find_leaf_page_def ex_index(2) ex_ix_hdr_def fetch_node_def ex_index_def reset_to_empty_def Let_def upd_hdr_def upd_node_def empty_leaf_def
        flush_file_hdr_def BumpRoutingEpoch_def IxIndexHandle_new_def ix_consts numeral_eq_Suc)
  obtain q s' where s': "insert_entry [3, 0, 0, 0] \<lparr>rid_page = 1, rid_slot = 1\<rparr> 9 True None ex_index = (q, s')" by fastforce
  then have "ix_step ex_index s'" by (rule ix_step.Insert)
  then show ?thesis using ticket_sound [OF g, of s'] g by blast
qed

end
