(* ===== verification/Rmdb_Index_Coalesce.thy ===== *)
theory Rmdb_Index_Coalesce
  imports Rmdb_Index_Delete Rmdb_Index_Props
begin

text \<open>
  Merging two neighbours, the climb of \<open>coalesce_or_redistribute\<close> and the refinement of \<open>delete_entry\<close> to the removal from the sorted list of entries.
\<close>

subsection \<open>Merging\<close>

text \<open>The children of the right node, found through the moved pairs of the left one.\<close>

lemma value_at_moved:
  assumes "nd_pairs nd = ps @ map kid_pair ts" "n = length ps"
  shows "value_at nd ` set [n..<n + length ts] = bt_page ` snd ` set ts"
proof -
  have v: "value_at nd (n + i) = bt_page (snd (ts ! i))" if "i < length ts" for i
    using that by (simp add: value_at_def get_rid_def assms nth_append kid_pair_def child_rid_def)
  have "set [n..<n + length ts] = (\<lambda>i. n + i) ` {0..<length ts}" by (simp add: image_add_atLeastLessThan add.commute)
  then have "value_at nd ` set [n..<n + length ts] = (\<lambda>i. value_at nd (n + i)) ` {0..<length ts}" by (simp only: image_image)
  also have "\<dots> = (\<lambda>i. bt_page (snd (ts ! i))) ` {0..<length ts}" using v by (intro image_cong) auto
  also have "\<dots> = bt_page ` snd ` nth ts ` {0..<length ts}" by (simp add: image_image)
  finally show ?thesis by (simp add: nth_image)
qed

lemma merge_internal:
  assumes st: "stored s (plug fs (BNode p (X @ (a, t1) # (b, t2) # Y)))" and nl: "\<not> is_bleaf t1" "\<not> is_bleaf t2" and s': "s' = merge_nodes (bt_page t1) (bt_page t2) p l s"
  shows "stored s' (plug fs (BNode p (X @ (a, join t1 t2) # Y)))" "hstat (ix_hdr s') = hstat (ix_hdr s)" "ix_num_pages (ix_hdr s') = ix_num_pages (ix_hdr s)"
proof -
  note nb = neighbours [OF st refl]
  let ?p1 = "bt_page t1" and ?p2 = "bt_page t2"
  obtain ts2 where t2: "kids_of t2 = ts2" "bt_pairs t2 = map kid_pair ts2" using nl(2) by (cases t2) auto
  obtain ts1 where t1: "bt_pairs t1 = map kid_pair ts1" "kids_of t1 = ts1" using nl(1) by (cases t1) auto
  have d: "?p1 \<noteq> ?p2" "p \<noteq> ?p1" "p \<noteq> ?p2" using nb(7) by auto
  have kp: "x \<notin> {p, ?p1, ?p2}" if "x \<in> bt_page ` snd ` set ts2" for x
  proof -
    have "x \<in> set (kids_pages ts2)" using subsetD [OF roots_sub that] .
    then show ?thesis using nb(7) t2(1) by auto
  qed
  define s1 where "s1 = upd_node ?p1 (\<lambda>n. insert_pairs (get_size n) (nd_pairs (ix_nodes s ?p2)) n) s"
  have n1: "ix_nodes s1 ?p1 = (ix_nodes s ?p1)\<lparr>nd_pairs := bt_pairs t1 @ map kid_pair ts2\<rparr>" "\<And>x. x \<noteq> ?p1 \<Longrightarrow> ix_nodes s1 x = ix_nodes s x"
    using nb(2,3) t2 by (simp_all add: s1_def core_def insert_pairs_def get_size_def)
  let ?is = "[bt_size t1..<bt_size t1 + length ts2]"
  define s2 where "s2 = fold (maintain_child ?p1 l) ?is s1"
  have im: "value_at (ix_nodes s1 ?p1) ` set ?is = bt_page ` snd ` set ts2" using value_at_moved [of "ix_nodes s1 ?p1" "bt_pairs t1" ts2] n1(1) by simp
  have "\<not> nd_is_leaf (ix_nodes s1 ?p1)" using nb(2) nl by (simp add: n1 core_def)
  moreover have "\<forall>i \<in> set ?is. value_at (ix_nodes s1 ?p1) i \<noteq> ?p1" using kp im by (metis imageI insertCI)
  ultimately have m: "ix_nodes s2 = (\<lambda>x. if x \<in> bt_page ` snd ` set ts2 then (ix_nodes s1 x)\<lparr>nd_parent := ?p1\<rparr> else ix_nodes s1 x)" "ix_hdr s2 = ix_hdr s" "ix_fd2pageno s2 = ix_fd2pageno s"
    using maintain_children [of s1 ?p1 ?is l] unfolding im s2_def [symmetric] by (simp_all add: s1_def)
  have sz: "get_size (ix_nodes s ?p2) = length ts2" "get_size (ix_nodes s1 ?p1) = bt_size t1 + length ts2" "\<not> nd_is_leaf (ix_nodes s1 ?p2)"
    using nb(3) nl t2 n1 d by (simp_all add: core_def get_size_def)
  have sr: "s' = release_node_handle ?p2 (upd_node p (\<lambda>n. erase_pair (find_child ?p2 n) n) s2)"
    unfolding s' merge_nodes_def Let_def fetch_node_def s1_def [symmetric] using sz by (simp add: s2_def)
  have np2: "ix_nodes s2 p = ix_nodes s p" "ix_nodes s2 ?p2 = ix_nodes s ?p2" "ix_nodes s2 ?p1 = ix_nodes s1 ?p1" using kp d n1(2) by (auto simp: m(1))
  have "nd_pairs (ix_nodes s p) = map kid_pair (X @ (a, t1) # (b, t2) # Y)" using nb(1) by (simp add: core_def)
  note er = find_neighbour(2) [OF st this]
  have n': "ix_nodes s' = (ix_nodes s2)(p := (ix_nodes s p)\<lparr>nd_pairs := map kid_pair (X @ (a, t1) # Y)\<rparr>, ?p2 := (ix_nodes s ?p2)\<lparr>nd_next_free := first_free_page (ix_hdr s)\<rparr>)"
    "ix_hdr s' = (ix_hdr s)\<lparr>first_free_page := ?p2\<rparr>" "ix_fd2pageno s' = ix_fd2pageno s"
    using d er np2 m(2,3) by (simp_all add: sr release_node_handle_def)
  have lk: "link (ix_nodes s' x) = link (ix_nodes s x)" for x using n1 by (cases "x = ?p1") (auto simp: n' m(1) link_def)
  have nf: "nd_next_free (ix_nodes s' x) = nd_next_free (ix_nodes s x)" if "x \<noteq> ?p2" for x using n1 that by (cases "x = ?p1") (auto simp: n' m(1))
  show "stored s' (plug fs (BNode p (X @ (a, join t1 t2) # Y)))"
  proof (rule stored_join [OF st _ _ _ _ _ _ _ nf])
    have jl: "leaves (join t1 t2) = leaves t1 @ leaves t2" using nl by (cases t1; cases t2) auto
    have "chain_ok s (map fst (lefts fs @ leaves (BNode p (X @ (a, t1) # (b, t2) # Y)) @ rights fs))" using st unfolding stored_plug by blast
    then show "chain_ok s' (map fst (lefts fs @ (kids_leaves X @ leaves (join t1 t2) @ kids_leaves Y) @ rights fs))"
      using chain_ok_link [of _ s' s] lk n'(2) by (simp add: jl)
    show "core (ix_nodes s' (bt_page (snd kt))) = core ((ix_nodes s (bt_page (snd kt)))\<lparr>nd_parent := ?p1\<rparr>)" if "kt \<in> set (kids_of t2)" for kt
    proof -
      have "bt_page (snd kt) \<in> bt_page ` snd ` set ts2" using that t2(1) by blast
      then show ?thesis using kp [of "bt_page (snd kt)"] n1(2) by (simp add: n' m(1))
    qed
    show "core (ix_nodes s' x) = core (ix_nodes s x)" if "x \<notin> {p, ?p1, ?p2}" "x \<notin> bt_page ` snd ` set (kids_of t2)" for x
      using that n1(2) t2(1) by (simp add: n' m(1))
    show "core (ix_nodes s' ?p1) = (is_bleaf t1, p, bt_pairs t1 @ bt_pairs t2)" using nb(2) np2(3) n1(1) d t2(2) by (simp add: n' core_def)
    show "core (ix_nodes s' p) = (False, top_page fs, map kid_pair (X @ (a, t1) # Y))" using nb(1) d by (simp add: n' core_def)
  qed (use nl d n' in simp_all)
  show "hstat (ix_hdr s') = hstat (ix_hdr s)" "ix_num_pages (ix_hdr s') = ix_num_pages (ix_hdr s)" by (simp_all add: n'(2) hstat_def)
qed

lemma rep_leaf_pages: "rep nd par t \<Longrightarrow> x \<in> fst ` set (leaves t) \<Longrightarrow> nd_is_leaf (nd x)"
proof (induction t arbitrary: par rule: leaves.induct)
  case (2 p ts)
  obtain kt where "kt \<in> set ts" "x \<in> fst ` set (leaves (snd kt))" using 2(3) by auto
  moreover from this(1) have "rep nd p (snd kt)" using 2(2) by simp
  ultimately show ?case using 2(1) by blast
qed auto

text \<open>Two neighbouring leaves in the list of the leaves.\<close>

lemma leaf_neighbours:
  assumes "stored s t" "map fst (leaves t) = A @ p1 # p2 # B"
  obtains r zs where "B @ [1] = r # zs" "linked (ix_nodes s) ((1 # A) @ p1 # p2 # r # zs)" "nd_next_leaf (ix_nodes s p2) = r" "nd_prev_leaf (ix_nodes s p2) = p1"
    "distinct (1 # A @ p1 # p2 # B)" "r = 1 \<or> nd_is_leaf (ix_nodes s r)"
proof -
  have c: "linked (ix_nodes s) (1 # (A @ p1 # p2 # B) @ [1])" using assms unfolding stored_def chain_ok_def by auto
  obtain r zs where B: "B @ [1] = r # zs" by (cases "B @ [1]") auto
  have l: "linked (ix_nodes s) ((1 # A) @ p1 # p2 # r # zs)" using c by (simp add: B)
  then have "linked (ix_nodes s) (p1 # p2 # r # zs)" using linked_append [of "ix_nodes s" "1 # A" p1] by blast
  then have n: "nd_next_leaf (ix_nodes s p2) = r" "nd_prev_leaf (ix_nodes s p2) = p1" by auto
  have sub: "fst ` set (leaves t) \<subseteq> set (tree_pages t)" by (rule leaf_pages_sub)
  have "distinct (A @ p1 # p2 # B)" "1 \<notin> set (A @ p1 # p2 # B)" using leaf_pages_distinct [of t] assms(1) sub unfolding assms(2) [symmetric] by (auto simp: stored_def)
  moreover have "r = 1 \<or> nd_is_leaf (ix_nodes s r)"
  proof (cases B)
    case (Cons r' B')
    then have "r \<in> set (map fst (leaves t))" using B assms(2) by auto
    then show ?thesis using rep_leaf_pages [of "ix_nodes s" IX_NO_PAGE t r] assms(1) by (auto simp: stored_def)
  qed (use B in simp)
  ultimately show ?thesis using that B l n by auto
qed

lemma chain_remove:
  assumes c: "chain_ok s (A @ p1 # p2 # B)" and B: "B @ [1] = r # zs" and l: "linked (ix_nodes s) ((1 # A) @ p1 # p2 # r # zs)" and d: "distinct (1 # A @ p1 # p2 # B)"
    and n: "nd_next_leaf (ix_nodes s' p1) = r" "nd_prev_leaf (ix_nodes s' r) = p1" "\<And>x. x \<noteq> p1 \<Longrightarrow> nd_next_leaf (ix_nodes s' x) = nd_next_leaf (ix_nodes s x)"
      "\<And>x. x \<noteq> r \<Longrightarrow> nd_prev_leaf (ix_nodes s' x) = nd_prev_leaf (ix_nodes s x)"
    and h: "first_leaf (ix_hdr s') = first_leaf (ix_hdr s)" "last_leaf (ix_hdr s') = (if last_leaf (ix_hdr s) = p2 then p1 else last_leaf (ix_hdr s))"
  shows "chain_ok s' (A @ p1 # B)"
proof -
  have sB: "set (r # zs) = insert 1 (set B)" "butlast (r # zs) = B" "distinct (r # zs)" using d unfolding B [symmetric] by auto
  have "linked (ix_nodes s') ((1 # A) @ p1 # r # zs)"
  proof (rule linked_remove [OF l])
    have "r \<in> insert 1 (set B)" unfolding sB(1) [symmetric] by simp
    then have "r \<noteq> p1" "r \<notin> set A" using d by auto
    then show "p1 \<notin> set (1 # A)" "p1 \<notin> set (butlast (r # zs))" "r \<notin> set (tl ((1 # A) @ [p1]))" "r \<notin> set zs" using sB d by auto
  qed (rule n; assumption?)+
  then have "linked (ix_nodes s') (1 # (A @ p1 # B) @ [1])" using B by simp
  moreover have "last B \<noteq> p2" if "B \<noteq> []" using that d last_in_set [of B] by auto
  ultimately show ?thesis using c h unfolding chain_ok_def by (cases B) (auto simp: hd_append)
qed

lemma merge_leaf:
  assumes st: "stored s (plug fs (BNode p (X @ (a, t1) # (b, t2) # Y)))" and lf: "is_bleaf t1" "is_bleaf t2" and s': "s' = merge_nodes (bt_page t1) (bt_page t2) p l s"
  shows "stored s' (plug fs (BNode p (X @ (a, join t1 t2) # Y)))" "hstat (ix_hdr s') = hstat (ix_hdr s)" "ix_num_pages (ix_hdr s') = ix_num_pages (ix_hdr s)"
proof -
  note nb = neighbours [OF st refl]
  let ?p1 = "bt_page t1" and ?p2 = "bt_page t2"
  have nk: "kids_of t1 = []" "kids_of t2 = []" using lf by (cases t1; cases t2; auto)+
  have d: "?p1 \<noteq> ?p2" "p \<noteq> ?p1" "p \<noteq> ?p2" using nb(7) by auto
  define A where "A = map fst (lefts fs @ kids_leaves X)"
  define B where "B = map fst (kids_leaves Y @ rights fs)"
  have lv: "map fst (leaves (plug fs (BNode p (X @ (a, t1) # (b, t2) # Y)))) = A @ ?p1 # ?p2 # B" "map fst (lefts fs @ (kids_leaves X @ leaves (join t1 t2) @ kids_leaves Y) @ rights fs) = A @ ?p1 # B"
    using lf by (cases t1; cases t2; simp add: leaves_plug A_def B_def)+
  obtain r zs where r: "B @ [1] = r # zs" "linked (ix_nodes s) ((1 # A) @ ?p1 # ?p2 # r # zs)" "nd_next_leaf (ix_nodes s ?p2) = r" "nd_prev_leaf (ix_nodes s ?p2) = ?p1"
      "distinct (1 # A @ ?p1 # ?p2 # B)" "r = 1 \<or> nd_is_leaf (ix_nodes s r)"
    by (rule leaf_neighbours [OF st lv(1)])
  have "1 \<noteq> p" using st unfolding stored_plug by simp
  then have rn: "r \<noteq> p" using r(6) nb(1) by (auto simp: core_def)
  have "r \<in> set (B @ [1])" unfolding r(1) by simp
  then have rd: "r \<noteq> ?p1" "r \<noteq> ?p2" using r(5) by auto
  define s2 where "s2 = erase_leaf ?p2 l (upd_node ?p1 (\<lambda>n. insert_pairs (get_size n) (nd_pairs (ix_nodes s ?p2)) n) s)"
  have n2: "ix_nodes s2 = (ix_nodes s)(?p1 := (ix_nodes s ?p1)\<lparr>nd_pairs := bt_pairs t1 @ bt_pairs t2, nd_next_leaf := r\<rparr>, r := (ix_nodes s r)\<lparr>nd_prev_leaf := ?p1\<rparr>)" "ix_hdr s2 = ix_hdr s" "ix_fd2pageno s2 = ix_fd2pageno s"
    using nb(2,3) d r(3,4) rd by (auto simp: s2_def erase_leaf_def Let_def fetch_node_def core_def insert_pairs_def get_size_def fun_eq_iff)
  define s3 where "s3 = (if last_leaf (ix_hdr s2) = ?p2 then upd_hdr (\<lambda>h. h\<lparr>last_leaf := ?p1\<rparr>) s2 else s2)"
  have sr: "s' = release_node_handle ?p2 (upd_node p (\<lambda>n. erase_pair (find_child ?p2 n) n) s3)"
    using nb(3) lf d unfolding s' merge_nodes_def Let_def fetch_node_def s2_def [symmetric] s3_def [symmetric] by (simp add: core_def)
  have n3: "ix_nodes s3 = ix_nodes s2" "ix_fd2pageno s3 = ix_fd2pageno s" "ix_hdr s3 = (ix_hdr s)\<lparr>last_leaf := if last_leaf (ix_hdr s) = ?p2 then ?p1 else last_leaf (ix_hdr s)\<rparr>"
    using n2(2,3) by (simp_all add: s3_def)
  have "nd_pairs (ix_nodes s p) = map kid_pair (X @ (a, t1) # (b, t2) # Y)" using nb(1) by (simp add: core_def)
  note er = find_neighbour(2) [OF st this]
  have n': "ix_nodes s' = (ix_nodes s)(?p1 := (ix_nodes s ?p1)\<lparr>nd_pairs := bt_pairs t1 @ bt_pairs t2, nd_next_leaf := r\<rparr>, r := (ix_nodes s r)\<lparr>nd_prev_leaf := ?p1\<rparr>,
      p := (ix_nodes s p)\<lparr>nd_pairs := map kid_pair (X @ (a, t1) # Y)\<rparr>, ?p2 := (ix_nodes s ?p2)\<lparr>nd_next_free := first_free_page (ix_hdr s)\<rparr>)"
    "ix_hdr s' = (ix_hdr s)\<lparr>last_leaf := if last_leaf (ix_hdr s) = ?p2 then ?p1 else last_leaf (ix_hdr s), first_free_page := ?p2\<rparr>" "ix_fd2pageno s' = ix_fd2pageno s"
    using d er n2 n3 rn rd by (auto simp: sr release_node_handle_def)
  have ch: "chain_ok s' (A @ ?p1 # B)"
  proof (rule chain_remove [OF _ r(1,2,5)])
    show "chain_ok s (A @ ?p1 # ?p2 # B)" using st lv(1) unfolding stored_def by simp
  qed (use d rn rd in \<open>auto simp: n'\<close>)
  show "stored s' (plug fs (BNode p (X @ (a, join t1 t2) # Y)))"
  proof (rule stored_join [OF st])
    show "chain_ok s' (map fst (lefts fs @ (kids_leaves X @ leaves (join t1 t2) @ kids_leaves Y) @ rights fs))" unfolding lv(2) by (rule ch)
    show "core (ix_nodes s' ?p1) = (is_bleaf t1, p, bt_pairs t1 @ bt_pairs t2)" using nb(2) d rd by (simp add: n' core_def)
    show "core (ix_nodes s' p) = (False, top_page fs, map kid_pair (X @ (a, t1) # Y))" using nb(1) d by (simp add: n' core_def)
  qed (use lf d nk rd in \<open>simp_all add: n' core_def\<close>)
  show "hstat (ix_hdr s') = hstat (ix_hdr s)" "ix_num_pages (ix_hdr s') = ix_num_pages (ix_hdr s)" by (simp_all add: n'(2) hstat_def)
qed

lemma merge_ok:
  assumes "stored s (plug fs (BNode p (X @ (a, t1) # (b, t2) # Y)))" "is_bleaf t1 = is_bleaf t2" "s' = merge_nodes (bt_page t1) (bt_page t2) p l s"
  shows "stored s' (plug fs (BNode p (X @ (a, join t1 t2) # Y)))" "hstat (ix_hdr s') = hstat (ix_hdr s)" "ix_num_pages (ix_hdr s') = ix_num_pages (ix_hdr s)"
  using merge_leaf [OF assms(1) _ _ assms(3)] merge_internal [OF assms(1) _ _ assms(3)] assms(2) by (cases "is_bleaf t1"; simp)+

subsection \<open>The climb\<close>

text \<open>A node with too few pairs and the neighbour it is balanced with: \<open>t1\<close> is the left one of the two, \<open>t2\<close> the right one.\<close>

definition pair_at :: "ix_file_hdr \<Rightarrow> nat \<Rightarrow> int option \<Rightarrow> int option \<Rightarrow> (byte list \<times> bt) list \<Rightarrow> byte list \<Rightarrow> bt \<Rightarrow> byte list \<Rightarrow> bt \<Rightarrow> (byte list \<times> bt) list \<Rightarrow> bool" where
  "pair_at h n lo hi X a t1 b t2 Y \<longleftrightarrow> Suc (Suc (length X + length Y)) \<le> btree_order h \<and> seps_valid h X \<and> seps_valid h Y \<and> valid_key (ix_cols h) a \<and> valid_key (ix_cols h) b
     \<and> first_sep h lo (if X = [] then a else fst (hd X)) \<and> (X \<noteq> [] \<longrightarrow> bwfk h n lo X (Some (hord h a))) \<and> (Y \<noteq> [] \<longrightarrow> bwfk h n (Some (hord h (fst (hd Y)))) Y hi)
     \<and> bwf h n (get_min_size h - 1) (if X = [] then lo else Some (hord h a)) (Some (hord h b)) t1
     \<and> bwf h n (get_min_size h - 1) (Some (hord h b)) (if Y = [] then hi else Some (hord h (fst (hd Y)))) t2"

lemma deficient_pair:
  assumes "hdr_ok h" "hole h ((p, L, k, R) # fs) n m lo hi" "bwf h n (m - 1) lo hi t"
  obtains X a t1 b t2 Y m' lo' hi' where "L @ (k, t) # R = X @ (a, t1) # (b, t2) # Y" "if L = [] then X = [] \<and> t1 = t else length L = Suc (length X) \<and> t2 = t"
    "hole h fs (Suc n) m' lo' hi'" "m' \<le> Suc (Suc (length X + length Y))" "pair_at h n lo' hi' X a t1 b t2 Y"
proof (rule hole_ConsD [OF assms(2)])
  fix m' lo' hi'
  assume 1: "hole h fs (Suc n) m' lo' hi'" "m' \<le> Suc (length L + length R)" "Suc (length L + length R) \<le> btree_order h"
    "seps_valid h L" "seps_valid h R" "valid_key (ix_cols h) k" "first_sep h lo' (if L = [] then k else fst (hd L))"
    "L \<noteq> [] \<Longrightarrow> bwfk h n lo' L (Some (hord h k))" "R \<noteq> [] \<Longrightarrow> bwfk h n (Some (hord h (fst (hd R)))) R hi'"
    "lo = (if L = [] then lo' else Some (hord h k))" "hi = (if R = [] then hi' else Some (hord h (fst (hd R))))" "m = get_min_size h"
  have mn: "2 \<le> get_min_size h" using assms(1) wf_pos_min by (simp add: hdr_ok_def)
  then have two: "2 \<le> m'" using hole_min [OF 1(1)] by (auto simp: root_min_def)
  show thesis
  proof (cases L rule: rev_cases)
    case Nil
    then obtain b t2 Y where R: "R = (b, t2) # Y" using 1(2) two by (cases R) auto
    have r: "bwfk h n (Some (hord h b)) ((b, t2) # Y) hi'" using 1(9) R by simp
    then have "bwf h n (get_min_size h) (Some (hord h b)) (if Y = [] then hi' else Some (hord h (fst (hd Y)))) t2" "Y \<noteq> [] \<longrightarrow> bwfk h n (Some (hord h (fst (hd Y)))) Y hi'"
      by (cases Y; simp)+
    then have "pair_at h n lo' hi' [] k t b t2 Y" using 1 Nil R assms(3) bwf_min_mono by (auto simp: pair_at_def seps_valid_def)
    then show ?thesis by (rule that [of "[]" k t b t2 Y m' lo' hi', rotated 4]) (use 1(1,2) Nil R in simp_all)
  next
    case (snoc X at1)
    obtain a t1 where at1: "at1 = (a, t1)" by (cases at1)
    have l: "bwfk h n lo' (X @ [(a, t1)]) (Some (hord h k))" using 1(8) snoc at1 by simp
    then have x: "X \<noteq> [] \<longrightarrow> bwfk h n lo' X (Some (hord h a))" "bwf h n (get_min_size h) (if X = [] then lo' else Some (hord h a)) (Some (hord h k)) t1"
      by (cases "X = []"; simp add: kids_append)+
    have t: "bwf h n (get_min_size h - 1) (Some (hord h k)) (if R = [] then hi' else Some (hord h (fst (hd R)))) t" using assms(3) 1(10-12) snoc by simp
    have sv: "seps_valid h X" "valid_key (ix_cols h) a" "first_sep h lo' (if X = [] then a else fst (hd X))" using 1(4,7) snoc at1 by (auto simp: seps_valid_def hd_append split: if_splits)
    have "pair_at h n lo' hi' X a t1 k t R" unfolding pair_at_def using x(1) bwf_min_mono [OF x(2)] t sv 1(3,5,6,9) snoc by simp
    then show ?thesis by (rule that [of X a t1 k t R m' lo' hi', rotated 4]) (use 1(1,2) snoc at1 in simp_all)
  qed
qed

text \<open>Both ways of balancing lead to a node in order.\<close>

lemma pair_ordered:
  assumes "hdr_ok h" "pair_at h n lo hi X a t1 b t2 Y"
  shows "is_bleaf t1 = is_bleaf t2" "ordered h n (if X = [] then lo else Some (hord h a)) (if Y = [] then hi else Some (hord h (fst (hd Y)))) (join t1 t2)"
    "get_min_size h - 1 \<le> bt_size t1" "get_min_size h - 1 \<le> bt_size t2" "bt_size t1 \<le> btree_order h" "bt_size t2 \<le> btree_order h"
proof -
  let ?lo = "if X = [] then lo else Some (hord h a)" and ?hi = "if Y = [] then hi else Some (hord h (fst (hd Y)))"
  have w: "bwf h n (get_min_size h - 1) ?lo (Some (hord h b)) t1" "bwf h n (get_min_size h - 1) (Some (hord h b)) ?hi t2" using assms(2) by (auto simp: pair_at_def)
  have "0 < get_min_size h - 1" using assms(1) wf_pos_min [of h] by (simp add: hdr_ok_def)
  then have "gap ?lo (Some (hord h b))" "gap (Some (hord h b)) ?hi" using bwf_gap [OF w(1) assms(1)] bwf_gap [OF w(2) assms(1)] by auto
  then show "ordered h n ?lo ?hi (join t1 t2)" using ordered_join w unfolding bwf_ordered by blast
  show "is_bleaf t1 = is_bleaf t2" using ordered_same w unfolding bwf_ordered by blast
  show "get_min_size h - 1 \<le> bt_size t1" "get_min_size h - 1 \<le> bt_size t2" "bt_size t1 \<le> btree_order h" "bt_size t2 \<le> btree_order h" using w unfolding bwf_ordered by auto
qed

lemma merged_wf:
  assumes "hdr_ok h" "pair_at h n lo hi X a t1 b t2 Y" "bt_size t1 + bt_size t2 < 2 * get_min_size h" "m \<le> Suc (Suc (length X + length Y))"
  shows "bwf h (Suc n) (m - 1) lo hi (BNode p (X @ (a, join t1 t2) # Y))"
proof -
  note o = pair_ordered [OF assms(1,2)]
  have mn: "2 \<le> get_min_size h" "2 * get_min_size h \<le> Suc (btree_order h)" using assms(1) wf_pos_min [of h] by (auto simp: hdr_ok_def get_min_size_def get_max_size_def)
  then have "bwf h n (get_min_size h) (if X = [] then lo else Some (hord h a)) (if Y = [] then hi else Some (hord h (fst (hd Y)))) (join t1 t2)"
    using o assms(3) join_content(2) [OF o(1)] unfolding bwf_ordered by auto
  then have "bwfk h n lo (X @ (a, join t1 t2) # Y) hi" using bwfk_hole [of X h n lo a Y hi] assms(2) by (auto simp: pair_at_def)
  then show ?thesis unfolding bwf_Suc using assms(2,4) by (auto simp: pair_at_def seps_valid_def hd_append)
qed

lemma borrowed_wf:
  assumes "hdr_ok h" "pair_at h n lo hi X a t1 b t2 Y" "cut k t1 t2 = (u1, u2)" "get_min_size h \<le> k" "k \<le> btree_order h" "get_min_size h \<le> bt_size t1 + bt_size t2 - k"
    "bt_size t1 + bt_size t2 - k \<le> btree_order h" "m \<le> Suc (Suc (length X + length Y))"
  shows "bwf h (Suc n) m lo hi (BNode p (X @ (a, u1) # (fst (hd (bt_pairs u2)), u2) # Y))"
proof -
  note o = pair_ordered [OF assms(1,2)]
  note c = cut_content [OF o(1) assms(3)]
  have mn: "2 \<le> get_min_size h" using assms(1) wf_pos_min by (simp add: hdr_ok_def)
  have k: "0 < k" "k < bt_size t1 + bt_size t2" using mn assms(4,6) by auto
  note oc = ordered_cut [OF o(2,1) assms(3) k refl]
  let ?b = "fst (hd (bt_pairs u2))"
  have "bwf h n (get_min_size h) (if X = [] then lo else Some (hord h a)) (Some (hord h ?b)) u1" "bwf h n (get_min_size h) (Some (hord h ?b)) (if Y = [] then hi else Some (hord h (fst (hd Y)))) u2"
    using oc c(3,4) assms(4-7) k unfolding bwf_ordered by auto
  then have "bwfk h n lo (X @ (a, u1) # (?b, u2) # Y) hi" using assms(2) by (intro bwfk_two) (auto simp: pair_at_def)
  then show ?thesis unfolding bwf_Suc using assms(2,8) oc(3) by (auto simp: pair_at_def seps_valid_def hd_append)
qed

lemma stored_cong: "ix_nodes s' = ix_nodes s \<Longrightarrow> ix_hdr s' = ix_hdr s \<Longrightarrow> ix_fd2pageno s' = ix_fd2pageno s \<Longrightarrow> stored s' t = stored s t"
  by (simp add: stored_def alloc_ok_def chain_ok_def)

lemma stored_simps [simp]: "stored (BumpRoutingEpoch s) t = stored s t" "stored (mark_node_dirty n l s) t = stored s t"
  by (rule stored_cong; simp)+

lemma entries_plug_tree: "entries (plug fs t) = concat (map snd (lefts fs)) @ entries t @ concat (map snd (rights fs))"
  by (simp add: entries_def leaves_plug)

lemma stored_top:
  assumes "stored s (plug fs t)"
  shows "core (ix_nodes s (bt_page t)) = (is_bleaf t, top_page fs, bt_pairs t)" "get_size (ix_nodes s (bt_page t)) = bt_size t"
    "is_root_page (ix_nodes s (bt_page t)) \<longleftrightarrow> fs = []" "nd_is_leaf (ix_nodes s (bt_page t)) = is_bleaf t"
proof -
  show c: "core (ix_nodes s (bt_page t)) = (is_bleaf t, top_page fs, bt_pairs t)" using assms rep_unfold [THEN iffD1, of "ix_nodes s" "top_page fs" t] unfolding stored_plug by blast
  show "get_size (ix_nodes s (bt_page t)) = bt_size t" "nd_is_leaf (ix_nodes s (bt_page t)) = is_bleaf t" using c by (simp_all add: core_def get_size_def)
  have "top_page fs \<noteq> IX_NO_PAGE" if ne: "fs \<noteq> []"
  proof -
    obtain p L k R fs' where fs: "fs = (p, L, k, R) # fs'" using ne by (cases fs) auto
    show ?thesis using frame_rank(4) [OF assms [unfolded fs]] by (simp add: fs)
  qed
  then show "is_root_page (ix_nodes s (bt_page t)) \<longleftrightarrow> fs = []" using c by (auto simp: core_def is_root_page_def ix_consts)
qed

lemma root_collapse:
  assumes st: "stored s (BNode p [(k, t)])" and s': "(b, s') = adjust_root p l s"
  shows "stored s' t" "b" "hstat (ix_hdr s') = hstat (ix_hdr s)" "ix_num_pages (ix_hdr s') = ix_num_pages (ix_hdr s)"
proof -
  let ?c = "bt_page t"
  have r: "rep (ix_nodes s) IX_NO_PAGE (BNode p [(k, t)])" "distinct (tree_pages (BNode p [(k, t)]))" "1 \<notin> set (tree_pages (BNode p [(k, t)]))" "chain_ok s (map fst (leaves t))"
    using st unfolding stored_def by auto
  obtain fl where al: "alloc_ok s (insert 1 (set (tree_pages (BNode p [(k, t)])))) fl" using st unfolding stored_def by blast
  have np: "\<not> nd_is_leaf (ix_nodes s p)" "nd_pairs (ix_nodes s p) = [kid_pair (k, t)]" "value_at (ix_nodes s p) 0 = ?c" using r(1) by (auto simp: value_at_def get_rid_def kid_pair_def child_rid_def)
  have pc: "p \<noteq> ?c" "p \<notin> set (tree_pages t)" using r(2) bt_page_in [of t] by auto
  have e: "b" "ix_nodes s' = (ix_nodes s)(p := (ix_nodes s p)\<lparr>nd_pairs := [], nd_next_free := first_free_page (ix_hdr s)\<rparr>, ?c := (ix_nodes s ?c)\<lparr>nd_parent := IX_NO_PAGE\<rparr>)"
    "ix_hdr s' = (ix_hdr s)\<lparr>root_page := ?c, first_free_page := p\<rparr>" "ix_fd2pageno s' = ix_fd2pageno s"
    using s' np pc(1) by (auto simp: adjust_root_def Let_def fetch_node_def get_size_def remove_and_return_only_child_def release_node_handle_def update_root_page_no_def erase_pair_def fun_eq_iff)
  show "b" by (rule e(1))
  show "hstat (ix_hdr s') = hstat (ix_hdr s)" "ix_num_pages (ix_hdr s') = ix_num_pages (ix_hdr s)" by (simp_all add: e(3) hstat_def)
  have "rep (ix_nodes s') IX_NO_PAGE t"
  proof (rule rep_move)
    show "rep (ix_nodes s) p t" "distinct (tree_pages t)" using r(1,2) by simp_all
    show "core (ix_nodes s' x) = core (ix_nodes s x)" if "x \<in> set (tree_pages t)" "x \<noteq> ?c" for x using that pc by (auto simp: e(2))
    show "core (ix_nodes s' ?c) = core ((ix_nodes s ?c)\<lparr>nd_parent := IX_NO_PAGE\<rparr>)" using pc by (simp add: e(2))
  qed
  moreover have "alloc_ok s' (insert 1 (set (tree_pages t))) (p # fl)"
    by (rule alloc_release [OF al]) (use r(2,3) pc in \<open>auto simp: e\<close>)
  moreover have "chain_ok s' (map fst (leaves t))" by (rule chain_ok_link [OF _ _ _ r(4)]) (auto simp: e link_def)
  ultimately show "stored s' t" using r(2,3) unfolding stored_def by (auto simp: e(3))
qed

text \<open>The node beside a deficient one and the rank the code computes for it.\<close>

lemma neighbour_page:
  assumes "stored s (plug ((p, L, k, R) # fs) t)" "L @ (k, t) # R = X @ (a, t1) # (b, t2) # Y" "if L = [] then X = [] \<and> t1 = t else length L = Suc (length X) \<and> t2 = t"
  shows "value_at (ix_nodes s p) (if length L > 0 then length L - 1 else length L + 1) = (if L = [] then bt_page t2 else bt_page t1)"
proof -
  let ?C = "X @ (a, t1) # (b, t2) # Y"
  have "stored s (plug fs (BNode p ?C))" using assms(1,2) by simp
  then have n: "nd_pairs (ix_nodes s p) = map kid_pair ?C" using stored_top(1) [of s fs "BNode p ?C"] by (simp add: core_def)
  show ?thesis
  proof (cases "L = []")
    case True
    then have "?C ! 1 = (b, t2)" using assms(3) by simp
    then show ?thesis using True value_at_kids [OF n, of 1] by simp
  next
    case False
    then have "length L - 1 = length X" using assms(3) by simp
    then show ?thesis using False value_at_kids [OF n, of "length X"] by simp
  qed
qed

text \<open>What rebalancing establishes: a tree in order with the same entries.\<close>

definition balanced :: "ix_file_hdr \<Rightarrow> ix_index \<Rightarrow> bt \<Rightarrow> ix_index \<Rightarrow> bool" where
  "balanced h s t s' \<longleftrightarrow> (\<exists>t'. stored s' t' \<and> root_ok h t' \<and> entries t' = entries t) \<and> hstat (ix_hdr s') = hstat (ix_hdr s) \<and> ix_num_pages (ix_hdr s') = ix_num_pages (ix_hdr s)"

lemma balanced_mark [simp]: "balanced h s t (mark_node_dirty n l s') = balanced h s t s'"
  by (simp add: balanced_def)

lemma root_balanced:
  assumes "hdr_ok h" "hole h [] n m lo hi" "stored s t" "bwf h n (m - 1) lo hi t" "adjust_root (bt_page t) l s = (b, s')"
  shows "balanced h s t s'"
proof -
  have m: "m = root_min n" "lo = None" "hi = None" using assms(2) by (auto elim: hole_NilE)
  have o: "m - 1 \<le> bt_size t" "bt_size t \<le> btree_order h" "ordered h n None None t" using assms(4) unfolding bwf_ordered m(2,3) by auto
  note top = stored_top [of s "[]" t, simplified, OF assms(3)]
  show ?thesis
  proof (cases "\<not> is_bleaf t \<and> bt_size t = 1")
    case True
    then obtain p k t1 where t: "t = BNode p [(k, t1)]" by (cases t) (auto simp: length_Suc_conv)
    have "adjust_root p l s = (b, s')" using assms(5) t by simp
    note c = root_collapse [OF assms(3) [unfolded t] this [symmetric]]
    have n: "n > 0" "bwf h (n - 1) (get_min_size h) None None t1" using o(3) t by auto
    have "root_min (n - 1) \<le> get_min_size h" using assms(1) wf_pos_min [of h] by (simp add: root_min_def hdr_ok_def)
    then have "root_ok h t1" unfolding root_ok_def using bwf_min_mono [OF n(2)] by blast
    moreover have "entries t1 = entries t" by (simp add: t entries_def)
    ultimately show ?thesis using c unfolding balanced_def by blast
  next
    case False
    then have s': "s' = BumpRoutingEpoch s" using assms(5) top by (auto simp: adjust_root_def Let_def fetch_node_def)
    have "root_min n \<le> bt_size t"
    proof (cases t)
      case (BNode p ts)
      then have "ts \<noteq> []" using o(3) kids_ne by auto
      then have "length ts \<noteq> 0" "length ts \<noteq> 1" using False BNode by auto
      then have "2 \<le> length ts" by linarith
      then show ?thesis using BNode by (simp add: root_min_def)
    qed (use o(3) in \<open>simp add: root_min_def\<close>)
    then have "bwf h n (root_min n) None None t" unfolding bwf_ordered using o by simp
    then have "root_ok h t" unfolding root_ok_def by blast
    then show ?thesis using assms(3) unfolding balanced_def s' by auto
  qed
qed

lemma borrow_ok:
  assumes "hdr_ok h" "hole h fs (Suc n) m lo hi" "m \<le> Suc (Suc (length X + length Y))" "pair_at h n lo hi X a t1 b t2 Y" "stored s (plug fs (BNode p (X @ (a, t1) # (b, t2) # Y)))"
    and "2 * get_min_size h \<le> bt_size t1 + bt_size t2"
  shows "bt_size t2 < get_min_size h \<Longrightarrow> balanced h s (plug fs (BNode p (X @ (a, t1) # (b, t2) # Y))) (redistribute (bt_page t1) (bt_page t2) p (Suc i) l s)"
    "bt_size t1 < get_min_size h \<Longrightarrow> balanced h s (plug fs (BNode p (X @ (a, t1) # (b, t2) # Y))) (redistribute (bt_page t2) (bt_page t1) p 0 l s)"
proof -
  note o = pair_ordered [OF assms(1,4)]
  let ?t = "plug fs (BNode p (X @ (a, t1) # (b, t2) # Y))"
  have mn: "2 \<le> get_min_size h" using assms(1) wf_pos_min by (simp add: hdr_ok_def)
  have fin: "balanced h s ?t s'" if "stored s' (plug fs (BNode p (X @ (a, u1) # (fst (hd (bt_pairs u2)), u2) # Y)))" "ix_hdr s' = ix_hdr s" "cut k t1 t2 = (u1, u2)"
      "bwf h (Suc n) m lo hi (BNode p (X @ (a, u1) # (fst (hd (bt_pairs u2)), u2) # Y))" for s' u1 u2 k
    using that root_ok_plug [OF assms(2) that(4)] cut_content(8) [OF o(1) that(3)] unfolding balanced_def
    by (intro conjI exI [of _ "plug fs (BNode p (X @ (a, u1) # (fst (hd (bt_pairs u2)), u2) # Y))"]) (simp_all add: entries_plug_tree entries_BNode)
  show "balanced h s ?t (redistribute (bt_page t1) (bt_page t2) p (Suc i) l s)" if d: "bt_size t2 < get_min_size h"
  proof -
    obtain u1 u2 where cu: "cut (bt_size t1 - 1) t1 t2 = (u1, u2)" by fastforce
    have "bt_pairs t1 \<noteq> []" using d assms(6) by auto
    note br = borrow_from_left [OF assms(5) o(1) cu this refl, of i l]
    have "bwf h (Suc n) m lo hi (BNode p (X @ (a, u1) # (fst (hd (bt_pairs u2)), u2) # Y))"
      by (rule borrowed_wf [OF assms(1,4) cu _ _ _ _ assms(3)]) (use d o(3-6) mn assms(6) in auto)
    then show ?thesis using fin [OF br cu] by blast
  qed
  show "balanced h s ?t (redistribute (bt_page t2) (bt_page t1) p 0 l s)" if d: "bt_size t1 < get_min_size h"
  proof -
    obtain u1 u2 where cu: "cut (Suc (bt_size t1)) t1 t2 = (u1, u2)" by fastforce
    have "2 \<le> bt_size t2" using d assms(6) mn by auto
    note br = borrow_from_right [OF assms(5) o(1) cu this refl, of l]
    have "bwf h (Suc n) m lo hi (BNode p (X @ (a, u1) # (fst (hd (bt_pairs u2)), u2) # Y))"
      by (rule borrowed_wf [OF assms(1,4) cu _ _ _ _ assms(3)]) (use d o(3-6) mn assms(6) in auto)
    then show ?thesis using fin [OF br cu] by blast
  qed
qed

lemma coalesce_step:
  assumes "stored s (plug ((p, L, k, R) # fs) t)" "L @ (k, t) # R = X @ (a, t1) # (b, t2) # Y" "if L = [] then X = [] \<and> t1 = t else length L = Suc (length X) \<and> t2 = t"
    and "bt_size t < get_min_size (ix_hdr s)"
  shows "coalesce_or_redistribute (Suc f) (bt_page t) l s =
    (let nb = (if L = [] then bt_page t2 else bt_page t1)
     in if 2 * get_min_size (ix_hdr s) \<le> bt_size t1 + bt_size t2 then
          (Ret False, mark_node_dirty p l (mark_node_dirty nb l (redistribute nb (bt_page t) p (length L) l (BumpRoutingEpoch s))))
        else obind (coalesce_or_redistribute f p l) (\<lambda>_ s2. (Ret (bt_page t2 = bt_page t), mark_node_dirty p l s2))
               (mark_node_dirty nb l (merge_nodes (bt_page t1) (bt_page t2) p l (BumpRoutingEpoch s))))"
proof -
  let ?C = "X @ (a, t1) # (b, t2) # Y"
  have st: "stored s (plug fs (BNode p ?C))" using assms(1,2) by simp
  note tp = stored_top [OF assms(1)] and fr = frame_rank [OF assms(1)] and nb = neighbours [OF st refl] and nv = neighbour_page [OF assms(1-3)]
  have sz: "get_size (ix_nodes s (bt_page t1)) = bt_size t1" "get_size (ix_nodes s (bt_page t2)) = bt_size t2" using nb(2,3) by (auto simp: core_def get_size_def)
  have sel: "(if L = [] then bt_page t1 else bt_page t2) = bt_page t" using assms(3) by (simp split: if_splits)
  have par: "nd_parent (ix_nodes s (bt_page t)) = p" using tp(1) by (simp add: core_def)
  have nlt: "\<not> get_min_size (ix_hdr s) \<le> get_size (ix_nodes s (bt_page t))" using assms(4) tp(2) by simp
  show ?thesis
  proof (cases "L = []")
    case True
    then have t: "t = t1" using assms(3) by simp
    show ?thesis unfolding coalesce_or_redistribute.simps Let_def fetch_node_def ix_upd_simps using nlt tp(3) sz nv fr(1) True t unfolding par by simp
  next
    case False
    then have t: "t = t2" using assms(3) by simp
    show ?thesis unfolding coalesce_or_redistribute.simps Let_def fetch_node_def ix_upd_simps using nlt tp(3) sz nv fr(1) False t unfolding par by (simp add: add.commute)
  qed
qed

lemma coalesce_ok:
  assumes "hdr_ok h" "hole h fs n m lo hi" "stored s (plug fs t)" "bwf h n (m - 1) lo hi t" "hstat (ix_hdr s) = hstat h" "length fs < fuel"
  shows "\<exists>b s'. coalesce_or_redistribute fuel (bt_page t) l s = (Ret b, s') \<and> balanced h s (plug fs t) s'"
  using assms(2-)
proof (induction fs arbitrary: n m lo hi s t fuel)
  case Nil
  obtain f where f: "fuel = Suc f" using Nil(5) by (cases fuel) auto
  obtain b s' where a: "adjust_root (bt_page t) l (BumpRoutingEpoch s) = (b, s')" by fastforce
  have "balanced h (BumpRoutingEpoch s) t s'" by (rule root_balanced [OF assms(1) Nil(1) _ Nil(3) a]) (use Nil(2) in simp)
  then show ?case using a stored_top(3) [OF Nil(2)] by (simp add: f fetch_node_def Let_def balanced_def)
next
  case (Cons fr fs)
  obtain p L k R where fr: "fr = (p, L, k, R)" by (cases fr) auto
  obtain f where f: "fuel = Suc f" "length fs < f" using Cons.prems(5) by (cases fuel) auto
  note st = Cons.prems(2) [unfolded fr] and ho = Cons.prems(1) [unfolded fr]
  note tp = stored_top [OF st]
  have mn: "2 \<le> get_min_size h" "get_min_size (ix_hdr s) = get_min_size h" using assms(1) wf_pos_min hstatD [OF Cons.prems(4)] by (auto simp: hdr_ok_def)
  show ?case
  proof (cases "get_min_size h \<le> bt_size t")
    case True
    then have "bwf h n m lo hi t" "0 < bt_size t" using Cons.prems(3) hole_min [OF ho] mn unfolding bwf_ordered by auto
    moreover have "stored (BumpRoutingEpoch s) (plug ((p, L, k, R) # fs) t)" using st by simp
    ultimately obtain s' t' where m: "maintain_parent (bt_page t) l (BumpRoutingEpoch s) = (Ret (), s')" "stored s' t'" "root_ok h t'" "entries t' = entries (plug (fr # fs) t)" "ix_hdr s' = ix_hdr s"
      using maintain_parent_ok [OF ho, of "BumpRoutingEpoch s" t l] unfolding fr by auto
    have "coalesce_or_redistribute fuel (bt_page t) l s = (Ret False, s')"
      using True tp(2,3) m(1) mn by (simp add: f(1) fetch_node_def Let_def)
    then show ?thesis using m(2-5) unfolding balanced_def by auto
  next
    case False
    obtain X a t1 b t2 Y m' lo' hi' where d: "L @ (k, t) # R = X @ (a, t1) # (b, t2) # Y" "if L = [] then X = [] \<and> t1 = t else length L = Suc (length X) \<and> t2 = t"
        "hole h fs (Suc n) m' lo' hi'" "m' \<le> Suc (Suc (length X + length Y))" "pair_at h n lo' hi' X a t1 b t2 Y"
      by (rule deficient_pair [OF assms(1) ho Cons.prems(3)])
    let ?t = "plug fs (BNode p (X @ (a, t1) # (b, t2) # Y))" and ?s = "BumpRoutingEpoch s"
    have t: "plug (fr # fs) t = ?t" using d(1) by (simp add: fr)
    have st': "stored ?s ?t" using Cons.prems(2) unfolding t by simp
    note step = coalesce_step [OF st d(1,2), of f l, unfolded mn(2)] and o = pair_ordered [OF assms(1) d(5)]
    show ?thesis
    proof (cases "2 * get_min_size h \<le> bt_size t1 + bt_size t2")
      case True
      have "balanced h ?s ?t (redistribute (if L = [] then bt_page t2 else bt_page t1) (bt_page t) p (length L) l ?s)"
        using borrow_ok(1) [OF assms(1) d(3,4,5) st' True, of "length X" l] borrow_ok(2) [OF assms(1) d(3,4,5) st' True, of l] d(2) False by (cases "L = []") auto
      then show ?thesis using step False True unfolding t f(1) by (intro exI [of _ False]) (simp add: Let_def balanced_def del: coalesce_or_redistribute.simps)
    next
      case small: False
      define s1 where "s1 = merge_nodes (bt_page t1) (bt_page t2) p l ?s"
      note mg = merge_ok [OF st' o(1) s1_def]
      let ?u = "BNode p (X @ (a, join t1 t2) # Y)"
      let ?s1 = "mark_node_dirty (if L = [] then bt_page t2 else bt_page t1) l s1"
      have "bwf h (Suc n) (m' - 1) lo' hi' ?u" by (rule merged_wf [OF assms(1) d(5) _ d(4)]) (use small in simp)
      moreover have "stored ?s1 (plug fs ?u)" "hstat (ix_hdr ?s1) = hstat h" using mg Cons.prems(4) by simp_all
      ultimately obtain c s2 where c: "coalesce_or_redistribute f p l ?s1 = (Ret c, s2)" "balanced h ?s1 (plug fs ?u) s2" using Cons.IH [OF d(3), of ?s1 ?u f] f(2) by auto
      have "entries (plug fs ?u) = entries ?t" using join_content(5) [OF o(1)] by (simp add: entries_plug_tree entries_BNode)
      then have "balanced h s ?t s2" using c(2) mg(2,3) unfolding balanced_def by simp
      then show ?thesis using step False small c(1) unfolding t f(1) s1_def [symmetric] by (simp add: Let_def del: coalesce_or_redistribute.simps)
    qed
  qed
qed

subsection \<open>Deletion\<close>

lemma pairs_remove_absent: "\<not> has_key cs key ps \<Longrightarrow> pairs_remove cs key ps = ps"
  by (auto simp: pairs_remove_def has_key_def filter_id_conv)

lemma pairs_remove_length:
  assumes "node_sorted cs ps"
  shows "length (pairs_remove cs key ps) = (if has_key cs key ps then length ps - 1 else length ps)"
proof (cases "has_key cs key ps")
  case True
  then obtain xs e ys where e: "ps = xs @ e # ys" "key_ord cs (fst e) = key_ord cs key" by (auto simp: has_key_def in_set_conv_decomp)
  have "\<forall>x \<in> set xs \<union> set ys. key_ord cs (fst x) \<noteq> key_ord cs key" using assms unfolding e(1) node_sorted_def e(2) [symmetric] by (auto simp: sorted_wrt_append)
  then have "filter (\<lambda>p. key_ord cs (fst p) \<noteq> key_ord cs key) xs = xs" "filter (\<lambda>p. key_ord cs (fst p) \<noteq> key_ord cs key) ys = ys" by (simp_all add: filter_id_conv)
  then have "pairs_remove cs key ps = xs @ ys" using e by (simp add: pairs_remove_def)
  then show ?thesis using True e(1) by simp
qed (simp add: pairs_remove_absent)

lemma in_bounds_remove: "in_bounds h lo hi ps \<Longrightarrow> in_bounds h lo hi (pairs_remove cs key ps)"
  by (auto simp: in_bounds_def pairs_remove_def keys_valid_def node_sorted_def sorted_wrt_filter)

text \<open>A leaf with other pairs, whatever their number.\<close>

lemma stored_leaf:
  assumes "stored s (plug fs (BLeaf p es))"
  shows "stored (upd_node p (\<lambda>n. n\<lparr>nd_pairs := es'\<rparr>) s) (plug fs (BLeaf p es'))"
proof -
  let ?s = "upd_node p (\<lambda>n. n\<lparr>nd_pairs := es'\<rparr>) s"
  have st: "repc (ix_nodes s) fs p" "rep (ix_nodes s) (top_page fs) (BLeaf p es)" "p \<notin> set (ctx_pages fs)" "chain_ok s (map fst (lefts fs @ leaves (BLeaf p es) @ rights fs))"
    using assms unfolding stored_plug by auto
  obtain fl where "alloc_ok s (insert 1 (set (tree_pages (BLeaf p es) @ ctx_pages fs))) fl" using assms unfolding stored_plug by blast
  then have a: "alloc_ok ?s (insert 1 (set (tree_pages (BLeaf p es') @ ctx_pages fs))) fl" by (auto intro: alloc_frame)
  have "repc (ix_nodes ?s) fs p" using st(1,3) repc_cong [of fs "ix_nodes ?s" "ix_nodes s" p] by auto
  moreover have "chain_ok ?s (map fst (lefts fs @ leaves (BLeaf p es') @ rights fs))" using chain_ok_link [of _ ?s s] st(4) by (simp add: link_def)
  ultimately show ?thesis using assms st(2) a unfolding stored_plug by (auto simp: bt_page_plug)
qed

lemma delete_entry_ok:
  assumes inv: "ix_inv s t" and k: "valid_key (cols s) key"
  shows "\<exists>s' t'. delete_entry key l fh s = (Ret (has_key (cols s) key (entries t)), s') \<and> ix_inv s' t' \<and> hstat (ix_hdr s') = hstat (ix_hdr s)
    \<and> entries t' = pairs_remove (cols s) key (entries t) \<and> ix_num_pages (ix_hdr s') = ix_num_pages (ix_hdr s)"
proof -
  let ?h = "ix_hdr s" and ?has = "has_key (cols s) key (entries t)"
  obtain fs p es m lo hi where pos: "at_key s t key fs p es m lo hi" by (rule key_position [OF inv k])
  note lf = at_key_leaf [OF inv pos]
  have a: "t = plug fs (BLeaf p es)" "hole ?h fs 0 m lo hi" "leaf_wf ?h m lo hi es" "find_leaf_page key False s = Ret p" "int (length fs) + 3 \<le> ix_num_pages ?h" using pos by (auto simp: at_key_def)
  have i: "hdr_ok ?h" "root_ok ?h t" "stored s (plug fs (BLeaf p es))" using inv a(1) unfolding ix_inv_stored by auto
  note pr = at_key_pairs [OF pos i(1)]
  let ?es = "pairs_remove (cols s) key es"
  define s1 where "s1 = upd_node p (\<lambda>n. n\<lparr>nd_pairs := ?es\<rparr>) s"
  have nr: "upd_node p (node_remove (cols s) key) s = s1"
    using node_remove_spec [of "cols s" "ix_nodes s p" key] lf k unfolding s1_def by (simp add: upd_node_def)
  have len: "length ?es = (if ?has then length es - 1 else length es)" using pairs_remove_length [OF lf(4)] pr(2) by simp
  have del: "get_size (ix_nodes s1 p) < get_size (ix_nodes s p) \<longleftrightarrow> ?has"
  proof -
    have "es \<noteq> []" if "has_key (cols s) key es" using that by (auto simp: has_key_def)
    then show ?thesis using len lf(2) pr(2) by (auto simp: s1_def get_size_def)
  qed
  define s2 where "s2 = (if ?has \<and> get_size (ix_nodes s p) > 0 \<and> ix_compare (cols s) (get_key (ix_nodes s p) 0) key = 0 then BumpRoutingEpoch s1 else s1)"
  have s2: "ix_hdr s2 = ?h" "stored s2 (plug fs (BLeaf p ?es))" using stored_leaf [OF i(3)] by (simp_all add: s2_def s1_def)
  have "\<exists>s3. (if ?has then (\<lambda>s. obind (coalesce_or_redistribute (nat (ix_num_pages (ix_hdr s))) p l) (\<lambda>_ s. (Ret (), s)) s) else (\<lambda>s. (Ret (), s))) s2 = (Ret (), s3)
      \<and> balanced ?h s2 (plug fs (BLeaf p ?es)) s3"
  proof (cases ?has)
    case True
    have "bwf ?h 0 (m - 1) lo hi (BLeaf p ?es)" using a(3) len True in_bounds_remove [of ?h lo hi es] unfolding bwf_ordered leaf_wf_in_bounds by auto
    moreover have "length fs < nat (ix_num_pages (ix_hdr s2))" using a(5) unfolding s2(1) by linarith
    ultimately obtain b s3 where "coalesce_or_redistribute (nat (ix_num_pages (ix_hdr s2))) p l s2 = (Ret b, s3)" "balanced ?h s2 (plug fs (BLeaf p ?es)) s3"
      using coalesce_ok [OF i(1) a(2) s2(2), of "nat (ix_num_pages (ix_hdr s2))" l] s2(1) by auto
    then show ?thesis using True by simp
  next
    case False
    then have "?es = es" using pairs_remove_absent pr(2) by blast
    then show ?thesis using False s2(2) i(2) a(1) unfolding balanced_def by (intro exI [of _ s2]) auto
  qed
  then obtain s3 where s3: "(if ?has then (\<lambda>s. obind (coalesce_or_redistribute (nat (ix_num_pages (ix_hdr s))) p l) (\<lambda>_ s. (Ret (), s)) s) else (\<lambda>s. (Ret (), s))) s2 = (Ret (), s3)"
      "balanced ?h s2 (plug fs (BLeaf p ?es)) s3" by blast
  let ?s4 = "mark_node_dirty p l s3"
  let ?s5 = "if ?has \<and> fh \<and> (\<not> header_dirty_flush ?s4 \<or> dynamic_header ?h \<noteq> dynamic_header (ix_hdr ?s4)) then flush_file_hdr_for_lsn l ?s4 else ?s4"
  have "delete_entry key l fh s = (Ret ?has, ?s5)"
    unfolding delete_entry_def a(4) outcome.case fetch_node_def Let_def nr del s2_def [symmetric] using s3(1) by (simp add: obind_simps(1) Let_def)
  moreover obtain t' where t': "stored s3 t'" "root_ok ?h t'" "entries t' = entries (plug fs (BLeaf p ?es))" "hstat (ix_hdr s3) = hstat ?h" "ix_num_pages (ix_hdr s3) = ix_num_pages ?h"
    using s3(2) s2(1) unfolding balanced_def by auto
  then have "ix_inv s3 t'" unfolding ix_inv_stored using i(1) root_ok_hstat [OF t'(4)] hstatD [OF t'(4)] by (simp add: hdr_ok_def)
  then have "ix_inv ?s5 t'" using ix_inv_part [of ?s5 s3] by simp
  moreover have "ix_hdr ?s5 = ix_hdr s3" by (simp add: flush_file_hdr_for_lsn_def flush_file_hdr_def)
  ultimately show ?thesis using t'(3-5) pr(4) by (auto simp: entries_plug)
qed

subsection \<open>Property\<close>

text \<open>
  C39. Deletion refines removal from the sorted list. On an index in order, of any height, \<open>delete_entry\<close> ends without an error and reports whether the key was present. Whatever
  borrowing, merging and lowering of the root that takes, the index is in order again (balanced, nodes at least half full, separators and parent pointers right, leaves linked in order,
  released pages in the free list) and its entries are the old ones without the entry of the key.
\<close>

theorem delete_entry_refines:
  assumes "ix_inv s t" and "valid_key (cols s) key"
  shows "\<exists>s' t'. delete_entry key l fh s = (Ret (has_key (cols s) key (entries t)), s') \<and> ix_inv s' t' \<and> cols s' = cols s \<and> entries t' = pairs_remove (cols s) key (entries t)"
proof -
  obtain s' t' where d: "delete_entry key l fh s = (Ret (has_key (cols s) key (entries t)), s')" "ix_inv s' t'" "hstat (ix_hdr s') = hstat (ix_hdr s)" "entries t' = pairs_remove (cols s) key (entries t)"
    using delete_entry_ok [OF assms, of l fh] by blast
  then show ?thesis using hstatD [OF d(3)] by blast
qed

theorem delete_entry_refines_witness:
  "\<exists>n s1 t1 s2 t2. insert_entry [7, 0, 0, 0] \<lparr>rid_page = 1, rid_slot = 1\<rparr> 9 True None ex_index = (Ret n, s1) \<and> ix_inv s1 t1 \<and> entries t1 = [([7, 0, 0, 0], \<lparr>rid_page = 1, rid_slot = 1\<rparr>)]
    \<and> delete_entry [7, 0, 0, 0] 9 True s1 = (Ret True, s2) \<and> ix_inv s2 t2 \<and> entries t2 = []"
proof -
  let ?k = "[7, 0, 0, 0]" and ?v = "\<lparr>rid_page = 1, rid_slot = 1\<rparr>"
  have "\<not> has_key (cols ex_index) ?k (entries (BLeaf 2 []))" by (simp add: has_key_def entries_def)
  then obtain n s1 where i: "insert_entry ?k ?v 9 True None ex_index = (Ret n, s1)" "inserted ?k ?v ex_index (BLeaf 2 []) s1"
    using insert_entry_ok(2) [OF ex_index(1), of ?k None ?v 9 True] ex_valid ex_index(2,3) by (auto simp: ticket_leaf_def ticket_matches_def ex_ix_hdr_def)
  obtain t1 where t: "ix_inv s1 t1" "hstat (ix_hdr s1) = hstat (ix_hdr ex_index)" "entries t1 = pairs_insert (cols ex_index) ?k ?v (entries (BLeaf 2 []))"
    using i(2) unfolding inserted_def by blast
  have t1: "ix_inv s1 t1" "entries t1 = [(?k, ?v)]" "cols s1 = ex_cols" using t hstatD [OF t(2)] ex_index(3) by (simp_all add: entries_def pairs_insert_def)
  then obtain s2 t2 where "delete_entry ?k 9 True s1 = (Ret True, s2)" "ix_inv s2 t2" "entries t2 = []"
    using delete_entry_refines [OF t1(1), of ?k 9 True] ex_valid by (auto simp: has_key_def pairs_remove_def)
  then show ?thesis using i(1) t1(1,2) by blast
qed

end
