(* ===== verification/Rmdb_Watermark.thy ===== *)
theory Rmdb_Watermark
  imports Rmdb_Prelude "HOL-Library.Multiset"
begin

text \<open>
  The watermark of the version store, \<^verbatim>\<open>src/src/transaction/watermark.cpp\<close>: the smallest read timestamp of an active transaction, below which
  old versions may be collected. \<open>current_reads_\<close>, a \<^verbatim>\<open>std::map\<close>, is the list of its entries in ascending order of the keys. Its abstraction is
  the multiset of the read timestamps of the active transactions.
\<close>

record watermark =
  wm_commit_ts :: timestamp_t
  wm_watermark :: timestamp_t
  current_reads :: "(timestamp_t \<times> int) list"

definition Watermark_new :: "timestamp_t \<Rightarrow> watermark" where
  "Watermark_new ts = \<lparr>wm_commit_ts = ts, wm_watermark = ts, current_reads = []\<rparr>"

text \<open>\<open>current_reads_[ts]++\<close> creates a missing entry with 0.\<close>

fun reads_incr :: "timestamp_t \<Rightarrow> (timestamp_t \<times> int) list \<Rightarrow> (timestamp_t \<times> int) list" where
  "reads_incr ts [] = [(ts, 1)]"
| "reads_incr ts ((k, c) # m) = (if ts < k then (ts, 1) # (k, c) # m else if ts = k then (k, c + 1) # m else (k, c) # reads_incr ts m)"

fun reads_decr :: "timestamp_t \<Rightarrow> (timestamp_t \<times> int) list \<Rightarrow> (timestamp_t \<times> int) list" where
  "reads_decr ts [] = []"
| "reads_decr ts ((k, c) # m) = (if ts = k then (if c - 1 \<le> 0 then m else (k, c - 1) # m) else (k, c) # reads_decr ts m)"

definition first_read :: "watermark \<Rightarrow> timestamp_t" where
  "first_read w = (if current_reads w = [] then wm_commit_ts w else fst (hd (current_reads w)))"

definition AddTxn :: "timestamp_t \<Rightarrow> watermark \<Rightarrow> watermark" where
  "AddTxn read_ts w = (let w1 = w\<lparr>current_reads := reads_incr read_ts (current_reads w)\<rparr> in w1\<lparr>wm_watermark := first_read w1\<rparr>)"

definition RemoveTxn :: "timestamp_t \<Rightarrow> watermark \<Rightarrow> watermark" where
  "RemoveTxn read_ts w = (let w1 = w\<lparr>current_reads := reads_decr read_ts (current_reads w)\<rparr> in w1\<lparr>wm_watermark := first_read w1\<rparr>)"

definition UpdateCommitTs :: "timestamp_t \<Rightarrow> watermark \<Rightarrow> watermark" where
  "UpdateCommitTs ts w =
     (if ts < wm_commit_ts w then w
      else let w1 = w\<lparr>wm_commit_ts := ts\<rparr> in if current_reads w1 = [] then w1\<lparr>wm_watermark := ts\<rparr> else w1)"

definition GetWatermark :: "watermark \<Rightarrow> timestamp_t" where
  "GetWatermark w = wm_watermark w"

subsection \<open>The multiset of active reads\<close>

definition bag :: "(timestamp_t \<times> int) list \<Rightarrow> timestamp_t multiset" where
  "bag m = (\<Sum>e \<leftarrow> m. replicate_mset (nat (snd e)) (fst e))"

definition entries_ok :: "(timestamp_t \<times> int) list \<Rightarrow> bool" where
  "entries_ok m \<longleftrightarrow> sorted_wrt (<) (map fst m) \<and> (\<forall>e \<in> set m. 0 < snd e)"

definition wm_inv :: "watermark \<Rightarrow> bool" where
  "wm_inv w \<longleftrightarrow> entries_ok (current_reads w) \<and> wm_watermark w = first_read w"

lemma bag_simps [simp]: "bag [] = {#}" "bag (e # m) = replicate_mset (nat (snd e)) (fst e) + bag m"
  by (simp_all add: bag_def)

lemma set_bag: "entries_ok m \<Longrightarrow> set_mset (bag m) = fst ` set m"
  by (induction m) (auto simp: entries_ok_def)

lemma reads_incr_keys: "fst ` set (reads_incr ts m) = insert ts (fst ` set m)"
  by (induction ts m rule: reads_incr.induct) auto

lemma reads_decr_keys: "fst ` set (reads_decr ts m) \<subseteq> fst ` set m"
  by (induction ts m rule: reads_decr.induct) auto

lemma reads_incr_ok: "entries_ok m \<Longrightarrow> entries_ok (reads_incr ts m) \<and> bag (reads_incr ts m) = add_mset ts (bag m)"
proof (induction ts m rule: reads_incr.induct)
  case (2 ts k c m)
  have "\<forall>x \<in> fst ` set m. k < x" "0 < c" using "2.prems" by (auto simp: entries_ok_def)
  moreover from this have "ts > k \<Longrightarrow> \<forall>x \<in> fst ` set (reads_incr ts m). k < x" by (simp add: reads_incr_keys)
  moreover have "nat (c + 1) = Suc (nat c)" using \<open>0 < c\<close> by simp
  ultimately show ?case using 2 by (auto simp: entries_ok_def)
qed (simp add: entries_ok_def)

lemma reads_decr_ok: "entries_ok m \<Longrightarrow> entries_ok (reads_decr ts m) \<and> bag (reads_decr ts m) = bag m - {#ts#}"
proof (induction ts m rule: reads_decr.induct)
  case (2 ts k c m)
  have m: "entries_ok m" "\<forall>x \<in> fst ` set m. k < x" "0 < c" using "2.prems" by (auto simp: entries_ok_def)
  have c: "nat c = Suc (nat (c - 1))" using m(3) by simp
  show ?case
  proof (cases "ts = k")
    case True
    then show ?thesis using m "2.prems" by (auto simp: entries_ok_def c)
  next
    case False
    have "\<forall>x \<in> fst ` set (reads_decr ts m). k < x" using m(2) reads_decr_keys [of ts m] by blast
    moreover have "replicate_mset (nat c) k + bag m - {#ts#} = replicate_mset (nat c) k + (bag m - {#ts#})"
      using False by (intro multiset_eqI) auto
    ultimately show ?thesis using False 2 m by (auto simp: entries_ok_def)
  qed
qed (simp add: entries_ok_def)

lemma first_read_min:
  assumes "entries_ok (current_reads w)"
  shows "first_read w = (if bag (current_reads w) = {#} then wm_commit_ts w else Min_mset (bag (current_reads w)))"
proof (cases "current_reads w")
  case Nil
  then show ?thesis by (simp add: first_read_def)
next
  case (Cons e m)
  have ne: "bag (current_reads w) \<noteq> {#}" using assms Cons by (simp add: entries_ok_def)
  have "Min_mset (bag (current_reads w)) = fst e"
    using assms Cons by (intro Min_eqI) (auto simp: set_bag entries_ok_def)
  then show ?thesis using ne Cons by (simp add: first_read_def del: bag_simps)
qed

subsection \<open>Property\<close>

datatype wm_op = OpAdd timestamp_t | OpRemove timestamp_t | OpCommit timestamp_t

primrec wm_apply :: "wm_op \<Rightarrow> watermark \<Rightarrow> watermark" where
  "wm_apply (OpAdd ts) = AddTxn ts"
| "wm_apply (OpRemove ts) = RemoveTxn ts"
| "wm_apply (OpCommit ts) = UpdateCommitTs ts"

text \<open>The specification: a multiset of reads and the newest commit timestamp.\<close>

primrec wm_spec :: "wm_op \<Rightarrow> timestamp_t \<times> timestamp_t multiset \<Rightarrow> timestamp_t \<times> timestamp_t multiset" where
  "wm_spec (OpAdd ts) p = (fst p, add_mset ts (snd p))"
| "wm_spec (OpRemove ts) p = (fst p, snd p - {#ts#})"
| "wm_spec (OpCommit ts) p = (max ts (fst p), snd p)"

definition wm_abs :: "watermark \<Rightarrow> timestamp_t \<times> timestamp_t multiset" where
  "wm_abs w = (wm_commit_ts w, bag (current_reads w))"

lemma wm_apply_refines: "wm_inv w \<Longrightarrow> wm_inv (wm_apply e w) \<and> wm_abs (wm_apply e w) = wm_spec e (wm_abs w)"
  using reads_incr_ok reads_decr_ok
  by (cases e) (auto simp: wm_inv_def wm_abs_def AddTxn_def RemoveTxn_def UpdateCommitTs_def first_read_def Let_def)

lemma wm_run_refines: "wm_inv w \<Longrightarrow> wm_inv (fold wm_apply es w) \<and> wm_abs (fold wm_apply es w) = fold wm_spec es (wm_abs w)"
  by (induction es arbitrary: w) (simp_all add: wm_apply_refines)

text \<open>
  C27. The watermark. After any sequence of \<open>AddTxn\<close>, \<open>RemoveTxn\<close> and \<open>UpdateCommitTs\<close> the watermark is the smallest read timestamp that was added and not
  removed again, or the newest commit timestamp when there is none.
\<close>

theorem watermark_refines_minimum:
  "(case fold wm_spec es (ts, {#}) of (commit_ts, reads) \<Rightarrow>
     GetWatermark (fold wm_apply es (Watermark_new ts)) = (if reads = {#} then commit_ts else Min_mset reads))"
proof -
  let ?w = "fold wm_apply es (Watermark_new ts)"
  have "wm_inv (Watermark_new ts)" "wm_abs (Watermark_new ts) = (ts, {#})"
    by (simp_all add: wm_inv_def Watermark_new_def entries_ok_def first_read_def wm_abs_def)
  then have "wm_inv ?w" "wm_abs ?w = fold wm_spec es (ts, {#})" using wm_run_refines by metis+
  then show ?thesis
    using first_read_min [of ?w] by (auto simp: GetWatermark_def wm_inv_def wm_abs_def split: prod.splits)
qed

end
