(* ===== verification/Rmdb_Mvcc.thy ===== *)
theory Rmdb_Mvcc
  imports Rmdb_Watermark
begin

text \<open>
  Multi-version concurrency control, \<^verbatim>\<open>src/src/transaction/transaction_manager.cpp\<close> with \<^verbatim>\<open>transaction.h\<close> and \<^verbatim>\<open>txn_defs.h\<close>: snapshots,
  versions of tuples, the write check, commit in the order of the commit timestamps, abort, and the collection of old versions.

  The heap files are seen through their records: \<open>heap\<close> maps a tuple key (the file and the record identifier) to the bytes of the record, and \<open>reserved\<close> and
  \<open>quarantined\<close> are the slots that an insertion cannot get (properties of the heap file are in \<open>Rmdb_Heap_Props\<close> and \<open>Rmdb_Heap_Reserve\<close>).
  The 64 shards of the tuple states are one map, with the publication epoch of each shard; a transaction object is found through its identifier.
  Critical sections are single steps. The unique key registry, the stale index registry and the graph of serializable transactions are other data structures
  of the same class and not part of this theory; a failing check of the latter is a parameter of \<open>commit_begin\<close>. Identifiers and timestamps are 64-bit counters, here
  integers without wrap-around.
\<close>

record tuple_key =
  tk_fd :: int
  tk_rid :: rid

record undo_link =
  prev_txn :: txn_id_t
  prev_log_idx :: int

definition no_link :: undo_link where "no_link = \<lparr>prev_txn = INVALID_TXN_ID, prev_log_idx = 0\<rparr>"

definition link_valid :: "undo_link \<Rightarrow> bool" where "link_valid l \<longleftrightarrow> prev_txn l \<noteq> INVALID_TXN_ID"

record undo_log =
  u_is_deleted :: bool
  u_record :: "byte list"
  u_ts :: timestamp_t
  prev_version :: undo_link

record tuple_state =
  ts_commit_ts :: timestamp_t
  ts_owner :: txn_id_t
  ts_is_deleted :: bool
  ts_undo_head :: "undo_link option"

definition TupleState_new :: tuple_state where
  "TupleState_new = \<lparr>ts_commit_ts = 0, ts_owner = INVALID_TXN_ID, ts_is_deleted = False, ts_undo_head = None\<rparr>"

record txn_tuple_write_state =
  inserted_by_txn :: bool
  has_before_state :: bool
  before_first_write :: tuple_state

datatype wtype = INSERT_TUPLE | DELETE_TUPLE | UPDATE_TUPLE

record write_record =
  wr_type :: wtype
  wr_key :: tuple_key
  wr_old :: "byte list option"
  wr_new :: "byte list option"

datatype txn_state = DEFAULT | GROWING | SHRINKING | COMMITTED | ABORTED

record transaction =
  txn_state_of :: txn_state
  start_ts :: timestamp_t
  commit_ts :: timestamp_t
  undo_logs :: "undo_log list"
  tuple_write_states :: "(tuple_key \<times> txn_tuple_write_state) list"
  tuple_state_gc_keys :: "tuple_key list"
  write_set :: "write_record list"

definition Transaction_new :: transaction where
  "Transaction_new = \<lparr>txn_state_of = DEFAULT, start_ts = 0, commit_ts = INVALID_TS, undo_logs = [], tuple_write_states = [], tuple_state_gc_keys = [], write_set = []\<rparr>"

record txn_manager =
  next_txn_id :: txn_id_t
  next_timestamp :: timestamp_t
  last_commit_ts :: timestamp_t
  commit_publications :: "(timestamp_t \<times> bool) list"
  running_txns :: watermark
  txn_map :: "txn_id_t \<rightharpoonup> transaction"
  tuple_states :: "tuple_key \<rightharpoonup> tuple_state"
  publication_epoch :: "nat \<Rightarrow> nat"
  reclaimable_txns :: "(timestamp_t \<times> txn_id_t) list"
  version_gc_epoch :: nat
  reader_epochs :: "nat list"
  pending_delete_txns :: "(nat \<times> txn_id_t) list"
  active_txn_count :: nat
  checkpoint_in_progress :: bool
  vacuum_tracking_active :: bool
  pending_committed_deletes :: "tuple_key list"
  heap :: "tuple_key \<rightharpoonup> byte list"
  reserved :: "tuple_key set"
  quarantined :: "tuple_key set"
  mvcc_files :: "int set"

text \<open>The state after the start of the server on heap files with the records \<open>h\<close>, with the counters recovery left.\<close>

definition TransactionManager_new :: "txn_id_t \<Rightarrow> timestamp_t \<Rightarrow> timestamp_t \<Rightarrow> (tuple_key \<rightharpoonup> byte list) \<Rightarrow> txn_manager" where
  "TransactionManager_new nid nts lts h =
     \<lparr>next_txn_id = nid, next_timestamp = nts, last_commit_ts = lts, commit_publications = [], running_txns = Watermark_new 0, txn_map = Map.empty, tuple_states = Map.empty,
      publication_epoch = (\<lambda>_. 0), reclaimable_txns = [], version_gc_epoch = 1, reader_epochs = [], pending_delete_txns = [], active_txn_count = 0, checkpoint_in_progress = False,
      vacuum_tracking_active = False, pending_committed_deletes = [], heap = h, reserved = {}, quarantined = {}, mvcc_files = {}\<rparr>"

definition upd_txn :: "txn_id_t \<Rightarrow> (transaction \<Rightarrow> transaction) \<Rightarrow> txn_manager \<Rightarrow> txn_manager" where
  "upd_txn t f s = s\<lparr>txn_map := (txn_map s)(t := map_option f (txn_map s t))\<rparr>"

subsection \<open>Shards\<close>

definition kTupleStateShardCount :: nat where "kTupleStateShardCount = 64"

definition TupleStateShardHash :: "tuple_key \<Rightarrow> 64 word" where
  "TupleStateShardHash key =
     (let v0 = push_bit 32 (ucast (word_of_int (tk_fd key) :: 32 word)) XOR push_bit 16 (ucast (word_of_int (rid_page (tk_rid key)) :: 32 word))
               XOR ucast (word_of_int (rid_slot (tk_rid key)) :: 16 word);
          v1 = (v0 XOR drop_bit 33 v0) * 0xff51afd7ed558ccd;
          v2 = (v1 XOR drop_bit 33 v1) * 0xc4ceb9fe1a85ec53
      in v2 XOR drop_bit 33 v2)"

definition TupleStateShardIndex :: "tuple_key \<Rightarrow> nat" where
  "TupleStateShardIndex key = unat (TupleStateShardHash key AND 63)"

definition GetTuplePublicationEpoch :: "tuple_key \<Rightarrow> txn_manager \<Rightarrow> nat" where
  "GetTuplePublicationEpoch key s = publication_epoch s (TupleStateShardIndex key)"

definition bump_publication :: "tuple_key \<Rightarrow> txn_manager \<Rightarrow> txn_manager" where
  "bump_publication key s = s\<lparr>publication_epoch := (publication_epoch s)(TupleStateShardIndex key := Suc (publication_epoch s (TupleStateShardIndex key)))\<rparr>"

text \<open>The assignment to a state that is already in its shard, and the two functions of the code.\<close>

definition set_state :: "tuple_key \<Rightarrow> tuple_state \<Rightarrow> txn_manager \<Rightarrow> txn_manager" where
  "set_state key st s = s\<lparr>tuple_states := (tuple_states s)(key \<mapsto> st)\<rparr>"

definition AssignTupleStateLocked :: "tuple_key \<Rightarrow> tuple_state \<Rightarrow> txn_manager \<Rightarrow> txn_manager" where
  "AssignTupleStateLocked key st s = bump_publication key (set_state key st s)"

definition EraseTupleStateLocked :: "tuple_key \<Rightarrow> txn_manager \<Rightarrow> txn_manager" where
  "EraseTupleStateLocked key s =
     (if tuple_states s key = None then s else bump_publication key (s\<lparr>tuple_states := (tuple_states s)(key := None)\<rparr>))"

definition MarkHasMvccState :: "tuple_key \<Rightarrow> txn_manager \<Rightarrow> txn_manager" where
  "MarkHasMvccState key s = s\<lparr>mvcc_files := insert (tk_fd key) (mvcc_files s)\<rparr>"

subsection \<open>Versions\<close>

definition GetUndoLogOptional :: "undo_link \<Rightarrow> txn_manager \<Rightarrow> undo_log option" where
  "GetUndoLogOptional l s =
     (case (if prev_txn l = INVALID_TXN_ID then None else txn_map s (prev_txn l)) of None \<Rightarrow> None
      | Some t \<Rightarrow> if prev_log_idx l < 0 \<or> prev_log_idx l \<ge> int (length (undo_logs t)) then None else Some (undo_logs t ! nat (prev_log_idx l)))"

text \<open>The loop over the versions of a tuple. Timestamps decrease along the versions, which bounds the number of rounds.\<close>

fun walk_versions :: "nat \<Rightarrow> undo_link \<Rightarrow> timestamp_t \<Rightarrow> txn_manager \<Rightarrow> byte list option outcome" where
  "walk_versions 0 l read_ts s = Wait"
| "walk_versions (Suc fuel) l read_ts s =
     (if \<not> link_valid l then Ret None
      else case GetUndoLogOptional l s of None \<Rightarrow> Ret None
        | Some u \<Rightarrow> if u_ts u \<le> read_ts then Ret (if u_is_deleted u then None else Some (u_record u)) else walk_versions fuel (prev_version u) read_ts s)"

definition walk_head :: "undo_link option \<Rightarrow> timestamp_t \<Rightarrow> txn_manager \<Rightarrow> byte list option outcome" where
  "walk_head h read_ts s = (case h of None \<Rightarrow> Ret None | Some l \<Rightarrow> walk_versions (nat (next_timestamp s) + 2) l read_ts s)"

text \<open>\<open>reader\<close> is \<open>None\<close> for the null pointer.\<close>

definition reader_id :: "txn_id_t option \<Rightarrow> txn_id_t" where
  "reader_id reader = (case reader of None \<Rightarrow> INVALID_TXN_ID | Some t \<Rightarrow> t)"

definition reader_ts :: "txn_id_t option \<Rightarrow> txn_manager \<Rightarrow> timestamp_t" where
  "reader_ts reader s = (case reader of None \<Rightarrow> last_commit_ts s | Some t \<Rightarrow> (case txn_map s t of None \<Rightarrow> last_commit_ts s | Some x \<Rightarrow> start_ts x))"

definition ResolveVisibleTupleImpl :: "tuple_key \<Rightarrow> byte list \<Rightarrow> txn_id_t option \<Rightarrow> txn_manager \<Rightarrow> byte list option outcome" where
  "ResolveVisibleTupleImpl key latest reader s =
     (if tk_fd key \<notin> mvcc_files s then Ret (Some latest)
      else case tuple_states s key of None \<Rightarrow> Ret (Some latest)
      | Some st \<Rightarrow>
          if ts_owner st = reader_id reader then Ret (if ts_is_deleted st then None else Some latest)
          else if ts_owner st \<noteq> INVALID_TXN_ID then walk_head (ts_undo_head st) (reader_ts reader s) s
          else if ts_commit_ts st \<le> reader_ts reader s then Ret (if ts_is_deleted st then None else Some latest)
          else walk_head (ts_undo_head st) (reader_ts reader s) s)"

text \<open>\<open>ReadVisibleTuple\<close> when nothing interferes: the heap record and the state are of the same time.\<close>

definition ReadVisibleTuple :: "tuple_key \<Rightarrow> txn_id_t option \<Rightarrow> txn_manager \<Rightarrow> byte list option outcome" where
  "ReadVisibleTuple key reader s = (case heap s key of None \<Rightarrow> Ret None | Some latest \<Rightarrow> ResolveVisibleTupleImpl key latest reader s)"

text \<open>One round of its loop against changes by other threads: the flag and the epoch are read in \<open>s0\<close>, the heap record in \<open>s1\<close>, the state in \<open>s2\<close>, and the
  epoch (or the flag) again in \<open>s3\<close>. \<open>None\<close> is another round.\<close>

definition read_round :: "tuple_key \<Rightarrow> txn_id_t option \<Rightarrow> txn_manager \<Rightarrow> txn_manager \<Rightarrow> txn_manager \<Rightarrow> txn_manager \<Rightarrow> byte list option outcome option" where
  "read_round key reader s0 s1 s2 s3 =
     (let had_mvcc_state = (tk_fd key \<in> mvcc_files s0); before = GetTuplePublicationEpoch key s0
      in case heap s1 key of
           None \<Rightarrow> if (\<not> had_mvcc_state \<and> tk_fd key \<in> mvcc_files s3) \<or> (had_mvcc_state \<and> before \<noteq> GetTuplePublicationEpoch key s3) then None else Some (Ret None)
         | Some latest \<Rightarrow>
             if \<not> had_mvcc_state then (if tk_fd key \<notin> mvcc_files s3 then Some (Ret (Some latest)) else None)
             else let visible = ResolveVisibleTupleImpl key latest reader s2
                  in if before = GetTuplePublicationEpoch key s3 then Some visible else None)"

subsection \<open>Begin\<close>

text \<open>A new transaction; \<open>Wait\<close> while a static checkpoint holds back new transactions.\<close>

definition tm_begin :: "txn_manager \<Rightarrow> txn_id_t outcome \<times> txn_manager" where
  "tm_begin s =
     (if checkpoint_in_progress s then (Wait, s)
      else let t = next_txn_id s; ts = last_commit_ts s
           in (Ret t, s\<lparr>active_txn_count := Suc (active_txn_count s), next_txn_id := t + 1, running_txns := AddTxn ts (running_txns s),
                       txn_map := (txn_map s)(t \<mapsto> Transaction_new\<lparr>txn_state_of := GROWING, start_ts := ts\<rparr>)\<rparr>))"

subsection \<open>Writes\<close>

datatype write_check_result = OK | CONFLICT_WITH_ACTIVE_WRITER | CONFLICT_WITH_COMMITTED_VERSION | NOT_VISIBLE_OR_DELETED

datatype tuple_write_kind = KIND_UPDATE | KIND_DELETE

record write_check_outcome =
  wc_result :: write_check_result
  newly_acquired :: bool
  wc_owner :: txn_id_t
  newly_recorded_tuple_state :: bool
  changed_owned_delete_flag :: bool
  previous_owned_delete_flag :: bool

definition wc_outcome :: "write_check_result \<Rightarrow> bool \<Rightarrow> txn_id_t \<Rightarrow> bool \<Rightarrow> write_check_outcome" where
  "wc_outcome r acq own rec = \<lparr>wc_result = r, newly_acquired = acq, wc_owner = own, newly_recorded_tuple_state = rec, changed_owned_delete_flag = False, previous_owned_delete_flag = False\<rparr>"

definition txn_of :: "txn_id_t \<Rightarrow> txn_manager \<Rightarrow> transaction" where
  "txn_of t s = (case txn_map s t of None \<Rightarrow> Transaction_new | Some x \<Rightarrow> x)"

definition HasTupleWriteState :: "tuple_key \<Rightarrow> transaction \<Rightarrow> bool" where
  "HasTupleWriteState key x \<longleftrightarrow> map_of (tuple_write_states x) key \<noteq> None"

definition SetTupleWriteState :: "tuple_key \<Rightarrow> txn_tuple_write_state \<Rightarrow> transaction \<Rightarrow> transaction" where
  "SetTupleWriteState key w x = x\<lparr>tuple_write_states := (key, w) # filter (\<lambda>e. fst e \<noteq> key) (tuple_write_states x)\<rparr>"

definition EraseTupleWriteState :: "tuple_key \<Rightarrow> transaction \<Rightarrow> transaction" where
  "EraseTupleWriteState key x = x\<lparr>tuple_write_states := filter (\<lambda>e. fst e \<noteq> key) (tuple_write_states x)\<rparr>"

definition AppendUndoLog :: "undo_log \<Rightarrow> transaction \<Rightarrow> transaction" where
  "AppendUndoLog u x = x\<lparr>undo_logs := undo_logs x @ [u]\<rparr>"

definition try_emplace :: "tuple_key \<Rightarrow> txn_manager \<Rightarrow> tuple_state \<times> txn_manager" where
  "try_emplace key s = (case tuple_states s key of Some st \<Rightarrow> (st, s) | None \<Rightarrow> (TupleState_new, set_state key TupleState_new s))"

text \<open>The state before the first write of a transaction goes to its undo log; the new state points to it.\<close>

definition record_before :: "tuple_key \<Rightarrow> tuple_state \<Rightarrow> byte list \<Rightarrow> txn_id_t \<Rightarrow> txn_manager \<Rightarrow> tuple_state \<times> txn_manager" where
  "record_before key before old t s =
     (let u = \<lparr>u_is_deleted = ts_is_deleted before, u_record = old, u_ts = ts_commit_ts before,
               prev_version = (case ts_undo_head before of None \<Rightarrow> no_link | Some l \<Rightarrow> l)\<rparr>;
          l = \<lparr>prev_txn = t, prev_log_idx = int (length (undo_logs (txn_of t s)))\<rparr>;
          w = \<lparr>inserted_by_txn = False, has_before_state = True, before_first_write = before\<rparr>
      in (before\<lparr>ts_undo_head := Some l\<rparr>, upd_txn t (\<lambda>x. SetTupleWriteState key w (AppendUndoLog u x)) s))"

definition CheckAndAcquireWrite :: "tuple_key \<Rightarrow> txn_id_t \<Rightarrow> txn_manager \<Rightarrow> write_check_outcome \<times> txn_manager" where
  "CheckAndAcquireWrite key t s0 =
     (case try_emplace key (MarkHasMvccState key s0) of (st, s) \<Rightarrow>
      if ts_owner st = t then (wc_outcome OK False INVALID_TXN_ID False, s)
      else if ts_owner st \<noteq> INVALID_TXN_ID then (wc_outcome CONFLICT_WITH_ACTIVE_WRITER False (ts_owner st) False, s)
      else if ts_commit_ts st > start_ts (txn_of t s) then (wc_outcome CONFLICT_WITH_COMMITTED_VERSION False INVALID_TXN_ID False, s)
      else if ts_is_deleted st \<and> ts_commit_ts st \<le> start_ts (txn_of t s) then (wc_outcome NOT_VISIBLE_OR_DELETED False INVALID_TXN_ID False, s)
      else (wc_outcome OK True INVALID_TXN_ID False, bump_publication key (set_state key (st\<lparr>ts_owner := t\<rparr>) s)))"

definition AcquireWriteAndRecord :: "tuple_key \<Rightarrow> byte list \<Rightarrow> txn_id_t \<Rightarrow> tuple_write_kind \<Rightarrow> txn_manager \<Rightarrow> write_check_outcome \<times> txn_manager" where
  "AcquireWriteAndRecord key old t kind s0 =
     (case try_emplace key (MarkHasMvccState key s0) of (st, s) \<Rightarrow>
      let del = (kind = KIND_DELETE)
      in if ts_owner st = t then
           let s1 = set_state key (st\<lparr>ts_is_deleted := del\<rparr>) s
           in ((wc_outcome OK False INVALID_TXN_ID False)\<lparr>changed_owned_delete_flag := (ts_is_deleted st \<noteq> del), previous_owned_delete_flag := ts_is_deleted st\<rparr>,
               if ts_is_deleted st \<noteq> del then bump_publication key s1 else s1)
         else if ts_owner st \<noteq> INVALID_TXN_ID then (wc_outcome CONFLICT_WITH_ACTIVE_WRITER False (ts_owner st) False, s)
         else if ts_commit_ts st > start_ts (txn_of t s) then (wc_outcome CONFLICT_WITH_COMMITTED_VERSION False INVALID_TXN_ID False, s)
         else if ts_is_deleted st \<and> ts_commit_ts st \<le> start_ts (txn_of t s) then (wc_outcome NOT_VISIBLE_OR_DELETED False INVALID_TXN_ID False, s)
         else
           let first_write = (\<not> HasTupleWriteState key (txn_of t s))
           in case (if first_write then record_before key st old t s else (st, s)) of (st1, s1) \<Rightarrow>
              (wc_outcome OK True INVALID_TXN_ID first_write, bump_publication key (set_state key (st1\<lparr>ts_owner := t, ts_is_deleted := del\<rparr>) s1)))"

definition RecordInsert :: "tuple_key \<Rightarrow> txn_id_t \<Rightarrow> txn_manager \<Rightarrow> txn_manager" where
  "RecordInsert key t s0 =
     (let s = MarkHasMvccState key s0;
          s1 = (if HasTupleWriteState key (txn_of t s) then s
                else upd_txn t (SetTupleWriteState key \<lparr>inserted_by_txn = True, has_before_state = False, before_first_write = TupleState_new\<rparr>) s)
      in AssignTupleStateLocked key \<lparr>ts_commit_ts = INVALID_TS, ts_owner = t, ts_is_deleted = False, ts_undo_head = None\<rparr> s1)"

definition record_write :: "bool \<Rightarrow> tuple_key \<Rightarrow> byte list \<Rightarrow> txn_id_t \<Rightarrow> txn_manager \<Rightarrow> txn_manager" where
  "record_write deleted key old t s0 =
     (let s = MarkHasMvccState key s0;
          before = (case tuple_states s key of None \<Rightarrow> TupleState_new | Some st \<Rightarrow> st)
      in case (if HasTupleWriteState key (txn_of t s) then (before, s)
               else record_before key (if ts_owner before = t then before\<lparr>ts_owner := INVALID_TXN_ID\<rparr> else before) old t s) of (st1, s1) \<Rightarrow>
         AssignTupleStateLocked key (st1\<lparr>ts_owner := t, ts_is_deleted := deleted\<rparr>) s1)"

definition RecordUpdate :: "tuple_key \<Rightarrow> byte list \<Rightarrow> txn_id_t \<Rightarrow> txn_manager \<Rightarrow> txn_manager" where
  "RecordUpdate = record_write False"

definition RecordDelete :: "tuple_key \<Rightarrow> byte list \<Rightarrow> txn_id_t \<Rightarrow> txn_manager \<Rightarrow> txn_manager" where
  "RecordDelete = record_write True"

definition append_write_record :: "write_record \<Rightarrow> txn_id_t \<Rightarrow> txn_manager \<Rightarrow> txn_manager" where
  "append_write_record w t s = upd_txn t (\<lambda>x. x\<lparr>write_set := write_set x @ [w]\<rparr>) s"

text \<open>What is left of a tuple of a transaction that takes its write back.\<close>

definition restore_state :: "tuple_key \<Rightarrow> txn_tuple_write_state \<Rightarrow> txn_manager \<Rightarrow> txn_manager" where
  "restore_state key w s =
     (if inserted_by_txn w \<and> \<not> has_before_state w then EraseTupleStateLocked key s
      else if has_before_state w then AssignTupleStateLocked key (before_first_write w) s
      else EraseTupleStateLocked key s)"

definition RestoreTupleStateForStatement :: "tuple_key \<Rightarrow> txn_id_t \<Rightarrow> txn_manager \<Rightarrow> txn_manager" where
  "RestoreTupleStateForStatement key t s =
     (case map_of (tuple_write_states (txn_of t s)) key of None \<Rightarrow> s
      | Some w \<Rightarrow> upd_txn t (EraseTupleWriteState key) (restore_state key w s))"

definition restore_flag :: "txn_id_t \<Rightarrow> tuple_key \<times> bool \<Rightarrow> txn_manager \<Rightarrow> txn_manager" where
  "restore_flag t c s =
     (case tuple_states s (fst c) of None \<Rightarrow> s
      | Some st \<Rightarrow> if ts_owner st = t then bump_publication (fst c) (set_state (fst c) (st\<lparr>ts_is_deleted := snd c\<rparr>) s) else s)"

definition RestoreOwnedTupleFlags :: "(tuple_key \<times> bool) list \<Rightarrow> txn_id_t \<Rightarrow> txn_manager \<Rightarrow> txn_manager" where
  "RestoreOwnedTupleFlags changes t s = fold (restore_flag t) (rev changes) s"

definition release_owner :: "txn_id_t \<Rightarrow> tuple_key \<Rightarrow> txn_manager \<Rightarrow> txn_manager" where
  "release_owner t key s =
     (case tuple_states s key of None \<Rightarrow> s
      | Some st \<Rightarrow> if ts_owner st = t then bump_publication key (set_state key (st\<lparr>ts_owner := INVALID_TXN_ID\<rparr>) s) else s)"

text \<open>The keys are visited shard by shard.\<close>

definition by_shard :: "tuple_key list \<Rightarrow> tuple_key list" where
  "by_shard keys = concat (map (\<lambda>i. filter (\<lambda>k. TupleStateShardIndex k = i) keys) [0..<kTupleStateShardCount])"

definition ReleaseWriteOwners :: "tuple_key list \<Rightarrow> txn_id_t \<Rightarrow> txn_manager \<Rightarrow> txn_manager" where
  "ReleaseWriteOwners keys t s = fold (release_owner t) (by_shard keys) s"

text \<open>A statement of \<^verbatim>\<open>executor_update.h\<close> or \<^verbatim>\<open>executor_delete.h\<close> that fails before it changed a record takes its write rights back.\<close>

definition statement_rollback :: "(tuple_key \<times> bool) list \<Rightarrow> tuple_key list \<Rightarrow> tuple_key list \<Rightarrow> txn_id_t \<Rightarrow> txn_manager \<Rightarrow> txn_manager" where
  "statement_rollback flags registered acquired t s =
     ReleaseWriteOwners acquired t (fold (\<lambda>k. RestoreTupleStateForStatement k t) (rev registered) (RestoreOwnedTupleFlags flags t s))"

subsection \<open>Commit timestamps\<close>

definition ReserveCommitTimestamp :: "txn_manager \<Rightarrow> timestamp_t outcome \<times> txn_manager" where
  "ReserveCommitTimestamp s =
     (let ts = (if commit_publications s = [] then max (next_timestamp s) (last_commit_ts s + 1) else next_timestamp s)
      in if map_of (commit_publications s) ts \<noteq> None then (Throw (InternalError ''Duplicate commit timestamp reservation''), s)
         else (Ret ts, s\<lparr>commit_publications := insort_key fst (ts, False) (commit_publications s), next_timestamp := ts + 1\<rparr>))"

definition CancelCommitTimestamp :: "timestamp_t \<Rightarrow> txn_manager \<Rightarrow> unit outcome \<times> txn_manager" where
  "CancelCommitTimestamp ts s =
     (if map_of (commit_publications s) ts = Some False then (Ret (), s\<lparr>commit_publications := filter (\<lambda>e. fst e \<noteq> ts) (commit_publications s)\<rparr>)
      else (Throw (InternalError ''Invalid commit timestamp cancellation''), s))"

definition AwaitCommitPublicationTurn :: "timestamp_t \<Rightarrow> txn_manager \<Rightarrow> unit outcome \<times> txn_manager" where
  "AwaitCommitPublicationTurn ts s =
     (if map_of (commit_publications s) ts = None then (Throw (InternalError ''Commit timestamp publication without reservation''), s)
      else let s1 = s\<lparr>commit_publications := map (\<lambda>e. if fst e = ts then (ts, True) else e) (commit_publications s)\<rparr>
           in if fst (hd (commit_publications s1)) = ts then (Ret (), s1) else (Wait, s1))"

definition CompleteCommitPublication :: "timestamp_t \<Rightarrow> txn_manager \<Rightarrow> unit outcome \<times> txn_manager" where
  "CompleteCommitPublication ts s =
     (if commit_publications s = [] \<or> fst (hd (commit_publications s)) \<noteq> ts then (Throw (InternalError ''Commit publication completed out of order''), s)
      else if map_of (commit_publications s) ts \<noteq> Some True then (Throw (InternalError ''Commit publication completed without durable reservation''), s)
      else (Ret (), s\<lparr>commit_publications := filter (\<lambda>e. fst e \<noteq> ts) (commit_publications s), last_commit_ts := ts\<rparr>))"

definition FinishActiveTransactionForCheckpoint :: "txn_manager \<Rightarrow> txn_manager" where
  "FinishActiveTransactionForCheckpoint s = (if active_txn_count s > 0 then s\<lparr>active_txn_count := active_txn_count s - 1\<rparr> else s)"

subsection \<open>Commit\<close>

definition owned_deleted :: "txn_id_t \<Rightarrow> txn_manager \<Rightarrow> tuple_key \<Rightarrow> bool" where
  "owned_deleted t s key = (case tuple_states s key of None \<Rightarrow> False | Some st \<Rightarrow> ts_owner st = t \<and> ts_is_deleted st)"

text \<open>The first phase. \<open>serializable\<close> tells whether the graph of serializable transactions allows the commit.\<close>

definition commit_begin :: "bool \<Rightarrow> txn_id_t \<Rightarrow> txn_manager \<Rightarrow> unit outcome \<times> txn_manager" where
  "commit_begin serializable t s0 =
     (if txn_state_of (txn_of t s0) = COMMITTED \<or> txn_state_of (txn_of t s0) = ABORTED then (Ret (), s0)
      else let keys = by_shard (map fst (tuple_write_states (txn_of t s0)));
               s1 = upd_txn t (\<lambda>x. x\<lparr>tuple_state_gc_keys := keys\<rparr>) s0;
               dels = filter (owned_deleted t s1) keys;
               s2 = (if dels \<noteq> [] \<and> vacuum_tracking_active s1 then s1\<lparr>pending_committed_deletes := fold List.insert dels (pending_committed_deletes s1)\<rparr> else s1)
           in obind ReserveCommitTimestamp (\<lambda>ts s3.
                let s4 = upd_txn t (\<lambda>x. x\<lparr>commit_ts := ts\<rparr>) s3
                in if serializable then (Ret (), upd_txn t (\<lambda>x. x\<lparr>txn_state_of := SHRINKING\<rparr>) s4)
                   else obind (CancelCommitTimestamp ts) (\<lambda>_ s5. (Throw TransactionAbortException, upd_txn t (\<lambda>x. x\<lparr>commit_ts := INVALID_TS\<rparr>) s5)) s4) s2)"

text \<open>The record of the commit is durable in the log.\<close>

definition commit_durable :: "txn_id_t \<Rightarrow> txn_manager \<Rightarrow> txn_manager" where
  "commit_durable t s = upd_txn t (\<lambda>x. x\<lparr>txn_state_of := COMMITTED\<rparr>) s"

definition publish_state :: "txn_id_t \<Rightarrow> timestamp_t \<Rightarrow> tuple_key \<Rightarrow> txn_manager \<Rightarrow> txn_manager" where
  "publish_state t ts key s =
     (case tuple_states s key of None \<Rightarrow> s
      | Some st \<Rightarrow> if ts_owner st = t then bump_publication key (set_state key (st\<lparr>ts_owner := INVALID_TXN_ID, ts_commit_ts := ts\<rparr>) s) else s)"

text \<open>The second phase, up to the end of the transaction; it waits until all smaller commit timestamps are published.\<close>

definition commit_publish :: "txn_id_t \<Rightarrow> txn_manager \<Rightarrow> unit outcome \<times> txn_manager" where
  "commit_publish t s0 =
     (let ts = commit_ts (txn_of t s0); keys = by_shard (map fst (tuple_write_states (txn_of t s0)))
      in obind (AwaitCommitPublicationTurn ts) (\<lambda>_ s1.
           let s2 = upd_txn t (\<lambda>x. x\<lparr>tuple_write_states := []\<rparr>) (fold (publish_state t ts) keys s1);
               s3 = upd_txn t (\<lambda>x. x\<lparr>write_set := []\<rparr>) s2
           in obind (CompleteCommitPublication ts) (\<lambda>_ s4.
                (Ret (), FinishActiveTransactionForCheckpoint (s4\<lparr>running_txns := RemoveTxn (start_ts (txn_of t s4)) (UpdateCommitTs ts (running_txns s4))\<rparr>))) s3) s0)"

subsection \<open>Abort\<close>

definition undo_write :: "write_record \<Rightarrow> txn_manager \<Rightarrow> txn_manager" where
  "undo_write w s =
     (case wr_type w of
        INSERT_TUPLE \<Rightarrow> s\<lparr>heap := (heap s)(wr_key w := None), quarantined := insert (wr_key w) (quarantined s), reserved := reserved s - {wr_key w}\<rparr>
      | DELETE_TUPLE \<Rightarrow> s\<lparr>heap := (heap s)(wr_key w := wr_old w)\<rparr>
      | UPDATE_TUPLE \<Rightarrow> s\<lparr>heap := (heap s)(wr_key w := wr_old w)\<rparr>)"

definition tm_abort :: "txn_id_t \<Rightarrow> txn_manager \<Rightarrow> txn_manager" where
  "tm_abort t s0 =
     (let x = txn_of t s0;
          s1 = upd_txn t (\<lambda>x. x\<lparr>txn_state_of := ABORTED\<rparr>) s0;
          s2 = upd_txn t (\<lambda>x. x\<lparr>write_set := []\<rparr>) (fold undo_write (rev (write_set x)) s1);
          keys = by_shard (map fst (tuple_write_states x));
          s3 = upd_txn t (\<lambda>x. x\<lparr>tuple_state_gc_keys := keys\<rparr>) s2;
          s4 = fold (\<lambda>k. restore_state k (the (map_of (tuple_write_states x) k))) keys s3;
          s5 = upd_txn t (\<lambda>x. x\<lparr>tuple_write_states := []\<rparr>) s4
      in FinishActiveTransactionForCheckpoint (s5\<lparr>running_txns := RemoveTxn (start_ts x) (running_txns s5)\<rparr>))"

subsection \<open>Collection of versions and transactions\<close>

definition min_reader_epoch :: "txn_manager \<Rightarrow> nat option" where
  "min_reader_epoch s = (let active = filter (\<lambda>e. e \<noteq> 0) (reader_epochs s) in if active = [] then None else Some (Min (set active)))"

definition drainable :: "txn_manager \<Rightarrow> nat \<times> txn_id_t \<Rightarrow> bool" where
  "drainable s e = (case min_reader_epoch s of None \<Rightarrow> True | Some m \<Rightarrow> fst e < m)"

definition TryDrainRetiredTransactions :: "txn_manager \<Rightarrow> txn_manager" where
  "TryDrainRetiredTransactions s =
     (let gone = set (map snd (filter (drainable s) (pending_delete_txns s)))
      in s\<lparr>pending_delete_txns := filter (\<lambda>e. \<not> drainable s e) (pending_delete_txns s), txn_map := (txn_map s) |` (- gone)\<rparr>)"

definition VersionReadGuard_enter :: "nat \<Rightarrow> txn_manager \<Rightarrow> txn_manager" where
  "VersionReadGuard_enter slot s = s\<lparr>reader_epochs := (reader_epochs s)[slot := version_gc_epoch s]\<rparr>"

definition VersionReadGuard_exit :: "nat \<Rightarrow> txn_manager \<Rightarrow> txn_manager" where
  "VersionReadGuard_exit slot s =
     (let s1 = s\<lparr>reader_epochs := (reader_epochs s)[slot := 0]\<rparr> in if pending_delete_txns s1 \<noteq> [] then TryDrainRetiredTransactions s1 else s1)"

definition gc_state :: "timestamp_t \<Rightarrow> tuple_key \<Rightarrow> txn_manager \<Rightarrow> txn_manager" where
  "gc_state wm key s =
     (case tuple_states s key of None \<Rightarrow> s
      | Some st \<Rightarrow> if ts_owner st = INVALID_TXN_ID \<and> \<not> ts_is_deleted st \<and> ts_commit_ts st \<le> wm then EraseTupleStateLocked key s else s)"

definition gc_txn :: "timestamp_t \<Rightarrow> txn_id_t \<Rightarrow> txn_manager \<Rightarrow> txn_manager" where
  "gc_txn wm t s = fold (gc_state wm) (tuple_state_gc_keys (txn_of t s)) (upd_txn t (\<lambda>x. x\<lparr>tuple_state_gc_keys := []\<rparr>) s)"

definition GarbageCollectTupleStatesForRetired :: "(nat \<times> txn_id_t) list \<Rightarrow> timestamp_t \<Rightarrow> txn_manager \<Rightarrow> txn_manager" where
  "GarbageCollectTupleStatesForRetired retired wm s = fold (\<lambda>e. gc_txn wm (snd e)) retired s"

definition RetireTransaction :: "txn_id_t \<Rightarrow> timestamp_t \<Rightarrow> txn_manager \<Rightarrow> txn_manager" where
  "RetireTransaction t reclaim_ts s0 =
     (let wm = GetWatermark (running_txns s0);
          q = insort_key fst (reclaim_ts, t) (reclaimable_txns s0);
          found = filter (\<lambda>t. txn_map s0 t \<noteq> None) (map snd (filter (\<lambda>e. fst e \<le> wm) q));
          to_retire = zip [version_gc_epoch s0 + 1..<version_gc_epoch s0 + 1 + length found] found;
          s1 = s0\<lparr>reclaimable_txns := filter (\<lambda>e. \<not> fst e \<le> wm) q, version_gc_epoch := version_gc_epoch s0 + length found\<rparr>
      in if to_retire = [] then s1
         else let s2 = GarbageCollectTupleStatesForRetired to_retire wm s1
              in TryDrainRetiredTransactions (s2\<lparr>pending_delete_txns := pending_delete_txns s2 @ to_retire\<rparr>))"

subsection \<open>Static checkpoints\<close>

text \<open>The wait for the end of the active transactions is limited; \<open>False\<close> when it was not enough.\<close>

definition BeginStaticCheckpoint :: "nat \<Rightarrow> txn_manager \<Rightarrow> bool \<times> txn_manager" where
  "BeginStaticCheckpoint ignored s =
     (if active_txn_count s \<le> ignored then (True, s\<lparr>checkpoint_in_progress := True\<rparr>) else (False, s\<lparr>checkpoint_in_progress := False\<rparr>))"

definition EndStaticCheckpoint :: "txn_manager \<Rightarrow> txn_manager" where
  "EndStaticCheckpoint s = s\<lparr>checkpoint_in_progress := False\<rparr>"

definition quarantine_slot :: "tuple_key \<Rightarrow> txn_manager \<Rightarrow> txn_manager" where
  "quarantine_slot key s = s\<lparr>heap := (heap s)(key := None), quarantined := insert key (quarantined s)\<rparr>"

text \<open>The first vacuum visits all states, in the order of the list \<open>all\<close>; later ones the deletions committed since.\<close>

definition vacuum_full :: "tuple_key \<Rightarrow> txn_manager \<Rightarrow> txn_manager" where
  "vacuum_full key s =
     (case tuple_states s key of None \<Rightarrow> s
      | Some st \<Rightarrow> if ts_owner st = INVALID_TXN_ID then EraseTupleStateLocked key (if ts_is_deleted st then quarantine_slot key s else s) else s)"

definition vacuum_pending :: "tuple_key \<Rightarrow> txn_manager \<Rightarrow> txn_manager" where
  "vacuum_pending key s =
     (case tuple_states s key of None \<Rightarrow> s
      | Some st \<Rightarrow> if ts_is_deleted st \<and> ts_owner st = INVALID_TXN_ID then EraseTupleStateLocked key (quarantine_slot key s) else s)"

definition VacuumCommittedDeletes :: "tuple_key list \<Rightarrow> txn_manager \<Rightarrow> txn_manager" where
  "VacuumCommittedDeletes all s =
     (if \<not> vacuum_tracking_active s then fold vacuum_full all (s\<lparr>vacuum_tracking_active := True, pending_committed_deletes := []\<rparr>)
      else fold vacuum_pending (by_shard (pending_committed_deletes s)) (s\<lparr>pending_committed_deletes := []\<rparr>))"

end
