(* ===== verification/Rmdb_Mvcc_Inv.thy ===== *)
theory Rmdb_Mvcc_Inv
  imports Rmdb_Mvcc
begin

text \<open>
  The steps of sessions and background work on the version store, and its invariant. A step carries the transaction that makes it, if any. The versions of a tuple form
  a chain of undo logs with descending timestamps: \<open>chain s a l\<close> says that \<open>l\<close> leads to the versions below one with timestamp \<open>a\<close>, whose writer committed at \<open>a\<close> and keeps
  the first of them in its undo log. A chain may break off at a transaction that was collected, provided that no reader, present or future, needs what is below
  (\<open>dead s a\<close>).
\<close>

subsection \<open>Steps\<close>

definition growing :: "txn_id_t \<Rightarrow> txn_manager \<Rightarrow> bool" where
  "growing t s \<longleftrightarrow> (\<exists>x. txn_map s t = Some x \<and> txn_state_of x = GROWING)"

definition pub_ts :: "txn_manager \<Rightarrow> timestamp_t set" where
  "pub_ts s = fst ` set (commit_publications s)"

text \<open>A transaction that has not ended: it runs, or its commit is not yet published.\<close>

definition active :: "transaction \<Rightarrow> txn_manager \<Rightarrow> bool" where
  "active x s \<longleftrightarrow> txn_state_of x = GROWING \<or> txn_state_of x = SHRINKING \<or> (txn_state_of x = COMMITTED \<and> commit_ts x \<in> pub_ts s)"

definition published :: "transaction \<Rightarrow> txn_manager \<Rightarrow> bool" where
  "published x s \<longleftrightarrow> txn_state_of x = COMMITTED \<and> commit_ts x \<notin> pub_ts s"

definition finished :: "transaction \<Rightarrow> txn_manager \<Rightarrow> bool" where
  "finished x s \<longleftrightarrow> txn_state_of x = ABORTED \<or> published x s"

definition owner :: "txn_manager \<Rightarrow> tuple_key \<Rightarrow> txn_id_t" where
  "owner s k = (case tuple_states s k of None \<Rightarrow> INVALID_TXN_ID | Some st \<Rightarrow> ts_owner st)"

definition wr_keys :: "transaction \<Rightarrow> tuple_key set" where
  "wr_keys x = wr_key ` set (write_set x)"

inductive tm_step :: "txn_id_t option \<Rightarrow> txn_manager \<Rightarrow> txn_manager \<Rightarrow> bool" where
  Begin: "tm_begin s = (Ret t, s') \<Longrightarrow> tm_step (Some t) s s'"
| Acquire: "growing t s \<Longrightarrow> ReadVisibleTuple k (Some t) s = Ret (Some old) \<Longrightarrow> AcquireWriteAndRecord k old t kind s = (r, s') \<Longrightarrow> tm_step (Some t) s s'"
| Append: "growing t s \<Longrightarrow> owner s (wr_key w) = t \<Longrightarrow> wr_type w \<noteq> INSERT_TUPLE \<Longrightarrow> heap s (wr_key w) = wr_old w \<Longrightarrow> wr_old w \<noteq> None \<Longrightarrow>
     tm_step (Some t) s (append_write_record w t s)"
| Update: "growing t s \<Longrightarrow> owner s k = t \<Longrightarrow> w \<in> set (write_set (txn_of t s)) \<Longrightarrow> wr_type w = UPDATE_TUPLE \<Longrightarrow> wr_key w = k \<Longrightarrow> wr_new w = Some new \<Longrightarrow>
     tm_step (Some t) s (s\<lparr>heap := (heap s)(k \<mapsto> new)\<rparr>)"
| Insert: "growing t s \<Longrightarrow> heap s k = None \<Longrightarrow> k \<notin> reserved s \<Longrightarrow> k \<notin> quarantined s \<Longrightarrow>
     tm_step (Some t) s (append_write_record \<lparr>wr_type = INSERT_TUPLE, wr_key = k, wr_old = None, wr_new = Some new\<rparr> t (RecordInsert k t (s\<lparr>reserved := insert k (reserved s)\<rparr>)))"
| Insert_heap: "growing t s \<Longrightarrow> owner s k = t \<Longrightarrow> k \<in> reserved s \<Longrightarrow> \<lparr>wr_type = INSERT_TUPLE, wr_key = k, wr_old = None, wr_new = Some new\<rparr> \<in> set (write_set (txn_of t s)) \<Longrightarrow>
     tm_step (Some t) s (s\<lparr>heap := (heap s)(k \<mapsto> new), reserved := reserved s - {k}\<rparr>)"
| Statement_rollback: "growing t s \<Longrightarrow> set registered \<inter> wr_keys (txn_of t s) = {} \<Longrightarrow> set acquired \<subseteq> set registered \<Longrightarrow>
     tm_step (Some t) s (statement_rollback flags registered acquired t s)"
| Commit_begin: "growing t s \<Longrightarrow> (\<And>k. k \<in> wr_keys (txn_of t s) \<Longrightarrow> heap s k \<noteq> None) \<Longrightarrow> commit_begin ok t s = (r, s') \<Longrightarrow> tm_step (Some t) s s'"
| Commit_durable: "txn_map s t = Some x \<Longrightarrow> txn_state_of x = SHRINKING \<Longrightarrow> tm_step (Some t) s (commit_durable t s)"
| Commit_publish: "txn_map s t = Some x \<Longrightarrow> txn_state_of x = COMMITTED \<Longrightarrow> active x s \<Longrightarrow> commit_publish t s = (r, s') \<Longrightarrow> tm_step (Some t) s s'"
| Abort: "growing t s \<Longrightarrow> tm_step (Some t) s (tm_abort t s)"
| Retire: "txn_map s t = Some x \<Longrightarrow> finished x s \<Longrightarrow>
     tm_step None s (RetireTransaction t (if txn_state_of x = COMMITTED then commit_ts x else start_ts x) s)"
| Guard_enter: "tm_step None s (VersionReadGuard_enter i s)"
| Guard_exit: "tm_step None s (VersionReadGuard_exit i s)"
| Guard_new: "tm_step None s (s\<lparr>reader_epochs := reader_epochs s @ [0]\<rparr>)"
| Checkpoint_begin: "BeginStaticCheckpoint n s = (b, s') \<Longrightarrow> tm_step None s s'"
| Checkpoint_end: "tm_step None s (EndStaticCheckpoint s)"
| Vacuum: "(\<And>t' x. txn_map s t' = Some x \<Longrightarrow> active x s \<Longrightarrow> a = Some t') \<Longrightarrow> tm_step a s (VacuumCommittedDeletes all s)"

subsection \<open>Chains of versions\<close>

definition dead :: "txn_manager \<Rightarrow> timestamp_t \<Rightarrow> bool" where
  "dead s a \<longleftrightarrow> a \<le> last_commit_ts s \<and> (\<forall>t x. txn_map s t = Some x \<and> active x s \<longrightarrow> a \<le> start_ts x)"

inductive chain :: "txn_manager \<Rightarrow> timestamp_t \<Rightarrow> undo_link \<Rightarrow> bool" for s where
  End: "\<not> link_valid l \<Longrightarrow> chain s a l"
| Gone: "link_valid l \<Longrightarrow> txn_map s (prev_txn l) = None \<Longrightarrow> prev_txn l < next_txn_id s \<Longrightarrow> dead s a \<Longrightarrow> chain s a l"
| Link: "link_valid l \<Longrightarrow> txn_map s (prev_txn l) = Some x \<Longrightarrow> published x s \<Longrightarrow> commit_ts x = a \<Longrightarrow> GetUndoLogOptional l s = Some u \<Longrightarrow> 0 \<le> u_ts u \<Longrightarrow> u_ts u < a \<Longrightarrow>
     chain s (u_ts u) (prev_version u) \<Longrightarrow> chain s a l"

definition link_of :: "undo_link option \<Rightarrow> undo_link" where
  "link_of h = (case h of None \<Rightarrow> no_link | Some l \<Rightarrow> l)"

text \<open>What a later state keeps of an earlier one: committed undo logs, as far as they are not dead.\<close>

definition ext :: "txn_manager \<Rightarrow> txn_manager \<Rightarrow> bool" where
  "ext s s' \<longleftrightarrow> next_txn_id s \<le> next_txn_id s' \<and> (\<forall>a. dead s a \<longrightarrow> dead s' a)
     \<and> (\<forall>t x. txn_map s t = Some x \<and> published x s \<longrightarrow>
          (\<exists>x'. txn_map s' t = Some x' \<and> published x' s' \<and> commit_ts x' = commit_ts x \<and> undo_logs x' = undo_logs x) \<or> txn_map s' t = None \<and> t < next_txn_id s' \<and> dead s' (commit_ts x))
     \<and> (\<forall>t. t < next_txn_id s \<and> txn_map s t = None \<longrightarrow> txn_map s' t = None)"

lemma undo_log_cong: "txn_map s (prev_txn l) = Some x \<Longrightarrow> txn_map s' (prev_txn l) = Some x' \<Longrightarrow> undo_logs x' = undo_logs x \<Longrightarrow> GetUndoLogOptional l s' = GetUndoLogOptional l s"
  by (simp add: GetUndoLogOptional_def)

lemma ext_published:
  "ext s s' \<Longrightarrow> txn_map s t = Some x \<Longrightarrow> published x s \<Longrightarrow>
     (\<exists>x'. txn_map s' t = Some x' \<and> published x' s' \<and> commit_ts x' = commit_ts x \<and> undo_logs x' = undo_logs x) \<or> txn_map s' t = None \<and> t < next_txn_id s' \<and> dead s' (commit_ts x)"
  by (simp add: ext_def)

lemma chain_ext: "chain s a l \<Longrightarrow> ext s s' \<Longrightarrow> chain s' a l"
proof (induction rule: chain.induct)
  case (End l a)
  then show ?case by (simp add: chain.End)
next
  case (Gone l a)
  have "dead s' a" "txn_map s' (prev_txn l) = None" "prev_txn l < next_txn_id s'" using Gone unfolding ext_def by (blast, blast, linarith)
  then show ?case by (intro chain.Gone Gone.hyps(1))
next
  case (Link l x a u)
  consider x' where "txn_map s' (prev_txn l) = Some x'" "published x' s'" "commit_ts x' = a" "undo_logs x' = undo_logs x"
    | "txn_map s' (prev_txn l) = None" "prev_txn l < next_txn_id s'" "dead s' a" using ext_published [OF Link.prems Link.hyps(2,3), unfolded Link.hyps(4)] by fast
  then show ?case
  proof cases
    case 1
    have u: "GetUndoLogOptional l s' = Some u" using undo_log_cong [OF Link.hyps(2) 1(1,4)] Link.hyps(5) by simp
    show ?thesis by (rule chain.Link [OF Link.hyps(1) 1(1-3) u Link.hyps(6,7) Link.IH [OF Link.prems]])
  next
    case 2
    then show ?thesis by (intro chain.Gone Link.hyps(1))
  qed
qed

text \<open>A timestamp at which someone may read.\<close>

definition readable :: "txn_manager \<Rightarrow> timestamp_t \<Rightarrow> bool" where
  "readable s r \<longleftrightarrow> (\<forall>a. dead s a \<longrightarrow> a \<le> r)"

lemma readable_last: "readable s (last_commit_ts s)" by (simp add: readable_def dead_def)

lemma readable_start: "txn_map s t = Some x \<Longrightarrow> active x s \<Longrightarrow> readable s (start_ts x)" by (auto simp: readable_def dead_def)

lemma walk_ext:
  assumes "chain s a l" "ext s s'" "readable s' r" "r < a" "0 \<le> r" "nat a < f" "nat a < f'"
  shows "\<exists>v. walk_versions f l r s = Ret v \<and> walk_versions f' l r s' = Ret v"
  using assms
proof (induction arbitrary: f f' rule: chain.induct)
  case (End l a)
  then show ?case by (cases f; cases f') auto
next
  case (Gone l a)
  have "dead s' a" using Gone.hyps(4) Gone.prems(1) unfolding ext_def by blast
  then have "a \<le> r" using Gone.prems(2) unfolding readable_def by blast
  then show ?case using Gone.prems(3) by simp
next
  case (Link l x a u)
  obtain g g' where f: "f = Suc g" "f' = Suc g'" using Link.prems(5,6) by (cases f; cases f') auto
  have "\<not> dead s' a" using Link.prems(2,3) by (auto simp: readable_def)
  then obtain x' where "txn_map s' (prev_txn l) = Some x'" "undo_logs x' = undo_logs x" using ext_published [OF Link.prems(1) Link.hyps(2,3), unfolded Link.hyps(4)] by fast
  then have u: "GetUndoLogOptional l s' = Some u" using Link.hyps(2,5) undo_log_cong [of s l x s' x'] by simp
  show ?case
  proof (cases "u_ts u \<le> r")
    case True
    then show ?thesis using u Link.hyps(1,5) f by simp
  next
    case False
    have "nat (u_ts u) < g" "nat (u_ts u) < g'" using Link.prems(5,6) Link.hyps(6,7) f by linarith+
    then show ?thesis using Link.IH [of g g'] Link.prems False u Link.hyps(1,5) f by simp
  qed
qed

lemma ext_refl: "ext s s" by (auto simp: ext_def)

lemmas walk_chain = walk_ext [OF _ ext_refl]

subsection \<open>The invariant\<close>

definition first_image :: "write_record \<Rightarrow> byte list option" where
  "first_image w = (if wr_type w = INSERT_TUPLE then None else wr_old w)"

text \<open>Undoing the writes of a transaction gives the record \<open>b\<close> back: the first write of the tuple saved it, or there was no write yet.\<close>

definition base_ok :: "txn_manager \<Rightarrow> transaction \<Rightarrow> tuple_key \<Rightarrow> byte list option \<Rightarrow> bool" where
  "base_ok s x k b \<longleftrightarrow> (case List.find (\<lambda>w. wr_key w = k) (write_set x) of None \<Rightarrow> heap s k = b | Some w \<Rightarrow> first_image w = b)"

definition insert_ok :: "txn_manager \<Rightarrow> tuple_key \<Rightarrow> tuple_state \<Rightarrow> transaction \<Rightarrow> bool" where
  "insert_ok s k st x \<longleftrightarrow> ts_undo_head st = None \<and> base_ok s x k None \<and> k \<in> wr_keys x \<and> (heap s k = None \<longrightarrow> k \<in> reserved s \<and> txn_state_of x = GROWING)"

definition update_ok :: "txn_manager \<Rightarrow> tuple_key \<Rightarrow> tuple_state \<Rightarrow> txn_id_t \<Rightarrow> transaction \<Rightarrow> tuple_state \<Rightarrow> bool" where
  "update_ok s k st t x b \<longleftrightarrow> ts_owner b = INVALID_TXN_ID \<and> \<not> ts_is_deleted b \<and> 0 \<le> ts_commit_ts b \<and> ts_commit_ts b \<le> start_ts x \<and> heap s k \<noteq> None
     \<and> chain s (ts_commit_ts b) (link_of (ts_undo_head b))
     \<and> (\<exists>l u. ts_undo_head st = Some l \<and> prev_txn l = t \<and> GetUndoLogOptional l s = Some u \<and> \<not> u_is_deleted u \<and> u_ts u = ts_commit_ts b
          \<and> prev_version u = link_of (ts_undo_head b) \<and> base_ok s x k (Some (u_record u)))"

definition owned_ok :: "txn_manager \<Rightarrow> tuple_key \<Rightarrow> tuple_state \<Rightarrow> txn_id_t \<Rightarrow> transaction \<Rightarrow> bool" where
  "owned_ok s k st t x \<longleftrightarrow>
     (\<exists>w. map_of (tuple_write_states x) k = Some w \<and> has_before_state w = (\<not> inserted_by_txn w)
        \<and> (if inserted_by_txn w then insert_ok s k st x else update_ok s k st t x (before_first_write w)))"

definition stable_ok :: "txn_manager \<Rightarrow> tuple_key \<Rightarrow> tuple_state \<Rightarrow> bool" where
  "stable_ok s k st \<longleftrightarrow> 0 \<le> ts_commit_ts st \<and> ts_commit_ts st \<le> last_commit_ts s \<and> heap s k \<noteq> None \<and> chain s (ts_commit_ts st) (link_of (ts_undo_head st))"

definition state_ok :: "txn_manager \<Rightarrow> tuple_key \<Rightarrow> tuple_state \<Rightarrow> bool" where
  "state_ok s k st \<longleftrightarrow> tk_fd k \<in> mvcc_files s \<and>
     (if ts_owner st = INVALID_TXN_ID then stable_ok s k st
      else \<exists>x. txn_map s (ts_owner st) = Some x \<and> active x s \<and> owned_ok s k st (ts_owner st) x)"

definition txn_ok :: "txn_manager \<Rightarrow> txn_id_t \<Rightarrow> transaction \<Rightarrow> bool" where
  "txn_ok s t x \<longleftrightarrow> 0 \<le> t \<and> t < next_txn_id s \<and> 0 \<le> start_ts x \<and> start_ts x \<le> last_commit_ts s \<and> txn_state_of x \<noteq> DEFAULT
     \<and> (txn_state_of x = SHRINKING \<longrightarrow> commit_ts x \<in> pub_ts s) \<and> (txn_state_of x = COMMITTED \<longrightarrow> commit_ts x \<in> pub_ts s \<or> commit_ts x \<le> last_commit_ts s)
     \<and> (finished x s \<longrightarrow> tuple_write_states x = [] \<and> write_set x = [])
     \<and> distinct (map fst (tuple_write_states x)) \<and> (\<forall>k \<in> fst ` set (tuple_write_states x). owner s k = t) \<and> (\<forall>k \<in> wr_keys x. owner s k = t)"

definition clock_ok :: "txn_manager \<Rightarrow> bool" where
  "clock_ok s \<longleftrightarrow> sorted_wrt (<) (map fst (commit_publications s)) \<and> (\<forall>ts \<in> pub_ts s. last_commit_ts s < ts \<and> ts < next_timestamp s)
     \<and> 0 \<le> last_commit_ts s \<and> last_commit_ts s < next_timestamp s \<and> 0 \<le> next_txn_id s"

definition running :: "txn_manager \<Rightarrow> txn_id_t set" where
  "running s = {t. \<exists>x. txn_map s t = Some x \<and> active x s}"

definition wm_ok :: "txn_manager \<Rightarrow> bool" where
  "wm_ok s \<longleftrightarrow> finite (dom (txn_map s)) \<and> wm_inv (running_txns s) \<and> wm_commit_ts (running_txns s) \<le> last_commit_ts s
     \<and> bag (current_reads (running_txns s)) = image_mset (\<lambda>t. start_ts (txn_of t s)) (mset_set (running s))"

text \<open>Two transactions never have the same commit timestamp.\<close>

definition commits_distinct :: "txn_manager \<Rightarrow> bool" where
  "commits_distinct s \<longleftrightarrow> (\<forall>t x t' x'. txn_map s t = Some x \<and> txn_map s t' = Some x' \<and> txn_state_of x \<in> {SHRINKING, COMMITTED} \<and> txn_state_of x' \<in> {SHRINKING, COMMITTED}
     \<and> commit_ts x = commit_ts x' \<longrightarrow> t = t')"

text \<open>A reserved commit timestamp belongs to a transaction that is about to publish.\<close>

definition pubs_ok :: "txn_manager \<Rightarrow> bool" where
  "pubs_ok s \<longleftrightarrow> (\<forall>ts \<in> pub_ts s. \<exists>t x. txn_map s t = Some x \<and> txn_state_of x \<in> {SHRINKING, COMMITTED} \<and> commit_ts x = ts)"

definition ended :: "txn_manager \<Rightarrow> txn_id_t \<Rightarrow> (timestamp_t \<Rightarrow> bool) \<Rightarrow> bool" where
  "ended s t Q \<longleftrightarrow> t < next_txn_id s \<and> (\<forall>x. txn_map s t = Some x \<longrightarrow> finished x s \<and> (txn_state_of x = COMMITTED \<longrightarrow> Q (commit_ts x)))"

definition retired_ok :: "txn_manager \<Rightarrow> bool" where
  "retired_ok s \<longleftrightarrow> (\<forall>e \<in> set (reclaimable_txns s). ended s (snd e) (\<lambda>ts. fst e = ts)) \<and> (\<forall>e \<in> set (pending_delete_txns s). ended s (snd e) (dead s))"

definition tm_inv :: "txn_manager \<Rightarrow> bool" where
  "tm_inv s \<longleftrightarrow> clock_ok s \<and> wm_ok s \<and> commits_distinct s \<and> retired_ok s \<and> pubs_ok s \<and> (\<forall>t x. txn_map s t = Some x \<longrightarrow> txn_ok s t x) \<and> (\<forall>k st. tuple_states s k = Some st \<longrightarrow> state_ok s k st)"

lemma tm_invD:
  assumes "tm_inv s"
  shows "clock_ok s" "wm_ok s" "commits_distinct s" "retired_ok s" "\<And>t x. txn_map s t = Some x \<Longrightarrow> txn_ok s t x" "\<And>k st. tuple_states s k = Some st \<Longrightarrow> state_ok s k st" "pubs_ok s"
  using assms by (auto simp: tm_inv_def)

lemma active_or_finished: "txn_ok s t x \<Longrightarrow> active x s \<or> finished x s"
  by (cases "txn_state_of x") (auto simp: txn_ok_def active_def finished_def published_def)

lemma active_not_finished: "active x s \<Longrightarrow> \<not> finished x s"
  by (auto simp: active_def finished_def published_def)

lemma growing_active: "txn_state_of x = GROWING \<Longrightarrow> active x s" by (simp add: active_def)

subsection \<open>The committed records\<close>

text \<open>The record of a tuple in the snapshot at \<open>r\<close>, without the changes of transactions that have not committed.\<close>

definition committed_at :: "tuple_key \<Rightarrow> timestamp_t \<Rightarrow> txn_manager \<Rightarrow> byte list option outcome" where
  "committed_at k r s =
     (case tuple_states s k of None \<Rightarrow> Ret (heap s k)
      | Some st \<Rightarrow> if ts_owner st = INVALID_TXN_ID \<and> ts_commit_ts st \<le> r then Ret (if ts_is_deleted st then None else heap s k)
                   else walk_head (ts_undo_head st) r s)"

lemma walk_head_link: "walk_head h r s = walk_versions (nat (next_timestamp s) + 2) (link_of h) r s"
  by (auto simp: walk_head_def link_of_def no_link_def link_valid_def split: option.splits)

lemma link_of_inj: "l = link_of h \<Longrightarrow> link_of (Some l) = l" by (simp add: link_of_def)

text \<open>What a step keeps of a transaction, and of the tuples it does not touch.\<close>

definition keeps_txn :: "tuple_key \<Rightarrow> transaction \<Rightarrow> transaction \<Rightarrow> bool" where
  "keeps_txn k x x' \<longleftrightarrow> start_ts x' = start_ts x \<and> (\<exists>us. undo_logs x' = undo_logs x @ us) \<and> map_of (tuple_write_states x') k = map_of (tuple_write_states x) k
     \<and> List.find (\<lambda>w. wr_key w = k) (write_set x') = List.find (\<lambda>w. wr_key w = k) (write_set x)"

lemma keeps_txn_refl: "keeps_txn k x x" by (simp add: keeps_txn_def)

definition untouched :: "tuple_key \<Rightarrow> txn_manager \<Rightarrow> txn_manager \<Rightarrow> bool" where
  "untouched k s s' \<longleftrightarrow> tuple_states s' k = tuple_states s k \<and> heap s' k = heap s k \<and> (k \<in> reserved s \<longrightarrow> k \<in> reserved s') \<and> mvcc_files s \<subseteq> mvcc_files s'
     \<and> (\<forall>x. owner s k \<noteq> INVALID_TXN_ID \<and> txn_map s (owner s k) = Some x \<and> active x s \<longrightarrow> (\<exists>x'. txn_map s' (owner s k) = Some x' \<and> active x' s' \<and> keeps_txn k x x' \<and> (heap s k = None \<and> txn_state_of x = GROWING \<longrightarrow> txn_state_of x' = GROWING)))"

lemma find_wr_keys: "(List.find (\<lambda>w. wr_key w = k) (write_set x) \<noteq> None) = (k \<in> wr_keys x)"
  by (auto simp: wr_keys_def find_None_iff image_iff)

lemma undo_log_prefix: "GetUndoLogOptional l s = Some u \<Longrightarrow> txn_map s (prev_txn l) = Some x \<Longrightarrow> txn_map s' (prev_txn l) = Some x' \<Longrightarrow> undo_logs x' = undo_logs x @ us \<Longrightarrow>
    GetUndoLogOptional l s' = Some u"
  by (auto simp: GetUndoLogOptional_def nth_append split: if_splits)

lemma state_ok_untouched:
  assumes ok: "state_ok s k st" and k: "tuple_states s k = Some st" and e: "ext s s'" and u: "untouched k s s'" and last: "last_commit_ts s \<le> last_commit_ts s'"
  shows "state_ok s' k st"
proof (cases "ts_owner st = INVALID_TXN_ID")
  case True
  then show ?thesis using ok u last chain_ext [OF _ e] by (auto simp: state_ok_def stable_ok_def untouched_def)
next
  case False
  have ow: "owner s k = ts_owner st" using k by (simp add: owner_def)
  obtain x where x: "txn_map s (ts_owner st) = Some x" "active x s" "owned_ok s k st (ts_owner st) x" using ok False by (auto simp: state_ok_def)
  then obtain x' where x': "txn_map s' (ts_owner st) = Some x'" "active x' s'" "keeps_txn k x x'" "heap s k = None \<and> txn_state_of x = GROWING \<longrightarrow> txn_state_of x' = GROWING" using u False unfolding untouched_def ow by blast
  obtain us where us: "undo_logs x' = undo_logs x @ us" using x'(3) by (auto simp: keeps_txn_def)
  have h: "heap s' k = heap s k" "k \<in> reserved s \<Longrightarrow> k \<in> reserved s'" using u by (auto simp: untouched_def)
  have b: "base_ok s' x' k b = base_ok s x k b" for b using x'(3) h(1) by (simp add: base_ok_def keeps_txn_def split: option.split)
  have wk: "k \<in> wr_keys x' \<longleftrightarrow> k \<in> wr_keys x" using x'(3) find_wr_keys [of k x] find_wr_keys [of k x'] by (simp add: keeps_txn_def)
  obtain w where w: "map_of (tuple_write_states x) k = Some w" "has_before_state w = (\<not> inserted_by_txn w)"
      "if inserted_by_txn w then insert_ok s k st x else update_ok s k st (ts_owner st) x (before_first_write w)" using x(3) by (auto simp: owned_ok_def)
  have "insert_ok s' k st x'" if "insert_ok s k st x" using that b wk h x'(4) by (auto simp: insert_ok_def)
  moreover have "update_ok s' k st (ts_owner st) x' bs" if uo: "update_ok s k st (ts_owner st) x bs" for bs
  proof -
    obtain l u where l: "ts_undo_head st = Some l" "prev_txn l = ts_owner st" "GetUndoLogOptional l s = Some u" "\<not> u_is_deleted u" "u_ts u = ts_commit_ts bs"
        "prev_version u = link_of (ts_undo_head bs)" "base_ok s x k (Some (u_record u))" using uo by (auto simp: update_ok_def)
    have "GetUndoLogOptional l s' = Some u" using undo_log_prefix [OF l(3), of x s' x' us] x(1) x'(1) us l(2) by simp
    then show ?thesis using uo l b h(1) chain_ext [OF _ e] x'(3) unfolding update_ok_def keeps_txn_def by auto
  qed
  ultimately have "owned_ok s' k st (ts_owner st) x'" using w x'(3) unfolding owned_ok_def keeps_txn_def by (auto split: if_splits)
  then show ?thesis using False x' ok u unfolding state_ok_def untouched_def by auto
qed

lemma owned_walk:
  assumes "update_ok s k st t x b" "t \<noteq> INVALID_TXN_ID" "start_ts x \<le> last_commit_ts s" "clock_ok s" "0 \<le> r" "readable s r"
  shows "\<exists>l u. ts_undo_head st = Some l \<and> GetUndoLogOptional l s = Some u \<and> u_ts u = ts_commit_ts b
    \<and> (\<exists>v. walk_head (ts_undo_head st) r s = Ret v \<and> (ts_commit_ts b \<le> r \<longrightarrow> v = Some (u_record u))
         \<and> (r < ts_commit_ts b \<longrightarrow> walk_versions (nat (next_timestamp s) + 1) (link_of (ts_undo_head b)) r s = Ret v))"
proof -
  obtain l u where l: "ts_undo_head st = Some l" "prev_txn l = t" "GetUndoLogOptional l s = Some u" "\<not> u_is_deleted u" "u_ts u = ts_commit_ts b"
      "prev_version u = link_of (ts_undo_head b)" using assms(1) by (auto simp: update_ok_def)
  have b: "0 \<le> ts_commit_ts b" "ts_commit_ts b \<le> start_ts x" "chain s (ts_commit_ts b) (link_of (ts_undo_head b))" using assms(1) by (auto simp: update_ok_def)
  have n: "nat (ts_commit_ts b) < nat (next_timestamp s) + 1" using b assms(3,4) unfolding clock_ok_def by linarith
  have w: "walk_head (ts_undo_head st) r s = (if ts_commit_ts b \<le> r then Ret (Some (u_record u)) else walk_versions (nat (next_timestamp s) + 1) (link_of (ts_undo_head b)) r s)"
    using l assms(2) by (simp add: walk_head_def link_valid_def)
  have "\<exists>v. walk_versions (nat (next_timestamp s) + 1) (link_of (ts_undo_head b)) r s = Ret v" if "r < ts_commit_ts b"
    using walk_chain [OF b(3) assms(6) that assms(5) n n] by blast
  then show ?thesis using l(1,3,5) w by (cases "ts_commit_ts b \<le> r") auto
qed

lemma committed_untouched:
  assumes inv: "tm_inv s" and e: "ext s s'" and u: "untouched k s s'" and r: "readable s r" "readable s' r" "0 \<le> r" and c': "clock_ok s'" and last: "last_commit_ts s \<le> last_commit_ts s'"
  shows "\<exists>v. committed_at k r s = Ret v \<and> committed_at k r s' = Ret v"
proof (cases "tuple_states s k")
  case None
  then show ?thesis using u by (simp add: committed_at_def untouched_def)
next
  case (Some st)
  have st': "tuple_states s' k = Some st" "heap s' k = heap s k" using u Some by (auto simp: untouched_def)
  note ok = tm_invD(6) [OF inv Some] and c = tm_invD(1) [OF inv]
  have ok': "state_ok s' k st" by (rule state_ok_untouched [OF ok Some e u last])
  show ?thesis
  proof (cases "ts_owner st = INVALID_TXN_ID")
    case True
    then have st: "ts_commit_ts st \<le> last_commit_ts s" "0 \<le> ts_commit_ts st" "chain s (ts_commit_ts st) (link_of (ts_undo_head st))" using ok by (auto simp: state_ok_def stable_ok_def)
    have n: "nat (ts_commit_ts st) < nat (next_timestamp s) + 2" "nat (ts_commit_ts st) < nat (next_timestamp s') + 2" using st(1) c c' last by (auto simp: clock_ok_def)
    show ?thesis using walk_ext [OF st(3) e r(2) _ r(3) n] True Some st' by (cases "ts_commit_ts st \<le> r") (auto simp: committed_at_def walk_head_link simp del: walk_versions.simps)
  next
    case False
    obtain x where x: "txn_map s (ts_owner st) = Some x" "active x s" "owned_ok s k st (ts_owner st) x" using ok False by (auto simp: state_ok_def)
    obtain w where w: "map_of (tuple_write_states x) k = Some w" "if inserted_by_txn w then insert_ok s k st x else update_ok s k st (ts_owner st) x (before_first_write w)"
      using x(3) by (auto simp: owned_ok_def)
    show ?thesis
    proof (cases "inserted_by_txn w")
      case True
      then show ?thesis using w False Some st' by (simp add: committed_at_def insert_ok_def walk_head_def)
    next
      case F: False
      let ?b = "before_first_write w"
      have ow: "owner s k = ts_owner st" using Some by (simp add: owner_def)
      obtain x' where x': "txn_map s' (ts_owner st) = Some x'" "keeps_txn k x x'" using u x(1,2) False unfolding untouched_def ow by blast
      have tx: "txn_ok s (ts_owner st) x" using tm_invD(5) [OF inv x(1)] .
      have uo: "update_ok s k st (ts_owner st) x ?b" using w F by simp
      have sx: "start_ts x \<le> last_commit_ts s" using tx by (simp add: txn_ok_def)
      obtain l u where l: "ts_undo_head st = Some l" "GetUndoLogOptional l s = Some u" "u_ts u = ts_commit_ts ?b" "\<not> u_is_deleted u" "prev_txn l = ts_owner st" "prev_version u = link_of (ts_undo_head ?b)"
        using uo by (auto simp: update_ok_def)
      obtain us where us: "undo_logs x' = undo_logs x @ us" using x'(2) by (auto simp: keeps_txn_def)
      have u': "GetUndoLogOptional l s' = Some u" using undo_log_prefix [OF l(2), of x s' x' us] x(1) x'(1) us l(5) by simp
      have b: "0 \<le> ts_commit_ts ?b" "ts_commit_ts ?b \<le> start_ts x" "chain s (ts_commit_ts ?b) (link_of (ts_undo_head ?b))" using uo by (auto simp: update_ok_def)
      have n: "nat (ts_commit_ts ?b) < nat (next_timestamp s) + 1" "nat (ts_commit_ts ?b) < nat (next_timestamp s') + 1" using b sx c c' last by (auto simp: clock_ok_def)
      have "\<exists>v. walk_head (ts_undo_head st) r s = Ret v \<and> walk_head (ts_undo_head st) r s' = Ret v"
        using l u' walk_ext [OF b(3) e r(2) _ r(3) n] False by (cases "ts_commit_ts ?b \<le> r") (auto simp: walk_head_def link_valid_def)
      then show ?thesis using False Some st' by (simp add: committed_at_def)
    qed
  qed
qed

subsection \<open>Steps of one transaction\<close>

text \<open>Transaction \<open>t\<close>, which may be new, becomes \<open>x'\<close> and changes the tuples in \<open>K\<close>, none of which belongs to another transaction. For the others nothing
  is published or reserved.\<close>

definition txn_step :: "txn_id_t \<Rightarrow> tuple_key set \<Rightarrow> transaction \<Rightarrow> txn_manager \<Rightarrow> txn_manager \<Rightarrow> bool" where
  "txn_step t K x' s s' \<longleftrightarrow> (\<forall>t'. t' \<noteq> t \<longrightarrow> txn_map s' t' = txn_map s t') \<and> txn_map s' t = Some x'
     \<and> (case txn_map s t of None \<Rightarrow> t = next_txn_id s \<and> start_ts x' = last_commit_ts s | Some x \<Rightarrow> active x s \<and> start_ts x' = start_ts x)
     \<and> (\<forall>t' y. t' \<noteq> t \<and> txn_map s t' = Some y \<and> txn_state_of y \<in> {SHRINKING, COMMITTED} \<longrightarrow> (commit_ts y \<in> pub_ts s') = (commit_ts y \<in> pub_ts s))
     \<and> last_commit_ts s \<le> last_commit_ts s' \<and> next_txn_id s \<le> next_txn_id s' \<and> reclaimable_txns s' = reclaimable_txns s \<and> pending_delete_txns s' = pending_delete_txns s
     \<and> mvcc_files s \<subseteq> mvcc_files s' \<and> (\<forall>k \<in> K. owner s k = INVALID_TXN_ID \<or> owner s k = t)
     \<and> (\<forall>k. k \<notin> K \<longrightarrow> tuple_states s' k = tuple_states s k \<and> heap s' k = heap s k \<and> (k \<in> reserved s \<longrightarrow> k \<in> reserved s')
          \<and> (\<forall>x. owner s k = t \<and> txn_map s t = Some x \<longrightarrow> active x' s' \<and> keeps_txn k x x' \<and> (heap s k = None \<and> txn_state_of x = GROWING \<longrightarrow> txn_state_of x' = GROWING)))"

lemma txn_stepD:
  assumes "txn_step t K x' s s'"
  shows "\<And>t'. t' \<noteq> t \<Longrightarrow> txn_map s' t' = txn_map s t'" "txn_map s' t = Some x'" "\<And>x. txn_map s t = Some x \<Longrightarrow> active x s \<and> start_ts x' = start_ts x"
    "txn_map s t = None \<Longrightarrow> t = next_txn_id s \<and> start_ts x' = last_commit_ts s"
    "\<And>t' y. t' \<noteq> t \<Longrightarrow> txn_map s t' = Some y \<Longrightarrow> active y s' = active y s" "\<And>t' y. t' \<noteq> t \<Longrightarrow> txn_map s t' = Some y \<Longrightarrow> published y s' = published y s"
    "\<And>t' y. t' \<noteq> t \<Longrightarrow> txn_map s t' = Some y \<Longrightarrow> finished y s' = finished y s"
    "last_commit_ts s \<le> last_commit_ts s'" "next_txn_id s \<le> next_txn_id s'" "reclaimable_txns s' = reclaimable_txns s" "pending_delete_txns s' = pending_delete_txns s"
    "\<And>k. k \<in> K \<Longrightarrow> owner s k = INVALID_TXN_ID \<or> owner s k = t" "\<And>k. k \<notin> K \<Longrightarrow> owner s' k = owner s k"
proof -
  have p: "txn_state_of y \<in> {SHRINKING, COMMITTED} \<Longrightarrow> (commit_ts y \<in> pub_ts s') = (commit_ts y \<in> pub_ts s)" if "t' \<noteq> t" "txn_map s t' = Some y" for t' y
    using assms that unfolding txn_step_def by blast
  show "active y s' = active y s" "published y s' = published y s" "finished y s' = finished y s" if "t' \<noteq> t" "txn_map s t' = Some y" for t' y
    using p [OF that] by (auto simp: active_def published_def finished_def)
  show "owner s' k = owner s k" if "k \<notin> K" for k using assms that by (simp add: txn_step_def owner_def)
qed (use assms in \<open>auto simp: txn_step_def\<close>)

lemma txn_step_ext:
  assumes "txn_step t K x' s s'"
  shows "ext s s'"
proof -
  note d = txn_stepD [OF assms]
  have "dead s' a" if a: "dead s a" for a
  proof -
    have "a \<le> start_ts y" if y: "txn_map s' t' = Some y" "active y s'" for t' y
    proof (cases "t' = t")
      case True
      then show ?thesis using y(1) d(2,3,4) a by (cases "txn_map s t") (auto simp: dead_def)
    next
      case False
      then show ?thesis using y d(1,5) a by (auto simp: dead_def)
    qed
    then show ?thesis using a d(8) unfolding dead_def by fastforce
  qed
  moreover have "\<exists>x'. txn_map s' t' = Some x' \<and> published x' s' \<and> commit_ts x' = commit_ts y \<and> undo_logs x' = undo_logs y" if y: "txn_map s t' = Some y" "published y s" for t' y
  proof -
    have "t' \<noteq> t" using y d(3) active_not_finished by (auto simp: finished_def)
    then show ?thesis using y d(1,6) by auto
  qed
  moreover have "txn_map s' t' = None" if "t' < next_txn_id s" "txn_map s t' = None" for t' using that d(1) [of t'] d(4) by (cases "t' = t") auto
  ultimately show ?thesis unfolding ext_def using d(9) by blast
qed

lemma txn_step_untouched:
  assumes st: "txn_step t K x' s s'" and k: "k \<notin> K"
  shows "untouched k s s'"
proof -
  note d = txn_stepD [OF st]
  have t: "tuple_states s' k = tuple_states s k" "heap s' k = heap s k" "k \<in> reserved s \<longrightarrow> k \<in> reserved s'" "mvcc_files s \<subseteq> mvcc_files s'"
    "\<And>x. owner s k = t \<Longrightarrow> txn_map s t = Some x \<Longrightarrow> active x' s' \<and> keeps_txn k x x' \<and> (heap s k = None \<and> txn_state_of x = GROWING \<longrightarrow> txn_state_of x' = GROWING)"
    using st k unfolding txn_step_def by blast+
  have "\<exists>x'. txn_map s' (owner s k) = Some x' \<and> active x' s' \<and> keeps_txn k y x' \<and> (heap s k = None \<and> txn_state_of y = GROWING \<longrightarrow> txn_state_of x' = GROWING)"
    if "txn_map s (owner s k) = Some y" "active y s" for y
    using that t(5) [of y] d(1,2,5) keeps_txn_refl by (cases "owner s k = t") auto
  then show ?thesis using t(1-4) by (simp add: untouched_def)
qed

lemma txn_step_inv:
  assumes inv: "tm_inv s" and st: "txn_step t K x' s s'" and c: "clock_ok s'" and w: "wm_ok s'" and own: "txn_ok s' t x'"
    and cd: "\<And>t' y. t' \<noteq> t \<Longrightarrow> txn_map s t' = Some y \<Longrightarrow> txn_state_of y \<in> {SHRINKING, COMMITTED} \<Longrightarrow> txn_state_of x' \<in> {SHRINKING, COMMITTED} \<Longrightarrow> commit_ts y \<noteq> commit_ts x'"
    and p: "\<And>ts. ts \<in> pub_ts s' \<Longrightarrow> ts \<in> pub_ts s \<or> txn_state_of x' \<in> {SHRINKING, COMMITTED} \<and> commit_ts x' = ts"
    and px: "\<And>x. txn_map s t = Some x \<Longrightarrow> txn_state_of x \<in> {SHRINKING, COMMITTED} \<Longrightarrow> commit_ts x \<in> pub_ts s' \<Longrightarrow> txn_state_of x' \<in> {SHRINKING, COMMITTED} \<and> commit_ts x' = commit_ts x"
    and ks: "\<And>k st. k \<in> K \<Longrightarrow> tuple_states s' k = Some st \<Longrightarrow> state_ok s' k st"
  shows "tm_inv s'"
proof -
  note d = txn_stepD [OF st] and ok = tm_invD(5) [OF inv]
  have "txn_ok s' t' y" if y: "txn_map s' t' = Some y" for t' y
  proof (cases "t' = t")
    case False
    then have y0: "txn_map s t' = Some y" using y d(1) by simp
    have pb: "txn_state_of y \<in> {SHRINKING, COMMITTED} \<Longrightarrow> (commit_ts y \<in> pub_ts s') = (commit_ts y \<in> pub_ts s)" using st False y0 unfolding txn_step_def by blast
    have "owner s' k = t'" if "k \<in> fst ` set (tuple_write_states y) \<or> k \<in> wr_keys y" for k
    proof -
      have "owner s k = t'" "0 \<le> t'" using ok [OF y0] that by (auto simp: txn_ok_def)
      then have "k \<notin> K" using d(12) [of k] False by auto
      then show ?thesis using d(13) \<open>owner s k = t'\<close> by simp
    qed
    then show ?thesis using ok [OF y0] pb d(7) [OF False y0] d(8,9) unfolding txn_ok_def by auto
  qed (use y own d(2) in simp)
  moreover have "state_ok s' k z" if z: "tuple_states s' k = Some z" for k z
  proof (cases "k \<in> K")
    case False
    have "tuple_states s k = Some z" using z st False unfolding txn_step_def by simp
    then show ?thesis using state_ok_untouched [OF tm_invD(6) [OF inv] _ txn_step_ext [OF st] txn_step_untouched [OF st False] d(8)] by simp
  qed (use ks z in blast)
  moreover have "commits_distinct s'" unfolding commits_distinct_def
  proof (intro allI impI, elim conjE)
    fix t1 y1 t2 y2
    assume a: "txn_map s' t1 = Some y1" "txn_map s' t2 = Some y2" "txn_state_of y1 \<in> {SHRINKING, COMMITTED}" "txn_state_of y2 \<in> {SHRINKING, COMMITTED}" "commit_ts y1 = commit_ts y2"
    show "t1 = t2"
    proof (cases "t1 = t \<or> t2 = t")
      case True
      then show ?thesis using a d(1,2) cd [of t1 y1] cd [of t2 y2] by (cases "t1 = t"; cases "t2 = t") auto
    next
      case False
      then show ?thesis using a d(1) tm_invD(3) [OF inv] unfolding commits_distinct_def by auto
    qed
  qed
  moreover have "pubs_ok s'" unfolding pubs_ok_def
  proof
    fix ts assume ts: "ts \<in> pub_ts s'"
    show "\<exists>t x. txn_map s' t = Some x \<and> txn_state_of x \<in> {SHRINKING, COMMITTED} \<and> commit_ts x = ts"
    proof (cases "txn_state_of x' \<in> {SHRINKING, COMMITTED} \<and> commit_ts x' = ts")
      case False
      then obtain t1 y where y: "txn_map s t1 = Some y" "txn_state_of y \<in> {SHRINKING, COMMITTED}" "commit_ts y = ts" using p [OF ts] tm_invD(7) [OF inv] unfolding pubs_ok_def by blast
      then have "t1 \<noteq> t" using px [of y] ts False by auto
      then show ?thesis using y d(1) by (intro exI [of _ t1] exI [of _ y]) simp
    qed (use d(2) in blast)
  qed
  moreover have "retired_ok s'"
  proof -
    have r: "ended s' t1 R" if e: "ended s t1 Q" and QR: "\<And>a. Q a \<Longrightarrow> R a" for t1 Q R
    proof -
      have "t1 \<noteq> t" using e d(3,4) active_not_finished unfolding ended_def by (cases "txn_map s t") fastforce+
      then show ?thesis using e d(1,7,9) QR unfolding ended_def by fastforce
    qed
    have "dead s a \<Longrightarrow> dead s' a" for a using txn_step_ext [OF st] by (simp add: ext_def)
    then show ?thesis using tm_invD(4) [OF inv] r unfolding retired_ok_def d(10,11) by blast
  qed
  ultimately show ?thesis using c w by (simp add: tm_inv_def)
qed

subsection \<open>Steps of a running transaction\<close>

text \<open>Transaction \<open>t\<close> changes only its own record and the tuples in \<open>K\<close>, none of which belongs to another transaction.\<close>

definition same_clock :: "txn_manager \<Rightarrow> txn_manager \<Rightarrow> bool" where
  "same_clock s s' \<longleftrightarrow> next_txn_id s' = next_txn_id s \<and> next_timestamp s' = next_timestamp s \<and> last_commit_ts s' = last_commit_ts s \<and> commit_publications s' = commit_publications s
     \<and> running_txns s' = running_txns s \<and> reclaimable_txns s' = reclaimable_txns s \<and> pending_delete_txns s' = pending_delete_txns s"

definition local_step :: "txn_id_t \<Rightarrow> tuple_key set \<Rightarrow> transaction \<Rightarrow> transaction \<Rightarrow> txn_manager \<Rightarrow> txn_manager \<Rightarrow> bool" where
  "local_step t K x x' s s' \<longleftrightarrow> same_clock s s' \<and> (\<forall>t'. t' \<noteq> t \<longrightarrow> txn_map s' t' = txn_map s t')
     \<and> txn_map s t = Some x \<and> txn_state_of x = GROWING \<and> txn_map s' t = Some x' \<and> txn_state_of x' = GROWING \<and> start_ts x' = start_ts x
     \<and> (\<forall>k. k \<notin> K \<longrightarrow> keeps_txn k x x' \<and> tuple_states s' k = tuple_states s k \<and> heap s' k = heap s k \<and> (k \<in> reserved s \<longrightarrow> k \<in> reserved s'))
     \<and> mvcc_files s \<subseteq> mvcc_files s' \<and> (\<forall>k \<in> K. owner s k = INVALID_TXN_ID \<or> owner s k = t)"

lemma local_active:
  assumes "local_step t K x x' s s'"
  shows "pub_ts s' = pub_ts s" "active y s' = active y s" "published y s' = published y s" "finished y s' = finished y s" "dead s' a = dead s a" "readable s' r = readable s r" "running s' = running s"
    "txn_map s' t2 = None \<longleftrightarrow> txn_map s t2 = None"
proof -
  have p: "pub_ts s' = pub_ts s" using assms by (simp add: local_step_def same_clock_def pub_ts_def)
  then show "pub_ts s' = pub_ts s" "active y s' = active y s" "published y s' = published y s" "finished y s' = finished y s" by (simp_all add: active_def published_def finished_def)
  have a: "active y s' = active y s" for y using p by (simp add: active_def)
  have t: "txn_map s t = Some x" "txn_map s' t = Some x'" "txn_state_of x = GROWING" "txn_state_of x' = GROWING" "start_ts x' = start_ts x" "\<And>t'. t' \<noteq> t \<Longrightarrow> txn_map s' t' = txn_map s t'" "last_commit_ts s' = last_commit_ts s"
    using assms by (auto simp: local_step_def same_clock_def)
  have m: "(\<exists>y. txn_map s' t' = Some y \<and> active y s \<and> Q (start_ts y)) \<longleftrightarrow> (\<exists>y. txn_map s t' = Some y \<and> active y s \<and> Q (start_ts y))" for t' Q
    using t by (cases "t' = t") (auto simp: growing_active)
  have "(\<forall>t x. txn_map s' t = Some x \<and> active x s \<longrightarrow> a \<le> start_ts x) \<longleftrightarrow> (\<forall>t x. txn_map s t = Some x \<and> active x s \<longrightarrow> a \<le> start_ts x)" for a
    using m [of _ "\<lambda>y. \<not> a \<le> y"] by blast
  then have d: "dead s' a = dead s a" for a using t(7) by (simp add: dead_def a)
  then show "dead s' a = dead s a" "readable s' r = readable s r" by (simp_all add: readable_def)
  show "running s' = running s" using m [of _ "\<lambda>_. True"] by (simp add: running_def a)
  show "txn_map s' t2 = None \<longleftrightarrow> txn_map s t2 = None" using t by (cases "t2 = t") auto
qed

lemma local_txn_step:
  assumes "local_step t K x x' s s'"
  shows "txn_step t K x' s s'"
  using assms local_active(1) [OF assms] growing_active unfolding local_step_def same_clock_def txn_step_def by auto

lemmas local_ext = txn_step_ext [OF local_txn_step]
lemmas local_untouched = txn_step_untouched [OF local_txn_step]

end
