(* ===== verification/Rmdb_Mvcc_Steps.thy ===== *)
theory Rmdb_Mvcc_Steps
  imports Rmdb_Mvcc_Inv
begin

text \<open>Every step keeps the invariant of the version store and the records of all snapshots that are still needed.\<close>

definition keeps_committed :: "txn_manager \<Rightarrow> txn_manager \<Rightarrow> bool" where
  "keeps_committed s s' \<longleftrightarrow> (\<forall>k r. readable s r \<and> readable s' r \<and> 0 \<le> r \<and> r \<le> last_commit_ts s \<longrightarrow> (\<exists>v. committed_at k r s = Ret v \<and> committed_at k r s' = Ret v))"

lemma txn_step_committed:
  assumes inv: "tm_inv s" and st: "txn_step t K x' s s'" and inv': "tm_inv s'"
    and K: "\<And>k r. k \<in> K \<Longrightarrow> readable s r \<Longrightarrow> readable s' r \<Longrightarrow> 0 \<le> r \<Longrightarrow> r \<le> last_commit_ts s \<Longrightarrow> \<exists>v. committed_at k r s = Ret v \<and> committed_at k r s' = Ret v"
  shows "keeps_committed s s'"
  unfolding keeps_committed_def
proof (intro allI impI, elim conjE)
  fix k r assume r: "readable s r" "readable s' r" "0 \<le> r" and l: "r \<le> last_commit_ts s"
  show "\<exists>v. committed_at k r s = Ret v \<and> committed_at k r s' = Ret v"
    using committed_untouched [OF inv txn_step_ext [OF st] txn_step_untouched [OF st] r tm_invD(1) [OF inv'] txn_stepD(8) [OF st]] K [OF _ r l] by blast
qed

lemma local_inv:
  assumes inv: "tm_inv s" and ls: "local_step t K x x' s s'" and ks: "\<And>k st. k \<in> K \<Longrightarrow> tuple_states s' k = Some st \<Longrightarrow> state_ok s' k st"
    and d: "distinct (map fst (tuple_write_states x'))" and o: "\<And>k. k \<in> K \<Longrightarrow> k \<in> fst ` set (tuple_write_states x') \<or> k \<in> wr_keys x' \<Longrightarrow> owner s' k = t"
  shows "tm_inv s'"
proof -
  note l = local_active [OF ls] and st = local_txn_step [OF ls]
  have sc: "same_clock s s'" and tx: "txn_map s t = Some x" "txn_state_of x = GROWING" "txn_map s' t = Some x'" "txn_state_of x' = GROWING" "start_ts x' = start_ts x" "\<And>t'. t' \<noteq> t \<Longrightarrow> txn_map s' t' = txn_map s t'"
    and kk: "\<And>k. k \<notin> K \<Longrightarrow> keeps_txn k x x'" using ls by (auto simp: local_step_def)
  have "owner s' k = t" if k: "k \<in> fst ` set (tuple_write_states x') \<or> k \<in> wr_keys x'" for k
  proof (cases "k \<in> K")
    case False
    then have "map_of (tuple_write_states x') k = map_of (tuple_write_states x) k" "k \<in> wr_keys x' \<longleftrightarrow> k \<in> wr_keys x"
      using kk [OF False] find_wr_keys [of k x] find_wr_keys [of k x'] by (auto simp: keeps_txn_def)
    then have "k \<in> fst ` set (tuple_write_states x) \<or> k \<in> wr_keys x" using k by (metis map_of_eq_None_iff)
    then show ?thesis using tm_invD(5) [OF inv tx(1)] txn_stepD(13) [OF st False] by (auto simp: txn_ok_def)
  qed (use o k in blast)
  then have own: "txn_ok s' t x'" using tx tm_invD(5) [OF inv tx(1)] d sc l(1) active_not_finished [OF growing_active [OF tx(4)]] by (auto simp: txn_ok_def same_clock_def)
  have c: "clock_ok s'" using tm_invD(1) [OF inv] sc l(1) by (simp add: clock_ok_def same_clock_def)
  have "start_ts (txn_of t' s') = start_ts (txn_of t' s)" for t' using tx by (cases "t' = t") (auto simp: txn_of_def)
  moreover have "dom (txn_map s') = dom (txn_map s)" unfolding dom_def using l(8) by simp
  ultimately have w: "wm_ok s'" using tm_invD(2) [OF inv] sc l(7) by (simp add: wm_ok_def same_clock_def)
  show ?thesis by (rule txn_step_inv [OF inv st c w own]) (use tx l(1) ks in auto)
qed

lemma local_committed:
  assumes "tm_inv s" "local_step t K x x' s s'" "tm_inv s'"
    and "\<And>k r. k \<in> K \<Longrightarrow> readable s r \<Longrightarrow> 0 \<le> r \<Longrightarrow> \<exists>v. committed_at k r s = Ret v \<and> committed_at k r s' = Ret v"
  shows "keeps_committed s s'"
  using txn_step_committed [OF assms(1) local_txn_step [OF assms(2)] assms(3)] assms(4) by blast

text \<open>What the actor of a step leaves to the other transactions that have not ended: their objects, and the tuples they own.\<close>

definition others_kept :: "txn_id_t option \<Rightarrow> txn_manager \<Rightarrow> txn_manager \<Rightarrow> bool" where
  "others_kept a s s' \<longleftrightarrow> (\<forall>t x. a \<noteq> Some t \<and> txn_map s t = Some x \<and> active x s \<longrightarrow>
     (\<exists>g. txn_map s' t = Some (x\<lparr>tuple_state_gc_keys := g\<rparr>)) \<and> active x s' \<and> (\<forall>k. owner s k = t \<longrightarrow> tuple_states s' k = tuple_states s k \<and> heap s' k = heap s k))"

lemma same_transaction: "\<exists>g. x = x\<lparr>tuple_state_gc_keys := g\<rparr>" for x :: transaction
  by (intro exI [of _ "tuple_state_gc_keys x"]) simp

lemma txn_step_others:
  assumes inv: "tm_inv s" and st: "txn_step t K x' s s'"
  shows "others_kept (Some t) s s'"
  unfolding others_kept_def
proof (intro allI impI, elim conjE)
  fix t' y assume y: "Some t \<noteq> Some t'" "txn_map s t' = Some y" "active y s"
  have "k \<notin> K" if "owner s k = t'" for k using that txn_stepD(12) [OF st, of k] y(1) tm_invD(5) [OF inv y(2)] by (auto simp: txn_ok_def)
  then have "\<forall>k. owner s k = t' \<longrightarrow> tuple_states s' k = tuple_states s k \<and> heap s' k = heap s k" using st unfolding txn_step_def by blast
  moreover have "txn_map s' t' = Some y" "active y s'" using txn_stepD(1) [OF st, of t'] txn_stepD(5) [OF st, of t' y] y by auto
  ultimately show "(\<exists>g. txn_map s' t' = Some (y\<lparr>tuple_state_gc_keys := g\<rparr>)) \<and> active y s' \<and> (\<forall>k. owner s k = t' \<longrightarrow> tuple_states s' k = tuple_states s k \<and> heap s' k = heap s k)"
    using same_transaction [of y] by simp
qed

lemma others_kept_trans:
  assumes "others_kept a s s1" "others_kept a s1 s2"
  shows "others_kept a s s2"
  unfolding others_kept_def
proof (intro allI impI, elim conjE)
  fix t x assume x: "a \<noteq> Some t" "txn_map s t = Some x" "active x s"
  then obtain g where g: "txn_map s1 t = Some (x\<lparr>tuple_state_gc_keys := g\<rparr>)" "active x s1" "\<And>k. owner s k = t \<Longrightarrow> tuple_states s1 k = tuple_states s k \<and> heap s1 k = heap s k"
    using assms(1) unfolding others_kept_def by blast
  have "active (x\<lparr>tuple_state_gc_keys := g\<rparr>) s1" using g(2) by (simp add: active_def)
  then have h: "\<exists>g'. txn_map s2 t = Some (x\<lparr>tuple_state_gc_keys := g'\<rparr>)" "active x s2" "\<And>k. owner s1 k = t \<Longrightarrow> tuple_states s2 k = tuple_states s1 k \<and> heap s2 k = heap s1 k"
    using assms(2) x(1) g(1) unfolding others_kept_def by (fastforce simp: active_def)+
  have "owner s1 k = t" if "owner s k = t" for k using g(3) [OF that] that by (simp add: owner_def)
  then show "(\<exists>g. txn_map s2 t = Some (x\<lparr>tuple_state_gc_keys := g\<rparr>)) \<and> active x s2 \<and> (\<forall>k. owner s k = t \<longrightarrow> tuple_states s2 k = tuple_states s k \<and> heap s2 k = heap s k)"
    using h g(3) by simp
qed

lemma others_kept_refl: "others_kept a s s" using same_transaction by (simp add: others_kept_def)

text \<open>What a step of a running transaction keeps.\<close>

definition snapshots_kept :: "txn_id_t option \<Rightarrow> txn_manager \<Rightarrow> txn_manager \<Rightarrow> bool" where
  "snapshots_kept a s s' \<longleftrightarrow> tm_inv s' \<and> keeps_committed s s' \<and> (\<forall>r. readable s' r = readable s r) \<and> last_commit_ts s' = last_commit_ts s \<and> others_kept a s s'"

lemma local_kept: "tm_inv s \<Longrightarrow> local_step t K x x' s s' \<Longrightarrow> tm_inv s' \<Longrightarrow> keeps_committed s s' \<Longrightarrow> snapshots_kept (Some t) s s'"
  using local_active(6) txn_step_others [OF _ local_txn_step] by (auto simp: snapshots_kept_def local_step_def same_clock_def)

lemma snapshots_kept_trans:
  assumes "snapshots_kept a s s1" "snapshots_kept a s1 s2"
  shows "snapshots_kept a s s2"
proof -
  have "keeps_committed s s2" using assms unfolding snapshots_kept_def keeps_committed_def by (metis outcome.inject(1))
  then show ?thesis using assms others_kept_trans by (auto simp: snapshots_kept_def)
qed

lemma committed_defined: "tm_inv s \<Longrightarrow> readable s r \<Longrightarrow> 0 \<le> r \<Longrightarrow> \<exists>v. committed_at k r s = Ret v"
  using committed_untouched [of s s k r] tm_invD(1) [of s] ext_refl keeps_txn_refl by (fastforce simp: untouched_def)

lemma snapshots_kept_refl: "tm_inv s \<Longrightarrow> snapshots_kept a s s"
  using committed_defined others_kept_refl by (simp add: snapshots_kept_def keeps_committed_def)

subsection \<open>Acquiring a tuple\<close>

lemma growingE: "growing t s \<Longrightarrow> (\<And>x. txn_map s t = Some x \<Longrightarrow> txn_state_of x = GROWING \<Longrightarrow> P) \<Longrightarrow> P"
  by (auto simp: growing_def)

lemma txn_of_simp: "txn_map s t = Some x \<Longrightarrow> txn_of t s = x" by (simp add: txn_of_def)

text \<open>The record that is handed to the undo log is the current one.\<close>

lemma acquire_reads_heap:
  assumes inv: "tm_inv s" and rd: "ReadVisibleTuple k (Some t) s = Ret (Some old)" and tx: "txn_map s t = Some x"
    and st: "\<And>st. tuple_states s k = Some st \<Longrightarrow> ts_owner st = INVALID_TXN_ID \<and> ts_commit_ts st \<le> start_ts x"
  shows "heap s k = Some old"
proof -
  obtain latest where l: "heap s k = Some latest" "ResolveVisibleTupleImpl k latest (Some t) s = Ret (Some old)" using rd by (auto simp: ReadVisibleTuple_def split: option.splits)
  show ?thesis
  proof (cases "tuple_states s k")
    case None
    then show ?thesis using l by (simp add: ResolveVisibleTupleImpl_def split: if_splits)
  next
    case (Some y)
    have "0 \<le> t" using tm_invD(5) [OF inv tx] by (simp add: txn_ok_def)
    then show ?thesis using l Some st [OF Some] tx by (auto simp: ResolveVisibleTupleImpl_def reader_id_def reader_ts_def split: if_splits)
  qed
qed

definition acquired :: "tuple_key \<Rightarrow> byte list \<Rightarrow> txn_id_t \<Rightarrow> bool \<Rightarrow> tuple_state \<Rightarrow> transaction \<Rightarrow> txn_manager \<Rightarrow> txn_manager" where
  "acquired k old t del st x s =
     s\<lparr>mvcc_files := insert (tk_fd k) (mvcc_files s),
       txn_map := (txn_map s)(t \<mapsto> SetTupleWriteState k \<lparr>inserted_by_txn = False, has_before_state = True, before_first_write = st\<rparr>
          (AppendUndoLog \<lparr>u_is_deleted = ts_is_deleted st, u_record = old, u_ts = ts_commit_ts st, prev_version = link_of (ts_undo_head st)\<rparr> x)),
       tuple_states := (tuple_states s)(k \<mapsto> st\<lparr>ts_undo_head := Some \<lparr>prev_txn = t, prev_log_idx = int (length (undo_logs x))\<rparr>, ts_owner := t, ts_is_deleted := del\<rparr>),
       publication_epoch := (publication_epoch s)(TupleStateShardIndex k := Suc (publication_epoch s (TupleStateShardIndex k)))\<rparr>"

lemma acquire_new:
  assumes inv: "tm_inv s" and tx: "txn_map s t = Some x" and st: "st = (case tuple_states s k of None \<Rightarrow> TupleState_new | Some st \<Rightarrow> st)"
    and c: "ts_owner st = INVALID_TXN_ID" "ts_commit_ts st \<le> start_ts x" "\<not> ts_is_deleted st"
  shows "snd (AcquireWriteAndRecord k old t kind s) = acquired k old t (kind = KIND_DELETE) st x s"
proof -
  have t: "0 \<le> t" "\<And>k. k \<in> fst ` set (tuple_write_states x) \<Longrightarrow> owner s k = t" using tm_invD(5) [OF inv tx] by (auto simp: txn_ok_def)
  have "k \<notin> fst ` set (tuple_write_states x)" using t c(1) st by (force simp: owner_def split: option.splits)
  then have f: "\<not> HasTupleWriteState k x" by (simp add: HasTupleWriteState_def map_of_eq_None_iff)
  have l: "link_of (ts_undo_head st) = (case ts_undo_head st of None \<Rightarrow> no_link | Some l \<Rightarrow> l)" by (simp add: link_of_def)
  show ?thesis
  proof (cases "tuple_states s k")
    case None
    then show ?thesis using c tx t(1) st f unfolding acquired_def l
      by (simp add: AcquireWriteAndRecord_def try_emplace_def MarkHasMvccState_def record_before_def set_state_def bump_publication_def upd_txn_def txn_of_def Let_def)
  next
    case (Some y)
    then show ?thesis using c tx t(1) st f unfolding acquired_def l
      by (simp add: AcquireWriteAndRecord_def try_emplace_def MarkHasMvccState_def record_before_def set_state_def bump_publication_def upd_txn_def txn_of_def Let_def)
  qed
qed

lemma acquired_kept:
  assumes inv: "tm_inv s" and tx: "txn_map s t = Some x" "txn_state_of x = GROWING" and st: "st = (case tuple_states s k of None \<Rightarrow> TupleState_new | Some st \<Rightarrow> st)"
    and c: "ts_owner st = INVALID_TXN_ID" "ts_commit_ts st \<le> start_ts x" "\<not> ts_is_deleted st" and h: "heap s k = Some old"
  shows "snapshots_kept (Some t) s (acquired k old t del st x s)"
proof -
  define s' where "s' = acquired k old t del st x s"
  let ?u = "\<lparr>u_is_deleted = ts_is_deleted st, u_record = old, u_ts = ts_commit_ts st, prev_version = link_of (ts_undo_head st)\<rparr>"
  let ?w = "\<lparr>inserted_by_txn = False, has_before_state = True, before_first_write = st\<rparr>"
  let ?l = "\<lparr>prev_txn = t, prev_log_idx = int (length (undo_logs x))\<rparr>"
  define x' where "x' = SetTupleWriteState k ?w (AppendUndoLog ?u x)"
  have t: "0 \<le> t" "0 \<le> start_ts x" "start_ts x \<le> last_commit_ts s" "distinct (map fst (tuple_write_states x))" "\<And>k. k \<in> wr_keys x \<Longrightarrow> owner s k = t" using tm_invD(5) [OF inv tx(1)] by (auto simp: txn_ok_def)
  have ow: "owner s k = INVALID_TXN_ID" using c(1) st by (simp add: owner_def split: option.splits)
  have f: "txn_map s' t = Some x'" "tuple_states s' k = Some (st\<lparr>ts_undo_head := Some ?l, ts_owner := t, ts_is_deleted := del\<rparr>)" "heap s' = heap s" "owner s' k = t" "tk_fd k \<in> mvcc_files s'"
    by (simp_all add: s'_def acquired_def x'_def owner_def)
  have x': "txn_state_of x' = GROWING" "start_ts x' = start_ts x" "undo_logs x' = undo_logs x @ [?u]" "write_set x' = write_set x" "tuple_write_states x' = (k, ?w) # filter (\<lambda>e. fst e \<noteq> k) (tuple_write_states x)"
    using tx(2) by (simp_all add: x'_def SetTupleWriteState_def AppendUndoLog_def)
  have mf: "map_of (filter (\<lambda>e. fst e \<noteq> k) ys) k' = map_of ys k'" if "k' \<noteq> k" for k' ys using that by (induction ys) auto
  have ls: "local_step t {k} x x' s s'" unfolding local_step_def same_clock_def
    using tx x' f ow by (auto simp: s'_def acquired_def keeps_txn_def mf)
  have ch: "0 \<le> ts_commit_ts st \<and> chain s (ts_commit_ts st) (link_of (ts_undo_head st))"
  proof (cases "tuple_states s k")
    case None
    then show ?thesis using st by (simp add: TupleState_new_def link_of_def no_link_def link_valid_def chain.End)
  next
    case (Some y)
    then show ?thesis using tm_invD(6) [OF inv Some] st c(1) by (auto simp: state_ok_def stable_ok_def)
  qed
  have u: "GetUndoLogOptional ?l s' = Some ?u" using f(1) x'(3) t(1) by (simp add: GetUndoLogOptional_def)
  have "k \<notin> wr_keys x" using t(5) [of k] t(1) ow by auto
  then have nf: "List.find (\<lambda>w. wr_key w = k) (write_set x) = None" using find_wr_keys [of k x] by blast
  have so: "state_ok s' k' st'" if "k' \<in> {k}" "tuple_states s' k' = Some st'" for k' st'
  proof -
    have "update_ok s' k (st\<lparr>ts_undo_head := Some ?l, ts_owner := t, ts_is_deleted := del\<rparr>) t x' st"
      unfolding update_ok_def using c t ch chain_ext [OF _ local_ext [OF ls]] h u f(3) x' nf by (simp add: base_ok_def)
    then have "owned_ok s' k (st\<lparr>ts_undo_head := Some ?l, ts_owner := t, ts_is_deleted := del\<rparr>) t x'" unfolding owned_ok_def using x'(5) by simp
    then show ?thesis using that f t(1) growing_active [OF x'(1), of s'] by (auto simp: state_ok_def)
  qed
  have "distinct (map fst (tuple_write_states x'))" unfolding x'(5) using t(4) by (auto simp: distinct_map_filter)
  then have i: "tm_inv s'" using local_inv [OF inv ls so] f(4) by auto
  have "\<exists>v. committed_at k r s = Ret v \<and> committed_at k r s' = Ret v" if r: "readable s r" "0 \<le> r" for r
  proof (cases "ts_commit_ts st \<le> r")
    case True
    have "committed_at k r s = Ret (Some old)" using True c h st by (cases "tuple_states s k") (auto simp: committed_at_def)
    moreover have "committed_at k r s' = Ret (Some old)" using True f(2) u t(1) c(3) by (simp add: committed_at_def walk_head_def link_valid_def)
    ultimately show ?thesis by simp
  next
    case False
    then have so: "tuple_states s k = Some st" using st r(2) by (auto simp: TupleState_new_def split: option.splits)
    have ce: "committed_at k r s = walk_versions (nat (next_timestamp s) + 2) (link_of (ts_undo_head st)) r s" using so False by (simp add: committed_at_def walk_head_link del: walk_versions.simps)
    have ce': "committed_at k r s' = walk_versions (nat (next_timestamp s') + 1) (link_of (ts_undo_head st)) r s'"
      using f(2) u t(1) False by (simp add: committed_at_def walk_head_def link_valid_def)
    have n: "nat (ts_commit_ts st) < nat (next_timestamp s) + 2" "nat (ts_commit_ts st) < nat (next_timestamp s') + 1"
      using c(2) t(3) tm_invD(1) [OF inv] tm_invD(1) [OF i] ls unfolding clock_ok_def local_step_def same_clock_def by linarith+
    show ?thesis unfolding ce ce' using walk_ext [OF conjunct2 [OF ch] local_ext [OF ls] _ _ r(2) n] False r(1) local_active(6) [OF ls] by simp
  qed
  then have "keeps_committed s s'" by (intro local_committed [OF inv ls i]) auto
  then show ?thesis using local_kept [OF inv ls i] by (simp add: s'_def)
qed

subsection \<open>Work on tuples a transaction owns\<close>

text \<open>The record of an owned tuple may change once a write record saved the first one; the mark of a deletion may change at any time.\<close>

definition touched :: "tuple_key \<Rightarrow> txn_id_t \<Rightarrow> transaction \<Rightarrow> transaction \<Rightarrow> txn_manager \<Rightarrow> txn_manager \<Rightarrow> bool" where
  "touched k t x x' s s' \<longleftrightarrow> (\<exists>st d. tuple_states s k = Some st \<and> ts_owner st = t \<and> tuple_states s' k = Some (st\<lparr>ts_is_deleted := d\<rparr>))
     \<and> (heap s' k = heap s k \<or> k \<in> wr_keys x' \<and> heap s' k \<noteq> None) \<and> (k \<in> reserved s \<longrightarrow> k \<in> reserved s' \<or> heap s' k \<noteq> None)
     \<and> (List.find (\<lambda>w. wr_key w = k) (write_set x') = List.find (\<lambda>w. wr_key w = k) (write_set x)
        \<or> List.find (\<lambda>w. wr_key w = k) (write_set x) = None \<and> (\<exists>w. List.find (\<lambda>w. wr_key w = k) (write_set x') = Some w \<and> first_image w = heap s k))"

lemma touched_kept:
  assumes inv: "tm_inv s" and ls: "local_step t K x x' s s'" and same: "tuple_write_states x' = tuple_write_states x" "undo_logs x' = undo_logs x"
    and K: "\<And>k. k \<in> K \<Longrightarrow> touched k t x x' s s'"
  shows "snapshots_kept (Some t) s s'"
proof -
  have tx: "txn_map s t = Some x" "txn_map s' t = Some x'" "txn_state_of x = GROWING" "txn_state_of x' = GROWING" "start_ts x' = start_ts x" "mvcc_files s \<subseteq> mvcc_files s'" using ls by (auto simp: local_step_def)
  note tok = tm_invD(5) [OF inv tx(1)]
  have t: "0 \<le> t" using tok by (simp add: txn_ok_def)
  have own: "\<exists>st d. tuple_states s k = Some st \<and> ts_owner st = t \<and> tuple_states s' k = Some (st\<lparr>ts_is_deleted := d\<rparr>) \<and> state_ok s' k (st\<lparr>ts_is_deleted := d\<rparr>)
      \<and> (\<forall>r. readable s r \<and> 0 \<le> r \<longrightarrow> (\<exists>v. committed_at k r s = Ret v \<and> committed_at k r s' = Ret v))" if k: "k \<in> K" for k
  proof -
    obtain st d where st: "tuple_states s k = Some st" "ts_owner st = t" "tuple_states s' k = Some (st\<lparr>ts_is_deleted := d\<rparr>)" using K [OF k] by (auto simp: touched_def)
    let ?st = "st\<lparr>ts_is_deleted := d\<rparr>"
    have so: "state_ok s k st" by (rule tm_invD(6) [OF inv st(1)])
    obtain w where w: "map_of (tuple_write_states x) k = Some w" "has_before_state w = (\<not> inserted_by_txn w)"
        "if inserted_by_txn w then insert_ok s k st x else update_ok s k st t x (before_first_write w)"
      using so st(2) t tx(1) by (auto simp: state_ok_def owned_ok_def)
    have h: "heap s' k = heap s k \<or> k \<in> wr_keys x' \<and> heap s' k \<noteq> None" "k \<in> reserved s \<longrightarrow> k \<in> reserved s' \<or> heap s' k \<noteq> None"
      and fd: "List.find (\<lambda>w. wr_key w = k) (write_set x') = List.find (\<lambda>w. wr_key w = k) (write_set x)
        \<or> List.find (\<lambda>w. wr_key w = k) (write_set x) = None \<and> (\<exists>w. List.find (\<lambda>w. wr_key w = k) (write_set x') = Some w \<and> first_image w = heap s k)" using K [OF k] by (auto simp: touched_def)
    have b: "base_ok s' x' k bs" if "base_ok s x k bs" for bs
      using that fd h(1) find_wr_keys [of k x'] by (auto simp: base_ok_def split: option.splits)
    have wk: "k \<in> wr_keys x'" if "k \<in> wr_keys x" using that fd find_wr_keys [of k x] find_wr_keys [of k x'] by auto
    have u: "GetUndoLogOptional l s' = GetUndoLogOptional l s" if "prev_txn l = t" for l using that tx(1,2) same(2) by (simp add: GetUndoLogOptional_def)
    have io: "insert_ok s' k ?st x'" if "insert_ok s k st x" using that b wk h tx(3,4) by (auto simp: insert_ok_def)
    have uo: "update_ok s' k ?st t x' bs" if "update_ok s k st t x bs" for bs
      using that b u tx(5) h(1) chain_ext [OF _ local_ext [OF ls]] unfolding update_ok_def by fastforce
    have "owned_ok s' k ?st t x'" using w io uo same(1) unfolding owned_ok_def by auto
    then have "state_ok s' k ?st" using so st(2) t tx(2,6) growing_active [OF tx(4), of s'] by (auto simp: state_ok_def)
    moreover have "\<exists>v. committed_at k r s = Ret v \<and> committed_at k r s' = Ret v" if r: "readable s r" "0 \<le> r" for r
    proof (cases "inserted_by_txn w")
      case True
      then show ?thesis using w st t by (simp add: insert_ok_def committed_at_def walk_head_def)
    next
      case False
      let ?b = "before_first_write w"
      have up: "update_ok s k st t x ?b" using w False by simp
      obtain l u1 where l: "ts_undo_head st = Some l" "GetUndoLogOptional l s = Some u1" "u_ts u1 = ts_commit_ts ?b" "\<not> u_is_deleted u1" "prev_txn l = t" "prev_version u1 = link_of (ts_undo_head ?b)"
        using up by (auto simp: update_ok_def)
      have bb: "0 \<le> ts_commit_ts ?b" "ts_commit_ts ?b \<le> start_ts x" "chain s (ts_commit_ts ?b) (link_of (ts_undo_head ?b))" using up by (auto simp: update_ok_def)
      have n: "nat (ts_commit_ts ?b) < nat (next_timestamp s) + 1" "nat (ts_commit_ts ?b) < nat (next_timestamp s') + 1"
        using bb(2) tok tm_invD(1) [OF inv] ls unfolding clock_ok_def local_step_def same_clock_def txn_ok_def by linarith+
      have r': "readable s' r" using r(1) local_active(6) [OF ls] by simp
      show ?thesis using l u [of l] st t walk_ext [OF bb(3) local_ext [OF ls] r' _ r(2) n]
        by (cases "ts_commit_ts ?b \<le> r") (auto simp: committed_at_def walk_head_def link_valid_def)
    qed
    ultimately show ?thesis using st by blast
  qed
  have so: "state_ok s' k st" if "k \<in> K" "tuple_states s' k = Some st" for k st using own [OF that(1)] that(2) by auto
  have ow: "owner s' k = t" if "k \<in> K" for k using own [OF that] by (auto simp: owner_def)
  have i: "tm_inv s'" using local_inv [OF inv ls so] ow tok same(1) by (simp add: txn_ok_def)
  have "keeps_committed s s'" using own by (intro local_committed [OF inv ls i]) blast
  then show ?thesis by (rule local_kept [OF inv ls i])
qed

end
