(* ===== verification/Rmdb_Mvcc_Writes.thy ===== *)
theory Rmdb_Mvcc_Writes
  imports Rmdb_Mvcc_Steps
begin

text \<open>The steps of a running transaction that write: the write check, the write records, the changes of the heap, and a statement that is taken back.\<close>

lemma mark_owned_kept:
  assumes inv: "tm_inv s" and g: "growing t s"
  shows "snapshots_kept (Some t) s (MarkHasMvccState k s)"
proof -
  obtain x where x: "txn_map s t = Some x" "txn_state_of x = GROWING" using g by (auto simp: growing_def)
  have "local_step t {} x x s (MarkHasMvccState k s)" using x by (auto simp: local_step_def same_clock_def keeps_txn_refl MarkHasMvccState_def)
  then show ?thesis using touched_kept [OF inv] by blast
qed

subsection \<open>The write check\<close>

text \<open>A change of the mark of a deletion, on a tuple the transaction owns.\<close>

lemma flag_kept:
  assumes inv: "tm_inv s" and g: "growing t s" and st: "tuple_states s k = Some st" "ts_owner st = t"
    and s': "s' = s\<lparr>mvcc_files := M, tuple_states := (tuple_states s)(k \<mapsto> st\<lparr>ts_is_deleted := d\<rparr>), publication_epoch := e\<rparr>" "mvcc_files s \<subseteq> M"
  shows "snapshots_kept (Some t) s s'"
proof -
  obtain x where x: "txn_map s t = Some x" "txn_state_of x = GROWING" using g by (auto simp: growing_def)
  have ls: "local_step t {k} x x s s'" using x st s' by (auto simp: local_step_def same_clock_def keeps_txn_refl owner_def)
  have "touched k t x x s s'" unfolding touched_def using st s' by auto
  then show ?thesis using touched_kept [OF inv ls] by blast
qed

lemma acquire_kept:
  assumes inv: "tm_inv s" and g: "growing t s" and rd: "ReadVisibleTuple k (Some t) s = Ret (Some old)" and a: "AcquireWriteAndRecord k old t kind s = (r, s')"
  shows "snapshots_kept (Some t) s s'"
proof -
  obtain x where x: "txn_map s t = Some x" "txn_state_of x = GROWING" using g by (auto simp: growing_def)
  have t: "0 \<le> t" "0 \<le> start_ts x" using tm_invD(5) [OF inv x(1)] by (auto simp: txn_ok_def)
  have new: ?thesis if c: "st = (case tuple_states s k of None \<Rightarrow> TupleState_new | Some st \<Rightarrow> st)" "ts_owner st = INVALID_TXN_ID" "ts_commit_ts st \<le> start_ts x" "\<not> ts_is_deleted st" for st
  proof -
    have h: "heap s k = Some old" by (rule acquire_reads_heap [OF inv rd x(1)]) (use c in auto)
    have s': "s' = acquired k old t (kind = KIND_DELETE) st x s" using acquire_new [OF inv x(1) c, of old kind] a by simp
    then show ?thesis using acquired_kept [OF inv x c h] by simp
  qed
  show ?thesis
  proof (cases "tuple_states s k")
    case None
    then show ?thesis by (intro new [of TupleState_new]) (simp_all add: TupleState_new_def t)
  next
    case (Some st)
    have tx: "txn_of t (MarkHasMvccState k s) = x" using x by (simp add: txn_of_def MarkHasMvccState_def)
    have sk: "tuple_states (MarkHasMvccState k s) k = Some st" using Some by (simp add: MarkHasMvccState_def)
    consider "ts_owner st = t" | "ts_owner st \<noteq> t" "ts_owner st \<noteq> INVALID_TXN_ID \<or> ts_commit_ts st > start_ts x \<or> ts_is_deleted st"
      | "ts_owner st = INVALID_TXN_ID" "ts_commit_ts st \<le> start_ts x" "\<not> ts_is_deleted st" by fastforce
    then show ?thesis
    proof cases
      case 1
      have "s' = s\<lparr>mvcc_files := insert (tk_fd k) (mvcc_files s), tuple_states := (tuple_states s)(k \<mapsto> st\<lparr>ts_is_deleted := (kind = KIND_DELETE)\<rparr>), publication_epoch := publication_epoch s'\<rparr>"
        using a 1 sk by (auto simp: AcquireWriteAndRecord_def try_emplace_def set_state_def bump_publication_def MarkHasMvccState_def Let_def split: if_splits)
      then show ?thesis using flag_kept [OF inv g Some 1] by blast
    next
      case 2
      have "s' = MarkHasMvccState k s" using a 2 sk tx by (auto simp: AcquireWriteAndRecord_def try_emplace_def Let_def split: if_splits)
      then show ?thesis using mark_owned_kept [OF inv g] by simp
    next
      case 3
      then show ?thesis using new [of st] Some by simp
    qed
  qed
qed

subsection \<open>Changes of the heap\<close>

lemma find_append: "List.find P (xs @ ys) = (case List.find P xs of None \<Rightarrow> List.find P ys | Some y \<Rightarrow> Some y)"
  by (induction xs) auto

lemma append_kept:
  assumes inv: "tm_inv s" and g: "growing t s" and w: "owner s (wr_key w) = t" "wr_type w \<noteq> INSERT_TUPLE" "heap s (wr_key w) = wr_old w" "wr_old w \<noteq> None"
  shows "snapshots_kept (Some t) s (append_write_record w t s)"
proof -
  obtain x where x: "txn_map s t = Some x" "txn_state_of x = GROWING" using g by (auto simp: growing_def)
  have t: "0 \<le> t" using tm_invD(5) [OF inv x(1)] by (simp add: txn_ok_def)
  obtain st where st: "tuple_states s (wr_key w) = Some st" "ts_owner st = t" using w(1) t by (auto simp: owner_def split: option.splits)
  define x' where "x' = x\<lparr>write_set := write_set x @ [w]\<rparr>"
  have s': "append_write_record w t s = s\<lparr>txn_map := (txn_map s)(t \<mapsto> x')\<rparr>" using x by (simp add: append_write_record_def upd_txn_def x'_def)
  have ls: "local_step t {wr_key w} x x' s (append_write_record w t s)" unfolding s'
    using x w(1) by (auto simp: local_step_def same_clock_def keeps_txn_def x'_def find_append split: option.split)
  have "touched (wr_key w) t x x' s (append_write_record w t s)" unfolding s' touched_def
    using st w by (auto simp: x'_def find_append first_image_def split: option.split intro!: exI [of _ st] exI [of _ "ts_is_deleted st"])
  then show ?thesis using touched_kept [OF inv ls] by (simp add: x'_def)
qed

lemma heap_kept:
  assumes inv: "tm_inv s" and g: "growing t s" and k: "owner s k = t" "k \<in> wr_keys (txn_of t s)" and R: "\<And>k'. k' \<in> reserved s \<Longrightarrow> k' \<noteq> k \<Longrightarrow> k' \<in> R"
  shows "snapshots_kept (Some t) s (s\<lparr>heap := (heap s)(k \<mapsto> new), reserved := R\<rparr>)" (is "snapshots_kept (Some t) s ?s")
proof -
  obtain x where x: "txn_map s t = Some x" "txn_state_of x = GROWING" using g by (auto simp: growing_def)
  have t: "0 \<le> t" using tm_invD(5) [OF inv x(1)] by (simp add: txn_ok_def)
  obtain st where st: "tuple_states s k = Some st" "ts_owner st = t" using k(1) t by (auto simp: owner_def split: option.splits)
  have ls: "local_step t {k} x x s ?s" using x k(1) R by (auto simp: local_step_def same_clock_def keeps_txn_refl)
  have "touched k t x x s ?s" unfolding touched_def using st k(2) x(1) by (auto simp: txn_of_simp intro!: exI [of _ st] exI [of _ "ts_is_deleted st"])
  then show ?thesis using touched_kept [OF inv ls] by simp
qed

lemma free_slot_no_state:
  assumes "tm_inv s" "heap s k = None" "k \<notin> reserved s"
  shows "tuple_states s k = None"
proof (rule ccontr)
  assume "tuple_states s k \<noteq> None"
  then obtain st where "tuple_states s k = Some st" by blast
  then show False using tm_invD(6) [OF assms(1), of k st] assms(2,3)
    by (auto simp: state_ok_def stable_ok_def owned_ok_def insert_ok_def update_ok_def split: if_splits)
qed

lemma insert_kept:
  assumes inv: "tm_inv s" and g: "growing t s" and k: "heap s k = None" "k \<notin> reserved s"
    and wr_def: "wr = \<lparr>wr_type = INSERT_TUPLE, wr_key = k, wr_old = None, wr_new = Some new\<rparr>"
  shows "snapshots_kept (Some t) s (append_write_record wr t (RecordInsert k t (s\<lparr>reserved := insert k (reserved s)\<rparr>)))" (is "snapshots_kept (Some t) s ?s")
proof -
  obtain x where x: "txn_map s t = Some x" "txn_state_of x = GROWING" using g by (auto simp: growing_def)
  have t: "0 \<le> t" "distinct (map fst (tuple_write_states x))" "\<And>k. k \<in> fst ` set (tuple_write_states x) \<or> k \<in> wr_keys x \<Longrightarrow> owner s k = t" using tm_invD(5) [OF inv x(1)] by (auto simp: txn_ok_def)
  have no: "tuple_states s k = None" by (rule free_slot_no_state [OF inv k])
  have ow: "owner s k = INVALID_TXN_ID" using no by (simp add: owner_def)
  have f: "k \<notin> fst ` set (tuple_write_states x)" "k \<notin> wr_keys x" using t(1) t(3) [of k] ow by auto
  define w where "w = \<lparr>inserted_by_txn = True, has_before_state = False, before_first_write = TupleState_new\<rparr>"
  define x' where "x' = x\<lparr>tuple_write_states := (k, w) # filter (\<lambda>e. fst e \<noteq> k) (tuple_write_states x), write_set := write_set x @ [wr]\<rparr>"
  let ?st = "\<lparr>ts_commit_ts = INVALID_TS, ts_owner = t, ts_is_deleted = False, ts_undo_head = None\<rparr>"
  have "\<not> HasTupleWriteState k x" using f(1) by (simp add: HasTupleWriteState_def map_of_eq_None_iff)
  then have s': "?s = s\<lparr>reserved := insert k (reserved s), mvcc_files := insert (tk_fd k) (mvcc_files s), txn_map := (txn_map s)(t \<mapsto> x'), tuple_states := (tuple_states s)(k \<mapsto> ?st),
      publication_epoch := (publication_epoch s)(TupleStateShardIndex k := Suc (publication_epoch s (TupleStateShardIndex k)))\<rparr>"
    using x by (simp add: RecordInsert_def append_write_record_def upd_txn_def AssignTupleStateLocked_def bump_publication_def set_state_def MarkHasMvccState_def txn_of_def SetTupleWriteState_def x'_def w_def)
  have mf: "map_of (filter (\<lambda>e. fst e \<noteq> k) ys) k' = map_of ys k'" if "k' \<noteq> k" for k' ys using that by (induction ys) auto
  have ls: "local_step t {k} x x' s ?s" unfolding s' using x ow by (auto simp: local_step_def same_clock_def keeps_txn_def x'_def wr_def mf find_append split: option.split)
  have nf: "List.find (\<lambda>w. wr_key w = k) (write_set x) = None" using find_wr_keys [of k x] f(2) by blast
  have "insert_ok ?s k ?st x'" unfolding insert_ok_def base_ok_def s' using x(2) nf by (simp add: x'_def wr_def find_append first_image_def wr_keys_def)
  then have so: "state_ok ?s k ?st" using t(1) x(2) unfolding state_ok_def owned_ok_def s' by (simp add: x'_def w_def active_def)
  have "distinct (map fst (tuple_write_states x'))" using t(2) by (auto simp: x'_def distinct_map_filter)
  then have i: "tm_inv ?s" by (intro local_inv [OF inv ls]) (use so in \<open>auto simp: s' owner_def\<close>)
  have "committed_at k r s = Ret None \<and> committed_at k r ?s = Ret None" for r using no k(1) t(1) by (simp add: committed_at_def s' walk_head_def)
  then have "keeps_committed s ?s" by (intro local_committed [OF inv ls i]) auto
  then show ?thesis by (rule local_kept [OF inv ls i])
qed

subsection \<open>Writes that are taken back\<close>

text \<open>The tuple gets its earlier state and record back.\<close>

lemma restored_ok:
  assumes inv: "tm_inv s" and x: "txn_map s t = Some x" and st: "tuple_states s k = Some st" "ts_owner st = t" and w: "map_of (tuple_write_states x) k = Some w"
    and e: "ext s s'" "last_commit_ts s \<le> last_commit_ts s'" "mvcc_files s \<subseteq> mvcc_files s'" "clock_ok s'"
    and h: "\<And>b. base_ok s x k b \<Longrightarrow> heap s' k = b" and st': "tuple_states s' k = (if inserted_by_txn w then None else Some (before_first_write w))"
  shows "tuple_states s' k = Some z \<Longrightarrow> state_ok s' k z"
    and "readable s r \<Longrightarrow> readable s' r \<Longrightarrow> 0 \<le> r \<Longrightarrow> \<exists>v. committed_at k r s = Ret v \<and> committed_at k r s' = Ret v"
proof -
  have tk: "0 \<le> t" "start_ts x \<le> last_commit_ts s" using tm_invD(5) [OF inv x] by (auto simp: txn_ok_def)
  note so = tm_invD(6) [OF inv st(1)]
  have ok: "if inserted_by_txn w then insert_ok s k st x else update_ok s k st t x (before_first_write w)" using so st(2) tk(1) x w by (auto simp: state_ok_def owned_ok_def)
  define b where "b = before_first_write w"
  have up: "update_ok s k st t x b" if "\<not> inserted_by_txn w" using ok that by (simp add: b_def)
  have upd: "state_ok s' k b \<and> (readable s r \<longrightarrow> readable s' r \<longrightarrow> 0 \<le> r \<longrightarrow> (\<exists>v. committed_at k r s = Ret v \<and> committed_at k r s' = Ret v))" if ni: "\<not> inserted_by_txn w" for r
  proof -
    obtain l u where l: "ts_undo_head st = Some l" "prev_txn l = t" "GetUndoLogOptional l s = Some u" "\<not> u_is_deleted u" "u_ts u = ts_commit_ts b" "prev_version u = link_of (ts_undo_head b)"
      "base_ok s x k (Some (u_record u))" using up [OF ni] by (auto simp: update_ok_def)
    have bb: "ts_owner b = INVALID_TXN_ID" "\<not> ts_is_deleted b" "0 \<le> ts_commit_ts b" "ts_commit_ts b \<le> start_ts x" "chain s (ts_commit_ts b) (link_of (ts_undo_head b))"
      using up [OF ni] by (auto simp: update_ok_def)
    have hb: "heap s' k = Some (u_record u)" and sb: "tuple_states s' k = Some b" using h [OF l(7)] st' ni by (auto simp: b_def)
    have "state_ok s' k b" using so bb hb e(2,3) tk(2) chain_ext [OF bb(5) e(1)] by (auto simp: state_ok_def stable_ok_def)
    moreover have "\<exists>v. committed_at k r s = Ret v \<and> committed_at k r s' = Ret v" if r: "readable s' r" "0 \<le> r"
    proof -
      have n: "nat (ts_commit_ts b) < nat (next_timestamp s) + 1" "nat (ts_commit_ts b) < nat (next_timestamp s') + 2"
        using bb(4) tk(2) tm_invD(1) [OF inv] e(2,4) unfolding clock_ok_def by linarith+
      have c: "committed_at k r s = (if ts_commit_ts b \<le> r then Ret (Some (u_record u)) else walk_versions (nat (next_timestamp s) + 1) (link_of (ts_undo_head b)) r s)"
        using l st tk(1) by (simp add: committed_at_def walk_head_def link_valid_def)
      have c': "committed_at k r s' = (if ts_commit_ts b \<le> r then Ret (Some (u_record u)) else walk_versions (nat (next_timestamp s') + 2) (link_of (ts_undo_head b)) r s')"
        using sb bb hb by (simp add: committed_at_def walk_head_link del: walk_versions.simps)
      show ?thesis unfolding c c' using walk_ext [OF bb(5) e(1) r(1) _ r(2) n] by (cases "ts_commit_ts b \<le> r") auto
    qed
    ultimately show ?thesis by blast
  qed
  show "tuple_states s' k = Some z \<Longrightarrow> state_ok s' k z" using st' upd by (auto simp: b_def split: if_splits)
  show "readable s r \<Longrightarrow> readable s' r \<Longrightarrow> 0 \<le> r \<Longrightarrow> \<exists>v. committed_at k r s = Ret v \<and> committed_at k r s' = Ret v"
  proof (cases "inserted_by_txn w")
    case True
    then have "heap s' k = None" "ts_undo_head st = None" using ok h by (auto simp: insert_ok_def)
    then show ?thesis using True st st' tk(1) by (simp add: committed_at_def walk_head_def)
  qed (use upd in blast)
qed

text \<open>The tuples a transaction has recorded are those it owns.\<close>

lemma recorded_owned:
  assumes inv: "tm_inv s" and x: "txn_map s t = Some x" "txn_state_of x \<noteq> ABORTED"
  shows "k \<in> fst ` set (tuple_write_states x) \<longleftrightarrow> owner s k = t"
proof
  show "owner s k = t" if "k \<in> fst ` set (tuple_write_states x)" using that tm_invD(5) [OF inv x(1)] by (auto simp: txn_ok_def)
  assume o: "owner s k = t"
  have "0 \<le> t" using tm_invD(5) [OF inv x(1)] by (simp add: txn_ok_def)
  then obtain st where st: "tuple_states s k = Some st" "ts_owner st = t" "ts_owner st \<noteq> INVALID_TXN_ID" using o by (auto simp: owner_def split: option.splits)
  then have "map_of (tuple_write_states x) k \<noteq> None" using tm_invD(6) [OF inv st(1)] x by (auto simp: state_ok_def owned_ok_def)
  then show "k \<in> fst ` set (tuple_write_states x)" by (metis map_of_eq_None_iff)
qed

lemma restore_kept:
  assumes inv: "tm_inv s" and x: "txn_map s t = Some x" "txn_state_of x = GROWING" and k: "k \<notin> wr_keys x"
  defines "s' \<equiv> RestoreTupleStateForStatement k t s"
  shows "snapshots_kept (Some t) s s'" "\<exists>x'. txn_map s' t = Some x' \<and> txn_state_of x' = GROWING \<and> write_set x' = write_set x" "owner s' k \<noteq> t" "\<And>k'. owner s k' \<noteq> t \<Longrightarrow> owner s' k' \<noteq> t"
proof -
  have t: "0 \<le> t" "distinct (map fst (tuple_write_states x))" using tm_invD(5) [OF inv x(1)] by (auto simp: txn_ok_def)
  note ro = recorded_owned [OF inv x(1)]
  have "snapshots_kept (Some t) s s' \<and> (\<exists>x'. txn_map s' t = Some x' \<and> txn_state_of x' = GROWING \<and> write_set x' = write_set x) \<and> owner s' k \<noteq> t \<and> (\<forall>k'. owner s k' \<noteq> t \<longrightarrow> owner s' k' \<noteq> t)"
  proof (cases "map_of (tuple_write_states x) k")
    case None
    then have "s' = s" using x by (simp add: s'_def RestoreTupleStateForStatement_def txn_of_simp)
    moreover have "owner s k \<noteq> t" using None ro [of k] x(2) by (auto simp: map_of_eq_None_iff)
    ultimately show ?thesis using x snapshots_kept_refl [OF inv] by auto
  next
    case (Some w)
    have "owner s k = t" using ro [of k] map_of_SomeD [OF Some] x(2) by force
    then obtain st where st: "tuple_states s k = Some st" "ts_owner st = t" using t(1) by (auto simp: owner_def split: option.splits)
    have w: "has_before_state w" "\<not> inserted_by_txn w" "ts_owner (before_first_write w) = INVALID_TXN_ID"
      using tm_invD(6) [OF inv st(1)] st t(1) x(1) Some k by (auto simp: state_ok_def owned_ok_def insert_ok_def update_ok_def split: if_splits)
    define x' where "x' = EraseTupleWriteState k x"
    have s': "s' = s\<lparr>tuple_states := (tuple_states s)(k \<mapsto> before_first_write w), publication_epoch := publication_epoch s', txn_map := (txn_map s)(t \<mapsto> x')\<rparr>"
      using x Some w by (simp add: s'_def RestoreTupleStateForStatement_def txn_of_simp restore_state_def AssignTupleStateLocked_def bump_publication_def set_state_def upd_txn_def x'_def)
    have f: "txn_map s' = (txn_map s)(t \<mapsto> x')" "tuple_states s' = (tuple_states s)(k \<mapsto> before_first_write w)" "heap s' = heap s" "mvcc_files s' = mvcc_files s" "same_clock s s'" "reserved s' = reserved s"
      by (subst s', simp add: same_clock_def)+
    have mf: "map_of (filter (\<lambda>e. fst e \<noteq> k) ys) k' = map_of ys k'" if "k' \<noteq> k" for k' ys using that by (induction ys) auto
    have x': "txn_state_of x' = GROWING" "write_set x' = write_set x" using x(2) by (simp_all add: x'_def EraseTupleWriteState_def)
    have ls: "local_step t {k} x x' s s'" unfolding local_step_def f using x st f(5) by (auto simp: keeps_txn_def x'_def EraseTupleWriteState_def mf owner_def)
    have c: "last_commit_ts s \<le> last_commit_ts s'" "clock_ok s'" using f(5) tm_invD(1) [OF inv] local_active(1) [OF ls] by (auto simp: clock_ok_def same_clock_def)
    have h: "heap s' k = b" if "base_ok s x k b" for b using that k find_wr_keys [of k x] f(3) by (auto simp: base_ok_def split: option.splits)
    note r = restored_ok [OF inv x(1) st Some local_ext [OF ls] c(1) _ c(2) h]
    have "distinct (map fst (tuple_write_states x'))" using t(2) by (simp add: x'_def EraseTupleWriteState_def distinct_map_filter)
    then have i: "tm_inv s'" by (intro local_inv [OF inv ls]) (use r(1) f w(2) k in \<open>auto simp: x'_def EraseTupleWriteState_def wr_keys_def\<close>)
    have "keeps_committed s s'" using r(2) f w(2) local_active(6) [OF ls] by (intro local_committed [OF inv ls i]) auto
    then have "snapshots_kept (Some t) s s'" by (rule local_kept [OF inv ls i])
    then show ?thesis using f(1,2) x' w(3) t(1) by (auto simp: owner_def)
  qed
  then show "snapshots_kept (Some t) s s'" "\<exists>x'. txn_map s' t = Some x' \<and> txn_state_of x' = GROWING \<and> write_set x' = write_set x" "owner s' k \<noteq> t" "\<And>k'. owner s k' \<noteq> t \<Longrightarrow> owner s' k' \<noteq> t" by blast+
qed

lemma shard_index_less: "TupleStateShardIndex k < kTupleStateShardCount"
proof -
  have "TupleStateShardHash k AND 63 \<le> 63" by (simp add: word_and_le1)
  then have "unat (TupleStateShardHash k AND 63) \<le> unat (63 :: 64 word)" by (simp only: word_le_nat_alt)
  then show ?thesis by (simp add: TupleStateShardIndex_def kTupleStateShardCount_def)
qed

lemma set_by_shard [simp]: "set (by_shard ks) = set ks"
  using shard_index_less by (auto simp: by_shard_def)

lemma distinct_by_shard: "distinct ks \<Longrightarrow> distinct (by_shard ks)"
proof -
  assume "distinct ks"
  then have "distinct (concat (map (\<lambda>i. filter (\<lambda>k. TupleStateShardIndex k = i) ks) is))" if "distinct is" for "is"
    using that by (induction "is") auto
  then show ?thesis by (simp add: by_shard_def)
qed

lemma flags_kept:
  assumes "tm_inv s" "growing t s"
  shows "snapshots_kept (Some t) s (fold (restore_flag t) cs s) \<and> txn_map (fold (restore_flag t) cs s) = txn_map s"
  using assms
proof (induction cs arbitrary: s)
  case (Cons c cs)
  have "snapshots_kept (Some t) s (restore_flag t c s) \<and> txn_map (restore_flag t c s) = txn_map s"
  proof (cases "\<exists>st. tuple_states s (fst c) = Some st \<and> ts_owner st = t")
    case True
    then obtain st where st: "tuple_states s (fst c) = Some st" "ts_owner st = t" by blast
    then have e: "restore_flag t c s = s\<lparr>mvcc_files := mvcc_files s, tuple_states := (tuple_states s)(fst c \<mapsto> st\<lparr>ts_is_deleted := snd c\<rparr>), publication_epoch := publication_epoch (restore_flag t c s)\<rparr>"
      by (simp add: restore_flag_def bump_publication_def set_state_def)
    have "txn_map (restore_flag t c s) = txn_map s" by (subst e) simp
    then show ?thesis using flag_kept [OF Cons.prems st e] by simp
  next
    case False
    then show ?thesis using snapshots_kept_refl [OF Cons.prems(1)] by (auto simp: restore_flag_def split: option.splits)
  qed
  moreover from this have "tm_inv (restore_flag t c s)" "growing t (restore_flag t c s)" using Cons.prems(2) by (auto simp: snapshots_kept_def growing_def)
  ultimately show ?case using Cons.IH [of "restore_flag t c s"] snapshots_kept_trans by auto
qed (simp add: snapshots_kept_refl)

lemma restores_kept:
  assumes "tm_inv s" "txn_map s t = Some x" "txn_state_of x = GROWING" "set ks \<inter> wr_keys x = {}"
  shows "snapshots_kept (Some t) s (fold (\<lambda>k. RestoreTupleStateForStatement k t) ks s) \<and> (\<forall>k. k \<in> set ks \<or> owner s k \<noteq> t \<longrightarrow> owner (fold (\<lambda>k. RestoreTupleStateForStatement k t) ks s) k \<noteq> t)"
  using assms
proof (induction ks arbitrary: s x)
  case (Cons k ks)
  let ?s = "RestoreTupleStateForStatement k t s"
  have k: "k \<notin> wr_keys x" using Cons.prems(4) by simp
  note r = restore_kept [OF Cons.prems(1-3) k]
  obtain x' where x': "txn_map ?s t = Some x'" "txn_state_of x' = GROWING" "write_set x' = write_set x" using r(2) by blast
  have "tm_inv ?s" "set ks \<inter> wr_keys x' = {}" using r(1) Cons.prems(4) x'(3) by (auto simp: snapshots_kept_def wr_keys_def)
  then show ?case using Cons.IH [OF _ x'(1,2)] r(1,3,4) snapshots_kept_trans by auto
qed (simp add: snapshots_kept_refl)

lemma release_none: "(\<And>k. k \<in> set ks \<Longrightarrow> owner s k \<noteq> t) \<Longrightarrow> fold (release_owner t) ks s = s"
proof (induction ks)
  case (Cons k ks)
  have "release_owner t k s = s" using Cons.prems [of k] by (cases "tuple_states s k") (simp_all add: release_owner_def owner_def)
  then show ?case using Cons by simp
qed simp

lemma rollback_kept:
  assumes inv: "tm_inv s" and g: "growing t s" and k: "set registered \<inter> wr_keys (txn_of t s) = {}" "set acq \<subseteq> set registered"
  shows "snapshots_kept (Some t) s (statement_rollback flags registered acq t s)"
proof -
  obtain x where x: "txn_map s t = Some x" "txn_state_of x = GROWING" using g by (auto simp: growing_def)
  define s1 where "s1 = RestoreOwnedTupleFlags flags t s"
  define s2 where "s2 = fold (\<lambda>k. RestoreTupleStateForStatement k t) (rev registered) s1"
  have s1: "snapshots_kept (Some t) s s1" "txn_map s1 = txn_map s" using flags_kept [OF inv g] by (simp_all add: s1_def RestoreOwnedTupleFlags_def)
  have "tm_inv s1" "set (rev registered) \<inter> wr_keys x = {}" using s1(1) k(1) x(1) by (simp_all add: snapshots_kept_def txn_of_simp)
  then have s2: "snapshots_kept (Some t) s1 s2 \<and> (\<forall>k \<in> set registered. owner s2 k \<noteq> t)" using restores_kept [of s1 t x "rev registered"] x s1(2) by (simp add: s2_def)
  then have "ReleaseWriteOwners acq t s2 = s2" using k(2) release_none [of "by_shard acq" s2 t] by (auto simp: ReleaseWriteOwners_def)
  then show ?thesis using s1(1) s2 snapshots_kept_trans by (simp add: statement_rollback_def s1_def s2_def)
qed

end
