(* ===== verification/Rmdb_Mvcc_Txn.thy ===== *)
theory Rmdb_Mvcc_Txn
  imports Rmdb_Mvcc_Writes
begin

text \<open>The steps that begin, commit and abort a transaction.\<close>

subsection \<open>The watermark\<close>

lemma running_step:
  assumes "txn_step t K x' s s'"
  shows "running s' = (if active x' s' then insert t (running s) else running s - {t})"
proof -
  note d = txn_stepD [OF assms]
  have "t' \<in> running s' \<longleftrightarrow> (if t' = t then active x' s' else t' \<in> running s)" for t'
  proof (cases "t' = t")
    case False
    have "txn_map s' t' = txn_map s t'" "\<And>y. txn_map s t' = Some y \<Longrightarrow> active y s' = active y s" using d(1,5) False by blast+
    then show ?thesis using False unfolding running_def by (cases "txn_map s t'") simp_all
  qed (use d(2) in \<open>simp add: running_def\<close>)
  then show ?thesis by (intro set_eqI) simp
qed

lemma wm_step:
  assumes inv: "tm_inv s" and st: "txn_step t K x' s s'" and w: "wm_inv (running_txns s')" "wm_commit_ts (running_txns s') \<le> last_commit_ts s'"
    and b: "bag (current_reads (running_txns s')) =
      (case txn_map s t of None \<Rightarrow> if active x' s' then add_mset (last_commit_ts s) (bag (current_reads (running_txns s))) else bag (current_reads (running_txns s))
       | Some x \<Rightarrow> if active x' s' then bag (current_reads (running_txns s)) else bag (current_reads (running_txns s)) - {#start_ts x#})"
  shows "wm_ok s'"
proof -
  note d = txn_stepD [OF st] and ok = tm_invD(2) [OF inv]
  let ?f = "\<lambda>s t'. start_ts (txn_of t' s)"
  have dom: "dom (txn_map s') = insert t (dom (txn_map s))" using d(1,2) by (auto simp: dom_def) metis+
  have fin: "finite (running s)" using ok by (auto simp: wm_ok_def running_def dom_def intro: finite_subset [rotated])
  have f: "?f s' t' = ?f s t'" if "t' \<noteq> t" for t' using d(1) [OF that] by (simp add: txn_of_def)
  then have im: "image_mset (?f s') (mset_set (running s - {t})) = image_mset (?f s) (mset_set (running s - {t}))" using fin by (intro image_mset_cong) auto
  have old: "image_mset (?f s) (mset_set (running s)) = bag (current_reads (running_txns s))" using ok by (simp add: wm_ok_def)
  have ft: "?f s' t = start_ts x'" using d(2) by (simp add: txn_of_def)
  have "image_mset (?f s') (mset_set (running s')) = bag (current_reads (running_txns s'))"
  proof (cases "txn_map s t")
    case None
    then have "t \<notin> running s" by (simp add: running_def)
    then show ?thesis using None running_step [OF st] im old ft fin b d(4) by (auto simp: mset_set.insert)
  next
    case (Some x)
    have t: "t \<in> running s" "?f s t = start_ts x" "start_ts x' = start_ts x" using Some d(3) by (auto simp: running_def txn_of_def)
    have rem: "image_mset g (mset_set (running s)) = add_mset (g t) (image_mset g (mset_set (running s - {t})))" for g :: "txn_id_t \<Rightarrow> timestamp_t"
      using fin t(1) by (simp add: mset_set.remove)
    show ?thesis using Some running_step [OF st] im old [symmetric] ft b t rem [of "?f s"] rem [of "?f s'"] by (auto simp: insert_absorb)
  qed
  then show ?thesis using w dom ok by (simp add: wm_ok_def)
qed

lemma wm_bag:
  assumes "wm_inv w"
  shows "wm_inv (AddTxn r w)" "bag (current_reads (AddTxn r w)) = add_mset r (bag (current_reads w))" "wm_commit_ts (AddTxn r w) = wm_commit_ts w"
    "wm_inv (RemoveTxn r w)" "bag (current_reads (RemoveTxn r w)) = bag (current_reads w) - {#r#}" "wm_commit_ts (RemoveTxn r w) = wm_commit_ts w"
    "wm_inv (UpdateCommitTs ts w)" "bag (current_reads (UpdateCommitTs ts w)) = bag (current_reads w)" "wm_commit_ts (UpdateCommitTs ts w) = max ts (wm_commit_ts w)"
  using wm_apply_refines [OF assms, of "OpAdd r"] wm_apply_refines [OF assms, of "OpRemove r"] wm_apply_refines [OF assms, of "OpCommit ts"]
  by (simp_all add: wm_abs_def)

subsection \<open>Begin\<close>

lemma begin_step:
  assumes inv: "tm_inv s" and b: "tm_begin s = (Ret t, s')"
  shows "tm_inv s'" "keeps_committed s s'" "others_kept (Some t) s s'" "growing t s'" "txn_map s t = None"
proof -
  define x' where "x' = Transaction_new\<lparr>txn_state_of := GROWING, start_ts := last_commit_ts s\<rparr>"
  have s': "t = next_txn_id s" "s' = s\<lparr>active_txn_count := Suc (active_txn_count s), next_txn_id := t + 1, running_txns := AddTxn (last_commit_ts s) (running_txns s), txn_map := (txn_map s)(t \<mapsto> x')\<rparr>"
    using b by (auto simp: tm_begin_def x'_def Let_def split: if_splits)
  have no: "txn_map s t = None" using tm_invD(5) [OF inv, of t] s'(1) by (cases "txn_map s t") (auto simp: txn_ok_def)
  have x': "txn_state_of x' = GROWING" "start_ts x' = last_commit_ts s" "tuple_write_states x' = []" "write_set x' = []" by (simp_all add: x'_def Transaction_new_def)
  have p: "pub_ts s' = pub_ts s" by (simp add: pub_ts_def s')
  have st: "txn_step t {} x' s s'" using no x' p by (auto simp: txn_step_def s')
  note c = tm_invD(1) [OF inv] and w = tm_invD(2) [OF inv]
  have c': "clock_ok s'" using c p s'(1) by (simp add: clock_ok_def s'(2))
  have w': "wm_ok s'" using w no x'(1) wm_bag(1-3) [of "running_txns s"] by (intro wm_step [OF inv st]) (auto simp: s'(2) wm_ok_def growing_active)
  have own: "txn_ok s' t x'" using c x' s' growing_active [OF x'(1), of s'] active_not_finished [of x' s'] by (simp add: txn_ok_def clock_ok_def wr_keys_def)
  show i: "tm_inv s'" by (rule txn_step_inv [OF inv st c' w' own]) (use x' p no in auto)
  show "keeps_committed s s'" by (rule txn_step_committed [OF inv st i]) simp
  show "others_kept (Some t) s s'" by (rule txn_step_others [OF inv st])
  show "growing t s'" "txn_map s t = None" using s' x' no by (simp_all add: growing_def)
qed

subsection \<open>The phases of a commit\<close>

lemma insort_last: "(\<And>e. e \<in> set xs \<Longrightarrow> f e < f y) \<Longrightarrow> insort_key f y xs = xs @ [y]"
proof (induction xs)
  case (Cons x xs)
  have "\<not> f y \<le> f x" using Cons.prems [of x] by simp
  then show ?case using Cons.IH Cons.prems by simp
qed simp

text \<open>The end of the first phase.\<close>

definition committing :: "bool \<Rightarrow> timestamp_t \<Rightarrow> tuple_key list \<Rightarrow> transaction \<Rightarrow> transaction" where
  "committing ok ts g x = x\<lparr>tuple_state_gc_keys := g, commit_ts := if ok then ts else INVALID_TS, txn_state_of := if ok then SHRINKING else txn_state_of x\<rparr>"

lemma commit_begin_eq:
  assumes inv: "tm_inv s" and x: "txn_map s t = Some x" "txn_state_of x = GROWING" and b: "commit_begin ok t s = (r, s')"
  shows "r = (if ok then Ret () else Throw TransactionAbortException)
    \<and> (\<exists>g. s' = s\<lparr>pending_committed_deletes := pending_committed_deletes s', next_timestamp := next_timestamp s + 1,
             commit_publications := commit_publications s @ (if ok then [(next_timestamp s, False)] else []), txn_map := (txn_map s)(t \<mapsto> committing ok (next_timestamp s) g x)\<rparr>)"
proof -
  have c: "\<And>e. e \<in> set (commit_publications s) \<Longrightarrow> fst e < next_timestamp s" "last_commit_ts s < next_timestamp s" using tm_invD(1) [OF inv] by (auto simp: clock_ok_def pub_ts_def)
  have m: "map_of (commit_publications s) (next_timestamp s) = None" using c(1) by (force simp: map_of_eq_None_iff)
  then have r: "ReserveCommitTimestamp s2 = (Ret (next_timestamp s), s2\<lparr>commit_publications := commit_publications s @ [(next_timestamp s, False)], next_timestamp := next_timestamp s + 1\<rparr>)"
    if "commit_publications s2 = commit_publications s" "next_timestamp s2 = next_timestamp s" "last_commit_ts s2 = last_commit_ts s" for s2
    using that c insort_last [of "commit_publications s" fst "(next_timestamp s, False)"] by (auto simp: ReserveCommitTimestamp_def Let_def)
  have f: "filter (\<lambda>e. fst e \<noteq> next_timestamp s) (commit_publications s) = commit_publications s" using c(1) by (intro filter_True) force
  define s1 where "s1 = upd_txn t (\<lambda>x. x\<lparr>tuple_state_gc_keys := by_shard (map fst (tuple_write_states x))\<rparr>) s"
  define s2 where "s2 = (if filter (owned_deleted t s1) (by_shard (map fst (tuple_write_states x))) \<noteq> [] \<and> vacuum_tracking_active s1
    then s1\<lparr>pending_committed_deletes := fold List.insert (filter (owned_deleted t s1) (by_shard (map fst (tuple_write_states x)))) (pending_committed_deletes s1)\<rparr> else s1)"
  have e2: "s2 = s\<lparr>txn_map := (txn_map s)(t \<mapsto> x\<lparr>tuple_state_gc_keys := by_shard (map fst (tuple_write_states x))\<rparr>), pending_committed_deletes := pending_committed_deletes s2\<rparr>"
    using x by (simp add: s2_def s1_def upd_txn_def)
  have q: "commit_publications s2 = commit_publications s" "next_timestamp s2 = next_timestamp s" "last_commit_ts s2 = last_commit_ts s" "txn_map s2 t = Some (x\<lparr>tuple_state_gc_keys := by_shard (map fst (tuple_write_states x))\<rparr>)"
    by (subst e2, simp)+
  have s1: "s1 = upd_txn t (\<lambda>xa. xa\<lparr>tuple_state_gc_keys := by_shard (map fst (tuple_write_states x))\<rparr>) s" using x by (simp add: s1_def upd_txn_def)
  have bb: "commit_begin ok t s = obind ReserveCommitTimestamp (\<lambda>ts s3.
      let s4 = upd_txn t (\<lambda>x. x\<lparr>commit_ts := ts\<rparr>) s3
      in if ok then (Ret (), upd_txn t (\<lambda>x. x\<lparr>txn_state_of := SHRINKING\<rparr>) s4)
         else obind (CancelCommitTimestamp ts) (\<lambda>_ s5. (Throw TransactionAbortException, upd_txn t (\<lambda>x. x\<lparr>commit_ts := INVALID_TS\<rparr>) s5)) s4) s2"
    unfolding commit_begin_def txn_of_simp [OF x(1)] s1 [symmetric] Let_def s2_def using x(2) by simp
  define s3 where "s3 = s2\<lparr>commit_publications := commit_publications s @ [(next_timestamp s, False)], next_timestamp := next_timestamp s + 1\<rparr>"
  have b3: "ReserveCommitTimestamp s2 = (Ret (next_timestamp s), s3)" using r [OF q(1-3)] by (simp add: s3_def)
  define s4 where "s4 = upd_txn t (\<lambda>x. x\<lparr>commit_ts := next_timestamp s\<rparr>) s3"
  have s4: "CancelCommitTimestamp (next_timestamp s) s4 = (Ret (), s4\<lparr>commit_publications := commit_publications s\<rparr>)" 
    using m f by (simp add: CancelCommitTimestamp_def s4_def s3_def upd_txn_def map_add_def)
  have "r = (if ok then Ret () else Throw TransactionAbortException) \<and> s' = (if ok then upd_txn t (\<lambda>x. x\<lparr>txn_state_of := SHRINKING\<rparr>) s4 else upd_txn t (\<lambda>x. x\<lparr>commit_ts := INVALID_TS\<rparr>) (s4\<lparr>commit_publications := commit_publications s\<rparr>))"
    using b unfolding bb obind_def b3 Let_def prod.case outcome.case s4_def [symmetric] s4 by (cases ok) simp_all
  moreover have "s4 = s\<lparr>pending_committed_deletes := pending_committed_deletes s2, next_timestamp := next_timestamp s + 1, commit_publications := commit_publications s @ [(next_timestamp s, False)],
      txn_map := (txn_map s)(t \<mapsto> x\<lparr>tuple_state_gc_keys := by_shard (map fst (tuple_write_states x)), commit_ts := next_timestamp s\<rparr>)\<rparr>"
    unfolding s4_def upd_txn_def s3_def by (subst (1 2 3) e2) simp
  ultimately show ?thesis by (cases ok) (auto simp: upd_txn_def committing_def intro!: exI [of _ "by_shard (map fst (tuple_write_states x))"])
qed

text \<open>Commit timestamps that are in use lie below the next one.\<close>

lemma commit_ts_less:
  assumes inv: "tm_inv s" and y: "txn_map s t = Some y" "txn_state_of y \<in> {SHRINKING, COMMITTED}"
  shows "commit_ts y < next_timestamp s"
  using tm_invD(1) [OF inv] tm_invD(5) [OF inv y(1)] y(2) by (force simp: clock_ok_def txn_ok_def)

lemma commit_ts_distinct:
  "tm_inv s \<Longrightarrow> txn_map s t = Some x \<Longrightarrow> txn_map s t' = Some y \<Longrightarrow> txn_state_of x \<in> {SHRINKING, COMMITTED} \<Longrightarrow> txn_state_of y \<in> {SHRINKING, COMMITTED} \<Longrightarrow> t' \<noteq> t \<Longrightarrow>
     commit_ts y \<noteq> commit_ts x"
  using tm_invD(3) unfolding commits_distinct_def by blast

lemma unwritten_insert:
  assumes inv: "tm_inv s" and x: "txn_map s t = Some x" and k: "owner s k = t" "heap s k = None"
  shows "k \<in> wr_keys x" "txn_state_of x = GROWING"
proof -
  have "0 \<le> t" using tm_invD(5) [OF inv x] by (simp add: txn_ok_def)
  then obtain st where st: "tuple_states s k = Some st" "ts_owner st = t" "t \<noteq> INVALID_TXN_ID" using k(1) by (auto simp: owner_def split: option.splits)
  have "owned_ok s k st t x" using tm_invD(6) [OF inv st(1)] st x by (auto simp: state_ok_def)
  then show "k \<in> wr_keys x" "txn_state_of x = GROWING" using k(2) by (auto simp: owned_ok_def insert_ok_def update_ok_def split: if_splits)
qed

lemma commit_begin_step:
  assumes inv: "tm_inv s" and x: "txn_map s t = Some x" "txn_state_of x = GROWING" and h: "\<And>k. k \<in> wr_keys x \<Longrightarrow> heap s k \<noteq> None" and b: "commit_begin ok t s = (r, s')"
  shows "tm_inv s'" "keeps_committed s s'" "others_kept (Some t) s s'"
proof -
  obtain g where s': "s' = s\<lparr>pending_committed_deletes := pending_committed_deletes s', next_timestamp := next_timestamp s + 1,
      commit_publications := commit_publications s @ (if ok then [(next_timestamp s, False)] else []), txn_map := (txn_map s)(t \<mapsto> committing ok (next_timestamp s) g x)\<rparr>"
    using commit_begin_eq [OF inv x b] by blast
  define x' where "x' = committing ok (next_timestamp s) g x"
  have f: "txn_map s' = (txn_map s)(t \<mapsto> x')" "tuple_states s' = tuple_states s" "heap s' = heap s" "reserved s' = reserved s" "mvcc_files s' = mvcc_files s" "last_commit_ts s' = last_commit_ts s"
    "next_timestamp s' = next_timestamp s + 1" "next_txn_id s' = next_txn_id s" "running_txns s' = running_txns s" "reclaimable_txns s' = reclaimable_txns s" "pending_delete_txns s' = pending_delete_txns s"
    "map fst (commit_publications s') = map fst (commit_publications s) @ (if ok then [next_timestamp s] else [])" by (subst s', simp add: x'_def)+
  have p: "pub_ts s' = (if ok then insert (next_timestamp s) (pub_ts s) else pub_ts s)" using arg_cong [OF f(12), of set] by (simp add: pub_ts_def)
  have x': "start_ts x' = start_ts x" "undo_logs x' = undo_logs x" "tuple_write_states x' = tuple_write_states x" "write_set x' = write_set x" "txn_state_of x' = (if ok then SHRINKING else GROWING)"
    "ok \<Longrightarrow> commit_ts x' = next_timestamp s" by (simp_all add: x'_def committing_def x(2))
  have a: "active x' s'" "active x s" using x'(5) x(2) by (auto simp: active_def)
  have k: "ok \<Longrightarrow> heap s k = None \<Longrightarrow> owner s k \<noteq> t" for k using unwritten_insert(1) [OF inv x(1)] h by blast
  have "commit_ts y \<noteq> next_timestamp s" if "txn_map s t' = Some y" "txn_state_of y \<in> {SHRINKING, COMMITTED}" for t' y using commit_ts_less [OF inv that] by simp
  then have st: "txn_step t {} x' s s'" unfolding txn_step_def p f using x a x'(1-5) k by (auto simp: keeps_txn_def)
  note c = tm_invD(1) [OF inv] and w = tm_invD(2) [OF inv] and o = tm_invD(5) [OF inv x(1)]
  have cp: "\<And>ts. ts \<in> pub_ts s \<Longrightarrow> ts < next_timestamp s" using c by (simp add: clock_ok_def)
  then have "sorted_wrt (<) (map fst (commit_publications s'))" unfolding f(12) using c by (auto simp: clock_ok_def sorted_wrt_append pub_ts_def)
  then have c': "clock_ok s'" using c unfolding clock_ok_def p f by auto
  have w': "wm_ok s'" using w x(1) a by (intro wm_step [OF inv st]) (auto simp: f wm_ok_def)
  have own: "txn_ok s' t x'" using o x' f p a active_not_finished [OF a(1)] by (auto simp: txn_ok_def wr_keys_def owner_def)
  show i: "tm_inv s'" by (rule txn_step_inv [OF inv st c' w' own]) (use x x'(5,6) p commit_ts_less [OF inv] in \<open>force split: if_splits\<close>)+
  show "keeps_committed s s'" by (rule txn_step_committed [OF inv st i]) simp
  show "others_kept (Some t) s s'" by (rule txn_step_others [OF inv st])
qed

lemma commit_durable_step:
  assumes inv: "tm_inv s" and x: "txn_map s t = Some x" "txn_state_of x = SHRINKING"
  shows "tm_inv (commit_durable t s)" "keeps_committed s (commit_durable t s)" "others_kept (Some t) s (commit_durable t s)"
proof -
  define x' where "x' = x\<lparr>txn_state_of := COMMITTED\<rparr>"
  define s' where "s' = commit_durable t s"
  have s': "s' = s\<lparr>txn_map := (txn_map s)(t \<mapsto> x')\<rparr>" using x by (simp add: s'_def commit_durable_def upd_txn_def x'_def)
  have p: "pub_ts s' = pub_ts s" by (simp add: s' pub_ts_def)
  note c = tm_invD(1) [OF inv] and w = tm_invD(2) [OF inv] and o = tm_invD(5) [OF inv x(1)]
  have cp: "commit_ts x \<in> pub_ts s" using o x(2) by (simp add: txn_ok_def)
  then have a: "active x' s'" "active x s" using p x(2) by (auto simp: active_def x'_def)
  have st: "txn_step t {} x' s s'" unfolding txn_step_def p using x a by (auto simp: s' keeps_txn_def x'_def)
  have c': "clock_ok s'" using c p by (simp add: clock_ok_def s')
  have w': "wm_ok s'" using w x(1) a by (intro wm_step [OF inv st]) (auto simp: s' wm_ok_def)
  have own: "txn_ok s' t x'" using o p cp active_not_finished [OF a(1)] by (simp add: txn_ok_def s' wr_keys_def owner_def x'_def)
  have i: "tm_inv s'" by (rule txn_step_inv [OF inv st c' w' own]) (use x p commit_ts_distinct [OF inv x(1)] in \<open>auto simp: x'_def\<close>)
  have "keeps_committed s s'" by (rule txn_step_committed [OF inv st i]) simp
  then show "tm_inv (commit_durable t s)" "keeps_committed s (commit_durable t s)" "others_kept (Some t) s (commit_durable t s)" using i txn_step_others [OF inv st] by (simp_all add: s'_def)
qed

text \<open>Operations on one tuple state, applied to a list of keys.\<close>

definition keyed :: "(tuple_key \<Rightarrow> txn_manager \<Rightarrow> txn_manager) \<Rightarrow> (tuple_key \<Rightarrow> tuple_state option \<Rightarrow> tuple_state option) \<Rightarrow> bool" where
  "keyed f g \<longleftrightarrow> (\<forall>k s. f k s = s\<lparr>tuple_states := (tuple_states s)(k := g k (tuple_states s k)), publication_epoch := publication_epoch (f k s)\<rparr>)"

lemma keyed_fold:
  assumes "keyed f g" "distinct ks"
  shows "fold f ks s = s\<lparr>tuple_states := (\<lambda>k. if k \<in> set ks then g k (tuple_states s k) else tuple_states s k), publication_epoch := publication_epoch (fold f ks s)\<rparr>"
  using assms(2)
proof (induction ks arbitrary: s)
  case (Cons a ks)
  have a: "f a s = s\<lparr>tuple_states := (tuple_states s)(a := g a (tuple_states s a)), publication_epoch := publication_epoch (f a s)\<rparr>" using assms(1) unfolding keyed_def by blast
  then have t: "tuple_states (f a s) = (tuple_states s)(a := g a (tuple_states s a))" by (metis txn_manager.select_convs(7) txn_manager.surjective txn_manager.update_convs(7,8))
  have m: "(\<lambda>k. if k \<in> set ks then g k (tuple_states (f a s) k) else tuple_states (f a s) k) = (\<lambda>k. if k \<in> set (a # ks) then g k (tuple_states s k) else tuple_states s k)"
    using Cons.prems unfolding t by auto
  have "fold f (a # ks) s = (f a s)\<lparr>tuple_states := (\<lambda>k. if k \<in> set (a # ks) then g k (tuple_states s k) else tuple_states s k), publication_epoch := publication_epoch (fold f (a # ks) s)\<rparr>"
    using Cons.IH [of "f a s"] Cons.prems unfolding m by simp
  then show ?case by (subst (asm) a) simp
qed simp

definition published_state :: "txn_id_t \<Rightarrow> timestamp_t \<Rightarrow> tuple_state \<Rightarrow> tuple_state" where
  "published_state t ts st = (if ts_owner st = t then st\<lparr>ts_owner := INVALID_TXN_ID, ts_commit_ts := ts\<rparr> else st)"

lemma keyed_publish: "keyed (publish_state t ts) (\<lambda>k. map_option (published_state t ts))"
  unfolding keyed_def
proof (intro allI)
  fix k s
  show "publish_state t ts k s = s\<lparr>tuple_states := (tuple_states s)(k := map_option (published_state t ts) (tuple_states s k)), publication_epoch := publication_epoch (publish_state t ts k s)\<rparr>"
    by (cases "tuple_states s k") (auto simp: publish_state_def published_state_def bump_publication_def set_state_def fun_upd_idem)
qed

lemma flagged_publications:
  assumes "ts \<in> fst ` set ps"
  defines "P \<equiv> map (\<lambda>e. if fst e = ts then (ts, True) else e) ps"
  shows "map fst P = map fst ps" "map_of P ts = Some True" "filter (\<lambda>e. fst e \<noteq> ts) P = filter (\<lambda>e. fst e \<noteq> ts) ps" "P \<noteq> []" "fst (hd P) = fst (hd ps)"
proof -
  show "map fst P = map fst ps" "filter (\<lambda>e. fst e \<noteq> ts) P = filter (\<lambda>e. fst e \<noteq> ts) ps" unfolding P_def by (induction ps) auto
  show "map_of P ts = Some True" using assms(1) unfolding P_def by (induction ps) auto
  show "P \<noteq> []" "fst (hd P) = fst (hd ps)" using assms(1) unfolding P_def by (cases ps; auto)+
qed

lemma finish_active: "FinishActiveTransactionForCheckpoint s = s\<lparr>active_txn_count := active_txn_count s - 1\<rparr>"
  by (simp add: FinishActiveTransactionForCheckpoint_def)

text \<open>The second phase waits, or publishes.\<close>

definition publishing :: "txn_id_t \<Rightarrow> transaction \<Rightarrow> (nat \<Rightarrow> nat) \<Rightarrow> txn_manager \<Rightarrow> txn_manager" where
  "publishing t x e s =
     s\<lparr>commit_publications := filter (\<lambda>p. fst p \<noteq> commit_ts x) (commit_publications s), last_commit_ts := commit_ts x,
       tuple_states := (\<lambda>k. map_option (published_state t (commit_ts x)) (tuple_states s k)), publication_epoch := e,
       txn_map := (txn_map s)(t \<mapsto> x\<lparr>tuple_write_states := [], write_set := []\<rparr>), running_txns := RemoveTxn (start_ts x) (UpdateCommitTs (commit_ts x) (running_txns s)), active_txn_count := active_txn_count s - 1\<rparr>"

lemma commit_publish_eq:
  assumes inv: "tm_inv s" and x: "txn_map s t = Some x" "txn_state_of x = COMMITTED" "active x s" and b: "commit_publish t s = (r, s')"
  shows "if fst (hd (commit_publications s)) = commit_ts x then r = Ret () \<and> (\<exists>e. s' = publishing t x e s)
         else r = Wait \<and> (\<exists>P. map fst P = map fst (commit_publications s) \<and> s' = s\<lparr>commit_publications := P\<rparr>)"
proof -
  define ts where "ts = commit_ts x"
  define P where "P = map (\<lambda>e. if fst e = ts then (ts, True) else e) (commit_publications s)"
  have ts: "ts \<in> fst ` set (commit_publications s)" using x by (simp add: active_def pub_ts_def ts_def)
  note fp = flagged_publications [OF ts, folded P_def]
  let ?s1 = "s\<lparr>commit_publications := P\<rparr>"
  have m: "map_of (commit_publications s) ts \<noteq> None" using ts by (simp add: map_of_eq_None_iff)
  then have aw: "AwaitCommitPublicationTurn ts s = (if fst (hd (commit_publications s)) = ts then Ret () else Wait, ?s1)"
    using fp(5) by (simp add: AwaitCommitPublicationTurn_def Let_def P_def [symmetric])
  show ?thesis
  proof (cases "fst (hd (commit_publications s)) = ts")
    case False
    then have "commit_publish t s = (Wait, ?s1)" using aw by (simp add: commit_publish_def txn_of_simp [OF x(1)] Let_def ts_def)
    then show ?thesis using False b fp(1) by (auto simp: ts_def)
  next
    case True
    define keys where "keys = by_shard (map fst (tuple_write_states x))"
    have tk: "distinct (map fst (tuple_write_states x))" "0 \<le> t" using tm_invD(5) [OF inv x(1)] by (auto simp: txn_ok_def)
    have own: "k \<in> set keys \<longleftrightarrow> owner s k = t" for k using recorded_owned [OF inv x(1)] x(2) by (simp add: keys_def)
    have tt: "tuple_states ?s1 = tuple_states s" by simp
    obtain e where f: "fold (publish_state t ts) keys ?s1 = ?s1\<lparr>tuple_states := (\<lambda>k. if k \<in> set keys then map_option (published_state t ts) (tuple_states ?s1 k) else tuple_states ?s1 k), publication_epoch := e\<rparr>"
      using keyed_fold [OF keyed_publish, of keys t ts ?s1] tk(1) distinct_by_shard unfolding keys_def by blast
    have u: "map_option (published_state t ts) (tuple_states s k) = tuple_states s k" if "k \<notin> set keys" for k
      using that own [of k] by (cases "tuple_states s k") (auto simp: owner_def published_state_def)
    then have "(\<lambda>k. if k \<in> set keys then map_option (published_state t ts) (tuple_states s k) else tuple_states s k) = (\<lambda>k. map_option (published_state t ts) (tuple_states s k))" by auto
    then have f': "fold (publish_state t ts) keys ?s1 = ?s1\<lparr>tuple_states := (\<lambda>k. map_option (published_state t ts) (tuple_states s k)), publication_epoch := e\<rparr>" using f unfolding tt by simp
    define s3 where "s3 = upd_txn t (\<lambda>x. x\<lparr>write_set := []\<rparr>) (upd_txn t (\<lambda>x. x\<lparr>tuple_write_states := []\<rparr>) (fold (publish_state t ts) keys ?s1))"
    have s3: "s3 = s\<lparr>commit_publications := P, tuple_states := (\<lambda>k. map_option (published_state t ts) (tuple_states s k)), publication_epoch := e, txn_map := (txn_map s)(t \<mapsto> x\<lparr>tuple_write_states := [], write_set := []\<rparr>)\<rparr>"
      using x(1) by (simp add: s3_def f' upd_txn_def)
    define s4 where "s4 = s3\<lparr>commit_publications := filter (\<lambda>p. fst p \<noteq> ts) (commit_publications s), last_commit_ts := ts\<rparr>"
    have s4: "CompleteCommitPublication ts s3 = (Ret (), s4)" using fp True by (simp add: CompleteCommitPublication_def s3 s4_def)
    have "commit_publish t s = (Ret (), FinishActiveTransactionForCheckpoint (s4\<lparr>running_txns := RemoveTxn (start_ts (txn_of t s4)) (UpdateCommitTs ts (running_txns s4))\<rparr>))"
      using aw True unfolding commit_publish_def txn_of_simp [OF x(1)] Let_def ts_def [symmetric] keys_def [symmetric] s3_def [symmetric] obind_def by (simp add: s4 s3_def [symmetric])
    moreover have "FinishActiveTransactionForCheckpoint (s4\<lparr>running_txns := RemoveTxn (start_ts (txn_of t s4)) (UpdateCommitTs ts (running_txns s4))\<rparr>) = publishing t x e s"
      by (simp add: finish_active publishing_def s4_def s3 txn_of_def ts_def [symmetric])
    ultimately show ?thesis using True b by (auto simp: ts_def)
  qed
qed

text \<open>The tuples of a transaction whose commit is being published.\<close>

lemma published_tuple:
  assumes inv: "tm_inv s" and x: "txn_map s t = Some x" "txn_state_of x \<noteq> GROWING" and st: "tuple_states s k = Some st" "ts_owner st = t"
    and x': "txn_map s' t = Some x'" "undo_logs x' = undo_logs x" "published x' s'" "commit_ts x' = ts" and e: "ext s s'" "last_commit_ts s < ts" "last_commit_ts s' = ts" "clock_ok s'" "mvcc_files s' = mvcc_files s" "heap s' = heap s"
    and st': "tuple_states s' k = Some (st\<lparr>ts_owner := INVALID_TXN_ID, ts_commit_ts := ts\<rparr>)"
  shows "state_ok s' k (st\<lparr>ts_owner := INVALID_TXN_ID, ts_commit_ts := ts\<rparr>)"
    and "readable s' r \<Longrightarrow> 0 \<le> r \<Longrightarrow> r \<le> last_commit_ts s \<Longrightarrow> \<exists>v. committed_at k r s = Ret v \<and> committed_at k r s' = Ret v"
proof -
  have tk: "0 \<le> t" "0 \<le> start_ts x" "start_ts x \<le> last_commit_ts s" using tm_invD(5) [OF inv x(1)] by (auto simp: txn_ok_def)
  note so = tm_invD(6) [OF inv st(1)]
  have "owner s k = t" using st by (simp add: owner_def)
  then have h: "heap s' k \<noteq> None" using unwritten_insert(2) [OF inv x(1)] x(2) e(6) by auto
  obtain w where w: "map_of (tuple_write_states x) k = Some w" "if inserted_by_txn w then insert_ok s k st x else update_ok s k st t x (before_first_write w)"
    using so st(2) tk(1) x(1) by (auto simp: state_ok_def owned_ok_def)
  have "chain s' ts (link_of (ts_undo_head st)) \<and> (readable s' r \<longrightarrow> 0 \<le> r \<longrightarrow> r \<le> last_commit_ts s \<longrightarrow> (\<exists>v. committed_at k r s = Ret v \<and> committed_at k r s' = Ret v))"
  proof (cases "inserted_by_txn w")
    case True
    then have "ts_undo_head st = None" using w by (simp add: insert_ok_def)
    then show ?thesis using st st' tk(1) e(2) by (auto simp: link_of_def no_link_def link_valid_def chain.End committed_at_def walk_head_def)
  next
    case False
    let ?b = "before_first_write w"
    have up: "update_ok s k st t x ?b" using w False by simp
    obtain l u where l: "ts_undo_head st = Some l" "prev_txn l = t" "GetUndoLogOptional l s = Some u" "\<not> u_is_deleted u" "u_ts u = ts_commit_ts ?b" "prev_version u = link_of (ts_undo_head ?b)"
      using up by (auto simp: update_ok_def)
    have b: "0 \<le> ts_commit_ts ?b" "ts_commit_ts ?b \<le> start_ts x" "chain s (ts_commit_ts ?b) (link_of (ts_undo_head ?b))" using up by (auto simp: update_ok_def)
    have u: "GetUndoLogOptional l s' = Some u" using undo_log_cong [of s l x s' x'] l(2,3) x(1) x'(1,2) by simp
    have lv: "link_valid l" using l(2) tk(1) by (simp add: link_valid_def)
    have "chain s' ts l" by (rule chain.Link [OF lv _ x'(3,4) u]) (use l x'(1) b tk e chain_ext [OF b(3) e(1)] in auto)
    moreover have "\<exists>v. committed_at k r s = Ret v \<and> committed_at k r s' = Ret v" if r: "readable s' r" "0 \<le> r" "r \<le> last_commit_ts s"
    proof -
      have n: "nat (ts_commit_ts ?b) < nat (next_timestamp s) + 1" "nat (ts_commit_ts ?b) < nat (next_timestamp s') + 1"
        using b(2) tk(3) tm_invD(1) [OF inv] e(2-4) unfolding clock_ok_def by linarith+
      show ?thesis using l u lv st st' tk(1) r(3) e(2) walk_ext [OF b(3) e(1) r(1) _ r(2) n] by (cases "ts_commit_ts ?b \<le> r") (auto simp: committed_at_def walk_head_def)
    qed
    ultimately show ?thesis using l(1) by (simp add: link_of_def)
  qed
  then show "state_ok s' k (st\<lparr>ts_owner := INVALID_TXN_ID, ts_commit_ts := ts\<rparr>)"
    and "readable s' r \<Longrightarrow> 0 \<le> r \<Longrightarrow> r \<le> last_commit_ts s \<Longrightarrow> \<exists>v. committed_at k r s = Ret v \<and> committed_at k r s' = Ret v"
    using so h e(2-5) tm_invD(1) [OF inv] by (auto simp: state_ok_def stable_ok_def clock_ok_def)
qed

lemma publishing_step:
  assumes inv: "tm_inv s" and x: "txn_map s t = Some x" "txn_state_of x = COMMITTED" "active x s" and hd: "fst (hd (commit_publications s)) = commit_ts x"
  shows "tm_inv (publishing t x e s)" "keeps_committed s (publishing t x e s)" "others_kept (Some t) s (publishing t x e s)" "last_commit_ts s < commit_ts x"
proof -
  define ts where "ts = commit_ts x"
  define s' where "s' = publishing t x e s"
  define x' where "x' = x\<lparr>tuple_write_states := [], write_set := []\<rparr>"
  have s': "s' = s\<lparr>commit_publications := filter (\<lambda>p. fst p \<noteq> ts) (commit_publications s), last_commit_ts := ts,
       tuple_states := (\<lambda>k. map_option (published_state t ts) (tuple_states s k)), publication_epoch := e,
       txn_map := (txn_map s)(t \<mapsto> x'), running_txns := RemoveTxn (start_ts x) (UpdateCommitTs ts (running_txns s)), active_txn_count := active_txn_count s - 1\<rparr>"
    by (simp add: s'_def publishing_def ts_def x'_def)
  note c = tm_invD(1) [OF inv] and w = tm_invD(2) [OF inv] and o = tm_invD(5) [OF inv x(1)]
  have tp: "ts \<in> pub_ts s" using x(2,3) by (simp add: active_def ts_def)
  have lt: "last_commit_ts s < ts" "ts < next_timestamp s" using tp c by (auto simp: clock_ok_def)
  have p: "pub_ts s' = pub_ts s - {ts}" by (auto simp: pub_ts_def s')
  have srt: "sorted_wrt (<) (map fst (commit_publications s))" using c by (simp add: clock_ok_def)
  have gt: "ts < q" if "q \<in> pub_ts s'" for q
  proof -
    have "q \<in> set (map fst (commit_publications s))" "q \<noteq> ts" using that p by (auto simp: pub_ts_def)
    then show ?thesis using srt hd by (cases "commit_publications s") (auto simp: ts_def)
  qed
  have c': "clock_ok s'" unfolding clock_ok_def
  proof (intro conjI ballI)
    show "sorted_wrt (<) (map fst (commit_publications s'))" using srt by (simp add: s' sorted_wrt_map sorted_wrt_filter)
  qed (use c lt gt p in \<open>auto simp: clock_ok_def s'\<close>)
  have na: "\<not> active x' s'" "published x' s'" using x(2) p by (auto simp: active_def published_def x'_def ts_def)
  let ?K = "{k. owner s k = t}"
  have st: "txn_step t ?K x' s s'"
  proof -
    have "(commit_ts y \<in> pub_ts s') = (commit_ts y \<in> pub_ts s)" if "t' \<noteq> t" "txn_map s t' = Some y" "txn_state_of y \<in> {SHRINKING, COMMITTED}" for t' y
      using commit_ts_distinct [OF inv x(1) that(2)] that x(2) p by (simp add: ts_def)
    moreover have "tuple_states s' k = tuple_states s k" if "owner s k \<noteq> t" for k
      using that by (cases "tuple_states s k") (auto simp: s' owner_def published_state_def)
    moreover have "txn_map s' = (txn_map s)(t \<mapsto> x')" "last_commit_ts s' = ts" "next_txn_id s' = next_txn_id s" "heap s' = heap s" "reserved s' = reserved s" "mvcc_files s' = mvcc_files s"
      "reclaimable_txns s' = reclaimable_txns s" "pending_delete_txns s' = pending_delete_txns s" "start_ts x' = start_ts x" by (simp_all add: s' x'_def)
    ultimately show ?thesis unfolding txn_step_def using x(1,3) lt(1) by auto
  qed
  have "wm_inv (running_txns s)" "wm_commit_ts (running_txns s) \<le> last_commit_ts s" using w by (auto simp: wm_ok_def)
  then have w': "wm_ok s'" using na(1) x(1) wm_bag [of "running_txns s"] wm_bag [of "UpdateCommitTs ts (running_txns s)"] lt(1) by (intro wm_step [OF inv st]) (auto simp: s')
  have own: "txn_ok s' t x'" using o x(2) lt p by (simp add: txn_ok_def x'_def s' wr_keys_def ts_def)
  have tuple: "(tuple_states s' k = Some z \<longrightarrow> state_ok s' k z) \<and> (readable s' r \<longrightarrow> 0 \<le> r \<longrightarrow> r \<le> last_commit_ts s \<longrightarrow> (\<exists>v. committed_at k r s = Ret v \<and> committed_at k r s' = Ret v))"
    if k: "owner s k = t" for k z r
  proof -
    have "0 \<le> t" using o by (simp add: txn_ok_def)
    then obtain z0 where z0: "tuple_states s k = Some z0" "ts_owner z0 = t" using k by (auto simp: owner_def split: option.splits)
    have z: "tuple_states s' k = Some (z0\<lparr>ts_owner := INVALID_TXN_ID, ts_commit_ts := ts\<rparr>)" using z0 by (simp add: s' published_state_def)
    have ng: "txn_state_of x \<noteq> GROWING" and tx': "txn_map s' t = Some x'" "undo_logs x' = undo_logs x" "commit_ts x' = ts" using x by (simp_all add: s' x'_def ts_def)
    have ee: "last_commit_ts s' = ts" "mvcc_files s' = mvcc_files s" "heap s' = heap s" by (simp_all add: s')
    note pt = published_tuple [OF inv x(1) ng z0 tx'(1,2) na(2) tx'(3) txn_step_ext [OF st] lt(1) ee(1) c' ee(2,3) z]
    show ?thesis using pt(1) pt(2) [of r] z by auto
  qed
  have i: "tm_inv s'"
  proof (rule txn_step_inv [OF inv st c' w' own])
    show "commit_ts y \<noteq> commit_ts x'" if "t' \<noteq> t" "txn_map s t' = Some y" "txn_state_of y \<in> {SHRINKING, COMMITTED}" for t' y
      using commit_ts_distinct [OF inv x(1) that(2)] that x(2) by (simp add: x'_def)
  qed (use x(1) p tuple in \<open>auto simp: x'_def ts_def\<close>)
  have "keeps_committed s s'" using tuple by (intro txn_step_committed [OF inv st i]) auto
  then show "tm_inv (publishing t x e s)" "keeps_committed s (publishing t x e s)" "others_kept (Some t) s (publishing t x e s)" "last_commit_ts s < commit_ts x"
    using i lt txn_step_others [OF inv st] by (simp_all add: s'_def ts_def)
qed

lemma waiting_step:
  assumes inv: "tm_inv s" and x: "txn_map s t = Some x" "active x s" and P: "map fst P = map fst (commit_publications s)"
  shows "snapshots_kept (Some t) s (s\<lparr>commit_publications := P\<rparr>)" (is "snapshots_kept (Some t) s ?s")
proof -
  have p: "pub_ts ?s = pub_ts s" unfolding pub_ts_def using arg_cong [OF P, of set] by simp
  then have a: "active y ?s = active y s" "finished y ?s = finished y s" for y by (simp_all add: active_def finished_def published_def)
  have st: "txn_step t {} x s ?s" unfolding txn_step_def p using x a by (simp add: keeps_txn_refl)
  have c': "clock_ok ?s" using tm_invD(1) [OF inv] P p by (simp add: clock_ok_def)
  have w': "wm_ok ?s" using tm_invD(2) [OF inv] x a by (intro wm_step [OF inv st]) (auto simp: wm_ok_def)
  have own: "txn_ok ?s t x" using tm_invD(5) [OF inv x(1)] a p by (simp add: txn_ok_def owner_def)
  have i: "tm_inv ?s" by (rule txn_step_inv [OF inv st c' w' own]) (use x p commit_ts_distinct [OF inv x(1)] in auto)
  have "keeps_committed s ?s" by (rule txn_step_committed [OF inv st i]) simp
  moreover have "readable ?s r = readable s r" for r by (simp add: readable_def dead_def a)
  ultimately show ?thesis using i txn_step_others [OF inv st] by (simp add: snapshots_kept_def)
qed

subsection \<open>Abort\<close>

text \<open>Undoing the write records from the last to the first leaves the record that the first one saved.\<close>

lemma undo_writes: "\<exists>h q r. fold undo_write ws s = s\<lparr>heap := h, quarantined := q, reserved := r\<rparr>"
proof (induction ws arbitrary: s)
  case Nil
  show ?case by (intro exI [of _ "heap s"] exI [of _ "quarantined s"] exI [of _ "reserved s"]) simp
next
  case (Cons w ws)
  have "undo_write w s = s\<lparr>heap := heap (undo_write w s), quarantined := quarantined (undo_write w s), reserved := reserved (undo_write w s)\<rparr>"
    by (cases "wr_type w") (simp_all add: undo_write_def)
  then obtain h q r where "undo_write w s = s\<lparr>heap := h, quarantined := q, reserved := r\<rparr>" by blast
  then show ?case using Cons.IH [of "s\<lparr>heap := h, quarantined := q, reserved := r\<rparr>"] by simp
qed

lemma undo_writes_heap: "heap (fold undo_write (rev ws) s) k = (case List.find (\<lambda>w. wr_key w = k) ws of None \<Rightarrow> heap s k | Some w \<Rightarrow> first_image w)"
proof (induction ws)
  case (Cons w ws)
  then show ?case by (cases "wr_type w") (simp_all add: undo_write_def first_image_def)
qed simp

lemma undo_writes_reserved: "k \<in> reserved s \<Longrightarrow> k \<notin> wr_key ` set ws \<Longrightarrow> k \<in> reserved (fold undo_write (rev ws) s)"
proof (induction ws)
  case (Cons w ws)
  then show ?case by (cases "wr_type w") (simp_all add: undo_write_def)
qed simp

definition restored_state :: "txn_tuple_write_state \<Rightarrow> tuple_state option" where
  "restored_state w = (if has_before_state w then Some (before_first_write w) else None)"

lemma keyed_restore: "keyed (\<lambda>k. restore_state k (m k)) (\<lambda>k _. restored_state (m k))"
  unfolding keyed_def
proof (intro allI)
  fix k s
  show "restore_state k (m k) s = s\<lparr>tuple_states := (tuple_states s)(k := restored_state (m k)), publication_epoch := publication_epoch (restore_state k (m k) s)\<rparr>"
    by (auto simp: restore_state_def restored_state_def AssignTupleStateLocked_def EraseTupleStateLocked_def bump_publication_def set_state_def fun_upd_idem)
qed

definition aborting :: "txn_id_t \<Rightarrow> transaction \<Rightarrow> (nat \<Rightarrow> nat) \<Rightarrow> tuple_key set \<Rightarrow> tuple_key list \<Rightarrow> txn_manager \<Rightarrow> txn_manager" where
  "aborting t x e q g s =
     s\<lparr>heap := heap (fold undo_write (rev (write_set x)) s), quarantined := q, reserved := reserved (fold undo_write (rev (write_set x)) s),
       tuple_states := (\<lambda>k. if owner s k = t then restored_state (the (map_of (tuple_write_states x) k)) else tuple_states s k), publication_epoch := e,
       txn_map := (txn_map s)(t \<mapsto> x\<lparr>txn_state_of := ABORTED, write_set := [], tuple_state_gc_keys := g, tuple_write_states := []\<rparr>),
       running_txns := RemoveTxn (start_ts x) (running_txns s), active_txn_count := active_txn_count s - 1\<rparr>"

lemma undo_write_frame: "fold undo_write ws (s\<lparr>txn_map := m\<rparr>) = (fold undo_write ws s)\<lparr>txn_map := m\<rparr>"
proof (induction ws arbitrary: s)
  case (Cons w ws)
  have "undo_write w (s\<lparr>txn_map := m\<rparr>) = (undo_write w s)\<lparr>txn_map := m\<rparr>" by (cases "wr_type w") (simp_all add: undo_write_def)
  then show ?case using Cons.IH [of "undo_write w s"] by simp
qed simp

lemma tm_abort_eq:
  assumes inv: "tm_inv s" and x: "txn_map s t = Some x" "txn_state_of x = GROWING"
  shows "\<exists>e q g. tm_abort t s = aborting t x e q g s"
proof -
  define ws where "ws = rev (write_set x)"
  define keys where "keys = by_shard (map fst (tuple_write_states x))"
  define m where "m = (\<lambda>k. the (map_of (tuple_write_states x) k))"
  obtain h q r where u: "fold undo_write ws s = s\<lparr>heap := h, quarantined := q, reserved := r\<rparr>" using undo_writes by blast
  have hr: "h = heap (fold undo_write ws s)" "r = reserved (fold undo_write ws s)" using u by simp_all
  have dk: "distinct keys" using tm_invD(5) [OF inv x(1)] distinct_by_shard by (simp add: keys_def txn_ok_def)
  have own: "k \<in> set keys \<longleftrightarrow> owner s k = t" for k using recorded_owned [OF inv x(1)] x(2) by (simp add: keys_def)
  define s1 where "s1 = upd_txn t (\<lambda>x. x\<lparr>txn_state_of := ABORTED\<rparr>) s"
  have s1: "s1 = s\<lparr>txn_map := (txn_map s)(t \<mapsto> x\<lparr>txn_state_of := ABORTED\<rparr>)\<rparr>" using x by (simp add: s1_def upd_txn_def)
  define s3 where "s3 = upd_txn t (\<lambda>x. x\<lparr>tuple_state_gc_keys := keys\<rparr>) (upd_txn t (\<lambda>x. x\<lparr>write_set := []\<rparr>) (fold undo_write ws s1))"
  have s3: "s3 = s\<lparr>heap := h, quarantined := q, reserved := r, txn_map := (txn_map s)(t \<mapsto> x\<lparr>txn_state_of := ABORTED, write_set := [], tuple_state_gc_keys := keys\<rparr>)\<rparr>"
    unfolding s3_def s1 undo_write_frame u by (simp add: upd_txn_def)
  have ts3: "tuple_states s3 = tuple_states s" unfolding s3 by simp
  obtain e where f: "fold (\<lambda>k. restore_state k (m k)) keys s3 = s3\<lparr>tuple_states := (\<lambda>k. if k \<in> set keys then restored_state (m k) else tuple_states s3 k), publication_epoch := e\<rparr>"
    using keyed_fold [OF keyed_restore dk] by blast
  have "tm_abort t s = (let s4 = fold (\<lambda>k. restore_state k (m k)) keys s3; s5 = upd_txn t (\<lambda>x. x\<lparr>tuple_write_states := []\<rparr>) s4
      in FinishActiveTransactionForCheckpoint (s5\<lparr>running_txns := RemoveTxn (start_ts x) (running_txns s5)\<rparr>))"
    unfolding tm_abort_def txn_of_simp [OF x(1)] Let_def ws_def [symmetric] keys_def [symmetric] s1_def [symmetric] s3_def [symmetric] by (simp add: m_def)
  also have "\<dots> = aborting t x e q keys s"
    unfolding Let_def f ts3 own finish_active aborting_def ws_def [symmetric] hr [symmetric] unfolding m_def by (simp add: upd_txn_def s3)
  finally show ?thesis by blast
qed

lemma abort_step:
  assumes inv: "tm_inv s" and x: "txn_map s t = Some x" "txn_state_of x = GROWING"
  shows "tm_inv (tm_abort t s)" "keeps_committed s (tm_abort t s)" "others_kept (Some t) s (tm_abort t s)" "owner (tm_abort t s) k \<noteq> t" "last_commit_ts (tm_abort t s) = last_commit_ts s"
    "\<And>z. owner s k = t \<Longrightarrow> tuple_states (tm_abort t s) k = Some z \<Longrightarrow> ts_owner z = INVALID_TXN_ID \<and> \<not> ts_is_deleted z"
proof -
  define s' where "s' = tm_abort t s"
  obtain e q g where "s' = aborting t x e q g s" using tm_abort_eq [OF inv x] by (auto simp: s'_def)
  note s' = this [unfolded aborting_def]
  define x' where "x' = x\<lparr>txn_state_of := ABORTED, write_set := [], tuple_state_gc_keys := g, tuple_write_states := []\<rparr>"
  let ?K = "{k. owner s k = t}"
  note c = tm_invD(1) [OF inv] and w = tm_invD(2) [OF inv] and o = tm_invD(5) [OF inv x(1)]
  have t: "0 \<le> t" using o by (simp add: txn_ok_def)
  have f: "txn_map s' = (txn_map s)(t \<mapsto> x')" "last_commit_ts s' = last_commit_ts s" "next_txn_id s' = next_txn_id s" "mvcc_files s' = mvcc_files s" "commit_publications s' = commit_publications s"
    "next_timestamp s' = next_timestamp s" "running_txns s' = RemoveTxn (start_ts x) (running_txns s)"
    "reclaimable_txns s' = reclaimable_txns s" "pending_delete_txns s' = pending_delete_txns s" "start_ts x' = start_ts x" by (simp_all add: s' x'_def)
  have ts: "tuple_states s' k = (if owner s k = t then restored_state (the (map_of (tuple_write_states x) k)) else tuple_states s k)" for k by (simp add: s')
  have hp: "heap s' k = (case List.find (\<lambda>w. wr_key w = k) (write_set x) of None \<Rightarrow> heap s k | Some w \<Rightarrow> first_image w)" for k using undo_writes_heap by (simp add: s')
  have p: "pub_ts s' = pub_ts s" by (simp add: pub_ts_def f)
  have na: "\<not> active x' s'" by (simp add: active_def x'_def)
  have other: "heap s' k = heap s k" "k \<in> reserved s \<Longrightarrow> k \<in> reserved s'" if "owner s k \<noteq> t" for k
  proof -
    have "k \<notin> wr_keys x" using o that by (auto simp: txn_ok_def)
    then show "heap s' k = heap s k" "k \<in> reserved s \<Longrightarrow> k \<in> reserved s'" using hp [of k] find_wr_keys [of k x] undo_writes_reserved [of k s "write_set x"] by (auto simp: s' wr_keys_def)
  qed
  have st: "txn_step t ?K x' s s'" unfolding txn_step_def p f using x other growing_active [OF x(2)] by (auto simp: ts)
  have c': "clock_ok s'" using c p by (simp add: clock_ok_def f)
  have "wm_inv (running_txns s)" "wm_commit_ts (running_txns s) \<le> last_commit_ts s" using w by (auto simp: wm_ok_def)
  then have w': "wm_ok s'" using na x(1) wm_bag [of "running_txns s"] by (intro wm_step [OF inv st]) (auto simp: f)
  have own: "txn_ok s' t x'" using o p by (simp add: txn_ok_def x'_def f wr_keys_def)
  have tuple: "(tuple_states s' k = Some z \<longrightarrow> state_ok s' k z) \<and> (readable s r \<longrightarrow> readable s' r \<longrightarrow> 0 \<le> r \<longrightarrow> (\<exists>v. committed_at k r s = Ret v \<and> committed_at k r s' = Ret v)) \<and> owner s' k \<noteq> t
      \<and> (tuple_states s' k = Some z \<longrightarrow> ts_owner z = INVALID_TXN_ID \<and> \<not> ts_is_deleted z)"
    if k: "owner s k = t" for k z r
  proof -
    obtain z0 where z0: "tuple_states s k = Some z0" "ts_owner z0 = t" using k t by (auto simp: owner_def split: option.splits)
    obtain w where w: "map_of (tuple_write_states x) k = Some w" "has_before_state w = (\<not> inserted_by_txn w)" "\<not> inserted_by_txn w \<Longrightarrow> ts_owner (before_first_write w) = INVALID_TXN_ID \<and> \<not> ts_is_deleted (before_first_write w)"
      using tm_invD(6) [OF inv z0(1)] z0(2) t x(1) by (auto simp: state_ok_def owned_ok_def update_ok_def split: if_splits)
    have st': "tuple_states s' k = (if inserted_by_txn w then None else Some (before_first_write w))" using ts [of k] k w by (simp add: restored_state_def)
    have hb: "heap s' k = b" if "base_ok s x k b" for b using that hp [of k] by (auto simp: base_ok_def split: option.splits)
    have l: "last_commit_ts s \<le> last_commit_ts s'" "mvcc_files s \<subseteq> mvcc_files s'" using f by simp_all
    note r = restored_ok [OF inv x(1) z0 w(1) txn_step_ext [OF st] l c' hb st']
    have "owner s' k \<noteq> t" using st' w(3) t by (auto simp: owner_def)
    moreover have "tuple_states s' k = Some z \<longrightarrow> ts_owner z = INVALID_TXN_ID \<and> \<not> ts_is_deleted z" using st' w(3) by auto
    ultimately show ?thesis using r(1) [of z] r(2) [of r] by blast
  qed
  have i: "tm_inv s'" by (rule txn_step_inv [OF inv st c' w' own]) (use x p tuple in \<open>auto simp: x'_def\<close>)
  have "keeps_committed s s'" using tuple by (intro txn_step_committed [OF inv st i]) auto
  moreover have "owner s' k \<noteq> t" for k using tuple [of k] txn_stepD(13) [OF st, of k] by (cases "owner s k = t") simp_all
  ultimately show "tm_inv (tm_abort t s)" "keeps_committed s (tm_abort t s)" "others_kept (Some t) s (tm_abort t s)" "owner (tm_abort t s) k \<noteq> t" "last_commit_ts (tm_abort t s) = last_commit_ts s"
    "\<And>z. owner s k = t \<Longrightarrow> tuple_states (tm_abort t s) k = Some z \<Longrightarrow> ts_owner z = INVALID_TXN_ID \<and> \<not> ts_is_deleted z"
    using i f(2) txn_step_others [OF inv st] tuple [of k] by (simp_all add: s'_def)
qed

end
