(* ===== verification/Rmdb_Mvcc_Gc.thy ===== *)
theory Rmdb_Mvcc_Gc
  imports Rmdb_Mvcc_Txn
begin

text \<open>The steps that collect old versions, retired transactions and deleted records.\<close>

subsection \<open>Steps of the background\<close>

text \<open>Transactions that ended and whose versions nobody needs may go, and with them states that are older than every snapshot.\<close>

definition collects :: "txn_manager \<Rightarrow> txn_manager \<Rightarrow> bool" where
  "collects s s' \<longleftrightarrow> next_txn_id s' = next_txn_id s \<and> next_timestamp s' = next_timestamp s \<and> last_commit_ts s' = last_commit_ts s \<and> commit_publications s' = commit_publications s
     \<and> running_txns s' = running_txns s \<and> heap s' = heap s \<and> reserved s' = reserved s \<and> mvcc_files s' = mvcc_files s
     \<and> (\<forall>t. case txn_map s' t of None \<Rightarrow> (\<forall>x. txn_map s t = Some x \<longrightarrow> finished x s \<and> (txn_state_of x = COMMITTED \<longrightarrow> dead s (commit_ts x)))
            | Some x' \<Rightarrow> \<exists>x g. txn_map s t = Some x \<and> x' = x\<lparr>tuple_state_gc_keys := g\<rparr>)
     \<and> (\<forall>k. tuple_states s' k = tuple_states s k
            \<or> tuple_states s' k = None \<and> (\<exists>st. tuple_states s k = Some st \<and> ts_owner st = INVALID_TXN_ID \<and> \<not> ts_is_deleted st \<and> dead s (ts_commit_ts st)))"

lemma collectsD:
  assumes "collects s s'"
  shows "\<And>t x'. txn_map s' t = Some x' \<Longrightarrow> \<exists>x g. txn_map s t = Some x \<and> x' = x\<lparr>tuple_state_gc_keys := g\<rparr>"
    "\<And>t x. txn_map s' t = None \<Longrightarrow> txn_map s t = Some x \<Longrightarrow> finished x s \<and> (txn_state_of x = COMMITTED \<longrightarrow> dead s (commit_ts x))"
    "pub_ts s' = pub_ts s" "active y s' = active y s" "published y s' = published y s" "finished y s' = finished y s" "last_commit_ts s' = last_commit_ts s"
    "\<And>t x. txn_map s t = Some x \<Longrightarrow> active x s \<Longrightarrow> \<exists>g. txn_map s' t = Some (x\<lparr>tuple_state_gc_keys := g\<rparr>)"
    "active (y\<lparr>tuple_state_gc_keys := g\<rparr>) s = active y s" "published (y\<lparr>tuple_state_gc_keys := g\<rparr>) s = published y s" "finished (y\<lparr>tuple_state_gc_keys := g\<rparr>) s = finished y s"
proof -
  have m: "case txn_map s' t of None \<Rightarrow> (\<forall>x. txn_map s t = Some x \<longrightarrow> finished x s \<and> (txn_state_of x = COMMITTED \<longrightarrow> dead s (commit_ts x)))
            | Some x' \<Rightarrow> \<exists>x g. txn_map s t = Some x \<and> x' = x\<lparr>tuple_state_gc_keys := g\<rparr>" for t using assms unfolding collects_def by blast
  show "\<exists>x g. txn_map s t = Some x \<and> x' = x\<lparr>tuple_state_gc_keys := g\<rparr>" if "txn_map s' t = Some x'" for t x' using m [of t] that by simp
  show n: "finished x s \<and> (txn_state_of x = COMMITTED \<longrightarrow> dead s (commit_ts x))" if "txn_map s' t = None" "txn_map s t = Some x" for t x using m [of t] that by simp
  show "\<exists>g. txn_map s' t = Some (x\<lparr>tuple_state_gc_keys := g\<rparr>)" if "txn_map s t = Some x" "active x s" for t x
    using m [of t] that active_not_finished by (cases "txn_map s' t") auto
  show p: "pub_ts s' = pub_ts s" using assms by (simp add: collects_def pub_ts_def)
  then show "active y s' = active y s" "published y s' = published y s" "finished y s' = finished y s" by (simp_all add: active_def published_def finished_def)
  show "active (y\<lparr>tuple_state_gc_keys := g\<rparr>) s = active y s" "published (y\<lparr>tuple_state_gc_keys := g\<rparr>) s = published y s" "finished (y\<lparr>tuple_state_gc_keys := g\<rparr>) s = finished y s"
    by (simp_all add: active_def published_def finished_def)
  show "last_commit_ts s' = last_commit_ts s" using assms by (simp add: collects_def)
qed

lemma collects_dead:
  assumes "collects s s'"
  shows "dead s' a = dead s a" "readable s' r = readable s r"
proof -
  note d = collectsD [OF assms]
  have "dead s' a = dead s a" for a
  proof
    assume a: "dead s' a"
    have "a \<le> start_ts x" if x: "txn_map s t = Some x" "active x s" for t x
    proof -
      obtain g where "txn_map s' t = Some (x\<lparr>tuple_state_gc_keys := g\<rparr>)" using d(8) [OF x] by blast
      then show ?thesis using a x(2) d(4,9) unfolding dead_def by fastforce
    qed
    then show "dead s a" using a d(7) by (auto simp: dead_def)
  next
    assume a: "dead s a"
    have "a \<le> start_ts x'" if "txn_map s' t = Some x'" "active x' s'" for t x'
      using d(1) [OF that(1)] that(2) d(4,9) a unfolding dead_def by fastforce
    then show "dead s' a" using a d(7) by (auto simp: dead_def)
  qed
  then show "dead s' a = dead s a" "readable s' r = readable s r" by (simp_all add: readable_def)
qed

lemma collects_refl: "collects s s"
proof -
  have "\<exists>g. x = x\<lparr>tuple_state_gc_keys := g\<rparr>" for x :: transaction by (intro exI [of _ "tuple_state_gc_keys x"]) simp
  then show ?thesis by (auto simp: collects_def split: option.split)
qed

lemma collects_trans:
  assumes a: "collects s s1" and b: "collects s1 s2"
  shows "collects s s2"
proof -
  note d = collectsD [OF a] and e = collectsD [OF b] and da = collects_dead(1) [OF a]
  have "case txn_map s2 t of None \<Rightarrow> (\<forall>x. txn_map s t = Some x \<longrightarrow> finished x s \<and> (txn_state_of x = COMMITTED \<longrightarrow> dead s (commit_ts x)))
            | Some x' \<Rightarrow> \<exists>x g. txn_map s t = Some x \<and> x' = x\<lparr>tuple_state_gc_keys := g\<rparr>" for t
  proof (cases "txn_map s2 t")
    case None
    have "finished x s \<and> (txn_state_of x = COMMITTED \<longrightarrow> dead s (commit_ts x))" if x: "txn_map s t = Some x" for x
    proof (cases "txn_map s1 t")
      case None
      then show ?thesis using d(2) x by blast
    next
      case (Some y)
      then obtain g where "y = x\<lparr>tuple_state_gc_keys := g\<rparr>" using d(1) x by fastforce
      then show ?thesis using e(2) [OF None Some] d(6,11) da by simp
    qed
    then show ?thesis using None by simp
  next
    case (Some z)
    then obtain y g g' x where "txn_map s1 t = Some y" "z = y\<lparr>tuple_state_gc_keys := g\<rparr>" "txn_map s t = Some x" "y = x\<lparr>tuple_state_gc_keys := g'\<rparr>" using e(1) d(1) by blast
    then show ?thesis using Some by auto
  qed
  moreover have "tuple_states s2 k = tuple_states s k \<or> tuple_states s2 k = None \<and> (\<exists>st. tuple_states s k = Some st \<and> ts_owner st = INVALID_TXN_ID \<and> \<not> ts_is_deleted st \<and> dead s (ts_commit_ts st))" for k
  proof -
    have "tuple_states s1 k = tuple_states s k \<or> tuple_states s1 k = None \<and> (\<exists>st. tuple_states s k = Some st \<and> ts_owner st = INVALID_TXN_ID \<and> \<not> ts_is_deleted st \<and> dead s (ts_commit_ts st))"
      "tuple_states s2 k = tuple_states s1 k \<or> tuple_states s2 k = None \<and> (\<exists>st. tuple_states s1 k = Some st \<and> ts_owner st = INVALID_TXN_ID \<and> \<not> ts_is_deleted st \<and> dead s1 (ts_commit_ts st))"
      using a b unfolding collects_def by blast+
    note k = this
    show ?thesis
    proof (cases "tuple_states s2 k = tuple_states s1 k")
      case False
      then obtain st where st: "tuple_states s2 k = None" "tuple_states s1 k = Some st" "ts_owner st = INVALID_TXN_ID" "\<not> ts_is_deleted st" "dead s (ts_commit_ts st)" using k(2) da by blast
      moreover have "tuple_states s k = Some st" using k(1) st(2) by auto
      ultimately show ?thesis by simp
    qed (use k(1) in simp)
  qed
  ultimately show ?thesis using a b by (simp add: collects_def)
qed

lemma collects_fold: "(\<And>e s. e \<in> set es \<Longrightarrow> P s \<Longrightarrow> collects s (f e s)) \<Longrightarrow> (\<And>s s'. collects s s' \<Longrightarrow> P s \<Longrightarrow> P s') \<Longrightarrow> P s \<Longrightarrow> collects s (fold f es s)"
proof (induction es arbitrary: s)
  case (Cons e es)
  have "collects s (f e s)" using Cons.prems by simp
  moreover from this have "P (f e s)" using Cons.prems(2,3) by blast
  then have "collects (f e s) (fold f es (f e s))" using Cons.prems(1,2) by (intro Cons.IH) auto
  ultimately show ?case using collects_trans by simp
qed (simp add: collects_refl)

lemma collects_ended: "collects s s' \<Longrightarrow> ended s t Q \<Longrightarrow> (\<And>a. Q a \<Longrightarrow> R a) \<Longrightarrow> ended s' t R"
proof -
  assume p: "collects s s'" and e: "ended s t Q" and QR: "\<And>a. Q a \<Longrightarrow> R a"
  note d = collectsD [OF p]
  have "finished x' s' \<and> (txn_state_of x' = COMMITTED \<longrightarrow> R (commit_ts x'))" if x': "txn_map s' t = Some x'" for x'
  proof -
    obtain x g where x: "txn_map s t = Some x" "x' = x\<lparr>tuple_state_gc_keys := g\<rparr>" using d(1) [OF x'] by blast
    then have "finished x s \<and> (txn_state_of x = COMMITTED \<longrightarrow> Q (commit_ts x))" using e by (simp add: ended_def)
    then show ?thesis using x(2) d(6,11) QR by simp
  qed
  then show ?thesis using p e by (simp add: ended_def collects_def)
qed

lemma collects_ext:
  assumes inv: "tm_inv s" and c: "collects s s'"
  shows "ext s s'"
proof -
  note d = collectsD [OF c] and da = collects_dead(1) [OF c]
  have n: "next_txn_id s' = next_txn_id s" using c by (simp add: collects_def)
  have "(\<exists>x'. txn_map s' t = Some x' \<and> published x' s' \<and> commit_ts x' = commit_ts x \<and> undo_logs x' = undo_logs x) \<or> txn_map s' t = None \<and> t < next_txn_id s' \<and> dead s' (commit_ts x)"
    if x: "txn_map s t = Some x" "published x s" for t x
  proof (cases "txn_map s' t")
    case None
    then show ?thesis using d(2) [OF None x(1)] x(2) da n tm_invD(5) [OF inv x(1)] by (simp add: published_def txn_ok_def)
  next
    case (Some x')
    then obtain g where "x' = x\<lparr>tuple_state_gc_keys := g\<rparr>" using d(1) [OF Some] x(1) by auto
    then show ?thesis using Some x(2) d(5,10) by simp
  qed
  moreover have "txn_map s' t = None" if "txn_map s t = None" for t using d(1) [of t] that by (cases "txn_map s' t") auto
  ultimately show ?thesis using n da unfolding ext_def by simp
qed

lemma collects_untouched:
  assumes c: "collects s s'" and k: "tuple_states s' k = tuple_states s k"
  shows "untouched k s s'"
proof -
  note d = collectsD [OF c]
  have "\<exists>x'. txn_map s' (owner s k) = Some x' \<and> active x' s' \<and> keeps_txn k x x' \<and> (heap s k = None \<and> txn_state_of x = GROWING \<longrightarrow> txn_state_of x' = GROWING)"
    if x: "txn_map s (owner s k) = Some x" "active x s" for x
  proof -
    obtain g where "txn_map s' (owner s k) = Some (x\<lparr>tuple_state_gc_keys := g\<rparr>)" using d(8) [OF x] by blast
    then show ?thesis using x(2) d(4,9) by (simp add: keeps_txn_def)
  qed
  then show ?thesis using c k by (simp add: untouched_def collects_def)
qed

lemma collects_wm:
  assumes inv: "tm_inv s" and c: "collects s s'"
  shows "wm_ok s'"
proof -
  note d = collectsD [OF c]
  have "dom (txn_map s') \<subseteq> dom (txn_map s)" using d(1) by fastforce
  then have fin: "finite (dom (txn_map s'))" using tm_invD(2) [OF inv] finite_subset by (auto simp: wm_ok_def)
  have "t \<in> running s' \<longleftrightarrow> t \<in> running s" for t
  proof
    show "t \<in> running s" if "t \<in> running s'" using that d(1) [of t] d(4,9) unfolding running_def by fastforce
    show "t \<in> running s'" if "t \<in> running s" using that d(8) [of t] d(4,9) unfolding running_def by fastforce
  qed
  then have run: "running s' = running s" by blast
  have fr: "finite (running s)" using tm_invD(2) [OF inv] by (auto simp: wm_ok_def running_def dom_def intro: finite_subset [rotated])
  have "start_ts (txn_of t s') = start_ts (txn_of t s)" if t: "t \<in> running s" for t
  proof -
    obtain x where x: "txn_map s t = Some x" "active x s" using t by (auto simp: running_def)
    then obtain g where "txn_map s' t = Some (x\<lparr>tuple_state_gc_keys := g\<rparr>)" using d(8) by blast
    then show ?thesis using x by (simp add: txn_of_def)
  qed
  then have "image_mset (\<lambda>t. start_ts (txn_of t s')) (mset_set (running s)) = image_mset (\<lambda>t. start_ts (txn_of t s)) (mset_set (running s))" using fr by (intro image_mset_cong) simp
  then show ?thesis using tm_invD(2) [OF inv] c fin run d(7) by (simp add: wm_ok_def collects_def)
qed

lemma collects_kept:
  assumes inv: "tm_inv s" and c: "collects s s'" and r: "retired_ok s'"
  shows "snapshots_kept a s s'"
proof -
  note d = collectsD [OF c] and da = collects_dead [OF c] and e = collects_ext [OF inv c]
  have same: "next_txn_id s' = next_txn_id s" "next_timestamp s' = next_timestamp s" "commit_publications s' = commit_publications s" "heap s' = heap s" using c by (auto simp: collects_def)
  have k: "tuple_states s' k = tuple_states s k \<or> tuple_states s' k = None \<and> (\<exists>st. tuple_states s k = Some st \<and> ts_owner st = INVALID_TXN_ID \<and> \<not> ts_is_deleted st \<and> dead s (ts_commit_ts st))" for k
    using c by (simp add: collects_def)
  have ow: "owner s' k = owner s k" if "owner s k \<noteq> INVALID_TXN_ID" for k using k [of k] that by (auto simp: owner_def)
  have c': "clock_ok s'" using tm_invD(1) [OF inv] d(3,7) same by (simp add: clock_ok_def)
  have "txn_ok s' t x'" if x': "txn_map s' t = Some x'" for t x'
  proof -
    obtain x g where x: "txn_map s t = Some x" "x' = x\<lparr>tuple_state_gc_keys := g\<rparr>" using d(1) [OF x'] by blast
    have o: "txn_ok s t x" by (rule tm_invD(5) [OF inv x(1)])
    then have "owner s' k = t" if "k \<in> fst ` set (tuple_write_states x) \<or> k \<in> wr_keys x" for k using ow [of k] that by (auto simp: txn_ok_def)
    then show ?thesis using o x(2) d(3,6,7,11) same by (auto simp: txn_ok_def wr_keys_def)
  qed
  moreover have "state_ok s' k st" if st: "tuple_states s' k = Some st" for k st
  proof -
    have "tuple_states s' k = tuple_states s k" using k [of k] st by auto
    then show ?thesis using state_ok_untouched [OF tm_invD(6) [OF inv] _ e collects_untouched [OF c]] st d(7) by simp
  qed
  moreover have "commits_distinct s'" unfolding commits_distinct_def
  proof (intro allI impI, elim conjE)
    fix t1 y1 t2 y2
    assume a: "txn_map s' t1 = Some y1" "txn_map s' t2 = Some y2" "txn_state_of y1 \<in> {SHRINKING, COMMITTED}" "txn_state_of y2 \<in> {SHRINKING, COMMITTED}" "commit_ts y1 = commit_ts y2"
    obtain x1 g1 x2 g2 where "txn_map s t1 = Some x1" "y1 = x1\<lparr>tuple_state_gc_keys := g1\<rparr>" "txn_map s t2 = Some x2" "y2 = x2\<lparr>tuple_state_gc_keys := g2\<rparr>" using d(1) [OF a(1)] d(1) [OF a(2)] by blast
    then show "t1 = t2" using commit_ts_distinct [OF inv, of t1 x1 t2 x2] a by auto
  qed
  moreover have "pubs_ok s'" unfolding pubs_ok_def d(3)
  proof
    fix ts assume ts: "ts \<in> pub_ts s"
    then obtain t x where x: "txn_map s t = Some x" "txn_state_of x \<in> {SHRINKING, COMMITTED}" "commit_ts x = ts" using tm_invD(7) [OF inv] by (auto simp: pubs_ok_def)
    then have "active x s" using ts by (auto simp: active_def)
    then obtain g where "txn_map s' t = Some (x\<lparr>tuple_state_gc_keys := g\<rparr>)" using d(8) x(1) by blast
    then show "\<exists>t x. txn_map s' t = Some x \<and> txn_state_of x \<in> {SHRINKING, COMMITTED} \<and> commit_ts x = ts" using x(2,3) by (intro exI [of _ t] exI [of _ "x\<lparr>tuple_state_gc_keys := g\<rparr>"]) simp
  qed
  ultimately have i: "tm_inv s'" using c' collects_wm [OF inv c] r by (simp add: tm_inv_def)
  have "\<exists>v. committed_at k r s = Ret v \<and> committed_at k r s' = Ret v" if r: "readable s r" "readable s' r" "0 \<le> r" for k r
  proof (cases "tuple_states s' k = tuple_states s k")
    case True
    then show ?thesis using committed_untouched [OF inv e collects_untouched [OF c] r c'] d(7) by simp
  next
    case False
    then obtain st where st: "tuple_states s' k = None" "tuple_states s k = Some st" "ts_owner st = INVALID_TXN_ID" "\<not> ts_is_deleted st" "dead s (ts_commit_ts st)" using k [of k] by blast
    then have "ts_commit_ts st \<le> r" using r(1) by (simp add: readable_def)
    then show ?thesis using st same(4) by (simp add: committed_at_def)
  qed
  then have "keeps_committed s s'" by (simp add: keeps_committed_def)
  moreover have "others_kept a s s'" unfolding others_kept_def
  proof (intro allI impI, elim conjE)
    fix t x assume x: "txn_map s t = Some x" "active x s"
    have "tuple_states s' j = tuple_states s j \<and> heap s' j = heap s j" if "owner s j = t" for j using k [of j] that tm_invD(5) [OF inv x(1)] same(4) by (auto simp: owner_def txn_ok_def)
    then show "(\<exists>g. txn_map s' t = Some (x\<lparr>tuple_state_gc_keys := g\<rparr>)) \<and> active x s' \<and> (\<forall>k. owner s k = t \<longrightarrow> tuple_states s' k = tuple_states s k \<and> heap s' k = heap s k)"
      using d(4,8) x by simp
  qed
  ultimately show ?thesis using i da(2) d(7) by (simp add: snapshots_kept_def)
qed

subsection \<open>Retirement\<close>

lemma dead_mono: "dead s b \<Longrightarrow> a \<le> b \<Longrightarrow> dead s a" by (fastforce simp: dead_def)

lemma watermark_dead:
  assumes inv: "tm_inv s"
  shows "dead s (GetWatermark (running_txns s))"
proof -
  note w = tm_invD(2) [OF inv]
  let ?B = "bag (current_reads (running_txns s))"
  have g: "GetWatermark (running_txns s) = (if ?B = {#} then wm_commit_ts (running_txns s) else Min_mset ?B)"
    using first_read_min [of "running_txns s"] w by (simp add: GetWatermark_def wm_ok_def wm_inv_def)
  have fr: "finite (running s)" using w by (auto simp: wm_ok_def running_def dom_def intro: finite_subset [rotated])
  have B: "set_mset ?B = (\<lambda>t. start_ts (txn_of t s)) ` running s" using w fr by (simp add: wm_ok_def)
  have mem: "start_ts x \<in># ?B" if "txn_map s t = Some x" "active x s" for t x using that B by (force simp: running_def txn_of_def)
  have "start_ts (txn_of t s) \<le> last_commit_ts s" if "t \<in> running s" for t using that tm_invD(5) [OF inv] by (auto simp: running_def txn_of_def txn_ok_def)
  then have "GetWatermark (running_txns s) \<le> last_commit_ts s"
  proof (cases "?B = {#}")
    case True
    then show ?thesis using g w by (simp add: wm_ok_def)
  next
    case False
    then obtain r where r: "r \<in># ?B" by blast
    then have "r \<le> last_commit_ts s" using B \<open>\<And>t. t \<in> running s \<Longrightarrow> start_ts (txn_of t s) \<le> last_commit_ts s\<close> by auto
    then show ?thesis using g False Min_le [OF finite_set_mset r] by simp
  qed
  moreover have "GetWatermark (running_txns s) \<le> start_ts x" if "txn_map s t = Some x" "active x s" for t x
    using mem [OF that] g by auto
  ultimately show ?thesis unfolding dead_def by blast
qed

lemma collects_gc_state:
  assumes "dead s wm"
  shows "collects s (gc_state wm k s)"
proof (cases "\<exists>st. tuple_states s k = Some st \<and> ts_owner st = INVALID_TXN_ID \<and> \<not> ts_is_deleted st \<and> ts_commit_ts st \<le> wm")
  case True
  then obtain st where st: "tuple_states s k = Some st" "ts_owner st = INVALID_TXN_ID" "\<not> ts_is_deleted st" "ts_commit_ts st \<le> wm" by blast
  have "collects s (s\<lparr>tuple_states := (tuple_states s)(k := None), publication_epoch := e\<rparr>)" for e
    using collects_refl [of s] st dead_mono [OF assms st(4)] unfolding collects_def by simp
  moreover have "\<exists>e. gc_state wm k s = s\<lparr>tuple_states := (tuple_states s)(k := None), publication_epoch := e\<rparr>"
    using st by (auto simp: gc_state_def EraseTupleStateLocked_def bump_publication_def)
  ultimately show ?thesis by metis
next
  case False
  then have "gc_state wm k s = s" by (auto simp: gc_state_def split: option.split)
  then show ?thesis by (simp add: collects_refl)
qed

lemma dead_collects: "collects s s' \<Longrightarrow> dead s wm \<Longrightarrow> dead s' wm" using collects_dead(1) by simp

lemma collects_gc:
  assumes "dead s wm"
  shows "collects s (GarbageCollectTupleStatesForRetired es wm s)"
proof -
  have u: "collects s (upd_txn t (\<lambda>x. x\<lparr>tuple_state_gc_keys := []\<rparr>) s)" for t s
  proof -
    have "\<exists>g. x = x\<lparr>tuple_state_gc_keys := g\<rparr>" for x :: transaction by (intro exI [of _ "tuple_state_gc_keys x"]) simp
    then show ?thesis by (auto simp: collects_def upd_txn_def split: option.split)
  qed
  have f: "collects s (fold (gc_state wm) ks s)" if "dead s wm" for ks s
    by (rule collects_fold [of _ "\<lambda>s. dead s wm"]) (use that collects_gc_state dead_collects in blast)+
  have g: "collects s (gc_txn wm t s)" if "dead s wm" for t s
    unfolding gc_txn_def by (rule collects_trans [OF u f [OF dead_collects [OF u that]]])
  show ?thesis unfolding GarbageCollectTupleStatesForRetired_def
    by (rule collects_fold [of _ "\<lambda>s. dead s wm"]) (use assms g dead_collects in blast)+
qed

lemma collects_drain:
  assumes "\<And>e. e \<in> set (pending_delete_txns s) \<Longrightarrow> ended s (snd e) (dead s)"
  shows "collects s (TryDrainRetiredTransactions s)"
proof -
  let ?gone = "set (map snd (filter (drainable s) (pending_delete_txns s)))"
  have id: "\<exists>g. x = x\<lparr>tuple_state_gc_keys := g\<rparr>" for x :: transaction by (intro exI [of _ "tuple_state_gc_keys x"]) simp
  have "finished x s \<and> (txn_state_of x = COMMITTED \<longrightarrow> dead s (commit_ts x))" if "t \<in> ?gone" "txn_map s t = Some x" for t x
    using assms that by (auto simp: ended_def)
  then show ?thesis using id unfolding collects_def TryDrainRetiredTransactions_def Let_def
    by (auto simp: restrict_map_def split: option.split)
qed

lemma gc_frame: "pending_delete_txns (GarbageCollectTupleStatesForRetired es wm s) = pending_delete_txns s \<and> reclaimable_txns (GarbageCollectTupleStatesForRetired es wm s) = reclaimable_txns s"
proof -
  have g: "pending_delete_txns (gc_state wm k s) = pending_delete_txns s \<and> reclaimable_txns (gc_state wm k s) = reclaimable_txns s" for k s
    by (cases "tuple_states s k") (auto simp: gc_state_def EraseTupleStateLocked_def bump_publication_def)
  have "pending_delete_txns (fold (gc_state wm) ks s) = pending_delete_txns s \<and> reclaimable_txns (fold (gc_state wm) ks s) = reclaimable_txns s" for ks s
    by (induction ks arbitrary: s) (simp_all add: g)
  then have t: "pending_delete_txns (gc_txn wm t s) = pending_delete_txns s \<and> reclaimable_txns (gc_txn wm t s) = reclaimable_txns s" for t s by (simp add: gc_txn_def upd_txn_def)
  show ?thesis unfolding GarbageCollectTupleStatesForRetired_def by (induction es arbitrary: s) (simp_all add: t)
qed

text \<open>Draining takes entries out of the list of pending transactions.\<close>

lemma drain_kept:
  assumes inv: "tm_inv s0" and c: "collects s0 s" and r: "retired_ok s"
  shows "snapshots_kept a s0 (TryDrainRetiredTransactions s)"
proof -
  let ?s = "TryDrainRetiredTransactions s"
  have d: "collects s ?s" using r by (intro collects_drain) (simp add: retired_ok_def)
  have q: "reclaimable_txns ?s = reclaimable_txns s" "set (pending_delete_txns ?s) \<subseteq> set (pending_delete_txns s)" by (auto simp: TryDrainRetiredTransactions_def Let_def)
  have "dead ?s = dead s" using collects_dead(1) [OF d] by blast
  then have "retired_ok ?s" using r q collects_ended [OF d] unfolding retired_ok_def by (metis subsetD)
  then show ?thesis by (rule collects_kept [OF inv collects_trans [OF c d]])
qed

lemma retire_kept:
  assumes inv: "tm_inv s" and x: "txn_map s t = Some x" "finished x s" and rt: "txn_state_of x = COMMITTED \<Longrightarrow> rts = commit_ts x"
  shows "snapshots_kept a s (RetireTransaction t rts s)"
proof -
  define wm where "wm = GetWatermark (running_txns s)"
  define q where "q = insort_key fst (rts, t) (reclaimable_txns s)"
  define found where "found = filter (\<lambda>t. txn_map s t \<noteq> None) (map snd (filter (\<lambda>e. fst e \<le> wm) q))"
  define to_retire where "to_retire = zip [version_gc_epoch s + 1..<version_gc_epoch s + 1 + length found] found"
  define s1 where "s1 = s\<lparr>reclaimable_txns := filter (\<lambda>e. \<not> fst e \<le> wm) q, version_gc_epoch := version_gc_epoch s + length found\<rparr>"
  have dw: "dead s wm" using watermark_dead [OF inv] by (simp add: wm_def)
  have c1: "collects s s1" using collects_refl [of s] by (simp add: collects_def s1_def)
  note d1 = collects_dead(1) [OF c1]
  have "ended s t (\<lambda>ts. rts = ts)" using x rt tm_invD(5) [OF inv x(1)] by (simp add: ended_def txn_ok_def)
  then have eq: "ended s (snd e) (\<lambda>ts. fst e = ts)" if "e \<in> set q" for e using that tm_invD(4) [OF inv] by (auto simp: q_def set_insort_key retired_ok_def)
  then have q1: "ended s1 (snd e) (\<lambda>ts. fst e = ts)" if "e \<in> set (reclaimable_txns s1)" for e using that by (intro collects_ended [OF c1 eq]) (auto simp: s1_def)
  have p1: "ended s1 (snd e) (dead s1)" if "e \<in> set (pending_delete_txns s)" for e
    using that tm_invD(4) [OF inv] collects_ended [OF c1, of "snd e" "dead s" "dead s1"] d1 by (simp add: retired_ok_def)
  have tr: "ended s1 (snd e) (dead s1)" if "e \<in> set to_retire" for e
  proof -
    have "snd e \<in> set found" using that set_zip_rightD [of "fst e" "snd e"] unfolding to_retire_def prod.collapse by blast
    then obtain e0 where e0: "e0 \<in> set q" "fst e0 \<le> wm" "snd e0 = snd e" by (auto simp: found_def)
    then show ?thesis using collects_ended [OF c1 eq [OF e0(1)], of "dead s1"] d1 dead_mono [OF dw e0(2)] by simp
  qed
  have r1: "retired_ok s1" using q1 p1 by (simp add: retired_ok_def s1_def)
  define s2 where "s2 = GarbageCollectTupleStatesForRetired to_retire wm s1"
  define s3 where "s3 = s2\<lparr>pending_delete_txns := pending_delete_txns s2 @ to_retire\<rparr>"
  have c2: "collects s1 s2" unfolding s2_def using collects_gc [OF dead_collects [OF c1 dw]] .
  have "collects s2 s3" using collects_refl [of s2] by (simp add: collects_def s3_def)
  then have c3: "collects s1 s3" using collects_trans c2 by blast
  have f: "pending_delete_txns s3 = pending_delete_txns s @ to_retire" "reclaimable_txns s3 = reclaimable_txns s1" using gc_frame [of to_retire wm s1] by (simp_all add: s3_def s2_def s1_def)
  have "ended s3 (snd e) (dead s3)" if "e \<in> set (pending_delete_txns s) \<or> e \<in> set to_retire" for e
    using that p1 tr collects_ended [OF c3, of "snd e" "dead s1" "dead s3"] collects_dead(1) [OF c3] by blast
  then have r3: "retired_ok s3" using collects_ended [OF c3 q1] unfolding retired_ok_def f by simp
  have "RetireTransaction t rts s = (if to_retire = [] then s1 else TryDrainRetiredTransactions s3)"
    unfolding RetireTransaction_def Let_def wm_def [symmetric] q_def [symmetric] found_def [symmetric] to_retire_def [symmetric] s1_def [symmetric] s2_def [symmetric] s3_def [symmetric] ..
  then show ?thesis using collects_kept [OF inv c1 r1] drain_kept [OF inv collects_trans [OF c1 c3] r3] by simp
qed

lemma background_kept:
  assumes inv: "tm_inv s"
  shows "snapshots_kept a s (VersionReadGuard_enter i s)" "snapshots_kept a s (VersionReadGuard_exit i s)" "snapshots_kept a s (s\<lparr>reader_epochs := es\<rparr>)"
    "snapshots_kept a s (snd (BeginStaticCheckpoint n s))" "snapshots_kept a s (EndStaticCheckpoint s)"
proof -
  have r: "retired_ok s" using tm_invD(4) [OF inv] .
  have rk: "retired_ok s'" if "collects s s'" "reclaimable_txns s' = reclaimable_txns s" "pending_delete_txns s' = pending_delete_txns s" for s'
    using r collects_ended [OF that(1)] collects_dead(1) [OF that(1)] unfolding retired_ok_def that(2,3) by fastforce
  have c: "collects s (s\<lparr>reader_epochs := es\<rparr>)" "collects s (s\<lparr>checkpoint_in_progress := b\<rparr>)" for es b using collects_refl [of s] by (simp_all add: collects_def)
  have k: "snapshots_kept a s (s\<lparr>reader_epochs := es\<rparr>)" "snapshots_kept a s (s\<lparr>checkpoint_in_progress := b\<rparr>)" for es b
    using collects_kept [OF inv c(1) rk [OF c(1)]] collects_kept [OF inv c(2) rk [OF c(2)]] by simp_all
  show "snapshots_kept a s (VersionReadGuard_enter i s)" "snapshots_kept a s (s\<lparr>reader_epochs := es\<rparr>)" "snapshots_kept a s (snd (BeginStaticCheckpoint n s))" "snapshots_kept a s (EndStaticCheckpoint s)"
    using k by (simp_all add: VersionReadGuard_enter_def BeginStaticCheckpoint_def EndStaticCheckpoint_def)
  show "snapshots_kept a s (VersionReadGuard_exit i s)" using drain_kept [OF inv c(1) rk [OF c(1)]] k(1) by (simp add: VersionReadGuard_exit_def Let_def)
qed

subsection \<open>Vacuum\<close>

text \<open>Stable states go, deleted records with them.\<close>

definition vacuums :: "txn_manager \<Rightarrow> txn_manager \<Rightarrow> bool" where
  "vacuums s s' \<longleftrightarrow> same_clock s s' \<and> txn_map s' = txn_map s \<and> reserved s' = reserved s \<and> mvcc_files s' = mvcc_files s
     \<and> (\<forall>k. tuple_states s' k = tuple_states s k \<and> heap s' k = heap s k
            \<or> tuple_states s' k = None \<and> (\<exists>st. tuple_states s k = Some st \<and> ts_owner st = INVALID_TXN_ID \<and> heap s' k = (if ts_is_deleted st then None else heap s k)))"

lemma vacuums_refl: "vacuums s s" by (simp add: vacuums_def same_clock_def)

lemma vacuums_trans:
  assumes a: "vacuums s s1" and b: "vacuums s1 s2"
  shows "vacuums s s2"
proof -
  have "tuple_states s2 k = tuple_states s k \<and> heap s2 k = heap s k
      \<or> tuple_states s2 k = None \<and> (\<exists>st. tuple_states s k = Some st \<and> ts_owner st = INVALID_TXN_ID \<and> heap s2 k = (if ts_is_deleted st then None else heap s k))" for k
  proof -
    have "tuple_states s1 k = tuple_states s k \<and> heap s1 k = heap s k
      \<or> tuple_states s1 k = None \<and> (\<exists>st. tuple_states s k = Some st \<and> ts_owner st = INVALID_TXN_ID \<and> heap s1 k = (if ts_is_deleted st then None else heap s k))"
      "tuple_states s2 k = tuple_states s1 k \<and> heap s2 k = heap s1 k
      \<or> tuple_states s2 k = None \<and> (\<exists>st. tuple_states s1 k = Some st \<and> ts_owner st = INVALID_TXN_ID \<and> heap s2 k = (if ts_is_deleted st then None else heap s1 k))"
      using a b unfolding vacuums_def by blast+
    then show ?thesis by (elim disjE conjE exE) auto
  qed
  then show ?thesis using a b by (simp add: vacuums_def same_clock_def)
qed

lemma vacuum_one: "vacuums s (vacuum_full k s)" "vacuums s (vacuum_pending k s)"
proof -
  have e: "vacuums s (s\<lparr>heap := (heap s)(k := if ts_is_deleted st then None else heap s k), quarantined := q, tuple_states := (tuple_states s)(k := None), publication_epoch := p\<rparr>)"
    if "tuple_states s k = Some st" "ts_owner st = INVALID_TXN_ID" for st p q using that by (simp add: vacuums_def same_clock_def)
  show "vacuums s (vacuum_full k s)"
  proof (cases "\<exists>st. tuple_states s k = Some st \<and> ts_owner st = INVALID_TXN_ID")
    case True
    then obtain st where st: "tuple_states s k = Some st" "ts_owner st = INVALID_TXN_ID" by blast
    then show ?thesis using e [OF st, where q = "if ts_is_deleted st then insert k (quarantined s) else quarantined s" and p = "publication_epoch (vacuum_full k s)"]
      by (cases "ts_is_deleted st") (simp_all add: vacuum_full_def EraseTupleStateLocked_def quarantine_slot_def bump_publication_def)
  qed (use vacuums_refl in \<open>auto simp: vacuum_full_def split: option.splits\<close>)
  show "vacuums s (vacuum_pending k s)"
  proof (cases "\<exists>st. tuple_states s k = Some st \<and> ts_owner st = INVALID_TXN_ID \<and> ts_is_deleted st")
    case True
    then obtain st where st: "tuple_states s k = Some st" "ts_owner st = INVALID_TXN_ID" "ts_is_deleted st" by blast
    then show ?thesis using e [OF st(1,2), where q = "insert k (quarantined s)" and p = "publication_epoch (vacuum_pending k s)"]
      by (simp add: vacuum_pending_def EraseTupleStateLocked_def quarantine_slot_def bump_publication_def)
  qed (use vacuums_refl in \<open>auto simp: vacuum_pending_def split: option.splits\<close>)
qed

lemma vacuums_fold: "(\<And>k s. vacuums s (f k s)) \<Longrightarrow> vacuums s (fold f ks s)"
proof (induction ks arbitrary: s)
  case (Cons k ks)
  then show ?case using vacuums_trans [of s "f k s"] by simp
qed (simp add: vacuums_refl)

lemma vacuums_all: "vacuums s (VacuumCommittedDeletes all s)"
proof -
  have v: "vacuums s (s\<lparr>vacuum_tracking_active := b, pending_committed_deletes := ds\<rparr>)" "vacuums s (s\<lparr>pending_committed_deletes := ds\<rparr>)" for b ds
    by (simp_all add: vacuums_def same_clock_def)
  have f: "vacuums s (fold vacuum_full ks s)" "vacuums s (fold vacuum_pending ks s)" for s ks by (rule vacuums_fold, rule vacuum_one)+
  show ?thesis unfolding VacuumCommittedDeletes_def using vacuums_trans [OF v(1) f(1)] vacuums_trans [OF v(2) f(2)] by simp
qed

lemma vacuum_step:
  assumes inv: "tm_inv s" and v: "vacuums s s'"
  shows "tm_inv s'" "committed_at k (last_commit_ts s') s' = committed_at k (last_commit_ts s) s"
proof -
  have f: "same_clock s s'" "txn_map s' = txn_map s" "reserved s' = reserved s" "mvcc_files s' = mvcc_files s" using v by (auto simp: vacuums_def)
  have k: "tuple_states s' k = tuple_states s k \<and> heap s' k = heap s k
      \<or> tuple_states s' k = None \<and> (\<exists>st. tuple_states s k = Some st \<and> ts_owner st = INVALID_TXN_ID \<and> heap s' k = (if ts_is_deleted st then None else heap s k))" for k
    using v by (simp add: vacuums_def)
  have p: "pub_ts s' = pub_ts s" using f(1) by (simp add: pub_ts_def same_clock_def)
  then have a: "active y s' = active y s" "published y s' = published y s" "finished y s' = finished y s" for y by (simp_all add: active_def published_def finished_def)
  have d: "dead s' = dead s" using f(1,2) a by (auto simp: dead_def same_clock_def fun_eq_iff)
  have e: "ext s s'" using f(1,2) a d by (auto simp: ext_def same_clock_def)
  have ow: "owner s' k = owner s k" for k using k [of k] by (auto simp: owner_def)
  have u: "untouched k s s'" if "tuple_states s' k = tuple_states s k \<and> heap s' k = heap s k" for k using that f a keeps_txn_refl by (auto simp: untouched_def)
  have last: "last_commit_ts s' = last_commit_ts s" using f(1) by (simp add: same_clock_def)
  have "state_ok s' k st" if st: "tuple_states s' k = Some st" for k st
  proof -
    have s: "tuple_states s' k = tuple_states s k \<and> heap s' k = heap s k" using k [of k] st by auto
    then show ?thesis using state_ok_untouched [OF tm_invD(6) [OF inv] _ e u [OF s]] st last by simp
  qed
  moreover have "clock_ok s'" "commits_distinct s'" "pubs_ok s'" using tm_invD(1,3,7) [OF inv] f p by (simp_all add: clock_ok_def commits_distinct_def pubs_ok_def same_clock_def)
  moreover have "wm_ok s'" using tm_invD(2) [OF inv] f a by (simp add: wm_ok_def running_def same_clock_def txn_of_def)
  moreover have "retired_ok s'" using tm_invD(4) [OF inv] f a d by (simp add: retired_ok_def ended_def same_clock_def)
  moreover have "txn_ok s' t x" if "txn_map s' t = Some x" for t x using tm_invD(5) [OF inv] that f a p ow by (simp add: txn_ok_def same_clock_def)
  ultimately show i: "tm_inv s'" by (simp add: tm_inv_def)
  have r: "readable s (last_commit_ts s)" "readable s' (last_commit_ts s)" "0 \<le> last_commit_ts s" using readable_last [of s] readable_last [of s'] last tm_invD(1) [OF inv] by (simp_all add: clock_ok_def)
  show "committed_at k (last_commit_ts s') s' = committed_at k (last_commit_ts s) s"
  proof (cases "tuple_states s' k = tuple_states s k \<and> heap s' k = heap s k")
    case True
    show ?thesis using committed_untouched [OF inv e u [OF True] r tm_invD(1) [OF i]] last by auto
  next
    case False
    then obtain st where st: "tuple_states s' k = None" "tuple_states s k = Some st" "ts_owner st = INVALID_TXN_ID" "heap s' k = (if ts_is_deleted st then None else heap s k)" using k [of k] by blast
    have "ts_commit_ts st \<le> last_commit_ts s" using tm_invD(6) [OF inv st(2)] st(3) by (simp add: state_ok_def stable_ok_def)
    then show ?thesis using st by (simp add: committed_at_def)
  qed
qed

end
