(* ===== verification/Rmdb_Mvcc_Props.thy ===== *)
theory Rmdb_Mvcc_Props
  imports Rmdb_Mvcc_Gc
begin

text \<open>
  The properties of the version store: snapshots, atomic commits, aborts, the validation of a read against concurrent changes, and the order of publications.
\<close>

subsection \<open>Reachable states\<close>

inductive tm_run :: "(txn_id_t option \<Rightarrow> bool) \<Rightarrow> txn_manager \<Rightarrow> txn_manager \<Rightarrow> bool" for P where
  Start: "tm_run P s s"
| Step: "tm_run P s s1 \<Longrightarrow> P a \<Longrightarrow> tm_step a s1 s2 \<Longrightarrow> tm_run P s s2"

definition tm_reachable :: "txn_manager \<Rightarrow> bool" where
  "tm_reachable s \<longleftrightarrow> (\<exists>nid nts lts h. 0 \<le> nid \<and> 0 \<le> lts \<and> lts < nts \<and> tm_run (\<lambda>_. True) (TransactionManager_new nid nts lts h) s)"

lemma new_inv: "0 \<le> nid \<Longrightarrow> 0 \<le> lts \<Longrightarrow> lts < nts \<Longrightarrow> tm_inv (TransactionManager_new nid nts lts h)"
  by (simp add: tm_inv_def TransactionManager_new_def clock_ok_def wm_ok_def commits_distinct_def retired_ok_def pubs_ok_def pub_ts_def running_def wm_inv_def Watermark_new_def entries_ok_def first_read_def)

text \<open>Every step keeps the invariant, the other transactions, and the snapshots that are needed; the vacuum of a quiet system keeps the newest one.\<close>

lemma kept_sound: "snapshots_kept a s s' \<Longrightarrow> tm_inv s' \<and> others_kept a s s' \<and> (keeps_committed s s' \<or> Q)"
  by (simp add: snapshots_kept_def)

lemma step_sound:
  assumes step: "tm_step a s s'" and inv: "tm_inv s"
  shows "tm_inv s' \<and> others_kept a s s' \<and> (keeps_committed s s' \<or> (\<forall>t x. txn_map s t = Some x \<longrightarrow> active x s \<longrightarrow> a = Some t))"
  using step
proof cases
  case (Begin t)
  then show ?thesis using begin_step [OF inv] by blast
next
  case (Acquire t k old kind r)
  then show ?thesis using acquire_kept [OF inv, THEN kept_sound] by blast
next
  case (Append t w)
  then show ?thesis using append_kept [OF inv, THEN kept_sound] by blast
next
  case (Update t k w new)
  have "k \<in> wr_keys (txn_of t s)" using Update by (auto simp: wr_keys_def)
  then have "snapshots_kept (Some t) s (s\<lparr>heap := (heap s)(k \<mapsto> new), reserved := reserved s\<rparr>)" using heap_kept [OF inv, of t k "reserved s"] Update by blast
  then show ?thesis using Update kept_sound by simp
next
  case (Insert t k new)
  then show ?thesis using insert_kept [OF inv _ _ _ refl, THEN kept_sound] by blast
next
  case (Insert_heap t k new)
  then have "k \<in> wr_keys (txn_of t s)" unfolding wr_keys_def by force
  then show ?thesis using heap_kept [OF inv, of t k "reserved s - {k}", THEN kept_sound] Insert_heap by blast
next
  case (Statement_rollback t registered acq flags)
  then show ?thesis using rollback_kept [OF inv, THEN kept_sound] by blast
next
  case (Commit_begin t ok r)
  obtain x where "txn_map s t = Some x" "txn_state_of x = GROWING" "txn_of t s = x" using Commit_begin(2) by (auto simp: growing_def txn_of_def)
  then show ?thesis using commit_begin_step [OF inv] Commit_begin by blast
next
  case (Commit_durable t x)
  then show ?thesis using commit_durable_step [OF inv] by blast
next
  case (Commit_publish t x r)
  note e = commit_publish_eq [OF inv Commit_publish(2-5)]
  show ?thesis
  proof (cases "fst (hd (commit_publications s)) = commit_ts x")
    case True
    then show ?thesis using e publishing_step [OF inv Commit_publish(2-4) True] Commit_publish(1) by auto
  next
    case False
    then show ?thesis using e waiting_step [OF inv Commit_publish(2,4), THEN kept_sound] Commit_publish(1) by auto
  qed
next
  case (Abort t)
  obtain x where "txn_map s t = Some x" "txn_state_of x = GROWING" using Abort by (auto simp: growing_def)
  then show ?thesis using abort_step [OF inv] Abort by blast
next
  case (Retire t x)
  have "snapshots_kept a s s'" unfolding Retire(2) by (rule retire_kept [OF inv Retire(3,4)]) simp
  then show ?thesis by (rule kept_sound)
next
  case (Guard_enter i)
  then show ?thesis using background_kept(1) [OF inv, THEN kept_sound] by simp
next
  case (Guard_exit i)
  then show ?thesis using background_kept(2) [OF inv, THEN kept_sound] by simp
next
  case Guard_new
  then show ?thesis using background_kept(3) [OF inv, THEN kept_sound] by simp
next
  case (Checkpoint_begin n b)
  then show ?thesis using background_kept(4) [OF inv, of a n, THEN kept_sound] by simp
next
  case Checkpoint_end
  then show ?thesis using background_kept(5) [OF inv, THEN kept_sound] by simp
next
  case (Vacuum all)
  have "tm_inv s'" using vacuum_step(1) [OF inv vacuums_all] Vacuum(1) by simp
  moreover have "others_kept a s s'" using Vacuum(2) unfolding others_kept_def by metis
  ultimately show ?thesis using Vacuum(2) by blast
qed

lemma run_inv: "tm_run P s s' \<Longrightarrow> tm_inv s \<Longrightarrow> tm_inv s'"
  by (induction rule: tm_run.induct) (use step_sound in blast)+

lemma reachable_inv: "tm_reachable s \<Longrightarrow> tm_inv s"
  using run_inv new_inv by (auto simp: tm_reachable_def)

lemma reachable_step: "tm_reachable s \<Longrightarrow> tm_step a s s' \<Longrightarrow> tm_reachable s'"
  unfolding tm_reachable_def using tm_run.Step [of "\<lambda>_. True" _ s a s'] by blast

subsection \<open>What a reader sees\<close>

lemma read_value:
  assumes inv: "tm_inv s" and x: "txn_map s t = Some x" "active x s"
  shows "ReadVisibleTuple k (Some t) s = (if owner s k = t then Ret (if owned_deleted t s k then None else heap s k) else committed_at k (start_ts x) s)"
proof -
  have t: "0 \<le> t" using tm_invD(5) [OF inv x(1)] by (simp add: txn_ok_def)
  show ?thesis
  proof (cases "tuple_states s k")
    case None
    then show ?thesis using t by (simp add: ReadVisibleTuple_def ResolveVisibleTupleImpl_def committed_at_def owner_def split: option.split)
  next
    case (Some st)
    note so = tm_invD(6) [OF inv Some]
    have fd: "tk_fd k \<in> mvcc_files s" using so by (simp add: state_ok_def)
    show ?thesis
    proof (cases "heap s k")
      case None
      have "ts_owner st \<noteq> INVALID_TXN_ID" "ts_undo_head st = None" using so None by (auto simp: state_ok_def stable_ok_def owned_ok_def insert_ok_def update_ok_def split: if_splits)
      then show ?thesis using None Some by (simp add: ReadVisibleTuple_def committed_at_def owner_def walk_head_def)
    next
      case (Some latest)
      then show ?thesis using \<open>tuple_states s k = Some st\<close> fd t x(1)
        by (simp add: ReadVisibleTuple_def ResolveVisibleTupleImpl_def committed_at_def owner_def owned_deleted_def reader_id_def reader_ts_def)
    qed
  qed
qed

text \<open>Without a transaction, the reader sees what was committed last.\<close>

lemma read_latest:
  assumes inv: "tm_inv s"
  shows "ReadVisibleTuple k None s = committed_at k (last_commit_ts s) s"
proof (cases "tuple_states s k")
  case None
  then show ?thesis by (simp add: ReadVisibleTuple_def ResolveVisibleTupleImpl_def committed_at_def split: option.split)
next
  case (Some st)
  note so = tm_invD(6) [OF inv Some]
  have fd: "tk_fd k \<in> mvcc_files s" using so by (simp add: state_ok_def)
  have n: "ts_owner st \<noteq> INVALID_TXN_ID \<and> ts_undo_head st = None" if "heap s k = None"
    using so that by (auto simp: state_ok_def stable_ok_def owned_ok_def insert_ok_def update_ok_def split: if_splits)
  have c: "ts_commit_ts st \<le> last_commit_ts s" if "ts_owner st = INVALID_TXN_ID" using so that by (simp add: state_ok_def stable_ok_def)
  show ?thesis using n c Some fd
    by (cases "heap s k") (simp_all add: ReadVisibleTuple_def ResolveVisibleTupleImpl_def committed_at_def reader_id_def reader_ts_def walk_head_def)
qed

lemma read_defined:
  assumes inv: "tm_inv s" and x: "txn_map s t = Some x" "active x s"
  shows "\<exists>v. ReadVisibleTuple k (Some t) s = Ret v"
  using read_value [OF inv x] committed_defined [OF inv readable_start [OF x]] tm_invD(5) [OF inv x(1)] by (simp add: txn_ok_def)

text \<open>The steps of others do not change what a transaction reads.\<close>

lemma read_step:
  assumes inv: "tm_inv s" and step: "tm_step a s s'" and x: "txn_map s t = Some x" "active x s" and a: "a \<noteq> Some t"
  shows "ReadVisibleTuple k (Some t) s' = ReadVisibleTuple k (Some t) s \<and> (\<exists>g. txn_map s' t = Some (x\<lparr>tuple_state_gc_keys := g\<rparr>)) \<and> active x s'
    \<and> (owner s' k = t \<longleftrightarrow> owner s k = t) \<and> (owner s k = t \<longrightarrow> tuple_states s' k = tuple_states s k \<and> heap s' k = heap s k)"
proof -
  note ss = step_sound [OF step inv]
  obtain g where g: "txn_map s' t = Some (x\<lparr>tuple_state_gc_keys := g\<rparr>)" "active x s'" "\<And>k. owner s k = t \<Longrightarrow> tuple_states s' k = tuple_states s k \<and> heap s' k = heap s k"
    using ss a x unfolding others_kept_def by blast
  define x' where "x' = x\<lparr>tuple_state_gc_keys := g\<rparr>"
  have x': "txn_map s' t = Some x'" "active x' s'" "start_ts x' = start_ts x" "tuple_write_states x' = tuple_write_states x" using g by (simp_all add: x'_def active_def)
  have inv': "tm_inv s'" and kc: "keeps_committed s s'" using ss x a by auto
  have na: "txn_state_of x \<noteq> ABORTED" "txn_state_of x' \<noteq> ABORTED" using x(2) by (auto simp: active_def x'_def)
  have ow: "owner s' k = t \<longleftrightarrow> owner s k = t" for k using recorded_owned [OF inv x(1) na(1), of k] recorded_owned [OF inv' x'(1) na(2), of k] x'(4) by simp
  have r: "readable s (start_ts x)" "readable s' (start_ts x)" using readable_start [OF x] readable_start [OF x'(1,2)] x'(3) by simp_all
  have "0 \<le> start_ts x" "start_ts x \<le> last_commit_ts s" using tm_invD(5) [OF inv x(1)] by (auto simp: txn_ok_def)
  then have c: "committed_at k (start_ts x) s' = committed_at k (start_ts x) s" using kc r unfolding keeps_committed_def by metis
  have "ReadVisibleTuple k (Some t) s' = ReadVisibleTuple k (Some t) s" unfolding read_value [OF inv x] read_value [OF inv' x'(1,2)] x'(3) ow c using g(3) [of k] by (simp add: owned_deleted_def)
  then show ?thesis using g ow by blast
qed

lemma read_run:
  assumes "tm_run P s s'" "tm_inv s" "txn_map s t = Some x" "active x s" "\<And>a. P a \<Longrightarrow> a \<noteq> Some t"
  shows "ReadVisibleTuple k (Some t) s' = ReadVisibleTuple k (Some t) s \<and> (\<exists>g. txn_map s' t = Some (x\<lparr>tuple_state_gc_keys := g\<rparr>) \<and> active (x\<lparr>tuple_state_gc_keys := g\<rparr>) s')"
  using assms
proof (induction rule: tm_run.induct)
  case (Start s)
  then show ?case using same_transaction [of x] by auto
next
  case (Step s s1 a s2)
  then obtain g where g: "txn_map s1 t = Some (x\<lparr>tuple_state_gc_keys := g\<rparr>)" "active (x\<lparr>tuple_state_gc_keys := g\<rparr>) s1" by blast
  have "tm_inv s1" using run_inv [OF Step.hyps(1) Step.prems(1)] .
  then have "ReadVisibleTuple k (Some t) s2 = ReadVisibleTuple k (Some t) s1 \<and> (\<exists>g'. txn_map s2 t = Some (x\<lparr>tuple_state_gc_keys := g\<rparr>\<lparr>tuple_state_gc_keys := g'\<rparr>)) \<and> active (x\<lparr>tuple_state_gc_keys := g\<rparr>) s2"
    using read_step [OF _ Step.hyps(3) g] Step.prems(4) [OF Step.hyps(2)] by blast
  then show ?case using Step.IH [OF Step.prems] by (auto simp: active_def)
qed

lemma begin_reads:
  assumes inv: "tm_inv s" and b: "tm_begin s = (Ret t, s')"
  shows "ReadVisibleTuple k (Some t) s' = ReadVisibleTuple k None s"
proof -
  note st = begin_step [OF inv b]
  have s': "txn_map s' t = Some (Transaction_new\<lparr>txn_state_of := GROWING, start_ts := last_commit_ts s\<rparr>)" "tuple_states s' = tuple_states s" "last_commit_ts s' = last_commit_ts s"
    using b by (auto simp: tm_begin_def Let_def split: if_splits)
  obtain x where x: "txn_map s' t = Some x" "active x s'" "start_ts x = last_commit_ts s" using s'(1) by (auto simp: active_def)
  have "owner s k \<noteq> t"
  proof
    assume "owner s k = t"
    moreover have "0 \<le> t" using tm_invD(5) [OF st(1) x(1)] by (simp add: txn_ok_def)
    ultimately show False using tm_invD(6) [OF inv, of k] st(5) by (auto simp: owner_def state_ok_def split: option.splits)
  qed
  then have n: "owner s' k \<noteq> t" using s'(2) by (simp add: owner_def)
  have r: "readable s (last_commit_ts s)" "readable s' (last_commit_ts s)" "0 \<le> last_commit_ts s"
    using readable_last [of s] readable_last [of s'] s'(3) tm_invD(1) [OF inv] by (simp_all add: clock_ok_def)
  then have "committed_at k (last_commit_ts s) s' = committed_at k (last_commit_ts s) s" using st(2) unfolding keeps_committed_def by (metis order.refl)
  then show ?thesis using read_value [OF st(1) x(1,2)] n x(3) read_latest [OF inv] by simp
qed

text \<open>The newest committed record: that of the heap, or the first one in the undo log of the owner.\<close>

definition newest :: "tuple_key \<Rightarrow> txn_manager \<Rightarrow> byte list option" where
  "newest k s = (case tuple_states s k of None \<Rightarrow> heap s k
     | Some st \<Rightarrow> if ts_owner st = INVALID_TXN_ID then (if ts_is_deleted st then None else heap s k)
         else map_option u_record (Option.bind (ts_undo_head st) (\<lambda>l. GetUndoLogOptional l s)))"

lemma committed_newest:
  assumes inv: "tm_inv s" and r: "\<And>st. tuple_states s k = Some st \<Longrightarrow> if ts_owner st = INVALID_TXN_ID then last_commit_ts s \<le> r else \<exists>x. txn_map s (ts_owner st) = Some x \<and> start_ts x \<le> r"
  shows "committed_at k r s = Ret (newest k s)"
proof (cases "tuple_states s k")
  case (Some st)
  note so = tm_invD(6) [OF inv Some]
  show ?thesis
  proof (cases "ts_owner st = INVALID_TXN_ID")
    case True
    then show ?thesis using so Some r [OF Some] by (simp add: state_ok_def stable_ok_def committed_at_def newest_def)
  next
    case False
    then obtain x where x: "txn_map s (ts_owner st) = Some x" "owned_ok s k st (ts_owner st) x" "start_ts x \<le> r" using so r [OF Some] by (auto simp: state_ok_def)
    then show ?thesis using False Some
      by (auto simp: owned_ok_def insert_ok_def update_ok_def committed_at_def newest_def walk_head_def link_valid_def split: if_splits)
  qed
qed (simp add: committed_at_def newest_def)

lemma read_newest: "tm_inv s \<Longrightarrow> ReadVisibleTuple k None s = Ret (newest k s)"
proof -
  assume inv: "tm_inv s"
  have "if ts_owner st = INVALID_TXN_ID then last_commit_ts s \<le> last_commit_ts s else \<exists>x. txn_map s (ts_owner st) = Some x \<and> start_ts x \<le> last_commit_ts s" if "tuple_states s k = Some st" for st
    using tm_invD(6) [OF inv that] tm_invD(5) [OF inv] by (auto simp: state_ok_def txn_ok_def)
  then show ?thesis using committed_newest [OF inv] read_latest [OF inv] by simp
qed

subsection \<open>Snapshots\<close>

text \<open>
  C34. Snapshot reads. In every state that sessions and the background can reach, a transaction that has not ended reads each tuple without error, and whatever other transactions
  and the background do from there (writes, commits, aborts, collection of versions, a vacuum they are allowed to run), it reads the same record again. A transaction that begins
  reads what was committed last.
\<close>

theorem snapshot_reads_stable:
  assumes "tm_reachable s" "txn_map s t = Some x" "active x s" "tm_run (\<lambda>a. a \<noteq> Some t) s s'"
  shows "(\<exists>v. ReadVisibleTuple k (Some t) s = Ret v \<and> ReadVisibleTuple k (Some t) s' = Ret v)
    \<and> (tm_begin s = (Ret t0, s0) \<longrightarrow> ReadVisibleTuple k (Some t0) s0 = ReadVisibleTuple k None s)"
proof -
  note inv = reachable_inv [OF assms(1)]
  have "\<exists>v. ReadVisibleTuple k (Some t) s = Ret v \<and> ReadVisibleTuple k (Some t) s' = Ret v"
    using read_defined [OF inv assms(2,3)] read_run [OF assms(4) inv assms(2,3)] by auto
  then show ?thesis using begin_reads [OF inv] by blast
qed

text \<open>A publication that ends has installed its commit timestamp in the tuples of the transaction.\<close>

lemma publish_owned:
  assumes inv: "tm_inv s" and x: "txn_map s t = Some x" "txn_state_of x = COMMITTED" "active x s" and c: "commit_publish t s = (Ret (), s')" and ow: "owner s k = t"
  shows "ReadVisibleTuple k None s' = Ret (if owned_deleted t s k then None else heap s k)"
proof -
  have hd: "fst (hd (commit_publications s)) = commit_ts x" and "\<exists>e. s' = publishing t x e s" using commit_publish_eq [OF inv x c] by (auto split: if_splits)
  then obtain e where s': "s' = publishing t x e s" by blast
  have "0 \<le> t" using tm_invD(5) [OF inv x(1)] by (auto simp: txn_ok_def)
  then obtain st where st: "tuple_states s k = Some st" "ts_owner st = t" using ow by (auto simp: owner_def split: option.splits)
  have "tuple_states s' k = Some (st\<lparr>ts_owner := INVALID_TXN_ID, ts_commit_ts := commit_ts x\<rparr>)" "heap s' k = heap s k" "last_commit_ts s' = commit_ts x"
    using st by (simp_all add: s' publishing_def published_state_def)
  then have "committed_at k (last_commit_ts s') s' = Ret (if owned_deleted t s k then None else heap s k)" using st by (simp add: committed_at_def owned_deleted_def)
  then show ?thesis using read_latest [OF publishing_step(1) [OF inv x hd, of e, folded s']] by simp
qed

text \<open>
  C35. Commits are atomic and first committers win. When the commit of a transaction is published, every tuple it owns gets the record it reads for it itself, and all other tuples keep the record that was
  committed last. No other transaction committed a change to a tuple it owns since its snapshot: the snapshot still holds what was committed last.
\<close>

theorem commit_publishes_atomically:
  assumes "tm_reachable s" "txn_map s t = Some x" "txn_state_of x = COMMITTED" "active x s" "commit_publish t s = (Ret (), s')"
  shows "ReadVisibleTuple k None s' = (if owner s k = t then ReadVisibleTuple k (Some t) s else ReadVisibleTuple k None s)
    \<and> (owner s k = t \<longrightarrow> committed_at k (start_ts x) s = ReadVisibleTuple k None s)"
proof -
  note inv = reachable_inv [OF assms(1)] and x = assms(2-4)
  have hd: "fst (hd (commit_publications s)) = commit_ts x" and "\<exists>e. s' = publishing t x e s"
    using commit_publish_eq [OF inv assms(2-5)] by (auto split: if_splits)
  then obtain e where s': "s' = publishing t x e s" by blast
  note p = publishing_step(1) [OF inv x hd, of e, folded s']
  show ?thesis
  proof (cases "owner s k = t")
    case True
    have t: "0 \<le> t" "0 \<le> start_ts x" "start_ts x \<le> last_commit_ts s" using tm_invD(5) [OF inv x(1)] by (auto simp: txn_ok_def)
    obtain st where st: "tuple_states s k = Some st" "ts_owner st = t" "t \<noteq> INVALID_TXN_ID" using True t by (auto simp: owner_def split: option.splits)
    have "committed_at k (start_ts x) s = Ret (newest k s)" by (rule committed_newest [OF inv]) (use st x(1) in auto)
    then show ?thesis using True publish_owned [OF inv x assms(5) True] read_newest [OF inv] read_value [OF inv x(1,3)] by simp
  next
    case False
    have st: "tuple_states s' k = tuple_states s k" "heap s' k = heap s k" using False by (cases "tuple_states s k"; simp add: s' publishing_def published_state_def owner_def)+
    have "newest k s' = newest k s"
    proof (cases "tuple_states s k")
      case (Some z)
      have "txn_map s' (ts_owner z) = txn_map s (ts_owner z)" using False Some by (simp add: s' publishing_def owner_def)
      then show ?thesis using st Some tm_invD(6) [OF inv Some] by (auto simp: newest_def state_ok_def owned_ok_def insert_ok_def update_ok_def GetUndoLogOptional_def split: if_splits)
    qed (use st in \<open>simp add: newest_def\<close>)
    then show ?thesis using False read_newest [OF p] read_newest [OF inv] by simp
  qed
qed

text \<open>
  C36. Aborts leave no trace. After an abort the last committed records are what they were; the transaction owns no tuple any more, and every tuple it owned has its last committed record back in the heap file.
\<close>

theorem abort_restores:
  assumes "tm_reachable s" "growing t s"
  shows "ReadVisibleTuple k None (tm_abort t s) = ReadVisibleTuple k None s \<and> owner (tm_abort t s) k \<noteq> t
    \<and> (owner s k = t \<longrightarrow> Ret (heap (tm_abort t s) k) = ReadVisibleTuple k None s)"
proof -
  note inv = reachable_inv [OF assms(1)]
  obtain x where x: "txn_map s t = Some x" "txn_state_of x = GROWING" using assms(2) by (auto simp: growing_def)
  note a = abort_step [OF inv x]
  have "readable (tm_abort t s) (last_commit_ts s)" "0 \<le> last_commit_ts s" using readable_last [of "tm_abort t s"] a(5) tm_invD(1) [OF inv] by (simp_all add: clock_ok_def)
  then have "committed_at k (last_commit_ts s) (tm_abort t s) = committed_at k (last_commit_ts s) s" using a(2) readable_last [of s] unfolding keeps_committed_def by (metis order.refl)
  then have r: "ReadVisibleTuple k None (tm_abort t s) = ReadVisibleTuple k None s" using read_latest [OF a(1)] read_latest [OF inv] a(5) by simp
  have "newest k (tm_abort t s) = heap (tm_abort t s) k" if "owner s k = t" using a(6) [OF that] by (auto simp: newest_def split: option.split)
  then show ?thesis using r a(4) read_newest [OF a(1), of k] by auto
qed

subsection \<open>The order of publications\<close>

fun publish_all :: "txn_id_t list \<Rightarrow> txn_manager \<Rightarrow> txn_manager option" where
  "publish_all [] s = Some s"
| "publish_all (t # ts) s = (case commit_publish t s of (Ret _, s') \<Rightarrow> publish_all ts s' | _ \<Rightarrow> None)"

lemma publish_head:
  assumes inv: "tm_inv s" and d: "\<And>t x. txn_map s t = Some x \<Longrightarrow> txn_state_of x \<noteq> SHRINKING" and p: "commit_publications s = e # ps"
  shows "\<exists>t s'. commit_publish t s = (Ret (), s') \<and> tm_inv s' \<and> commit_publications s' = ps \<and> last_commit_ts s' = fst e \<and> (\<forall>t x. txn_map s' t = Some x \<longrightarrow> txn_state_of x \<noteq> SHRINKING)"
proof -
  obtain t x where x: "txn_map s t = Some x" "txn_state_of x = COMMITTED" "commit_ts x = fst e" using tm_invD(7) [OF inv] p d unfolding pubs_ok_def pub_ts_def by fastforce
  have a: "active x s" using x p by (simp add: active_def pub_ts_def)
  have hd: "fst (hd (commit_publications s)) = commit_ts x" using p x by simp
  obtain r s' where cp: "commit_publish t s = (r, s')" by fastforce
  then obtain e' where s': "r = Ret ()" "s' = publishing t x e' s" using commit_publish_eq [OF inv x(1,2) a cp] hd by auto
  have "sorted_wrt (<) (map fst (e # ps))" using tm_invD(1) [OF inv] p by (simp add: clock_ok_def)
  then have "filter (\<lambda>q. fst q \<noteq> fst e) (e # ps) = ps" by (auto simp: filter_id_conv)
  then have "commit_publications s' = ps" "last_commit_ts s' = fst e" using p x(3) by (simp_all add: s'(2) publishing_def)
  moreover have "txn_state_of y \<noteq> SHRINKING" if "txn_map s' t' = Some y" for t' y using that d x(2) by (auto simp: s'(2) publishing_def split: if_splits)
  moreover have "tm_inv s'" using publishing_step(1) [OF inv x(1,2) a hd] s'(2) by simp
  ultimately show ?thesis using cp s'(1) by blast
qed

lemma publish_all_ok:
  assumes "tm_inv s" "\<And>t x. txn_map s t = Some x \<Longrightarrow> txn_state_of x \<noteq> SHRINKING"
  shows "\<exists>ts s'. length ts = length (commit_publications s) \<and> publish_all ts s = Some s' \<and> commit_publications s' = [] \<and> last_commit_ts s' = last (last_commit_ts s # map fst (commit_publications s))"
  using assms
proof (induction "commit_publications s" arbitrary: s)
  case Nil
  then show ?case by (intro exI [of _ "[]"] exI [of _ s]) simp
next
  case (Cons e ps)
  obtain t s1 where s1: "commit_publish t s = (Ret (), s1)" "tm_inv s1" "commit_publications s1 = ps" "last_commit_ts s1 = fst e" "\<And>t x. txn_map s1 t = Some x \<Longrightarrow> txn_state_of x \<noteq> SHRINKING"
    using publish_head [OF Cons.prems(1) _ Cons.hyps(2) [symmetric]] Cons.prems(2) by blast
  have "\<exists>ts s'. length ts = length (commit_publications s1) \<and> publish_all ts s1 = Some s' \<and> commit_publications s' = [] \<and> last_commit_ts s' = last (last_commit_ts s1 # map fst (commit_publications s1))"
    using Cons.hyps(1) [OF s1(3) [symmetric] s1(2)] s1(5) by blast
  then obtain ts s' where "length ts = length ps" "publish_all ts s1 = Some s'" "commit_publications s' = []" "last_commit_ts s' = last (fst e # map fst ps)" unfolding s1(3,4) by blast
  then show ?case using s1(1) Cons.hyps(2) [symmetric] by (intro exI [of _ "t # ts"] exI [of _ s']) simp
qed

text \<open>
  C37. Publications make progress, in order. A commit that is durable is published at once when its timestamp is the least one reserved, and waits otherwise; it never fails. When all reserved commits are durable,
  publishing them one after the other empties the list of publications and moves the visible prefix to the last reserved timestamp.
\<close>

theorem publication_progress:
  assumes "tm_reachable s"
  shows "(txn_map s t = Some x \<longrightarrow> txn_state_of x = COMMITTED \<longrightarrow> active x s \<longrightarrow> fst (commit_publish t s) = (if commit_ts x = Min (pub_ts s) then Ret () else Wait))
    \<and> ((\<forall>t x. txn_map s t = Some x \<longrightarrow> txn_state_of x \<noteq> SHRINKING) \<longrightarrow>
        (\<exists>ts s'. length ts = length (commit_publications s) \<and> publish_all ts s = Some s' \<and> commit_publications s' = [] \<and> last_commit_ts s' = last (last_commit_ts s # map fst (commit_publications s))))"
proof -
  note inv = reachable_inv [OF assms]
  have "fst (commit_publish t s) = (if commit_ts x = Min (pub_ts s) then Ret () else Wait)" if x: "txn_map s t = Some x" "txn_state_of x = COMMITTED" "active x s"
  proof -
    have ne: "commit_publications s \<noteq> []" using x by (auto simp: active_def pub_ts_def)
    have "sorted_wrt (<) (map fst (commit_publications s))" using tm_invD(1) [OF inv] by (simp add: clock_ok_def)
    then have m: "Min (pub_ts s) = fst (hd (commit_publications s))" using ne by (cases "commit_publications s") (auto simp: pub_ts_def intro!: Min_eqI)
    obtain r s' where cp: "commit_publish t s = (r, s')" by fastforce
    then show ?thesis using commit_publish_eq [OF inv x cp] m by (auto split: if_splits)
  qed
  then show ?thesis using publish_all_ok [OF inv] by blast
qed

subsection \<open>Reads against concurrent changes\<close>

text \<open>A change of the state of a tuple moves the publication epoch of its shard, and so does a change of its record by anyone but its owner.\<close>

definition epoch_kept :: "txn_id_t option \<Rightarrow> tuple_key \<Rightarrow> txn_manager \<Rightarrow> txn_manager \<Rightarrow> bool" where
  "epoch_kept a k s s' \<longleftrightarrow> mvcc_files s \<subseteq> mvcc_files s' \<and> GetTuplePublicationEpoch k s \<le> GetTuplePublicationEpoch k s'
     \<and> (GetTuplePublicationEpoch k s' = GetTuplePublicationEpoch k s \<longrightarrow> tuple_states s' k = tuple_states s k \<and> (heap s' k = heap s k \<or> owner s k \<noteq> INVALID_TXN_ID \<and> a = Some (owner s k)))"

lemma epoch_kept_refl: "epoch_kept a k s s" by (simp add: epoch_kept_def)

lemma epoch_kept_trans:
  assumes "epoch_kept a k s s1" "epoch_kept a k s1 s2"
  shows "epoch_kept a k s s2"
  using assms unfolding epoch_kept_def owner_def by (smt (verit) dual_order.trans le_antisym)

lemma epoch_kept_fold: "(\<And>e s. e \<in> set es \<Longrightarrow> epoch_kept a k s (f e s)) \<Longrightarrow> epoch_kept a k s (fold f es s)"
proof (induction es arbitrary: s)
  case (Cons e es)
  then show ?case using epoch_kept_trans [of a k s "f e s"] by simp
qed (simp add: epoch_kept_refl)

lemma epoch_same:
  "tuple_states s' = tuple_states s \<Longrightarrow> publication_epoch s' = publication_epoch s \<Longrightarrow> mvcc_files s \<subseteq> mvcc_files s' \<Longrightarrow> heap s' k = heap s k \<or> owner s k \<noteq> INVALID_TXN_ID \<and> a = Some (owner s k) \<Longrightarrow>
     epoch_kept a k s s'"
  by (simp add: epoch_kept_def GetTuplePublicationEpoch_def)

lemma epoch_bump:
  assumes "tuple_states s' = (tuple_states s)(j := z)" "publication_epoch s' = (publication_epoch s)(TupleStateShardIndex j := Suc (publication_epoch s (TupleStateShardIndex j)))"
    "mvcc_files s \<subseteq> mvcc_files s'" "\<And>k. k \<noteq> j \<Longrightarrow> heap s' k = heap s k"
  shows "epoch_kept a k s s'"
  using assms by (cases "k = j") (auto simp: epoch_kept_def GetTuplePublicationEpoch_def)

lemmas bump_defs = AssignTupleStateLocked_def EraseTupleStateLocked_def bump_publication_def set_state_def

lemma epoch_tuple_ops:
  "epoch_kept a k s (publish_state t ts j s)" "epoch_kept a k s (restore_state j w s)" "epoch_kept a k s (restore_flag t c s)" "epoch_kept a k s (release_owner t j s)"
  "epoch_kept a k s (gc_state wm j s)" "epoch_kept a k s (vacuum_full j s)" "epoch_kept a k s (vacuum_pending j s)"
proof -
  note b = epoch_bump [of _ s j]
  show "epoch_kept a k s (publish_state t ts j s)" "epoch_kept a k s (release_owner t j s)"
    by (cases "tuple_states s j"; simp add: publish_state_def release_owner_def bump_defs epoch_kept_refl; intro impI epoch_bump [of _ s j]; simp)+
  show "epoch_kept a k s (gc_state wm j s)"
    by (cases "tuple_states s j"; simp add: gc_state_def bump_defs epoch_kept_refl; intro impI epoch_bump [of _ s j]; simp)
  show "epoch_kept a k s (restore_state j w s)"
    by (auto simp: restore_state_def bump_defs epoch_kept_refl intro!: epoch_bump [of _ s j])
  show "epoch_kept a k s (restore_flag t c s)"
    by (cases "tuple_states s (fst c)"; simp add: restore_flag_def bump_defs epoch_kept_refl; intro impI epoch_bump [of _ s "fst c"]; simp)
  show "epoch_kept a k s (vacuum_full j s)" "epoch_kept a k s (vacuum_pending j s)"
    by (cases "tuple_states s j"; simp add: vacuum_full_def vacuum_pending_def quarantine_slot_def bump_defs epoch_kept_refl; intro impI conjI epoch_bump [of _ s j]; simp)+
qed

lemma epoch_acquire:
  assumes inv: "tm_inv s" and g: "growing t s" and a: "AcquireWriteAndRecord j old t kind s = (r, s')"
  shows "epoch_kept (Some t) k s s'"
proof -
  obtain x where x: "txn_map s t = Some x" "txn_state_of x = GROWING" using g by (auto simp: growing_def)
  have t: "0 \<le> t" "0 \<le> start_ts x" using tm_invD(5) [OF inv x(1)] by (auto simp: txn_ok_def)
  have new: ?thesis if c: "st = (case tuple_states s j of None \<Rightarrow> TupleState_new | Some st \<Rightarrow> st)" "ts_owner st = INVALID_TXN_ID" "ts_commit_ts st \<le> start_ts x" "\<not> ts_is_deleted st" for st
  proof -
    have s': "s' = acquired j old t (kind = KIND_DELETE) st x s" using acquire_new [OF inv x(1) c, of old kind] a by simp
    show ?thesis by (rule epoch_bump [of _ s j]) (auto simp: s' acquired_def)
  qed
  show ?thesis
  proof (cases "tuple_states s j")
    case None
    then show ?thesis by (intro new [of TupleState_new]) (simp_all add: TupleState_new_def t)
  next
    case (Some st)
    have tx: "txn_of t (MarkHasMvccState j s) = x" using x by (simp add: txn_of_def MarkHasMvccState_def)
    have sk: "tuple_states (MarkHasMvccState j s) j = Some st" using Some by (simp add: MarkHasMvccState_def)
    consider "ts_owner st = t" | "ts_owner st \<noteq> t" "ts_owner st \<noteq> INVALID_TXN_ID \<or> ts_commit_ts st > start_ts x \<or> ts_is_deleted st"
      | "ts_owner st = INVALID_TXN_ID" "ts_commit_ts st \<le> start_ts x" "\<not> ts_is_deleted st" by fastforce
    then show ?thesis
    proof cases
      case 1
      show ?thesis
      proof (cases "ts_is_deleted st = (kind = KIND_DELETE)")
        case True
        then have "st\<lparr>ts_is_deleted := (kind = KIND_DELETE)\<rparr> = st" by simp
        then show ?thesis using a 1 sk Some True
          by (intro epoch_same) (auto simp: AcquireWriteAndRecord_def try_emplace_def set_state_def MarkHasMvccState_def Let_def fun_upd_idem split: if_splits)
      next
        case False
        then show ?thesis using a 1 sk
          by (intro epoch_bump [of s' s j "Some (st\<lparr>ts_is_deleted := (kind = KIND_DELETE)\<rparr>)"]) (auto simp: AcquireWriteAndRecord_def try_emplace_def set_state_def bump_publication_def MarkHasMvccState_def Let_def split: if_splits)
      qed
    next
      case 2
      then show ?thesis using a sk tx by (intro epoch_same) (auto simp: AcquireWriteAndRecord_def try_emplace_def Let_def MarkHasMvccState_def split: if_splits)
    next
      case 3
      then show ?thesis using new [of st] Some by simp
    qed
  qed
qed

lemma epoch_abort:
  assumes inv: "tm_inv s" and x: "txn_map s t = Some x"
  shows "epoch_kept (Some t) k s (tm_abort t s)"
proof -
  define ws where "ws = rev (write_set x)"
  define m where "m = (\<lambda>k. the (map_of (tuple_write_states x) k))"
  define s1 where "s1 = upd_txn t (\<lambda>x. x\<lparr>txn_state_of := ABORTED\<rparr>) s"
  define s3 where "s3 = upd_txn t (\<lambda>x. x\<lparr>tuple_state_gc_keys := by_shard (map fst (tuple_write_states x))\<rparr>) (upd_txn t (\<lambda>x. x\<lparr>write_set := []\<rparr>) (fold undo_write ws s1))"
  have t: "0 \<le> t" "\<And>k. k \<in> wr_keys x \<Longrightarrow> owner s k = t" using tm_invD(5) [OF inv x] by (auto simp: txn_ok_def)
  obtain h q r where u: "fold undo_write ws s = s\<lparr>heap := h, quarantined := q, reserved := r\<rparr>" using undo_writes by blast
  have f: "tuple_states (fold undo_write ws s1) = tuple_states s" "publication_epoch (fold undo_write ws s1) = publication_epoch s" "mvcc_files (fold undo_write ws s1) = mvcc_files s" "heap (fold undo_write ws s1) = h"
    unfolding s1_def upd_txn_def undo_write_frame u by simp_all
  have "h k = heap s k \<or> owner s k = t" using undo_writes_heap [of "write_set x" s k] find_wr_keys [of k x] t(2) [of k] u by (auto simp: ws_def split: option.splits)
  moreover have "tuple_states (f s0) = tuple_states s0 \<and> publication_epoch (f s0) = publication_epoch s0 \<and> mvcc_files (f s0) = mvcc_files s0 \<and> heap (f s0) = heap s0"
    if "f = upd_txn t g" for f g s0 using that by (simp add: upd_txn_def)
  ultimately have e: "epoch_kept (Some t) k s (upd_txn t g (upd_txn t g' (fold undo_write ws s1)))" for g g' using f t(1) by (intro epoch_same) (auto simp: upd_txn_def)
  have r: "epoch_kept (Some t) k s0 (fold (\<lambda>k. restore_state k (m k)) ks s0)" for s0 ks by (rule epoch_kept_fold) (rule epoch_tuple_ops)
  have l: "epoch_kept (Some t) k s0 (FinishActiveTransactionForCheckpoint (upd_txn t g s0\<lparr>running_txns := w\<rparr>))" for s0 g w by (rule epoch_same) (auto simp: upd_txn_def finish_active)
  show ?thesis unfolding tm_abort_def txn_of_simp [OF x] Let_def ws_def [symmetric] s1_def [symmetric] m_def [symmetric]
    by (rule epoch_kept_trans [OF epoch_kept_trans [OF e r] l, unfolded m_def])
qed

lemma epoch_rollback: "epoch_kept a k s (statement_rollback flags registered acq t s)"
proof -
  have u: "epoch_kept a k s0 (upd_txn t f s0)" for f s0 by (rule epoch_same) (auto simp: upd_txn_def)
  have r: "epoch_kept a k s0 (RestoreTupleStateForStatement j t s0)" for j s0
    by (cases "map_of (tuple_write_states (txn_of t s0)) j") (auto simp: RestoreTupleStateForStatement_def epoch_kept_refl intro: epoch_kept_trans [OF epoch_tuple_ops(2) u])
  have f: "epoch_kept a k s (fold (restore_flag t) cs s)" "epoch_kept a k s1 (fold (\<lambda>k. RestoreTupleStateForStatement k t) ks s1)" "epoch_kept a k s1 (fold (release_owner t) ks s1)" for s1 cs ks
    by (rule epoch_kept_fold, rule epoch_tuple_ops r)+
  show ?thesis unfolding statement_rollback_def RestoreOwnedTupleFlags_def ReleaseWriteOwners_def by (rule epoch_kept_trans [OF epoch_kept_trans [OF f(1,2)] f(3)])
qed

lemma epoch_publish:
  assumes inv: "tm_inv s" and x: "txn_map s t = Some x" "txn_state_of x = COMMITTED" "active x s" and b: "commit_publish t s = (r, s')"
  shows "epoch_kept a k s s'"
proof -
  define ts where "ts = commit_ts x"
  define keys where "keys = by_shard (map fst (tuple_write_states x))"
  have aw: "epoch_kept a k s (snd (AwaitCommitPublicationTurn ts s))" by (rule epoch_same) (auto simp: AwaitCommitPublicationTurn_def Let_def)
  have co: "epoch_kept a k s1 (snd (CompleteCommitPublication ts s1))" for s1 by (rule epoch_same) (auto simp: CompleteCommitPublication_def)
  have fo: "epoch_kept a k s1 (fold (publish_state t ts) keys s1)" for s1 by (rule epoch_kept_fold) (rule epoch_tuple_ops)
  have up: "epoch_kept a k s1 (upd_txn t f (upd_txn t g s1))" for s1 f g by (rule epoch_same) (auto simp: upd_txn_def)
  have fi: "epoch_kept a k s1 (FinishActiveTransactionForCheckpoint (s1\<lparr>running_txns := w\<rparr>))" for s1 w by (rule epoch_same) (auto simp: finish_active)
  have ob: "epoch_kept a k s (snd (obind m f s0))" if "epoch_kept a k s (snd (m s0))" "\<And>y s1. epoch_kept a k s s1 \<Longrightarrow> epoch_kept a k s (snd (f y s1))"
    for m :: "txn_manager \<Rightarrow> unit outcome \<times> txn_manager" and f :: "unit \<Rightarrow> txn_manager \<Rightarrow> unit outcome \<times> txn_manager" and s0
    using that by (auto simp: obind_def split: prod.split outcome.split)
  have "epoch_kept a k s (snd (commit_publish t s))" unfolding commit_publish_def txn_of_simp [OF x(1)] Let_def ts_def [symmetric] keys_def [symmetric]
    by (intro ob aw) (auto intro: epoch_kept_trans [OF _ fi] epoch_kept_trans [OF _ co] epoch_kept_trans [OF _ up] epoch_kept_trans [OF _ fo])
  then show ?thesis using b by simp
qed

lemma step_epoch:
  assumes step: "tm_step a s s'" and inv: "tm_inv s"
  shows "epoch_kept a k s s'"
proof -
  have own: "owner s j = t \<Longrightarrow> growing t s \<Longrightarrow> owner s j \<noteq> INVALID_TXN_ID" for j t using tm_invD(5) [OF inv, of t] by (auto simp: growing_def txn_ok_def)
  have dr: "epoch_kept a k s0 (TryDrainRetiredTransactions s0)" for s0 by (rule epoch_same) (auto simp: TryDrainRetiredTransactions_def Let_def)
  have up: "epoch_kept a k s1 (upd_txn t f s1)" for s1 t f by (rule epoch_same) (auto simp: upd_txn_def)
  show ?thesis using step
  proof cases
    case (Begin t)
    then show ?thesis by (intro epoch_same) (auto simp: tm_begin_def Let_def split: if_splits)
  next
    case (Acquire t j old kind r)
    then show ?thesis using epoch_acquire [OF inv] by blast
  next
    case (Append t w)
    then show ?thesis using up by (simp add: append_write_record_def)
  next
    case (Update t j w new)
    then show ?thesis using own by (intro epoch_same) auto
  next
    case (Insert t j new)
    then show ?thesis by (intro epoch_bump [of s' s j]) (auto simp: append_write_record_def RecordInsert_def upd_txn_def bump_defs MarkHasMvccState_def Let_def)
  next
    case (Insert_heap t j new)
    then show ?thesis using own by (intro epoch_same) auto
  next
    case (Statement_rollback t registered acq flags)
    then show ?thesis using epoch_rollback by blast
  next
    case (Commit_begin t ok r)
    then obtain x where x: "txn_map s t = Some x" "txn_state_of x = GROWING" by (auto simp: growing_def)
    then obtain g where e: "s' = s\<lparr>pending_committed_deletes := pending_committed_deletes s', next_timestamp := next_timestamp s + 1,
             commit_publications := commit_publications s @ (if ok then [(next_timestamp s, False)] else []), txn_map := (txn_map s)(t \<mapsto> committing ok (next_timestamp s) g x)\<rparr>"
      using commit_begin_eq [OF inv x Commit_begin(4)] by blast
    show ?thesis by (subst e, rule epoch_same) simp_all
  next
    case (Commit_durable t x)
    then show ?thesis using up by (simp add: commit_durable_def)
  next
    case (Commit_publish t x r)
    then show ?thesis using epoch_publish [OF inv] by blast
  next
    case (Abort t)
    then show ?thesis using epoch_abort [OF inv] by (auto simp: growing_def)
  next
    case (Retire t x)
    have g: "epoch_kept a k s1 (GarbageCollectTupleStatesForRetired es wm s1)" for es wm s1 unfolding GarbageCollectTupleStatesForRetired_def gc_txn_def
      by (intro epoch_kept_fold epoch_kept_trans [OF up epoch_kept_fold]) (rule epoch_tuple_ops)
    have q: "epoch_kept a k s1 (s1\<lparr>reclaimable_txns := q, version_gc_epoch := v\<rparr>)" "epoch_kept a k s1 (s1\<lparr>pending_delete_txns := p\<rparr>)" for s1 q v p by (rule epoch_same; simp)+
    show ?thesis unfolding Retire(2) RetireTransaction_def Let_def using q(1) epoch_kept_trans [OF epoch_kept_trans [OF epoch_kept_trans [OF q(1) g] q(2)] dr] by simp
  next
    case (Guard_exit i)
    have "epoch_kept a k s (s\<lparr>reader_epochs := es\<rparr>)" for es by (rule epoch_same) simp_all
    then show ?thesis unfolding Guard_exit(2) VersionReadGuard_exit_def Let_def using epoch_kept_trans [OF _ dr] by auto
  next
    case (Vacuum all)
    have v: "epoch_kept a k s1 (fold vacuum_full ks s1)" "epoch_kept a k s1 (fold vacuum_pending ks s1)" for ks s1 by (rule epoch_kept_fold, rule epoch_tuple_ops)+
    have q: "epoch_kept a k s (s\<lparr>vacuum_tracking_active := b, pending_committed_deletes := ds\<rparr>)" "epoch_kept a k s (s\<lparr>pending_committed_deletes := ds\<rparr>)" for b ds by (rule epoch_same; simp)+
    show ?thesis unfolding Vacuum(1) VacuumCommittedDeletes_def using epoch_kept_trans [OF q(1) v(1)] epoch_kept_trans [OF q(2) v(2)] by simp
  qed (auto simp: VersionReadGuard_enter_def BeginStaticCheckpoint_def EndStaticCheckpoint_def intro!: epoch_same split: if_splits)
qed

lemma run_epoch:
  assumes "tm_run P s s'" "tm_inv s" "\<And>a. P a \<Longrightarrow> a \<noteq> Some t"
  shows "mvcc_files s \<subseteq> mvcc_files s' \<and> GetTuplePublicationEpoch k s \<le> GetTuplePublicationEpoch k s'
     \<and> (GetTuplePublicationEpoch k s' = GetTuplePublicationEpoch k s \<longrightarrow> tuple_states s' k = tuple_states s k \<and> (heap s' k = heap s k \<or> owner s k \<noteq> INVALID_TXN_ID \<and> owner s k \<noteq> t))"
  using assms
proof (induction rule: tm_run.induct)
  case (Step s s1 a s2)
  have e: "epoch_kept a k s1 s2" by (rule step_epoch [OF Step.hyps(3) run_inv [OF Step.hyps(1) Step.prems(1)]])
  have ih: "mvcc_files s \<subseteq> mvcc_files s1" "GetTuplePublicationEpoch k s \<le> GetTuplePublicationEpoch k s1"
    "GetTuplePublicationEpoch k s1 = GetTuplePublicationEpoch k s \<Longrightarrow> tuple_states s1 k = tuple_states s k \<and> (heap s1 k = heap s k \<or> owner s k \<noteq> INVALID_TXN_ID \<and> owner s k \<noteq> t)"
    using Step.IH [OF Step.prems] by blast+
  have "tuple_states s2 k = tuple_states s k \<and> (heap s2 k = heap s k \<or> owner s k \<noteq> INVALID_TXN_ID \<and> owner s k \<noteq> t)" if eq: "GetTuplePublicationEpoch k s2 = GetTuplePublicationEpoch k s"
  proof -
    have q: "GetTuplePublicationEpoch k s1 = GetTuplePublicationEpoch k s" "GetTuplePublicationEpoch k s2 = GetTuplePublicationEpoch k s1" using e ih(2) eq by (auto simp: epoch_kept_def)
    have i: "tuple_states s1 k = tuple_states s k" "owner s1 k = owner s k" "heap s1 k = heap s k \<or> owner s k \<noteq> INVALID_TXN_ID \<and> owner s k \<noteq> t" using ih(3) [OF q(1)] by (auto simp: owner_def)
    have "tuple_states s2 k = tuple_states s1 k" "heap s2 k = heap s1 k \<or> owner s k \<noteq> INVALID_TXN_ID \<and> a = Some (owner s k)" using e q(2) i(2) by (auto simp: epoch_kept_def)
    moreover have "a \<noteq> Some t" by (rule Step.prems(2) [OF Step.hyps(2)])
    ultimately show ?thesis using i by auto
  qed
  then show ?case using e ih(1,2) by (auto simp: epoch_kept_def)
qed simp

lemma resolve_other_owner: "owner s k \<noteq> INVALID_TXN_ID \<Longrightarrow> owner s k \<noteq> t \<Longrightarrow> tk_fd k \<in> mvcc_files s \<Longrightarrow> txn_map s t = Some x \<Longrightarrow>
    ResolveVisibleTupleImpl k latest (Some t) s = committed_at k (start_ts x) s"
  by (cases "tuple_states s k") (simp_all add: ResolveVisibleTupleImpl_def committed_at_def owner_def reader_id_def reader_ts_def)


subsection \<open>An example\<close>

text \<open>Transaction 2 updates the only record of a table and commits, while transaction 1 reads.\<close>

definition mv_key :: tuple_key where "mv_key = \<lparr>tk_fd = 3, tk_rid = \<lparr>rid_page = 1, rid_slot = 0\<rparr>\<rparr>"

definition mv_new :: txn_manager where "mv_new = TransactionManager_new 1 2 1 [mv_key \<mapsto> [1]]"

definition mv_begun :: txn_manager where "mv_begun = snd (tm_begin (snd (tm_begin mv_new)))"

definition mv_owned :: txn_manager where "mv_owned = snd (AcquireWriteAndRecord mv_key [1] 2 KIND_UPDATE mv_begun)"

definition mv_write :: write_record where "mv_write = \<lparr>wr_type = UPDATE_TUPLE, wr_key = mv_key, wr_old = Some [1], wr_new = Some [2]\<rparr>"

definition mv_logged :: txn_manager where "mv_logged = append_write_record mv_write 2 mv_owned"

definition mv_written :: txn_manager where "mv_written = mv_logged\<lparr>heap := (heap mv_logged)(mv_key \<mapsto> [2])\<rparr>"

definition mv_reserved :: txn_manager where "mv_reserved = snd (commit_begin True 2 mv_written)"

definition mv_durable :: txn_manager where "mv_durable = commit_durable 2 mv_reserved"

definition mv_published :: txn_manager where "mv_published = snd (commit_publish 2 mv_durable)"

lemma growing_state: "growing t s \<longleftrightarrow> map_option txn_state_of (txn_map s t) = Some GROWING"
  by (auto simp: growing_def)

lemma mv_reach: "tm_reachable mv_begun"
proof -
  have "tm_reachable mv_new" unfolding tm_reachable_def mv_new_def
    by (rule exI [of _ 1], rule exI [of _ 2], rule exI [of _ 1], rule exI [of _ "[mv_key \<mapsto> [1]]"]) (simp add: tm_run.Start)
  moreover have b: "fst (tm_begin mv_new) = Ret 1" "fst (tm_begin (snd (tm_begin mv_new))) = Ret 2" by code_simp+
  moreover have "tm_step (Some 1) mv_new (snd (tm_begin mv_new))" "tm_step (Some 2) (snd (tm_begin mv_new)) mv_begun"
    unfolding mv_begun_def by (rule tm_step.Begin, subst b [symmetric], simp)+
  ultimately show ?thesis using reachable_step by blast
qed

lemma mv_steps:
  "tm_step (Some 2) mv_begun mv_owned" "tm_step (Some 2) mv_owned mv_logged" "tm_step (Some 2) mv_logged mv_written" "tm_step (Some 2) mv_written mv_reserved" "tm_step (Some 2) mv_reserved mv_durable"
  "tm_step (Some 2) mv_durable mv_published"
proof -
  have "growing 2 mv_begun" "ReadVisibleTuple mv_key (Some 2) mv_begun = Ret (Some [1])" unfolding growing_state by code_simp+
  then show "tm_step (Some 2) mv_begun mv_owned" unfolding mv_owned_def by (rule tm_step.Acquire) (rule surjective_pairing)
  have "growing 2 mv_owned" "owner mv_owned (wr_key mv_write) = 2" "wr_type mv_write \<noteq> INSERT_TUPLE" "heap mv_owned (wr_key mv_write) = wr_old mv_write" "wr_old mv_write \<noteq> None"
    unfolding growing_state by code_simp+
  then show "tm_step (Some 2) mv_owned mv_logged" unfolding mv_logged_def by (rule tm_step.Append)
  have "growing 2 mv_logged" "owner mv_logged mv_key = 2" "mv_write \<in> set (write_set (txn_of 2 mv_logged))" "wr_type mv_write = UPDATE_TUPLE" "wr_key mv_write = mv_key" "wr_new mv_write = Some [2]"
    unfolding growing_state by code_simp+
  then show "tm_step (Some 2) mv_logged mv_written" unfolding mv_written_def by (rule tm_step.Update)
  have "growing 2 mv_written" "\<forall>k \<in> wr_keys (txn_of 2 mv_written). heap mv_written k \<noteq> None" unfolding growing_state by code_simp+
  then show "tm_step (Some 2) mv_written mv_reserved" unfolding mv_reserved_def by (intro tm_step.Commit_begin [OF _ _ surjective_pairing]) auto
  have "map_option txn_state_of (txn_map mv_reserved 2) = Some SHRINKING" by code_simp
  then show "tm_step (Some 2) mv_reserved mv_durable" unfolding mv_durable_def by (auto intro: tm_step.Commit_durable)
  have "map_option (\<lambda>x. (txn_state_of x, active x mv_durable)) (txn_map mv_durable 2) = Some (COMMITTED, True)" by code_simp
  then show "tm_step (Some 2) mv_durable mv_published" unfolding mv_published_def by (auto intro: tm_step.Commit_publish [OF _ _ _ surjective_pairing])
qed

lemma mv_run: "tm_run (\<lambda>a. a \<noteq> Some 1) mv_begun mv_published" "tm_run (\<lambda>a. a \<noteq> Some 1) mv_owned mv_written"
  by (rule tm_run.Step [OF _ _ mv_steps(6)] tm_run.Step [OF _ _ mv_steps(5)] tm_run.Step [OF _ _ mv_steps(4)] tm_run.Step [OF _ _ mv_steps(3)] tm_run.Step [OF _ _ mv_steps(2)]
      tm_run.Step [OF _ _ mv_steps(1)] tm_run.Start; simp?)+

lemma mv_reaches: "tm_reachable mv_owned" "tm_reachable mv_written" "tm_reachable mv_durable"
  using mv_reach mv_steps reachable_step by blast+

lemma mv_commits:
  obtains x where "txn_map mv_durable 2 = Some x" "txn_state_of x = COMMITTED" "active x mv_durable" "commit_publish 2 mv_durable = (Ret (), mv_published)"
proof -
  have "map_option (\<lambda>x. (txn_state_of x, active x mv_durable, commit_ts x = fst (hd (commit_publications mv_durable)))) (txn_map mv_durable 2) = Some (COMMITTED, True, True)" by code_simp
  then obtain x where x: "txn_map mv_durable 2 = Some x" "txn_state_of x = COMMITTED" "active x mv_durable" "fst (hd (commit_publications mv_durable)) = commit_ts x" by auto
  obtain r where r: "commit_publish 2 mv_durable = (r, mv_published)" by (metis mv_published_def surjective_pairing)
  then have "r = Ret ()" using commit_publish_eq [OF reachable_inv [OF mv_reaches(3)] x(1-3) r] x(4) by simp
  then show thesis using that x r by simp
qed

lemma mv_owner: "owner mv_durable mv_key = 2"
  by code_simp

lemma mv_new_record: "ReadVisibleTuple mv_key None mv_published = Ret (Some [2])"
proof -
  obtain x where x: "txn_map mv_durable 2 = Some x" "txn_state_of x = COMMITTED" "active x mv_durable" "commit_publish 2 mv_durable = (Ret (), mv_published)" by (rule mv_commits)
  have "(if owned_deleted 2 mv_durable mv_key then None else heap mv_durable mv_key) = Some [2]" by code_simp
  then show ?thesis using publish_owned [OF reachable_inv [OF mv_reaches(3)] x mv_owner] by simp
qed

text \<open>Transaction 1 reads the old record after the commit, a new reader the new one.\<close>

theorem snapshot_reads_stable_witness:
  "ReadVisibleTuple mv_key (Some 1) mv_begun = Ret (Some [1]) \<and> ReadVisibleTuple mv_key (Some 1) mv_published = Ret (Some [1]) \<and> ReadVisibleTuple mv_key None mv_published = Ret (Some [2])"
proof -
  obtain x where x: "txn_map mv_begun 1 = Some x" "active x mv_begun"
  proof -
    have "map_option (\<lambda>x. active x mv_begun) (txn_map mv_begun 1) = Some True" by code_simp
    then show thesis using that by auto
  qed
  have "ReadVisibleTuple mv_key (Some 1) mv_begun = Ret (Some [1])" by code_simp
  then show ?thesis using snapshot_reads_stable [OF mv_reach x mv_run(1), of mv_key] mv_new_record by auto
qed

theorem commit_publishes_atomically_witness:
  "ReadVisibleTuple mv_key None mv_durable = Ret (Some [1]) \<and> ReadVisibleTuple mv_key None mv_published = Ret (Some [2])"
proof -
  obtain x where x: "txn_map mv_durable 2 = Some x" "txn_state_of x = COMMITTED" "active x mv_durable" "commit_publish 2 mv_durable = (Ret (), mv_published)" by (rule mv_commits)
  have "ReadVisibleTuple mv_key None mv_durable = Ret (Some [1])" by code_simp
  then show ?thesis using commit_publishes_atomically [OF mv_reaches(3) x, of mv_key] mv_new_record by simp
qed

theorem abort_restores_witness: "heap mv_written mv_key = Some [2] \<and> heap (tm_abort 2 mv_written) mv_key = Some [1]"
proof -
  have f: "growing 2 mv_written" "owner mv_written mv_key = 2" "heap mv_written mv_key = Some [2]" unfolding growing_state by code_simp+
  moreover have "ReadVisibleTuple mv_key None mv_written = Ret (Some [1])" by code_simp
  ultimately show ?thesis using abort_restores [OF mv_reaches(2) f(1), of mv_key] by simp
qed

theorem publication_progress_witness: "fst (commit_publish 2 mv_durable) = Ret () \<and> commit_publications mv_durable = [(2, False)]"
proof -
  obtain x where x: "txn_map mv_durable 2 = Some x" "txn_state_of x = COMMITTED" "active x mv_durable" "commit_ts x = Min (pub_ts mv_durable)"
  proof -
    have "map_option (\<lambda>x. (txn_state_of x, active x mv_durable, commit_ts x = Min (pub_ts mv_durable))) (txn_map mv_durable 2) = Some (COMMITTED, True, True)" by code_simp
    then show thesis using that by auto
  qed
  have "commit_publications mv_durable = [(2, False)]" by code_simp
  then show ?thesis using publication_progress [OF mv_reaches(3), of 2 x] x by simp
qed


end
