(* ===== verification/Rmdb_Catalog.thy ===== *)
theory Rmdb_Catalog
  imports Rmdb_Index_Key Rmdb_Log_Scan
begin

text \<open>
  Column and table metadata (\<^verbatim>\<open>src/src/system/sm_meta.h\<close>), SQL values and conditions (\<^verbatim>\<open>src/src/common/common.h\<close>) and their evaluation on a record
  (\<^verbatim>\<open>src/src/execution/execution_common.h\<close>, \<^verbatim>\<open>executor_abstract.h\<close>). A record is the list of its bytes. A pointer into a record is the list of bytes from
  there to the end of the buffer; an access that needs more bytes than there are is a \<open>MemoryFault\<close>.

  \<open>schema_ok\<close> says that the columns lie inside the record and that integers and floating-point numbers have four bytes, \<open>cond_typed\<close> that a condition compares a
  column with a constant or a column of its type. Under both, binding and evaluating a condition never fails, and the value is \<open>cond_holds\<close>, the comparison of the
  two fields.
\<close>

subsection \<open>Exceptions of calls without a state\<close>

definition othen :: "'a outcome \<Rightarrow> ('a \<Rightarrow> 'b outcome) \<Rightarrow> 'b outcome" where
  "othen m f = (case m of Ret x \<Rightarrow> f x | Throw e \<Rightarrow> Throw e | Wait \<Rightarrow> Wait)"

lemma othen_simps [simp]: "othen (Ret x) f = f x" "othen (Throw e) f = Throw e" "othen Wait f = Wait"
  by (simp_all add: othen_def)

lemma othen_cong [fundef_cong]: "m = m' \<Longrightarrow> (\<And>x. m' = Ret x \<Longrightarrow> f x = f' x) \<Longrightarrow> othen m f = othen m' f'"
  by (simp add: othen_def split: outcome.split)

lemma othen_Ret_iff: "othen m f = Ret y \<longleftrightarrow> (\<exists>x. m = Ret x \<and> f x = Ret y)"
  by (cases m) simp_all

fun omap :: "('a \<Rightarrow> 'b outcome) \<Rightarrow> 'a list \<Rightarrow> 'b list outcome" where
  "omap f [] = Ret []"
| "omap f (x # xs) = othen (f x) (\<lambda>y. othen (omap f xs) (\<lambda>ys. Ret (y # ys)))"

lemma omap_cong [fundef_cong]: "xs = ys \<Longrightarrow> (\<And>x. x \<in> set ys \<Longrightarrow> f x = g x) \<Longrightarrow> omap f xs = omap g ys"
  by (induction ys arbitrary: xs) simp_all

lemma omap_Ret: "(\<And>x. x \<in> set xs \<Longrightarrow> f x = Ret (g x)) \<Longrightarrow> omap f xs = Ret (map g xs)"
  by (induction xs) simp_all

subsection \<open>Metadata\<close>

record tab_col =
  tc_tab :: string
  tc_col :: string

record col_meta =
  cm_tab :: string
  cm_name :: string
  cm_type :: col_type
  cm_len :: nat
  cm_offset :: nat

record index_meta =
  im_tab :: string
  im_col_tot_len :: nat
  im_cols :: "col_meta list"

record tab_meta =
  tm_name :: string
  tm_cols :: "col_meta list"
  tm_indexes :: "index_meta list"

definition col_is :: "tab_col \<Rightarrow> col_meta \<Rightarrow> bool" where
  "col_is target col \<longleftrightarrow> cm_tab col = tc_tab target \<and> cm_name col = tc_col target"

text \<open>\<open>AbstractExecutor::get_col\<close>: the position of the first column with that name; \<open>*get_col\<close> is the column there.\<close>

fun find_pos :: "('a \<Rightarrow> bool) \<Rightarrow> 'a list \<Rightarrow> nat option" where
  "find_pos P [] = None"
| "find_pos P (x # xs) = (if P x then Some 0 else map_option Suc (find_pos P xs))"

definition get_col_pos :: "col_meta list \<Rightarrow> tab_col \<Rightarrow> nat outcome" where
  "get_col_pos rec_cols target =
     (case find_pos (col_is target) rec_cols of None \<Rightarrow> Throw (ColumnNotFoundError (tc_tab target @ ''.'' @ tc_col target)) | Some pos \<Rightarrow> Ret pos)"

definition get_col :: "col_meta list \<Rightarrow> tab_col \<Rightarrow> col_meta outcome" where
  "get_col rec_cols target = othen (get_col_pos rec_cols target) (\<lambda>pos. Ret (rec_cols ! pos))"

definition get_table :: "(string \<rightharpoonup> tab_meta) \<Rightarrow> string \<Rightarrow> tab_meta outcome" where
  "get_table tabs tab_name = (case tabs tab_name of None \<Rightarrow> Throw (TableNotFoundError tab_name) | Some tab \<Rightarrow> Ret tab)"

subsection \<open>Values\<close>

text \<open>A \<open>float\<close> is its 32 bits.\<close>

record sql_value =
  v_type :: col_type
  v_int :: int
  v_float :: "32 word"
  v_str :: string
  v_raw :: "byte list option"

definition float_bytes :: "32 word \<Rightarrow> byte list" where
  "float_bytes w = le_enc 4 (uint w)"

definition set_float :: "32 word \<Rightarrow> sql_value \<Rightarrow> sql_value" where
  "set_float w v = v\<lparr>v_type := TYPE_FLOAT, v_float := w\<rparr>"

definition init_raw :: "nat \<Rightarrow> sql_value \<Rightarrow> sql_value outcome" where
  "init_raw len v =
     (if v_raw v \<noteq> None then Throw AssertionFailed
      else case v_type v of
        TYPE_INT \<Rightarrow> if len = 4 then Ret (v\<lparr>v_raw := Some (le_enc 4 (v_int v))\<rparr>) else Throw AssertionFailed
      | TYPE_FLOAT \<Rightarrow> if len = 4 then Ret (v\<lparr>v_raw := Some (float_bytes (v_float v))\<rparr>) else Throw AssertionFailed
      | TYPE_STRING \<Rightarrow> if len < length (v_str v) then Throw StringOverflowError
                       else Ret (v\<lparr>v_raw := Some (map char_byte (v_str v) @ replicate (len - length (v_str v)) 0)\<rparr>))"

subsection \<open>Comparisons\<close>

datatype comp_op = OP_EQ | OP_NE | OP_LT | OP_GT | OP_LE | OP_GE

definition width :: "col_type \<Rightarrow> nat \<Rightarrow> nat" where
  "width type len = (if type = TYPE_STRING then len else 4)"

definition CompareValue :: "byte list \<Rightarrow> byte list \<Rightarrow> col_type \<Rightarrow> nat \<Rightarrow> int outcome" where
  "CompareValue lhs rhs type len =
     (if length lhs < width type len \<or> length rhs < width type len then Throw MemoryFault
      else Ret (case type of
          TYPE_INT \<Rightarrow> let l = le_dec_signed (take 4 lhs); r = le_dec_signed (take 4 rhs) in of_bool (l > r) - of_bool (l < r)
        | TYPE_FLOAT \<Rightarrow> of_bool (float_less rhs lhs) - of_bool (float_less lhs rhs)
        | TYPE_STRING \<Rightarrow> memcmp len lhs rhs))"

fun CheckOp :: "int \<Rightarrow> comp_op \<Rightarrow> bool" where
  "CheckOp cmp OP_EQ = (cmp = 0)"
| "CheckOp cmp OP_NE = (cmp \<noteq> 0)"
| "CheckOp cmp OP_LT = (cmp < 0)"
| "CheckOp cmp OP_GT = (cmp > 0)"
| "CheckOp cmp OP_LE = (cmp \<le> 0)"
| "CheckOp cmp OP_GE = (cmp \<ge> 0)"

subsection \<open>Conditions\<close>

record condition =
  lhs_col :: tab_col
  cond_op :: comp_op
  is_rhs_val :: bool
  rhs_col :: tab_col
  rhs_val :: sql_value
  bound_lhs_offset :: int
  bound_rhs_offset :: int
  bound_type :: col_type
  bound_len :: nat

definition bind_cond :: "col_meta list \<Rightarrow> condition \<Rightarrow> condition outcome" where
  "bind_cond rec_cols cond =
     othen (get_col rec_cols (lhs_col cond)) (\<lambda>l.
       let cond1 = cond\<lparr>bound_lhs_offset := int (cm_offset l), bound_type := cm_type l, bound_len := cm_len l\<rparr>
       in if is_rhs_val cond
          then othen (if v_raw (rhs_val cond) = None then init_raw (cm_len l) (rhs_val cond) else Ret (rhs_val cond))
                 (\<lambda>v. Ret (cond1\<lparr>rhs_val := v, bound_rhs_offset := - 1\<rparr>))
          else othen (get_col rec_cols (rhs_col cond)) (\<lambda>r. Ret (cond1\<lparr>bound_rhs_offset := int (cm_offset r)\<rparr>)))"

definition bind_conds :: "col_meta list \<Rightarrow> condition list \<Rightarrow> condition list outcome" where
  "bind_conds rec_cols conds = omap (bind_cond rec_cols) conds"

definition eval_cond :: "col_meta list \<Rightarrow> byte list \<Rightarrow> condition \<Rightarrow> bool outcome" where
  "eval_cond rec_cols rec cond =
     (let bound = (bound_lhs_offset cond \<ge> 0) in
      othen (if bound then Ret (nat (bound_lhs_offset cond), bound_type cond, bound_len cond)
             else othen (get_col rec_cols (lhs_col cond)) (\<lambda>l. Ret (cm_offset l, cm_type l, cm_len l)))
        (\<lambda>(lhs_offset, lhs_type, lhs_len).
          othen (if is_rhs_val cond then (case v_raw (rhs_val cond) of None \<Rightarrow> Throw MemoryFault | Some raw \<Rightarrow> Ret raw)
                 else othen (if bound then if bound_rhs_offset cond < 0 then Throw MemoryFault else Ret (nat (bound_rhs_offset cond))
                             else othen (get_col rec_cols (rhs_col cond)) (\<lambda>r. Ret (cm_offset r)))
                        (\<lambda>rhs_offset. Ret (drop rhs_offset rec)))
            (\<lambda>rhs. othen (CompareValue (drop lhs_offset rec) rhs lhs_type lhs_len) (\<lambda>cmp. Ret (CheckOp cmp (cond_op cond))))))"

fun eval_conds :: "col_meta list \<Rightarrow> byte list \<Rightarrow> condition list \<Rightarrow> bool outcome" where
  "eval_conds rec_cols rec [] = Ret True"
| "eval_conds rec_cols rec (cond # conds) =
     othen (eval_cond rec_cols rec cond) (\<lambda>b. if \<not> b then Ret False else eval_conds rec_cols rec conds)"

subsection \<open>Typed conditions\<close>

definition has_col :: "col_meta list \<Rightarrow> tab_col \<Rightarrow> bool" where
  "has_col cs t \<longleftrightarrow> find_pos (col_is t) cs \<noteq> None"

definition col_of :: "col_meta list \<Rightarrow> tab_col \<Rightarrow> col_meta" where
  "col_of cs t = cs ! the (find_pos (col_is t) cs)"

definition field :: "byte list \<Rightarrow> col_meta \<Rightarrow> byte list" where
  "field rec col = take (cm_len col) (drop (cm_offset col) rec)"

definition schema_ok :: "col_meta list \<Rightarrow> nat \<Rightarrow> bool" where
  "schema_ok cs len \<longleftrightarrow> (\<forall>c \<in> set cs. cm_offset c + cm_len c \<le> len \<and> (cm_type c \<noteq> TYPE_STRING \<longrightarrow> cm_len c = 4))"

definition value_bytes :: "nat \<Rightarrow> sql_value \<Rightarrow> byte list" where
  "value_bytes len v = (case v_raw v of Some raw \<Rightarrow> raw
     | None \<Rightarrow> (case v_type v of TYPE_INT \<Rightarrow> le_enc 4 (v_int v) | TYPE_FLOAT \<Rightarrow> float_bytes (v_float v)
                | TYPE_STRING \<Rightarrow> map char_byte (v_str v) @ replicate (len - length (v_str v)) 0))"

definition value_typed :: "col_meta \<Rightarrow> sql_value \<Rightarrow> bool" where
  "value_typed col v \<longleftrightarrow> (case v_raw v of Some raw \<Rightarrow> length raw = cm_len col
     | None \<Rightarrow> v_type v = cm_type col \<and> (cm_type col = TYPE_STRING \<longrightarrow> length (v_str v) \<le> cm_len col))"

definition cond_typed :: "col_meta list \<Rightarrow> condition \<Rightarrow> bool" where
  "cond_typed cs c \<longleftrightarrow> has_col cs (lhs_col c)
     \<and> (if is_rhs_val c then value_typed (col_of cs (lhs_col c)) (rhs_val c)
        else has_col cs (rhs_col c) \<and> cm_type (col_of cs (rhs_col c)) = cm_type (col_of cs (lhs_col c))
             \<and> cm_len (col_of cs (lhs_col c)) \<le> cm_len (col_of cs (rhs_col c)))"

definition cond_holds :: "col_meta list \<Rightarrow> byte list \<Rightarrow> condition \<Rightarrow> bool" where
  "cond_holds cs rec c =
     (let l = col_of cs (lhs_col c);
          rhs = (if is_rhs_val c then value_bytes (cm_len l) (rhs_val c) else field rec (col_of cs (rhs_col c)))
      in CheckOp (ix_compare_col (field rec l) rhs (cm_type l) (cm_len l)) (cond_op c))"

lemma find_pos_Some: "find_pos P xs = Some i \<Longrightarrow> i < length xs \<and> P (xs ! i)"
  by (induction xs arbitrary: i) (auto split: if_splits)

lemma get_col_pos_ok: "has_col cs t \<Longrightarrow> get_col_pos cs t = Ret (the (find_pos (col_is t) cs))"
  by (auto simp: has_col_def get_col_pos_def)

lemma get_col_ok [simp]: "has_col cs t \<Longrightarrow> get_col cs t = Ret (col_of cs t)"
  by (simp add: get_col_def get_col_pos_ok col_of_def)

lemma col_of_in: "has_col cs t \<Longrightarrow> col_of cs t \<in> set cs"
  using find_pos_Some [of "col_is t" cs] by (auto simp: has_col_def col_of_def)

lemma schema_okD: "schema_ok cs len \<Longrightarrow> c \<in> set cs \<Longrightarrow> cm_offset c + cm_len c \<le> len \<and> (cm_type c \<noteq> TYPE_STRING \<longrightarrow> cm_len c = 4)"
  by (simp add: schema_ok_def)

lemma memcmp_take: "memcmp n (take n a) (take n b) = memcmp n a b"
  by (induction n a b rule: memcmp.induct) simp_all

lemma memcmp_take_left: "memcmp n (take n a) b = memcmp n a b"
  by (induction n a b rule: memcmp.induct) simp_all

lemma memcmp_take_right: "n \<le> m \<Longrightarrow> memcmp n a (take m b) = memcmp n a b"
proof (induction n a b arbitrary: m rule: memcmp.induct)
  case (1 n x xs y ys)
  then show ?case by (cases m) simp_all
qed (auto simp: take_Cons split: nat.split)

lemma float_less_take [simp]: "float_less (take 4 a) b = float_less a b" "float_less a (take 4 b) = float_less a b"
  by (simp_all add: float_less_def float_is_nan_def float_ord_def)

text \<open>\<open>CompareValue\<close> compares the fields as \<open>ix_compare\<close> does.\<close>

lemma CompareValue_fields:
  assumes "type \<noteq> TYPE_STRING \<longrightarrow> len = 4" and "len \<le> length a" and "len \<le> length b" and "len \<le> m"
  shows "CompareValue a b type len = Ret (ix_compare_col (take len a) (take m b) type len)"
proof (cases type)
  case TYPE_INT
  then show ?thesis using assms by (simp add: CompareValue_def width_def Let_def min_def)
next
  case TYPE_FLOAT
  have "float_less (take m b) a = float_less b a" "float_less a (take m b) = float_less a b"
    using assms(4) assms(1) TYPE_FLOAT by (simp_all add: float_less_def float_is_nan_def float_ord_def min_def)
  moreover have "\<not> (float_less a b \<and> float_less b a)" by (simp add: float_less_def)
  ultimately show ?thesis using assms TYPE_FLOAT by (simp add: CompareValue_def width_def)
next
  case TYPE_STRING
  then show ?thesis using assms by (simp add: CompareValue_def width_def memcmp_take_left memcmp_take_right)
qed

lemma length_value_bytes: "value_typed col v \<Longrightarrow> (cm_type col \<noteq> TYPE_STRING \<longrightarrow> cm_len col = 4) \<Longrightarrow> length (value_bytes (cm_len col) v) = cm_len col"
  by (auto simp: value_typed_def value_bytes_def float_bytes_def split: option.splits col_type.splits)

lemma init_raw_ok:
  assumes "value_typed col v" "cm_type col \<noteq> TYPE_STRING \<longrightarrow> cm_len col = 4"
  shows "\<exists>v'. (if v_raw v = None then init_raw (cm_len col) v else Ret v) = Ret v' \<and> v_raw v' = Some (value_bytes (cm_len col) v)"
  using assms by (auto simp: value_typed_def value_bytes_def init_raw_def split: option.splits col_type.splits)

lemma bind_cond_ok:
  assumes s: "schema_ok cs len" and t: "cond_typed cs c"
  shows "\<exists>c'. bind_cond cs c = Ret c' \<and> (\<forall>r. length r = len \<longrightarrow> eval_cond cs r c' = Ret (cond_holds cs r c))"
proof -
  let ?l = "col_of cs (lhs_col c)"
  have l: "has_col cs (lhs_col c)" "cm_offset ?l + cm_len ?l \<le> len" "cm_type ?l \<noteq> TYPE_STRING \<longrightarrow> cm_len ?l = 4"
    using t schema_okD [OF s col_of_in [of cs "lhs_col c"]] by (auto simp: cond_typed_def)
  show ?thesis
  proof (cases "is_rhs_val c")
    case True
    have v: "value_typed ?l (rhs_val c)" using t True by (simp add: cond_typed_def)
    obtain v' where v': "(if v_raw (rhs_val c) = None then init_raw (cm_len ?l) (rhs_val c) else Ret (rhs_val c)) = Ret v'" "v_raw v' = Some (value_bytes (cm_len ?l) (rhs_val c))"
      using init_raw_ok [OF v l(3)] by blast
    have n: "length (value_bytes (cm_len ?l) (rhs_val c)) = cm_len ?l" using length_value_bytes [OF v l(3)] .
    have "CompareValue (drop (cm_offset ?l) r) (value_bytes (cm_len ?l) (rhs_val c)) (cm_type ?l) (cm_len ?l)
        = Ret (ix_compare_col (field r ?l) (value_bytes (cm_len ?l) (rhs_val c)) (cm_type ?l) (cm_len ?l))" if "length r = len" for r
      using CompareValue_fields [OF l(3), of "drop (cm_offset ?l) r" "value_bytes (cm_len ?l) (rhs_val c)" "cm_len ?l"] l(2) n that by (simp add: field_def)
    then show ?thesis using True v' l(1) by (simp add: bind_cond_def eval_cond_def cond_holds_def Let_def)
  next
    case False
    let ?r = "col_of cs (rhs_col c)"
    have r: "has_col cs (rhs_col c)" "cm_offset ?r + cm_len ?r \<le> len" "cm_len ?l \<le> cm_len ?r"
      using t False schema_okD [OF s col_of_in [of cs "rhs_col c"]] by (auto simp: cond_typed_def)
    have "CompareValue (drop (cm_offset ?l) x) (drop (cm_offset ?r) x) (cm_type ?l) (cm_len ?l)
        = Ret (ix_compare_col (field x ?l) (field x ?r) (cm_type ?l) (cm_len ?l))" if "length x = len" for x
      using CompareValue_fields [OF l(3), of "drop (cm_offset ?l) x" "drop (cm_offset ?r) x" "cm_len ?r"] l(2) r(2,3) that by (simp add: field_def)
    then show ?thesis using False l(1) r(1) by (simp add: bind_cond_def eval_cond_def cond_holds_def Let_def)
  qed
qed

lemma bind_conds_ok:
  assumes s: "schema_ok cs len" and t: "\<forall>c \<in> set conds. cond_typed cs c"
  shows "\<exists>conds'. bind_conds cs conds = Ret conds' \<and> (\<forall>r. length r = len \<longrightarrow> eval_conds cs r conds' = Ret (\<forall>c \<in> set conds. cond_holds cs r c))"
  using t
proof (induction conds)
  case (Cons c conds)
  obtain c' where c': "bind_cond cs c = Ret c'" "\<forall>r. length r = len \<longrightarrow> eval_cond cs r c' = Ret (cond_holds cs r c)" using bind_cond_ok [OF s, of c] Cons.prems by auto
  obtain cs' where cs': "bind_conds cs conds = Ret cs'" "\<forall>r. length r = len \<longrightarrow> eval_conds cs r cs' = Ret (\<forall>c \<in> set conds. cond_holds cs r c)" using Cons by auto
  have "bind_conds cs (c # conds) = Ret (c' # cs')" using c' cs' by (simp add: bind_conds_def)
  moreover have "\<forall>r. length r = len \<longrightarrow> eval_conds cs r (c' # cs') = Ret (\<forall>d \<in> set (c # conds). cond_holds cs r d)" using c'(2) cs'(2) by simp
  ultimately show ?case by blast
qed (simp add: bind_conds_def)

end
