(* ===== verification/Rmdb_Exec.thy ===== *)
theory Rmdb_Exec
  imports Rmdb_Catalog Rmdb_Heap Rmdb_Mvcc
begin

text \<open>
  The iterators that execute a query plan (\<^verbatim>\<open>src/src/execution/executor_*.h\<close>, \<^verbatim>\<open>execution_sort.h\<close>), their construction from the plan (\<^verbatim>\<open>src/src/portal.h\<close>) and
  the loop of \<open>QlManager::select_from\<close> that drains them (\<^verbatim>\<open>execution_manager.cpp\<close>).

  An executor object is its method table, \<open>executor\<close>, whose functions hold the members the constructor sets, and its changing members, \<open>xstate\<close>. The table of a
  class calls the tables of its children, as the virtual calls do. A loop that may run forever is a \<open>partial_function\<close>: \<open>None\<close> is a call that does not return,
  \<open>Some\<close> the outcome of one that does.

  Modelled are sequential scans, nested-loop joins, projections, sorts, unions and aggregates, for a transaction that is not serializable: the records of its reads
  that a serializable one leaves behind are not modelled. The tables do not change while the statement runs. Scans through an index are not modelled.
\<close>

subsection \<open>Calls that may not return\<close>

type_synonym 'a comp = "'a outcome option"

abbreviation ret :: "'a \<Rightarrow> 'a comp" where "ret x \<equiv> Some (Ret x)"

definition cthen :: "'a comp \<Rightarrow> ('a \<Rightarrow> 'b comp) \<Rightarrow> 'b comp" where
  "cthen m f = Option.bind m (\<lambda>r. case r of Ret x \<Rightarrow> f x | Throw e \<Rightarrow> Some (Throw e) | Wait \<Rightarrow> Some Wait)"

lemma cthen_simps [simp]: "cthen (Some (Ret x)) f = f x" "cthen (Some (Throw e)) f = Some (Throw e)" "cthen (Some Wait) f = Some Wait" "cthen None f = None"
  by (simp_all add: cthen_def)

lemma cthen_mono [partial_function_mono]:
  assumes "mono_option m" and "\<And>x. mono_option (\<lambda>f. k x f)"
  shows "mono_option (\<lambda>f. cthen (m f) (\<lambda>x. k x f))"
proof -
  have "mono_option (\<lambda>f. case r of Ret x \<Rightarrow> k x f | Throw e \<Rightarrow> Some (Throw e) | Wait \<Rightarrow> Some Wait)" for r
    using assms(2) by (cases r) (simp_all add: option.const_mono)
  then show ?thesis unfolding cthen_def using assms(1) by (intro bind_mono)
qed

subsection \<open>Bytes\<close>

text \<open>\<open>memcpy(dst + off, src, n)\<close>.\<close>

definition memcpy :: "byte list \<Rightarrow> nat \<Rightarrow> byte list \<Rightarrow> nat \<Rightarrow> byte list outcome" where
  "memcpy dst off src n = (if off + n \<le> length dst \<and> n \<le> length src then Ret (take off dst @ take n src @ drop (off + n) dst) else Throw MemoryFault)"

text \<open>The floating-point operations of the processor, on the bits of the numbers.\<close>

record fp_ops =
  f32_of_int :: "int \<Rightarrow> 32 word"
  f32_div :: "32 word \<Rightarrow> 32 word \<Rightarrow> 32 word"
  f64_of_f32 :: "32 word \<Rightarrow> 64 word"
  f64_of_int :: "int \<Rightarrow> 64 word"
  f64_add :: "64 word \<Rightarrow> 64 word \<Rightarrow> 64 word"
  f64_div :: "64 word \<Rightarrow> 64 word \<Rightarrow> 64 word"
  f32_of_f64 :: "64 word \<Rightarrow> 32 word"
  f32_to_string :: "32 word \<Rightarrow> string"

definition read_int :: "byte list \<Rightarrow> int outcome" where
  "read_int p = (if length p < 4 then Throw MemoryFault else Ret (le_dec_signed (take 4 p)))"

definition read_float :: "byte list \<Rightarrow> (32 word) outcome" where
  "read_float p = (if length p < 4 then Throw MemoryFault else Ret (word_of_int (le_dec (take 4 p))))"

subsection \<open>What a query runs against\<close>

text \<open>The catalogue, the files of the tables with their descriptors, the versions of the records, the reading transaction, the processor, what \<open>new char[n]\<close> holds,
  and whether \<open>RMDB_ENABLE_STREAMING_AGG\<close> leaves the streaming aggregation on.\<close>

record query_env =
  env_tabs :: "string \<rightharpoonup> tab_meta"
  env_fhs :: "string \<rightharpoonup> int \<times> heap_file"
  env_txns :: txn_manager
  env_reader :: "txn_id_t option"
  env_fp :: fp_ops
  env_uninit :: "nat \<Rightarrow> byte list"
  env_streaming :: bool

subsection \<open>Executors\<close>

datatype xstate =
    XScan "rm_scan option" rid "byte list option"
  | XJoin xstate xstate bool "byte list option"
  | XProjection xstate "byte list option"
  | XBuffer xstate "byte list list" nat
  | XUnion "xstate list" "byte list list" nat

record executor =
  tupleLen :: nat
  cols :: "col_meta list"
  beginTuple :: "xstate \<Rightarrow> xstate comp"
  nextTuple :: "xstate \<Rightarrow> xstate comp"
  is_end :: "xstate \<Rightarrow> bool"
  Next :: "xstate \<Rightarrow> byte list option"
  Current :: "xstate \<Rightarrow> byte list option"

definition CurrentOrNext :: "executor \<Rightarrow> xstate \<Rightarrow> byte list option" where
  "CurrentOrNext ex s = (case Current ex s of Some r \<Rightarrow> Some r | None \<Rightarrow> Next ex s)"

text \<open>\<open>get_col_offset\<close>: every class looks its own columns up; the sort asks its child, whose columns are its own.\<close>

definition get_col_offset :: "executor \<Rightarrow> tab_col \<Rightarrow> col_meta outcome" where
  "get_col_offset ex target = get_col (cols ex) target"

text \<open>The loop \<open>for (ex->beginTuple(); !ex->is_end(); ex->nextTuple())\<close> with the current tuple passed to its body; the executors and \<open>select_from\<close> share it.\<close>

partial_function (option) for_each :: "executor \<Rightarrow> (byte list option \<Rightarrow> 'a \<Rightarrow> 'a outcome) \<Rightarrow> xstate \<Rightarrow> 'a \<Rightarrow> ('a \<times> xstate) comp" where
  "for_each ex body s a =
     (if is_end ex s then ret (a, s)
      else cthen (Some (body (CurrentOrNext ex s) a)) (\<lambda>a'. cthen (nextTuple ex s) (\<lambda>s'. for_each ex body s' a')))"

definition for_tuples :: "executor \<Rightarrow> (byte list option \<Rightarrow> 'a \<Rightarrow> 'a outcome) \<Rightarrow> xstate \<Rightarrow> 'a \<Rightarrow> ('a \<times> xstate) comp" where
  "for_tuples ex body s a = cthen (beginTuple ex s) (\<lambda>s'. for_each ex body s' a)"

subsection \<open>SeqScanExecutor\<close>

datatype scan_mode = VISIBLE_TUPLE | CANDIDATE_RID

partial_function (option) advance_to_next_valid ::
    "heap_file \<Rightarrow> (rid \<Rightarrow> byte list option outcome) \<Rightarrow> col_meta list \<Rightarrow> condition list \<Rightarrow> rm_scan \<Rightarrow> rid \<Rightarrow> (rm_scan \<times> rid \<times> byte list option) comp" where
  "advance_to_next_valid fh get_rec rec_cols conds scan r =
     (if scan_is_end scan then ret (scan, r, None)
      else cthen (Some (get_rec (scan_rid scan))) (\<lambda>v. case v of
          None \<Rightarrow> cthen (Some (fst (scan_next scan fh))) (\<lambda>scan'. advance_to_next_valid fh get_rec rec_cols conds scan' (scan_rid scan))
        | Some rec \<Rightarrow> cthen (Some (eval_conds rec_cols rec conds)) (\<lambda>b.
            if b then ret (scan, scan_rid scan, Some rec)
            else cthen (Some (fst (scan_next scan fh))) (\<lambda>scan'. advance_to_next_valid fh get_rec rec_cols conds scan' (scan_rid scan)))))"

definition seq_scan_position :: "heap_file \<Rightarrow> (rid \<Rightarrow> byte list option outcome) \<Rightarrow> col_meta list \<Rightarrow> condition list \<Rightarrow> scan_mode \<Rightarrow> rm_scan \<Rightarrow> rid \<Rightarrow> xstate comp" where
  "seq_scan_position fh get_rec rec_cols conds mode scan r =
     (if mode = CANDIDATE_RID then ret (XScan (Some scan) (if scan_is_end scan then r else scan_rid scan) None)
      else cthen (advance_to_next_valid fh get_rec rec_cols conds scan r) (\<lambda>(scan', r', cur). ret (XScan (Some scan') r' cur)))"

fun seq_scan_begin :: "heap_file \<Rightarrow> (rid \<Rightarrow> byte list option outcome) \<Rightarrow> col_meta list \<Rightarrow> condition list \<Rightarrow> scan_mode \<Rightarrow> xstate \<Rightarrow> xstate comp" where
  "seq_scan_begin fh get_rec rec_cols conds mode (XScan sc r cur) =
     cthen (Some (fst (RmScan_new fh))) (\<lambda>scan. seq_scan_position fh get_rec rec_cols conds mode scan r)"
| "seq_scan_begin fh get_rec rec_cols conds mode _ = Some (Throw MemoryFault)"

fun seq_scan_next :: "heap_file \<Rightarrow> (rid \<Rightarrow> byte list option outcome) \<Rightarrow> col_meta list \<Rightarrow> condition list \<Rightarrow> scan_mode \<Rightarrow> xstate \<Rightarrow> xstate comp" where
  "seq_scan_next fh get_rec rec_cols conds mode (XScan (Some sc) r cur) =
     cthen (Some (fst (scan_next sc fh))) (\<lambda>scan. seq_scan_position fh get_rec rec_cols conds mode scan r)"
| "seq_scan_next fh get_rec rec_cols conds mode _ = Some (Throw MemoryFault)"

fun seq_scan_is_end :: "xstate \<Rightarrow> bool" where
  "seq_scan_is_end (XScan (Some sc) r cur) = scan_is_end sc"
| "seq_scan_is_end _ = True"

fun seq_scan_current :: "xstate \<Rightarrow> byte list option" where
  "seq_scan_current (XScan sc r cur) = cur"
| "seq_scan_current _ = None"

definition get_visible :: "query_env \<Rightarrow> int \<Rightarrow> rid \<Rightarrow> byte list option outcome" where
  "get_visible E desc r = ReadVisibleTuple \<lparr>tk_fd = desc, tk_rid = r\<rparr> (env_reader E) (env_txns E)"

definition scan_cols :: "tab_meta \<Rightarrow> string \<Rightarrow> col_meta list" where
  "scan_cols tab tab_name = map (\<lambda>col. col\<lparr>cm_tab := tab_name\<rparr>) (tm_cols tab)"

definition SeqScanExecutor :: "query_env \<Rightarrow> string \<Rightarrow> condition list \<Rightarrow> string \<Rightarrow> scan_mode \<Rightarrow> (executor \<times> xstate) outcome" where
  "SeqScanExecutor E tab_name conds real mode =
     (let real_tab_name = (if real = [] then tab_name else real) in
      othen (get_table (env_tabs E) real_tab_name) (\<lambda>tab.
      othen (case env_fhs E real_tab_name of None \<Rightarrow> Throw StdOutOfRange | Some file \<Rightarrow> Ret file) (\<lambda>(desc, fh).
      let cs = scan_cols tab tab_name in
      if cs = [] then Throw MemoryFault
      else othen (bind_conds cs conds) (\<lambda>fed_conds.
        Ret (\<lparr>tupleLen = cm_offset (last cs) + cm_len (last cs), cols = cs,
              beginTuple = seq_scan_begin fh (get_visible E desc) cs fed_conds mode,
              nextTuple = seq_scan_next fh (get_visible E desc) cs fed_conds mode,
              is_end = seq_scan_is_end,
              Next = (\<lambda>s. if mode = CANDIDATE_RID then None else seq_scan_current s), Current = seq_scan_current\<rparr>,
             XScan None scan_end None)))))"

subsection \<open>NestedLoopJoinExecutor\<close>

definition make_join_record :: "query_env \<Rightarrow> executor \<Rightarrow> executor \<Rightarrow> xstate \<Rightarrow> xstate \<Rightarrow> byte list outcome" where
  "make_join_record E left right sl sr =
     (case (CurrentOrNext left sl, CurrentOrNext right sr) of
        (Some left_record, Some right_record) \<Rightarrow>
          othen (memcpy (env_uninit E (tupleLen left + tupleLen right)) 0 left_record (tupleLen left)) (\<lambda>rec.
            memcpy rec (tupleLen left) right_record (tupleLen right))
      | _ \<Rightarrow> Throw MemoryFault)"

text \<open>The two nested loops of \<open>advance_to_next_valid\<close>: one step of the inner loop while the right child has a tuple, of the outer loop otherwise. The result is the
  two children and the tuple found, if any.\<close>

partial_function (option) join_advance ::
    "query_env \<Rightarrow> executor \<Rightarrow> executor \<Rightarrow> col_meta list \<Rightarrow> condition list \<Rightarrow> xstate \<Rightarrow> xstate \<Rightarrow> (xstate \<times> xstate \<times> byte list option) comp" where
  "join_advance E left right cs conds sl sr =
     (if is_end left sl then ret (sl, sr, None)
      else if \<not> is_end right sr then
        cthen (Some (make_join_record E left right sl sr)) (\<lambda>rec.
        cthen (Some (eval_conds cs rec conds)) (\<lambda>b.
          if b then ret (sl, sr, Some rec)
          else cthen (nextTuple right sr) (\<lambda>sr'. join_advance E left right cs conds sl sr')))
      else cthen (nextTuple left sl) (\<lambda>sl'.
        if is_end left sl' then join_advance E left right cs conds sl' sr
        else cthen (beginTuple right sr) (\<lambda>sr'. join_advance E left right cs conds sl' sr')))"

definition join_position :: "query_env \<Rightarrow> executor \<Rightarrow> executor \<Rightarrow> col_meta list \<Rightarrow> condition list \<Rightarrow> xstate \<Rightarrow> xstate \<Rightarrow> xstate comp" where
  "join_position E left right cs conds sl sr =
     cthen (join_advance E left right cs conds sl sr) (\<lambda>(sl', sr', cur). ret (XJoin sl' sr' (cur = None) cur))"

fun join_begin :: "query_env \<Rightarrow> executor \<Rightarrow> executor \<Rightarrow> col_meta list \<Rightarrow> condition list \<Rightarrow> xstate \<Rightarrow> xstate comp" where
  "join_begin E left right cs conds (XJoin sl sr isend cur) =
     cthen (beginTuple left sl) (\<lambda>sl'.
       if is_end left sl' then ret (XJoin sl' sr True cur)
       else cthen (beginTuple right sr) (\<lambda>sr'.
         if is_end right sr' then ret (XJoin sl' sr' True cur)
         else join_position E left right cs conds sl' sr'))"
| "join_begin E left right cs conds _ = Some (Throw MemoryFault)"

fun join_next :: "query_env \<Rightarrow> executor \<Rightarrow> executor \<Rightarrow> col_meta list \<Rightarrow> condition list \<Rightarrow> xstate \<Rightarrow> xstate comp" where
  "join_next E left right cs conds (XJoin sl sr isend cur) =
     (if isend then ret (XJoin sl sr isend cur)
      else cthen (nextTuple right sr) (\<lambda>sr'.
        if is_end right sr' then
          cthen (nextTuple left sl) (\<lambda>sl'.
            if \<not> is_end left sl' then cthen (beginTuple right sr') (\<lambda>sr''. join_position E left right cs conds sl' sr'')
            else join_position E left right cs conds sl' sr')
        else join_position E left right cs conds sl sr'))"
| "join_next E left right cs conds _ = Some (Throw MemoryFault)"

fun join_is_end :: "xstate \<Rightarrow> bool" where
  "join_is_end (XJoin sl sr isend cur) = isend"
| "join_is_end _ = True"

fun join_current :: "xstate \<Rightarrow> byte list option" where
  "join_current (XJoin sl sr isend cur) = cur"
| "join_current _ = None"

definition join_cols :: "executor \<Rightarrow> executor \<Rightarrow> col_meta list" where
  "join_cols left right = cols left @ map (\<lambda>col. col\<lparr>cm_offset := cm_offset col + tupleLen left\<rparr>) (cols right)"

definition NestedLoopJoinExecutor :: "query_env \<Rightarrow> executor \<times> xstate \<Rightarrow> executor \<times> xstate \<Rightarrow> condition list \<Rightarrow> (executor \<times> xstate) outcome" where
  "NestedLoopJoinExecutor E lx rx conds =
     (case (lx, rx) of ((left, sl), (right, sr)) \<Rightarrow>
        let cs = join_cols left right in
        othen (bind_conds cs conds) (\<lambda>fed_conds.
          Ret (\<lparr>tupleLen = tupleLen left + tupleLen right, cols = cs,
                beginTuple = join_begin E left right cs fed_conds, nextTuple = join_next E left right cs fed_conds,
                is_end = join_is_end, Next = join_current, Current = join_current\<rparr>,
               XJoin sl sr False None)))"

subsection \<open>ProjectionExecutor\<close>

fun copy_fields :: "(col_meta \<times> col_meta) list \<Rightarrow> byte list \<Rightarrow> byte list \<Rightarrow> byte list outcome" where
  "copy_fields [] prev_record out = Ret out"
| "copy_fields ((src, dst) # ps) prev_record out =
     othen (memcpy out (cm_offset dst) (drop (cm_offset src) prev_record) (cm_len src)) (copy_fields ps prev_record)"

text \<open>The constructor's loop: the positions of the selected columns, and the columns at their new offsets.\<close>

fun projection_cols :: "col_meta list \<Rightarrow> tab_col list \<Rightarrow> nat \<Rightarrow> (nat list \<times> col_meta list \<times> nat) outcome" where
  "projection_cols prev_cols [] curr_offset = Ret ([], [], curr_offset)"
| "projection_cols prev_cols (sel_col # sel_cols) curr_offset =
     othen (get_col_pos prev_cols sel_col) (\<lambda>pos.
       let col = prev_cols ! pos in
       othen (projection_cols prev_cols sel_cols (curr_offset + cm_len col)) (\<lambda>(idxs, cs, len).
         Ret (pos # idxs, col\<lparr>cm_offset := curr_offset\<rparr> # cs, len)))"

definition materialize_current :: "query_env \<Rightarrow> executor \<Rightarrow> nat list \<Rightarrow> col_meta list \<Rightarrow> nat \<Rightarrow> xstate \<Rightarrow> xstate comp" where
  "materialize_current E prev sel_idxs cs len sp =
     (if is_end prev sp then ret (XProjection sp None)
      else case CurrentOrNext prev sp of
          None \<Rightarrow> ret (XProjection sp None)
        | Some prev_record \<Rightarrow>
            cthen (Some (copy_fields (zip (map (\<lambda>i. cols prev ! i) sel_idxs) cs) prev_record (env_uninit E len))) (\<lambda>rec. ret (XProjection sp (Some rec))))"

fun projection_begin :: "query_env \<Rightarrow> executor \<Rightarrow> nat list \<Rightarrow> col_meta list \<Rightarrow> nat \<Rightarrow> xstate \<Rightarrow> xstate comp" where
  "projection_begin E prev sel_idxs cs len (XProjection sp cur) = cthen (beginTuple prev sp) (materialize_current E prev sel_idxs cs len)"
| "projection_begin E prev sel_idxs cs len _ = Some (Throw MemoryFault)"

fun projection_next :: "query_env \<Rightarrow> executor \<Rightarrow> nat list \<Rightarrow> col_meta list \<Rightarrow> nat \<Rightarrow> xstate \<Rightarrow> xstate comp" where
  "projection_next E prev sel_idxs cs len (XProjection sp cur) = cthen (nextTuple prev sp) (materialize_current E prev sel_idxs cs len)"
| "projection_next E prev sel_idxs cs len _ = Some (Throw MemoryFault)"

fun projection_is_end :: "executor \<Rightarrow> xstate \<Rightarrow> bool" where
  "projection_is_end prev (XProjection sp cur) = is_end prev sp"
| "projection_is_end prev _ = True"

fun projection_current :: "xstate \<Rightarrow> byte list option" where
  "projection_current (XProjection sp cur) = cur"
| "projection_current _ = None"

definition ProjectionExecutor :: "query_env \<Rightarrow> executor \<times> xstate \<Rightarrow> tab_col list \<Rightarrow> (executor \<times> xstate) outcome" where
  "ProjectionExecutor E px sel_cols =
     (case px of (prev, sp) \<Rightarrow>
        othen (projection_cols (cols prev) sel_cols 0) (\<lambda>(sel_idxs, cs, len).
          Ret (\<lparr>tupleLen = len, cols = cs,
                beginTuple = projection_begin E prev sel_idxs cs len, nextTuple = projection_next E prev sel_idxs cs len,
                is_end = projection_is_end prev, Next = projection_current, Current = projection_current\<rparr>,
               XProjection sp None)))"

subsection \<open>Executors that keep their result\<close>

text \<open>The sort, the union and the aggregate compute all their tuples in \<open>beginTuple\<close>; the rest of them is a position in that vector.\<close>

fun buffer_next :: "xstate \<Rightarrow> xstate comp" where
  "buffer_next (XBuffer sp rs pos) = ret (XBuffer sp rs (Suc pos))"
| "buffer_next (XUnion ss rs pos) = ret (XUnion ss rs (Suc pos))"
| "buffer_next _ = Some (Throw MemoryFault)"

fun buffer_is_end :: "xstate \<Rightarrow> bool" where
  "buffer_is_end (XBuffer sp rs pos) = (length rs \<le> pos)"
| "buffer_is_end (XUnion ss rs pos) = (length rs \<le> pos)"
| "buffer_is_end _ = True"

fun buffer_current :: "xstate \<Rightarrow> byte list option" where
  "buffer_current (XBuffer sp rs pos) = (if length rs \<le> pos then None else Some (rs ! pos))"
| "buffer_current (XUnion ss rs pos) = (if length rs \<le> pos then None else Some (rs ! pos))"
| "buffer_current _ = None"

subsection \<open>SortExecutor\<close>

fun sort_less :: "col_meta list \<Rightarrow> bool list \<Rightarrow> byte list \<Rightarrow> byte list \<Rightarrow> bool outcome" where
  "sort_less [] is_desc lhs rhs = Ret False"
| "sort_less (col # sort_cols) is_desc lhs rhs =
     othen (CompareValue (drop (cm_offset col) lhs) (drop (cm_offset col) rhs) (cm_type col) (cm_len col)) (\<lambda>cmp.
       if cmp \<noteq> 0 then (case is_desc of [] \<Rightarrow> Throw MemoryFault | desc # _ \<Rightarrow> Ret (if desc then cmp > 0 else cmp < 0))
       else sort_less sort_cols (tl is_desc) lhs rhs)"

text \<open>\<open>std::stable_sort\<close>: the elements in the order of the comparison, equal ones in the order they had. Which elements it compares is not specified, so that a fault
  of any comparison counts.\<close>

fun stable_insert :: "('a \<Rightarrow> 'a \<Rightarrow> bool) \<Rightarrow> 'a \<Rightarrow> 'a list \<Rightarrow> 'a list" where
  "stable_insert lt x [] = [x]"
| "stable_insert lt x (y # ys) = (if lt y x then y # stable_insert lt x ys else x # y # ys)"

definition stable_order :: "('a \<Rightarrow> 'a \<Rightarrow> bool) \<Rightarrow> 'a list \<Rightarrow> 'a list" where
  "stable_order lt xs = foldr (stable_insert lt) xs []"

definition stable_sort :: "('a \<Rightarrow> 'a \<Rightarrow> bool outcome) \<Rightarrow> 'a list \<Rightarrow> 'a list outcome" where
  "stable_sort lt xs =
     (if list_all (\<lambda>x. list_all (\<lambda>y. is_Ret (lt x y)) xs) xs then Ret (stable_order (\<lambda>x y. lt x y = Ret True) xs) else Throw MemoryFault)"

definition keep_tuple :: "byte list option \<Rightarrow> byte list list \<Rightarrow> byte list list outcome" where
  "keep_tuple tuple rs = Ret (case tuple of None \<Rightarrow> rs | Some r \<Rightarrow> rs @ [r])"

definition apply_limit :: "int \<Rightarrow> 'a list \<Rightarrow> 'a list" where
  "apply_limit limit rs = (if limit \<ge> 0 \<and> length rs > nat limit then take (nat limit) rs else rs)"

fun sort_begin :: "executor \<Rightarrow> col_meta list \<Rightarrow> bool list \<Rightarrow> int \<Rightarrow> xstate \<Rightarrow> xstate comp" where
  "sort_begin prev sort_cols is_desc limit (XBuffer sp rs pos) =
     cthen (for_tuples prev keep_tuple sp []) (\<lambda>(tuples, sp').
     cthen (Some (stable_sort (sort_less sort_cols is_desc) tuples)) (\<lambda>sorted.
       ret (XBuffer sp' (apply_limit limit sorted) 0)))"
| "sort_begin prev sort_cols is_desc limit _ = Some (Throw MemoryFault)"

definition SortExecutor :: "executor \<times> xstate \<Rightarrow> tab_col list \<Rightarrow> bool list \<Rightarrow> int \<Rightarrow> (executor \<times> xstate) outcome" where
  "SortExecutor px sel_cols is_desc limit =
     (case px of (prev, sp) \<Rightarrow>
        othen (omap (get_col_offset prev) sel_cols) (\<lambda>sort_cols.
          Ret (\<lparr>tupleLen = tupleLen prev, cols = cols prev,
                beginTuple = sort_begin prev sort_cols is_desc limit, nextTuple = buffer_next,
                is_end = buffer_is_end, Next = buffer_current, Current = buffer_current\<rparr>,
               XBuffer sp [] 0)))"

subsection \<open>UnionExecutor\<close>

definition convert_one :: "fp_ops \<Rightarrow> col_meta \<Rightarrow> col_meta \<Rightarrow> byte list \<Rightarrow> byte list \<Rightarrow> byte list outcome" where
  "convert_one fp src dst input out =
     (if cm_type src = cm_type dst then memcpy out (cm_offset dst) (drop (cm_offset src) input) (min (cm_len src) (cm_len dst))
      else if cm_type src = TYPE_INT \<and> cm_type dst = TYPE_FLOAT then
        othen (read_int (drop (cm_offset src) input)) (\<lambda>i. memcpy out (cm_offset dst) (float_bytes (f32_of_int fp i)) 4)
      else Throw (InternalError ''Unsupported UNION type conversion''))"

fun convert_fields :: "fp_ops \<Rightarrow> (col_meta \<times> col_meta) list \<Rightarrow> byte list \<Rightarrow> byte list \<Rightarrow> byte list outcome" where
  "convert_fields fp [] input out = Ret out"
| "convert_fields fp ((src, dst) # ps) input out = othen (convert_one fp src dst input out) (convert_fields fp ps input)"

definition convert_record :: "fp_ops \<Rightarrow> col_meta list \<Rightarrow> nat \<Rightarrow> byte list \<Rightarrow> col_meta list \<Rightarrow> byte list outcome" where
  "convert_record fp cs len input input_cols =
     (if length input_cols \<noteq> length cs then Throw (InternalError ''UNION executor schema mismatch'')
      else convert_fields fp (zip input_cols cs) input (replicate len 0))"

definition union_tuple :: "fp_ops \<Rightarrow> col_meta list \<Rightarrow> nat \<Rightarrow> col_meta list \<Rightarrow> byte list option \<Rightarrow> byte list list \<times> byte list list \<Rightarrow> (byte list list \<times> byte list list) outcome" where
  "union_tuple fp cs len input_cols tuple acc =
     (case (tuple, acc) of
        (None, _) \<Rightarrow> Ret acc
      | (Some input, (seen, rs)) \<Rightarrow>
          othen (convert_record fp cs len input input_cols) (\<lambda>out.
            if out \<in> set seen then Ret (seen, rs) else Ret (out # seen, rs @ [out])))"

fun union_children :: "fp_ops \<Rightarrow> col_meta list \<Rightarrow> nat \<Rightarrow> executor list \<Rightarrow> xstate list \<Rightarrow> byte list list \<times> byte list list \<Rightarrow> (xstate list \<times> byte list list \<times> byte list list) comp" where
  "union_children fp cs len (child # children) (s # ss) acc =
     cthen (for_tuples child (union_tuple fp cs len (cols child)) s acc) (\<lambda>(acc', s').
       cthen (union_children fp cs len children ss acc') (\<lambda>(ss', acc''). ret (s' # ss', acc'')))"
| "union_children fp cs len _ _ acc = ret ([], acc)"

fun union_begin :: "fp_ops \<Rightarrow> col_meta list \<Rightarrow> nat \<Rightarrow> executor list \<Rightarrow> xstate \<Rightarrow> xstate comp" where
  "union_begin fp cs len children (XUnion ss rs pos) = cthen (union_children fp cs len children ss ([], [])) (\<lambda>(ss', seen, rs'). ret (XUnion ss' rs' 0))"
| "union_begin fp cs len children _ = Some (Throw MemoryFault)"

definition union_len :: "col_meta list \<Rightarrow> nat" where
  "union_len cs = foldl (\<lambda>len col. max len (cm_offset col + cm_len col)) 0 cs"

definition UnionExecutor :: "query_env \<Rightarrow> (executor \<times> xstate) list \<Rightarrow> col_meta list \<Rightarrow> executor \<times> xstate" where
  "UnionExecutor E children output_cols =
     (\<lparr>tupleLen = union_len output_cols, cols = output_cols,
       beginTuple = union_begin (env_fp E) output_cols (union_len output_cols) (map fst children), nextTuple = buffer_next,
       is_end = buffer_is_end, Next = buffer_current, Current = buffer_current\<rparr>,
      XUnion (map snd children) [] 0)"

subsection \<open>AggregateExecutor\<close>

datatype agg_func = AGG_COUNT | AGG_MAX | AGG_MIN | AGG_SUM | AGG_AVG

record select_expr =
  is_aggregate :: bool
  agg_func_of :: agg_func
  count_star :: bool
  expr_col :: tab_col
  output_name :: string

record having_condition =
  having_lhs :: select_expr
  having_op :: comp_op
  having_is_rhs_val :: bool
  having_rhs :: sql_value
  having_rhs_expr :: select_expr

record eval_value =
  ev_type :: col_type
  ev_len :: nat
  ev_data :: "byte list"

definition zero_value :: "col_type \<Rightarrow> nat \<Rightarrow> eval_value" where
  "zero_value type len = \<lparr>ev_type = type, ev_len = len, ev_data = replicate len 0\<rparr>"

text \<open>\<open>memcpy\<close> to the start of a value's data.\<close>

definition fill_value :: "eval_value \<Rightarrow> byte list \<Rightarrow> nat \<Rightarrow> eval_value outcome" where
  "fill_value v src n = othen (memcpy (ev_data v) 0 src n) (\<lambda>d. Ret (v\<lparr>ev_data := d\<rparr>))"

definition result_value :: "agg_func \<Rightarrow> col_meta \<Rightarrow> eval_value" where
  "result_value func col =
     (let type = (if func = AGG_AVG then TYPE_FLOAT else cm_type col) in zero_value type (if type = TYPE_STRING then cm_len col else 4))"

definition better :: "agg_func \<Rightarrow> int \<Rightarrow> bool" where
  "better func cmp \<longleftrightarrow> func = AGG_MAX \<and> cmp > 0 \<or> func = AGG_MIN \<and> cmp < 0"

fun best_of :: "agg_func \<Rightarrow> col_meta \<Rightarrow> byte list \<Rightarrow> byte list list \<Rightarrow> byte list outcome" where
  "best_of func col best [] = Ret best"
| "best_of func col best (row # rows) =
     (let candidate = drop (cm_offset col) row in
      othen (CompareValue candidate best (cm_type col) (cm_len col)) (\<lambda>cmp. best_of func col (if better func cmp then candidate else best) rows))"

fun int_sum_of :: "col_meta \<Rightarrow> int \<Rightarrow> byte list list \<Rightarrow> int outcome" where
  "int_sum_of col acc [] = Ret acc"
| "int_sum_of col acc (row # rows) = othen (read_int (drop (cm_offset col) row)) (\<lambda>i. int_sum_of col (acc + i) rows)"

fun float_sum_of :: "fp_ops \<Rightarrow> col_meta \<Rightarrow> 64 word \<Rightarrow> byte list list \<Rightarrow> (64 word) outcome" where
  "float_sum_of fp col acc [] = Ret acc"
| "float_sum_of fp col acc (row # rows) = othen (read_float (drop (cm_offset col) row)) (\<lambda>f. float_sum_of fp col (f64_add fp acc (f64_of_f32 fp f)) rows)"

text \<open>The last lines of \<open>eval_expr\<close> and of \<open>finalize_scalar_accumulator\<close>: a sum as the value of \<open>SUM\<close> or, divided by the number of rows, of \<open>AVG\<close>. The sum of
  integers is a \<open>long long\<close>, the result an \<open>int\<close>.\<close>

definition int_result :: "fp_ops \<Rightarrow> agg_func \<Rightarrow> eval_value \<Rightarrow> int \<Rightarrow> nat \<Rightarrow> eval_value outcome" where
  "int_result fp func v acc n =
     fill_value v (if func = AGG_AVG then float_bytes (if n = 0 then 0 else f32_div fp (f32_of_int fp acc) (f32_of_int fp (int n))) else le_enc 4 acc) 4"

definition float_result :: "fp_ops \<Rightarrow> agg_func \<Rightarrow> eval_value \<Rightarrow> 64 word \<Rightarrow> nat \<Rightarrow> eval_value outcome" where
  "float_result fp func v acc n =
     fill_value v (float_bytes (f32_of_f64 fp (if func = AGG_AVG \<and> n \<noteq> 0 then f64_div fp acc (f64_of_int fp (int n)) else acc))) 4"

definition count_value :: "nat \<Rightarrow> eval_value outcome" where
  "count_value n = fill_value (zero_value TYPE_INT 4) (le_enc 4 (int n)) 4"

definition eval_expr :: "fp_ops \<Rightarrow> col_meta list \<Rightarrow> select_expr \<Rightarrow> byte list list \<Rightarrow> eval_value outcome" where
  "eval_expr fp in_cols expr rows =
     (if \<not> is_aggregate expr then
        othen (get_col in_cols (expr_col expr)) (\<lambda>col.
          let v = zero_value (cm_type col) (cm_len col) in
          case rows of [] \<Rightarrow> Ret v | row # _ \<Rightarrow> fill_value v (drop (cm_offset col) row) (cm_len col))
      else if agg_func_of expr = AGG_COUNT then count_value (length rows)
      else othen (get_col in_cols (expr_col expr)) (\<lambda>col.
        let func = agg_func_of expr; v = result_value func col in
        if func = AGG_MAX \<or> func = AGG_MIN then
          (case rows of [] \<Rightarrow> Ret v
           | row # rest \<Rightarrow> othen (best_of func col (drop (cm_offset col) row) rest) (\<lambda>best. fill_value v best (cm_len col)))
        else if cm_type col = TYPE_INT then othen (int_sum_of col 0 rows) (\<lambda>acc. int_result fp func v acc (length rows))
        else othen (float_sum_of fp col 0 rows) (\<lambda>acc. float_result fp func v acc (length rows))))"

fun passes_having :: "fp_ops \<Rightarrow> col_meta list \<Rightarrow> having_condition list \<Rightarrow> byte list list \<Rightarrow> bool outcome" where
  "passes_having fp in_cols [] rows = Ret True"
| "passes_having fp in_cols (cond # conds) rows =
     othen (eval_expr fp in_cols (having_lhs cond) rows) (\<lambda>lhs.
     othen (if having_is_rhs_val cond then (case v_raw (having_rhs cond) of None \<Rightarrow> Throw MemoryFault | Some raw \<Rightarrow> Ret raw)
            else othen (eval_expr fp in_cols (having_rhs_expr cond) rows) (\<lambda>v. Ret (ev_data v))) (\<lambda>rhs.
     othen (CompareValue (ev_data lhs) rhs (ev_type lhs) (ev_len lhs)) (\<lambda>cmp.
       if \<not> CheckOp cmp (having_op cond) then Ret False else passes_having fp in_cols conds rows)))"

record scalar_accumulator =
  acc_count :: nat
  acc_int_sum :: int
  acc_float_sum :: "64 word"
  acc_best :: "byte list option"

definition update_scalar_accumulator :: "fp_ops \<Rightarrow> select_expr \<Rightarrow> col_meta option \<Rightarrow> byte list option \<Rightarrow> scalar_accumulator \<Rightarrow> scalar_accumulator outcome" where
  "update_scalar_accumulator fp expr col tuple state =
     (let state1 = state\<lparr>acc_count := Suc (acc_count state)\<rparr>; func = agg_func_of expr in
      case (tuple, col) of
        (None, _) \<Rightarrow> Throw MemoryFault
      | (Some row, None) \<Rightarrow> if func = AGG_COUNT then Ret state1 else Throw MemoryFault
      | (Some row, Some c) \<Rightarrow>
          let val = drop (cm_offset c) row in
          if func = AGG_COUNT then Ret state1
          else if func = AGG_MIN \<or> func = AGG_MAX then
            (case acc_best state of
               None \<Rightarrow> if length val < cm_len c then Throw MemoryFault else Ret (state1\<lparr>acc_best := Some (take (cm_len c) val)\<rparr>)
             | Some best \<Rightarrow> othen (CompareValue val best (cm_type c) (cm_len c)) (\<lambda>cmp.
                 if better func cmp then othen (memcpy best 0 val (cm_len c)) (\<lambda>best'. Ret (state1\<lparr>acc_best := Some best'\<rparr>)) else Ret state1))
          else if cm_type c = TYPE_INT then othen (read_int val) (\<lambda>i. Ret (state1\<lparr>acc_int_sum := acc_int_sum state + i\<rparr>))
          else othen (read_float val) (\<lambda>f. Ret (state1\<lparr>acc_float_sum := f64_add fp (acc_float_sum state) (f64_of_f32 fp f)\<rparr>)))"

definition finalize_scalar_accumulator :: "fp_ops \<Rightarrow> col_meta list \<Rightarrow> select_expr \<Rightarrow> scalar_accumulator \<Rightarrow> eval_value outcome" where
  "finalize_scalar_accumulator fp in_cols expr state =
     (if agg_func_of expr = AGG_COUNT then count_value (acc_count state)
      else othen (get_col in_cols (expr_col expr)) (\<lambda>col.
        let func = agg_func_of expr; v = result_value func col in
        if func = AGG_MIN \<or> func = AGG_MAX then (case acc_best state of None \<Rightarrow> Ret v | Some best \<Rightarrow> fill_value v best (cm_len col))
        else if cm_type col = TYPE_INT then int_result fp func v (acc_int_sum state) (acc_count state)
        else float_result fp func v (acc_float_sum state) (acc_count state)))"

text \<open>The constructor's loop over the expressions.\<close>

fun aggregate_cols :: "col_meta list \<Rightarrow> select_expr list \<Rightarrow> nat \<Rightarrow> (col_meta list \<times> nat) outcome" where
  "aggregate_cols in_cols [] offset = Ret ([], offset)"
| "aggregate_cols in_cols (expr # exprs) offset =
     othen (if \<not> is_aggregate expr then othen (get_col in_cols (expr_col expr)) (\<lambda>source. Ret (cm_type source, cm_len source))
            else if agg_func_of expr = AGG_COUNT then Ret (TYPE_INT, 4)
            else if agg_func_of expr = AGG_AVG then Ret (TYPE_FLOAT, 4)
            else othen (get_col in_cols (expr_col expr)) (\<lambda>source. Ret (cm_type source, cm_len source))) (\<lambda>(type, len).
     othen (aggregate_cols in_cols exprs (offset + len)) (\<lambda>(cs, acc).
       Ret (\<lparr>cm_tab = '''', cm_name = output_name expr, cm_type = type, cm_len = len, cm_offset = offset\<rparr> # cs, acc)))"

record aggregate =
  select_exprs :: "select_expr list"
  group_cols :: "tab_col list"
  having_conds :: "having_condition list"
  agg_cols :: "col_meta list"
  agg_len :: nat

definition can_stream_scalar_aggregate :: "query_env \<Rightarrow> aggregate \<Rightarrow> bool" where
  "can_stream_scalar_aggregate E A \<longleftrightarrow>
     env_streaming E \<and> group_cols A = [] \<and> having_conds A = [] \<and> length (select_exprs A) = 1 \<and> is_aggregate (hd (select_exprs A))"

definition run_scalar_streaming :: "query_env \<Rightarrow> aggregate \<Rightarrow> executor \<Rightarrow> xstate \<Rightarrow> xstate comp" where
  "run_scalar_streaming E A prev sp =
     (let expr = hd (select_exprs A); fp = env_fp E in
      cthen (Some (if agg_func_of expr = AGG_COUNT then Ret None else othen (get_col (cols prev) (expr_col expr)) (\<lambda>c. Ret (Some c)))) (\<lambda>col.
      cthen (for_tuples prev (update_scalar_accumulator fp expr col) sp \<lparr>acc_count = 0, acc_int_sum = 0, acc_float_sum = 0, acc_best = None\<rparr>) (\<lambda>(state, sp').
      cthen (Some (finalize_scalar_accumulator fp (cols prev) expr state)) (\<lambda>v.
      cthen (Some (memcpy (env_uninit E (agg_len A)) (cm_offset (hd (agg_cols A))) (ev_data v) (cm_len (hd (agg_cols A))))) (\<lambda>out.
        ret (XBuffer sp' [out] 0))))))"

fun group_key :: "col_meta list \<Rightarrow> tab_col list \<Rightarrow> byte list \<Rightarrow> byte list outcome" where
  "group_key in_cols [] row = Ret []"
| "group_key in_cols (g # gs) row =
     othen (get_col in_cols g) (\<lambda>col.
       if length (drop (cm_offset col) row) < cm_len col then Throw MemoryFault
       else othen (group_key in_cols gs row) (\<lambda>key. Ret (take (cm_len col) (drop (cm_offset col) row) @ key)))"

text \<open>The loop body: the group of the row's key is found in \<open>group_index\<close> or appended.\<close>

definition group_tuple :: "col_meta list \<Rightarrow> tab_col list \<Rightarrow> byte list option \<Rightarrow> byte list list list \<times> (byte list \<rightharpoonup> nat) \<Rightarrow> (byte list list list \<times> (byte list \<rightharpoonup> nat)) outcome" where
  "group_tuple in_cols gs tuple acc =
     (case (tuple, acc) of
        (None, _) \<Rightarrow> Throw MemoryFault
      | (Some row, (groups, group_index)) \<Rightarrow>
          othen (group_key in_cols gs row) (\<lambda>key.
            if gs = [] then Ret (groups[0 := groups ! 0 @ [row]], group_index)
            else case group_index key of
                None \<Rightarrow> Ret (groups @ [[row]], group_index(key \<mapsto> length groups))
              | Some index \<Rightarrow> Ret (groups[index := groups ! index @ [row]], group_index)))"

fun write_values :: "fp_ops \<Rightarrow> col_meta list \<Rightarrow> (select_expr \<times> col_meta) list \<Rightarrow> byte list list \<Rightarrow> byte list \<Rightarrow> byte list outcome" where
  "write_values fp in_cols [] rows out = Ret out"
| "write_values fp in_cols ((expr, col) # ps) rows out =
     othen (eval_expr fp in_cols expr rows) (\<lambda>v. othen (memcpy out (cm_offset col) (ev_data v) (cm_len col)) (write_values fp in_cols ps rows))"

fun output_groups :: "query_env \<Rightarrow> aggregate \<Rightarrow> col_meta list \<Rightarrow> byte list list list \<Rightarrow> byte list list outcome" where
  "output_groups E A in_cols [] = Ret []"
| "output_groups E A in_cols (g # groups) =
     othen (passes_having (env_fp E) in_cols (having_conds A) g) (\<lambda>b.
       if \<not> b then output_groups E A in_cols groups
       else othen (write_values (env_fp E) in_cols (zip (select_exprs A) (agg_cols A)) g (env_uninit E (agg_len A))) (\<lambda>out.
         othen (output_groups E A in_cols groups) (\<lambda>rs. Ret (out # rs))))"

fun aggregate_begin :: "query_env \<Rightarrow> aggregate \<Rightarrow> executor \<Rightarrow> xstate \<Rightarrow> xstate comp" where
  "aggregate_begin E A prev (XBuffer sp rs pos) =
     (if can_stream_scalar_aggregate E A then run_scalar_streaming E A prev sp
      else cthen (for_tuples prev (group_tuple (cols prev) (group_cols A)) sp (if group_cols A = [] then [[]] else [], Map.empty)) (\<lambda>((groups, index), sp').
        cthen (Some (output_groups E A (cols prev) groups)) (\<lambda>rs'. ret (XBuffer sp' rs' 0))))"
| "aggregate_begin E A prev _ = Some (Throw MemoryFault)"

definition AggregateExecutor :: "query_env \<Rightarrow> executor \<times> xstate \<Rightarrow> select_expr list \<Rightarrow> tab_col list \<Rightarrow> having_condition list \<Rightarrow> (executor \<times> xstate) outcome" where
  "AggregateExecutor E px exprs gs havings =
     (case px of (prev, sp) \<Rightarrow>
        othen (aggregate_cols (cols prev) exprs 0) (\<lambda>(cs, len).
          Ret (\<lparr>tupleLen = len, cols = cs,
                beginTuple = aggregate_begin E \<lparr>select_exprs = exprs, group_cols = gs, having_conds = havings, agg_cols = cs, agg_len = len\<rparr> prev,
                nextTuple = buffer_next, is_end = buffer_is_end, Next = buffer_current, Current = buffer_current\<rparr>,
               XBuffer sp [] 0)))"

subsection \<open>Plans and their execution\<close>

datatype plan =
    ScanPlan string string "condition list"
  | JoinPlan plan plan "condition list"
  | ProjectionPlan plan "tab_col list"
  | SortPlan plan "tab_col list" "bool list" int
  | UnionPlan "plan list" "col_meta list"
  | AggregatePlan plan "select_expr list" "tab_col list" "having_condition list"

fun convert_plan_executor :: "query_env \<Rightarrow> scan_mode \<Rightarrow> plan \<Rightarrow> (executor \<times> xstate) outcome" where
  "convert_plan_executor E mode (ScanPlan tab_name real conds) = SeqScanExecutor E tab_name conds real mode"
| "convert_plan_executor E mode (JoinPlan left right conds) =
     othen (convert_plan_executor E mode left) (\<lambda>lx. othen (convert_plan_executor E mode right) (\<lambda>rx. NestedLoopJoinExecutor E lx rx conds))"
| "convert_plan_executor E mode (ProjectionPlan sub sel_cols) = othen (convert_plan_executor E mode sub) (\<lambda>px. ProjectionExecutor E px sel_cols)"
| "convert_plan_executor E mode (SortPlan sub sel_cols is_desc limit) = othen (convert_plan_executor E mode sub) (\<lambda>px. SortExecutor px sel_cols is_desc limit)"
| "convert_plan_executor E mode (UnionPlan subs output_cols) = othen (omap (convert_plan_executor E mode) subs) (\<lambda>children. Ret (UnionExecutor E children output_cols))"
| "convert_plan_executor E mode (AggregatePlan sub exprs gs havings) = othen (convert_plan_executor E mode sub) (\<lambda>px. AggregateExecutor E px exprs gs havings)"

text \<open>One cell of the result as \<open>select_from\<close> prints it.\<close>

definition column_text :: "fp_ops \<Rightarrow> byte list \<Rightarrow> col_meta \<Rightarrow> string outcome" where
  "column_text fp tuple col =
     (let rec_buf = drop (cm_offset col) tuple in
      case cm_type col of
        TYPE_INT \<Rightarrow> othen (read_int rec_buf) (\<lambda>i. Ret (to_string i))
      | TYPE_FLOAT \<Rightarrow> othen (read_float rec_buf) (\<lambda>f. Ret (f32_to_string fp f))
      | TYPE_STRING \<Rightarrow> if length rec_buf < cm_len col then Throw MemoryFault
                       else Ret (map byte_char (takeWhile (\<lambda>b. b \<noteq> 0) (take (cm_len col) rec_buf))))"

definition select_tuple :: "fp_ops \<Rightarrow> col_meta list \<Rightarrow> byte list option \<Rightarrow> string list list \<Rightarrow> string list list outcome" where
  "select_tuple fp cs tuple rows = (case tuple of None \<Rightarrow> Ret rows | Some r \<Rightarrow> othen (omap (column_text fp r) cs) (\<lambda>columns. Ret (rows @ [columns])))"

text \<open>The rows \<open>QlManager::select_from\<close> prints.\<close>

definition select_from :: "query_env \<Rightarrow> executor \<times> xstate \<Rightarrow> string list list comp" where
  "select_from E root = (case root of (ex, s) \<Rightarrow> cthen (for_tuples ex (select_tuple (env_fp E) (cols ex)) s []) (\<lambda>(rows, s'). ret rows))"

text \<open>A \<open>SELECT\<close> in the portal: \<open>start\<close> builds the executors, \<open>run\<close> calls \<open>select_from\<close>.\<close>

definition run_select :: "query_env \<Rightarrow> plan \<Rightarrow> string list list comp" where
  "run_select E p = cthen (Some (convert_plan_executor E VISIBLE_TUPLE p)) (select_from E)"

end
