(* ===== verification/Rmdb_Exec_Spec.thy ===== *)
theory Rmdb_Exec_Spec
  imports Rmdb_Exec Rmdb_Heap_Scan Rmdb_Mvcc_Props
begin

text \<open>
  What a query plan means: \<open>plan_rows\<close>, the list of rows of a plan, by the operations of the relational algebra on lists, without iterators, buffers or loops; and
  \<open>plan_ok\<close>, the plans that are well typed over a database in order.

  A scan is the filter of the visible records in the order of their positions, a join the filter of the product, a projection the concatenation of the selected
  fields, a sort a stable sort cut at the limit, a union the first occurrences of the converted rows, an aggregate one row for every group that passes \<open>HAVING\<close>.
\<close>

subsection \<open>Schemas\<close>

fun tile :: "nat \<Rightarrow> col_meta list \<Rightarrow> col_meta list" where
  "tile off [] = []"
| "tile off (c # cs) = c\<lparr>cm_offset := off\<rparr> # tile (off + cm_len c) cs"

definition total_len :: "col_meta list \<Rightarrow> nat" where
  "total_len cs = sum_list (map cm_len cs)"

definition shift :: "nat \<Rightarrow> col_meta list \<Rightarrow> col_meta list" where
  "shift n cs = map (\<lambda>col. col\<lparr>cm_offset := cm_offset col + n\<rparr>) cs"

definition real_name :: "string \<Rightarrow> string \<Rightarrow> string" where
  "real_name tab_name real = (if real = [] then tab_name else real)"

subsection \<open>Rows of a table\<close>

definition heap_rids :: "heap_file \<Rightarrow> rid list" where
  "heap_rids fh = remaining fh (num_pages (file_hdr fh)) 1 0"

fun visible_rows :: "(rid \<Rightarrow> byte list option outcome) \<Rightarrow> rid list \<Rightarrow> byte list list" where
  "visible_rows get [] = []"
| "visible_rows get (q # qs) = (case get q of Ret (Some v) \<Rightarrow> v # visible_rows get qs | _ \<Rightarrow> visible_rows get qs)"

definition table_rows :: "query_env \<Rightarrow> string \<Rightarrow> byte list list" where
  "table_rows E name = (case env_fhs E name of None \<Rightarrow> [] | Some (desc, fh) \<Rightarrow> visible_rows (get_visible E desc) (heap_rids fh))"

subsection \<open>Sorting, first occurrences\<close>

fun sort_before :: "col_meta list \<Rightarrow> bool list \<Rightarrow> byte list \<Rightarrow> byte list \<Rightarrow> bool" where
  "sort_before [] desc l r = False"
| "sort_before (c # cs) desc l r =
     (let cmp = ix_compare_col (field l c) (field r c) (cm_type c) (cm_len c)
      in if cmp \<noteq> 0 then (if hd desc then cmp > 0 else cmp < 0) else sort_before cs (tl desc) l r)"

definition firsts :: "'a list \<Rightarrow> 'a list" where
  "firsts xs = rev (remdups (rev xs))"

subsection \<open>Conversion of the rows of a union\<close>

definition convert_field :: "fp_ops \<Rightarrow> byte list \<Rightarrow> col_meta \<times> col_meta \<Rightarrow> byte list" where
  "convert_field fp r p = (case p of (src, dst) \<Rightarrow>
     if cm_type src = cm_type dst then take (cm_len dst) (field r src @ replicate (cm_len dst) 0)
     else float_bytes (f32_of_int fp (le_dec_signed (field r src))))"

definition convert_row :: "fp_ops \<Rightarrow> col_meta list \<Rightarrow> col_meta list \<Rightarrow> byte list \<Rightarrow> byte list" where
  "convert_row fp cs out r = concat (map (convert_field fp r) (zip cs out))"

definition union_typed :: "col_meta list \<Rightarrow> col_meta list \<Rightarrow> bool" where
  "union_typed cs out \<longleftrightarrow> length cs = length out \<and> (\<forall>(src, dst) \<in> set (zip cs out). cm_type src = cm_type dst \<or> cm_type src = TYPE_INT \<and> cm_type dst = TYPE_FLOAT)"

subsection \<open>Aggregates\<close>

definition expr_type :: "col_meta list \<Rightarrow> select_expr \<Rightarrow> col_type \<times> nat" where
  "expr_type cs e = (if is_aggregate e \<and> agg_func_of e = AGG_COUNT then (TYPE_INT, 4) else if is_aggregate e \<and> agg_func_of e = AGG_AVG then (TYPE_FLOAT, 4)
     else (cm_type (col_of cs (expr_col e)), cm_len (col_of cs (expr_col e))))"

definition expr_typed :: "col_meta list \<Rightarrow> select_expr \<Rightarrow> bool" where
  "expr_typed cs e \<longleftrightarrow> is_aggregate e \<and> agg_func_of e = AGG_COUNT
     \<or> has_col cs (expr_col e) \<and> (is_aggregate e \<and> agg_func_of e \<in> {AGG_SUM, AGG_AVG} \<longrightarrow> cm_type (col_of cs (expr_col e)) \<noteq> TYPE_STRING)"

definition expr_meta :: "col_meta list \<Rightarrow> select_expr \<Rightarrow> col_meta" where
  "expr_meta cs e = \<lparr>cm_tab = '''', cm_name = output_name e, cm_type = fst (expr_type cs e), cm_len = snd (expr_type cs e), cm_offset = 0\<rparr>"

definition best_field :: "agg_func \<Rightarrow> col_meta \<Rightarrow> byte list list \<Rightarrow> byte list" where
  "best_field func c vs = foldl (\<lambda>b v. if better func (ix_compare_col v b (cm_type c) (cm_len c)) then v else b) (hd vs) (tl vs)"

definition float_total :: "fp_ops \<Rightarrow> byte list list \<Rightarrow> 64 word" where
  "float_total fp vs = foldl (\<lambda>s v. f64_add fp s (f64_of_f32 fp (word_of_int (le_dec v)))) 0 vs"

definition sum_bytes :: "fp_ops \<Rightarrow> col_type \<Rightarrow> byte list list \<Rightarrow> byte list" where
  "sum_bytes fp type vs = (if type = TYPE_INT then le_enc 4 (sum_list (map le_dec_signed vs)) else float_bytes (f32_of_f64 fp (float_total fp vs)))"

definition avg_bytes :: "fp_ops \<Rightarrow> col_type \<Rightarrow> byte list list \<Rightarrow> byte list" where
  "avg_bytes fp type vs = float_bytes
     (if type = TYPE_INT then (if vs = [] then 0 else f32_div fp (f32_of_int fp (sum_list (map le_dec_signed vs))) (f32_of_int fp (int (length vs))))
      else f32_of_f64 fp (if vs = [] then float_total fp vs else f64_div fp (float_total fp vs) (f64_of_int fp (int (length vs)))))"

definition expr_bytes :: "fp_ops \<Rightarrow> col_meta list \<Rightarrow> byte list list \<Rightarrow> select_expr \<Rightarrow> byte list" where
  "expr_bytes fp cs rows e =
     (let c = col_of cs (expr_col e); vs = map (\<lambda>r. field r c) rows in
      if \<not> is_aggregate e then (if vs = [] then replicate (cm_len c) 0 else hd vs)
      else case agg_func_of e of
          AGG_COUNT \<Rightarrow> le_enc 4 (int (length rows))
        | AGG_SUM \<Rightarrow> sum_bytes fp (cm_type c) vs
        | AGG_AVG \<Rightarrow> avg_bytes fp (cm_type c) vs
        | _ \<Rightarrow> if vs = [] then replicate (cm_len c) 0 else best_field (agg_func_of e) c vs)"

definition having_typed :: "col_meta list \<Rightarrow> having_condition \<Rightarrow> bool" where
  "having_typed cs h \<longleftrightarrow> expr_typed cs (having_lhs h)
     \<and> (if having_is_rhs_val h then (case v_raw (having_rhs h) of None \<Rightarrow> False | Some raw \<Rightarrow> length raw = snd (expr_type cs (having_lhs h)))
        else expr_typed cs (having_rhs_expr h) \<and> fst (expr_type cs (having_rhs_expr h)) = fst (expr_type cs (having_lhs h))
             \<and> snd (expr_type cs (having_lhs h)) \<le> snd (expr_type cs (having_rhs_expr h)))"

definition having_holds :: "fp_ops \<Rightarrow> col_meta list \<Rightarrow> byte list list \<Rightarrow> having_condition \<Rightarrow> bool" where
  "having_holds fp cs rows h =
     CheckOp (ix_compare_col (expr_bytes fp cs rows (having_lhs h))
                (if having_is_rhs_val h then the (v_raw (having_rhs h)) else expr_bytes fp cs rows (having_rhs_expr h))
                (fst (expr_type cs (having_lhs h))) (snd (expr_type cs (having_lhs h)))) (having_op h)"

definition key_of :: "col_meta list \<Rightarrow> tab_col list \<Rightarrow> byte list \<Rightarrow> byte list" where
  "key_of cs gs r = concat (map (\<lambda>g. field r (col_of cs g)) gs)"

definition groups_of :: "col_meta list \<Rightarrow> tab_col list \<Rightarrow> byte list list \<Rightarrow> byte list list list" where
  "groups_of cs gs rows = (if gs = [] then [rows] else map (\<lambda>k. filter (\<lambda>r. key_of cs gs r = k) rows) (firsts (map (key_of cs gs) rows)))"

subsection \<open>Plans\<close>

fun plan_len :: "query_env \<Rightarrow> plan \<Rightarrow> nat" and plan_cols :: "query_env \<Rightarrow> plan \<Rightarrow> col_meta list" where
  "plan_len E (ScanPlan tab_name real conds) = (let c = last (plan_cols E (ScanPlan tab_name real conds)) in cm_offset c + cm_len c)"
| "plan_len E (JoinPlan l r conds) = plan_len E l + plan_len E r"
| "plan_len E (ProjectionPlan p sels) = total_len (map (col_of (plan_cols E p)) sels)"
| "plan_len E (SortPlan p sels desc limit) = plan_len E p"
| "plan_len E (UnionPlan ps out) = total_len out"
| "plan_len E (AggregatePlan p exprs gs havings) = total_len (map (expr_meta (plan_cols E p)) exprs)"
| "plan_cols E (ScanPlan tab_name real conds) = (case env_tabs E (real_name tab_name real) of None \<Rightarrow> [] | Some tab \<Rightarrow> scan_cols tab tab_name)"
| "plan_cols E (JoinPlan l r conds) = plan_cols E l @ shift (plan_len E l) (plan_cols E r)"
| "plan_cols E (ProjectionPlan p sels) = tile 0 (map (col_of (plan_cols E p)) sels)"
| "plan_cols E (SortPlan p sels desc limit) = plan_cols E p"
| "plan_cols E (UnionPlan ps out) = out"
| "plan_cols E (AggregatePlan p exprs gs havings) = tile 0 (map (expr_meta (plan_cols E p)) exprs)"

fun plan_rows :: "query_env \<Rightarrow> plan \<Rightarrow> byte list list" where
  "plan_rows E (ScanPlan tab_name real conds) =
     filter (\<lambda>r. \<forall>c \<in> set conds. cond_holds (plan_cols E (ScanPlan tab_name real conds)) r c) (table_rows E (real_name tab_name real))"
| "plan_rows E (JoinPlan l r conds) =
     filter (\<lambda>t. \<forall>c \<in> set conds. cond_holds (plan_cols E (JoinPlan l r conds)) t c) (concat (map (\<lambda>a. map (\<lambda>b. a @ b) (plan_rows E r)) (plan_rows E l)))"
| "plan_rows E (ProjectionPlan p sels) = map (\<lambda>r. concat (map (\<lambda>t. field r (col_of (plan_cols E p) t)) sels)) (plan_rows E p)"
| "plan_rows E (SortPlan p sels desc limit) =
     apply_limit limit (stable_order (sort_before (map (col_of (plan_cols E p)) sels) desc) (plan_rows E p))"
| "plan_rows E (UnionPlan ps out) = firsts (concat (map (\<lambda>p. map (convert_row (env_fp E) (plan_cols E p) out) (plan_rows E p)) ps))"
| "plan_rows E (AggregatePlan p exprs gs havings) =
     map (\<lambda>g. concat (map (expr_bytes (env_fp E) (plan_cols E p) g) exprs))
       (filter (\<lambda>g. \<forall>h \<in> set havings. having_holds (env_fp E) (plan_cols E p) g h) (groups_of (plan_cols E p) gs (plan_rows E p)))"

text \<open>A table in order: it has columns that lie inside its records, a heap file that keeps its invariant, and visible records of the right length.\<close>

definition table_ok :: "query_env \<Rightarrow> string \<Rightarrow> bool" where
  "table_ok E name \<longleftrightarrow> (\<exists>tab desc fh. env_tabs E name = Some tab \<and> env_fhs E name = Some (desc, fh) \<and> tm_cols tab \<noteq> []
     \<and> schema_ok (tm_cols tab) (cm_offset (last (tm_cols tab)) + cm_len (last (tm_cols tab))) \<and> heap_inv fh \<and> (\<forall>n. \<not> pool_full fh n)
     \<and> (\<forall>r v. get_visible E desc r = Ret (Some v) \<longrightarrow> length v = cm_offset (last (tm_cols tab)) + cm_len (last (tm_cols tab))))"

text \<open>The reader is a running transaction, or none.\<close>

definition env_ok :: "query_env \<Rightarrow> bool" where
  "env_ok E \<longleftrightarrow> tm_inv (env_txns E) \<and> (\<forall>n. length (env_uninit E n) = n)
     \<and> (case env_reader E of None \<Rightarrow> True | Some t \<Rightarrow> (\<exists>x. txn_map (env_txns E) t = Some x \<and> active x (env_txns E)))"

fun plan_ok :: "query_env \<Rightarrow> plan \<Rightarrow> bool" where
  "plan_ok E (ScanPlan tab_name real conds) \<longleftrightarrow> table_ok E (real_name tab_name real) \<and> (\<forall>c \<in> set conds. cond_typed (plan_cols E (ScanPlan tab_name real conds)) c)"
| "plan_ok E (JoinPlan l r conds) \<longleftrightarrow> plan_ok E l \<and> plan_ok E r \<and> (\<forall>c \<in> set conds. cond_typed (plan_cols E (JoinPlan l r conds)) c)"
| "plan_ok E (ProjectionPlan p sels) \<longleftrightarrow> plan_ok E p \<and> (\<forall>t \<in> set sels. has_col (plan_cols E p) t)"
| "plan_ok E (SortPlan p sels desc limit) \<longleftrightarrow> plan_ok E p \<and> (\<forall>t \<in> set sels. has_col (plan_cols E p) t) \<and> length sels \<le> length desc"
| "plan_ok E (UnionPlan ps out) \<longleftrightarrow> (\<forall>p \<in> set ps. plan_ok E p \<and> union_typed (plan_cols E p) out) \<and> tile 0 out = out \<and> schema_ok out (total_len out)"
| "plan_ok E (AggregatePlan p exprs gs havings) \<longleftrightarrow> plan_ok E p \<and> (\<forall>e \<in> set exprs. expr_typed (plan_cols E p) e)
     \<and> (\<forall>g \<in> set gs. has_col (plan_cols E p) g) \<and> (\<forall>h \<in> set havings. having_typed (plan_cols E p) h)"

text \<open>The text of a row.\<close>

definition row_text :: "fp_ops \<Rightarrow> col_meta list \<Rightarrow> byte list \<Rightarrow> string list" where
  "row_text fp cs r = map (\<lambda>c. case cm_type c of
       TYPE_INT \<Rightarrow> to_string (le_dec_signed (field r c))
     | TYPE_FLOAT \<Rightarrow> f32_to_string fp (word_of_int (le_dec (field r c)))
     | TYPE_STRING \<Rightarrow> map byte_char (takeWhile (\<lambda>b. b \<noteq> 0) (field r c))) cs"

end
