(* ===== verification/Rmdb_Exec_Iter.thy ===== *)
theory Rmdb_Exec_Iter
  imports Rmdb_Exec_Spec
begin

text \<open>
  The contract of an executor: \<open>yields ex I s rs\<close> says that from the state \<open>s\<close> on the executor delivers the tuples \<open>rs\<close> and then ends, \<open>implements ex I rs\<close> that
  \<open>beginTuple\<close> brings it, from every state in \<open>I\<close>, to the start of \<open>rs\<close>. An executor that keeps the contract can be begun any number of times, which the join does with
  its right child. The loop over its tuples ends and folds its body over \<open>rs\<close> (\<open>for_tuples_run\<close>). The theory shows the contract of the scan, the join and the projection,
  given the contracts of the children.
\<close>

fun yields :: "executor \<Rightarrow> (xstate \<Rightarrow> bool) \<Rightarrow> xstate \<Rightarrow> byte list list \<Rightarrow> bool" where
  "yields ex I s [] \<longleftrightarrow> I s \<and> is_end ex s"
| "yields ex I s (r # rs) \<longleftrightarrow> I s \<and> \<not> is_end ex s \<and> CurrentOrNext ex s = Some r \<and> (\<exists>s'. nextTuple ex s = ret s' \<and> yields ex I s' rs)"

definition implements :: "executor \<Rightarrow> (xstate \<Rightarrow> bool) \<Rightarrow> byte list list \<Rightarrow> bool" where
  "implements ex I rs \<longleftrightarrow> (\<forall>s. I s \<longrightarrow> (\<exists>s'. beginTuple ex s = ret s' \<and> yields ex I s' rs))"

lemma implementsD: "implements ex I rs \<Longrightarrow> I s \<Longrightarrow> \<exists>s'. beginTuple ex s = ret s' \<and> yields ex I s' rs"
  by (simp add: implements_def)

lemma yields_inv: "yields ex I s rs \<Longrightarrow> I s"
  by (cases rs) simp_all

lemma yields_end: "yields ex I s rs \<Longrightarrow> is_end ex s \<longleftrightarrow> rs = []"
  by (cases rs) simp_all

lemma CurrentOrNext_Some: "Current ex s = Some r \<Longrightarrow> CurrentOrNext ex s = Some r"
  by (simp add: CurrentOrNext_def)

subsection \<open>Loops over an executor\<close>

fun run_body :: "(byte list option \<Rightarrow> 'a \<Rightarrow> 'a outcome) \<Rightarrow> byte list list \<Rightarrow> 'a \<Rightarrow> 'a outcome" where
  "run_body body [] a = Ret a"
| "run_body body (r # rs) a = othen (body (Some r) a) (run_body body rs)"

lemma for_each_run: "yields ex I s rs \<Longrightarrow> run_body body rs a = Ret a' \<Longrightarrow> \<exists>s'. for_each ex body s a = ret (a', s') \<and> I s'"
proof (induction rs arbitrary: s a)
  case Nil
  then show ?case by (simp add: for_each.simps [of ex body s])
next
  case (Cons r rs)
  obtain s' where s': "\<not> is_end ex s" "CurrentOrNext ex s = Some r" "nextTuple ex s = ret s'" "yields ex I s' rs" using Cons.prems(1) by auto
  obtain b where b: "body (Some r) a = Ret b" "run_body body rs b = Ret a'" using Cons.prems(2) by (auto simp: othen_Ret_iff)
  then show ?case using Cons.IH [OF s'(4) b(2)] s' by (simp add: for_each.simps [of ex body s])
qed

lemma for_tuples_run:
  assumes "implements ex I rs" "I s" "run_body body rs a = Ret a'"
  shows "\<exists>s'. for_tuples ex body s a = ret (a', s') \<and> I s'"
  using implementsD [OF assms(1,2)] for_each_run [OF _ assms(3)] by (auto simp: for_tuples_def)

lemma run_body_fold:
  assumes "\<And>r a. r \<in> set rs \<Longrightarrow> P a \<Longrightarrow> body (Some r) a = Ret (f r a) \<and> P (f r a)" and "P a"
  shows "run_body body rs a = Ret (fold f rs a) \<and> P (fold f rs a)"
  using assms by (induction rs arbitrary: a) simp_all

subsection \<open>Vectors of tuples\<close>

definition buffer_executor :: "executor \<Rightarrow> bool" where
  "buffer_executor ex \<longleftrightarrow> nextTuple ex = buffer_next \<and> is_end ex = buffer_is_end \<and> Current ex = buffer_current \<and> Next ex = buffer_current"

lemma buffer_yields:
  assumes "buffer_executor ex" and "\<And>n. I (C rs n)" and "(\<exists>s. C = XBuffer s) \<or> (\<exists>ss. C = XUnion ss)" and "pos \<le> length rs"
  shows "yields ex I (C rs pos) (drop pos rs)"
  using assms(4)
proof (induction "drop pos rs" arbitrary: pos)
  case Nil
  then show ?case using assms(1-3) by (auto simp: buffer_executor_def)
next
  case (Cons r ts)
  have p: "pos < length rs" using Cons.hyps(2) by (metis drop_all list.distinct(1) not_le)
  have e: "r = rs ! pos" "ts = drop (Suc pos) rs" using Cons.hyps(2) Cons_nth_drop_Suc [OF p] by (metis list.inject)+
  have "yields ex I (C rs (Suc pos)) ts" using Cons.hyps(1) [OF e(2)] p e(2) by simp
  then show ?case unfolding Cons.hyps(2) [symmetric] using assms(1-3) p e(1) by (auto simp: buffer_executor_def CurrentOrNext_def)
qed

lemma buffer_implements:
  assumes "buffer_executor ex"
    and "\<And>s. I s \<Longrightarrow> \<exists>C. beginTuple ex s = ret (C rs 0) \<and> (\<forall>n. I (C rs n)) \<and> ((\<exists>s. C = XBuffer s) \<or> (\<exists>ss. C = XUnion ss))"
  shows "implements ex I rs"
proof -
  have "\<exists>s'. beginTuple ex s = ret s' \<and> yields ex I s' rs" if s: "I s" for s
  proof -
    obtain C where c: "beginTuple ex s = ret (C rs 0)" "\<forall>n. I (C rs n)" "(\<exists>s. C = XBuffer s) \<or> (\<exists>ss. C = XUnion ss)" using assms(2) [OF s] by blast
    then show ?thesis using buffer_yields [OF assms(1), of I C rs 0] by auto
  qed
  then show ?thesis by (simp add: implements_def)
qed

subsection \<open>The sequential scan\<close>

definition at_rids :: "heap_file \<Rightarrow> rm_scan \<Rightarrow> rid list \<Rightarrow> bool" where
  "at_rids fh sc qs \<longleftrightarrow> scan_num_pages sc \<le> num_pages (file_hdr fh) \<and> scan_rid sc = head_or_end qs \<and> (\<exists>n j. 1 \<le> n \<and> qs = remaining fh (scan_num_pages sc) n j)"

lemma at_rids_Nil: "at_rids fh sc [] \<Longrightarrow> scan_is_end sc"
  by (simp add: at_rids_def scan_is_end_def head_or_end_def scan_end_def)

lemma at_rids_Cons:
  assumes "heap_inv fh" "\<forall>n. \<not> pool_full fh n" "at_rids fh sc (q # qs)"
  shows "\<not> scan_is_end sc \<and> scan_rid sc = q \<and> (\<exists>sc'. fst (scan_next sc fh) = Ret sc' \<and> at_rids fh sc' qs)"
proof -
  let ?snap = "scan_num_pages sc"
  obtain n j where n: "1 \<le> n" "remaining fh ?snap n j = q # qs" using assms(3) by (auto simp: at_rids_def)
  note c = remaining_Cons [OF n(2)]
  have q: "scan_rid sc = q" "?snap \<le> num_pages (file_hdr fh)" using assms(3) by (simp_all add: at_rids_def head_or_end_def)
  have e: "\<not> scan_is_end sc" using c n(1) q(1) by (simp add: scan_is_end_def)
  have j: "Suc (nat (rid_slot q)) = nat (rid_slot q + 1)" using c by (simp add: Suc_nat_eq_nat_zadd1)
  have "1 \<le> rid_page q" "- 1 \<le> rid_slot q" using c n(1) by simp_all
  then have "scan_next sc fh = (Ret (sc\<lparr>scan_rid := head_or_end qs\<rparr>), fh)"
    using scan_from_remaining [OF assms(1) _ q(2), of "rid_page q" q] assms(2) c q(1) j by (simp add: scan_next_def hret_def)
  moreover have "at_rids fh (sc\<lparr>scan_rid := head_or_end qs\<rparr>) qs" using q(2) c \<open>1 \<le> rid_page q\<close> by (auto simp: at_rids_def)
  ultimately show ?thesis using e q(1) by simp
qed

lemma at_rids_new:
  assumes "heap_inv fh" "\<forall>n. \<not> pool_full fh n"
  shows "\<exists>sc. fst (RmScan_new fh) = Ret sc \<and> at_rids fh sc (heap_rids fh)"
proof -
  have "RmScan_new fh = (Ret \<lparr>scan_rid = head_or_end (heap_rids fh), scan_num_pages = num_pages (file_hdr fh)\<rparr>, fh)"
    using RmScan_new_remaining [OF assms(1)] assms(2) by (simp add: heap_rids_def)
  then show ?thesis by (auto simp: at_rids_def heap_rids_def intro: exI [of _ 1])
qed

text \<open>A scan set up over \<open>fh\<close>: every read returns, and the conditions decide \<open>P\<close> on the records read.\<close>

definition scan_reads :: "heap_file \<Rightarrow> (rid \<Rightarrow> byte list option outcome) \<Rightarrow> col_meta list \<Rightarrow> condition list \<Rightarrow> (byte list \<Rightarrow> bool) \<Rightarrow> bool" where
  "scan_reads fh get cs conds P \<longleftrightarrow> heap_inv fh \<and> (\<forall>n. \<not> pool_full fh n) \<and> (\<forall>q. \<exists>v. get q = Ret v) \<and> (\<forall>q r. get q = Ret (Some r) \<longrightarrow> eval_conds cs r conds = Ret (P r))"

lemma advance_ok:
  assumes "scan_reads fh get cs conds P" "at_rids fh sc qs"
  shows "\<exists>sc' r' cur. advance_to_next_valid fh get cs conds sc r = ret (sc', r', cur)
    \<and> (case filter P (visible_rows get qs) of [] \<Rightarrow> scan_is_end sc' | v # rs \<Rightarrow> cur = Some v \<and> (\<exists>q qs'. at_rids fh sc' (q # qs') \<and> filter P (visible_rows get qs') = rs))"
  using assms(2)
proof (induction qs arbitrary: sc r)
  case Nil
  then show ?case using at_rids_Nil by (simp add: advance_to_next_valid.simps [of fh get cs conds sc])
next
  case (Cons q qs)
  note h = assms(1) [unfolded scan_reads_def]
  obtain sc' where s: "\<not> scan_is_end sc" "scan_rid sc = q" "fst (scan_next sc fh) = Ret sc'" "at_rids fh sc' qs" using at_rids_Cons [OF _ _ Cons.prems] h by blast
  note u = advance_to_next_valid.simps [of fh get cs conds sc]
  obtain v where v: "get q = Ret v" using h by blast
  show ?case
  proof (cases v)
    case None
    then show ?thesis using Cons.IH [OF s(4), of q] s v by (simp add: u)
  next
    case (Some rec)
    have e: "eval_conds cs rec conds = Ret (P rec)" using h v Some by blast
    show ?thesis
    proof (cases "P rec")
      case True
      then show ?thesis using Some e s v Cons.prems by (auto simp: u)
    next
      case False
      then show ?thesis using Some e s v Cons.IH [OF s(4), of q] by (simp add: u)
    qed
  qed
qed

definition is_XScan :: "xstate \<Rightarrow> bool" where
  "is_XScan s \<longleftrightarrow> (\<exists>sc r cur. s = XScan sc r cur)"

lemma position_yields:
  assumes h: "scan_reads fh get cs conds P" and ex: "nextTuple ex = seq_scan_next fh get cs conds VISIBLE_TUPLE" "is_end ex = seq_scan_is_end" "Current ex = seq_scan_current"
  shows "at_rids fh sc qs \<Longrightarrow> \<exists>s'. seq_scan_position fh get cs conds VISIBLE_TUPLE sc r = ret s' \<and> yields ex is_XScan s' (filter P (visible_rows get qs))"
proof (induction "filter P (visible_rows get qs)" arbitrary: sc r qs)
  case Nil
  then show ?case using advance_ok [OF h Nil.prems, of r] ex by (auto simp: seq_scan_position_def is_XScan_def)
next
  case (Cons v rs)
  obtain sc' r' q qs' where a: "advance_to_next_valid fh get cs conds sc r = ret (sc', r', Some v)" "at_rids fh sc' (q # qs')" "filter P (visible_rows get qs') = rs"
    using advance_ok [OF h Cons.prems, of r] Cons.hyps(2) [symmetric] by auto
  obtain sc'' where s: "\<not> scan_is_end sc'" "fst (scan_next sc' fh) = Ret sc''" "at_rids fh sc'' qs'" using at_rids_Cons [OF _ _ a(2)] h by (auto simp: scan_reads_def)
  have "\<exists>s'. seq_scan_position fh get cs conds VISIBLE_TUPLE sc'' r' = ret s' \<and> yields ex is_XScan s' rs" using Cons.hyps(1) [OF a(3) [symmetric] s(3)] a(3) by simp
  then show ?case unfolding Cons.hyps(2) [symmetric] using a(1) s ex by (simp add: seq_scan_position_def [of fh get cs conds VISIBLE_TUPLE sc] is_XScan_def CurrentOrNext_def)
qed

lemma seq_scan_implements:
  assumes h: "scan_reads fh get cs conds P" and ex: "beginTuple ex = seq_scan_begin fh get cs conds VISIBLE_TUPLE"
    "nextTuple ex = seq_scan_next fh get cs conds VISIBLE_TUPLE" "is_end ex = seq_scan_is_end" "Current ex = seq_scan_current"
  shows "implements ex is_XScan (filter P (visible_rows get (heap_rids fh)))"
proof -
  obtain sc where sc: "fst (RmScan_new fh) = Ret sc" "at_rids fh sc (heap_rids fh)" using at_rids_new [of fh] h by (auto simp: scan_reads_def)
  show ?thesis unfolding implements_def
  proof (intro allI impI)
    fix s assume "is_XScan s"
    then obtain sc0 r cur where s: "s = XScan sc0 r cur" by (auto simp: is_XScan_def)
    show "\<exists>s'. beginTuple ex s = ret s' \<and> yields ex is_XScan s' (filter P (visible_rows get (heap_rids fh)))"
      using position_yields [OF h ex(2-4) sc(2), of r] sc(1) by (simp add: ex(1) s)
  qed
qed

subsection \<open>The nested-loop join\<close>

lemma memcpy_ok: "off + n \<le> length dst \<Longrightarrow> n \<le> length src \<Longrightarrow> memcpy dst off src n = Ret (take off dst @ take n src @ drop (off + n) dst)"
  by (simp add: memcpy_def)

definition is_XJoin :: "(xstate \<Rightarrow> bool) \<Rightarrow> (xstate \<Rightarrow> bool) \<Rightarrow> xstate \<Rightarrow> bool" where
  "is_XJoin I J s \<longleftrightarrow> (\<exists>sl sr e cur. s = XJoin sl sr e cur \<and> I sl \<and> J sr)"

lemma is_XJoin_simp [simp]: "is_XJoin I J (XJoin sl sr e cur) \<longleftrightarrow> I sl \<and> J sr"
  by (simp add: is_XJoin_def)

text \<open>A join set up over two executors that deliver tuples of \<open>U\<close> and the tuples \<open>rs\<close>: the tuples have the lengths of the children, and the conditions decide \<open>P\<close> on the joined tuples.\<close>

definition join_reads where
  "join_reads E left U right J rs cs conds P \<longleftrightarrow> implements right J rs \<and> (\<forall>n. length (env_uninit E n) = n)
     \<and> (\<forall>l \<in> U. length l = tupleLen left) \<and> (\<forall>r \<in> set rs. length r = tupleLen right)
     \<and> (\<forall>t. length t = tupleLen left + tupleLen right \<longrightarrow> eval_conds cs t conds = Ret (P t))"

definition product :: "byte list list \<Rightarrow> byte list list \<Rightarrow> byte list list" where
  "product ls rs = concat (map (\<lambda>a. map (\<lambda>b. a @ b) rs) ls)"

lemma make_join_record_ok:
  assumes "\<forall>n. length (env_uninit E n) = n" "CurrentOrNext left sl = Some l" "CurrentOrNext right sr = Some r" "length l = tupleLen left" "length r = tupleLen right"
  shows "make_join_record E left right sl sr = Ret (l @ r)"
  using assms by (simp add: make_join_record_def memcpy_ok)

text \<open>The tuples still to come are those of the current left tuple with the rest of the right ones, then those of the other left tuples. \<open>join_at\<close> is the state before
  the first of them, \<open>v\<close>, that satisfies the conditions, with \<open>vs\<close> after it.\<close>

definition join_at where
  "join_at left I U right J rs P sl sr cur vs \<longleftrightarrow> I sl \<and> J sr
     \<and> (case vs of [] \<Rightarrow> cur = None
        | v # vs' \<Rightarrow> cur = Some v \<and> (\<exists>l ls t ts. yields left I sl (l # ls) \<and> yields right J sr (t # ts) \<and> set (l # ls) \<subseteq> U \<and> set ts \<subseteq> set rs
                      \<and> filter P (map (\<lambda>b. l @ b) ts @ product ls rs) = vs'))"

lemma join_inner:
  assumes h: "join_reads E left U right J rs cs conds P" and l: "yields left I sl (l # ls)" "set (l # ls) \<subseteq> U"
    and c: "\<And>sr. yields right J sr [] \<Longrightarrow> \<exists>sl' sr' cur. join_advance E left right cs conds sl sr = ret (sl', sr', cur) \<and> join_at left I U right J rs P sl' sr' cur (filter P (product ls rs))"
  shows "yields right J sr ts \<Longrightarrow> set ts \<subseteq> set rs
    \<Longrightarrow> \<exists>sl' sr' cur. join_advance E left right cs conds sl sr = ret (sl', sr', cur) \<and> join_at left I U right J rs P sl' sr' cur (filter P (map (\<lambda>b. l @ b) ts @ product ls rs))"
proof (induction ts arbitrary: sr)
  case Nil
  then show ?case using c by simp
next
  case (Cons t ts)
  obtain sr' where n: "\<not> is_end right sr" "CurrentOrNext right sr = Some t" "nextTuple right sr = ret sr'" "yields right J sr' ts" using Cons.prems(1) by auto
  have e: "\<not> is_end left sl" "CurrentOrNext left sl = Some l" using l(1) by auto
  have m: "make_join_record E left right sl sr = Ret (l @ t)" "eval_conds cs (l @ t) conds = Ret (P (l @ t))"
    using make_join_record_ok [OF _ e(2) n(2)] h l(2) Cons.prems(2) by (auto simp: join_reads_def)
  note u = join_advance.simps [of E left right cs conds sl sr]
  show ?case
  proof (cases "P (l @ t)")
    case True
    have "join_at left I U right J rs P sl sr (Some (l @ t)) ((l @ t) # filter P (map (\<lambda>b. l @ b) ts @ product ls rs))"
      using l Cons.prems yields_inv [OF l(1)] yields_inv [OF Cons.prems(1)] by (auto simp: join_at_def)
    then show ?thesis using True e(1) n(1) m by (simp add: u)
  next
    case False
    then show ?thesis using Cons.IH [OF n(4)] Cons.prems(2) e n m by (simp add: u)
  qed
qed

lemma join_advance_ok:
  assumes h: "join_reads E left U right J rs cs conds P"
  shows "yields left I sl (l # ls) \<Longrightarrow> set (l # ls) \<subseteq> U \<Longrightarrow> yields right J sr ts \<Longrightarrow> set ts \<subseteq> set rs
    \<Longrightarrow> \<exists>sl' sr' cur. join_advance E left right cs conds sl sr = ret (sl', sr', cur) \<and> join_at left I U right J rs P sl' sr' cur (filter P (map (\<lambda>b. l @ b) ts @ product ls rs))"
proof (induction ls arbitrary: l sl sr ts)
  case Nil
  obtain sl' where n: "\<not> is_end left sl" "nextTuple left sl = ret sl'" "yields left I sl' []" using Nil.prems(1) by auto
  have "join_advance E left right cs conds sl sr = ret (sl', sr, None) \<and> join_at left I U right J rs P sl' sr None (filter P (product [] rs))" if "yields right J sr []" for sr
    using n yields_end [OF that] yields_inv [OF that] by (simp add: join_advance.simps [of E left right cs conds sl] join_advance.simps [of E left right cs conds sl'] product_def join_at_def)
  then show ?case using join_inner [OF h Nil.prems(1,2) _ Nil.prems(3,4)] by blast
next
  case (Cons l2 ls)
  obtain sl' where n: "\<not> is_end left sl" "nextTuple left sl = ret sl'" "yields left I sl' (l2 # ls)" using Cons.prems(1) by auto
  have r: "implements right J rs" using h by (simp add: join_reads_def)
  have p: "product (l2 # ls) rs = map (\<lambda>b. l2 @ b) rs @ product ls rs" by (simp add: product_def)
  have "\<exists>sl' sr' cur. join_advance E left right cs conds sl sr = ret (sl', sr', cur) \<and> join_at left I U right J rs P sl' sr' cur (filter P (product (l2 # ls) rs))"
    if y: "yields right J sr []" for sr
  proof -
    obtain sr' where b: "beginTuple right sr = ret sr'" "yields right J sr' rs" using implementsD [OF r yields_inv [OF y]] by blast
    have "join_advance E left right cs conds sl sr = join_advance E left right cs conds sl' sr'"
      using n b(1) yields_end [OF y] yields_end [OF n(3)] by (simp add: join_advance.simps [of E left right cs conds sl])
    then show ?thesis unfolding p using Cons.IH [OF n(3) _ b(2) order.refl] Cons.prems(2) by simp
  qed
  then show ?case using join_inner [OF h Cons.prems(1,2) _ Cons.prems(3,4)] by blast
qed

lemma join_next_ok:
  assumes h: "join_reads E left U right J rs cs conds P" and a: "join_at left I U right J rs P sl sr cur (v # vs)"
  shows "\<exists>sl' sr' cur'. join_next E left right cs conds (XJoin sl sr (cur = None) cur) = ret (XJoin sl' sr' (cur' = None) cur') \<and> join_at left I U right J rs P sl' sr' cur' vs"
proof -
  obtain l ls t ts where s: "cur = Some v" "yields left I sl (l # ls)" "yields right J sr (t # ts)" "set (l # ls) \<subseteq> U" "set ts \<subseteq> set rs"
    "filter P (map (\<lambda>b. l @ b) ts @ product ls rs) = vs" using a by (auto simp: join_at_def)
  obtain sr' where r: "nextTuple right sr = ret sr'" "yields right J sr' ts" using s(3) by auto
  obtain sl' where lf: "nextTuple left sl = ret sl'" "yields left I sl' ls" using s(2) by auto
  show ?thesis
  proof (cases ts)
    case (Cons t2 ts2)
    then show ?thesis using join_advance_ok [OF h s(2,4) r(2) s(5)] s(1,6) r yields_end [OF r(2)] by (auto simp: join_position_def)
  next
    case Nil
    have e: "is_end right sr'" using yields_end [OF r(2)] Nil by simp
    show ?thesis
    proof (cases ls)
      case Nil
      then have "is_end left sl'" "vs = []" using yields_end [OF lf(2)] s(6) \<open>ts = []\<close> by (simp_all add: product_def)
      then show ?thesis using e r(1) lf s(1) yields_inv [OF r(2)] yields_inv [OF lf(2)]
        by (auto simp: join_position_def join_at_def join_advance.simps [of E left right cs conds sl'])
    next
      case (Cons l2 ls2)
      have i: "implements right J rs" using h by (simp add: join_reads_def)
      obtain sr'' where b: "beginTuple right sr' = ret sr''" "yields right J sr'' rs" using implementsD [OF i yields_inv [OF r(2)]] by blast
      have vs: "vs = filter P (map (\<lambda>b. l2 @ b) rs @ product ls2 rs)" using s(6) Cons Nil by (simp add: product_def)
      have y: "yields left I sl' (l2 # ls2)" using lf(2) Cons by simp
      have u: "set (l2 # ls2) \<subseteq> U" using s(4) Cons by auto
      obtain sl3 sr3 cur3 where j: "join_advance E left right cs conds sl' sr'' = ret (sl3, sr3, cur3)" "join_at left I U right J rs P sl3 sr3 cur3 vs"
        using join_advance_ok [OF h y u b(2) order.refl] unfolding vs by blast
      have "\<not> is_end left sl'" using yields_end [OF y] by simp
      then show ?thesis using e r(1) lf(1) b(1) j s(1) by (auto simp: join_position_def)
    qed
  qed
qed

lemma join_yields:
  assumes h: "join_reads E left U right J rs cs conds P" and ex: "nextTuple ex = join_next E left right cs conds" "is_end ex = join_is_end" "Current ex = join_current"
  shows "join_at left I U right J rs P sl sr cur vs \<Longrightarrow> yields ex (is_XJoin I J) (XJoin sl sr (cur = None) cur) vs"
proof (induction vs arbitrary: sl sr cur)
  case Nil
  then show ?case using ex(2) by (auto simp: join_at_def is_XJoin_def)
next
  case (Cons v vs)
  have c: "cur = Some v" "I sl" "J sr" using Cons.prems by (auto simp: join_at_def)
  obtain sl' sr' cur' where n: "join_next E left right cs conds (XJoin sl sr (cur = None) cur) = ret (XJoin sl' sr' (cur' = None) cur')" "join_at left I U right J rs P sl' sr' cur' vs"
    using join_next_ok [OF h Cons.prems] by blast
  then show ?case using Cons.IH [OF n(2)] c ex by (simp add: CurrentOrNext_Some)
qed

lemma join_implements:
  assumes h: "join_reads E left (set ls) right J rs cs conds P" and li: "implements left I ls" and ex: "beginTuple ex = join_begin E left right cs conds"
    "nextTuple ex = join_next E left right cs conds" "is_end ex = join_is_end" "Current ex = join_current"
  shows "implements ex (is_XJoin I J) (filter P (product ls rs))"
  unfolding implements_def
proof (intro allI impI)
  fix s assume "is_XJoin I J s"
  then obtain sl sr e cur where s: "s = XJoin sl sr e cur" "I sl" "J sr" by (auto simp: is_XJoin_def)
  have ri: "implements right J rs" using h by (simp add: join_reads_def)
  obtain sl' where l: "beginTuple left sl = ret sl'" "yields left I sl' ls" using implementsD [OF li s(2)] by blast
  obtain sr' where r: "beginTuple right sr = ret sr'" "yields right J sr' rs" using implementsD [OF ri s(3)] by blast
  note i = yields_inv [OF l(2)] yields_inv [OF r(2)] yields_end [OF l(2)] yields_end [OF r(2)]
  show "\<exists>s'. beginTuple ex s = ret s' \<and> yields ex (is_XJoin I J) s' (filter P (product ls rs))"
  proof (cases "ls = [] \<or> rs = []")
    case True
    then have "product ls rs = []" by (auto simp: product_def)
    then show ?thesis using True i s l r by (auto simp: ex is_XJoin_def)
  next
    case False
    then obtain l1 ls1 where c: "ls = l1 # ls1" by (meson neq_Nil_conv)
    have p: "product ls rs = map (\<lambda>b. l1 @ b) rs @ product ls1 rs" by (simp add: c product_def)
    obtain sl3 sr3 cur3 where j: "join_advance E left right cs conds sl' sr' = ret (sl3, sr3, cur3)" "join_at left I (set ls) right J rs P sl3 sr3 cur3 (filter P (product ls rs))"
      using join_advance_ok [OF h l(2) [unfolded c] _ r(2) order.refl] unfolding p by (auto simp: c)
    have "beginTuple ex s = ret (XJoin sl3 sr3 (cur3 = None) cur3)" using False i j(1) l(1) r(1) by (simp add: ex s(1) join_position_def)
    then show ?thesis using join_yields [OF h ex(2-4) j(2)] by blast
  qed
qed

subsection \<open>The projection\<close>

lemma length_tile [simp]: "length (tile off cs) = length cs"
  by (induction cs arbitrary: off) simp_all

lemma total_len_simps [simp]: "total_len [] = 0" "total_len (c # cs) = cm_len c + total_len cs"
  by (simp_all add: total_len_def)

lemma tile_schema:
  assumes "\<And>c. c \<in> set cs \<Longrightarrow> cm_type c \<noteq> TYPE_STRING \<longrightarrow> cm_len c = 4"
  shows "schema_ok (tile off cs) (off + total_len cs)"
  using assms
proof (induction cs arbitrary: off)
  case (Cons c cs)
  then show ?case using Cons.IH [of "off + cm_len c"] by (auto simp: schema_ok_def add.assoc)
qed (simp add: schema_ok_def)

text \<open>Writing consecutive fields: a loop that copies to the offset of each column of a tiled schema builds the concatenation.\<close>

lemma projection_cols_ok:
  assumes "\<forall>t \<in> set sels. has_col cs t"
  shows "projection_cols cs sels off = Ret (map (\<lambda>t. the (find_pos (col_is t) cs)) sels, tile off (map (col_of cs) sels), off + total_len (map (col_of cs) sels))"
  using assms by (induction sels arbitrary: off) (simp_all add: get_col_pos_ok Let_def col_of_def [symmetric])

lemma copy_fields_ok:
  assumes "\<And>c. c \<in> set srcs \<Longrightarrow> cm_offset c + cm_len c \<le> length r" and "length out = off + total_len srcs"
  shows "copy_fields (zip srcs (tile off srcs)) r out = Ret (take off out @ concat (map (field r) srcs))"
  using assms
proof (induction srcs arbitrary: off out)
  case (Cons c srcs)
  let ?out = "take off out @ take (cm_len c) (drop (cm_offset c) r) @ drop (off + cm_len c) out"
  have c: "cm_offset c + cm_len c \<le> length r" using Cons.prems(1) by simp
  have "memcpy out off (drop (cm_offset c) r) (cm_len c) = Ret ?out" using Cons.prems(2) c by (intro memcpy_ok) simp_all
  moreover have "take (off + cm_len c) ?out = take off out @ field r c" using c Cons.prems(2) by (simp add: field_def)
  moreover have "length ?out = off + cm_len c + total_len srcs" using Cons.prems(2) c by simp
  ultimately show ?case using Cons.IH [of ?out "off + cm_len c"] Cons.prems(1) by simp
qed simp

definition is_XProjection :: "(xstate \<Rightarrow> bool) \<Rightarrow> xstate \<Rightarrow> bool" where
  "is_XProjection I s \<longleftrightarrow> (\<exists>sp cur. s = XProjection sp cur \<and> I sp)"

lemma is_XProjection_simp [simp]: "is_XProjection I (XProjection sp cur) \<longleftrightarrow> I sp"
  by (simp add: is_XProjection_def)

lemma materialize_yields:
  assumes ex: "nextTuple ex = projection_next E prev idxs cs len" "is_end ex = projection_is_end prev" "Current ex = projection_current"
    and c: "\<And>r. r \<in> set rs \<Longrightarrow> copy_fields (zip (map (\<lambda>i. cols prev ! i) idxs) cs) r (env_uninit E len) = Ret (f r)"
  shows "yields prev I sp rs \<Longrightarrow> \<exists>s'. materialize_current E prev idxs cs len sp = ret s' \<and> yields ex (is_XProjection I) s' (map f rs)"
  using c
proof (induction rs arbitrary: sp)
  case Nil
  then show ?case using ex(2) by (auto simp: materialize_current_def is_XProjection_def)
next
  case (Cons r rs)
  obtain sp' where n: "I sp" "\<not> is_end prev sp" "CurrentOrNext prev sp = Some r" "nextTuple prev sp = ret sp'" "yields prev I sp' rs" using Cons.prems(1) by auto
  have "\<exists>s'. materialize_current E prev idxs cs len sp' = ret s' \<and> yields ex (is_XProjection I) s' (map f rs)" using Cons.IH [OF n(5)] Cons.prems(2) by simp
  then show ?case using n Cons.prems(2) ex by (simp add: materialize_current_def [of E prev idxs cs len sp] CurrentOrNext_Some)
qed

lemma projection_implements:
  assumes ex: "beginTuple ex = projection_begin E prev idxs cs len" "nextTuple ex = projection_next E prev idxs cs len" "is_end ex = projection_is_end prev" "Current ex = projection_current"
    and c: "\<And>r. r \<in> set rs \<Longrightarrow> copy_fields (zip (map (\<lambda>i. cols prev ! i) idxs) cs) r (env_uninit E len) = Ret (f r)" and p: "implements prev I rs"
  shows "implements ex (is_XProjection I) (map f rs)"
  unfolding implements_def
proof (intro allI impI)
  fix s assume "is_XProjection I s"
  then obtain sp cur where s: "s = XProjection sp cur" "I sp" by (auto simp: is_XProjection_def)
  obtain sp' where b: "beginTuple prev sp = ret sp'" "yields prev I sp' rs" using implementsD [OF p s(2)] by blast
  show "\<exists>s'. beginTuple ex s = ret s' \<and> yields ex (is_XProjection I) s' (map f rs)" using materialize_yields [OF ex(2-4) c b(2)] b(1) by (simp add: ex(1) s(1))
qed

end
