(* ===== verification/Rmdb_Exec_Buffers.thy ===== *)
theory Rmdb_Exec_Buffers
  imports Rmdb_Exec_Iter
begin

text \<open>
  The contracts of the executors that compute all their tuples when they are begun: the sort, the union and the aggregate, whose streaming path for one aggregate
  gives what the path through groups gives.
\<close>

definition rows_ok :: "byte list list \<Rightarrow> col_meta list \<Rightarrow> nat \<Rightarrow> bool" where
  "rows_ok rs cs len \<longleftrightarrow> schema_ok cs len \<and> (\<forall>r \<in> set rs. length r = len)"

lemma run_body_append: "run_body body (xs @ ys) a = othen (run_body body xs a) (run_body body ys)"
proof (induction xs arbitrary: a)
  case (Cons x xs)
  then show ?case by (cases "body (Some x) a") simp_all
qed simp

definition is_XBuffer :: "(xstate \<Rightarrow> bool) \<Rightarrow> xstate \<Rightarrow> bool" where
  "is_XBuffer I s \<longleftrightarrow> (\<exists>sp rs pos. s = XBuffer sp rs pos \<and> I sp)"

lemma is_XBuffer_simp [simp]: "is_XBuffer I (XBuffer sp rs pos) \<longleftrightarrow> I sp"
  by (simp add: is_XBuffer_def)

lemma one_child_implements:
  assumes "buffer_executor ex" and b: "\<And>sp rs0 pos. I sp \<Longrightarrow> \<exists>sp'. beginTuple ex (XBuffer sp rs0 pos) = ret (XBuffer sp' rs 0) \<and> I sp'"
  shows "implements ex (is_XBuffer I) rs"
proof (rule buffer_implements [OF assms(1)])
  fix s assume "is_XBuffer I s"
  then obtain sp rs0 pos where s: "s = XBuffer sp rs0 pos" "I sp" by (auto simp: is_XBuffer_def)
  obtain sp' where "beginTuple ex s = ret (XBuffer sp' rs 0)" "I sp'" using b [OF s(2), of rs0 pos] s(1) by blast
  then show "\<exists>C. beginTuple ex s = ret (C rs 0) \<and> (\<forall>n. is_XBuffer I (C rs n)) \<and> ((\<exists>s. C = XBuffer s) \<or> (\<exists>ss. C = XUnion ss))" by (intro exI [of _ "XBuffer sp'"]) auto
qed

subsection \<open>The sort\<close>

lemma run_keep_tuple: "run_body keep_tuple rs a = Ret (a @ rs)"
  by (induction rs arbitrary: a) (simp_all add: keep_tuple_def)

lemma compare_fields:
  assumes "cm_offset c + cm_len c \<le> length l" "cm_offset c + cm_len c \<le> length r" "cm_type c \<noteq> TYPE_STRING \<longrightarrow> cm_len c = 4"
  shows "CompareValue (drop (cm_offset c) l) (drop (cm_offset c) r) (cm_type c) (cm_len c) = Ret (ix_compare_col (field l c) (field r c) (cm_type c) (cm_len c))"
  using CompareValue_fields [OF assms(3), of "drop (cm_offset c) l" "drop (cm_offset c) r" "cm_len c"] assms(1,2) by (simp add: field_def)

lemma sort_less_ok:
  assumes "schema_ok cs len" "set ks \<subseteq> set cs" "length ks \<le> length desc" "length l = len" "length r = len"
  shows "sort_less ks desc l r = Ret (sort_before ks desc l r)"
  using assms(2,3)
proof (induction ks arbitrary: desc)
  case (Cons k ks)
  obtain d ds where d: "desc = d # ds" using Cons.prems(2) by (cases desc) auto
  have k: "cm_offset k + cm_len k \<le> len" "cm_type k \<noteq> TYPE_STRING \<longrightarrow> cm_len k = 4" using schema_okD [OF assms(1), of k] Cons.prems(1) by auto
  show ?case using Cons.IH [of ds] Cons.prems compare_fields [of k l r] k assms(4,5) by (simp add: d Let_def)
qed simp

lemma set_stable_insert [simp]: "set (stable_insert lt x ys) = insert x (set ys)"
  by (induction ys) auto

lemma set_stable_order [simp]: "set (stable_order lt xs) = set xs"
  by (induction xs) (simp_all add: stable_order_def)

lemma stable_insert_cong: "(\<And>y. y \<in> set ys \<Longrightarrow> f y x = g y x) \<Longrightarrow> stable_insert f x ys = stable_insert g x ys"
  by (induction ys) simp_all

lemma stable_order_cong: "(\<And>x y. x \<in> set xs \<Longrightarrow> y \<in> set xs \<Longrightarrow> f x y = g x y) \<Longrightarrow> stable_order f xs = stable_order g xs"
proof (induction xs)
  case (Cons x xs)
  then have e: "stable_order f xs = stable_order g xs" by simp
  have "stable_insert f x (stable_order g xs) = stable_insert g x (stable_order g xs)" using Cons.prems by (intro stable_insert_cong) simp
  then show ?case using e by (simp add: stable_order_def)
qed (simp add: stable_order_def)

lemma stable_sort_ok:
  assumes "\<And>x y. x \<in> set xs \<Longrightarrow> y \<in> set xs \<Longrightarrow> f x y = Ret (g x y)"
  shows "stable_sort f xs = Ret (stable_order g xs)"
proof -
  have "list_all (\<lambda>x. list_all (\<lambda>y. is_Ret (f x y)) xs) xs" using assms by (simp add: list_all_iff)
  moreover have "stable_order (\<lambda>x y. f x y = Ret True) xs = stable_order g xs" using assms by (intro stable_order_cong) simp
  ultimately show ?thesis by (simp add: stable_sort_def)
qed

lemma set_apply_limit: "set (apply_limit n xs) \<subseteq> set xs"
  by (simp add: apply_limit_def set_take_subset)

lemma sort_implements:
  assumes "rows_ok rs cs len" "set ks \<subseteq> set cs" "length ks \<le> length desc" and p: "implements prev I rs"
    and ex: "buffer_executor ex" "beginTuple ex = sort_begin prev ks desc limit"
  shows "implements ex (is_XBuffer I) (apply_limit limit (stable_order (sort_before ks desc) rs))"
proof (rule one_child_implements [OF ex(1)])
  fix sp rs0 pos assume "I sp"
  then obtain sp' where "for_tuples prev keep_tuple sp [] = ret (rs, sp')" "I sp'" using for_tuples_run [OF p, of sp keep_tuple "[]" rs] run_keep_tuple by auto
  moreover have "stable_sort (sort_less ks desc) rs = Ret (stable_order (sort_before ks desc) rs)"
    using assms(1) sort_less_ok [OF _ assms(2,3), of len] by (intro stable_sort_ok) (simp add: rows_ok_def)
  ultimately show "\<exists>sp'. beginTuple ex (XBuffer sp rs0 pos) = ret (XBuffer sp' (apply_limit limit (stable_order (sort_before ks desc) rs)) 0) \<and> I sp'"
    by (simp add: ex(2))
qed

subsection \<open>The union\<close>

definition add_new :: "'a \<Rightarrow> 'a list \<Rightarrow> 'a list" where
  "add_new x ys = (if x \<in> set ys then ys else ys @ [x])"

lemma set_firsts [simp]: "set (firsts xs) = set xs"
  by (simp add: firsts_def)

lemma distinct_firsts: "distinct (firsts xs)"
  by (simp add: firsts_def)

lemma firsts_snoc: "firsts (xs @ [x]) = add_new x (firsts xs)"
  by (simp add: firsts_def add_new_def)

lemma fold_add_new: "fold add_new xs [] = firsts xs"
proof (induction xs rule: rev_induct)
  case (snoc x xs)
  then show ?case by (simp add: firsts_snoc)
qed (simp add: firsts_def)

lemma length_field: "cm_offset c + cm_len c \<le> length r \<Longrightarrow> length (field r c) = cm_len c"
  by (simp add: field_def)

lemma convert_one_ok:
  assumes t: "cm_type src = cm_type dst \<or> cm_type src = TYPE_INT \<and> cm_type dst = TYPE_FLOAT" and o: "cm_offset src + cm_len src \<le> length r"
    and n: "cm_type src \<noteq> TYPE_STRING \<longrightarrow> cm_len src = 4" "cm_type dst \<noteq> TYPE_STRING \<longrightarrow> cm_len dst = 4"
  shows "length (convert_field fp r (src, dst)) = cm_len dst
    \<and> convert_one fp src (dst\<lparr>cm_offset := length pre\<rparr>) r (pre @ replicate (cm_len dst + k) 0) = Ret ((pre @ convert_field fp r (src, dst)) @ replicate k 0)"
proof (cases "cm_type src = cm_type dst")
  case True
  let ?n = "min (cm_len src) (cm_len dst)"
  have v: "convert_field fp r (src, dst) = take ?n (drop (cm_offset src) r) @ replicate (cm_len dst - ?n) 0" using True o by (auto simp: convert_field_def field_def min_def)
  have "memcpy (pre @ replicate (cm_len dst + k) 0) (length pre) (drop (cm_offset src) r) ?n = Ret (pre @ take ?n (drop (cm_offset src) r) @ replicate (cm_len dst + k - ?n) 0)"
    using o by (subst memcpy_ok) auto
  moreover have "replicate (cm_len dst + k - ?n) (0 :: byte) = replicate (cm_len dst - ?n) 0 @ replicate k 0" by (simp add: replicate_add [symmetric])
  ultimately show ?thesis using True o unfolding v by (simp add: convert_one_def)
next
  case False
  have l: "cm_type src = TYPE_INT" "cm_type dst = TYPE_FLOAT" "cm_len src = 4" "cm_len dst = 4" using n t False by simp_all
  let ?v = "float_bytes (f32_of_int fp (le_dec_signed (take 4 (drop (cm_offset src) r))))"
  have v: "convert_field fp r (src, dst) = ?v" using False l by (simp add: convert_field_def field_def)
  have "memcpy (pre @ replicate (cm_len dst + k) 0) (length pre) ?v 4 = Ret ((pre @ ?v) @ replicate k 0)" unfolding l by (subst memcpy_ok) (simp_all add: float_bytes_def)
  then show ?thesis using False l o unfolding v by (simp add: convert_one_def read_int_def float_bytes_def)
qed

lemma convert_fields_ok:
  assumes "length cs = length outs" and "\<forall>(src, dst) \<in> set (zip cs outs). cm_type src = cm_type dst \<or> cm_type src = TYPE_INT \<and> cm_type dst = TYPE_FLOAT"
    and "\<forall>c \<in> set cs. cm_offset c + cm_len c \<le> length r \<and> (cm_type c \<noteq> TYPE_STRING \<longrightarrow> cm_len c = 4)" and "\<forall>c \<in> set outs. cm_type c \<noteq> TYPE_STRING \<longrightarrow> cm_len c = 4"
  shows "convert_fields fp (zip cs (tile (length pre) outs)) r (pre @ replicate (total_len outs) 0) = Ret (pre @ concat (map (convert_field fp r) (zip cs outs)))"
  using assms
proof (induction cs outs arbitrary: pre rule: list_induct2)
  case (Cons src cs dst outs)
  let ?v = "convert_field fp r (src, dst)"
  have o: "length ?v = cm_len dst" "convert_one fp src (dst\<lparr>cm_offset := length pre\<rparr>) r (pre @ replicate (cm_len dst + total_len outs) 0) = Ret ((pre @ ?v) @ replicate (total_len outs) 0)"
    using convert_one_ok [of src dst r fp pre "total_len outs"] Cons.prems by auto
  have "convert_fields fp (zip cs (tile (length (pre @ ?v)) outs)) r ((pre @ ?v) @ replicate (total_len outs) 0) = Ret ((pre @ ?v) @ concat (map (convert_field fp r) (zip cs outs)))"
    using Cons.prems by (intro Cons.IH) auto
  then show ?case using o by simp
qed simp

lemma convert_record_ok:
  assumes "union_typed cs out" "tile 0 out = out" "schema_ok out (total_len out)" "schema_ok cs len" "length r = len"
  shows "convert_record fp out (total_len out) r cs = Ret (convert_row fp cs out r)"
proof -
  have "convert_fields fp (zip cs out) r (replicate (total_len out) 0) = Ret (concat (map (convert_field fp r) (zip cs out)))"
    using convert_fields_ok [of cs out r fp "[]"] assms by (auto simp: union_typed_def schema_ok_def)
  then show ?thesis using assms(1,2) by (simp add: convert_record_def convert_row_def union_typed_def)
qed

lemma union_len_tiled: "tile 0 out = out \<Longrightarrow> union_len out = total_len out"
proof -
  have "foldl (\<lambda>len col. max len (cm_offset col + cm_len col)) off (tile off cs) = off + total_len cs" for off cs
    by (induction cs arbitrary: off) (simp_all add: max_def add.assoc)
  then show "tile 0 out = out \<Longrightarrow> union_len out = total_len out" unfolding union_len_def by (metis add_0)
qed

lemma run_union_tuple:
  assumes "\<And>r. r \<in> set rs \<Longrightarrow> convert_record fp out len r cs = Ret (f r)"
  shows "set seen = set ys \<Longrightarrow> \<exists>seen'. run_body (union_tuple fp out len cs) rs (seen, ys) = Ret (seen', fold add_new (map f rs) ys) \<and> set seen' = set (fold add_new (map f rs) ys)"
  using assms
proof (induction rs arbitrary: seen ys)
  case (Cons r rs)
  have c: "convert_record fp out len r cs = Ret (f r)" using Cons.prems(2) by simp
  show ?case
  proof (cases "f r \<in> set ys")
    case True
    then show ?thesis using Cons.IH [of seen ys] Cons.prems c by (simp add: union_tuple_def add_new_def)
  next
    case False
    then show ?thesis using Cons.IH [of "f r # seen" "ys @ [f r]"] Cons.prems c by (simp add: union_tuple_def add_new_def)
  qed
qed simp

text \<open>A child of a union: an executor, its invariant, the tuples it delivers, and what they are converted to.\<close>

fun union_reads :: "fp_ops \<Rightarrow> col_meta list \<Rightarrow> nat \<Rightarrow> executor list \<Rightarrow> (xstate \<Rightarrow> bool) list \<Rightarrow> byte list list list \<Rightarrow> bool" where
  "union_reads fp out len (ex # exs) (I # Is) (ys # yss) \<longleftrightarrow>
     (\<exists>rs f. implements ex I rs \<and> (\<forall>r \<in> set rs. convert_record fp out len r (cols ex) = Ret (f r)) \<and> ys = map f rs) \<and> union_reads fp out len exs Is yss"
| "union_reads fp out len [] [] [] \<longleftrightarrow> True"
| "union_reads fp out len _ _ _ \<longleftrightarrow> False"

lemma union_children_ok:
  "union_reads fp out len exs Is yss \<Longrightarrow> list_all2 (\<lambda>I s. I s) Is ss \<Longrightarrow> set seen = set ys
    \<Longrightarrow> \<exists>ss' seen'. union_children fp out len exs ss (seen, ys) = ret (ss', seen', fold add_new (concat yss) ys) \<and> list_all2 (\<lambda>I s. I s) Is ss'"
proof (induction fp out len exs Is yss arbitrary: ss seen ys rule: union_reads.induct)
  case (1 fp out len ex exs I Is zs yss)
  obtain rs f where r: "implements ex I rs" "\<forall>r \<in> set rs. convert_record fp out len r (cols ex) = Ret (f r)" "zs = map f rs" "union_reads fp out len exs Is yss" using "1.prems"(1) by auto
  obtain s ss1 where s: "ss = s # ss1" "I s" "list_all2 (\<lambda>I s. I s) Is ss1" using "1.prems"(2) by (auto simp: list_all2_Cons1)
  have cv: "\<And>r. r \<in> set rs \<Longrightarrow> convert_record fp out len r (cols ex) = Ret (f r)" using r(2) by blast
  obtain seen1 where b: "run_body (union_tuple fp out len (cols ex)) rs (seen, ys) = Ret (seen1, fold add_new zs ys)" "set seen1 = set (fold add_new zs ys)"
    using run_union_tuple [where f = f, OF cv "1.prems"(3)] r(3) by blast
  obtain s' where f: "for_tuples ex (union_tuple fp out len (cols ex)) s (seen, ys) = ret ((seen1, fold add_new zs ys), s')" "I s'"
    using for_tuples_run [OF r(1) s(2) b(1)] by blast
  obtain ss' seen' where i: "union_children fp out len exs ss1 (seen1, fold add_new zs ys) = ret (ss', seen', fold add_new (concat yss) (fold add_new zs ys))" "list_all2 (\<lambda>I s. I s) Is ss'"
    using "1.IH" [OF r(4) s(3) b(2)] by blast
  show ?case using f i by (simp add: s(1))
qed simp_all

definition is_XUnion :: "(xstate \<Rightarrow> bool) list \<Rightarrow> xstate \<Rightarrow> bool" where
  "is_XUnion Is s \<longleftrightarrow> (\<exists>ss rs pos. s = XUnion ss rs pos \<and> list_all2 (\<lambda>I s. I s) Is ss)"

lemma union_implements:
  assumes r: "union_reads fp out len exs Is yss" and ex: "buffer_executor ex" "beginTuple ex = union_begin fp out len exs"
  shows "implements ex (is_XUnion Is) (firsts (concat yss))"
proof (rule buffer_implements [OF ex(1)])
  fix s assume "is_XUnion Is s"
  then obtain ss rs pos where s: "s = XUnion ss rs pos" "list_all2 (\<lambda>I s. I s) Is ss" by (auto simp: is_XUnion_def)
  obtain ss' seen' where u: "union_children fp out len exs ss ([], []) = ret (ss', seen', firsts (concat yss))" "list_all2 (\<lambda>I s. I s) Is ss'"
    using union_children_ok [OF r s(2), of "[]" "[]"] by (auto simp: fold_add_new)
  then have "beginTuple ex s = ret (XUnion ss' (firsts (concat yss)) 0)" by (simp add: ex(2) s(1))
  then show "\<exists>C. beginTuple ex s = ret (C (firsts (concat yss)) 0) \<and> (\<forall>n. is_XUnion Is (C (firsts (concat yss)) n)) \<and> ((\<exists>s. C = XBuffer s) \<or> (\<exists>ss. C = XUnion ss))"
    using u(2) by (intro exI [of _ "XUnion ss'"]) (auto simp: is_XUnion_def)
qed

end
