(* ===== verification/Rmdb_Exec_Aggregate.thy ===== *)
theory Rmdb_Exec_Aggregate
  imports Rmdb_Exec_Buffers
begin

text \<open>
  The contract of the aggregate. \<open>eval_expr_ok\<close> gives the value of an expression over a group, \<open>stream_ok\<close> shows that the accumulator of the streaming path ends with that
  value, \<open>run_groups\<close> that the loop with the hash index of keys collects the groups in the order of their first rows.
\<close>

subsection \<open>The value of an expression\<close>

lemma replicate_memcpy: "n \<le> length src \<Longrightarrow> memcpy (replicate n x) 0 src n = Ret (take n src)"
  by (simp add: memcpy_ok)

lemma fill_zero: "n \<le> length src \<Longrightarrow> fill_value (zero_value type n) src n = Ret \<lparr>ev_type = type, ev_len = n, ev_data = take n src\<rparr>"
  by (simp add: fill_value_def zero_value_def replicate_memcpy)

lemma inside_drop: "\<forall>r \<in> set rows. cm_offset c + cm_len c \<le> length r \<Longrightarrow> r \<in> set rows \<Longrightarrow> cm_len c \<le> length (drop (cm_offset c) r)"
  by auto

lemma best_of_ok:
  assumes "cm_type c \<noteq> TYPE_STRING \<longrightarrow> cm_len c = 4" and "\<forall>r \<in> set rows. cm_offset c + cm_len c \<le> length r" and "cm_len c \<le> length best"
  shows "\<exists>b. best_of func c best rows = Ret b \<and> cm_len c \<le> length b
    \<and> take (cm_len c) b = foldl (\<lambda>b v. if better func (ix_compare_col v b (cm_type c) (cm_len c)) then v else b) (take (cm_len c) best) (map (\<lambda>r. field r c) rows)"
  using assms(2,3)
proof (induction rows arbitrary: best)
  case (Cons r rows)
  have "CompareValue (drop (cm_offset c) r) best (cm_type c) (cm_len c) = Ret (ix_compare_col (field r c) (take (cm_len c) best) (cm_type c) (cm_len c))"
    using CompareValue_fields [OF assms(1), of "drop (cm_offset c) r" best "cm_len c"] Cons.prems by (auto simp: field_def)
  moreover have "cm_len c \<le> length (drop (cm_offset c) r)" "take (cm_len c) (drop (cm_offset c) r) = field r c" using inside_drop [OF Cons.prems(1), of r] by (simp_all add: field_def)
  ultimately show ?case using Cons.IH [of "drop (cm_offset c) r"] Cons.IH [of best] Cons.prems by (simp add: Let_def)
qed simp

lemma int_sum_ok:
  "cm_len c = 4 \<Longrightarrow> \<forall>r \<in> set rows. cm_offset c + cm_len c \<le> length r \<Longrightarrow> int_sum_of c acc rows = Ret (acc + sum_list (map (\<lambda>r. le_dec_signed (field r c)) rows))"
  by (induction rows arbitrary: acc) (auto simp: read_int_def field_def add.assoc)

lemma float_sum_ok:
  "cm_len c = 4 \<Longrightarrow> \<forall>r \<in> set rows. cm_offset c + cm_len c \<le> length r
    \<Longrightarrow> float_sum_of fp c acc rows = Ret (foldl (\<lambda>s v. f64_add fp s (f64_of_f32 fp (word_of_int (le_dec v)))) acc (map (\<lambda>r. field r c) rows))"
  by (induction rows arbitrary: acc) (auto simp: read_float_def field_def)

text \<open>Typed: the column of the expression lies inside the rows, and numbers have four bytes.\<close>

lemma expr_col_ok:
  assumes "rows_ok rows cs len" "expr_typed cs e" "\<not> (is_aggregate e \<and> agg_func_of e = AGG_COUNT)"
  shows "has_col cs (expr_col e)" "cm_type (col_of cs (expr_col e)) \<noteq> TYPE_STRING \<longrightarrow> cm_len (col_of cs (expr_col e)) = 4"
    "\<forall>r \<in> set rows. cm_offset (col_of cs (expr_col e)) + cm_len (col_of cs (expr_col e)) \<le> length r"
    "is_aggregate e \<and> agg_func_of e \<in> {AGG_SUM, AGG_AVG} \<longrightarrow> cm_len (col_of cs (expr_col e)) = 4"
proof -
  show h: "has_col cs (expr_col e)" using assms(2,3) by (auto simp: expr_typed_def)
  note c = schema_okD [OF _ col_of_in [OF h], of len]
  show "cm_type (col_of cs (expr_col e)) \<noteq> TYPE_STRING \<longrightarrow> cm_len (col_of cs (expr_col e)) = 4"
    "\<forall>r \<in> set rows. cm_offset (col_of cs (expr_col e)) + cm_len (col_of cs (expr_col e)) \<le> length r"
    using c assms(1) by (auto simp: rows_ok_def)
  show "is_aggregate e \<and> agg_func_of e \<in> {AGG_SUM, AGG_AVG} \<longrightarrow> cm_len (col_of cs (expr_col e)) = 4" using c assms by (auto simp: rows_ok_def expr_typed_def)
qed

abbreviation typed_value :: "fp_ops \<Rightarrow> col_meta list \<Rightarrow> byte list list \<Rightarrow> select_expr \<Rightarrow> eval_value" where
  "typed_value fp cs rows e \<equiv> \<lparr>ev_type = fst (expr_type cs e), ev_len = snd (expr_type cs e), ev_data = expr_bytes fp cs rows e\<rparr>"

lemma eval_minmax:
  assumes "rows_ok rows cs len" "expr_typed cs e" "is_aggregate e" "agg_func_of e = AGG_MAX \<or> agg_func_of e = AGG_MIN"
  shows "eval_expr fp cs e rows = Ret (typed_value fp cs rows e)"
proof -
  let ?c = "col_of cs (expr_col e)"
  have n: "\<not> (is_aggregate e \<and> agg_func_of e = AGG_COUNT)" using assms(4) by auto
  note c = expr_col_ok [OF assms(1,2) n]
  have v: "result_value (agg_func_of e) ?c = zero_value (cm_type ?c) (cm_len ?c)" using assms(4) c(2) by (auto simp: result_value_def Let_def)
  have t: "expr_type cs e = (cm_type ?c, cm_len ?c)" using assms(4) by (auto simp: expr_type_def)
  show ?thesis
  proof (cases rows)
    case Nil
    then show ?thesis using assms(3,4) c(1) v t by (auto simp: eval_expr_def expr_bytes_def Let_def zero_value_def split: agg_func.split)
  next
    case (Cons r rs)
    obtain b where b: "best_of (agg_func_of e) ?c (drop (cm_offset ?c) r) rs = Ret b" "cm_len ?c \<le> length b" "take (cm_len ?c) b = best_field (agg_func_of e) ?c (map (\<lambda>r. field r ?c) rows)"
      using best_of_ok [OF c(2), of rs "drop (cm_offset ?c) r" "agg_func_of e"] inside_drop [OF c(3), of r] c(3) Cons by (auto simp: best_field_def field_def)
    have "eval_expr fp cs e rows = Ret \<lparr>ev_type = cm_type ?c, ev_len = cm_len ?c, ev_data = take (cm_len ?c) b\<rparr>"
      using assms(3,4) c(1) v b(1) fill_zero [OF b(2), of "cm_type ?c"] Cons by (auto simp: eval_expr_def Let_def)
    then show ?thesis using assms(3,4) t b(3) Cons by (auto simp: expr_bytes_def Let_def)
  qed
qed

lemma eval_total:
  assumes "rows_ok rows cs len" "expr_typed cs e" "is_aggregate e" "agg_func_of e = AGG_SUM \<or> agg_func_of e = AGG_AVG"
  shows "eval_expr fp cs e rows = Ret (typed_value fp cs rows e)"
proof -
  let ?c = "col_of cs (expr_col e)"
  have n: "\<not> (is_aggregate e \<and> agg_func_of e = AGG_COUNT)" using assms(4) by auto
  note c = expr_col_ok [OF assms(1,2) n]
  have l: "cm_len ?c = 4" "cm_type ?c \<noteq> TYPE_STRING" using c(4) assms n by (auto simp: expr_typed_def)
  have v: "result_value (agg_func_of e) ?c = zero_value (fst (expr_type cs e)) 4" "snd (expr_type cs e) = 4" using assms(3,4) l by (auto simp: result_value_def expr_type_def Let_def)
  show ?thesis
    using assms(3,4) c(1) v l int_sum_ok [OF l(1) c(3), of 0] float_sum_ok [OF l(1) c(3), of fp 0] fill_zero [of 4 _ "fst (expr_type cs e)"]
    by (auto simp: eval_expr_def Let_def int_result_def float_result_def expr_bytes_def sum_bytes_def avg_bytes_def float_bytes_def float_total_def comp_def)
qed

lemma eval_expr_ok:
  assumes "rows_ok rows cs len" "expr_typed cs e"
  shows "eval_expr fp cs e rows = Ret (typed_value fp cs rows e)"
proof (cases "is_aggregate e")
  case True
  then show ?thesis
    using eval_minmax [OF assms True, of fp] eval_total [OF assms True, of fp]
    by (cases "agg_func_of e") (simp_all add: eval_expr_def count_value_def fill_zero expr_type_def expr_bytes_def Let_def)
next
  case False
  have n: "\<not> (is_aggregate e \<and> agg_func_of e = AGG_COUNT)" using False by simp
  note c = expr_col_ok [OF assms n]
  show ?thesis
  proof (cases rows)
    case Nil
    then show ?thesis using False c by (simp add: eval_expr_def expr_type_def expr_bytes_def Let_def zero_value_def)
  next
    case (Cons r rs)
    then have "cm_len (col_of cs (expr_col e)) \<le> length (drop (cm_offset (col_of cs (expr_col e))) r)" using c(3) by auto
    then show ?thesis using False c(1) Cons by (simp add: eval_expr_def expr_type_def expr_bytes_def Let_def fill_zero field_def)
  qed
qed

lemma foldl_best_in: "foldl (\<lambda>b v. if P v b then v else b) b vs \<in> insert b (set vs)"
  by (induction vs arbitrary: b) auto

lemma length_expr_bytes:
  assumes "rows_ok rows cs len" "expr_typed cs e"
  shows "length (expr_bytes fp cs rows e) = snd (expr_type cs e)"
proof (cases "is_aggregate e \<and> agg_func_of e = AGG_COUNT")
  case True
  then show ?thesis by (simp add: expr_bytes_def expr_type_def Let_def)
next
  case False
  let ?c = "col_of cs (expr_col e)" and ?vs = "map (\<lambda>r. field r (col_of cs (expr_col e))) rows"
  note c = expr_col_ok [OF assms False]
  have f: "v \<in> set ?vs \<Longrightarrow> length v = cm_len ?c" for v using c(3) by (auto simp: length_field)
  have b: "length (best_field g ?c ?vs) = cm_len ?c" if "rows \<noteq> []" for g
  proof -
    have "best_field g ?c ?vs \<in> insert (hd ?vs) (set (tl ?vs))" unfolding best_field_def by (rule foldl_best_in)
    then have "best_field g ?c ?vs \<in> set ?vs" using that by (cases rows) auto
    then show ?thesis by (rule f)
  qed
  have h: "length (hd ?vs) = cm_len ?c" if "rows \<noteq> []" using f [of "hd ?vs"] that by (cases rows) auto
  show ?thesis using False c(4) b h by (cases "agg_func_of e") (auto simp: expr_bytes_def expr_type_def Let_def sum_bytes_def avg_bytes_def float_bytes_def)
qed

lemma expr_type_num:
  assumes "rows_ok rows cs len" "expr_typed cs e"
  shows "fst (expr_type cs e) \<noteq> TYPE_STRING \<longrightarrow> snd (expr_type cs e) = 4"
  using expr_col_ok(2) [OF assms] by (auto simp: expr_type_def)

lemma passes_having_ok:
  assumes "rows_ok rows cs len" "\<forall>h \<in> set hs. having_typed cs h"
  shows "passes_having fp cs hs rows = Ret (\<forall>h \<in> set hs. having_holds fp cs rows h)"
  using assms(2)
proof (induction hs)
  case (Cons h hs)
  let ?l = "having_lhs h" and ?r = "having_rhs_expr h"
  have t: "expr_typed cs ?l" using Cons.prems by (simp add: having_typed_def)
  note l = eval_expr_ok [OF assms(1) t, of fp] length_expr_bytes [OF assms(1) t, of fp] expr_type_num [OF assms(1) t]
  have "\<exists>rhs. (if having_is_rhs_val h then (case v_raw (having_rhs h) of None \<Rightarrow> Throw MemoryFault | Some raw \<Rightarrow> Ret raw)
            else othen (eval_expr fp cs ?r rows) (\<lambda>v. Ret (ev_data v))) = Ret rhs
        \<and> rhs = (if having_is_rhs_val h then the (v_raw (having_rhs h)) else expr_bytes fp cs rows ?r) \<and> snd (expr_type cs ?l) \<le> length rhs"
  proof (cases "having_is_rhs_val h")
    case True
    then show ?thesis using Cons.prems by (auto simp: having_typed_def split: option.splits)
  next
    case False
    then have r: "expr_typed cs ?r" "snd (expr_type cs ?l) \<le> snd (expr_type cs ?r)" using Cons.prems by (simp_all add: having_typed_def)
    show ?thesis using False eval_expr_ok [OF assms(1) r(1), of fp] length_expr_bytes [OF assms(1) r(1), of fp] r(2) by simp
  qed
  then obtain rhs where r: "(if having_is_rhs_val h then (case v_raw (having_rhs h) of None \<Rightarrow> Throw MemoryFault | Some raw \<Rightarrow> Ret raw)
            else othen (eval_expr fp cs ?r rows) (\<lambda>v. Ret (ev_data v))) = Ret rhs"
        "rhs = (if having_is_rhs_val h then the (v_raw (having_rhs h)) else expr_bytes fp cs rows ?r)" "snd (expr_type cs ?l) \<le> length rhs" by blast
  have "CompareValue (expr_bytes fp cs rows ?l) rhs (fst (expr_type cs ?l)) (snd (expr_type cs ?l)) = Ret (ix_compare_col (expr_bytes fp cs rows ?l) rhs (fst (expr_type cs ?l)) (snd (expr_type cs ?l)))"
    using CompareValue_fields [OF l(3), of "expr_bytes fp cs rows ?l" rhs "length rhs"] l(2) r(3) by simp
  then show ?case using Cons l(1) r(1) by (simp add: having_holds_def r(2) [symmetric])
qed simp

subsection \<open>Streaming\<close>

text \<open>The accumulator after some rows.\<close>

definition accumulated :: "fp_ops \<Rightarrow> agg_func \<Rightarrow> col_meta \<Rightarrow> byte list list \<Rightarrow> scalar_accumulator" where
  "accumulated fp func c rows =
     (let vs = map (\<lambda>r. field r c) rows in
      \<lparr>acc_count = length rows,
       acc_int_sum = (if func \<in> {AGG_SUM, AGG_AVG} \<and> cm_type c = TYPE_INT then sum_list (map le_dec_signed vs) else 0),
       acc_float_sum = (if func \<in> {AGG_SUM, AGG_AVG} \<and> cm_type c \<noteq> TYPE_INT then float_total fp vs else 0),
       acc_best = (if func \<in> {AGG_MIN, AGG_MAX} \<and> rows \<noteq> [] then Some (best_field func c vs) else None)\<rparr>)"

lemma best_field_snoc: "vs \<noteq> [] \<Longrightarrow> best_field func c (vs @ [v]) = (if better func (ix_compare_col v (best_field func c vs) (cm_type c) (cm_len c)) then v else best_field func c vs)"
  by (cases vs) (simp_all add: best_field_def)

lemma best_field_length: "vs \<noteq> [] \<Longrightarrow> \<forall>v \<in> set vs. length v = n \<Longrightarrow> length (best_field func c vs) = n"
proof -
  assume a: "vs \<noteq> []" "\<forall>v \<in> set vs. length v = n"
  have "best_field func c vs \<in> insert (hd vs) (set (tl vs))" unfolding best_field_def by (rule foldl_best_in)
  then have "best_field func c vs \<in> set vs" using a(1) by (cases vs) auto
  then show ?thesis using a(2) by blast
qed

lemma update_ok:
  assumes f: "agg_func_of e \<noteq> AGG_COUNT" and c: "cm_type c \<noteq> TYPE_STRING \<longrightarrow> cm_len c = 4" "agg_func_of e \<in> {AGG_SUM, AGG_AVG} \<longrightarrow> cm_len c = 4"
    and r: "\<forall>r \<in> set (rows @ [r]). cm_offset c + cm_len c \<le> length r"
  shows "update_scalar_accumulator fp e (Some c) (Some r) (accumulated fp (agg_func_of e) c rows) = Ret (accumulated fp (agg_func_of e) c (rows @ [r]))"
proof (cases "agg_func_of e \<in> {AGG_MIN, AGG_MAX}")
  case True
  have v: "cm_len c \<le> length (drop (cm_offset c) r)" using inside_drop [OF r, of r] by simp
  show ?thesis
  proof (cases "rows = []")
    case empty: True
    then show ?thesis using True v by (auto simp: update_scalar_accumulator_def accumulated_def Let_def best_field_def field_def)
  next
    case False
    let ?vs = "map (\<lambda>r. field r c) rows"
    let ?b = "best_field (agg_func_of e) c ?vs"
    have n: "?vs \<noteq> []" using False by simp
    have l: "length ?b = cm_len c" using best_field_length [OF n, of "cm_len c"] r by (auto simp: length_field)
    have cmp: "CompareValue (drop (cm_offset c) r) ?b (cm_type c) (cm_len c) = Ret (ix_compare_col (field r c) ?b (cm_type c) (cm_len c))"
      using CompareValue_fields [OF c(1), of "drop (cm_offset c) r" ?b "cm_len c"] v l by (simp add: field_def)
    have m: "memcpy ?b 0 (drop (cm_offset c) r) (cm_len c) = Ret (field r c)" using memcpy_ok [of 0 "cm_len c" ?b "drop (cm_offset c) r"] v l by (simp add: field_def)
    show ?thesis using True False cmp m best_field_snoc [OF n, of "agg_func_of e" c "field r c"]
      by (auto simp: update_scalar_accumulator_def accumulated_def Let_def)
  qed
next
  case False
  then have t: "agg_func_of e \<in> {AGG_SUM, AGG_AVG}" "cm_len c = 4" using f c(2) by (cases "agg_func_of e"; simp)+
  have v: "4 \<le> length (drop (cm_offset c) r)" "take 4 (drop (cm_offset c) r) = field r c" using inside_drop [OF r, of r] t(2) by (simp_all add: field_def)
  show ?thesis using False t v f by (auto simp: update_scalar_accumulator_def accumulated_def Let_def read_int_def read_float_def float_total_def)
qed

lemma run_update:
  assumes f: "agg_func_of e \<noteq> AGG_COUNT" and c: "cm_type c \<noteq> TYPE_STRING \<longrightarrow> cm_len c = 4" "agg_func_of e \<in> {AGG_SUM, AGG_AVG} \<longrightarrow> cm_len c = 4"
    and r: "\<forall>r \<in> set rows. cm_offset c + cm_len c \<le> length r"
  shows "run_body (update_scalar_accumulator fp e (Some c)) rows \<lparr>acc_count = 0, acc_int_sum = 0, acc_float_sum = 0, acc_best = None\<rparr> = Ret (accumulated fp (agg_func_of e) c rows)"
  using r
proof (induction rows rule: rev_induct)
  case Nil
  then show ?case by (simp add: accumulated_def Let_def float_total_def)
next
  case (snoc r rows)
  then show ?case using update_ok [OF f c snoc.prems, of fp] by (simp add: run_body_append)
qed

lemma run_count:
  assumes "agg_func_of e = AGG_COUNT"
  shows "run_body (update_scalar_accumulator fp e None) rows a = Ret (a\<lparr>acc_count := acc_count a + length rows\<rparr>)"
  by (induction rows arbitrary: a) (simp_all add: update_scalar_accumulator_def Let_def assms)

text \<open>The streaming path ends with the value of the expression over all rows.\<close>

lemma stream_ok:
  assumes rows: "rows_ok rows cs len" and t: "expr_typed cs e" "is_aggregate e"
  shows "\<exists>col st. (if agg_func_of e = AGG_COUNT then Ret None else othen (get_col cs (expr_col e)) (\<lambda>c. Ret (Some c))) = Ret col
    \<and> run_body (update_scalar_accumulator fp e col) rows \<lparr>acc_count = 0, acc_int_sum = 0, acc_float_sum = 0, acc_best = None\<rparr> = Ret st
    \<and> finalize_scalar_accumulator fp cs e st = Ret (typed_value fp cs rows e)"
proof (cases "agg_func_of e = AGG_COUNT")
  case True
  have "eval_expr fp cs e rows = count_value (length rows)" using True t(2) by (simp add: eval_expr_def)
  then show ?thesis using True run_count [OF True, of fp rows] eval_expr_ok [OF rows t(1), of fp] by (simp add: finalize_scalar_accumulator_def)
next
  case False
  let ?c = "col_of cs (expr_col e)"
  have n: "\<not> (is_aggregate e \<and> agg_func_of e = AGG_COUNT)" using False by simp
  note c = expr_col_ok [OF rows t(1) n]
  have c4: "agg_func_of e \<in> {AGG_SUM, AGG_AVG} \<longrightarrow> cm_len ?c = 4" using c(4) t(2) by simp
  note r = run_update [OF False c(2) c4 c(3), of fp]
  have "finalize_scalar_accumulator fp cs e (accumulated fp (agg_func_of e) ?c rows) = eval_expr fp cs e rows"
  proof (cases "agg_func_of e \<in> {AGG_MIN, AGG_MAX}")
    case True
    have v: "result_value (agg_func_of e) ?c = zero_value (cm_type ?c) (cm_len ?c)" using True c(2) by (auto simp: result_value_def Let_def)
    have ty: "expr_type cs e = (cm_type ?c, cm_len ?c)" using True by (auto simp: expr_type_def)
    have l: "rows \<noteq> [] \<Longrightarrow> length (best_field (agg_func_of e) ?c (map (\<lambda>r. field r ?c) rows)) = cm_len ?c" using c(3) by (intro best_field_length) (auto simp: length_field)
    have "finalize_scalar_accumulator fp cs e (accumulated fp (agg_func_of e) ?c rows)
        = (if rows = [] then Ret (zero_value (cm_type ?c) (cm_len ?c)) else fill_value (zero_value (cm_type ?c) (cm_len ?c)) (best_field (agg_func_of e) ?c (map (\<lambda>r. field r ?c) rows)) (cm_len ?c))"
      using True c(1) v by (auto simp: finalize_scalar_accumulator_def accumulated_def Let_def)
    moreover have "expr_bytes fp cs rows e = (if rows = [] then replicate (cm_len ?c) 0 else best_field (agg_func_of e) ?c (map (\<lambda>r. field r ?c) rows))"
      using True t(2) by (auto simp: expr_bytes_def Let_def)
    ultimately show ?thesis unfolding eval_expr_ok [OF rows t(1)] using l by (simp add: ty fill_zero) (simp add: zero_value_def)
  next
    case m: False
    have f: "agg_func_of e = AGG_SUM \<or> agg_func_of e = AGG_AVG" using False m by (cases "agg_func_of e") auto
    have l: "cm_len ?c = 4" using f c4 by auto
    show ?thesis using f t(2) c(1) int_sum_ok [OF l c(3), of 0] float_sum_ok [OF l c(3), of fp 0]
      by (auto simp: finalize_scalar_accumulator_def eval_expr_def accumulated_def Let_def float_total_def comp_def)
  qed
  then show ?thesis using False c(1) r eval_expr_ok [OF rows t(1), of fp] by auto
qed

subsection \<open>Groups\<close>

lemma group_key_ok:
  assumes "schema_ok cs len" "length r = len" "\<forall>g \<in> set gs. has_col cs g"
  shows "group_key cs gs r = Ret (key_of cs gs r)"
  using assms(3)
proof (induction gs)
  case (Cons g gs)
  have "cm_offset (col_of cs g) + cm_len (col_of cs g) \<le> length r" using schema_okD [OF assms(1) col_of_in [of cs g]] Cons.prems assms(2) by auto
  then show ?case using Cons by (simp add: key_of_def field_def)
qed (simp add: key_of_def)

text \<open>The index of keys after some rows: the positions in the list of keys.\<close>

definition indexes :: "'k list \<Rightarrow> ('k \<rightharpoonup> nat) \<Rightarrow> bool" where
  "indexes ks idx \<longleftrightarrow> (\<forall>k i. idx k = Some i \<longleftrightarrow> i < length ks \<and> ks ! i = k)"

lemma indexes_None: "indexes ks idx \<Longrightarrow> idx k = None \<longleftrightarrow> k \<notin> set ks"
  unfolding indexes_def by (metis in_set_conv_nth option.exhaust option.distinct(1))

lemma indexes_snoc: "indexes ks idx \<Longrightarrow> k \<notin> set ks \<Longrightarrow> indexes (ks @ [k]) (idx(k \<mapsto> length ks))"
  by (auto simp: indexes_def nth_append less_Suc_eq)

definition group_with :: "('r \<Rightarrow> 'k) \<Rightarrow> 'r list \<Rightarrow> 'r list list" where
  "group_with f rows = map (\<lambda>k. filter (\<lambda>r. f r = k) rows) (firsts (map f rows))"

lemma group_with_new: "f r \<notin> set (firsts (map f rows)) \<Longrightarrow> group_with f (rows @ [r]) = group_with f rows @ [[r]]"
  unfolding group_with_def map_append list.map firsts_snoc by (auto simp: add_new_def filter_empty_conv image_iff intro!: filter_cong)

lemma group_with_old:
  assumes "i < length (firsts (map f rows))" "firsts (map f rows) ! i = f r"
  shows "group_with f (rows @ [r]) = (group_with f rows)[i := group_with f rows ! i @ [r]]"
proof -
  let ?ks = "firsts (map f rows)"
  have m: "f r \<in> set ?ks" using assms by (metis nth_mem)
  have "group_with f (rows @ [r]) = map (\<lambda>k. filter (\<lambda>x. f x = k) (rows @ [r])) ?ks" using m unfolding group_with_def map_append list.map firsts_snoc by (simp add: add_new_def)
  also have "\<dots> = (map (\<lambda>k. filter (\<lambda>x. f x = k) rows) ?ks)[i := filter (\<lambda>x. f x = ?ks ! i) rows @ [r]]"
  proof (rule nth_equalityI)
    fix j assume "j < length (map (\<lambda>k. filter (\<lambda>x. f x = k) (rows @ [r])) ?ks)"
    then have j: "j < length ?ks" by simp
    have "f r = ?ks ! j \<longleftrightarrow> j = i" using assms j nth_eq_iff_index_eq [OF distinct_firsts [of "map f rows"] j assms(1)] by auto
    then show "map (\<lambda>k. filter (\<lambda>x. f x = k) (rows @ [r])) ?ks ! j = (map (\<lambda>k. filter (\<lambda>x. f x = k) rows) ?ks)[i := filter (\<lambda>x. f x = ?ks ! i) rows @ [r]] ! j"
      using j assms(2) by (simp add: nth_list_update)
  qed simp
  finally show ?thesis using assms(1) by (simp add: group_with_def)
qed

lemma run_groups:
  assumes "rows_ok rows cs len" "\<forall>g \<in> set gs. has_col cs g" "gs \<noteq> []"
  shows "\<exists>idx. run_body (group_tuple cs gs) rows ([], Map.empty) = Ret (group_with (key_of cs gs) rows, idx) \<and> indexes (firsts (map (key_of cs gs) rows)) idx"
  using assms(1)
proof (induction rows rule: rev_induct)
  case Nil
  then show ?case by (simp add: group_with_def firsts_def indexes_def)
next
  case (snoc r rows)
  let ?key = "key_of cs gs" and ?ks = "firsts (map (key_of cs gs) rows)"
  obtain idx where i: "run_body (group_tuple cs gs) rows ([], Map.empty) = Ret (group_with ?key rows, idx)" "indexes ?ks idx" using snoc by (auto simp: rows_ok_def)
  have k: "group_key cs gs r = Ret (?key r)" using group_key_ok [OF _ _ assms(2), of len r] snoc.prems by (simp add: rows_ok_def)
  have ks: "firsts (map ?key (rows @ [r])) = add_new (?key r) ?ks" by (simp add: firsts_snoc)
  have lg: "length (group_with ?key rows) = length ?ks" by (simp add: group_with_def)
  show ?case
  proof (cases "idx (?key r)")
    case None
    then have n: "?key r \<notin> set ?ks" using indexes_None [OF i(2)] by blast
    show ?thesis using None assms(3) k i(1) group_with_new [OF n] indexes_snoc [OF i(2) n] n lg unfolding ks run_body_append by (simp add: group_tuple_def add_new_def)
  next
    case (Some j)
    then have j: "j < length ?ks" "?ks ! j = ?key r" using i(2) by (simp_all add: indexes_def)
    then have "?key r \<in> set ?ks" by (metis nth_mem)
    then show ?thesis using Some assms(3) k i group_with_old [OF j] unfolding ks run_body_append by (simp add: group_tuple_def add_new_def)
  qed
qed

lemma run_one_group: "run_body (group_tuple cs []) rows ([g], idx) = Ret ([g @ rows], idx)"
  by (induction rows arbitrary: g) (simp_all add: group_tuple_def)

lemma groups_ok:
  assumes "rows_ok rows cs len" "\<forall>g \<in> set gs. has_col cs g"
  shows "\<exists>idx. run_body (group_tuple cs gs) rows (if gs = [] then [[]] else [], Map.empty) = Ret (groups_of cs gs rows, idx)"
  using run_groups [OF assms] run_one_group [of cs rows "[]"] by (cases "gs = []") (auto simp: groups_of_def group_with_def)

lemma groups_rows_ok: "rows_ok rows cs len \<Longrightarrow> g \<in> set (groups_of cs gs rows) \<Longrightarrow> rows_ok g cs len"
  by (auto simp: groups_of_def rows_ok_def split: if_splits)

subsection \<open>Output\<close>

lemma aggregate_cols_ok:
  assumes "\<forall>e \<in> set es. expr_typed cs e"
  shows "aggregate_cols cs es off = Ret (tile off (map (expr_meta cs) es), off + total_len (map (expr_meta cs) es))"
  using assms
proof (induction es arbitrary: off)
  case (Cons e es)
  have "(if \<not> is_aggregate e then othen (get_col cs (expr_col e)) (\<lambda>source. Ret (cm_type source, cm_len source))
         else if agg_func_of e = AGG_COUNT then Ret (TYPE_INT, 4) else if agg_func_of e = AGG_AVG then Ret (TYPE_FLOAT, 4)
         else othen (get_col cs (expr_col e)) (\<lambda>source. Ret (cm_type source, cm_len source))) = Ret (expr_type cs e)"
    using Cons.prems by (auto simp: expr_typed_def expr_type_def)
  moreover obtain type n where "expr_type cs e = (type, n)" by fastforce
  ultimately show ?case using Cons.IH [of "off + n"] Cons.prems by (simp add: expr_meta_def add.assoc)
qed simp

lemma write_values_ok:
  assumes rows: "rows_ok rows cs len" and "\<forall>e \<in> set es. expr_typed cs e" and "length out = off + total_len (map (expr_meta cs) es)"
  shows "write_values fp cs (zip es (tile off (map (expr_meta cs) es))) rows out = Ret (take off out @ concat (map (expr_bytes fp cs rows) es))"
  using assms(2,3)
proof (induction es arbitrary: off out)
  case (Cons e es)
  let ?n = "snd (expr_type cs e)" and ?v = "expr_bytes fp cs rows e"
  have t: "expr_typed cs e" using Cons.prems(1) by simp
  note v = eval_expr_ok [OF rows t, of fp] length_expr_bytes [OF rows t, of fp]
  have n: "cm_len (expr_meta cs e) = ?n" by (simp add: expr_meta_def)
  let ?out = "take off out @ take ?n ?v @ drop (off + ?n) out"
  have "memcpy out off ?v ?n = Ret ?out" using Cons.prems(2) v(2) n by (intro memcpy_ok) simp_all
  moreover have "length ?out = off + ?n + total_len (map (expr_meta cs) es)" using Cons.prems(2) v(2) n by simp
  moreover have "take (off + ?n) ?out = take off out @ ?v" using Cons.prems(2) v(2) n by simp
  ultimately show ?case using Cons.IH [of ?out "off + ?n"] Cons.prems(1) v(1) n by simp
qed simp

lemma output_groups_ok:
  assumes "\<forall>g \<in> set groups. rows_ok g cs len" and "\<forall>e \<in> set (select_exprs A). expr_typed cs e" and "\<forall>h \<in> set (having_conds A). having_typed cs h"
    and "agg_cols A = tile 0 (map (expr_meta cs) (select_exprs A))" and "agg_len A = total_len (map (expr_meta cs) (select_exprs A))" and "\<forall>n. length (env_uninit E n) = n"
  shows "output_groups E A cs groups = Ret (map (\<lambda>g. concat (map (expr_bytes (env_fp E) cs g) (select_exprs A))) (filter (\<lambda>g. \<forall>h \<in> set (having_conds A). having_holds (env_fp E) cs g h) groups))"
  using assms(1)
proof (induction groups)
  case (Cons g groups)
  have g: "rows_ok g cs len" using Cons.prems by simp
  have w: "write_values (env_fp E) cs (zip (select_exprs A) (agg_cols A)) g (env_uninit E (agg_len A)) = Ret (concat (map (expr_bytes (env_fp E) cs g) (select_exprs A)))"
    using write_values_ok [OF g assms(2), of "env_uninit E (agg_len A)" 0] assms(4-6) by simp
  show ?case using Cons passes_having_ok [OF g assms(3), of "env_fp E"] w by simp
qed simp

lemma aggregate_implements:
  assumes rows: "rows_ok rows (cols prev) len" and p: "implements prev I rows" and t: "\<forall>e \<in> set (select_exprs A). expr_typed (cols prev) e"
      "\<forall>h \<in> set (having_conds A). having_typed (cols prev) h" "\<forall>g \<in> set (group_cols A). has_col (cols prev) g"
    and A: "agg_cols A = tile 0 (map (expr_meta (cols prev)) (select_exprs A))" "agg_len A = total_len (map (expr_meta (cols prev)) (select_exprs A))"
    and u: "\<forall>n. length (env_uninit E n) = n" and ex: "buffer_executor ex" "beginTuple ex = aggregate_begin E A prev"
  shows "implements ex (is_XBuffer I) (map (\<lambda>g. concat (map (expr_bytes (env_fp E) (cols prev) g) (select_exprs A)))
           (filter (\<lambda>g. \<forall>h \<in> set (having_conds A). having_holds (env_fp E) (cols prev) g h) (groups_of (cols prev) (group_cols A) rows)))"
    (is "implements ex (is_XBuffer I) ?out")
proof (rule one_child_implements [OF ex(1)])
  fix sp rs0 pos assume i: "I sp"
  show "\<exists>sp'. beginTuple ex (XBuffer sp rs0 pos) = ret (XBuffer sp' ?out 0) \<and> I sp'"
  proof (cases "can_stream_scalar_aggregate E A")
    case True
    then obtain e where e: "select_exprs A = [e]" "is_aggregate e" "group_cols A = []" "having_conds A = []"
      by (auto simp: can_stream_scalar_aggregate_def length_Suc_conv)
    have te: "expr_typed (cols prev) e" using t(1) e(1) by simp
    obtain col st where s: "(if agg_func_of e = AGG_COUNT then Ret None else othen (get_col (cols prev) (expr_col e)) (\<lambda>c. Ret (Some c))) = Ret col"
      "run_body (update_scalar_accumulator (env_fp E) e col) rows \<lparr>acc_count = 0, acc_int_sum = 0, acc_float_sum = 0, acc_best = None\<rparr> = Ret st"
      "finalize_scalar_accumulator (env_fp E) (cols prev) e st = Ret (typed_value (env_fp E) (cols prev) rows e)"
      using stream_ok [OF rows te e(2)] by blast
    obtain sp' where f: "for_tuples prev (update_scalar_accumulator (env_fp E) e col) sp \<lparr>acc_count = 0, acc_int_sum = 0, acc_float_sum = 0, acc_best = None\<rparr> = ret (st, sp')" "I sp'"
      using for_tuples_run [OF p i s(2)] by blast
    have m: "memcpy (env_uninit E (snd (expr_type (cols prev) e))) 0 (expr_bytes (env_fp E) (cols prev) rows e) (snd (expr_type (cols prev) e)) = Ret (expr_bytes (env_fp E) (cols prev) rows e)"
      using length_expr_bytes [OF rows te, of "env_fp E"] u by (simp add: memcpy_ok)
    have "run_scalar_streaming E A prev sp = ret (XBuffer sp' [expr_bytes (env_fp E) (cols prev) rows e] 0)"
      using s(1,3) f(1) m A e(1) by (simp add: run_scalar_streaming_def Let_def expr_meta_def split del: if_split)
    then show ?thesis using True f(2) e by (simp add: ex(2) groups_of_def)
  next
    case False
    obtain idx where g: "run_body (group_tuple (cols prev) (group_cols A)) rows (if group_cols A = [] then [[]] else [], Map.empty) = Ret (groups_of (cols prev) (group_cols A) rows, idx)"
      using groups_ok [OF rows t(3)] by blast
    obtain sp' where f: "for_tuples prev (group_tuple (cols prev) (group_cols A)) sp (if group_cols A = [] then [[]] else [], Map.empty) = ret ((groups_of (cols prev) (group_cols A) rows, idx), sp')" "I sp'"
      using for_tuples_run [OF p i g] by blast
    have "output_groups E A (cols prev) (groups_of (cols prev) (group_cols A) rows) = Ret ?out"
      using groups_rows_ok [OF rows] by (intro output_groups_ok [OF _ t(1,2) A u]) blast
    then show ?thesis using False f by (simp add: ex(2) split del: if_split)
  qed
qed

end
