(* ===== verification/Rmdb_Exec_Props.thy ===== *)
theory Rmdb_Exec_Props
  imports Rmdb_Exec_Aggregate
begin

text \<open>
  The executors compute what the plan means. \<open>plan_typed\<close>: the rows of a well-typed plan have the length and the layout of its schema. \<open>plan_executes\<close>: by induction on the
  plan, the executor the portal builds keeps the contract of \<^verbatim>\<open>Rmdb_Exec_Iter\<close> for the rows of the plan.
\<close>

subsection \<open>Rows have the schema of the plan\<close>

lemma get_visible_returns: "env_ok E \<Longrightarrow> \<exists>v. get_visible E desc r = Ret v"
  using read_newest [of "env_txns E"] read_defined [of "env_txns E"] by (cases "env_reader E") (auto simp: env_ok_def get_visible_def)

lemma visible_rows_read: "r \<in> set (visible_rows get qs) \<Longrightarrow> \<exists>q. get q = Ret (Some r)"
  by (induction qs) (auto split: outcome.splits option.splits)

lemma scan_schema:
  assumes "table_ok E (real_name tab_name real)"
  shows "\<exists>tab desc fh. env_tabs E (real_name tab_name real) = Some tab \<and> env_fhs E (real_name tab_name real) = Some (desc, fh) \<and> heap_inv fh \<and> (\<forall>n. \<not> pool_full fh n)
    \<and> scan_cols tab tab_name \<noteq> [] \<and> plan_cols E (ScanPlan tab_name real conds) = scan_cols tab tab_name
    \<and> plan_len E (ScanPlan tab_name real conds) = cm_offset (last (scan_cols tab tab_name)) + cm_len (last (scan_cols tab tab_name))
    \<and> schema_ok (scan_cols tab tab_name) (plan_len E (ScanPlan tab_name real conds))
    \<and> (\<forall>r v. get_visible E desc r = Ret (Some v) \<longrightarrow> length v = plan_len E (ScanPlan tab_name real conds))"
  using assms by (auto simp: table_ok_def scan_cols_def schema_ok_def last_map Let_def)

lemma schema_shift: "schema_ok cs n \<Longrightarrow> schema_ok ds m \<Longrightarrow> schema_ok (cs @ shift n ds) (n + m)"
  by (fastforce simp: schema_ok_def shift_def)

lemma length_concat_fields: "(\<And>t. t \<in> set ts \<Longrightarrow> length (f t) = cm_len (g t)) \<Longrightarrow> length (concat (map f ts)) = total_len (map g ts)"
  by (induction ts) simp_all

lemma length_convert_row:
  assumes "union_typed cs out" "schema_ok out (total_len out)" "schema_ok cs len" "length r = len"
  shows "length (convert_row fp cs out r) = total_len out"
proof -
  have "length (concat (map (convert_field fp r) (zip cs out))) = total_len (map snd (zip cs out))"
  proof (rule length_concat_fields)
    fix t assume t: "t \<in> set (zip cs out)"
    obtain src dst where p: "t = (src, dst)" by (cases t)
    have "src \<in> set cs" "dst \<in> set out" using t p by (auto dest: set_zip_leftD set_zip_rightD)
    then show "length (convert_field fp r t) = cm_len (snd t)"
      using convert_one_ok [of src dst r fp] schema_okD [OF assms(2), of dst] schema_okD [OF assms(3), of src] assms(1,4) t p by (auto simp: union_typed_def)
  qed
  then show ?thesis using assms(1) by (simp add: convert_row_def union_typed_def)
qed

lemma plan_typed: "env_ok E \<Longrightarrow> plan_ok E p \<Longrightarrow> rows_ok (plan_rows E p) (plan_cols E p) (plan_len E p)"
proof (induction p)
  case (ScanPlan tab_name real conds)
  let ?p = "ScanPlan tab_name real conds"
  obtain tab desc fh where t: "env_fhs E (real_name tab_name real) = Some (desc, fh)" "plan_cols E ?p = scan_cols tab tab_name" "schema_ok (scan_cols tab tab_name) (plan_len E ?p)"
      "\<forall>r v. get_visible E desc r = Ret (Some v) \<longrightarrow> length v = plan_len E ?p" using scan_schema [of E tab_name real conds] ScanPlan.prems by auto
  have "length r = plan_len E ?p" if "r \<in> set (plan_rows E ?p)" for r
  proof -
    have "r \<in> set (visible_rows (get_visible E desc) (heap_rids fh))" using that t(1) by (simp add: table_rows_def)
    then show ?thesis using visible_rows_read t(4) by blast
  qed
  then show ?case using t(2,3) by (simp add: rows_ok_def del: plan_rows.simps plan_cols.simps plan_len.simps)
next
  case (JoinPlan l r conds)
  then show ?case using schema_shift [of "plan_cols E l" "plan_len E l" "plan_cols E r" "plan_len E r"] by (auto simp: rows_ok_def)
next
  case (ProjectionPlan p sels)
  let ?cs = "plan_cols E p"
  have p: "rows_ok (plan_rows E p) ?cs (plan_len E p)" using ProjectionPlan by simp
  have c: "cm_offset (col_of ?cs t) + cm_len (col_of ?cs t) \<le> plan_len E p \<and> (cm_type (col_of ?cs t) \<noteq> TYPE_STRING \<longrightarrow> cm_len (col_of ?cs t) = 4)" if "t \<in> set sels" for t
    using schema_okD [OF _ col_of_in, of "plan_cols E p" "plan_len E p" t] p ProjectionPlan.prems that by (simp add: rows_ok_def)
  have "length (concat (map (\<lambda>t. field r (col_of ?cs t)) sels)) = total_len (map (col_of ?cs) sels)" if "r \<in> set (plan_rows E p)" for r
    using c p that by (intro length_concat_fields) (simp add: length_field rows_ok_def)
  then show ?case using tile_schema [of "map (col_of ?cs) sels" 0] c by (auto simp: rows_ok_def)
next
  case (SortPlan p sels desc limit)
  then show ?case using set_apply_limit [of limit "stable_order (sort_before (map (col_of (plan_cols E p)) sels) desc) (plan_rows E p)"] by (auto simp: rows_ok_def)
next
  case (UnionPlan ps out)
  have "length r = total_len out" if r: "r \<in> set (plan_rows E (UnionPlan ps out))" for r
  proof -
    obtain p x where p: "p \<in> set ps" "x \<in> set (plan_rows E p)" "r = convert_row (env_fp E) (plan_cols E p) out x" using r by auto
    then show ?thesis using UnionPlan length_convert_row [of "plan_cols E p" out "plan_len E p" x "env_fp E"] by (simp add: rows_ok_def)
  qed
  then show ?case using UnionPlan.prems by (simp add: rows_ok_def)
next
  case (AggregatePlan p es gs hs)
  let ?cs = "plan_cols E p"
  have p: "rows_ok (plan_rows E p) ?cs (plan_len E p)" using AggregatePlan by simp
  have t: "\<forall>e \<in> set es. expr_typed ?cs e" using AggregatePlan.prems by simp
  have "length (concat (map (expr_bytes (env_fp E) ?cs g) es)) = total_len (map (expr_meta ?cs) es)" if "g \<in> set (groups_of ?cs gs (plan_rows E p))" for g
    using length_expr_bytes [OF groups_rows_ok [OF p that]] t by (intro length_concat_fields) (simp add: expr_meta_def)
  moreover have "schema_ok (tile 0 (map (expr_meta ?cs) es)) (0 + total_len (map (expr_meta ?cs) es))"
    using expr_type_num [OF p] t by (intro tile_schema) (auto simp: expr_meta_def)
  ultimately show ?case by (auto simp: rows_ok_def)
qed

subsection \<open>Executors keep the contract\<close>

definition executes :: "query_env \<Rightarrow> plan \<Rightarrow> executor \<Rightarrow> xstate \<Rightarrow> (xstate \<Rightarrow> bool) \<Rightarrow> bool" where
  "executes E p ex s I \<longleftrightarrow> convert_plan_executor E VISIBLE_TUPLE p = Ret (ex, s) \<and> cols ex = plan_cols E p \<and> tupleLen ex = plan_len E p \<and> I s \<and> implements ex I (plan_rows E p)"

lemma scan_executes:
  assumes env: "env_ok E" and ok: "plan_ok E (ScanPlan tab_name real conds)"
  shows "\<exists>ex s I. executes E (ScanPlan tab_name real conds) ex s I"
proof -
  let ?p = "ScanPlan tab_name real conds"
  obtain tab desc fh where t: "env_tabs E (real_name tab_name real) = Some tab" "env_fhs E (real_name tab_name real) = Some (desc, fh)" "heap_inv fh" "\<forall>n. \<not> pool_full fh n"
      "scan_cols tab tab_name \<noteq> []" "plan_cols E ?p = scan_cols tab tab_name"
      "plan_len E ?p = cm_offset (last (scan_cols tab tab_name)) + cm_len (last (scan_cols tab tab_name))" "schema_ok (scan_cols tab tab_name) (plan_len E ?p)"
      "\<forall>r v. get_visible E desc r = Ret (Some v) \<longrightarrow> length v = plan_len E ?p" using scan_schema [of E tab_name real conds] ok by auto
  let ?P = "\<lambda>r. \<forall>c \<in> set conds. cond_holds (scan_cols tab tab_name) r c"
  obtain fed where f: "bind_conds (scan_cols tab tab_name) conds = Ret fed" "\<forall>r. length r = plan_len E ?p \<longrightarrow> eval_conds (scan_cols tab tab_name) r fed = Ret (?P r)"
    using bind_conds_ok [OF t(8), of conds] ok t(6) by auto
  let ?ex = "\<lparr>tupleLen = plan_len E ?p, cols = scan_cols tab tab_name, beginTuple = seq_scan_begin fh (get_visible E desc) (scan_cols tab tab_name) fed VISIBLE_TUPLE,
      nextTuple = seq_scan_next fh (get_visible E desc) (scan_cols tab tab_name) fed VISIBLE_TUPLE, is_end = seq_scan_is_end, Next = seq_scan_current, Current = seq_scan_current\<rparr>"
  have "scan_reads fh (get_visible E desc) (scan_cols tab tab_name) fed ?P" using t(3,4,9) f(2) get_visible_returns [OF env] by (simp add: scan_reads_def)
  then have "implements ?ex is_XScan (filter ?P (visible_rows (get_visible E desc) (heap_rids fh)))" by (rule seq_scan_implements) simp_all
  moreover have "convert_plan_executor E VISIBLE_TUPLE ?p = Ret (?ex, XScan None scan_end None)"
    using t(1,2,5,7) f(1) by (simp add: SeqScanExecutor_def get_table_def Let_def real_name_def [symmetric])
  moreover have "plan_rows E ?p = filter ?P (visible_rows (get_visible E desc) (heap_rids fh))" using t(2,6) by (simp add: table_rows_def)
  moreover have "is_XScan (XScan None scan_end None)" by (simp add: is_XScan_def)
  ultimately have "executes E ?p ?ex (XScan None scan_end None) is_XScan" using t(6) by (simp add: executes_def del: plan_cols.simps plan_len.simps)
  then show ?thesis by blast
qed

lemma join_executes:
  assumes env: "env_ok E" and ok: "plan_ok E (JoinPlan pl pr conds)" and l: "executes E pl left sl I" and r: "executes E pr right sr J"
  shows "\<exists>ex s K. executes E (JoinPlan pl pr conds) ex s K"
proof -
  let ?p = "JoinPlan pl pr conds" and ?cs = "plan_cols E (JoinPlan pl pr conds)"
  let ?P = "\<lambda>t. \<forall>c \<in> set conds. cond_holds ?cs t c"
  have c: "join_cols left right = ?cs" using l r by (simp add: join_cols_def executes_def shift_def)
  note ty = plan_typed [OF env]
  have s: "schema_ok ?cs (plan_len E ?p)" using ty [OF ok] by (simp add: rows_ok_def)
  have tc: "\<forall>c \<in> set conds. cond_typed ?cs c" using ok by simp
  obtain fed where f: "bind_conds ?cs conds = Ret fed" "\<forall>t. length t = plan_len E ?p \<longrightarrow> eval_conds ?cs t fed = Ret (?P t)"
    using bind_conds_ok [OF s tc] by blast
  let ?ex = "\<lparr>tupleLen = tupleLen left + tupleLen right, cols = ?cs, beginTuple = join_begin E left right ?cs fed, nextTuple = join_next E left right ?cs fed,
      is_end = join_is_end, Next = join_current, Current = join_current\<rparr>"
  have "join_reads E left (set (plan_rows E pl)) right J (plan_rows E pr) ?cs fed ?P"
    using l r env f(2) ty [of pl] ty [of pr] ok by (simp add: join_reads_def executes_def env_ok_def rows_ok_def)
  then have "implements ?ex (is_XJoin I J) (filter ?P (product (plan_rows E pl) (plan_rows E pr)))" using l by (intro join_implements) (simp_all add: executes_def)
  moreover have "convert_plan_executor E VISIBLE_TUPLE ?p = Ret (?ex, XJoin sl sr False None)" using l r f(1) c by (simp add: executes_def NestedLoopJoinExecutor_def Let_def)
  ultimately have "executes E ?p ?ex (XJoin sl sr False None) (is_XJoin I J)" using l r by (simp add: executes_def product_def)
  then show ?thesis by blast
qed

lemma projection_executes:
  assumes env: "env_ok E" and ok: "plan_ok E (ProjectionPlan p sels)" and x: "executes E p prev sp I"
  shows "\<exists>ex s K. executes E (ProjectionPlan p sels) ex s K"
proof -
  let ?cs = "plan_cols E p" and ?sel = "map (col_of (plan_cols E p)) sels"
  have h: "\<forall>t \<in> set sels. has_col ?cs t" using ok by simp
  have ty: "rows_ok (plan_rows E p) ?cs (plan_len E p)" using plan_typed [OF env] ok by simp
  let ?idx = "map (\<lambda>t. the (find_pos (col_is t) ?cs)) sels" and ?len = "total_len ?sel"
  have m: "map (\<lambda>i. cols prev ! i) ?idx = ?sel" using x by (simp add: executes_def col_of_def)
  let ?ex = "\<lparr>tupleLen = ?len, cols = tile 0 ?sel, beginTuple = projection_begin E prev ?idx (tile 0 ?sel) ?len, nextTuple = projection_next E prev ?idx (tile 0 ?sel) ?len,
      is_end = projection_is_end prev, Next = projection_current, Current = projection_current\<rparr>"
  have c: "copy_fields (zip (map (\<lambda>i. cols prev ! i) ?idx) (tile 0 ?sel)) r (env_uninit E ?len) = Ret (concat (map (\<lambda>t. field r (col_of ?cs t)) sels))" if "r \<in> set (plan_rows E p)" for r
  proof -
    have "cm_offset c + cm_len c \<le> length r" if "c \<in> set ?sel" for c
      using schema_okD [of ?cs "plan_len E p" c] col_of_in [of ?cs] h ty that \<open>r \<in> set (plan_rows E p)\<close> by (auto simp: rows_ok_def)
    then show ?thesis unfolding m using copy_fields_ok [of ?sel r "env_uninit E ?len" 0] env by (simp add: env_ok_def comp_def)
  qed
  have "implements ?ex (is_XProjection I) (map (\<lambda>r. concat (map (\<lambda>t. field r (col_of ?cs t)) sels)) (plan_rows E p))"
    using x by (intro projection_implements [where prev = prev and E = E and idxs = ?idx and cs = "tile 0 ?sel" and len = ?len] c) (simp_all add: executes_def)
  moreover have "convert_plan_executor E VISIBLE_TUPLE (ProjectionPlan p sels) = Ret (?ex, XProjection sp None)"
    using x projection_cols_ok [OF h, of 0] by (simp add: executes_def ProjectionExecutor_def)
  ultimately have "executes E (ProjectionPlan p sels) ?ex (XProjection sp None) (is_XProjection I)" using x by (simp add: executes_def)
  then show ?thesis by blast
qed

lemma sort_executes:
  assumes env: "env_ok E" and ok: "plan_ok E (SortPlan p sels desc limit)" and x: "executes E p prev sp I"
  shows "\<exists>ex s K. executes E (SortPlan p sels desc limit) ex s K"
proof -
  let ?cs = "plan_cols E p" and ?ks = "map (col_of (plan_cols E p)) sels"
  have h: "\<forall>t \<in> set sels. has_col ?cs t" and n: "length ?ks \<le> length desc" using ok by simp_all
  have ty: "rows_ok (plan_rows E p) ?cs (plan_len E p)" using plan_typed [OF env] ok by simp
  let ?ex = "\<lparr>tupleLen = tupleLen prev, cols = cols prev, beginTuple = sort_begin prev ?ks desc limit, nextTuple = buffer_next,
      is_end = buffer_is_end, Next = buffer_current, Current = buffer_current\<rparr>"
  have "omap (get_col_offset prev) sels = Ret ?ks" using h x by (intro omap_Ret) (simp add: get_col_offset_def executes_def)
  then have "convert_plan_executor E VISIBLE_TUPLE (SortPlan p sels desc limit) = Ret (?ex, XBuffer sp [] 0)" using x by (simp add: executes_def SortExecutor_def)
  moreover have "implements ?ex (is_XBuffer I) (apply_limit limit (stable_order (sort_before ?ks desc) (plan_rows E p)))"
    using x h by (intro sort_implements [OF ty _ n]) (auto simp: executes_def buffer_executor_def intro: col_of_in)
  ultimately have "executes E (SortPlan p sels desc limit) ?ex (XBuffer sp [] 0) (is_XBuffer I)" using x by (simp add: executes_def)
  then show ?thesis by blast
qed

lemma union_children_executes:
  assumes env: "env_ok E" and out: "tile 0 out = out" "schema_ok out (total_len out)"
  shows "\<forall>p \<in> set ps. plan_ok E p \<and> union_typed (plan_cols E p) out \<and> (\<exists>ex s I. executes E p ex s I)
    \<Longrightarrow> \<exists>xs Is. omap (convert_plan_executor E VISIBLE_TUPLE) ps = Ret xs \<and> list_all2 (\<lambda>I s. I s) Is (map snd xs)
        \<and> union_reads (env_fp E) out (total_len out) (map fst xs) Is (map (\<lambda>p. map (convert_row (env_fp E) (plan_cols E p) out) (plan_rows E p)) ps)"
proof (induction ps)
  case (Cons p ps)
  obtain ex s I where x: "executes E p ex s I" using Cons.prems by auto
  have p: "plan_ok E p" "union_typed (plan_cols E p) out" using Cons.prems by simp_all
  have ty: "rows_ok (plan_rows E p) (plan_cols E p) (plan_len E p)" using plan_typed [OF env p(1)] .
  have cv: "convert_record (env_fp E) out (total_len out) r (plan_cols E p) = Ret (convert_row (env_fp E) (plan_cols E p) out r)" if "r \<in> set (plan_rows E p)" for r
    using convert_record_ok [OF p(2) out, of "plan_len E p" r] ty that by (simp add: rows_ok_def)
  obtain xs Is where i: "omap (convert_plan_executor E VISIBLE_TUPLE) ps = Ret xs" "list_all2 (\<lambda>I s. I s) Is (map snd xs)"
      "union_reads (env_fp E) out (total_len out) (map fst xs) Is (map (\<lambda>p. map (convert_row (env_fp E) (plan_cols E p) out) (plan_rows E p)) ps)" using Cons by auto
  have "union_reads (env_fp E) out (total_len out) (ex # map fst xs) (I # Is) (map (\<lambda>p. map (convert_row (env_fp E) (plan_cols E p) out) (plan_rows E p)) (p # ps))"
    using x i(3) cv by (auto simp: executes_def)
  then show ?case using x i(1,2) by (intro exI [of _ "(ex, s) # xs"] exI [of _ "I # Is"]) (simp add: executes_def)
qed (intro exI [of _ "[]"], simp)

lemma union_executes:
  assumes env: "env_ok E" and ok: "plan_ok E (UnionPlan ps out)" and x: "\<forall>p \<in> set ps. \<exists>ex s I. executes E p ex s I"
  shows "\<exists>ex s K. executes E (UnionPlan ps out) ex s K"
proof -
  have o: "tile 0 out = out" "schema_ok out (total_len out)" using ok by simp_all
  obtain xs Is where i: "omap (convert_plan_executor E VISIBLE_TUPLE) ps = Ret xs" "list_all2 (\<lambda>I s. I s) Is (map snd xs)"
      "union_reads (env_fp E) out (total_len out) (map fst xs) Is (map (\<lambda>p. map (convert_row (env_fp E) (plan_cols E p) out) (plan_rows E p)) ps)"
    using union_children_executes [OF env o, of ps] ok x by auto
  obtain ex s where e: "UnionExecutor E xs out = (ex, s)" by fastforce
  have u: "union_len out = total_len out" using union_len_tiled [OF o(1)] .
  have f: "buffer_executor ex" "beginTuple ex = union_begin (env_fp E) out (total_len out) (map fst xs)" "tupleLen ex = total_len out" "cols ex = out" "s = XUnion (map snd xs) [] 0"
    using e u by (auto simp: UnionExecutor_def buffer_executor_def)
  have "executes E (UnionPlan ps out) ex s (is_XUnion Is)" using union_implements [OF i(3) f(1,2)] f e i(1,2) by (simp add: executes_def is_XUnion_def)
  then show ?thesis by blast
qed

lemma aggregate_executes:
  assumes env: "env_ok E" and ok: "plan_ok E (AggregatePlan p es gs hs)" and x: "executes E p prev sp I"
  shows "\<exists>ex s K. executes E (AggregatePlan p es gs hs) ex s K"
proof -
  have c: "cols prev = plan_cols E p" using x by (simp add: executes_def)
  let ?m = "map (expr_meta (cols prev)) es"
  let ?A = "\<lparr>select_exprs = es, group_cols = gs, having_conds = hs, agg_cols = tile 0 ?m, agg_len = total_len ?m\<rparr>"
  let ?ex = "\<lparr>tupleLen = total_len ?m, cols = tile 0 ?m, beginTuple = aggregate_begin E ?A prev, nextTuple = buffer_next,
      is_end = buffer_is_end, Next = buffer_current, Current = buffer_current\<rparr>"
  have t: "\<forall>e \<in> set es. expr_typed (cols prev) e" "\<forall>h \<in> set hs. having_typed (cols prev) h" "\<forall>g \<in> set gs. has_col (cols prev) g" using ok c by simp_all
  have ty: "rows_ok (plan_rows E p) (cols prev) (plan_len E p)" using plan_typed [OF env] ok c by simp
  have k: "convert_plan_executor E VISIBLE_TUPLE (AggregatePlan p es gs hs) = Ret (?ex, XBuffer sp [] 0)"
    using x aggregate_cols_ok [OF t(1), of 0] by (simp add: executes_def AggregateExecutor_def)
  have "implements ?ex (is_XBuffer I) (plan_rows E (AggregatePlan p es gs hs))"
    using aggregate_implements [OF ty, of I ?A E ?ex] t x env by (simp add: c executes_def env_ok_def buffer_executor_def)
  then have "executes E (AggregatePlan p es gs hs) ?ex (XBuffer sp [] 0) (is_XBuffer I)" using x k by (simp add: executes_def c del: plan_rows.simps)
  then show ?thesis by blast
qed

lemma plan_executes: "env_ok E \<Longrightarrow> plan_ok E p \<Longrightarrow> \<exists>ex s I. executes E p ex s I"
proof (induction p)
  case (ScanPlan tab_name real conds)
  then show ?case by (rule scan_executes)
next
  case (JoinPlan l r conds)
  then show ?case using join_executes by (metis plan_ok.simps(2))
next
  case (ProjectionPlan p sels)
  then show ?case using projection_executes by (metis plan_ok.simps(3))
next
  case (SortPlan p sels desc limit)
  then show ?case using sort_executes by (metis plan_ok.simps(4))
next
  case (UnionPlan ps out)
  then show ?case using union_executes [of E ps out] by simp
next
  case (AggregatePlan p es gs hs)
  then show ?case using aggregate_executes by (metis plan_ok.simps(6))
qed

subsection \<open>The printed rows\<close>

lemma column_text_ok:
  assumes "cm_offset c + cm_len c \<le> length r" "cm_type c \<noteq> TYPE_STRING \<longrightarrow> cm_len c = 4"
  shows "column_text fp r c = Ret (case cm_type c of TYPE_INT \<Rightarrow> to_string (le_dec_signed (field r c)) | TYPE_FLOAT \<Rightarrow> f32_to_string fp (word_of_int (le_dec (field r c)))
     | TYPE_STRING \<Rightarrow> map byte_char (takeWhile (\<lambda>b. b \<noteq> 0) (field r c)))"
  using assms by (cases "cm_type c") (auto simp: column_text_def Let_def read_int_def read_float_def field_def)

lemma run_select_tuple:
  assumes "rows_ok rs cs len"
  shows "run_body (select_tuple fp cs) rs a = Ret (a @ map (row_text fp cs) rs)"
  using assms
proof (induction rs arbitrary: a)
  case (Cons r rs)
  have "omap (column_text fp r) cs = Ret (row_text fp cs r)" unfolding row_text_def
    using Cons.prems schema_okD [of cs len] by (intro omap_Ret column_text_ok) (auto simp: rows_ok_def)
  then show ?case using Cons by (simp add: select_tuple_def rows_ok_def)
qed simp

subsection \<open>Property\<close>

lemma run_select_plan:
  assumes "env_ok E" and "plan_ok E p"
  shows "run_select E p = Some (Ret (map (row_text (env_fp E) (plan_cols E p)) (plan_rows E p)))"
proof -
  obtain ex s I where x: "executes E p ex s I" using plan_executes [OF assms] by blast
  have "run_body (select_tuple (env_fp E) (plan_cols E p)) (plan_rows E p) [] = Ret (map (row_text (env_fp E) (plan_cols E p)) (plan_rows E p))"
    using run_select_tuple [OF plan_typed [OF assms]] by simp
  then obtain s' where "for_tuples ex (select_tuple (env_fp E) (cols ex)) s [] = ret (map (row_text (env_fp E) (plan_cols E p)) (plan_rows E p), s')"
    using for_tuples_run [of ex I "plan_rows E p" s "select_tuple (env_fp E) (plan_cols E p)" "[]"] x by (auto simp: executes_def)
  then show ?thesis using x by (simp add: run_select_def select_from_def executes_def)
qed

text \<open>
  C40. A \<open>SELECT\<close> prints the rows of its plan. For a well-typed plan over tables in order, building the executors succeeds, their loops end, no exception, null pointer or access
  outside a buffer occurs, and the rows are those the relational operators give: the visible records that satisfy the conditions, joined, projected, stably sorted and
  cut at the limit, united without duplicates, grouped and aggregated, in that order of the plan.
\<close>

theorem select_refines_plan:
  assumes "env_ok E" and "plan_ok E p"
  shows "run_select E p = Some (Ret (map (row_text (env_fp E) (plan_cols E p)) (plan_rows E p)))"
  by (rule run_select_plan [OF assms])

subsection \<open>Example\<close>

definition ex_fp :: fp_ops where
  "ex_fp = \<lparr>f32_of_int = word_of_int, f32_div = (\<lambda>a b. a), f64_of_f32 = ucast, f64_of_int = word_of_int, f64_add = (\<lambda>a b. a), f64_div = (\<lambda>a b. a), f32_of_f64 = ucast,
     f32_to_string = (\<lambda>w. '''')\<rparr>"

definition ex_tab :: tab_meta where
  "ex_tab = \<lparr>tm_name = ''t'', tm_cols = [\<lparr>cm_tab = ''t'', cm_name = ''a'', cm_type = TYPE_INT, cm_len = 4, cm_offset = 0\<rparr>,
                                        \<lparr>cm_tab = ''t'', cm_name = ''b'', cm_type = TYPE_STRING, cm_len = 4, cm_offset = 4\<rparr>], tm_indexes = []\<rparr>"

definition ex_env :: query_env where
  "ex_env = \<lparr>env_tabs = [''t'' \<mapsto> ex_tab], env_fhs = [''t'' \<mapsto> (3, ex_heap1)], env_txns = TransactionManager_new 1 2 1 [\<lparr>tk_fd = 3, tk_rid = ex_rid\<rparr> \<mapsto> ex_rec],
     env_reader = None, env_fp = ex_fp, env_uninit = (\<lambda>n. replicate n 255), env_streaming = True\<rparr>"

definition ex_cond :: condition where
  "ex_cond = \<lparr>lhs_col = \<lparr>tc_tab = ''x'', tc_col = ''a''\<rparr>, cond_op = OP_LE, is_rhs_val = False, rhs_col = \<lparr>tc_tab = ''y'', tc_col = ''a''\<rparr>,
     rhs_val = \<lparr>v_type = TYPE_INT, v_int = 0, v_float = 0, v_str = '''', v_raw = None\<rparr>, bound_lhs_offset = - 1, bound_rhs_offset = - 1, bound_type = TYPE_INT, bound_len = 0\<rparr>"

text \<open>\<open>SELECT COUNT(*), MAX(x.a) FROM t x, t y WHERE x.a <= y.a\<close>.\<close>

definition ex_plan :: plan where
  "ex_plan = AggregatePlan (JoinPlan (ScanPlan ''x'' ''t'' []) (ScanPlan ''y'' ''t'' []) [ex_cond])
     [\<lparr>is_aggregate = True, agg_func_of = AGG_COUNT, count_star = True, expr_col = \<lparr>tc_tab = '''', tc_col = ''''\<rparr>, output_name = ''COUNT(*)''\<rparr>,
      \<lparr>is_aggregate = True, agg_func_of = AGG_MAX, count_star = False, expr_col = \<lparr>tc_tab = ''x'', tc_col = ''a''\<rparr>, output_name = ''MAX(a)''\<rparr>] [] []"

lemma set_heap_rids: "set (heap_rids fh) = dom (contents fh)"
  by (auto simp: heap_rids_def set_remaining contents_def Let_def dom_def split: if_splits)

lemma ex_heap_rids: "heap_rids ex_heap1 = [ex_rid]"
proof -
  have s: "set (heap_rids ex_heap1) = {ex_rid}" by (simp add: set_heap_rids ex_insert(3))
  have "sorted_wrt rid_less (heap_rids ex_heap1)" unfolding heap_rids_def by (rule remaining_sorted)
  then show ?thesis using s by (cases "heap_rids ex_heap1" rule: list.exhaust; cases "tl (heap_rids ex_heap1)") (auto simp: rid_less_def)
qed

lemma ex_visible: "get_visible ex_env 3 r = Ret (if r = ex_rid then Some ex_rec else None)"
  by (simp add: get_visible_def ex_env_def ReadVisibleTuple_def ResolveVisibleTupleImpl_def TransactionManager_new_def)

lemma ex_env_ok: "env_ok ex_env"
  using new_inv [of 1 1 2] by (simp add: env_ok_def ex_env_def)

lemma ex_table_ok: "table_ok ex_env ''t''"
proof -
  have "env_tabs ex_env ''t'' = Some ex_tab" "env_fhs ex_env ''t'' = Some (3, ex_heap1)" by (simp_all add: ex_env_def)
  moreover have "\<forall>r v. get_visible ex_env 3 r = Ret (Some v) \<longrightarrow> length v = 8" by (simp add: ex_visible ex_rec_def)
  moreover have "\<forall>n. \<not> pool_full ex_heap1 n" using ex_insert by simp
  ultimately show ?thesis unfolding table_ok_def using ex_insert(2) by (simp add: ex_tab_def schema_ok_def)
qed

lemma ex_plan_ok: "plan_ok ex_env ex_plan"
proof -
  have "env_tabs ex_env ''t'' = Some ex_tab" by (simp add: ex_env_def)
  then show ?thesis using ex_table_ok
    by (simp add: ex_plan_def real_name_def scan_cols_def ex_tab_def shift_def Let_def cond_typed_def ex_cond_def has_col_def col_of_def col_is_def expr_typed_def)
qed

lemma ex_plan_text: "map (row_text (env_fp ex_env) (plan_cols ex_env ex_plan)) (plan_rows ex_env ex_plan) = [[''1'', ''117901063'']]"
proof -
  have t: "env_tabs ex_env ''t'' = Some ex_tab" "env_fhs ex_env ''t'' = Some (3, ex_heap1)" "env_fp ex_env = ex_fp" by (simp_all add: ex_env_def)
  have r: "table_rows ex_env ''t'' = [ex_rec]" by (simp add: table_rows_def t ex_heap_rids ex_visible)
  have n: "real_name ''x'' ''t'' = ''t''" "real_name ''y'' ''t'' = ''t''" by (simp_all add: real_name_def)
  have l: "cm_offset (last (scan_cols ex_tab ''x'')) + cm_len (last (scan_cols ex_tab ''x'')) = 8" by (simp add: scan_cols_def ex_tab_def)
  have p: "plan_rows ex_env ex_plan = [[1, 0, 0, 0, 7, 7, 7, 7]]"
    unfolding ex_plan_def plan_rows.simps plan_cols.simps plan_len.simps n r t option.case Let_def l by code_simp
  have c: "plan_cols ex_env ex_plan = [\<lparr>cm_tab = [], cm_name = ''COUNT(*)'', cm_type = TYPE_INT, cm_len = 4, cm_offset = 0\<rparr>,
      \<lparr>cm_tab = [], cm_name = ''MAX(a)'', cm_type = TYPE_INT, cm_len = 4, cm_offset = 4\<rparr>]"
    unfolding ex_plan_def plan_cols.simps plan_len.simps n t option.case Let_def l by code_simp
  have i: "le_dec_signed [1, 0, 0, 0] = 1" "le_dec_signed [7, 7, 7, 7] = 117901063" by code_simp+
  have d: "digit 0 = CHR ''0''" "digit 1 = CHR ''1''" "digit (Suc 0) = CHR ''1''" "digit 3 = CHR ''3''" "digit 6 = CHR ''6''" "digit 7 = CHR ''7''" "digit 9 = CHR ''9''" by code_simp+
  have "to_string 1 = ''1''" "to_string 117901063 = ''117901063''" by (simp_all add: to_string_def dec_digits.simps d)
  then show ?thesis by (simp add: p c row_text_def field_def i)
qed

theorem select_refines_plan_witness: "run_select ex_env ex_plan = Some (Ret [[''1'', ''117901063'']])"
  using select_refines_plan [OF ex_env_ok ex_plan_ok] by (simp add: ex_plan_text)

end
