(* ===== verification/Rmdb_Analyze.thy ===== *)
theory Rmdb_Analyze
  imports Rmdb_Exec
begin

text \<open>
  Semantic analysis, \<^verbatim>\<open>src/src/analyze/analyze.cpp\<close>: the statements of the parser (\<^verbatim>\<open>src/src/parser/ast.h\<close>) are resolved against the catalogue and typed. The result of a
  \<open>SELECT\<close> is a \<open>query\<close>; the results of \<open>INSERT\<close>, \<open>UPDATE\<close> and \<open>DELETE\<close> are the values, the set clauses and the conditions. Every rejection of the code is a \<open>Throw\<close>.

  \<open>fp\<close> gives the conversion of an integer literal to a \<open>float\<close>. A statement without a \<open>FROM\<close> item, which the grammar does not produce, is not distinguished from one
  with the empty list of tables.
\<close>

subsection \<open>Statements\<close>

datatype sv_value = IntLit int | FloatLit "32 word" | StringLit string | BoolLit bool

record sv_col =
  sc_tab :: string
  sc_col :: string
  sc_is_aggregate :: bool
  sc_agg_func :: agg_func
  sc_count_star :: bool
  sc_alias :: string

datatype sv_expr = SvValue sv_value | SvCol sv_col

datatype sv_comp_op = SV_OP_EQ | SV_OP_NE | SV_OP_LT | SV_OP_GT | SV_OP_LE | SV_OP_GE

record sv_cond =
  sv_lhs :: sv_col
  sv_op :: sv_comp_op
  sv_rhs :: sv_expr

datatype select_stmt = SelectStmt (st_cols: "sv_col list") (st_refs: "table_ref list") (st_where: "sv_cond list") (st_join: "sv_cond list")
    (st_group: "sv_col list") (st_having: "sv_cond list") (st_orders: "(sv_col \<times> bool) list") (st_limit: int)
  and table_ref = TableRef string string | DerivedUnion "select_stmt list" string

fun is_derived_union :: "table_ref \<Rightarrow> bool" where
  "is_derived_union (TableRef tab al) = False"
| "is_derived_union (DerivedUnion branches al) = True"

definition visible_name :: "string \<Rightarrow> string \<Rightarrow> string" where
  "visible_name tab al = (if al = [] then tab else al)"

datatype query = Query
    (q_tables: "string list") (q_real_names: "string \<rightharpoonup> string") (q_where_conds: "condition list") (q_join_conds: "condition list")
    (q_cols: "tab_col list") (q_select_exprs: "select_expr list") (q_group_cols: "tab_col list") (q_having_conds: "having_condition list")
    (q_order_specs: "(select_expr \<times> bool) list") (q_has_aggregation: bool) (q_limit: int)
    (q_has_union_source: bool) (q_union_branches: "query list") (q_output_cols: "col_meta list")

subsection \<open>Names\<close>

type_synonym catalog = "string \<rightharpoonup> tab_meta"

definition check_table_exists :: "catalog \<Rightarrow> string \<Rightarrow> unit outcome" where
  "check_table_exists C tab_name = (if C tab_name = None then Throw (TableNotFoundError tab_name) else Ret ())"

text \<open>\<open>TabMeta::get_col\<close>.\<close>

definition tab_get_col :: "tab_meta \<Rightarrow> string \<Rightarrow> col_meta outcome" where
  "tab_get_col tab name = (case find (\<lambda>c. cm_name c = name) (tm_cols tab) of None \<Rightarrow> Throw (ColumnNotFoundError name) | Some c \<Rightarrow> Ret c)"

definition lookup_name :: "(string \<rightharpoonup> string) \<Rightarrow> string \<Rightarrow> string" where
  "lookup_name m name = (case m name of None \<Rightarrow> name | Some t \<Rightarrow> t)"

definition get_all_cols :: "catalog \<Rightarrow> string list \<Rightarrow> (string \<rightharpoonup> string) \<Rightarrow> col_meta list outcome" where
  "get_all_cols C tab_names real =
     othen (omap (\<lambda>t. othen (get_table C (lookup_name real t)) (\<lambda>tab. Ret (scan_cols tab t))) tab_names) (\<lambda>css. Ret (concat css))"

fun infer_table :: "col_meta list \<Rightarrow> string \<Rightarrow> string \<Rightarrow> string outcome" where
  "infer_table [] name tab_name = Ret tab_name"
| "infer_table (c # cs) name tab_name =
     (if cm_name c = name then if tab_name \<noteq> [] then Throw (AmbiguousColumnError name) else infer_table cs name (cm_tab c)
      else infer_table cs name tab_name)"

definition check_column :: "col_meta list \<Rightarrow> tab_col \<Rightarrow> (string \<rightharpoonup> string) \<Rightarrow> tab_col outcome" where
  "check_column all_cols target al =
     (if tc_tab target = [] then
        othen (infer_table all_cols (tc_col target) []) (\<lambda>t.
          if t = [] then Throw (ColumnNotFoundError (tc_col target)) else Ret (target\<lparr>tc_tab := t\<rparr>))
      else let t = lookup_name al (tc_tab target) in
        if find (\<lambda>c. cm_tab c = t \<and> cm_name c = tc_col target) all_cols \<noteq> None then Ret (target\<lparr>tc_tab := t\<rparr>)
        else if find (\<lambda>c. cm_tab c = t) all_cols = None then Throw (TableNotFoundError (tc_tab target))
        else Throw (ColumnNotFoundError (tc_tab target @ ''.'' @ tc_col target)))"

subsection \<open>Values and conditions\<close>

fun coltype2str :: "col_type \<Rightarrow> string" where
  "coltype2str TYPE_INT = ''INT''"
| "coltype2str TYPE_FLOAT = ''FLOAT''"
| "coltype2str TYPE_STRING = ''STRING''"

definition no_value :: sql_value where
  "no_value = \<lparr>v_type = TYPE_INT, v_int = 0, v_float = 0, v_str = [], v_raw = None\<rparr>"

fun convert_sv_value :: "sv_value \<Rightarrow> sql_value outcome" where
  "convert_sv_value (IntLit i) = Ret (no_value\<lparr>v_type := TYPE_INT, v_int := i\<rparr>)"
| "convert_sv_value (FloatLit f) = Ret (set_float f no_value)"
| "convert_sv_value (StringLit s) = Ret (no_value\<lparr>v_type := TYPE_STRING, v_str := s\<rparr>)"
| "convert_sv_value (BoolLit b) = Throw (InternalError ''Unexpected sv value type'')"

fun convert_sv_comp_op :: "sv_comp_op \<Rightarrow> comp_op" where
  "convert_sv_comp_op SV_OP_EQ = OP_EQ"
| "convert_sv_comp_op SV_OP_NE = OP_NE"
| "convert_sv_comp_op SV_OP_LT = OP_LT"
| "convert_sv_comp_op SV_OP_GT = OP_GT"
| "convert_sv_comp_op SV_OP_LE = OP_LE"
| "convert_sv_comp_op SV_OP_GE = OP_GE"

text \<open>An integer where the column is a \<open>FLOAT\<close> becomes a \<open>float\<close>.\<close>

definition coerce :: "fp_ops \<Rightarrow> col_type \<Rightarrow> sql_value \<Rightarrow> sql_value" where
  "coerce fp type v = (if type = TYPE_FLOAT \<and> v_type v = TYPE_INT then set_float (f32_of_int fp (v_int v)) v else v)"

definition check_value_type_and_len :: "fp_ops \<Rightarrow> col_meta \<Rightarrow> sql_value \<Rightarrow> sql_value outcome" where
  "check_value_type_and_len fp col v =
     (let v' = coerce fp (cm_type col) v in
      if cm_type col \<noteq> v_type v' then Throw (IncompatibleTypeError (coltype2str (cm_type col)) (coltype2str (v_type v')))
      else if cm_type col = TYPE_STRING \<and> cm_len col < length (v_str v') then Throw StringOverflowError
      else Ret v')"

definition new_condition :: "tab_col \<Rightarrow> comp_op \<Rightarrow> condition" where
  "new_condition lhs opr = \<lparr>lhs_col = lhs, cond_op = opr, is_rhs_val = False, rhs_col = \<lparr>tc_tab = [], tc_col = []\<rparr>, rhs_val = no_value,
     bound_lhs_offset = - 1, bound_rhs_offset = - 1, bound_type = TYPE_INT, bound_len = 0\<rparr>"

definition sv_target :: "sv_col \<Rightarrow> tab_col" where
  "sv_target c = \<lparr>tc_tab = sc_tab c, tc_col = sc_col c\<rparr>"

definition get_condition :: "sv_cond \<Rightarrow> condition outcome" where
  "get_condition e =
     (let cond = new_condition (sv_target (sv_lhs e)) (convert_sv_comp_op (sv_op e)) in
      case sv_rhs e of
        SvValue v \<Rightarrow> othen (convert_sv_value v) (\<lambda>val. Ret (cond\<lparr>is_rhs_val := True, rhs_val := val\<rparr>))
      | SvCol c \<Rightarrow> Ret (cond\<lparr>is_rhs_val := False, rhs_col := sv_target c\<rparr>))"

definition get_clause :: "sv_cond list \<Rightarrow> condition list outcome" where
  "get_clause sv_conds = omap get_condition sv_conds"

definition check_condition :: "fp_ops \<Rightarrow> catalog \<Rightarrow> col_meta list \<Rightarrow> (string \<rightharpoonup> string) \<Rightarrow> (string \<rightharpoonup> string) \<Rightarrow> condition \<Rightarrow> condition outcome" where
  "check_condition fp C all_cols al real cond =
     othen (check_column all_cols (lhs_col cond) al) (\<lambda>lhs.
     othen (if is_rhs_val cond then Ret (rhs_col cond) else check_column all_cols (rhs_col cond) al) (\<lambda>rhs.
     othen (get_table C (lookup_name real (tc_tab lhs))) (\<lambda>lhs_tab.
     othen (tab_get_col lhs_tab (tc_col lhs)) (\<lambda>l.
     let cond1 = cond\<lparr>lhs_col := lhs, rhs_col := rhs\<rparr> in
     othen (if is_rhs_val cond
            then othen (init_raw (cm_len l) (coerce fp (cm_type l) (rhs_val cond))) (\<lambda>v. Ret (cond1\<lparr>rhs_val := v\<rparr>, v_type v))
            else othen (get_table C (lookup_name real (tc_tab rhs))) (\<lambda>rhs_tab.
                 othen (tab_get_col rhs_tab (tc_col rhs)) (\<lambda>r. Ret (cond1, cm_type r)))) (\<lambda>(cond2, rhs_type).
     if cm_type l \<noteq> rhs_type then Throw (IncompatibleTypeError (coltype2str (cm_type l)) (coltype2str rhs_type)) else Ret cond2)))))"

definition check_clause :: "fp_ops \<Rightarrow> catalog \<Rightarrow> string list \<Rightarrow> condition list \<Rightarrow> (string \<rightharpoonup> string) \<Rightarrow> (string \<rightharpoonup> string) \<Rightarrow> condition list outcome" where
  "check_clause fp C tab_names conds al real =
     othen (get_all_cols C tab_names real) (\<lambda>all_cols. omap (check_condition fp C all_cols al real) conds)"

subsection \<open>Unions\<close>

definition merge_col :: "col_meta \<Rightarrow> col_meta \<Rightarrow> col_meta outcome" where
  "merge_col common candidate =
     (if cm_type common = cm_type candidate then
        Ret (if cm_type common = TYPE_STRING then common\<lparr>cm_len := max (cm_len common) (cm_len candidate)\<rparr> else common)
      else if cm_type common = TYPE_INT \<and> cm_type candidate = TYPE_FLOAT \<or> cm_type common = TYPE_FLOAT \<and> cm_type candidate = TYPE_INT then
        Ret (common\<lparr>cm_type := TYPE_FLOAT, cm_len := 4\<rparr>)
      else Throw (IncompatibleTypeError (coltype2str (cm_type common)) (coltype2str (cm_type candidate))))"

definition merge_branch :: "col_meta list \<Rightarrow> col_meta list \<Rightarrow> col_meta list outcome" where
  "merge_branch result cs =
     (if length cs \<noteq> length result then Throw (RMDBError ''UNION branches must return the same number of columns'')
      else omap (\<lambda>(common, candidate). merge_col common candidate) (zip result cs))"

fun merge_branches :: "col_meta list \<Rightarrow> col_meta list list \<Rightarrow> col_meta list outcome" where
  "merge_branches result [] = Ret result"
| "merge_branches result (cs # css) = othen (merge_branch result cs) (\<lambda>result'. merge_branches result' css)"

fun lay_out :: "string \<Rightarrow> nat \<Rightarrow> col_meta list \<Rightarrow> col_meta list" where
  "lay_out al off [] = []"
| "lay_out al off (c # cs) = c\<lparr>cm_tab := al, cm_offset := off\<rparr> # lay_out al (off + cm_len c) cs"

definition make_union_schema :: "col_meta list list \<Rightarrow> string \<Rightarrow> col_meta list outcome" where
  "make_union_schema branches al =
     (if length branches < 2 then Throw (RMDBError ''UNION requires at least two branches'')
      else othen (merge_branches (hd branches) (tl branches)) (\<lambda>result. Ret (lay_out al 0 result)))"

subsection \<open>Expressions of the select list\<close>

fun agg_name :: "agg_func \<Rightarrow> string" where
  "agg_name AGG_COUNT = ''COUNT''"
| "agg_name AGG_MAX = ''MAX''"
| "agg_name AGG_MIN = ''MIN''"
| "agg_name AGG_SUM = ''SUM''"
| "agg_name AGG_AVG = ''AVG''"

definition make_select_expr :: "col_meta list \<Rightarrow> (string \<rightharpoonup> string) \<Rightarrow> sv_col \<Rightarrow> select_expr outcome" where
  "make_select_expr all_cols al sv =
     othen (if sc_count_star sv then Ret \<lparr>tc_tab = [], tc_col = []\<rparr> else check_column all_cols (sv_target sv) al) (\<lambda>col.
     othen (if sc_is_aggregate sv \<and> \<not> sc_count_star sv then
              othen (get_col all_cols col) (\<lambda>meta.
                if (sc_agg_func sv = AGG_SUM \<or> sc_agg_func sv = AGG_AVG) \<and> cm_type meta = TYPE_STRING
                then Throw (IncompatibleTypeError ''numeric'' (coltype2str (cm_type meta))) else Ret ())
            else Ret ()) (\<lambda>_.
     Ret \<lparr>is_aggregate = sc_is_aggregate sv, agg_func_of = sc_agg_func sv, count_star = sc_count_star sv, expr_col = col,
          output_name = (if sc_alias sv \<noteq> [] then sc_alias sv
                         else if sc_is_aggregate sv then agg_name (sc_agg_func sv) @ ''('' @ (if sc_count_star sv then ''*'' else tc_col col) @ '')''
                         else tc_col col)\<rparr>))"

text \<open>\<open>SELECT *\<close>.\<close>

definition star_expr :: "col_meta \<Rightarrow> select_expr" where
  "star_expr c = \<lparr>is_aggregate = False, agg_func_of = AGG_COUNT, count_star = False, expr_col = \<lparr>tc_tab = cm_tab c, tc_col = cm_name c\<rparr>, output_name = cm_name c\<rparr>"

text \<open>The type of an expression, as in \<open>expr_type\<close> of the \<open>HAVING\<close> clause and in the loop that lays out the output columns.\<close>

definition expr_type_of :: "col_meta list \<Rightarrow> select_expr \<Rightarrow> (col_type \<times> nat) outcome" where
  "expr_type_of all_cols e =
     (if is_aggregate e \<and> agg_func_of e = AGG_COUNT then Ret (TYPE_INT, 4)
      else if is_aggregate e \<and> agg_func_of e = AGG_AVG then Ret (TYPE_FLOAT, 4)
      else othen (get_col all_cols (expr_col e)) (\<lambda>meta. Ret (cm_type meta, cm_len meta)))"

fun output_cols_of :: "string \<Rightarrow> col_meta list \<Rightarrow> select_expr list \<Rightarrow> nat \<Rightarrow> col_meta list outcome" where
  "output_cols_of tab all_cols [] off = Ret []"
| "output_cols_of tab all_cols (e # es) off =
     othen (expr_type_of all_cols e) (\<lambda>(type, len).
     othen (output_cols_of tab all_cols es (off + len)) (\<lambda>cs.
       Ret (\<lparr>cm_tab = tab, cm_name = output_name e, cm_type = type, cm_len = len, cm_offset = off\<rparr> # cs)))"

definition in_group :: "tab_col list \<Rightarrow> select_expr \<Rightarrow> bool" where
  "in_group gs e \<longleftrightarrow> is_aggregate e \<or> expr_col e \<in> set gs"

definition contains_aggregate :: "sv_cond \<Rightarrow> bool" where
  "contains_aggregate c \<longleftrightarrow> sc_is_aggregate (sv_lhs c) \<or> (case sv_rhs c of SvCol rhs \<Rightarrow> sc_is_aggregate rhs | SvValue v \<Rightarrow> False)"

definition make_having :: "fp_ops \<Rightarrow> col_meta list \<Rightarrow> (string \<rightharpoonup> string) \<Rightarrow> tab_col list \<Rightarrow> sv_cond \<Rightarrow> having_condition outcome" where
  "make_having fp all_cols al gs sv =
     othen (make_select_expr all_cols al (sv_lhs sv)) (\<lambda>lhs.
     if \<not> in_group gs lhs then Throw (RMDBError ''HAVING column must appear in GROUP BY'')
     else othen (expr_type_of all_cols lhs) (\<lambda>(type, len).
       case sv_rhs sv of
         SvValue v \<Rightarrow>
           othen (convert_sv_value v) (\<lambda>val0. let val = coerce fp type val0 in
             if v_type val \<noteq> type then Throw (IncompatibleTypeError (coltype2str type) (coltype2str (v_type val)))
             else othen (init_raw len val) (\<lambda>val'.
               Ret \<lparr>having_lhs = lhs, having_op = convert_sv_comp_op (sv_op sv), having_is_rhs_val = True, having_rhs = val', having_rhs_expr = lhs\<rparr>))
       | SvCol c \<Rightarrow>
           othen (make_select_expr all_cols al c) (\<lambda>rhs.
             if \<not> in_group gs rhs then Throw (RMDBError ''HAVING column must appear in GROUP BY'')
             else othen (expr_type_of all_cols rhs) (\<lambda>(rtype, rlen).
               if rtype \<noteq> type then Throw (IncompatibleTypeError (coltype2str type) (coltype2str rtype))
               else Ret \<lparr>having_lhs = lhs, having_op = convert_sv_comp_op (sv_op sv), having_is_rhs_val = False, having_rhs = no_value, having_rhs_expr = rhs\<rparr>))))"

definition make_order :: "col_meta list \<Rightarrow> (string \<rightharpoonup> string) \<Rightarrow> select_expr list \<Rightarrow> sv_col \<times> bool \<Rightarrow> (select_expr \<times> bool) outcome" where
  "make_order all_cols al exprs ord =
     (case ord of (c, desc) \<Rightarrow>
        case find (\<lambda>e. \<not> sc_is_aggregate c \<and> sc_tab c = [] \<and> output_name e = sc_col c) exprs of
          Some e \<Rightarrow> Ret (e, desc)
        | None \<Rightarrow> othen (make_select_expr all_cols al c) (\<lambda>e. Ret (e, desc)))"

subsection \<open>SELECT\<close>

text \<open>What the \<open>FROM\<close> clause gives: the tables with their real names and aliases, all columns, and the branches of a derived union.\<close>

record from_info =
  fi_tables :: "string list"
  fi_real :: "string \<rightharpoonup> string"
  fi_alias :: "string \<rightharpoonup> string"
  fi_cols :: "col_meta list"
  fi_union :: bool
  fi_union_alias :: string
  fi_branches :: "query list"

fun bind_tables :: "catalog \<Rightarrow> (string \<times> string) list \<Rightarrow> string list \<Rightarrow> (string \<rightharpoonup> string) \<Rightarrow> (string list \<times> (string \<rightharpoonup> string)) outcome" where
  "bind_tables C [] seen real = Ret (seen, real)"
| "bind_tables C ((tab, al) # refs) seen real =
     othen (check_table_exists C tab) (\<lambda>_.
       let visible = visible_name tab al in
       if visible \<in> set seen then Throw (RMDBError (''Duplicate table alias: '' @ visible))
       else bind_tables C refs (seen @ [visible]) (real(visible \<mapsto> tab)))"

definition table_names :: "table_ref list \<Rightarrow> (string \<times> string) list" where
  "table_names refs = concat (map (\<lambda>r. case r of TableRef tab al \<Rightarrow> [(tab, al)] | DerivedUnion branches al \<Rightarrow> []) refs)"

definition analyze_tables :: "catalog \<Rightarrow> table_ref list \<Rightarrow> from_info outcome" where
  "analyze_tables C refs =
     othen (bind_tables C (table_names refs) [] Map.empty) (\<lambda>(tables, real).
     othen (get_all_cols C tables real) (\<lambda>all_cols.
       Ret \<lparr>fi_tables = tables, fi_real = real, fi_alias = map_of (map (\<lambda>t. (t, t)) tables), fi_cols = all_cols, fi_union = False, fi_union_alias = [], fi_branches = []\<rparr>))"

definition union_from :: "query list \<Rightarrow> string \<Rightarrow> from_info outcome" where
  "union_from branches al =
     othen (make_union_schema (map q_output_cols branches) al) (\<lambda>all_cols.
       Ret \<lparr>fi_tables = [], fi_real = [al \<mapsto> al], fi_alias = [al \<mapsto> al], fi_cols = all_cols, fi_union = True, fi_union_alias = al, fi_branches = branches\<rparr>)"

text \<open>The rest of the analysis, after the \<open>FROM\<close> clause.\<close>

definition analyze_select :: "fp_ops \<Rightarrow> catalog \<Rightarrow> select_stmt \<Rightarrow> from_info \<Rightarrow> query outcome" where
  "analyze_select fp C st fi =
     (let all_cols = fi_cols fi; al = fi_alias fi in
      othen (if st_cols st = [] then Ret (map star_expr all_cols) else omap (make_select_expr all_cols al) (st_cols st)) (\<lambda>exprs.
      othen (output_cols_of (if fi_union fi then fi_union_alias fi else []) all_cols exprs 0) (\<lambda>output.
      othen (omap (\<lambda>c. check_column all_cols (sv_target c) al) (st_group st)) (\<lambda>gs.
      let aggr = (list_ex is_aggregate exprs \<or> gs \<noteq> [] \<or> st_having st \<noteq> []) in
      if aggr \<and> \<not> list_all (in_group gs) exprs then Throw (RMDBError ''Non-aggregate SELECT column must appear in GROUP BY'')
      else if list_ex contains_aggregate (st_where st) then Throw (RMDBError ''Aggregate functions are not allowed in WHERE'')
      else if list_ex contains_aggregate (st_join st) then Throw (RMDBError ''Aggregate functions are not allowed in JOIN conditions'')
      else othen (get_clause (st_where st)) (\<lambda>where0.
      othen (check_clause fp C (fi_tables fi) where0 al (fi_real fi)) (\<lambda>where_conds.
      othen (get_clause (st_join st)) (\<lambda>join0.
      othen (check_clause fp C (fi_tables fi) join0 al (fi_real fi)) (\<lambda>join_conds.
      othen (omap (make_having fp all_cols al gs) (st_having st)) (\<lambda>havings.
      othen (omap (make_order all_cols al exprs) (st_orders st)) (\<lambda>orders.
      if st_limit st < - 1 then Throw (RMDBError ''LIMIT must be non-negative'')
      else Ret (Query (fi_tables fi) (fi_real fi) where_conds join_conds (map expr_col (filter (\<lambda>e. \<not> is_aggregate e) exprs)) exprs gs havings orders aggr
                  (st_limit st) (fi_union fi) (fi_branches fi) output)))))))))))"

function (sequential) do_analyze :: "fp_ops \<Rightarrow> catalog \<Rightarrow> select_stmt \<Rightarrow> query outcome" where
  "do_analyze fp C (SelectStmt cs [DerivedUnion branches al] wh jn gr hv ord lim) =
     (if cs \<noteq> [] then Throw (RMDBError ''UNION derived table currently supports outer SELECT * only'')
      else if wh \<noteq> [] \<or> jn \<noteq> [] \<or> gr \<noteq> [] \<or> hv \<noteq> [] then Throw (RMDBError ''Unsupported clause on UNION derived table'')
      else othen (omap (do_analyze fp C) branches) (\<lambda>qs.
           othen (union_from qs al) (analyze_select fp C (SelectStmt cs [DerivedUnion branches al] wh jn gr hv ord lim))))"
| "do_analyze fp C (SelectStmt cs refs wh jn gr hv ord lim) =
     (if list_ex is_derived_union refs then Throw (RMDBError ''UNION derived table must be the only FROM source'')
      else othen (analyze_tables C refs) (analyze_select fp C (SelectStmt cs refs wh jn gr hv ord lim)))"
  by pat_completeness auto
termination
  by (relation "measure (\<lambda>(fp, C, st). size st)") (auto simp: less_Suc_eq_le intro!: le_SucI size_list_estimation' [where f = size])

end
