(* ===== verification/Rmdb_Planner.thy ===== *)
theory Rmdb_Planner
  imports Rmdb_Analyze
begin

text \<open>
  The planner, \<^verbatim>\<open>src/src/optimizer/planner.cpp\<close>: constants are carried over equality joins, every table gets a scan with the conditions on it, the tables are joined in the order
  of the \<open>FROM\<close> clause, and aggregation, sort and projection are put on top. \<open>qplan\<close> has the plan nodes of \<^verbatim>\<open>plan.h\<close> for queries; \<open>seq_plan\<close> are those without an index,
  whose executors \<^verbatim>\<open>Rmdb_Exec\<close> models. \<open>make_one_rel\<close> and its helpers are not called by the program and not modelled.
\<close>

datatype qplan =
    QScan string string "condition list"
  | QIndexScan string string "condition list" "string list" bool
  | QJoin qplan qplan "condition list"
  | QIndexJoin qplan string string "condition list" "condition list" tab_col tab_col
  | QProjection qplan "tab_col list"
  | QSort qplan "tab_col list" "bool list" int
  | QUnion "qplan list" "col_meta list"
  | QAggregate qplan "select_expr list" "tab_col list" "having_condition list"

fun seq_plan :: "qplan \<Rightarrow> plan option" where
  "seq_plan (QScan t real conds) = Some (ScanPlan t real conds)"
| "seq_plan (QIndexScan t real conds index skip) = None"
| "seq_plan (QJoin l r conds) = Option.bind (seq_plan l) (\<lambda>p. map_option (\<lambda>q. JoinPlan p q conds) (seq_plan r))"
| "seq_plan (QIndexJoin l t real rconds jconds outer inner) = None"
| "seq_plan (QProjection p sels) = map_option (\<lambda>p. ProjectionPlan p sels) (seq_plan p)"
| "seq_plan (QSort p sels desc limit) = map_option (\<lambda>p. SortPlan p sels desc limit) (seq_plan p)"
| "seq_plan (QUnion ps out) = map_option (\<lambda>ps. UnionPlan ps out) (those (map seq_plan ps))"
| "seq_plan (QAggregate p exprs gs havings) = map_option (\<lambda>p. AggregatePlan p exprs gs havings) (seq_plan p)"

subsection \<open>Constants over equality joins\<close>

type_synonym filters = "string \<Rightarrow> condition list"

definition column_meta :: "catalog \<Rightarrow> (string \<rightharpoonup> string) \<Rightarrow> tab_col \<Rightarrow> col_meta option outcome" where
  "column_meta C real column = othen (get_table C (lookup_name real (tc_tab column))) (\<lambda>tab. Ret (find (\<lambda>m. cm_name m = tc_col column) (tm_cols tab)))"

definition find_constant :: "filters \<Rightarrow> tab_col \<Rightarrow> condition option" where
  "find_constant filters column = find (\<lambda>c. is_rhs_val c \<and> cond_op c = OP_EQ \<and> tc_col (lhs_col c) = tc_col column) (filters (tc_tab column))"

definition derive_constant :: "catalog \<Rightarrow> (string \<rightharpoonup> string) \<Rightarrow> tab_col \<Rightarrow> tab_col \<Rightarrow> condition \<Rightarrow> filters \<Rightarrow> (filters \<times> bool) outcome" where
  "derive_constant C real source target constant filters =
     othen (column_meta C real source) (\<lambda>source_meta.
     othen (column_meta C real target) (\<lambda>target_meta.
       case (source_meta, target_meta) of
         (Some s, Some t) \<Rightarrow>
           if cm_type s \<noteq> cm_type t \<or> cm_len s \<noteq> cm_len t then Ret (filters, False)
           else Ret (filters(tc_tab target := filters (tc_tab target) @ [constant\<lparr>lhs_col := target\<rparr>]), True)
       | _ \<Rightarrow> Ret (filters, False)))"

definition propagate_join :: "catalog \<Rightarrow> (string \<rightharpoonup> string) \<Rightarrow> condition \<Rightarrow> filters \<Rightarrow> (filters \<times> bool) outcome" where
  "propagate_join C real join filters =
     (if is_rhs_val join \<or> cond_op join \<noteq> OP_EQ then Ret (filters, False)
      else case (find_constant filters (lhs_col join), find_constant filters (rhs_col join)) of
          (Some c, None) \<Rightarrow> derive_constant C real (lhs_col join) (rhs_col join) c filters
        | (None, Some c) \<Rightarrow> derive_constant C real (rhs_col join) (lhs_col join) c filters
        | _ \<Rightarrow> Ret (filters, False))"

fun propagate_pass :: "catalog \<Rightarrow> (string \<rightharpoonup> string) \<Rightarrow> condition list \<Rightarrow> filters \<Rightarrow> bool \<Rightarrow> (filters \<times> bool) outcome" where
  "propagate_pass C real [] filters changed = Ret (filters, changed)"
| "propagate_pass C real (join # joins) filters changed =
     othen (propagate_join C real join filters) (\<lambda>(filters', ch). propagate_pass C real joins filters' (changed \<or> ch))"

partial_function (option) PropagateEqualityConstants :: "catalog \<Rightarrow> (string \<rightharpoonup> string) \<Rightarrow> condition list \<Rightarrow> filters \<Rightarrow> filters comp" where
  "PropagateEqualityConstants C real joins filters =
     cthen (Some (propagate_pass C real joins filters False)) (\<lambda>(filters', changed).
       if changed then PropagateEqualityConstants C real joins filters' else ret filters')"

subsection \<open>Choice of an index\<close>

definition on_column :: "string \<Rightarrow> col_meta \<Rightarrow> condition \<Rightarrow> bool" where
  "on_column tab index_col c \<longleftrightarrow> is_rhs_val c \<and> tc_tab (lhs_col c) = tab \<and> tc_col (lhs_col c) = cm_name index_col"

definition has_eq :: "string \<Rightarrow> condition list \<Rightarrow> col_meta \<Rightarrow> bool" where
  "has_eq tab conds index_col = list_ex (\<lambda>c. on_column tab index_col c \<and> cond_op c = OP_EQ) conds"

definition has_range :: "string \<Rightarrow> condition list \<Rightarrow> col_meta \<Rightarrow> bool" where
  "has_range tab conds index_col = list_ex (\<lambda>c. on_column tab index_col c \<and> cond_op c \<in> {OP_LT, OP_LE, OP_GT, OP_GE}) conds"

text \<open>The number of leading columns with a condition, the number of those with an equality, and whether the last one has a range.\<close>

fun index_match :: "string \<Rightarrow> condition list \<Rightarrow> col_meta list \<Rightarrow> nat \<times> nat \<times> bool" where
  "index_match tab conds [] = (0, 0, False)"
| "index_match tab conds (c # cs) =
     (if has_eq tab conds c then (case index_match tab conds cs of (matched, eqs, rng) \<Rightarrow> (Suc matched, Suc eqs, rng))
      else if has_range tab conds c then (1, 0, True) else (0, 0, False))"

fun best_index :: "string \<Rightarrow> condition list \<Rightarrow> index_meta list \<Rightarrow> index_meta option \<times> nat \<times> nat \<times> bool \<Rightarrow> index_meta option" where
  "best_index tab conds [] (best, bm, be, br) = best"
| "best_index tab conds (index # indexes) (best, bm, be, br) =
     (case index_match tab conds (im_cols index) of (matched, eqs, rng) \<Rightarrow>
        if matched > bm \<or> matched = bm \<and> eqs > be \<or> matched = bm \<and> eqs = be \<and> rng \<and> \<not> br
        then best_index tab conds indexes (Some index, matched, eqs, rng)
        else best_index tab conds indexes (best, bm, be, br))"

definition get_index_cols :: "tab_meta \<Rightarrow> condition list \<Rightarrow> string \<Rightarrow> string list option" where
  "get_index_cols tab conds visible = map_option (\<lambda>index. map cm_name (im_cols index)) (best_index visible conds (tm_indexes tab) (None, 0, 0, False))"

fun best_skip_index :: "string \<Rightarrow> condition list \<Rightarrow> index_meta list \<Rightarrow> index_meta option \<times> nat \<times> nat \<Rightarrow> index_meta option" where
  "best_skip_index tab conds [] (best, bs, be) = (if bs = 0 then None else best)"
| "best_skip_index tab conds (index # indexes) (best, bs, be) =
     (if length (im_cols index) < 2 \<or> has_eq tab conds (hd (im_cols index)) \<or> has_range tab conds (hd (im_cols index))
      then best_skip_index tab conds indexes (best, bs, be)
      else case index_match tab conds (tl (im_cols index)) of (suffix, eqs, _) \<Rightarrow>
        if suffix > bs \<or> suffix = bs \<and> eqs > be then best_skip_index tab conds indexes (Some index, suffix, eqs)
        else best_skip_index tab conds indexes (best, bs, be))"

definition get_skip_scan_index_cols :: "tab_meta \<Rightarrow> condition list \<Rightarrow> string \<Rightarrow> string list option" where
  "get_skip_scan_index_cols tab conds visible = map_option (\<lambda>index. map cm_name (im_cols index)) (best_skip_index visible conds (tm_indexes tab) (None, 0, 0))"

definition is_index :: "tab_meta \<Rightarrow> string list \<Rightarrow> bool" where
  "is_index tab names = list_ex (\<lambda>index. map cm_name (im_cols index) = names) (tm_indexes tab)"

definition is_unique_point_predicate :: "tab_meta \<Rightarrow> string \<Rightarrow> condition list \<Rightarrow> bool" where
  "is_unique_point_predicate tab tab_name conds =
     list_ex (\<lambda>index. im_cols index \<noteq> [] \<and> list_all (\<lambda>col. list_ex (\<lambda>c. (tc_tab (lhs_col c) = [] \<or> tc_tab (lhs_col c) = tab_name)
        \<and> is_rhs_val c \<and> cond_op c = OP_EQ \<and> tc_col (lhs_col c) = cm_name col) conds) (im_cols index)) (tm_indexes tab)"

text \<open>The scan of an \<open>UPDATE\<close> or \<open>DELETE\<close>.\<close>

definition plan_dml_scan :: "catalog \<Rightarrow> string \<Rightarrow> condition list \<Rightarrow> (qplan \<times> bool) outcome" where
  "plan_dml_scan C tab_name conds =
     othen (get_table C tab_name) (\<lambda>tab.
       Ret (case get_index_cols tab conds tab_name of None \<Rightarrow> QScan tab_name [] conds | Some index \<Rightarrow> QIndexScan tab_name [] conds index False,
            is_unique_point_predicate tab tab_name conds))"

subsection \<open>Joins\<close>

fun split_where :: "condition list \<Rightarrow> filters \<Rightarrow> condition list \<Rightarrow> filters \<times> condition list" where
  "split_where [] filters joins = (filters, joins)"
| "split_where (c # cs) filters joins =
     (if is_rhs_val c \<or> tc_tab (rhs_col c) = tc_tab (lhs_col c)
      then split_where cs (filters(tc_tab (lhs_col c) := filters (tc_tab (lhs_col c)) @ [c])) joins
      else split_where cs filters (joins @ [c]))"

definition scalar_aggregate :: "query \<Rightarrow> bool" where
  "scalar_aggregate q \<longleftrightarrow> length (q_tables q) = 1 \<and> q_has_aggregation q \<and> q_group_cols q = [] \<and> list_all is_aggregate (q_select_exprs q)"

text \<open>\<open>skip\<close> is the value of \<open>RMDB_ENABLE_INDEX_SKIP_SCAN\<close>. Index scans are never disabled: \<open>DisableMvccUnsafeIndexScan\<close> is the conjunction of a condition and its negation.\<close>

definition make_scan :: "catalog \<Rightarrow> bool \<Rightarrow> query \<Rightarrow> filters \<Rightarrow> string \<Rightarrow> qplan outcome" where
  "make_scan C skip q filters t =
     (let real = lookup_name (q_real_names q) t in
      othen (get_table C real) (\<lambda>tab.
        Ret (case get_index_cols tab (filters t) t of
            Some index \<Rightarrow> QIndexScan t real (filters t) index False
          | None \<Rightarrow> (case (if scalar_aggregate q \<and> skip then get_skip_scan_index_cols tab (filters t) t else None) of
                Some index \<Rightarrow> QIndexScan t real (filters t) index True
              | None \<Rightarrow> QScan t real (filters t)))))"

definition connects :: "string list \<Rightarrow> string \<Rightarrow> condition \<Rightarrow> bool" where
  "connects joined right c \<longleftrightarrow> \<not> is_rhs_val c
     \<and> (tc_tab (lhs_col c) = right \<and> tc_tab (rhs_col c) \<in> set joined \<or> tc_tab (rhs_col c) = right \<and> tc_tab (lhs_col c) \<in> set joined)"

text \<open>The first equality that an index on one column of the right table serves: outer key, inner key.\<close>

fun find_index_join :: "tab_meta \<Rightarrow> string list \<Rightarrow> string \<Rightarrow> condition list \<Rightarrow> (tab_col \<times> tab_col) option" where
  "find_index_join tab joined right [] = None"
| "find_index_join tab joined right (c # cs) =
     (if cond_op c \<noteq> OP_EQ \<or> is_rhs_val c then find_index_join tab joined right cs
      else if tc_tab (lhs_col c) = right \<and> tc_tab (rhs_col c) \<in> set joined \<and> is_index tab [tc_col (lhs_col c)] then Some (rhs_col c, lhs_col c)
      else if tc_tab (rhs_col c) = right \<and> tc_tab (lhs_col c) \<in> set joined \<and> is_index tab [tc_col (rhs_col c)] then Some (lhs_col c, rhs_col c)
      else find_index_join tab joined right cs)"

fun join_tables :: "catalog \<Rightarrow> bool \<Rightarrow> query \<Rightarrow> filters \<Rightarrow> condition list \<Rightarrow> string list \<Rightarrow> string list \<Rightarrow> qplan \<Rightarrow> qplan outcome" where
  "join_tables C skip q filters joins joined [] root = Ret root"
| "join_tables C skip q filters joins joined (right # tables) root =
     (let level_conds = filter (connects joined right) joins; real = lookup_name (q_real_names q) right in
      othen (get_table C real) (\<lambda>tab.
      othen (case find_index_join tab joined right level_conds of
               Some (outer, inner) \<Rightarrow> Ret (QIndexJoin root right real (filters right) level_conds outer inner)
             | None \<Rightarrow> othen (make_scan C skip q filters right) (\<lambda>scan. Ret (QJoin root scan level_conds))) (\<lambda>root'.
        join_tables C skip q filters joins (joined @ [right]) tables root')))"

definition make_left_deep_join_plan :: "catalog \<Rightarrow> bool \<Rightarrow> query \<Rightarrow> qplan comp" where
  "make_left_deep_join_plan C skip q =
     (case q_tables q of
        [] \<Rightarrow> Some (Throw (RMDBError ''SELECT requires at least one table''))
      | first # tables \<Rightarrow>
          (case split_where (q_where_conds q) (\<lambda>_. []) (q_join_conds q) of (filters0, joins) \<Rightarrow>
             cthen (PropagateEqualityConstants C (q_real_names q) joins filters0) (\<lambda>filters.
               Some (othen (make_scan C skip q filters first) (join_tables C skip q filters joins [first] tables)))))"

subsection \<open>Sort, aggregation, projection\<close>

definition same_expr :: "select_expr \<Rightarrow> select_expr \<Rightarrow> bool" where
  "same_expr a b \<longleftrightarrow> output_name a = output_name b
     \<or> is_aggregate a = is_aggregate b \<and> agg_func_of a = agg_func_of b \<and> count_star a = count_star b \<and> expr_col a = expr_col b"

definition sort_col :: "query \<Rightarrow> select_expr \<times> bool \<Rightarrow> tab_col outcome" where
  "sort_col q ord =
     (if q_has_aggregation q then
        (case find (\<lambda>e. same_expr e (fst ord)) (q_select_exprs q) of
           None \<Rightarrow> Throw (RMDBError ''ORDER BY expression must appear in aggregate SELECT list'')
         | Some e \<Rightarrow> Ret \<lparr>tc_tab = [], tc_col = output_name e\<rparr>)
      else Ret (expr_col (fst ord)))"

definition generate_sort_plan :: "query \<Rightarrow> qplan \<Rightarrow> qplan outcome" where
  "generate_sort_plan q p =
     (if q_order_specs q = [] \<and> q_limit q < 0 then Ret p
      else othen (omap (sort_col q) (q_order_specs q)) (\<lambda>sort_cols. Ret (QSort p sort_cols (map snd (q_order_specs q)) (q_limit q))))"

definition finish_plan :: "query \<Rightarrow> qplan \<Rightarrow> qplan outcome" where
  "finish_plan q p =
     (if q_has_aggregation q then generate_sort_plan q (QAggregate p (q_select_exprs q) (q_group_cols q) (q_having_conds q))
      else othen (generate_sort_plan q p) (\<lambda>p'. Ret (QProjection p' (q_cols q))))"

fun cmap :: "('a \<Rightarrow> 'b comp) \<Rightarrow> 'a list \<Rightarrow> 'b list comp" where
  "cmap f [] = ret []"
| "cmap f (x # xs) = cthen (f x) (\<lambda>y. cthen (cmap f xs) (\<lambda>ys. ret (y # ys)))"

lemma cmap_cong [fundef_cong]: "xs = ys \<Longrightarrow> (\<And>x. x \<in> set ys \<Longrightarrow> f x = g x) \<Longrightarrow> cmap f xs = cmap g ys"
  by (induction ys arbitrary: xs) simp_all

lemma query_branch_size: "b \<in> set (q_union_branches q) \<Longrightarrow> size b < size q"
  by (cases q) (auto simp: less_Suc_eq_le intro!: trans_le_add2 size_list_estimation' [where f = size])

function generate_select_plan :: "catalog \<Rightarrow> bool \<Rightarrow> query \<Rightarrow> qplan comp" where
  "generate_select_plan C skip q =
     cthen (if q_has_union_source q then cthen (cmap (generate_select_plan C skip) (q_union_branches q)) (\<lambda>ps. ret (QUnion ps (q_output_cols q)))
            else make_left_deep_join_plan C skip q) (\<lambda>p. Some (finish_plan q p))"
  by pat_completeness auto
termination
  by (relation "measure (\<lambda>(C, skip, q). size q)") (auto simp: query_branch_size)

declare generate_select_plan.simps [simp del]

end
