(* ===== verification/Rmdb_Analyze_Props.thy ===== *)
theory Rmdb_Analyze_Props
  imports Rmdb_Planner Rmdb_Exec_Spec
begin

text \<open>
  What the analysis guarantees. \<open>col_meta_at\<close> is the column a resolved name stands for, \<open>names_col\<close> says that a name is resolved against the tables of the query. An accepted
  condition compares a column with a constant that was encoded for it, or with a column of the same type (\<open>cond_checked\<close>); accepted expressions and \<open>HAVING\<close> conditions are
  typed likewise.
\<close>

definition col_meta_at :: "catalog \<Rightarrow> (string \<rightharpoonup> string) \<Rightarrow> tab_col \<Rightarrow> col_meta option" where
  "col_meta_at C real x = (case C (lookup_name real (tc_tab x)) of None \<Rightarrow> None | Some tab \<Rightarrow> find (\<lambda>m. cm_name m = tc_col x) (tm_cols tab))"

definition names_col :: "catalog \<Rightarrow> (string \<rightharpoonup> string) \<Rightarrow> string list \<Rightarrow> tab_col \<Rightarrow> bool" where
  "names_col C real tables x \<longleftrightarrow> tc_tab x \<in> set tables \<and> col_meta_at C real x \<noteq> None"

definition meta_of :: "catalog \<Rightarrow> (string \<rightharpoonup> string) \<Rightarrow> tab_col \<Rightarrow> col_meta" where
  "meta_of C real x = the (col_meta_at C real x)"

text \<open>A schema whose columns are those of the tables, at whatever offsets.\<close>

definition covers :: "catalog \<Rightarrow> (string \<rightharpoonup> string) \<Rightarrow> string list \<Rightarrow> col_meta list \<Rightarrow> bool" where
  "covers C real tables cs \<longleftrightarrow> (\<forall>x. has_col cs x \<longleftrightarrow> names_col C real tables x)
     \<and> (\<forall>x. has_col cs x \<longrightarrow> cm_type (col_of cs x) = cm_type (meta_of C real x) \<and> cm_len (col_of cs x) = cm_len (meta_of C real x))"

definition cond_checked :: "catalog \<Rightarrow> (string \<rightharpoonup> string) \<Rightarrow> string list \<Rightarrow> condition \<Rightarrow> bool" where
  "cond_checked C real tables c \<longleftrightarrow> names_col C real tables (lhs_col c)
     \<and> (if is_rhs_val c then (\<exists>raw. v_raw (rhs_val c) = Some raw \<and> length raw = cm_len (meta_of C real (lhs_col c)))
        else names_col C real tables (rhs_col c) \<and> cm_type (meta_of C real (rhs_col c)) = cm_type (meta_of C real (lhs_col c)))"

subsection \<open>Schemas\<close>

lemma find_pos_append: "find_pos P (xs @ ys) = (case find_pos P xs of Some i \<Rightarrow> Some i | None \<Rightarrow> map_option (\<lambda>i. length xs + i) (find_pos P ys))"
  by (induction xs) (cases "find_pos P ys"; auto split: option.splits)+

lemma find_pos_map: "find_pos P (map f xs) = find_pos (P \<circ> f) xs"
  by (induction xs) simp_all

lemma find_find_pos: "find P xs = map_option (\<lambda>i. xs ! i) (find_pos P xs)"
  by (induction xs) (auto simp: option.map_comp comp_def)

lemma has_col_append: "has_col (cs @ ds) x \<longleftrightarrow> has_col cs x \<or> has_col ds x"
  by (auto simp: has_col_def find_pos_append split: option.splits)

lemma col_of_append: "col_of (cs @ ds) x = (if has_col cs x then col_of cs x else if has_col ds x then col_of ds x else col_of (cs @ ds) x)"
proof -
  have "i < length cs" if "find_pos (col_is x) cs = Some i" for i using find_pos_Some [OF that] by simp
  then show ?thesis by (auto simp: has_col_def col_of_def find_pos_append nth_append split: option.splits)
qed

lemma col_is_shift [simp]: "col_is x (c\<lparr>cm_offset := n\<rparr>) = col_is x c"
  by (simp add: col_is_def)

lemma has_col_shift [simp]: "has_col (shift n cs) x = has_col cs x"
  by (simp add: has_col_def shift_def find_pos_map comp_def)

lemma col_of_shift: "has_col cs x \<Longrightarrow> col_of (shift n cs) x = (col_of cs x)\<lparr>cm_offset := cm_offset (col_of cs x) + n\<rparr>"
  using find_pos_Some [of "col_is x" cs] by (auto simp: has_col_def col_of_def shift_def find_pos_map comp_def)

lemma find_pos_False [simp]: "find_pos (\<lambda>_. False) xs = None"
  by (induction xs) simp_all

lemma scan_cols_pos: "find_pos (col_is x) (scan_cols tab t) = (if tc_tab x = t then find_pos (\<lambda>m. cm_name m = tc_col x) (tm_cols tab) else None)"
  by (auto simp: scan_cols_def find_pos_map comp_def col_is_def)

lemma scan_cols_covers:
  assumes "C (lookup_name real t) = Some tab"
  shows "covers C real [t] (scan_cols tab t)"
proof -
  have m: "col_meta_at C real x = map_option (\<lambda>i. tm_cols tab ! i) (find_pos (\<lambda>m. cm_name m = tc_col x) (tm_cols tab))" if "tc_tab x = t" for x
    using assms that by (simp add: col_meta_at_def find_find_pos)
  have h: "has_col (scan_cols tab t) x \<longleftrightarrow> names_col C real [t] x" for x
    using m [of x] by (auto simp: has_col_def scan_cols_pos names_col_def)
  have "cm_type (col_of (scan_cols tab t) x) = cm_type (meta_of C real x) \<and> cm_len (col_of (scan_cols tab t) x) = cm_len (meta_of C real x)" if c: "has_col (scan_cols tab t) x" for x
  proof -
    have t: "tc_tab x = t" using c by (auto simp: has_col_def scan_cols_pos split: if_splits)
    obtain i where i: "find_pos (\<lambda>m. cm_name m = tc_col x) (tm_cols tab) = Some i" "i < length (tm_cols tab)" using c t find_pos_Some by (fastforce simp: has_col_def scan_cols_pos)
    have "meta_of C real x = tm_cols tab ! i" "col_of (scan_cols tab t) x = (tm_cols tab ! i)\<lparr>cm_tab := t\<rparr>"
      using m [OF t] i t by (simp_all add: meta_of_def col_of_def scan_cols_pos) (simp add: scan_cols_def)
    then show ?thesis by simp
  qed
  then show ?thesis using h by (auto simp: covers_def)
qed

lemma covers_append:
  assumes "covers C real ts cs" "covers C real us ds"
  shows "covers C real (ts @ us) (cs @ shift n ds)"
proof -
  have "has_col (cs @ shift n ds) x \<longleftrightarrow> names_col C real (ts @ us) x" for x using assms by (auto simp: has_col_append covers_def names_col_def)
  moreover have "cm_type (col_of (cs @ shift n ds) x) = cm_type (meta_of C real x) \<and> cm_len (col_of (cs @ shift n ds) x) = cm_len (meta_of C real x)" if "has_col (cs @ shift n ds) x" for x
    using that assms col_of_append [of cs "shift n ds" x] by (cases "has_col cs x") (auto simp: has_col_append covers_def col_of_shift)
  ultimately show ?thesis by (simp add: covers_def)
qed

lemma covers_typed:
  assumes "covers C real ts cs" "cond_checked C real ts c" "\<not> is_rhs_val c \<longrightarrow> cm_len (meta_of C real (lhs_col c)) \<le> cm_len (meta_of C real (rhs_col c))"
  shows "cond_typed cs c"
  using assms by (auto simp: covers_def cond_checked_def cond_typed_def value_typed_def)

lemma names_col_mono: "names_col C real ts x \<Longrightarrow> set ts \<subseteq> set us \<Longrightarrow> names_col C real us x"
  by (auto simp: names_col_def)

subsection \<open>Names\<close>

lemma get_all_cols_covers: "get_all_cols C ts real = Ret cs \<Longrightarrow> covers C real ts cs \<and> (\<forall>t \<in> set ts. C (lookup_name real t) \<noteq> None)"
proof (induction ts arbitrary: cs)
  case Nil
  then show ?case by (simp add: get_all_cols_def covers_def has_col_def names_col_def)
next
  case (Cons t ts)
  obtain tab ds where d: "C (lookup_name real t) = Some tab" "get_all_cols C ts real = Ret ds" "cs = scan_cols tab t @ ds"
    using Cons.prems by (auto simp: get_all_cols_def othen_Ret_iff get_table_def split: option.splits)
  have "shift 0 ds = ds" by (simp add: shift_def)
  then show ?case using Cons.IH [OF d(2)] covers_append [OF scan_cols_covers [where C = C and real = real and t = t and tab = tab, OF d(1)], of ts ds 0] d by simp
qed

lemma find_pos_ex: "find_pos P xs \<noteq> None \<longleftrightarrow> (\<exists>x \<in> set xs. P x)"
  by (induction xs) auto

lemma has_col_iff: "has_col cs x \<longleftrightarrow> (\<exists>c \<in> set cs. cm_tab c = tc_tab x \<and> cm_name c = tc_col x)"
  unfolding has_col_def find_pos_ex by (simp add: col_is_def)

lemma infer_table_in: "infer_table cs name t0 = Ret t \<Longrightarrow> t = t0 \<or> (\<exists>c \<in> set cs. cm_tab c = t \<and> cm_name c = name)"
  by (induction cs arbitrary: t0) (auto split: if_splits)

lemma check_column_in: "check_column cs x al = Ret y \<Longrightarrow> has_col cs y"
  using infer_table_in [of cs "tc_col x" "[]"]
  by (auto simp: check_column_def has_col_iff othen_Ret_iff Let_def find_None_iff simp del: not_None_eq split: if_splits)

subsection \<open>Conditions\<close>

lemma init_raw_length: "init_raw len v = Ret v' \<Longrightarrow> \<exists>raw. v_raw v' = Some raw \<and> length raw = len"
  by (auto simp: init_raw_def float_bytes_def split: if_splits col_type.splits)

lemma tab_get_col_meta: "get_table C (lookup_name real (tc_tab x)) = Ret tab \<Longrightarrow> tab_get_col tab (tc_col x) = Ret l \<Longrightarrow> col_meta_at C real x = Some l"
  by (auto simp: get_table_def tab_get_col_def col_meta_at_def split: option.splits)

lemma check_condition_checked:
  assumes cov: "covers C real ts cs" and "check_condition fp C cs al real c = Ret c'"
  shows "cond_checked C real ts c'"
proof -
  obtain lhs rhs tab l where s: "check_column cs (lhs_col c) al = Ret lhs" "(if is_rhs_val c then Ret (rhs_col c) else check_column cs (rhs_col c) al) = Ret rhs"
      "get_table C (lookup_name real (tc_tab lhs)) = Ret tab" "tab_get_col tab (tc_col lhs) = Ret l"
    using assms(2) by (auto simp: check_condition_def othen_Ret_iff)
  have l: "names_col C real ts lhs" "meta_of C real lhs = l" using cov check_column_in [OF s(1)] tab_get_col_meta [OF s(3,4)] by (auto simp: covers_def meta_of_def)
  show ?thesis
  proof (cases "is_rhs_val c")
    case True
    then obtain v where v: "init_raw (cm_len l) (coerce fp (cm_type l) (rhs_val c)) = Ret v" "c' = c\<lparr>lhs_col := lhs, rhs_col := rhs, rhs_val := v\<rparr>"
      using assms(2) s by (auto simp: check_condition_def othen_Ret_iff Let_def split: if_splits)
    then show ?thesis using l init_raw_length [OF v(1)] True by (simp add: cond_checked_def)
  next
    case False
    then obtain rtab r where r: "get_table C (lookup_name real (tc_tab rhs)) = Ret rtab" "tab_get_col rtab (tc_col rhs) = Ret r" "cm_type l = cm_type r" "c' = c\<lparr>lhs_col := lhs, rhs_col := rhs\<rparr>"
      using assms(2) s by (auto simp: check_condition_def othen_Ret_iff Let_def split: if_splits)
    have "names_col C real ts rhs" "meta_of C real rhs = r" using cov check_column_in [of cs "rhs_col c" al rhs] s(2) False tab_get_col_meta [OF r(1,2)] by (auto simp: covers_def meta_of_def)
    then show ?thesis using l r(3,4) False by (simp add: cond_checked_def)
  qed
qed

lemma omap_Ret_all: "omap f xs = Ret ys \<Longrightarrow> y \<in> set ys \<Longrightarrow> \<exists>x \<in> set xs. f x = Ret y"
  by (induction xs arbitrary: ys) (auto simp: othen_Ret_iff)

lemma check_clause_checked:
  assumes "check_clause fp C ts conds al real = Ret conds'"
  shows "\<forall>c \<in> set conds'. cond_checked C real ts c"
proof -
  obtain cs where cs: "get_all_cols C ts real = Ret cs" "omap (check_condition fp C cs al real) conds = Ret conds'" using assms by (auto simp: check_clause_def othen_Ret_iff)
  then show ?thesis using get_all_cols_covers [OF cs(1)] omap_Ret_all [OF cs(2)] check_condition_checked by blast
qed

subsection \<open>Expressions\<close>

text \<open>The parser writes a star only into \<open>COUNT( * )\<close>.\<close>

definition star_ok :: "sv_col \<Rightarrow> bool" where
  "star_ok c \<longleftrightarrow> (sc_count_star c \<longrightarrow> sc_is_aggregate c \<and> sc_agg_func c = AGG_COUNT)"

definition having_star_ok :: "sv_cond \<Rightarrow> bool" where
  "having_star_ok c \<longleftrightarrow> star_ok (sv_lhs c) \<and> (case sv_rhs c of SvCol r \<Rightarrow> star_ok r | SvValue v \<Rightarrow> True)"

fun parsed :: "select_stmt \<Rightarrow> bool" and parsed_ref :: "table_ref \<Rightarrow> bool" where
  "parsed (SelectStmt cs refs wh jn gr hv ord lim) \<longleftrightarrow> (\<forall>c \<in> set cs. star_ok c) \<and> (\<forall>h \<in> set hv. having_star_ok h) \<and> (\<forall>p \<in> set ord. star_ok (fst p)) \<and> (\<forall>r \<in> set refs. parsed_ref r)"
| "parsed_ref (TableRef tab al) \<longleftrightarrow> True"
| "parsed_ref (DerivedUnion bs al) \<longleftrightarrow> (\<forall>b \<in> set bs. parsed b)"

definition expr_named :: "col_meta list \<Rightarrow> select_expr \<Rightarrow> bool" where
  "expr_named cs e \<longleftrightarrow> expr_typed cs e \<and> (count_star e \<or> has_col cs (expr_col e))"

lemma make_select_expr_named: "star_ok sv \<Longrightarrow> make_select_expr cs al sv = Ret e \<Longrightarrow> expr_named cs e"
  using check_column_in [of cs "sv_target sv" al]
  by (auto simp: make_select_expr_def star_ok_def expr_named_def expr_typed_def othen_Ret_iff split: if_splits)

lemma star_expr_named: "c \<in> set cs \<Longrightarrow> expr_named cs (star_expr c)"
  by (auto simp: expr_named_def expr_typed_def star_expr_def has_col_iff)

lemma expr_type_of_typed: "expr_typed cs e \<Longrightarrow> expr_type_of cs e = Ret (expr_type cs e)"
  by (auto simp: expr_type_of_def expr_type_def expr_typed_def)

lemma output_cols_tile:
  assumes "\<forall>e \<in> set es. expr_typed cs e"
  shows "output_cols_of tab cs es off = Ret (tile off (map (\<lambda>e. (expr_meta cs e)\<lparr>cm_tab := tab\<rparr>) es))"
  using assms
proof (induction es arbitrary: off)
  case (Cons e es)
  obtain ty n where t: "expr_type cs e = (ty, n)" by fastforce
  show ?case using Cons.IH [of "off + n"] Cons.prems expr_type_of_typed [of cs e] t by (simp add: expr_meta_def)
qed simp

lemma make_having_typed:
  assumes "having_star_ok sv" "make_having fp cs al gs sv = Ret h" "\<not> having_is_rhs_val h \<longrightarrow> snd (expr_type cs (having_lhs h)) \<le> snd (expr_type cs (having_rhs_expr h))"
  shows "having_typed cs h"
proof -
  have sl: "star_ok (sv_lhs sv)" using assms(1) by (simp add: having_star_ok_def)
  obtain lhs where l: "make_select_expr cs al (sv_lhs sv) = Ret lhs" using assms(2) by (auto simp: make_having_def othen_Ret_iff)
  have tl: "expr_typed cs lhs" using make_select_expr_named [OF sl l] by (simp add: expr_named_def)
  show ?thesis
  proof (cases "sv_rhs sv")
    case (SvValue v)
    then obtain val val' where v: "init_raw (snd (expr_type cs lhs)) val = Ret val'" "having_lhs h = lhs" "having_is_rhs_val h" "having_rhs h = val'"
      using assms(2) l expr_type_of_typed [OF tl] by (auto simp: make_having_def othen_Ret_iff Let_def split: if_splits prod.splits)
    then show ?thesis using init_raw_length [OF v(1)] tl by (auto simp: having_typed_def)
  next
    case (SvCol c)
    obtain rhs where r: "make_select_expr cs al c = Ret rhs" "having_lhs h = lhs" "having_rhs_expr h = rhs" "\<not> having_is_rhs_val h"
        "\<exists>ty n m. expr_type_of cs lhs = Ret (ty, n) \<and> expr_type_of cs rhs = Ret (ty, m)"
      using assms(2) l SvCol by (fastforce simp: make_having_def othen_Ret_iff Let_def split: if_splits prod.splits)
    have "expr_typed cs rhs" using make_select_expr_named [OF _ r(1)] assms(1) SvCol by (simp add: having_star_ok_def expr_named_def)
    then show ?thesis using r assms(3) tl expr_type_of_typed [of cs rhs] expr_type_of_typed [OF tl] by (auto simp: having_typed_def)
  qed
qed

lemma make_order_named:
  assumes "star_ok (fst ord)" "\<forall>e \<in> set es. expr_named cs e" "make_order cs al es ord = Ret p"
  shows "expr_named cs (fst p)"
proof (cases "find (\<lambda>e. \<not> sc_is_aggregate (fst ord) \<and> sc_tab (fst ord) = [] \<and> output_name e = sc_col (fst ord)) es")
  case None
  then show ?thesis using assms make_select_expr_named [of "fst ord" cs al] by (auto simp: make_order_def othen_Ret_iff split: prod.splits)
next
  case (Some e)
  then have "e \<in> set es" by (auto simp: find_Some_iff)
  then show ?thesis using Some assms by (auto simp: make_order_def split: prod.splits)
qed

text \<open>What \<open>analyze_select\<close> leaves in the query, relative to the columns of its \<open>FROM\<close> clause.\<close>

definition body_checked :: "col_meta list \<Rightarrow> string \<Rightarrow> query \<Rightarrow> bool" where
  "body_checked cs tab q \<longleftrightarrow> (\<forall>e \<in> set (q_select_exprs q). expr_named cs e) \<and> (\<forall>g \<in> set (q_group_cols q). has_col cs g)
     \<and> (\<forall>h \<in> set (q_having_conds q). (\<not> having_is_rhs_val h \<longrightarrow> snd (expr_type cs (having_lhs h)) \<le> snd (expr_type cs (having_rhs_expr h))) \<longrightarrow> having_typed cs h)
     \<and> (\<forall>p \<in> set (q_order_specs q). expr_named cs (fst p))
     \<and> q_output_cols q = tile 0 (map (\<lambda>e. (expr_meta cs e)\<lparr>cm_tab := tab\<rparr>) (q_select_exprs q))
     \<and> q_cols q = map expr_col (filter (\<lambda>e. \<not> is_aggregate e) (q_select_exprs q))
     \<and> (q_has_aggregation q \<or> (\<forall>e \<in> set (q_select_exprs q). \<not> is_aggregate e))"

lemma analyze_select_checked:
  assumes p: "\<forall>c \<in> set (st_cols st). star_ok c" "\<forall>h \<in> set (st_having st). having_star_ok h" "\<forall>x \<in> set (st_orders st). star_ok (fst x)"
    and a: "analyze_select fp C st fi = Ret q"
  shows "body_checked (fi_cols fi) (if fi_union fi then fi_union_alias fi else []) q
    \<and> q_tables q = fi_tables fi \<and> q_real_names q = fi_real fi \<and> q_has_union_source q = fi_union fi \<and> q_union_branches q = fi_branches fi
    \<and> (\<forall>c \<in> set (q_where_conds q @ q_join_conds q). cond_checked C (fi_real fi) (fi_tables fi) c)
    \<and> (st_cols st = [] \<longrightarrow> q_select_exprs q = map star_expr (fi_cols fi))
    \<and> (st_cols st = [] \<and> st_group st = [] \<and> st_having st = [] \<longrightarrow> \<not> q_has_aggregation q)"
proof -
  let ?cs = "fi_cols fi" and ?al = "fi_alias fi" and ?tab = "if fi_union fi then fi_union_alias fi else []"
  obtain es out gs w0 wh j0 jn hs os where s:
      "(if st_cols st = [] then Ret (map star_expr ?cs) else omap (make_select_expr ?cs ?al) (st_cols st)) = Ret es" "output_cols_of ?tab ?cs es 0 = Ret out"
      "omap (\<lambda>c. check_column ?cs (sv_target c) ?al) (st_group st) = Ret gs" "check_clause fp C (fi_tables fi) w0 ?al (fi_real fi) = Ret wh"
      "check_clause fp C (fi_tables fi) j0 ?al (fi_real fi) = Ret jn" "omap (make_having fp ?cs ?al gs) (st_having st) = Ret hs" "omap (make_order ?cs ?al es) (st_orders st) = Ret os"
      "q = Query (fi_tables fi) (fi_real fi) wh jn (map expr_col (filter (\<lambda>e. \<not> is_aggregate e) es)) es gs hs os (list_ex is_aggregate es \<or> gs \<noteq> [] \<or> st_having st \<noteq> []) (st_limit st) (fi_union fi) (fi_branches fi) out"
    using a unfolding analyze_select_def Let_def by (auto simp: othen_Ret_iff split: if_splits)
  have es: "\<forall>e \<in> set es. expr_named ?cs e"
  proof
    fix e assume e: "e \<in> set es"
    show "expr_named ?cs e"
    proof (cases "st_cols st = []")
      case True
      then show ?thesis using s(1) e star_expr_named [of _ ?cs] by auto
    next
      case False
      then have om: "omap (make_select_expr ?cs ?al) (st_cols st) = Ret es" using s(1) by simp
      show ?thesis using omap_Ret_all [OF om e] make_select_expr_named p(1) by blast
    qed
  qed
  have gs: "\<forall>g \<in> set gs. has_col ?cs g" using omap_Ret_all [OF s(3)] check_column_in by blast
  have hs: "\<forall>h \<in> set hs. (\<not> having_is_rhs_val h \<longrightarrow> snd (expr_type ?cs (having_lhs h)) \<le> snd (expr_type ?cs (having_rhs_expr h))) \<longrightarrow> having_typed ?cs h"
    using omap_Ret_all [OF s(6)] make_having_typed p(2) by blast
  have os: "\<forall>x \<in> set os. expr_named ?cs (fst x)" using omap_Ret_all [OF s(7)] make_order_named [OF _ es] p(3) by blast
  have out: "out = tile 0 (map (\<lambda>e. (expr_meta ?cs e)\<lparr>cm_tab := ?tab\<rparr>) es)" using output_cols_tile [of es ?cs ?tab 0] es s(2) by (simp add: expr_named_def)
  have cs: "\<forall>c \<in> set (wh @ jn). cond_checked C (fi_real fi) (fi_tables fi) c" using check_clause_checked [OF s(4)] check_clause_checked [OF s(5)] by auto
  have "\<forall>e \<in> set es. \<not> is_aggregate e" if "\<not> list_ex is_aggregate es" using that by (simp add: list_ex_iff)
  then have "body_checked ?cs ?tab q" using es gs hs os out unfolding s(8) body_checked_def by auto
  moreover have "\<not> q_has_aggregation q" if z: "st_cols st = []" "st_group st = []" "st_having st = []"
    using z s(1,3) by (auto simp: s(8) star_expr_def list_ex_iff)
  moreover have "es = map star_expr ?cs" if "st_cols st = []" using s(1) that by simp
  ultimately show ?thesis using cs by (simp add: s(8))
qed

end
