(* ===== verification/Rmdb_Plan_Props.thy ===== *)
theory Rmdb_Plan_Props
  imports Rmdb_Analyze_Props Rmdb_Exec_Props
begin

text \<open>
  Plans of analysed queries. \<open>PropagateEqualityConstants\<close> ends, since every round that changes something gives a constant to one more column of the join conditions, and it keeps
  the conditions of every table typed. The scans and joins built from them cover the tables of the query, and aggregation, sort, projection and union on top stay typed. So
  an analysed query, planned without an index, runs without an error.
\<close>

subsection \<open>Propagation of constants ends\<close>

definition join_sides :: "condition list \<Rightarrow> tab_col set" where
  "join_sides joins = lhs_col ` set joins \<union> rhs_col ` set joins"

definition missing :: "condition list \<Rightarrow> filters \<Rightarrow> tab_col set" where
  "missing joins filters = {x \<in> join_sides joins. find_constant filters x = None}"

lemma finite_missing [simp]: "finite (missing joins filters)"
  by (simp add: missing_def join_sides_def)

text \<open>What a derivation does to the conditions.\<close>

definition derives :: "catalog \<Rightarrow> (string \<rightharpoonup> string) \<Rightarrow> tab_col \<Rightarrow> tab_col \<Rightarrow> filters \<Rightarrow> filters \<Rightarrow> bool" where
  "derives C real source target filters filters' \<longleftrightarrow> (\<exists>c s t. find_constant filters source = Some c \<and> find_constant filters target = None
     \<and> col_meta_at C real source = Some s \<and> col_meta_at C real target = Some t \<and> cm_type s = cm_type t \<and> cm_len s = cm_len t
     \<and> filters' = filters(tc_tab target := filters (tc_tab target) @ [c\<lparr>lhs_col := target\<rparr>]))"

lemma column_meta_at: "column_meta C real x = Ret m \<Longrightarrow> m = col_meta_at C real x"
  by (auto simp: column_meta_def col_meta_at_def get_table_def othen_Ret_iff split: option.splits)

lemma derive_constant_cases:
  assumes "derive_constant C real source target c filters = Ret (filters', ch)" "find_constant filters source = Some c" "find_constant filters target = None"
  shows "if ch then derives C real source target filters filters' else filters' = filters"
proof -
  obtain s t where m: "column_meta C real source = Ret s" "column_meta C real target = Ret t" using assms(1) by (auto simp: derive_constant_def othen_Ret_iff)
  show ?thesis using assms m column_meta_at [OF m(1), symmetric] column_meta_at [OF m(2), symmetric]
    by (cases s; cases t) (auto simp: derive_constant_def derives_def split: if_splits)
qed

lemma propagate_join_cases:
  assumes "propagate_join C real join filters = Ret (filters', ch)"
  shows "if ch then \<not> is_rhs_val join \<and> cond_op join = OP_EQ
      \<and> (derives C real (lhs_col join) (rhs_col join) filters filters' \<or> derives C real (rhs_col join) (lhs_col join) filters filters')
    else filters' = filters"
  using assms derive_constant_cases [of C real "lhs_col join" "rhs_col join" "the (find_constant filters (lhs_col join))" filters filters' ch]
    derive_constant_cases [of C real "rhs_col join" "lhs_col join" "the (find_constant filters (rhs_col join))" filters filters' ch]
  by (cases "find_constant filters (lhs_col join)"; cases "find_constant filters (rhs_col join)") (auto simp: propagate_join_def split: if_splits)

lemma find_constant_props: "find_constant filters x = Some c \<Longrightarrow> c \<in> set (filters (tc_tab x)) \<and> is_rhs_val c \<and> cond_op c = OP_EQ \<and> tc_col (lhs_col c) = tc_col x"
  by (auto simp: find_constant_def find_Some_iff)

lemma derives_missing:
  assumes "derives C real source target filters filters'" "target \<in> join_sides joins"
  shows "missing joins filters' \<subset> missing joins filters"
proof -
  obtain c where c: "find_constant filters source = Some c" "find_constant filters target = None"
      "filters' = filters(tc_tab target := filters (tc_tab target) @ [c\<lparr>lhs_col := target\<rparr>])" using assms(1) by (auto simp: derives_def)
  have "find_constant filters x = None" if "find_constant filters' x = None" for x using that by (auto simp: find_constant_def find_None_iff c(3) split: if_splits)
  moreover have "find_constant filters' target \<noteq> None" using find_constant_props [OF c(1)] by (auto simp: find_constant_def find_None_iff c(3) intro!: exI [of _ "c\<lparr>lhs_col := target\<rparr>"])
  ultimately have "missing joins filters' \<subseteq> missing joins filters" "target \<in> missing joins filters - missing joins filters'" using c(2) assms(2) by (auto simp: missing_def)
  then show ?thesis by blast
qed

lemma propagate_pass_missing:
  assumes "propagate_pass C real js filters changed = Ret (filters', changed')" "set js \<subseteq> set joins"
  shows "missing joins filters' \<subseteq> missing joins filters \<and> (changed' \<longrightarrow> changed \<or> missing joins filters' \<subset> missing joins filters)"
  using assms
proof (induction js arbitrary: filters changed)
  case (Cons j js)
  obtain f1 ch where f: "propagate_join C real j filters = Ret (f1, ch)" "propagate_pass C real js f1 (changed \<or> ch) = Ret (filters', changed')"
    using Cons.prems by (auto simp: othen_Ret_iff)
  have j: "lhs_col j \<in> join_sides joins" "rhs_col j \<in> join_sides joins" using Cons.prems by (auto simp: join_sides_def)
  have "if ch then missing joins f1 \<subset> missing joins filters else f1 = filters"
    using propagate_join_cases [OF f(1)] derives_missing [of C real _ _ filters f1 joins] j by (cases ch) auto
  then show ?case using Cons.IH [OF f(2)] Cons.prems(2) by (auto split: if_splits)
qed simp

lemma propagation_ends: "\<exists>r. PropagateEqualityConstants C real joins filters = Some r"
proof (induction "card (missing joins filters)" arbitrary: filters rule: less_induct)
  case less
  show ?case
  proof (cases "propagate_pass C real joins filters False")
    case (Ret p)
    obtain f' ch where p: "p = (f', ch)" by fastforce
    have "card (missing joins f') < card (missing joins filters)" if ch
      using propagate_pass_missing [of C real joins filters False f' ch joins] Ret p that by (auto intro: psubset_card_mono)
    then show ?thesis using less [of f'] Ret p by (subst PropagateEqualityConstants.simps) auto
  qed (subst PropagateEqualityConstants.simps, simp)+
qed

text \<open>An invariant of a derivation is one of the whole propagation.\<close>

lemma propagate_pass_invariant:
  assumes "propagate_pass C real js filters changed = Ret (filters', changed')" "set js \<subseteq> set joins" "I filters"
    and "\<And>j f f'. j \<in> set joins \<Longrightarrow> \<not> is_rhs_val j \<Longrightarrow> cond_op j = OP_EQ \<Longrightarrow> I f \<Longrightarrow>
      derives C real (lhs_col j) (rhs_col j) f f' \<or> derives C real (rhs_col j) (lhs_col j) f f' \<Longrightarrow> I f'"
  shows "I filters'"
  using assms(1-3)
proof (induction js arbitrary: filters changed)
  case (Cons j js)
  obtain f1 ch where f: "propagate_join C real j filters = Ret (f1, ch)" "propagate_pass C real js f1 (changed \<or> ch) = Ret (filters', changed')"
    using Cons.prems by (auto simp: othen_Ret_iff)
  have "I f1" using propagate_join_cases [OF f(1)] assms(4) [of j filters f1] Cons.prems by (auto split: if_splits)
  then show ?case using Cons.IH [OF f(2)] Cons.prems(2) by simp
qed simp

lemma propagation_invariant:
  assumes "PropagateEqualityConstants C real joins filters = Some (Ret filters')" "I filters"
    and step: "\<And>j f f'. j \<in> set joins \<Longrightarrow> \<not> is_rhs_val j \<Longrightarrow> cond_op j = OP_EQ \<Longrightarrow> I f \<Longrightarrow>
      derives C real (lhs_col j) (rhs_col j) f f' \<or> derives C real (rhs_col j) (lhs_col j) f f' \<Longrightarrow> I f'"
  shows "I filters'"
  using assms(1,2)
proof (induction "card (missing joins filters)" arbitrary: filters rule: less_induct)
  case less
  obtain f1 ch where f: "propagate_pass C real joins filters False = Ret (f1, ch)"
    using less.prems(1) by (subst (asm) PropagateEqualityConstants.simps) (cases "propagate_pass C real joins filters False"; auto)
  have i: "I f1" using propagate_pass_invariant [where I = I and joins = joins, OF f _ less.prems(2) step] by simp
  show ?case
  proof (cases ch)
    case True
    have "card (missing joins f1) < card (missing joins filters)" using propagate_pass_missing [OF f, of joins] True by (auto intro: psubset_card_mono)
    moreover have "PropagateEqualityConstants C real joins f1 = Some (Ret filters')" using less.prems(1) f True by (subst (asm) PropagateEqualityConstants.simps) simp
    ultimately show ?thesis using less.hyps i by blast
  next
    case False
    then show ?thesis using less.prems(1) f i by (subst (asm) PropagateEqualityConstants.simps) simp
  qed
qed

subsection \<open>Typed conditions\<close>

text \<open>The comparison of two columns reads as many bytes of the right column as the left one has, so the right one must not be shorter. The analysis does not check this.\<close>

definition lengths_fit :: "catalog \<Rightarrow> (string \<rightharpoonup> string) \<Rightarrow> condition \<Rightarrow> bool" where
  "lengths_fit C real c \<longleftrightarrow> (is_rhs_val c \<or> cm_len (meta_of C real (lhs_col c)) \<le> cm_len (meta_of C real (rhs_col c)))"

definition cond_sound :: "catalog \<Rightarrow> (string \<rightharpoonup> string) \<Rightarrow> string list \<Rightarrow> condition \<Rightarrow> bool" where
  "cond_sound C real ts c \<longleftrightarrow> cond_checked C real ts c \<and> lengths_fit C real c"

definition filters_sound :: "catalog \<Rightarrow> (string \<rightharpoonup> string) \<Rightarrow> filters \<Rightarrow> bool" where
  "filters_sound C real filters \<longleftrightarrow> (\<forall>t. \<forall>c \<in> set (filters t). cond_sound C real [t] c)"

lemma split_where_sound:
  assumes "split_where conds filters joins = (filters', joins')" "\<forall>c \<in> set (conds @ joins). cond_sound C real ts c" "filters_sound C real filters"
  shows "filters_sound C real filters' \<and> (\<forall>c \<in> set joins'. cond_sound C real ts c)"
  using assms
proof (induction conds arbitrary: filters joins)
  case (Cons c conds)
  show ?case
  proof (cases "is_rhs_val c \<or> tc_tab (rhs_col c) = tc_tab (lhs_col c)")
    case True
    have "cond_sound C real [tc_tab (lhs_col c)] c" using Cons.prems(2) True by (auto simp: cond_sound_def cond_checked_def names_col_def)
    then have s: "filters_sound C real (filters(tc_tab (lhs_col c) := filters (tc_tab (lhs_col c)) @ [c]))" using Cons.prems(3) by (auto simp: filters_sound_def)
    have "split_where conds (filters(tc_tab (lhs_col c) := filters (tc_tab (lhs_col c)) @ [c])) joins = (filters', joins')" using Cons.prems(1) True by auto
    from Cons.IH [OF this _ s] show ?thesis using Cons.prems(2) by simp
  next
    case False
    then show ?thesis using Cons.IH [of filters "joins @ [c]"] Cons.prems by auto
  qed
qed simp

lemma tab_col_eq: "tc_tab a = tc_tab b \<Longrightarrow> tc_col a = tc_col b \<Longrightarrow> a = (b :: tab_col)"
  by simp

lemma derives_sound:
  assumes "derives C real source target f f'" "filters_sound C real f"
  shows "filters_sound C real f'"
proof -
  obtain c s t where d: "find_constant f source = Some c" "col_meta_at C real source = Some s" "col_meta_at C real target = Some t" "cm_len s = cm_len t"
      "f' = f(tc_tab target := f (tc_tab target) @ [c\<lparr>lhs_col := target\<rparr>])" using assms(1) by (auto simp: derives_def)
  have c: "cond_sound C real [tc_tab source] c" "is_rhs_val c" "tc_col (lhs_col c) = tc_col source" using find_constant_props [OF d(1)] assms(2) by (auto simp: filters_sound_def)
  have "lhs_col c = source" using c tab_col_eq [of "lhs_col c" source] by (auto simp: cond_sound_def cond_checked_def names_col_def)
  then have "cond_sound C real [tc_tab target] (c\<lparr>lhs_col := target\<rparr>)" using c d(2-4) by (auto simp: cond_sound_def cond_checked_def names_col_def lengths_fit_def meta_of_def)
  then show ?thesis using assms(2) by (auto simp: d(5) filters_sound_def)
qed

lemma propagation_sound: "PropagateEqualityConstants C real joins f = Some (Ret f') \<Longrightarrow> filters_sound C real f \<Longrightarrow> filters_sound C real f'"
  using propagation_invariant [where I = "filters_sound C real"] derives_sound by blast

subsection \<open>Scans and joins\<close>

text \<open>A plan over the tables \<open>ts\<close>.\<close>

definition plan_over :: "query_env \<Rightarrow> (string \<rightharpoonup> string) \<Rightarrow> string list \<Rightarrow> plan \<Rightarrow> bool" where
  "plan_over E real ts p \<longleftrightarrow> plan_ok E p \<and> covers (env_tabs E) real ts (plan_cols E p)"

definition tables_ok :: "query_env \<Rightarrow> bool" where
  "tables_ok E \<longleftrightarrow> (\<forall>name \<in> dom (env_tabs E). name \<noteq> [] \<and> table_ok E name)"

lemma covers_sound: "covers C real ts cs \<Longrightarrow> cond_sound C real ts c \<Longrightarrow> cond_typed cs c"
  using covers_typed [of C real ts cs c] by (auto simp: cond_sound_def lengths_fit_def)

lemma make_scan_over:
  assumes ok: "tables_ok E" and f: "filters_sound (env_tabs E) (q_real_names q) filters" and m: "make_scan (env_tabs E) skip q filters t = Ret qp" and s: "seq_plan qp = Some p"
  shows "p = ScanPlan t (lookup_name (q_real_names q) t) (filters t) \<and> plan_over E (q_real_names q) [t] p"
proof -
  let ?real = "lookup_name (q_real_names q) t"
  obtain tab where t: "env_tabs E ?real = Some tab" using m by (auto simp: make_scan_def othen_Ret_iff get_table_def Let_def split: option.splits)
  have p: "p = ScanPlan t ?real (filters t)" using m s t by (auto simp: make_scan_def get_table_def Let_def split: option.splits)
  have n: "real_name t ?real = ?real" "table_ok E ?real" using ok t by (auto simp: tables_ok_def real_name_def)
  have c: "plan_cols E p = scan_cols tab t" "covers (env_tabs E) (q_real_names q) [t] (scan_cols tab t)" using p n t scan_cols_covers [of "env_tabs E" "q_real_names q" t tab] by simp_all
  have "\<forall>c \<in> set (filters t). cond_typed (scan_cols tab t) c" using covers_sound [OF c(2)] f by (auto simp: filters_sound_def)
  then show ?thesis using n c t by (simp add: plan_over_def p)
qed

lemma join_over:
  assumes "plan_over E real ts p" "plan_over E real us r" "\<forall>c \<in> set conds. cond_sound (env_tabs E) real (ts @ us) c"
  shows "plan_over E real (ts @ us) (JoinPlan p r conds)"
  using assms covers_append [of "env_tabs E" real ts "plan_cols E p" us "plan_cols E r" "plan_len E p"] covers_sound [of "env_tabs E" real "ts @ us" "plan_cols E (JoinPlan p r conds)"]
  by (simp add: plan_over_def)

lemma connects_sound:
  assumes "connects joined right c" "cond_sound C real ts c"
  shows "cond_sound C real (joined @ [right]) c"
  using assms by (auto simp: connects_def cond_sound_def cond_checked_def names_col_def)

lemma join_tables_over:
  assumes ok: "tables_ok E" and f: "filters_sound (env_tabs E) (q_real_names q) filters" and j: "\<forall>c \<in> set joins. cond_sound (env_tabs E) (q_real_names q) ts c"
    and "join_tables (env_tabs E) skip q filters joins joined tables root = Ret qp" "seq_plan qp = Some p"
    and "\<And>p0. seq_plan root = Some p0 \<Longrightarrow> plan_over E (q_real_names q) joined p0"
  shows "plan_over E (q_real_names q) (joined @ tables) p"
  using assms(4-6)
proof (induction tables arbitrary: joined root)
  case (Cons right tables)
  let ?level = "filter (connects joined right) joins" and ?real = "lookup_name (q_real_names q) right"
  obtain tab root' where r: "env_tabs E ?real = Some tab"
      "(case find_index_join tab joined right ?level of Some (outer, inner) \<Rightarrow> Ret (QIndexJoin root right ?real (filters right) ?level outer inner)
         | None \<Rightarrow> othen (make_scan (env_tabs E) skip q filters right) (\<lambda>scan. Ret (QJoin root scan ?level))) = Ret root'"
      "join_tables (env_tabs E) skip q filters joins (joined @ [right]) tables root' = Ret qp"
    using Cons.prems(1) by (auto simp: othen_Ret_iff Let_def get_table_def split: option.splits)
  have "plan_over E (q_real_names q) (joined @ [right]) p0" if s: "seq_plan root' = Some p0" for p0
  proof (cases "find_index_join tab joined right ?level")
    case None
    then obtain scan pl ps where c: "make_scan (env_tabs E) skip q filters right = Ret scan" "seq_plan root = Some pl" "seq_plan scan = Some ps" "p0 = JoinPlan pl ps ?level"
      using r(2) s by (auto simp: othen_Ret_iff bind_eq_Some_conv)
    have l: "\<forall>c \<in> set ?level. cond_sound (env_tabs E) (q_real_names q) (joined @ [right]) c" using connects_sound j by fastforce
    show ?thesis unfolding c(4) using join_over [OF Cons.prems(3) [OF c(2)] _ l] make_scan_over [OF ok f c(1,3)] by blast
  next
    case (Some oi)
    then show ?thesis using r(2) s by (cases oi) auto
  qed
  then show ?case using Cons.IH [OF r(3) Cons.prems(2)] by simp
qed auto

lemma left_deep_over:
  assumes "tables_ok E" "\<forall>c \<in> set (q_where_conds q @ q_join_conds q). cond_sound (env_tabs E) (q_real_names q) (q_tables q) c"
    and m: "make_left_deep_join_plan (env_tabs E) skip q = Some (Ret qp)" "seq_plan qp = Some p"
  shows "plan_over E (q_real_names q) (q_tables q) p"
proof -
  obtain t ts where t: "q_tables q = t # ts" using m by (auto simp: make_left_deep_join_plan_def split: list.splits)
  obtain f0 joins where w: "split_where (q_where_conds q) (\<lambda>_. []) (q_join_conds q) = (f0, joins)" by fastforce
  have f0: "filters_sound (env_tabs E) (q_real_names q) f0" "\<forall>c \<in> set joins. cond_sound (env_tabs E) (q_real_names q) (q_tables q) c"
    using split_where_sound [OF w assms(2)] by (simp_all add: filters_sound_def)
  obtain f where f: "PropagateEqualityConstants (env_tabs E) (q_real_names q) joins f0 = Some (Ret f)"
      "othen (make_scan (env_tabs E) skip q f t) (join_tables (env_tabs E) skip q f joins [t] ts) = Ret qp"
    using m(1) t w propagation_ends [of "env_tabs E" "q_real_names q" joins f0] by (auto simp: make_left_deep_join_plan_def cthen_def split: outcome.splits)
  have fs: "filters_sound (env_tabs E) (q_real_names q) f" using propagation_sound [OF f(1) f0(1)] .
  obtain scan where s: "make_scan (env_tabs E) skip q f t = Ret scan" "join_tables (env_tabs E) skip q f joins [t] ts scan = Ret qp" using f(2) by (auto simp: othen_Ret_iff)
  show ?thesis using join_tables_over [OF assms(1) fs f0(2) s(2) m(2)] make_scan_over [OF assms(1) fs s(1)] by (auto simp: t)
qed

subsection \<open>Aggregation, sort and projection\<close>

definition same_cols :: "col_meta list \<Rightarrow> col_meta list \<Rightarrow> bool" where
  "same_cols cs ds \<longleftrightarrow> (\<forall>x. has_col cs x = has_col ds x)
     \<and> (\<forall>x. has_col cs x \<longrightarrow> cm_type (col_of cs x) = cm_type (col_of ds x) \<and> cm_len (col_of cs x) = cm_len (col_of ds x))"

definition shape :: "col_meta list \<Rightarrow> (col_type \<times> nat) list" where
  "shape cs = map (\<lambda>c. (cm_type c, cm_len c)) cs"

lemma covers_same: "covers C real ts cs \<Longrightarrow> covers C real ts ds \<Longrightarrow> same_cols cs ds"
  by (simp add: covers_def same_cols_def)

lemma same_cols_refl [simp]: "same_cols cs cs"
  by (simp add: same_cols_def)

lemma same_expr_typed: "same_cols cs ds \<Longrightarrow> expr_typed ds e = expr_typed cs e"
  by (auto simp: same_cols_def expr_typed_def)

lemma same_expr_type: "same_cols cs ds \<Longrightarrow> expr_typed cs e \<Longrightarrow> expr_type ds e = expr_type cs e"
  by (auto simp: same_cols_def expr_typed_def expr_type_def)

lemma same_having_typed: "same_cols cs ds \<Longrightarrow> having_typed cs h \<Longrightarrow> having_typed ds h"
  using same_expr_typed [of cs ds "having_lhs h"] same_expr_typed [of cs ds "having_rhs_expr h"] same_expr_type [of cs ds "having_lhs h"] same_expr_type [of cs ds "having_rhs_expr h"]
  by (auto simp: having_typed_def split: option.splits)

lemma has_col_tile [simp]: "has_col (tile off cs) x = has_col cs x"
  by (induction cs arbitrary: off) (auto simp: has_col_iff)

lemma shape_tile [simp]: "shape (tile off cs) = shape cs"
  by (induction cs arbitrary: off) (auto simp: shape_def)

lemma omap_length: "omap f xs = Ret ys \<Longrightarrow> length ys = length xs"
  by (induction xs arbitrary: ys) (auto simp: othen_Ret_iff)

text \<open>What the analysis leaves unchecked: a \<open>HAVING\<close> condition between two expressions reads as many bytes of the right one as the left one has, and \<open>COUNT( * )\<close> in \<open>ORDER BY\<close> of a
  query without aggregation has no column.\<close>

definition body_fits :: "col_meta list \<Rightarrow> query \<Rightarrow> bool" where
  "body_fits cs q \<longleftrightarrow> (\<forall>h \<in> set (q_having_conds q). having_is_rhs_val h \<or> snd (expr_type cs (having_lhs h)) \<le> snd (expr_type cs (having_rhs_expr h)))
     \<and> (q_has_aggregation q \<or> (\<forall>p \<in> set (q_order_specs q). \<not> count_star (fst p)))"

definition sorts :: "query_env \<Rightarrow> query \<Rightarrow> plan \<Rightarrow> bool" where
  "sorts E q p \<longleftrightarrow> (\<forall>x \<in> set (q_order_specs q). \<forall>c. sort_col q x = Ret c \<longrightarrow> has_col (plan_cols E p) c)"

lemma sort_plan_ok:
  assumes "generate_sort_plan q qp = Ret qp'" "seq_plan qp' = Some p'"
  shows "\<exists>p. seq_plan qp = Some p \<and> plan_cols E p' = plan_cols E p \<and> (plan_ok E p \<longrightarrow> sorts E q p \<longrightarrow> plan_ok E p')"
proof (cases "q_order_specs q = [] \<and> q_limit q < 0")
  case True
  then show ?thesis using assms by (simp add: generate_sort_plan_def)
next
  case False
  then obtain ks p where k: "omap (sort_col q) (q_order_specs q) = Ret ks" "seq_plan qp = Some p" "p' = SortPlan p ks (map snd (q_order_specs q)) (q_limit q)"
    using assms unfolding generate_sort_plan_def by (auto simp: othen_Ret_iff)
  have "\<forall>t \<in> set ks. has_col (plan_cols E p) t" if "sorts E q p" using omap_Ret_all [OF k(1)] that by (auto simp: sorts_def)
  then show ?thesis using k omap_length [OF k(1)] by simp
qed

lemma aggregate_plan_ok:
  assumes "plan_ok E p" "same_cols cs (plan_cols E p)" "body_checked cs tab q" "body_fits cs q"
  shows "plan_ok E (AggregatePlan p (q_select_exprs q) (q_group_cols q) (q_having_conds q))
    \<and> shape (plan_cols E (AggregatePlan p (q_select_exprs q) (q_group_cols q) (q_having_conds q))) = shape (q_output_cols q)"
proof -
  note b = assms(3,4) [unfolded body_checked_def body_fits_def]
  have "\<forall>e \<in> set (q_select_exprs q). expr_typed (plan_cols E p) e" using b same_expr_typed [OF assms(2)] by (simp add: expr_named_def)
  moreover have "\<forall>g \<in> set (q_group_cols q). has_col (plan_cols E p) g" using b assms(2) by (simp add: same_cols_def)
  moreover have "\<forall>h \<in> set (q_having_conds q). having_typed (plan_cols E p) h" using b same_having_typed [OF assms(2)] by blast
  moreover have "shape (map (expr_meta (plan_cols E p)) (q_select_exprs q)) = shape (map (\<lambda>e. (expr_meta cs e)\<lparr>cm_tab := tab\<rparr>) (q_select_exprs q))"
    using b same_expr_type [OF assms(2)] by (simp add: shape_def expr_meta_def expr_named_def)
  ultimately show ?thesis using assms(1) b by simp
qed

lemma projection_plan_ok:
  assumes "plan_ok E p" "same_cols cs (plan_cols E p)" "body_checked cs tab q" "\<not> q_has_aggregation q"
  shows "plan_ok E (ProjectionPlan p (q_cols q)) \<and> shape (plan_cols E (ProjectionPlan p (q_cols q))) = shape (q_output_cols q)"
proof -
  note b = assms(3,4) [unfolded body_checked_def]
  have e: "\<not> is_aggregate e \<and> has_col (plan_cols E p) (expr_col e) \<and> expr_type cs e = (cm_type (col_of (plan_cols E p) (expr_col e)), cm_len (col_of (plan_cols E p) (expr_col e)))"
    if "e \<in> set (q_select_exprs q)" for e
    using b that assms(2) by (auto simp: expr_named_def expr_typed_def same_cols_def expr_type_def)
  have c: "q_cols q = map expr_col (q_select_exprs q)" using b by (simp add: filter_id_conv)
  have "shape (map (\<lambda>e. col_of (plan_cols E p) (expr_col e)) (q_select_exprs q)) = shape (map (\<lambda>e. (expr_meta cs e)\<lparr>cm_tab := tab\<rparr>) (q_select_exprs q))"
    using e by (simp add: shape_def expr_meta_def)
  then show ?thesis using assms(1) e b by (simp add: c comp_def)
qed

lemma find_same_expr: "find P es = Some e \<Longrightarrow> has_col (map (expr_meta cs) es) \<lparr>tc_tab = [], tc_col = output_name e\<rparr>"
  by (auto simp: has_col_iff expr_meta_def find_Some_iff)

lemma finish_plan_ok:
  assumes p: "\<And>p. seq_plan qp = Some p \<Longrightarrow> plan_ok E p \<and> same_cols cs (plan_cols E p)"
    and b: "body_checked cs tab q" "body_fits cs q" and f: "finish_plan q qp = Ret qp'" "seq_plan qp' = Some p'"
  shows "plan_ok E p' \<and> shape (plan_cols E p') = shape (q_output_cols q)"
proof (cases "q_has_aggregation q")
  case True
  let ?agg = "\<lambda>p. AggregatePlan p (q_select_exprs q) (q_group_cols q) (q_having_conds q)"
  have "generate_sort_plan q (QAggregate qp (q_select_exprs q) (q_group_cols q) (q_having_conds q)) = Ret qp'" using f(1) True by (simp add: finish_plan_def)
  then obtain pa where s: "seq_plan (QAggregate qp (q_select_exprs q) (q_group_cols q) (q_having_conds q)) = Some pa" "plan_cols E p' = plan_cols E pa" "plan_ok E pa \<longrightarrow> sorts E q pa \<longrightarrow> plan_ok E p'"
    using sort_plan_ok [OF _ f(2)] by blast
  then obtain p0 where p0: "seq_plan qp = Some p0" "pa = ?agg p0" by auto
  have "sorts E q pa" using find_same_expr True by (auto simp: sorts_def sort_col_def p0(2) split: option.splits)
  then show ?thesis using s aggregate_plan_ok [OF _ _ b] p [OF p0(1)] p0(2) by auto
next
  case False
  obtain qs ps where s: "generate_sort_plan q qp = Ret qs" "seq_plan qs = Some ps" "p' = ProjectionPlan ps (q_cols q)" using f False by (auto simp: finish_plan_def othen_Ret_iff)
  obtain p0 where p0: "seq_plan qp = Some p0" "plan_cols E ps = plan_cols E p0" "plan_ok E p0 \<longrightarrow> sorts E q p0 \<longrightarrow> plan_ok E ps" using sort_plan_ok [OF s(1,2)] by blast
  have "sorts E q p0" using b p [OF p0(1)] False by (auto simp: sorts_def sort_col_def body_checked_def body_fits_def expr_named_def same_cols_def)
  then show ?thesis using projection_plan_ok [of E ps cs tab q] p [OF p0(1)] p0 b(1) False by (simp add: s(3))
qed

subsection \<open>Unions\<close>

definition conv_type :: "col_type \<Rightarrow> col_type \<Rightarrow> bool" where
  "conv_type s d \<longleftrightarrow> (s = d \<or> s = TYPE_INT \<and> d = TYPE_FLOAT)"

definition numerics_ok :: "col_meta list \<Rightarrow> bool" where
  "numerics_ok cs \<longleftrightarrow> (\<forall>c \<in> set cs. cm_type c \<noteq> TYPE_STRING \<longrightarrow> cm_len c = 4)"

lemma conv_type_trans: "conv_type a b \<Longrightarrow> conv_type b c \<Longrightarrow> conv_type a c"
  by (auto simp: conv_type_def)

lemma numerics_shape: "numerics_ok cs \<longleftrightarrow> (\<forall>(ty, n) \<in> set (shape cs). ty \<noteq> TYPE_STRING \<longrightarrow> n = 4)"
  by (simp add: numerics_ok_def shape_def)

lemma union_typed_conv: "union_typed cs out \<longleftrightarrow> list_all2 (\<lambda>a b. conv_type (fst a) (fst b)) (shape cs) (shape out)"
  by (auto simp: union_typed_def shape_def conv_type_def list_all2_iff zip_map_map split: prod.splits)

lemma merge_col_ok:
  "merge_col a b = Ret c \<Longrightarrow> conv_type (cm_type a) (cm_type c) \<and> conv_type (cm_type b) (cm_type c) \<and> ((cm_type a \<noteq> TYPE_STRING \<longrightarrow> cm_len a = 4) \<longrightarrow> cm_type c \<noteq> TYPE_STRING \<longrightarrow> cm_len c = 4)"
  by (auto simp: merge_col_def conv_type_def split: if_splits)

lemma union_typed_Cons: "union_typed (a # as) (b # bs) \<longleftrightarrow> conv_type (cm_type a) (cm_type b) \<and> union_typed as bs"
  by (auto simp: union_typed_def conv_type_def)

lemma merge_cols_ok:
  "length cs = length result \<Longrightarrow> omap (\<lambda>(common, candidate). merge_col common candidate) (zip result cs) = Ret out \<Longrightarrow>
    union_typed result out \<and> union_typed cs out \<and> (numerics_ok result \<longrightarrow> numerics_ok out)"
proof (induction result cs arbitrary: out rule: list_induct2')
  case (4 r rs c cs)
  obtain m out' where m: "merge_col r c = Ret m" "omap (\<lambda>(common, candidate). merge_col common candidate) (zip rs cs) = Ret out'" "out = m # out'"
    using 4(3) by (auto simp: othen_Ret_iff)
  show ?case using 4(1) [OF _ m(2)] 4(2) merge_col_ok [OF m(1)] by (auto simp: m(3) union_typed_Cons numerics_ok_def)
qed (auto simp: union_typed_def numerics_ok_def)

lemma union_typed_trans: "union_typed as bs \<Longrightarrow> union_typed bs cs \<Longrightarrow> union_typed as cs"
  unfolding union_typed_conv list_all2_conv_all_nth using conv_type_trans by metis

lemma union_typed_refl [simp]: "union_typed cs cs"
  by (simp add: union_typed_conv conv_type_def list_all2_refl)

lemma merge_branches_ok:
  "merge_branches result css = Ret out \<Longrightarrow> union_typed result out \<and> (\<forall>cs \<in> set css. union_typed cs out) \<and> (numerics_ok result \<longrightarrow> numerics_ok out)"
proof (induction css arbitrary: result)
  case (Cons cs css)
  obtain r where r: "merge_branch result cs = Ret r" "merge_branches r css = Ret out" using Cons.prems by (auto simp: othen_Ret_iff)
  have "union_typed result r \<and> union_typed cs r \<and> (numerics_ok result \<longrightarrow> numerics_ok r)" using r(1) merge_cols_ok [of cs result r] by (auto simp: merge_branch_def split: if_splits)
  then show ?case using Cons.IH [OF r(2)] union_typed_trans [of _ r out] by auto
qed simp

lemma lay_out_tile: "lay_out al off cs = tile off (map (\<lambda>c. c\<lparr>cm_tab := al\<rparr>) cs)"
  by (induction cs arbitrary: off) simp_all

lemma tile_tile [simp]: "tile off (tile off cs) = tile off cs"
  by (induction cs arbitrary: off) simp_all

lemma tile_offsets [simp]: "tile off (map (\<lambda>c. c\<lparr>cm_offset := n\<rparr>) cs) = tile off cs"
  by (induction cs arbitrary: off) simp_all

lemma set_tile_tab: "c \<in> set (tile off cs) \<Longrightarrow> \<exists>d \<in> set cs. cm_tab c = cm_tab d"
  by (induction cs arbitrary: off) auto

lemma union_schema_tiled:
  assumes "make_union_schema css al = Ret cs"
  shows "\<exists>r. css \<noteq> [] \<and> merge_branches (hd css) (tl css) = Ret r \<and> shape cs = shape r \<and> tile 0 cs = cs \<and> (\<forall>c \<in> set cs. cm_tab c = al)"
proof -
  obtain r where r: "css \<noteq> []" "merge_branches (hd css) (tl css) = Ret r" "cs = tile 0 (map (\<lambda>c. c\<lparr>cm_tab := al\<rparr>) r)"
    using assms by (cases css) (auto simp: make_union_schema_def othen_Ret_iff lay_out_tile split: if_splits)
  have "shape cs = shape r" by (simp add: r(3)) (simp add: shape_def)
  moreover have "\<forall>c \<in> set cs. cm_tab c = al" using set_tile_tab by (fastforce simp: r(3))
  ultimately show ?thesis using r by simp
qed

lemma union_schema_ok:
  assumes "make_union_schema css al = Ret cs" "numerics_ok (hd css)"
  shows "numerics_ok cs \<and> (\<forall>b \<in> set css. union_typed b cs)"
proof -
  obtain r where r: "css \<noteq> []" "merge_branches (hd css) (tl css) = Ret r" "shape cs = shape r" using union_schema_tiled [OF assms(1)] by blast
  have "\<forall>b \<in> set css. union_typed b r" using merge_branches_ok [OF r(2)] r(1) by (cases css) auto
  moreover have "numerics_ok r" using merge_branches_ok [OF r(2)] assms(2) by simp
  ultimately show ?thesis by (simp add: union_typed_conv numerics_shape r(3))
qed

lemma col_of_distinct: "distinct (map cm_name cs) \<Longrightarrow> c \<in> set cs \<Longrightarrow> col_of cs \<lparr>tc_tab = cm_tab c, tc_col = cm_name c\<rparr> = c"
proof -
  assume d: "distinct (map cm_name cs)" "c \<in> set cs"
  let ?x = "\<lparr>tc_tab = cm_tab c, tc_col = cm_name c\<rparr>"
  obtain i where i: "find_pos (col_is ?x) cs = Some i" using find_pos_ex [of "col_is ?x" cs] d(2) by (auto simp: col_is_def)
  have "i < length cs" "cm_name (cs ! i) = cm_name c" using find_pos_Some [OF i] by (auto simp: col_is_def)
  then have "cs ! i = c" using d by (metis distinct_map in_set_conv_nth inj_onD nth_mem)
  then show ?thesis using i by (simp add: col_of_def)
qed

text \<open>\<open>SELECT *\<close> over a union with distinct column names has the schema of the union.\<close>

lemma star_output:
  assumes "distinct (map cm_name cs)" "\<forall>c \<in> set cs. cm_tab c = al" "tile 0 cs = cs"
  shows "tile 0 (map (\<lambda>e. (expr_meta cs e)\<lparr>cm_tab := al\<rparr>) (map star_expr cs)) = cs"
proof -
  have "(expr_meta cs (star_expr c))\<lparr>cm_tab := al\<rparr> = c\<lparr>cm_offset := 0\<rparr>" if "c \<in> set cs" for c
    using that assms(2) col_of_distinct [OF assms(1) that] by (simp add: expr_meta_def expr_type_def star_expr_def)
  then have "map (\<lambda>c. (expr_meta cs (star_expr c))\<lparr>cm_tab := al\<rparr>) cs = map (\<lambda>c. c\<lparr>cm_offset := 0\<rparr>) cs" by simp
  then show ?thesis using assms(3) tile_offsets [of 0 0 cs] by (simp add: comp_def del: map_eq_conv)
qed

lemma tiled_schema: "tile 0 cs = cs \<Longrightarrow> numerics_ok cs \<Longrightarrow> schema_ok cs (total_len cs)"
  using tile_schema [of cs 0] by (simp add: numerics_ok_def)

subsection \<open>Analysed queries\<close>

definition query_cols :: "catalog \<Rightarrow> query \<Rightarrow> col_meta list" where
  "query_cols C q = (if q_has_union_source q then q_output_cols q else (case get_all_cols C (q_tables q) (q_real_names q) of Ret cs \<Rightarrow> cs | _ \<Rightarrow> []))"

text \<open>The conditions the analysis does not check; for a union also that the names of its columns are distinct, since the outer \<open>SELECT *\<close> finds its columns by name.\<close>

function query_fits :: "catalog \<Rightarrow> query \<Rightarrow> bool" where
  "query_fits C q \<longleftrightarrow> (\<forall>c \<in> set (q_where_conds q @ q_join_conds q). lengths_fit C (q_real_names q) c) \<and> body_fits (query_cols C q) q
     \<and> (q_has_union_source q \<longrightarrow> distinct (map cm_name (q_output_cols q))) \<and> (\<forall>b \<in> set (q_union_branches q). query_fits C b)"
  by pat_completeness auto
termination
  by (relation "measure (\<lambda>(C, q). size q)") (auto simp: query_branch_size)

declare query_fits.simps [simp del]

lemma cthen_Ret_iff: "cthen m f = Some (Ret y) \<longleftrightarrow> (\<exists>x. m = Some (Ret x) \<and> f x = Some (Ret y))"
  by (cases m) (auto simp: cthen_def split: outcome.splits)

lemma cmap_Ret: "cmap f xs = Some (Ret ys) \<Longrightarrow> list_all2 (\<lambda>x y. f x = Some (Ret y)) xs ys"
  by (induction xs arbitrary: ys) (auto simp: cthen_Ret_iff)

lemma omap_all2: "omap f xs = Ret ys \<Longrightarrow> list_all2 (\<lambda>x y. f x = Ret y) xs ys"
  by (induction xs arbitrary: ys) (auto simp: othen_Ret_iff)

lemma those_all2: "those (map f xs) = Some ys \<Longrightarrow> list_all2 (\<lambda>x y. f x = Some y) xs ys"
  by (induction xs arbitrary: ys) (auto split: option.splits)

text \<open>A well-typed plan with the types of the query's output.\<close>

definition plan_for :: "query_env \<Rightarrow> query \<Rightarrow> plan \<Rightarrow> bool" where
  "plan_for E q p \<longleftrightarrow> plan_ok E p \<and> shape (plan_cols E p) = shape (q_output_cols q)"

lemma union_plan_ok:
  assumes env: "env_ok E" and s: "make_union_schema (map q_output_cols qs) al = Ret cs" and l: "list_all2 (plan_for E) qs ps"
  shows "plan_ok E (UnionPlan ps cs)"
proof -
  have n: "numerics_ok (q_output_cols q)" if "plan_for E q p" for q p
    using plan_typed [OF env, of p] that numerics_shape [of "plan_cols E p"] numerics_shape [of "q_output_cols q"] by (auto simp: plan_for_def rows_ok_def schema_ok_def numerics_ok_def)
  have "qs \<noteq> []" using s by (auto simp: make_union_schema_def split: if_splits)
  then have "numerics_ok (hd (map q_output_cols qs))" using l n by (cases qs; cases ps) auto
  note u = union_schema_ok [OF s this]
  have "union_typed (plan_cols E p) cs" "plan_ok E p" if p: "p \<in> set ps" for p
  proof -
    obtain i where i: "i < length ps" "p = ps ! i" using p by (auto simp: in_set_conv_nth)
    have q: "qs ! i \<in> set qs" "plan_for E (qs ! i) p" using l i by (auto simp: list_all2_conv_all_nth)
    then show "union_typed (plan_cols E p) cs" "plan_ok E p" using u by (auto simp: plan_for_def union_typed_conv)
  qed
  then show ?thesis using u tiled_schema [of cs] union_schema_tiled [OF s] by auto
qed

lemma table_query_ok:
  assumes "tables_ok E" and st: "\<forall>c \<in> set (st_cols st). star_ok c" "\<forall>h \<in> set (st_having st). having_star_ok h" "\<forall>x \<in> set (st_orders st). star_ok (fst x)"
    and a: "analyze_tables (env_tabs E) refs = Ret fi" "analyze_select fp (env_tabs E) st fi = Ret q"
    and g: "generate_select_plan (env_tabs E) skip q = Some (Ret qp)" "seq_plan qp = Some p" and f: "query_fits (env_tabs E) q"
  shows "plan_for E q p"
proof -
  note c = analyze_select_checked [OF st a(2)]
  have fi: "\<not> fi_union fi" "get_all_cols (env_tabs E) (fi_tables fi) (fi_real fi) = Ret (fi_cols fi)"
    using a(1) by (auto simp: analyze_tables_def othen_Ret_iff split: prod.splits)
  have qc: "query_cols (env_tabs E) q = fi_cols fi" using c fi by (simp add: query_cols_def)
  have cov: "covers (env_tabs E) (q_real_names q) (q_tables q) (fi_cols fi)" using get_all_cols_covers [OF fi(2)] c by simp
  obtain qj where j: "make_left_deep_join_plan (env_tabs E) skip q = Some (Ret qj)" "finish_plan q qj = Ret qp"
    using g(1) c fi(1) by (subst (asm) generate_select_plan.simps) (auto simp: cthen_Ret_iff)
  have s: "\<forall>c \<in> set (q_where_conds q @ q_join_conds q). cond_sound (env_tabs E) (q_real_names q) (q_tables q) c"
    using c f [unfolded query_fits.simps [of _ q]] by (auto simp: cond_sound_def)
  have "plan_ok E p0 \<and> same_cols (fi_cols fi) (plan_cols E p0)" if "seq_plan qj = Some p0" for p0
    using left_deep_over [OF assms(1) s j(1) that] covers_same [OF cov] by (simp add: plan_over_def)
  moreover have "body_fits (fi_cols fi) q" using f qc by (simp add: query_fits.simps [of _ q])
  moreover have "body_checked (fi_cols fi) [] q" using c fi(1) by simp
  ultimately show ?thesis unfolding plan_for_def using finish_plan_ok [OF _ _ _ j(2) g(2)] by blast
qed

lemma union_query_ok:
  assumes "env_ok E" and st: "\<forall>c \<in> set (st_cols st). star_ok c" "\<forall>h \<in> set (st_having st). having_star_ok h" "\<forall>x \<in> set (st_orders st). star_ok (fst x)"
    and a: "st_cols st = []" "union_from qs al = Ret fi" "analyze_select fp (env_tabs E) st fi = Ret q"
    and g: "generate_select_plan (env_tabs E) skip q = Some (Ret qp)" "seq_plan qp = Some p" and f: "query_fits (env_tabs E) q"
    and b: "\<And>q' qp' p'. q' \<in> set qs \<Longrightarrow> generate_select_plan (env_tabs E) skip q' = Some (Ret qp') \<Longrightarrow> seq_plan qp' = Some p' \<Longrightarrow> query_fits (env_tabs E) q' \<Longrightarrow> plan_for E q' p'"
  shows "plan_for E q p"
proof -
  note c = analyze_select_checked [OF st a(3)]
  have fi: "fi_union fi" "fi_union_alias fi = al" "fi_branches fi = qs" "make_union_schema (map q_output_cols qs) al = Ret (fi_cols fi)" using a(2) by (auto simp: union_from_def othen_Ret_iff)
  obtain qps where q: "cmap (generate_select_plan (env_tabs E) skip) qs = Some (Ret qps)" "finish_plan q (QUnion qps (q_output_cols q)) = Ret qp"
    using g(1) c fi by (subst (asm) generate_select_plan.simps) (auto simp: cthen_Ret_iff)
  have o1: "q_output_cols q = tile 0 (map (\<lambda>e. (expr_meta (fi_cols fi) e)\<lparr>cm_tab := al\<rparr>) (map star_expr (fi_cols fi)))" using c fi a(1) by (simp add: body_checked_def)
  have "map cm_name (tile off xs) = map cm_name xs" for off xs by (induction xs arbitrary: off) simp_all
  then have "map cm_name (q_output_cols q) = map cm_name (fi_cols fi)" by (simp add: o1 comp_def expr_meta_def star_expr_def)
  then have "distinct (map cm_name (fi_cols fi))" using f c fi(1) by (simp add: query_fits.simps [of _ q])
  then have out: "q_output_cols q = fi_cols fi" using o1 star_output [of "fi_cols fi" al] union_schema_tiled [OF fi(4)] by auto
  have "plan_ok E p0 \<and> same_cols (fi_cols fi) (plan_cols E p0)" if p0: "seq_plan (QUnion qps (q_output_cols q)) = Some p0" for p0
  proof -
    obtain ps where ps: "those (map seq_plan qps) = Some ps" "p0 = UnionPlan ps (q_output_cols q)" using p0 by auto
    have "list_all2 (plan_for E) qs ps"
      using cmap_Ret [OF q(1)] those_all2 [OF ps(1)] b f c fi(3) by (auto simp: list_all2_conv_all_nth query_fits.simps [of _ q])
    then show ?thesis using union_plan_ok [OF assms(1) fi(4)] ps(2) out by simp
  qed
  moreover have "body_fits (fi_cols fi) q" using f c fi(1) out by (simp add: query_fits.simps [of _ q] query_cols_def)
  moreover have "body_checked (fi_cols fi) al q" using c fi by simp
  ultimately show ?thesis unfolding plan_for_def using finish_plan_ok [OF _ _ _ q(2) g(2)] by blast
qed

lemma do_analyze_cases:
  assumes "do_analyze fp C st = Ret q"
  obtains (tables) fi where "analyze_tables C (st_refs st) = Ret fi" "analyze_select fp C st fi = Ret q"
    | (union) branches al qs fi where "st_refs st = [DerivedUnion branches al]" "st_cols st = []" "omap (do_analyze fp C) branches = Ret qs"
        "union_from qs al = Ret fi" "analyze_select fp C st fi = Ret q"
  using assms by (cases "(fp, C, st)" rule: do_analyze.cases) (auto simp: othen_Ret_iff split: if_splits)

lemma analyzed_plan_for:
  assumes "env_ok E" "tables_ok E"
  shows "parsed st \<Longrightarrow> do_analyze fp (env_tabs E) st = Ret q \<Longrightarrow> generate_select_plan (env_tabs E) skip q = Some (Ret qp) \<Longrightarrow> seq_plan qp = Some p \<Longrightarrow>
    query_fits (env_tabs E) q \<Longrightarrow> plan_for E q p"
proof (induction "size st" arbitrary: st q qp p rule: less_induct)
  case less
  have st: "\<forall>c \<in> set (st_cols st). star_ok c" "\<forall>h \<in> set (st_having st). having_star_ok h" "\<forall>x \<in> set (st_orders st). star_ok (fst x)" "\<forall>r \<in> set (st_refs st). parsed_ref r"
    using less.prems(1) by (cases st; simp)+
  from less.prems(2) show ?case
  proof (cases rule: do_analyze_cases)
    case (tables fi)
    then show ?thesis using table_query_ok [OF assms(2) st(1-3)] less.prems by blast
  next
    case (union branches al qs fi)
    have b: "size b < size st \<and> parsed b" if "b \<in> set branches" for b
      using that union(1) st(4) size_list_estimation' [OF that, of "size b" size] by (cases st) auto
    have "plan_for E q' p'" if "q' \<in> set qs" "generate_select_plan (env_tabs E) skip q' = Some (Ret qp')" "seq_plan qp' = Some p'" "query_fits (env_tabs E) q'" for q' qp' p'
      using omap_Ret_all [OF union(3) that(1)] b less.hyps that(2-4) by blast
    then show ?thesis using union_query_ok [OF assms(1) st(1-3) union(2,4,5) less.prems(3-5)] by blast
  qed
qed

lemma plan_generation_ends: "\<exists>r. generate_select_plan C skip q = Some r"
proof (induction "size q" arbitrary: q rule: less_induct)
  case less
  have "\<exists>r. cmap (generate_select_plan C skip) bs = Some r" if "\<forall>b \<in> set bs. \<exists>r. generate_select_plan C skip b = Some r" for bs
    using that by (induction bs) (auto simp: cthen_def split: outcome.splits)
  then have b: "\<exists>r. cmap (generate_select_plan C skip) (q_union_branches q) = Some r" using less query_branch_size by blast
  have j: "\<exists>r. make_left_deep_join_plan C skip q = Some r"
  proof (cases "q_tables q")
    case (Cons t ts)
    obtain f joins where w: "split_where (q_where_conds q) (\<lambda>_. []) (q_join_conds q) = (f, joins)" by fastforce
    obtain r where "PropagateEqualityConstants C (q_real_names q) joins f = Some r" using propagation_ends by blast
    then show ?thesis using Cons w by (cases r) (simp_all add: make_left_deep_join_plan_def)
  qed (simp add: make_left_deep_join_plan_def)
  show ?case using b j by (subst generate_select_plan.simps) (auto simp: cthen_def split: outcome.splits)
qed


subsection \<open>Example\<close>

definition ex_sv :: "string \<Rightarrow> string \<Rightarrow> sv_col" where
  "ex_sv tab name = \<lparr>sc_tab = tab, sc_col = name, sc_is_aggregate = False, sc_agg_func = AGG_COUNT, sc_count_star = False, sc_alias = []\<rparr>"

text \<open>\<open>SELECT COUNT(*), MAX(x.a) FROM t x, t y WHERE x.a <= y.a\<close>.\<close>

definition ex_stmt :: select_stmt where
  "ex_stmt = SelectStmt [(ex_sv [] [])\<lparr>sc_is_aggregate := True, sc_count_star := True\<rparr>, (ex_sv ''x'' ''a'')\<lparr>sc_is_aggregate := True, sc_agg_func := AGG_MAX\<rparr>]
     [TableRef ''t'' ''x'', TableRef ''t'' ''y''] [\<lparr>sv_lhs = ex_sv ''x'' ''a'', sv_op = SV_OP_LE, sv_rhs = SvCol (ex_sv ''y'' ''a'')\<rparr>] [] [] [] [] (- 1)"

definition ex_exprs :: "select_expr list" where
  "ex_exprs = [\<lparr>is_aggregate = True, agg_func_of = AGG_COUNT, count_star = True, expr_col = \<lparr>tc_tab = '''', tc_col = ''''\<rparr>, output_name = ''COUNT(*)''\<rparr>,
      \<lparr>is_aggregate = True, agg_func_of = AGG_MAX, count_star = False, expr_col = \<lparr>tc_tab = ''x'', tc_col = ''a''\<rparr>, output_name = ''MAX(a)''\<rparr>]"

definition ex_query :: query where
  "ex_query = Query [''x'', ''y''] [''x'' \<mapsto> ''t'', ''y'' \<mapsto> ''t''] [ex_cond] [] [] ex_exprs [] [] [] True (- 1) False []
     [\<lparr>cm_tab = [], cm_name = ''COUNT(*)'', cm_type = TYPE_INT, cm_len = 4, cm_offset = 0\<rparr>, \<lparr>cm_tab = [], cm_name = ''MAX(a)'', cm_type = TYPE_INT, cm_len = 4, cm_offset = 4\<rparr>]"

lemma ex_env_tabs: "env_tabs ex_env = [''t'' \<mapsto> ex_tab]" "env_fp ex_env = ex_fp"
  by (simp_all add: ex_env_def)

lemma ex_all_cols: "get_all_cols [''t'' \<mapsto> ex_tab] [''x'', ''y''] [''x'' \<mapsto> ''t'', ''y'' \<mapsto> ''t''] = Ret (scan_cols ex_tab ''x'' @ scan_cols ex_tab ''y'')"
  by (simp add: get_all_cols_def lookup_name_def get_table_def)

lemma ex_analyzed: "do_analyze ex_fp [''t'' \<mapsto> ex_tab] ex_stmt = Ret ex_query"
proof -
  have a: "analyze_tables [''t'' \<mapsto> ex_tab] (st_refs ex_stmt) = Ret \<lparr>fi_tables = [''x'', ''y''], fi_real = [''x'' \<mapsto> ''t'', ''y'' \<mapsto> ''t''], fi_alias = [''x'' \<mapsto> ''x'', ''y'' \<mapsto> ''y''],
      fi_cols = scan_cols ex_tab ''x'' @ scan_cols ex_tab ''y'', fi_union = False, fi_union_alias = [], fi_branches = []\<rparr>"
    by (simp add: analyze_tables_def ex_stmt_def table_names_def check_table_exists_def visible_name_def ex_all_cols fun_upd_twist Let_def)
  have e: "omap (make_select_expr (scan_cols ex_tab ''x'' @ scan_cols ex_tab ''y'') [''x'' \<mapsto> ''x'', ''y'' \<mapsto> ''y'']) (st_cols ex_stmt) = Ret ex_exprs" by code_simp
  have o1: "output_cols_of [] (scan_cols ex_tab ''x'' @ scan_cols ex_tab ''y'') ex_exprs 0 = Ret (q_output_cols ex_query)" by code_simp
  have w: "get_clause (st_where ex_stmt) = Ret [ex_cond]" by code_simp
  have c: "check_clause ex_fp [''t'' \<mapsto> ex_tab] [''x'', ''y''] [ex_cond] [''x'' \<mapsto> ''x'', ''y'' \<mapsto> ''y''] [''x'' \<mapsto> ''t'', ''y'' \<mapsto> ''t''] = Ret [ex_cond]"
    by code_simp
  have n: "check_clause ex_fp [''t'' \<mapsto> ex_tab] [''x'', ''y''] [] [''x'' \<mapsto> ''x'', ''y'' \<mapsto> ''y''] [''x'' \<mapsto> ''t'', ''y'' \<mapsto> ''t''] = Ret []" by code_simp
  have "list_ex is_aggregate ex_exprs" "list_all (in_group []) ex_exprs" "filter (\<lambda>e. \<not> is_aggregate e) ex_exprs = []" by (simp_all add: ex_exprs_def in_group_def)
  then have "analyze_select ex_fp [''t'' \<mapsto> ex_tab] ex_stmt \<lparr>fi_tables = [''x'', ''y''], fi_real = [''x'' \<mapsto> ''t'', ''y'' \<mapsto> ''t''], fi_alias = [''x'' \<mapsto> ''x'', ''y'' \<mapsto> ''y''],
      fi_cols = scan_cols ex_tab ''x'' @ scan_cols ex_tab ''y'', fi_union = False, fi_union_alias = [], fi_branches = []\<rparr> = Ret ex_query"
    using e o1 w c n by (simp add: analyze_select_def ex_stmt_def contains_aggregate_def ex_sv_def get_clause_def ex_query_def)
  then show ?thesis using a by (simp add: ex_stmt_def)
qed

definition ex_qplan :: qplan where
  "ex_qplan = QAggregate (QJoin (QScan ''x'' ''t'' []) (QScan ''y'' ''t'' []) [ex_cond]) ex_exprs [] []"

lemma ex_joined: "make_left_deep_join_plan [''t'' \<mapsto> ex_tab] False ex_query = Some (Ret (QJoin (QScan ''x'' ''t'' []) (QScan ''y'' ''t'' []) [ex_cond]))"
proof -
  have w: "split_where [ex_cond] (\<lambda>_. []) [] = (\<lambda>_. [], [ex_cond])" by (simp add: ex_cond_def)
  have f: "PropagateEqualityConstants [''t'' \<mapsto> ex_tab] [''x'' \<mapsto> ''t'', ''y'' \<mapsto> ''t''] [ex_cond] (\<lambda>_. []) = Some (Ret (\<lambda>_. []))"
    by (subst PropagateEqualityConstants.simps) (simp add: propagate_join_def ex_cond_def)
  have s: "make_scan [''t'' \<mapsto> ex_tab] False ex_query (\<lambda>_. []) t = Ret (QScan t ''t'' [])" if "t \<in> {''x'', ''y''}" for t
    using that by (auto simp: make_scan_def ex_query_def lookup_name_def get_table_def get_index_cols_def ex_tab_def)
  have j: "join_tables [''t'' \<mapsto> ex_tab] False ex_query (\<lambda>_. []) [ex_cond] [''x''] [''y''] (QScan ''x'' ''t'' []) = Ret (QJoin (QScan ''x'' ''t'' []) (QScan ''y'' ''t'' []) [ex_cond])"
    using s [of "''y''"] by (simp add: ex_query_def lookup_name_def get_table_def connects_def ex_cond_def Let_def)
  show ?thesis using w f s [of "''x''"] j by (simp add: make_left_deep_join_plan_def ex_query_def)
qed

lemma ex_planned: "generate_select_plan [''t'' \<mapsto> ex_tab] False ex_query = Some (Ret ex_qplan)" "seq_plan ex_qplan = Some ex_plan"
proof -
  show "generate_select_plan [''t'' \<mapsto> ex_tab] False ex_query = Some (Ret ex_qplan)"
    using ex_joined by (subst generate_select_plan.simps) (simp add: ex_query_def finish_plan_def generate_sort_plan_def ex_qplan_def)
  show "seq_plan ex_qplan = Some ex_plan" by (simp add: ex_qplan_def ex_plan_def ex_exprs_def)
qed

lemma ex_query_fits: "query_fits [''t'' \<mapsto> ex_tab] ex_query"
  by (subst query_fits.simps) (simp add: ex_query_def body_fits_def lengths_fit_def meta_of_def col_meta_at_def lookup_name_def ex_cond_def ex_tab_def)

lemma ex_tables_ok: "tables_ok ex_env"
  using ex_table_ok by (simp add: tables_ok_def ex_env_tabs)


end
