(* ===== verification/Rmdb_Join_Props.thy ===== *)
theory Rmdb_Join_Props
  imports Rmdb_Plan_Props
begin

text \<open>
  The plan of the joins computes the product of the tables filtered by the conditions. The conditions on one table go into its scan, those between two tables into the join
  at which the second of them is added, and constants are copied over equalities; none of this changes the rows or their order.
\<close>

subsection \<open>Conditions on a joined row\<close>

lemma join_field_left:
  assumes "has_col cs x" "schema_ok cs n" "length a = n"
  shows "field (a @ b) (col_of (cs @ shift n ds) x) = field a (col_of cs x) \<and> cm_type (col_of (cs @ shift n ds) x) = cm_type (col_of cs x) \<and> cm_len (col_of (cs @ shift n ds) x) = cm_len (col_of cs x)"
  using assms col_of_append [of cs "shift n ds" x] schema_okD [OF assms(2) col_of_in [OF assms(1)]] by (simp add: field_def)

lemma join_field_right:
  assumes "\<not> has_col cs x" "has_col ds x" "length a = n"
  shows "field (a @ b) (col_of (cs @ shift n ds) x) = field b (col_of ds x) \<and> cm_type (col_of (cs @ shift n ds) x) = cm_type (col_of ds x) \<and> cm_len (col_of (cs @ shift n ds) x) = cm_len (col_of ds x)"
  using assms col_of_append [of cs "shift n ds" x] col_of_shift [OF assms(2)] by (simp add: field_def)

lemma cond_holds_left:
  assumes "cond_typed cs c" "schema_ok cs n" "length a = n"
  shows "cond_holds (cs @ shift n ds) (a @ b) c = cond_holds cs a c"
  using assms join_field_left [of cs _ n a b ds] by (auto simp: cond_holds_def cond_typed_def Let_def)

lemma cond_holds_right:
  assumes "cond_typed ds c" "length a = n" "\<not> has_col cs (lhs_col c)" "is_rhs_val c \<or> \<not> has_col cs (rhs_col c)"
  shows "cond_holds (cs @ shift n ds) (a @ b) c = cond_holds ds b c"
  using assms join_field_right [of cs "lhs_col c" ds a n b] join_field_right [of cs "rhs_col c" ds a n b] by (auto simp: cond_holds_def cond_typed_def Let_def)

lemma filter_product:
  assumes "\<And>a b. a \<in> set as \<Longrightarrow> b \<in> set bs \<Longrightarrow> S' (f a b) \<longleftrightarrow> P a \<and> Q b \<and> S (f a b)"
  shows "filter S (concat (map (\<lambda>a. map (f a) (filter Q bs)) (filter P as))) = filter S' (concat (map (\<lambda>a. map (f a) bs) as))"
proof -
  have "filter S' (map (f a) bs) = (if P a then filter S (map (f a) (filter Q bs)) else [])" if "a \<in> set as" for a
    using assms [OF that] by (induction bs) auto
  then show ?thesis using assms by (induction as) auto
qed

subsection \<open>Pushing conditions down\<close>

fun cross_plan :: "(string \<rightharpoonup> string) \<Rightarrow> plan \<Rightarrow> string list \<Rightarrow> plan" where
  "cross_plan real p [] = p"
| "cross_plan real p (t # ts) = cross_plan real (JoinPlan p (ScanPlan t (lookup_name real t) []) []) ts"

text \<open>The product of the tables of a query, in the order of the \<open>FROM\<close> clause.\<close>

definition from_product :: "query \<Rightarrow> plan" where
  "from_product q = (let real = q_real_names q; t = hd (q_tables q) in cross_plan real (ScanPlan t (lookup_name real t) []) (tl (q_tables q)))"

definition cond_on :: "string list \<Rightarrow> condition \<Rightarrow> bool" where
  "cond_on ts c \<longleftrightarrow> tc_tab (lhs_col c) \<in> set ts \<and> (is_rhs_val c \<or> tc_tab (rhs_col c) \<in> set ts)"

definition between_tables :: "condition \<Rightarrow> bool" where
  "between_tables c \<longleftrightarrow> \<not> is_rhs_val c \<and> tc_tab (lhs_col c) \<noteq> tc_tab (rhs_col c)"

definition pushed :: "filters \<Rightarrow> condition list \<Rightarrow> string list \<Rightarrow> condition list" where
  "pushed filters joins ts = concat (map filters ts) @ filter (cond_on ts) joins"

definition filtered :: "query_env \<Rightarrow> plan \<Rightarrow> plan \<Rightarrow> condition list \<Rightarrow> bool" where
  "filtered E p x conds \<longleftrightarrow> plan_cols E p = plan_cols E x \<and> plan_len E p = plan_len E x
     \<and> plan_rows E p = filter (\<lambda>r. \<forall>c \<in> set conds. cond_holds (plan_cols E x) r c) (plan_rows E x)"

lemma set_pushed_Cons:
  assumes "\<forall>c \<in> set joins. between_tables c" "right \<notin> set joined"
  shows "set (pushed filters joins (joined @ [right])) = set (pushed filters joins joined) \<union> set (filters right) \<union> set (filter (connects joined right) joins)"
  using assms by (auto simp: pushed_def cond_on_def connects_def between_tables_def)

lemma cond_sound_on: "cond_sound C real us c \<Longrightarrow> cond_on ts c \<Longrightarrow> cond_sound C real ts c"
  by (auto simp: cond_sound_def cond_checked_def cond_on_def names_col_def split: if_splits)

lemma cond_sound_table: "cond_sound C real [t] c \<Longrightarrow> t \<in> set ts \<Longrightarrow> cond_on ts c"
  by (auto simp: cond_sound_def cond_checked_def cond_on_def names_col_def split: if_splits)

lemma pushed_sound:
  assumes "filters_sound C real filters" "\<forall>c \<in> set joins. cond_sound C real us c" "c \<in> set (pushed filters joins ts)"
  shows "cond_sound C real ts c"
proof -
  consider t where "t \<in> set ts" "c \<in> set (filters t)" | "c \<in> set joins" "cond_on ts c" using assms(3) by (auto simp: pushed_def)
  then show ?thesis
  proof cases
    case 1
    then show ?thesis using assms(1) cond_sound_on [OF _ cond_sound_table [of C real t c ts]] unfolding filters_sound_def by blast
  next
    case 2
    then show ?thesis using assms(2) cond_sound_on by blast
  qed
qed

lemma join_filtered:
  assumes env: "env_ok E" and s: "filters_sound (env_tabs E) real filters" "\<forall>c \<in> set joins. cond_sound (env_tabs E) real us c" "\<forall>c \<in> set joins. between_tables c" "right \<notin> set joined"
    and x: "plan_over E real joined x" and y: "plan_over E real [right] (ScanPlan right real_right [])" and f: "filtered E p x (pushed filters joins joined)"
  shows "filtered E (JoinPlan p (ScanPlan right real_right (filters right)) (filter (connects joined right) joins)) (JoinPlan x (ScanPlan right real_right []) [])
    (pushed filters joins (joined @ [right]))"
proof -
  let ?y = "ScanPlan right real_right []" and ?cs = "plan_cols E x" and ?n = "plan_len E x" and ?ds = "plan_cols E (ScanPlan right real_right [])"
  have rx: "rows_ok (plan_rows E x) ?cs ?n" using plan_typed [OF env] x by (simp add: plan_over_def)
  have l: "cond_holds (?cs @ shift ?n ?ds) (a @ b) c = cond_holds ?cs a c" if "a \<in> set (plan_rows E x)" "c \<in> set (pushed filters joins joined)" for a b c
    using cond_holds_left [of ?cs c ?n a ?ds b] covers_sound [of "env_tabs E" real joined ?cs c] pushed_sound [OF s(1,2) that(2)] x rx that(1) by (simp add: plan_over_def rows_ok_def)
  have r: "cond_holds (?cs @ shift ?n ?ds) (a @ b) c = cond_holds ?ds b c" if "a \<in> set (plan_rows E x)" "c \<in> set (filters right)" for a b c
  proof -
    have c: "cond_sound (env_tabs E) real [right] c" using s(1) that(2) by (simp add: filters_sound_def)
    have "\<not> has_col ?cs (lhs_col c)" "is_rhs_val c \<or> \<not> has_col ?cs (rhs_col c)"
      using c s(4) x by (auto simp: plan_over_def covers_def cond_sound_def cond_checked_def names_col_def split: if_splits)
    moreover have "cond_typed ?ds c" using covers_sound [of "env_tabs E" real "[right]" ?ds c] y c unfolding plan_over_def by blast
    ultimately show ?thesis using cond_holds_right [of ?ds c a ?n ?cs b] rx that(1) by (simp add: rows_ok_def)
  qed
  have "filter (\<lambda>t. \<forall>c \<in> set (filter (connects joined right) joins). cond_holds (?cs @ shift ?n ?ds) t c)
      (concat (map (\<lambda>a. map (\<lambda>b. a @ b) (filter (\<lambda>b. \<forall>c \<in> set (filters right). cond_holds ?ds b c) (plan_rows E ?y))) (filter (\<lambda>a. \<forall>c \<in> set (pushed filters joins joined). cond_holds ?cs a c) (plan_rows E x))))
    = filter (\<lambda>t. \<forall>c \<in> set (pushed filters joins (joined @ [right])). cond_holds (?cs @ shift ?n ?ds) t c) (concat (map (\<lambda>a. map (\<lambda>b. a @ b) (plan_rows E ?y)) (plan_rows E x)))"
  proof (rule filter_product)
    fix a b assume a: "a \<in> set (plan_rows E x)"
    have "(\<forall>c \<in> set (pushed filters joins joined). cond_holds (?cs @ shift ?n ?ds) (a @ b) c) \<longleftrightarrow> (\<forall>c \<in> set (pushed filters joins joined). cond_holds ?cs a c)" using l [OF a] by blast
    moreover have "(\<forall>c \<in> set (filters right). cond_holds (?cs @ shift ?n ?ds) (a @ b) c) \<longleftrightarrow> (\<forall>c \<in> set (filters right). cond_holds ?ds b c)" using r [OF a] by blast
    ultimately show "(\<forall>c \<in> set (pushed filters joins (joined @ [right])). cond_holds (?cs @ shift ?n ?ds) (a @ b) c)
      \<longleftrightarrow> (\<forall>c \<in> set (pushed filters joins joined). cond_holds ?cs a c) \<and> (\<forall>c \<in> set (filters right). cond_holds ?ds b c)
        \<and> (\<forall>c \<in> set (filter (connects joined right) joins). cond_holds (?cs @ shift ?n ?ds) (a @ b) c)"
      unfolding set_pushed_Cons [OF s(3,4)] ball_Un by blast
  qed
  then show ?thesis using f by (simp add: filtered_def)
qed

lemma scan_over:
  assumes ok: "tables_ok E" and t: "env_tabs E (lookup_name real t) \<noteq> None" and f: "\<forall>c \<in> set conds. cond_sound (env_tabs E) real [t] c"
  shows "plan_over E real [t] (ScanPlan t (lookup_name real t) conds)"
proof -
  obtain tab where t: "env_tabs E (lookup_name real t) = Some tab" using t by blast
  have n: "real_name t (lookup_name real t) = lookup_name real t" "table_ok E (lookup_name real t)" using ok t by (auto simp: tables_ok_def real_name_def)
  have c: "covers (env_tabs E) real [t] (scan_cols tab t)" using scan_cols_covers [of "env_tabs E" real t tab] t by simp
  have "\<forall>c \<in> set conds. cond_typed (scan_cols tab t) c" using covers_sound [OF c] f by blast
  then show ?thesis using n c t by (simp add: plan_over_def)
qed

lemma scan_filtered: "filtered E (ScanPlan t real conds) (ScanPlan t real []) conds"
  by (simp add: filtered_def)

lemma join_tables_filtered:
  assumes env: "env_ok E" "tables_ok E" and s: "filters_sound (env_tabs E) (q_real_names q) filters" "\<forall>c \<in> set joins. cond_sound (env_tabs E) (q_real_names q) us c" "\<forall>c \<in> set joins. between_tables c"
    and "distinct (joined @ tables)" "join_tables (env_tabs E) skip q filters joins joined tables root = Ret qp" "seq_plan qp = Some p" "plan_over E (q_real_names q) joined x"
    and "\<And>p0. seq_plan root = Some p0 \<Longrightarrow> filtered E p0 x (pushed filters joins joined)"
  shows "filtered E p (cross_plan (q_real_names q) x tables) (pushed filters joins (joined @ tables)) \<and> plan_over E (q_real_names q) (joined @ tables) (cross_plan (q_real_names q) x tables)"
  using assms(6-)
proof (induction tables arbitrary: joined root x)
  case (Cons right tables)
  let ?level = "filter (connects joined right) joins" and ?real = "lookup_name (q_real_names q) right"
  obtain tab root' where r: "env_tabs E ?real = Some tab"
      "(case find_index_join tab joined right ?level of Some (outer, inner) \<Rightarrow> Ret (QIndexJoin root right ?real (filters right) ?level outer inner)
         | None \<Rightarrow> othen (make_scan (env_tabs E) skip q filters right) (\<lambda>scan. Ret (QJoin root scan ?level))) = Ret root'"
      "join_tables (env_tabs E) skip q filters joins (joined @ [right]) tables root' = Ret qp"
    using Cons.prems(2) by (auto simp: othen_Ret_iff Let_def get_table_def split: option.splits)
  have y: "plan_over E (q_real_names q) [right] (ScanPlan right ?real [])" using scan_over [OF env(2)] r(1) by simp
  let ?x = "JoinPlan x (ScanPlan right ?real []) []"
  have ox: "plan_over E (q_real_names q) (joined @ [right]) ?x" using join_over [OF Cons.prems(4) y] by simp
  have "filtered E p0 ?x (pushed filters joins (joined @ [right]))" if sp: "seq_plan root' = Some p0" for p0
  proof (cases "find_index_join tab joined right ?level")
    case None
    then obtain scan pl ps where c: "make_scan (env_tabs E) skip q filters right = Ret scan" "seq_plan root = Some pl" "seq_plan scan = Some ps" "p0 = JoinPlan pl ps ?level"
      using r(2) sp by (auto simp: othen_Ret_iff bind_eq_Some_conv)
    show ?thesis using join_filtered [OF env(1) s _ Cons.prems(4) y Cons.prems(5) [OF c(2)]] make_scan_over [OF env(2) s(1) c(1,3)] Cons.prems(1) c(4) by simp
  next
    case (Some oi)
    then show ?thesis using r(2) sp by (cases oi) auto
  qed
  then show ?case using Cons.IH [OF _ r(3) Cons.prems(3) ox] Cons.prems(1) by simp
qed simp

subsection \<open>Copying constants\<close>

lemma memcmp_eq: "length a = n \<Longrightarrow> length b = n \<Longrightarrow> memcmp n a b = 0 \<longleftrightarrow> a = b"
  by (induction n a b rule: memcmp.induct) (auto dest: word_uint_eqI)

text \<open>Equality of values of one type and length is transitive over a value that is not a NaN, with which every comparison is an equality.\<close>

lemma compare_eq_trans:
  assumes "ix_compare_col x y ty n = 0" "ix_compare_col x k ty n = 0" "length x = n" "length y = n" "length k = n" "ty = TYPE_FLOAT \<longrightarrow> \<not> float_is_nan x"
  shows "ix_compare_col y k ty n = 0"
proof (cases ty)
  case TYPE_STRING
  then show ?thesis using assms memcmp_eq by simp
qed (use assms in \<open>auto simp: Let_def float_less_def split: if_splits\<close>)

lemma compare_eq_sym: "ix_compare_col x y ty n = 0 \<Longrightarrow> length x = n \<Longrightarrow> length y = n \<Longrightarrow> ix_compare_col y x ty n = 0"
  by (cases ty) (auto simp: Let_def memcmp_eq split: if_splits)

definition nan_free :: "query_env \<Rightarrow> bool" where
  "nan_free E \<longleftrightarrow> (\<forall>name tab. env_tabs E name = Some tab \<longrightarrow> (\<forall>r \<in> set (table_rows E name). \<forall>c \<in> set (tm_cols tab). cm_type c = TYPE_FLOAT \<longrightarrow> \<not> float_is_nan (field r c)))"

definition nan_free_row :: "col_meta list \<Rightarrow> byte list \<Rightarrow> bool" where
  "nan_free_row cs r \<longleftrightarrow> (\<forall>y. has_col cs y \<longrightarrow> cm_type (col_of cs y) = TYPE_FLOAT \<longrightarrow> \<not> float_is_nan (field r (col_of cs y)))"

lemma scan_nan_free:
  assumes "nan_free E" "tables_ok E" "env_tabs E (lookup_name real t) \<noteq> None" "r \<in> set (plan_rows E (ScanPlan t (lookup_name real t) []))"
  shows "nan_free_row (plan_cols E (ScanPlan t (lookup_name real t) [])) r"
proof -
  obtain tab where t: "env_tabs E (lookup_name real t) = Some tab" using assms(3) by blast
  have n: "real_name t (lookup_name real t) = lookup_name real t" using assms(2) t by (auto simp: tables_ok_def real_name_def)
  have "\<not> float_is_nan (field r c)" if "c \<in> set (scan_cols tab t)" "cm_type c = TYPE_FLOAT" for c
    using that assms(1,4) t n unfolding nan_free_def by (fastforce simp: scan_cols_def field_def)
  then show ?thesis using t n col_of_in by (auto simp: nan_free_row_def)
qed

lemma join_nan_free:
  assumes "schema_ok cs n" "length a = n" "nan_free_row cs a" "nan_free_row ds b"
  shows "nan_free_row (cs @ shift n ds) (a @ b)"
  unfolding nan_free_row_def
proof (intro allI impI)
  fix y assume y: "has_col (cs @ shift n ds) y" "cm_type (col_of (cs @ shift n ds) y) = TYPE_FLOAT"
  show "\<not> float_is_nan (field (a @ b) (col_of (cs @ shift n ds) y))"
  proof (cases "has_col cs y")
    case True
    then show ?thesis using join_field_left [OF True assms(1,2), of b ds] y(2) assms(3) by (auto simp: nan_free_row_def)
  next
    case False
    then have "has_col ds y" using y(1) by (simp add: has_col_append)
    then show ?thesis using join_field_right [OF False _ assms(2), of ds b] y(2) assms(4) by (auto simp: nan_free_row_def)
  qed
qed

lemma cross_nan_free:
  assumes "env_ok E" "nan_free E" "tables_ok E"
  shows "\<forall>t \<in> set ts. env_tabs E (lookup_name real t) \<noteq> None \<Longrightarrow> plan_ok E p \<Longrightarrow> \<forall>r \<in> set (plan_rows E p). nan_free_row (plan_cols E p) r \<Longrightarrow>
    \<forall>r \<in> set (plan_rows E (cross_plan real p ts)). nan_free_row (plan_cols E (cross_plan real p ts)) r"
proof (induction ts arbitrary: p)
  case (Cons t ts)
  let ?s = "ScanPlan t (lookup_name real t) []"
  have y: "plan_ok E ?s" using scan_over [OF assms(3), of real t "[]"] Cons.prems(1) by (simp add: plan_over_def)
  have "nan_free_row (plan_cols E (JoinPlan p ?s [])) (a @ b)" if "a \<in> set (plan_rows E p)" "b \<in> set (plan_rows E ?s)" for a b
    using join_nan_free [of "plan_cols E p" "plan_len E p" a "plan_cols E ?s" b] plan_typed [OF assms(1) Cons.prems(2)] scan_nan_free [OF assms(2,3), of real t b] Cons.prems(1,3) that
    by (simp add: rows_ok_def del: plan_cols.simps(1) plan_rows.simps(1))
  then have "\<forall>r \<in> set (plan_rows E (JoinPlan p ?s [])). nan_free_row (plan_cols E (JoinPlan p ?s [])) r" by (auto simp del: plan_cols.simps plan_rows.simps(1))
  then show ?case using Cons.IH [of "JoinPlan p ?s []"] Cons.prems(1,2) y by simp
qed simp

lemma field_length: "schema_ok cs n \<Longrightarrow> has_col cs x \<Longrightarrow> length r = n \<Longrightarrow> length (field r (col_of cs x)) = cm_len (col_of cs x)"
  using schema_okD [OF _ col_of_in, of cs n x] by (auto simp: field_def)

lemma all_upd: "(\<forall>t. \<forall>d \<in> set ((f(k := f k @ [c])) t). P d) \<longleftrightarrow> (\<forall>t. \<forall>d \<in> set (f t). P d) \<and> P c"
proof (intro iffI conjI)
  assume a: "\<forall>t. \<forall>d \<in> set ((f(k := f k @ [c])) t). P d"
  show "P c" using spec [OF a, of k] by simp
  have "P d" if "d \<in> set (f t)" for d t using spec [OF a, of t] that by (cases "t = k") auto
  then show "\<forall>t. \<forall>d \<in> set (f t). P d" by blast
qed auto

definition all_hold :: "col_meta list \<Rightarrow> byte list \<Rightarrow> filters \<Rightarrow> bool" where
  "all_hold cs r f \<longleftrightarrow> (\<forall>t. \<forall>c \<in> set (f t). cond_holds cs r c)"

lemma derives_holds:
  assumes cov: "covers C real ts cs" and sc: "schema_ok cs n" "length r = n" and nan: "nan_free_row cs r" and f: "filters_sound C real f" "all_hold cs r f"
    and names: "names_col C real ts source" "names_col C real ts target" and d: "derives C real source target f f'"
    and eq: "cm_type (col_of cs source) = cm_type (col_of cs target) \<Longrightarrow> cm_len (col_of cs source) = cm_len (col_of cs target) \<Longrightarrow>
      ix_compare_col (field r (col_of cs source)) (field r (col_of cs target)) (cm_type (col_of cs source)) (cm_len (col_of cs source)) = 0"
  shows "all_hold cs r f'"
proof -
  let ?S = "col_of cs source" and ?T = "col_of cs target"
  obtain c s t where c: "find_constant f source = Some c" "col_meta_at C real source = Some s" "col_meta_at C real target = Some t" "cm_type s = cm_type t" "cm_len s = cm_len t"
      "f' = f(tc_tab target := f (tc_tab target) @ [c\<lparr>lhs_col := target\<rparr>])" using d by (auto simp: derives_def)
  have h: "has_col cs source" "has_col cs target" using names cov by (simp_all add: covers_def)
  have m: "cm_type ?S = cm_type s" "cm_len ?S = cm_len s" "cm_type ?T = cm_type t" "cm_len ?T = cm_len t" using cov h c(2,3) by (simp_all add: covers_def meta_of_def)
  have cc: "c \<in> set (f (tc_tab source))" "is_rhs_val c" "cond_op c = OP_EQ" "tc_col (lhs_col c) = tc_col source" using find_constant_props [OF c(1)] by simp_all
  have cs: "cond_sound C real [tc_tab source] c" using f(1) cc(1) by (simp add: filters_sound_def)
  have l: "lhs_col c = source" using cs cc(4) tab_col_eq [of "lhs_col c" source] by (auto simp: cond_sound_def cond_checked_def names_col_def)
  obtain raw where raw: "v_raw (rhs_val c) = Some raw" "length raw = cm_len s" using cs cc(2) l c(2) by (auto simp: cond_sound_def cond_checked_def meta_of_def)
  have "cond_holds cs r c" using f(2) cc(1) by (auto simp: all_hold_def)
  then have k: "ix_compare_col (field r ?S) raw (cm_type s) (cm_len s) = 0" using cc l raw m by (simp add: cond_holds_def value_bytes_def)
  have len: "length (field r ?S) = cm_len s" "length (field r ?T) = cm_len s"
    using field_length [OF sc(1) _ sc(2)] h m c(5) by simp_all
  have "cm_type s = TYPE_FLOAT \<longrightarrow> \<not> float_is_nan (field r ?S)" using nan h(1) m(1) by (simp add: nan_free_row_def)
  then have "ix_compare_col (field r ?T) raw (cm_type s) (cm_len s) = 0" using compare_eq_trans [OF _ k len raw(2)] eq m c(4,5) by simp
  then have "cond_holds cs r (c\<lparr>lhs_col := target\<rparr>)" using cc raw m c(4,5) by (simp add: cond_holds_def value_bytes_def)
  then show ?thesis using f(2) unfolding c(6) all_hold_def all_upd by blast
qed

lemma derives_mono: "derives C real source target f f' \<Longrightarrow> all_hold cs r f' \<Longrightarrow> all_hold cs r f"
  by (auto simp: derives_def all_hold_def all_upd simp del: fun_upd_apply)

text \<open>On a row that satisfies the join conditions, the conditions after the propagation hold exactly if those before do.\<close>

lemma propagation_same_rows:
  assumes cov: "covers C real ts cs" and sc: "schema_ok cs n" "length r = n" and nan: "nan_free_row cs r" and j: "\<forall>c \<in> set joins. cond_sound C real ts c \<and> cond_holds cs r c"
    and p: "PropagateEqualityConstants C real joins f0 = Some (Ret f)" and f0: "filters_sound C real f0"
  shows "all_hold cs r f \<longleftrightarrow> all_hold cs r f0"
proof -
  have "filters_sound C real f \<and> (all_hold cs r f \<longleftrightarrow> all_hold cs r f0)"
  proof (rule propagation_invariant [where I = "\<lambda>f. filters_sound C real f \<and> (all_hold cs r f \<longleftrightarrow> all_hold cs r f0)", OF p])
    show "filters_sound C real f0 \<and> (all_hold cs r f0 \<longleftrightarrow> all_hold cs r f0)" using f0 by simp
  next
    fix k g g' assume k: "k \<in> set joins" "\<not> is_rhs_val k" "cond_op k = OP_EQ" and i: "filters_sound C real g \<and> (all_hold cs r g \<longleftrightarrow> all_hold cs r f0)"
      and d: "derives C real (lhs_col k) (rhs_col k) g g' \<or> derives C real (rhs_col k) (lhs_col k) g g'"
    let ?l = "col_of cs (lhs_col k)" and ?r = "col_of cs (rhs_col k)"
    have nm: "names_col C real ts (lhs_col k)" "names_col C real ts (rhs_col k)" using j k by (auto simp: cond_sound_def cond_checked_def)
    have e: "ix_compare_col (field r ?l) (field r ?r) (cm_type ?l) (cm_len ?l) = 0" using bspec [OF j k(1)] k by (simp add: cond_holds_def Let_def)
    have h: "has_col cs (lhs_col k)" "has_col cs (rhs_col k)" using nm cov by (simp_all add: covers_def)
    have e': "ix_compare_col (field r ?r) (field r ?l) (cm_type ?r) (cm_len ?r) = 0" if "cm_type ?r = cm_type ?l" "cm_len ?r = cm_len ?l"
      using compare_eq_sym [OF e] field_length [OF sc(1) _ sc(2)] h that by simp
    have "all_hold cs r g'" if "all_hold cs r g"
      using d derives_holds [OF cov sc nan _ that nm, of g'] derives_holds [OF cov sc nan _ that nm(2,1), of g'] i e e' by blast
    then show "filters_sound C real g' \<and> (all_hold cs r g' \<longleftrightarrow> all_hold cs r f0)" using d derives_sound derives_mono i by blast
  qed
  then show ?thesis ..
qed

lemma split_where_conds:
  "split_where conds f js = (f', js') \<Longrightarrow> (\<forall>t. \<forall>c \<in> set (f' t). P c) \<and> (\<forall>c \<in> set js'. P c) \<longleftrightarrow> (\<forall>t. \<forall>c \<in> set (f t). P c) \<and> (\<forall>c \<in> set (conds @ js). P c)"
proof (induction conds arbitrary: f js)
  case (Cons c conds)
  show ?case
  proof (cases "is_rhs_val c \<or> tc_tab (rhs_col c) = tc_tab (lhs_col c)")
    case True
    then have s: "split_where conds (f(tc_tab (lhs_col c) := f (tc_tab (lhs_col c)) @ [c])) js = (f', js')" using Cons.prems by auto
    show ?thesis unfolding Cons.IH [OF s, unfolded all_upd] by (simp add: conj_assoc)
  next
    case False
    then show ?thesis using Cons.IH [of f "js @ [c]"] Cons.prems by auto
  qed
qed simp

lemma split_where_between: "split_where conds f js = (f', js') \<Longrightarrow> \<forall>c \<in> set js. between_tables c \<Longrightarrow> \<forall>c \<in> set js'. between_tables c"
proof (induction conds arbitrary: f js)
  case (Cons c conds)
  show ?case
  proof (cases "is_rhs_val c \<or> tc_tab (rhs_col c) = tc_tab (lhs_col c)")
    case True
    then have "split_where conds (f(tc_tab (lhs_col c) := f (tc_tab (lhs_col c)) @ [c])) js = (f', js')" using Cons.prems(1) by auto
    from Cons.IH [OF this Cons.prems(2)] show ?thesis .
  next
    case False
    then have s: "split_where conds f (js @ [c]) = (f', js')" using Cons.prems(1) by simp
    have "between_tables c" using False unfolding between_tables_def by argo
    then have "\<forall>x \<in> set (js @ [c]). between_tables x" using Cons.prems(2) by simp
    from Cons.IH [OF s this] show ?thesis .
  qed
qed simp

lemma pushed_all:
  assumes "\<forall>c \<in> set joins. cond_on ts c" "\<forall>t. t \<notin> set ts \<longrightarrow> f t = []"
  shows "(\<forall>c \<in> set (pushed f joins ts). cond_holds cs r c) \<longleftrightarrow> all_hold cs r f \<and> (\<forall>c \<in> set joins. cond_holds cs r c)"
proof -
  have "(\<forall>t \<in> set ts. \<forall>c \<in> set (f t). cond_holds cs r c) \<longleftrightarrow> all_hold cs r f" using assms(2) unfolding all_hold_def by (metis empty_iff empty_set)
  moreover have "filter (cond_on ts) joins = joins" using assms(1) by (simp add: filter_id_conv)
  ultimately show ?thesis by (simp add: pushed_def ball_Un)
qed

definition filters_in :: "string list \<Rightarrow> filters \<Rightarrow> bool" where
  "filters_in ts f \<longleftrightarrow> (\<forall>t. t \<notin> set ts \<longrightarrow> f t = [])"

lemma split_where_in:
  "split_where conds f js = (f', js') \<Longrightarrow> \<forall>c \<in> set conds. tc_tab (lhs_col c) \<in> set ts \<Longrightarrow> filters_in ts f \<Longrightarrow> filters_in ts f'"
proof (induction conds arbitrary: f js)
  case (Cons c conds)
  have "filters_in ts (f(tc_tab (lhs_col c) := f (tc_tab (lhs_col c)) @ [c]))" using Cons.prems(2,3) by (auto simp: filters_in_def)
  then show ?case using Cons.IH [of _ js] Cons.IH [of f "js @ [c]"] Cons.prems by (cases "is_rhs_val c \<or> tc_tab (rhs_col c) = tc_tab (lhs_col c)") (auto simp del: fun_upd_apply)
qed simp

lemma propagation_in:
  assumes "PropagateEqualityConstants C real joins f = Some (Ret f')" "filters_in ts f" "\<forall>c \<in> set joins. cond_sound C real ts c"
  shows "filters_in ts f'"
proof (rule propagation_invariant [where I = "filters_in ts", OF assms(1,2)])
  fix j g g' assume "j \<in> set joins" "\<not> is_rhs_val j" "filters_in ts g" "derives C real (lhs_col j) (rhs_col j) g g' \<or> derives C real (rhs_col j) (lhs_col j) g g'"
  then show "filters_in ts g'" using bspec [OF assms(3), of j] by (auto simp: derives_def filters_in_def cond_sound_def cond_checked_def names_col_def)
qed

lemma left_deep_rows:
  assumes env: "env_ok E" "tables_ok E" "nan_free E" and ts: "distinct (q_tables q)" "\<forall>t \<in> set (q_tables q). env_tabs E (lookup_name (q_real_names q) t) \<noteq> None"
    and s: "\<forall>c \<in> set (q_where_conds q @ q_join_conds q). cond_sound (env_tabs E) (q_real_names q) (q_tables q) c" and b: "\<forall>c \<in> set (q_join_conds q). between_tables c"
    and m: "make_left_deep_join_plan (env_tabs E) skip q = Some (Ret qp)" "seq_plan qp = Some p"
  shows "plan_cols E p = plan_cols E (from_product q) \<and>
    plan_rows E p = filter (\<lambda>r. \<forall>c \<in> set (q_where_conds q @ q_join_conds q). cond_holds (plan_cols E (from_product q)) r c) (plan_rows E (from_product q))"
proof -
  let ?C = "env_tabs E" and ?real = "q_real_names q" and ?x = "from_product q"
  obtain t tl where t: "q_tables q = t # tl" using m by (auto simp: make_left_deep_join_plan_def split: list.splits)
  obtain f0 js where w: "split_where (q_where_conds q) (\<lambda>_. []) (q_join_conds q) = (f0, js)" by fastforce
  have f0: "filters_sound ?C ?real f0" "\<forall>c \<in> set js. cond_sound ?C ?real (q_tables q) c" using split_where_sound [OF w s] by (simp_all add: filters_sound_def)
  obtain f where f: "PropagateEqualityConstants ?C ?real js f0 = Some (Ret f)" "othen (make_scan ?C skip q f t) (join_tables ?C skip q f js [t] tl) = Ret qp"
    using m(1) t w by (auto simp: make_left_deep_join_plan_def cthen_Ret_iff)
  have fs: "filters_sound ?C ?real f" using propagation_sound [OF f(1) f0(1)] .
  have jb: "\<forall>c \<in> set js. between_tables c" using split_where_between [OF w b] .
  obtain scan where sc: "make_scan ?C skip q f t = Ret scan" "join_tables ?C skip q f js [t] tl scan = Ret qp" using f(2) by (auto simp: othen_Ret_iff)
  let ?t = "ScanPlan t (lookup_name ?real t) []"
  have o1: "plan_over E ?real [t] ?t" using scan_over [OF env(2)] ts(2) t by simp
  have no_join: "filter (cond_on [t]) js = []" using jb by (auto simp: filter_empty_conv cond_on_def between_tables_def)
  have "filtered E p0 ?t (pushed f js [t])" if "seq_plan scan = Some p0" for p0
    using make_scan_over [OF env(2) fs sc(1) that] scan_filtered [of E t "lookup_name ?real t" "f t"] no_join by (simp add: pushed_def)
  then have j: "filtered E p ?x (pushed f js (q_tables q))" "plan_over E ?real (q_tables q) ?x"
    using join_tables_filtered [OF env(1,2) fs f0(2) jb _ sc(2) m(2) o1] ts(1) t by (simp_all add: from_product_def Let_def)
  have "filters_in (q_tables q) f"
    using split_where_in [OF w, of "q_tables q"] propagation_in [OF f(1) _ f0(2)] s by (simp add: filters_in_def cond_sound_def cond_checked_def names_col_def)
  then have p: "(\<forall>c \<in> set (pushed f js (q_tables q)). cond_holds cs r c) \<longleftrightarrow> all_hold cs r f \<and> (\<forall>c \<in> set js. cond_holds cs r c)" for cs r
    using pushed_all [of js "q_tables q" f cs r] f0(2) by (auto simp: filters_in_def cond_on_def cond_sound_def cond_checked_def names_col_def split: if_splits)
  have nan: "\<forall>r \<in> set (plan_rows E ?x). nan_free_row (plan_cols E ?x) r"
    using cross_nan_free [OF env(1,3,2), of tl ?real ?t] o1 scan_nan_free [OF env(3,2), of ?real t] ts(2) t by (simp add: from_product_def plan_over_def Let_def)
  have "(\<forall>c \<in> set (pushed f js (q_tables q)). cond_holds (plan_cols E ?x) r c) \<longleftrightarrow> (\<forall>c \<in> set (q_where_conds q @ q_join_conds q). cond_holds (plan_cols E ?x) r c)" if r: "r \<in> set (plan_rows E ?x)" for r
  proof -
    have ro: "schema_ok (plan_cols E ?x) (plan_len E ?x)" "length r = plan_len E ?x" using plan_typed [OF env(1)] j(2) r by (auto simp: plan_over_def rows_ok_def)
    have "all_hold (plan_cols E ?x) r f \<longleftrightarrow> all_hold (plan_cols E ?x) r f0" if "\<forall>c \<in> set js. cond_holds (plan_cols E ?x) r c"
      using propagation_same_rows [OF _ ro _ _ f(1) f0(1), of "q_tables q"] j(2) nan r f0(2) that by (auto simp: plan_over_def)
    then show ?thesis using p split_where_conds [OF w, of "cond_holds (plan_cols E ?x) r"] by (auto simp: all_hold_def)
  qed
  note same = this
  have "filter (\<lambda>r. \<forall>c \<in> set (pushed f js (q_tables q)). cond_holds (plan_cols E ?x) r c) (plan_rows E ?x)
      = filter (\<lambda>r. \<forall>c \<in> set (q_where_conds q @ q_join_conds q). cond_holds (plan_cols E ?x) r c) (plan_rows E ?x)" using same by (rule filter_cong [OF refl])
  then show ?thesis using j(1) unfolding filtered_def by presburger
qed

subsection \<open>Analysed queries\<close>

lemma bind_tables_distinct: "bind_tables C refs seen real = Ret (tables, real') \<Longrightarrow> distinct seen \<Longrightarrow> distinct tables"
  by (induction refs arbitrary: seen real) (auto simp: othen_Ret_iff Let_def split: if_splits)

lemma analyzed_tables:
  assumes "parsed st" "do_analyze fp C st = Ret q" "\<not> q_has_union_source q"
  shows "distinct (q_tables q) \<and> (\<forall>t \<in> set (q_tables q). C (lookup_name (q_real_names q) t) \<noteq> None)
    \<and> (\<forall>c \<in> set (q_where_conds q @ q_join_conds q). cond_checked C (q_real_names q) (q_tables q) c)"
proof -
  have st: "\<forall>c \<in> set (st_cols st). star_ok c" "\<forall>h \<in> set (st_having st). having_star_ok h" "\<forall>x \<in> set (st_orders st). star_ok (fst x)" using assms(1) by (cases st; simp)+
  from assms(2) show ?thesis
  proof (cases rule: do_analyze_cases)
    case (tables fi)
    obtain real where f: "bind_tables C (table_names (st_refs st)) [] Map.empty = Ret (fi_tables fi, real)" "get_all_cols C (fi_tables fi) (fi_real fi) = Ret (fi_cols fi)"
      using tables(1) by (auto simp: analyze_tables_def othen_Ret_iff split: prod.splits)
    then show ?thesis using bind_tables_distinct [OF f(1)] get_all_cols_covers [OF f(2)] analyze_select_checked [OF st tables(2)] by simp
  next
    case (union branches al qs fi)
    then show ?thesis using analyze_select_checked [OF st union(5)] assms(3) by (auto simp: union_from_def othen_Ret_iff)
  qed
qed


subsection \<open>Example\<close>

lemma ex_nan_free: "nan_free ex_env"
  by (simp add: nan_free_def ex_env_tabs ex_tab_def)


subsection \<open>Constants in ON\<close>

lemma propagate_pass_columns: "propagate_pass C real joins f ch = propagate_pass C real (filter (\<lambda>c. \<not> is_rhs_val c) joins) f ch"
  by (induction joins arbitrary: f ch) (auto simp: propagate_join_def intro!: arg_cong2 [where f = othen] split: prod.splits)

lemma propagation_columns: "PropagateEqualityConstants C real joins f = PropagateEqualityConstants C real (filter (\<lambda>c. \<not> is_rhs_val c) joins) f"
proof (induction "card (missing joins f)" arbitrary: f rule: less_induct)
  case less
  have eq: "PropagateEqualityConstants C real js f = cthen (Some (propagate_pass C real joins f False)) (\<lambda>(f', ch). if ch then PropagateEqualityConstants C real js f' else ret f')"
    if "js = joins \<or> js = filter (\<lambda>c. \<not> is_rhs_val c) joins" for js
    using that propagate_pass_columns [of C real joins f False] by (subst PropagateEqualityConstants.simps) auto
  have "PropagateEqualityConstants C real joins f' = PropagateEqualityConstants C real (filter (\<lambda>c. \<not> is_rhs_val c) joins) f'" if "propagate_pass C real joins f False = Ret (f', True)" for f'
    using propagate_pass_missing [OF that, of joins] by (intro less) (auto intro: psubset_card_mono)
  then show ?case using eq [of joins] eq [of "filter (\<lambda>c. \<not> is_rhs_val c) joins"] by (cases "propagate_pass C real joins f False") auto
qed

lemma join_tables_columns: "join_tables C skip q f joins joined ts root = join_tables C skip q f (filter (\<lambda>c. \<not> is_rhs_val c) joins) joined ts root"
proof (induction ts arbitrary: joined root)
  case (Cons t ts)
  have "filter (connects joined t) (filter (\<lambda>c. \<not> is_rhs_val c) joins) = filter (connects joined t) joins" by (auto simp: filter_filter connects_def intro: filter_cong)
  moreover have "join_tables C skip q f joins (joined @ [t]) ts = join_tables C skip q f (filter (\<lambda>c. \<not> is_rhs_val c) joins) (joined @ [t]) ts" using Cons.IH by (intro ext)
  ultimately show ?case by (simp add: Let_def)
qed simp

definition without_on_constants :: "query \<Rightarrow> query" where
  "without_on_constants q = Query (q_tables q) (q_real_names q) (q_where_conds q) (filter (\<lambda>c. \<not> is_rhs_val c) (q_join_conds q)) (q_cols q) (q_select_exprs q) (q_group_cols q) (q_having_conds q)
     (q_order_specs q) (q_has_aggregation q) (q_limit q) (q_has_union_source q) (q_union_branches q) (q_output_cols q)"

lemma split_where_columns: "split_where conds f js = (f', js') \<Longrightarrow> split_where conds f (filter (\<lambda>c. \<not> is_rhs_val c) js) = (f', filter (\<lambda>c. \<not> is_rhs_val c) js')"
proof (induction conds arbitrary: f js)
  case (Cons c conds)
  show ?case
  proof (cases "is_rhs_val c \<or> tc_tab (rhs_col c) = tc_tab (lhs_col c)")
    case True
    then have "split_where conds (f(tc_tab (lhs_col c) := f (tc_tab (lhs_col c)) @ [c])) js = (f', js')" using Cons.prems(1) by auto
    from Cons.IH [OF this] True show ?thesis by (simp del: fun_upd_apply)
  next
    case False
    then have "split_where conds f (js @ [c]) = (f', js')" using Cons.prems(1) by simp
    from Cons.IH [OF this] False show ?thesis by simp
  qed
qed simp

lemma without_on_constants_sel [simp]: "q_tables (without_on_constants q) = q_tables q" "q_real_names (without_on_constants q) = q_real_names q"
  "q_where_conds (without_on_constants q) = q_where_conds q" "q_join_conds (without_on_constants q) = filter (\<lambda>c. \<not> is_rhs_val c) (q_join_conds q)"
  "scalar_aggregate (without_on_constants q) = scalar_aggregate q"
  by (simp_all add: without_on_constants_def scalar_aggregate_def)

lemma make_scan_columns: "make_scan C skip (without_on_constants q) f t = make_scan C skip q f t"
  unfolding make_scan_def without_on_constants_sel ..

lemma join_tables_without: "join_tables C skip (without_on_constants q) f joins joined ts = join_tables C skip q f joins joined ts"
proof (induction ts arbitrary: joined)
  case (Cons t ts)
  show ?case unfolding join_tables.simps fun_eq_iff make_scan_columns without_on_constants_sel Cons.IH by simp
qed (simp add: fun_eq_iff)

text \<open>The conditions of \<open>ON\<close> that compare a column with a constant have no effect: the query without them has the same plan.\<close>

lemma on_constants_dropped: "make_left_deep_join_plan C skip q = make_left_deep_join_plan C skip (without_on_constants q)"
proof (cases "q_tables q")
  case (Cons t ts)
  obtain f js where w: "split_where (q_where_conds q) (\<lambda>_. []) (q_join_conds q) = (f, js)" by fastforce
  have j: "join_tables C skip (without_on_constants q) g (filter (\<lambda>c. \<not> is_rhs_val c) js) [t] ts = join_tables C skip q g js [t] ts" for g
    unfolding join_tables_without by (rule ext) (rule join_tables_columns [symmetric])
  show ?thesis using Cons w split_where_columns [OF w] propagation_columns [of C "q_real_names q" js] by (simp add: make_left_deep_join_plan_def make_scan_columns j)
qed (simp add: make_left_deep_join_plan_def)

end
