(* ===== verification/Rmdb_Dml.thy ===== *)
theory Rmdb_Dml
  imports Rmdb_Plan_Props
begin

text \<open>
  The statements that change tables: their analysis in \<^verbatim>\<open>src/src/analyze/analyze.cpp\<close>, and how \<open>InsertExecutor\<close> and \<open>UpdateExecutor\<close>
  (\<^verbatim>\<open>src/src/execution/executor_insert.h\<close>, \<^verbatim>\<open>executor_update.h\<close>) build the records they write. The version store, the indexes and the heap file to which the records then go
  are the theories of these components.

  The addition of floats is a parameter (\<open>fp_arith\<close>); the signed addition of integers, whose overflow C++ leaves undefined, wraps.
\<close>

subsection \<open>Analysis\<close>

datatype sv_update_expr = SvUpdValue sv_value | SvUpdColumn sv_col | SvUpdAdd sv_update_expr sv_update_expr | SvUpdSub sv_update_expr sv_update_expr

text \<open>A column carries the offset, type and length to which the executor binds it.\<close>

type_synonym bound_col = "nat \<times> col_type \<times> nat"

datatype update_expr = UpdValue sql_value | UpdColumn tab_col "bound_col option" | UpdAdd update_expr update_expr | UpdSub update_expr update_expr

definition check_arith :: "catalog \<Rightarrow> string \<Rightarrow> col_meta \<Rightarrow> update_expr \<Rightarrow> update_expr \<Rightarrow> unit outcome" where
  "check_arith C tab_name target lhs rhs =
     (case (lhs, rhs) of
        (UpdColumn col b, UpdValue val) \<Rightarrow>
          othen (get_table C tab_name) (\<lambda>tab. othen (tab_get_col tab (tc_col col)) (\<lambda>lhs_col.
            if cm_type lhs_col \<noteq> TYPE_INT \<and> cm_type lhs_col \<noteq> TYPE_FLOAT then Throw (IncompatibleTypeError ''numeric'' (coltype2str (cm_type lhs_col)))
            else if v_type val \<noteq> TYPE_INT \<and> v_type val \<noteq> TYPE_FLOAT then Throw (IncompatibleTypeError ''numeric'' (coltype2str (v_type val)))
            else if cm_type target = TYPE_INT \<and> (cm_type lhs_col \<noteq> TYPE_INT \<or> v_type val \<noteq> TYPE_INT) then Throw (IncompatibleTypeError (coltype2str (cm_type target)) ''FLOAT'')
            else if cm_type target \<noteq> TYPE_INT \<and> cm_type target \<noteq> TYPE_FLOAT then Throw (IncompatibleTypeError ''numeric'' (coltype2str (cm_type target)))
            else Ret ()))
      | _ \<Rightarrow> Throw (IncompatibleTypeError ''column +/- literal'' ''expression''))"

fun convert_update_expr :: "fp_ops \<Rightarrow> catalog \<Rightarrow> string \<Rightarrow> col_meta \<Rightarrow> col_meta list \<Rightarrow> sv_update_expr \<Rightarrow> update_expr outcome" where
  "convert_update_expr fp C tab_name target all_cols (SvUpdValue v) =
     othen (convert_sv_value v) (\<lambda>val. othen (check_value_type_and_len fp target val) (\<lambda>val'. Ret (UpdValue val')))"
| "convert_update_expr fp C tab_name target all_cols (SvUpdColumn c) =
     othen (check_column all_cols (sv_target c) Map.empty) (\<lambda>col.
       if tc_tab col \<noteq> tab_name then Throw (TableNotFoundError (tc_tab col))
       else othen (get_table C tab_name) (\<lambda>tab. othen (tab_get_col tab (tc_col col)) (\<lambda>src_col.
         if cm_type src_col \<noteq> cm_type target then Throw (IncompatibleTypeError (coltype2str (cm_type target)) (coltype2str (cm_type src_col)))
         else Ret (UpdColumn col None))))"
| "convert_update_expr fp C tab_name target all_cols (SvUpdAdd l r) =
     othen (convert_update_expr fp C tab_name target all_cols l) (\<lambda>lhs. othen (convert_update_expr fp C tab_name target all_cols r) (\<lambda>rhs.
       othen (check_arith C tab_name target lhs rhs) (\<lambda>_. Ret (UpdAdd lhs rhs))))"
| "convert_update_expr fp C tab_name target all_cols (SvUpdSub l r) =
     othen (convert_update_expr fp C tab_name target all_cols l) (\<lambda>lhs. othen (convert_update_expr fp C tab_name target all_cols r) (\<lambda>rhs.
       othen (check_arith C tab_name target lhs rhs) (\<lambda>_. Ret (UpdSub lhs rhs))))"

definition analyze_set :: "fp_ops \<Rightarrow> catalog \<Rightarrow> string \<Rightarrow> tab_meta \<Rightarrow> string \<times> sv_update_expr \<Rightarrow> (tab_col \<times> update_expr) outcome" where
  "analyze_set fp C tab_name tab clause =
     othen (tab_get_col tab (fst clause)) (\<lambda>col. othen (convert_update_expr fp C tab_name col (tm_cols tab) (snd clause)) (\<lambda>rhs.
       Ret (\<lparr>tc_tab = tab_name, tc_col = fst clause\<rparr>, rhs)))"

definition analyze_update :: "fp_ops \<Rightarrow> catalog \<Rightarrow> string \<Rightarrow> (string \<times> sv_update_expr) list \<Rightarrow> sv_cond list \<Rightarrow> ((tab_col \<times> update_expr) list \<times> condition list) outcome" where
  "analyze_update fp C tab_name set_clauses conds =
     othen (check_table_exists C tab_name) (\<lambda>_. othen (get_table C tab_name) (\<lambda>tab.
     othen (omap (analyze_set fp C tab_name tab) set_clauses) (\<lambda>sets.
     othen (get_clause conds) (\<lambda>cs. othen (check_clause fp C [tab_name] cs Map.empty Map.empty) (\<lambda>cs'. Ret (sets, cs'))))))"

definition analyze_delete :: "fp_ops \<Rightarrow> catalog \<Rightarrow> string \<Rightarrow> sv_cond list \<Rightarrow> condition list outcome" where
  "analyze_delete fp C tab_name conds =
     othen (check_table_exists C tab_name) (\<lambda>_. othen (get_clause conds) (\<lambda>cs. check_clause fp C [tab_name] cs Map.empty Map.empty))"

definition analyze_insert :: "fp_ops \<Rightarrow> catalog \<Rightarrow> string \<Rightarrow> sv_value list \<Rightarrow> sql_value list outcome" where
  "analyze_insert fp C tab_name vals =
     othen (check_table_exists C tab_name) (\<lambda>_. othen (get_table C tab_name) (\<lambda>tab.
       if length vals \<noteq> length (tm_cols tab) then Throw InvalidValueCountError
       else omap (\<lambda>(v, col). othen (convert_sv_value v) (check_value_type_and_len fp col)) (zip vals (tm_cols tab))))"

subsection \<open>The record of an INSERT\<close>

definition insert_value :: "col_meta \<Rightarrow> sql_value \<Rightarrow> sql_value outcome" where
  "insert_value col v =
     (if cm_type col \<noteq> v_type v then Throw (IncompatibleTypeError (coltype2str (cm_type col)) (coltype2str (v_type v)))
      else if v_raw v = None then init_raw (cm_len col) v else Ret v)"

definition InsertExecutor :: "tab_meta \<Rightarrow> sql_value list \<Rightarrow> sql_value list outcome" where
  "InsertExecutor tab values =
     (if length values \<noteq> length (tm_cols tab) then Throw InvalidValueCountError
      else omap (\<lambda>(col, v). insert_value col v) (zip (tm_cols tab) values))"

text \<open>The loop of \<open>Next\<close> that fills the buffer.\<close>

fun fill_record :: "(col_meta \<times> sql_value) list \<Rightarrow> byte list \<Rightarrow> byte list outcome" where
  "fill_record [] rec = Ret rec"
| "fill_record ((col, v) # ps) rec =
     (case v_raw v of None \<Rightarrow> Throw MemoryFault | Some raw \<Rightarrow> othen (memcpy rec (cm_offset col) raw (cm_len col)) (fill_record ps))"

definition insert_record_of :: "(nat \<Rightarrow> byte list) \<Rightarrow> tab_meta \<Rightarrow> sql_value list \<Rightarrow> byte list outcome" where
  "insert_record_of uninit tab values =
     (let last_col = last (tm_cols tab) in fill_record (zip (tm_cols tab) values) (uninit (cm_offset last_col + cm_len last_col)))"

subsection \<open>The records of an UPDATE\<close>

record fp_arith =
  f32_add :: "32 word \<Rightarrow> 32 word \<Rightarrow> 32 word"
  f32_sub :: "32 word \<Rightarrow> 32 word \<Rightarrow> 32 word"

record set_clause =
  set_lhs :: tab_col
  set_rhs :: update_expr
  bound_target :: bound_col

definition bound_of :: "col_meta \<Rightarrow> bound_col" where
  "bound_of col = (cm_offset col, cm_type col, cm_len col)"

fun bind_update_expr :: "col_meta list \<Rightarrow> update_expr \<Rightarrow> update_expr outcome" where
  "bind_update_expr cs (UpdValue v) = Ret (UpdValue v)"
| "bind_update_expr cs (UpdColumn c b) = othen (get_col cs c) (\<lambda>col. Ret (UpdColumn c (Some (bound_of col))))"
| "bind_update_expr cs (UpdAdd l r) = othen (bind_update_expr cs l) (\<lambda>l'. othen (bind_update_expr cs r) (\<lambda>r'. Ret (UpdAdd l' r')))"
| "bind_update_expr cs (UpdSub l r) = othen (bind_update_expr cs l) (\<lambda>l'. othen (bind_update_expr cs r) (\<lambda>r'. Ret (UpdSub l' r')))"

definition bind_set_clause :: "string \<Rightarrow> col_meta list \<Rightarrow> tab_col \<times> update_expr \<Rightarrow> set_clause outcome" where
  "bind_set_clause tab_name cs clause =
     (let target = (if tc_tab (fst clause) = [] then (fst clause)\<lparr>tc_tab := tab_name\<rparr> else fst clause) in
      othen (get_col cs target) (\<lambda>col. othen (bind_update_expr cs (snd clause)) (\<lambda>rhs.
        Ret \<lparr>set_lhs = fst clause, set_rhs = rhs, bound_target = bound_of col\<rparr>)))"

definition UpdateExecutor :: "string \<Rightarrow> col_meta list \<Rightarrow> (tab_col \<times> update_expr) list \<Rightarrow> set_clause list outcome" where
  "UpdateExecutor tab_name cs set_clauses = omap (bind_set_clause tab_name cs) set_clauses"

text \<open>\<open>strnlen\<close> stops at the first zero byte or after \<open>len\<close> bytes.\<close>

definition value_from_record :: "byte list \<Rightarrow> bound_col \<Rightarrow> sql_value outcome" where
  "value_from_record rec b =
     (case b of (off, type, len) \<Rightarrow> let raw = drop off rec in
      case type of
        TYPE_INT \<Rightarrow> othen (read_int raw) (\<lambda>i. Ret (no_value\<lparr>v_type := TYPE_INT, v_int := i\<rparr>))
      | TYPE_FLOAT \<Rightarrow> othen (read_float raw) (\<lambda>f. Ret (set_float f no_value))
      | TYPE_STRING \<Rightarrow> if length raw < len \<and> 0 \<notin> set raw then Throw MemoryFault
                       else Ret (no_value\<lparr>v_type := TYPE_STRING, v_str := map byte_char (takeWhile (\<lambda>x. x \<noteq> 0) (take len raw))\<rparr>))"

definition eval_arith :: "fp_arith \<Rightarrow> fp_ops \<Rightarrow> col_type \<Rightarrow> bool \<Rightarrow> sql_value \<Rightarrow> sql_value \<Rightarrow> sql_value outcome" where
  "eval_arith ar fp target_type subtract lhs rhs =
     (if v_type lhs \<noteq> TYPE_INT \<and> v_type lhs \<noteq> TYPE_FLOAT \<or> v_type rhs \<noteq> TYPE_INT \<and> v_type rhs \<noteq> TYPE_FLOAT then Throw (IncompatibleTypeError ''numeric'' ''STRING'')
      else case target_type of
        TYPE_INT \<Rightarrow> if v_type lhs \<noteq> TYPE_INT \<or> v_type rhs \<noteq> TYPE_INT then Throw (IncompatibleTypeError (coltype2str target_type) ''FLOAT'')
                    else Ret (no_value\<lparr>v_type := TYPE_INT, v_int := i32 (if subtract then v_int lhs - v_int rhs else v_int lhs + v_int rhs)\<rparr>)
      | TYPE_FLOAT \<Rightarrow> (let l = (if v_type lhs = TYPE_FLOAT then v_float lhs else f32_of_int fp (v_int lhs));
                           r = (if v_type rhs = TYPE_FLOAT then v_float rhs else f32_of_int fp (v_int rhs))
                       in Ret (set_float (if subtract then f32_sub ar l r else f32_add ar l r) no_value))
      | TYPE_STRING \<Rightarrow> Throw (IncompatibleTypeError ''numeric'' (coltype2str target_type)))"

fun eval_update_expr :: "fp_arith \<Rightarrow> fp_ops \<Rightarrow> col_meta list \<Rightarrow> byte list \<Rightarrow> col_type \<Rightarrow> update_expr \<Rightarrow> sql_value outcome" where
  "eval_update_expr ar fp cs old_record target_type (UpdValue v) = Ret v"
| "eval_update_expr ar fp cs old_record target_type (UpdColumn c b) =
     (case b of Some b' \<Rightarrow> value_from_record old_record b' | None \<Rightarrow> othen (get_col cs c) (\<lambda>col. value_from_record old_record (bound_of col)))"
| "eval_update_expr ar fp cs old_record target_type (UpdAdd l r) =
     othen (eval_update_expr ar fp cs old_record target_type l) (\<lambda>lhs. othen (eval_update_expr ar fp cs old_record target_type r) (eval_arith ar fp target_type False lhs))"
| "eval_update_expr ar fp cs old_record target_type (UpdSub l r) =
     othen (eval_update_expr ar fp cs old_record target_type l) (\<lambda>lhs. othen (eval_update_expr ar fp cs old_record target_type r) (eval_arith ar fp target_type True lhs))"

definition apply_set :: "fp_arith \<Rightarrow> fp_ops \<Rightarrow> col_meta list \<Rightarrow> byte list \<Rightarrow> set_clause \<Rightarrow> byte list \<Rightarrow> byte list outcome" where
  "apply_set ar fp cs old_record clause new_record =
     (case bound_target clause of (off, type, len) \<Rightarrow>
        othen (eval_update_expr ar fp cs old_record type (set_rhs clause)) (\<lambda>rhs0.
          let rhs = coerce fp type rhs0 in
          if type \<noteq> v_type rhs then Throw (IncompatibleTypeError (coltype2str type) (coltype2str (v_type rhs)))
          else othen (init_raw len rhs) (\<lambda>rhs'.
            case v_raw rhs' of None \<Rightarrow> Throw MemoryFault | Some raw \<Rightarrow> memcpy new_record off raw len)))"

fun apply_sets :: "fp_arith \<Rightarrow> fp_ops \<Rightarrow> col_meta list \<Rightarrow> byte list \<Rightarrow> set_clause list \<Rightarrow> byte list \<Rightarrow> byte list outcome" where
  "apply_sets ar fp cs old_record [] new_record = Ret new_record"
| "apply_sets ar fp cs old_record (clause # clauses) new_record = othen (apply_set ar fp cs old_record clause new_record) (apply_sets ar fp cs old_record clauses)"

definition updated_record :: "fp_arith \<Rightarrow> fp_ops \<Rightarrow> col_meta list \<Rightarrow> set_clause list \<Rightarrow> byte list \<Rightarrow> byte list outcome" where
  "updated_record ar fp cs clauses old_record = apply_sets ar fp cs old_record clauses old_record"

end
