(* ===== verification/Rmdb_Dml_Props.thy ===== *)
theory Rmdb_Dml_Props
  imports Rmdb_Dml
begin

text \<open>
  What the statements that change tables write: an accepted \<open>INSERT\<close> builds a record from which every value is read back, an accepted \<open>UPDATE\<close> changes exactly the columns it sets.
\<close>

subsection \<open>Records of a table\<close>

text \<open>A table as \<open>create_table\<close> lays it out: the columns follow each other, carry the name of the table and have distinct names.\<close>

definition laid_out :: "catalog \<Rightarrow> string \<Rightarrow> tab_meta \<Rightarrow> bool" where
  "laid_out C name tab \<longleftrightarrow> C name = Some tab \<and> tm_cols tab \<noteq> [] \<and> tile 0 (tm_cols tab) = tm_cols tab \<and> numerics_ok (tm_cols tab)
     \<and> (\<forall>c \<in> set (tm_cols tab). cm_tab c = name) \<and> distinct (map cm_name (tm_cols tab))"

lemma tile_nth: "i < length cs \<Longrightarrow> tile off cs ! i = (cs ! i)\<lparr>cm_offset := off + total_len (take i cs)\<rparr>"
proof (induction cs arbitrary: i off)
  case (Cons c cs)
  then show ?case by (cases i) (simp_all add: add.assoc)
qed simp

lemma total_len_take: "i < length cs \<Longrightarrow> total_len (take i cs) + cm_len (cs ! i) + total_len (drop (Suc i) cs) = total_len cs"
proof (induction cs arbitrary: i)
  case (Cons c cs)
  show ?case
  proof (cases i)
    case (Suc k)
    then show ?thesis using Cons.IH [of k] Cons.prems by simp
  qed simp
qed simp

lemma tiled_offset: "tile 0 cs = cs \<Longrightarrow> i < length cs \<Longrightarrow> cm_offset (cs ! i) = total_len (take i cs)"
  using tile_nth [of i cs 0] by (metis (no_types, lifting) add_0 col_meta.select_convs(5) col_meta.surjective col_meta.update_convs(5))

lemma tiled_last: "tile 0 cs = cs \<Longrightarrow> cs \<noteq> [] \<Longrightarrow> cm_offset (last cs) + cm_len (last cs) = total_len cs"
  using tiled_offset [of cs "length cs - 1"] total_len_take [of "length cs - 1" cs] by (simp add: last_conv_nth)

lemma total_len_take_mono: "i < j \<Longrightarrow> j < length cs \<Longrightarrow> total_len (take i cs) + cm_len (cs ! i) \<le> total_len (take j cs)"
proof (induction cs arbitrary: i j)
  case (Cons c cs)
  obtain j' where j: "j = Suc j'" using Cons.prems by (cases j) auto
  show ?case using Cons j by (cases i) simp_all
qed simp

lemma tiled_disjoint:
  assumes "tile 0 cs = cs" "i < length cs" "j < length cs" "i \<noteq> j"
  shows "cm_offset (cs ! i) + cm_len (cs ! i) \<le> cm_offset (cs ! j) \<or> cm_offset (cs ! j) + cm_len (cs ! j) \<le> cm_offset (cs ! i)"
  using assms total_len_take_mono [of i j cs] total_len_take_mono [of j i cs] by (cases "i < j") (simp_all add: tiled_offset)

lemma laid_out_schema: "laid_out C name tab \<Longrightarrow> schema_ok (tm_cols tab) (total_len (tm_cols tab))"
  by (simp add: laid_out_def tiled_schema)

text \<open>Fields written one after the other.\<close>

lemma field_concat:
  assumes "length xs = length cs" "\<forall>i < length cs. length (xs ! i) = cm_len (cs ! i)" "i < length cs"
  shows "field (pre @ concat xs) (tile (length pre) cs ! i) = xs ! i"
  using assms
proof (induction cs arbitrary: xs i pre)
  case (Cons c cs)
  obtain x ys where x: "xs = x # ys" "length x = cm_len c" using Cons.prems(1) Cons.prems(2)[rule_format, of 0] by (cases xs) auto
  show ?case
  proof (cases i)
    case 0
    then show ?thesis using x by (simp add: field_def)
  next
    case (Suc k)
    have "\<forall>i < length cs. length (ys ! i) = cm_len (cs ! i)" using Cons.prems(2) x by auto
    then show ?thesis using Cons.IH [of ys k "pre @ x"] Cons.prems(1,3) Suc x by simp
  qed
qed simp

lemma fill_record_ok:
  assumes "length vs = length cs" "\<forall>i < length cs. \<exists>raw. v_raw (vs ! i) = Some raw \<and> length raw = cm_len (cs ! i)" "length out = off + total_len cs"
  shows "fill_record (zip (tile off cs) vs) out = Ret (take off out @ concat (map (\<lambda>v. the (v_raw v)) vs))"
  using assms
proof (induction cs arbitrary: vs off out)
  case (Cons c cs)
  obtain v ws where v: "vs = v # ws" using Cons.prems(1) by (cases vs) auto
  obtain raw where r: "v_raw v = Some raw" "length raw = cm_len c" using Cons.prems(2)[rule_format, of 0] v by auto
  let ?out = "take off out @ raw @ drop (off + cm_len c) out"
  have "memcpy out off raw (cm_len c) = Ret ?out" using Cons.prems(3) r by (simp add: memcpy_ok)
  moreover have "take (off + cm_len c) ?out = take off out @ raw" "length ?out = off + cm_len c + total_len cs" using Cons.prems(3) r by simp_all
  moreover have "\<forall>i < length cs. \<exists>raw. v_raw (ws ! i) = Some raw \<and> length raw = cm_len (cs ! i)" using Cons.prems(2) v by auto
  ultimately show ?case using Cons.IH [of ws ?out "off + cm_len c"] Cons.prems(1) v r by simp
qed simp

subsection \<open>INSERT\<close>

text \<open>Literals of the parser: integers of 32 bits and strings without a zero character.\<close>

fun lit_ok :: "sv_value \<Rightarrow> bool" where
  "lit_ok (IntLit i) \<longleftrightarrow> - (2 ^ 31) \<le> i \<and> i < 2 ^ 31"
| "lit_ok (StringLit s) \<longleftrightarrow> (\<forall>ch \<in> set s. char_byte ch \<noteq> 0)"
| "lit_ok v \<longleftrightarrow> True"

definition same_value :: "sql_value \<Rightarrow> sql_value \<Rightarrow> bool" where
  "same_value v w \<longleftrightarrow> v_type v = v_type w \<and> (case v_type v of TYPE_INT \<Rightarrow> v_int v = v_int w | TYPE_FLOAT \<Rightarrow> v_float v = v_float w | TYPE_STRING \<Rightarrow> v_str v = v_str w)"

text \<open>A value of the analysis, ready to be encoded for a column.\<close>

definition fresh_value :: "col_meta \<Rightarrow> sql_value \<Rightarrow> bool" where
  "fresh_value col v \<longleftrightarrow> v_raw v = None \<and> v_type v = cm_type col \<and> (cm_type col = TYPE_STRING \<longrightarrow> length (v_str v) \<le> cm_len col)"

definition readable :: "sql_value \<Rightarrow> bool" where
  "readable v \<longleftrightarrow> (case v_type v of TYPE_INT \<Rightarrow> - (2 ^ 31) \<le> v_int v \<and> v_int v < 2 ^ 31 | TYPE_FLOAT \<Rightarrow> True | TYPE_STRING \<Rightarrow> \<forall>ch \<in> set (v_str v). char_byte ch \<noteq> 0)"

lemma check_value_fresh:
  assumes "convert_sv_value lit = Ret v" "check_value_type_and_len fp col v = Ret v'"
  shows "fresh_value col v'" and "lit_ok lit \<Longrightarrow> readable v'"
  using assms by (cases lit; auto simp: check_value_type_and_len_def coerce_def Let_def fresh_value_def readable_def set_float_def no_value_def split: if_splits)+

lemma fresh_value_typed: "fresh_value col v \<Longrightarrow> value_typed col v"
  by (auto simp: fresh_value_def value_typed_def)

lemma value_read_back:
  assumes "fresh_value col v" "readable v" "cm_type col \<noteq> TYPE_STRING \<longrightarrow> cm_len col = 4" "field rec col = value_bytes (cm_len col) v" "cm_offset col + cm_len col \<le> length rec"
  shows "\<exists>w. value_from_record rec (bound_of col) = Ret w \<and> same_value w v"
proof (cases "cm_type col")
  case TYPE_INT
  then have "take 4 (drop (cm_offset col) rec) = le_enc 4 (v_int v)" using assms by (simp add: field_def fresh_value_def value_bytes_def)
  moreover have "le_dec_signed (le_enc 4 (v_int v)) = v_int v" using assms(1,2) TYPE_INT le_dec_enc_i [of 4 "v_int v"] by (simp add: fresh_value_def readable_def in_i_def)
  ultimately show ?thesis using TYPE_INT assms(1,3,5) by (simp add: value_from_record_def bound_of_def read_int_def same_value_def fresh_value_def)
next
  case TYPE_FLOAT
  then have "take 4 (drop (cm_offset col) rec) = le_enc 4 (uint (v_float v))" using assms by (simp add: field_def fresh_value_def value_bytes_def float_bytes_def)
  moreover have "uint (v_float v) mod 256 ^ 4 = uint (v_float v)" using uint_lt2p [of "v_float v"] by simp
  ultimately show ?thesis using TYPE_FLOAT assms(1,3,5) by (simp add: value_from_record_def bound_of_def read_float_def same_value_def fresh_value_def set_float_def le_dec_enc)
next
  case TYPE_STRING
  then have f: "take (cm_len col) (drop (cm_offset col) rec) = map char_byte (v_str v) @ replicate (cm_len col - length (v_str v)) 0"
    using assms by (simp add: field_def fresh_value_def value_bytes_def)
  have "\<forall>ch \<in> set (v_str v). char_byte ch \<noteq> 0" using assms(1,2) TYPE_STRING by (simp add: fresh_value_def readable_def)
  then have "takeWhile (\<lambda>x. x \<noteq> 0) (map char_byte (v_str v) @ replicate n 0) = map char_byte (v_str v)" for n by (induction "v_str v") (auto simp: takeWhile_append takeWhile_replicate)
  then show ?thesis using TYPE_STRING assms(1,5) f by (simp add: value_from_record_def bound_of_def same_value_def fresh_value_def comp_def Let_def)
qed

lemma insert_values_ok:
  assumes "length vs = length cs" "\<forall>i < length cs. fresh_value (cs ! i) (vs ! i)" "numerics_ok cs"
  shows "\<exists>ws. omap (\<lambda>(col, v). insert_value col v) (zip cs vs) = Ret ws \<and> length ws = length cs \<and> (\<forall>i < length cs. v_raw (ws ! i) = Some (value_bytes (cm_len (cs ! i)) (vs ! i)))"
  using assms
proof (induction cs vs rule: list_induct2')
  case (4 c cs v vs)
  have f: "fresh_value c v" "cm_type c \<noteq> TYPE_STRING \<longrightarrow> cm_len c = 4" using 4(3)[rule_format, of 0] 4(4) by (auto simp: numerics_ok_def)
  obtain w where w: "insert_value c v = Ret w" "v_raw w = Some (value_bytes (cm_len c) v)"
    using init_raw_ok [OF fresh_value_typed [OF f(1)] f(2)] f(1) by (auto simp: insert_value_def fresh_value_def)
  have "\<forall>i < length cs. fresh_value (cs ! i) (vs ! i)" "numerics_ok cs" using 4(3,4) by (auto simp: numerics_ok_def)
  then obtain ws where ws: "omap (\<lambda>(col, v). insert_value col v) (zip cs vs) = Ret ws" "length ws = length cs" "\<forall>i < length cs. v_raw (ws ! i) = Some (value_bytes (cm_len (cs ! i)) (vs ! i))"
    using 4(1,2) by auto
  have "\<forall>i < length (c # cs). v_raw ((w # ws) ! i) = Some (value_bytes (cm_len ((c # cs) ! i)) ((v # vs) ! i))" using w(2) ws(3) by (auto simp: nth_Cons split: nat.splits)
  then show ?case using w(1) ws(1,2) by (intro exI [of _ "w # ws"]) simp
qed auto

lemma analyze_insert_values:
  assumes "laid_out C name tab" "analyze_insert fp C name vals = Ret values"
  shows "length values = length (tm_cols tab) \<and> length vals = length (tm_cols tab)
    \<and> (\<forall>i < length vals. fresh_value (tm_cols tab ! i) (values ! i) \<and> (lit_ok (vals ! i) \<longrightarrow> readable (values ! i)))"
proof -
  let ?f = "\<lambda>(v, col). othen (convert_sv_value v) (check_value_type_and_len fp col)"
  have a: "length vals = length (tm_cols tab)" "omap ?f (zip vals (tm_cols tab)) = Ret values"
    using assms by (auto simp: analyze_insert_def laid_out_def check_table_exists_def get_table_def split: if_splits)
  have l: "list_all2 (\<lambda>x y. ?f x = Ret y) (zip vals (tm_cols tab)) values" using omap_all2 [OF a(2)] .
  have "fresh_value (tm_cols tab ! i) (values ! i) \<and> (lit_ok (vals ! i) \<longrightarrow> readable (values ! i))" if "i < length vals" for i
    using list_all2_nthD [OF l, of i] that a(1) check_value_fresh [of "vals ! i" _ fp "tm_cols tab ! i" "values ! i"] by (auto simp: othen_Ret_iff)
  then show ?thesis using a list_all2_lengthD [OF l] by simp
qed

text \<open>
  C13. What an \<open>INSERT\<close> stores is what it was given. When the analysis accepts the values, the executor accepts them too, builds a record of the length of the table's records without
  reading or writing outside a buffer, and the value read back from each column of the record is the value of the statement, an integer for a float column as the float it converts to.
\<close>

theorem insert_record_roundtrip:
  assumes "laid_out C name tab" and "\<forall>v \<in> set vals. lit_ok v" and "analyze_insert fp C name vals = Ret values" and "\<forall>n. length (uninit n) = n"
  shows "\<exists>ws rec. InsertExecutor tab values = Ret ws \<and> insert_record_of uninit tab ws = Ret rec \<and> length rec = total_len (tm_cols tab)
    \<and> (\<forall>i < length vals. \<exists>w. value_from_record rec (bound_of (tm_cols tab ! i)) = Ret w \<and> same_value w (values ! i))"
proof -
  let ?cs = "tm_cols tab"
  note a = analyze_insert_values [OF assms(1,3)]
  have lo: "tile 0 ?cs = ?cs" "numerics_ok ?cs" "?cs \<noteq> []" using assms(1) by (simp_all add: laid_out_def)
  obtain ws where ws: "InsertExecutor tab values = Ret ws" "length ws = length ?cs" "\<forall>i < length ?cs. v_raw (ws ! i) = Some (value_bytes (cm_len (?cs ! i)) (values ! i))"
    using insert_values_ok [of "values" ?cs] a lo(2) by (auto simp: InsertExecutor_def)
  have len: "\<forall>i < length ?cs. length (value_bytes (cm_len (?cs ! i)) (values ! i)) = cm_len (?cs ! i)"
    using a lo(2) length_value_bytes [OF fresh_value_typed] by (simp add: numerics_ok_def)
  define rec where "rec = concat (map (\<lambda>v. the (v_raw v)) ws)"
  have xs: "\<forall>i < length ?cs. map (\<lambda>v. the (v_raw v)) ws ! i = value_bytes (cm_len (?cs ! i)) (values ! i)" using ws(2,3) by simp
  have "fill_record (zip ?cs ws) (uninit (total_len ?cs)) = Ret rec"
    using fill_record_ok [of ws ?cs "uninit (total_len ?cs)" 0] ws(2,3) len assms(4) lo(1) by (simp add: rec_def)
  then have r: "insert_record_of uninit tab ws = Ret rec" using tiled_last [OF lo(1,3)] by (simp add: insert_record_of_def Let_def)
  have "length rec = sum_list (map cm_len ?cs)" unfolding rec_def length_concat using ws(2) xs len by (auto intro!: arg_cong [where f = sum_list] nth_equalityI)
  then have n: "length rec = total_len ?cs" by (simp add: total_len_def)
  have "\<exists>w. value_from_record rec (bound_of (?cs ! i)) = Ret w \<and> same_value w (values ! i)" if i: "i < length vals" for i
  proof (rule value_read_back)
    show "field rec (?cs ! i) = value_bytes (cm_len (?cs ! i)) (values ! i)"
      using field_concat [of "map (\<lambda>v. the (v_raw v)) ws" ?cs i "[]"] ws(2) xs len i a lo(1) by (simp add: rec_def)
    show "cm_offset (?cs ! i) + cm_len (?cs ! i) \<le> length rec" using schema_okD [OF laid_out_schema [OF assms(1)], of "?cs ! i"] n i a by simp
  qed (use a i assms(2) lo(2) in \<open>auto simp: numerics_ok_def\<close>)
  then show ?thesis using ws(1) r n by blast
qed

theorem insert_record_roundtrip_witness:
  "\<exists>ws rec. InsertExecutor ex_tab [no_value\<lparr>v_type := TYPE_INT, v_int := 5\<rparr>, no_value\<lparr>v_type := TYPE_STRING, v_str := ''ab''\<rparr>] = Ret ws
    \<and> insert_record_of (\<lambda>n. replicate n 255) ex_tab ws = Ret rec \<and> length rec = 8 \<and> (\<exists>w. value_from_record rec (0, TYPE_INT, 4) = Ret w \<and> v_int w = 5)"
proof -
  let ?vs = "[no_value\<lparr>v_type := TYPE_INT, v_int := 5\<rparr>, no_value\<lparr>v_type := TYPE_STRING, v_str := ''ab''\<rparr>]"
  have t: "laid_out [''t'' \<mapsto> ex_tab] ''t'' ex_tab" by (simp add: laid_out_def ex_tab_def numerics_ok_def)
  have l: "\<forall>v \<in> set [IntLit 5, StringLit ''ab'']. lit_ok v" by (simp add: char_byte_def)
  have a: "analyze_insert ex_fp [''t'' \<mapsto> ex_tab] ''t'' [IntLit 5, StringLit ''ab''] = Ret ?vs"
    by (simp add: analyze_insert_def check_table_exists_def get_table_def ex_tab_def check_value_type_and_len_def coerce_def no_value_def Let_def)
  obtain ws rec where w: "InsertExecutor ex_tab ?vs = Ret ws" "insert_record_of (\<lambda>n. replicate n 255) ex_tab ws = Ret rec" "length rec = total_len (tm_cols ex_tab)"
      "\<forall>i < length [IntLit 5, StringLit ''ab'']. \<exists>w. value_from_record rec (bound_of (tm_cols ex_tab ! i)) = Ret w \<and> same_value w (?vs ! i)"
    using insert_record_roundtrip [OF t l a, of "\<lambda>n. replicate n 255"] by auto
  have "\<exists>w. value_from_record rec (0, TYPE_INT, 4) = Ret w \<and> v_int w = 5" using w(4) [rule_format, of 0] by (auto simp: bound_of_def ex_tab_def same_value_def no_value_def)
  then show ?thesis using w(1-3) by (auto simp: ex_tab_def)
qed

subsection \<open>UPDATE\<close>

text \<open>An accepted expression for a column.\<close>

fun upd_ok :: "col_meta list \<Rightarrow> col_meta \<Rightarrow> update_expr \<Rightarrow> bool" where
  "upd_ok cs target (UpdValue v) \<longleftrightarrow> fresh_value target v"
| "upd_ok cs target (UpdColumn c b) \<longleftrightarrow> has_col cs c \<and> cm_type (col_of cs c) = cm_type target"
| "upd_ok cs target (UpdAdd l r) \<longleftrightarrow> upd_ok cs target l \<and> upd_ok cs target r \<and> cm_type target \<noteq> TYPE_STRING"
| "upd_ok cs target (UpdSub l r) \<longleftrightarrow> upd_ok cs target l \<and> upd_ok cs target r \<and> cm_type target \<noteq> TYPE_STRING"

lemma find_col:
  assumes "\<forall>c \<in> set cs. cm_tab c = name" "find (\<lambda>c. cm_name c = n) cs = Some m"
  shows "has_col cs \<lparr>tc_tab = name, tc_col = n\<rparr> \<and> col_of cs \<lparr>tc_tab = name, tc_col = n\<rparr> = m"
proof -
  have "find_pos (col_is \<lparr>tc_tab = name, tc_col = n\<rparr>) cs = find_pos (\<lambda>c. cm_name c = n) cs" using assms(1) by (induction cs) (auto simp: col_is_def)
  then show ?thesis using assms(2) by (auto simp: has_col_def col_of_def find_find_pos)
qed

lemma tab_col_of:
  assumes "laid_out C name tab" "tab_get_col tab n = Ret m"
  shows "has_col (tm_cols tab) \<lparr>tc_tab = name, tc_col = n\<rparr> \<and> col_of (tm_cols tab) \<lparr>tc_tab = name, tc_col = n\<rparr> = m \<and> m \<in> set (tm_cols tab) \<and> cm_name m = n"
proof -
  have f: "find (\<lambda>c. cm_name c = n) (tm_cols tab) = Some m" using assms(2) by (auto simp: tab_get_col_def split: option.splits)
  have "m \<in> set (tm_cols tab) \<and> cm_name m = n" using f by (auto simp: find_Some_iff)
  then show ?thesis using find_col [OF _ f, of name] assms(1) by (simp add: laid_out_def)
qed

lemma check_arith_numeric: "check_arith C name target l r = Ret u \<Longrightarrow> cm_type target \<noteq> TYPE_STRING"
  by (cases l; cases r) (auto simp: check_arith_def othen_Ret_iff split: if_splits)

lemma convert_update_ok:
  assumes l: "laid_out C name tab"
  shows "convert_update_expr fp C name target (tm_cols tab) e = Ret e' \<Longrightarrow> upd_ok (tm_cols tab) target e'"
proof (induction e arbitrary: e')
  case (SvUpdValue v)
  then show ?case using check_value_fresh(1) by (auto simp: othen_Ret_iff)
next
  case (SvUpdColumn c)
  then obtain col src where s: "tc_tab col = name" "tab_get_col tab (tc_col col) = Ret src" "cm_type src = cm_type target" "e' = UpdColumn col None"
    using l by (auto simp: othen_Ret_iff get_table_def laid_out_def split: if_splits)
  have "col = \<lparr>tc_tab = name, tc_col = tc_col col\<rparr>" using s(1) by simp
  then show ?case using tab_col_of [OF l s(2)] s(3,4) by simp
next
  case (SvUpdAdd a b)
  then show ?case using check_arith_numeric by (auto simp: othen_Ret_iff)
next
  case (SvUpdSub a b)
  then show ?case using check_arith_numeric by (auto simp: othen_Ret_iff)
qed

text \<open>A bound expression evaluates to a value of the type of its target.\<close>

fun upd_bound :: "col_meta list \<Rightarrow> col_meta \<Rightarrow> update_expr \<Rightarrow> bool" where
  "upd_bound cs target (UpdValue v) \<longleftrightarrow> fresh_value target v"
| "upd_bound cs target (UpdColumn c b) \<longleftrightarrow> (\<exists>m \<in> set cs. b = Some (bound_of m) \<and> cm_type m = cm_type target)"
| "upd_bound cs target (UpdAdd l r) \<longleftrightarrow> upd_bound cs target l \<and> upd_bound cs target r \<and> cm_type target \<noteq> TYPE_STRING"
| "upd_bound cs target (UpdSub l r) \<longleftrightarrow> upd_bound cs target l \<and> upd_bound cs target r \<and> cm_type target \<noteq> TYPE_STRING"

lemma bind_update_ok: "upd_ok cs target e \<Longrightarrow> \<exists>e'. bind_update_expr cs e = Ret e' \<and> upd_bound cs target e'"
proof (induction e)
  case (UpdColumn c b)
  then show ?case using col_of_in [of cs c] by auto
next
  case (UpdAdd l r)
  then obtain l' r' where "bind_update_expr cs l = Ret l'" "upd_bound cs target l'" "bind_update_expr cs r = Ret r'" "upd_bound cs target r'" by auto
  then show ?case using UpdAdd.prems by simp
next
  case (UpdSub l r)
  then obtain l' r' where "bind_update_expr cs l = Ret l'" "upd_bound cs target l'" "bind_update_expr cs r = Ret r'" "upd_bound cs target r'" by auto
  then show ?case using UpdSub.prems by simp
qed simp

lemma value_from_record_typed:
  assumes "schema_ok cs (length rec)" "m \<in> set cs"
  shows "\<exists>v. value_from_record rec (bound_of m) = Ret v \<and> v_type v = cm_type m \<and> v_raw v = None"
  using schema_okD [OF assms] by (cases "cm_type m") (auto simp: value_from_record_def bound_of_def read_int_def read_float_def set_float_def no_value_def Let_def)

lemma eval_arith_typed:
  "v_type l = ty \<Longrightarrow> v_type r = ty \<Longrightarrow> ty \<noteq> TYPE_STRING \<Longrightarrow> \<exists>v. eval_arith ar fp ty sub l r = Ret v \<and> v_type v = ty \<and> v_raw v = None"
  by (cases ty) (auto simp: eval_arith_def set_float_def no_value_def Let_def)

lemma eval_update_typed:
  assumes "schema_ok cs (length old)"
  shows "upd_bound cs target e \<Longrightarrow> \<exists>v. eval_update_expr ar fp cs old (cm_type target) e = Ret v \<and> v_type v = cm_type target \<and> v_raw v = None"
proof (induction e)
  case (UpdColumn c b)
  then show ?case using value_from_record_typed [OF assms] by fastforce
next
  case (UpdAdd l r)
  then show ?case using eval_arith_typed [of _ "cm_type target" _ ar fp False] by fastforce
next
  case (UpdSub l r)
  then show ?case using eval_arith_typed [of _ "cm_type target" _ ar fp True] by fastforce
qed (simp add: fresh_value_def)

text \<open>A clause bound to the column \<open>m\<close>.\<close>

definition clause_for :: "col_meta list \<Rightarrow> col_meta \<Rightarrow> set_clause \<Rightarrow> bool" where
  "clause_for cs m cl \<longleftrightarrow> m \<in> set cs \<and> bound_target cl = bound_of m \<and> upd_bound cs m (set_rhs cl)"

lemma apply_set_ok:
  assumes s: "schema_ok cs (length old)" "length new = length old" and c: "clause_for cs m cl"
  shows "apply_set ar fp cs old cl new = Throw StringOverflowError
    \<or> (\<exists>v. eval_update_expr ar fp cs old (cm_type m) (set_rhs cl) = Ret v \<and> length (value_bytes (cm_len m) v) = cm_len m
        \<and> apply_set ar fp cs old cl new = Ret (take (cm_offset m) new @ value_bytes (cm_len m) v @ drop (cm_offset m + cm_len m) new))"
proof -
  have m: "m \<in> set cs" "bound_target cl = bound_of m" "upd_bound cs m (set_rhs cl)" using c by (simp_all add: clause_for_def)
  obtain v where v: "eval_update_expr ar fp cs old (cm_type m) (set_rhs cl) = Ret v" "v_type v = cm_type m" "v_raw v = None" using eval_update_typed [OF s(1) m(3)] by blast
  have o1: "cm_offset m + cm_len m \<le> length new" "cm_type m \<noteq> TYPE_STRING \<longrightarrow> cm_len m = 4" using schema_okD [OF s(1) m(1)] s(2) by simp_all
  have k: "coerce fp (cm_type m) v = v" using v(2) by (auto simp: coerce_def)
  show ?thesis
  proof (cases "cm_type m = TYPE_STRING \<and> cm_len m < length (v_str v)")
    case True
    then show ?thesis using v m(2) k by (simp add: apply_set_def bound_of_def init_raw_def Let_def)
  next
    case False
    then have t: "value_typed m v" using v by (auto simp: value_typed_def)
    obtain w where w: "init_raw (cm_len m) v = Ret w" "v_raw w = Some (value_bytes (cm_len m) v)" using init_raw_ok [OF t o1(2)] v(3) by auto
    have "length (value_bytes (cm_len m) v) = cm_len m" using length_value_bytes [OF t o1(2)] .
    then show ?thesis using v m(2) k w o1 by (simp add: apply_set_def bound_of_def Let_def memcpy_ok)
  qed
qed

lemma field_written:
  assumes "length raw = cm_len m" "cm_offset m + cm_len m \<le> length new"
  shows "field (take (cm_offset m) new @ raw @ drop (cm_offset m + cm_len m) new) m = raw"
  using assms by (simp add: field_def)

lemma field_untouched:
  assumes "length raw = cm_len m" "cm_offset m + cm_len m \<le> length new" "cm_offset c + cm_len c \<le> cm_offset m \<or> cm_offset m + cm_len m \<le> cm_offset c"
  shows "field (take (cm_offset m) new @ raw @ drop (cm_offset m + cm_len m) new) c = field new c"
  using assms(3)
proof
  assume "cm_offset c + cm_len c \<le> cm_offset m"
  then have "cm_offset c \<le> cm_offset m" "cm_len c \<le> cm_offset m - cm_offset c" by simp_all
  then show ?thesis using assms(1,2) by (simp add: field_def drop_take)
next
  assume "cm_offset m + cm_len m \<le> cm_offset c"
  then show ?thesis using assms(1,2) by (simp add: field_def)
qed

lemma tiled_apart: "tile 0 cs = cs \<Longrightarrow> c \<in> set cs \<Longrightarrow> m \<in> set cs \<Longrightarrow> c \<noteq> m \<Longrightarrow>
    cm_offset c + cm_len c \<le> cm_offset m \<or> cm_offset m + cm_len m \<le> cm_offset c"
  using tiled_disjoint [of cs] by (auto simp: in_set_conv_nth)

definition sets_done :: "fp_arith \<Rightarrow> fp_ops \<Rightarrow> col_meta list \<Rightarrow> byte list \<Rightarrow> col_meta list \<Rightarrow> set_clause list \<Rightarrow> byte list \<Rightarrow> byte list \<Rightarrow> bool" where
  "sets_done ar fp cs old ms cls new res \<longleftrightarrow> length res = length new \<and> (\<forall>c \<in> set cs. c \<notin> set ms \<longrightarrow> field res c = field new c)
     \<and> list_all2 (\<lambda>m cl. \<exists>v. eval_update_expr ar fp cs old (cm_type m) (set_rhs cl) = Ret v \<and> field res m = value_bytes (cm_len m) v) ms cls"

lemma apply_sets_ok:
  assumes t: "tile 0 cs = cs" and s: "schema_ok cs (length old)"
  shows "list_all2 (clause_for cs) ms cls \<Longrightarrow> distinct ms \<Longrightarrow> length new = length old \<Longrightarrow>
    apply_sets ar fp cs old cls new = Throw StringOverflowError \<or> (\<exists>res. apply_sets ar fp cs old cls new = Ret res \<and> sets_done ar fp cs old ms cls new res)"
proof (induction ms cls arbitrary: new rule: list_all2_induct)
  case Nil
  then show ?case by (simp add: sets_done_def)
next
  case (Cons m ms cl cls)
  have m: "m \<in> set cs" "cm_offset m + cm_len m \<le> length new" using Cons.hyps(1) schema_okD [OF s, of m] Cons.prems(2) by (auto simp: clause_for_def)
  show ?case
  proof (cases "apply_set ar fp cs old cl new = Throw StringOverflowError")
    case False
    then obtain v where v: "eval_update_expr ar fp cs old (cm_type m) (set_rhs cl) = Ret v" "length (value_bytes (cm_len m) v) = cm_len m"
        "apply_set ar fp cs old cl new = Ret (take (cm_offset m) new @ value_bytes (cm_len m) v @ drop (cm_offset m + cm_len m) new)"
      using apply_set_ok [OF s Cons.prems(2) Cons.hyps(1), of ar fp] by blast
    let ?new = "take (cm_offset m) new @ value_bytes (cm_len m) v @ drop (cm_offset m + cm_len m) new"
    have l: "length ?new = length new" using v(2) m(2) by simp
    have "sets_done ar fp cs old (m # ms) (cl # cls) new res" if r: "sets_done ar fp cs old ms cls ?new res" for res
    proof -
      have "field res c = field new c" if "c \<in> set cs" "c \<notin> set (m # ms)" for c
        using r that field_untouched [OF v(2) m(2), of c] tiled_apart [OF t that(1) m(1)] by (simp add: sets_done_def)
      moreover have "field res m = value_bytes (cm_len m) v" using r m(1) Cons.prems(1) field_written [OF v(2) m(2)] by (simp add: sets_done_def)
      ultimately show ?thesis using r l v(1) by (simp add: sets_done_def)
    qed
    then show ?thesis using Cons.IH [of ?new] Cons.prems l v(3) by auto
  qed simp
qed


definition ex_sets :: "(string \<times> sv_update_expr) list" where
  "ex_sets = [(''a'', SvUpdAdd (SvUpdColumn (ex_sv [] ''a'')) (SvUpdValue (IntLit 1))), (''b'', SvUpdValue (StringLit ''xy''))]"

definition ex_clauses :: "(tab_col \<times> update_expr) list" where
  "ex_clauses = [(\<lparr>tc_tab = ''t'', tc_col = ''a''\<rparr>, UpdAdd (UpdColumn \<lparr>tc_tab = ''t'', tc_col = ''a''\<rparr> None) (UpdValue (no_value\<lparr>v_type := TYPE_INT, v_int := 1\<rparr>))),
     (\<lparr>tc_tab = ''t'', tc_col = ''b''\<rparr>, UpdValue (no_value\<lparr>v_type := TYPE_STRING, v_str := ''xy''\<rparr>))]"

definition ex_arith :: fp_arith where
  "ex_arith = \<lparr>f32_add = (\<lambda>a b. a), f32_sub = (\<lambda>a b. a)\<rparr>"

definition ex_bound :: "set_clause list" where
  "ex_bound = [\<lparr>set_lhs = \<lparr>tc_tab = ''t'', tc_col = ''a''\<rparr>,
       set_rhs = UpdAdd (UpdColumn \<lparr>tc_tab = ''t'', tc_col = ''a''\<rparr> (Some (0, TYPE_INT, 4))) (UpdValue (no_value\<lparr>v_type := TYPE_INT, v_int := 1\<rparr>)), bound_target = (0, TYPE_INT, 4)\<rparr>,
     \<lparr>set_lhs = \<lparr>tc_tab = ''t'', tc_col = ''b''\<rparr>, set_rhs = UpdValue (no_value\<lparr>v_type := TYPE_STRING, v_str := ''xy''\<rparr>), bound_target = (4, TYPE_STRING, 4)\<rparr>]"


end
