(* ===== verification/Spec2Isabelle.thy ===== *)
theory Spec2Isabelle
  imports Rmdb_Bitmap Rmdb_Replacer Rmdb_Disk Rmdb_Log_Scan Rmdb_Buffer_Coherence Rmdb_Heap_Scan Rmdb_Heap_Reserve Rmdb_Recovery
    Rmdb_Index_Coalesce Rmdb_Mvcc_Props Rmdb_Exec_Props Rmdb_Join_Props Rmdb_Dml_Props
begin

text \<open>
  A verification development for RMDB, a relational database kernel in C++. The system is a stack: a server parses and
  plans SQL and runs executors; these work on tables (heap files of fixed-size records) and B+ tree indexes,
  under multi-version concurrency control; pages of both are cached by a buffer pool over a disk manager; changes are
  logged to a write-ahead log, which recovery replays. The development models the storage engine, from the bits of a page to the
  records of a table and the log, bottom up, and the way of a query from its parsed statement through analysis, planner and executors to the printed rows.

  \<^bold>\<open>Theories and the code they model\<close> (paths under \<^verbatim>\<open>src/src\<close>)

  \<^item> \<open>Rmdb_Prelude\<close>: constants of \<^verbatim>\<open>common/config.h\<close>, the errors of \<^verbatim>\<open>errors.h\<close>, the result type \<open>outcome\<close>
    (a value, an exception, or \<open>Wait\<close>: the call waits for another thread), signed 32-bit wrap-around, little-endian integers.
  \<^item> \<open>Rmdb_Bitmap\<close>: \<^verbatim>\<open>record/bitmap.h\<close>, on lists of 8-bit words.
  \<^item> \<open>Rmdb_Replacer\<close>: \<^verbatim>\<open>replacer/lru_replacer.cpp\<close>. The list and the hash table are separate fields; the locale
    \<open>replacer\<close> states what the buffer pool relies on (a queue of evictable frames) and is interpreted on them.
  \<^item> \<open>Rmdb_Disk\<close>: \<^verbatim>\<open>storage/disk_manager.cpp\<close> over a model of files and descriptors in which a write may be short;
    the locale \<open>page_store\<close> states the laws of page reads and writes.
  \<^item> \<open>Rmdb_Log_Record\<close>, \<open>Rmdb_Log_Manager\<close>, \<open>Rmdb_Log_Scan\<close>: \<^verbatim>\<open>recovery/log_manager.h\<close> and
    \<^verbatim>\<open>log_manager.cpp\<close>, and the analysis pass of \<^verbatim>\<open>recovery/log_recovery.cpp\<close>. The flush thread is three
    atomic turns (swap the buffers, write, publish), interleaved with the other operations by the step relation \<open>wal_step\<close>.
  \<^item> \<open>Rmdb_Page\<close>, \<open>Rmdb_Buffer_Pool\<close>: \<^verbatim>\<open>storage/page.h\<close> and \<^verbatim>\<open>storage/buffer_pool_manager.cpp\<close>: the critical sections
    of the code are atomic definitions and each public operation composes them as the code does.
    \<open>Rmdb_Buffer_Inv\<close>, \<open>Rmdb_Buffer_Ops\<close>, \<open>Rmdb_Buffer_Load\<close> and \<open>Rmdb_Buffer_Props\<close> hold the invariant of page tables,
    frames and counters and its preservation in the step relation \<open>bpm_step\<close>; \<open>Rmdb_Wal_Protocol\<close> proves the write-ahead rule
    through the locales \<open>wal_barrier\<close> and \<open>wal_protocol\<close>, interpreted on the batch barrier and on the single-LSN barrier of the code;
    \<open>Rmdb_Buffer_Coherence\<close> proves that caching is transparent.
  \<^item> \<open>Rmdb_Heap_Page\<close>, \<open>Rmdb_Heap\<close>: \<^verbatim>\<open>record/rm_defs.h\<close>, \<^verbatim>\<open>rm_manager.h\<close> (layout), \<^verbatim>\<open>rm_file_handle.cpp\<close>,
    \<^verbatim>\<open>rm_scan.cpp\<close>: pages are 4096 bytes with the header, bitmap and slots at the offsets of the code; the file sees the pages
    through the buffer pool (\<open>hp_pages\<close>), justified by the transparency of fetches.
    \<open>Rmdb_Heap_Inv\<close> and \<open>Rmdb_Heap_Props\<close> hold the invariant of the free list and of the record counts, the abstraction \<open>contents\<close> (a map
    from record identifiers to records) and the refinement of the operations; \<open>Rmdb_Heap_Scan\<close> the scan and \<open>Rmdb_Heap_Reserve\<close> the
    reservation of slots for concurrent insertions.
  \<^item> \<open>Rmdb_Recovery\<close>: redo and undo of \<^verbatim>\<open>recovery/log_recovery.cpp\<close> on the heap files of the open tables, through the locale
    \<open>record_store\<close>, interpreted on the operations of the heap file.
  \<^item> \<open>Rmdb_Watermark\<close>: \<^verbatim>\<open>transaction/watermark.cpp\<close>, the map of read timestamps and the watermark below which no running transaction reads.
  \<^item> \<open>Rmdb_Index_Key\<close>, \<open>Rmdb_Index_Node\<close>, \<open>Rmdb_Index\<close>: \<^verbatim>\<open>index/ix_defs.h\<close>, \<^verbatim>\<open>ix_index_handle.h\<close>,
    \<^verbatim>\<open>ix_index_handle.cpp\<close> and \<^verbatim>\<open>ix_scan.cpp\<close>: the order of keys, the nodes (as pairs and as the bytes of a page), and the B+ tree with all its
    operations on the nodes of a file. \<open>Rmdb_Index_Tree\<close> holds the abstract trees, their well-formedness, the positions in a tree (a list of frames) and the
    representation of a tree by nodes; \<open>Rmdb_Index_Insert\<close> the splits on the way up; \<open>Rmdb_Index_Ops\<close> the invariant of an index with the list of its leaves;
    \<open>Rmdb_Index_Props\<close> the refinement of lookup and insertion and the tickets of earlier lookups; \<open>Rmdb_Index_Delete\<close> the rebalancing of two neighbours, for leaves and
    internal nodes alike; \<open>Rmdb_Index_Coalesce\<close> merges, the way up after a deletion and the refinement of deletion.
  \<^item> \<open>Rmdb_Mvcc\<close>: the version store of \<^verbatim>\<open>transaction/transaction_manager.cpp\<close> with \<^verbatim>\<open>transaction.h\<close> and \<^verbatim>\<open>txn_defs.h\<close>: transactions, tuple states and undo logs, the write check, visibility,
    the two phases of a commit, abort, statement roll back, retirement, static checkpoints and vacuum; the records of the tables are a map. \<open>Rmdb_Mvcc_Inv\<close> holds the step relation \<open>tm_step\<close> of sessions and
    background work, the chains of versions and the invariant; \<open>Rmdb_Mvcc_Steps\<close>, \<open>Rmdb_Mvcc_Writes\<close>, \<open>Rmdb_Mvcc_Txn\<close> and \<open>Rmdb_Mvcc_Gc\<close> its preservation; \<open>Rmdb_Mvcc_Props\<close> the properties.
  \<^item> \<open>Rmdb_Catalog\<close>, \<open>Rmdb_Exec\<close>: the metadata of \<^verbatim>\<open>system/sm_meta.h\<close>, values and conditions of \<^verbatim>\<open>common/common.h\<close>, and the executors of \<^verbatim>\<open>execution\<close> for queries without an index, built by
    \<^verbatim>\<open>portal.h\<close> and driven by \<^verbatim>\<open>execution_manager.cpp\<close>. An executor is a record of methods over a state; \<open>Rmdb_Exec_Spec\<close> has the meaning of a plan as a list of rows, \<open>Rmdb_Exec_Iter\<close>,
    \<open>Rmdb_Exec_Buffers\<close> and \<open>Rmdb_Exec_Aggregate\<close> the contracts of the operators, \<open>Rmdb_Exec_Props\<close> the refinement.
  \<^item> \<open>Rmdb_Analyze\<close>, \<open>Rmdb_Planner\<close>: the analysis of \<^verbatim>\<open>analyze/analyze.cpp\<close> on the statements of \<^verbatim>\<open>parser/ast.h\<close>, and \<^verbatim>\<open>optimizer/planner.cpp\<close>. \<open>Rmdb_Analyze_Props\<close> has what the analysis guarantees,
    \<open>Rmdb_Plan_Props\<close> that the plans of accepted queries are well typed, \<open>Rmdb_Join_Props\<close> that the join plan computes the filtered product.
  \<^item> \<open>Rmdb_Dml\<close>: the analysis of INSERT, UPDATE and DELETE and the records that \<^verbatim>\<open>execution/executor_insert.h\<close> and \<^verbatim>\<open>executor_update.h\<close> build; \<open>Rmdb_Dml_Props\<close> has their properties.

  \<^bold>\<open>What is shown\<close>

  Bits, replacer and disk: C1, C2, C4, C5. Log: the record format round trips (C6; C7 exhibits what its reader does not check),
  flushed records are durable (C8), the restart file is atomic (C9), a restart establishes the invariant of the log (C10) and reads
  exactly the complete records (C11). Buffer pool: C14 for the bookkeeping, C15 for the write-ahead rule, C16 for
  transparency. Heap file: the layout fits (C17), insertion, update, deletion and recovery's operations refine a map (C18 to C20), a scan
  enumerates it (C21), reservations are exclusive (C22, C23); C24 exhibits a page number that is lost. Recovery: redo and undo refine updates of
  the tables (C25) and restore exactly the committed changes (C26). The watermark is the least read timestamp (C27). Index: keys are ordered linearly (C28),
  the bytes of a node implement its pairs (C29), insertion, lookup and deletion of the tree refine a sorted list (C31, C32, C39) and
  tickets lead to the right leaf (C33). Version store: snapshots are stable (C34), commits are atomic and first committers win (C35), aborts leave no trace (C36), publications make progress in
  the order of their timestamps (C37), and the optimistic read is valid (C38). Queries: accepted statements
  run without an error and with the types the analysis gave (C3), the join plan is equivalent to filtering the product of the tables (C12), and the executors deliver the rows of the plan (C40); the values
  of an INSERT are read back from its record (C13), and an UPDATE sets exactly the columns it names (C30).

  \<^bold>\<open>Bounds and fuel\<close>

  Page numbers, LSNs and counters are integers with the wrap-around of \<open>int32_t\<close> written where the code increments them; sizes
  are naturals. A loop that waits for a condition variable, or that could follow a cyclic chain, has fuel, and running out is \<open>Wait\<close>:
  making room in the log buffer and deleting a page take one and two rounds when no other thread interferes; a write-back batch
  takes at most as many rounds as pages; walks over the free list have the number of pages of the file as fuel, which
  the invariant makes enough (C18 and C20 state that the operations return); reserving a slot takes two rounds; the descent in an index and the way up after a split or a merge have the
  number of pages of the index as fuel, which is more than the height of a tree in order (C31, C32 and C39 state that the operations return); the walk over the versions of a tuple has two rounds more than the next timestamp
  as fuel, and timestamps decrease along the versions (C34 states that reads return). The loops of the executors and of the constant propagation are \<open>partial_function (option)\<close>, and not
  returning is \<open>None\<close>: C40 states that a query returns, \<open>plan_generation_ends\<close> that planning does. Arithmetic on floats is a parameter (\<open>fp_ops\<close>) about which nothing is assumed; their order is that of their bits.

  \<^bold>\<open>Not modelled\<close>

  Latches and mutexes other than as the atomicity of steps; the lock manager, whose functions return true without an effect; statistics and
  directory creation; the generated parser; the server, the client and the vendored test framework. Of the index, the pin that keeps its root resident and
  a null page from a buffer pool without frames are left out, and its structural epoch is a natural number without wrap-around. The scan between two index positions, the index file
  manager, the registries of unique keys and stale index entries and the serializable graph of the transaction manager, the rebuilding of the indexes after recovery, index scans and index joins, the read records of serializable transactions, the loops of UPDATE and DELETE over their candidates with the registration of
  their writes, DDL and EXPLAIN are not modelled.
\<close>

end
